(* ===== verification/SL_Prelude.thy ===== *)
theory SL_Prelude
  imports Main "HOL-Library.Word" "HOL-Library.Monad_Syntax"
begin

text \<open>
  Shared vocabulary of the development: the integer types of
  \<^verbatim>\<open>include/SL_DataType.h\<close> as words, raw memory blocks as byte lists with bounds-checked
  access, the allocator of \<^verbatim>\<open>include/SL_Malloc.h\<close> as a parameter, and the little-endian byte
  representation of an integer, on which every store of an integer through a character
  pointer rests.

  An access outside a block is undefined behaviour in the source.  Here it is the value
  \<open>None\<close> of an option type, so a theorem that an operation returns \<open>Some\<close> also says that
  the operation stays inside its blocks.
\<close>

unbundle bit_operations_syntax

section \<open>Integer types\<close>

type_synonym byte = "8 word"
type_synonym uint16 = "16 word"
type_synonym uint = "32 word"
type_synonym uint64 = "64 word"

text \<open>
  A C \<^verbatim>\<open>int\<close> that never leaves its range is an \<open>int\<close>; where the code narrows or converts
  one, the conversion is written with the functions below.
\<close>

definition to_uint :: "int \<Rightarrow> uint" where
  "to_uint i = word_of_int i"

definition to_int8 :: "int \<Rightarrow> int" where
  "to_int8 i = sint (word_of_int i :: byte)"

definition to_int16 :: "int \<Rightarrow> int" where
  "to_int16 i = sint (word_of_int i :: uint16)"

definition to_int32 :: "int \<Rightarrow> int" where
  "to_int32 i = sint (word_of_int i :: uint)"

named_theorems mem_simps \<open>bounds-checked memory access\<close>
named_theorems sl_defs \<open>definitions unfolded by the component proofs\<close>

lemma unat_sub_le: "unat b \<le> unat a \<Longrightarrow> unat (a - b :: 'a::len word) = unat a - unat b"
  by (simp add: unat_sub word_le_nat_alt)

lemma unat_add_small:
  "unat a + unat b < 2 ^ LENGTH('a) \<Longrightarrow> unat (a + b :: 'a::len word) = unat a + unat b"
  by (simp add: unat_word_ariths)

lemma unat_lt32 [simp]: "unat (w :: uint) < 4294967296"
  using unsigned_less [of w, where 'a = nat] by simp

lemma unat_le_lt32: "n \<le> unat (w :: uint) \<Longrightarrow> n < 4294967296"
  using unat_lt32 [of w] by linarith

lemma sint_word_of_int_small:
  assumes "0 \<le> i" "i < 2 ^ (LENGTH('a) - 1)"
  shows "sint (word_of_int i :: 'a::len word) = i"
  using assms by (simp add: signed_take_bit_int_eq_self sint_sbintrunc')

lemma sint_unat_small: "unat (w :: uint) < 2 ^ 31 \<Longrightarrow> sint w = int (unat w)"
proof (cases w rule: word_nat_cases)
  case (1 n)
  assume "unat w < 2 ^ 31"
  then show ?thesis using 1 sint_word_of_int_small [of "int n", where 'a = 32] by (simp add: unat_of_nat)
qed

lemma take_append_exact: "length a = n \<Longrightarrow> take (n + k) (a @ b) = a @ take k b"
  by simp

lemma drop_append_exact: "length a = n \<Longrightarrow> drop (n + k) (a @ b) = drop k b"
  by simp

section \<open>Memory blocks\<close>

definition mem_get :: "'a list \<Rightarrow> nat \<Rightarrow> nat \<Rightarrow> 'a list option" where
  "mem_get m off n = (if off + n \<le> length m then Some (take n (drop off m)) else None)"

definition mem_put :: "'a list \<Rightarrow> nat \<Rightarrow> 'a list \<Rightarrow> 'a list option" where
  "mem_put m off d =
     (if off + length d \<le> length m
      then Some (take off m @ d @ drop (off + length d) m) else None)"

text \<open>\<^verbatim>\<open>sl_memcpy(dst + off, src, n)\<close> for blocks that do not overlap.\<close>

definition mem_copy :: "'a list \<Rightarrow> nat \<Rightarrow> 'a list \<Rightarrow> nat \<Rightarrow> 'a list option" where
  "mem_copy dst off src n = do { d \<leftarrow> mem_get src 0 n; mem_put dst off d }"

lemma mem_get_ok [mem_simps]:
  "off + n \<le> length m \<Longrightarrow> mem_get m off n = Some (take n (drop off m))"
  by (simp add: mem_get_def)

lemma mem_get_fail [mem_simps]: "length m < off + n \<Longrightarrow> mem_get m off n = None"
  by (simp add: mem_get_def)

lemma mem_put_ok [mem_simps]:
  "off + length d \<le> length m \<Longrightarrow>
     mem_put m off d = Some (take off m @ d @ drop (off + length d) m)"
  by (simp add: mem_put_def)

lemma mem_put_fail [mem_simps]: "length m < off + length d \<Longrightarrow> mem_put m off d = None"
  by (simp add: mem_put_def)

lemma mem_copy_ok [mem_simps]:
  "n \<le> length src \<Longrightarrow> off + n \<le> length dst \<Longrightarrow>
     mem_copy dst off src n = Some (take off dst @ take n src @ drop (off + n) dst)"
  by (simp add: mem_copy_def mem_get_def mem_put_def min_absorb2)

lemma mem_copy_src_fail [mem_simps]: "length src < n \<Longrightarrow> mem_copy dst off src n = None"
  by (simp add: mem_copy_def mem_get_def)

lemma mem_copy_dst_fail [mem_simps]: "length dst < off + n \<Longrightarrow> mem_copy dst off src n = None"
  by (simp add: mem_copy_def mem_get_def mem_put_def)

lemma mem_get_prefix: "length a = n \<Longrightarrow> mem_get (a @ r) 0 n = Some a"
  by (auto simp: mem_get_def)

lemma length_mem_put: "mem_put m off d = Some m' \<Longrightarrow> length m' = length m"
  by (auto simp: mem_put_def split: if_splits)

lemma length_mem_copy: "mem_copy dst off src n = Some m' \<Longrightarrow> length m' = length dst"
  by (auto simp: mem_copy_def mem_get_def bind_eq_Some_conv split: if_splits dest: length_mem_put)

text \<open>One element of a block.\<close>

definition arr_get :: "'a list \<Rightarrow> nat \<Rightarrow> 'a option" where
  "arr_get m i = (if i < length m then Some (m ! i) else None)"

definition arr_set :: "'a list \<Rightarrow> nat \<Rightarrow> 'a \<Rightarrow> 'a list option" where
  "arr_set m i v = (if i < length m then Some (m[i := v]) else None)"

text \<open>The window \<open>[i, j)\<close> of a block, which the buffers use for their live data.\<close>

definition window :: "nat \<Rightarrow> nat \<Rightarrow> 'a list \<Rightarrow> 'a list" where
  "window i j m = take (j - i) (drop i m)"

lemma length_window [simp]: "i \<le> j \<Longrightarrow> j \<le> length m \<Longrightarrow> length (window i j m) = j - i"
  by (simp add: window_def)

lemma window_same [simp]: "window i i m = []"
  by (simp add: window_def)

lemma window_append:
  assumes "i \<le> j" "j \<le> length m"
  shows "window i (j + length d) (take j m @ d @ r) = window i j m @ d"
proof -
  have "drop i (take j m @ d @ r) = drop i (take j m) @ d @ r"
    using assms by simp
  moreover have "length (drop i (take j m)) = j - i" and "drop i (take j m) = take (j - i) (drop i m)"
    using assms by (simp_all add: drop_take)
  moreover have "j + length d - i = (j - i) + length d"
    using assms by simp
  ultimately show ?thesis by (simp add: window_def)
qed

lemma window_split:
  assumes "i \<le> k" "k \<le> j"
  shows "window i j m = window i k m @ window k j m"
proof -
  have "j - i = (k - i) + (j - k)" using assms by simp
  then have "take (j - i) (drop i m) = take (k - i) (drop i m) @ take (j - k) (drop (k - i) (drop i m))"
    by (simp only: take_add)
  then show ?thesis using assms by (simp add: window_def)
qed

lemma window_take: "i \<le> j \<Longrightarrow> n \<le> j - i \<Longrightarrow> take n (window i j m) = window i (i + n) m"
  by (simp add: window_def min_def)

lemma window_drop: "drop n (window i j m) = window (i + n) j m"
  by (simp add: window_def drop_take add.commute)

lemma window_take_ge: "j \<le> n \<Longrightarrow> window i j (take n m) = window i j m"
  by (simp add: window_def drop_take min_def)

lemma window_prefix: "j \<le> length m \<Longrightarrow> window i j (m @ r) = window i j m"
  by (simp add: window_def)

section \<open>The allocator\<close>

text \<open>
  \<^verbatim>\<open>sl_malloc\<close> and \<^verbatim>\<open>sl_realloc\<close> are macros over the C library's allocator
  (\<^verbatim>\<open>include/SL_Malloc.h\<close>).  The library is a parameter: whether a request of a size
  succeeds, and what the fresh bytes hold.  A block that grows keeps its contents.
\<close>

record allocator =
  heap_ok :: "nat \<Rightarrow> bool"
  heap_junk :: "nat \<Rightarrow> byte"

definition sl_malloc :: "allocator \<Rightarrow> nat \<Rightarrow> byte list option" where
  "sl_malloc h n = (if heap_ok h n then Some (map (heap_junk h) [0..<n]) else None)"

definition block :: "byte list option \<Rightarrow> byte list" where
  "block p = (case p of None \<Rightarrow> [] | Some m \<Rightarrow> m)"

definition sl_realloc :: "allocator \<Rightarrow> byte list option \<Rightarrow> nat \<Rightarrow> byte list option" where
  "sl_realloc h p n =
     (if heap_ok h n
      then Some (take n (block p) @ map (heap_junk h) [length (block p)..<n]) else None)"

lemma block_simps [simp]: "block None = []" "block (Some m) = m"
  by (simp_all add: block_def)

lemma length_sl_malloc: "sl_malloc h n = Some m \<Longrightarrow> length m = n"
  by (auto simp: sl_malloc_def split: if_splits)

lemma length_sl_realloc: "sl_realloc h p n = Some m \<Longrightarrow> length m = n"
  by (auto simp: sl_realloc_def split: if_splits)

lemma sl_malloc_cases:
  obtains (fail) "sl_malloc h n = None" "\<not> heap_ok h n"
  | (ok) m where "sl_malloc h n = Some m" "heap_ok h n" "length m = n"
  by (cases "heap_ok h n") (auto simp: sl_malloc_def)

lemma sl_realloc_cases:
  obtains (fail) "sl_realloc h p n = None" "\<not> heap_ok h n"
  | (ok) m where "sl_realloc h p n = Some m" "heap_ok h n" "length m = n"
      "\<And>k. k \<le> length (block p) \<Longrightarrow> k \<le> n \<Longrightarrow> take k m = take k (block p)"
  by (cases "heap_ok h n") (auto simp: sl_realloc_def min_def)

section \<open>Little-endian representation\<close>

definition le_bytes :: "nat \<Rightarrow> 'a::len word \<Rightarrow> byte list" where
  "le_bytes n w = map (\<lambda>i. ucast (drop_bit (8 * i) w)) [0..<n]"

fun le_word :: "byte list \<Rightarrow> 'a::len word" where
  "le_word [] = 0"
| "le_word (b # bs) = ucast b OR push_bit 8 (le_word bs)"

lemma length_le_bytes [simp]: "length (le_bytes n w) = n"
  by (simp add: le_bytes_def)

lemma bit_byte_lt: "bit (b :: byte) i \<Longrightarrow> i < 8"
  using bit_imp_le_length [of b i] by simp

lemma bit_le_word:
  "bit (le_word bs :: 'a::len word) i \<longleftrightarrow>
     i < LENGTH('a) \<and> i div 8 < length bs \<and> bit (bs ! (i div 8)) (i mod 8)"
proof (induction bs arbitrary: i)
  case Nil
  then show ?case by simp
next
  case (Cons b bs)
  show ?case
  proof (cases "i < 8")
    case True
    then show ?thesis by (auto simp: bit_simps)
  next
    case False
    then have "i div 8 = Suc ((i - 8) div 8)" and "i mod 8 = (i - 8) mod 8"
      by (simp_all add: le_div_geq le_mod_geq)
    with False show ?thesis
      using Cons.IH [of "i - 8"] bit_byte_lt [of b i] by (auto simp: bit_simps)
  qed
qed

lemma nth_le_bytes: "i < n \<Longrightarrow> le_bytes n w ! i = ucast (drop_bit (8 * i) w)"
  by (simp add: le_bytes_def)

lemma le_word_le_bytes:
  assumes "LENGTH('a) \<le> 8 * n"
  shows "le_word (le_bytes n w) = (w :: 'a::len word)"
proof (rule bit_word_eqI)
  fix i assume i: "i < LENGTH('a)"
  then have "i div 8 < n" using assms by (simp add: less_mult_imp_div_less mult.commute)
  with i show "bit (le_word (le_bytes n w) :: 'a word) i \<longleftrightarrow> bit w i"
    by (auto simp: bit_le_word nth_le_bytes bit_simps)
qed

lemma le_bytes_le_word:
  assumes "length bs = n" "8 * n \<le> LENGTH('a)"
  shows "le_bytes n (le_word bs :: 'a::len word) = bs"
proof (rule nth_equalityI)
  show "length (le_bytes n (le_word bs :: 'a word)) = length bs" using assms by simp
next
  fix i assume "i < length (le_bytes n (le_word bs :: 'a word))"
  then have i: "i < n" by simp
  have "bit (bs ! ((8 * i + j) div 8)) ((8 * i + j) mod 8) \<longleftrightarrow> bit (bs ! i) j" if "j < 8" for j
    using that by simp
  moreover have "8 * i + j < LENGTH('a)" and "(8 * i + j) div 8 < n" if "j < 8" for j
    using that i assms(2) by simp_all
  ultimately show "le_bytes n (le_word bs :: 'a word) ! i = bs ! i"
    using i assms(1) by (intro bit_word_eqI) (simp add: nth_le_bytes bit_simps bit_le_word)
qed

lemma le_word_take: "LENGTH('a) \<le> 8 * n \<Longrightarrow> le_word (take n bs) = (le_word bs :: 'a::len word)"
  by (rule bit_word_eqI) (auto simp: bit_le_word less_mult_imp_div_less mult.commute)

lemma le_word_append:
  "LENGTH('a) \<le> 8 * length bs \<Longrightarrow> le_word (bs @ r) = (le_word bs :: 'a::len word)"
  using le_word_take [of "length bs" "bs @ r", where 'a = 'a] by simp

lemma those_map: "(\<And>x. x \<in> set xs \<Longrightarrow> g x = Some (h x)) \<Longrightarrow> those (map g xs) = Some (map h xs)"
  by (induction xs) simp_all

end
