(* ===== verification/SL_ByteBuffer.thy ===== *)
theory SL_ByteBuffer
  imports SL_Prelude
begin

text \<open>
  The growable byte buffer \<^verbatim>\<open>SL_ByteBuffer\<close> of \<^verbatim>\<open>include/SL_ByteBuffer.h\<close>, the buffer
  that the message handlers, the send queues and the Thrift protocols work on.  A buffer is a
  block of \<^verbatim>\<open>buffer_size_\<close> bytes with a live window from \<^verbatim>\<open>data_begin_index_\<close> to
  \<^verbatim>\<open>data_end_index_\<close>.  The indices are 32-bit words and wrap as in the source.  The
  contract of the buffer is \<open>bb_bytes\<close>, the live bytes: writing appends to them, reading takes
  from their front, and \<open>bb_wf\<close> is the invariant every operation keeps.
\<close>

section \<open>State and construction\<close>

record byte_buffer =
  bb_buffer :: "byte list option"
  bb_buffer_size :: uint
  bb_data_begin :: uint
  bb_data_end :: uint
  bb_owner :: bool

definition bb_new :: byte_buffer where
  "bb_new = \<lparr>bb_buffer = None, bb_buffer_size = 0, bb_data_begin = 0, bb_data_end = 0,
             bb_owner = True\<rparr>"

definition bb_new_size :: "allocator \<Rightarrow> uint \<Rightarrow> byte_buffer" where
  "bb_new_size h n =
     (case sl_malloc h (unat n) of
        Some m \<Rightarrow> \<lparr>bb_buffer = Some m, bb_buffer_size = n, bb_data_begin = 0,
                   bb_data_end = 0, bb_owner = True\<rparr>
      | None \<Rightarrow> \<lparr>bb_buffer = None, bb_buffer_size = 0, bb_data_begin = 0,
                   bb_data_end = 0, bb_owner = True\<rparr>)"

text \<open>
  Copying moves the ownership: the result is the new buffer and what is left of the copied one,
  whose \<^verbatim>\<open>owner_\<close> flag is mutable.  Copying a buffer that does not own its block
  gives an empty buffer that owns nothing.
\<close>

definition bb_copy :: "byte_buffer \<Rightarrow> byte_buffer \<times> byte_buffer" where
  "bb_copy b =
     (if bb_owner b
      then (\<lparr>bb_buffer = bb_buffer b, bb_buffer_size = bb_buffer_size b,
             bb_data_begin = bb_data_begin b, bb_data_end = bb_data_end b, bb_owner = True\<rparr>,
            b\<lparr>bb_owner := False\<rparr>)
      else (\<lparr>bb_buffer = None, bb_buffer_size = 0, bb_data_begin = 0, bb_data_end = 0,
             bb_owner = False\<rparr>, b))"

text \<open>Assignment from another buffer drops the own block and then copies.\<close>

definition bb_assign :: "byte_buffer \<Rightarrow> byte_buffer \<Rightarrow> byte_buffer \<times> byte_buffer" where
  "bb_assign this b =
     (if bb_owner b
      then (this\<lparr>bb_buffer := bb_buffer b, bb_buffer_size := bb_buffer_size b,
             bb_data_begin := bb_data_begin b, bb_data_end := bb_data_end b, bb_owner := True\<rparr>,
            b\<lparr>bb_owner := False\<rparr>)
      else (this\<lparr>bb_buffer := None, bb_buffer_size := 0, bb_data_begin := 0, bb_data_end := 0,
             bb_owner := False\<rparr>, b))"

definition bb_clear :: "byte_buffer \<Rightarrow> byte_buffer" where
  "bb_clear b = b\<lparr>bb_buffer := None, bb_buffer_size := 0, bb_data_begin := 0, bb_data_end := 0,
                  bb_owner := True\<rparr>"

definition bb_reset :: "byte_buffer \<Rightarrow> byte_buffer" where
  "bb_reset b = b\<lparr>bb_data_begin := 0, bb_data_end := 0\<rparr>"

text \<open>
  \<^verbatim>\<open>data(data, size, owner)\<close> takes over a caller's bytes.  A pointer argument is the
  readable bytes behind it, \<open>None\<close> for \<^verbatim>\<open>NULL\<close>; \<open>inside\<close> says whether it points into
  the buffer's own block, which the source tests by comparing addresses.
\<close>

definition bb_set_data ::
  "allocator \<Rightarrow> byte_buffer \<Rightarrow> byte list option \<Rightarrow> bool \<Rightarrow> uint \<Rightarrow> bool \<Rightarrow> (bool \<times> byte_buffer) option"
where
  "bb_set_data h b data inside sz own =
     (if sz \<le> 0 then Some (False, b)
      else case data of
        None \<Rightarrow> Some (False, b)
      | Some src \<Rightarrow>
          if inside then Some (False, b)
          else if own then
            (case (if bb_owner b then sl_realloc h (bb_buffer b) (unat sz)
                   else sl_malloc h (unat sz)) of
               None \<Rightarrow> Some (False, b)
             | Some m \<Rightarrow> do {
                 m' \<leftarrow> mem_copy m 0 src (unat sz);
                 Some (True, b\<lparr>bb_buffer := Some m', bb_buffer_size := sz, bb_data_begin := 0,
                               bb_data_end := sz, bb_owner := own\<rparr>) })
          else Some (True, b\<lparr>bb_buffer := Some src, bb_buffer_size := sz, bb_data_begin := 0,
                             bb_data_end := sz, bb_owner := own\<rparr>))"

section \<open>Indices\<close>

definition bb_data_size :: "byte_buffer \<Rightarrow> uint" where
  "bb_data_size b = bb_data_end b - bb_data_begin b"

definition bb_free_size :: "byte_buffer \<Rightarrow> uint" where
  "bb_free_size b = bb_buffer_size b - bb_data_end b"

definition bb_empty :: "byte_buffer \<Rightarrow> bool" where
  "bb_empty b \<longleftrightarrow> bb_data_end b - bb_data_begin b = 0"

definition bb_set_begin :: "byte_buffer \<Rightarrow> uint \<Rightarrow> byte_buffer" where
  "bb_set_begin b n =
     (let n = (if n > bb_buffer_size b then bb_buffer_size b else n);
          b = b\<lparr>bb_data_begin := n\<rparr>
      in if bb_data_begin b > bb_data_end b then b\<lparr>bb_data_end := bb_data_begin b\<rparr> else b)"

definition bb_set_end :: "byte_buffer \<Rightarrow> uint \<Rightarrow> byte_buffer" where
  "bb_set_end b n =
     (let n = (if n > bb_buffer_size b then bb_buffer_size b else n);
          b = b\<lparr>bb_data_end := n\<rparr>
      in if bb_data_begin b > bb_data_end b then b\<lparr>bb_data_begin := bb_data_end b\<rparr> else b)"

definition bb_advance :: "byte_buffer \<Rightarrow> uint \<Rightarrow> byte_buffer" where
  "bb_advance b n =
     (if bb_buffer_size b \<ge> bb_data_end b + n then b\<lparr>bb_data_end := bb_data_end b + n\<rparr> else b)"

definition bb_set_owner :: "byte_buffer \<Rightarrow> bool \<Rightarrow> byte_buffer" where
  "bb_set_owner b own = b\<lparr>bb_owner := own\<rparr>"

section \<open>Growing, writing and reading\<close>

definition bb_reserve :: "allocator \<Rightarrow> byte_buffer \<Rightarrow> uint \<Rightarrow> bool \<times> byte_buffer" where
  "bb_reserve h b n =
     (if bb_owner b
      then (if n > bb_buffer_size b
            then (case sl_realloc h (bb_buffer b) (unat n) of
                    Some m \<Rightarrow> (True, b\<lparr>bb_buffer := Some m, bb_buffer_size := n,
                                      bb_data_begin := 0, bb_data_end := 0\<rparr>)
                  | None \<Rightarrow> (False, b))
            else (False, b))
      else (case sl_malloc h (unat n) of
              Some m \<Rightarrow> (True, b\<lparr>bb_buffer := Some m, bb_buffer_size := n,
                                bb_data_begin := 0, bb_data_end := 0, bb_owner := True\<rparr>)
            | None \<Rightarrow> (False, b)))"

definition bb_resize :: "allocator \<Rightarrow> byte_buffer \<Rightarrow> uint \<Rightarrow> bool \<times> byte_buffer" where
  "bb_resize h b n = bb_reserve h b n"

definition adjust_buffer_i ::
  "allocator \<Rightarrow> byte_buffer \<Rightarrow> byte list \<Rightarrow> uint \<Rightarrow> uint \<Rightarrow> (bool \<times> byte_buffer) option"
where
  "adjust_buffer_i h b data sz multiple =
     (let new_size = bb_buffer_size b * multiple div 100 + bb_buffer_size b + sz
      in case sl_realloc h (bb_buffer b) (unat new_size) of
           Some m \<Rightarrow> do {
             m' \<leftarrow> mem_copy m (unat (bb_data_end b)) data (unat sz);
             Some (True, b\<lparr>bb_buffer := Some m', bb_buffer_size := new_size,
                           bb_data_end := bb_data_end b + sz\<rparr>) }
         | None \<Rightarrow> Some (False, b))"

definition bb_write ::
  "allocator \<Rightarrow> byte_buffer \<Rightarrow> byte list \<Rightarrow> uint \<Rightarrow> uint \<Rightarrow> (bool \<times> byte_buffer) option"
where
  "bb_write h b data sz multiple =
     (if \<not> bb_owner b then Some (False, b)
      else if bb_free_size b \<ge> sz
      then do {
        m \<leftarrow> mem_copy (block (bb_buffer b)) (unat (bb_data_end b)) data (unat sz);
        Some (True, b\<lparr>bb_buffer := map_option (\<lambda>_. m) (bb_buffer b),
                      bb_data_end := bb_data_end b + sz\<rparr>) }
      else adjust_buffer_i h b data sz multiple)"

text \<open>The overloads for a C string and for integers; the default growth is 100 per cent.\<close>

definition bb_write_cstr :: "allocator \<Rightarrow> byte_buffer \<Rightarrow> byte list \<Rightarrow> (bool \<times> byte_buffer) option" where
  "bb_write_cstr h b s = bb_write h b (s @ [0]) (word_of_nat (length s) + 1) 100"

definition bb_write_char :: "allocator \<Rightarrow> byte_buffer \<Rightarrow> byte \<Rightarrow> (bool \<times> byte_buffer) option" where
  "bb_write_char h b c = bb_write h b [c] 1 100"

definition bb_write_short :: "allocator \<Rightarrow> byte_buffer \<Rightarrow> uint16 \<Rightarrow> (bool \<times> byte_buffer) option" where
  "bb_write_short h b n = bb_write h b (le_bytes 2 n) 2 100"

definition bb_write_int :: "allocator \<Rightarrow> byte_buffer \<Rightarrow> uint \<Rightarrow> (bool \<times> byte_buffer) option" where
  "bb_write_int h b n = bb_write h b (le_bytes 4 n) 4 100"

definition bb_write_int64 :: "allocator \<Rightarrow> byte_buffer \<Rightarrow> uint64 \<Rightarrow> (bool \<times> byte_buffer) option" where
  "bb_write_int64 h b n = bb_write h b (le_bytes 8 n) 8 100"

text \<open>
  Reading out: the first result is the return value, the second the bytes stored through the
  caller's pointer.  The second overload returns a pointer, given here as its offset into the block.
\<close>

definition bb_read :: "byte_buffer \<Rightarrow> uint \<Rightarrow> (uint \<times> byte list \<times> byte_buffer) option" where
  "bb_read b sz =
     (if bb_data_size b \<ge> sz
      then do {
        d \<leftarrow> mem_get (block (bb_buffer b)) (unat (bb_data_begin b)) (unat sz);
        Some (sz, d, b\<lparr>bb_data_begin := bb_data_begin b + sz\<rparr>) }
      else Some (- 1, [], b))"

definition bb_read_ptr :: "byte_buffer \<Rightarrow> uint \<Rightarrow> uint option \<times> byte_buffer" where
  "bb_read_ptr b sz =
     (if bb_data_size b \<ge> sz
      then (Some (bb_data_begin b), b\<lparr>bb_data_begin := bb_data_begin b + sz\<rparr>)
      else (None, b))"

section \<open>The invariant and the live bytes\<close>

definition bb_wf :: "byte_buffer \<Rightarrow> bool" where
  "bb_wf b \<longleftrightarrow>
     unat (bb_data_begin b) \<le> unat (bb_data_end b) \<and>
     unat (bb_data_end b) \<le> unat (bb_buffer_size b) \<and>
     length (block (bb_buffer b)) = unat (bb_buffer_size b)"

definition bb_bytes :: "byte_buffer \<Rightarrow> byte list" where
  "bb_bytes b = window (unat (bb_data_begin b)) (unat (bb_data_end b)) (block (bb_buffer b))"

definition bb_room :: "byte_buffer \<Rightarrow> nat" where
  "bb_room b = unat (bb_buffer_size b) - unat (bb_data_end b)"

text \<open>\<^verbatim>\<open>data()\<close> as the bytes readable from the pointer it returns.\<close>

definition bb_data :: "byte_buffer \<Rightarrow> byte list" where
  "bb_data b = drop (unat (bb_data_begin b)) (block (bb_buffer b))"

section \<open>Laws\<close>

lemma bb_wfD:
  assumes "bb_wf b"
  shows "unat (bb_data_begin b) \<le> unat (bb_data_end b)"
    and "unat (bb_data_end b) \<le> unat (bb_buffer_size b)"
    and "length (block (bb_buffer b)) = unat (bb_buffer_size b)"
  using assms by (simp_all add: bb_wf_def)

lemma unat_bb_free_size: "bb_wf b \<Longrightarrow> unat (bb_free_size b) = bb_room b"
  by (simp add: bb_free_size_def bb_room_def unat_sub_le bb_wfD)

lemma unat_bb_data_size: "bb_wf b \<Longrightarrow> unat (bb_data_size b) = length (bb_bytes b)"
  by (simp add: bb_data_size_def bb_bytes_def unat_sub_le bb_wfD)

lemma bb_empty_iff: "bb_wf b \<Longrightarrow> bb_empty b \<longleftrightarrow> bb_bytes b = []"
proof -
  assume wf: "bb_wf b"
  have "bb_empty b \<longleftrightarrow> unat (bb_data_size b) = 0"
    by (simp add: bb_empty_def bb_data_size_def unat_eq_0)
  then show ?thesis by (simp add: unat_bb_data_size wf)
qed

lemma bb_new_wf [simp]: "bb_wf bb_new" "bb_bytes bb_new = []"
  by (simp_all add: bb_wf_def bb_new_def bb_bytes_def)

lemma bb_new_size_wf [simp]: "bb_wf (bb_new_size h n)" "bb_bytes (bb_new_size h n) = []"
  by (auto simp: bb_new_size_def bb_wf_def bb_bytes_def length_sl_malloc split: option.splits)

lemma bb_reset_wf [simp]: "bb_wf b \<Longrightarrow> bb_wf (bb_reset b)" "bb_bytes (bb_reset b) = []"
  by (simp_all add: bb_wf_def bb_reset_def bb_bytes_def)

lemma bb_clear_wf [simp]: "bb_wf (bb_clear b)" "bb_bytes (bb_clear b) = []"
  by (simp_all add: bb_wf_def bb_clear_def bb_bytes_def)

lemma bb_set_begin_wf: "bb_wf b \<Longrightarrow> bb_wf (bb_set_begin b n)"
  by (auto simp: bb_wf_def bb_set_begin_def Let_def word_less_nat_alt not_less)

lemma bb_set_end_wf: "bb_wf b \<Longrightarrow> bb_wf (bb_set_end b n)"
  by (auto simp: bb_wf_def bb_set_end_def Let_def word_less_nat_alt not_less)

lemma bb_set_begin_drop:
  assumes "bb_wf b" "n \<le> length (bb_bytes b)"
  shows "bb_bytes (bb_set_begin b (bb_data_begin b + word_of_nat n)) = drop n (bb_bytes b)"
proof -
  have n: "n \<le> unat (bb_data_end b) - unat (bb_data_begin b)"
    using assms by (simp add: bb_bytes_def bb_wfD)
  have "n \<le> unat (bb_data_end b)" using n by simp
  then have "n < 2 ^ 32" by (simp add: unat_le_lt32)
  then have "unat (word_of_nat n :: uint) = n" by (simp add: unat_of_nat)
  then have "unat (bb_data_begin b + word_of_nat n) = unat (bb_data_begin b) + n"
    using n bb_wfD [OF assms(1)] unat_le_lt32 [of "unat (bb_data_begin b) + n" "bb_data_end b"]
    by (simp add: unat_add_small)
  moreover have "unat (bb_data_begin b) + n \<le> unat (bb_data_end b)"
    using n bb_wfD [OF assms(1)] by simp
  ultimately show ?thesis
    using bb_wfD [OF assms(1)]
    by (simp add: bb_set_begin_def bb_bytes_def Let_def word_less_nat_alt not_less window_drop)
qed

lemma bb_write_fits:
  assumes wf: "bb_wf b" and own: "bb_owner b"
    and room: "unat sz \<le> bb_room b" and src: "unat sz \<le> length data"
  shows "\<exists>b'. bb_write h b data sz multiple = Some (True, b') \<and> bb_wf b' \<and> bb_owner b' \<and>
           bb_bytes b' = bb_bytes b @ take (unat sz) data \<and>
           bb_buffer_size b' = bb_buffer_size b \<and> bb_data_begin b' = bb_data_begin b"
proof -
  note w = bb_wfD [OF wf]
  let ?m = "block (bb_buffer b)" and ?e = "unat (bb_data_end b)"
  let ?m' = "take ?e ?m @ take (unat sz) data @ drop (?e + unat sz) ?m"
  have fits: "?e + unat sz \<le> length ?m" using w room by (simp add: bb_room_def)
  then have cp: "mem_copy ?m ?e data (unat sz) = Some ?m'" using src by (simp add: mem_copy_ok)
  have e': "unat (bb_data_end b + sz) = ?e + unat sz"
    using fits w unat_le_lt32 [of "?e + unat sz" "bb_buffer_size b"] by (simp add: unat_add_small)
  have blk: "block (map_option (\<lambda>_. ?m') (bb_buffer b)) = ?m'"
    using fits by (cases "bb_buffer b") auto
  have "bb_free_size b \<ge> sz" using room by (simp add: word_le_nat_alt unat_bb_free_size wf)
  then have wr: "bb_write h b data sz multiple =
      Some (True, b\<lparr>bb_buffer := map_option (\<lambda>_. ?m') (bb_buffer b),
                    bb_data_end := bb_data_end b + sz\<rparr>)"
    using own cp by (simp add: bb_write_def)
  have len: "length ?m' = length ?m" using fits src by simp
  have "bb_bytes b @ take (unat sz) data =
      window (unat (bb_data_begin b)) (?e + length (take (unat sz) data)) ?m'"
    unfolding bb_bytes_def using w by (intro window_append [symmetric]) simp_all
  then show ?thesis
    using wr w fits blk len own src e' by (simp add: bb_wf_def bb_bytes_def min_def)
qed

definition bb_grown :: "byte_buffer \<Rightarrow> uint \<Rightarrow> uint \<Rightarrow> nat" where
  "bb_grown b multiple sz =
     unat (bb_buffer_size b * multiple) div 100 + unat (bb_buffer_size b) + unat sz"

lemma adjust_buffer_grows:
  assumes wf: "bb_wf b" and own: "bb_owner b" and src: "unat sz \<le> length data"
    and nowrap: "bb_grown b multiple sz < 2 ^ 32" and heap: "heap_ok h (bb_grown b multiple sz)"
  shows "\<exists>b'. adjust_buffer_i h b data sz multiple = Some (True, b') \<and> bb_wf b' \<and> bb_owner b' \<and>
           bb_bytes b' = bb_bytes b @ take (unat sz) data \<and>
           unat (bb_buffer_size b') = bb_grown b multiple sz \<and> bb_data_begin b' = bb_data_begin b"
proof -
  note w = bb_wfD [OF wf]
  let ?new = "bb_buffer_size b * multiple div 100 + bb_buffer_size b + sz"
  let ?e = "unat (bb_data_end b)"
  have new: "unat ?new = bb_grown b multiple sz"
    using nowrap by (simp add: bb_grown_def unat_add_small unat_div)
  with heap obtain m where m: "sl_realloc h (bb_buffer b) (unat ?new) = Some m"
      and len: "length m = unat ?new"
      and keep: "\<And>k. k \<le> length (block (bb_buffer b)) \<Longrightarrow> k \<le> unat ?new \<Longrightarrow>
                     take k m = take k (block (bb_buffer b))"
    by (cases rule: sl_realloc_cases [of h "bb_buffer b" "unat ?new"]) auto
  have fits: "?e + unat sz \<le> length m" using w len new by (simp add: bb_grown_def)
  let ?m' = "take ?e m @ take (unat sz) data @ drop (?e + unat sz) m"
  have cp: "mem_copy m ?e data (unat sz) = Some ?m'" using fits src by (simp add: mem_copy_ok)
  have e': "unat (bb_data_end b + sz) = ?e + unat sz"
    using fits len unat_le_lt32 [of "?e + unat sz" ?new] by (simp add: unat_add_small)
  have adj: "adjust_buffer_i h b data sz multiple =
      Some (True, b\<lparr>bb_buffer := Some ?m', bb_buffer_size := ?new, bb_data_end := bb_data_end b + sz\<rparr>)"
    using m cp by (simp add: adjust_buffer_i_def Let_def)
  have lm: "length ?m' = length m" using fits src by simp
  have keep_e: "take ?e m = take ?e (block (bb_buffer b))"
    using w new by (intro keep) (simp_all add: bb_grown_def)
  have "bb_bytes b = window (unat (bb_data_begin b)) ?e m"
    unfolding bb_bytes_def using keep_e by (metis window_take_ge order_refl)
  moreover have "window (unat (bb_data_begin b)) (?e + length (take (unat sz) data)) ?m' =
      window (unat (bb_data_begin b)) ?e m @ take (unat sz) data"
    using w fits by (intro window_append) simp_all
  ultimately have bytes: "window (unat (bb_data_begin b)) (?e + unat sz) ?m' =
      bb_bytes b @ take (unat sz) data"
    using src by (simp add: min_absorb2)
  show ?thesis
    using adj w own fits lm len new e' bytes by (simp add: bb_wf_def bb_bytes_def)
qed

text \<open>
  The outcome of a write on an owned buffer: it succeeds when the room or the allocator allows
  it and then appends the bytes, and leaves the buffer alone otherwise.
\<close>

lemma bb_write_spec:
  assumes wf: "bb_wf b" and own: "bb_owner b" and src: "unat sz \<le> length data"
    and nowrap: "bb_grown b multiple sz < 2 ^ 32"
  shows "\<exists>ok b'. bb_write h b data sz multiple = Some (ok, b') \<and> bb_wf b' \<and> bb_owner b' \<and>
           (ok \<longleftrightarrow> unat sz \<le> bb_room b \<or> heap_ok h (bb_grown b multiple sz)) \<and>
           (if ok then bb_bytes b' = bb_bytes b @ take (unat sz) data else b' = b)"
proof (cases "unat sz \<le> bb_room b")
  case True
  obtain b' where "bb_write h b data sz multiple = Some (True, b')" "bb_wf b'" "bb_owner b'"
      "bb_bytes b' = bb_bytes b @ take (unat sz) data"
    using bb_write_fits [OF wf own True src] by blast
  then show ?thesis using True by (intro exI [of _ True] exI [of _ b']) simp
next
  case False
  then have nf: "\<not> sz \<le> bb_free_size b" by (simp add: word_le_nat_alt unat_bb_free_size wf)
  show ?thesis
  proof (cases "heap_ok h (bb_grown b multiple sz)")
    case True
    then obtain b' where "adjust_buffer_i h b data sz multiple = Some (True, b')" "bb_wf b'"
        "bb_owner b'" "bb_bytes b' = bb_bytes b @ take (unat sz) data"
      using adjust_buffer_grows [OF wf own src nowrap] by blast
    then show ?thesis using True nf own
      by (intro exI [of _ True] exI [of _ b']) (simp add: bb_write_def)
  next
    case no: False
    have "unat (bb_buffer_size b * multiple div 100 + bb_buffer_size b + sz) = bb_grown b multiple sz"
      using nowrap by (simp add: bb_grown_def unat_add_small unat_div)
    then have "adjust_buffer_i h b data sz multiple = Some (False, b)"
      using no by (simp add: adjust_buffer_i_def Let_def sl_realloc_def)
    then show ?thesis using nf own wf no False
      by (intro exI [of _ False] exI [of _ b]) (simp add: bb_write_def)
  qed
qed

lemma bb_write_not_owner: "\<not> bb_owner b \<Longrightarrow> bb_write h b data sz multiple = Some (False, b)"
  by (simp add: bb_write_def)

lemma bb_read_spec:
  assumes wf: "bb_wf b"
  shows "unat sz \<le> length (bb_bytes b) \<Longrightarrow>
           \<exists>b'. bb_read b sz = Some (sz, take (unat sz) (bb_bytes b), b') \<and> bb_wf b' \<and>
                bb_bytes b' = drop (unat sz) (bb_bytes b)"
    and "length (bb_bytes b) < unat sz \<Longrightarrow> bb_read b sz = Some (- 1, [], b)"
proof -
  note w = bb_wfD [OF wf]
  have ds: "sz \<le> bb_data_size b \<longleftrightarrow> unat sz \<le> length (bb_bytes b)"
    by (simp add: word_le_nat_alt unat_bb_data_size wf)
  show "bb_read b sz = Some (- 1, [], b)" if "length (bb_bytes b) < unat sz"
    using that ds by (simp add: bb_read_def)
  assume le: "unat sz \<le> length (bb_bytes b)"
  let ?s = "unat (bb_data_begin b)"
  have fits: "?s + unat sz \<le> unat (bb_data_end b)" using le w by (simp add: bb_bytes_def)
  then have s': "unat (bb_data_begin b + sz) = ?s + unat sz"
    using unat_le_lt32 [of "?s + unat sz" "bb_data_end b"] by (simp add: unat_add_small)
  have "take (unat sz) (bb_bytes b) = take (unat sz) (drop ?s (block (bb_buffer b)))"
    using fits by (simp add: bb_bytes_def window_def min_def)
  then have "bb_read b sz = Some (sz, take (unat sz) (bb_bytes b), b\<lparr>bb_data_begin := bb_data_begin b + sz\<rparr>)"
    using le ds fits w by (simp add: bb_read_def mem_get_ok)
  then show "\<exists>b'. bb_read b sz = Some (sz, take (unat sz) (bb_bytes b), b') \<and> bb_wf b' \<and>
                bb_bytes b' = drop (unat sz) (bb_bytes b)"
    using fits w s' by (simp add: bb_wf_def bb_bytes_def window_drop)
qed

text \<open>
  Growing through \<^verbatim>\<open>reserve\<close> keeps the invariant but not the contents: both indices
  go back to the start of the block, so the live bytes are gone.
\<close>

lemma bb_reserve_wf: "bb_wf b \<Longrightarrow> bb_wf (snd (bb_reserve h b n))"
  by (auto simp: bb_reserve_def bb_wf_def length_sl_malloc length_sl_realloc
      split: option.splits)

lemma bb_reserve_keeps: "bb_owner b \<Longrightarrow> n \<le> bb_buffer_size b \<Longrightarrow> bb_reserve h b n = (False, b)"
  by (simp add: bb_reserve_def leD)

lemma bb_reserve_grows:
  assumes "bb_owner b" "bb_buffer_size b < n" "heap_ok h (unat n)"
  shows "\<exists>b'. bb_reserve h b n = (True, b') \<and> bb_wf b' \<and> bb_owner b' \<and> bb_bytes b' = [] \<and>
           bb_buffer_size b' = n \<and> bb_data_begin b' = 0 \<and> bb_data_end b' = 0"
  using assms
  by (cases rule: sl_realloc_cases [of h "bb_buffer b" "unat n"])
     (auto simp: bb_reserve_def bb_wf_def bb_bytes_def)

lemma bb_advance_spec:
  assumes wf: "bb_wf b" and room: "unat n \<le> bb_room b"
  shows "bb_wf (bb_advance b n)"
    and "unat (bb_data_end (bb_advance b n)) = unat (bb_data_end b) + unat n"
    and "bb_bytes (bb_advance b n) =
           window (unat (bb_data_begin b)) (unat (bb_data_end b) + unat n) (block (bb_buffer b))"
proof -
  note w = bb_wfD [OF wf]
  have le: "unat (bb_data_end b) + unat n \<le> unat (bb_buffer_size b)"
    using room w by (simp add: bb_room_def)
  then have e: "unat (bb_data_end b + n) = unat (bb_data_end b) + unat n"
    using unat_le_lt32 [of _ "bb_buffer_size b"] by (simp add: unat_add_small)
  then have adv: "bb_advance b n = b\<lparr>bb_data_end := bb_data_end b + n\<rparr>"
    using le by (simp add: bb_advance_def word_le_nat_alt)
  show "bb_wf (bb_advance b n)" using adv e le w by (simp add: bb_wf_def)
  show "unat (bb_data_end (bb_advance b n)) = unat (bb_data_end b) + unat n" using adv e by simp
  show "bb_bytes (bb_advance b n) =
           window (unat (bb_data_begin b)) (unat (bb_data_end b) + unat n) (block (bb_buffer b))"
    using adv e by (simp add: bb_bytes_def)
qed

lemma bb_data_prefix:
  assumes "bb_wf b"
  shows "take (length (bb_bytes b)) (bb_data b) = bb_bytes b"
proof -
  have "length (bb_bytes b) = unat (bb_data_end b) - unat (bb_data_begin b)"
    using bb_wfD [OF assms] by (simp add: bb_bytes_def)
  then show ?thesis by (simp add: bb_data_def bb_bytes_def window_def)
qed

section \<open>The buffer as a byte queue\<close>

text \<open>
  A client's sequence of calls, and what the calls return: whether a write succeeded and the
  bytes a read handed out.  \<open>fifo_exec\<close> is the contract, a plain queue of bytes.
\<close>

datatype bb_op = Op_write "byte list" | Op_read nat | Op_reset

datatype bb_out = Wrote bool | Got "byte list option"

fun bb_exec :: "allocator \<Rightarrow> byte_buffer \<Rightarrow> bb_op list \<Rightarrow> (bb_out list \<times> byte_buffer) option" where
  "bb_exec h b [] = Some ([], b)"
| "bb_exec h b (Op_write d # ops) = do {
     (ok, b) \<leftarrow> bb_write h b d (word_of_nat (length d)) 100;
     (outs, b) \<leftarrow> bb_exec h b ops;
     Some (Wrote ok # outs, b) }"
| "bb_exec h b (Op_read n # ops) = do {
     (r, d, b) \<leftarrow> bb_read b (word_of_nat n);
     (outs, b) \<leftarrow> bb_exec h b ops;
     Some (Got (if r = - 1 then None else Some d) # outs, b) }"
| "bb_exec h b (Op_reset # ops) = do {
     (outs, b) \<leftarrow> bb_exec h (bb_reset b) ops;
     Some (outs, b) }"

fun fifo_exec :: "byte list \<Rightarrow> bb_op list \<Rightarrow> bb_out list \<times> byte list" where
  "fifo_exec q [] = ([], q)"
| "fifo_exec q (Op_write d # ops) = apfst (Cons (Wrote True)) (fifo_exec (q @ d) ops)"
| "fifo_exec q (Op_read n # ops) =
     (if n \<le> length q then apfst (Cons (Got (Some (take n q)))) (fifo_exec (drop n q) ops)
      else apfst (Cons (Got None)) (fifo_exec q ops))"
| "fifo_exec q (Op_reset # ops) = fifo_exec [] ops"

fun bb_op_written :: "bb_op \<Rightarrow> nat" where
  "bb_op_written (Op_write d) = length d"
| "bb_op_written _ = 0"

fun bb_op_ok :: "bb_op \<Rightarrow> bool" where
  "bb_op_ok (Op_read n) = (n < 2 ^ 32 - 1)"
| "bb_op_ok _ = True"

text \<open>
  The block never exceeds three times what has been written, since it only grows when
  the bytes written reach its end: the growth of 100 per cent cannot run away.
\<close>

definition bb_exec_ok :: "allocator \<Rightarrow> byte_buffer \<Rightarrow> bb_op list \<Rightarrow> nat \<Rightarrow> bool" where
  "bb_exec_ok h b ops n \<longleftrightarrow>
     (\<exists>b'. bb_exec h b ops = Some (fst (fifo_exec (bb_bytes b) ops), b') \<and> bb_wf b' \<and>
           bb_bytes b' = snd (fifo_exec (bb_bytes b) ops) \<and> unat (bb_buffer_size b') \<le> n)"

lemma bb_write_bounded:
  assumes wf: "bb_wf b" and own: "bb_owner b" and t: "unat (bb_data_end b) \<le> t" "unat (bb_buffer_size b) \<le> 3 * t"
    and len: "3 * (t + length d) < 2 ^ 32" and heap: "\<And>n. n < 2 ^ 32 \<Longrightarrow> heap_ok h n"
  shows "\<exists>b'. bb_write h b d (word_of_nat (length d)) 100 = Some (True, b') \<and> bb_wf b' \<and> bb_owner b' \<and>
           bb_bytes b' = bb_bytes b @ d \<and> unat (bb_data_end b') \<le> t + length d \<and>
           unat (bb_buffer_size b') \<le> 3 * (t + length d)"
proof -
  let ?sz = "word_of_nat (length d) :: uint"
  have d: "unat ?sz = length d" using len by (simp add: unat_of_nat)
  have en: "unat (bb_data_end b') \<le> t + length d"
    if "bb_wf b'" "bb_bytes b' = bb_bytes b @ d" "bb_data_begin b' = bb_data_begin b" for b'
    using arg_cong [OF that(2), of length] bb_wfD [OF that(1)] bb_wfD [OF wf] that(3) t(1)
    by (simp add: bb_bytes_def)
  show ?thesis
  proof (cases "length d \<le> bb_room b")
    case True
    then show ?thesis using bb_write_fits [OF wf own, of ?sz d h 100] d t en by fastforce
  next
    case False
    have nf: "\<not> ?sz \<le> bb_free_size b" using False d by (simp add: word_le_nat_alt unat_bb_free_size wf)
    have "unat (bb_buffer_size b * 100) \<le> unat (bb_buffer_size b) * 100"
      by (simp add: unat_word_ariths)
    then have g: "bb_grown b 100 ?sz \<le> 2 * unat (bb_buffer_size b) + length d"
      unfolding bb_grown_def d by linarith
    moreover have "unat (bb_buffer_size b) < t + length d"
      using False t bb_wfD [OF wf] by (simp add: bb_room_def)
    ultimately have g3: "bb_grown b 100 ?sz \<le> 3 * (t + length d)" by arith
    then obtain b' where b': "adjust_buffer_i h b d ?sz 100 = Some (True, b')" "bb_wf b'" "bb_owner b'"
        "bb_bytes b' = bb_bytes b @ d" "unat (bb_buffer_size b') = bb_grown b 100 ?sz"
        "bb_data_begin b' = bb_data_begin b"
      using adjust_buffer_grows [OF wf own, of ?sz d 100 h] heap len d by auto
    then show ?thesis using nf own g3 en [OF b'(2,4,6)] by (simp add: bb_write_def)
  qed
qed

lemma bb_exec_fifo:
  assumes "bb_wf b" "bb_owner b" "unat (bb_data_end b) \<le> t" "unat (bb_buffer_size b) \<le> 3 * t"
    and "3 * (t + sum_list (map bb_op_written ops)) < 2 ^ 32" "list_all bb_op_ok ops"
    and heap: "\<And>n. n < 2 ^ 32 \<Longrightarrow> heap_ok h n"
  shows "bb_exec_ok h b ops (3 * (t + sum_list (map bb_op_written ops)))"
  using assms(1-6)
proof (induction ops arbitrary: b t)
  case Nil
  then show ?case by (simp add: bb_exec_ok_def)
next
  case (Cons opn ops)
  show ?case
  proof (cases opn)
    case Op_reset
    then have "bb_exec_ok h (bb_reset b) ops (3 * (t + sum_list (map bb_op_written ops)))"
      using Cons.prems by (intro Cons.IH) (auto simp: bb_reset_def [of b] bb_wf_def)
    then show ?thesis using Op_reset by (auto simp: bb_exec_ok_def)
  next
    case (Op_read n)
    have lt: "n < 2 ^ 32 - 1" using Cons.prems(6) Op_read by simp
    then have n: "unat (word_of_nat n :: uint) = n" by (simp add: unat_of_nat)
    have "unat (- 1 :: uint) = 2 ^ 32 - 1" by (simp add: unsigned_minus_1_eq_mask mask_eq_exp_minus_1)
    then have ne: "(word_of_nat n :: uint) \<noteq> - 1" using n lt by force
    show ?thesis
    proof (cases "n \<le> length (bb_bytes b)")
      case True
      then obtain b' where b': "bb_read b (word_of_nat n) = Some (word_of_nat n, take n (bb_bytes b), b')"
          "bb_wf b'" "bb_bytes b' = drop n (bb_bytes b)"
        using bb_read_spec(1) [OF Cons.prems(1), of "word_of_nat n"] n by auto
      then have "bb_owner b' = bb_owner b \<and> bb_data_end b' = bb_data_end b \<and> bb_buffer_size b' = bb_buffer_size b"
        by (auto simp: bb_read_def bind_eq_Some_conv split: if_splits)
      then have "bb_exec_ok h b' ops (3 * (t + sum_list (map bb_op_written ops)))"
        using Cons.prems b' Op_read by (intro Cons.IH) simp_all
      then show ?thesis using b' ne True Op_read by (auto simp: bb_exec_ok_def)
    next
      case False
      then have "bb_read b (word_of_nat n) = Some (- 1, [], b)"
        using bb_read_spec(2) [OF Cons.prems(1), of "word_of_nat n"] n by simp
      moreover have "bb_exec_ok h b ops (3 * (t + sum_list (map bb_op_written ops)))"
        using Cons.prems Op_read by (intro Cons.IH) simp_all
      ultimately show ?thesis using False Op_read by (auto simp: bb_exec_ok_def)
    qed
  next
    case (Op_write d)
    have "3 * (t + length d) < 2 ^ 32" using Cons.prems(5) Op_write by simp
    from bb_write_bounded [OF Cons.prems(1-4) this heap]
    obtain b' where b': "bb_write h b d (word_of_nat (length d)) 100 = Some (True, b')" "bb_wf b'"
        "bb_owner b'" "bb_bytes b' = bb_bytes b @ d"
        "unat (bb_data_end b') \<le> t + length d" "unat (bb_buffer_size b') \<le> 3 * (t + length d)"
      by blast
    then have "bb_exec_ok h b' ops (3 * ((t + length d) + sum_list (map bb_op_written ops)))"
      using Cons.prems Op_write by (intro Cons.IH) simp_all
    then show ?thesis using b' Op_write by (auto simp: bb_exec_ok_def)
  qed
qed

text \<open>C4: A buffer is a queue of bytes: for every sequence of writes, reads and resets on a new
  buffer (with memory available and less than a third of 4 GiB written), each write succeeds,
  each read returns the oldest bytes or fails when there are not enough, the bytes left are those a queue
  would hold, and the block stays within three times what was written.\<close>

theorem byte_buffer_is_queue:
  assumes "3 * sum_list (map bb_op_written ops) < 2 ^ 32" "list_all bb_op_ok ops"
    and "\<And>n. n < 2 ^ 32 \<Longrightarrow> heap_ok h n"
  shows "\<exists>b. bb_exec h bb_new ops = Some (fst (fifo_exec [] ops), b) \<and> bb_wf b \<and>
           bb_bytes b = snd (fifo_exec [] ops) \<and>
           unat (bb_buffer_size b) \<le> 3 * sum_list (map bb_op_written ops)"
  using bb_exec_fifo [of bb_new 0 ops h] assms by (auto simp: bb_exec_ok_def) (simp_all add: bb_new_def)

theorem byte_buffer_is_queue_witness:
  "\<exists>b. bb_exec \<lparr>heap_ok = \<lambda>_. True, heap_junk = \<lambda>_. 0\<rparr> bb_new
         [Op_write [1, 2, 3], Op_read 2, Op_write [4], Op_read 3, Op_read 2] =
         Some (fst (fifo_exec [] [Op_write [1, 2, 3], Op_read 2, Op_write [4], Op_read 3, Op_read 2]), b) \<and>
       bb_wf b \<and>
       bb_bytes b = snd (fifo_exec [] [Op_write [1, 2, 3], Op_read 2, Op_write [4], Op_read 3, Op_read 2]) \<and>
       unat (bb_buffer_size b) \<le>
         3 * sum_list (map bb_op_written [Op_write [1, 2, 3], Op_read 2, Op_write [4], Op_read 3, Op_read 2])"
  by (rule byte_buffer_is_queue) simp_all

end
