(* ===== verification/SL_SocketSource.thy ===== *)
theory SL_SocketSource
  imports SL_ByteBuffer
begin

text \<open>
  The message-length codecs of \<^verbatim>\<open>SL_Socket_Source\<close>
  (\<^verbatim>\<open>include/SL_Socket_Source.h\<close>).  Every message on the wire starts with its own
  length, the header included, in 1, 2 or 4 bytes of host or network order; a source carries
  the pair of functions that read and store it.  The locale \<open>msglen_codec\<close> is the contract
  the message handlers rely on, and every pair the source offers is an interpretation of it.

  The host is little-endian with signed \<^verbatim>\<open>char\<close>, as on x86.
\<close>

section \<open>Byte order\<close>

definition bswap16 :: "uint16 \<Rightarrow> uint16" where
  "bswap16 w = le_word (rev (le_bytes 2 w))"

definition bswap32 :: "uint \<Rightarrow> uint" where
  "bswap32 w = le_word (rev (le_bytes 4 w))"

definition bswap64 :: "uint64 \<Rightarrow> uint64" where
  "bswap64 w = le_word (rev (le_bytes 8 w))"

text \<open>\<^verbatim>\<open>htons\<close>, \<^verbatim>\<open>ntohs\<close>, \<^verbatim>\<open>htonl\<close> and \<^verbatim>\<open>ntohl\<close> on a little-endian host.\<close>

abbreviation htons :: "uint16 \<Rightarrow> uint16" where "htons \<equiv> bswap16"
abbreviation ntohs :: "uint16 \<Rightarrow> uint16" where "ntohs \<equiv> bswap16"
abbreviation htonl :: "uint \<Rightarrow> uint" where "htonl \<equiv> bswap32"
abbreviation ntohl :: "uint \<Rightarrow> uint" where "ntohl \<equiv> bswap32"

lemma le_bytes_bswap [simp]:
  "le_bytes 2 (bswap16 v) = rev (le_bytes 2 v)"
  "le_bytes 4 (bswap32 w) = rev (le_bytes 4 w)"
  "le_bytes 8 (bswap64 x) = rev (le_bytes 8 x)"
  by (simp_all add: bswap16_def bswap32_def bswap64_def le_bytes_le_word)

lemma bswap_bswap [simp]:
  "bswap16 (bswap16 v) = v" "bswap32 (bswap32 w) = w" "bswap64 (bswap64 x) = x"
  by (simp_all add: bswap16_def [of "bswap16 v"] bswap32_def [of "bswap32 w"]
      bswap64_def [of "bswap64 x"] le_word_le_bytes)

section \<open>Error numbers\<close>

text \<open>
  The error numbers of the platform that the socket code tests for
  (\<^verbatim>\<open>include/SL_Config.h\<close> takes them from the system headers).
\<close>

record errnos =
  SL_EAGAIN :: int
  SL_EWOULDBLOCK :: int
  SL_EINTR :: int
  SL_IO_PENDING :: int
  SL_ENOBUFS :: int

section \<open>Reading and storing the length\<close>

definition get_msglen_int8 :: "byte list \<Rightarrow> int option" where
  "get_msglen_int8 msg = do { d \<leftarrow> mem_get msg 0 1; Some (sint (le_word d :: byte)) }"

definition get_msglen_int16_host :: "byte list \<Rightarrow> int option" where
  "get_msglen_int16_host msg = do { d \<leftarrow> mem_get msg 0 2; Some (sint (le_word d :: uint16)) }"

definition get_msglen_int16_network :: "byte list \<Rightarrow> int option" where
  "get_msglen_int16_network msg =
     do { d \<leftarrow> mem_get msg 0 2; Some (uint (ntohs (le_word d))) }"

definition get_msglen_int32_host :: "byte list \<Rightarrow> int option" where
  "get_msglen_int32_host msg = do { d \<leftarrow> mem_get msg 0 4; Some (sint (le_word d :: uint)) }"

definition get_msglen_int32_network :: "byte list \<Rightarrow> int option" where
  "get_msglen_int32_network msg =
     do { d \<leftarrow> mem_get msg 0 4; Some (sint (ntohl (le_word d))) }"

definition set_msglen_int8 :: "byte list \<Rightarrow> int \<Rightarrow> byte list option" where
  "set_msglen_int8 msg len = mem_put msg 0 (le_bytes 1 (word_of_int len :: byte))"

definition set_msglen_int16_host :: "byte list \<Rightarrow> int \<Rightarrow> byte list option" where
  "set_msglen_int16_host msg len = mem_put msg 0 (le_bytes 2 (word_of_int len :: uint16))"

definition set_msglen_int16_network :: "byte list \<Rightarrow> int \<Rightarrow> byte list option" where
  "set_msglen_int16_network msg len = mem_put msg 0 (le_bytes 2 (htons (word_of_int len)))"

definition set_msglen_int32_host :: "byte list \<Rightarrow> int \<Rightarrow> byte list option" where
  "set_msglen_int32_host msg len = mem_put msg 0 (le_bytes 4 (word_of_int len :: uint))"

definition set_msglen_int32_network :: "byte list \<Rightarrow> int \<Rightarrow> byte list option" where
  "set_msglen_int32_network msg len = mem_put msg 0 (le_bytes 4 (htonl (word_of_int len)))"

section \<open>The source\<close>

record socket_source =
  ss_get_msglen :: "byte list \<Rightarrow> int option"
  ss_set_msglen :: "byte list \<Rightarrow> int \<Rightarrow> byte list option"
  ss_recvbuffer_size :: uint
  ss_msgbuffer_size :: uint
  ss_msglen_bytes :: byte
  ss_msg_byteorder :: byte

text \<open>The values the constructor sets.\<close>

definition default_source :: socket_source where
  "default_source =
     \<lparr>ss_get_msglen = get_msglen_int16_host, ss_set_msglen = set_msglen_int16_host,
      ss_recvbuffer_size = 4096, ss_msgbuffer_size = 4096, ss_msglen_bytes = 2,
      ss_msg_byteorder = 0\<rparr>"

section \<open>The contract of a codec\<close>

locale msglen_codec =
  fixes hdr :: nat
    and get :: "byte list \<Rightarrow> int option"
    and put :: "byte list \<Rightarrow> int \<Rightarrow> byte list option"
    and maxlen :: int
  assumes hdr_pos: "0 < hdr"
    and hdr_small: "hdr \<le> 4"
    and get_total: "hdr \<le> length m \<Longrightarrow> \<exists>v. get m = Some v"
    and get_prefix: "hdr \<le> length m \<Longrightarrow> get (m @ r) = get m"
    and put_total: "hdr \<le> length m \<Longrightarrow> \<exists>h. length h = hdr \<and> put m n = Some (h @ drop hdr m)"
    and get_put: "hdr \<le> length m \<Longrightarrow> 0 \<le> n \<Longrightarrow> n \<le> maxlen \<Longrightarrow> put m n = Some m' \<Longrightarrow> get m' = Some n"
begin

lemma get_agree: "hdr \<le> n \<Longrightarrow> n \<le> length m \<Longrightarrow> get m = get (take n m)"
  using get_prefix [of "take n m" "drop n m"] by simp

lemma put_get:
  assumes "hdr \<le> length m" "0 \<le> n" "n \<le> maxlen"
  shows "\<exists>m'. put m n = Some m' \<and> length m' = length m \<and> get m' = Some n \<and> drop hdr m' = drop hdr m"
proof -
  obtain h where "length h = hdr" "put m n = Some (h @ drop hdr m)"
    using put_total [OF assms(1)] by blast
  moreover from this get_put [OF assms] have "get (h @ drop hdr m) = Some n" by blast
  ultimately show ?thesis using assms(1) by simp
qed

end

lemma uint_word_of_int_small:
  "0 \<le> i \<Longrightarrow> i < 2 ^ LENGTH('a) \<Longrightarrow> uint (word_of_int i :: 'a::len word) = i"
  by (simp add: uint_word_of_int)

lemma le_word_rev_le_bytes:
  "le_word (rev (le_bytes 2 v)) = bswap16 v" "le_word (rev (le_bytes 4 w)) = bswap32 w"
  by (simp_all add: bswap16_def bswap32_def)

lemma mem_put_front: "length d \<le> length m \<Longrightarrow> mem_put m 0 d = Some (d @ drop (length d) m)"
  by (simp add: mem_put_def)

lemmas get_msglen_defs = get_msglen_int8_def get_msglen_int16_host_def
  get_msglen_int16_network_def get_msglen_int32_host_def get_msglen_int32_network_def

lemmas set_msglen_defs = set_msglen_int8_def set_msglen_int16_host_def
  set_msglen_int16_network_def set_msglen_int32_host_def set_msglen_int32_network_def

lemmas msglen_simps = get_msglen_defs set_msglen_defs mem_get_def mem_put_front
  le_word_le_bytes sint_word_of_int_small uint_word_of_int_small
  le_word_rev_le_bytes

interpretation int8: msglen_codec 1 get_msglen_int8 set_msglen_int8 127
  by unfold_locales (auto simp: msglen_simps)

interpretation int16_host: msglen_codec 2 get_msglen_int16_host set_msglen_int16_host 32767
  by unfold_locales (auto simp: msglen_simps intro!: exI [of _ "le_bytes 2 w" for w])

interpretation int16_network: msglen_codec 2 get_msglen_int16_network set_msglen_int16_network 65535
  by unfold_locales (auto simp: msglen_simps intro!: exI [of _ "rev (le_bytes 2 w)" for w])

interpretation int32_host: msglen_codec 4 get_msglen_int32_host set_msglen_int32_host 2147483647
  by unfold_locales (auto simp: msglen_simps intro!: exI [of _ "le_bytes 4 w" for w])

interpretation int32_network:
  msglen_codec 4 get_msglen_int32_network set_msglen_int32_network 2147483647
  by unfold_locales (auto simp: msglen_simps intro!: exI [of _ "rev (le_bytes 4 w)" for w])

section \<open>All pairs of codecs\<close>

datatype msglen_kind =
  Len_int8 | Len_int16_host | Len_int16_network | Len_int32_host | Len_int32_network

fun msglen_hdr :: "msglen_kind \<Rightarrow> nat" where
  "msglen_hdr Len_int8 = 1"
| "msglen_hdr Len_int16_host = 2"
| "msglen_hdr Len_int16_network = 2"
| "msglen_hdr Len_int32_host = 4"
| "msglen_hdr Len_int32_network = 4"

fun msglen_get :: "msglen_kind \<Rightarrow> byte list \<Rightarrow> int option" where
  "msglen_get Len_int8 = get_msglen_int8"
| "msglen_get Len_int16_host = get_msglen_int16_host"
| "msglen_get Len_int16_network = get_msglen_int16_network"
| "msglen_get Len_int32_host = get_msglen_int32_host"
| "msglen_get Len_int32_network = get_msglen_int32_network"

fun msglen_set :: "msglen_kind \<Rightarrow> byte list \<Rightarrow> int \<Rightarrow> byte list option" where
  "msglen_set Len_int8 = set_msglen_int8"
| "msglen_set Len_int16_host = set_msglen_int16_host"
| "msglen_set Len_int16_network = set_msglen_int16_network"
| "msglen_set Len_int32_host = set_msglen_int32_host"
| "msglen_set Len_int32_network = set_msglen_int32_network"

fun msglen_max :: "msglen_kind \<Rightarrow> int" where
  "msglen_max Len_int8 = 127"
| "msglen_max Len_int16_host = 32767"
| "msglen_max Len_int16_network = 65535"
| "msglen_max Len_int32_host = 2147483647"
| "msglen_max Len_int32_network = 2147483647"

interpretation kinds: msglen_codec "msglen_hdr k" "msglen_get k" "msglen_set k" "msglen_max k" for k
proof (cases k)
  case Len_int8
  then show "msglen_codec (msglen_hdr k) (msglen_get k) (msglen_set k) (msglen_max k)"
    using int8.msglen_codec_axioms by simp
next
  case Len_int16_host
  then show "msglen_codec (msglen_hdr k) (msglen_get k) (msglen_set k) (msglen_max k)"
    using int16_host.msglen_codec_axioms by simp
next
  case Len_int16_network
  then show "msglen_codec (msglen_hdr k) (msglen_get k) (msglen_set k) (msglen_max k)"
    using int16_network.msglen_codec_axioms by simp
next
  case Len_int32_host
  then show "msglen_codec (msglen_hdr k) (msglen_get k) (msglen_set k) (msglen_max k)"
    using int32_host.msglen_codec_axioms by simp
next
  case Len_int32_network
  then show "msglen_codec (msglen_hdr k) (msglen_get k) (msglen_set k) (msglen_max k)"
    using int32_network.msglen_codec_axioms by simp
qed

text \<open>A source whose functions and header width belong together.\<close>

definition source_ok :: "msglen_kind \<Rightarrow> socket_source \<Rightarrow> bool" where
  "source_ok k src \<longleftrightarrow>
     ss_get_msglen src = msglen_get k \<and> ss_set_msglen src = msglen_set k \<and>
     unat (ss_msglen_bytes src) = msglen_hdr k \<and>
     int (msglen_hdr k) \<le> sint (ss_msgbuffer_size src)"

end
