(* ===== verification/SL_MessageHandler.thy ===== *)
theory SL_MessageHandler
  imports SL_SocketSource
begin

text \<open>
  \<^verbatim>\<open>SL_Socket_Message_Handler\<close> (\<^verbatim>\<open>include/SL_Socket_Message_Handler.h\<close>,
  \<^verbatim>\<open>src/SL_Socket_Message_Handler.cpp\<close>): the handler that cuts the byte stream of a TCP
  connection back into messages.  A message may arrive in any number of pieces, so the handler
  keeps the bytes of an unfinished message in \<^verbatim>\<open>msg_buffer_\<close> together with two counters:
  \<^verbatim>\<open>last_left_\<close> while the length field itself is incomplete and
  \<^verbatim>\<open>need_len_\<close> once the length is known.

  The abstract contract is \<open>deliver\<close>: cut the whole stream received so far into messages and
  hand each to the application.  The main result is that the handler does exactly this however
  the stream is split into reads.
\<close>

section \<open>State\<close>

record msg_handler =
  mh_source :: socket_source
  mh_msg_buffer :: byte_buffer
  mh_need_len :: int
  mh_last_error_msglen :: int
  mh_last_left :: int
  mh_last_errno :: int

text \<open>Error codes of \<^verbatim>\<open>SL_Socket_Handler::HANDLE_ERROR\<close>.\<close>

definition ERROR_CLOSE_PASSIVE :: int where "ERROR_CLOSE_PASSIVE = 1000001"
definition ERROR_CLOSE_ACTIVE :: int where "ERROR_CLOSE_ACTIVE = 1000002"
definition ERROR_CLOSE_RECV :: int where "ERROR_CLOSE_RECV = 1000003"

text \<open>
  The virtual \<^verbatim>\<open>handle_message\<close> is the application: it sees the bytes of one message,
  updates its own state and returns a status, negative to drop the connection.
\<close>

type_synonym 's callback = "byte list \<Rightarrow> 's \<Rightarrow> int \<times> 's"

definition mh_new :: "socket_source \<Rightarrow> msg_handler" where
  "mh_new src = \<lparr>mh_source = src, mh_msg_buffer = bb_new, mh_need_len = 0,
                 mh_last_error_msglen = 0, mh_last_left = 0, mh_last_errno = 0\<rparr>"

definition mh_handle_open :: "allocator \<Rightarrow> msg_handler \<Rightarrow> socket_source \<Rightarrow> msg_handler" where
  "mh_handle_open h st src =
     st\<lparr>mh_source := src, mh_last_errno := 0,
        mh_msg_buffer := bb_reset (snd (bb_reserve h (mh_msg_buffer st) (ss_msgbuffer_size src))),
        mh_need_len := 0, mh_last_error_msglen := 0, mh_last_left := 0\<rparr>"

section \<open>Receiving\<close>

text \<open>
  \<^verbatim>\<open>msg_buffer_.write(pos, k)\<close> followed by \<^verbatim>\<open>pos += k\<close>.  A negative \<open>k\<close> is converted
  to a size of nearly 4 GiB, the copy of which runs past both blocks: \<open>None\<close>.  The return
  value of the write is ignored, as in the source.
\<close>

definition mh_append :: "allocator \<Rightarrow> msg_handler \<Rightarrow> byte list \<Rightarrow> int \<Rightarrow> msg_handler option" where
  "mh_append h st pos k =
     (if k < 0 then None
      else do {
        r \<leftarrow> bb_write h (mh_msg_buffer st) pos (to_uint k) 100;
        Some (st\<lparr>mh_msg_buffer := snd r\<rparr>) })"

datatype read_outcome = Read_next | Read_break | Read_fail

text \<open>The calls of \<^verbatim>\<open>handle_message\<close> and the early return when the application refuses.\<close>

definition mh_dispatch ::
  "'s callback \<Rightarrow> msg_handler \<Rightarrow> 's \<Rightarrow> byte list \<Rightarrow> (msg_handler \<Rightarrow> msg_handler) \<Rightarrow> byte list \<Rightarrow>
     (read_outcome \<times> msg_handler \<times> 's \<times> byte list)"
where
  "mh_dispatch cb st app msg upd rest =
     (case cb msg app of
        (r, app') \<Rightarrow>
          if r < 0 then (Read_fail, st\<lparr>mh_last_errno := ERROR_CLOSE_ACTIVE\<rparr>, app', rest)
          else (Read_next, upd st, app', rest))"

text \<open>
  One round of the inner loop of \<^verbatim>\<open>handle_read\<close> on the bytes from \<^verbatim>\<open>pos\<close> on
  (\<^verbatim>\<open>pos_size\<close> is their number): the outcome, the handler, the application state and the
  bytes left.
\<close>

definition read_step ::
  "allocator \<Rightarrow> 's callback \<Rightarrow> msg_handler \<Rightarrow> 's \<Rightarrow> byte list \<Rightarrow>
     (read_outcome \<times> msg_handler \<times> 's \<times> byte list) option"
where
  "read_step h cb st app pos =
     (let msglen_bytes = int (unat (ss_msglen_bytes (mh_source st)));
          msgbuffer_size = sint (ss_msgbuffer_size (mh_source st));
          get_msglen = ss_get_msglen (mh_source st);
          pos_size = int (length pos);
          need_len = mh_need_len st;
          last_left = mh_last_left st
      in
      if need_len = 0 then
        if last_left = 0 then
          if pos_size \<ge> msglen_bytes then do {
            msglen \<leftarrow> get_msglen pos;
            if msglen \<le> 0 \<or> msglen > msgbuffer_size then
              Some (Read_fail, st\<lparr>mh_last_errno := ERROR_CLOSE_RECV,
                                  mh_last_error_msglen := msglen\<rparr>, app, pos)
            else if pos_size \<ge> msglen then do {
              msg \<leftarrow> mem_get pos 0 (nat msglen);
              Some (mh_dispatch cb st app msg id (drop (nat msglen) pos)) }
            else do {
              st \<leftarrow> mh_append h st pos pos_size;
              Some (Read_break, st\<lparr>mh_need_len := msglen - pos_size\<rparr>, app, pos) } }
          else do {
            st \<leftarrow> mh_append h st pos pos_size;
            Some (Read_break, st\<lparr>mh_last_left := to_int8 pos_size\<rparr>, app, pos) }
        else
          if last_left + pos_size < msglen_bytes then do {
            st \<leftarrow> mh_append h st pos pos_size;
            Some (Read_break, st\<lparr>mh_last_left := to_int8 (last_left + pos_size)\<rparr>, app, pos) }
          else do {
            st \<leftarrow> mh_append h st pos (msglen_bytes - last_left);
            let pos = drop (nat (msglen_bytes - last_left)) pos;
            let pos_size = int (length pos);
            msglen \<leftarrow> get_msglen (bb_data (mh_msg_buffer st));
            if msglen \<le> 0 \<or> msglen > msgbuffer_size then
              Some (Read_fail, st\<lparr>mh_last_errno := ERROR_CLOSE_RECV,
                                  mh_last_error_msglen := msglen\<rparr>, app, pos)
            else do {
              let st = st\<lparr>mh_last_left := 0\<rparr>;
              if pos_size + msglen_bytes \<ge> msglen then do {
                st \<leftarrow> mh_append h st pos (msglen - msglen_bytes);
                msg \<leftarrow> mem_get (bb_data (mh_msg_buffer st)) 0 (nat msglen);
                Some (mh_dispatch cb st app msg
                        (\<lambda>st. st\<lparr>mh_msg_buffer := bb_reset (mh_msg_buffer st)\<rparr>)
                        (drop (nat (msglen - msglen_bytes)) pos)) }
              else do {
                st \<leftarrow> mh_append h st pos pos_size;
                Some (Read_break, st\<lparr>mh_need_len := msglen - pos_size - msglen_bytes\<rparr>, app, pos) } } }
      else
        if pos_size \<ge> need_len then do {
          st \<leftarrow> mh_append h st pos need_len;
          msg \<leftarrow> mem_get (bb_data (mh_msg_buffer st)) 0 (unat (bb_data_size (mh_msg_buffer st)));
          Some (mh_dispatch cb st app msg
                  (\<lambda>st. st\<lparr>mh_msg_buffer := bb_reset (mh_msg_buffer st), mh_need_len := 0\<rparr>)
                  (drop (nat need_len) pos)) }
        else do {
          st \<leftarrow> mh_append h st pos pos_size;
          Some (Read_break, st\<lparr>mh_need_len := need_len - pos_size\<rparr>, app, pos) })"

text \<open>
  Every round that goes on either consumes received bytes or clears \<^verbatim>\<open>last_left_\<close>,
  which is the termination argument of the loop.
\<close>

lemma mh_dispatch_next:
  "mh_dispatch cb st app msg upd rest = (Read_next, st', app', pos') \<Longrightarrow> pos' = rest \<and> st' = upd st"
  by (auto simp: mh_dispatch_def split: prod.splits if_splits)

lemma mh_append_nonneg: "mh_append h st pos k = Some st' \<Longrightarrow> 0 \<le> k"
  by (auto simp: mh_append_def split: if_splits)

definition read_measure :: "msg_handler \<Rightarrow> byte list \<Rightarrow> nat" where
  "read_measure st pos = 2 * length pos + (if mh_last_left st = 0 then 0 else 1)"

lemma mh_append_fields:
  "mh_append h st pos k = Some st' \<Longrightarrow>
     mh_last_left st' = mh_last_left st \<and> mh_source st' = mh_source st \<and>
     mh_need_len st' = mh_need_len st"
  by (auto simp: mh_append_def bind_eq_Some_conv split: if_splits)

lemma read_step_decreases:
  assumes step: "read_step h cb st app pos = Some (Read_next, st', app', pos')" and ne: "pos \<noteq> []"
  shows "read_measure st' pos' < read_measure st pos"
proof (cases "mh_need_len st = 0")
  case True
  show ?thesis
  proof (cases "mh_last_left st = 0")
    case left: True
    with step True obtain m where "0 < m" "m \<le> int (length pos)" "pos' = drop (nat m) pos" "st' = st"
      by (auto simp: read_step_def Let_def bind_eq_Some_conv not_le split: if_splits
          dest!: mh_dispatch_next)
    then show ?thesis by (simp add: read_measure_def)
  next
    case left: False
    with step True have "length pos' \<le> length pos \<and> mh_last_left st' = 0"
      by (auto simp: read_step_def Let_def bind_eq_Some_conv split: if_splits
          dest!: mh_dispatch_next mh_append_fields)
    with left show ?thesis by (simp add: read_measure_def)
  qed
next
  case False
  let ?k = "nat (mh_need_len st)"
  have "0 \<le> mh_need_len st \<and> pos' = drop ?k pos \<and> mh_last_left st' = mh_last_left st"
    using step False by (auto simp: read_step_def Let_def bind_eq_Some_conv split: if_splits
        dest!: mh_dispatch_next dest: mh_append_nonneg mh_append_fields)
  moreover from this False have "0 < ?k" by simp
  ultimately show ?thesis using ne by (simp add: read_measure_def)
qed

text \<open>The inner loop: the flag is false when \<^verbatim>\<open>handle_read\<close> returns \<^verbatim>\<open>-1\<close> from inside it.\<close>

function drain ::
  "allocator \<Rightarrow> 's callback \<Rightarrow> msg_handler \<Rightarrow> 's \<Rightarrow> byte list \<Rightarrow> (bool \<times> msg_handler \<times> 's) option"
where
  "drain h cb st app pos =
     (if pos = [] then Some (True, st, app)
      else case read_step h cb st app pos of
        None \<Rightarrow> None
      | Some (Read_next, st', app', pos') \<Rightarrow> drain h cb st' app' pos'
      | Some (Read_break, st', app', pos') \<Rightarrow> Some (True, st', app')
      | Some (Read_fail, st', app', pos') \<Rightarrow> Some (False, st', app'))"
  by pat_completeness auto
termination
  by (relation "measure (\<lambda>(h, cb, st, app, pos). read_measure st pos)")
    (auto dest: read_step_decreases)

declare drain.simps [simp del]

text \<open>
  What \<^verbatim>\<open>socket_recv\<close> returns: some bytes (none when the peer has closed) or an error number.
  The outer loop reads again only after a read that filled the receive buffer.  The calls of the
  socket layer are a list of results, in order; a list that has run out stands for a socket with
  nothing to read, that is for the error \<^verbatim>\<open>SL_EAGAIN\<close>.
\<close>

datatype recv_result = Recv_data "byte list" | Recv_error int

definition recv_would_block :: "errnos \<Rightarrow> int \<Rightarrow> bool" where
  "recv_would_block en e \<longleftrightarrow> SL_EAGAIN en = e \<or> SL_EWOULDBLOCK en = e \<or> SL_EINTR en = e"

fun mh_handle_read ::
  "allocator \<Rightarrow> errnos \<Rightarrow> nat \<Rightarrow> 's callback \<Rightarrow> msg_handler \<Rightarrow> 's \<Rightarrow> recv_result list \<Rightarrow>
     (int \<times> msg_handler \<times> 's \<times> recv_result list) option"
where
  "mh_handle_read h en recv_buffer_size cb st app [] = Some (0, st, app, [])"
| "mh_handle_read h en recv_buffer_size cb st app (Recv_data bs # rs) =
     (if bs = [] then Some (- 1, st\<lparr>mh_last_errno := ERROR_CLOSE_PASSIVE\<rparr>, app, rs)
      else case drain h cb st app bs of
        None \<Rightarrow> None
      | Some (ok, st', app') \<Rightarrow>
          if \<not> ok then Some (- 1, st', app', rs)
          else if length bs = recv_buffer_size
            then mh_handle_read h en recv_buffer_size cb st' app' rs
          else Some (1, st', app', rs))"
| "mh_handle_read h en recv_buffer_size cb st app (Recv_error e # rs) =
     (if recv_would_block en e then Some (0, st, app, rs)
      else Some (- 1, st\<lparr>mh_last_errno := e\<rparr>, app, rs))"

section \<open>Sending\<close>

text \<open>
  \<^verbatim>\<open>write_message\<close> frames a message into a fresh buffer: the length field in host order and
  in the width of the source, then the content.  The result is the bytes handed to the socket,
  \<open>Inl\<close> for the early \<^verbatim>\<open>return -1\<close>.  The results of the buffer's calls are ignored
  as in the source.
\<close>

definition mh_write_message ::
  "allocator \<Rightarrow> msg_handler \<Rightarrow> byte list \<Rightarrow> int \<Rightarrow> (int + byte list) option"
where
  "mh_write_message h st msg len =
     (let msglen_bytes = int (unat (ss_msglen_bytes (mh_source st)));
          data_len = msglen_bytes + len
      in if data_len > sint (bb_buffer_size (mh_msg_buffer st)) then Some (Inl (- 1))
      else let buf = snd (bb_reserve h bb_new (word_of_int data_len)) in
        (case (if msglen_bytes = 1 then Some (bb_write_char h buf (word_of_int data_len))
               else if msglen_bytes = 2 then Some (bb_write_short h buf (word_of_int data_len))
               else if msglen_bytes = 4 then Some (bb_write_int h buf (word_of_int data_len))
               else None) of
           None \<Rightarrow> Some (Inl (- 1))
         | Some w \<Rightarrow> do {
             r \<leftarrow> w;
             r \<leftarrow> bb_write h (snd r) msg (word_of_int len) 100;
             d \<leftarrow> mem_get (bb_data (snd r)) 0 (unat (bb_data_size (snd r)));
             Some (Inr d) }))"

definition mh_get_msglen :: "byte list \<Rightarrow> int \<Rightarrow> int option" where
  "mh_get_msglen msg msglen_bytes =
     (if msglen_bytes = 2 then get_msglen_int16_host msg
      else if msglen_bytes = 1 then get_msglen_int8 msg
      else if msglen_bytes = 4 then get_msglen_int32_host msg
      else Some (- 1))"

definition mh_set_msglen :: "byte list \<Rightarrow> int \<Rightarrow> int \<Rightarrow> (int \<times> byte list) option" where
  "mh_set_msglen msg len msglen_bytes =
     (if msglen_bytes = 2 then map_option (Pair 0) (set_msglen_int16_host msg len)
      else if msglen_bytes = 1 then map_option (Pair 0) (set_msglen_int8 msg len)
      else if msglen_bytes = 4 then map_option (Pair 0) (set_msglen_int32_host msg len)
      else Some (- 1, msg))"

section \<open>The contract\<close>

text \<open>
  \<open>deliver\<close> cuts a stream into messages and hands them over until the stream ends inside a
  message, a length field is out of range, or the application refuses.  A length smaller than the
  length field itself is a \<open>Runt\<close>.
\<close>

datatype stream_end = Pending "byte list" | Bad_length int | Runt int | Refused

function deliver ::
  "nat \<Rightarrow> (byte list \<Rightarrow> int option) \<Rightarrow> int \<Rightarrow> 's callback \<Rightarrow> 's \<Rightarrow> byte list \<Rightarrow> stream_end \<times> 's"
where
  "deliver hdr get mx cb app bs =
     (if length bs < hdr then (Pending bs, app)
      else case get bs of
        None \<Rightarrow> (Pending bs, app)
      | Some m \<Rightarrow>
          if m \<le> 0 \<or> m > mx then (Bad_length m, app)
          else if m < int hdr then (Runt m, app)
          else if int (length bs) < m then (Pending bs, app)
          else case cb (take (nat m) bs) app of
            (r, app') \<Rightarrow> if r < 0 then (Refused, app')
                         else deliver hdr get mx cb app' (drop (nat m) bs))"
  by pat_completeness auto
termination
  by (relation "measure (\<lambda>(hdr, get, mx, cb, app, bs). length bs)") auto

declare deliver.simps [simp del]

text \<open>The handler's state holds exactly the bytes \<open>p\<close> of the unfinished message.\<close>

definition mh_inv :: "nat \<Rightarrow> (byte list \<Rightarrow> int option) \<Rightarrow> int \<Rightarrow> msg_handler \<Rightarrow> byte list \<Rightarrow> bool" where
  "mh_inv hdr get mx st p \<longleftrightarrow>
     ss_get_msglen (mh_source st) = get \<and> unat (ss_msglen_bytes (mh_source st)) = hdr \<and>
     sint (ss_msgbuffer_size (mh_source st)) = mx \<and> int hdr \<le> mx \<and>
     bb_wf (mh_msg_buffer st) \<and> bb_owner (mh_msg_buffer st) \<and>
     bb_data_begin (mh_msg_buffer st) = 0 \<and> bb_bytes (mh_msg_buffer st) = p \<and>
     mx \<le> int (unat (bb_buffer_size (mh_msg_buffer st))) \<and>
     (if length p < hdr then mh_last_left st = int (length p) \<and> mh_need_len st = 0
      else mh_last_left st = 0 \<and>
           (\<exists>m. get p = Some m \<and> int hdr \<le> m \<and> m \<le> mx \<and> int (length p) < m \<and>
                mh_need_len st = m - int (length p)))"

text \<open>The fixed part of the invariant, which no round changes.\<close>

definition mh_conf :: "nat \<Rightarrow> (byte list \<Rightarrow> int option) \<Rightarrow> int \<Rightarrow> msg_handler \<Rightarrow> byte list \<Rightarrow> bool" where
  "mh_conf hdr get mx st p \<longleftrightarrow>
     ss_get_msglen (mh_source st) = get \<and> unat (ss_msglen_bytes (mh_source st)) = hdr \<and>
     sint (ss_msgbuffer_size (mh_source st)) = mx \<and> int hdr \<le> mx \<and>
     bb_wf (mh_msg_buffer st) \<and> bb_owner (mh_msg_buffer st) \<and>
     bb_data_begin (mh_msg_buffer st) = 0 \<and> bb_bytes (mh_msg_buffer st) = p \<and>
     mx \<le> int (unat (bb_buffer_size (mh_msg_buffer st)))"

lemma mh_inv_alt:
  "mh_inv hdr get mx st p \<longleftrightarrow>
     mh_conf hdr get mx st p \<and>
     (if length p < hdr then mh_last_left st = int (length p) \<and> mh_need_len st = 0
      else mh_last_left st = 0 \<and>
           (\<exists>m. get p = Some m \<and> int hdr \<le> m \<and> m \<le> mx \<and> int (length p) < m \<and>
                mh_need_len st = m - int (length p)))"
  by (auto simp: mh_inv_def mh_conf_def)

lemma mh_conf_upd [simp]:
  "mh_conf hdr get mx (st\<lparr>mh_need_len := a\<rparr>) p = mh_conf hdr get mx st p"
  "mh_conf hdr get mx (st\<lparr>mh_last_left := a\<rparr>) p = mh_conf hdr get mx st p"
  "mh_conf hdr get mx (st\<lparr>mh_last_errno := a\<rparr>) p = mh_conf hdr get mx st p"
  by (simp_all add: mh_conf_def)

lemma mh_conf_reset: "mh_conf hdr get mx st p \<Longrightarrow>
   mh_conf hdr get mx (st\<lparr>mh_msg_buffer := bb_reset (mh_msg_buffer st)\<rparr>) []"
  by (simp add: mh_conf_def) (simp add: bb_reset_def)

lemma mh_conf_append:
  assumes conf: "mh_conf hdr get mx st p" and k: "0 \<le> k" "k \<le> int (length pos)"
    and fits: "int (length p) + k \<le> mx"
  shows "\<exists>b. mh_append h st pos k = Some (st\<lparr>mh_msg_buffer := b\<rparr>) \<and>
             mh_conf hdr get mx (st\<lparr>mh_msg_buffer := b\<rparr>) (p @ take (nat k) pos)"
proof -
  let ?b = "mh_msg_buffer st"
  have wf: "bb_wf ?b" and own: "bb_owner ?b" and bs: "bb_bytes ?b = p"
    and beg: "bb_data_begin ?b = 0" and sz: "mx \<le> int (unat (bb_buffer_size ?b))"
    using conf by (simp_all add: mh_conf_def)
  have "length p = unat (bb_data_end ?b)"
    using bs beg bb_wfD [OF wf] by (auto simp: bb_bytes_def)
  moreover have "length p + nat k \<le> unat (bb_buffer_size ?b)" using fits sz k by linarith
  ultimately have room: "nat k \<le> bb_room ?b" by (simp add: bb_room_def)
  then have "nat k < 2 ^ 32" using unat_le_lt32 [of _ "bb_buffer_size ?b"] by (simp add: bb_room_def)
  then have uk: "unat (to_uint k) = nat k" using k by (simp add: to_uint_def unat_eq_nat_uint uint_word_of_int_small)
  then have "\<exists>b'. bb_write h ?b pos (to_uint k) 100 = Some (True, b') \<and> bb_wf b' \<and> bb_owner b' \<and>
           bb_bytes b' = bb_bytes ?b @ take (unat (to_uint k)) pos \<and>
           bb_buffer_size b' = bb_buffer_size ?b \<and> bb_data_begin b' = bb_data_begin ?b"
    using room k by (intro bb_write_fits [OF wf own]) simp_all
  then show ?thesis
    using conf k uk bs beg by (auto simp: mh_append_def mh_conf_def)
qed

lemma bb_data_begin0: "bb_wf b \<Longrightarrow> bb_data_begin b = 0 \<Longrightarrow> bb_data b = bb_bytes b @ drop (unat (bb_data_end b)) (block (bb_buffer b))"
  by (simp add: bb_data_def bb_bytes_def window_def)

lemma mh_conf_data:
  assumes "mh_conf hdr get mx st p"
  shows "\<exists>r. bb_data (mh_msg_buffer st) = p @ r"
  using assms bb_data_begin0 [of "mh_msg_buffer st"] by (auto simp: mh_conf_def)

lemma msghandler_upd: "mh_msg_buffer (st\<lparr>mh_msg_buffer := b\<rparr>) = b"
  by simp

lemma mh_conf_data_size: "mh_conf hdr get mx st p \<Longrightarrow> unat (bb_data_size (mh_msg_buffer st)) = length p"
  by (auto simp: mh_conf_def unat_bb_data_size)

text \<open>One round against one unfolding of the contract, in the three states of the handler.\<close>

definition round_ok ::
  "nat \<Rightarrow> (byte list \<Rightarrow> int option) \<Rightarrow> int \<Rightarrow> 's callback \<Rightarrow> stream_end \<times> 's \<Rightarrow>
     (read_outcome \<times> msg_handler \<times> 's \<times> byte list) option \<Rightarrow> bool"
where
  "round_ok hdr get mx cb res r \<longleftrightarrow>
     (case r of None \<Rightarrow> False
      | Some (oc, st, app, rest) \<Rightarrow>
          (case oc of
             Read_next \<Rightarrow> mh_inv hdr get mx st [] \<and> deliver hdr get mx cb app rest = res
           | Read_break \<Rightarrow> (\<exists>q. res = (Pending q, app) \<and> mh_inv hdr get mx st q)
           | Read_fail \<Rightarrow>
               (\<exists>m. res = (Bad_length m, app) \<and> mh_last_errno st = ERROR_CLOSE_RECV \<and>
                    mh_last_error_msglen st = m) \<or>
               (res = (Refused, app) \<and> mh_last_errno st = ERROR_CLOSE_ACTIVE)))"

lemma round_ok_dispatch:
  assumes res: "(case cb msg app of (r, app') \<Rightarrow>
        if r < 0 then (Refused, app') else deliver hdr get mx cb app' rest) = res"
    and inv: "mh_inv hdr get mx (upd st) []"
  shows "round_ok hdr get mx cb res (Some (mh_dispatch cb st app msg upd rest))"
  using assms by (auto simp: mh_dispatch_def round_ok_def split: prod.splits)

lemma mh_inv_Nil:
  "0 < hdr \<Longrightarrow> mh_inv hdr get mx st [] \<longleftrightarrow>
     mh_conf hdr get mx st [] \<and> mh_last_left st = 0 \<and> mh_need_len st = 0"
  by (auto simp: mh_inv_alt)

lemma to_int8_small: "0 \<le> i \<Longrightarrow> i < 128 \<Longrightarrow> to_int8 i = i"
  by (simp add: to_int8_def sint_word_of_int_small)

lemma mh_confD:
  assumes "mh_conf hdr get mx st p"
  shows "ss_get_msglen (mh_source st) = get" "unat (ss_msglen_bytes (mh_source st)) = hdr"
    "sint (ss_msgbuffer_size (mh_source st)) = mx" "int hdr \<le> mx"
  using assms by (simp_all add: mh_conf_def)

context msglen_codec
begin

lemma read_step_fresh:
  assumes inv: "mh_inv hdr get mx st []" and res: "deliver hdr get mx cb app pos = res"
    and ok: "\<And>m. fst res \<noteq> Runt m" and ne: "pos \<noteq> []"
  shows "round_ok hdr get mx cb res (read_step h cb st app pos)"
proof -
  have conf: "mh_conf hdr get mx st []" and left: "mh_last_left st = 0" and need: "mh_need_len st = 0"
    using inv hdr_pos by (simp_all add: mh_inv_Nil)
  note src = mh_confD [OF conf]
  show ?thesis
  proof (cases "length pos < hdr")
    case True
    then have r: "res = (Pending pos, app)" using res by (simp add: deliver.simps [of hdr get mx cb app pos])
    have "int (length []) + int (length pos) \<le> mx" using True src(4) by simp
    then obtain b where b: "mh_append h st pos (int (length pos)) = Some (st\<lparr>mh_msg_buffer := b\<rparr>)"
        and cb: "mh_conf hdr get mx (st\<lparr>mh_msg_buffer := b\<rparr>) pos"
      using mh_conf_append [OF conf, of "int (length pos)" pos h] by auto
    let ?st = "st\<lparr>mh_msg_buffer := b, mh_last_left := int (length pos)\<rparr>"
    have "mh_inv hdr get mx ?st pos" using cb True need by (simp add: mh_inv_alt)
    moreover have "read_step h cb st app pos = Some (Read_break, ?st, app, pos)"
      using True left need src b hdr_small by (simp add: read_step_def Let_def to_int8_small)
    ultimately show ?thesis using r by (simp add: round_ok_def)
  next
    case False
    then obtain m where m: "get pos = Some m" using get_total [of pos] by auto
    note dl = deliver.simps [of hdr get mx cb app pos]
    show ?thesis
    proof (cases "m \<le> 0 \<or> m > mx")
      case True
      then show ?thesis using False m res dl left need src
        by (auto simp: read_step_def Let_def round_ok_def)
    next
      case range: False
      then have hm: "int hdr \<le> m" using False m res dl ok [of m] by (cases "m < int hdr") auto
      show ?thesis
      proof (cases "int (length pos) < m")
        case True
        then have r: "res = (Pending pos, app)" using res dl m False range hm by simp
        obtain b where b: "mh_append h st pos (int (length pos)) = Some (st\<lparr>mh_msg_buffer := b\<rparr>)"
            and cb: "mh_conf hdr get mx (st\<lparr>mh_msg_buffer := b\<rparr>) pos"
          using mh_conf_append [OF conf, of "int (length pos)" pos h] True range by auto
        let ?st = "st\<lparr>mh_msg_buffer := b, mh_need_len := m - int (length pos)\<rparr>"
        have "mh_inv hdr get mx ?st pos" using cb False True left m hm range
          by (simp add: mh_inv_alt)
        moreover have "read_step h cb st app pos = Some (Read_break, ?st, app, pos)"
          using False True left need src b m range by (simp add: read_step_def Let_def)
        ultimately show ?thesis using r by (simp add: round_ok_def)
      next
        case fits: False
        have "read_step h cb st app pos =
            Some (mh_dispatch cb st app (take (nat m) pos) id (drop (nat m) pos))"
          using False fits left need src m range by (simp add: read_step_def Let_def mem_get_ok nat_le_iff)
        moreover have "(case cb (take (nat m) pos) app of (r, app') \<Rightarrow>
            if r < 0 then (Refused, app') else deliver hdr get mx cb app' (drop (nat m) pos)) = res"
          using res dl m False range hm fits by simp
        ultimately show ?thesis using inv by (simp only:) (intro round_ok_dispatch, simp_all)
      qed
    qed
  qed
qed

lemma read_step_header:
  assumes inv: "mh_inv hdr get mx st p" and p: "p \<noteq> []" "length p < hdr"
    and res: "deliver hdr get mx cb app (p @ pos) = res" and ok: "\<And>m. fst res \<noteq> Runt m"
  shows "round_ok hdr get mx cb res (read_step h cb st app pos)"
proof -
  have conf: "mh_conf hdr get mx st p" and left: "mh_last_left st = int (length p)"
    and need: "mh_need_len st = 0"
    using inv p by (simp_all add: mh_inv_alt)
  note src = mh_confD [OF conf] and dl = deliver.simps [of hdr get mx cb app "p @ pos"]
  show ?thesis
  proof (cases "length p + length pos < hdr")
    case True
    then have r: "res = (Pending (p @ pos), app)" using res dl by simp
    obtain b where b: "mh_append h st pos (int (length pos)) = Some (st\<lparr>mh_msg_buffer := b\<rparr>)"
        and cb: "mh_conf hdr get mx (st\<lparr>mh_msg_buffer := b\<rparr>) (p @ pos)"
      using mh_conf_append [OF conf, of "int (length pos)" pos h] True src(4) by auto
    let ?st = "st\<lparr>mh_msg_buffer := b, mh_last_left := int (length p + length pos)\<rparr>"
    have "mh_inv hdr get mx ?st (p @ pos)" using cb True need by (simp add: mh_inv_alt)
    moreover have "read_step h cb st app pos = Some (Read_break, ?st, app, pos)"
      using True left need src b hdr_small p by (simp add: read_step_def Let_def to_int8_small)
    ultimately show ?thesis using r by (simp add: round_ok_def)
  next
    case False
    define k where "k = hdr - length p"
    have k: "int k = int hdr - int (length p)" "k \<le> length pos" "length p + k = hdr"
      using False p by (simp_all add: k_def)
    let ?head = "p @ take k pos" and ?pos = "drop k pos"
    have lh: "length ?head = hdr" using k by simp
    obtain b where b: "mh_append h st pos (int k) = Some (st\<lparr>mh_msg_buffer := b\<rparr>)"
        and cb: "mh_conf hdr get mx (st\<lparr>mh_msg_buffer := b\<rparr>) ?head"
      using mh_conf_append [OF conf, of "int k" pos h] k src(4) by auto
    obtain r where dat: "bb_data b = ?head @ r" using mh_conf_data [OF cb] by auto
    obtain m where m: "get ?head = Some m" using get_total [of ?head] lh by auto
    then have md: "get (bb_data b) = Some m" using get_prefix [of ?head r] lh dat by simp
    have pp: "p @ pos = ?head @ ?pos" by simp
    have mp: "get (p @ pos) = Some m" unfolding pp using get_prefix [of ?head ?pos] lh m by simp
    have ks: "int hdr - int (length p) = int k" using k by simp
    show ?thesis
    proof (cases "m \<le> 0 \<or> m > mx")
      case True
      then show ?thesis using False mp md res dl left need src b p ks
        by (auto simp: read_step_def Let_def round_ok_def)
    next
      case range: False
      then have hm: "int hdr \<le> m" using False mp res dl ok [of m] by (cases "m < int hdr") auto
      let ?st1 = "st\<lparr>mh_msg_buffer := b, mh_last_left := 0\<rparr>"
      have conf1: "mh_conf hdr get mx ?st1 ?head" using cb by simp
      show ?thesis
      proof (cases "int (length (p @ pos)) < m")
        case True
        then have r: "res = (Pending (p @ pos), app)" using res dl mp False range hm by simp
        have fit: "int (length ?head) + int (length ?pos) \<le> mx" using True range by simp
        obtain b2 where b2: "mh_append h ?st1 ?pos (int (length ?pos)) = Some (?st1\<lparr>mh_msg_buffer := b2\<rparr>)"
            and cb2: "mh_conf hdr get mx (?st1\<lparr>mh_msg_buffer := b2\<rparr>) (p @ pos)"
          using mh_conf_append [OF conf1 _ _ fit, of ?pos h] by auto
        let ?st = "?st1\<lparr>mh_msg_buffer := b2, mh_need_len := m - int (length (p @ pos))\<rparr>"
        have "mh_inv hdr get mx ?st (p @ pos)" using cb2 False True mp hm range
          by (simp add: mh_inv_alt)
        moreover have "read_step h cb st app pos = Some (Read_break, ?st, app, ?pos)"
        proof -
          have "\<not> m \<le> int (length ?pos) + int hdr" and
            "m - int (length ?pos) - int hdr = m - int (length (p @ pos))"
            and "\<not> int (length p) + int (length pos) < int hdr"
            using True k False by simp_all
          then show ?thesis using left need src b b2 md range p ks
            by (simp add: read_step_def Let_def del: length_drop length_append)
        qed
        ultimately show ?thesis using r by (simp add: round_ok_def)
      next
        case fits: False
        let ?n = "m - int hdr"
        have n: "0 \<le> ?n" "?n \<le> int (length ?pos)" using hm fits k by simp_all
        have fit: "int (length ?head) + ?n \<le> mx" using range lh by simp
        obtain b2 where b2: "mh_append h ?st1 ?pos ?n = Some (?st1\<lparr>mh_msg_buffer := b2\<rparr>)"
            and cb2: "mh_conf hdr get mx (?st1\<lparr>mh_msg_buffer := b2\<rparr>) (?head @ take (nat ?n) ?pos)"
          using mh_conf_append [OF conf1 n fit, of h] by auto
        have nm: "nat m = hdr + nat ?n" using hm by simp
        have msg: "?head @ take (nat ?n) ?pos = take (nat m) (p @ pos)"
          unfolding pp nm using lh by (rule take_append_exact [symmetric])
        have rest: "drop (nat ?n) ?pos = drop (nat m) (p @ pos)"
          unfolding pp nm using lh by (rule drop_append_exact [symmetric])
        obtain r2 where dat2: "bb_data b2 = take (nat m) (p @ pos) @ r2"
          using mh_conf_data [OF cb2] unfolding msg msghandler_upd by blast
        have lm: "length (take (nat m) (p @ pos)) = nat m" using fits by simp
        have get2: "mem_get (bb_data b2) 0 (nat m) = Some (take (nat m) (p @ pos))"
              unfolding dat2 using lm by (rule mem_get_prefix)
        let ?upd = "\<lambda>st. st\<lparr>mh_msg_buffer := bb_reset (mh_msg_buffer st)\<rparr>"
        have step: "read_step h cb st app pos =
            Some (mh_dispatch cb (?st1\<lparr>mh_msg_buffer := b2\<rparr>) app (take (nat m) (p @ pos)) ?upd
                    (drop (nat m) (p @ pos)))"
        proof -
          have "m \<le> int (length ?pos) + int hdr" and "\<not> int (length p) + int (length pos) < int hdr"
            using fits k False by simp_all
          then show ?thesis using left need src b b2 md range p ks get2 rest
            by (simp add: read_step_def Let_def del: length_drop drop_append drop_drop)
        qed
        have "mh_inv hdr get mx (?upd (?st1\<lparr>mh_msg_buffer := b2\<rparr>)) []"
          using mh_conf_reset [OF cb2] hdr_pos need by (simp add: mh_inv_Nil)
        moreover have "(case cb (take (nat m) (p @ pos)) app of (r, app') \<Rightarrow>
            if r < 0 then (Refused, app') else deliver hdr get mx cb app' (drop (nat m) (p @ pos))) = res"
          using res dl mp False range hm fits by simp
        ultimately show ?thesis unfolding step by (intro round_ok_dispatch)
      qed
    qed
  qed
qed

lemma read_step_body:
  assumes inv: "mh_inv hdr get mx st p" and p: "hdr \<le> length p"
    and res: "deliver hdr get mx cb app (p @ pos) = res" and ne: "pos \<noteq> []"
  shows "round_ok hdr get mx cb res (read_step h cb st app pos)"
proof -
  obtain m where conf: "mh_conf hdr get mx st p" and left: "mh_last_left st = 0"
    and m: "get p = Some m" "int hdr \<le> m" "m \<le> mx" "int (length p) < m"
    and need: "mh_need_len st = m - int (length p)"
    using inv p by (auto simp: mh_inv_alt)
  note src = mh_confD [OF conf] and dl = deliver.simps [of hdr get mx cb app "p @ pos"]
  have mp: "get (p @ pos) = Some m" using m get_prefix p by simp
  let ?n = "m - int (length p)"
  show ?thesis
  proof (cases "int (length pos) < ?n")
    case True
    then have r: "res = (Pending (p @ pos), app)" using res dl mp p m hdr_pos by simp
    have fit: "int (length p) + int (length pos) \<le> mx" using True m by simp
    obtain b where b: "mh_append h st pos (int (length pos)) = Some (st\<lparr>mh_msg_buffer := b\<rparr>)"
        and cb: "mh_conf hdr get mx (st\<lparr>mh_msg_buffer := b\<rparr>) (p @ pos)"
      using mh_conf_append [OF conf _ _ fit, of pos h] by auto
    let ?st = "st\<lparr>mh_msg_buffer := b, mh_need_len := ?n - int (length pos)\<rparr>"
    have "mh_inv hdr get mx ?st (p @ pos)" using cb p m True left mp by (simp add: mh_inv_alt)
    moreover have "read_step h cb st app pos = Some (Read_break, ?st, app, pos)"
      using True need b m by (simp add: read_step_def Let_def)
    ultimately show ?thesis using r by (simp add: round_ok_def)
  next
    case False
    have n: "0 \<le> ?n" "?n \<le> int (length pos)" using False m by simp_all
    have fit: "int (length p) + ?n \<le> mx" using m by simp
    obtain b where b: "mh_append h st pos ?n = Some (st\<lparr>mh_msg_buffer := b\<rparr>)"
        and cb: "mh_conf hdr get mx (st\<lparr>mh_msg_buffer := b\<rparr>) (p @ take (nat ?n) pos)"
      using mh_conf_append [OF conf n fit, of h] by auto
    have nm: "nat m = length p + nat ?n" using m by simp
    have msg: "p @ take (nat ?n) pos = take (nat m) (p @ pos)" unfolding nm by simp
    have rest: "drop (nat ?n) pos = drop (nat m) (p @ pos)" unfolding nm by simp
    obtain r where dat: "bb_data b = take (nat m) (p @ pos) @ r"
      using mh_conf_data [OF cb] msg by auto
    have lm: "length (take (nat m) (p @ pos)) = nat m" using False m by simp
    then have ds: "unat (bb_data_size b) = nat m"
      using mh_conf_data_size [OF cb] unfolding msg by (simp only: msghandler_upd)
    have get2: "mem_get (bb_data b) 0 (unat (bb_data_size b)) = Some (take (nat m) (p @ pos))"
      unfolding ds unfolding dat using lm by (rule mem_get_prefix)
    let ?upd = "\<lambda>st. st\<lparr>mh_msg_buffer := bb_reset (mh_msg_buffer st), mh_need_len := 0\<rparr>"
    have step: "read_step h cb st app pos =
        Some (mh_dispatch cb (st\<lparr>mh_msg_buffer := b\<rparr>) app (take (nat m) (p @ pos)) ?upd
                (drop (nat m) (p @ pos)))"
      using False need b get2 rest m by (simp add: read_step_def Let_def)
    have "mh_inv hdr get mx (?upd (st\<lparr>mh_msg_buffer := b\<rparr>)) []"
      using mh_conf_reset [OF cb] hdr_pos left by (simp add: mh_inv_Nil)
    moreover have "(case cb (take (nat m) (p @ pos)) app of (r, app') \<Rightarrow>
        if r < 0 then (Refused, app') else deliver hdr get mx cb app' (drop (nat m) (p @ pos))) = res"
      using res dl mp p m False by simp
    ultimately show ?thesis unfolding step by (intro round_ok_dispatch)
  qed
qed

lemma read_step_round:
  assumes "mh_inv hdr get mx st p" "deliver hdr get mx cb app (p @ pos) = res"
    "\<And>m. fst res \<noteq> Runt m" "pos \<noteq> []"
  shows "round_ok hdr get mx cb res (read_step h cb st app pos)"
  using assms read_step_fresh [of mx st cb app pos res h] read_step_header [of mx st p cb app pos res h]
    read_step_body [of mx st p cb app pos res h]
  by (cases "p = []"; cases "length p < hdr") auto

text \<open>The loop: a run of the handler on a read is a run of the contract on what it had and the read.\<close>

lemma drain_refines:
  assumes "mh_inv hdr get mx st p" "deliver hdr get mx cb app (p @ pos) = (e, app')"
    "\<And>m. e \<noteq> Runt m" "pos \<noteq> []"
  shows "\<exists>ok st'. drain h cb st app pos = Some (ok, st', app') \<and>
           (case e of
              Pending q \<Rightarrow> ok \<and> mh_inv hdr get mx st' q
            | Bad_length m \<Rightarrow> \<not> ok \<and> mh_last_errno st' = ERROR_CLOSE_RECV \<and> mh_last_error_msglen st' = m
            | Refused \<Rightarrow> \<not> ok \<and> mh_last_errno st' = ERROR_CLOSE_ACTIVE
            | Runt m \<Rightarrow> False)"
  using assms
proof (induction h cb st app pos arbitrary: p rule: drain.induct)
  case (1 h cb st app pos)
  have round: "round_ok hdr get mx cb (e, app') (read_step h cb st app pos)"
    using 1(2-5) by (intro read_step_round) auto
  then obtain oc st1 app1 rest where step: "read_step h cb st app pos = Some (oc, st1, app1, rest)"
    by (auto simp: round_ok_def split: option.splits)
  note dr = drain.simps [of h cb st app pos]
  show ?case
  proof (cases oc)
    case Read_break
    then obtain q where "e = Pending q" "app' = app1" "mh_inv hdr get mx st1 q"
      using round step by (auto simp: round_ok_def)
    moreover have "drain h cb st app pos = Some (True, st1, app1)"
      using step Read_break "1.prems"(4) unfolding dr by simp
    ultimately show ?thesis by auto
  next
    case Read_fail
    then have "drain h cb st app pos = Some (False, st1, app1)"
      using step "1.prems"(4) unfolding dr by simp
    moreover have "(\<exists>m. e = Bad_length m \<and> app' = app1 \<and> mh_last_errno st1 = ERROR_CLOSE_RECV \<and>
          mh_last_error_msglen st1 = m) \<or>
        (e = Refused \<and> app' = app1 \<and> mh_last_errno st1 = ERROR_CLOSE_ACTIVE)"
      using round unfolding step Read_fail round_ok_def by simp
    ultimately show ?thesis by fastforce
  next
    case Read_next
    then have inv1: "mh_inv hdr get mx st1 []" and d1: "deliver hdr get mx cb app1 rest = (e, app')"
      using round step by (auto simp: round_ok_def)
    have unf: "drain h cb st app pos = drain h cb st1 app1 rest"
      using step Read_next "1.prems"(4) unfolding dr by simp
    show ?thesis
    proof (cases "rest = []")
      case True
      then have "e = Pending [] \<and> app1 = app'"
        using d1 hdr_pos by (simp add: deliver.simps [of hdr get mx cb app1 "[]"])
      then show ?thesis using True inv1 unf by (auto simp: drain.simps [of h cb st1 app' "[]"])
    next
      case False
      then show ?thesis unfolding unf
        using "1.IH" [OF "1.prems"(4) step [unfolded Read_next] refl refl refl refl inv1 _ "1.prems"(3) False]
          d1 by simp
    qed
  qed
qed

text \<open>
  Cutting a stream in two places nothing: what is left pending by the first part is put in front
  of the second.
\<close>

lemma deliver_append:
  assumes "deliver hdr get mx cb app xs = (Pending q, app1)"
  shows "deliver hdr get mx cb app (xs @ ys) = deliver hdr get mx cb app1 (q @ ys)"
  using assms
proof (induction "length xs" arbitrary: xs app rule: less_induct)
  case less
  note dl = deliver.simps [of hdr get mx cb app]
  show ?case
  proof (cases "length xs < hdr")
    case True
    then show ?thesis using less.prems dl [of xs] by simp
  next
    case False
    then obtain m where m: "get xs = Some m" using get_total [of xs] by auto
    then have m2: "get (xs @ ys) = Some m" using get_prefix False by simp
    have range: "\<not> (m \<le> 0 \<or> m > mx)" "\<not> m < int hdr"
      using less.prems dl [of xs] m False by (auto split: if_splits)
    show ?thesis
    proof (cases "int (length xs) < m")
      case True
      then show ?thesis using less.prems dl [of xs] m False range by simp
    next
      case fits: False
      obtain r app2 where cb: "cb (take (nat m) xs) app = (r, app2)" by (cases "cb (take (nat m) xs) app")
      have r: "\<not> r < 0" and rec: "deliver hdr get mx cb app2 (drop (nat m) xs) = (Pending q, app1)"
        using less.prems dl [of xs] m False range fits cb by (auto split: if_splits)
      have "0 < m" "nat m \<le> length xs" using range fits by simp_all
      then have "length (drop (nat m) xs) < length xs" by simp
      from less.hyps [OF this rec]
      have "deliver hdr get mx cb app2 (drop (nat m) xs @ ys) = deliver hdr get mx cb app1 (q @ ys)" .
      moreover have "take (nat m) (xs @ ys) = take (nat m) xs" "drop (nat m) (xs @ ys) = drop (nat m) xs @ ys"
        using fits by simp_all
      ultimately show ?thesis using dl [of "xs @ ys"] m2 False range fits cb r by simp
    qed
  qed
qed

lemma deliver_stop:
  assumes "deliver hdr get mx cb app xs = (e, app1)" "\<And>q. e \<noteq> Pending q"
  shows "deliver hdr get mx cb app (xs @ ys) = (e, app1)"
  using assms
proof (induction "length xs" arbitrary: xs app rule: less_induct)
  case less
  note dl = deliver.simps [of hdr get mx cb app]
  have long: "\<not> length xs < hdr" using less.prems(1) less.prems(2) [of xs] dl [of xs] by auto
  then obtain m where m: "get xs = Some m" using get_total [of xs] by auto
  then have m2: "get (xs @ ys) = Some m" using get_prefix long by simp
  show ?case
  proof (cases "m \<le> 0 \<or> m > mx \<or> m < int hdr")
    case True
    then show ?thesis using less.prems(1) dl [of xs] dl [of "xs @ ys"] m m2 long by auto
  next
    case range: False
    then have fits: "\<not> int (length xs) < m"
      using less.prems(1) less.prems(2) [of xs] dl [of xs] m long by auto
    obtain r app2 where cb: "cb (take (nat m) xs) app = (r, app2)" by (cases "cb (take (nat m) xs) app")
    have td: "take (nat m) (xs @ ys) = take (nat m) xs" "drop (nat m) (xs @ ys) = drop (nat m) xs @ ys"
      using fits by simp_all
    show ?thesis
    proof (cases "r < 0")
      case True
      then show ?thesis using less.prems(1) dl [of xs] dl [of "xs @ ys"] m m2 long range fits cb td
        by simp
    next
      case False
      then have rec: "deliver hdr get mx cb app2 (drop (nat m) xs) = (e, app1)"
        using less.prems(1) dl [of xs] m long range fits cb by simp
      have "0 < m" "nat m \<le> length xs" using range fits by simp_all
      then have "length (drop (nat m) xs) < length xs" by simp
      from less.hyps [OF this rec less.prems(2)]
      show ?thesis using dl [of "xs @ ys"] m2 long range fits cb td False by simp
    qed
  qed
qed

text \<open>A stream of well-formed messages is delivered message by message.\<close>

lemma deliver_frames:
  assumes "\<And>f. f \<in> set fs \<Longrightarrow> hdr \<le> length f \<and> get f = Some (int (length f)) \<and> int (length f) \<le> mx"
    and "\<And>msg a. 0 \<le> fst (cb msg a)" and "length q < hdr"
  shows "deliver hdr get mx cb app (concat fs @ q) = (Pending q, fold (\<lambda>f a. snd (cb f a)) fs app)"
  using assms
proof (induction fs arbitrary: app)
  case Nil
  then show ?case by (simp add: deliver.simps [of hdr get mx cb app])
next
  case (Cons f fs)
  have f: "hdr \<le> length f" "get f = Some (int (length f))" "int (length f) \<le> mx"
    using Cons.prems(1) [of f] by simp_all
  obtain r app2 where cb: "cb f app = (r, app2)" by (cases "cb f app")
  then have "0 \<le> r" using Cons.prems(2) [of f app] by simp
  moreover have "get (f @ concat fs @ q) = Some (int (length f))" using get_prefix [OF f(1)] f(2) by simp
  moreover have "deliver hdr get mx cb app2 (concat fs @ q) =
      (Pending q, fold (\<lambda>f a. snd (cb f a)) fs app2)"
    using Cons.prems by (intro Cons.IH) auto
  moreover have "f \<noteq> []" using f(1) hdr_pos by auto
  ultimately show ?case
    using f hdr_pos cb by (simp add: deliver.simps [of hdr get mx cb app "f @ concat fs @ q"])
qed

end

text \<open>
  The runner calls \<^verbatim>\<open>handle_read\<close> whenever the socket is readable and drops the handler
  when it returns a negative value; \<open>mh_run\<close> does so until the given results are used up.
\<close>

lemma mh_handle_read_shorter:
  "mh_handle_read h en n cb st app rs = Some (r, st', app', rs') \<Longrightarrow> rs \<noteq> [] \<Longrightarrow> length rs' < length rs"
proof (induction h en n cb st app rs rule: mh_handle_read.induct)
  case (2 h en n cb st app bs rs)
  then show ?case by (cases "rs = []") (fastforce split: if_splits option.splits prod.splits)+
qed (auto split: if_splits)

function mh_run ::
  "allocator \<Rightarrow> errnos \<Rightarrow> nat \<Rightarrow> 's callback \<Rightarrow> msg_handler \<Rightarrow> 's \<Rightarrow> recv_result list \<Rightarrow>
     (bool \<times> msg_handler \<times> 's) option"
where
  "mh_run h en n cb st app rs =
     (if rs = [] then Some (True, st, app)
      else case mh_handle_read h en n cb st app rs of
        None \<Rightarrow> None
      | Some (r, st', app', rs') \<Rightarrow>
          if r < 0 then Some (False, st', app') else mh_run h en n cb st' app' rs')"
  by pat_completeness auto
termination
  by (relation "measure (\<lambda>(h, en, n, cb, st, app, rs). length rs)")
    (auto dest: mh_handle_read_shorter)

declare mh_run.simps [simp del]

lemma mh_run_Nil [simp]: "mh_run h en n cb st app [] = Some (True, st, app)"
  by (simp add: mh_run.simps [of h en n cb st app "[]"])

lemma mh_run_Cons:
  assumes "bs \<noteq> []"
  shows "mh_run h en n cb st app (Recv_data bs # rs) =
     (case drain h cb st app bs of
        None \<Rightarrow> None
      | Some (ok, st', app') \<Rightarrow>
          if \<not> ok then Some (False, st', app') else mh_run h en n cb st' app' rs)"
  using assms mh_run.simps [of h en n cb _ _ rs]
  by (auto simp: mh_run.simps [of h en n cb st app "Recv_data bs # rs"] split: option.splits prod.splits)

lemma mh_run_block:
  "recv_would_block en e \<Longrightarrow>
     mh_run h en n cb st app (Recv_error e # rs) = mh_run h en n cb st app rs"
  by (simp add: mh_run.simps [of h en n cb st app "Recv_error e # rs"])

text \<open>
  The bytes a list of results carries, and the results of a connection that stays open: data, or
  an error that only says there is nothing to read.
\<close>

fun recv_bytes :: "recv_result list \<Rightarrow> byte list" where
  "recv_bytes [] = []"
| "recv_bytes (Recv_data bs # rs) = bs @ recv_bytes rs"
| "recv_bytes (Recv_error e # rs) = recv_bytes rs"

fun recv_open :: "errnos \<Rightarrow> recv_result \<Rightarrow> bool" where
  "recv_open en (Recv_data bs) = (bs \<noteq> [])"
| "recv_open en (Recv_error e) = recv_would_block en e"

definition stream_outcome ::
  "nat \<Rightarrow> (byte list \<Rightarrow> int option) \<Rightarrow> int \<Rightarrow> stream_end \<Rightarrow> bool \<Rightarrow> msg_handler \<Rightarrow> bool"
where
  "stream_outcome hdr get mx e ok st =
     (case e of
        Pending q \<Rightarrow> ok \<and> mh_inv hdr get mx st q
      | Bad_length m \<Rightarrow> \<not> ok \<and> mh_last_errno st = ERROR_CLOSE_RECV \<and> mh_last_error_msglen st = m
      | Refused \<Rightarrow> \<not> ok \<and> mh_last_errno st = ERROR_CLOSE_ACTIVE
      | Runt m \<Rightarrow> False)"

context msglen_codec
begin

lemma mh_run_refines:
  assumes "mh_inv hdr get mx st p" "list_all (recv_open en) rs"
    "deliver hdr get mx cb app (p @ recv_bytes rs) = (e, app')" "\<And>m. e \<noteq> Runt m"
  shows "\<exists>ok st'. mh_run h en n cb st app rs = Some (ok, st', app') \<and> stream_outcome hdr get mx e ok st'"
  using assms
proof (induction rs arbitrary: st p app)
  case Nil
  have "(e, app') = (Pending p, app)"
  proof (cases "length p < hdr")
    case True
    then show ?thesis using Nil.prems(3) by (simp add: deliver.simps [of hdr get mx cb app p])
  next
    case False
    then obtain m where "get p = Some m" "int hdr \<le> m" "m \<le> mx" "int (length p) < m"
      using Nil.prems(1) by (auto simp: mh_inv_def)
    then show ?thesis using Nil.prems(3) False hdr_pos by (simp add: deliver.simps [of hdr get mx cb app p])
  qed
  then show ?case using Nil.prems(1) by (auto simp: stream_outcome_def)
next
  case (Cons r rs)
  show ?case
  proof (cases r)
    case (Recv_error x)
    then show ?thesis using Cons.prems Cons.IH [OF Cons.prems(1) _ _ Cons.prems(4), of app]
      by (simp add: mh_run_block)
  next
    case (Recv_data bs)
    then have ne: "bs \<noteq> []" and qs: "list_all (recv_open en) rs"
      and dl: "deliver hdr get mx cb app ((p @ bs) @ recv_bytes rs) = (e, app')"
      using Cons.prems by simp_all
    obtain e1 app1 where d1: "deliver hdr get mx cb app (p @ bs) = (e1, app1)"
      by (cases "deliver hdr get mx cb app (p @ bs)")
    have stop: "e1 = e \<and> app1 = app'" if "\<And>q. e1 \<noteq> Pending q"
      using deliver_stop [OF d1 that, of "recv_bytes rs"] dl by simp
    then have "e1 \<noteq> Runt m" for m using Cons.prems(4) [of m] by auto
    from drain_refines [OF Cons.prems(1) d1 this ne]
    obtain ok st1 where dr: "drain h cb st app bs = Some (ok, st1, app1)"
      and out: "stream_outcome hdr get mx e1 ok st1"
      unfolding stream_outcome_def by blast
    note run = mh_run_Cons [OF ne, of h en n cb st app rs]
    show ?thesis
    proof (cases "\<exists>q. e1 = Pending q")
      case True
      then obtain q where q: "e1 = Pending q" ..
      then have "ok" "mh_inv hdr get mx st1 q" using out by (simp_all add: stream_outcome_def)
      moreover have "deliver hdr get mx cb app1 (q @ recv_bytes rs) = (e, app')"
        using deliver_append [OF d1 [unfolded q]] dl by simp
      ultimately show ?thesis
        using Cons.IH [OF _ qs _ Cons.prems(4), of st1 q app1] run dr Recv_data by simp
    next
      case False
      then have e: "e1 = e" "app1 = app'" using stop by auto
      moreover have "\<not> ok" using out False e Cons.prems(4)
        by (auto simp: stream_outcome_def split: stream_end.splits)
      ultimately show ?thesis using out run dr Recv_data by auto
    qed
  qed
qed

end

text \<open>\<^verbatim>\<open>handle_open\<close> puts a new handler into the state between two messages.\<close>

lemma sint_nonneg_unat:
  assumes "0 \<le> sint (w :: uint)"
  shows "int (unat w) = sint w"
proof -
  have "sint w < 2 ^ 32" using sint_less [of w] by simp
  then have "uint w = sint w" unfolding uint_sint using assms by (simp add: take_bit_int_eq_self)
  then show ?thesis by simp
qed

lemma mh_open_inv:
  assumes src: "source_ok k src" and heap: "heap_ok h (unat (ss_msgbuffer_size src))"
    and wf: "bb_wf (mh_msg_buffer st)" "bb_owner (mh_msg_buffer st)"
  shows "mh_inv (msglen_hdr k) (msglen_get k) (sint (ss_msgbuffer_size src)) (mh_handle_open h st src) []"
proof -
  let ?n = "ss_msgbuffer_size src" and ?b = "mh_msg_buffer st"
  let ?b' = "snd (bb_reserve h ?b ?n)"
  have pos: "0 < sint ?n" using src kinds.hdr_pos [of k] by (simp add: source_ok_def)
  then have n: "int (unat ?n) = sint ?n" by (intro sint_nonneg_unat) simp
  have "bb_wf ?b' \<and> bb_owner ?b' \<and> ?n \<le> bb_buffer_size ?b'"
  proof (cases "bb_buffer_size ?b < ?n")
    case True
    then show ?thesis using bb_reserve_grows [OF wf(2) True heap] by auto
  next
    case False
    then show ?thesis using wf bb_reserve_keeps [OF wf(2), of ?n h] by simp
  qed
  moreover from this have "sint ?n \<le> int (unat (bb_buffer_size ?b'))"
    using n unfolding word_le_nat_alt by linarith
  moreover have "bb_wf b \<Longrightarrow> bb_wf (bb_reset b)" for b by (simp add: bb_wf_def bb_reset_def)
  ultimately have "bb_wf (bb_reset ?b')" "bb_owner ?b'" "sint ?n \<le> int (unat (bb_buffer_size ?b'))"
    by simp_all
  then show ?thesis
    using src kinds.hdr_pos [of k]
    by (simp add: mh_inv_def mh_handle_open_def source_ok_def bb_bytes_def bb_reset_def)
qed

lemma bb_new_ok: "bb_wf (mh_msg_buffer (mh_new src))" "bb_owner (mh_msg_buffer (mh_new src))"
  by (simp_all add: mh_new_def bb_new_def bb_wf_def)

lemma mh_open_new:
  "source_ok k src \<Longrightarrow> heap_ok h (unat (ss_msgbuffer_size src)) \<Longrightarrow>
     mh_inv (msglen_hdr k) (msglen_get k) (sint (ss_msgbuffer_size src)) (mh_handle_open h (mh_new src0) src) []"
  by (rule mh_open_inv) (simp_all add: bb_new_ok)

text \<open>
  A message framed by \<^verbatim>\<open>write_message\<close>: the buffer is reserved for exactly the frame, so
  neither write grows it.
\<close>

lemma frame_buffer:
  assumes n: "length field + len = n" "0 < n" "n < 2 ^ 32" and heap: "heap_ok h n" and len: "len \<le> length msg"
  shows "\<exists>b1 b2. bb_write h (snd (bb_reserve h bb_new (word_of_nat n))) field (word_of_nat (length field)) 100 =
             Some (True, b1) \<and> bb_write h b1 msg (word_of_nat len) 100 = Some (True, b2) \<and>
             mem_get (bb_data b2) 0 (unat (bb_data_size b2)) = Some (field @ take len msg)"
proof -
  have u: "unat (word_of_nat n :: uint) = n" "unat (word_of_nat (length field) :: uint) = length field"
    "unat (word_of_nat len :: uint) = len"
    using n by (simp_all add: unat_of_nat)
  have "bb_owner bb_new" "bb_buffer_size bb_new < word_of_nat n" "heap_ok h (unat (word_of_nat n :: uint))"
    using n heap u by (simp_all add: bb_new_def word_less_nat_alt)
  from bb_reserve_grows [OF this] obtain b0 where r: "snd (bb_reserve h bb_new (word_of_nat n)) = b0"
    and b0: "bb_wf b0" "bb_owner b0" "bb_bytes b0 = []" "bb_buffer_size b0 = word_of_nat n"
      "bb_data_begin b0 = 0" "bb_data_end b0 = 0" by auto
  have "unat (word_of_nat (length field) :: uint) \<le> bb_room b0" using n b0 u by (simp add: bb_room_def)
  from bb_write_fits [OF b0(1,2) this, of field h 100] u(2)
  obtain b1 where w1: "bb_write h b0 field (word_of_nat (length field)) 100 = Some (True, b1)"
    and b1: "bb_wf b1" "bb_owner b1" "bb_bytes b1 = field" "bb_buffer_size b1 = word_of_nat n"
      "bb_data_begin b1 = 0"
    using b0 by auto
  have e1: "unat (bb_data_end b1) = length field" using b1 bb_wfD [OF b1(1)] by (auto simp: bb_bytes_def)
  then have "unat (word_of_nat len :: uint) \<le> bb_room b1" using n b1 u by (simp add: bb_room_def)
  from bb_write_fits [OF b1(1,2) this, of msg h 100] u(3) len
  obtain b2 where w2: "bb_write h b1 msg (word_of_nat len) 100 = Some (True, b2)"
    and b2: "bb_wf b2" "bb_bytes b2 = field @ take len msg" "bb_data_begin b2 = 0"
    using b1 by auto
  have "unat (bb_data_size b2) = length (field @ take len msg)"
    using unat_bb_data_size [OF b2(1)] b2(2) by simp
  then have "mem_get (bb_data b2) 0 (unat (bb_data_size b2)) = Some (field @ take len msg)"
    unfolding bb_data_begin0 [OF b2(1,3)] b2(2) by (intro mem_get_prefix) simp
  then show ?thesis using r w1 w2 by blast
qed

definition host_order :: "msglen_kind \<Rightarrow> bool" where
  "host_order k \<longleftrightarrow> k = Len_int8 \<or> k = Len_int16_host \<or> k = Len_int32_host"

lemma le_bytes_1: "le_bytes 1 (c :: byte) = [c]" "le_bytes (Suc 0) (c :: byte) = [c]"
  by (simp_all add: le_bytes_def)

text \<open>The bytes of the length field as the three overloads of \<^verbatim>\<open>write\<close> store them.\<close>

definition msglen_field :: "msglen_kind \<Rightarrow> int \<Rightarrow> byte list" where
  "msglen_field k n =
     (case k of Len_int8 \<Rightarrow> le_bytes 1 (word_of_int n :: byte)
      | Len_int32_host \<Rightarrow> le_bytes 4 (word_of_int n :: uint)
      | _ \<Rightarrow> le_bytes 2 (word_of_int n :: uint16))"

lemma msglen_field:
  assumes "host_order k"
  shows "length (msglen_field k n) = msglen_hdr k"
    and "0 \<le> n \<Longrightarrow> n \<le> msglen_max k \<Longrightarrow> msglen_get k (msglen_field k n @ r) = Some n"
  using assms by (auto simp: host_order_def msglen_field_def msglen_simps)

lemma mh_write_message_frame:
  assumes k: "host_order k" "source_ok k (mh_source st)"
    and n: "int (msglen_hdr k) + int (length msg) \<le> msglen_max k"
      "int (msglen_hdr k) + int (length msg) \<le> sint (bb_buffer_size (mh_msg_buffer st))"
    and heap: "heap_ok h (msglen_hdr k + length msg)"
  shows "mh_write_message h st msg (int (length msg)) =
           Some (Inr (msglen_field k (int (msglen_hdr k) + int (length msg)) @ msg))"
proof -
  let ?n = "msglen_hdr k + length msg"
  let ?hd = "msglen_field k (int ?n)"
  have max: "msglen_max k \<le> 2147483647" by (cases k) simp_all
  have "length ?hd + length msg = ?n" "0 < ?n" "?n < 2 ^ 32"
    using msglen_field(1) [OF k(1)] kinds.hdr_pos [of k] n(1) max by simp_all
  from frame_buffer [OF this heap order_refl] obtain b1 b2
    where w: "bb_write h (snd (bb_reserve h bb_new (word_of_nat ?n))) ?hd (word_of_nat (length ?hd)) 100 = Some (True, b1)"
      "bb_write h b1 msg (word_of_nat (length msg)) 100 = Some (True, b2)"
      "mem_get (bb_data b2) 0 (unat (bb_data_size b2)) = Some (?hd @ msg)"
    by auto
  have hdr: "unat (ss_msglen_bytes (mh_source st)) = msglen_hdr k" using k(2) by (simp add: source_ok_def)
  show ?thesis
    using k(1) w n(2) hdr unfolding host_order_def
    by (auto simp: mh_write_message_def Let_def bb_write_char_def bb_write_short_def bb_write_int_def
        msglen_field_def le_bytes_1)
qed

lemma mh_run_append:
  assumes "list_all (recv_open en) rs"
  shows "mh_run h en n cb st app (rs @ ts) =
     (case mh_run h en n cb st app rs of
        None \<Rightarrow> None
      | Some (ok, st', app') \<Rightarrow>
          if ok then mh_run h en n cb st' app' ts else Some (False, st', app'))"
  using assms
proof (induction rs arbitrary: st app)
  case Nil
  then show ?case by simp
next
  case (Cons r rs)
  then show ?case
    by (cases r) (auto simp: mh_run_block mh_run_Cons split: option.splits prod.splits)
qed

text \<open>The results that end a connection, with the error number \<^verbatim>\<open>handle_read\<close> records.\<close>

fun recv_fatal :: "errnos \<Rightarrow> recv_result \<Rightarrow> int option" where
  "recv_fatal en (Recv_data bs) = (if bs = [] then Some ERROR_CLOSE_PASSIVE else None)"
| "recv_fatal en (Recv_error e) = (if recv_would_block en e then None else Some e)"

lemma mh_run_fatal:
  "recv_fatal en r = Some e \<Longrightarrow>
     mh_run h en n cb st app (r # rs) = Some (False, st\<lparr>mh_last_errno := e\<rparr>, app)"
  by (cases r)
    (auto simp: mh_run.simps [of h en n cb st app "Recv_data bs # rs" for bs]
      mh_run.simps [of h en n cb st app "Recv_error x # rs" for x] split: if_splits)

text \<open>A length field below its own size: split over two reads, and in one piece.\<close>

context msglen_codec
begin

lemma read_step_runt_split:
  assumes inv: "mh_inv hdr get mx st p" and p: "p \<noteq> []" "length p < hdr" "hdr \<le> length (p @ q)"
    and m: "get (p @ q) = Some m" "0 < m" "m < int hdr"
  shows "read_step h cb st app q = None"
proof -
  have conf: "mh_conf hdr get mx st p" and left: "mh_last_left st = int (length p)"
    and need: "mh_need_len st = 0" using inv p by (simp_all add: mh_inv_alt)
  note src = mh_confD [OF conf]
  let ?k = "int hdr - int (length p)"
  have k: "0 \<le> ?k" "?k \<le> int (length q)" "int (length p) + ?k \<le> mx" using p src by simp_all
  obtain b where b: "mh_append h st q ?k = Some (st\<lparr>mh_msg_buffer := b\<rparr>)"
      and cb: "mh_conf hdr get mx (st\<lparr>mh_msg_buffer := b\<rparr>) (p @ take (nat ?k) q)"
    using mh_conf_append [OF conf k, of h] by auto
  have pq: "take hdr (p @ q) = p @ take (nat ?k) q" using p by (simp add: nat_diff_distrib)
  obtain r where dat: "bb_data b = take hdr (p @ q) @ r"
    using mh_conf_data [OF cb] unfolding pq msghandler_upd by blast
  have "get (take hdr (p @ q)) = Some m" using get_agree [OF _ p(3)] m by simp
  then have md: "get (bb_data b) = Some m" unfolding dat using get_prefix [of "take hdr (p @ q)" r] p(3) by simp
  have "m \<le> mx" using m src by simp
  then show ?thesis using left need src b md p m
    by (simp add: read_step_def Let_def) (simp add: mh_append_def)
qed

lemma read_step_runt_whole:
  assumes inv: "mh_inv hdr get mx st []" and p: "hdr \<le> length bs"
    and m: "get bs = Some m" "0 < m" "m < int hdr"
  shows "read_step h cb st app bs = Some (mh_dispatch cb st app (take (nat m) bs) id (drop (nat m) bs))"
proof -
  have conf: "mh_conf hdr get mx st []" and left: "mh_last_left st = 0" and need: "mh_need_len st = 0"
    using inv hdr_pos by (simp_all add: mh_inv_Nil)
  note src = mh_confD [OF conf]
  show ?thesis using left need src m p by (simp add: read_step_def Let_def mem_get_def)
qed

end

section \<open>Properties\<close>

text \<open>C1: As long as no message states a length below the size of its own header (the contract does
  not end in \<open>Runt\<close>; what the code does with such a length is \<open>handle_read_runt_length\<close>), a handler
  opened on one of the five length codecs, with a message buffer that the allocator grants, hands the
  application for every split of a byte stream into reads, with would-block errors in between,
  exactly the messages the contract \<open>deliver\<close> cuts the whole stream into, reports the same end (a
  length out of range, a refusal of the application) and keeps exactly the bytes of the
  unfinished message.\<close>

theorem handle_read_reassembles:
  assumes "source_ok k src" "heap_ok h (unat (ss_msgbuffer_size src))"
    and "list_all (recv_open en) rs"
    and "deliver (msglen_hdr k) (msglen_get k) (sint (ss_msgbuffer_size src)) cb app (recv_bytes rs) = (e, app')"
    and "\<And>m. e \<noteq> Runt m"
  shows "\<exists>ok st. mh_run h en n cb (mh_handle_open h (mh_new src0) src) app rs = Some (ok, st, app') \<and>
           stream_outcome (msglen_hdr k) (msglen_get k) (sint (ss_msgbuffer_size src)) e ok st"
  by (rule kinds.mh_run_refines [OF mh_open_new [OF assms(1,2)] assms(3)]) (simp_all add: assms(4,5))

definition demo_source :: socket_source where
  "demo_source = \<lparr>ss_get_msglen = get_msglen_int8, ss_set_msglen = set_msglen_int8,
     ss_recvbuffer_size = 16, ss_msgbuffer_size = 16, ss_msglen_bytes = 1, ss_msg_byteorder = 0\<rparr>"

definition demo_heap :: allocator where
  "demo_heap = \<lparr>heap_ok = (\<lambda>_. True), heap_junk = (\<lambda>_. 0)\<rparr>"

definition demo_errnos :: errnos where
  "demo_errnos = \<lparr>SL_EAGAIN = 11, SL_EWOULDBLOCK = 11, SL_EINTR = 4, SL_IO_PENDING = 11, SL_ENOBUFS = 105\<rparr>"

definition demo_log :: "byte list list callback" where
  "demo_log msg app = (0, app @ [msg])"

lemma demo_source_ok: "source_ok Len_int8 demo_source" "heap_ok demo_heap m"
  by (simp_all add: source_ok_def demo_source_def demo_heap_def)

theorem handle_read_reassembles_witness:
  "\<exists>ok st. mh_run demo_heap demo_errnos 16 demo_log
       (mh_handle_open demo_heap (mh_new demo_source) demo_source) []
       [Recv_data [3, 65], Recv_error 4, Recv_data [66, 2, 67, 5]] = Some (ok, st, [[3, 65, 66], [2, 67]]) \<and>
     stream_outcome (msglen_hdr Len_int8) (msglen_get Len_int8) (sint (ss_msgbuffer_size demo_source))
       (Pending [5]) ok st"
  by (rule handle_read_reassembles [OF demo_source_ok])
     (simp_all add: recv_would_block_def demo_errnos_def demo_source_def demo_log_def deliver.simps
       get_msglen_int8_def mem_get_def)

text \<open>C2: Messages framed by \<^verbatim>\<open>write_message\<close> with a codec in host byte order arrive one by one, in
  order and with their length field in front, however the concatenation of the frames is split into
  reads, and the receiver is then between two messages.  \<^verbatim>\<open>write_message\<close> stores the length in host
  order whatever the codec, so the two codecs in network order are excluded.  The other conditions: every
  frame is within the range of the length field and of the message buffers of both sides, the
  allocator answers, and the application refuses no message.\<close>

theorem write_message_delivered:
  assumes "host_order k" "source_ok k (mh_source snd_st)" "source_ok k src"
    and "heap_ok h (unat (ss_msgbuffer_size src))" "list_all (recv_open en) rs"
    and "\<And>msg. msg \<in> set msgs \<Longrightarrow> heap_ok h (msglen_hdr k + length msg) \<and>
           int (msglen_hdr k + length msg) \<le> msglen_max k \<and>
           int (msglen_hdr k + length msg) \<le> sint (bb_buffer_size (mh_msg_buffer snd_st)) \<and>
           int (msglen_hdr k + length msg) \<le> sint (ss_msgbuffer_size src)"
    and "map (\<lambda>msg. mh_write_message h snd_st msg (int (length msg))) msgs = map (\<lambda>f. Some (Inr f)) frames"
    and "recv_bytes rs = concat frames" "\<And>msg a. 0 \<le> fst (cb msg a)"
  shows "\<exists>st. mh_run h en n cb (mh_handle_open h (mh_new src0) src) app rs =
             Some (True, st, fold (\<lambda>f a. snd (cb f a)) frames app) \<and>
           map (drop (msglen_hdr k)) frames = msgs \<and>
           mh_inv (msglen_hdr k) (msglen_get k) (sint (ss_msgbuffer_size src)) st []"
proof -
  let ?f = "\<lambda>msg. msglen_field k (int (msglen_hdr k) + int (length msg)) @ msg"
  have "map (\<lambda>msg. mh_write_message h snd_st msg (int (length msg))) msgs = map (\<lambda>msg. Some (Inr (?f msg))) msgs"
    using assms(1,2,6) by (intro map_cong mh_write_message_frame) simp_all
  then have "map (Some \<circ> Inr) frames = map (Some \<circ> (Inr :: byte list \<Rightarrow> int + byte list)) (map ?f msgs)"
    using assms(7) by (simp add: comp_def)
  then have fr: "frames = map ?f msgs"
    by (rule list.inj_map [THEN injD, rotated]) (auto intro: injI)
  have frame: "msglen_hdr k \<le> length f \<and> msglen_get k f = Some (int (length f)) \<and>
      int (length f) \<le> sint (ss_msgbuffer_size src)" if "f \<in> set frames" for f
    using that assms(6) msglen_field [OF assms(1)] unfolding fr by auto
  have "deliver (msglen_hdr k) (msglen_get k) (sint (ss_msgbuffer_size src)) cb app (concat frames @ []) =
      (Pending [], fold (\<lambda>f a. snd (cb f a)) frames app)"
    using frame assms(9) kinds.hdr_pos by (intro kinds.deliver_frames) auto
  then have "deliver (msglen_hdr k) (msglen_get k) (sint (ss_msgbuffer_size src)) cb app ([] @ recv_bytes rs) =
      (Pending [], fold (\<lambda>f a. snd (cb f a)) frames app)" using assms(8) by simp
  from kinds.mh_run_refines [OF mh_open_new [OF assms(3,4)] assms(5) this]
  have "\<exists>st. mh_run h en n cb (mh_handle_open h (mh_new src0) src) app rs =
             Some (True, st, fold (\<lambda>f a. snd (cb f a)) frames app) \<and>
           mh_inv (msglen_hdr k) (msglen_get k) (sint (ss_msgbuffer_size src)) st []"
    by (fastforce simp: stream_outcome_def)
  moreover have "map (drop (msglen_hdr k)) frames = msgs"
    unfolding fr using msglen_field(1) [OF assms(1)] by (simp add: comp_def)
  ultimately show ?thesis by blast
qed

definition demo_sender :: msg_handler where
  "demo_sender = mh_handle_open demo_heap (mh_new demo_source) demo_source"

lemma demo_sender_size: "mh_source demo_sender = demo_source" "bb_buffer_size (mh_msg_buffer demo_sender) = 16"
  by (simp_all add: demo_sender_def mh_handle_open_def mh_new_def bb_new_def bb_reserve_def demo_source_def
      sl_realloc_def demo_heap_def bb_reset_def)

theorem write_message_delivered_witness:
  "\<exists>st. mh_run demo_heap demo_errnos 16 demo_log
       (mh_handle_open demo_heap (mh_new demo_source) demo_source) []
       [Recv_data [3], Recv_data [65, 66, 2], Recv_data [67]] =
       Some (True, st, fold (\<lambda>f a. snd (demo_log f a)) [[3, 65, 66], [2, 67]] []) \<and>
     map (drop (msglen_hdr Len_int8)) [[3, 65, 66], [2, 67]] = [[65, 66], [67 :: byte]] \<and>
     mh_inv (msglen_hdr Len_int8) (msglen_get Len_int8) (sint (ss_msgbuffer_size demo_source)) st []"
proof (rule write_message_delivered)
  show "source_ok Len_int8 (mh_source demo_sender)" by (simp add: demo_sender_size demo_source_ok)
  show "map (\<lambda>msg. mh_write_message demo_heap demo_sender msg (int (length msg))) [[65, 66], [67]] =
      map (\<lambda>f. Some (Inr f)) [[3, 65, 66], [2, 67]]"
    using mh_write_message_frame [of Len_int8 demo_sender "[65, 66]" demo_heap]
      mh_write_message_frame [of Len_int8 demo_sender "[67]" demo_heap]
    by (simp add: demo_source_ok host_order_def demo_sender_size msglen_field_def le_bytes_1)
qed (simp_all add: demo_source_ok demo_sender_size demo_log_def host_order_def,
     auto simp: demo_source_def)

text \<open>
  A length field below the size of the field itself is not checked.  When such a field
  arrives in one piece the handler passes on a message shorter than its own header and cuts the
  stream inside the field; when it arrives in two reads the missing \<^verbatim>\<open>msglen -
  msglen_bytes\<close> bytes are negative and the copy of nearly 4 GiB leaves both buffers (\<open>None\<close>).\<close>

theorem handle_read_runt_length:
  assumes "source_ok k src" "heap_ok h (unat (ss_msgbuffer_size src))"
    and "p \<noteq> []" "length p < msglen_hdr k" "msglen_hdr k \<le> length (p @ q)"
    and "msglen_get k (p @ q) = Some m" "0 < m" "m < int (msglen_hdr k)"
  shows "mh_run h en n cb (mh_handle_open h (mh_new src0) src) app [Recv_data p, Recv_data q] = None \<and>
         read_step h cb (mh_handle_open h (mh_new src0) src) app (p @ q) =
           Some (mh_dispatch cb (mh_handle_open h (mh_new src0) src) app (take (nat m) (p @ q)) id
                   (drop (nat m) (p @ q)))"
proof -
  let ?mx = "sint (ss_msgbuffer_size src)" and ?st = "mh_handle_open h (mh_new src0) src"
  note inv = mh_open_new [OF assms(1,2), of src0]
  have dl: "deliver (msglen_hdr k) (msglen_get k) ?mx cb app ([] @ p) = (Pending p, app)"
    using assms(4) by (simp add: deliver.simps [of _ _ _ cb app p])
  from kinds.drain_refines [OF inv dl _ assms(3), of h]
  obtain st1 where st1: "drain h cb ?st app p = Some (True, st1, app)"
      "mh_inv (msglen_hdr k) (msglen_get k) ?mx st1 p" by auto
  have q: "q \<noteq> []" using assms(4,5) by auto
  have "drain h cb st1 app q = None"
    using q by (simp add: drain.simps [of h cb st1 app q] kinds.read_step_runt_split [OF st1(2) assms(3-8)])
  then have "mh_run h en n cb ?st app [Recv_data p, Recv_data q] = None"
    using st1(1) q assms(3) by (simp add: mh_run_Cons)
  then show ?thesis by (rule conjI [OF _ kinds.read_step_runt_whole [OF inv assms(5-8)]])
qed

theorem handle_read_runt_length_witness:
  "mh_run demo_heap demo_errnos 16 demo_log (mh_handle_open demo_heap (mh_new default_source) default_source)
     [] [Recv_data [1], Recv_data [0]] = None \<and>
   read_step demo_heap demo_log (mh_handle_open demo_heap (mh_new default_source) default_source) [] ([1] @ [0]) =
     Some (mh_dispatch demo_log (mh_handle_open demo_heap (mh_new default_source) default_source) []
       (take (nat 1) ([1] @ [0])) id (drop (nat 1) ([1] @ [0])))"
  by (rule handle_read_runt_length [where k = Len_int16_host])
     (simp_all add: source_ok_def default_source_def demo_heap_def get_msglen_int16_host_def mem_get_def)

text \<open>C3: A read of no bytes (the peer has closed) or a receive error other than would-block ends
  the connection with the matching error number, after every complete message that came before
  it has been delivered.\<close>

theorem handle_read_close:
  assumes "source_ok k src" "heap_ok h (unat (ss_msgbuffer_size src))"
    and "list_all (recv_open en) rs" "recv_fatal en r = Some e"
    and "deliver (msglen_hdr k) (msglen_get k) (sint (ss_msgbuffer_size src)) cb app (recv_bytes rs) =
           (Pending p, app')"
  shows "\<exists>st. mh_run h en n cb (mh_handle_open h (mh_new src0) src) app (rs @ r # ts) = Some (False, st, app') \<and>
           mh_last_errno st = e"
proof -
  have "deliver (msglen_hdr k) (msglen_get k) (sint (ss_msgbuffer_size src)) cb app ([] @ recv_bytes rs) =
           (Pending p, app')" using assms(5) by simp
  from kinds.mh_run_refines [OF mh_open_new [OF assms(1,2)] assms(3) this]
  obtain st where "mh_run h en n cb (mh_handle_open h (mh_new src0) src) app rs = Some (True, st, app')"
    by (fastforce simp: stream_outcome_def)
  then show ?thesis by (simp add: mh_run_append [OF assms(3)] mh_run_fatal [OF assms(4)])
qed

theorem handle_read_close_witness:
  "\<exists>st. mh_run demo_heap demo_errnos 16 demo_log
       (mh_handle_open demo_heap (mh_new demo_source) demo_source) []
       ([Recv_data [2, 65, 3]] @ Recv_data [] # []) = Some (False, st, [[2, 65]]) \<and>
     mh_last_errno st = ERROR_CLOSE_PASSIVE"
  by (rule handle_read_close [OF demo_source_ok, where p = "[3]"])
     (simp_all add: demo_source_def demo_log_def deliver.simps get_msglen_int8_def mem_get_def)

end
