(* ===== verification/SL_CryptoAES.thy ===== *)
theory SL_CryptoAES
  imports SL_SocketSource
begin

text \<open>
  \<^verbatim>\<open>SL_Crypto_AES\<close> (\<^verbatim>\<open>src/SL_Crypto_AES.cpp\<close>): the two
  four-argument functions that an encrypted connection calls.  They cut the data into blocks of 16
  bytes, pad the last one with zeros and put the number of padding bytes in front.  The block
  functions \<^verbatim>\<open>AES_encrypt\<close> and \<^verbatim>\<open>AES_decrypt\<close> are those of OpenSSL: the parameters
  \<open>E\<close> and \<open>D\<close>, with the law that \<open>D\<close> undoes \<open>E\<close> on a block (\<open>block_pair\<close>).  The assertions
  are those of a release build, compiled out.  A result is the value returned and the bytes
  stored from the first one of the output on.
\<close>

definition AES_BLOCK_SIZE :: uint where "AES_BLOCK_SIZE = 16"

text \<open>The loops over the whole blocks: the bytes stored and the data behind \<^verbatim>\<open>in_pos\<close>.\<close>

fun aes_blocks :: "(byte list \<Rightarrow> byte list) \<Rightarrow> nat \<Rightarrow> byte list \<Rightarrow> byte list \<times> byte list" where
  "aes_blocks f 0 in_pos = ([], in_pos)"
| "aes_blocks f (Suc n) in_pos =
     (let (out, rest) = aes_blocks f n (drop 16 in_pos) in (f (take 16 in_pos) @ out, rest))"

definition aes_need_len :: "uint \<Rightarrow> uint" where
  "aes_need_len in_len =
     (let end_block_len = in_len - push_bit 4 (drop_bit 4 in_len) in
      if end_block_len \<noteq> 0 then in_len - end_block_len + AES_BLOCK_SIZE + 1 else in_len + 1)"

definition aes_encrypt :: "(byte list \<Rightarrow> byte list) \<Rightarrow> byte list \<Rightarrow> int \<Rightarrow> int \<times> byte list" where
  "aes_encrypt E data room =
     (let in_len = to_uint (int (length data)); out_len = to_uint room;
          block_count = drop_bit 4 in_len;
          end_block_len = in_len - push_bit 4 block_count;
          need_len = aes_need_len in_len
      in if out_len < need_len then (- 1, [])
         else let (out, in_pos) = aes_blocks E (unat block_count) data in
           if end_block_len > 0
           then (sint need_len, ucast (AES_BLOCK_SIZE - end_block_len) # out @
                   E (take (unat end_block_len) in_pos @ replicate (16 - unat end_block_len) 0))
           else (sint need_len, 0 # out))"

definition aes_decrypt :: "(byte list \<Rightarrow> byte list) \<Rightarrow> byte list \<Rightarrow> int \<Rightarrow> int \<times> byte list" where
  "aes_decrypt D data room =
     (let in_len = to_uint (int (length data)); out_len = to_uint room;
          block_count = drop_bit 4 (in_len - 1);
          data_len = push_bit 4 block_count
      in if out_len < data_len \<or> data_len + 1 \<noteq> in_len then (- 1, [])
         else (sint (in_len - ucast (hd data) - 1), fst (aes_blocks D (unat block_count) (tl data))))"

section \<open>Laws\<close>

definition block_pair :: "(byte list \<Rightarrow> byte list) \<Rightarrow> (byte list \<Rightarrow> byte list) \<Rightarrow> bool" where
  "block_pair E D \<longleftrightarrow> (\<forall>b. length b = 16 \<longrightarrow> length (E b) = 16 \<and> D (E b) = b)"

lemma aes_blocks_Suc [simp]:
  "fst (aes_blocks f (Suc n) xs) = f (take 16 xs) @ fst (aes_blocks f n (drop 16 xs))"
  "snd (aes_blocks f (Suc n) xs) = snd (aes_blocks f n (drop 16 xs))"
  by (simp_all add: Let_def case_prod_unfold)

declare aes_blocks.simps(2) [simp del]

lemma aes_blocks_rest: "snd (aes_blocks f n xs) = drop (16 * n) xs"
  by (induction n arbitrary: xs) (simp_all add: add.commute)

lemma aes_blocks_length:
  assumes "block_pair E D" "16 * n \<le> length xs"
  shows "length (fst (aes_blocks E n xs)) = 16 * n"
  using assms(2)
proof (induction n arbitrary: xs)
  case (Suc n)
  have "length (E (take 16 xs)) = 16" using assms(1) Suc.prems by (simp add: block_pair_def)
  then show ?case using Suc.IH [of "drop 16 xs"] Suc.prems by simp
qed simp

lemma aes_blocks_back:
  assumes "block_pair E D" "16 * n \<le> length xs"
  shows "fst (aes_blocks D n (fst (aes_blocks E n xs) @ r)) = take (16 * n) xs"
    and "snd (aes_blocks D n (fst (aes_blocks E n xs) @ r)) = r"
proof -
  have "fst (aes_blocks D n (fst (aes_blocks E n xs) @ r)) = take (16 * n) xs" using assms(2)
  proof (induction n arbitrary: xs)
    case (Suc n)
    have e: "length (E (take 16 xs)) = 16" "D (E (take 16 xs)) = take 16 xs"
      using assms(1) Suc.prems by (simp_all add: block_pair_def)
    have "fst (aes_blocks D n (fst (aes_blocks E n (drop 16 xs)) @ r)) = take (16 * n) (drop 16 xs)"
      using Suc.prems by (intro Suc.IH) simp
    moreover have "take (16 * Suc n) xs = take 16 xs @ take (16 * n) (drop 16 xs)"
      by (simp add: take_add)
    ultimately show ?case using e by simp
  qed simp
  then show "fst (aes_blocks D n (fst (aes_blocks E n xs) @ r)) = take (16 * n) xs" .
  show "snd (aes_blocks D n (fst (aes_blocks E n xs) @ r)) = r"
    using aes_blocks_length [OF assms] by (simp add: aes_blocks_rest)
qed

lemma aes_blocks_snoc:
  "fst (aes_blocks f (Suc n) xs) = fst (aes_blocks f n xs) @ f (take 16 (drop (16 * n) xs))"
proof (induction n arbitrary: xs)
  case (Suc n)
  have "fst (aes_blocks f (Suc (Suc n)) xs) = f (take 16 xs) @ fst (aes_blocks f (Suc n) (drop 16 xs))" by simp
  also have "\<dots> = f (take 16 xs) @ fst (aes_blocks f n (drop 16 xs)) @ f (take 16 (drop (16 * n) (drop 16 xs)))"
    unfolding Suc.IH ..
  finally show ?case by (simp add: add.commute)
qed simp

text \<open>The lengths as natural numbers, for data below two gigabytes.\<close>

definition padded :: "nat \<Rightarrow> nat" where "padded n = 16 * ((n + 15) div 16)"

lemma padded_bounds: "n \<le> padded n" "padded n \<le> n + 15"
  unfolding padded_def by linarith+

lemma padded_mod: "n mod 16 \<noteq> 0 \<Longrightarrow> padded n = 16 * (n div 16) + 16" "n mod 16 = 0 \<Longrightarrow> padded n = n"
proof -
  have n: "16 * (n div 16) + n mod 16 = n" "n mod 16 < 16" by simp_all
  have "padded n = 16 * ((n mod 16 + 15 + 16 * (n div 16)) div 16)"
    unfolding padded_def using n by (simp add: ac_simps)
  then have p: "padded n = 16 * (n div 16 + (n mod 16 + 15) div 16)" by (simp only: div_mult_self2)
  show "padded n = 16 * (n div 16) + 16" if "n mod 16 \<noteq> 0"
  proof -
    have "(n mod 16 + 15) div 16 = 1" using that n(2) by linarith
    then show ?thesis using p by simp
  qed
  show "padded n = n" if "n mod 16 = 0" using p n that by simp
qed

lemma aes_lengths:
  assumes n: "n < 2 ^ 31"
  shows "unat (drop_bit 4 (to_uint (int n))) = n div 16"
    and "unat (to_uint (int n) - push_bit 4 (drop_bit 4 (to_uint (int n)))) = n mod 16"
    and "unat (aes_need_len (to_uint (int n))) = padded n + 1"
proof -
  have u: "unat (to_uint (int n)) = n" using n by (simp add: to_uint_def unat_of_nat)
  show b: "unat (drop_bit 4 (to_uint (int n))) = n div 16" by (simp add: unat_drop_bit_eq drop_bit_eq_div u unat_div)
  have p: "unat (push_bit 4 (drop_bit 4 (to_uint (int n)))) = 16 * (n div 16)"
  proof -
    have "16 * (n div 16) \<le> n" by simp
    then have "16 * (n div 16) < 2 ^ 32" using n by simp
    then show ?thesis unfolding unsigned_push_bit_eq b by (simp add: push_bit_eq_mult take_bit_eq_mod)
  qed
  show e: "unat (to_uint (int n) - push_bit 4 (drop_bit 4 (to_uint (int n)))) = n mod 16"
    by (subst unat_sub_le) (simp_all add: u p minus_mult_div_eq_mod)
  show "unat (aes_need_len (to_uint (int n))) = padded n + 1"
  proof (cases "n mod 16 = 0")
    case True
    then have "to_uint (int n) - push_bit 4 (drop_bit 4 (to_uint (int n))) = 0" using e by (simp add: unat_eq_zero)
    then show ?thesis using n u True padded_mod(2) [OF True]
      by (simp add: aes_need_len_def Let_def unat_word_ariths(1))
  next
    case False
    then have "to_uint (int n) - push_bit 4 (drop_bit 4 (to_uint (int n))) \<noteq> 0" using e by auto
    then have "aes_need_len (to_uint (int n)) = push_bit 4 (drop_bit 4 (to_uint (int n))) + 17"
      by (simp add: aes_need_len_def Let_def AES_BLOCK_SIZE_def)
    moreover have "16 * (n div 16) + 17 < 2 ^ 32"
    proof -
      have "16 * (n div 16) \<le> n" by simp
      then show ?thesis using n by simp
    qed
    ultimately show ?thesis using p padded_mod(1) [OF False] by (simp add: unat_word_ariths(1))
  qed
qed

text \<open>The data followed by the zeros of the padding, and what the encryption stores.\<close>

definition aes_padded :: "byte list \<Rightarrow> byte list" where
  "aes_padded data = data @ replicate (padded (length data) - length data) 0"

lemma length_aes_padded [simp]: "length (aes_padded data) = padded (length data)"
  using padded_bounds(1) [of "length data"] by (simp add: aes_padded_def)

lemma aes_blocks_take:
  "16 * n \<le> length xs \<Longrightarrow> fst (aes_blocks f n (xs @ ys)) = fst (aes_blocks f n xs)"
  by (induction n arbitrary: xs) simp_all

lemma aes_encrypt_eq:
  assumes n: "length data < 2 ^ 31" and room: "0 \<le> room" "room < 2 ^ 31"
  shows "aes_encrypt E data room =
           (if room < int (padded (length data)) + 1 then (- 1, [])
            else (int (padded (length data)) + 1,
                  word_of_nat (padded (length data) - length data) #
                  fst (aes_blocks E (padded (length data) div 16) (aes_padded data))))"
proof -
  let ?n = "length data"
  let ?il = "to_uint (int ?n)"
  let ?e = "?il - push_bit 4 (drop_bit 4 ?il)"
  note len = aes_lengths [OF n]
  have ur: "unat (to_uint room) = nat room"
    using room by (simp add: to_uint_def unat_eq_nat_uint uint_word_of_int_small)
  have cmp: "to_uint room < aes_need_len ?il \<longleftrightarrow> room < int (padded ?n) + 1"
    unfolding word_less_nat_alt len(3) ur using room by linarith
  have ret: "sint (aes_need_len ?il) = int (padded ?n) + 1" if "\<not> room < int (padded ?n) + 1"
  proof -
    have "unat (aes_need_len ?il) < 2 ^ 31" unfolding len(3) using that room by simp
    then show ?thesis using sint_unat_small [of "aes_need_len ?il"] len(3) by simp
  qed
  show ?thesis
  proof (cases "?n mod 16 = 0")
    case True
    then have "?e = 0" using len(2) by (simp add: unat_eq_zero)
    moreover have "padded ?n = ?n" using padded_mod(2) [OF True] .
    ultimately show ?thesis using cmp ret len(1)
      by (auto simp: aes_encrypt_def Let_def case_prod_unfold aes_padded_def)
  next
    case False
    have pn: "padded ?n = 16 * (?n div 16) + 16" using padded_mod(1) [OF False] .
    have dn: "16 * (?n div 16) + ?n mod 16 = ?n" by simp
    have diff: "padded ?n - ?n = 16 - ?n mod 16" using pn dn by linarith
    have e0: "?e > 0" using False len(2) by (metis unat_0 word_neq_0_conv)
    have "unat (AES_BLOCK_SIZE - ?e) = 16 - ?n mod 16"
      unfolding AES_BLOCK_SIZE_def by (subst unat_sub_le) (simp_all add: len(2) less_imp_le)
    then have pad: "ucast (AES_BLOCK_SIZE - ?e) = (word_of_nat (padded ?n - ?n) :: byte)"
      unfolding diff by (metis of_nat_unat)
    have last: "take (unat ?e) (drop (16 * (?n div 16)) data) @ replicate (16 - unat ?e) 0 =
        take 16 (drop (16 * (?n div 16)) (aes_padded data))"
    proof -
      have l: "length (drop (16 * (?n div 16)) data) = ?n mod 16" using dn unfolding length_drop by linarith
      have "drop (16 * (?n div 16)) (aes_padded data) =
          drop (16 * (?n div 16)) data @ replicate (16 - ?n mod 16) 0"
        using dn unfolding aes_padded_def diff by simp
      then show ?thesis unfolding len(2) using l by simp
    qed
    have "padded ?n div 16 = Suc (?n div 16)" using pn by simp
    then have "fst (aes_blocks E (padded ?n div 16) (aes_padded data)) =
        fst (aes_blocks E (?n div 16) data) @ E (take (unat ?e) (drop (16 * (?n div 16)) data) @ replicate (16 - unat ?e) 0)"
      unfolding last by (simp only: aes_blocks_snoc) (simp add: aes_padded_def aes_blocks_take)
    then show ?thesis using cmp ret len(1) e0 pad
      by (auto simp: aes_encrypt_def Let_def case_prod_unfold aes_blocks_rest)
  qed
qed

lemma aes_decrypt_eq:
  assumes n: "16 dvd n" "n < 2 ^ 31" and data: "length data = n" and room: "int n \<le> room" "room < 2 ^ 31"
    and p: "p \<le> n" "p < 256"
  shows "aes_decrypt D (word_of_nat p # data) room = (int (n - p), fst (aes_blocks D (n div 16) data))"
proof -
  have il: "to_uint (int (Suc n)) - 1 = to_uint (int n)" by (simp add: to_uint_def)
  have bc: "unat (drop_bit 4 (to_uint (int n))) = n div 16" using aes_lengths(1) [OF n(2)] .
  have "to_uint (int n) - push_bit 4 (drop_bit 4 (to_uint (int n))) = 0"
    using aes_lengths(2) [OF n(2)] n(1) by (simp add: unat_eq_zero)
  then have dl: "push_bit 4 (drop_bit 4 (to_uint (int n))) = to_uint (int n)" by simp
  have un: "unat (to_uint (int n)) = n" using n(2) by (simp add: to_uint_def unat_of_nat)
  have ur: "unat (to_uint room) = nat room"
    using room by (simp add: to_uint_def unat_eq_nat_uint uint_word_of_int_small)
  have cmp: "\<not> to_uint room < to_uint (int n)" unfolding word_less_nat_alt un ur using room by linarith
  have "ucast (word_of_nat p :: byte) = (word_of_nat p :: uint)"
    using p(2) by (simp add: unsigned_of_nat take_bit_nat_eq_self)
  then have "to_uint (int (Suc n)) - ucast (word_of_nat p :: byte) - 1 = to_uint (int (n - p))"
    using p(1) by (simp add: to_uint_def of_nat_diff)
  moreover have "sint (to_uint (int (n - p))) = int (n - p)"
    using n(2) by (simp add: to_uint_def sint_word_of_int_small del: of_nat_diff of_int_of_nat_eq)
  ultimately have ret: "sint (to_uint (int (Suc n)) - ucast (word_of_nat p :: byte) - 1) = int (n - p)" by simp
  have one: "to_uint (int n) + 1 = to_uint (int (Suc n))" by (simp add: to_uint_def)
  show ?thesis using cmp ret data
    by (simp add: aes_decrypt_def Let_def il bc dl one del: of_nat_Suc)
qed

lemma aes_encrypt_room:
  assumes "block_pair E D" "length data < 2 ^ 31" "0 \<le> room" "room < 2 ^ 31"
  shows "fst (aes_encrypt E data room) \<le> int (length (snd (aes_encrypt E data room))) \<and>
         int (length (snd (aes_encrypt E data room))) \<le> room"
  using assms aes_blocks_length [OF assms(1), of "padded (length data) div 16" "aes_padded data"]
  by (simp add: aes_encrypt_eq padded_def)

text \<open>Decryption undoes encryption, and stores the padding behind the data.\<close>

lemma aes_roundtrip:
  assumes E: "block_pair E D" and n: "length data < 2 ^ 31 - 32"
    and room: "int (length data) + 16 \<le> room" "room < 2 ^ 31"
  obtains ret out pad where "aes_encrypt E data room = (ret, out)" "int (length data) < ret" "nat ret = length out"
    "int (length data + length pad) < ret"
    "\<And>room'. ret \<le> room' \<Longrightarrow> room' < 2 ^ 31 \<Longrightarrow> aes_decrypt D out room' = (int (length data), data @ pad)"
proof -
  let ?n = "length data"
  let ?out = "fst (aes_blocks E (padded ?n div 16) (aes_padded data))"
  note pb = padded_bounds [of ?n]
  have d16: "16 * (padded ?n div 16) = padded ?n" "16 dvd padded ?n" by (simp_all add: padded_def)
  have lo: "length ?out = padded ?n"
    using aes_blocks_length [OF E, of "padded ?n div 16" "aes_padded data"] d16 by simp
  have undo: "fst (aes_blocks D (padded ?n div 16) ?out) = aes_padded data"
    using aes_blocks_back(1) [OF E, of "padded ?n div 16" "aes_padded data" "[]"] d16 by simp
  show ?thesis
  proof (rule that [of "int (padded ?n) + 1" "word_of_nat (padded ?n - ?n) # ?out" "replicate (padded ?n - ?n) 0"])
    show "aes_encrypt E data room = (int (padded ?n) + 1, word_of_nat (padded ?n - ?n) # ?out)"
      using n room pb by (subst aes_encrypt_eq) simp_all
    show "nat (int (padded ?n) + 1) = length (word_of_nat (padded ?n - ?n) # ?out)" using lo by simp
    show "int ?n < int (padded ?n) + 1" "int (?n + length (replicate (padded ?n - ?n) (0 :: byte))) < int (padded ?n) + 1"
      using pb by simp_all
  next
    fix room' :: int
    assume r: "int (padded ?n) + 1 \<le> room'" "room' < 2 ^ 31"
    have "aes_decrypt D (word_of_nat (padded ?n - ?n) # ?out) room' =
        (int (padded ?n - (padded ?n - ?n)), fst (aes_blocks D (padded ?n div 16) ?out))"
      using r n pb lo d16 by (intro aes_decrypt_eq) simp_all
    then show "aes_decrypt D (word_of_nat (padded ?n - ?n) # ?out) room' = (int ?n, data @ replicate (padded ?n - ?n) 0)"
      using pb undo by (simp add: aes_padded_def)
  qed
qed

end
