(* ===== verification/SL_SendControl.thy ===== *)
theory SL_SendControl
  imports SL_CryptoAES
begin

text \<open>
  The outgoing side of a connection: \<^verbatim>\<open>SL_Socket_SendControl_Handler\<close>
  (\<^verbatim>\<open>include/SL_Socket_SendControl_Handler.h\<close>), which sends directly when it can and
  queues the rest, and the pass of \<^verbatim>\<open>SL_Socket_SendControl_HandlerManager\<close>
  (\<^verbatim>\<open>src/SL_Socket_SendControl_HandlerManager.cpp\<close>) over its connections, which flushes the
  queues and closes the connections that are done, failed or idle.

  The contract is conservation: the bytes on the wire followed by the bytes queued are the messages
  accepted, in order.  The socket's calls return what the caller of the model says; the
  documented behaviour of \<^verbatim>\<open>send\<close> and \<^verbatim>\<open>writev\<close> is the hypothesis \<open>sent_ok\<close>.
\<close>

section \<open>State\<close>

datatype socket_status =
  STATUS_CLOSE | STATUS_OPEN | STATUS_CLOSE_WAIT | STATUS_CLOSE_SEND | STATUS_CLOSE_RECV

datatype write_return =
  WRITE_RETURN_NOT_INITIAL | WRITE_RETURN_STATUS_INVALID | WRITE_RETURN_SEND_FAIL |
  WRITE_RETURN_NOT_DATA | WRITE_RETURN_SEND_SUCCESS | WRITE_RETURN_SEND_PART

definition SC_ERROR_CLOSE_ACTIVE :: int where "SC_ERROR_CLOSE_ACTIVE = 1000002"
definition ERROR_KEEPALIVE_TIMEOUT :: int where "ERROR_KEEPALIVE_TIMEOUT = 1000005"

definition SL_CRYPTO_TYPE_NOCRYPT :: byte where "SL_CRYPTO_TYPE_NOCRYPT = 0"
definition SL_CRYPTO_TYPE_ENCRYPT :: byte where "SL_CRYPTO_TYPE_ENCRYPT = 1"
definition SL_CRYPTO_TYPE_DECRYPT :: byte where "SL_CRYPTO_TYPE_DECRYPT = 2"
definition SL_CRYPTO_BLOCK_SIZE_32 :: int where "SL_CRYPTO_BLOCK_SIZE_32 = 32"

record send_control =
  sc_queue_active :: "byte_buffer list"
  sc_queue_standby :: "byte_buffer list"
  sc_current_status :: socket_status
  sc_next_status :: socket_status
  sc_last_errno :: int
  sc_last_update :: uint64
  sc_last_fail :: uint64
  sc_crypto_type :: byte

text \<open>
  What a connection reads from its surroundings: the allocator, the error numbers, the global
  \<^verbatim>\<open>current_timestamp_us_\<close> and the parameters of the manager.
\<close>

record send_env =
  se_heap :: allocator
  se_errnos :: errnos
  se_now :: uint64
  se_direct_send :: bool
  se_send_delaytime :: uint
  se_keepalive_time :: uint
  se_close_delaytime :: uint
  se_iovec_count :: int

text \<open>A call of the socket: its return value and the value left in \<^verbatim>\<open>error_id\<close>.\<close>

type_synonym sock_result = "int \<times> int"

definition send_would_block :: "errnos \<Rightarrow> int \<Rightarrow> bool" where
  "send_would_block en e \<longleftrightarrow>
     SL_EAGAIN en = e \<or> SL_EWOULDBLOCK en = e \<or> SL_IO_PENDING en = e \<or> SL_ENOBUFS en = e"

section \<open>Opening and closing\<close>

definition sc_init_control :: "send_env \<Rightarrow> send_control \<Rightarrow> send_control" where
  "sc_init_control env st =
     st\<lparr>sc_last_errno := 0, sc_current_status := STATUS_OPEN, sc_next_status := STATUS_OPEN,
        sc_last_update := se_now env, sc_last_fail := 0, sc_crypto_type := SL_CRYPTO_TYPE_NOCRYPT,
        sc_queue_active := [], sc_queue_standby := []\<rparr>"

definition sc_clear_control :: "send_env \<Rightarrow> send_control \<Rightarrow> send_control" where
  "sc_clear_control env st =
     st\<lparr>sc_last_update := se_now env, sc_last_fail := 0, sc_crypto_type := SL_CRYPTO_TYPE_NOCRYPT,
        sc_queue_active := [], sc_queue_standby := []\<rparr>"

definition sc_close_wait :: "send_control \<Rightarrow> send_control" where
  "sc_close_wait st =
     (if sc_current_status st = STATUS_OPEN
      then st\<lparr>sc_last_errno := SC_ERROR_CLOSE_ACTIVE, sc_current_status := STATUS_CLOSE_WAIT,
              sc_next_status := STATUS_CLOSE_WAIT\<rparr>
      else st)"

definition sc_handle_close :: "send_control \<Rightarrow> int \<times> send_control" where
  "sc_handle_close st =
     (- 1, if sc_current_status st \<noteq> STATUS_CLOSE then st\<lparr>sc_current_status := sc_next_status st\<rparr> else st)"

section \<open>Accepting a message\<close>

text \<open>
  The results of an attempt: the return value, the connection, the bytes the socket took and
  whether the send thread was woken.
\<close>

type_synonym put_result = "int \<times> send_control \<times> byte list \<times> bool"

definition sc_direct :: "send_env \<Rightarrow> send_control \<Rightarrow> bool" where
  "sc_direct env st \<longleftrightarrow>
     se_direct_send env \<and> sc_queue_standby st = [] \<and> sc_queue_active st = [] \<and>
     se_now env - sc_last_fail st \<ge> ucast (se_send_delaytime env)"

text \<open>Pushing a buffer copies it, which moves the ownership of its block into the queue.\<close>

definition sc_push :: "send_control \<Rightarrow> byte_buffer \<Rightarrow> send_control" where
  "sc_push st b = st\<lparr>sc_queue_standby := sc_queue_standby st @ [fst (bb_copy b)]\<rparr>"

definition sc_push_copy :: "send_env \<Rightarrow> send_control \<Rightarrow> byte list \<Rightarrow> int \<Rightarrow> send_control option" where
  "sc_push_copy env st msg len =
     do { (_, tmsg) \<leftarrow> bb_write (se_heap env) (bb_new_size (se_heap env) (to_uint len)) msg (to_uint len) 100;
          Some (sc_push st tmsg) }"

definition sc_put_data_i :: "send_env \<Rightarrow> send_control \<Rightarrow> byte list \<Rightarrow> sock_result \<Rightarrow> put_result option" where
  "sc_put_data_i env st msg res =
     (let len = int (length msg); (send_bytes, error_id) = res in
      if sc_direct env st then
        if send_bytes > 0 then
          let st = st\<lparr>sc_last_update := se_now env\<rparr> in
          if send_bytes = len then Some (1, st, msg, False)
          else do {
            st \<leftarrow> sc_push_copy env st (drop (nat send_bytes) msg) (len - send_bytes);
            Some (0, st, take (nat send_bytes) msg, True) }
        else if send_would_block (se_errnos env) error_id then do {
          st \<leftarrow> sc_push_copy env (st\<lparr>sc_last_fail := se_now env\<rparr>) msg len;
          Some (0, st, [], True) }
        else Some (- 1, st\<lparr>sc_last_errno := error_id, sc_current_status := STATUS_CLOSE_SEND\<rparr>, [], False)
      else do {
        st \<leftarrow> sc_push_copy env st msg len;
        Some (0, st, [], True) })"

definition sc_put_data_i_buf ::
  "send_env \<Rightarrow> send_control \<Rightarrow> byte_buffer \<Rightarrow> sock_result \<Rightarrow> put_result option"
where
  "sc_put_data_i_buf env st tmsg res =
     (let (send_bytes, error_id) = res in
      if sc_direct env st then
        let len = sint (bb_data_size tmsg) in
        if send_bytes > 0 then do {
          sent \<leftarrow> mem_get (bb_data tmsg) 0 (nat send_bytes);
          let st = st\<lparr>sc_last_update := se_now env\<rparr>;
          if send_bytes = len then Some (1, st, sent, False)
          else Some (0, sc_push st (bb_set_begin tmsg (bb_data_begin tmsg + to_uint send_bytes)), sent, True) }
        else if send_would_block (se_errnos env) error_id then
          Some (0, sc_push (st\<lparr>sc_last_fail := se_now env\<rparr>) tmsg, [], True)
        else Some (- 1, st\<lparr>sc_last_errno := error_id, sc_current_status := STATUS_CLOSE_SEND\<rparr>, [], False)
      else Some (0, sc_push st tmsg, [], True))"

text \<open>
  Sealing a message for an encrypted connection.  The cipher is a parameter of the class: from the
  message and the room it has for its output it returns a length, not positive for a failure,
  and the bytes it stored.
\<close>

type_synonym cipher = "byte list \<Rightarrow> int \<Rightarrow> int \<times> byte list"

definition sc_seal ::
  "send_env \<Rightarrow> socket_source \<Rightarrow> cipher \<Rightarrow> byte list \<Rightarrow> (int + byte_buffer) option"
where
  "sc_seal env src enc msg =
     (let tmsg = bb_new_size (se_heap env) (to_uint (int (length msg) + SL_CRYPTO_BLOCK_SIZE_32));
          msglen_bytes = int (unat (ss_msglen_bytes src));
          (ret, out) = enc msg (sint (bb_buffer_size tmsg - to_uint msglen_bytes))
      in do {
        m \<leftarrow> mem_put (block (bb_buffer tmsg)) (nat msglen_bytes) out;
        let tmsg = tmsg\<lparr>bb_buffer := map_option (\<lambda>_. m) (bb_buffer tmsg)\<rparr>;
        if ret > 0 then do {
          let encrypt_len = ret + msglen_bytes;
          let tmsg = bb_set_end tmsg (to_uint encrypt_len);
          m \<leftarrow> ss_set_msglen src (block (bb_buffer tmsg)) encrypt_len;
          Some (Inr (tmsg\<lparr>bb_buffer := map_option (\<lambda>_. m) (bb_buffer tmsg)\<rparr>)) }
        else Some (Inl (- 1)) })"

definition sc_put_data ::
  "send_env \<Rightarrow> socket_source \<Rightarrow> cipher \<Rightarrow> send_control \<Rightarrow> byte list \<Rightarrow> sock_result \<Rightarrow> put_result option"
where
  "sc_put_data env src enc st msg res =
     (if sc_current_status st = STATUS_OPEN then
        if sc_crypto_type st AND SL_CRYPTO_TYPE_ENCRYPT \<noteq> 0 then do {
          r \<leftarrow> sc_seal env src enc msg;
          case r of Inl e \<Rightarrow> Some (e, st, [], False)
                  | Inr tmsg \<Rightarrow> sc_put_data_i_buf env st tmsg res }
        else sc_put_data_i env st msg res
      else Some (- 1, st, [], False))"

definition sc_put_data_buf ::
  "send_env \<Rightarrow> socket_source \<Rightarrow> cipher \<Rightarrow> send_control \<Rightarrow> byte_buffer \<Rightarrow> sock_result \<Rightarrow> put_result option"
where
  "sc_put_data_buf env src enc st msg res =
     (if sc_current_status st = STATUS_OPEN then
        if sc_crypto_type st AND SL_CRYPTO_TYPE_ENCRYPT \<noteq> 0 then do {
          d \<leftarrow> mem_get (bb_data msg) 0 (unat (bb_data_size msg));
          r \<leftarrow> sc_seal env src enc d;
          case r of Inl e \<Rightarrow> Some (e, st, [], False)
                  | Inr tmsg \<Rightarrow> sc_put_data_i_buf env st tmsg res }
        else sc_put_data_i_buf env st msg res
      else Some (- 1, st, [], False))"

text \<open>
  The receiving side: an encrypted message is opened into a buffer and handed to the application's
  \<^verbatim>\<open>do_message\<close>.  The result is what that gets, \<open>Inl\<close> for the return of \<^verbatim>\<open>-1\<close>;
  a message shorter than its length field makes the cipher read a negative number of bytes.
\<close>

definition sc_handle_message ::
  "send_env \<Rightarrow> socket_source \<Rightarrow> cipher \<Rightarrow> send_control \<Rightarrow> byte list \<Rightarrow> ((int + byte list) \<times> send_control) option"
where
  "sc_handle_message env src dec st data =
     (let st = st\<lparr>sc_last_update := se_now env\<rparr>; len = int (length data) in
      if sc_crypto_type st AND SL_CRYPTO_TYPE_DECRYPT \<noteq> 0 then do {
        let msglen_bytes = unat (ss_msglen_bytes src);
        let tmsg = bb_new_size (se_heap env) (to_uint len);
        sealed \<leftarrow> (if len < int msglen_bytes then None else Some (drop msglen_bytes data));
        let (ret, out) = dec sealed len;
        m \<leftarrow> mem_put (block (bb_buffer tmsg)) 0 out;
        if ret > 0 then do { d \<leftarrow> mem_get m 0 (nat ret); Some (Inr d, st) }
        else Some (Inl (- 1), st) }
      else Some (Inr data, st))"

section \<open>Flushing the queues\<close>

text \<open>
  \<^verbatim>\<open>write_data\<close> gives the first \<^verbatim>\<open>iovcnt\<close> nodes of the active queue to the
  socket and then takes what was sent off the front: whole nodes, then part of one.  The
  counter \<open>i\<close> is the loop's, the node at which it stops.
\<close>

fun sc_pop :: "int \<Rightarrow> int \<Rightarrow> int \<Rightarrow> byte_buffer list \<Rightarrow> (int \<times> byte_buffer list) option" where
  "sc_pop node_count i send_bytes [] = (if i \<le> node_count then None else Some (i, []))"
| "sc_pop node_count i send_bytes (b # q) =
     (if i \<le> node_count then
        let data_size = sint (bb_data_size b) in
        if send_bytes \<ge> data_size then
          let send_bytes = send_bytes - data_size in
          if send_bytes < 1 then Some (i, q) else sc_pop node_count (i + 1) send_bytes q
        else Some (i, bb_set_begin b (bb_data_begin b + to_uint send_bytes) # q)
      else Some (i, b # q))"

text \<open>The bytes behind the vector, which the socket sends in order.\<close>

definition sc_iov :: "int \<Rightarrow> byte_buffer list \<Rightarrow> byte list" where
  "sc_iov n q = concat (map (\<lambda>b. take (unat (bb_data_size b)) (bb_data b)) (take (nat n) q))"

text \<open>
  The result: the return value, the connection, the bytes sent and whether \<^verbatim>\<open>do_write\<close>
  was called because nothing is left to send.
\<close>

definition sc_write_data ::
  "send_env \<Rightarrow> send_control \<Rightarrow> uint64 \<Rightarrow> sock_result \<Rightarrow> (write_return \<times> send_control \<times> byte list \<times> bool) option"
where
  "sc_write_data env st now res =
     (let st = (if sc_queue_active st = [] \<and> sc_queue_standby st \<noteq> []
                then st\<lparr>sc_queue_active := sc_queue_standby st, sc_queue_standby := sc_queue_active st\<rparr>
                else st) in
      if sc_queue_active st = [] then Some (WRITE_RETURN_NOT_DATA, st, [], False)
      else
        let queue_size = int (length (sc_queue_active st));
            node_count = (if queue_size < se_iovec_count env then queue_size else se_iovec_count env);
            (send_bytes, error_id) = res
        in
        if send_bytes > 0 then do {
          let sent = take (nat send_bytes) (sc_iov node_count (sc_queue_active st));
          (i, q) \<leftarrow> sc_pop node_count 1 send_bytes (sc_queue_active st);
          let st = st\<lparr>sc_last_update := now, sc_queue_active := q\<rparr>;
          if i = node_count
          then Some (WRITE_RETURN_SEND_SUCCESS, st\<lparr>sc_last_fail := 0\<rparr>, sent,
                     q = [] \<and> sc_queue_standby st = [])
          else Some (WRITE_RETURN_SEND_PART, st\<lparr>sc_last_fail := now\<rparr>, sent, False) }
        else if send_would_block (se_errnos env) error_id
        then Some (WRITE_RETURN_NOT_DATA, st\<lparr>sc_last_fail := now\<rparr>, [], False)
        else Some (WRITE_RETURN_SEND_FAIL,
                   st\<lparr>sc_last_errno := error_id, sc_current_status := STATUS_CLOSE_SEND\<rparr>, [], False))"

section \<open>The manager's pass over a connection\<close>

text \<open>
  One round of the loop of \<^verbatim>\<open>event_loop\<close> (and of both loops of \<^verbatim>\<open>send_proc\<close>)
  for one connection, at the time \<open>now\<close>.  \<^verbatim>\<open>del_handle\<close> leads back to
  \<^verbatim>\<open>handle_close\<close> when the runner knows the handler (\<open>known\<close>).  The result: the
  connection, \<open>None\<close> when it was taken off the list, the bytes sent and whether the write
  counts as a success.
\<close>

definition sc_del_handle :: "bool \<Rightarrow> send_control \<Rightarrow> send_control" where
  "sc_del_handle known st = (if known then snd (sc_handle_close st) else st)"

definition sc_scan ::
  "send_env \<Rightarrow> uint64 \<Rightarrow> bool \<Rightarrow> send_control \<Rightarrow> sock_result \<Rightarrow> (send_control option \<times> byte list \<times> bool) option"
where
  "sc_scan env now known st res =
     (case sc_current_status st of
        STATUS_OPEN \<Rightarrow> do {
          (r, st, sent) \<leftarrow>
            (if se_send_delaytime env = 0 \<or> now - sc_last_fail st \<ge> ucast (se_send_delaytime env)
             then do { (r, st, sent, _) \<leftarrow> sc_write_data env st now res; Some (r, st, sent) }
             else Some (WRITE_RETURN_NOT_DATA, st, []));
          let st = (if se_keepalive_time env > 0 \<and> now - sc_last_update st > ucast (se_keepalive_time env)
                    then (sc_del_handle known (st\<lparr>sc_last_errno := ERROR_KEEPALIVE_TIMEOUT,
                            sc_next_status := STATUS_CLOSE\<rparr>))\<lparr>sc_current_status := STATUS_CLOSE\<rparr>
                    else st);
          Some (Some st, sent, r = WRITE_RETURN_SEND_SUCCESS) }
      | STATUS_CLOSE_WAIT \<Rightarrow> do {
          (r, st, sent, _) \<leftarrow> sc_write_data env st now res;
          let st = (if se_close_delaytime env = 0 \<or> now - sc_last_update st > ucast (se_close_delaytime env)
                    then (sc_del_handle known (st\<lparr>sc_next_status := STATUS_CLOSE\<rparr>))
                           \<lparr>sc_current_status := STATUS_CLOSE\<rparr>
                    else st);
          Some (Some st, sent, r = WRITE_RETURN_SEND_SUCCESS) }
      | STATUS_CLOSE_SEND \<Rightarrow>
          Some (Some ((sc_del_handle known (st\<lparr>sc_next_status := STATUS_CLOSE\<rparr>))
                        \<lparr>sc_current_status := STATUS_CLOSE\<rparr>), [], False)
      | STATUS_CLOSE \<Rightarrow> Some (None, [], False)
      | STATUS_CLOSE_RECV \<Rightarrow> Some (Some st, [], False))"

section \<open>Laws\<close>

definition sc_node_ok :: "byte_buffer \<Rightarrow> bool" where
  "sc_node_ok b \<longleftrightarrow> bb_wf b \<and> length (bb_bytes b) < 2 ^ 31"

definition sc_pending :: "send_control \<Rightarrow> byte list" where
  "sc_pending st = concat (map bb_bytes (sc_queue_active st)) @ concat (map bb_bytes (sc_queue_standby st))"

definition sc_wf :: "send_control \<Rightarrow> bool" where
  "sc_wf st \<longleftrightarrow> list_all sc_node_ok (sc_queue_active st) \<and> list_all sc_node_ok (sc_queue_standby st)"

text \<open>The documented behaviour of a send call on \<open>n\<close> bytes, and an allocator that gives what is asked for.\<close>

definition sent_ok :: "nat \<Rightarrow> sock_result \<Rightarrow> bool" where
  "sent_ok n res \<longleftrightarrow> fst res \<le> int n"

definition heap_total :: "send_env \<Rightarrow> bool" where
  "heap_total env \<longleftrightarrow> (\<forall>n < 2 ^ 32. heap_ok (se_heap env) n)"

lemma sint_bb_data_size: "sc_node_ok b \<Longrightarrow> sint (bb_data_size b) = int (length (bb_bytes b))"
  using sint_unat_small [of "bb_data_size b"] unat_bb_data_size [of b] by (simp add: sc_node_ok_def)

lemma bb_copy_owner:
  "bb_owner b \<Longrightarrow> bb_bytes (fst (bb_copy b)) = bb_bytes b \<and> (bb_wf (fst (bb_copy b)) \<longleftrightarrow> bb_wf b)"
  by (simp add: bb_copy_def bb_bytes_def bb_wf_def)

lemma sc_push_owner:
  assumes "sc_wf st" "sc_node_ok b" "bb_owner b"
  shows "sc_wf (sc_push st b)" "sc_pending (sc_push st b) = sc_pending st @ bb_bytes b"
  using assms bb_copy_owner [of b] by (simp_all add: sc_push_def sc_wf_def sc_node_ok_def sc_pending_def)

lemma sc_push_copy_ok:
  assumes wf: "sc_wf st" and heap: "heap_total env" and len: "length msg < 2 ^ 31"
  shows "\<exists>b. sc_push_copy env st msg (int (length msg)) = Some (sc_push st b) \<and>
             sc_wf (sc_push st b) \<and> sc_pending (sc_push st b) = sc_pending st @ msg"
proof -
  let ?h = "se_heap env" and ?n = "to_uint (int (length msg))"
  have n: "unat ?n = length msg" using len by (simp add: to_uint_def unat_of_nat)
  then have "heap_ok ?h (unat ?n)" using heap len by (simp add: heap_total_def)
  then have b0: "bb_owner (bb_new_size ?h ?n)" "bb_room (bb_new_size ?h ?n) = length msg"
    using n by (auto simp: bb_new_size_def sl_malloc_def bb_room_def)
  then obtain b where b: "bb_write ?h (bb_new_size ?h ?n) msg ?n 100 = Some (True, b)" "bb_wf b" "bb_owner b"
      "bb_bytes b = msg"
    using bb_write_fits [of "bb_new_size ?h ?n" ?n msg ?h 100] n by auto
  then have "sc_node_ok b" using len by (simp add: sc_node_ok_def)
  then show ?thesis using b sc_push_owner [OF wf, of b] by (auto simp: sc_push_copy_def)
qed

lemma sc_push_simps [simp]:
  "sc_current_status (sc_push st b) = sc_current_status st"
  "sc_crypto_type (sc_push st b) = sc_crypto_type st"
  "sc_last_update (sc_push st b) = sc_last_update st"
  "sc_last_fail (sc_push st b) = sc_last_fail st"
  "sc_last_errno (sc_push st b) = sc_last_errno st"
  by (simp_all add: sc_push_def)

lemma sc_queues_upd [simp]:
  "sc_wf (st\<lparr>sc_last_update := a\<rparr>) = sc_wf st" "sc_wf (st\<lparr>sc_last_fail := a\<rparr>) = sc_wf st"
  "sc_wf (st\<lparr>sc_last_errno := e\<rparr>) = sc_wf st" "sc_wf (st\<lparr>sc_current_status := s\<rparr>) = sc_wf st"
  "sc_wf (st\<lparr>sc_next_status := s\<rparr>) = sc_wf st"
  "sc_pending (st\<lparr>sc_last_update := a\<rparr>) = sc_pending st" "sc_pending (st\<lparr>sc_last_fail := a\<rparr>) = sc_pending st"
  "sc_pending (st\<lparr>sc_last_errno := e\<rparr>) = sc_pending st" "sc_pending (st\<lparr>sc_current_status := s\<rparr>) = sc_pending st"
  "sc_pending (st\<lparr>sc_next_status := s\<rparr>) = sc_pending st"
  by (simp_all add: sc_wf_def sc_pending_def)

lemma sc_direct_pending: "sc_direct env st \<Longrightarrow> sc_pending st = []"
  by (simp add: sc_direct_def sc_pending_def)

text \<open>
  What every accepting call guarantees of its result: the message, if accepted, is appended to
  what was pending, part of it may be on the wire already; \<open>1\<close> means all of it is, and a
  refusal sends and queues nothing.
\<close>

definition put_ok :: "send_control \<Rightarrow> byte list \<Rightarrow> put_result option \<Rightarrow> bool" where
  "put_ok st msg r \<longleftrightarrow>
     (\<exists>ret st' sent woken. r = Some (ret, st', sent, woken) \<and> sc_wf st' \<and>
        sent @ sc_pending st' = sc_pending st @ (if ret < 0 then [] else msg) \<and>
        (ret = 1 \<or> ret = 0 \<or> ret = - 1) \<and>
        (ret = 1 \<longrightarrow> sent = msg \<and> sc_pending st' = []) \<and>
        (ret < 0 \<longrightarrow> sent = [] \<and> sc_pending st' = sc_pending st) \<and>
        (ret = 0 \<longleftrightarrow> woken) \<and> sc_crypto_type st' = sc_crypto_type st)"

lemma put_okI:
  assumes "sc_wf st'" "sent @ sc_pending st' = sc_pending st @ (if ret < 0 then [] else msg)"
    "ret = 1 \<and> sent = msg \<and> sc_pending st = [] \<and> \<not> woken \<or> ret = 0 \<and> woken \<or> ret = - 1 \<and> sent = [] \<and> \<not> woken"
    "sc_crypto_type st' = sc_crypto_type st"
  shows "put_ok st msg (Some (ret, st', sent, woken))"
  using assms by (auto simp: put_ok_def)

lemma sc_put_data_i_cases:
  assumes "res = (r, e)"
  shows "\<not> sc_direct env st \<Longrightarrow> sc_push_copy env st msg (int (length msg)) = Some st' \<Longrightarrow>
           sc_put_data_i env st msg res = Some (0, st', [], True)"
    and "sc_direct env st \<Longrightarrow> r > 0 \<Longrightarrow> r = int (length msg) \<Longrightarrow>
           sc_put_data_i env st msg res = Some (1, st\<lparr>sc_last_update := se_now env\<rparr>, msg, False)"
    and "sc_direct env st \<Longrightarrow> r > 0 \<Longrightarrow> r \<noteq> int (length msg) \<Longrightarrow>
           sc_push_copy env (st\<lparr>sc_last_update := se_now env\<rparr>) (drop (nat r) msg) (int (length msg) - r) = Some st' \<Longrightarrow>
           sc_put_data_i env st msg res = Some (0, st', take (nat r) msg, True)"
    and "sc_direct env st \<Longrightarrow> \<not> r > 0 \<Longrightarrow> send_would_block (se_errnos env) e \<Longrightarrow>
           sc_push_copy env (st\<lparr>sc_last_fail := se_now env\<rparr>) msg (int (length msg)) = Some st' \<Longrightarrow>
           sc_put_data_i env st msg res = Some (0, st', [], True)"
    and "sc_direct env st \<Longrightarrow> \<not> r > 0 \<Longrightarrow> \<not> send_would_block (se_errnos env) e \<Longrightarrow>
           sc_put_data_i env st msg res =
             Some (- 1, st\<lparr>sc_last_errno := e, sc_current_status := STATUS_CLOSE_SEND\<rparr>, [], False)"
  using assms by (simp_all add: sc_put_data_i_def)

lemma sc_put_data_i_ok:
  assumes wf: "sc_wf st" and heap: "heap_total env" and len: "length msg < 2 ^ 31"
    and res: "sent_ok (length msg) res"
  shows "put_ok st msg (sc_put_data_i env st msg res)"
proof -
  obtain r e where re: "res = (r, e)" by (cases res)
  note calls = sc_put_data_i_cases [OF re, of env st]
  consider (queue) "\<not> sc_direct env st"
    | (all) "sc_direct env st" "r > 0" "r = int (length msg)"
    | (part) "sc_direct env st" "r > 0" "r \<noteq> int (length msg)"
    | (block) "sc_direct env st" "\<not> r > 0" "send_would_block (se_errnos env) e"
    | (fail) "sc_direct env st" "\<not> r > 0" "\<not> send_would_block (se_errnos env) e" by blast
  then show ?thesis
  proof cases
    case queue
    obtain b where b: "sc_push_copy env st msg (int (length msg)) = Some (sc_push st b)" "sc_wf (sc_push st b)"
        "sc_pending (sc_push st b) = sc_pending st @ msg"
      using sc_push_copy_ok [OF wf heap len] by blast
    show ?thesis unfolding calls(1) [OF queue b(1)] using b by (intro put_okI) simp_all
  next
    case all
    show ?thesis unfolding calls(2) [OF all] using wf sc_direct_pending [OF all(1)] by (intro put_okI) simp_all
  next
    case part
    let ?st = "st\<lparr>sc_last_update := se_now env\<rparr>" and ?rest = "drop (nat r) msg"
    have lr: "int (length msg) - r = int (length ?rest)" using res re part by (simp add: sent_ok_def)
    have "length ?rest < 2 ^ 31" using len by simp
    then obtain b where b: "sc_push_copy env ?st ?rest (int (length msg) - r) = Some (sc_push ?st b)"
        "sc_wf (sc_push ?st b)" "sc_pending (sc_push ?st b) = sc_pending ?st @ ?rest"
      unfolding lr using sc_push_copy_ok [of ?st env ?rest] wf heap by auto
    show ?thesis unfolding calls(3) [OF part b(1)] using b sc_direct_pending [OF part(1)]
      by (intro put_okI) simp_all
  next
    case block
    let ?st = "st\<lparr>sc_last_fail := se_now env\<rparr>"
    obtain b where b: "sc_push_copy env ?st msg (int (length msg)) = Some (sc_push ?st b)"
        "sc_wf (sc_push ?st b)" "sc_pending (sc_push ?st b) = sc_pending ?st @ msg"
      using sc_push_copy_ok [of ?st env msg] wf heap len by auto
    show ?thesis unfolding calls(4) [OF block b(1)] using b by (intro put_okI) simp_all
  next
    case fail
    show ?thesis unfolding calls(5) [OF fail] using wf by (intro put_okI) simp_all
  qed
qed

lemma mem_get_bb_data:
  assumes "bb_wf b" "n \<le> length (bb_bytes b)"
  shows "mem_get (bb_data b) 0 n = Some (take n (bb_bytes b))"
proof -
  have p: "take (length (bb_bytes b)) (bb_data b) = bb_bytes b" using bb_data_prefix [OF assms(1)] .
  have l: "length (bb_bytes b) \<le> length (bb_data b)" using arg_cong [OF p, of length] by simp
  have "take n (bb_data b) = take n (bb_bytes b)" using assms(2) by (subst p [symmetric]) (simp add: min_def)
  then show ?thesis using l assms(2) by (simp add: mem_get_def)
qed

lemma bb_set_begin_ok:
  assumes "sc_node_ok b" "0 \<le> n" "n \<le> int (length (bb_bytes b))"
  shows "sc_node_ok (bb_set_begin b (bb_data_begin b + to_uint n))"
    and "bb_bytes (bb_set_begin b (bb_data_begin b + to_uint n)) = drop (nat n) (bb_bytes b)"
    and "bb_owner (bb_set_begin b (bb_data_begin b + to_uint n)) = bb_owner b"
proof -
  have n: "to_uint n = word_of_nat (nat n)" using assms by (simp add: to_uint_def)
  show b: "bb_bytes (bb_set_begin b (bb_data_begin b + to_uint n)) = drop (nat n) (bb_bytes b)"
    unfolding n using assms by (intro bb_set_begin_drop) (simp_all add: sc_node_ok_def)
  show "sc_node_ok (bb_set_begin b (bb_data_begin b + to_uint n))"
    using assms(1) b by (simp add: sc_node_ok_def bb_set_begin_wf) linarith
  show "bb_owner (bb_set_begin b (bb_data_begin b + to_uint n)) = bb_owner b"
    by (simp add: bb_set_begin_def Let_def)
qed

lemma sc_put_data_i_buf_ok:
  assumes wf: "sc_wf st" and b: "sc_node_ok b" "bb_owner b"
    and res: "sent_ok (length (bb_bytes b)) res"
  shows "put_ok st (bb_bytes b) (sc_put_data_i_buf env st b res)"
proof -
  obtain r e where re: "res = (r, e)" by (cases res)
  note sz = sint_bb_data_size [OF b(1)]
  note push = sc_push_owner [OF _ b]
  show ?thesis
  proof (cases "sc_direct env st")
    case False
    then have "sc_put_data_i_buf env st b res = Some (0, sc_push st b, [], True)"
      by (simp add: sc_put_data_i_buf_def re)
    then show ?thesis using push [OF wf] by (simp only:) (intro put_okI, simp_all)
  next
    case True
    note p = sc_direct_pending [OF True]
    show ?thesis
    proof (cases "r > 0")
      case pos: True
      let ?sent = "take (nat r) (bb_bytes b)" and ?st = "st\<lparr>sc_last_update := se_now env\<rparr>"
      have r: "r \<le> int (length (bb_bytes b))" using res re by (simp add: sent_ok_def)
      then have get: "mem_get (bb_data b) 0 (nat r) = Some ?sent"
        using b by (intro mem_get_bb_data) (simp_all add: sc_node_ok_def)
      show ?thesis
      proof (cases "r = int (length (bb_bytes b))")
        case all: True
        then have "sc_put_data_i_buf env st b res = Some (1, ?st, ?sent, False)"
          using True pos get sz re by (simp add: sc_put_data_i_buf_def)
        then show ?thesis using all p wf by (simp only:) (intro put_okI, simp_all)
      next
        case part: False
        let ?b = "bb_set_begin b (bb_data_begin b + to_uint r)"
        have call: "sc_put_data_i_buf env st b res = Some (0, sc_push ?st ?b, ?sent, True)"
          using True pos get sz re part by (simp add: sc_put_data_i_buf_def)
        have "0 \<le> r" using pos by simp
        note bs = bb_set_begin_ok [OF b(1) this r]
        show ?thesis unfolding call using sc_push_owner [of ?st ?b] bs b(2) wf p
          by (intro put_okI) simp_all
      qed
    next
      case nonpos: False
      let ?st = "st\<lparr>sc_last_fail := se_now env\<rparr>"
      have call: "sc_put_data_i_buf env st b res =
          (if send_would_block (se_errnos env) e then Some (0, sc_push ?st b, [], True)
           else Some (- 1, st\<lparr>sc_last_errno := e, sc_current_status := STATUS_CLOSE_SEND\<rparr>, [], False))"
        using True nonpos re by (simp add: sc_put_data_i_buf_def)
      have q: "put_ok st (bb_bytes b) (Some (0, sc_push ?st b, [], True))"
        using push [of ?st] wf by (intro put_okI) simp_all
      have f: "put_ok st (bb_bytes b)
          (Some (- 1, st\<lparr>sc_last_errno := e, sc_current_status := STATUS_CLOSE_SEND\<rparr>, [], False))"
        using wf by (intro put_okI) simp_all
      show ?thesis unfolding call using q f by (simp only: split: if_splits) simp
    qed
  qed
qed

text \<open>The flush: what is sent is taken off the front of the queue, byte for byte.\<close>

definition sc_bytes :: "byte_buffer list \<Rightarrow> byte list" where
  "sc_bytes q = concat (map bb_bytes q)"

lemma sc_bytes_simps [simp]: "sc_bytes [] = []" "sc_bytes (b # q) = bb_bytes b @ sc_bytes q"
  "sc_bytes (q @ q') = sc_bytes q @ sc_bytes q'"
  by (simp_all add: sc_bytes_def)

lemma sc_pending_bytes: "sc_pending st = sc_bytes (sc_queue_active st) @ sc_bytes (sc_queue_standby st)"
  by (simp add: sc_pending_def sc_bytes_def)

lemma sc_iov_bytes:
  assumes "list_all sc_node_ok q"
  shows "sc_iov n q = sc_bytes (take (nat n) q)"
proof -
  have "take (unat (bb_data_size b)) (bb_data b) = bb_bytes b" if "b \<in> set q" for b
    using that assms bb_data_prefix [of b] unat_bb_data_size [of b]
    by (auto simp: list_all_iff sc_node_ok_def)
  then have "map (\<lambda>b. take (unat (bb_data_size b)) (bb_data b)) (take (nat n) q) = map bb_bytes (take (nat n) q)"
    by (intro map_cong) (auto dest: in_set_takeD)
  then show ?thesis unfolding sc_iov_def sc_bytes_def by (rule arg_cong)
qed

lemma sc_pop_spec:
  assumes "list_all sc_node_ok q" "0 < n" "n \<le> int (length (sc_bytes (take (nat (nc - i + 1)) q)))"
  shows "\<exists>j q'. sc_pop nc i n q = Some (j, q') \<and> list_all sc_node_ok q' \<and>
           sc_bytes q' = drop (nat n) (sc_bytes q) \<and> i \<le> j \<and> j \<le> nc \<and> j < i + int (length q)"
  using assms
proof (induction q arbitrary: i n)
  case Nil
  then show ?case by simp
next
  case (Cons b q)
  have i: "i \<le> nc" using Cons.prems(2,3) by (cases "i \<le> nc") simp_all
  then have tk: "take (nat (nc - i + 1)) (b # q) = b # take (nat (nc - i)) q"
    by (simp add: nat_add_distrib)
  have b: "sc_node_ok b" and q: "list_all sc_node_ok q" using Cons.prems(1) by simp_all
  note sz = sint_bb_data_size [OF b]
  let ?l = "length (bb_bytes b)"
  show ?case
  proof (cases "int ?l \<le> n")
    case le: True
    show ?thesis
    proof (cases "n - int ?l < 1")
      case True
      then have "nat n = ?l" using le by simp
      then show ?thesis using True le i sz q by simp
    next
      case False
      have m: "0 < n - int ?l" "n - int ?l \<le> int (length (sc_bytes (take (nat (nc - (i + 1) + 1)) q)))"
        using False Cons.prems(3) unfolding tk by simp_all
      obtain j q' where jq: "sc_pop nc (i + 1) (n - int ?l) q = Some (j, q')" "list_all sc_node_ok q'"
          "sc_bytes q' = drop (nat (n - int ?l)) (sc_bytes q)" "i + 1 \<le> j" "j \<le> nc" "j < i + 1 + int (length q)"
        using Cons.IH [OF q m] by blast
      have "nat n = ?l + nat (n - int ?l)" using le by simp
      then have "drop (nat n) (sc_bytes (b # q)) = drop (nat (n - int ?l)) (sc_bytes q)"
        by (simp only: sc_bytes_simps) (simp only: drop_append_exact)
      then show ?thesis using jq le False i sz by simp
    qed
  next
    case False
    then have n: "0 \<le> n" "n \<le> int ?l" using Cons.prems(2) by simp_all
    have "nat n \<le> ?l" using n by simp
    then show ?thesis using bb_set_begin_ok [OF b n] q False i sz by simp
  qed
qed

definition sc_swap :: "send_control \<Rightarrow> send_control" where
  "sc_swap st = (if sc_queue_active st = [] \<and> sc_queue_standby st \<noteq> []
     then st\<lparr>sc_queue_active := sc_queue_standby st, sc_queue_standby := sc_queue_active st\<rparr> else st)"

lemma sc_swap_props:
  "sc_wf (sc_swap st) = sc_wf st" "sc_pending (sc_swap st) = sc_pending st"
  "sc_crypto_type (sc_swap st) = sc_crypto_type st" "sc_current_status (sc_swap st) = sc_current_status st"
  by (auto simp: sc_swap_def sc_wf_def sc_pending_def)

lemma sc_wf_active:
  "sc_wf st \<Longrightarrow> list_all sc_node_ok q \<Longrightarrow> sc_wf (st\<lparr>sc_queue_active := q\<rparr>)"
  "sc_pending (st\<lparr>sc_queue_active := q\<rparr>) = sc_bytes q @ sc_bytes (sc_queue_standby st)"
  by (simp_all add: sc_wf_def sc_pending_bytes)

definition sc_node_count :: "send_env \<Rightarrow> send_control \<Rightarrow> int" where
  "sc_node_count env st = min (int (length (sc_queue_active st))) (se_iovec_count env)"

lemma sc_write_data_alt:
  "sc_write_data env st now (r, e) =
     (let st = sc_swap st; nc = sc_node_count env st in
      if sc_queue_active st = [] then Some (WRITE_RETURN_NOT_DATA, st, [], False)
      else if r > 0 then do {
        (i, q) \<leftarrow> sc_pop nc 1 r (sc_queue_active st);
        let st' = st\<lparr>sc_last_update := now, sc_queue_active := q\<rparr>;
        let sent = take (nat r) (sc_iov nc (sc_queue_active st));
        if i = nc
        then Some (WRITE_RETURN_SEND_SUCCESS, st'\<lparr>sc_last_fail := 0\<rparr>, sent, q = [] \<and> sc_queue_standby st = [])
        else Some (WRITE_RETURN_SEND_PART, st'\<lparr>sc_last_fail := now\<rparr>, sent, False) }
      else if send_would_block (se_errnos env) e
      then Some (WRITE_RETURN_NOT_DATA, st\<lparr>sc_last_fail := now\<rparr>, [], False)
      else Some (WRITE_RETURN_SEND_FAIL, st\<lparr>sc_last_errno := e, sc_current_status := STATUS_CLOSE_SEND\<rparr>, [], False))"
proof -
  have nc: "sc_node_count env st = (if int (length (sc_queue_active st)) < se_iovec_count env
      then int (length (sc_queue_active st)) else se_iovec_count env)" for st
    by (simp add: sc_node_count_def)
  show ?thesis
    unfolding sc_write_data_def sc_swap_def [symmetric] Let_def nc by (simp cong: if_cong)
qed

definition write_ok :: "send_control \<Rightarrow> (write_return \<times> send_control \<times> byte list \<times> bool) option \<Rightarrow> bool" where
  "write_ok st r \<longleftrightarrow>
     (\<exists>ret st' sent idle. r = Some (ret, st', sent, idle) \<and> sc_wf st' \<and> sent @ sc_pending st' = sc_pending st \<and>
        sc_crypto_type st' = sc_crypto_type st \<and>
        sc_current_status st' = (if ret = WRITE_RETURN_SEND_FAIL then STATUS_CLOSE_SEND else sc_current_status st) \<and>
        (idle \<longrightarrow> sc_pending st' = []))"

lemma sc_write_data_ok:
  assumes wf: "sc_wf st"
    and res: "sent_ok (length (sc_iov (sc_node_count env (sc_swap st)) (sc_queue_active (sc_swap st)))) res"
  shows "write_ok st (sc_write_data env st now res)"
proof -
  obtain r e where re: "res = (r, e)" by (cases res)
  let ?st = "sc_swap st"
  let ?nc = "sc_node_count env ?st" and ?q = "sc_queue_active (sc_swap st)"
  have wf': "sc_wf ?st" using wf by (simp add: sc_swap_props)
  then have q: "list_all sc_node_ok ?q" unfolding sc_wf_def by blast
  note alt = sc_write_data_alt [of env st now r e, folded re, unfolded Let_def]
  have keep: "sc_pending ?st = sc_pending st" "sc_crypto_type ?st = sc_crypto_type st"
    "sc_current_status ?st = sc_current_status st" by (simp_all add: sc_swap_props)
  show ?thesis
  proof (cases "?q \<noteq> [] \<and> r > 0")
    case False
    then show ?thesis using wf' keep by (auto simp: alt write_ok_def)
  next
    case True
    have iov: "sc_iov ?nc ?q = sc_bytes (take (nat ?nc) ?q)" using q by (rule sc_iov_bytes)
    have "r \<le> int (length (sc_bytes (take (nat (?nc - 1 + 1)) ?q)))"
      using res re iov by (simp add: sent_ok_def)
    from sc_pop_spec [OF q _ this] True
    obtain j q' where pop: "sc_pop ?nc 1 r ?q = Some (j, q')" and q': "list_all sc_node_ok q'"
        "sc_bytes q' = drop (nat r) (sc_bytes ?q)" by blast
    have pre: "take (nat r) (sc_iov ?nc ?q) = take (nat r) (sc_bytes ?q)"
    proof -
      have "sc_bytes ?q = sc_bytes (take (nat ?nc) ?q) @ sc_bytes (drop (nat ?nc) ?q)"
        by (metis append_take_drop_id sc_bytes_simps(3))
      then show ?thesis using res re iov by (simp add: sent_ok_def)
    qed
    let ?st' = "?st\<lparr>sc_last_update := now, sc_queue_active := q'\<rparr>"
    have wf2: "sc_wf (?st'\<lparr>sc_last_fail := a\<rparr>)" for a
      using sc_wf_active(1) [of "?st\<lparr>sc_last_update := now\<rparr>" q'] wf' q' by simp
    have pend: "take (nat r) (sc_iov ?nc ?q) @ sc_pending (?st'\<lparr>sc_last_fail := a\<rparr>) = sc_pending st" for a
      unfolding pre keep(1) [symmetric] using q'(2) by (simp add: sc_pending_bytes)
    have idle: "q' = [] \<and> sc_queue_standby ?st = [] \<Longrightarrow> sc_pending (?st'\<lparr>sc_last_fail := a\<rparr>) = []" for a
      by (simp add: sc_pending_bytes)
    show ?thesis
      using True pop wf2 pend idle keep by (auto simp: alt write_ok_def)
  qed
qed

text \<open>
  A cipher stores no more than it has room for and reports no more than it stored, as
  \<^verbatim>\<open>SL_Crypto_AES\<close> does.
\<close>

definition cipher_ok :: "cipher \<Rightarrow> bool" where
  "cipher_ok enc \<longleftrightarrow>
     (\<forall>msg room. length msg < 2 ^ 31 \<longrightarrow> 0 \<le> room \<longrightarrow> room < 2 ^ 31 \<longrightarrow>
        fst (enc msg room) \<le> int (length (snd (enc msg room))) \<and> int (length (snd (enc msg room))) \<le> room)"

lemma aes_cipher_ok: "block_pair E D \<Longrightarrow> cipher_ok (aes_encrypt E)"
  by (simp add: cipher_ok_def aes_encrypt_room)

lemma bb_new_size_ok:
  assumes "heap_ok h n" "n < 2 ^ 32"
  shows "\<exists>m. length m = n \<and> bb_new_size h (to_uint (int n)) =
           \<lparr>bb_buffer = Some m, bb_buffer_size = to_uint (int n), bb_data_begin = 0, bb_data_end = 0, bb_owner = True\<rparr>"
proof -
  have "unat (to_uint (int n)) = n" using assms by (simp add: to_uint_def unat_of_nat)
  then show ?thesis using assms by (auto simp: bb_new_size_def sl_malloc_def)
qed

lemma unat_to_uint: "0 \<le> i \<Longrightarrow> i < 2 ^ 32 \<Longrightarrow> unat (to_uint i) = nat i"
  by (simp add: to_uint_def unat_eq_nat_uint uint_word_of_int_small)

lemma sint_to_uint: "0 \<le> i \<Longrightarrow> i < 2 ^ 31 \<Longrightarrow> sint (to_uint i) = i"
  by (simp add: to_uint_def sint_word_of_int_small)

lemma to_uint_diff: "to_uint i - to_uint j = to_uint (i - j)"
  by (simp add: to_uint_def)

lemma msglen_hdr_bounds: "1 \<le> msglen_hdr k" "msglen_hdr k \<le> 4"
  using kinds.hdr_pos [of k] kinds.hdr_small [of k] by simp_all

lemma sc_seal_spec:
  assumes src: "source_ok k src" and heap: "heap_total env" and enc: "cipher_ok enc"
    and len: "length msg + 32 < 2 ^ 31"
    and call: "enc msg (int (length msg) + 32 - int (msglen_hdr k)) = (ret, out)"
  shows "ret \<le> 0 \<Longrightarrow> sc_seal env src enc msg = Some (Inl (- 1))"
    and "0 < ret \<Longrightarrow> \<exists>b h. sc_seal env src enc msg = Some (Inr b) \<and> sc_node_ok b \<and> bb_owner b \<and>
           length h = msglen_hdr k \<and> bb_bytes b = h @ take (nat ret) out \<and> nat ret \<le> length out \<and>
           (ret + int (msglen_hdr k) \<le> msglen_max k \<longrightarrow>
              msglen_get k (bb_bytes b) = Some (int (length (bb_bytes b))))"
proof -
  let ?hd = "msglen_hdr k" and ?n = "length msg + 32"
  note hdr = msglen_hdr_bounds [of k]
  have sk: "unat (ss_msglen_bytes src) = ?hd" "ss_set_msglen src = msglen_set k"
    using src by (simp_all add: source_ok_def)
  have n: "int (length msg) + SL_CRYPTO_BLOCK_SIZE_32 = int ?n" by (simp add: SL_CRYPTO_BLOCK_SIZE_32_def)
  have "heap_ok (se_heap env) ?n" using heap len by (simp add: heap_total_def)
  from bb_new_size_ok [OF this] len
  obtain m0 where m0: "length m0 = ?n" "bb_new_size (se_heap env) (to_uint (int ?n)) =
      \<lparr>bb_buffer = Some m0, bb_buffer_size = to_uint (int ?n), bb_data_begin = 0, bb_data_end = 0, bb_owner = True\<rparr>"
    by auto
  have room: "sint (to_uint (int ?n) - to_uint (int ?hd)) = int (length msg) + 32 - int ?hd"
    unfolding to_uint_diff using len hdr by (simp add: sint_to_uint)
  have fit: "ret \<le> int (length out)" "?hd + length out \<le> ?n"
    using enc [unfolded cipher_ok_def, rule_format, of msg "int (length msg) + 32 - int ?hd"] hdr len
    unfolding call by simp_all
  let ?m1 = "take ?hd m0 @ out @ drop (?hd + length out) m0"
  have put: "mem_put m0 ?hd out = Some ?m1" using fit m0(1) by (simp add: mem_put_ok)
  have lm1: "length ?m1 = ?n" using fit m0(1) by simp
  have seal: "sc_seal env src enc msg =
      (if ret > 0 then do {
         m \<leftarrow> msglen_set k (block (bb_buffer (bb_set_end
                \<lparr>bb_buffer = Some ?m1, bb_buffer_size = to_uint (int ?n), bb_data_begin = 0, bb_data_end = 0,
                 bb_owner = True\<rparr> (to_uint (ret + int ?hd))))) (ret + int ?hd);
         Some (Inr ((bb_set_end
                \<lparr>bb_buffer = Some ?m1, bb_buffer_size = to_uint (int ?n), bb_data_begin = 0, bb_data_end = 0,
                 bb_owner = True\<rparr> (to_uint (ret + int ?hd)))\<lparr>bb_buffer := Some m\<rparr>)) }
       else Some (Inl (- 1)))"
    unfolding sc_seal_def n m0(2) Let_def sk
    by (simp add: room call put del: of_nat_add) (simp add: bb_set_end_def)
  show "ret \<le> 0 \<Longrightarrow> sc_seal env src enc msg = Some (Inl (- 1))" using seal by simp
  assume pos: "0 < ret"
  let ?b0 = "\<lparr>bb_buffer = Some ?m1, bb_buffer_size = to_uint (int ?n), bb_data_begin = 0, bb_data_end = 0, bb_owner = True\<rparr>"
  let ?e = "ret + int ?hd"
  have e: "0 \<le> ?e" "?e \<le> int ?n" using pos fit by simp_all
  have un: "unat (to_uint (int ?n)) = ?n" using len by (simp add: unat_to_uint del: of_nat_add)
  have ue: "unat (to_uint ?e) = nat ?e" using e len by (intro unat_to_uint) simp_all
  have end': "bb_set_end ?b0 (to_uint ?e) = ?b0\<lparr>bb_data_end := to_uint ?e\<rparr>"
  proof -
    have "\<not> to_uint (int ?n) < to_uint ?e" unfolding word_less_nat_alt un ue using e by (simp add: nat_le_iff)
    then show ?thesis by (simp add: bb_set_end_def Let_def)
  qed
  obtain h where h: "length h = ?hd" "msglen_set k ?m1 ?e = Some (h @ drop ?hd ?m1)"
    using kinds.put_total [of k ?m1 ?e] lm1 hdr by auto
  have dm: "drop ?hd ?m1 = out @ drop (?hd + length out) m0" using fit m0(1) by simp
  let ?b = "?b0\<lparr>bb_data_end := to_uint ?e, bb_buffer := Some (h @ out @ drop (?hd + length out) m0)\<rparr>"
  have sl: "sc_seal env src enc msg = Some (Inr ?b)"
    unfolding seal end' using pos h(2) unfolding dm by simp
  have ne: "nat ?e = ?hd + nat ret" using pos by simp
  have bytes: "bb_bytes ?b = h @ take (nat ret) out"
    using h(1) fit(1) by (simp add: bb_bytes_def window_def ue ne)
  have wf: "bb_wf ?b" using un ue e h(1) m0(1) fit by (simp add: bb_wf_def ne nat_le_iff)
  have nr: "nat ret \<le> length out" using fit by simp
  have lb: "length (bb_bytes ?b) = nat ?e" unfolding bytes ne using h(1) nr by simp
  have "sc_node_ok ?b" unfolding sc_node_ok_def lb using wf e len by simp
  moreover have "msglen_get k (bb_bytes ?b) = Some (int (length (bb_bytes ?b)))" if "?e \<le> msglen_max k"
  proof -
    have "msglen_get k (h @ drop ?hd ?m1) = Some ?e"
      using kinds.get_put [of k ?m1 ?e] lm1 hdr e that h(2) by simp
    then have "msglen_get k h = Some ?e" using kinds.get_prefix [of k h] h(1) by simp
    then have "msglen_get k (h @ take (nat ret) out) = Some ?e" using kinds.get_prefix [of k h] h(1) by simp
    then show ?thesis unfolding lb unfolding bytes using e by simp
  qed
  ultimately show "\<exists>b h. sc_seal env src enc msg = Some (Inr b) \<and> sc_node_ok b \<and> bb_owner b \<and>
           length h = msglen_hdr k \<and> bb_bytes b = h @ take (nat ret) out \<and> nat ret \<le> length out \<and>
           (ret + int (msglen_hdr k) \<le> msglen_max k \<longrightarrow>
              msglen_get k (bb_bytes b) = Some (int (length (bb_bytes b))))"
    using sl bytes h(1) nr by (intro exI [of _ ?b] exI [of _ h]) simp
qed

section \<open>Runs of a connection\<close>

text \<open>The bytes a call of \<^verbatim>\<open>put_data\<close> is to get to the peer: the message or its sealed frame.\<close>

definition sc_frame :: "send_env \<Rightarrow> socket_source \<Rightarrow> cipher \<Rightarrow> send_control \<Rightarrow> byte list \<Rightarrow> byte list" where
  "sc_frame env src enc st msg =
     (if sc_crypto_type st AND SL_CRYPTO_TYPE_ENCRYPT \<noteq> 0
      then (case sc_seal env src enc msg of Some (Inr b) \<Rightarrow> bb_bytes b | _ \<Rightarrow> [])
      else msg)"

lemma put_ok_refused: "sc_wf st \<Longrightarrow> put_ok st msg (Some (- 1, st, [], False))"
  by (intro put_okI) simp_all

lemma sc_put_data_ok:
  assumes wf: "sc_wf st" and heap: "heap_total env" and src: "source_ok k src" and enc: "cipher_ok enc"
    and len: "length msg + 32 < 2 ^ 31" and res: "sent_ok (length (sc_frame env src enc st msg)) res"
  shows "put_ok st (sc_frame env src enc st msg) (sc_put_data env src enc st msg res)"
proof (cases "sc_current_status st = STATUS_OPEN")
  case False
  then show ?thesis using wf by (simp add: sc_put_data_def put_ok_refused)
next
  case op: True
  show ?thesis
  proof (cases "sc_crypto_type st AND SL_CRYPTO_TYPE_ENCRYPT \<noteq> 0")
    case False
    then have fr: "sc_frame env src enc st msg = msg" by (simp add: sc_frame_def)
    have "length msg < 2 ^ 31" using len by simp
    then have "put_ok st msg (sc_put_data_i env st msg res)"
      using res unfolding fr by (intro sc_put_data_i_ok [OF wf heap])
    then show ?thesis using op False unfolding fr by (simp add: sc_put_data_def)
  next
    case True
    obtain ret out where call: "enc msg (int (length msg) + 32 - int (msglen_hdr k)) = (ret, out)"
      by (cases "enc msg (int (length msg) + 32 - int (msglen_hdr k))")
    note seal = sc_seal_spec [OF src heap enc len call]
    show ?thesis
    proof (cases "ret \<le> 0")
      case neg: True
      then show ?thesis using op True wf seal(1) by (simp add: sc_put_data_def put_ok_refused)
    next
      case False
      then obtain b where b: "sc_seal env src enc msg = Some (Inr b)" "sc_node_ok b" "bb_owner b"
        using seal(2) by auto
      then have fr: "sc_frame env src enc st msg = bb_bytes b" using True by (simp add: sc_frame_def)
      have "put_ok st (bb_bytes b) (sc_put_data_i_buf env st b res)"
        using res unfolding fr by (intro sc_put_data_i_buf_ok [OF wf b(2,3)])
      then show ?thesis using op True b(1) unfolding fr by (simp add: sc_put_data_def)
    qed
  qed
qed

lemma sc_put_data_buf_ok:
  assumes wf: "sc_wf st" and heap: "heap_total env" and src: "source_ok k src" and enc: "cipher_ok enc"
    and b: "bb_wf b" "bb_owner b" and len: "length (bb_bytes b) + 32 < 2 ^ 31"
    and res: "sent_ok (length (sc_frame env src enc st (bb_bytes b))) res"
  shows "put_ok st (sc_frame env src enc st (bb_bytes b)) (sc_put_data_buf env src enc st b res)"
proof (cases "sc_current_status st = STATUS_OPEN \<and> sc_crypto_type st AND SL_CRYPTO_TYPE_ENCRYPT = 0")
  case True
  have fr: "sc_frame env src enc st (bb_bytes b) = bb_bytes b" using True by (simp add: sc_frame_def)
  have "sc_node_ok b" using b len by (simp add: sc_node_ok_def)
  then have "put_ok st (bb_bytes b) (sc_put_data_i_buf env st b res)"
    using res b(2) unfolding fr by (intro sc_put_data_i_buf_ok [OF wf])
  then show ?thesis using True unfolding fr by (simp add: sc_put_data_buf_def)
next
  case False
  have "mem_get (bb_data b) 0 (unat (bb_data_size b)) = Some (bb_bytes b)"
    using mem_get_bb_data [OF b(1) order_refl] unat_bb_data_size [OF b(1)] by simp
  then have "sc_put_data_buf env src enc st b res = sc_put_data env src enc st (bb_bytes b) res"
    using False by (auto simp: sc_put_data_buf_def sc_put_data_def)
  then show ?thesis using sc_put_data_ok [OF wf heap src enc len res] by simp
qed

text \<open>
  What \<^verbatim>\<open>put_data\<close> does, as a function of the frame alone: the result, the bytes on the
  wire, what is pending afterwards, whether the send thread is woken, and the status, error
  number and time stamps of the connection.  There is no frame when the connection is not open or
  the cipher fails.
\<close>

type_synonym put_outcome =
  "int \<times> byte list \<times> byte list \<times> bool \<times> socket_status \<times> int \<times> uint64 \<times> uint64"

definition put_frame ::
  "send_env \<Rightarrow> socket_source \<Rightarrow> cipher \<Rightarrow> send_control \<Rightarrow> byte list \<Rightarrow> byte list option"
where
  "put_frame env src enc st msg =
     (if sc_current_status st \<noteq> STATUS_OPEN then None
      else if sc_crypto_type st AND SL_CRYPTO_TYPE_ENCRYPT \<noteq> 0
      then (case sc_seal env src enc msg of Some (Inr b) \<Rightarrow> Some (bb_bytes b) | _ \<Rightarrow> None)
      else Some msg)"

definition put_spec :: "send_env \<Rightarrow> send_control \<Rightarrow> byte list option \<Rightarrow> sock_result \<Rightarrow> put_outcome" where
  "put_spec env st frame res =
     (let s = sc_current_status st; e = sc_last_errno st; u = sc_last_update st; f = sc_last_fail st in
      case frame of
        None \<Rightarrow> (- 1, [], sc_pending st, False, s, e, u, f)
      | Some m \<Rightarrow>
          if \<not> sc_direct env st then (0, [], sc_pending st @ m, True, s, e, u, f)
          else if fst res > 0 then
            if fst res = int (length m) then (1, m, [], False, s, e, se_now env, f)
            else (0, take (nat (fst res)) m, drop (nat (fst res)) m, True, s, e, se_now env, f)
          else if send_would_block (se_errnos env) (snd res) then (0, [], m, True, s, e, u, se_now env)
          else (- 1, [], [], False, STATUS_CLOSE_SEND, snd res, u, f))"

fun put_view :: "put_result \<Rightarrow> put_outcome" where
  "put_view (ret, st, sent, woken) =
     (ret, sent, sc_pending st, woken, sc_current_status st, sc_last_errno st, sc_last_update st, sc_last_fail st)"

lemma sc_put_data_i_view:
  assumes wf: "sc_wf st" and heap: "heap_total env" and len: "length msg < 2 ^ 31"
    and res: "sent_ok (length msg) res"
  shows "map_option put_view (sc_put_data_i env st msg res) = Some (put_spec env st (Some msg) res)"
proof -
  obtain r e where re: "res = (r, e)" by (cases res)
  note calls = sc_put_data_i_cases [OF re, of env st]
  consider (queue) "\<not> sc_direct env st"
    | (all) "sc_direct env st" "r > 0" "r = int (length msg)"
    | (part) "sc_direct env st" "r > 0" "r \<noteq> int (length msg)"
    | (block) "sc_direct env st" "\<not> r > 0" "send_would_block (se_errnos env) e"
    | (fail) "sc_direct env st" "\<not> r > 0" "\<not> send_would_block (se_errnos env) e" by blast
  then show ?thesis
  proof cases
    case queue
    obtain b where b: "sc_push_copy env st msg (int (length msg)) = Some (sc_push st b)"
        "sc_pending (sc_push st b) = sc_pending st @ msg"
      using sc_push_copy_ok [OF wf heap len] by blast
    show ?thesis unfolding calls(1) [OF queue b(1)] using queue b(2) by (simp add: put_spec_def)
  next
    case all
    show ?thesis unfolding calls(2) [OF all] using all sc_direct_pending [OF all(1)] by (simp add: put_spec_def re)
  next
    case part
    let ?st = "st\<lparr>sc_last_update := se_now env\<rparr>" and ?rest = "drop (nat r) msg"
    have lr: "int (length msg) - r = int (length ?rest)" using res re part by (simp add: sent_ok_def)
    have "length ?rest < 2 ^ 31" using len by simp
    then obtain b where b: "sc_push_copy env ?st ?rest (int (length msg) - r) = Some (sc_push ?st b)"
        "sc_pending (sc_push ?st b) = sc_pending ?st @ ?rest"
      unfolding lr using sc_push_copy_ok [of ?st env ?rest] wf heap by auto
    show ?thesis unfolding calls(3) [OF part b(1)] using part b(2) sc_direct_pending [OF part(1)]
      by (simp add: put_spec_def re)
  next
    case block
    let ?st = "st\<lparr>sc_last_fail := se_now env\<rparr>"
    obtain b where b: "sc_push_copy env ?st msg (int (length msg)) = Some (sc_push ?st b)"
        "sc_pending (sc_push ?st b) = sc_pending ?st @ msg"
      using sc_push_copy_ok [of ?st env msg] wf heap len by auto
    show ?thesis unfolding calls(4) [OF block b(1)] using block b(2) sc_direct_pending [OF block(1)]
      by (simp add: put_spec_def re)
  next
    case fail
    show ?thesis unfolding calls(5) [OF fail] using fail sc_direct_pending [OF fail(1)]
      by (simp add: put_spec_def re)
  qed
qed

lemma sc_put_data_i_buf_view:
  assumes wf: "sc_wf st" and b: "sc_node_ok b" "bb_owner b"
    and res: "sent_ok (length (bb_bytes b)) res"
  shows "map_option put_view (sc_put_data_i_buf env st b res) = Some (put_spec env st (Some (bb_bytes b)) res)"
proof -
  obtain r e where re: "res = (r, e)" by (cases res)
  note sz = sint_bb_data_size [OF b(1)]
  have push: "sc_pending (sc_push st b) = sc_pending st @ bb_bytes b" if "sc_wf st" for st
    by (rule sc_push_owner(2) [OF that b])
  show ?thesis
  proof (cases "sc_direct env st")
    case False
    then show ?thesis using push [OF wf] by (simp add: sc_put_data_i_buf_def re put_spec_def)
  next
    case True
    note p = sc_direct_pending [OF True]
    show ?thesis
    proof (cases "r > 0")
      case pos: True
      let ?b = "bb_set_begin b (bb_data_begin b + to_uint r)" and ?st = "st\<lparr>sc_last_update := se_now env\<rparr>"
      have r: "0 \<le> r" "r \<le> int (length (bb_bytes b))" using res re pos by (simp_all add: sent_ok_def)
      then have get: "mem_get (bb_data b) 0 (nat r) = Some (take (nat r) (bb_bytes b))"
        using b by (intro mem_get_bb_data) (simp_all add: sc_node_ok_def)
      note bs = bb_set_begin_ok [OF b(1) r]
      have "sc_pending (sc_push ?st ?b) = drop (nat r) (bb_bytes b)"
        using sc_push_owner(2) [of ?st ?b] bs b(2) wf p by simp
      then show ?thesis using True pos get sz re p r by (auto simp: sc_put_data_i_buf_def put_spec_def Let_def)
    next
      case nonpos: False
      have "sc_pending (sc_push (st\<lparr>sc_last_fail := se_now env\<rparr>) b) = bb_bytes b" using push wf p by simp
      then show ?thesis using True nonpos re p by (auto simp: sc_put_data_i_buf_def put_spec_def)
    qed
  qed
qed

lemma put_view_refused:
  "map_option put_view (Some (- 1, st, [], False)) = Some (put_spec env st None res)"
  by (simp add: put_spec_def)

lemma sc_put_data_view:
  assumes wf: "sc_wf st" and heap: "heap_total env" and src: "source_ok k src" and enc: "cipher_ok enc"
    and len: "length msg + 32 < 2 ^ 31" and res: "sent_ok (length (sc_frame env src enc st msg)) res"
  shows "map_option put_view (sc_put_data env src enc st msg res) =
           Some (put_spec env st (put_frame env src enc st msg) res)"
proof (cases "sc_current_status st = STATUS_OPEN")
  case False
  then show ?thesis
    by (simp only: sc_put_data_def put_frame_def if_False if_True not_False_eq_True put_view_refused)
next
  case op: True
  show ?thesis
  proof (cases "sc_crypto_type st AND SL_CRYPTO_TYPE_ENCRYPT \<noteq> 0")
    case False
    have "sent_ok (length msg) res" using res False by (simp add: sc_frame_def)
    from sc_put_data_i_view [OF wf heap _ this] show ?thesis
      using op False len by (simp add: sc_put_data_def put_frame_def)
  next
    case True
    obtain ret out where call: "enc msg (int (length msg) + 32 - int (msglen_hdr k)) = (ret, out)"
      by (cases "enc msg (int (length msg) + 32 - int (msglen_hdr k))")
    note seal = sc_seal_spec [OF src heap enc len call]
    show ?thesis
    proof (cases "ret \<le> 0")
      case neg: True
      show ?thesis using op True seal(1) [OF neg] by (simp add: sc_put_data_def put_frame_def put_spec_def)
    next
      case False
      then obtain b where b: "sc_seal env src enc msg = Some (Inr b)" "sc_node_ok b" "bb_owner b"
        using seal(2) by auto
      have "sent_ok (length (bb_bytes b)) res" using res True b(1) by (simp add: sc_frame_def)
      from sc_put_data_i_buf_view [OF wf b(2,3) this] show ?thesis
        using op True b(1) by (simp add: sc_put_data_def put_frame_def)
    qed
  qed
qed

lemma sc_put_data_buf_view:
  assumes wf: "sc_wf st" and heap: "heap_total env" and src: "source_ok k src" and enc: "cipher_ok enc"
    and b: "bb_wf b" "bb_owner b" and len: "length (bb_bytes b) + 32 < 2 ^ 31"
    and res: "sent_ok (length (sc_frame env src enc st (bb_bytes b))) res"
  shows "map_option put_view (sc_put_data_buf env src enc st b res) =
           Some (put_spec env st (put_frame env src enc st (bb_bytes b)) res)"
proof (cases "sc_current_status st = STATUS_OPEN \<and> sc_crypto_type st AND SL_CRYPTO_TYPE_ENCRYPT = 0")
  case True
  have "sent_ok (length (bb_bytes b)) res" using res True by (simp add: sc_frame_def)
  moreover have "sc_node_ok b" using b len by (simp add: sc_node_ok_def)
  ultimately have "map_option put_view (sc_put_data_i_buf env st b res) = Some (put_spec env st (Some (bb_bytes b)) res)"
    using b(2) by (intro sc_put_data_i_buf_view [OF wf])
  then show ?thesis using True by (simp add: sc_put_data_buf_def put_frame_def)
next
  case False
  have "mem_get (bb_data b) 0 (unat (bb_data_size b)) = Some (bb_bytes b)"
    using mem_get_bb_data [OF b(1) order_refl] unat_bb_data_size [OF b(1)] by simp
  then have "sc_put_data_buf env src enc st b res = sc_put_data env src enc st (bb_bytes b) res"
    using False by (auto simp: sc_put_data_buf_def sc_put_data_def)
  then show ?thesis using sc_put_data_view [OF wf heap src enc len res] by simp
qed

text \<open>
  The states a connection can reach, with the bytes accepted and the bytes on the wire so
  far.  The clock, the parameters and the results of the socket may differ in every step.
  \<^verbatim>\<open>clear_control\<close> throws the queues away: as many bytes as are pending are taken off
  the end of the accepted ones.  Every call is one step: \<^verbatim>\<open>put_data\<close> holds
  \<^verbatim>\<open>mutex_\<close>, and flushes and passes are those of the one send thread of the connection;
  that the code also looks at the two queues outside the lock is not modelled.
\<close>

inductive sc_reach ::
  "socket_source \<Rightarrow> cipher \<Rightarrow> byte list \<Rightarrow> byte list \<Rightarrow> send_control \<Rightarrow> bool"
  for src enc
where
  reach_open: "sc_reach src enc [] [] (sc_init_control env st)"
| reach_put: "sc_reach src enc acc wire st \<Longrightarrow> heap_total env \<Longrightarrow> length msg + 32 < 2 ^ 31 \<Longrightarrow>
    sent_ok (length (sc_frame env src enc st msg)) res \<Longrightarrow>
    sc_put_data env src enc st msg res = Some (ret, st', sent, woken) \<Longrightarrow>
    sc_reach src enc (acc @ (if ret < 0 then [] else sc_frame env src enc st msg)) (wire @ sent) st'"
| reach_put_buf: "sc_reach src enc acc wire st \<Longrightarrow> heap_total env \<Longrightarrow> bb_wf b \<Longrightarrow> bb_owner b \<Longrightarrow>
    length (bb_bytes b) + 32 < 2 ^ 31 \<Longrightarrow>
    sent_ok (length (sc_frame env src enc st (bb_bytes b))) res \<Longrightarrow>
    sc_put_data_buf env src enc st b res = Some (ret, st', sent, woken) \<Longrightarrow>
    sc_reach src enc (acc @ (if ret < 0 then [] else sc_frame env src enc st (bb_bytes b))) (wire @ sent) st'"
| reach_flush: "sc_reach src enc acc wire st \<Longrightarrow>
    sent_ok (length (sc_iov (sc_node_count env (sc_swap st)) (sc_queue_active (sc_swap st)))) res \<Longrightarrow>
    sc_write_data env st now res = Some (wr, st', sent, idle) \<Longrightarrow>
    sc_reach src enc acc (wire @ sent) st'"
| reach_scan: "sc_reach src enc acc wire st \<Longrightarrow>
    sent_ok (length (sc_iov (sc_node_count env (sc_swap st)) (sc_queue_active (sc_swap st)))) res \<Longrightarrow>
    sc_scan env now known st res = Some (Some st', sent, success) \<Longrightarrow>
    sc_reach src enc acc (wire @ sent) st'"
| reach_message: "sc_reach src enc acc wire st \<Longrightarrow>
    sc_handle_message env src dec st data = Some (r, st') \<Longrightarrow> sc_reach src enc acc wire st'"
| reach_clear: "sc_reach src enc acc wire st \<Longrightarrow>
    sc_reach src enc (take (length acc - length (sc_pending st)) acc) wire (sc_clear_control env st)"
| reach_handle_close: "sc_reach src enc acc wire st \<Longrightarrow> sc_reach src enc acc wire (snd (sc_handle_close st))"
| reach_close_wait: "sc_reach src enc acc wire st \<Longrightarrow> sc_reach src enc acc wire (sc_close_wait st)"
| reach_crypto: "sc_reach src enc acc wire st \<Longrightarrow> sc_reach src enc acc wire (st\<lparr>sc_crypto_type := c\<rparr>)"

lemma sc_queues_keep [simp]:
  "sc_wf (st\<lparr>sc_crypto_type := c\<rparr>) = sc_wf st" "sc_pending (st\<lparr>sc_crypto_type := c\<rparr>) = sc_pending st"
  "sc_wf (sc_close_wait st) = sc_wf st" "sc_pending (sc_close_wait st) = sc_pending st"
  "sc_wf (sc_del_handle known st) = sc_wf st" "sc_pending (sc_del_handle known st) = sc_pending st"
  by (auto simp: sc_close_wait_def sc_del_handle_def sc_handle_close_def sc_wf_def sc_pending_def)

lemma sc_scan_conserves:
  assumes wf: "sc_wf st" and scan: "sc_scan env now known st res = Some (Some st', sent, success)"
    and res: "sent_ok (length (sc_iov (sc_node_count env (sc_swap st)) (sc_queue_active (sc_swap st)))) res"
  shows "sc_wf st' \<and> sent @ sc_pending st' = sc_pending st"
proof -
  obtain ret st1 sent1 idle where w: "sc_write_data env st now res = Some (ret, st1, sent1, idle)"
      "sc_wf st1" "sent1 @ sc_pending st1 = sc_pending st"
    using sc_write_data_ok [OF wf res, of now] by (auto simp: write_ok_def)
  then show ?thesis using scan wf
    by (auto simp: sc_scan_def Let_def split: socket_status.splits if_splits)
qed

lemma sc_reach_inv:
  assumes "sc_reach src enc acc wire st" and src: "source_ok k src" and enc: "cipher_ok enc"
  shows "sc_wf st \<and> wire @ sc_pending st = acc"
  using assms(1)
proof induction
  case (reach_open env st)
  then show ?case by (simp add: sc_init_control_def sc_wf_def sc_pending_def)
next
  case (reach_put acc wire st env msg res ret st' sent woken)
  then show ?case using sc_put_data_ok [OF _ reach_put(2) src enc reach_put(3,4)]
    by (auto simp: put_ok_def)
next
  case (reach_put_buf acc wire st env b res ret st' sent woken)
  then show ?case using sc_put_data_buf_ok [OF _ reach_put_buf(2) src enc reach_put_buf(3-6)]
    by (auto simp: put_ok_def)
next
  case (reach_flush acc wire st env res now wr st' sent idle)
  then show ?case using sc_write_data_ok [OF _ reach_flush(2), of now] by (auto simp: write_ok_def)
next
  case (reach_scan acc wire st env res now known st' sent success)
  have wf: "sc_wf st" and acc: "wire @ sc_pending st = acc" using reach_scan.IH by simp_all
  have "sc_wf st' \<and> sent @ sc_pending st' = sc_pending st"
    by (rule sc_scan_conserves [OF wf reach_scan.hyps(3,2)])
  then show ?case using acc by simp
next
  case (reach_message acc wire st env dec data r st')
  have "st' = st\<lparr>sc_last_update := se_now env\<rparr>" using reach_message.hyps(2)
    by (auto simp: sc_handle_message_def Let_def split: if_splits option.splits bind_splits prod.splits)
  then show ?case using reach_message.IH by simp
next
  case (reach_clear acc wire st env)
  then show ?case by (auto simp: sc_clear_control_def sc_wf_def sc_pending_def)
next
  case (reach_handle_close acc wire st)
  then show ?case by (simp add: sc_handle_close_def)
next
  case (reach_close_wait acc wire st)
  then show ?case by simp
next
  case (reach_crypto acc wire st c)
  then show ?case by simp
qed

section \<open>Properties\<close>

text \<open>C5: In every reachable state of a connection the bytes on the wire followed by the bytes still
  queued are exactly the bytes accepted (messages, or their sealed frames on an encrypted
  connection), in order: nothing is lost, repeated or reordered, over any sequence of \<^verbatim>\<open>put_data\<close>
  calls of both kinds, flushes, passes of the manager, received messages, closings and changes of
  the encryption, with any partial sends; a \<^verbatim>\<open>clear_control\<close> drops exactly what is queued at that
  time.  The conditions, which are premises of the steps: calls follow one another, messages are
  shorter than \<open>2 ^ 31 - 32\<close> bytes, a buffer given to \<^verbatim>\<open>put_data\<close> owns its block, the allocator
  answers, the socket reports at most the bytes it was given, the length codec is one of the
  five of the library and the cipher stays within its room.\<close>

theorem send_conserves:
  assumes "sc_reach src enc acc wire st" "source_ok k src" "cipher_ok enc"
  shows "sc_wf st \<and> wire @ sc_pending st = acc"
  using sc_reach_inv [OF assms] .

definition demo_env :: send_env where
  "demo_env = \<lparr>se_heap = \<lparr>heap_ok = \<lambda>_. True, heap_junk = \<lambda>_. 0\<rparr>,
     se_errnos = \<lparr>SL_EAGAIN = 11, SL_EWOULDBLOCK = 11, SL_EINTR = 4, SL_IO_PENDING = 11, SL_ENOBUFS = 105\<rparr>,
     se_now = 5000, se_direct_send = True, se_send_delaytime = 1000, se_keepalive_time = 120000000,
     se_close_delaytime = 5000000, se_iovec_count = 1024\<rparr>"

definition demo_conn :: send_control where
  "demo_conn = \<lparr>sc_queue_active = [], sc_queue_standby = [], sc_current_status = STATUS_CLOSE,
     sc_next_status = STATUS_CLOSE, sc_last_errno = 0, sc_last_update = 0, sc_last_fail = 0,
     sc_crypto_type = 0\<rparr>"

definition xor_cipher :: cipher where
  "xor_cipher msg room =
     (if int (length msg) \<le> room then (int (length msg), map (\<lambda>b. b XOR 0x5A) msg) else (- 1, []))"

lemma xor_cipher_ok: "cipher_ok xor_cipher"
  by (simp add: cipher_ok_def xor_cipher_def)

lemma demo_env_heap: "heap_total demo_env"
  by (simp add: heap_total_def demo_env_def)

lemma default_source_ok: "source_ok Len_int16_host default_source"
  by (simp add: source_ok_def default_source_def)

lemma demo_put:
  "sc_put_data demo_env default_source xor_cipher (sc_init_control demo_env demo_conn) [1, 2, 3] (3, 0) =
     Some (1, (sc_init_control demo_env demo_conn)\<lparr>sc_last_update := 5000\<rparr>, [1, 2, 3], False)"
  by (simp add: sc_put_data_def sc_put_data_i_def sc_direct_def sc_init_control_def demo_env_def
      SL_CRYPTO_TYPE_NOCRYPT_def)

lemma demo_reach:
  "sc_reach default_source xor_cipher ([] @ [1, 2, 3]) ([] @ [1, 2, 3])
     ((sc_init_control demo_env demo_conn)\<lparr>sc_last_update := 5000\<rparr>)"
proof -
  have fr: "sc_frame demo_env default_source xor_cipher (sc_init_control demo_env demo_conn) [1, 2, 3] = [1, 2, 3]"
    by (simp add: sc_frame_def sc_init_control_def SL_CRYPTO_TYPE_NOCRYPT_def)
  show ?thesis
    using sc_reach.reach_put [OF sc_reach.reach_open demo_env_heap _ _ demo_put] unfolding fr
    by (simp add: sent_ok_def)
qed

theorem send_conserves_witness:
  "sc_wf ((sc_init_control demo_env demo_conn)\<lparr>sc_last_update := 5000\<rparr>) \<and>
   ([] @ [1, 2, 3]) @ sc_pending ((sc_init_control demo_env demo_conn)\<lparr>sc_last_update := 5000\<rparr>) = [] @ [1, 2, 3]"
  by (rule send_conserves [OF demo_reach default_source_ok xor_cipher_ok])

text \<open>C6: In every reachable state both overloads of \<^verbatim>\<open>put_data\<close> do, for the same message and the same
  answer of the socket, exactly what \<open>put_spec\<close> says of its frame.  No frame (connection not open,
  cipher failed): \<open>-1\<close>, nothing changes.  No direct send possible: \<open>0\<close>, the frame is queued behind
  everything before it and the send thread woken.  All of it sent: \<open>1\<close>, nothing queued, nobody woken.
  Part of it sent: \<open>0\<close>, exactly the rest is queued and the thread woken.  The socket would block: \<open>0\<close>,
  all of it queued, the failure time set.  Any other error: \<open>-1\<close>, nothing queued, the error number
  recorded and the status \<^verbatim>\<open>STATUS_CLOSE_SEND\<close>.  Conditions: a message shorter than \<open>2 ^ 31 - 32\<close>
  bytes, a buffer that owns its block, an allocator that answers, a socket that reports at most the
  bytes it was given, a length codec of the library, a cipher that stays within its room.\<close>

theorem put_data_outcome:
  assumes "sc_reach src enc acc wire st" "source_ok k src" "cipher_ok enc" "heap_total env"
    and "length msg + 32 < 2 ^ 31" "sent_ok (length (sc_frame env src enc st msg)) res"
    and "bb_wf b" "bb_owner b" "bb_bytes b = msg"
  shows "map_option put_view (sc_put_data env src enc st msg res) =
           Some (put_spec env st (put_frame env src enc st msg) res) \<and>
         map_option put_view (sc_put_data_buf env src enc st b res) =
           Some (put_spec env st (put_frame env src enc st msg) res)"
proof -
  have "sc_wf st" using sc_reach_inv [OF assms(1-3)] by blast
  then show ?thesis
    using sc_put_data_view [OF _ assms(4,2,3,5,6)] sc_put_data_buf_view [OF _ assms(4,2,3,7,8)] assms(5,6)
    unfolding assms(9) by blast
qed

theorem put_data_outcome_witness:
  "map_option put_view
     (sc_put_data demo_env default_source xor_cipher (sc_init_control demo_env demo_conn) [7, 8] (1, 0)) =
       Some (put_spec demo_env (sc_init_control demo_env demo_conn)
         (put_frame demo_env default_source xor_cipher (sc_init_control demo_env demo_conn) [7, 8]) (1, 0)) \<and>
   map_option put_view
     (sc_put_data_buf demo_env default_source xor_cipher (sc_init_control demo_env demo_conn)
        \<lparr>bb_buffer = Some [7, 8], bb_buffer_size = 2, bb_data_begin = 0, bb_data_end = 2, bb_owner = True\<rparr> (1, 0)) =
       Some (put_spec demo_env (sc_init_control demo_env demo_conn)
         (put_frame demo_env default_source xor_cipher (sc_init_control demo_env demo_conn) [7, 8]) (1, 0))"
  by (rule put_data_outcome [OF sc_reach.reach_open default_source_ok xor_cipher_ok demo_env_heap])
     (simp_all add: sent_ok_def sc_frame_def sc_init_control_def SL_CRYPTO_TYPE_NOCRYPT_def
       bb_wf_def bb_bytes_def window_def)

lemma put_data_outcome_demo:
  "put_spec demo_env (sc_init_control demo_env demo_conn) (Some [7, 8]) (1, 0) =
     (0, [7], [8], True, STATUS_OPEN, 0, 5000, 0)"
  by (simp add: put_spec_def sc_direct_def sc_init_control_def demo_env_def sc_pending_def)

text \<open>C7: What an encrypted connection accepts from \<^verbatim>\<open>put_data\<close> is a frame whose length field covers all
  of it, put on the wire or queued behind what was pending as one piece, and the receiving handler's
  \<^verbatim>\<open>handle_message\<close> hands its application exactly the message.  This holds for every cipher that
  stores at least the message and whose decryption gives the message back, with any padding
  behind it that fits the frame, as the padded blocks of \<^verbatim>\<open>SL_Crypto_AES\<close> do (\<open>aes_roundtrip\<close>, used
  in the witness).  Conditions: the message is not empty, shorter than \<open>2 ^ 31 - 32\<close> bytes, and its
  frame within the range of the length field (which the code does not check); an open sender, in a state
  that calls can reach (\<open>sc_wf\<close>), and the decrypting receiver use the same length codec, the allocator answers, the socket reports at
  most the bytes it was given.\<close>

theorem sealed_message_roundtrip:
  assumes "sc_wf st" "source_ok k src" "heap_total env" "cipher_ok enc" "length msg + 32 < 2 ^ 31" "msg \<noteq> []"
    and "sc_current_status st = STATUS_OPEN" "sc_crypto_type st AND SL_CRYPTO_TYPE_ENCRYPT \<noteq> 0"
    and "sent_ok (length (sc_frame env src enc st msg)) res"
    and call: "enc msg (int (length msg) + 32 - int (msglen_hdr k)) = (ret, out)" "int (length (msg @ pad)) \<le> ret"
    and dec: "\<And>room. ret \<le> room \<Longrightarrow> room < 2 ^ 31 \<Longrightarrow>
                dec (take (nat ret) out) room = (int (length msg), msg @ pad)"
    and "heap_total env'" "source_ok k src'"
    and dt: "sc_crypto_type st2 AND SL_CRYPTO_TYPE_DECRYPT \<noteq> 0" and max: "ret + int (msglen_hdr k) \<le> msglen_max k"
  shows "\<exists>frame r st' sent woken. sc_put_data env src enc st msg res = Some (r, st', sent, woken) \<and>
           sent @ sc_pending st' = sc_pending st @ (if r < 0 then [] else frame) \<and>
           msglen_get k frame = Some (int (length frame)) \<and>
           sc_handle_message env' src' dec st2 frame = Some (Inr msg, st2\<lparr>sc_last_update := se_now env'\<rparr>)"
proof -
  have pos: "0 < ret" using assms(6) call(2) by (cases msg) auto
  obtain b h where b: "sc_seal env src enc msg = Some (Inr b)" "sc_node_ok b" "length h = msglen_hdr k"
      "bb_bytes b = h @ take (nat ret) out" "nat ret \<le> length out"
      "msglen_get k (bb_bytes b) = Some (int (length (bb_bytes b)))"
    using sc_seal_spec(2) [OF assms(2-5) call(1) pos] max by blast
  have fr: "sc_frame env src enc st msg = bb_bytes b" using assms(8) b(1) by (simp add: sc_frame_def)
  obtain r st' sent woken where put: "sc_put_data env src enc st msg res = Some (r, st', sent, woken)"
      "sent @ sc_pending st' = sc_pending st @ (if r < 0 then [] else bb_bytes b)"
    using sc_put_data_ok [OF assms(1,3,2,4,5,9)] unfolding fr put_ok_def by blast
  let ?n = "length (bb_bytes b)" and ?d = "msg @ pad"
  have n: "?n = msglen_hdr k + nat ret" "length ?d \<le> ?n" using b(3-5) call(2) pos by simp_all
  have small: "?n < 2 ^ 31" using b(2) by (simp add: sc_node_ok_def)
  then have "heap_ok (se_heap env') ?n" using assms(13) by (simp add: heap_total_def)
  from bb_new_size_ok [OF this] small
  obtain m where m: "length m = ?n" "bb_new_size (se_heap env') (to_uint (int ?n)) =
      \<lparr>bb_buffer = Some m, bb_buffer_size = to_uint (int ?n), bb_data_begin = 0, bb_data_end = 0, bb_owner = True\<rparr>"
    by auto
  have hd: "unat (ss_msglen_bytes src') = msglen_hdr k" using assms(14) by (simp add: source_ok_def)
  have "drop (msglen_hdr k) (bb_bytes b) = take (nat ret) out" using b(3,4) by simp
  moreover have "dec (take (nat ret) out) (int ?n) = (int (length msg), ?d)"
    using n(1) pos small by (intro dec) simp_all
  moreover have "mem_put m 0 ?d = Some (?d @ drop (length ?d) m)"
    using m(1) n(2) mem_put_front [of ?d m] by simp
  moreover have "mem_get (?d @ drop (length ?d) m) 0 (length msg) = Some msg"
    unfolding append_assoc by (rule mem_get_prefix) simp
  moreover have "\<not> int ?n < int (msglen_hdr k)" using n(1) by simp
  ultimately have "sc_handle_message env' src' dec st2 (bb_bytes b) =
      Some (Inr msg, st2\<lparr>sc_last_update := se_now env'\<rparr>)"
    using dt assms(6) m(2) hd by (simp add: sc_handle_message_def Let_def)
  then show ?thesis using put b(6) by blast
qed

text \<open>A pair of block functions in the place of the AES ones.\<close>

definition demo_block :: "byte list \<Rightarrow> byte list" where
  "demo_block b = rev (map (\<lambda>x. x XOR 0x5A) b)"

lemma demo_block_pair: "block_pair demo_block demo_block"
  by (simp add: block_pair_def demo_block_def rev_map comp_def xor.assoc)

lemma demo_aes_ok: "cipher_ok (aes_encrypt demo_block)"
  using aes_cipher_ok [OF demo_block_pair] .

lemma demo_aes:
  "aes_encrypt demo_block [1, 2] 32 = (17, 14 # demo_block ([1, 2] @ replicate 14 0))"
  "17 \<le> room \<Longrightarrow> room < 2 ^ 31 \<Longrightarrow>
     aes_decrypt demo_block (14 # demo_block ([1, 2] @ replicate 14 0)) room = (2, [1, 2] @ replicate 14 0)"
proof -
  have p: "padded 2 = 16" "padded (Suc (Suc 0)) = 16" by (simp_all add: padded_def)
  have pd: "aes_padded [1, 2] = [1, 2] @ replicate 14 0" by (simp add: aes_padded_def p)
  have bl: "aes_blocks f 1 xs = (f (take 16 xs), drop 16 xs)" for f xs
    by (simp add: aes_blocks.simps)
  show "aes_encrypt demo_block [1, 2] 32 = (17, 14 # demo_block ([1, 2] @ replicate 14 0))"
    by (subst aes_encrypt_eq) (simp_all add: p pd bl [unfolded One_nat_def])
  have len: "length (demo_block ([1, 2] @ replicate 14 0)) = 16" by (simp add: demo_block_def)
  have undo: "demo_block (demo_block ([1, 2] @ replicate 14 0)) = [1, 2] @ replicate 14 0"
    using demo_block_pair by (simp add: block_pair_def)
  show "aes_decrypt demo_block (14 # demo_block ([1, 2] @ replicate 14 0)) room = (2, [1, 2] @ replicate 14 0)"
    if "17 \<le> room" "room < 2 ^ 31"
    using aes_decrypt_eq [of 16 "demo_block ([1, 2] @ replicate 14 0)" room 14 demo_block] that len undo
      bl [unfolded One_nat_def, of demo_block "demo_block ([1, 2] @ replicate 14 0)"]
    by simp
qed

theorem sealed_message_roundtrip_witness:
  "\<exists>frame r st' sent woken.
     sc_put_data demo_env default_source (aes_encrypt demo_block)
       ((sc_init_control demo_env demo_conn)\<lparr>sc_crypto_type := 3\<rparr>) [1, 2] (4, 0) = Some (r, st', sent, woken) \<and>
     sent @ sc_pending st' = sc_pending ((sc_init_control demo_env demo_conn)\<lparr>sc_crypto_type := 3\<rparr>) @
       (if r < 0 then [] else frame) \<and>
     msglen_get Len_int16_host frame = Some (int (length frame)) \<and>
     sc_handle_message demo_env default_source (aes_decrypt demo_block) (demo_conn\<lparr>sc_crypto_type := 3\<rparr>) frame =
       Some (Inr [1, 2], demo_conn\<lparr>sc_crypto_type := 3, sc_last_update := se_now demo_env\<rparr>)"
proof -
  let ?st = "(sc_init_control demo_env demo_conn)\<lparr>sc_crypto_type := 3\<rparr>" and ?enc = "aes_encrypt demo_block"
  let ?out = "14 # demo_block ([1, 2] @ replicate 14 0)"
  have room: "int (length [1, 2 :: byte]) + 32 - int (msglen_hdr Len_int16_host) = 32" by simp
  have tk: "take (nat 17) ?out = ?out" by (simp add: demo_block_def)
  have crypt: "sc_crypto_type ?st AND SL_CRYPTO_TYPE_ENCRYPT \<noteq> 0"
    "sc_crypto_type (demo_conn\<lparr>sc_crypto_type := 3\<rparr>) AND SL_CRYPTO_TYPE_DECRYPT \<noteq> 0"
    by (simp_all add: SL_CRYPTO_TYPE_ENCRYPT_def SL_CRYPTO_TYPE_DECRYPT_def)
  have wf: "sc_wf ?st" "sc_current_status ?st = STATUS_OPEN" by (simp_all add: sc_init_control_def sc_wf_def)
  have call: "?enc [1, 2] (int (length [1, 2 :: byte]) + 32 - int (msglen_hdr Len_int16_host)) = (17, ?out)"
    unfolding room by (rule demo_aes(1))
  obtain b h where b: "sc_seal demo_env default_source ?enc [1, 2] = Some (Inr b)"
      "length h = msglen_hdr Len_int16_host" "bb_bytes b = h @ take (nat 17) ?out"
    using sc_seal_spec(2) [OF default_source_ok demo_env_heap demo_aes_ok _ call] by auto
  have sent: "sent_ok (length (sc_frame demo_env default_source ?enc ?st [1, 2])) (4, 0)"
    using crypt(1) b by (simp add: sc_frame_def sent_ok_def demo_block_def)
  show ?thesis
    using sealed_message_roundtrip [OF wf(1) default_source_ok demo_env_heap demo_aes_ok _ _ wf(2) crypt(1) sent call,
        of "replicate 14 0" "aes_decrypt demo_block" demo_env default_source "demo_conn\<lparr>sc_crypto_type := 3\<rparr>"]
      demo_aes(2) crypt(2) default_source_ok demo_env_heap
    unfolding tk by simp
qed

text \<open>
  \<^verbatim>\<open>write_data\<close> reports success although part of the last node is still queued:
  the loop leaves at the last node both when it has been sent completely and when it has been sent
  in part, and only the node number is tested.  The failure time is cleared, so the next pass does
  not wait \<^verbatim>\<open>send_delaytime\<close>.\<close>

theorem write_data_partial_success:
  assumes "sc_wf st" "sc_queue_active st = q @ [b]" "int (length q) < se_iovec_count env"
    and "int (length (sc_bytes q)) < r" "r < int (length (sc_bytes (q @ [b])))"
  shows "\<exists>st' sent. sc_write_data env st now (r, e) = Some (WRITE_RETURN_SEND_SUCCESS, st', sent, False) \<and>
           sc_queue_active st' \<noteq> [] \<and> sc_pending st' \<noteq> [] \<and> sc_last_fail st' = 0"
proof -
  have pop: "\<exists>b'. sc_pop (i + int (length q)) i r (q @ [b]) = Some (i + int (length q), [b']) \<and> bb_bytes b' \<noteq> []"
    if "list_all sc_node_ok (q @ [b])" "int (length (sc_bytes q)) < r" "r < int (length (sc_bytes (q @ [b])))" for i r
    using that
  proof (induction q arbitrary: i r)
    case Nil
    then have b: "sc_node_ok b" "0 \<le> r" "r < int (length (bb_bytes b))" by simp_all
    then show ?case using bb_set_begin_ok [of b r] sint_bb_data_size [of b] by simp
  next
    case (Cons a q)
    have r: "int (length (bb_bytes a)) < r" using Cons.prems(2) by simp
    have "\<exists>b'. sc_pop ((i + 1) + int (length q)) (i + 1) (r - int (length (bb_bytes a))) (q @ [b]) =
        Some ((i + 1) + int (length q), [b']) \<and> bb_bytes b' \<noteq> []"
      using Cons.prems by (intro Cons.IH) simp_all
    then show ?case using r sint_bb_data_size [of a] Cons.prems(1) by (simp add: algebra_simps)
  qed
  have ok: "list_all sc_node_ok (q @ [b])" using assms(1,2) by (simp add: sc_wf_def)
  from pop [OF ok assms(4,5), of 1]
  obtain b' where b': "sc_pop (1 + int (length q)) 1 r (q @ [b]) = Some (1 + int (length q), [b'])" "bb_bytes b' \<noteq> []"
    by blast
  have sw: "sc_swap st = st" using assms(2) by (simp add: sc_swap_def)
  have nc: "sc_node_count env st = 1 + int (length q)" using assms(2,3) by (simp add: sc_node_count_def)
  have r: "r > 0" using assms(4) by simp
  show ?thesis using b' r assms(2) by (simp add: sc_write_data_alt Let_def sw nc sc_pending_bytes)
qed

lemma demo_node:
  "bb_bytes \<lparr>bb_buffer = Some [1, 2, 3], bb_buffer_size = 3, bb_data_begin = 0, bb_data_end = 3, bb_owner = True\<rparr> =
     [1, 2, 3]"
  "sc_node_ok \<lparr>bb_buffer = Some [1, 2, 3], bb_buffer_size = 3, bb_data_begin = 0, bb_data_end = 3, bb_owner = True\<rparr>"
  by (simp_all add: sc_node_ok_def bb_wf_def bb_bytes_def window_def)

theorem write_data_partial_success_witness:
  "\<exists>st' sent. sc_write_data demo_env (demo_conn\<lparr>sc_queue_active :=
         [\<lparr>bb_buffer = Some [1, 2, 3], bb_buffer_size = 3, bb_data_begin = 0, bb_data_end = 3, bb_owner = True\<rparr>]\<rparr>)
       9 (2, 0) = Some (WRITE_RETURN_SEND_SUCCESS, st', sent, False) \<and>
     sc_queue_active st' \<noteq> [] \<and> sc_pending st' \<noteq> [] \<and> sc_last_fail st' = 0"
  by (rule write_data_partial_success [where q = "[]" and b = "\<lparr>bb_buffer = Some [1, 2, 3], bb_buffer_size = 3,
       bb_data_begin = 0, bb_data_end = 3, bb_owner = True\<rparr>"])
     (simp_all add: demo_conn_def demo_env_def sc_wf_def demo_node)

text \<open>
  A buffer that has been queued on one connection loses the ownership of its block, so giving
  the same buffer to a second connection is accepted with \<open>0\<close> but queues an empty node: the message
  never reaches the second peer, and when the empty node is flushed on its own the \<open>0\<close> bytes that
  \<^verbatim>\<open>writev\<close> reports close the connection.\<close>

theorem put_data_moved_buffer:
  assumes "sc_current_status st = STATUS_OPEN" "sc_crypto_type st AND SL_CRYPTO_TYPE_ENCRYPT = 0"
    and "\<not> sc_direct env st" "bb_owner b"
  shows "\<exists>st'. sc_put_data_buf env src enc st (snd (bb_copy b)) res = Some (0, st', [], True) \<and>
           sc_pending st' = sc_pending st \<and>
           (sc_pending st = [] \<and> sc_queue_active st = [] \<and> sc_queue_standby st = [] \<longrightarrow>
              \<not> send_would_block (se_errnos env) 0 \<longrightarrow>
              (\<exists>st2. sc_write_data env st' now (0, 0) = Some (WRITE_RETURN_SEND_FAIL, st2, [], False) \<and>
                     sc_current_status st2 = STATUS_CLOSE_SEND))"
proof -
  let ?b = "snd (bb_copy b)"
  have e: "bb_bytes (fst (bb_copy ?b)) = []" using assms(4) by (simp add: bb_copy_def bb_bytes_def window_def)
  have put: "sc_put_data_buf env src enc st ?b res = Some (0, sc_push st ?b, [], True)"
    using assms(1-3) by (simp add: sc_put_data_buf_def sc_put_data_i_buf_def Let_def split: prod.splits)
  have pend: "sc_pending (sc_push st ?b) = sc_pending st" using e by (simp add: sc_push_def sc_pending_def)
  show ?thesis using put pend
    by (simp add: sc_write_data_alt Let_def) (simp add: sc_swap_def sc_push_def)
qed

theorem put_data_moved_buffer_witness:
  "\<exists>st'. sc_put_data_buf (demo_env\<lparr>se_direct_send := False\<rparr>) default_source xor_cipher
       (sc_init_control demo_env demo_conn)
       (snd (bb_copy \<lparr>bb_buffer = Some [1, 2, 3], bb_buffer_size = 3, bb_data_begin = 0, bb_data_end = 3,
               bb_owner = True\<rparr>)) (3, 0) = Some (0, st', [], True) \<and>
     sc_pending st' = sc_pending (sc_init_control demo_env demo_conn) \<and>
     (sc_pending (sc_init_control demo_env demo_conn) = [] \<and>
      sc_queue_active (sc_init_control demo_env demo_conn) = [] \<and>
      sc_queue_standby (sc_init_control demo_env demo_conn) = [] \<longrightarrow>
      \<not> send_would_block (se_errnos (demo_env\<lparr>se_direct_send := False\<rparr>)) 0 \<longrightarrow>
      (\<exists>st2. sc_write_data (demo_env\<lparr>se_direct_send := False\<rparr>) st' 9 (0, 0) =
               Some (WRITE_RETURN_SEND_FAIL, st2, [], False) \<and> sc_current_status st2 = STATUS_CLOSE_SEND))"
  by (rule put_data_moved_buffer)
     (simp_all add: sc_init_control_def SL_CRYPTO_TYPE_NOCRYPT_def sc_direct_def)

text \<open>
  The idle test subtracts time stamps without sign.  A send thread other than the first works
  with the time it read at the start of its pass, while direct sends and received messages store the
  newer global time: the difference wraps and an active connection is closed with
  \<^verbatim>\<open>ERROR_KEEPALIVE_TIMEOUT\<close>.\<close>

theorem keepalive_closes_active:
  assumes "sc_current_status st = STATUS_OPEN" "sc_queue_active st = []" "sc_queue_standby st = []"
    and "se_keepalive_time env > 0"
    and "sc_last_update st = now + d" "d \<noteq> 0" "unat d \<le> 2 ^ 63"
  shows "\<exists>st'. sc_scan env now known st res = Some (Some st', [], False) \<and>
           sc_current_status st' = STATUS_CLOSE \<and> sc_last_errno st' = ERROR_KEEPALIVE_TIMEOUT"
proof -
  have "unat (d + - d) = 0" by simp
  then have "(unat d + unat (- d)) mod 2 ^ 64 = 0" unfolding unat_word_ariths(1) by simp
  moreover have "0 < unat d" using assms(6) by (simp add: unat_gt_0)
  ultimately have "2 ^ 63 \<le> unat (- d)" using assms(7) by (cases "unat d + unat (- d) < 2 ^ 64") simp_all
  moreover have "unat (ucast (se_keepalive_time env) :: uint64) < 4294967296"
    by (rule le_less_trans [OF _ unat_lt32 [of "se_keepalive_time env"]])
       (simp add: unsigned_ucast_eq take_bit_nat_less_eq_self)
  ultimately have "unat (ucast (se_keepalive_time env) :: uint64) < unat (- d)" by simp
  then have "now - sc_last_update st > ucast (se_keepalive_time env)"
    unfolding assms(5) by (simp add: word_less_nat_alt)
  then show ?thesis
    using assms(1-4) by (auto simp: sc_scan_def sc_write_data_def sc_del_handle_def sc_handle_close_def Let_def)
qed

theorem keepalive_closes_active_witness:
  "\<exists>st'. sc_scan demo_env 4000 True ((sc_init_control demo_env demo_conn)\<lparr>sc_last_update := 4000 + 1\<rparr>) (0, 0) =
       Some (Some st', [], False) \<and>
     sc_current_status st' = STATUS_CLOSE \<and> sc_last_errno st' = ERROR_KEEPALIVE_TIMEOUT"
  by (rule keepalive_closes_active [where d = 1]) (simp_all add: sc_init_control_def demo_env_def)

end
