(* ===== verification/SL_Varint.thy ===== *)
theory SL_Varint
  imports SL_SocketSource
begin

text \<open>
  The variable-length integers of the Thrift compact protocol
  (\<^verbatim>\<open>include/SL_Rpc_Thrift_CompactProtocol.h\<close>): the unrolled encoders and decoders for 32 and
  64 bits and the zigzag maps.  The contract is the plain loop that the source quotes in its
  comments as the common implementation; the unrolled routines are proved equal to it, and
  the loop is proved to round-trip.
\<close>

section \<open>The common implementation\<close>

function varint_common :: "'a::len word \<Rightarrow> byte list" where
  "varint_common n =
     (if n \<le> 0x7F then [ucast n] else (ucast n OR 0x80) # varint_common (drop_bit 7 n))"
  by pat_completeness auto
termination
proof (relation "measure unat")
  fix n :: "'a word"
  assume "\<not> n \<le> 0x7F"
  then have "n \<noteq> 0" by (auto simp: word_le_def)
  then have "0 < unat n" by (simp add: unat_gt_0)
  moreover have "unat (drop_bit 7 n) = drop_bit 7 (unat n)"
    by (rule bit_eqI) (auto simp: bit_simps dest: bit_imp_le_length)
  then have "unat (drop_bit 7 n) = unat n div 128" by (simp add: drop_bit_eq_div)
  ultimately show "(drop_bit 7 n, n) \<in> measure unat" by simp
qed simp

declare varint_common.simps [simp del]

text \<open>
  The steps of a decoder: the byte at position \<open>n\<close> is or-ed in at bit \<open>7 * n\<close> and ends the
  number when its top bit is clear.  Running out of steps is the source's exception; a step past
  the readable bytes is \<open>Read_past_end\<close>.
\<close>

datatype thrift_error =
  BAD_VERSION | NEGATIVE_SIZE | INVALID_DATA | UNKNOWN_TYPE | Read_past_end | Empty_stack

fun varint_steps :: "nat list \<Rightarrow> byte list \<Rightarrow> 'a::len word \<Rightarrow> thrift_error + ('a word \<times> nat)" where
  "varint_steps [] bs val = Inl INVALID_DATA"
| "varint_steps (n # ns) bs val =
     (if n < length bs then
        let b = bs ! n; val = val OR push_bit (7 * n) (ucast (b AND 0x7F)) in
        if b AND 0x80 = 0 then Inr (val, n + 1) else varint_steps ns bs val
      else Inl Read_past_end)"

section \<open>The encoders\<close>

definition varint32_bytes :: "uint \<Rightarrow> byte list" where
  "varint32_bytes n =
     (if n < push_bit 7 1 then [ucast n]
      else if n < push_bit 14 1 then [ucast (n OR 0x80), ucast (drop_bit 7 n)]
      else if n < push_bit 21 1 then
        [ucast (n OR 0x80), ucast (drop_bit 7 n OR 0x80), ucast (drop_bit 14 n)]
      else if n < push_bit 28 1 then
        [ucast (n OR 0x80), ucast (drop_bit 7 n OR 0x80), ucast (drop_bit 14 n OR 0x80),
         ucast (drop_bit 21 n)]
      else
        [ucast (n OR 0x80), ucast (drop_bit 7 n OR 0x80), ucast (drop_bit 14 n OR 0x80),
         ucast (drop_bit 21 n OR 0x80), ucast (drop_bit 28 n)])"

definition varint64_size :: "uint \<Rightarrow> uint \<Rightarrow> uint \<Rightarrow> nat" where
  "varint64_size part0 part1 part2 =
     (if part2 = 0 then
        if part1 = 0 then
          if part0 < push_bit 14 1 then (if part0 < push_bit 7 1 then 1 else 2)
          else (if part0 < push_bit 21 1 then 3 else 4)
        else
          if part1 < push_bit 14 1 then (if part1 < push_bit 7 1 then 5 else 6)
          else (if part1 < push_bit 21 1 then 7 else 8)
      else (if part2 < push_bit 7 1 then 9 else 10))"

definition varint64_bytes :: "uint64 \<Rightarrow> byte list" where
  "varint64_bytes n =
     (let part0 = ucast n; part1 = ucast (drop_bit 28 n); part2 = ucast (drop_bit 56 n);
          wsize = varint64_size part0 part1 part2;
          buf = take wsize
            [ucast (part0 OR 0x80), ucast (drop_bit 7 part0 OR 0x80), ucast (drop_bit 14 part0 OR 0x80),
             ucast (drop_bit 21 part0 OR 0x80), ucast (part1 OR 0x80), ucast (drop_bit 7 part1 OR 0x80),
             ucast (drop_bit 14 part1 OR 0x80), ucast (drop_bit 21 part1 OR 0x80),
             ucast (part2 OR 0x80), ucast (drop_bit 7 part2 OR 0x80)]
      in buf[wsize - 1 := (buf ! (wsize - 1)) AND 0x7F])"

section \<open>The decoders\<close>

text \<open>
  \<^verbatim>\<open>borrowBuffer\<close> offers up to the wanted number of bytes, and fails on an empty buffer.
  The switch on that number selects the steps; the case of seven bytes runs eight.
\<close>

definition borrow_size :: "nat \<Rightarrow> byte list \<Rightarrow> thrift_error + nat" where
  "borrow_size len bs =
     (if length bs \<ge> len then Inr len else if length bs > 0 then Inr (length bs) else Inl INVALID_DATA)"

definition read_varint32 :: "byte list \<Rightarrow> thrift_error + (uint \<times> nat)" where
  "read_varint32 bs =
     (case borrow_size 5 bs of
        Inl e \<Rightarrow> Inl e
      | Inr i32_size \<Rightarrow>
          varint_steps
            (if i32_size = 5 then [0, 1, 2, 3, 4] else if i32_size = 4 then [0, 1, 2, 3]
             else if i32_size = 3 then [0, 1, 2] else if i32_size = 2 then [0, 1]
             else if i32_size = 1 then [0] else []) bs 0)"

definition varint64_join :: "uint \<Rightarrow> uint \<Rightarrow> uint \<Rightarrow> uint64" where
  "varint64_join part0 part1 part2 = ucast part0 OR push_bit 28 (ucast part1) OR push_bit 56 (ucast part2)"

text \<open>The ten-byte case, in 32-bit pieces.\<close>

definition read_varint64_split :: "byte list \<Rightarrow> thrift_error + (uint64 \<times> nat)" where
  "read_varint64_split bs =
     (let part0 = ucast (bs ! 0 AND 0x7F) in
      if bs ! 0 AND 0x80 = 0 then Inr (varint64_join part0 0 0, 1) else
      let part0 = part0 OR push_bit 7 (ucast (bs ! 1 AND 0x7F)) in
      if bs ! 1 AND 0x80 = 0 then Inr (varint64_join part0 0 0, 2) else
      let part0 = part0 OR push_bit 14 (ucast (bs ! 2 AND 0x7F)) in
      if bs ! 2 AND 0x80 = 0 then Inr (varint64_join part0 0 0, 3) else
      let part0 = part0 OR push_bit 21 (ucast (bs ! 3 AND 0x7F)) in
      if bs ! 3 AND 0x80 = 0 then Inr (varint64_join part0 0 0, 4) else
      let part1 = ucast (bs ! 4 AND 0x7F) in
      if bs ! 4 AND 0x80 = 0 then Inr (varint64_join part0 part1 0, 5) else
      let part1 = part1 OR push_bit 7 (ucast (bs ! 5 AND 0x7F)) in
      if bs ! 5 AND 0x80 = 0 then Inr (varint64_join part0 part1 0, 6) else
      let part1 = part1 OR push_bit 14 (ucast (bs ! 6 AND 0x7F)) in
      if bs ! 6 AND 0x80 = 0 then Inr (varint64_join part0 part1 0, 7) else
      let part1 = part1 OR push_bit 21 (ucast (bs ! 7 AND 0x7F)) in
      if bs ! 7 AND 0x80 = 0 then Inr (varint64_join part0 part1 0, 8) else
      let part2 = ucast (bs ! 8 AND 0x7F) in
      if bs ! 8 AND 0x80 = 0 then Inr (varint64_join part0 part1 part2, 9) else
      let part2 = part2 OR push_bit 7 (ucast (bs ! 9 AND 0x7F)) in
      if bs ! 9 AND 0x80 = 0 then Inr (varint64_join part0 part1 part2, 10) else
      Inl INVALID_DATA)"

definition read_varint64 :: "byte list \<Rightarrow> thrift_error + (uint64 \<times> nat)" where
  "read_varint64 bs =
     (case borrow_size 10 bs of
        Inl e \<Rightarrow> Inl e
      | Inr i64_size \<Rightarrow>
          if i64_size = 10 then read_varint64_split bs
          else varint_steps
            (if i64_size = 9 then [0, 1, 2, 3, 4, 5, 6, 7, 8]
             else if i64_size = 8 then [0, 1, 2, 3, 4, 5, 6, 7]
             else if i64_size = 7 then [0, 1, 2, 3, 4, 5, 6, 7]
             else if i64_size = 6 then [0, 1, 2, 3, 4, 5]
             else if i64_size = 5 then [0, 1, 2, 3, 4]
             else if i64_size = 4 then [0, 1, 2, 3]
             else if i64_size = 3 then [0, 1, 2]
             else if i64_size = 2 then [0, 1]
             else if i64_size = 1 then [0] else []) bs 0)"

section \<open>Zigzag\<close>

definition i32ToZigzag :: "uint \<Rightarrow> uint" where
  "i32ToZigzag n = push_bit 1 n XOR signed_drop_bit 31 n"

definition i64ToZigzag :: "uint64 \<Rightarrow> uint64" where
  "i64ToZigzag n = push_bit 1 n XOR signed_drop_bit 63 n"

definition zigzagToI32 :: "uint \<Rightarrow> uint" where
  "zigzagToI32 n = drop_bit 1 n XOR - (n AND 1)"

definition zigzagToI64 :: "uint64 \<Rightarrow> uint64" where
  "zigzagToI64 n = drop_bit 1 n XOR - (n AND 1)"

lemma and_1_bit: "(w :: 'a::len word) AND 1 = (if bit w 0 then 1 else 0)"
  by (rule bit_word_eqI) (auto simp: bit_and_iff bit_1_iff intro: gr0I)

lemma bit_sign_fill:
  "bit (signed_drop_bit (LENGTH('a) - 1) (n :: 'a::len word)) i \<longleftrightarrow> i < LENGTH('a) \<and> bit n (LENGTH('a) - 1)"
proof (cases "i < LENGTH('a)")
  case True
  then show ?thesis by (cases i) (simp_all add: bit_signed_drop_bit_iff)
next
  case False
  then show ?thesis using bit_imp_le_length [of "signed_drop_bit (LENGTH('a) - 1) n" i] by auto
qed

lemma zigzag_rt_gen:
  fixes n :: "'a::len word"
  assumes "1 < LENGTH('a)"
  shows "drop_bit 1 (push_bit 1 n XOR signed_drop_bit (LENGTH('a) - 1) n) XOR
           - ((push_bit 1 n XOR signed_drop_bit (LENGTH('a) - 1) n) AND 1) = n"
proof -
  let ?z = "push_bit 1 n XOR signed_drop_bit (LENGTH('a) - 1) n"
  have bz: "bit ?z i \<longleftrightarrow> i < LENGTH('a) \<and> ((1 \<le> i \<and> bit n (i - 1)) \<noteq> bit n (LENGTH('a) - 1))" for i
    unfolding bit_xor_iff bit_push_bit_iff bit_sign_fill by (auto dest: bit_imp_le_length)
  have "drop_bit 1 z XOR - (z AND 1) = n"
    if bz: "\<And>i. bit z i \<longleftrightarrow> i < LENGTH('a) \<and> ((1 \<le> i \<and> bit n (i - 1)) \<noteq> bit n (LENGTH('a) - 1))" for z
  proof -
    have z: "z AND 1 = (if bit n (LENGTH('a) - 1) then 1 else 0)"
      unfolding and_1_bit bz [of 0] using assms by simp
    have last: "Suc i < LENGTH('a) \<or> i = LENGTH('a) - 1" if "i < LENGTH('a)" for i using that by auto
    show ?thesis unfolding z
      by (rule bit_word_eqI) (use assms in \<open>auto simp: bit_xor_iff bit_drop_bit_eq bz dest: last\<close>)
  qed
  from this [OF bz] show ?thesis .
qed

lemma zigzag_tr_gen:
  fixes n :: "'a::len word"
  assumes "1 < LENGTH('a)"
  shows "push_bit 1 (drop_bit 1 n XOR - (n AND 1)) XOR
           signed_drop_bit (LENGTH('a) - 1) (drop_bit 1 n XOR - (n AND 1)) = n"
proof -
  let ?z = "drop_bit 1 n XOR - (n AND 1)"
  have bz: "bit ?z i \<longleftrightarrow> i < LENGTH('a) \<and> (bit n (i + 1) \<noteq> bit n 0)" for i
    unfolding and_1_bit by (auto simp: bit_xor_iff bit_drop_bit_eq dest: bit_imp_le_length)
  have "push_bit 1 z XOR signed_drop_bit (LENGTH('a) - 1) z = n"
    if bz: "\<And>i. bit z i \<longleftrightarrow> i < LENGTH('a) \<and> (bit n (i + 1) \<noteq> bit n 0)" for z
  proof (rule bit_word_eqI)
    fix i assume i: "i < LENGTH('a)"
    have top: "bit z (LENGTH('a) - 1) \<longleftrightarrow> bit n 0"
      unfolding bz [of "LENGTH('a) - 1"] using assms by (auto dest: bit_imp_le_length)
    show "bit (push_bit 1 z XOR signed_drop_bit (LENGTH('a) - 1) z) i \<longleftrightarrow> bit n i"
      unfolding bit_xor_iff bit_push_bit_iff bit_sign_fill top using i bz [of "i - 1"] by (cases i) auto
  qed
  from this [OF bz] show ?thesis .
qed

text \<open>The value: non-negative numbers go to the even, negative ones to the odd numbers.\<close>

lemma zigzag32_rt: "zigzagToI32 (i32ToZigzag n) = n" "i32ToZigzag (zigzagToI32 n) = n"
  using zigzag_rt_gen [of n] zigzag_tr_gen [of n] by (simp_all add: zigzagToI32_def i32ToZigzag_def)

lemma zigzag64_rt: "zigzagToI64 (i64ToZigzag m) = m" "i64ToZigzag (zigzagToI64 m) = m"
  using zigzag_rt_gen [of m] zigzag_tr_gen [of m] by (simp_all add: zigzagToI64_def i64ToZigzag_def)

section \<open>The loop round-trips\<close>

lemma unat_drop_bit: "unat (drop_bit k (n :: 'a::len word)) = unat n div 2 ^ k"
proof -
  have "unat (drop_bit k n) = drop_bit k (unat n)"
    by (rule bit_eqI) (auto simp: bit_simps dest: bit_imp_le_length)
  then show ?thesis by (simp add: drop_bit_eq_div)
qed

lemma unat_7F: "8 \<le> LENGTH('a) \<Longrightarrow> unat (0x7F :: 'a::len word) = 127"
proof -
  assume "8 \<le> LENGTH('a)"
  then have "(2 :: nat) ^ 8 \<le> 2 ^ LENGTH('a)" by (rule power_increasing) simp
  then show ?thesis unfolding unat_numeral take_bit_nat_def by (intro mod_less) simp
qed

lemma drop_bit_le_7F:
  "8 \<le> LENGTH('a) \<Longrightarrow> drop_bit k (n :: 'a::len word) \<le> 0x7F \<longleftrightarrow> unat n < 2 ^ (k + 7)"
proof -
  assume "8 \<le> LENGTH('a)"
  then have "drop_bit k n \<le> 0x7F \<longleftrightarrow> unat n div 2 ^ k \<le> 127"
    unfolding word_le_nat_alt unat_drop_bit by (simp only: unat_7F)
  also have "\<dots> \<longleftrightarrow> unat n div 2 ^ k < 128" by linarith
  also have "\<dots> \<longleftrightarrow> unat n < 2 ^ (k + 7)"
    by (simp add: div_less_iff_less_mult power_add mult.commute)
  finally show ?thesis .
qed

lemma le_7F: "8 \<le> LENGTH('a) \<Longrightarrow> (n :: 'a::len word) \<le> 0x7F \<longleftrightarrow> unat n < 128"
  using drop_bit_le_7F [of 0 n] by simp

lemma less_push_bit_1:
  "k < LENGTH('a) \<Longrightarrow> (n :: 'a::len word) < push_bit k 1 \<longleftrightarrow> unat n < 2 ^ k"
proof -
  assume "k < LENGTH('a)"
  then have "unat (word_of_nat (2 ^ k) :: 'a word) = 2 ^ k" unfolding unat_of_nat by simp
  moreover have "push_bit k 1 = (word_of_nat (2 ^ k) :: 'a word)" by (simp add: push_bit_eq_mult)
  ultimately show ?thesis by (simp add: word_less_nat_alt)
qed

lemma byte_7F: "(b OR 0x80) AND 0x7F = b AND 0x7F" "(b OR 0x80) AND 0x80 = 0x80" for b :: byte
  by (simp_all add: bit.conj_disj_distrib2)

lemma not_bit_small:
  assumes "unat (n :: 'a::len word) < 2 ^ k" "k \<le> i"
  shows "\<not> bit n i"
proof
  assume "bit n i"
  then have "bit (unat n) i" by (simp add: bit_unsigned_iff)
  moreover have "(2 :: nat) ^ k \<le> 2 ^ i" using assms(2) by (rule power_increasing) simp
  then have "unat n < 2 ^ i" using assms(1) by (rule less_le_trans [rotated])
  then have "unat n div 2 ^ i = 0" by (rule div_less)
  ultimately show False by (simp add: bit_iff_odd)
qed

lemma take_bit_small: "unat (n :: 'a::len word) < 2 ^ k \<Longrightarrow> take_bit k n = n"
  by (rule bit_word_eqI) (use not_bit_small [of n k] in \<open>auto simp: bit_take_bit_iff not_le [symmetric]\<close>)

lemma byte_small:
  assumes "unat (b :: byte) < 128"
  shows "b AND 0x7F = b" "b AND 0x80 = 0"
proof -
  have m: "(0x7F :: byte) = mask 7" "(0x80 :: byte) = push_bit 7 1" by (simp_all add: mask_eq_exp_minus_1)
  have bits: "\<not> bit b i" if "7 \<le> i" for i
    using not_bit_small [of b 7 i] assms that by simp
  show e: "b AND 0x7F = b" unfolding m using bits
    by (intro bit_word_eqI) (auto simp: bit_and_iff bit_mask_iff not_less [symmetric])
  have "b AND 0x80 = (b AND 0x7F) AND 0x80" unfolding e by (rule refl)
  then show "b AND 0x80 = 0" by (simp add: and.assoc)
qed

lemma take_drop_or: "push_bit j (take_bit k n) OR push_bit (j + k) (drop_bit k n) = push_bit j (n :: 'a::len word)"
proof (rule bit_word_eqI)
  fix i assume "i < LENGTH('a)"
  then show "bit (push_bit j (take_bit k n) OR push_bit (j + k) (drop_bit k n)) i \<longleftrightarrow> bit (push_bit j n) i"
    by (cases "j + k \<le> i") (auto simp: bit_or_iff bit_push_bit_iff bit_take_bit_iff bit_drop_bit_eq)
qed

lemma ucast_mask_byte: "k \<le> 8 \<Longrightarrow> ucast (ucast n AND (mask k :: byte)) = take_bit k (n :: 'a::len word)"
  by (auto intro!: bit_word_eqI simp: bit_simps)

lemma ucast_ucast_7F: "ucast (ucast n AND (0x7F :: byte)) = take_bit 7 (n :: 'a::len word)"
  using ucast_mask_byte [of 7 n] by (simp add: mask_eq_exp_minus_1)

lemma length_varint_common: "0 < length (varint_common n)"
  by (simp add: varint_common.simps [of n])

lemma varint_steps_common:
  assumes "8 \<le> LENGTH('a)" "drop j bs = varint_common n @ rest" "j + length (varint_common n) \<le> k"
  shows "varint_steps [j..<k] bs val =
           Inr (val OR push_bit (7 * j) (n :: 'a::len word), j + length (varint_common n))"
  using assms(2,3)
proof (induction n arbitrary: j val rule: varint_common.induct)
  case (1 n)
  have jk: "j < k" using "1.prems"(2) length_varint_common [of n] by linarith
  then have up: "[j..<k] = j # [Suc j..<k]" by (simp add: upt_conv_Cons)
  have jb: "j < length bs" using arg_cong [OF "1.prems"(1), of length] length_varint_common [of n]
    unfolding length_drop length_append by linarith
  then have hd: "bs ! j = hd (varint_common n @ rest)"
    using "1.prems"(1) by (simp add: hd_drop_conv_nth [symmetric])
  have tl: "drop (Suc j) bs = tl (varint_common n @ rest)"
    unfolding "1.prems"(1) [symmetric] by (simp add: drop_Suc tl_drop)
  show ?case
  proof (cases "n \<le> 0x7F")
    case True
    then have vc: "varint_common n = [ucast n]" by (simp add: varint_common.simps [of n])
    have un: "unat n < 128" using True assms(1) by (simp add: le_7F)
    then have ub: "unat (ucast n :: byte) < 128"
      by (rule le_less_trans [rotated]) (simp add: unsigned_ucast_eq take_bit_nat_less_eq_self)
    have "ucast (ucast n AND (0x7F :: byte)) = n"
      using un by (simp add: ucast_ucast_7F take_bit_small)
    then show ?thesis unfolding up using jb hd byte_small [OF ub] by (simp add: vc Let_def)
  next
    case False
    then have vc: "varint_common n = (ucast n OR 0x80) # varint_common (drop_bit 7 n)"
      by (simp add: varint_common.simps [of n])
    have IH: "varint_steps [Suc j..<k] bs (val OR push_bit (7 * j) (take_bit 7 n)) =
        Inr ((val OR push_bit (7 * j) (take_bit 7 n)) OR push_bit (7 * Suc j) (drop_bit 7 n),
             Suc j + length (varint_common (drop_bit 7 n)))"
      using False tl "1.prems"(2) vc by (intro "1.IH") simp_all
    have val: "(val OR push_bit (7 * j) (take_bit 7 n)) OR push_bit (7 * Suc j) (drop_bit 7 n) =
        val OR push_bit (7 * j) n"
      using take_drop_or [of "7 * j" 7 n] by (simp add: or.assoc add.commute)
    show ?thesis unfolding up
      using jb hd vc IH [unfolded val] by (simp add: Let_def byte_7F ucast_ucast_7F)
  qed
qed

section \<open>The unrolled routines\<close>

lemma varint_common_unfold:
  assumes "8 \<le> LENGTH('a)"
  shows "varint_common (drop_bit k n) =
     (if unat (n :: 'a::len word) < 2 ^ (k + 7) then [ucast (drop_bit k n)]
      else (ucast (drop_bit k n) OR 0x80) # varint_common (drop_bit (k + 7) n))"
  unfolding varint_common.simps [of "drop_bit k n"] drop_bit_le_7F [OF assms] by (simp add: add.commute)

lemmas varint_common_0 = varint_common_unfold [of 0, simplified]

lemma ucast_or_80: "ucast (n OR 0x80 :: uint) = (ucast n OR 0x80 :: byte)"
  by (simp add: unsigned_or_eq)

lemma push_bit_bounds:
  "(a :: uint) < push_bit 7 1 \<longleftrightarrow> unat a < 2 ^ 7" "a < push_bit 14 1 \<longleftrightarrow> unat a < 2 ^ 14"
  "a < push_bit 21 1 \<longleftrightarrow> unat a < 2 ^ 21" "a < push_bit 28 1 \<longleftrightarrow> unat a < 2 ^ 28"
  by (rule less_push_bit_1, simp)+

lemmas varint_common32 =
  varint_common_unfold [where 'a = 32 and k = 0, simplified]
  varint_common_unfold [where 'a = 32 and k = 7, simplified]
  varint_common_unfold [where 'a = 32 and k = 14, simplified]
  varint_common_unfold [where 'a = 32 and k = 21, simplified]
  varint_common_unfold [where 'a = 32 and k = 28, simplified]

lemma varint32_bytes_common: "varint32_bytes n = varint_common n"
proof -
  have lt: "unat n < 34359738368" by (rule less_le_trans [OF unat_lt32]) simp
  show ?thesis unfolding varint32_bytes_def ucast_or_80 push_bit_bounds
    using lt by (simp add: varint_common32(1) [of n] varint_common32(2-5))
qed

lemmas varint_common64 =
  varint_common_unfold [where 'a = 64 and k = 0, simplified]
  varint_common_unfold [where 'a = 64 and k = 7, simplified]
  varint_common_unfold [where 'a = 64 and k = 14, simplified]
  varint_common_unfold [where 'a = 64 and k = 21, simplified]
  varint_common_unfold [where 'a = 64 and k = 28, simplified]
  varint_common_unfold [where 'a = 64 and k = 35, simplified]
  varint_common_unfold [where 'a = 64 and k = 42, simplified]
  varint_common_unfold [where 'a = 64 and k = 49, simplified]
  varint_common_unfold [where 'a = 64 and k = 56, simplified]
  varint_common_unfold [where 'a = 64 and k = 63, simplified]

lemma unat_ucast_mod: "unat (ucast (n :: uint64) :: uint) = unat n mod 2 ^ 32"
  by (simp add: unsigned_ucast_eq take_bit_eq_mod)

lemma div_lt: "(n :: nat) div 2 ^ k < 2 ^ j \<longleftrightarrow> n < 2 ^ (j + k)"
  by (simp add: div_less_iff_less_mult power_add)

lemma unat_lt64: "unat (n :: uint64) < 2 ^ 64"
  using unsigned_less [of n, where 'a = nat] by simp

text \<open>The search tree finds the number of groups of seven bits.\<close>

lemma varint64_size_groups:
  assumes N: "unat (n :: uint64) = N"
  shows "varint64_size (ucast n) (ucast (drop_bit 28 n)) (ucast (drop_bit 56 n)) =
     (if N < 2 ^ 7 then 1 else if N < 2 ^ 14 then 2 else if N < 2 ^ 21 then 3 else if N < 2 ^ 28 then 4 else if N < 2 ^ 35 then 5 else if N < 2 ^ 42 then 6 else if N < 2 ^ 49 then 7 else if N < 2 ^ 56 then 8 else if N < 2 ^ 63 then 9 else 10)"
proof -
  have N64: "N < 2 ^ 64" using unat_lt64 [of n] N by simp
  let ?p0 = "ucast n :: uint" and ?p1 = "ucast (drop_bit 28 n) :: uint" and ?p2 = "ucast (drop_bit 56 n) :: uint"
  have "N div 2 ^ 56 < 2 ^ 32" unfolding div_lt using N64 by (rule less_le_trans) simp
  then have u: "unat ?p0 = N mod 2 ^ 32" "unat ?p1 = N div 2 ^ 28 mod 2 ^ 32" "unat ?p2 = N div 2 ^ 56"
    unfolding unat_ucast_mod unat_drop_bit N by simp_all
  have z: "p = 0 \<longleftrightarrow> unat p = 0" for p :: uint by (simp add: unat_eq_zero)
  consider "N < 2 ^ 28" | "2 ^ 28 \<le> N" "N < 2 ^ 56" | "2 ^ 56 \<le> N" by linarith
  then show ?thesis
  proof cases
    case 1
    have "unat ?p0 = N" "unat ?p1 = 0" "unat ?p2 = 0" using u 1 by simp_all
    then show ?thesis using 1 unfolding varint64_size_def push_bit_bounds z by simp
  next
    case 2
    have "N div 2 ^ 28 < 2 ^ 28" unfolding div_lt using 2 by simp
    then have "unat ?p1 = N div 2 ^ 28" "unat ?p2 = 0" using u 2 by simp_all
    moreover have "N div 2 ^ 28 \<noteq> 0" using 2 by (simp add: div_eq_0_iff)
    ultimately show ?thesis using 2 unfolding varint64_size_def push_bit_bounds z
      by (simp only: div_lt) simp
  next
    case 3
    have "N div 2 ^ 56 \<noteq> 0" using 3 by (simp add: div_eq_0_iff)
    then show ?thesis using 3 unfolding varint64_size_def push_bit_bounds z u
      by (simp only: div_lt) simp
  qed
qed

lemma byte_of_group:
  assumes "k + 8 \<le> 32"
  shows "ucast (drop_bit k (ucast (drop_bit j n) :: uint)) = (ucast (drop_bit (j + k) (n :: uint64)) :: byte)"
  using assms by (auto intro!: bit_word_eqI simp: bit_simps add.commute add.left_commute)

lemma last_group:
  assumes "unat (n :: uint64) < 2 ^ (k + 7)"
  shows "(ucast (drop_bit k n) OR 0x80) AND 0x7F = (ucast (drop_bit k n) :: byte)"
proof -
  have "unat (drop_bit k n) < 128" unfolding unat_drop_bit using div_lt [of "unat n" k 7] assms
    by (simp add: add.commute)
  then have "unat (ucast (drop_bit k n) :: byte) < 128"
    by (rule le_less_trans [rotated]) (simp add: unsigned_ucast_eq take_bit_nat_less_eq_self)
  then show ?thesis by (simp only: byte_7F byte_small)
qed

lemmas byte_of_groups =
  byte_of_group [where k = 0 and j = 0, simplified]
  byte_of_group [where k = 7 and j = 0, simplified]
  byte_of_group [where k = 14 and j = 0, simplified]
  byte_of_group [where k = 21 and j = 0, simplified]
  byte_of_group [where k = 0 and j = 28, simplified]
  byte_of_group [where k = 7 and j = 28, simplified]
  byte_of_group [where k = 14 and j = 28, simplified]
  byte_of_group [where k = 21 and j = 28, simplified]
  byte_of_group [where k = 0 and j = 56, simplified]
  byte_of_group [where k = 7 and j = 56, simplified]
  byte_of_group [where k = 14 and j = 56, simplified]
  byte_of_group [where k = 21 and j = 56, simplified]

lemmas last_groups =
  last_group [where k = 0, simplified]
  last_group [where k = 7, simplified]
  last_group [where k = 14, simplified]
  last_group [where k = 21, simplified]
  last_group [where k = 28, simplified]
  last_group [where k = 35, simplified]
  last_group [where k = 42, simplified]
  last_group [where k = 49, simplified]
  last_group [where k = 56, simplified]
  last_group [where k = 63, simplified]

lemma varint64_bytes_common: "varint64_bytes n = varint_common n"
proof -
  have lt: "unat n < 1180591620717411303424" by (rule less_le_trans [OF unat_lt64]) simp
  show ?thesis
    unfolding varint64_bytes_def Let_def varint64_size_groups [OF refl] ucast_or_80 byte_of_groups
    using lt by (simp add: varint_common64(1) [of n] varint_common64(2-10) last_groups)
qed

lemma ucast_push_byte:
  "k + 8 \<le> 32 \<Longrightarrow> ucast (push_bit k (ucast (b :: byte)) :: uint) = (push_bit k (ucast b) :: uint64)"
proof (rule bit_word_eqI)
  fix i assume "k + 8 \<le> 32" "i < LENGTH(64)"
  then show "bit (ucast (push_bit k (ucast b) :: uint) :: uint64) i \<longleftrightarrow> bit (push_bit k (ucast b) :: uint64) i"
    using bit_byte_lt [of b "i - k"] by (auto simp: bit_simps)
qed

lemma ucast_byte: "ucast (ucast (b :: byte) :: uint) = (ucast b :: uint64)"
  using ucast_push_byte [of 0 b] by simp

lemmas ucast_push_bytes = ucast_byte
  ucast_push_byte [where k = 7, simplified] ucast_push_byte [where k = 14, simplified]
  ucast_push_byte [where k = 21, simplified]

lemma read_varint64_split_steps:
  assumes "10 \<le> length bs"
  shows "read_varint64_split bs = varint_steps [0, 1, 2, 3, 4, 5, 6, 7, 8, 9] bs 0"
proof -
  have or_u: "ucast (a OR b :: uint) = (ucast a OR ucast b :: uint64)" for a b by (simp add: unsigned_or_eq)
  have len: "0 < length bs" "1 < length bs" "2 < length bs" "3 < length bs" "4 < length bs" "5 < length bs"
    "6 < length bs" "7 < length bs" "8 < length bs" "9 < length bs" using assms by linarith+
  show ?thesis
    unfolding read_varint64_split_def varint_steps.simps Let_def varint64_join_def or_u ucast_push_bytes
    using len by (simp add: or.assoc push_bit_or)
qed

lemma list_upts:
  "[0 :: nat] = [0..<1]"
  "[0 :: nat, 1] = [0..<2]"
  "[0 :: nat, 1, 2] = [0..<3]"
  "[0 :: nat, 1, 2, 3] = [0..<4]"
  "[0 :: nat, 1, 2, 3, 4] = [0..<5]"
  "[0 :: nat, 1, 2, 3, 4, 5] = [0..<6]"
  "[0 :: nat, 1, 2, 3, 4, 5, 6] = [0..<7]"
  "[0 :: nat, 1, 2, 3, 4, 5, 6, 7] = [0..<8]"
  "[0 :: nat, 1, 2, 3, 4, 5, 6, 7, 8] = [0..<9]"
  "[0 :: nat, 1, 2, 3, 4, 5, 6, 7, 8, 9] = [0..<10]"
  by (simp_all add: upt_rec eval_nat_numeral)

lemma read_varint32_steps:
  "bs \<noteq> [] \<Longrightarrow> read_varint32 bs = varint_steps [0..<min 5 (length bs)] bs 0"
proof -
  assume "bs \<noteq> []"
  then have "0 < length bs" by simp
  then consider "5 \<le> length bs" | "length bs = 1" | "length bs = 2" | "length bs = 3" | "length bs = 4" by linarith
  then show ?thesis unfolding read_varint32_def list_upts by cases (simp_all add: borrow_size_def)
qed

lemma read_varint64_steps:
  "bs \<noteq> [] \<Longrightarrow> length bs \<noteq> 7 \<Longrightarrow> read_varint64 bs = varint_steps [0..<min 10 (length bs)] bs 0"
  "length bs = 7 \<Longrightarrow> read_varint64 bs = varint_steps [0..<8] bs 0"
proof -
  show "read_varint64 bs = varint_steps [0..<8] bs 0" if "length bs = 7"
    using that unfolding read_varint64_def list_upts by (simp add: borrow_size_def)
  assume "bs \<noteq> []" "length bs \<noteq> 7"
  then have "0 < length bs" by simp
  then consider "10 \<le> length bs" | "length bs = 1" | "length bs = 2" | "length bs = 3" | "length bs = 4"
    | "length bs = 5" | "length bs = 6" | "length bs = 8" | "length bs = 9"
    using \<open>length bs \<noteq> 7\<close> by linarith
  then show "read_varint64 bs = varint_steps [0..<min 10 (length bs)] bs 0"
    unfolding read_varint64_def list_upts
    by cases (simp_all add: borrow_size_def read_varint64_split_steps [unfolded list_upts])
qed

lemma varint_steps_no_overrun: "list_all (\<lambda>n. n < length bs) ns \<Longrightarrow> varint_steps ns bs val \<noteq> Inl Read_past_end"
  by (induction ns bs val rule: varint_steps.induct) (auto simp: Let_def)

text \<open>How many bytes a number takes.\<close>

lemma length_varint_common_le:
  "8 \<le> LENGTH('a) \<Longrightarrow> unat (n :: 'a::len word) < 2 ^ (7 * Suc k) \<Longrightarrow> length (varint_common n) \<le> Suc k"
proof (induction k arbitrary: n)
  case 0
  then show ?case by (simp add: varint_common.simps [of n] le_7F)
next
  case (Suc k)
  have "unat n div 2 ^ 7 < 2 ^ (7 * Suc k)" unfolding div_lt using Suc.prems(2) by (simp add: add.commute)
  then have "length (varint_common (drop_bit 7 n)) \<le> Suc k"
    by (intro Suc.IH Suc.prems(1)) (simp only: unat_drop_bit)
  then show ?case by (simp add: varint_common.simps [of n])
qed

lemma length_varint32_le: "length (varint_common (n :: uint)) \<le> 5"
  using length_varint_common_le [of n 4] less_le_trans [OF unat_lt32 [of n], of "2 ^ 35"] by simp

lemma length_varint64_le: "length (varint_common (n :: uint64)) \<le> 10"
  using length_varint_common_le [of n 9] less_le_trans [OF unat_lt64 [of n], of "2 ^ 70"] by simp

lemma read_varint32_common: "read_varint32 (varint_common n @ rest) = Inr (n, length (varint_common n))"
proof -
  have "varint_common n @ rest \<noteq> []" using length_varint_common [of n] by auto
  then show ?thesis
    using varint_steps_common [of 0 "varint_common n @ rest" n rest "min 5 (length (varint_common n @ rest))" 0]
      length_varint32_le [of n] by (simp add: read_varint32_steps)
qed

lemma read_varint64_common: "read_varint64 (varint_common n @ rest) = Inr (n, length (varint_common n))"
proof -
  let ?bs = "varint_common n @ rest"
  have ne: "?bs \<noteq> []" using length_varint_common [of n] by auto
  have le: "length (varint_common n) \<le> 10" by (rule length_varint64_le)
  show ?thesis
  proof (cases "length ?bs = 7")
    case True
    then have "length (varint_common n) \<le> 8" by simp
    then show ?thesis
      using varint_steps_common [of 0 ?bs n rest 8 0] read_varint64_steps(2) [OF True] by simp
  next
    case False
    then show ?thesis
      using varint_steps_common [of 0 ?bs n rest "min 10 (length ?bs)" 0] read_varint64_steps(1) [OF ne False] le
      by simp
  qed
qed

lemma varint_steps_overrun:
  "j \<le> length bs \<Longrightarrow> j \<le> k \<Longrightarrow>
     varint_steps [j..<k] bs val = Inl Read_past_end \<longleftrightarrow>
       length bs < k \<and> list_all (\<lambda>b. b AND 0x80 \<noteq> 0) (drop j bs)"
proof (induction "k - j" arbitrary: j val)
  case 0
  then show ?case by simp
next
  case (Suc d)
  then have jk: "j < k" by simp
  then have up: "[j..<k] = j # [Suc j..<k]" by (simp add: upt_conv_Cons)
  show ?case
  proof (cases "j < length bs")
    case True
    then have dr: "drop j bs = bs ! j # drop (Suc j) bs" by (rule Cons_nth_drop_Suc [symmetric])
    have "varint_steps [Suc j..<k] bs v = Inl Read_past_end \<longleftrightarrow>
        length bs < k \<and> list_all (\<lambda>b. b AND 0x80 \<noteq> 0) (drop (Suc j) bs)" for v :: "'a word"
      using Suc.hyps(2) True jk by (intro Suc.hyps(1)) simp_all
    then show ?thesis unfolding up dr using True by (simp add: Let_def)
  next
    case False
    then show ?thesis unfolding up using Suc.prems jk by simp
  qed
qed

section \<open>Properties\<close>

text \<open>C8: The hand-unrolled encoders for 32 and 64 bits, the latter with its binary search for the
  length and its three 32-bit pieces, write exactly the bytes of the plain loop, at most five and ten.\<close>

theorem varint_encoders_unrolled:
  "varint32_bytes n = varint_common n \<and> length (varint32_bytes n) \<le> 5 \<and>
   varint64_bytes m = varint_common m \<and> length (varint64_bytes m) \<le> 10"
  by (simp add: varint32_bytes_common varint64_bytes_common length_varint32_le length_varint64_le)

text \<open>C9: Every 32-bit and 64-bit number is read back from its encoding, whatever follows it in the
  buffer and however short the buffer is, and exactly its bytes are consumed.\<close>

theorem varint_roundtrip:
  "read_varint32 (varint32_bytes n @ rest) = Inr (n, length (varint32_bytes n)) \<and>
   read_varint64 (varint64_bytes m @ rest) = Inr (m, length (varint64_bytes m))"
  by (simp add: varint32_bytes_common varint64_bytes_common read_varint32_common read_varint64_common)

text \<open>
  The zigzag maps for 32 and 64 bits are inverse to each other in both directions, the
  smallest numbers included.\<close>

theorem zigzag_bijective:
  "zigzagToI32 (i32ToZigzag n) = n \<and> i32ToZigzag (zigzagToI32 n) = n \<and>
   zigzagToI64 (i64ToZigzag m) = m \<and> i64ToZigzag (zigzagToI64 m) = m"
  by (simp add: zigzag32_rt zigzag64_rt)

text \<open>
  The 64-bit decoder reads behind the received bytes exactly when seven bytes are left and
  all of them ask for more (its case of seven bytes runs eight steps); the 32-bit decoder never does.\<close>

theorem read_varint64_overrun:
  "(read_varint64 bs = Inl Read_past_end \<longleftrightarrow> length bs = 7 \<and> list_all (\<lambda>b. b AND 0x80 \<noteq> 0) bs) \<and>
   read_varint32 bs \<noteq> Inl Read_past_end"
proof (cases "bs = []")
  case True
  then show ?thesis by (simp add: read_varint64_def read_varint32_def borrow_size_def)
next
  case False
  have n32: "read_varint32 bs \<noteq> Inl Read_past_end"
    unfolding read_varint32_steps [OF False] using varint_steps_overrun [of 0 bs "min 5 (length bs)" 0] by simp
  show ?thesis
  proof (cases "length bs = 7")
    case True
    then show ?thesis using n32 varint_steps_overrun [of 0 bs 8 0] by (simp add: read_varint64_steps(2))
  next
    case no: False
    then show ?thesis using n32 False varint_steps_overrun [of 0 bs "min 10 (length bs)" 0]
      by (simp add: read_varint64_steps(1))
  qed
qed

end
