(* ===== verification/SL_Wire.thy ===== *)
theory SL_Wire
  imports SL_Varint
begin

text \<open>
  What a Thrift protocol promises, for the compact and the binary one alike: a reader that makes the
  calls of the writer gets the writer's values and consumes the writer's bytes.  The interface is
  the locale \<open>wire_protocol\<close>; its client is the run of a whole sequence of calls.
\<close>

section \<open>Results of a reader\<close>

definition ebind :: "'e + 'a \<Rightarrow> ('a \<Rightarrow> 'e + 'b) \<Rightarrow> 'e + 'b" where
  "ebind m f = (case m of Inl e \<Rightarrow> Inl e | Inr a \<Rightarrow> f a)"

lemma ebind_simps [simp]: "ebind (Inl e) f = Inl e" "ebind (Inr a) f = f a"
  by (simp_all add: ebind_def)

section \<open>Sequences of calls\<close>

text \<open>
  \<open>put\<close> writes one call and reports the number of bytes; \<open>get\<close> reads a call of the same kind and
  returns it with the values found.  The nesting of the calls is checked by \<open>track\<close>.
\<close>

primrec wire_put_all :: "('c \<Rightarrow> 'w \<Rightarrow> (uint \<times> 'w) option) \<Rightarrow> 'c list \<Rightarrow> 'w \<Rightarrow> (uint \<times> 'w) option" where
  "wire_put_all put [] w = Some (0, w)"
| "wire_put_all put (c # cs) w =
     do { (n1, w) \<leftarrow> put c w; (n2, w) \<leftarrow> wire_put_all put cs w; Some (n1 + n2, w) }"

primrec wire_get_all ::
  "('c \<Rightarrow> 'r \<Rightarrow> 'e + ('c \<times> nat \<times> 'r)) \<Rightarrow> 'c list \<Rightarrow> 'r \<Rightarrow> 'e + ('c list \<times> nat \<times> 'r)"
where
  "wire_get_all get [] r = Inr ([], 0, r)"
| "wire_get_all get (c # cs) r =
     ebind (get c r) (\<lambda>(c, n1, r). ebind (wire_get_all get cs r) (\<lambda>(cs, n2, r). Inr (c # cs, n1 + n2, r)))"

primrec wire_track :: "('c \<Rightarrow> 's \<Rightarrow> 's option) \<Rightarrow> 'c list \<Rightarrow> 's \<Rightarrow> 's option" where
  "wire_track track [] s = Some s"
| "wire_track track (c # cs) s = do { s \<leftarrow> track c s; wire_track track cs s }"

locale wire_protocol =
  fixes put :: "'c \<Rightarrow> 'w \<Rightarrow> (uint \<times> 'w) option"
    and get :: "'c \<Rightarrow> 'r \<Rightarrow> 'e + ('c \<times> nat \<times> 'r)"
    and track :: "'c \<Rightarrow> 's \<Rightarrow> 's option"
    and out :: "'w \<Rightarrow> byte list"
    and room :: "'w \<Rightarrow> nat"
    and feed :: "byte list \<Rightarrow> 'r \<Rightarrow> 'r"
    and need :: "'c \<Rightarrow> nat"
    and sync :: "'s \<Rightarrow> 'w \<Rightarrow> 'r \<Rightarrow> bool"
    and norm :: "'c \<Rightarrow> 'c"
  assumes put_get: "sync s w r \<Longrightarrow> track c s = Some s' \<Longrightarrow> need c \<le> room w \<Longrightarrow>
    \<exists>d w' r'. put c w = Some (word_of_nat (length d), w') \<and> out w' = out w @ d \<and> length d \<le> need c \<and>
      room w' + length d = room w \<and> sync s' w' r' \<and>
      (\<forall>rest. get c (feed (d @ rest) r) = Inr (norm c, length d, feed rest r'))"
begin

lemma put_get_all:
  "sync s w r \<Longrightarrow> wire_track track cs s = Some s' \<Longrightarrow> sum_list (map need cs) \<le> room w \<Longrightarrow>
    \<exists>d w' r'. wire_put_all put cs w = Some (word_of_nat (length d), w') \<and> out w' = out w @ d \<and>
      length d \<le> sum_list (map need cs) \<and> room w' + length d = room w \<and> sync s' w' r' \<and>
      (\<forall>rest. wire_get_all get cs (feed (d @ rest) r) = Inr (map norm cs, length d, feed rest r'))"
proof (induction cs arbitrary: s w r)
  case Nil
  then show ?case by (intro exI [of _ "[]"] exI [of _ w] exI [of _ r]) simp
next
  case (Cons c cs)
  obtain s1 where s1: "track c s = Some s1" "wire_track track cs s1 = Some s'"
    using Cons.prems(2) by (auto simp: bind_eq_Some_conv)
  have "need c \<le> room w" using Cons.prems(3) by simp
  then obtain d1 w1 r1 where 1: "put c w = Some (word_of_nat (length d1), w1)" "out w1 = out w @ d1"
      "length d1 \<le> need c" "room w1 + length d1 = room w" "sync s1 w1 r1"
      "\<forall>rest. get c (feed (d1 @ rest) r) = Inr (norm c, length d1, feed rest r1)"
    using put_get [OF Cons.prems(1) s1(1)] by blast
  have "sum_list (map need cs) \<le> room w1" using Cons.prems(3) 1(3,4) by simp
  then obtain d2 w2 r2 where 2: "wire_put_all put cs w1 = Some (word_of_nat (length d2), w2)"
      "out w2 = out w1 @ d2" "length d2 \<le> sum_list (map need cs)" "room w2 + length d2 = room w1"
      "sync s' w2 r2" "\<forall>rest. wire_get_all get cs (feed (d2 @ rest) r1) = Inr (map norm cs, length d2, feed rest r2)"
    using Cons.IH [OF 1(5) s1(2)] by blast
  have "wire_get_all get (c # cs) (feed ((d1 @ d2) @ rest) r) =
      Inr (map norm (c # cs), length (d1 @ d2), feed rest r2)" for rest
    using 1(6) 2(6) by simp
  then show ?case using 1(1-5) 2(1-5)
    by (intro exI [of _ "d1 @ d2"] exI [of _ w2] exI [of _ r2]) simp
qed

end

end
