(* ===== verification/SL_CompactProtocol.thy ===== *)
theory SL_CompactProtocol
  imports SL_Wire
begin

text \<open>
  The Thrift compact protocol \<^verbatim>\<open>SL_Rpc_Thrift_CompactProtocol\<close>
  (\<^verbatim>\<open>include/SL_Rpc_Thrift_CompactProtocol.h\<close>,
  \<^verbatim>\<open>src/SL_Rpc_Thrift_CompactProtocol.cpp\<close>): the writer on an
  \<^verbatim>\<open>SL_ByteBuffer\<close> and the reader on a received block.  Field numbers are written as the
  difference to the last one, booleans inside the field header, so both sides keep a stack of last
  field numbers and a pending boolean.

  The contract is that a reader that makes the calls of the writer gets the writer's values.
\<close>

section \<open>Types\<close>

text \<open>\<^verbatim>\<open>TType\<close> is a small number; the constants of the compact types are bytes.\<close>

definition T_STOP :: nat where "T_STOP = 0"
definition T_BOOL :: nat where "T_BOOL = 2"

definition CT_BOOLEAN_TRUE :: byte where "CT_BOOLEAN_TRUE = 0x01"
definition CT_BOOLEAN_FALSE :: byte where "CT_BOOLEAN_FALSE = 0x02"

definition TTypeToCType :: "byte list" where
  "TTypeToCType = [0x00, 0, 0x01, 0x03, 0x07, 0, 0x04, 0, 0x05, 0, 0x06, 0x08, 0x0C, 0x0B, 0x0A, 0x09]"

definition getCompactType :: "nat \<Rightarrow> byte option" where
  "getCompactType t = (if t < length TTypeToCType then Some (TTypeToCType ! t) else None)"

definition getTType :: "byte \<Rightarrow> thrift_error + nat" where
  "getTType c =
     (if c = 0 then Inr T_STOP
      else if c = CT_BOOLEAN_FALSE \<or> c = CT_BOOLEAN_TRUE then Inr T_BOOL
      else if c = 0x03 then Inr 3 else if c = 0x04 then Inr 6 else if c = 0x05 then Inr 8
      else if c = 0x06 then Inr 10 else if c = 0x07 then Inr 4 else if c = 0x08 then Inr 11
      else if c = 0x09 then Inr 15 else if c = 0x0A then Inr 14 else if c = 0x0B then Inr 13
      else if c = 0x0C then Inr 12 else Inl UNKNOWN_TYPE)"

definition PROTOCOL_ID :: byte where "PROTOCOL_ID = 0x82"
definition VERSION_N :: byte where "VERSION_N = 1"
definition VERSION_MASK :: byte where "VERSION_MASK = 0x1f"
definition TYPE_MASK :: byte where "TYPE_MASK = 0xE0"
definition TYPE_SHIFT_AMOUNT :: nat where "TYPE_SHIFT_AMOUNT = 5"

section \<open>The writer\<close>

text \<open>
  A protocol object is used for writing or for reading; the writer has its buffer, the pending
  boolean field and the field numbers, the reader the block left to read in place of the buffer.
\<close>

record cp_writer =
  cw_buf :: byte_buffer
  cw_bool :: "(nat \<times> uint16) option"
  cw_stack :: "uint16 list"
  cw_last :: uint16

definition cw_new :: "byte_buffer \<Rightarrow> cp_writer" where
  "cw_new buf = \<lparr>cw_buf = buf, cw_bool = None, cw_stack = [], cw_last = 0\<rparr>"

text \<open>Every call returns the number of bytes it reports and the writer; results of the buffer are ignored.\<close>

type_synonym cw_result = "(uint \<times> cp_writer) option"

definition cw_byte :: "allocator \<Rightarrow> byte \<Rightarrow> cp_writer \<Rightarrow> cw_result" where
  "cw_byte h b w = do {
     (_, buf) \<leftarrow> bb_write h (cw_buf w) [b] 1 100;
     Some (1, w\<lparr>cw_buf := buf\<rparr>) }"

text \<open>
  Both varint writers make room, store through the raw pointer behind the live data and advance.
  Making room goes through \<^verbatim>\<open>reserve\<close>, which sets both indices back to zero.
\<close>

definition cw_store :: "uint \<Rightarrow> uint \<Rightarrow> allocator \<Rightarrow> byte list \<Rightarrow> cp_writer \<Rightarrow> cw_result" where
  "cw_store room extra h d w =
     (let buf = cw_buf w;
          buf = (if bb_free_size buf < room then snd (bb_reserve h buf (2 * bb_buffer_size buf + extra)) else buf)
      in do {
        m \<leftarrow> mem_put (block (bb_buffer buf)) (unat (bb_data_begin buf + bb_data_size buf)) d;
        Some (word_of_nat (length d),
              w\<lparr>cw_buf := bb_advance (buf\<lparr>bb_buffer := map_option (\<lambda>_. m) (bb_buffer buf)\<rparr>)
                            (word_of_nat (length d))\<rparr>) })"

definition cw_varint32 :: "allocator \<Rightarrow> uint \<Rightarrow> cp_writer \<Rightarrow> cw_result" where
  "cw_varint32 h n w = cw_store 5 10 h (varint32_bytes n) w"

definition cw_varint64 :: "allocator \<Rightarrow> uint64 \<Rightarrow> cp_writer \<Rightarrow> cw_result" where
  "cw_varint64 h n w = cw_store 10 20 h (varint64_bytes n) w"

definition cw_i16 :: "allocator \<Rightarrow> uint16 \<Rightarrow> cp_writer \<Rightarrow> cw_result" where
  "cw_i16 h n w = cw_varint32 h (i32ToZigzag (scast n)) w"

definition cw_i32 :: "allocator \<Rightarrow> uint \<Rightarrow> cp_writer \<Rightarrow> cw_result" where
  "cw_i32 h n w = cw_varint32 h (i32ToZigzag n) w"

definition cw_i64 :: "allocator \<Rightarrow> uint64 \<Rightarrow> cp_writer \<Rightarrow> cw_result" where
  "cw_i64 h n w = cw_varint64 h (i64ToZigzag n) w"

text \<open>A double is its 64-bit pattern, little-endian on the wire.\<close>

definition cw_double :: "allocator \<Rightarrow> uint64 \<Rightarrow> cp_writer \<Rightarrow> cw_result" where
  "cw_double h bits w = do {
     (_, buf) \<leftarrow> bb_write h (cw_buf w) (le_bytes 8 bits) 8 100;
     Some (8, w\<lparr>cw_buf := buf\<rparr>) }"

definition cw_binary :: "allocator \<Rightarrow> byte list \<Rightarrow> cp_writer \<Rightarrow> cw_result" where
  "cw_binary h str w = do {
     let ssize = word_of_nat (length str);
     (n, w) \<leftarrow> cw_varint32 h ssize w;
     (_, buf) \<leftarrow> bb_write h (cw_buf w) str ssize 100;
     Some (n + ssize, w\<lparr>cw_buf := buf\<rparr>) }"

definition cw_message_begin :: "allocator \<Rightarrow> byte list \<Rightarrow> uint \<Rightarrow> uint \<Rightarrow> cp_writer \<Rightarrow> cw_result" where
  "cw_message_begin h name messageType seqid w = do {
     (n1, w) \<leftarrow> cw_byte h PROTOCOL_ID w;
     (n2, w) \<leftarrow> cw_byte h ((VERSION_N AND VERSION_MASK) OR
                  (push_bit TYPE_SHIFT_AMOUNT (ucast messageType) AND TYPE_MASK)) w;
     (n3, w) \<leftarrow> cw_varint32 h seqid w;
     (n4, w) \<leftarrow> cw_binary h name w;
     Some (n1 + n2 + n3 + n4, w) }"

definition cw_struct_begin :: "cp_writer \<Rightarrow> cw_result" where
  "cw_struct_begin w = Some (0, w\<lparr>cw_stack := cw_last w # cw_stack w, cw_last := 0\<rparr>)"

definition cw_struct_end :: "cp_writer \<Rightarrow> cw_result" where
  "cw_struct_end w =
     (case cw_stack w of [] \<Rightarrow> None | l # ls \<Rightarrow> Some (0, w\<lparr>cw_last := l, cw_stack := ls\<rparr>))"

definition cw_field_internal :: "allocator \<Rightarrow> nat \<Rightarrow> uint16 \<Rightarrow> byte option \<Rightarrow> cp_writer \<Rightarrow> cw_result" where
  "cw_field_internal h fieldType fieldId typeOverride w = do {
     typeToWrite \<leftarrow> (case typeOverride of None \<Rightarrow> getCompactType fieldType | Some t \<Rightarrow> Some t);
     let delta = sint fieldId - sint (cw_last w);
     (n, w) \<leftarrow>
       (if delta > 0 \<and> delta \<le> 15 then cw_byte h (push_bit 4 (word_of_int delta) OR typeToWrite) w
        else do {
          (n1, w) \<leftarrow> cw_byte h typeToWrite w;
          (n2, w) \<leftarrow> cw_i16 h fieldId w;
          Some (n1 + n2, w) });
     Some (n, w\<lparr>cw_last := fieldId\<rparr>) }"

text \<open>A boolean field is remembered until its value is known; its \<^verbatim>\<open>name\<close> tells that there is one.\<close>

definition cw_field_begin ::
  "allocator \<Rightarrow> byte list option \<Rightarrow> nat \<Rightarrow> uint16 \<Rightarrow> cp_writer \<Rightarrow> cw_result"
where
  "cw_field_begin h name fieldType fieldId w =
     (if fieldType = T_BOOL then Some (0, w\<lparr>cw_bool := map_option (\<lambda>_. (fieldType, fieldId)) name\<rparr>)
      else cw_field_internal h fieldType fieldId None w)"

definition cw_field_stop :: "allocator \<Rightarrow> cp_writer \<Rightarrow> cw_result" where
  "cw_field_stop h w = cw_byte h (word_of_nat T_STOP) w"

definition cw_collection_begin :: "allocator \<Rightarrow> nat \<Rightarrow> uint \<Rightarrow> cp_writer \<Rightarrow> cw_result" where
  "cw_collection_begin h elemType sz w = do {
     c \<leftarrow> getCompactType elemType;
     if sint sz \<le> 14 then cw_byte h (push_bit 4 (ucast sz) OR c) w
     else do {
       (n1, w) \<leftarrow> cw_byte h (0xf0 OR c) w;
       (n2, w) \<leftarrow> cw_varint32 h sz w;
       Some (n1 + n2, w) } }"

definition cw_map_begin :: "allocator \<Rightarrow> nat \<Rightarrow> nat \<Rightarrow> uint \<Rightarrow> cp_writer \<Rightarrow> cw_result" where
  "cw_map_begin h keyType valType sz w =
     (if sz = 0 then cw_byte h 0 w
      else do {
        (n1, w) \<leftarrow> cw_varint32 h sz w;
        k \<leftarrow> getCompactType keyType;
        v \<leftarrow> getCompactType valType;
        (n2, w) \<leftarrow> cw_byte h (push_bit 4 k OR v) w;
        Some (n1 + n2, w) })"

definition cw_bool_value :: "allocator \<Rightarrow> bool \<Rightarrow> cp_writer \<Rightarrow> cw_result" where
  "cw_bool_value h v w =
     (let c = (if v then CT_BOOLEAN_TRUE else CT_BOOLEAN_FALSE) in
      case cw_bool w of
        Some (fieldType, fieldId) \<Rightarrow> do {
          (n, w) \<leftarrow> cw_field_internal h fieldType fieldId (Some c) w;
          Some (n, w\<lparr>cw_bool := None\<rparr>) }
      | None \<Rightarrow> cw_byte h c w)"

section \<open>The reader\<close>

record cp_reader =
  cr_buf :: "byte list"
  cr_bool :: "bool option"
  cr_stack :: "uint16 list"
  cr_last :: uint16

text \<open>A call returns a value, the number of bytes it reports and the reader, or the exception it throws.\<close>

type_synonym 'a cr_result = "thrift_error + ('a \<times> nat \<times> cp_reader)"

definition readBuffer :: "nat \<Rightarrow> cp_reader \<Rightarrow> byte list cr_result" where
  "readBuffer len r =
     (if length (cr_buf r) \<ge> len
      then Inr (take len (cr_buf r), len, r\<lparr>cr_buf := drop len (cr_buf r)\<rparr>)
      else Inl INVALID_DATA)"

definition cr_byte :: "cp_reader \<Rightarrow> byte cr_result" where
  "cr_byte r = ebind (readBuffer 1 r) (\<lambda>(d, n, r). Inr (hd d, 1, r))"

definition cr_varint32 :: "cp_reader \<Rightarrow> uint cr_result" where
  "cr_varint32 r = ebind (read_varint32 (cr_buf r)) (\<lambda>(v, n). Inr (v, n, r\<lparr>cr_buf := drop n (cr_buf r)\<rparr>))"

definition cr_varint64 :: "cp_reader \<Rightarrow> uint64 cr_result" where
  "cr_varint64 r = ebind (read_varint64 (cr_buf r)) (\<lambda>(v, n). Inr (v, n, r\<lparr>cr_buf := drop n (cr_buf r)\<rparr>))"

definition cr_i16 :: "cp_reader \<Rightarrow> uint16 cr_result" where
  "cr_i16 r = ebind (cr_varint32 r) (\<lambda>(v, n, r). Inr (ucast (zigzagToI32 v), n, r))"

definition cr_i32 :: "cp_reader \<Rightarrow> uint cr_result" where
  "cr_i32 r = ebind (cr_varint32 r) (\<lambda>(v, n, r). Inr (zigzagToI32 v, n, r))"

definition cr_i64 :: "cp_reader \<Rightarrow> uint64 cr_result" where
  "cr_i64 r = ebind (cr_varint64 r) (\<lambda>(v, n, r). Inr (zigzagToI64 v, n, r))"

definition cr_double :: "cp_reader \<Rightarrow> uint64 cr_result" where
  "cr_double r = ebind (readBuffer 8 r) (\<lambda>(d, n, r). Inr (le_word d, 8, r))"

definition cr_binary :: "cp_reader \<Rightarrow> byte list cr_result" where
  "cr_binary r = ebind (cr_varint32 r) (\<lambda>(sz, rsize, r).
     if sint sz > 0 then ebind (readBuffer (nat (sint sz)) r) (\<lambda>(d, n, r). Inr (d, rsize + nat (sint sz), r))
     else if sint sz < 0 then Inl NEGATIVE_SIZE
     else Inr ([], rsize, r))"

definition cr_message_begin :: "cp_reader \<Rightarrow> (byte list \<times> uint \<times> uint) cr_result" where
  "cr_message_begin r = ebind (cr_byte r) (\<lambda>(protocolId, n1, r).
     if protocolId \<noteq> PROTOCOL_ID then Inl BAD_VERSION
     else ebind (cr_byte r) (\<lambda>(versionAndType, n2, r).
       if versionAndType AND VERSION_MASK \<noteq> VERSION_N then Inl BAD_VERSION
       else
         let messageType = scast (signed_drop_bit TYPE_SHIFT_AMOUNT versionAndType) AND 0x03 in
         ebind (cr_varint32 r) (\<lambda>(seqid, n3, r).
         ebind (cr_binary r) (\<lambda>(name, n4, r).
           Inr ((name, messageType, seqid), n1 + n2 + n3 + n4, r)))))"

definition cr_struct_begin :: "cp_reader \<Rightarrow> unit cr_result" where
  "cr_struct_begin r = Inr ((), 0, r\<lparr>cr_stack := cr_last r # cr_stack r, cr_last := 0\<rparr>)"

definition cr_struct_end :: "cp_reader \<Rightarrow> unit cr_result" where
  "cr_struct_end r =
     (case cr_stack r of [] \<Rightarrow> Inl Empty_stack | l # ls \<Rightarrow> Inr ((), 0, r\<lparr>cr_last := l, cr_stack := ls\<rparr>))"

definition cr_field_begin :: "cp_reader \<Rightarrow> (nat \<times> uint16) cr_result" where
  "cr_field_begin r = ebind (cr_byte r) (\<lambda>(b, rsize, r).
     let type = b AND 0x0f in
     if type = 0 then Inr ((T_STOP, 0), rsize, r)
     else
       let modifier = drop_bit 4 (b AND 0xf0) in
       ebind (if modifier = 0 then ebind (cr_i16 r) (\<lambda>(i, n, r). Inr (i, rsize + n, r))
              else Inr (cr_last r + ucast modifier, rsize, r)) (\<lambda>(fieldId, rsize, r).
       ebind (getTType type) (\<lambda>fieldType.
         let r = (if type = CT_BOOLEAN_TRUE \<or> type = CT_BOOLEAN_FALSE
                  then r\<lparr>cr_bool := Some (type = CT_BOOLEAN_TRUE)\<rparr> else r)
         in Inr ((fieldType, fieldId), rsize, r\<lparr>cr_last := fieldId\<rparr>))))"

definition cr_map_begin :: "cp_reader \<Rightarrow> (nat \<times> nat \<times> uint) cr_result" where
  "cr_map_begin r = ebind (cr_varint32 r) (\<lambda>(msize, rsize, r).
     if sint msize > 0 then
       ebind (cr_byte r) (\<lambda>(kvType, n, r).
       ebind (getTType (drop_bit 4 kvType)) (\<lambda>k.
       ebind (getTType (kvType AND 0xf)) (\<lambda>v. Inr ((k, v, msize), rsize + n, r))))
     else if msize = 0 then
       ebind (getTType 0) (\<lambda>k. ebind (getTType 0) (\<lambda>v. Inr ((k, v, msize), rsize, r)))
     else Inl NEGATIVE_SIZE)"

definition cr_list_begin :: "cp_reader \<Rightarrow> (nat \<times> uint) cr_result" where
  "cr_list_begin r = ebind (cr_byte r) (\<lambda>(size_and_type, rsize, r).
     let lsize = ucast (drop_bit 4 size_and_type AND 0x0f) :: uint in
     ebind (if lsize = 15 then ebind (cr_varint32 r) (\<lambda>(v, n, r). Inr (v, rsize + n, r))
            else Inr (lsize, rsize, r)) (\<lambda>(lsize, rsize, r).
     if sint lsize \<ge> 0
     then ebind (getTType (size_and_type AND 0x0f)) (\<lambda>t. Inr ((t, lsize), rsize, r))
     else Inl NEGATIVE_SIZE))"

definition cr_bool_value :: "cp_reader \<Rightarrow> bool cr_result" where
  "cr_bool_value r =
     (case cr_bool r of
        Some v \<Rightarrow> Inr (v, 0, r\<lparr>cr_bool := None\<rparr>)
      | None \<Rightarrow> ebind (cr_byte r) (\<lambda>(b, n, r). Inr (b = CT_BOOLEAN_TRUE, 1, r)))"

section \<open>Bytes of a header\<close>

lemma take_bit_4: "b AND 0x0F = take_bit 4 (b :: byte)"
  by (simp add: take_bit_eq_mask mask_eq_exp_minus_1)

lemma nibble_low: "take_bit 4 c = c \<Longrightarrow> (push_bit 4 d OR c) AND 0x0F = (c :: byte)"
  unfolding take_bit_4 by (simp add: take_bit_or take_bit_push_bit)

lemma nibble_drop: "take_bit 4 c = c \<Longrightarrow> take_bit 4 d = d \<Longrightarrow> drop_bit 4 (push_bit 4 d OR c) = (d :: byte)"
proof -
  assume c: "take_bit 4 c = c" and d: "take_bit 4 d = d"
  have "drop_bit 4 c = drop_bit 4 (take_bit 4 c)" using c by simp
  also have "\<dots> = 0" by (simp add: drop_bit_take_bit)
  finally have c0: "drop_bit 4 c = 0" .
  have "drop_bit 4 (push_bit 4 d) = take_bit 4 d"
    by (rule bit_word_eqI) (auto simp: bit_simps)
  then show ?thesis using c0 d by (simp add: drop_bit_or)
qed

lemma nibble_high:
  "take_bit 4 c = c \<Longrightarrow> take_bit 4 d = d \<Longrightarrow> drop_bit 4 ((push_bit 4 d OR c) AND 0xF0) = (d :: byte)"
proof -
  assume c: "take_bit 4 c = c" and d: "take_bit 4 d = d"
  have "drop_bit 4 ((push_bit 4 d OR c) AND 0xF0) = drop_bit 4 (push_bit 4 d OR c) AND 0x0F"
    unfolding drop_bit_and by simp
  also have "\<dots> = take_bit 4 d" unfolding nibble_drop [OF c d] take_bit_4 ..
  finally show ?thesis using d by simp
qed

definition tt_ok :: "nat \<Rightarrow> bool" where
  "tt_ok t \<longleftrightarrow> t \<in> set [0, 2, 3, 4, 6, 8, 10, 11, 12, 13, 14, 15]"

definition tt_round :: "nat \<Rightarrow> bool" where
  "tt_round t \<longleftrightarrow>
     (case getCompactType t of
        None \<Rightarrow> False
      | Some c \<Rightarrow> getTType c = Inr t \<and> c AND 0x0F = c \<and> (c = 0 \<longleftrightarrow> t = 0) \<and> (c = 1 \<or> c = 2 \<longleftrightarrow> t = 2))"

lemma tt_round_all: "list_all tt_round [0, 2, 3, 4, 6, 8, 10, 11, 12, 13, 14, 15]"
  by code_simp

lemma compact_type_cases:
  assumes "tt_ok t"
  obtains c where "getCompactType t = Some c" "getTType c = Inr t" "take_bit 4 c = c"
    "c = 0 \<longleftrightarrow> t = 0" "c = 1 \<or> c = 2 \<longleftrightarrow> t = 2"
proof -
  have "tt_round t" using tt_round_all assms unfolding list_all_iff tt_ok_def by blast
  then show thesis using that by (auto simp: tt_round_def take_bit_4 split: option.splits)
qed

section \<open>What a write appends\<close>

definition cw_ok :: "cp_writer \<Rightarrow> bool" where
  "cw_ok w \<longleftrightarrow> bb_wf (cw_buf w) \<and> bb_owner (cw_buf w)"

definition cw_room :: "cp_writer \<Rightarrow> nat" where
  "cw_room w = bb_room (cw_buf w)"

definition cw_out :: "cp_writer \<Rightarrow> byte list" where
  "cw_out w = bb_bytes (cw_buf w)"

text \<open>The writer after \<open>d\<close> has been appended; the field numbers are as before.\<close>

definition cw_step :: "cp_writer \<Rightarrow> byte list \<Rightarrow> cp_writer \<Rightarrow> bool" where
  "cw_step w d w' \<longleftrightarrow>
     cw_ok w' \<and> cw_out w' = cw_out w @ d \<and> cw_room w' + length d = cw_room w \<and>
     cw_bool w' = cw_bool w \<and> cw_stack w' = cw_stack w \<and> cw_last w' = cw_last w"

lemma cw_step_trans: "cw_step w d1 w1 \<Longrightarrow> cw_step w1 d2 w2 \<Longrightarrow> cw_step w (d1 @ d2) w2"
  by (simp add: cw_step_def)

lemma cw_stepD:
  assumes "cw_step w d w'"
  shows "cw_ok w'" "cw_room w' + length d = cw_room w" "cw_last w' = cw_last w" "cw_bool w' = cw_bool w"
    "cw_stack w' = cw_stack w" "cw_out w' = cw_out w @ d"
  using assms by (simp_all add: cw_step_def)

lemma cw_write_step:
  assumes "cw_ok w" "length d \<le> cw_room w" "unat n = length d"
  shows "\<exists>b. bb_write h (cw_buf w) d n 100 = Some (True, b) \<and> cw_step w d (w\<lparr>cw_buf := b\<rparr>)"
proof -
  obtain b where b: "bb_write h (cw_buf w) d n 100 = Some (True, b)" "bb_wf b" "bb_owner b"
      "bb_bytes b = bb_bytes (cw_buf w) @ take (unat n) d" "bb_buffer_size b = bb_buffer_size (cw_buf w)"
      "bb_data_begin b = bb_data_begin (cw_buf w)"
    using bb_write_fits [of "cw_buf w" n d h 100] assms unfolding cw_ok_def cw_room_def by auto
  note wf = bb_wfD [OF b(2)] and wf0 = bb_wfD [of "cw_buf w"]
  have len: "length (bb_bytes b) = length (bb_bytes (cw_buf w)) + length d" using b(4) assms(3) by simp
  have "bb_room b + length d = bb_room (cw_buf w)"
    using len wf wf0 assms b(5,6) by (simp add: bb_bytes_def bb_room_def cw_ok_def)
  then show ?thesis using b assms(3) by (auto simp: cw_step_def cw_ok_def cw_out_def cw_room_def)
qed

lemma cw_byte_step:
  assumes "cw_ok w" "1 \<le> cw_room w"
  obtains w' where "cw_byte h b w = Some (1, w')" "cw_step w [b] w'"
  using cw_write_step [of w "[b]" 1 h] assms by (auto simp: cw_byte_def)

lemma cw_double_step:
  assumes "cw_ok w" "8 \<le> cw_room w"
  obtains w' where "cw_double h bits w = Some (8, w')" "cw_step w (le_bytes 8 bits) w'"
  using cw_write_step [of w "le_bytes 8 bits" 8 h] assms by (auto simp: cw_double_def)

lemma cw_store_step:
  assumes ok: "cw_ok w" and room: "unat room \<le> cw_room w" and len: "length d \<le> unat room"
  obtains w' where "cw_store room extra h d w = Some (word_of_nat (length d), w')" "cw_step w d w'"
proof -
  let ?b = "cw_buf w"
  have wf: "bb_wf ?b" "bb_owner ?b" using ok by (simp_all add: cw_ok_def)
  note w = bb_wfD [OF wf(1)]
  let ?m = "block (bb_buffer ?b)" and ?e = "unat (bb_data_end ?b)"
  let ?m' = "take ?e ?m @ d @ drop (?e + length d) ?m"
  have free: "\<not> bb_free_size ?b < room"
    using room unfolding cw_room_def by (simp add: word_less_nat_alt unat_bb_free_size wf)
  have pos: "bb_data_begin ?b + bb_data_size ?b = bb_data_end ?b" by (simp add: bb_data_size_def)
  have fits: "?e + length d \<le> unat (bb_buffer_size ?b)" using room len w unfolding cw_room_def bb_room_def by simp
  then have put: "mem_put ?m ?e d = Some ?m'" using w by (intro mem_put_ok) simp
  have ml: "length ?m' = length ?m" using fits w by simp
  have blk: "block (map_option (\<lambda>_. ?m') (bb_buffer ?b)) = ?m'"
    using fits w by (cases "bb_buffer ?b") auto
  let ?b1 = "?b\<lparr>bb_buffer := map_option (\<lambda>_. ?m') (bb_buffer ?b)\<rparr>"
  let ?n = "word_of_nat (length d) :: uint"
  have "length d < 2 ^ 32" using fits unat_le_lt32 [of "length d" "bb_buffer_size ?b"] by simp
  then have n: "unat ?n = length d" by (simp add: unat_of_nat)
  have e': "unat (bb_data_end ?b + ?n) = ?e + length d"
    using fits n unat_le_lt32 [of "?e + length d" "bb_buffer_size ?b"] by (simp add: unat_add_small)
  have adv: "bb_advance ?b1 ?n = ?b1\<lparr>bb_data_end := bb_data_end ?b + ?n\<rparr>"
    using e' fits by (simp add: bb_advance_def word_le_nat_alt)
  have bytes: "bb_bytes (bb_advance ?b1 ?n) = bb_bytes ?b @ d"
    unfolding adv bb_bytes_def using w by (simp add: e' blk window_append)
  have "bb_wf (bb_advance ?b1 ?n)" unfolding adv bb_wf_def using w by (simp add: e' blk ml fits)
  moreover have "bb_room (bb_advance ?b1 ?n) + length d = bb_room ?b"
    unfolding adv bb_room_def using fits by (simp add: e')
  ultimately have "cw_step w d (w\<lparr>cw_buf := bb_advance ?b1 ?n\<rparr>)"
    using wf(2) bytes by (simp add: cw_step_def cw_ok_def cw_out_def cw_room_def adv)
  moreover have "cw_store room extra h d w = Some (?n, w\<lparr>cw_buf := bb_advance ?b1 ?n\<rparr>)"
    unfolding cw_store_def Let_def using free pos put by simp
  ultimately show thesis by (rule that [rotated])
qed

lemma cw_varint32_step:
  assumes "cw_ok w" "5 \<le> cw_room w"
  obtains w' where "cw_varint32 h n w = Some (word_of_nat (length (varint32_bytes n)), w')"
    "cw_step w (varint32_bytes n) w'"
proof (rule cw_store_step [of w 5 "varint32_bytes n" 10 h])
  show "length (varint32_bytes n) \<le> unat (5 :: uint)"
    using length_varint32_le [of n] by (simp add: varint32_bytes_common)
qed (use assms that in \<open>simp_all add: cw_varint32_def\<close>)

lemma cw_varint64_step:
  assumes "cw_ok w" "10 \<le> cw_room w"
  obtains w' where "cw_varint64 h n w = Some (word_of_nat (length (varint64_bytes n)), w')"
    "cw_step w (varint64_bytes n) w'"
proof (rule cw_store_step [of w 10 "varint64_bytes n" 20 h])
  show "length (varint64_bytes n) \<le> unat (10 :: uint)"
    using length_varint64_le [of n] by (simp add: varint64_bytes_common)
qed (use assms that in \<open>simp_all add: cw_varint64_def\<close>)

section \<open>Calls\<close>

text \<open>
  The calls of a serialised structure.  A boolean field is one call: its header carries the value,
  and the generated code writes both together.
\<close>

datatype cp_call =
  C_message "byte list" uint uint
  | C_struct_begin
  | C_struct_end
  | C_field nat uint16
  | C_bool_field uint16 bool
  | C_field_stop
  | C_list nat uint
  | C_map nat nat uint
  | C_bool bool
  | C_byte byte
  | C_i16 uint16
  | C_i32 uint
  | C_i64 uint64
  | C_double uint64
  | C_binary "byte list"

fun cw_call :: "allocator \<Rightarrow> cp_call \<Rightarrow> cp_writer \<Rightarrow> cw_result" where
  "cw_call h (C_message name ty seqid) w = cw_message_begin h name ty seqid w"
| "cw_call h C_struct_begin w = cw_struct_begin w"
| "cw_call h C_struct_end w = cw_struct_end w"
| "cw_call h (C_field t fid) w = cw_field_begin h (Some []) t fid w"
| "cw_call h (C_bool_field fid v) w =
     do { (n1, w) \<leftarrow> cw_field_begin h (Some []) T_BOOL fid w; (n2, w) \<leftarrow> cw_bool_value h v w; Some (n1 + n2, w) }"
| "cw_call h C_field_stop w = cw_field_stop h w"
| "cw_call h (C_list t n) w = cw_collection_begin h t n w"
| "cw_call h (C_map k v n) w = cw_map_begin h k v n w"
| "cw_call h (C_bool v) w = cw_bool_value h v w"
| "cw_call h (C_byte b) w = cw_byte h b w"
| "cw_call h (C_i16 n) w = cw_i16 h n w"
| "cw_call h (C_i32 n) w = cw_i32 h n w"
| "cw_call h (C_i64 n) w = cw_i64 h n w"
| "cw_call h (C_double n) w = cw_double h n w"
| "cw_call h (C_binary s) w = cw_binary h s w"

text \<open>The reader makes the call of the same kind; which kind of field comes next, the header tells.\<close>

definition cr_field :: "cp_reader \<Rightarrow> cp_call cr_result" where
  "cr_field r = ebind (cr_field_begin r) (\<lambda>((t, fid), n, r).
     if t = T_STOP then Inr (C_field_stop, n, r)
     else if t = T_BOOL then ebind (cr_bool_value r) (\<lambda>(v, n2, r). Inr (C_bool_field fid v, n + n2, r))
     else Inr (C_field t fid, n, r))"

definition cr_wrap :: "('a \<Rightarrow> cp_call) \<Rightarrow> 'a cr_result \<Rightarrow> cp_call cr_result" where
  "cr_wrap f res = ebind res (\<lambda>(a, n, r). Inr (f a, n, r))"

lemma cr_wrap_simps [simp]: "cr_wrap f (Inr (a, n, r)) = Inr (f a, n, r)" "cr_wrap f (Inl e) = Inl e"
  by (simp_all add: cr_wrap_def)

fun cr_call :: "cp_call \<Rightarrow> cp_reader \<Rightarrow> cp_call cr_result" where
  "cr_call (C_message _ _ _) r = cr_wrap (\<lambda>(name, ty, seqid). C_message name ty seqid) (cr_message_begin r)"
| "cr_call C_struct_begin r = cr_wrap (\<lambda>_. C_struct_begin) (cr_struct_begin r)"
| "cr_call C_struct_end r = cr_wrap (\<lambda>_. C_struct_end) (cr_struct_end r)"
| "cr_call (C_field _ _) r = cr_field r"
| "cr_call (C_bool_field _ _) r = cr_field r"
| "cr_call C_field_stop r = cr_field r"
| "cr_call (C_list _ _) r = cr_wrap (\<lambda>(t, n). C_list t n) (cr_list_begin r)"
| "cr_call (C_map _ _ _) r = cr_wrap (\<lambda>(k, v, n). C_map k v n) (cr_map_begin r)"
| "cr_call (C_bool _) r = cr_wrap C_bool (cr_bool_value r)"
| "cr_call (C_byte _) r = cr_wrap C_byte (cr_byte r)"
| "cr_call (C_i16 _) r = cr_wrap C_i16 (cr_i16 r)"
| "cr_call (C_i32 _) r = cr_wrap C_i32 (cr_i32 r)"
| "cr_call (C_i64 _) r = cr_wrap C_i64 (cr_i64 r)"
| "cr_call (C_double _) r = cr_wrap C_double (cr_double r)"
| "cr_call (C_binary _) r = cr_wrap C_binary (cr_binary r)"

section \<open>Reading what was written\<close>

lemma ucast_scast16: "ucast (scast (n :: uint16) :: uint) = n"
  by (rule bit_word_eqI) (simp add: bit_simps)

lemma cr_byte_put [simp]: "cr_byte (r\<lparr>cr_buf := b # rest\<rparr>) = Inr (b, 1, r\<lparr>cr_buf := rest\<rparr>)"
  by (simp add: cr_byte_def readBuffer_def)

lemma cr_varint32_put [simp]:
  "cr_varint32 (r\<lparr>cr_buf := varint32_bytes n @ rest\<rparr>) = Inr (n, length (varint32_bytes n), r\<lparr>cr_buf := rest\<rparr>)"
  by (simp add: cr_varint32_def varint32_bytes_common read_varint32_common)

lemma cr_varint64_put [simp]:
  "cr_varint64 (r\<lparr>cr_buf := varint64_bytes n @ rest\<rparr>) = Inr (n, length (varint64_bytes n), r\<lparr>cr_buf := rest\<rparr>)"
  by (simp add: cr_varint64_def varint64_bytes_common read_varint64_common)

lemma cr_i16_put [simp]:
  "cr_i16 (r\<lparr>cr_buf := varint32_bytes (i32ToZigzag (scast n)) @ rest\<rparr>) =
     Inr (n, length (varint32_bytes (i32ToZigzag (scast n))), r\<lparr>cr_buf := rest\<rparr>)"
  by (simp add: cr_i16_def zigzag32_rt ucast_scast16)

lemma cr_i32_put [simp]:
  "cr_i32 (r\<lparr>cr_buf := varint32_bytes (i32ToZigzag n) @ rest\<rparr>) =
     Inr (n, length (varint32_bytes (i32ToZigzag n)), r\<lparr>cr_buf := rest\<rparr>)"
  by (simp add: cr_i32_def zigzag32_rt)

lemma cr_i64_put [simp]:
  "cr_i64 (r\<lparr>cr_buf := varint64_bytes (i64ToZigzag n) @ rest\<rparr>) =
     Inr (n, length (varint64_bytes (i64ToZigzag n)), r\<lparr>cr_buf := rest\<rparr>)"
  by (simp add: cr_i64_def zigzag64_rt)

lemma cr_double_put [simp]:
  "cr_double (r\<lparr>cr_buf := le_bytes 8 n @ rest\<rparr>) = Inr (n, 8, r\<lparr>cr_buf := rest\<rparr>)"
  by (simp add: cr_double_def readBuffer_def le_word_le_bytes)

definition binary_bytes :: "byte list \<Rightarrow> byte list" where
  "binary_bytes s = varint32_bytes (word_of_nat (length s)) @ s"

lemma sint_len: "n < 2 ^ 31 \<Longrightarrow> sint (word_of_nat n :: uint) = int n"
  using sint_word_of_int_small [of "int n", where 'a = 32] by simp

lemma cr_binary_put [simp]:
  assumes "length s < 2 ^ 31"
  shows "cr_binary (r\<lparr>cr_buf := binary_bytes s @ rest\<rparr>) = Inr (s, length (binary_bytes s), r\<lparr>cr_buf := rest\<rparr>)"
proof -
  have "sint (word_of_nat (length s) :: uint) = int (length s)" using assms by (rule sint_len)
  then show ?thesis
    by (cases "s = []") (simp_all add: cr_binary_def binary_bytes_def readBuffer_def)
qed

lemma cw_binary_step:
  assumes "cw_ok w" "length s + 5 \<le> cw_room w"
  obtains w' where "cw_binary h s w = Some (word_of_nat (length (binary_bytes s)), w')"
    "cw_step w (binary_bytes s) w'"
proof -
  let ?n = "word_of_nat (length s) :: uint"
  obtain w1 where w1: "cw_varint32 h ?n w = Some (word_of_nat (length (varint32_bytes ?n)), w1)"
      "cw_step w (varint32_bytes ?n) w1"
    using cw_varint32_step [of w h ?n] assms by auto
  note s1 = cw_stepD [OF w1(2)]
  have room: "length s \<le> cw_room w1"
    using s1(2) assms(2) length_varint32_le [of ?n] by (simp add: varint32_bytes_common)
  have "cw_room w1 \<le> unat (bb_buffer_size (cw_buf w1))" by (simp add: cw_room_def bb_room_def)
  then have "length s < 2 ^ 32" using room unat_le_lt32 [of "length s" "bb_buffer_size (cw_buf w1)"] by simp
  then have n: "unat ?n = length s" by (simp add: unat_of_nat)
  obtain b where b: "bb_write h (cw_buf w1) s ?n 100 = Some (True, b)" "cw_step w1 s (w1\<lparr>cw_buf := b\<rparr>)"
    using cw_write_step [OF s1(1) room n] by blast
  have "cw_binary h s w = Some (word_of_nat (length (binary_bytes s)), w1\<lparr>cw_buf := b\<rparr>)"
    using w1(1) b(1) by (simp add: cw_binary_def binary_bytes_def Let_def)
  moreover have "cw_step w (binary_bytes s) (w1\<lparr>cw_buf := b\<rparr>)"
    unfolding binary_bytes_def by (rule cw_step_trans [OF w1(2) b(2)])
  ultimately show thesis by (rule that)
qed

section \<open>Well-formed sequences of calls\<close>

text \<open>
  The nesting depth of structures is tracked; types are those of the wire format, lengths and
  sizes fit an \<^verbatim>\<open>int\<close>.
\<close>

fun cp_track :: "cp_call \<Rightarrow> nat \<Rightarrow> nat option" where
  "cp_track (C_message name ty seqid) d = (if length name < 2 ^ 31 then Some d else None)"
| "cp_track C_struct_begin d = Some (d + 1)"
| "cp_track C_struct_end d = (if d = 0 then None else Some (d - 1))"
| "cp_track (C_field t fid) d = (if tt_ok t \<and> t \<noteq> T_STOP \<and> t \<noteq> T_BOOL then Some d else None)"
| "cp_track (C_list t n) d = (if tt_ok t \<and> unat n < 2 ^ 31 then Some d else None)"
| "cp_track (C_map k v n) d = (if tt_ok k \<and> tt_ok v \<and> unat n < 2 ^ 31 then Some d else None)"
| "cp_track (C_binary s) d = (if length s < 2 ^ 31 then Some d else None)"
| "cp_track _ d = Some d"

text \<open>The free bytes a call asks of the buffer.\<close>

fun cp_need :: "cp_call \<Rightarrow> nat" where
  "cp_need (C_message name ty seqid) = 12 + length name"
| "cp_need C_struct_begin = 0"
| "cp_need C_struct_end = 0"
| "cp_need (C_field t fid) = 6"
| "cp_need (C_bool_field fid v) = 6"
| "cp_need C_field_stop = 1"
| "cp_need (C_list t n) = 6"
| "cp_need (C_map k v n) = 6"
| "cp_need (C_bool v) = 1"
| "cp_need (C_byte b) = 1"
| "cp_need (C_i16 n) = 5"
| "cp_need (C_i32 n) = 5"
| "cp_need (C_i64 n) = 10"
| "cp_need (C_double n) = 8"
| "cp_need (C_binary s) = 5 + length s"

text \<open>
  What the reader finds: the message type modulo four, and no types for an empty map, which is one
  zero byte on the wire.
\<close>

fun cp_norm :: "cp_call \<Rightarrow> cp_call" where
  "cp_norm (C_message name ty seqid) = C_message name (ty AND 3) seqid"
| "cp_norm (C_map k v n) = (if n = 0 then C_map T_STOP T_STOP 0 else C_map k v n)"
| "cp_norm c = c"

definition cp_sync :: "nat \<Rightarrow> cp_writer \<Rightarrow> cp_reader \<Rightarrow> bool" where
  "cp_sync d w r \<longleftrightarrow>
     cw_ok w \<and> cw_bool w = None \<and> cr_bool r = None \<and> cw_stack w = cr_stack r \<and> cw_last w = cr_last r \<and>
     length (cw_stack w) = d"

definition cp_step_ok :: "allocator \<Rightarrow> cp_call \<Rightarrow> nat \<Rightarrow> cp_writer \<Rightarrow> cp_reader \<Rightarrow> bool" where
  "cp_step_ok h c s' w r \<longleftrightarrow>
     (\<exists>d w' r'. cw_call h c w = Some (word_of_nat (length d), w') \<and> cw_out w' = cw_out w @ d \<and>
        length d \<le> cp_need c \<and> cw_room w' + length d = cw_room w \<and> cp_sync s' w' r' \<and>
        (\<forall>rest. cr_call c (r\<lparr>cr_buf := d @ rest\<rparr>) = Inr (cp_norm c, length d, r'\<lparr>cr_buf := rest\<rparr>)))"

text \<open>Calls that leave the field numbers alone.\<close>

lemma cp_plainI:
  assumes "cp_sync s w r" "cw_call h c w = Some (word_of_nat (length d), w')" "cw_step w d w'"
    and "length d \<le> cp_need c"
    and "\<And>rest. cr_call c (r\<lparr>cr_buf := d @ rest\<rparr>) = Inr (cp_norm c, length d, r\<lparr>cr_buf := rest\<rparr>)"
  shows "cp_step_ok h c s w r"
  unfolding cp_step_ok_def using assms
  by (intro exI [of _ d] exI [of _ w'] exI [of _ r]) (auto simp: cp_sync_def cw_step_def)

lemma length_v32: "length (varint32_bytes n) \<le> 5"
  by (simp add: varint32_bytes_common length_varint32_le)

lemma length_v64: "length (varint64_bytes n) \<le> 10"
  by (simp add: varint64_bytes_common length_varint64_le)

lemma cp_sync_ok: "cp_sync s w r \<Longrightarrow> cw_ok w"
  by (simp add: cp_sync_def)

lemma cp_byte_ok:
  assumes "cp_sync s w r" "1 \<le> cw_room w"
  shows "cp_step_ok h (C_byte b) s w r"
proof -
  obtain w' where w': "cw_byte h b w = Some (1, w')" "cw_step w [b] w'"
    using cw_byte_step [OF cp_sync_ok [OF assms(1)] assms(2)] .
  then show ?thesis by (intro cp_plainI [OF assms(1) _ w'(2)]) simp_all
qed

lemma cp_bool_ok:
  assumes "cp_sync s w r" "1 \<le> cw_room w"
  shows "cp_step_ok h (C_bool v) s w r"
proof -
  let ?c = "if v then CT_BOOLEAN_TRUE else CT_BOOLEAN_FALSE"
  obtain w' where w': "cw_byte h ?c w = Some (1, w')" "cw_step w [?c] w'"
    using cw_byte_step [OF cp_sync_ok [OF assms(1)] assms(2)] .
  show ?thesis
  proof (rule cp_plainI [OF assms(1) _ w'(2)])
    show "cw_call h (C_bool v) w = Some (word_of_nat (length [?c]), w')"
      using w'(1) assms(1) by (simp add: cw_bool_value_def cp_sync_def)
    show "cr_call (C_bool v) (r\<lparr>cr_buf := [?c] @ rest\<rparr>) = Inr (cp_norm (C_bool v), length [?c], r\<lparr>cr_buf := rest\<rparr>)"
      for rest
      using assms(1) by (simp add: cr_bool_value_def cp_sync_def CT_BOOLEAN_TRUE_def CT_BOOLEAN_FALSE_def)
  qed simp
qed

lemma cp_numbers_ok:
  assumes "cp_sync s w r"
  shows "5 \<le> cw_room w \<Longrightarrow> cp_step_ok h (C_i16 n16) s w r"
    and "5 \<le> cw_room w \<Longrightarrow> cp_step_ok h (C_i32 n32) s w r"
    and "10 \<le> cw_room w \<Longrightarrow> cp_step_ok h (C_i64 n64) s w r"
    and "8 \<le> cw_room w \<Longrightarrow> cp_step_ok h (C_double n64) s w r"
proof -
  note ok = cp_sync_ok [OF assms]
  show "cp_step_ok h (C_i16 n16) s w r" if room: "5 \<le> cw_room w"
  proof -
    obtain w' where w': "cw_varint32 h (i32ToZigzag (scast n16)) w =
        Some (word_of_nat (length (varint32_bytes (i32ToZigzag (scast n16)))), w')"
      "cw_step w (varint32_bytes (i32ToZigzag (scast n16))) w'" using cw_varint32_step [OF ok room] .
    then show ?thesis by (intro cp_plainI [OF assms _ w'(2)]) (simp_all add: cw_i16_def length_v32)
  qed
  show "cp_step_ok h (C_i32 n32) s w r" if room: "5 \<le> cw_room w"
  proof -
    obtain w' where w': "cw_varint32 h (i32ToZigzag n32) w =
        Some (word_of_nat (length (varint32_bytes (i32ToZigzag n32))), w')"
      "cw_step w (varint32_bytes (i32ToZigzag n32)) w'" using cw_varint32_step [OF ok room] .
    then show ?thesis by (intro cp_plainI [OF assms _ w'(2)]) (simp_all add: cw_i32_def length_v32)
  qed
  show "cp_step_ok h (C_i64 n64) s w r" if room: "10 \<le> cw_room w"
  proof -
    obtain w' where w': "cw_varint64 h (i64ToZigzag n64) w =
        Some (word_of_nat (length (varint64_bytes (i64ToZigzag n64))), w')"
      "cw_step w (varint64_bytes (i64ToZigzag n64)) w'" using cw_varint64_step [OF ok room] .
    then show ?thesis by (intro cp_plainI [OF assms _ w'(2)]) (simp_all add: cw_i64_def length_v64)
  qed
  show "cp_step_ok h (C_double n64) s w r" if room: "8 \<le> cw_room w"
  proof -
    obtain w' where w': "cw_double h n64 w = Some (8, w')" "cw_step w (le_bytes 8 n64) w'"
      using cw_double_step [OF ok room] .
    then show ?thesis by (intro cp_plainI [OF assms _ w'(2)]) simp_all
  qed
qed

lemma cp_binary_ok:
  assumes "cp_sync s w r" "5 + length d \<le> cw_room w" "length d < 2 ^ 31"
  shows "cp_step_ok h (C_binary d) s w r"
proof -
  have "length d + 5 \<le> cw_room w" using assms(2) by simp
  then obtain w' where w': "cw_binary h d w = Some (word_of_nat (length (binary_bytes d)), w')"
      "cw_step w (binary_bytes d) w'"
    by (rule cw_binary_step [OF cp_sync_ok [OF assms(1)]])
  then show ?thesis using length_v32 [of "word_of_nat (length d)"] assms(3)
    by (intro cp_plainI [OF assms(1) _ w'(2)]) (simp_all add: binary_bytes_def [symmetric], simp add: binary_bytes_def)
qed

text \<open>The second byte of a message: the version below, the type above.\<close>

definition version_byte :: "uint \<Rightarrow> byte" where
  "version_byte ty = (VERSION_N AND VERSION_MASK) OR (push_bit TYPE_SHIFT_AMOUNT (ucast ty) AND TYPE_MASK)"

lemma version_byte_low: "version_byte ty AND VERSION_MASK = VERSION_N"
proof -
  have "version_byte ty AND VERSION_MASK = take_bit 5 (1 OR (push_bit 5 (ucast ty) AND 0xE0))"
    by (simp add: version_byte_def VERSION_N_def VERSION_MASK_def TYPE_SHIFT_AMOUNT_def TYPE_MASK_def
        take_bit_eq_mask mask_eq_exp_minus_1)
  also have "\<dots> = 1" unfolding take_bit_or take_bit_and by (simp add: take_bit_push_bit)
  finally show ?thesis by (simp add: VERSION_N_def)
qed

lemma version_byte_type:
  "(scast (signed_drop_bit TYPE_SHIFT_AMOUNT (version_byte ty)) :: uint) AND 3 = ty AND 3"
proof -
  have m: "x AND 3 = take_bit 2 x" for x :: uint by (simp add: take_bit_eq_mask mask_eq_exp_minus_1)
  have "bit (0xE0 :: byte) (5 + i)" if "i < 2" for i
    using that by (cases i rule: nat.exhaust) (auto simp: less_Suc_eq numeral_2_eq_2)
  moreover have "\<not> bit (1 :: byte) (5 + i)" for i by (simp add: bit_1_iff)
  ultimately have "bit (version_byte ty) (5 + i) \<longleftrightarrow> bit ty i" if "i < 2" for i
    using that
    by (auto simp: version_byte_def VERSION_N_def VERSION_MASK_def TYPE_SHIFT_AMOUNT_def TYPE_MASK_def bit_simps)
  then show ?thesis unfolding m TYPE_SHIFT_AMOUNT_def
    by (intro bit_word_eqI) (auto simp: bit_simps add.commute)
qed

lemma cp_message_ok:
  assumes sync: "cp_sync s w r" and room: "12 + length name \<le> cw_room w" and len: "length name < 2 ^ 31"
  shows "cp_step_ok h (C_message name ty seqid) s w r"
proof -
  obtain w1 where w1: "cw_byte h PROTOCOL_ID w = Some (1, w1)" "cw_step w [PROTOCOL_ID] w1"
    using cw_byte_step [OF cp_sync_ok [OF sync]] room by auto
  note s1 = cw_stepD [OF w1(2)]
  obtain w2 where w2: "cw_byte h (version_byte ty) w1 = Some (1, w2)" "cw_step w1 [version_byte ty] w2"
    using cw_byte_step [OF s1(1)] s1(2) room by auto
  note s2 = cw_stepD [OF w2(2)]
  obtain w3 where w3: "cw_varint32 h seqid w2 = Some (word_of_nat (length (varint32_bytes seqid)), w3)"
      "cw_step w2 (varint32_bytes seqid) w3"
    using cw_varint32_step [OF s2(1)] s1(2) s2(2) room by auto
  note s3 = cw_stepD [OF w3(2)]
  have "length name + 5 \<le> cw_room w3" using s1(2) s2(2) s3(2) room length_v32 [of seqid] by simp
  then obtain w4 where w4: "cw_binary h name w3 = Some (word_of_nat (length (binary_bytes name)), w4)"
      "cw_step w3 (binary_bytes name) w4"
    using cw_binary_step [OF s3(1)] by blast
  let ?d = "[PROTOCOL_ID] @ [version_byte ty] @ varint32_bytes seqid @ binary_bytes name"
  have step: "cw_step w ?d w4" using w1(2) w2(2) w3(2) w4(2) by (blast intro: cw_step_trans)
  show ?thesis
  proof (rule cp_plainI [OF sync _ step])
    show "cw_call h (C_message name ty seqid) w = Some (word_of_nat (length ?d), w4)"
      using w1(1) w2(1) w3(1) w4(1)
      by (simp add: cw_message_begin_def version_byte_def [symmetric] algebra_simps)
    show "length ?d \<le> cp_need (C_message name ty seqid)"
      using length_v32 [of seqid] length_v32 [of "word_of_nat (length name)"] by (simp add: binary_bytes_def)
    show "cr_call (C_message name ty seqid) (r\<lparr>cr_buf := ?d @ rest\<rparr>) =
        Inr (cp_norm (C_message name ty seqid), length ?d, r\<lparr>cr_buf := rest\<rparr>)" for rest
      using len by (simp add: cr_message_begin_def version_byte_low version_byte_type Let_def)
  qed
qed

lemma cp_struct_ok:
  assumes "cp_sync s w r"
  shows "cp_step_ok h C_struct_begin (s + 1) w r"
    and "s \<noteq> 0 \<Longrightarrow> cp_step_ok h C_struct_end (s - 1) w r"
proof -
  show "cp_step_ok h C_struct_begin (s + 1) w r"
    unfolding cp_step_ok_def
    by (rule exI [of _ "[]"], rule exI [of _ "w\<lparr>cw_stack := cw_last w # cw_stack w, cw_last := 0\<rparr>"],
        rule exI [of _ "r\<lparr>cr_stack := cr_last r # cr_stack r, cr_last := 0\<rparr>"])
       (use assms in \<open>auto simp: cw_struct_begin_def cr_struct_begin_def cp_sync_def cw_ok_def cw_out_def cw_room_def\<close>)
  show "cp_step_ok h C_struct_end (s - 1) w r" if "s \<noteq> 0"
  proof -
    have st: "cr_stack r = cw_stack w" "length (cw_stack w) \<noteq> 0" using assms that by (auto simp: cp_sync_def)
    then obtain l ls where "cw_stack w = l # ls" by (cases "cw_stack w") auto
    with st have l: "cw_stack w = l # ls" "cr_stack r = l # ls" by simp_all
    show ?thesis unfolding cp_step_ok_def
      by (rule exI [of _ "[]"], rule exI [of _ "w\<lparr>cw_last := l, cw_stack := ls\<rparr>"],
          rule exI [of _ "r\<lparr>cr_last := l, cr_stack := ls\<rparr>"])
         (use assms l in \<open>auto simp: cw_struct_end_def cr_struct_end_def cp_sync_def cw_ok_def cw_out_def cw_room_def\<close>)
  qed
qed

text \<open>The header of a field: the difference to the last field in the upper half of the byte when it fits.\<close>

lemma small_byte:
  assumes "k < 16"
  shows "take_bit 4 (word_of_nat k :: byte) = word_of_nat k"
    and "(ucast (word_of_nat k :: byte) :: 'a::len word) = word_of_nat k"
    and "(word_of_nat k :: byte) = 0 \<longleftrightarrow> k = 0"
proof -
  have k: "take_bit 4 k = k" "take_bit 8 k = k" using assms by (simp_all add: take_bit_nat_eq_self_iff)
  show "take_bit 4 (word_of_nat k :: byte) = word_of_nat k" by (simp only: take_bit_of_nat k(1))
  show "(ucast (word_of_nat k :: byte) :: 'a word) = word_of_nat k" using k(2) by (simp add: unsigned_of_nat)
  have "unat (word_of_nat k :: byte) = k" using k(2) by (simp add: unsigned_of_nat)
  then show "(word_of_nat k :: byte) = 0 \<longleftrightarrow> k = 0" using unat_eq_0 [of "word_of_nat k :: byte"] by simp
qed

definition header_read :: "byte \<Rightarrow> nat \<Rightarrow> uint16 \<Rightarrow> byte list \<Rightarrow> cp_reader \<Rightarrow> bool" where
  "header_read c t fid d r \<longleftrightarrow>
     (\<forall>rest. cr_field_begin (r\<lparr>cr_buf := d @ rest\<rparr>) =
        Inr ((t, fid), length d, r\<lparr>cr_buf := rest, cr_last := fid,
               cr_bool := (if c = CT_BOOLEAN_TRUE \<or> c = CT_BOOLEAN_FALSE then Some (c = CT_BOOLEAN_TRUE)
                           else cr_bool r)\<rparr>))"

lemma cr_field_begin_head:
  assumes "b AND 0x0F = c" "drop_bit 4 (b AND 0xF0) = m" "c \<noteq> 0" "getTType c = Inr t"
  shows "cr_field_begin (r\<lparr>cr_buf := b # rest\<rparr>) =
    ebind (if m = 0 then ebind (cr_i16 (r\<lparr>cr_buf := rest\<rparr>)) (\<lambda>(i, n, r). Inr (i, 1 + n, r))
           else Inr (cr_last r + ucast m, 1, r\<lparr>cr_buf := rest\<rparr>)) (\<lambda>(fid, n, r).
      Inr ((t, fid), n, (if c = CT_BOOLEAN_TRUE \<or> c = CT_BOOLEAN_FALSE
                         then r\<lparr>cr_bool := Some (c = CT_BOOLEAN_TRUE)\<rparr> else r)\<lparr>cr_last := fid\<rparr>))"
  by (simp only: cr_field_begin_def cr_byte_put ebind_simps prod.case Let_def assms simp_thms if_False) simp

lemma cw_field_internal_step:
  assumes ok: "cw_ok w" and room: "6 \<le> cw_room w" and last: "cr_last r = cw_last w"
    and c: "(case ov of None \<Rightarrow> getCompactType ft | Some t \<Rightarrow> Some t) = Some c"
      "take_bit 4 c = c" "c \<noteq> 0" "getTType c = Inr t"
  obtains d w' where "cw_field_internal h ft fid ov w = Some (word_of_nat (length d), w'\<lparr>cw_last := fid\<rparr>)"
    "cw_step w d w'" "length d \<le> 6" "header_read c t fid d r"
proof (cases "0 < sint fid - sint (cw_last w) \<and> sint fid - sint (cw_last w) \<le> 15")
  case True
  define k where "k = nat (sint fid - sint (cw_last w))"
  have k: "sint fid - sint (cw_last w) = int k" "0 < k" "k < 16"
    unfolding k_def using True by (simp, simp, linarith)
  let ?b = "push_bit 4 (word_of_nat k) OR c"
  obtain w1 where w1: "cw_byte h ?b w = Some (1, w1)" "cw_step w [?b] w1"
    using cw_byte_step [OF ok] room by auto
  have fid: "cr_last r + ucast (word_of_nat k :: byte) = fid"
  proof -
    have "word_of_nat k = fid - cw_last w"
      using arg_cong [OF k(1), of "word_of_int :: int \<Rightarrow> uint16"] by (simp add: of_int_diff)
    then show ?thesis by (simp add: last small_byte(2) [OF k(3)])
  qed
  have "header_read c t fid [?b] r"
    unfolding header_read_def
    using cr_field_begin_head [OF nibble_low [OF c(2)] nibble_high [OF c(2) small_byte(1) [OF k(3)]] c(3,4), where r = r]
      fid k small_byte(1,3) [OF k(3)] by simp
  moreover have "cw_field_internal h ft fid ov w = Some (word_of_nat (length [?b]), w1\<lparr>cw_last := fid\<rparr>)"
    unfolding cw_field_internal_def using c(1) w1(1) k by (simp add: Let_def)
  ultimately show thesis using w1(2) by (intro that [of "[?b]" w1]) simp_all
next
  case False
  obtain w1 where w1: "cw_byte h c w = Some (1, w1)" "cw_step w [c] w1"
    using cw_byte_step [OF ok] room by auto
  note s1 = cw_stepD [OF w1(2)]
  let ?z = "varint32_bytes (i32ToZigzag (scast fid))"
  have "5 \<le> cw_room w1" using s1(2) room by simp
  then obtain w2 where w2: "cw_i16 h fid w1 = Some (word_of_nat (length ?z), w2)" "cw_step w1 ?z w2"
    unfolding cw_i16_def using cw_varint32_step [OF s1(1)] by blast
  have low: "c AND 0x0F = c" and "drop_bit 4 c = 0"
    using c(2) nibble_drop [OF c(2), of 0] by (simp_all add: take_bit_4)
  then have high: "drop_bit 4 (c AND 0xF0) = 0" unfolding drop_bit_and by simp
  have "header_read c t fid ([c] @ ?z) r"
    unfolding header_read_def using cr_field_begin_head [OF low high c(3,4), where r = r] by simp
  moreover have "cw_field_internal h ft fid ov w = Some (word_of_nat (length ([c] @ ?z)), w2\<lparr>cw_last := fid\<rparr>)"
    unfolding cw_field_internal_def using False c(1) w1(1) w2(1) s1(3) by (auto simp: Let_def)
  ultimately show thesis using cw_step_trans [OF w1(2) w2(2)] length_v32 [of "i32ToZigzag (scast fid)"]
    by (intro that [of "[c] @ ?z" w2]) simp_all
qed

lemma cp_fieldI:
  assumes "cp_sync s w r" "cw_call h c w = Some (word_of_nat (length d), w'\<lparr>cw_last := fid\<rparr>)" "cw_step w d w'"
    and "length d \<le> cp_need c"
    and "\<And>rest. cr_call c (r\<lparr>cr_buf := d @ rest\<rparr>) = Inr (cp_norm c, length d, r\<lparr>cr_buf := rest, cr_last := fid\<rparr>)"
  shows "cp_step_ok h c s w r"
  unfolding cp_step_ok_def using assms
  by (intro exI [of _ d] exI [of _ "w'\<lparr>cw_last := fid\<rparr>"] exI [of _ "r\<lparr>cr_last := fid\<rparr>"])
     (auto simp: cp_sync_def cw_step_def cw_ok_def cw_out_def cw_room_def)

lemma cp_field_ok:
  assumes sync: "cp_sync s w r" and room: "6 \<le> cw_room w" and t: "tt_ok t" "t \<noteq> T_STOP" "t \<noteq> T_BOOL"
  shows "cp_step_ok h (C_field t fid) s w r"
proof -
  obtain c where c: "getCompactType t = Some c" "getTType c = Inr t" "take_bit 4 c = c" "c \<noteq> 0"
      "c \<noteq> CT_BOOLEAN_TRUE" "c \<noteq> CT_BOOLEAN_FALSE"
    using compact_type_cases [OF t(1)] t(2,3)
    by (metis T_STOP_def T_BOOL_def CT_BOOLEAN_TRUE_def CT_BOOLEAN_FALSE_def)
  have last: "cr_last r = cw_last w" using sync by (simp add: cp_sync_def)
  obtain d w' where d: "cw_field_internal h t fid None w = Some (word_of_nat (length d), w'\<lparr>cw_last := fid\<rparr>)"
      "cw_step w d w'" "length d \<le> 6" "header_read c t fid d r"
    by (rule cw_field_internal_step [OF cp_sync_ok [OF sync] room last _ c(3,4,2), where ov = None and ft = t])
       (simp add: c(1))
  show ?thesis
  proof (rule cp_fieldI [OF sync _ d(2)])
    show "cw_call h (C_field t fid) w = Some (word_of_nat (length d), w'\<lparr>cw_last := fid\<rparr>)"
      using d(1) t(3) by (simp add: cw_field_begin_def)
    show "cr_call (C_field t fid) (r\<lparr>cr_buf := d @ rest\<rparr>) =
        Inr (cp_norm (C_field t fid), length d, r\<lparr>cr_buf := rest, cr_last := fid\<rparr>)" for rest
      using d(4) c t by (simp add: cr_field_def header_read_def)
  qed (use d(3) in simp)
qed

lemma cp_bool_field_ok:
  assumes sync: "cp_sync s w r" and room: "6 \<le> cw_room w"
  shows "cp_step_ok h (C_bool_field fid v) s w r"
proof -
  let ?c = "if v then CT_BOOLEAN_TRUE else CT_BOOLEAN_FALSE"
  let ?w = "w\<lparr>cw_bool := Some (T_BOOL, fid)\<rparr>"
  have w: "cw_ok ?w" "6 \<le> cw_room ?w" "cr_last r = cw_last ?w"
    using sync room by (simp_all add: cp_sync_def cw_ok_def cw_room_def)
  have c: "take_bit 4 ?c = ?c" "?c \<noteq> 0" "getTType ?c = Inr T_BOOL"
    by (simp_all add: CT_BOOLEAN_TRUE_def CT_BOOLEAN_FALSE_def getTType_def)
  obtain d w' where d: "cw_field_internal h T_BOOL fid (Some ?c) ?w = Some (word_of_nat (length d), w'\<lparr>cw_last := fid\<rparr>)"
      "cw_step ?w d w'" "length d \<le> 6" "header_read ?c T_BOOL fid d r"
    by (rule cw_field_internal_step [OF w _ c, where ov = "Some ?c" and ft = T_BOOL]) simp
  have step: "cw_step w d (w'\<lparr>cw_bool := None\<rparr>)"
    using d(2) sync by (simp add: cw_step_def cw_ok_def cw_out_def cw_room_def cp_sync_def)
  have "CT_BOOLEAN_TRUE \<noteq> CT_BOOLEAN_FALSE" by (simp add: CT_BOOLEAN_TRUE_def CT_BOOLEAN_FALSE_def)
  moreover have "r\<lparr>cr_buf := rest, cr_last := fid, cr_bool := None\<rparr> = r\<lparr>cr_buf := rest, cr_last := fid\<rparr>" for rest
    using sync by (simp add: cp_sync_def)
  ultimately have read: "cr_call (C_bool_field fid v) (r\<lparr>cr_buf := d @ rest\<rparr>) =
      Inr (cp_norm (C_bool_field fid v), length d, r\<lparr>cr_buf := rest, cr_last := fid\<rparr>)" for rest
    using d(4) by (cases v) (simp_all add: cr_field_def header_read_def T_STOP_def T_BOOL_def cr_bool_value_def)
  show ?thesis
  proof (rule cp_fieldI [OF sync _ step])
    show "cw_call h (C_bool_field fid v) w = Some (word_of_nat (length d), (w'\<lparr>cw_bool := None\<rparr>)\<lparr>cw_last := fid\<rparr>)"
      using d(1) by (simp add: cw_field_begin_def cw_bool_value_def)
  qed (use d(3) read in simp_all)
qed

lemma cp_field_stop_ok:
  assumes "cp_sync s w r" "1 \<le> cw_room w"
  shows "cp_step_ok h C_field_stop s w r"
proof -
  obtain w' where w': "cw_byte h 0 w = Some (1, w')" "cw_step w [0] w'"
    using cw_byte_step [OF cp_sync_ok [OF assms(1)] assms(2)] .
  then show ?thesis
    by (intro cp_plainI [OF assms(1) _ w'(2)])
       (simp_all add: cw_field_stop_def T_STOP_def cr_field_def cr_field_begin_def)
qed

text \<open>Lists and maps: short sizes share the byte with the element type.\<close>

lemma cp_list_ok:
  assumes sync: "cp_sync s w r" and room: "6 \<le> cw_room w" and t: "tt_ok t" and n: "unat n < 2 ^ 31"
  shows "cp_step_ok h (C_list t n) s w r"
proof -
  obtain c where c: "getCompactType t = Some c" "getTType c = Inr t" "take_bit 4 c = c"
    using compact_type_cases [OF t] by metis
  have sn: "sint n = int (unat n)" using sint_len [OF n] by simp
  note ok = cp_sync_ok [OF sync]
  have low: "c AND 0x0F = c" "drop_bit 4 c = 0"
    using c(3) nibble_drop [OF c(3), of 0] by (simp_all add: take_bit_4)
  show ?thesis
  proof (cases "unat n \<le> 14")
    case True
    define k where "k = unat n"
    have k: "k < 16" "k \<noteq> 15" "ucast n = (word_of_nat k :: byte)" "n = word_of_nat k"
      using True by (simp_all add: k_def)
    let ?b = "push_bit 4 (word_of_nat k) OR c"
    obtain w' where w': "cw_byte h ?b w = Some (1, w')" "cw_step w [?b] w'"
      using cw_byte_step [OF ok] room by auto
    have d: "drop_bit 4 ?b = word_of_nat k" by (rule nibble_drop [OF c(3) small_byte(1) [OF k(1)]])
    have l: "?b AND 0x0F = c" by (rule nibble_low [OF c(3)])
    have m: "(word_of_nat k :: byte) AND 0x0F = word_of_nat k" unfolding take_bit_4 by (rule small_byte(1) [OF k(1)])
    have u: "(ucast (word_of_nat k :: byte) :: uint) = n" unfolding k(4) by (rule small_byte(2) [OF k(1)])
    have n15: "n \<noteq> 15" using k(2) by (auto simp: k_def)
    have "cr_list_begin (r\<lparr>cr_buf := ?b # rest\<rparr>) = Inr ((t, n), 1, r\<lparr>cr_buf := rest\<rparr>)" for rest
      by (simp only: cr_list_begin_def cr_byte_put ebind_simps prod.case Let_def d l m u n15 if_False c(2) sn)
        (simp add: c(2))
    moreover have "sint n \<le> 14" unfolding sn using True by linarith
    ultimately show ?thesis using w'(1) c(1) k(3)
      by (intro cp_plainI [OF sync _ w'(2)]) (simp_all add: cw_collection_begin_def)
  next
    case False
    let ?b = "0xF0 OR c"
    obtain w1 where w1: "cw_byte h ?b w = Some (1, w1)" "cw_step w [?b] w1"
      using cw_byte_step [OF ok] room by auto
    note s1 = cw_stepD [OF w1(2)]
    have "5 \<le> cw_room w1" using s1(2) room by simp
    then obtain w2 where w2: "cw_varint32 h n w1 = Some (word_of_nat (length (varint32_bytes n)), w2)"
        "cw_step w1 (varint32_bytes n) w2"
      using cw_varint32_step [OF s1(1)] by blast
    have b: "?b = push_bit 4 15 OR c" by simp
    have d: "drop_bit 4 ?b = 15" unfolding b by (rule nibble_drop [OF c(3)]) simp
    have l: "?b AND 0x0F = c" unfolding b by (rule nibble_low [OF c(3)])
    have "cr_list_begin (r\<lparr>cr_buf := ?b # varint32_bytes n @ rest\<rparr>) =
        Inr ((t, n), 1 + length (varint32_bytes n), r\<lparr>cr_buf := rest\<rparr>)" for rest
      by (simp only: cr_list_begin_def cr_byte_put ebind_simps prod.case Let_def d l) (simp add: c(2) sn)
    moreover have "\<not> sint n \<le> 14" unfolding sn using False by linarith
    ultimately show ?thesis using w1(1) w2(1) c(1) length_v32 [of n]
      by (intro cp_plainI [OF sync _ cw_step_trans [OF w1(2) w2(2)]]) (simp_all add: cw_collection_begin_def)
  qed
qed

lemma cp_map_ok:
  assumes sync: "cp_sync s w r" and room: "6 \<le> cw_room w" and t: "tt_ok k" "tt_ok v" and n: "unat n < 2 ^ 31"
  shows "cp_step_ok h (C_map k v n) s w r"
proof -
  note ok = cp_sync_ok [OF sync]
  have sn: "sint n = int (unat n)" using sint_len [OF n] by simp
  show ?thesis
  proof (cases "n = 0")
    case True
    obtain w' where w': "cw_byte h 0 w = Some (1, w')" "cw_step w [0] w'"
      using cw_byte_step [OF ok] room by auto
    have z: "cr_varint32 (r\<lparr>cr_buf := 0 # rest\<rparr>) = Inr (0, 1, r\<lparr>cr_buf := rest\<rparr>)" for rest
      using cr_varint32_put [where n = 0 and r = r and rest = rest] by (simp add: varint32_bytes_def)
    show ?thesis using w'(1) True
      by (intro cp_plainI [OF sync _ w'(2)]) (simp_all add: cw_map_begin_def cr_map_begin_def z getTType_def T_STOP_def)
  next
    case False
    obtain ck where ck: "getCompactType k = Some ck" "getTType ck = Inr k" "take_bit 4 ck = ck"
      using compact_type_cases [OF t(1)] by metis
    obtain cv where cv: "getCompactType v = Some cv" "getTType cv = Inr v" "take_bit 4 cv = cv"
      using compact_type_cases [OF t(2)] by metis
    let ?b = "push_bit 4 ck OR cv"
    have "5 \<le> cw_room w" using room by simp
    then obtain w1 where w1: "cw_varint32 h n w = Some (word_of_nat (length (varint32_bytes n)), w1)"
        "cw_step w (varint32_bytes n) w1"
      using cw_varint32_step [OF ok] by blast
    note s1 = cw_stepD [OF w1(2)]
    have "1 \<le> cw_room w1" using s1(2) room length_v32 [of n] by simp
    then obtain w2 where w2: "cw_byte h ?b w1 = Some (1, w2)" "cw_step w1 [?b] w2"
      using cw_byte_step [OF s1(1)] by blast
    have d: "drop_bit 4 ?b = ck" by (rule nibble_drop [OF cv(3) ck(3)])
    have l: "?b AND 0xF = cv" by (rule nibble_low [OF cv(3)])
    have "0 < unat n" using False by (simp add: unat_gt_0)
    then have "0 < sint n" unfolding sn by linarith
    then have "cr_map_begin (r\<lparr>cr_buf := varint32_bytes n @ ?b # rest\<rparr>) =
        Inr ((k, v, n), length (varint32_bytes n) + 1, r\<lparr>cr_buf := rest\<rparr>)" for rest
      by (simp only: cr_map_begin_def cr_varint32_put cr_byte_put ebind_simps prod.case if_True d l ck(2) cv(2))
    then show ?thesis using w1(1) w2(1) False ck(1) cv(1) length_v32 [of n]
      by (intro cp_plainI [OF sync _ cw_step_trans [OF w1(2) w2(2)]]) (simp_all add: cw_map_begin_def)
  qed
qed

section \<open>The protocol\<close>

lemma cp_step:
  assumes "cp_sync s w r" "cp_track c s = Some s'" "cp_need c \<le> cw_room w"
  shows "cp_step_ok h c s' w r"
  using assms
  by (cases c) (auto split: if_splits intro: cp_message_ok cp_struct_ok(1) [simplified] cp_struct_ok(2) [simplified]
      cp_field_ok cp_bool_field_ok cp_field_stop_ok cp_list_ok cp_map_ok cp_bool_ok cp_byte_ok cp_numbers_ok cp_binary_ok)

interpretation compact: wire_protocol "cw_call h" cr_call cp_track cw_out cw_room
    "\<lambda>bytes r. r\<lparr>cr_buf := bytes\<rparr>" cp_need cp_sync cp_norm for h
  by unfold_locales (rule cp_step [unfolded cp_step_ok_def])

definition cr_new :: "byte list \<Rightarrow> cp_reader" where
  "cr_new data = \<lparr>cr_buf = data, cr_bool = None, cr_stack = [], cr_last = 0\<rparr>"

lemma cr_new_feed: "cr_new data = (cr_new [])\<lparr>cr_buf := data\<rparr>"
  by (simp add: cr_new_def)

lemma cp_sync_new: "bb_wf buf \<Longrightarrow> bb_owner buf \<Longrightarrow> cp_sync 0 (cw_new buf) (cr_new data)"
  by (simp add: cp_sync_def cw_new_def cr_new_def cw_ok_def)

text \<open>C10: A fresh writer appends, for any well-nested sequence of calls, exactly the bytes it reports; a
  fresh reader that makes the same calls on these bytes gets what was written, up to two changes of
  \<open>cp_norm\<close>, and stops at their end, whatever follows.  The changes: the message type is read back
  modulo four, so \<^verbatim>\<open>T_ONEWAY\<close> is lost (\<open>compact_oneway_lost\<close>), and an empty map has no types.  The
  conditions: the buffer owns its block and has room for the whole sequence (\<open>cp_need\<close>) before
  the first call, names, strings and sizes are below \<open>2 ^ 31\<close>, and types are those of the
  protocol's table, with boolean fields written as such.\<close>

theorem compact_roundtrip:
  assumes "bb_wf buf" "bb_owner buf" "wire_track cp_track cs 0 = Some s"
    and "sum_list (map cp_need cs) \<le> bb_room buf"
  shows "\<exists>bytes w r. wire_put_all (cw_call h) cs (cw_new buf) = Some (word_of_nat (length bytes), w) \<and>
           bb_bytes (cw_buf w) = bb_bytes buf @ bytes \<and>
           (\<forall>rest. wire_get_all cr_call cs (cr_new (bytes @ rest)) =
                     Inr (map cp_norm cs, length bytes, r\<lparr>cr_buf := rest\<rparr>))"
proof -
  have room: "sum_list (map cp_need cs) \<le> cw_room (cw_new buf)" using assms(4) by (simp add: cw_room_def cw_new_def)
  have out: "cw_out (cw_new buf) = bb_bytes buf" by (simp add: cw_out_def cw_new_def)
  show ?thesis
    using compact.put_get_all [OF cp_sync_new [OF assms(1,2), of "[]"] assms(3) room, of h]
    unfolding cr_new_feed [symmetric] out by (auto simp: cw_out_def)
qed

definition demo_compact :: "cp_call list" where
  "demo_compact = [C_message [112] 1 7, C_struct_begin, C_field 8 1, C_i32 300, C_bool_field 2 True, C_field_stop,
     C_struct_end]"

theorem compact_roundtrip_witness:
  "\<exists>bytes w r. wire_put_all (cw_call \<lparr>heap_ok = \<lambda>_. True, heap_junk = \<lambda>_. 0\<rparr>) demo_compact
        (cw_new (bb_new_size \<lparr>heap_ok = \<lambda>_. True, heap_junk = \<lambda>_. 0\<rparr> 64)) = Some (word_of_nat (length bytes), w) \<and>
     bb_bytes (cw_buf w) = bb_bytes (bb_new_size \<lparr>heap_ok = \<lambda>_. True, heap_junk = \<lambda>_. 0\<rparr> 64) @ bytes \<and>
     (\<forall>rest. wire_get_all cr_call demo_compact (cr_new (bytes @ rest)) =
               Inr (map cp_norm demo_compact, length bytes, r\<lparr>cr_buf := rest\<rparr>))"
  by (rule compact_roundtrip [where s = 0])
     (simp_all add: demo_compact_def bb_new_size_def sl_malloc_def bb_room_def tt_ok_def T_STOP_def T_BOOL_def
       bb_wf_def)

text \<open>
  A one-way message (type \<^verbatim>\<open>T_ONEWAY\<close>, 4) is read back as type \<open>0\<close>: the writer gives
  the type three bits, the reader keeps two of them.\<close>

theorem compact_oneway_lost:
  assumes "bb_wf buf" "bb_owner buf" "12 + length name \<le> bb_room buf" "length name < 2 ^ 31"
  shows "\<exists>bytes w r. cw_message_begin h name 4 seqid (cw_new buf) = Some (word_of_nat (length bytes), w) \<and>
           bb_bytes (cw_buf w) = bb_bytes buf @ bytes \<and>
           cr_message_begin (cr_new bytes) = Inr ((name, 0, seqid), length bytes, r)"
proof -
  have "12 + length name \<le> cw_room (cw_new buf)" using assms(3) by (simp add: cw_room_def cw_new_def)
  from cp_message_ok [OF cp_sync_new [OF assms(1,2), of "[]"] this assms(4), of h 4 seqid]
  obtain d w r where d: "cw_message_begin h name 4 seqid (cw_new buf) = Some (word_of_nat (length d), w)"
      "cw_out w = cw_out (cw_new buf) @ d"
      "\<And>rest. cr_call (C_message name 4 seqid) ((cr_new [])\<lparr>cr_buf := d @ rest\<rparr>) =
         Inr (C_message name 0 seqid, length d, r\<lparr>cr_buf := rest\<rparr>)"
    unfolding cp_step_ok_def by auto
  have "cr_message_begin (cr_new d) = Inr ((name, 0, seqid), length d, r\<lparr>cr_buf := []\<rparr>)"
    using d(3) [of "[]"] unfolding cr_new_feed [symmetric]
    by (auto simp: cr_wrap_def ebind_def split: sum.splits)
  then show ?thesis using d(1,2) by (auto simp: cw_out_def cw_new_def)
qed

theorem compact_oneway_lost_witness:
  "\<exists>bytes w r. cw_message_begin \<lparr>heap_ok = \<lambda>_. True, heap_junk = \<lambda>_. 0\<rparr> [112] 4 7
        (cw_new (bb_new_size \<lparr>heap_ok = \<lambda>_. True, heap_junk = \<lambda>_. 0\<rparr> 64)) = Some (word_of_nat (length bytes), w) \<and>
     bb_bytes (cw_buf w) = bb_bytes (bb_new_size \<lparr>heap_ok = \<lambda>_. True, heap_junk = \<lambda>_. 0\<rparr> 64) @ bytes \<and>
     cr_message_begin (cr_new bytes) = Inr (([112], 0, 7), length bytes, r)"
  by (rule compact_oneway_lost) (simp_all add: bb_new_size_def sl_malloc_def bb_room_def bb_wf_def)

text \<open>
  A number written when fewer than five bytes are free makes the writer call
  \<^verbatim>\<open>reserve\<close>, which sets the indices of the buffer back: everything written before is
  gone and the buffer holds the number alone.\<close>

theorem compact_varint_drops_data:
  assumes "bb_wf buf" "bb_owner buf" "bb_room buf < 5" "2 * unat (bb_buffer_size buf) + 10 < 2 ^ 32"
    and "heap_ok h (2 * unat (bb_buffer_size buf) + 10)"
  shows "\<exists>w. cw_varint32 h n (cw_new buf) = Some (word_of_nat (length (varint32_bytes n)), w) \<and>
           bb_bytes (cw_buf w) = varint32_bytes n"
proof -
  let ?n = "2 * bb_buffer_size buf + 10"
  have "unat (2 * bb_buffer_size buf) = 2 * unat (bb_buffer_size buf)"
    using assms(4) by (simp add: unat_word_ariths)
  then have n: "unat ?n = 2 * unat (bb_buffer_size buf) + 10" using assms(4) by (simp add: unat_word_ariths)
  then have "bb_buffer_size buf < ?n" by (simp add: word_less_nat_alt)
  then obtain b where b: "bb_reserve h buf ?n = (True, b)" "bb_wf b" "bb_owner b" "bb_bytes b = []"
      "bb_buffer_size b = ?n" "bb_data_begin b = 0" "bb_data_end b = 0"
    using bb_reserve_grows [OF assms(2), of ?n h] assms(5) n by auto
  have room: "5 \<le> cw_room (cw_new b)" using n by (simp add: cw_room_def cw_new_def bb_room_def b)
  have ok: "cw_ok (cw_new b)" using b by (simp add: cw_ok_def cw_new_def)
  have free: "bb_free_size buf < 5" "\<not> bb_free_size b < 5"
    using assms(1,3) b(2) room unat_bb_free_size by (simp_all add: word_less_nat_alt cw_room_def cw_new_def)
  have "cw_varint32 h n (cw_new buf) = cw_varint32 h n (cw_new b)"
    using b(1) free by (simp add: cw_varint32_def cw_store_def cw_new_def)
  moreover obtain w where w: "cw_varint32 h n (cw_new b) = Some (word_of_nat (length (varint32_bytes n)), w)"
      "cw_step (cw_new b) (varint32_bytes n) w"
    using cw_varint32_step [OF ok room] .
  moreover have "bb_bytes (cw_buf w) = varint32_bytes n"
    using cw_stepD(6) [OF w(2)] b(4) by (simp add: cw_out_def cw_new_def)
  ultimately show ?thesis by auto
qed

theorem compact_varint_drops_data_witness:
  "\<exists>w. cw_varint32 \<lparr>heap_ok = \<lambda>_. True, heap_junk = \<lambda>_. 0\<rparr> 300 (cw_new
       \<lparr>bb_buffer = Some [1, 2, 3, 4], bb_buffer_size = 4, bb_data_begin = 0, bb_data_end = 3, bb_owner = True\<rparr>) =
     Some (word_of_nat (length (varint32_bytes 300)), w) \<and> bb_bytes (cw_buf w) = varint32_bytes 300"
  by (rule compact_varint_drops_data) (simp_all add: bb_wf_def bb_room_def)

end
