(* ===== verification/SL_Ring.thy ===== *)
theory SL_Ring
  imports SL_Prelude
begin

text \<open>
  What the ring queues share: a block read as a ring, and the contract of a bounded queue as the
  locale \<open>bounded_queue\<close>, whose client is a run of any sequence of calls.
\<close>

section \<open>Blocks as rings\<close>

text \<open>The \<open>n\<close> elements from position \<open>s\<close> on, around the end of the block.\<close>

definition ring :: "'a list \<Rightarrow> nat \<Rightarrow> nat \<Rightarrow> 'a list" where
  "ring m s n = map (\<lambda>i. m ! ((s + i) mod length m)) [0..<n]"

lemma length_ring [simp]: "length (ring m s n) = n"
  by (simp add: ring_def)

lemma nth_ring [simp]: "i < n \<Longrightarrow> ring m s n ! i = m ! ((s + i) mod length m)"
  by (simp add: ring_def)

lemma ring_0 [simp]: "ring m s 0 = []"
  by (simp add: ring_def)

lemma ring_mod [simp]: "ring m (s mod length m) n = ring m s n"
  by (simp add: ring_def mod_simps)

lemma ring_mod_len: "length m = c \<Longrightarrow> ring m (s mod c) n = ring m s n"
  by (simp add: ring_def mod_simps)

lemma ring_Cons: "ring m s (Suc n) = m ! (s mod length m) # ring m (Suc s) n"
  by (rule nth_equalityI) (auto simp: nth_Cons split: nat.splits)

lemma ring_pos_inj:
  assumes "(s + i) mod c = (s + j) mod c" "i < c" "j < (c :: nat)"
  shows "i = j"
proof -
  have "int c dvd int i - int j"
    using assms(1) by (metis add_diff_cancel_left mod_eq_dvd_iff of_nat_add of_nat_mod)
  moreover have "\<bar>int i - int j\<bar> < int c" using assms(2,3) by linarith
  ultimately show ?thesis using dvd_imp_le_int [of "int i - int j" "int c"] by (cases "i = j") auto
qed

lemma ring_update_other:
  assumes "n \<le> k" "k < length m"
  shows "ring (m[(s + k) mod length m := v]) s n = ring m s n"
proof (rule nth_equalityI)
  fix i assume "i < length (ring (m[(s + k) mod length m := v]) s n)"
  then have i: "i < n" by simp
  then have "(s + k) mod length m \<noteq> (s + i) mod length m"
    using assms ring_pos_inj [of s k "length m" i] by auto
  then show "ring (m[(s + k) mod length m := v]) s n ! i = ring m s n ! i" using i by simp
qed simp

lemma ring_push:
  assumes "n < length m"
  shows "ring (m[(s + n) mod length m := v]) s (Suc n) = ring m s n @ [v]"
proof -
  let ?m = "m[(s + n) mod length m := v]"
  have "ring ?m s (Suc n) = ring ?m s n @ [?m ! ((s + n) mod length m)]" by (simp add: ring_def)
  moreover have "(s + n) mod length m < length m" using assms by (intro mod_less_divisor) linarith
  ultimately show ?thesis using ring_update_other [OF order_refl assms] by simp
qed

lemma ring_overwrite:
  assumes "0 < length m"
  shows "ring (m[s mod length m := v]) (Suc s) (length m) = tl (ring m s (length m)) @ [v]"
proof -
  obtain n where n: "length m = Suc n" using assms by (cases "length m") auto
  have "ring (m[(Suc s + n) mod length m := v]) (Suc s) (Suc n) = ring m (Suc s) n @ [v]"
    by (rule ring_push) (simp add: n)
  moreover have "Suc s + n = s + length m" by (simp add: n)
  then have "(Suc s + n) mod length m = s mod length m" by (simp only: mod_add_self2)
  moreover have "tl (ring m s (length m)) = ring m (Suc s) n" unfolding n by (simp add: ring_Cons)
  ultimately show ?thesis by (simp add: n)
qed

text \<open>Storing a block around the end, one element at a time.\<close>

fun ring_put :: "'a list \<Rightarrow> nat \<Rightarrow> 'a list \<Rightarrow> 'a list" where
  "ring_put m e [] = m"
| "ring_put m e (x # xs) = ring_put (m[e mod length m := x]) (Suc e) xs"

lemma length_ring_put [simp]: "length (ring_put m e d) = length m"
  by (induction m e d rule: ring_put.induct) simp_all

lemma ring_ring_put: "n + length d \<le> length m \<Longrightarrow> ring (ring_put m (s + n) d) s (n + length d) = ring m s n @ d"
proof (induction d arbitrary: m n)
  case (Cons x d)
  let ?m = "m[(s + n) mod length m := x]"
  have "ring (ring_put ?m (s + Suc n) d) s (Suc n + length d) = ring ?m s (Suc n) @ d"
    using Cons.prems by (intro Cons.IH) simp
  moreover have "ring ?m s (Suc n) = ring m s n @ [x]" using Cons.prems by (intro ring_push) simp
  ultimately show ?case by simp
qed simp

lemma ring_put_append: "ring_put m e (d1 @ d2) = ring_put (ring_put m e d1) (e + length d1) d2"
  by (induction d1 arbitrary: m e) simp_all

lemma ring_put_wrap: "ring_put m (e + length m) d = ring_put m e d"
proof (induction d arbitrary: m e)
  case (Cons x d)
  have "ring_put (m[e mod length m := x]) (Suc e + length (m[e mod length m := x])) d =
      ring_put (m[e mod length m := x]) (Suc e) d" by (rule Cons.IH)
  then show ?case by simp
qed simp

lemma ring_put_mod: "ring_put m (e mod length m) d = ring_put m e d"
proof -
  have "ring_put m (r + k * length m) d = ring_put m r d" for r k
  proof (induction k)
    case (Suc k)
    have step: "r + Suc k * length m = r + k * length m + length m" by simp
    show ?case unfolding step ring_put_wrap by (rule Suc)
  qed simp
  from this [of "e mod length m" "e div length m"] show ?thesis by simp
qed

lemma ring_put_mod_len: "length m = c \<Longrightarrow> ring_put m (e mod c) d = ring_put m e d"
  using ring_put_mod [of m e d] by simp

lemma ring_put_block:
  "e + length d \<le> length m \<Longrightarrow> ring_put m e d = take e m @ d @ drop (e + length d) m"
proof (induction d arbitrary: m e)
  case (Cons x d)
  have e: "e < length m" using Cons.prems by simp
  have "ring_put (m[e := x]) (Suc e) d = take (Suc e) (m[e := x]) @ d @ drop (Suc e + length d) (m[e := x])"
    using Cons.prems by (intro Cons.IH) simp
  then show ?case using e by (simp add: take_Suc_conv_app_nth)
qed simp

lemma ring_block:
  "s + n \<le> length m \<Longrightarrow> ring m s n = take n (drop s m)"
  by (rule nth_equalityI) (simp_all add: ring_def)

lemma ring_split: "ring m s (a + b) = ring m s a @ ring m (s + a) b"
  by (rule nth_equalityI) (auto simp: nth_append add.assoc)

section \<open>Bounded queues\<close>

text \<open>
  A queue of at most \<open>cap\<close> elements.  A push beyond that is refused, or drops the oldest element
  when the call asks for it and the queue allows it.
\<close>

datatype 'a bq_op = Bq_push 'a bool | Bq_pop

fun bq_spec :: "nat \<Rightarrow> bool \<Rightarrow> 'a list \<Rightarrow> 'a bq_op \<Rightarrow> 'a option \<times> 'a list" where
  "bq_spec cap allow q (Bq_push v over) =
     (None, if length q < cap then q @ [v] else if over \<and> allow then tl q @ [v] else q)"
| "bq_spec cap allow [] Bq_pop = (None, [])"
| "bq_spec cap allow (x # q) Bq_pop = (Some x, q)"

fun bq_spec_run :: "nat \<Rightarrow> bool \<Rightarrow> 'a list \<Rightarrow> 'a bq_op list \<Rightarrow> 'a list \<times> 'a list" where
  "bq_spec_run cap allow q [] = ([], q)"
| "bq_spec_run cap allow q (c # cs) =
     (let (out, q) = bq_spec cap allow q c; (outs, q) = bq_spec_run cap allow q cs
      in (case out of None \<Rightarrow> outs | Some x \<Rightarrow> x # outs, q))"

primrec bq_run :: "('a bq_op \<Rightarrow> 'q \<Rightarrow> ('a option \<times> 'q) option) \<Rightarrow> 'a bq_op list \<Rightarrow> 'q \<Rightarrow> ('a list \<times> 'q) option" where
  "bq_run step [] q = Some ([], q)"
| "bq_run step (c # cs) q =
     do { (out, q) \<leftarrow> step c q; (outs, q) \<leftarrow> bq_run step cs q;
          Some (case out of None \<Rightarrow> outs | Some x \<Rightarrow> x # outs, q) }"

text \<open>A run of any calls that keeps every answer, and what the contract of the queue answers.\<close>

primrec q_run :: "('c \<Rightarrow> 'q \<Rightarrow> ('r \<times> 'q) option) \<Rightarrow> 'c list \<Rightarrow> 'q \<Rightarrow> ('r list \<times> 'q) option" where
  "q_run step [] q = Some ([], q)"
| "q_run step (c # cs) q = do { (r, q) \<leftarrow> step c q; (rs, q) \<leftarrow> q_run step cs q; Some (r # rs, q) }"

primrec q_spec_run :: "('a list \<Rightarrow> 'c \<Rightarrow> 'r \<times> 'a list) \<Rightarrow> 'c list \<Rightarrow> 'a list \<Rightarrow> 'r list \<times> 'a list" where
  "q_spec_run spec [] q = ([], q)"
| "q_spec_run spec (c # cs) q = (let (r, q) = spec q c; (rs, q) = q_spec_run spec cs q in (r # rs, q))"

definition out_elems :: "'a option list \<Rightarrow> 'a list" where
  "out_elems outs = concat (map (\<lambda>r. case r of None \<Rightarrow> [] | Some x \<Rightarrow> [x]) outs)"

lemma bq_run_q_run: "bq_run step cs q = map_option (\<lambda>(rs, q). (out_elems rs, q)) (q_run step cs q)"
  by (induction cs arbitrary: q)
     (auto simp: out_elems_def split: option.splits bind_splits)

lemma bq_spec_run_q_run:
  "bq_spec_run cap allow q cs = (\<lambda>(rs, q). (out_elems rs, q)) (q_spec_run (bq_spec cap allow) cs q)"
  by (induction cs arbitrary: q) (auto simp: out_elems_def split: option.splits prod.splits)

text \<open>
  The contract: as long as a queue has \<open>left\<close> room for calls (an index of fixed width does not
  grow for ever), a call answers and changes the elements as \<open>spec\<close> says.
\<close>

locale bounded_queue =
  fixes step :: "'c \<Rightarrow> 'q \<Rightarrow> ('r \<times> 'q) option"
    and spec :: "nat \<Rightarrow> bool \<Rightarrow> 'a list \<Rightarrow> 'c \<Rightarrow> 'r \<times> 'a list"
    and inv :: "'q \<Rightarrow> bool"
    and elems :: "'q \<Rightarrow> 'a list"
    and cap :: "'q \<Rightarrow> nat"
    and allow :: "'q \<Rightarrow> bool"
    and left :: "nat \<Rightarrow> 'q \<Rightarrow> bool"
  assumes step_spec: "inv q \<Longrightarrow> left (Suc n) q \<Longrightarrow>
      \<exists>out q'. step c q = Some (out, q') \<and> inv q' \<and> cap q' = cap q \<and> allow q' = allow q \<and> left n q' \<and>
        (out, elems q') = spec (cap q) (allow q) (elems q) c"
    and bound: "inv q \<Longrightarrow> length (elems q) \<le> cap q"
begin

lemma run_spec:
  "inv q \<Longrightarrow> left (length cs) q \<Longrightarrow>
     \<exists>outs q'. q_run step cs q = Some (outs, q') \<and> inv q' \<and> cap q' = cap q \<and> allow q' = allow q \<and>
       (outs, elems q') = q_spec_run (spec (cap q) (allow q)) cs (elems q)"
proof (induction cs arbitrary: q)
  case Nil
  then show ?case by simp
next
  case (Cons c cs)
  obtain out q1 where 1: "step c q = Some (out, q1)" "inv q1" "cap q1 = cap q" "allow q1 = allow q" "left (length cs) q1"
      "spec (cap q) (allow q) (elems q) c = (out, elems q1)"
    using step_spec [OF Cons.prems(1), of "length cs" c] Cons.prems(2) by auto
  obtain outs q2 where 2: "q_run step cs q1 = Some (outs, q2)" "inv q2" "cap q2 = cap q1" "allow q2 = allow q1"
      "q_spec_run (spec (cap q1) (allow q1)) cs (elems q1) = (outs, elems q2)"
    using Cons.IH [OF 1(2,5)] by auto
  show ?case using 1 2 by auto
qed

text \<open>Whatever is called, the queue stays within its bound.\<close>

lemma run_bounded:
  assumes "inv q" "left (length cs) q" "q_run step cs q = Some (outs, q')"
  shows "inv q' \<and> length (elems q') \<le> cap q"
proof -
  have "inv q'" "cap q' = cap q" using run_spec [OF assms(1,2)] assms(3) by auto
  then show ?thesis using bound [of q'] by simp
qed

end

end
