(* ===== verification/SL_Queues.thy ===== *)
theory SL_Queues
  imports SL_Ring
begin

text \<open>
  The queues of one thread or under one mutex: \<^verbatim>\<open>SL_CircularQueue\<close>
  (\<^verbatim>\<open>include/SL_CircularQueue.h\<close>) with pointers into its block,
  \<^verbatim>\<open>SL_Utility_CircularQueue\<close> (\<^verbatim>\<open>include/SL_Utility_CircularQueue.h\<close>) with
  ever-growing 64-bit indices and a mask, and the byte ring \<^verbatim>\<open>SL_CircularBuffer\<close>
  (\<^verbatim>\<open>include/SL_CircularBuffer.h\<close>).  The first two provide \<open>bounded_queue\<close>.
\<close>

section \<open>SL\_CircularQueue\<close>

text \<open>
  A pointer into the pool is its offset.  \<^verbatim>\<open>new TValue[n]\<close> gives elements of an unknown
  value, the argument \<open>junk\<close>.
\<close>

record 'a circular_queue =
  cq_pool :: "'a list option"
  cq_read :: nat
  cq_write :: nat
  cq_capacity :: uint
  cq_size :: uint
  cq_rewrite :: bool

definition cq_pool_list :: "'a circular_queue \<Rightarrow> 'a list" where
  "cq_pool_list q = (case cq_pool q of None \<Rightarrow> [] | Some m \<Rightarrow> m)"

definition cq_new :: "'a \<Rightarrow> uint \<Rightarrow> bool \<Rightarrow> 'a circular_queue" where
  "cq_new junk capacity rewrite =
     \<lparr>cq_pool = Some (replicate (unat capacity) junk), cq_read = 0, cq_write = 0, cq_capacity = capacity,
      cq_size = 0, cq_rewrite = rewrite\<rparr>"

definition cq_clear :: "'a circular_queue \<Rightarrow> 'a circular_queue" where
  "cq_clear q = q\<lparr>cq_pool := None, cq_read := 0, cq_write := 0, cq_capacity := 0, cq_size := 0\<rparr>"

definition cq_init :: "'a \<Rightarrow> uint \<Rightarrow> bool \<Rightarrow> 'a circular_queue \<Rightarrow> int \<times> 'a circular_queue" where
  "cq_init junk capacity rewrite q =
     (let q = cq_clear q in
      (1, q\<lparr>cq_pool := Some (replicate (unat capacity) junk), cq_capacity := capacity, cq_read := 0, cq_write := 0,
            cq_rewrite := rewrite\<rparr>))"

text \<open>A step of a pointer, back to the start at the end of the pool.\<close>

definition cq_next :: "'a circular_queue \<Rightarrow> nat \<Rightarrow> nat" where
  "cq_next q i = (let i = i + 1 in if i \<ge> unat (cq_capacity q) then 0 else i)"

definition cq_push :: "'a \<Rightarrow> bool \<Rightarrow> 'a circular_queue \<Rightarrow> (int \<times> 'a circular_queue) option" where
  "cq_push value rewrite q =
     (if cq_size q < cq_capacity q then do {
        m \<leftarrow> arr_set (cq_pool_list q) (cq_write q) value;
        Some (sint (cq_size q + 1), q\<lparr>cq_pool := Some m, cq_write := cq_next q (cq_write q), cq_size := cq_size q + 1\<rparr>) }
      else if rewrite \<and> cq_rewrite q then do {
        m \<leftarrow> arr_set (cq_pool_list q) (cq_write q) value;
        Some (sint (cq_size q), q\<lparr>cq_pool := Some m, cq_write := cq_next q (cq_write q),
                                   cq_read := cq_next q (cq_read q)\<rparr>) }
      else Some (- 1, q))"

definition cq_pop :: "'a circular_queue \<Rightarrow> (int \<times> 'a option \<times> 'a circular_queue) option" where
  "cq_pop q =
     (if cq_size q > 0 then do {
        v \<leftarrow> arr_get (cq_pool_list q) (cq_read q);
        Some (1, Some v, q\<lparr>cq_read := cq_next q (cq_read q), cq_size := cq_size q - 1\<rparr>) }
      else Some (- 1, None, q))"

definition cq_front :: "'a circular_queue \<Rightarrow> 'a option" where
  "cq_front q = arr_get (cq_pool_list q) (cq_read q)"

definition cq_back :: "'a circular_queue \<Rightarrow> 'a option" where
  "cq_back q = arr_get (cq_pool_list q) (cq_write q)"

definition cq_elems :: "'a circular_queue \<Rightarrow> 'a list" where
  "cq_elems q = ring (cq_pool_list q) (cq_read q) (unat (cq_size q))"

definition cq_inv :: "'a circular_queue \<Rightarrow> bool" where
  "cq_inv q \<longleftrightarrow>
     length (cq_pool_list q) = unat (cq_capacity q) \<and> 0 < unat (cq_capacity q) \<and>
     unat (cq_size q) \<le> unat (cq_capacity q) \<and> cq_read q < unat (cq_capacity q) \<and>
     cq_write q = (cq_read q + unat (cq_size q)) mod unat (cq_capacity q)"

fun cq_step :: "'a bq_op \<Rightarrow> 'a circular_queue \<Rightarrow> ('a option \<times> 'a circular_queue) option" where
  "cq_step (Bq_push v over) q = do { (r, q) \<leftarrow> cq_push v over q; Some (None, q) }"
| "cq_step Bq_pop q = do { (r, v, q) \<leftarrow> cq_pop q; Some (v, q) }"

lemma cq_pool_list_simps [simp]:
  "cq_pool_list (q\<lparr>cq_pool := Some m\<rparr>) = m"
  "cq_pool_list (q\<lparr>cq_read := i\<rparr>) = cq_pool_list q"
  "cq_pool_list (q\<lparr>cq_write := i\<rparr>) = cq_pool_list q"
  "cq_pool_list (q\<lparr>cq_size := n\<rparr>) = cq_pool_list q"
  by (simp_all add: cq_pool_list_def)

lemma cq_next_mod:
  assumes "cq_inv q" "i < unat (cq_capacity q)"
  shows "cq_next q i = (i + 1) mod length (cq_pool_list q)"
  using assms by (cases "i + 1 = unat (cq_capacity q)") (auto simp: cq_next_def cq_inv_def Let_def)

lemma unat_inc32:
  assumes "unat (a :: uint) < unat (b :: uint)"
  shows "unat (a + 1) = unat a + 1"
  using assms unat_le_lt32 [of "unat a + 1" b] by (intro trans [OF unat_add_small]) simp_all

lemma cq_push_room:
  assumes inv: "cq_inv q" and room: "unat (cq_size q) < unat (cq_capacity q)"
  shows "\<exists>q'. cq_push v over q = Some (sint (cq_size q + 1), q') \<and> cq_inv q' \<and> cq_capacity q' = cq_capacity q \<and>
           cq_rewrite q' = cq_rewrite q \<and> cq_elems q' = cq_elems q @ [v]"
proof -
  let ?m = "cq_pool_list q" and ?n = "unat (cq_size q)"
  have w: "cq_write q = (cq_read q + ?n) mod length ?m" "length ?m = unat (cq_capacity q)" "0 < length ?m"
    "cq_write q < unat (cq_capacity q)"
    using inv by (auto simp: cq_inv_def)
  have n: "unat (cq_size q + 1) = Suc ?n" using unat_inc32 [OF room] by simp
  let ?q = "q\<lparr>cq_pool := Some (?m[cq_write q := v]), cq_write := cq_next q (cq_write q), cq_size := cq_size q + 1\<rparr>"
  have nx: "cq_next q (cq_write q) = (cq_read q + Suc ?n) mod length ?m"
    using cq_next_mod [OF inv w(4)] by (simp add: w(1) mod_simps)
  have "cq_push v over q = Some (sint (cq_size q + 1), ?q)"
    using room w by (simp add: cq_push_def arr_set_def word_less_nat_alt)
  moreover have "cq_inv ?q" using inv room w nx n by (simp add: cq_inv_def)
  moreover have "cq_elems ?q = cq_elems q @ [v]"
    using ring_push [of ?n ?m "cq_read q" v] room w n by (simp add: cq_elems_def)
  ultimately show ?thesis by auto
qed

lemma cq_push_over:
  assumes inv: "cq_inv q" and full: "\<not> unat (cq_size q) < unat (cq_capacity q)" and over: "over" "cq_rewrite q"
  shows "\<exists>q'. cq_push v over q = Some (sint (cq_size q), q') \<and> cq_inv q' \<and> cq_capacity q' = cq_capacity q \<and>
           cq_rewrite q' = cq_rewrite q \<and> cq_elems q' = tl (cq_elems q) @ [v]"
proof -
  let ?m = "cq_pool_list q"
  have n: "unat (cq_size q) = length ?m" "length ?m = unat (cq_capacity q)" "0 < length ?m" "cq_read q < length ?m"
    using inv full by (auto simp: cq_inv_def)
  have w: "cq_write q = cq_read q" using inv n by (simp add: cq_inv_def)
  have nx: "cq_next q (cq_read q) = Suc (cq_read q) mod length ?m" using cq_next_mod [OF inv, of "cq_read q"] n by simp
  let ?q = "q\<lparr>cq_pool := Some (?m[cq_read q := v]), cq_write := cq_next q (cq_read q), cq_read := cq_next q (cq_read q)\<rparr>"
  have "cq_push v over q = Some (sint (cq_size q), ?q)"
    using full over n w by (simp add: cq_push_def arr_set_def word_less_nat_alt)
  moreover have "cq_inv ?q" using n nx by (simp add: cq_inv_def)
  moreover have "cq_elems ?q = tl (cq_elems q) @ [v]"
    using ring_overwrite [of ?m "cq_read q" v] n nx by (simp add: cq_elems_def ring_mod_len)
  ultimately show ?thesis by auto
qed

lemma cq_pop_some:
  assumes inv: "cq_inv q" and pos: "0 < unat (cq_size q)"
  shows "\<exists>v q'. cq_pop q = Some (1, Some v, q') \<and> cq_inv q' \<and> cq_capacity q' = cq_capacity q \<and>
           cq_rewrite q' = cq_rewrite q \<and> cq_elems q = v # cq_elems q'"
proof -
  let ?m = "cq_pool_list q"
  have r: "cq_read q < length ?m" "length ?m = unat (cq_capacity q)" "unat (cq_size q) \<le> length ?m"
    using inv by (auto simp: cq_inv_def)
  have n: "unat (cq_size q) = Suc (unat (cq_size q - 1))"
    using pos unat_sub_le [of 1 "cq_size q"] by simp
  have nx: "cq_next q (cq_read q) = Suc (cq_read q) mod length ?m" using cq_next_mod [OF inv, of "cq_read q"] r by simp
  let ?q = "q\<lparr>cq_read := cq_next q (cq_read q), cq_size := cq_size q - 1\<rparr>"
  have "cq_pop q = Some (1, Some (?m ! cq_read q), ?q)"
    using pos r by (simp add: cq_pop_def arr_get_def word_less_nat_alt)
  moreover have "cq_inv ?q" using inv n r nx by (simp add: cq_inv_def mod_simps)
  moreover have "cq_elems q = ?m ! cq_read q # cq_elems ?q"
    unfolding cq_elems_def n ring_Cons using r nx by (simp add: ring_mod_len)
  ultimately show ?thesis by (intro exI [of _ "?m ! cq_read q"] exI [of _ ?q]) simp
qed

interpretation circular: bounded_queue cq_step bq_spec cq_inv cq_elems "\<lambda>q. unat (cq_capacity q)" cq_rewrite
  "\<lambda>_ _. True"
proof
  fix q :: "'a circular_queue" and c
  assume inv: "cq_inv q"
  have len: "length (cq_elems q) = unat (cq_size q)" by (simp add: cq_elems_def)
  show "\<exists>out q'. cq_step c q = Some (out, q') \<and> cq_inv q' \<and> unat (cq_capacity q') = unat (cq_capacity q) \<and>
      cq_rewrite q' = cq_rewrite q \<and> True \<and>
      (out, cq_elems q') = bq_spec (unat (cq_capacity q)) (cq_rewrite q) (cq_elems q) c"
  proof (cases c)
    case (Bq_push v over)
    consider (room) "unat (cq_size q) < unat (cq_capacity q)"
      | (over) "\<not> unat (cq_size q) < unat (cq_capacity q)" "over" "cq_rewrite q"
      | (full) "\<not> unat (cq_size q) < unat (cq_capacity q)" "\<not> (over \<and> cq_rewrite q)" by blast
    then show ?thesis
    proof cases
      case room
      show ?thesis using cq_push_room [OF inv room, of v over] room len Bq_push by auto
    next
      case over
      show ?thesis using cq_push_over [OF inv over, of v] over len Bq_push by auto
    next
      case full
      then have "cq_push v over q = Some (- 1, q)" by (auto simp: cq_push_def word_less_nat_alt)
      then show ?thesis using inv full len Bq_push by auto
    qed
  next
    case Bq_pop
    show ?thesis
    proof (cases "0 < unat (cq_size q)")
      case True
      show ?thesis using cq_pop_some [OF inv True] Bq_pop by auto
    next
      case False
      then have "cq_pop q = Some (- 1, None, q)" "cq_elems q = []"
        by (auto simp: cq_pop_def word_less_nat_alt cq_elems_def)
      then show ?thesis using inv Bq_pop by simp
    qed
  qed
next
  fix q :: "'a circular_queue"
  assume "cq_inv q"
  then show "length (cq_elems q) \<le> unat (cq_capacity q)" by (simp add: cq_elems_def cq_inv_def)
qed

section \<open>SL\_Utility\_CircularQueue\<close>

definition SL_2_POW_LIST :: "uint list" where
  "SL_2_POW_LIST =
     [1, 2, 4, 8, 16, 32, 64, 128, 256, 512, 1024, 2048, 4096, 8192, 16384, 32768, 65536, 131072, 262144, 524288,
      1048576, 2097152, 4194304, 8388608, 16777216, 33554432, 67108864, 134217728, 268435456, 536870912,
      1073741824, 2147483648]"

text \<open>The first power that is large enough, the last one for more.\<close>

definition pow2_capacity :: "uint \<Rightarrow> uint" where
  "pow2_capacity capacity =
     (case find (\<lambda>p. capacity \<le> p) SL_2_POW_LIST of Some p \<Rightarrow> p | None \<Rightarrow> SL_2_POW_LIST ! 31)"

record 'a ucq =
  uq_pool :: "'a list option"
  uq_write :: int
  uq_read :: int
  uq_capacity :: uint
  uq_mask :: uint
  uq_rewrite_count :: int
  uq_reread_count :: int

definition uq_pool_list :: "'a ucq \<Rightarrow> 'a list" where
  "uq_pool_list q = (case uq_pool q of None \<Rightarrow> [] | Some m \<Rightarrow> m)"

definition uq_new :: "'a ucq" where
  "uq_new = \<lparr>uq_pool = None, uq_write = 0, uq_read = 0, uq_capacity = 0, uq_mask = 0, uq_rewrite_count = 1,
             uq_reread_count = 1\<rparr>"

definition uq_init :: "'a \<Rightarrow> uint \<Rightarrow> int \<Rightarrow> int \<Rightarrow> 'a ucq \<Rightarrow> int \<times> 'a ucq" where
  "uq_init junk capacity rewrite_count reread_count q =
     (let q = q\<lparr>uq_rewrite_count := (if rewrite_count < 1 then - 1 else rewrite_count),
                uq_reread_count := (if reread_count < 1 then - 1 else reread_count)\<rparr>;
          capacity = pow2_capacity capacity
      in (1, q\<lparr>uq_pool := Some (replicate (unat capacity) junk), uq_capacity := capacity,
               uq_mask := capacity - 1, uq_write := 0, uq_read := 0\<rparr>))"

definition uq_clear :: "'a ucq \<Rightarrow> 'a ucq" where
  "uq_clear q = q\<lparr>uq_pool := None, uq_capacity := 0, uq_mask := 0, uq_rewrite_count := 1, uq_reread_count := 1,
                  uq_write := 0, uq_read := 0\<rparr>"

text \<open>
  One attempt is the section under the mutex: the result is \<open>None\<close> for "try again".  Between two
  attempts other threads may change the queue; \<open>env i\<close> is what they do before attempt \<open>i\<close>.
  The indices are \<^verbatim>\<open>int64\<close>: a result outside that range is undefined behaviour, \<open>None\<close>.
\<close>

definition int64_range :: "int \<Rightarrow> int option" where
  "int64_range i = (if - (2 ^ 63) \<le> i \<and> i < 2 ^ 63 then Some i else None)"

definition uq_size :: "'a ucq \<Rightarrow> uint option" where
  "uq_size q = do { d \<leftarrow> int64_range (uq_write q - uq_read q); Some (to_uint d) }"

definition uq_slot :: "'a ucq \<Rightarrow> int \<Rightarrow> nat" where
  "uq_slot q i = unat (to_uint (i AND uint (uq_mask q)))"

definition uq_push_once :: "'a \<Rightarrow> 'a ucq \<Rightarrow> (int option \<times> 'a ucq) option" where
  "uq_push_once value q = do {
     queue_size \<leftarrow> uq_size q;
     if queue_size < uq_capacity q then do {
       m \<leftarrow> arr_set (uq_pool_list q) (uq_slot q (uq_write q)) value;
       write_index \<leftarrow> int64_range (uq_write q + 1);
       Some (Some (sint (queue_size - 1)), q\<lparr>uq_pool := Some m, uq_write := write_index\<rparr>) }
     else Some (None, q) }"

definition uq_pop_once :: "'a ucq \<Rightarrow> ((int \<times> 'a) option \<times> 'a ucq) option" where
  "uq_pop_once q = do {
     queue_size \<leftarrow> uq_size q;
     if queue_size > 0 then do {
       v \<leftarrow> arr_get (uq_pool_list q) (uq_slot q (uq_read q));
       read_index \<leftarrow> int64_range (uq_read q + 1);
       Some (Some (sint (queue_size - 1), v), q\<lparr>uq_read := read_index\<rparr>) }
     else Some (None, q) }"

fun uq_tries ::
  "nat \<Rightarrow> (nat \<Rightarrow> 'q \<Rightarrow> 'q) \<Rightarrow> nat \<Rightarrow> ('q \<Rightarrow> ('r option \<times> 'q) option) \<Rightarrow> 'q \<Rightarrow> ('r option \<times> 'q) option"
where
  "uq_tries 0 env i once q = Some (None, q)"
| "uq_tries (Suc n) env i once q =
     do { (r, q) \<leftarrow> once (env i q);
          case r of Some r \<Rightarrow> Some (Some r, q) | None \<Rightarrow> uq_tries n env (i + 1) once q }"

partial_function (option) uq_forever ::
  "(nat \<Rightarrow> 'q \<Rightarrow> 'q) \<Rightarrow> nat \<Rightarrow> ('q \<Rightarrow> ('r option \<times> 'q) option) \<Rightarrow> 'q \<Rightarrow> ('r option \<times> 'q) option"
where
  "uq_forever env i once q =
     do { (r, q) \<leftarrow> once (env i q);
          case r of Some r \<Rightarrow> Some (Some r, q) | None \<Rightarrow> uq_forever env (i + 1) once q }"

definition uq_attempts ::
  "int \<Rightarrow> (nat \<Rightarrow> 'q \<Rightarrow> 'q) \<Rightarrow> ('q \<Rightarrow> ('r option \<times> 'q) option) \<Rightarrow> 'q \<Rightarrow> ('r option \<times> 'q) option"
where
  "uq_attempts redo_count env once q =
     (if redo_count > 0 then uq_tries (nat redo_count) env 0 once q else uq_forever env 0 once q)"

definition uq_push :: "'a \<Rightarrow> int \<Rightarrow> (nat \<Rightarrow> 'a ucq \<Rightarrow> 'a ucq) \<Rightarrow> 'a ucq \<Rightarrow> (int \<times> 'a ucq) option" where
  "uq_push value redo_count env q =
     (let redo_count = (if redo_count = 0 then uq_rewrite_count q else redo_count) in do {
        (r, q) \<leftarrow> uq_attempts redo_count env (uq_push_once value) q;
        Some (case r of None \<Rightarrow> - 1 | Some r \<Rightarrow> r, q) })"

definition uq_pop :: "int \<Rightarrow> (nat \<Rightarrow> 'a ucq \<Rightarrow> 'a ucq) \<Rightarrow> 'a ucq \<Rightarrow> (int \<times> 'a option \<times> 'a ucq) option" where
  "uq_pop redo_count env q =
     (let redo_count = (if redo_count = 0 then uq_reread_count q else redo_count) in do {
        (r, q) \<leftarrow> uq_attempts redo_count env uq_pop_once q;
        Some (case r of None \<Rightarrow> (- 1, None, q) | Some (r, v) \<Rightarrow> (r, Some v, q)) })"

definition uq_empty :: "'a ucq \<Rightarrow> bool option" where
  "uq_empty q = do { d \<leftarrow> int64_range (uq_write q - uq_read q); Some (\<not> d > 0) }"

definition uq_get :: "'a ucq \<Rightarrow> int \<Rightarrow> 'a option" where
  "uq_get q index = arr_get (uq_pool_list q) (uq_slot q index)"

definition uq_set_read :: "int \<Rightarrow> 'a ucq \<Rightarrow> 'a ucq" where
  "uq_set_read index q = q\<lparr>uq_read := index\<rparr>"

subsection \<open>Refinement\<close>

definition uq_elems :: "'a ucq \<Rightarrow> 'a list" where
  "uq_elems q = ring (uq_pool_list q) (nat (uq_read q)) (nat (uq_write q - uq_read q))"

definition uq_inv :: "'a ucq \<Rightarrow> bool" where
  "uq_inv q \<longleftrightarrow>
     uq_capacity q \<in> set SL_2_POW_LIST \<and> uq_mask q = uq_capacity q - 1 \<and>
     length (uq_pool_list q) = unat (uq_capacity q) \<and> 0 \<le> uq_read q \<and> uq_read q \<le> uq_write q \<and>
     uq_write q < 2 ^ 63 \<and> nat (uq_write q - uq_read q) \<le> unat (uq_capacity q)"

text \<open>The queue can count \<open>n\<close> more pushes.\<close>

definition uq_left :: "nat \<Rightarrow> 'a ucq \<Rightarrow> bool" where
  "uq_left n q \<longleftrightarrow> uq_write q + int n < 2 ^ 63"

text \<open>A call with one attempt, and what it answers: the size it found less one, or \<open>-1\<close>.\<close>

fun uq_step :: "'a bq_op \<Rightarrow> 'a ucq \<Rightarrow> ((int \<times> 'a option) \<times> 'a ucq) option" where
  "uq_step (Bq_push v over) q = do { (r, q) \<leftarrow> uq_push v 1 (\<lambda>_ q. q) q; Some ((r, None), q) }"
| "uq_step Bq_pop q = do { (r, v, q) \<leftarrow> uq_pop 1 (\<lambda>_ q. q) q; Some ((r, v), q) }"

fun mq_spec :: "nat \<Rightarrow> bool \<Rightarrow> 'a list \<Rightarrow> 'a bq_op \<Rightarrow> (int \<times> 'a option) \<times> 'a list" where
  "mq_spec cap allow q (Bq_push v over) =
     (if length q < cap then ((int (length q) - 1, None), q @ [v]) else ((- 1, None), q))"
| "mq_spec cap allow [] Bq_pop = ((- 1, None), [])"
| "mq_spec cap allow (x # q) Bq_pop = ((int (length q), Some x), q)"

lemma pow2_list_map: "SL_2_POW_LIST = map (\<lambda>k. 2 ^ k) [0..<32]"
  by code_simp

lemma unat_pow2: "k < 32 \<Longrightarrow> unat ((2 :: uint) ^ k) = 2 ^ k"
proof -
  assume "k < 32"
  then have "(2 :: nat) ^ k < 2 ^ 32" by (intro power_strict_increasing) simp_all
  then have "unat (word_of_nat (2 ^ k) :: uint) = 2 ^ k" by (simp add: unat_of_nat del: of_nat_power of_nat_numeral)
  then show ?thesis by simp
qed

lemma pow2_list_exp:
  assumes "c \<in> set SL_2_POW_LIST"
  obtains k where "k < 32" "unat c = 2 ^ k" "c - 1 = mask k"
proof -
  obtain k where k: "k < 32" "c = 2 ^ k" using assms unfolding pow2_list_map by auto
  show thesis using k unat_pow2 [OF k(1)] by (intro that [of k]) (simp_all add: mask_eq_exp_minus_1)
qed

lemma pow2_list_top: "length SL_2_POW_LIST = 32" "SL_2_POW_LIST ! 31 = 2 ^ 31"
  unfolding pow2_list_map by simp_all

lemma pow2_capacity_mem: "pow2_capacity capacity \<in> set SL_2_POW_LIST"
proof (cases "find (\<lambda>p. capacity \<le> p) SL_2_POW_LIST")
  case None
  then show ?thesis using pow2_list_top(1) by (simp add: pow2_capacity_def)
next
  case (Some p)
  then have "p \<in> set SL_2_POW_LIST" by (auto simp: find_Some_iff)
  then show ?thesis using Some by (simp add: pow2_capacity_def)
qed

lemma pow2_capacity_least:
  "unat (pow2_capacity capacity) = min (2 ^ 31) (2 ^ (LEAST k. unat capacity \<le> 2 ^ k))"
proof (cases "find (\<lambda>p. capacity \<le> p) SL_2_POW_LIST")
  case None
  have top: "unat ((2 :: uint) ^ 31) = 2 ^ 31" by (rule unat_pow2) simp
  have "\<not> capacity \<le> SL_2_POW_LIST ! 31" using None pow2_list_top(1) unfolding find_None_iff by simp
  then have big: "\<not> unat capacity \<le> 2 ^ 31" unfolding pow2_list_top(2) word_le_nat_alt top .
  have "(LEAST k. unat capacity \<le> 2 ^ k) \<ge> 31"
  proof (rule ccontr)
    assume "\<not> ?thesis"
    then have "(2 :: nat) ^ (LEAST k. unat capacity \<le> 2 ^ k) \<le> 2 ^ 31" by (intro power_increasing) simp_all
    moreover have "unat capacity \<le> 2 ^ (LEAST k. unat capacity \<le> 2 ^ k)"
      by (rule LeastI [of _ 32]) (simp add: less_imp_le)
    ultimately show False using big by linarith
  qed
  then have "(2 :: nat) ^ 31 \<le> 2 ^ (LEAST k. unat capacity \<le> 2 ^ k)" by (intro power_increasing) simp_all
  then show ?thesis unfolding pow2_capacity_def None by (simp only: option.case pow2_list_top top min_absorb1)
next
  case (Some p)
  then obtain i where i: "i < 32" "capacity \<le> SL_2_POW_LIST ! i" "p = SL_2_POW_LIST ! i"
      "\<And>j. j < i \<Longrightarrow> \<not> capacity \<le> SL_2_POW_LIST ! j"
    using pow2_list_top(1) unfolding find_Some_iff by auto
  have nth: "unat (SL_2_POW_LIST ! j) = 2 ^ j" if "j < 32" for j
    using unat_pow2 [OF that] that by (simp add: pow2_list_map)
  have "(LEAST k. unat capacity \<le> 2 ^ k) = i"
  proof (rule Least_equality)
    show "unat capacity \<le> 2 ^ i" using i(2) nth [OF i(1)] by (simp add: word_le_nat_alt)
  next
    fix j assume j: "unat capacity \<le> 2 ^ j"
    show "i \<le> j"
    proof (rule ccontr)
      assume "\<not> i \<le> j"
      then have "j < i" by simp
      then show False using i(4) [of j] nth [of j] i(1) j by (simp add: word_le_nat_alt)
    qed
  qed
  moreover have "(2 :: nat) ^ i \<le> 2 ^ 31" using i(1) by (intro power_increasing) simp_all
  ultimately show ?thesis using Some nth [OF i(1)] i(3) by (simp add: pow2_capacity_def)
qed

lemma uq_capD:
  assumes "uq_inv q"
  shows "0 < unat (uq_capacity q)" "unat (uq_capacity q) \<le> 2 ^ 31" "length (uq_pool_list q) = unat (uq_capacity q)"
    "length (uq_elems q) = nat (uq_write q - uq_read q)" "length (uq_elems q) \<le> unat (uq_capacity q)"
proof -
  obtain k where k: "k < 32" "unat (uq_capacity q) = 2 ^ k"
    using assms pow2_list_exp unfolding uq_inv_def by metis
  show "0 < unat (uq_capacity q)" unfolding k(2) by simp
  show "unat (uq_capacity q) \<le> 2 ^ 31" unfolding k(2) using k(1) by (intro power_increasing) simp_all
qed (use assms in \<open>simp_all add: uq_inv_def uq_elems_def\<close>)

lemma uq_slot_mod:
  assumes "uq_inv q" "0 \<le> i"
  shows "uq_slot q i = nat i mod length (uq_pool_list q)"
proof -
  obtain k where k: "k < 32" "unat (uq_capacity q) = 2 ^ k" "uq_capacity q - 1 = mask k"
    using assms pow2_list_exp unfolding uq_inv_def by metis
  have "uint (mask k :: uint) = mask k" using k(1) by (simp add: uint_mask_eq min_def)
  then have "i AND uint (uq_mask q) = i mod 2 ^ k"
    using assms(1) k(3) by (simp add: uq_inv_def flip: take_bit_eq_mask take_bit_eq_mod)
  moreover have "i mod 2 ^ k < 2 ^ 32"
  proof -
    have "i mod 2 ^ k < (2 :: int) ^ k" by simp
    also have "\<dots> \<le> 2 ^ 32" using k(1) by (intro power_increasing) simp_all
    finally show ?thesis .
  qed
  ultimately have "uq_slot q i = nat (i mod 2 ^ k)"
    by (simp add: uq_slot_def to_uint_def unat_eq_nat_uint uint_word_of_int)
  then show ?thesis using assms k(2) by (simp add: uq_inv_def nat_mod_distrib nat_power_eq)
qed

lemma uq_size_eq: "uq_inv q \<Longrightarrow> uq_size q = Some (word_of_nat (length (uq_elems q)))"
  using uq_capD [of q] by (simp add: uq_size_def int64_range_def uq_inv_def to_uint_def)

lemma uq_pool_list_simps [simp]:
  "uq_pool_list (q\<lparr>uq_pool := Some m\<rparr>) = m"
  "uq_pool_list (q\<lparr>uq_read := i\<rparr>) = uq_pool_list q"
  "uq_pool_list (q\<lparr>uq_write := i\<rparr>) = uq_pool_list q"
  by (simp_all add: uq_pool_list_def)

lemma sint_size_less_one: "n \<le> 2 ^ 31 \<Longrightarrow> sint (word_of_nat n - 1 :: uint) = int n - 1"
proof (cases n)
  case (Suc m)
  assume "n \<le> 2 ^ 31"
  then have "unat (word_of_nat m :: uint) = m" "m < 2 ^ 31" using Suc by (simp_all add: unat_of_nat)
  then show ?thesis using sint_unat_small [of "word_of_nat m"] Suc by simp
qed simp

lemma uq_push_room:
  assumes inv: "uq_inv q" and room: "length (uq_elems q) < unat (uq_capacity q)" and left: "uq_left (Suc n) q"
  shows "\<exists>q'. uq_push_once v q = Some (Some (int (length (uq_elems q)) - 1), q') \<and> uq_inv q' \<and>
           uq_capacity q' = uq_capacity q \<and> uq_elems q' = uq_elems q @ [v] \<and> uq_left n q'"
proof -
  let ?m = "uq_pool_list q" and ?n = "length (uq_elems q)"
  note c = uq_capD [OF inv]
  have w: "0 \<le> uq_read q" "0 \<le> uq_write q" "nat (uq_write q) = nat (uq_read q) + ?n" "uq_write q + 1 < 2 ^ 63"
    using inv c(4) left by (auto simp: uq_inv_def uq_left_def)
  have slot: "uq_slot q (uq_write q) = (nat (uq_read q) + ?n) mod length ?m"
    using uq_slot_mod [OF inv w(2)] w(3) by simp
  let ?q = "q\<lparr>uq_pool := Some (?m[uq_slot q (uq_write q) := v]), uq_write := uq_write q + 1\<rparr>"
  have sz: "unat (word_of_nat ?n :: uint) = ?n" using c(2,5) by (simp add: unat_of_nat)
  have "uq_slot q (uq_write q) < length ?m" unfolding slot using c by simp
  then have "uq_push_once v q = Some (Some (int ?n - 1), ?q)"
    using room sz w sint_size_less_one [of ?n] c(2,5)
    by (simp add: uq_push_once_def uq_size_eq [OF inv] arr_set_def word_less_nat_alt int64_range_def)
  moreover have n': "nat (uq_write q + 1 - uq_read q) = Suc ?n"
  proof -
    have "0 \<le> uq_write q - uq_read q" using inv by (simp add: uq_inv_def)
    then have "nat (uq_write q - uq_read q + 1) = Suc (nat (uq_write q - uq_read q))" by simp
    then show ?thesis unfolding c(4) by (simp only: diff_add_eq)
  qed
  moreover have "uq_inv ?q" using inv room c(4) w(4) by (simp add: uq_inv_def)
  moreover have "uq_elems ?q = uq_elems q @ [v]"
    using ring_push [of ?n ?m "nat (uq_read q)" v] room c n' slot by (simp add: uq_elems_def)
  moreover have "uq_left n ?q" using left by (simp add: uq_left_def)
  ultimately show ?thesis by (intro exI [of _ ?q]) simp
qed

lemma uq_pop_some:
  assumes inv: "uq_inv q" and pos: "uq_elems q = v # vs" and left: "uq_left n q"
  shows "\<exists>q'. uq_pop_once q = Some (Some (int (length vs), v), q') \<and> uq_inv q' \<and> uq_capacity q' = uq_capacity q \<and>
           uq_elems q' = vs \<and> uq_left n q'"
proof -
  let ?m = "uq_pool_list q" and ?n = "length (uq_elems q)"
  note c = uq_capD [OF inv]
  have n: "?n = Suc (length vs)" using pos by simp
  then have n0: "nat (uq_write q - uq_read q) = Suc (length vs)" using c(4) by simp
  have w: "0 \<le> uq_read q" "uq_read q + 1 < 2 ^ 63" "uq_read q < uq_write q"
    using inv c(4) n by (auto simp: uq_inv_def)
  have v: "v = ?m ! (nat (uq_read q) mod length ?m)" "vs = ring ?m (Suc (nat (uq_read q))) (length vs)"
    using pos unfolding uq_elems_def n0 ring_Cons by simp_all
  have nz: "0 < length ?m" using c by simp
  let ?q = "q\<lparr>uq_read := uq_read q + 1\<rparr>"
  have n': "nat (uq_write q - (uq_read q + 1)) = length vs" using c(4) n by simp
  have "nat (uq_read q + 1) = Suc (nat (uq_read q))" using w(1) by simp
  then have "uq_elems ?q = vs" unfolding uq_elems_def using n' v(2) by simp
  moreover have "uq_inv ?q" using inv w n' n c(5) by (simp add: uq_inv_def)
  moreover have "uq_pop_once q = Some (Some (int (length vs), v), ?q)"
  proof -
    have "?n < 2 ^ 32" "0 < ?n" using c(2,5) n by simp_all
    then have "(word_of_nat ?n :: uint) > 0" unfolding word_less_nat_alt by (simp add: unat_of_nat del: length_greater_0_conv)
    moreover have "sint (word_of_nat ?n - 1 :: uint) = int (length vs)"
      using sint_size_less_one [of ?n] c(2,5) n by simp
    ultimately show ?thesis using w nz v(1)
      by (simp add: uq_pop_once_def uq_size_eq [OF inv] arr_get_def int64_range_def uq_slot_mod [OF inv])
  qed
  moreover have "uq_left n ?q" using left by (simp add: uq_left_def)
  ultimately show ?thesis by (intro exI [of _ ?q]) simp
qed

lemma uq_push_full:
  assumes "uq_inv q" "\<not> length (uq_elems q) < unat (uq_capacity q)"
  shows "uq_push_once v q = Some (None, q)"
  using assms uq_capD [OF assms(1)]
  by (simp add: uq_push_once_def uq_size_eq word_less_nat_alt unat_of_nat)

lemma uq_pop_none:
  assumes "uq_inv q" "uq_elems q = []"
  shows "uq_pop_once q = Some (None, q)"
  using assms by (simp add: uq_pop_once_def uq_size_eq)

lemma uq_left_less: "uq_left (Suc n) q \<Longrightarrow> uq_left n q"
  by (simp add: uq_left_def)

interpretation masked: bounded_queue uq_step mq_spec uq_inv uq_elems "\<lambda>q. unat (uq_capacity q)" "\<lambda>_. False" uq_left
proof
  fix q :: "'a ucq" and c n
  assume inv: "uq_inv q" and left: "uq_left (Suc n) q"
  show "\<exists>out q'. uq_step c q = Some (out, q') \<and> uq_inv q' \<and> unat (uq_capacity q') = unat (uq_capacity q) \<and>
      False = False \<and> uq_left n q' \<and> (out, uq_elems q') = mq_spec (unat (uq_capacity q)) False (uq_elems q) c"
  proof (cases c)
    case (Bq_push v over)
    show ?thesis
    proof (cases "length (uq_elems q) < unat (uq_capacity q)")
      case True
      show ?thesis using uq_push_room [OF inv True left, of v] True Bq_push
        by (auto simp: uq_push_def uq_attempts_def)
    next
      case False
      show ?thesis using uq_push_full [OF inv False, of v] inv uq_left_less [OF left] False Bq_push
        by (simp add: uq_push_def uq_attempts_def)
    qed
  next
    case Bq_pop
    show ?thesis
    proof (cases "uq_elems q")
      case Nil
      then show ?thesis using uq_pop_none [OF inv] inv uq_left_less [OF left] Bq_pop
        by (simp add: uq_pop_def uq_attempts_def)
    next
      case (Cons v vs)
      show ?thesis using uq_pop_some [OF inv Cons uq_left_less [OF left]] Cons Bq_pop
        by (auto simp: uq_pop_def uq_attempts_def)
    qed
  qed
qed (rule uq_capD(5))

subsection \<open>Waiting for room\<close>

text \<open>The queue that attempt \<open>i\<close> finds as long as every attempt before it has failed.\<close>

primrec uq_seen :: "(nat \<Rightarrow> 'q \<Rightarrow> 'q) \<Rightarrow> nat \<Rightarrow> 'q \<Rightarrow> nat \<Rightarrow> 'q" where
  "uq_seen env i q 0 = env i q"
| "uq_seen env i q (Suc n) = env (i + Suc n) (uq_seen env i q n)"

definition uq_full :: "'a ucq \<Rightarrow> bool" where
  "uq_full q \<longleftrightarrow> length (uq_elems q) = unat (uq_capacity q)"

lemma uq_seen_shift: "uq_seen env (i + 1) (env i q) n = uq_seen env i q (Suc n)"
  by (induction n) simp_all

lemma uq_once_full: "uq_inv q \<Longrightarrow> uq_full q \<Longrightarrow> uq_push_once v q = Some (None, q)"
  by (rule uq_push_full) (simp_all add: uq_full_def)

lemma uq_forever_waits:
  assumes "\<forall>j<n. uq_inv (uq_seen env i q j) \<and> uq_full (uq_seen env i q j)"
    and "uq_inv (uq_seen env i q n)" "\<not> uq_full (uq_seen env i q n)" "uq_left 1 (uq_seen env i q n)"
  shows "\<exists>q'. uq_forever env i (uq_push_once v) q =
           Some (Some (int (length (uq_elems (uq_seen env i q n))) - 1), q') \<and>
         uq_inv q' \<and> uq_elems q' = uq_elems (uq_seen env i q n) @ [v]"
  using assms
proof (induction n arbitrary: i q)
  case 0
  then have "length (uq_elems (env i q)) < unat (uq_capacity (env i q))"
    using uq_capD(5) [of "env i q"] by (simp add: uq_full_def)
  then obtain q' where "uq_push_once v (env i q) = Some (Some (int (length (uq_elems (env i q))) - 1), q')"
      "uq_inv q'" "uq_elems q' = uq_elems (env i q) @ [v]"
    using uq_push_room [of "env i q" 0 v] 0 by auto
  then show ?case by (simp add: uq_forever.simps [of env i _ q])
next
  case (Suc n)
  have "uq_push_once v (env i q) = Some (None, env i q)"
    using Suc.prems(1) by (intro uq_once_full) (auto dest: spec [of _ 0])
  then have step: "uq_forever env i (uq_push_once v) q = uq_forever env (i + 1) (uq_push_once v) (env i q)"
    by (subst uq_forever.simps) simp
  have "\<forall>j<n. uq_inv (uq_seen env (i + 1) (env i q) j) \<and> uq_full (uq_seen env (i + 1) (env i q) j)"
    using Suc.prems(1) unfolding uq_seen_shift by auto
  then show ?case unfolding step uq_seen_shift [symmetric]
    using Suc.IH [of "i + 1" "env i q"] Suc.prems(2-4) unfolding uq_seen_shift by auto
qed

lemma uq_forever_stuck_aux:
  assumes "uq_forever env i once q = Some y"
  shows "once = uq_push_once v \<longrightarrow> \<not> (\<forall>n. uq_inv (uq_seen env i q n) \<and> uq_full (uq_seen env i q n))"
proof (rule uq_forever.raw_induct [OF _ assms])
  fix f env i y and once :: "'a ucq \<Rightarrow> (int option \<times> 'a ucq) option" and q :: "'a ucq"
  assume IH: "\<And>env i once q y. f env i once q = Some y \<Longrightarrow>
      once = uq_push_once v \<longrightarrow> \<not> (\<forall>n. uq_inv (uq_seen env i q n) \<and> uq_full (uq_seen env i q n))"
    and body: "do { (r, q) \<leftarrow> once (env i q); case r of Some r \<Rightarrow> Some (Some r, q) | None \<Rightarrow> f env (i + 1) once q } = Some y"
  show "once = uq_push_once v \<longrightarrow> \<not> (\<forall>n. uq_inv (uq_seen env i q n) \<and> uq_full (uq_seen env i q n))"
  proof (intro impI notI)
    assume o: "once = uq_push_once v" and all: "\<forall>n. uq_inv (uq_seen env i q n) \<and> uq_full (uq_seen env i q n)"
    have "uq_push_once v (env i q) = Some (None, env i q)"
      using spec [OF all, of 0] by (intro uq_once_full) simp_all
    then have "f env (i + 1) once (env i q) = Some y" using body o by simp
    from IH [OF this] have "\<not> (\<forall>n. uq_inv (uq_seen env (i + 1) (env i q) n) \<and> uq_full (uq_seen env (i + 1) (env i q) n))"
      using o by simp
    then show False using all unfolding uq_seen_shift by blast
  qed
qed

lemma uq_forever_stuck:
  assumes "\<forall>n. uq_inv (uq_seen env i q n) \<and> uq_full (uq_seen env i q n)"
  shows "uq_forever env i (uq_push_once v) q = None"
proof (cases "uq_forever env i (uq_push_once v) q")
  case (Some y)
  then show ?thesis using uq_forever_stuck_aux [OF Some, of v] assms by simp
qed

section \<open>SL\_CircularBuffer\<close>

record circular_buffer =
  cb_buffer :: "byte list option"
  cb_buffer_size :: uint
  cb_data_begin :: uint
  cb_data_end :: uint
  cb_data_size :: uint

definition cb_new :: "allocator \<Rightarrow> uint \<Rightarrow> circular_buffer" where
  "cb_new h n = \<lparr>cb_buffer = sl_malloc h (unat n), cb_buffer_size = n, cb_data_begin = 0, cb_data_end = 0,
                 cb_data_size = 0\<rparr>"

definition cb_clear :: "circular_buffer \<Rightarrow> circular_buffer" where
  "cb_clear b = b\<lparr>cb_data_begin := 0, cb_data_end := 0, cb_data_size := 0\<rparr>"

definition cb_write :: "byte list \<Rightarrow> uint \<Rightarrow> circular_buffer \<Rightarrow> (uint \<times> circular_buffer) option" where
  "cb_write data sz b =
     (let capacity = cb_buffer_size b; write_bytes = min sz (capacity - sz); m = block (cb_buffer b) in do {
        (m, e) \<leftarrow>
          (if capacity - cb_data_end b \<ge> write_bytes then do {
             m \<leftarrow> mem_copy m (unat (cb_data_end b)) data (unat write_bytes);
             let e = cb_data_end b + write_bytes;
             Some (m, if e = capacity then 0 else e) }
           else do {
             let size_1 = capacity - cb_data_end b;
             m \<leftarrow> mem_copy m (unat (cb_data_end b)) data (unat size_1);
             let size_2 = write_bytes - size_1;
             m \<leftarrow> mem_copy m 0 (drop (unat size_1) data) (unat size_2);
             Some (m, size_2) });
        Some (write_bytes, b\<lparr>cb_buffer := map_option (\<lambda>_. m) (cb_buffer b), cb_data_end := e,
                             cb_data_size := cb_data_size b + write_bytes\<rparr>) })"

definition cb_take :: "uint \<Rightarrow> circular_buffer \<Rightarrow> (uint \<times> byte list \<times> circular_buffer) option" where
  "cb_take sz b =
     (let capacity = cb_buffer_size b; read_bytes = min sz (cb_data_size b); m = block (cb_buffer b) in do {
        (d, s) \<leftarrow>
          (if capacity - cb_data_begin b \<ge> read_bytes then do {
             d \<leftarrow> mem_get m (unat (cb_data_begin b)) (unat read_bytes);
             let s = cb_data_begin b + read_bytes;
             Some (d, if s = capacity then 0 else s) }
           else do {
             let size_1 = capacity - cb_data_begin b;
             d1 \<leftarrow> mem_get m (unat (cb_data_begin b)) (unat size_1);
             let size_2 = read_bytes - size_1;
             d2 \<leftarrow> mem_get m 0 (unat size_2);
             Some (d1 @ d2, size_2) });
        Some (read_bytes, d, b\<lparr>cb_data_begin := s, cb_data_size := cb_data_size b - read_bytes\<rparr>) })"

definition cb_bytes :: "circular_buffer \<Rightarrow> byte list" where
  "cb_bytes b = ring (block (cb_buffer b)) (unat (cb_data_begin b)) (unat (cb_data_size b))"

definition cb_inv :: "circular_buffer \<Rightarrow> bool" where
  "cb_inv b \<longleftrightarrow>
     length (block (cb_buffer b)) = unat (cb_buffer_size b) \<and> 0 < unat (cb_buffer_size b) \<and>
     unat (cb_data_size b) \<le> unat (cb_buffer_size b) \<and> unat (cb_data_begin b) < unat (cb_buffer_size b) \<and>
     unat (cb_data_end b) = (unat (cb_data_begin b) + unat (cb_data_size b)) mod unat (cb_buffer_size b)"

lemma cb_write_bytes:
  assumes "2 * unat sz \<le> unat (c :: uint)"
  shows "min sz (c - sz) = sz"
proof -
  have "unat (c - sz) = unat c - unat sz" using assms by (intro unat_sub_le) simp
  then have "sz \<le> c - sz" using assms by (simp add: word_le_nat_alt)
  then show ?thesis by (rule min_absorb1)
qed

lemma unat_add_le32: "unat a + unat b \<le> unat (c :: uint) \<Longrightarrow> unat (a + b :: uint) = unat a + unat b"
  using unat_le_lt32 [of "unat a + unat b" c] by (intro unat_add_small) simp

text \<open>A write that the code performs completely stores its bytes around the end of the block.\<close>

lemma cb_write_store:
  assumes inv: "cb_inv b" and d: "length d = unat sz" "2 * unat sz \<le> unat (cb_buffer_size b)"
  shows "\<exists>e. cb_write d sz b = Some (sz, b\<lparr>cb_buffer := Some (ring_put (block (cb_buffer b)) (unat (cb_data_end b)) d),
           cb_data_end := e, cb_data_size := cb_data_size b + sz\<rparr>) \<and>
         unat e = (unat (cb_data_end b) + unat sz) mod unat (cb_buffer_size b)"
proof -
  let ?m = "block (cb_buffer b)" and ?e = "unat (cb_data_end b)" and ?c = "unat (cb_buffer_size b)"
  have l: "length ?m = ?c" "?e < ?c" using inv by (auto simp: cb_inv_def)
  have buf: "map_option (\<lambda>_. m) (cb_buffer b) = Some m" for m using l by (cases "cb_buffer b") auto
  have free: "unat (cb_buffer_size b - cb_data_end b) = ?c - ?e" using l by (intro unat_sub_le) simp
  note wb = cb_write_bytes [OF d(2)]
  show ?thesis
  proof (cases "unat sz \<le> ?c - ?e")
    case True
    have mc: "mem_copy ?m ?e d (unat sz) = Some (ring_put ?m ?e d)"
      using True l d(1) by (simp add: mem_copy_ok ring_put_block)
    have e: "unat (cb_data_end b + sz) = ?e + unat sz" using True l by (intro unat_add_le32 [where c = "cb_buffer_size b"]) simp
    let ?e' = "if cb_data_end b + sz = cb_buffer_size b then 0 else cb_data_end b + sz"
    have "cb_data_end b + sz = cb_buffer_size b \<longleftrightarrow> ?e + unat sz = ?c" using e by (metis word_unat_eq_iff)
    then have "unat ?e' = (?e + unat sz) mod ?c" using e True l by auto
    then show ?thesis using True mc free wb by (intro exI [of _ ?e']) (simp add: cb_write_def word_le_nat_alt buf Let_def)
  next
    case False
    let ?s1 = "cb_buffer_size b - cb_data_end b"
    let ?m1 = "ring_put ?m ?e (take (unat ?s1) d)" and ?d2 = "drop (unat ?s1) d"
    have s2: "unat (sz - ?s1) = unat sz - (?c - ?e)" using False free by (intro trans [OF unat_sub_le]) simp_all
    have mc1: "mem_copy ?m ?e d (unat ?s1) = Some ?m1"
      using False l d(1) free by (simp add: mem_copy_ok ring_put_block min_absorb2)
    have "mem_copy ?m1 0 ?d2 (unat (sz - ?s1)) = Some (ring_put ?m1 0 ?d2)"
      using False l d free s2 by (simp add: mem_copy_ok ring_put_block)
    moreover have "ring_put ?m1 0 ?d2 = ring_put ?m1 (?e + unat ?s1) ?d2"
      using ring_put_wrap [of ?m1 0 ?d2] l free by simp
    moreover have "ring_put ?m ?e d = ring_put ?m1 (?e + unat ?s1) ?d2"
      using ring_put_append [of ?m ?e "take (unat ?s1) d" ?d2] False d(1) free by (simp add: min_absorb2)
    ultimately have mc2: "mem_copy ?m1 0 ?d2 (unat (sz - ?s1)) = Some (ring_put ?m ?e d)" by simp
    have "?e + unat sz = (unat sz - (?c - ?e)) + ?c" using False l by simp
    then have "(?e + unat sz) mod ?c = (unat sz - (?c - ?e)) mod ?c" by (simp only: mod_add_self2)
    then have "unat (sz - ?s1) = (?e + unat sz) mod ?c" using s2 d(2) l by simp
    then show ?thesis using False mc1 mc2 free wb
      by (intro exI [of _ "sz - ?s1"]) (simp add: cb_write_def word_le_nat_alt buf Let_def)
  qed
qed

lemma cb_write_ok:
  assumes inv: "cb_inv b" and d: "length d = unat sz" "2 * unat sz \<le> unat (cb_buffer_size b)"
    and room: "unat (cb_data_size b) + unat sz \<le> unat (cb_buffer_size b)"
  shows "\<exists>b'. cb_write d sz b = Some (sz, b') \<and> cb_inv b' \<and> cb_buffer_size b' = cb_buffer_size b \<and>
           cb_bytes b' = cb_bytes b @ d"
proof -
  let ?m = "block (cb_buffer b)" and ?s = "unat (cb_data_begin b)" and ?n = "unat (cb_data_size b)"
  have l: "length ?m = unat (cb_buffer_size b)" "unat (cb_data_end b) = (?s + ?n) mod length ?m"
    using inv by (simp_all add: cb_inv_def)
  obtain e where e: "cb_write d sz b = Some (sz, b\<lparr>cb_buffer := Some (ring_put ?m (unat (cb_data_end b)) d),
           cb_data_end := e, cb_data_size := cb_data_size b + sz\<rparr>)"
      "unat e = (unat (cb_data_end b) + unat sz) mod unat (cb_buffer_size b)"
    using cb_write_store [OF inv d] by auto
  have n: "unat (cb_data_size b + sz) = ?n + unat sz" using room by (rule unat_add_le32)
  let ?b = "b\<lparr>cb_buffer := Some (ring_put ?m (unat (cb_data_end b)) d), cb_data_end := e,
      cb_data_size := cb_data_size b + sz\<rparr>"
  have "cb_inv ?b" using inv e(2) n room by (simp add: cb_inv_def mod_simps add.assoc)
  moreover have "cb_bytes ?b = cb_bytes b @ d"
    using ring_ring_put [of ?n d ?m ?s] room l d(1) n by (simp add: cb_bytes_def ring_put_mod_len)
  ultimately show ?thesis using e(1) by (intro exI [of _ ?b]) simp
qed

lemma cb_take_ok:
  assumes inv: "cb_inv b"
  shows "\<exists>b'. cb_take sz b = Some (word_of_nat (min (unat sz) (length (cb_bytes b))), take (unat sz) (cb_bytes b), b') \<and>
           cb_inv b' \<and> cb_buffer_size b' = cb_buffer_size b \<and> cb_bytes b' = drop (unat sz) (cb_bytes b)"
proof -
  let ?m = "block (cb_buffer b)" and ?s = "unat (cb_data_begin b)" and ?n = "unat (cb_data_size b)"
    and ?c = "unat (cb_buffer_size b)"
  let ?rb = "min sz (cb_data_size b)"
  have l: "length ?m = ?c" "?s < ?c" "?n \<le> ?c" "0 < ?c" "unat (cb_data_end b) = (?s + ?n) mod ?c"
    using inv by (simp_all add: cb_inv_def)
  have rb: "unat ?rb = min (unat sz) ?n" by (simp add: min_def word_le_nat_alt)
  have free: "unat (cb_buffer_size b - cb_data_begin b) = ?c - ?s" using l by (intro unat_sub_le) simp
  have split: "cb_bytes b = ring ?m ?s (unat ?rb) @ ring ?m (?s + unat ?rb) (?n - unat ?rb)"
    using ring_split [of ?m ?s "unat ?rb" "?n - unat ?rb"] rb by (simp add: cb_bytes_def)
  have tk: "take (unat sz) (cb_bytes b) = ring ?m ?s (unat ?rb)"
    and dr: "drop (unat sz) (cb_bytes b) = ring ?m (?s + unat ?rb) (?n - unat ?rb)"
  proof -
    have "length (cb_bytes b) = ?n" by (simp add: cb_bytes_def)
    then have "take (unat sz) (cb_bytes b) = take (unat ?rb) (cb_bytes b)"
      "drop (unat sz) (cb_bytes b) = drop (unat ?rb) (cb_bytes b)" using rb by (simp_all add: min_def)
    then show "take (unat sz) (cb_bytes b) = ring ?m ?s (unat ?rb)"
      "drop (unat sz) (cb_bytes b) = ring ?m (?s + unat ?rb) (?n - unat ?rb)" unfolding split by simp_all
  qed
  have left: "unat (cb_data_size b - ?rb) = ?n - unat ?rb" using rb by (intro unat_sub_le) simp
  have "\<exists>s. cb_take sz b = Some (?rb, ring ?m ?s (unat ?rb),
            b\<lparr>cb_data_begin := s, cb_data_size := cb_data_size b - ?rb\<rparr>) \<and>
          unat s = (?s + unat ?rb) mod ?c"
  proof (cases "unat ?rb \<le> ?c - ?s")
    case True
    have mg: "mem_get ?m ?s (unat ?rb) = Some (ring ?m ?s (unat ?rb))"
      using True l by (simp add: mem_get_def ring_block)
    have e: "unat (cb_data_begin b + ?rb) = ?s + unat ?rb"
      using True l by (intro unat_add_le32 [where c = "cb_buffer_size b"]) simp
    let ?e' = "if cb_data_begin b + ?rb = cb_buffer_size b then 0 else cb_data_begin b + ?rb"
    have "cb_data_begin b + ?rb = cb_buffer_size b \<longleftrightarrow> ?s + unat ?rb = ?c" using e by (metis word_unat_eq_iff)
    then have "unat ?e' = (?s + unat ?rb) mod ?c" using e True l by auto
    then show ?thesis using True mg free
      by (intro exI [of _ ?e']) (simp add: cb_take_def word_le_nat_alt Let_def del: min_less_iff_conj)
  next
    case False
    let ?s1 = "cb_buffer_size b - cb_data_begin b"
    have s2: "unat (?rb - ?s1) = unat ?rb - (?c - ?s)" using False free by (intro trans [OF unat_sub_le]) simp_all
    have le: "unat ?rb \<le> ?c" using rb l(3) by simp
    have m1: "mem_get ?m ?s (unat ?s1) = Some (ring ?m ?s (?c - ?s))"
      using l free by (simp add: mem_get_def ring_block)
    have m2: "mem_get ?m 0 (unat (?rb - ?s1)) = Some (ring ?m 0 (unat ?rb - (?c - ?s)))"
      unfolding s2 using l le by (simp add: mem_get_def ring_block)
    have "ring ?m (?s + (?c - ?s)) k = ring ?m 0 k" for k
      using ring_mod [of ?m ?c k] l by simp
    then have rr: "ring ?m ?s (?c - ?s) @ ring ?m 0 (unat ?rb - (?c - ?s)) = ring ?m ?s (unat ?rb)"
      using ring_split [of ?m ?s "?c - ?s" "unat ?rb - (?c - ?s)"] False by simp
    have "?s + unat ?rb = (unat ?rb - (?c - ?s)) + ?c" using False l by simp
    then have "(?s + unat ?rb) mod ?c = (unat ?rb - (?c - ?s)) mod ?c" by (simp only: mod_add_self2)
    moreover have "unat ?rb - (?c - ?s) < ?c" using le l by simp
    ultimately have "unat (?rb - ?s1) = (?s + unat ?rb) mod ?c" using s2 by simp
    moreover have "\<not> cb_buffer_size b - cb_data_begin b \<ge> ?rb" using False free unfolding word_le_nat_alt by simp
    ultimately show ?thesis using m1 m2 rr
      by (intro exI [of _ "?rb - ?s1"]) (simp add: cb_take_def Let_def)
  qed
  then obtain s where s: "cb_take sz b = Some (?rb, ring ?m ?s (unat ?rb),
            b\<lparr>cb_data_begin := s, cb_data_size := cb_data_size b - ?rb\<rparr>)" "unat s = (?s + unat ?rb) mod ?c"
    by blast
  let ?b = "b\<lparr>cb_data_begin := s, cb_data_size := cb_data_size b - ?rb\<rparr>"
  have "?s + unat ?rb + (?n - unat ?rb) = ?s + ?n" using rb by simp
  then have last: "(?s + ?n) mod ?c = (unat s + unat (cb_data_size b - ?rb)) mod ?c"
    unfolding s(2) left by (simp only: mod_add_left_eq)
  have "unat (cb_data_size b - ?rb) \<le> ?c" "unat s < ?c" using left l s(2) by simp_all
  then have "cb_inv ?b" using l last by (simp add: cb_inv_def)
  moreover have "cb_bytes ?b = drop (unat sz) (cb_bytes b)"
    unfolding dr using s(2) left l by (simp add: cb_bytes_def ring_mod_len)
  moreover have "?rb = word_of_nat (min (unat sz) (length (cb_bytes b)))"
    unfolding cb_bytes_def length_ring rb [symmetric] by simp
  ultimately show ?thesis using s(1) tk by (intro exI [of _ ?b]) simp
qed

datatype cb_op = Cb_write "byte list" | Cb_read nat

primrec cb_exec :: "circular_buffer \<Rightarrow> cb_op list \<Rightarrow> (byte list \<times> circular_buffer) option" where
  "cb_exec b [] = Some ([], b)"
| "cb_exec b (c # cs) =
     (case c of
        Cb_write d \<Rightarrow> do { (n, b) \<leftarrow> cb_write d (word_of_nat (length d)) b; cb_exec b cs }
      | Cb_read n \<Rightarrow> do { (m, d, b) \<leftarrow> cb_take (word_of_nat n) b; (out, b) \<leftarrow> cb_exec b cs; Some (d @ out, b) })"

text \<open>
  The queue of bytes, for the sequences in which every block written fits the free part and is
  at most half of the buffer.
\<close>

primrec cb_spec :: "nat \<Rightarrow> byte list \<Rightarrow> cb_op list \<Rightarrow> (byte list \<times> byte list) option" where
  "cb_spec cap q [] = Some ([], q)"
| "cb_spec cap q (c # cs) =
     (case c of
        Cb_write d \<Rightarrow>
          (if 2 * length d \<le> cap \<and> length q + length d \<le> cap then cb_spec cap (q @ d) cs else None)
      | Cb_read n \<Rightarrow>
          (if n < 2 ^ 32 then do { (out, r) \<leftarrow> cb_spec cap (drop n q) cs; Some (take n q @ out, r) } else None))"

lemma length_cb_bytes: "length (cb_bytes b) = unat (cb_data_size b)"
  by (simp add: cb_bytes_def)

lemma cb_exec_spec:
  assumes "cb_inv b" "cb_spec (unat (cb_buffer_size b)) (cb_bytes b) cs = Some (out, q)"
  shows "\<exists>b'. cb_exec b cs = Some (out, b') \<and> cb_inv b' \<and> cb_bytes b' = q"
  using assms
proof (induction cs arbitrary: b out)
  case Nil
  then show ?case by simp
next
  case (Cons c cs)
  show ?case
  proof (cases c)
    case (Cb_write d)
    have d: "2 * length d \<le> unat (cb_buffer_size b)" "unat (cb_data_size b) + length d \<le> unat (cb_buffer_size b)"
      and spec: "cb_spec (unat (cb_buffer_size b)) (cb_bytes b @ d) cs = Some (out, q)"
      using Cons.prems(2) Cb_write length_cb_bytes [of b] by (auto split: if_splits)
    have n: "unat (word_of_nat (length d) :: uint) = length d"
      using d(2) unat_le_lt32 [of "length d" "cb_buffer_size b"] by (simp add: unat_of_nat)
    obtain b' where b': "cb_write d (word_of_nat (length d)) b = Some (word_of_nat (length d), b')" "cb_inv b'"
        "cb_buffer_size b' = cb_buffer_size b" "cb_bytes b' = cb_bytes b @ d"
      using cb_write_ok [OF Cons.prems(1), of d "word_of_nat (length d)"] d n by auto
    then show ?thesis using Cons.IH [OF b'(2), of out] spec Cb_write by auto
  next
    case (Cb_read n)
    have lt: "n < 2 ^ 32" using Cons.prems(2) Cb_read by (auto split: if_splits)
    then obtain out' where spec: "cb_spec (unat (cb_buffer_size b)) (drop n (cb_bytes b)) cs = Some (out', q)"
        "out = take n (cb_bytes b) @ out'"
      using Cons.prems(2) Cb_read by (auto simp: bind_eq_Some_conv)
    have n: "unat (word_of_nat n :: uint) = n" using lt by (simp add: unat_of_nat)
    obtain r b' where b': "cb_take (word_of_nat n) b = Some (r, take n (cb_bytes b), b')" "cb_inv b'"
        "cb_buffer_size b' = cb_buffer_size b" "cb_bytes b' = drop n (cb_bytes b)"
      using cb_take_ok [OF Cons.prems(1), of "word_of_nat n"] n by auto
    then show ?thesis using Cons.IH [OF b'(2), of out'] spec Cb_read by auto
  qed
qed

section \<open>Properties\<close>

text \<open>C12: A circular queue of any capacity behaves under any sequence of pushes and pops as a bounded queue:
  elements come out in the order they went in, a push beyond the capacity is refused, and with the
  rewrite flag of both the queue and the call it drops the oldest element.\<close>

theorem circular_queue_bounded_fifo:
  assumes "0 < unat capacity"
  shows "\<exists>q. bq_run cq_step ops (cq_new junk capacity rewrite) =
               Some (fst (bq_spec_run (unat capacity) rewrite [] ops), q) \<and>
             cq_inv q \<and> cq_elems q = snd (bq_spec_run (unat capacity) rewrite [] ops)"
proof -
  let ?q = "cq_new junk capacity rewrite"
  have "cq_inv ?q" using assms by (simp add: cq_inv_def cq_new_def cq_pool_list_def)
  then obtain rs q where rs: "q_run cq_step ops ?q = Some (rs, q)" "cq_inv q"
      "(rs, cq_elems q) = q_spec_run (bq_spec (unat (cq_capacity ?q)) (cq_rewrite ?q)) ops (cq_elems ?q)"
    using circular.run_spec [of ?q ops] by auto
  have q: "bq_run cq_step ops ?q = Some (out_elems rs, q)" "cq_inv q"
      "(out_elems rs, cq_elems q) = bq_spec_run (unat (cq_capacity ?q)) (cq_rewrite ?q) (cq_elems ?q) ops"
    unfolding bq_run_q_run bq_spec_run_q_run rs(3) [symmetric] rs(1) using rs(2) by simp_all
  have "cq_elems ?q = []" "cq_capacity ?q = capacity" "cq_rewrite ?q = rewrite"
    by (simp_all add: cq_elems_def cq_new_def)
  then have "bq_spec_run (unat capacity) rewrite [] ops = (out_elems rs, cq_elems q)" using q(3) by simp
  then show ?thesis using q(1,2) by simp
qed

theorem circular_queue_bounded_fifo_witness:
  "\<exists>q. bq_run cq_step [Bq_push (1 :: nat) False, Bq_push 2 False, Bq_push 3 True, Bq_pop] (cq_new 0 2 True) =
         Some (fst (bq_spec_run (unat (2 :: uint)) True [] [Bq_push 1 False, Bq_push 2 False, Bq_push 3 True, Bq_pop]), q) \<and>
       cq_inv q \<and>
       cq_elems q = snd (bq_spec_run (unat (2 :: uint)) True [] [Bq_push 1 False, Bq_push 2 False, Bq_push 3 True, Bq_pop])"
  by (rule circular_queue_bounded_fifo) simp

text \<open>C13: A masked queue opened for any capacity is a bounded queue of exactly the least power of two that
  is large enough, \<open>2 ^ 31\<close> at most: in any sequence of fewer than \<open>2 ^ 63\<close> calls with one attempt each,
  one after the other as the mutex makes them, a push into a queue with room appends its element and
  answers the size it found less one, a push into a full queue changes nothing and answers \<open>-1\<close>, a
  pop gives the oldest element and the size that is left, or \<open>-1\<close> for an empty queue.  The bound on
  the number of calls keeps the signed 64-bit indices in their range; no access leaves the pool.\<close>

theorem masked_queue_bounded_fifo:
  assumes "int (length ops) < 2 ^ 63"
  shows "\<exists>q. q_run uq_step ops (snd (uq_init junk capacity rw rr uq_new)) =
           Some (fst (q_spec_run (mq_spec (min (2 ^ 31) (2 ^ (LEAST k. unat capacity \<le> 2 ^ k))) False) ops []), q) \<and>
         uq_inv q \<and>
         uq_elems q = snd (q_spec_run (mq_spec (min (2 ^ 31) (2 ^ (LEAST k. unat capacity \<le> 2 ^ k))) False) ops [])"
proof -
  let ?q = "snd (uq_init junk capacity rw rr uq_new)"
  have inv: "uq_inv ?q" using pow2_capacity_mem [of capacity]
    by (simp add: uq_inv_def uq_init_def uq_new_def uq_pool_list_def Let_def)
  have "uq_left (length ops) ?q" using assms by (simp add: uq_left_def uq_init_def uq_new_def Let_def)
  from masked.run_spec [OF inv this]
  obtain outs q where q: "q_run uq_step ops ?q = Some (outs, q)" "uq_inv q"
      "(outs, uq_elems q) = q_spec_run (mq_spec (unat (uq_capacity ?q)) False) ops (uq_elems ?q)"
    by auto
  have "uq_elems ?q = []" "uq_capacity ?q = pow2_capacity capacity"
    by (simp_all add: uq_elems_def uq_init_def uq_new_def Let_def)
  then have "q_spec_run (mq_spec (min (2 ^ 31) (2 ^ (LEAST k. unat capacity \<le> 2 ^ k))) False) ops [] = (outs, uq_elems q)"
    using q(3) by (simp only: pow2_capacity_least)
  then show ?thesis using q(1,2) by simp
qed

theorem masked_queue_bounded_fifo_witness:
  "\<exists>q. q_run uq_step [Bq_push 7 False, Bq_pop, Bq_pop] (snd (uq_init (0 :: nat) 3 1 1 uq_new)) =
     Some (fst (q_spec_run (mq_spec (min (2 ^ 31) (2 ^ (LEAST k. unat (3 :: uint) \<le> 2 ^ k))) False)
       [Bq_push 7 False, Bq_pop, Bq_pop] []), q) \<and> uq_inv q \<and>
     uq_elems q = snd (q_spec_run (mq_spec (min (2 ^ 31) (2 ^ (LEAST k. unat (3 :: uint) \<le> 2 ^ k))) False)
       [Bq_push 7 False, Bq_pop, Bq_pop] [])"
  by (rule masked_queue_bounded_fifo) simp

text \<open>
  A push without a limit on its attempts (the setting \<^verbatim>\<open>rewrite_count < 1\<close>) returns exactly
  when some attempt finds room, whatever the other threads do between the attempts, and then it
  has appended its element; otherwise it never returns.\<close>

theorem masked_push_waits:
  assumes "\<forall>i. uq_inv (uq_seen env 0 q i) \<and> uq_left 1 (uq_seen env 0 q i)"
  shows "uq_push v (- 1) env q = None \<and> (\<forall>i. uq_full (uq_seen env 0 q i)) \<or>
         (\<exists>n q'. uq_push v (- 1) env q = Some (int (length (uq_elems (uq_seen env 0 q n))) - 1, q') \<and>
            \<not> uq_full (uq_seen env 0 q n) \<and> uq_elems q' = uq_elems (uq_seen env 0 q n) @ [v])"
proof (cases "\<forall>i. uq_full (uq_seen env 0 q i)")
  case True
  then show ?thesis using uq_forever_stuck [of env 0 q v] assms by (simp add: uq_push_def uq_attempts_def)
next
  case False
  then obtain k where "\<not> uq_full (uq_seen env 0 q k)" by auto
  then obtain n where n: "\<not> uq_full (uq_seen env 0 q n)" "\<forall>j<n. uq_full (uq_seen env 0 q j)"
    using exists_least_iff [of "\<lambda>i. \<not> uq_full (uq_seen env 0 q i)"] by auto
  then obtain q' where q': "uq_forever env 0 (uq_push_once v) q =
      Some (Some (int (length (uq_elems (uq_seen env 0 q n))) - 1), q')" "uq_elems q' = uq_elems (uq_seen env 0 q n) @ [v]"
    using uq_forever_waits [of n env 0 q v] assms by auto
  then have "uq_push v (- 1) env q = Some (int (length (uq_elems (uq_seen env 0 q n))) - 1, q')"
    by (simp add: uq_push_def uq_attempts_def)
  then show ?thesis using n(1) q'(2) by blast
qed

lemma uq_seen_id: "uq_seen (\<lambda>_ q. q) i q n = q"
  by (induction n) simp_all

definition demo_ucq :: "nat ucq" where
  "demo_ucq = \<lparr>uq_pool = Some [0, 0], uq_write = 0, uq_read = 0, uq_capacity = 2, uq_mask = 1,
               uq_rewrite_count = -1, uq_reread_count = -1\<rparr>"

lemma demo_ucq_inv: "uq_inv demo_ucq" "uq_elems demo_ucq = []"
  by (simp_all add: uq_inv_def uq_elems_def demo_ucq_def uq_pool_list_def SL_2_POW_LIST_def)

lemma demo_ucq_left: "uq_left 1 demo_ucq"
  by (simp add: uq_left_def demo_ucq_def)

theorem masked_push_waits_witness:
  "uq_push 7 (- 1) (\<lambda>_ q. q) demo_ucq = None \<and> (\<forall>i. uq_full (uq_seen (\<lambda>_ q. q) 0 demo_ucq i)) \<or>
   (\<exists>n q'. uq_push 7 (- 1) (\<lambda>_ q. q) demo_ucq =
             Some (int (length (uq_elems (uq_seen (\<lambda>_ q. q) 0 demo_ucq n))) - 1, q') \<and>
      \<not> uq_full (uq_seen (\<lambda>_ q. q) 0 demo_ucq n) \<and>
      uq_elems q' = uq_elems (uq_seen (\<lambda>_ q. q) 0 demo_ucq n) @ [7])"
  by (rule masked_push_waits) (simp add: uq_seen_id demo_ucq_inv demo_ucq_left [unfolded One_nat_def])

text \<open>
  A push into an empty queue stores its element and returns \<open>-1\<close>, the value of a push that
  has failed: the code returns the old size less one.\<close>

theorem masked_push_empty_fails:
  assumes "uq_inv q" "uq_elems q = []" "uq_left 1 q"
  shows "\<exists>q'. uq_push v n (\<lambda>_ q. q) q = Some (- 1, q') \<and> uq_elems q' = [v]"
proof -
  have "0 < unat (uq_capacity q)" using uq_capD [OF assms(1)] by simp
  then obtain q' where q': "uq_push_once v q = Some (Some (- 1), q')" "uq_elems q' = [v]"
    using uq_push_room [OF assms(1), of 0 v] assms(2,3) by auto
  define redo where "redo = (if n = 0 then uq_rewrite_count q else n)"
  have "uq_attempts redo (\<lambda>_ q. q) (uq_push_once v) q = Some (Some (- 1), q')"
  proof (cases "redo > 0")
    case True
    then obtain k where "nat redo = Suc k" by (cases "nat redo") auto
    then show ?thesis using True q' by (simp add: uq_attempts_def)
  next
    case False
    then show ?thesis using q' by (simp add: uq_attempts_def uq_forever.simps)
  qed
  then show ?thesis using q'(2) by (simp add: uq_push_def redo_def)
qed

theorem masked_push_empty_fails_witness:
  "\<exists>q'. uq_push 7 1 (\<lambda>_ q. q) demo_ucq = Some (- 1, q') \<and> uq_elems q' = [7]"
  by (rule masked_push_empty_fails [OF demo_ucq_inv demo_ucq_left])

text \<open>C14: The byte ring hands out the bytes written, in order, for every sequence of calls in which a
  block fits the free part of the buffer and is no longer than half of it.\<close>

theorem circular_buffer_fifo:
  assumes "heap_ok h (unat n)" "0 < unat n" "cb_spec (unat n) [] ops = Some (out, q)"
  shows "\<exists>b. cb_exec (cb_new h n) ops = Some (out, b) \<and> cb_inv b \<and> cb_bytes b = q"
proof -
  have "cb_inv (cb_new h n)" "cb_bytes (cb_new h n) = []" "cb_buffer_size (cb_new h n) = n"
    using assms by (simp_all add: cb_inv_def cb_bytes_def cb_new_def sl_malloc_def)
  then show ?thesis using cb_exec_spec [of "cb_new h n" ops out q] assms(3) by simp
qed

theorem circular_buffer_fifo_witness:
  "\<exists>b. cb_exec (cb_new \<lparr>heap_ok = \<lambda>_. True, heap_junk = \<lambda>_. 0\<rparr> 4)
         [Cb_write [1, 2], Cb_write [3], Cb_read 2, Cb_write [4, 5], Cb_read 9] = Some ([1, 2, 3, 4, 5], b) \<and>
       cb_inv b \<and> cb_bytes b = []"
  by (rule circular_buffer_fifo) simp_all

text \<open>
  \<^verbatim>\<open>SL_CircularBuffer::write\<close> compares the block with the capacity, not with the free
  part: a block of up to half the capacity is stored over bytes not yet read, and the size grows
  beyond the capacity; a block of more than twice the capacity is written outside the buffer.\<close>

theorem circular_buffer_overrun:
  assumes "cb_inv b" "unat (cb_buffer_size b) < 2 ^ 31"
    and "length d = unat sz" "2 * unat sz \<le> unat (cb_buffer_size b)"
      "unat (cb_buffer_size b) < unat (cb_data_size b) + unat sz"
    and "length d2 = unat sz2" "2 * unat (cb_buffer_size b) < unat sz2" "unat sz2 \<le> 2 ^ 31"
  shows "(\<exists>b'. cb_write d sz b = Some (sz, b') \<and> unat (cb_buffer_size b') < unat (cb_data_size b')) \<and>
         cb_write d2 sz2 b = None"
proof
  let ?c = "unat (cb_buffer_size b)"
  have n: "unat (cb_data_size b + sz) = unat (cb_data_size b) + unat sz"
    using assms(1,2,4) by (intro unat_add_small) (simp add: cb_inv_def)
  show "\<exists>b'. cb_write d sz b = Some (sz, b') \<and> unat (cb_buffer_size b') < unat (cb_data_size b')"
    using cb_write_store [OF assms(1,3,4)] n assms(5) by auto
  have l: "length (block (cb_buffer b)) = ?c" "unat (cb_data_end b) < ?c" using assms(1) by (auto simp: cb_inv_def)
  have "unat (cb_buffer_size b - sz2) = 2 ^ 32 + ?c - unat sz2"
    using assms(7) by (simp add: unat_sub_if' )
  then have "sz2 \<le> cb_buffer_size b - sz2" using assms(8) by (simp add: word_le_nat_alt)
  then have wb: "min sz2 (cb_buffer_size b - sz2) = sz2" by (rule min_absorb1)
  have free: "unat (cb_buffer_size b - cb_data_end b) = ?c - unat (cb_data_end b)" using l by (intro unat_sub_le) simp
  have s2: "unat (sz2 - (cb_buffer_size b - cb_data_end b)) = unat sz2 - (?c - unat (cb_data_end b))"
    using free assms(7) by (intro trans [OF unat_sub_le]) simp_all
  show "cb_write d2 sz2 b = None"
    unfolding cb_write_def Let_def wb using free assms(6,7) l s2
    by (simp add: word_le_nat_alt mem_copy_ok mem_copy_dst_fail)
qed

definition demo_ring :: circular_buffer where
  "demo_ring = \<lparr>cb_buffer = Some [1, 2, 3, 4], cb_buffer_size = 4, cb_data_begin = 0, cb_data_end = 3, cb_data_size = 3\<rparr>"

theorem circular_buffer_overrun_witness:
  "(\<exists>b'. cb_write [8, 9] 2 demo_ring = Some (2, b') \<and> unat (cb_buffer_size b') < unat (cb_data_size b')) \<and>
   cb_write [1, 2, 3, 4, 5, 6, 7, 8, 9] 9 demo_ring = None"
  by (rule circular_buffer_overrun) (simp_all add: demo_ring_def cb_inv_def)

end
