(* ===== verification/SL_Disruptor.thy ===== *)
theory SL_Disruptor
  imports SL_Queues
begin

text \<open>
  The event queues between threads: \<^verbatim>\<open>SL_Disruptor_LockFreeQueue\<close> with any number of
  producers, the consumer threads \<^verbatim>\<open>SL_Disruptor_Handler\<close>, and
  \<^verbatim>\<open>SL_Disruptor_SingleWriteQueue\<close> (\<^verbatim>\<open>include/SL_Disruptor_*.h\<close>).

  Every access to a shared atomic is one step, so the interleavings of the threads are the runs of
  \<open>dq_reach\<close>.  The 64-bit indices only grow from zero and are natural numbers.  The contract:
  every consumer sees the events in the order of their indices, each as it was written, and no
  slot is written while a consumer may still read it.
\<close>

section \<open>State\<close>

text \<open>
  A producer inside \<^verbatim>\<open>push\<close>: the event, the attempts left (\<open>None\<close> without a limit) and
  the local variables.  \<open>P_scan\<close> is the loop over the dependent handlers.
\<close>

datatype producer =
  P_done int
  | P_load "byte list" "nat option"
  | P_scan "byte list" "nat option" nat "nat option" "nat list"
  | P_cas "byte list" "nat option" nat int
  | P_copy "byte list" nat int
  | P_publish "byte list" nat int
  | P_notify nat int "nat list"

text \<open>A consumer in its thread procedure; \<open>H_scan\<close> is the loop over its dependencies.\<close>

datatype consumer_pc =
  H_look
  | H_scan "nat option" "nat list"
  | H_handle nat
  | H_notify "nat list"
  | H_wait
  | H_quit

record consumer =
  hd_index :: nat
  hd_current :: nat
  hd_pc :: consumer_pc
  hd_deps :: "nat list"
  hd_notify :: "nat list"
  hd_handled :: "byte list list"
  hd_waiting :: bool
  hd_signal :: bool

record disruptor =
  dq_pool :: "byte list option"
  dq_cursor :: nat
  dq_next :: nat
  dq_capacity :: nat
  dq_mask :: nat
  dq_event_len :: nat
  dq_rewrite :: int
  dq_dependents :: "nat list"
  dq_notify :: "nat list"
  dq_producer :: "nat \<Rightarrow> producer"
  dq_consumer :: "nat \<Rightarrow> consumer"
  dq_log :: "byte list list"

text \<open>
  \<open>hd_waiting\<close> is \<^verbatim>\<open>timedwait_flag_\<close>, \<open>hd_signal\<close> the switch \<^verbatim>\<open>timedwait_signal_\<close>.
  \<open>dq_log\<close> is not in the code: the events in the order in which their indices were claimed.\<close>

definition dq_init :: "allocator \<Rightarrow> uint \<Rightarrow> uint \<Rightarrow> int \<Rightarrow> disruptor \<Rightarrow> int \<times> disruptor" where
  "dq_init h capacity event_len rewrite_count st =
     (let st = st\<lparr>dq_rewrite := (if rewrite_count < 1 then - 1 else rewrite_count)\<rparr>;
          capacity = pow2_capacity capacity; pool_size = capacity * event_len
      in case sl_malloc h (unat pool_size) of
           None \<Rightarrow> (- 1, st\<lparr>dq_pool := None\<rparr>)
         | Some m \<Rightarrow> (1, st\<lparr>dq_pool := Some m, dq_capacity := unat capacity, dq_mask := unat capacity - 1,
                           dq_event_len := unat event_len, dq_next := 0, dq_cursor := 0\<rparr>))"

definition dq_clear :: "disruptor \<Rightarrow> disruptor" where
  "dq_clear st = st\<lparr>dq_pool := None, dq_capacity := 0, dq_mask := 0, dq_event_len := 0, dq_rewrite := - 1,
                    dq_next := 0, dq_cursor := 0, dq_dependents := [], dq_notify := []\<rparr>"

definition dq_add_handler :: "nat \<Rightarrow> bool \<Rightarrow> bool \<Rightarrow> disruptor \<Rightarrow> disruptor" where
  "dq_add_handler h dependent notify st =
     (let st = (if dependent then st\<lparr>dq_dependents := dq_dependents st @ [h]\<rparr> else st)
      in if notify then st\<lparr>dq_notify := dq_notify st @ [h]\<rparr> else st)"

fun dq_min_index :: "disruptor \<Rightarrow> nat list \<Rightarrow> nat option" where
  "dq_min_index st [] = None"
| "dq_min_index st (d # ds) =
     (let i = hd_index (dq_consumer st d) in
      Some (case dq_min_index st ds of None \<Rightarrow> i | Some j \<Rightarrow> if i > j then j else i))"

definition dq_size :: "disruptor \<Rightarrow> int" where
  "dq_size st = int (dq_next st) - int (case dq_min_index st (dq_dependents st) of None \<Rightarrow> 0 | Some i \<Rightarrow> i)"

definition dq_empty :: "disruptor \<Rightarrow> bool" where
  "dq_empty st \<longleftrightarrow> \<not> dq_size st > 0"

definition dq_slot :: "disruptor \<Rightarrow> nat \<Rightarrow> nat" where
  "dq_slot st i = (i AND dq_mask st) * dq_event_len st"

definition dq_get_event :: "disruptor \<Rightarrow> nat \<Rightarrow> byte list" where
  "dq_get_event st i = take (dq_event_len st) (drop (dq_slot st i) (block (dq_pool st)))"

section \<open>Wake-ups\<close>

definition dq_set_consumer :: "disruptor \<Rightarrow> nat \<Rightarrow> consumer \<Rightarrow> disruptor" where
  "dq_set_consumer st h c = st\<lparr>dq_consumer := (dq_consumer st)(h := c)\<rparr>"

text \<open>The wake-up of a waiting consumer: whether its condition is signalled, and the consumer.\<close>

definition hd_signal_event :: "consumer \<Rightarrow> nat \<Rightarrow> bool \<times> consumer" where
  "hd_signal_event c event_index =
     (if hd_signal c \<and> hd_waiting c \<and> event_index > hd_index c then (True, c\<lparr>hd_waiting := False\<rparr>)
      else (False, c))"

definition dq_signal :: "disruptor \<Rightarrow> nat \<Rightarrow> nat \<Rightarrow> disruptor" where
  "dq_signal st h event_index = dq_set_consumer st h (snd (hd_signal_event (dq_consumer st h) event_index))"

section \<open>Producers\<close>

definition dq_set_producer :: "disruptor \<Rightarrow> nat \<Rightarrow> producer \<Rightarrow> disruptor" where
  "dq_set_producer st p s = st\<lparr>dq_producer := (dq_producer st)(p := s)\<rparr>"

definition dq_start :: "disruptor \<Rightarrow> nat \<Rightarrow> byte list \<Rightarrow> int \<Rightarrow> disruptor" where
  "dq_start st p event redo_count =
     (let redo_count = (if redo_count = 0 then dq_rewrite st else redo_count) in
      dq_set_producer st p
        (if dq_dependents st = [] then P_done (- 1)
         else P_load event (if redo_count > 0 then Some (nat redo_count) else None)))"

definition dq_retry :: "byte list \<Rightarrow> nat option \<Rightarrow> producer" where
  "dq_retry event tries =
     (case tries of None \<Rightarrow> P_load event None
      | Some k \<Rightarrow> if k \<le> 1 then P_done (- 1) else P_load event (Some (k - 1)))"

text \<open>A step of producer \<open>p\<close>; \<open>None\<close> is an access outside the pool or past the end of a list.\<close>

definition dq_producer_step :: "disruptor \<Rightarrow> nat \<Rightarrow> disruptor option" where
  "dq_producer_step st p =
     (case dq_producer st p of
        P_done r \<Rightarrow> Some st
      | P_load event tries \<Rightarrow>
          Some (dq_set_producer st p (P_scan event tries (dq_next st) None (dq_dependents st)))
      | P_scan event tries n idx (d # ds) \<Rightarrow>
          let i = hd_index (dq_consumer st d) in
          Some (dq_set_producer st p
            (P_scan event tries n (Some (case idx of None \<Rightarrow> i | Some j \<Rightarrow> if j > i then i else j)) ds))
      | P_scan event tries n None [] \<Rightarrow> None
      | P_scan event tries n (Some i) [] \<Rightarrow>
          let queue_size = int n - int i in
          Some (dq_set_producer st p
            (if queue_size < int (dq_capacity st) then P_cas event tries n queue_size else dq_retry event tries))
      | P_cas event tries n queue_size \<Rightarrow>
          Some (if dq_next st = n
                then (dq_set_producer st p (P_copy event n queue_size))\<lparr>dq_next := n + 1, dq_log := dq_log st @ [event]\<rparr>
                else dq_set_producer st p (dq_retry event tries))
      | P_copy event n queue_size \<Rightarrow> do {
          m \<leftarrow> mem_put (block (dq_pool st)) (dq_slot st n) event;
          Some ((dq_set_producer st p (P_publish event n queue_size))
                  \<lparr>dq_pool := map_option (\<lambda>_. m) (dq_pool st)\<rparr>) }
      | P_publish event n queue_size \<Rightarrow>
          Some (if dq_cursor st = n
                then (dq_set_producer st p (P_notify n (queue_size + 1) (dq_notify st)))\<lparr>dq_cursor := n + 1\<rparr>
                else st)
      | P_notify n r [] \<Rightarrow> Some (dq_set_producer st p (P_done r))
      | P_notify n r (h # hs) \<Rightarrow> Some (dq_set_producer (dq_signal st h n) p (P_notify n r hs)))"

section \<open>Consumers\<close>

definition hd_decide :: "consumer \<Rightarrow> nat \<Rightarrow> consumer" where
  "hd_decide c next_index =
     (if hd_current c < next_index then c\<lparr>hd_pc := H_handle next_index\<rparr>
      else c\<lparr>hd_pc := H_wait, hd_waiting := True\<rparr>)"

definition dq_consumer_step :: "(byte list \<Rightarrow> bool) \<Rightarrow> disruptor \<Rightarrow> nat \<Rightarrow> disruptor" where
  "dq_consumer_step is_quit st h =
     (let c = dq_consumer st h in
      case hd_pc c of
        H_look \<Rightarrow>
          dq_set_consumer st h
            (if hd_deps c = [] then hd_decide c (dq_cursor st) else c\<lparr>hd_pc := H_scan None (hd_deps c)\<rparr>)
      | H_scan idx (d # ds) \<Rightarrow>
          let i = hd_index (dq_consumer st d) in
          dq_set_consumer st h
            (c\<lparr>hd_pc := H_scan (Some (case idx of None \<Rightarrow> i | Some j \<Rightarrow> if j > i then i else j)) ds\<rparr>)
      | H_scan idx [] \<Rightarrow>
          let i = (case idx of None \<Rightarrow> 0 | Some i \<Rightarrow> i) in
          dq_set_consumer st h (hd_decide c (if i > 0 then i + 1 else i))
      | H_handle next_index \<Rightarrow>
          dq_set_consumer st h
            (if hd_current c < next_index then
               let event = dq_get_event st (hd_current c) in
               if \<not> is_quit event
               then c\<lparr>hd_handled := hd_handled c @ [event], hd_current := hd_current c + 1\<rparr>
               else c\<lparr>hd_index := hd_current c, hd_pc := H_quit\<rparr>
             else c\<lparr>hd_index := hd_current c, hd_pc := H_notify (hd_notify c)\<rparr>)
      | H_notify [] \<Rightarrow> dq_set_consumer st h (c\<lparr>hd_pc := H_look\<rparr>)
      | H_notify (d # ds) \<Rightarrow>
          let st = dq_signal st d (hd_current c) in
          dq_set_consumer st h ((dq_consumer st h)\<lparr>hd_pc := H_notify ds\<rparr>)
      | H_wait \<Rightarrow> dq_set_consumer st h (c\<lparr>hd_waiting := False, hd_pc := H_look\<rparr>)
      | H_quit \<Rightarrow> st)"

section \<open>Runs\<close>

definition dq_open :: "disruptor \<Rightarrow> bool" where
  "dq_open st \<longleftrightarrow>
     dq_cursor st = 0 \<and> dq_next st = 0 \<and> dq_log st = [] \<and>
     length (block (dq_pool st)) = dq_capacity st * dq_event_len st \<and>
     (\<exists>k. dq_capacity st = 2 ^ k \<and> dq_mask st = mask k) \<and> dq_dependents st \<noteq> [] \<and>
     (\<forall>p. \<exists>r. dq_producer st p = P_done r) \<and>
     (\<forall>h. hd_index (dq_consumer st h) = 0 \<and> hd_current (dq_consumer st h) = 0 \<and>
          hd_pc (dq_consumer st h) = H_look \<and> hd_handled (dq_consumer st h) = [])"

inductive dq_reach :: "(byte list \<Rightarrow> bool) \<Rightarrow> disruptor \<Rightarrow> disruptor \<Rightarrow> bool" for is_quit st0 where
  dq_refl: "dq_reach is_quit st0 st0"
| dq_push: "dq_reach is_quit st0 st \<Longrightarrow> dq_producer st p = P_done r \<Longrightarrow> length event \<le> dq_event_len st \<Longrightarrow>
    dq_reach is_quit st0 (dq_start st p event redo_count)"
| dq_produce: "dq_reach is_quit st0 st \<Longrightarrow> dq_producer_step st p = Some st' \<Longrightarrow> dq_reach is_quit st0 st'"
| dq_consume: "dq_reach is_quit st0 st \<Longrightarrow> dq_reach is_quit st0 (dq_consumer_step is_quit st h)"

section \<open>The invariant\<close>

text \<open>
  The index a producer owns between its claim and its publication, an event found in its slot, and
  what holds of the local variables of the threads.
\<close>

fun pr_held :: "producer \<Rightarrow> nat option" where
  "pr_held (P_copy e n q) = Some n"
| "pr_held (P_publish e n q) = Some n"
| "pr_held _ = None"

fun pr_written :: "producer \<Rightarrow> nat option" where
  "pr_written (P_publish e n q) = Some n"
| "pr_written _ = None"

definition delivered :: "byte list \<Rightarrow> byte list \<Rightarrow> bool" where
  "delivered event slot \<longleftrightarrow> take (length event) slot = event"

definition dq_stored :: "disruptor \<Rightarrow> nat \<Rightarrow> bool" where
  "dq_stored st i \<longleftrightarrow> delivered (dq_log st ! i) (dq_get_event st i)"

fun pr_ok :: "disruptor \<Rightarrow> producer \<Rightarrow> bool" where
  "pr_ok st (P_done r) \<longleftrightarrow> True"
| "pr_ok st (P_load e t) \<longleftrightarrow> length e \<le> dq_event_len st"
| "pr_ok st (P_scan e t n idx ds) \<longleftrightarrow>
     length e \<le> dq_event_len st \<and> (idx = None \<longrightarrow> ds = dq_dependents st) \<and>
     (\<forall>i h. idx = Some i \<longrightarrow> h \<in> set (dq_dependents st) \<longrightarrow> h \<notin> set ds \<longrightarrow> i \<le> hd_index (dq_consumer st h))"
| "pr_ok st (P_cas e t n q) \<longleftrightarrow>
     length e \<le> dq_event_len st \<and>
     (\<forall>h \<in> set (dq_dependents st). n < hd_index (dq_consumer st h) + dq_capacity st)"
| "pr_ok st (P_copy e n q) \<longleftrightarrow> dq_cursor st \<le> n \<and> n < dq_next st \<and> dq_log st ! n = e"
| "pr_ok st (P_notify n q hs) \<longleftrightarrow> True"
| "pr_ok st (P_publish e n q) \<longleftrightarrow> dq_cursor st \<le> n \<and> n < dq_next st \<and> dq_log st ! n = e"

definition hd_ok :: "disruptor \<Rightarrow> consumer \<Rightarrow> bool" where
  "hd_ok st c \<longleftrightarrow>
     hd_deps c = [] \<and> hd_index c \<le> hd_current c \<and> hd_current c \<le> dq_cursor st \<and>
     (case hd_pc c of H_handle n \<Rightarrow> n \<le> dq_cursor st | H_scan _ _ \<Rightarrow> False | _ \<Rightarrow> True) \<and>
     list_all2 delivered (take (hd_current c) (dq_log st)) (hd_handled c)"

definition dq_shape :: "disruptor \<Rightarrow> bool" where
  "dq_shape st \<longleftrightarrow>
     length (block (dq_pool st)) = dq_capacity st * dq_event_len st \<and>
     (\<exists>k. dq_capacity st = 2 ^ k \<and> dq_mask st = mask k) \<and> dq_dependents st \<noteq> [] \<and>
     dq_cursor st \<le> dq_next st \<and> dq_next st = length (dq_log st) \<and>
     (\<forall>e \<in> set (dq_log st). length e \<le> dq_event_len st)"

definition dq_inv :: "disruptor \<Rightarrow> bool" where
  "dq_inv st \<longleftrightarrow>
     dq_shape st \<and>
     (\<forall>h \<in> set (dq_dependents st). dq_next st \<le> hd_index (dq_consumer st h) + dq_capacity st \<and>
        hd_ok st (dq_consumer st h)) \<and>
     (\<forall>p. pr_ok st (dq_producer st p)) \<and>
     (\<forall>p p' n. pr_held (dq_producer st p) = Some n \<longrightarrow> pr_held (dq_producer st p') = Some n \<longrightarrow> p = p') \<and>
     (\<forall>i. i < dq_cursor st \<or> (\<exists>p. pr_written (dq_producer st p) = Some i) \<longrightarrow>
        dq_next st \<le> i + dq_capacity st \<longrightarrow> dq_stored st i)"

lemma dq_invD:
  assumes "dq_inv st"
  shows "dq_shape st"
    and "h \<in> set (dq_dependents st) \<Longrightarrow> dq_next st \<le> hd_index (dq_consumer st h) + dq_capacity st"
    and "h \<in> set (dq_dependents st) \<Longrightarrow> hd_ok st (dq_consumer st h)"
    and "pr_ok st (dq_producer st p)"
    and "pr_held (dq_producer st p) = Some n \<Longrightarrow> pr_held (dq_producer st p') = Some n \<Longrightarrow> p = p'"
    and "i < dq_cursor st \<Longrightarrow> dq_next st \<le> i + dq_capacity st \<Longrightarrow> dq_stored st i"
    and "pr_written (dq_producer st p) = Some i \<Longrightarrow> dq_next st \<le> i + dq_capacity st \<Longrightarrow> dq_stored st i"
  using assms unfolding dq_inv_def by blast+

lemma dq_slot_mod: "dq_shape st \<Longrightarrow> dq_slot st i = (i mod dq_capacity st) * dq_event_len st"
  by (auto simp: dq_shape_def dq_slot_def take_bit_eq_mask [symmetric] take_bit_eq_mod)

lemma dq_slot_le: "dq_shape st \<Longrightarrow> dq_slot st i + dq_event_len st \<le> length (block (dq_pool st))"
proof -
  assume sh: "dq_shape st"
  then have "i mod dq_capacity st < dq_capacity st" by (auto simp: dq_shape_def)
  then have "(i mod dq_capacity st + 1) * dq_event_len st \<le> dq_capacity st * dq_event_len st"
    by (intro mult_right_mono) simp_all
  then show ?thesis using sh by (simp add: dq_slot_mod dq_shape_def)
qed

lemma dq_slot_disjoint:
  assumes "dq_shape st" "i mod dq_capacity st \<noteq> j mod dq_capacity st"
  shows "dq_slot st i + dq_event_len st \<le> dq_slot st j \<or> dq_slot st j + dq_event_len st \<le> dq_slot st i"
proof -
  have gap: "a * l + l \<le> b * l" if "a < b" for a b l :: nat
  proof -
    have "(a + 1) * l \<le> b * l" using that by (intro mult_right_mono) simp_all
    then show ?thesis by simp
  qed
  show ?thesis using assms(2) gap unfolding dq_slot_mod [OF assms(1)] by (meson linorder_neqE_nat)
qed

lemma mem_put_window:
  assumes "mem_put m a d = Some m'" "b + k \<le> a \<or> a + length d \<le> b"
  shows "take k (drop b m') = take k (drop b m)"
proof -
  have fits: "a + length d \<le> length m" and m': "m' = take a m @ d @ drop (a + length d) m"
    using assms(1) by (auto simp: mem_put_def split: if_splits)
  show ?thesis using assms(2)
  proof
    assume le: "b + k \<le> a"
    then have "drop b m' = drop b (take a m) @ d @ drop (a + length d) m" unfolding m' using fits by simp
    then have "take k (drop b m') = take k (drop b (take a m))" using le fits by simp
    then show ?thesis using le by (simp add: drop_take min_absorb1)
  next
    assume "a + length d \<le> b"
    then have "drop b m' = drop b m" unfolding m' using fits by (simp add: add.commute)
    then show ?thesis by simp
  qed
qed

lemma mem_put_at:
  assumes "mem_put m a d = Some m'"
  shows "take (length d) (drop a m') = d"
  using assms by (auto simp: mem_put_def split: if_splits)

text \<open>What the invariant reads of the state; producers change only these.\<close>

lemma dq_set_producer_simps [simp]:
  "dq_pool (dq_set_producer st p s) = dq_pool st" "dq_cursor (dq_set_producer st p s) = dq_cursor st"
  "dq_next (dq_set_producer st p s) = dq_next st" "dq_capacity (dq_set_producer st p s) = dq_capacity st"
  "dq_mask (dq_set_producer st p s) = dq_mask st" "dq_event_len (dq_set_producer st p s) = dq_event_len st"
  "dq_dependents (dq_set_producer st p s) = dq_dependents st" "dq_log (dq_set_producer st p s) = dq_log st"
  "dq_consumer (dq_set_producer st p s) = dq_consumer st"
  "dq_producer (dq_set_producer st p s) = (dq_producer st)(p := s)"
  "dq_rewrite (dq_set_producer st p s) = dq_rewrite st"
  by (simp_all add: dq_set_producer_def)

lemma dq_set_consumer_simps [simp]:
  "dq_pool (dq_set_consumer st h c) = dq_pool st" "dq_cursor (dq_set_consumer st h c) = dq_cursor st"
  "dq_next (dq_set_consumer st h c) = dq_next st" "dq_capacity (dq_set_consumer st h c) = dq_capacity st"
  "dq_mask (dq_set_consumer st h c) = dq_mask st" "dq_event_len (dq_set_consumer st h c) = dq_event_len st"
  "dq_dependents (dq_set_consumer st h c) = dq_dependents st" "dq_log (dq_set_consumer st h c) = dq_log st"
  "dq_producer (dq_set_consumer st h c) = dq_producer st"
  "dq_consumer (dq_set_consumer st h c) = (dq_consumer st)(h := c)"
  "dq_rewrite (dq_set_consumer st h c) = dq_rewrite st"
  by (simp_all add: dq_set_consumer_def)

lemma pr_ok_set [simp]: "pr_ok (dq_set_producer st p s) = pr_ok st"
proof
  fix x show "pr_ok (dq_set_producer st p s) x = pr_ok st x" by (cases x) simp_all
qed

lemma shape_set [simp]: "dq_shape (dq_set_producer st p s) = dq_shape st" "dq_shape (dq_set_consumer st h c) = dq_shape st"
  by (simp_all add: dq_shape_def)

lemma stored_set [simp]:
  "dq_stored (dq_set_producer st p s) = dq_stored st" "dq_stored (dq_set_consumer st h c) = dq_stored st"
  by (simp_all add: dq_stored_def dq_get_event_def dq_slot_def fun_eq_iff)

lemma hd_ok_set [simp]: "hd_ok (dq_set_producer st p s) = hd_ok st" "hd_ok (dq_set_consumer st h c) = hd_ok st"
  by (simp_all add: hd_ok_def fun_eq_iff split: consumer_pc.splits)

text \<open>A step of a producer that holds no index before or after it.\<close>

lemma dq_inv_local:
  assumes "dq_inv st" "pr_ok st s" "pr_held s = None" "pr_written s = None"
  shows "dq_inv (dq_set_producer st p s)"
  using assms unfolding dq_inv_def by (auto split: if_splits)

lemma dq_held_bounds:
  assumes "dq_inv st" "pr_held (dq_producer st p) = Some n"
  shows "dq_cursor st \<le> n" "n < dq_next st" "dq_next st \<le> n + dq_capacity st"
proof -
  show n: "dq_cursor st \<le> n" "n < dq_next st"
    using dq_invD(4) [OF assms(1), of p] assms(2) by (cases "dq_producer st p"; simp)+
  have "dq_dependents st \<noteq> []" using dq_invD(1) [OF assms(1)] by (simp add: dq_shape_def)
  then obtain h where h: "h \<in> set (dq_dependents st)" by (cases "dq_dependents st") auto
  show "dq_next st \<le> n + dq_capacity st"
    using dq_invD(2,3) [OF assms(1) h] n by (simp add: hd_ok_def)
qed

lemma pr_written_held: "pr_written s = Some n \<Longrightarrow> pr_held s = Some n"
  by (cases s) simp_all

lemma dq_scan_ok:
  assumes "pr_ok st (P_scan e t n idx (d # ds))"
  shows "pr_ok st (P_scan e t n (Some (case idx of None \<Rightarrow> hd_index (dq_consumer st d)
      | Some j \<Rightarrow> if j > hd_index (dq_consumer st d) then hd_index (dq_consumer st d) else j)) ds)"
proof -
  let ?i = "hd_index (dq_consumer st d)"
  have e: "length e \<le> dq_event_len st" and old: "idx = None \<Longrightarrow> d # ds = dq_dependents st"
      "\<And>j h. idx = Some j \<Longrightarrow> h \<in> set (dq_dependents st) \<Longrightarrow> h \<notin> set (d # ds) \<Longrightarrow> j \<le> hd_index (dq_consumer st h)"
    using assms by auto
  have "(case idx of None \<Rightarrow> ?i | Some j \<Rightarrow> if j > ?i then ?i else j) \<le> hd_index (dq_consumer st h)"
    if h: "h \<in> set (dq_dependents st)" "h \<notin> set ds" for h
  proof (cases idx)
    case None
    then have "h = d" using old(1) h by (metis set_ConsD)
    then show ?thesis using None by simp
  next
    case (Some j)
    then show ?thesis using old(2) [of j h] h by (cases "h = d") auto
  qed
  then show ?thesis using e by simp
qed

lemma dq_claim_inv:
  assumes inv: "dq_inv st" and p: "dq_producer st p = P_cas e t n q" and n: "dq_next st = n"
  shows "dq_inv ((dq_set_producer st p (P_copy e n q))\<lparr>dq_next := n + 1, dq_log := dq_log st @ [e]\<rparr>)"
    (is "dq_inv ?st")
proof -
  note D = dq_invD [OF inv]
  have e: "length e \<le> dq_event_len st" and room: "\<And>h. h \<in> set (dq_dependents st) \<Longrightarrow>
      n < hd_index (dq_consumer st h) + dq_capacity st"
    using D(4) [of p] by (simp_all add: p)
  have len: "length (dq_log st) = n" "dq_cursor st \<le> n" using D(1) n by (simp_all add: dq_shape_def)
  have "dq_shape ?st" using D(1) e n by (auto simp: dq_shape_def)
  moreover have "dq_next ?st \<le> hd_index (dq_consumer ?st h) + dq_capacity ?st \<and> hd_ok ?st (dq_consumer ?st h)"
    if "h \<in> set (dq_dependents ?st)" for h
  proof -
    have h: "h \<in> set (dq_dependents st)" using that by simp
    show ?thesis using room [OF h] D(3) [OF h] len
      by (auto simp: hd_ok_def split: consumer_pc.splits)
  qed
  moreover have "pr_ok ?st (dq_producer ?st p')" for p'
  proof (cases "p' = p")
    case True
    then show ?thesis using len by (simp add: nth_append)
  next
    case False
    then show ?thesis using D(4) [of p'] len n by (cases "dq_producer st p'") (auto simp: nth_append)
  qed
  moreover have "p1 = p2" if "pr_held (dq_producer ?st p1) = Some m" "pr_held (dq_producer ?st p2) = Some m" for p1 p2 m
  proof -
    have "m \<noteq> n" if "pr_held (dq_producer st p') = Some m" for p'
      using dq_held_bounds(2) [OF inv that] n by simp
    then show ?thesis using that D(5) [of p1 m p2] by (auto split: if_splits)
  qed
  moreover have "dq_stored ?st i"
    if "i < dq_cursor ?st \<or> (\<exists>p'. pr_written (dq_producer ?st p') = Some i)" "dq_next ?st \<le> i + dq_capacity ?st" for i
  proof -
    have w: "i < dq_cursor st \<or> (\<exists>p'. pr_written (dq_producer st p') = Some i)"
      using that(1) by (auto split: if_splits)
    then have "i < n" using len dq_held_bounds(2) [OF inv pr_written_held] n by auto
    moreover have "dq_next st \<le> i + dq_capacity st" using that(2) n by simp
    then have "dq_stored st i" using w D(6,7) by blast
    ultimately show ?thesis using len
      by (simp add: dq_stored_def dq_get_event_def dq_slot_def nth_append)
  qed
  ultimately show ?thesis unfolding dq_inv_def by blast
qed

lemma dq_copy_inv:
  assumes inv: "dq_inv st" and p: "dq_producer st p = P_copy e n q"
  shows "\<exists>m. mem_put (block (dq_pool st)) (dq_slot st n) e = Some m \<and>
    dq_inv ((dq_set_producer st p (P_publish e n q))\<lparr>dq_pool := map_option (\<lambda>_. m) (dq_pool st)\<rparr>)"
proof -
  note D = dq_invD [OF inv]
  have sh: "dq_shape st" by (rule D(1))
  have h: "pr_held (dq_producer st p) = Some n" by (simp add: p)
  note b = dq_held_bounds [OF inv h]
  have log: "dq_log st ! n = e" using D(4) [of p] by (simp add: p)
  have elen: "length (dq_log st ! i) \<le> dq_event_len st" if "i < dq_next st" for i
    using sh that by (auto simp: dq_shape_def)
  have e: "length e \<le> dq_event_len st" using elen [OF b(2)] log by simp
  obtain m where m: "mem_put (block (dq_pool st)) (dq_slot st n) e = Some m"
    using dq_slot_le [OF sh, of n] e by (simp add: mem_put_def)
  have lm: "length m = length (block (dq_pool st))" using length_mem_put [OF m] .
  let ?st = "(dq_set_producer st p (P_publish e n q))\<lparr>dq_pool := map_option (\<lambda>_. m) (dq_pool st)\<rparr>"
  have blk: "block (map_option (\<lambda>_. m) (dq_pool st)) = m"
    using lm by (cases "dq_pool st") auto
  have shape: "dq_shape ?st" using sh lm by (simp add: dq_shape_def blk)
  have slot: "dq_slot ?st = dq_slot st" by (simp add: dq_slot_def fun_eq_iff)
  have stored: "dq_stored ?st i" if "i < dq_next st" "dq_next st \<le> i + dq_capacity st" "i = n \<or> dq_stored st i" for i
  proof (cases "i = n")
    case True
    have "take (length e) (take (dq_event_len st) (drop (dq_slot st n) m)) = e"
      using mem_put_at [OF m] e by (simp add: min_absorb1)
    then show ?thesis using True log by (simp add: dq_stored_def delivered_def dq_get_event_def slot blk)
  next
    case False
    have "i mod dq_capacity st \<noteq> n mod dq_capacity st"
    proof
      assume eq: "i mod dq_capacity st = n mod dq_capacity st"
      have "int (dq_capacity st) dvd int i - int n" using eq by (metis mod_eq_dvd_iff of_nat_mod)
      moreover have "\<bar>int i - int n\<bar> < int (dq_capacity st)" using that(1,2) b by linarith
      ultimately show False using False dvd_imp_le_int [of "int i - int n" "int (dq_capacity st)"] by auto
    qed
    from dq_slot_disjoint [OF sh this] have
      "take (dq_event_len st) (drop (dq_slot st i) m) = take (dq_event_len st) (drop (dq_slot st i) (block (dq_pool st)))"
      using e by (intro mem_put_window [OF m]) linarith
    then show ?thesis using that(3) False by (simp add: dq_stored_def dq_get_event_def slot blk)
  qed
  have "dq_inv ?st"
    unfolding dq_inv_def
  proof (intro conjI allI ballI impI)
    show "dq_shape ?st" by (rule shape)
  next
    fix h assume "h \<in> set (dq_dependents ?st)"
    then have h: "h \<in> set (dq_dependents st)" by simp
    show "dq_next ?st \<le> hd_index (dq_consumer ?st h) + dq_capacity ?st" using D(2) [OF h] by simp
    show "hd_ok ?st (dq_consumer ?st h)" using D(3) [OF h] by (simp add: hd_ok_def split: consumer_pc.splits)
  next
    fix p'
    show "pr_ok ?st (dq_producer ?st p')"
      using D(4) [of p'] b log by (cases "dq_producer st p'") auto
  next
    fix p1 p2 k assume "pr_held (dq_producer ?st p1) = Some k" "pr_held (dq_producer ?st p2) = Some k"
    moreover have "pr_held (dq_producer ?st p') = pr_held (dq_producer st p')" for p' by (simp add: p)
    ultimately show "p1 = p2" using D(5) [of p1 k p2] by simp
  next
    fix i assume w: "i < dq_cursor ?st \<or> (\<exists>p'. pr_written (dq_producer ?st p') = Some i)"
      and "dq_next ?st \<le> i + dq_capacity ?st"
    then have le: "dq_next st \<le> i + dq_capacity st" by simp
    have w': "i = n \<or> i < dq_cursor st \<or> (\<exists>p'. pr_written (dq_producer st p') = Some i)"
      using w by (auto split: if_splits)
    then have "i < dq_next st"
      using b sh dq_held_bounds(2) [OF inv pr_written_held] by (auto simp: dq_shape_def)
    then show "dq_stored ?st i" using stored [OF _ le] w' D(6,7) le by blast
  qed
  then show ?thesis using m by blast
qed

lemma dq_publish_inv:
  assumes inv: "dq_inv st" and p: "dq_producer st p = P_publish e n q" and n: "dq_cursor st = n"
  shows "dq_inv ((dq_set_producer st p (P_notify n (q + 1) hs))\<lparr>dq_cursor := n + 1\<rparr>)" (is "dq_inv ?st")
proof -
  note D = dq_invD [OF inv]
  have h: "pr_held (dq_producer st p) = Some n" by (simp add: p)
  note b = dq_held_bounds [OF inv h]
  have other: "m \<noteq> n" if "pr_held (dq_producer st p') = Some m" "p' \<noteq> p" for p' m
    using D(5) [OF h, of p'] that by auto
  show ?thesis
    unfolding dq_inv_def
  proof (intro conjI allI ballI impI)
    show "dq_shape ?st" using D(1) b n by (auto simp: dq_shape_def)
  next
    fix h assume "h \<in> set (dq_dependents ?st)"
    then have h: "h \<in> set (dq_dependents st)" by simp
    show "dq_next ?st \<le> hd_index (dq_consumer ?st h) + dq_capacity ?st" using D(2) [OF h] by simp
    show "hd_ok ?st (dq_consumer ?st h)" using D(3) [OF h] n by (auto simp: hd_ok_def split: consumer_pc.splits)
  next
    fix p'
    show "pr_ok ?st (dq_producer ?st p')"
      using D(4) [of p'] other [of p'] n by (cases "dq_producer st p'") (auto simp: le_eq_less_or_eq Suc_le_eq)
  next
    fix p1 p2 k assume "pr_held (dq_producer ?st p1) = Some k" "pr_held (dq_producer ?st p2) = Some k"
    then show "p1 = p2" using D(5) [of p1 k p2] by (auto split: if_splits)
  next
    fix i assume w: "i < dq_cursor ?st \<or> (\<exists>p'. pr_written (dq_producer ?st p') = Some i)"
      and "dq_next ?st \<le> i + dq_capacity ?st"
    then have le: "dq_next st \<le> i + dq_capacity st" by simp
    have pw: "pr_written (dq_producer st p) = Some n" by (simp add: p)
    have "i < n \<or> i = n \<or> (\<exists>p'. pr_written (dq_producer st p') = Some i)"
      using w by (auto split: if_splits simp: less_Suc_eq)
    then have "dq_stored st i" using D(6,7) le n pw by blast
    then show "dq_stored ?st i" by (simp add: dq_stored_def dq_get_event_def dq_slot_def)
  qed
qed

lemma pr_ok_consumer:
  assumes "pr_ok st s" "h \<in> set (dq_dependents st) \<Longrightarrow> hd_index (dq_consumer st h) \<le> hd_index c"
  shows "pr_ok (dq_set_consumer st h c) s"
  using assms by (cases s) (auto intro: order_trans less_le_trans)

lemma dq_consumer_inv:
  assumes inv: "dq_inv st"
    and c: "h \<in> set (dq_dependents st) \<Longrightarrow> hd_ok st c \<and> hd_index (dq_consumer st h) \<le> hd_index c"
  shows "dq_inv (dq_set_consumer st h c)"
proof -
  note D = dq_invD [OF inv]
  have "dq_next st \<le> hd_index c + dq_capacity st" if "h \<in> set (dq_dependents st)"
    using D(2) [OF that] c [OF that] by simp
  then show ?thesis
    unfolding dq_inv_def using D c pr_ok_consumer by (auto split: if_splits)
qed

lemma hd_signal_simps [simp]:
  "hd_index (snd (hd_signal_event c i)) = hd_index c" "hd_current (snd (hd_signal_event c i)) = hd_current c"
  "hd_pc (snd (hd_signal_event c i)) = hd_pc c" "hd_deps (snd (hd_signal_event c i)) = hd_deps c"
  "hd_handled (snd (hd_signal_event c i)) = hd_handled c"
  by (simp_all add: hd_signal_event_def)

lemma dq_signal_inv: "dq_inv st \<Longrightarrow> dq_inv (dq_signal st h i)"
  unfolding dq_signal_def by (rule dq_consumer_inv) (auto simp: hd_ok_def dq_invD(3) [unfolded hd_ok_def])

lemma dq_signal_simps [simp]:
  "dq_dependents (dq_signal st h i) = dq_dependents st" "dq_producer (dq_signal st h i) = dq_producer st"
  "hd_deps (dq_consumer (dq_signal st h i) d) = hd_deps (dq_consumer st d)"
  by (simp_all add: dq_signal_def)

lemma dq_producer_step_inv:
  assumes inv: "dq_inv st"
  shows "\<exists>st'. dq_producer_step st p = Some st' \<and> dq_inv st' \<and> dq_dependents st' = dq_dependents st"
proof -
  note D = dq_invD [OF inv]
  have ok: "pr_ok st (dq_producer st p)" by (rule D(4))
  have retry: "pr_ok st (dq_retry e t) \<and> pr_held (dq_retry e t) = None \<and> pr_written (dq_retry e t) = None"
    if "length e \<le> dq_event_len st" for e t
    using that by (simp add: dq_retry_def split: option.splits)
  show ?thesis
  proof (cases "dq_producer st p")
    case (P_done r)
    then show ?thesis using inv by (simp add: dq_producer_step_def)
  next
    case (P_load e t)
    have "dq_inv (dq_set_producer st p (P_scan e t (dq_next st) None (dq_dependents st)))"
      using ok P_load by (intro dq_inv_local [OF inv]) simp_all
    then show ?thesis using P_load by (simp add: dq_producer_step_def)
  next
    case (P_scan e t n idx ds)
    show ?thesis
    proof (cases ds)
      case Nil
      have "dq_dependents st \<noteq> []" using D(1) by (simp add: dq_shape_def)
      then obtain i where i: "idx = Some i" using ok P_scan Nil by (cases idx) auto
      let ?q = "int n - int i"
      have "dq_inv (dq_set_producer st p (if ?q < int (dq_capacity st) then P_cas e t n ?q else dq_retry e t))"
      proof (rule dq_inv_local [OF inv])
        have "n < hd_index (dq_consumer st h) + dq_capacity st"
          if "?q < int (dq_capacity st)" "h \<in> set (dq_dependents st)" for h
        proof -
          have "i \<le> hd_index (dq_consumer st h)" using ok P_scan Nil i that(2) by simp
          then show ?thesis using that(1) by linarith
        qed
        then show "pr_ok st (if ?q < int (dq_capacity st) then P_cas e t n ?q else dq_retry e t)"
          using ok P_scan retry by simp
      qed (use ok P_scan retry in simp_all)
      then show ?thesis using P_scan Nil i by (simp add: dq_producer_step_def Let_def)
    next
      case (Cons d ds')
      have "dq_inv (dq_set_producer st p (P_scan e t n (Some (case idx of None \<Rightarrow> hd_index (dq_consumer st d)
          | Some j \<Rightarrow> if j > hd_index (dq_consumer st d) then hd_index (dq_consumer st d) else j)) ds'))"
        using dq_scan_ok [of st e t n idx d ds'] ok P_scan Cons by (intro dq_inv_local [OF inv]) simp_all
      then show ?thesis using P_scan Cons by (cases idx) (simp_all add: dq_producer_step_def Let_def)
    qed
  next
    case (P_cas e t n q)
    show ?thesis
    proof (cases "dq_next st = n")
      case True
      then show ?thesis using dq_claim_inv [OF inv P_cas True] P_cas by (simp add: dq_producer_step_def)
    next
      case False
      have "dq_inv (dq_set_producer st p (dq_retry e t))"
        using ok P_cas retry by (intro dq_inv_local [OF inv]) simp_all
      then show ?thesis using P_cas False by (simp add: dq_producer_step_def)
    qed
  next
    case (P_copy e n q)
    then show ?thesis using dq_copy_inv [OF inv P_copy] by (auto simp: dq_producer_step_def)
  next
    case (P_publish e n q)
    then show ?thesis using dq_publish_inv [OF inv P_publish] inv by (simp add: dq_producer_step_def)
  next
    case (P_notify n r hs)
    show ?thesis
    proof (cases hs)
      case Nil
      have "dq_inv (dq_set_producer st p (P_done r))" by (rule dq_inv_local [OF inv]) simp_all
      then show ?thesis using P_notify Nil by (simp add: dq_producer_step_def)
    next
      case (Cons h hs')
      have "dq_inv (dq_set_producer (dq_signal st h n) p (P_notify n r hs'))"
        by (rule dq_inv_local [OF dq_signal_inv [OF inv]]) simp_all
      then show ?thesis using P_notify Cons by (simp add: dq_producer_step_def)
    qed
  qed
qed

lemma dq_start_inv:
  assumes "dq_inv st" "length event \<le> dq_event_len st"
  shows "dq_inv (dq_start st p event redo_count)"
  unfolding dq_start_def Let_def using assms by (intro dq_inv_local) simp_all

lemma dq_handle_ok:
  assumes inv: "dq_inv st" and h: "h \<in> set (dq_dependents st)" and pc: "hd_pc (dq_consumer st h) = H_handle n"
    and cur: "hd_current (dq_consumer st h) < n"
  shows "hd_ok st ((dq_consumer st h)\<lparr>hd_handled := hd_handled (dq_consumer st h) @
      [dq_get_event st (hd_current (dq_consumer st h))], hd_current := hd_current (dq_consumer st h) + 1\<rparr>)"
proof -
  let ?c = "dq_consumer st h"
  note D = dq_invD [OF inv]
  have ok: "hd_ok st ?c" by (rule D(3) [OF h])
  have len: "dq_cursor st \<le> length (dq_log st)" using D(1) by (simp add: dq_shape_def)
  have n: "hd_current ?c < dq_cursor st" "hd_current ?c < length (dq_log st)"
    using ok pc cur len by (simp_all add: hd_ok_def)
  have "dq_stored st (hd_current ?c)" using D(2) [OF h] ok n by (intro D(6)) (simp_all add: hd_ok_def)
  then have "delivered (dq_log st ! hd_current ?c) (dq_get_event st (hd_current ?c))" by (simp add: dq_stored_def)
  moreover have "take (hd_current ?c + 1) (dq_log st) = take (hd_current ?c) (dq_log st) @ [dq_log st ! hd_current ?c]"
    using n(2) by (simp add: take_Suc_conv_app_nth)
  ultimately show ?thesis using ok pc n(1)
    by (auto simp: hd_ok_def intro!: list_all2_appendI)
qed

lemma dq_consumer_step_inv:
  assumes inv: "dq_inv st"
  shows "dq_inv (dq_consumer_step is_quit st h) \<and> dq_dependents (dq_consumer_step is_quit st h) = dq_dependents st"
proof -
  let ?c = "dq_consumer st h"
  have ok: "hd_ok st ?c" if "h \<in> set (dq_dependents st)" using dq_invD(3) [OF inv that] .
  have set: "dq_inv (dq_set_consumer st h c')"
    if "h \<in> set (dq_dependents st) \<Longrightarrow> hd_ok st c' \<and> hd_index ?c \<le> hd_index c'" for c'
    using dq_consumer_inv [OF inv that] .
  show ?thesis
  proof (cases "hd_pc ?c")
    case H_look
    then show ?thesis using ok
      by (auto simp: dq_consumer_step_def hd_decide_def hd_ok_def Let_def intro!: set)
  next
    case (H_scan idx ds)
    then have no: "h \<notin> set (dq_dependents st)" using ok by (auto simp: hd_ok_def)
    show ?thesis using H_scan no
      by (cases ds) (auto simp: dq_consumer_step_def Let_def intro!: set split: option.splits)
  next
    case (H_handle n)
    show ?thesis
    proof (cases "hd_current ?c < n")
      case True
      then show ?thesis using H_handle ok dq_handle_ok [OF inv _ H_handle True]
        by (auto simp: dq_consumer_step_def Let_def intro!: set) (auto simp: hd_ok_def)
    next
      case False
      then show ?thesis using H_handle ok
        by (auto simp: dq_consumer_step_def hd_ok_def Let_def intro!: set)
    qed
  next
    case (H_notify ds)
    show ?thesis
    proof (cases ds)
      case Nil
      then show ?thesis using H_notify ok by (auto simp: dq_consumer_step_def hd_ok_def Let_def intro!: set)
    next
      case (Cons d ds')
      let ?st = "dq_signal st d (hd_current ?c)"
      have inv': "dq_inv ?st" by (rule dq_signal_inv [OF inv])
      have "dq_inv (dq_set_consumer ?st h ((dq_consumer ?st h)\<lparr>hd_pc := H_notify ds'\<rparr>))"
        using dq_invD(3) [OF inv', of h] by (intro dq_consumer_inv [OF inv']) (auto simp: hd_ok_def)
      then show ?thesis using H_notify Cons by (simp add: dq_consumer_step_def Let_def)
    qed
  next
    case H_wait
    then show ?thesis using ok by (auto simp: dq_consumer_step_def hd_ok_def Let_def intro!: set)
  next
    case H_quit
    then show ?thesis using inv by (simp add: dq_consumer_step_def)
  qed
qed

definition dq_independent :: "disruptor \<Rightarrow> bool" where
  "dq_independent st \<longleftrightarrow> (\<forall>h \<in> set (dq_dependents st). hd_deps (dq_consumer st h) = [])"

lemma dq_open_inv: "dq_open st \<Longrightarrow> dq_independent st \<Longrightarrow> dq_inv st"
proof -
  assume o: "dq_open st" and d: "dq_independent st"
  have pr: "\<exists>r. dq_producer st p = P_done r" for p using o by (auto simp: dq_open_def)
  have "pr_ok st (dq_producer st p)" "pr_held (dq_producer st p) = None" "pr_written (dq_producer st p) = None" for p
    using pr [of p] by auto
  then show ?thesis using o d
    by (simp add: dq_inv_def dq_open_def dq_shape_def hd_ok_def dq_independent_def)
qed

lemma dq_reach_inv:
  assumes "dq_reach is_quit st0 st" "dq_open st0" "dq_independent st0"
  shows "dq_inv st \<and> dq_dependents st = dq_dependents st0"
  using assms(1)
proof induction
  case dq_refl
  then show ?case using dq_open_inv [OF assms(2,3)] by simp
next
  case (dq_push st p r event redo_count)
  then show ?case by (simp add: dq_start_inv) (simp add: dq_start_def Let_def)
next
  case (dq_produce st p st')
  then show ?case using dq_producer_step_inv [of st p] by auto
next
  case (dq_consume st h)
  then show ?case using dq_consumer_step_inv [of st is_quit h] by simp
qed

section \<open>SL\_Disruptor\_SingleWriteQueue\<close>

text \<open>
  The queue of a single producer.  The indices of the dependent handlers are what the
  producer reads; \<open>env i\<close> is what the consumers do before attempt \<open>i\<close>.
\<close>

record single_queue =
  sq_pool :: "byte list option"
  sq_cursor :: nat
  sq_capacity :: nat
  sq_mask :: nat
  sq_event_len :: nat
  sq_rewrite :: int
  sq_dependents :: "nat list"

definition sq_init :: "allocator \<Rightarrow> uint \<Rightarrow> uint \<Rightarrow> int \<Rightarrow> single_queue \<Rightarrow> int \<times> single_queue" where
  "sq_init h capacity event_len rewrite_count st =
     (let capacity = pow2_capacity capacity; pool_size = capacity * event_len
      in case sl_malloc h (unat pool_size) of
           None \<Rightarrow> (- 1, st\<lparr>sq_pool := None\<rparr>)
         | Some m \<Rightarrow> (1, st\<lparr>sq_pool := Some m, sq_capacity := unat capacity, sq_mask := unat capacity - 1,
                           sq_event_len := unat event_len, sq_cursor := 0\<rparr>))"

definition sq_new :: single_queue where
  "sq_new = \<lparr>sq_pool = None, sq_cursor = 0, sq_capacity = 0, sq_mask = 0, sq_event_len = 0, sq_rewrite = - 1,
             sq_dependents = []\<rparr>"

definition sq_min_index :: "nat list \<Rightarrow> nat" where
  "sq_min_index ds = foldl (\<lambda>index temp. if index > temp then temp else index) (hd ds) (tl ds)"

definition sq_push_once :: "byte list \<Rightarrow> single_queue \<Rightarrow> (int option \<times> single_queue) option" where
  "sq_push_once event st =
     (let queue_size = int (sq_cursor st) - int (sq_min_index (sq_dependents st)) in
      if queue_size < int (sq_capacity st) then do {
        m \<leftarrow> mem_put (block (sq_pool st)) ((sq_cursor st AND sq_mask st) * sq_event_len st) event;
        Some (Some (queue_size + 1), st\<lparr>sq_pool := map_option (\<lambda>_. m) (sq_pool st), sq_cursor := sq_cursor st + 1\<rparr>) }
      else Some (None, st))"

text \<open>The loop with a bound runs while \<^verbatim>\<open>i < redo_count\<close>, for a negative \<^verbatim>\<open>redo_count\<close>.\<close>

definition sq_push ::
  "byte list \<Rightarrow> int \<Rightarrow> (nat \<Rightarrow> single_queue \<Rightarrow> single_queue) \<Rightarrow> single_queue \<Rightarrow> (int \<times> single_queue) option"
where
  "sq_push event redo_count env st =
     (let redo_count = (if redo_count = 0 then sq_rewrite st else redo_count) in
      if sq_dependents st \<noteq> [] then do {
        (r, st) \<leftarrow> (if redo_count < 0 then uq_tries (nat redo_count) env 0 (sq_push_once event) st
                    else uq_forever env 0 (sq_push_once event) st);
        Some (case r of None \<Rightarrow> - 1 | Some r \<Rightarrow> r, st) }
      else Some (- 1, st))"

definition sq_quit_event ::
  "byte list \<Rightarrow> (nat \<Rightarrow> single_queue \<Rightarrow> single_queue) \<Rightarrow> single_queue \<Rightarrow> (int \<times> single_queue) option"
where
  "sq_quit_event quit env st = sq_push quit (- 1) env st"

section \<open>Properties\<close>

text \<open>C11: When no consumer on which the producers depend waits for other consumers (no chained
  handlers, \<open>dq_independent\<close>), then in every interleaving of any number of producers and consumers on
  a freshly opened lock-free queue, whose capacity is a power of two and whose pool holds that many
  slots, each of these consumers has seen, in order, exactly a prefix of the events in the order of
  their claims, each of them unchanged; no producer ever leaves the event pool, and at most a
  capacity of events lies between the claims and the slowest consumer.  Events are no longer than a
  slot, accesses to atomics are sequentially consistent, and the counters do not reach \<open>2 ^ 63\<close>.\<close>

theorem disruptor_delivers:
  assumes "dq_reach is_quit st0 st" "dq_open st0" "dq_independent st0" "h \<in> set (dq_dependents st0)"
  shows "list_all2 delivered (take (length (hd_handled (dq_consumer st h))) (dq_log st)) (hd_handled (dq_consumer st h)) \<and>
         length (hd_handled (dq_consumer st h)) \<le> dq_cursor st \<and> dq_cursor st \<le> length (dq_log st) \<and>
         length (dq_log st) \<le> length (hd_handled (dq_consumer st h)) + dq_capacity st \<and>
         dq_producer_step st p \<noteq> None"
proof -
  have inv: "dq_inv st" and dep: "h \<in> set (dq_dependents st)" using dq_reach_inv [OF assms(1-3)] assms(4) by simp_all
  have ok: "hd_ok st (dq_consumer st h)" by (rule dq_invD(3) [OF inv dep])
  have sh: "dq_cursor st \<le> dq_next st" "dq_next st = length (dq_log st)"
    using dq_invD(1) [OF inv] by (simp_all add: dq_shape_def)
  have all2: "list_all2 delivered (take (hd_current (dq_consumer st h)) (dq_log st)) (hd_handled (dq_consumer st h))"
    using ok by (simp add: hd_ok_def)
  have cur: "hd_current (dq_consumer st h) = length (hd_handled (dq_consumer st h))"
  proof -
    have "hd_current (dq_consumer st h) \<le> length (dq_log st)" using ok sh unfolding hd_ok_def by linarith
    then show ?thesis using list_all2_lengthD [OF all2] by simp
  qed
  have "dq_next st \<le> length (hd_handled (dq_consumer st h)) + dq_capacity st"
    using dq_invD(2) [OF inv dep] ok cur by (simp add: hd_ok_def)
  then show ?thesis using all2 cur ok sh dq_producer_step_inv [OF inv, of p] by (auto simp: hd_ok_def)
qed

definition demo_consumer :: consumer where
  "demo_consumer = \<lparr>hd_index = 0, hd_current = 0, hd_pc = H_look, hd_deps = [], hd_notify = [], hd_handled = [],
     hd_waiting = False, hd_signal = True\<rparr>"

definition demo_queue :: disruptor where
  "demo_queue = \<lparr>dq_pool = Some [0, 0], dq_cursor = 0, dq_next = 0, dq_capacity = 2, dq_mask = 1, dq_event_len = 1,
     dq_rewrite = - 1, dq_dependents = [0], dq_notify = [0], dq_producer = (\<lambda>_. P_done 0),
     dq_consumer = (\<lambda>_. demo_consumer), dq_log = []\<rparr>"

lemma demo_queue_open: "dq_open demo_queue" "dq_independent demo_queue"
proof -
  have "dq_capacity demo_queue = 2 ^ 1 \<and> dq_mask demo_queue = mask 1" by (simp add: demo_queue_def)
  then have "\<exists>k. dq_capacity demo_queue = 2 ^ k \<and> dq_mask demo_queue = mask k" ..
  then show "dq_open demo_queue" by (simp add: dq_open_def) (simp add: demo_queue_def demo_consumer_def)
  show "dq_independent demo_queue" by (simp add: dq_independent_def demo_queue_def demo_consumer_def)
qed

text \<open>A run of one push and of the consumer that handles it.\<close>

definition demo_run :: disruptor where
  "demo_run =
     (let push = (\<lambda>st. the (dq_producer_step st 0)); take = (\<lambda>st. dq_consumer_step (\<lambda>_. False) st 0)
      in (take ^^ 3) ((push ^^ 8) (dq_start demo_queue 0 [7] 0)))"

lemma dq_reach_produce_pow:
  assumes "dq_reach is_quit st0 st" "dq_open st0" "dq_independent st0"
  shows "dq_reach is_quit st0 (((\<lambda>st. the (dq_producer_step st p)) ^^ n) st)"
proof (induction n)
  case (Suc n)
  let ?st = "((\<lambda>st. the (dq_producer_step st p)) ^^ n) st"
  obtain st' where "dq_producer_step ?st p = Some st'"
    using dq_producer_step_inv dq_reach_inv [OF Suc assms(2,3)] by blast
  then show ?case using dq_produce [OF Suc, of p st'] by simp
qed (use assms in simp)

lemma dq_reach_consume_pow:
  assumes "dq_reach is_quit st0 st"
  shows "dq_reach is_quit st0 (((\<lambda>st. dq_consumer_step is_quit st h) ^^ n) st)"
  by (induction n) (use assms in \<open>auto intro: dq_consume\<close>)

lemma demo_run_reach: "dq_reach (\<lambda>_. False) demo_queue demo_run"
  unfolding demo_run_def Let_def
  by (intro dq_reach_consume_pow dq_reach_produce_pow demo_queue_open dq_push [OF dq_refl])
     (simp_all add: demo_queue_def)

theorem disruptor_delivers_witness:
  "list_all2 delivered (take (length (hd_handled (dq_consumer demo_run 0))) (dq_log demo_run))
     (hd_handled (dq_consumer demo_run 0)) \<and>
   length (hd_handled (dq_consumer demo_run 0)) \<le> dq_cursor demo_run \<and> dq_cursor demo_run \<le> length (dq_log demo_run) \<and>
   length (dq_log demo_run) \<le> length (hd_handled (dq_consumer demo_run 0)) + dq_capacity demo_run \<and>
   dq_producer_step demo_run 0 \<noteq> None"
  by (rule disruptor_delivers [OF demo_run_reach demo_queue_open]) (simp add: demo_queue_def)

text \<open>
  A consumer that depends on another handles an event before it is published: when both have seen
  everything, the dependent one takes the other's index plus one as its bound, and hands the
  application the bytes of a slot that no producer has published.\<close>

theorem dependent_consumer_overtakes:
  assumes "hd_pc (dq_consumer st h) = H_look" "hd_deps (dq_consumer st h) = [d]" "d \<noteq> h"
    and "hd_index (dq_consumer st d) = dq_cursor st" "0 < dq_cursor st" "hd_current (dq_consumer st h) = dq_cursor st"
    and "\<not> is_quit (dq_get_event st (dq_cursor st))"
  shows "hd_handled (dq_consumer (((\<lambda>st. dq_consumer_step is_quit st h) ^^ 4) st) h) =
           hd_handled (dq_consumer st h) @ [dq_get_event st (dq_cursor st)]"
proof -
  let ?c = "dq_consumer st h" and ?f = "\<lambda>st. dq_consumer_step is_quit st h"
  let ?st1 = "dq_set_consumer st h (?c\<lparr>hd_pc := H_scan None [d]\<rparr>)"
  let ?st2 = "dq_set_consumer st h (?c\<lparr>hd_pc := H_scan (Some (dq_cursor st)) []\<rparr>)"
  let ?st3 = "dq_set_consumer st h (?c\<lparr>hd_pc := H_handle (dq_cursor st + 1)\<rparr>)"
  have twice: "dq_set_consumer (dq_set_consumer st h x) h y = dq_set_consumer st h y" for x y
    by (simp add: dq_set_consumer_def)
  have 1: "?f st = ?st1" using assms(1,2) by (simp add: dq_consumer_step_def)
  have 2: "?f ?st1 = ?st2" using assms(3,4) by (simp add: dq_consumer_step_def twice)
  have 3: "?f ?st2 = ?st3" using assms(5,6) by (simp add: dq_consumer_step_def twice hd_decide_def)
  have ev: "dq_get_event (dq_set_consumer st h x) i = dq_get_event st i" for x i
    by (simp add: dq_get_event_def dq_slot_def)
  have 4: "hd_handled (dq_consumer (?f ?st3) h) = hd_handled ?c @ [dq_get_event st (dq_cursor st)]"
    using assms(6,7) by (simp add: dq_consumer_step_def twice ev Let_def)
  have "(?f ^^ 4) st = ?f (?f (?f (?f st)))" by (simp add: numeral_eq_Suc)
  then show ?thesis unfolding 1 2 3 using 4 by simp
qed

definition demo_pair :: disruptor where
  "demo_pair = demo_queue\<lparr>dq_cursor := 1, dq_next := 1, dq_log := [[7]], dq_pool := Some [7, 0],
     dq_consumer := (\<lambda>h. if h = 0 then demo_consumer\<lparr>hd_index := 1, hd_current := 1, hd_handled := [[7]]\<rparr>
                         else demo_consumer\<lparr>hd_index := 1, hd_current := 1, hd_handled := [[7]], hd_deps := [0]\<rparr>)\<rparr>"

theorem dependent_consumer_overtakes_witness:
  "hd_handled (dq_consumer (((\<lambda>st. dq_consumer_step (\<lambda>_. False) st 1) ^^ 4) demo_pair) 1) =
     hd_handled (dq_consumer demo_pair 1) @ [dq_get_event demo_pair (dq_cursor demo_pair)]"
  by (rule dependent_consumer_overtakes [where d = 0]) (simp_all add: demo_pair_def demo_queue_def demo_consumer_def)

text \<open>
  The wake-up of a push reaches a waiting consumer only if it is behind: \<^verbatim>\<open>signal_event\<close>
  compares the index of the new event with the consumer's index, which are equal when the consumer has
  seen everything before it, so the consumer sleeps until its time-out.\<close>

theorem push_does_not_wake:
  assumes "dq_producer st p = P_publish e (dq_cursor st) q" "dq_notify st = [h]"
    and "hd_waiting (dq_consumer st h)" "hd_index (dq_consumer st h) = dq_cursor st"
  shows "\<exists>st'. do { st1 \<leftarrow> dq_producer_step st p; st2 \<leftarrow> dq_producer_step st1 p; dq_producer_step st2 p } = Some st' \<and>
           dq_producer st' p = P_done (q + 1) \<and> dq_cursor st' = dq_cursor st + 1 \<and>
           hd_waiting (dq_consumer st' h) \<and> hd_index (dq_consumer st' h) < dq_cursor st'"
proof -
  let ?n = "dq_cursor st"
  let ?st1 = "(dq_set_producer st p (P_notify ?n (q + 1) [h]))\<lparr>dq_cursor := Suc ?n\<rparr>"
  have 1: "dq_producer_step st p = Some ?st1" using assms(1,2) by (simp add: dq_producer_step_def)
  have "hd_signal_event (dq_consumer st h) ?n = (False, dq_consumer st h)" using assms(4) by (simp add: hd_signal_event_def)
  then have "dq_signal ?st1 h ?n = ?st1" by (simp add: dq_signal_def dq_set_consumer_def)
  then have 2: "dq_producer_step ?st1 p = Some (dq_set_producer ?st1 p (P_notify ?n (q + 1) []))"
    by (simp add: dq_producer_step_def)
  have 3: "dq_producer_step (dq_set_producer ?st1 p (P_notify ?n (q + 1) [])) p =
      Some (dq_set_producer (dq_set_producer ?st1 p (P_notify ?n (q + 1) [])) p (P_done (q + 1)))"
    by (simp add: dq_producer_step_def)
  show ?thesis unfolding 1 using assms(3,4) by (simp add: 2 3)
qed

theorem push_does_not_wake_witness:
  "\<exists>st'. do { st1 \<leftarrow> dq_producer_step (demo_queue\<lparr>dq_producer := (\<lambda>_. P_publish [7] 0 0),
                       dq_consumer := (\<lambda>_. demo_consumer\<lparr>hd_pc := H_wait, hd_waiting := True\<rparr>)\<rparr>) 0;
            st2 \<leftarrow> dq_producer_step st1 0; dq_producer_step st2 0 } = Some st' \<and>
     dq_producer st' 0 = P_done (0 + 1) \<and>
     dq_cursor st' = dq_cursor (demo_queue\<lparr>dq_producer := (\<lambda>_. P_publish [7] 0 0),
                       dq_consumer := (\<lambda>_. demo_consumer\<lparr>hd_pc := H_wait, hd_waiting := True\<rparr>)\<rparr>) + 1 \<and>
     hd_waiting (dq_consumer st' 0) \<and> hd_index (dq_consumer st' 0) < dq_cursor st'"
  by (rule push_does_not_wake [where e = "[7]"]) (simp_all add: demo_queue_def demo_consumer_def)

text \<open>
  The size of the event pool is computed in 32 bits: for a capacity and an event length whose
  product does not fit, \<^verbatim>\<open>init\<close> succeeds with a pool that does not hold its slots.\<close>

theorem disruptor_pool_undersized:
  assumes "2 ^ 32 \<le> unat (pow2_capacity capacity) * unat event_len"
    and "heap_ok h ((unat (pow2_capacity capacity) * unat event_len) mod 2 ^ 32)"
  shows "\<exists>st'. dq_init h capacity event_len rewrite_count st = (1, st') \<and>
           length (block (dq_pool st')) < dq_capacity st' * dq_event_len st'"
proof -
  have "unat (pow2_capacity capacity * event_len) = (unat (pow2_capacity capacity) * unat event_len) mod 2 ^ 32"
    by (simp add: unat_word_ariths)
  moreover have "(unat (pow2_capacity capacity) * unat event_len) mod 2 ^ 32 <
      unat (pow2_capacity capacity) * unat event_len"
    using assms(1) by (intro less_le_trans [OF mod_less_divisor]) simp_all
  ultimately show ?thesis using assms(2) by (simp add: dq_init_def Let_def sl_malloc_def)
qed

lemma pow2_capacity_64M: "pow2_capacity 67108864 = 67108864"
  by code_simp

theorem disruptor_pool_undersized_witness:
  "\<exists>st'. dq_init \<lparr>heap_ok = \<lambda>_. True, heap_junk = \<lambda>_. 0\<rparr> 67108864 64 0 demo_queue = (1, st') \<and>
     length (block (dq_pool st')) < dq_capacity st' * dq_event_len st'"
  by (rule disruptor_pool_undersized) (simp_all add: pow2_capacity_64M)

text \<open>
  The queue of a single producer never accepts an event with its default setting, nor the event
  that stops the consumers: a negative number of attempts makes no attempt at all.\<close>

theorem single_queue_default_refuses:
  assumes "snd (sq_init h capacity event_len rewrite_count sq_new) = st0"
  shows "sq_push event 0 env (st0\<lparr>sq_dependents := ds\<rparr>) = Some (- 1, st0\<lparr>sq_dependents := ds\<rparr>) \<and>
         sq_quit_event quit env (st0\<lparr>sq_dependents := ds\<rparr>) = Some (- 1, st0\<lparr>sq_dependents := ds\<rparr>)"
proof -
  have "sq_rewrite st0 = - 1"
    unfolding assms [symmetric] by (simp add: sq_init_def sq_new_def Let_def split: option.splits)
  then show ?thesis by (simp add: sq_push_def sq_quit_event_def Let_def)
qed

theorem single_queue_default_refuses_witness:
  "sq_push [1] 0 (\<lambda>_ q. q) (snd (sq_init \<lparr>heap_ok = \<lambda>_. True, heap_junk = \<lambda>_. 0\<rparr> 2 1 0 sq_new)\<lparr>sq_dependents := [0]\<rparr>) =
     Some (- 1, snd (sq_init \<lparr>heap_ok = \<lambda>_. True, heap_junk = \<lambda>_. 0\<rparr> 2 1 0 sq_new)\<lparr>sq_dependents := [0]\<rparr>) \<and>
   sq_quit_event [0] (\<lambda>_ q. q) (snd (sq_init \<lparr>heap_ok = \<lambda>_. True, heap_junk = \<lambda>_. 0\<rparr> 2 1 0 sq_new)\<lparr>sq_dependents := [0]\<rparr>) =
     Some (- 1, snd (sq_init \<lparr>heap_ok = \<lambda>_. True, heap_junk = \<lambda>_. 0\<rparr> 2 1 0 sq_new)\<lparr>sq_dependents := [0]\<rparr>)"
  by (rule single_queue_default_refuses) (rule refl)

end
