(* ===== verification/SL_Codecs.thy ===== *)
theory SL_Codecs
  imports SL_Prelude "HOL-Library.Char_ord"
begin

text \<open>
  The text encodings: \<^verbatim>\<open>SL_Crypto_Base64\<close>, \<^verbatim>\<open>SL_Crypto_Hex\<close> and
  \<^verbatim>\<open>SL_Crypto_UrlCode\<close> (\<^verbatim>\<open>src/SL_Crypto_Base64.cpp\<close>,
  \<^verbatim>\<open>SL_Crypto_Hex.cpp\<close>, \<^verbatim>\<open>SL_Crypto_UrlCode.cpp\<close>).  A call gets the bytes to convert and
  the size of the caller's output block; its result is the returned \<^verbatim>\<open>int\<close> and the bytes
  stored, \<open>None\<close> when an assertion fails or an access leaves a block.

  The contract is the locale \<open>text_codec\<close>: decoding undoes encoding.
\<close>

type_synonym codec_result = "(int \<times> byte list) option"

section \<open>The contract\<close>

locale text_codec =
  fixes encode :: "byte list \<Rightarrow> uint \<Rightarrow> codec_result"
    and decode :: "byte list \<Rightarrow> uint \<Rightarrow> codec_result"
    and fits :: "byte list \<Rightarrow> bool"
    and need :: "byte list \<Rightarrow> nat"
  assumes encode_ok: "fits d \<Longrightarrow> need d \<le> unat n \<Longrightarrow>
      \<exists>r text. encode d n = Some (r, text) \<and> length text \<le> need d \<and>
        (\<forall>m. length d + 2 \<le> unat m \<longrightarrow> (\<exists>r'. decode text m = Some (r', d)))"
begin

lemma roundtrip:
  assumes "fits d" "need d \<le> unat n" "length d + 2 \<le> unat m"
  obtains r t r' where "encode d n = Some (r, t)" "decode t m = Some (r', d)"
  using encode_ok [OF assms(1,2)] assms(3) by blast

text \<open>Different data have different texts.\<close>

lemma encode_inj:
  assumes "fits d" "fits d'" "need d \<le> unat n" "need d' \<le> unat n"
    and "encode d n = Some (r, text)" "encode d' n = Some (r', text)"
    and "length d + 2 < 2 ^ 32" "length d' + 2 < 2 ^ 32"
  shows "d = d'"
proof -
  define k where "k = max (length d) (length d') + 2"
  let ?m = "word_of_nat k :: uint"
  have k: "length d + 2 \<le> k" "length d' + 2 \<le> k" "k < 2 ^ 32" using assms(7,8) by (simp_all add: k_def)
  have "unat ?m = k" using k(3) by (simp add: unat_of_nat)
  then have "\<exists>r. decode text ?m = Some (r, d)" "\<exists>r. decode text ?m = Some (r, d')"
    using encode_ok [OF assms(1,3)] encode_ok [OF assms(2,4)] assms(5,6) k(1,2) by auto
  then show ?thesis by auto
qed

end

section \<open>Base64\<close>

definition BASE64_ENCODE_TABLE :: "byte list" where
  "BASE64_ENCODE_TABLE = map of_char ''ABCDEFGHIJKLMNOPQRSTUVWXYZabcdefghijklmnopqrstuvwxyz0123456789+/''"

definition BASE64_DECODE_TABLE :: "byte list" where
  "BASE64_DECODE_TABLE =
     [0xff, 0xff, 0xff, 0xff, 0xff, 0xff, 0xff, 0xff, 0xff, 0xff, 0xff, 0xff, 0xff, 0xff, 0xff, 0xff,
      0xff, 0xff, 0xff, 0xff, 0xff, 0xff, 0xff, 0xff, 0xff, 0xff, 0xff, 0xff, 0xff, 0xff, 0xff, 0xff,
      0xff, 0xff, 0xff, 0xff, 0xff, 0xff, 0xff, 0xff, 0xff, 0xff, 0xff, 0x3e, 0xff, 0xff, 0xff, 0x3f,
      0x34, 0x35, 0x36, 0x37, 0x38, 0x39, 0x3a, 0x3b, 0x3c, 0x3d, 0xff, 0xff, 0xff, 0xff, 0xff, 0xff,
      0xff, 0x00, 0x01, 0x02, 0x03, 0x04, 0x05, 0x06, 0x07, 0x08, 0x09, 0x0a, 0x0b, 0x0c, 0x0d, 0x0e,
      0x0f, 0x10, 0x11, 0x12, 0x13, 0x14, 0x15, 0x16, 0x17, 0x18, 0x19, 0xff, 0xff, 0xff, 0xff, 0xff,
      0xff, 0x1a, 0x1b, 0x1c, 0x1d, 0x1e, 0x1f, 0x20, 0x21, 0x22, 0x23, 0x24, 0x25, 0x26, 0x27, 0x28,
      0x29, 0x2a, 0x2b, 0x2c, 0x2d, 0x2e, 0x2f, 0x30, 0x31, 0x32, 0x33, 0xff, 0xff, 0xff, 0xff, 0xff,
      0xff, 0xff, 0xff, 0xff, 0xff, 0xff, 0xff, 0xff, 0xff, 0xff, 0xff, 0xff, 0xff, 0xff, 0xff, 0xff,
      0xff, 0xff, 0xff, 0xff, 0xff, 0xff, 0xff, 0xff, 0xff, 0xff, 0xff, 0xff, 0xff, 0xff, 0xff, 0xff,
      0xff, 0xff, 0xff, 0xff, 0xff, 0xff, 0xff, 0xff, 0xff, 0xff, 0xff, 0xff, 0xff, 0xff, 0xff, 0xff,
      0xff, 0xff, 0xff, 0xff, 0xff, 0xff, 0xff, 0xff, 0xff, 0xff, 0xff, 0xff, 0xff, 0xff, 0xff, 0xff,
      0xff, 0xff, 0xff, 0xff, 0xff, 0xff, 0xff, 0xff, 0xff, 0xff, 0xff, 0xff, 0xff, 0xff, 0xff, 0xff,
      0xff, 0xff, 0xff, 0xff, 0xff, 0xff, 0xff, 0xff, 0xff, 0xff, 0xff, 0xff, 0xff, 0xff, 0xff, 0xff,
      0xff, 0xff, 0xff, 0xff, 0xff, 0xff, 0xff, 0xff, 0xff, 0xff, 0xff, 0xff, 0xff, 0xff, 0xff, 0xff,
      0xff, 0xff, 0xff, 0xff, 0xff, 0xff, 0xff, 0xff, 0xff, 0xff, 0xff, 0xff, 0xff, 0xff, 0xff, 0xff]"

definition pad_char :: byte where "pad_char = 0x3D"

definition b64_enc :: "byte \<Rightarrow> byte" where
  "b64_enc i = BASE64_ENCODE_TABLE ! unat i"

definition b64_dec :: "byte \<Rightarrow> byte" where
  "b64_dec c = BASE64_DECODE_TABLE ! unat c"

datatype codec_type = ENCODE | DECODE

definition b64_get_need_len :: "uint \<Rightarrow> codec_type \<Rightarrow> int" where
  "b64_get_need_len len t =
     (case t of
        ENCODE \<Rightarrow> let i = len mod 3 in
          if i \<noteq> 0 then sint (push_bit 2 (len + 3 - i) div 3) else sint (push_bit 2 len div 3)
      | DECODE \<Rightarrow> sint (drop_bit 2 (len * 3)))"

text \<open>The loop over whole groups of three bytes, and the two tails.\<close>

fun b64_groups :: "byte list \<Rightarrow> byte list" where
  "b64_groups (a # b # c # r) =
     [b64_enc (drop_bit 2 a AND 0x3f),
      b64_enc ((push_bit 4 a AND 0x30) OR (drop_bit 4 b AND 0x0f)),
      b64_enc ((push_bit 2 b AND 0x3c) OR (drop_bit 6 c AND 0x03)),
      b64_enc (c AND 0x3f)] @ b64_groups r"
| "b64_groups _ = []"

definition b64_encode :: "byte list \<Rightarrow> uint \<Rightarrow> codec_result" where
  "b64_encode d out_len =
     (if d = [] then None
      else
        let in_len = word_of_nat (length d) :: uint; remainder = in_len mod 3;
            leven = length d - unat remainder; body = b64_groups (take leven d); t = drop leven d
        in
        if remainder = 1 then
          let need_len = push_bit 2 (in_len + 3 - remainder) div 3;
              text = body @ [b64_enc (drop_bit 2 (t ! 0) AND 0x3f), b64_enc (push_bit 4 (t ! 0) AND 0x30),
                             pad_char, pad_char]
          in if out_len < need_len then Some (- 1, [])
             else if length text > unat out_len then None else Some (sint need_len, text)
        else if remainder = 2 then
          let need_len = push_bit 2 (in_len + 3 - remainder) div 3;
              text = body @ [b64_enc (drop_bit 2 (t ! 0) AND 0x3f),
                             b64_enc ((push_bit 4 (t ! 0) AND 0x30) OR (drop_bit 4 (t ! 1) AND 0x0f)),
                             b64_enc (push_bit 2 (t ! 1) AND 0x3c), pad_char]
          in if out_len < need_len then Some (- 1, [])
             else if length text > unat out_len then None else Some (sint need_len, text)
        else
          let need_len = push_bit 2 in_len div 3; text = body
          in if out_len < need_len then Some (- 1, [])
             else if length text > unat out_len then None else Some (sint need_len, text))"

fun b64_ungroups :: "byte list \<Rightarrow> byte list" where
  "b64_ungroups (a # b # c # e # r) =
     [push_bit 2 (b64_dec a) OR drop_bit 4 (b64_dec b),
      (push_bit 4 (b64_dec b) AND 0xf0) OR drop_bit 2 (b64_dec c),
      (push_bit 6 (b64_dec c) AND 0xc0) OR b64_dec e] @ b64_ungroups r"
| "b64_ungroups _ = []"

text \<open>The count of the padding walks backwards until another character; a text of padding only is left at its front.\<close>

definition b64_padding :: "byte list \<Rightarrow> nat option" where
  "b64_padding d =
     (if list_all (\<lambda>c. c = pad_char) d then None else Some (length (takeWhile (\<lambda>c. c = pad_char) (rev d))))"

definition b64_decode :: "byte list \<Rightarrow> uint \<Rightarrow> codec_result" where
  "b64_decode d out_len =
     (if d = [] then None
      else
        let in_len = word_of_nat (length d) :: uint; need_len = drop_bit 2 (in_len * 3);
            mod_4 = in_len - push_bit 2 (drop_bit 2 in_len)
        in
        if mod_4 \<noteq> 0 \<or> out_len < need_len then Some (- 1, [])
        else do {
          padding_number \<leftarrow> b64_padding d;
          let leven = length d - 4;
          let t = drop leven d;
          let (len, text) =
            (if padding_number = 1 then
               (need_len - 1, b64_ungroups (take leven d) @
                  [push_bit 2 (b64_dec (t ! 0)) OR drop_bit 4 (b64_dec (t ! 1)),
                   (push_bit 4 (b64_dec (t ! 1)) AND 0xf0) OR drop_bit 2 (b64_dec (t ! 2))])
             else if padding_number = 2 then
               (need_len - 2, b64_ungroups (take leven d) @
                  [push_bit 2 (b64_dec (t ! 0)) OR drop_bit 4 (b64_dec (t ! 1))])
             else (need_len, b64_ungroups d));
          if length text > unat out_len then None else Some (sint len, text) })"

section \<open>Hexadecimal\<close>

definition HEX_ENCODE_TABLE_UPPER :: "byte list" where
  "HEX_ENCODE_TABLE_UPPER = map of_char ''0123456789ABCDEF''"

definition HEX_ENCODE_TABLE_LOWER :: "byte list" where
  "HEX_ENCODE_TABLE_LOWER = map of_char ''0123456789abcdef''"

text \<open>The entries are of type \<^verbatim>\<open>char\<close>, taken as signed.\<close>

definition HEX_DECODE_TABLE :: "int list" where
  "HEX_DECODE_TABLE =
     [- 1, - 1, - 1, - 1, - 1, - 1, - 1, - 1, - 1, - 1, - 1, - 1, - 1, - 1, - 1, - 1,
      - 1, - 1, - 1, - 1, - 1, - 1, - 1, - 1, - 1, - 1, - 1, - 1, - 1, - 1, - 1, - 1,
      - 1, - 1, - 1, - 1, - 1, - 1, - 1, - 1, - 1, - 1, - 1, - 1, - 1, - 1, - 1, - 1,
      0, 1, 2, 3, 4, 5, 6, 7, 8, 9, - 1, - 1, - 1, - 1, - 1, - 1,
      - 1, 10, 11, 12, 13, 14, 15, - 1, - 1, - 1, - 1, - 1, - 1, - 1, - 1, - 1,
      - 1, - 1, - 1, - 1, - 1, - 1, - 1, - 1, - 1, - 1, - 1, - 1, - 1, - 1, - 1, - 1,
      - 1, 10, 11, 12, 13, 14, 15, - 1, - 1, - 1, - 1, - 1, - 1, - 1, - 1, - 1,
      - 1, - 1, - 1, - 1, - 1, - 1, - 1, - 1, - 1, - 1, - 1, - 1, - 1, - 1, - 1, - 1,
      - 1, - 1, - 1, - 1, - 1, - 1, - 1, - 1, - 1, - 1, - 1, - 1, - 1, - 1, - 1, - 1,
      - 1, - 1, - 1, - 1, - 1, - 1, - 1, - 1, - 1, - 1, - 1, - 1, - 1, - 1, - 1, - 1,
      - 1, - 1, - 1, - 1, - 1, - 1, - 1, - 1, - 1, - 1, - 1, - 1, - 1, - 1, - 1, - 1,
      - 1, - 1, - 1, - 1, - 1, - 1, - 1, - 1, - 1, - 1, - 1, - 1, - 1, - 1, - 1, - 1,
      - 1, - 1, - 1, - 1, - 1, - 1, - 1, - 1, - 1, - 1, - 1, - 1, - 1, - 1, - 1, - 1,
      - 1, - 1, - 1, - 1, - 1, - 1, - 1, - 1, - 1, - 1, - 1, - 1, - 1, - 1, - 1, - 1,
      - 1, - 1, - 1, - 1, - 1, - 1, - 1, - 1, - 1, - 1, - 1, - 1, - 1, - 1, - 1, - 1,
      - 1, - 1, - 1, - 1, - 1, - 1, - 1, - 1, - 1, - 1, - 1, - 1, - 1, - 1, - 1, - 1]"

definition hex_table :: "bool \<Rightarrow> byte list" where
  "hex_table upper_case = (if upper_case then HEX_ENCODE_TABLE_UPPER else HEX_ENCODE_TABLE_LOWER)"

definition hex_get_need_len :: "uint \<Rightarrow> codec_type \<Rightarrow> int" where
  "hex_get_need_len len t = (case t of ENCODE \<Rightarrow> sint (push_bit 1 len) | DECODE \<Rightarrow> sint (drop_bit 1 len))"

definition hex_encode :: "byte list \<Rightarrow> byte list \<Rightarrow> uint \<Rightarrow> codec_result" where
  "hex_encode encode_table d out_len =
     (if d = [] then None
      else
        let need_len = push_bit 1 (word_of_nat (length d) :: uint);
            text = concat (map (\<lambda>b. [encode_table ! unat (drop_bit 4 b), encode_table ! unat (b AND 0x0f)]) d)
        in if out_len < need_len then Some (- 1, [])
           else if length text > unat out_len then None else Some (sint need_len, text))"

definition hex_dec :: "byte \<Rightarrow> int" where
  "hex_dec c = HEX_DECODE_TABLE ! unat c"

fun hex_pairs :: "byte list \<Rightarrow> byte list" where
  "hex_pairs (a # b # r) = word_of_int (hex_dec a * 16 + hex_dec b) # hex_pairs r"
| "hex_pairs _ = []"

text \<open>The checked loop: whether it came to the end, and the bytes stored by then.\<close>

fun hex_pairs_checked :: "byte list \<Rightarrow> bool \<times> byte list" where
  "hex_pairs_checked (a # b # r) =
     (if hex_dec a < 0 \<or> hex_dec b < 0 then (False, [])
      else let (ok, out) = hex_pairs_checked r in (ok, word_of_int (hex_dec a * 16 + hex_dec b) # out))"
| "hex_pairs_checked _ = (True, [])"

definition hex_decode :: "byte list \<Rightarrow> uint \<Rightarrow> bool \<Rightarrow> codec_result" where
  "hex_decode d out_len checked_data =
     (if d = [] then None
      else
        let in_len = word_of_nat (length d) :: uint; need_len = drop_bit 1 in_len;
            mod_2 = in_len - push_bit 1 need_len
        in if mod_2 \<noteq> 0 \<or> need_len > out_len then Some (- 1, [])
           else if \<not> checked_data then Some (sint need_len, hex_pairs d)
           else let (ok, text) = hex_pairs_checked d in Some (if ok then sint need_len else - 2, text))"

section \<open>URL code\<close>

datatype escape =
  ESCAPE_URI | ESCAPE_ARGS | ESCAPE_URI_COMPONENT | ESCAPE_HTML | ESCAPE_REFRESH | ESCAPE_MEMCACHED | ESCAPE_MAIL_AUTH

fun url_map :: "escape \<Rightarrow> uint list" where
  "url_map ESCAPE_URI =
     [0xffffffff, 0x80000029, 0x00000000, 0x80000000, 0xffffffff, 0xffffffff, 0xffffffff, 0xffffffff]"
| "url_map ESCAPE_ARGS =
     [0xffffffff, 0x88000869, 0x00000000, 0x80000000, 0xffffffff, 0xffffffff, 0xffffffff, 0xffffffff]"
| "url_map ESCAPE_URI_COMPONENT =
     [0xffffffff, 0xfc009fff, 0x78000001, 0xb8000001, 0xffffffff, 0xffffffff, 0xffffffff, 0xffffffff]"
| "url_map ESCAPE_HTML =
     [0xffffffff, 0x000000ad, 0x00000000, 0x80000000, 0xffffffff, 0xffffffff, 0xffffffff, 0xffffffff]"
| "url_map ESCAPE_REFRESH =
     [0xffffffff, 0x00000085, 0x00000000, 0x80000000, 0xffffffff, 0xffffffff, 0xffffffff, 0xffffffff]"
| "url_map ESCAPE_MEMCACHED =
     [0xffffffff, 0x00000021, 0x00000000, 0x00000000, 0x00000000, 0x00000000, 0x00000000, 0x00000000]"
| "url_map ESCAPE_MAIL_AUTH =
     [0xffffffff, 0x00000021, 0x00000000, 0x00000000, 0x00000000, 0x00000000, 0x00000000, 0x00000000]"

definition url_escaped :: "escape \<Rightarrow> byte \<Rightarrow> bool" where
  "url_escaped t c \<longleftrightarrow>
     (url_map t ! unat (drop_bit 5 c)) AND push_bit (unat (c AND 0x1f)) 1 \<noteq> 0"

definition url_hex :: "byte list" where
  "url_hex = map of_char ''0123456789ABCDEF''"

text \<open>With no output block the characters to escape are counted.\<close>

definition url_encode_count :: "byte list \<Rightarrow> escape \<Rightarrow> int \<times> uint" where
  "url_encode_count d t =
     (let n = length (filter (url_escaped t) d) in (int n, word_of_nat n))"

fun url_encode_bytes :: "escape \<Rightarrow> byte list \<Rightarrow> byte list" where
  "url_encode_bytes t [] = []"
| "url_encode_bytes t (c # r) =
     (if url_escaped t c
      then [0x25, url_hex ! unat (drop_bit 4 c), url_hex ! unat (c AND 0xf)] @ url_encode_bytes t r
      else c # url_encode_bytes t r)"

text \<open>The size of the block is not looked at.\<close>

definition url_encode :: "byte list \<Rightarrow> uint \<Rightarrow> escape \<Rightarrow> codec_result" where
  "url_encode d out_len t =
     (let text = url_encode_bytes t d in if length text > unat out_len then None else Some (1, text))"

datatype url_state = sw_usual | sw_quoted | sw_quoted_second

text \<open>A character in a state with the digit decoded so far: the next state, that digit and the bytes stored.\<close>

definition url_step :: "url_state \<Rightarrow> byte \<Rightarrow> byte \<Rightarrow> url_state \<times> byte \<times> byte list" where
  "url_step state decoded ch =
     (case state of
        sw_usual \<Rightarrow> if ch = 0x25 then (sw_quoted, decoded, []) else (sw_usual, decoded, [ch])
      | sw_quoted \<Rightarrow>
          if ch \<ge> 0x30 \<and> ch \<le> 0x39 then (sw_quoted_second, ch - 0x30, [])
          else let c = ch OR 0x20 in
            if c \<ge> 0x61 \<and> c \<le> 0x66 then (sw_quoted_second, c - 0x61 + 10, [])
            else (sw_usual, decoded, [ch])
      | sw_quoted_second \<Rightarrow>
          if ch \<ge> 0x30 \<and> ch \<le> 0x39 then (sw_usual, decoded, [push_bit 4 decoded + ch - 0x30])
          else let c = ch OR 0x20 in
            if c \<ge> 0x61 \<and> c \<le> 0x66 then (sw_usual, decoded, [push_bit 4 decoded + c - 0x61 + 10])
            else (sw_usual, decoded, []))"

fun url_run :: "url_state \<Rightarrow> byte \<Rightarrow> byte list \<Rightarrow> url_state \<times> byte list" where
  "url_run state decoded [] = (state, [])"
| "url_run state decoded (ch # r) =
     (let (state, decoded, out) = url_step state decoded ch; (state, rest) = url_run state decoded r
      in (state, out @ rest))"

text \<open>The counter is an \<^verbatim>\<open>int\<close> made of the size: a text of \<open>2 ^ 31\<close> bytes or more makes it negative.\<close>

definition url_decode :: "byte list \<Rightarrow> uint \<Rightarrow> codec_result" where
  "url_decode d out_len =
     (let (state, text) = url_run sw_usual 0 d
      in if 2 ^ 31 \<le> length d \<or> length text > unat out_len then None
         else Some (if state = sw_usual then 1 else 0, text))"

section \<open>Base64 undone\<close>

lemma byte_bits_eqI:
  assumes "bit a 0 = bit b 0" "bit a 1 = bit b 1" "bit a 2 = bit b 2" "bit a 3 = bit b 3" "bit a 4 = bit b 4"
    "bit a 5 = bit b 5" "bit a 6 = bit b 6" "bit a 7 = bit b 7"
  shows "a = (b :: byte)"
proof (rule bit_word_eqI)
  fix n assume "n < LENGTH(8)"
  then have "n < 8" by simp
  then have "n = 0 \<or> n = 1 \<or> n = 2 \<or> n = 3 \<or> n = 4 \<or> n = 5 \<or> n = 6 \<or> n = 7" by linarith
  then show "bit a n = bit b n" using assms by blast
qed

lemma b64_masks [simp]:
  fixes a b :: byte
  shows "(drop_bit 2 a AND 0x3f) AND 0x3f = drop_bit 2 a AND 0x3f"
    and "((push_bit 4 a AND 0x30) OR (drop_bit 4 b AND 0x0f)) AND 0x3f = (push_bit 4 a AND 0x30) OR (drop_bit 4 b AND 0x0f)"
    and "((push_bit 2 a AND 0x3c) OR (drop_bit 6 b AND 0x03)) AND 0x3f = (push_bit 2 a AND 0x3c) OR (drop_bit 6 b AND 0x03)"
    and "(a AND 0x3f) AND 0x3f = a AND 0x3f"
    and "(push_bit 4 a AND 0x30) AND 0x3f = push_bit 4 a AND 0x30"
    and "(push_bit 2 a AND 0x3c) AND 0x3f = push_bit 2 a AND 0x3c"
  by (simp_all add: bit.conj_disj_distrib2 and.assoc)

lemma b64_chars:
  "BASE64_ENCODE_TABLE =
     [65, 66, 67, 68, 69, 70, 71, 72, 73, 74, 75, 76, 77, 78, 79, 80,
      81, 82, 83, 84, 85, 86, 87, 88, 89, 90, 97, 98, 99, 100, 101, 102,
      103, 104, 105, 106, 107, 108, 109, 110, 111, 112, 113, 114, 115, 116, 117, 118,
      119, 120, 121, 122, 48, 49, 50, 51, 52, 53, 54, 55, 56, 57, 43, 47]"
  by (simp add: BASE64_ENCODE_TABLE_def)

lemma b64_inverse: "map b64_dec BASE64_ENCODE_TABLE = map word_of_nat [0..<64]"
  unfolding b64_chars by (simp add: b64_dec_def BASE64_DECODE_TABLE_def upt_rec)

lemma b64_index:
  assumes "x AND 0x3f = (x :: byte)"
  shows "b64_dec (b64_enc x) = x" "b64_enc x \<noteq> pad_char"
proof -
  have "x \<le> 0x3f" using word_and_le1 [of x "0x3f"] assms by simp
  then have x: "unat x < 64" by (simp add: word_le_nat_alt)
  have l: "length BASE64_ENCODE_TABLE = 64" by (simp add: b64_chars)
  have "b64_dec (b64_enc x) = map b64_dec BASE64_ENCODE_TABLE ! unat x" using x l by (simp add: b64_enc_def)
  then show "b64_dec (b64_enc x) = x" using x by (simp add: b64_inverse)
  have "pad_char \<notin> set BASE64_ENCODE_TABLE" by (simp add: b64_chars pad_char_def)
  moreover have "b64_enc x \<in> set BASE64_ENCODE_TABLE" using x l by (simp add: b64_enc_def)
  ultimately show "b64_enc x \<noteq> pad_char" by metis
qed

lemma Suc3_div_mod [simp]:
  "Suc (Suc (Suc n)) mod 3 = n mod 3" "(3 + n) div 3 = Suc (n div 3)"
  by presburger+

lemma b64_ungroups_groups: "length d mod 3 = 0 \<Longrightarrow> b64_ungroups (b64_groups d @ r) = d @ b64_ungroups r"
proof (induction d rule: b64_groups.induct)
  case (1 a b c d)
  then have "b64_ungroups (b64_groups d @ r) = d @ b64_ungroups r" by simp
  then show ?case by (simp add: b64_index) (intro conjI; rule byte_bits_eqI; simp add: bit_simps)
qed simp_all

lemma b64_groups_append: "length d mod 3 = 0 \<Longrightarrow> b64_groups (d @ e) = b64_groups d @ b64_groups e"
  by (induction d rule: b64_groups.induct) simp_all

lemma length_b64_groups: "length (b64_groups d) = 4 * (length d div 3)"
  by (induction d rule: b64_groups.induct) simp_all

text \<open>The tail of a text: the characters of the last, short group.\<close>

definition b64_tail :: "byte list \<Rightarrow> byte list" where
  "b64_tail t =
     (if length t = 1 then
        [b64_enc (drop_bit 2 (t ! 0) AND 0x3f), b64_enc (push_bit 4 (t ! 0) AND 0x30), pad_char, pad_char]
      else if length t = 2 then
        [b64_enc (drop_bit 2 (t ! 0) AND 0x3f),
         b64_enc ((push_bit 4 (t ! 0) AND 0x30) OR (drop_bit 4 (t ! 1) AND 0x0f)),
         b64_enc (push_bit 2 (t ! 1) AND 0x3c), pad_char]
      else [])"

lemma b64_padding_count:
  assumes "y \<noteq> pad_char" shows "b64_padding (xs @ y # replicate k pad_char) = Some k"
proof -
  have "takeWhile (\<lambda>c. c = pad_char) (replicate k pad_char @ y # rev xs) = replicate k pad_char"
    using assms by (induction k) simp_all
  then show ?thesis using assms by (simp add: b64_padding_def)
qed

lemma word_third: "4 * m < 2 ^ 32 \<Longrightarrow> unat (push_bit 2 (word_of_nat m :: uint) div 3) = 4 * m div 3"
proof -
  assume m: "4 * m < 2 ^ 32"
  have "push_bit 2 (word_of_nat m :: uint) = word_of_nat (4 * m)" by (simp add: push_bit_eq_mult)
  moreover have "unat (word_of_nat (4 * m) :: uint) = 4 * m" using m by (simp only: unat_of_nat) simp
  ultimately show ?thesis by (simp add: unat_div)
qed

lemma word_mod3: "n < 2 ^ 32 \<Longrightarrow> (word_of_nat n :: uint) mod 3 = word_of_nat (n mod 3)"
  by (rule word_unat_eq_iff [THEN iffD2]) (simp add: unat_mod unat_of_nat)

lemma b64_encode_text:
  fixes d :: "byte list"
  defines "k \<equiv> (length d + 2) div 3"
  assumes "d \<noteq> []" "length d < 2 ^ 30"
  shows "b64_encode d n =
    (if unat n < 4 * k then Some (- 1, [])
     else Some (int (4 * k), b64_groups (take (length d - length d mod 3) d) @
       b64_tail (drop (length d - length d mod 3) d)))"
proof -
  have n: "length d < 2 ^ 32" using assms(3) by simp
  define r where "r = length d mod 3"
  have r: "r = 0 \<or> r = 1 \<or> r = 2" and r_lt: "r < 3" by (auto simp: r_def)
  let ?w = "word_of_nat (length d) :: uint"
  have m: "?w mod 3 = word_of_nat r" using word_mod3 [OF n] by (simp add: r_def)
  define q where "q = length d div 3"
  have d: "length d = 3 * q + r" by (simp add: r_def q_def)
  have up: "?w + 3 - word_of_nat r = word_of_nat (length d + 3 - r)" using r by auto
  have k: "k = q + (if r = 0 then 0 else 1)" using r d by (auto simp: k_def)
  have k30: "12 * k < 2 ^ 32"
  proof -
    have "12 * (q + (if r = 0 then 0 else 1)) < 4294967296" if "3 * q + r < 1073741824" for q :: nat
      using r that by presburger
    from this [of q] show ?thesis unfolding k d [symmetric] using assms(3) by simp
  qed
  have need: "unat (push_bit 2 (?w + 3 - word_of_nat r) div 3) = 4 * k" if "r \<noteq> 0"
  proof -
    have "length d + 3 - r = 3 * k" unfolding k if_not_P [OF that] d by simp
    then show ?thesis unfolding up using word_third [of "3 * k"] k30 by simp
  qed
  have need0: "unat (push_bit 2 ?w div 3) = 4 * k" if "r = 0"
  proof -
    have "length d = 3 * k" using that d k by simp
    then show ?thesis using word_third [of "3 * k"] k30 by simp
  qed
  have len: "length (b64_groups (take (length d - r) d)) = 4 * q"
    by (simp add: length_b64_groups d)
  show ?thesis
  proof (cases "r = 0")
    case True
    have S: "sint (push_bit 2 ?w div 3) = int (4 * k)"
      using need0 [OF True] k30 by (subst sint_unat_small) simp_all
    show ?thesis using True assms(2) m k need0 len n S
      by (simp add: b64_encode_def b64_tail_def Let_def word_less_nat_alt r_def [symmetric] unat_of_nat)
  next
    case False
    then have W: "(word_of_nat r :: uint) = 1 \<longleftrightarrow> r = 1" "(word_of_nat r :: uint) = 2 \<longleftrightarrow> r = 2" using r by auto
    have S: "sint (push_bit 2 (?w + 3 - word_of_nat r) div 3) = int (4 * k)"
      using need [OF False] k30 by (subst sint_unat_small) simp_all
    have t: "length (drop (length d - r) d) = r" using d by simp
    have N: "(n < push_bit 2 (?w + 3 - word_of_nat r) div 3) = (unat n < 4 * k)"
      using need [OF False] by (simp only: word_less_nat_alt)
    have k': "k = q + 1" using k False by simp
    have r': "r = 1 \<or> r = 2" using r False by simp
    have u: "unat (word_of_nat r :: uint) = r" using r by (auto simp: unat_of_nat)
    show ?thesis unfolding b64_encode_def b64_tail_def Let_def r_def [symmetric] m u N S t W
      using r' assms(2) len by (elim disjE) (simp_all add: k')
  qed
qed

lemma b64_groups_ends:
  assumes "d \<noteq> []" "length d mod 3 = 0"
  obtains t y where "b64_groups d = t @ [y]" "y \<noteq> pad_char"
proof -
  define d' where "d' = take (length d - 3) d"
  define l where "l = drop (length d - 3) d"
  have 3: "3 \<le> length d" using assms by (cases d; cases "tl d"; cases "tl (tl d)") auto
  then have "length l = 3" by (simp add: l_def)
  then obtain a b c where l: "l = [a, b, c]" by (auto simp: length_Suc_conv numeral_3_eq_3)
  have "length d' mod 3 = 0" using assms(2) 3 by (simp add: d'_def mod_diff_eq [symmetric])
      (metis le_add_diff_inverse2 mod_add_self2)
  then have "b64_groups d = b64_groups d' @ b64_groups l"
    using b64_groups_append [of d' l] by (simp add: d'_def l_def)
  then have "b64_groups d = (b64_groups d' @ butlast (b64_groups l)) @ [b64_enc (c AND 0x3f)]" by (simp add: l)
  then show thesis using that by (simp add: b64_index)
qed

text \<open>What the decoder does with a text of the encoder.\<close>

lemma b64_tail_bits:
  fixes a b :: byte
  shows "push_bit 2 (drop_bit 2 a AND 0x3f) OR drop_bit 4 (push_bit 4 a AND 0x30) = a"
    and "push_bit 2 (drop_bit 2 a AND 0x3f) OR drop_bit 4 ((push_bit 4 a AND 0x30) OR (drop_bit 4 b AND 0x0f)) = a"
    and "(push_bit 4 ((push_bit 4 a AND 0x30) OR (drop_bit 4 b AND 0x0f)) AND 0xf0) OR drop_bit 2 (push_bit 2 b AND 0x3c) = b"
  by (rule byte_bits_eqI; simp add: bit_simps)+

lemma b64_decode_numbers:
  assumes "length x = 4 * k" "12 * k < 2 ^ 32"
  shows "unat (drop_bit 2 ((word_of_nat (length x) :: uint) * 3)) = 3 * k"
    and "(word_of_nat (length x) :: uint) - push_bit 2 (drop_bit 2 (word_of_nat (length x))) = 0"
proof -
  let ?w = "word_of_nat (length x) :: uint"
  have "?w * 3 = word_of_nat (12 * k)" by (simp add: assms(1))
  then have "unat (?w * 3) = 12 * k" using assms(2) by (simp only: unat_of_nat) simp
  then show "unat (drop_bit 2 (?w * 3)) = 3 * k" by (simp only: unat_drop_bit_eq) (simp add: drop_bit_eq_div)
  have "unat ?w = 4 * k" using assms by (simp only: unat_of_nat) simp
  then have "unat (drop_bit 2 ?w) = k" by (simp only: unat_drop_bit_eq) (simp add: drop_bit_eq_div)
  moreover have "unat (word_of_nat k :: uint) = k" using assms(2) by (simp only: unat_of_nat) simp
  ultimately have "drop_bit 2 ?w = word_of_nat k" by (simp only: word_unat_eq_iff)
  then show "?w - push_bit 2 (drop_bit 2 ?w) = 0" by (simp add: assms(1) push_bit_eq_mult)
qed

lemma b64_decode_whole:
  assumes "d \<noteq> []" "length d mod 3 = 0" "length d < 2 ^ 30" "length d \<le> unat m"
  shows "b64_decode (b64_groups d) m = Some (int (length d), d)"
proof -
  define k where "k = length d div 3"
  have d: "length d = 3 * k" using assms(2) by (auto simp: k_def)
  have l: "length (b64_groups d) = 4 * k" by (simp add: length_b64_groups k_def)
  have k: "12 * k < 2 ^ 32" using assms(3) d by simp
  obtain t y where t: "b64_groups d = t @ [y]" "y \<noteq> pad_char" using b64_groups_ends [OF assms(1,2)] .
  have pad: "b64_padding (b64_groups d) = Some 0" using b64_padding_count [OF t(2), of t 0] t(1) by simp
  have u: "b64_ungroups (b64_groups d) = d" using b64_ungroups_groups [OF assms(2), of "[]"] by simp
  have S: "sint (drop_bit 2 ((word_of_nat (length (b64_groups d)) :: uint) * 3)) = int (length d)"
    using b64_decode_numbers(1) [OF l k] k d by (subst sint_unat_small) simp_all
  have N: "(m < drop_bit 2 ((word_of_nat (length (b64_groups d)) :: uint) * 3)) = False"
    using b64_decode_numbers(1) [OF l k] d assms(4) by (simp only: word_less_nat_alt) simp
  have "b64_groups d \<noteq> []" using t(1) by simp
  then show ?thesis using assms(4)
    unfolding b64_decode_def Let_def b64_decode_numbers(2) [OF l k] N pad by (simp add: u S)
qed

lemma b64_decode_tail:
  assumes "length body mod 3 = 0" "length t = 1 \<or> length t = 2" "length (body @ t) < 2 ^ 30 - 2"
    "length (body @ t) + 2 \<le> unat m"
  shows "b64_decode (b64_groups body @ b64_tail t) m = Some (int (length (body @ t)), body @ t)"
proof -
  define k where "k = length body div 3 + 1"
  let ?x = "b64_groups body @ b64_tail t"
  have d: "length body = 3 * (k - 1)" "0 < k" using assms(1) by (auto simp: k_def)
  have lt: "length (b64_tail t) = 4" using assms(2) by (auto simp: b64_tail_def)
  have l: "length ?x = 4 * k" using lt by (simp add: length_b64_groups k_def)
  define p where "p = 3 - length t"
  have p: "p = 1 \<or> p = 2" "3 * k = length (body @ t) + p" using assms(2) d by (auto simp: p_def)
  have k: "12 * k < 2 ^ 32" using assms(3) p by auto
  obtain y z where z: "b64_tail t = z @ y # replicate p pad_char" "y \<noteq> pad_char"
  proof -
    have last: "b64_enc (push_bit 2 (t ! 1) AND 0x3c) \<noteq> pad_char" "b64_enc (push_bit 4 (t ! 0) AND 0x30) \<noteq> pad_char"
      by (rule b64_index(2), rule b64_masks)+
    have "\<exists>z y. b64_tail t = z @ y # replicate p pad_char \<and> y \<noteq> pad_char"
      using assms(2) last
      by (elim disjE; intro exI [of _ "butlast (take (4 - p) (b64_tail t))"] exI [of _ "last (take (4 - p) (b64_tail t))"])
        (simp_all add: b64_tail_def p_def numeral_2_eq_2)
    then show thesis using that by blast
  qed
  have pad: "b64_padding ?x = Some p" using b64_padding_count [OF z(2), of "b64_groups body @ z" p] z(1) by simp
  have U: "unat (drop_bit 2 ((word_of_nat (length ?x) :: uint) * 3)) = 3 * k" by (rule b64_decode_numbers(1) [OF l k])
  have N: "(m < drop_bit 2 ((word_of_nat (length ?x) :: uint) * 3)) = False"
    using U p assms(4) by (simp only: word_less_nat_alt) auto
  have S: "sint (drop_bit 2 ((word_of_nat (length ?x) :: uint) * 3) - word_of_nat p) = int (length (body @ t))"
  proof -
    have P: "unat (word_of_nat p :: uint) = p" using p(1) by (auto simp: unat_of_nat)
    have "unat (drop_bit 2 ((word_of_nat (length ?x) :: uint) * 3) - word_of_nat p) = length (body @ t)"
      using unat_sub_le [of "word_of_nat p" "drop_bit 2 ((word_of_nat (length ?x) :: uint) * 3)"] P U p by linarith
    then show ?thesis using assms(3) by (subst sint_unat_small) simp_all
  qed
  have parts: "take (length ?x - 4) ?x = b64_groups body" "drop (length ?x - 4) ?x = b64_tail t" "?x \<noteq> []"
    using lt by auto
  have body: "b64_ungroups (b64_groups body) = body" using b64_ungroups_groups [OF assms(1), of "[]"] by simp
  have lens: "length (body @ t) \<le> unat m" using assms(4) by simp
  show ?thesis
  proof (cases "p = 1")
    case True
    then obtain a b where t: "t = [a, b]" using assms(2) by (auto simp: p_def length_Suc_conv numeral_2_eq_2)
    show ?thesis using parts(3) lens S pad True
      unfolding b64_decode_def Let_def b64_decode_numbers(2) [OF l k] N parts body
      by (simp add: t b64_tail_def b64_index b64_tail_bits [simplified])
  next
    case False
    then have p2: "p = 2" using p(1) by simp
    then obtain a where t: "t = [a]" using assms(2) by (auto simp: p_def length_Suc_conv)
    show ?thesis using parts(3) lens S pad p2
      unfolding b64_decode_def Let_def b64_decode_numbers(2) [OF l k] N parts body
      by (simp add: t b64_tail_def b64_index b64_tail_bits [simplified])
  qed
qed

section \<open>The codecs keep the contract\<close>

definition b64_fits :: "byte list \<Rightarrow> bool" where
  "b64_fits d \<longleftrightarrow> d \<noteq> [] \<and> length d < 2 ^ 30 - 2"

lemma b64_encode_decode:
  assumes "b64_fits d" "4 * ((length d + 2) div 3) \<le> unat n"
  shows "\<exists>x. b64_encode d n = Some (int (4 * ((length d + 2) div 3)), x) \<and> length x = 4 * ((length d + 2) div 3) \<and>
    (\<forall>m. length d + 2 \<le> unat m \<longrightarrow> b64_decode x m = Some (int (length d), d))"
proof -
  define r where "r = length d mod 3"
  have d: "d \<noteq> []" "length d < 2 ^ 30" "length d < 2 ^ 30 - 2" using assms(1) by (auto simp: b64_fits_def)
  let ?body = "take (length d - r) d" and ?t = "drop (length d - r) d"
  let ?text = "b64_groups ?body @ b64_tail ?t"
  have enc: "b64_encode d n = Some (int (4 * ((length d + 2) div 3)), ?text)"
    using b64_encode_text [OF d(1,2), of n] assms(2) by (simp add: r_def)
  have t: "length ?t = r" by (simp add: r_def)
  have b: "length ?body mod 3 = 0" by (simp add: r_def minus_mod_eq_mult_div)
  have dec: "b64_decode ?text m = Some (int (length d), d)" if m: "length d + 2 \<le> unat m" for m
  proof (cases "r = 0")
    case True
    then show ?thesis using b64_decode_whole [OF d(1) _ d(2), of m] m by (simp add: r_def b64_tail_def)
  next
    case False
    then have "length ?t = 1 \<or> length ?t = 2" using t by (auto simp: r_def)
    from b64_decode_tail [OF b this, of m] show ?thesis using d(3) m by simp
  qed
  have "length ?text = 4 * ((length d + 2) div 3)"
  proof -
    define q where "q = length d div 3"
    have q: "length d = 3 * q + r" "r < 3" by (simp_all add: q_def r_def)
    have "length (b64_tail ?t) = (if r = 0 then 0 else 4)"
      unfolding b64_tail_def t using q(2) by auto
    moreover have "length (b64_groups ?body) = 4 * q" by (simp add: length_b64_groups q(1))
    moreover have "(length d + 2) div 3 = q + (if r = 0 then 0 else 1)" unfolding q(1) using q(2) by auto
    ultimately show ?thesis by simp
  qed
  then show ?thesis using enc dec by blast
qed

interpretation base64: text_codec b64_encode b64_decode b64_fits "\<lambda>d. 4 * ((length d + 2) div 3)"
  by standard (use b64_encode_decode in fastforce)

section \<open>Hexadecimal undone\<close>

lemma hex_inverse: "map hex_dec (hex_table u) = map int [0..<16]"
  by (simp add: hex_table_def HEX_ENCODE_TABLE_UPPER_def HEX_ENCODE_TABLE_LOWER_def hex_dec_def
      HEX_DECODE_TABLE_def upt_rec)

lemma hex_digit: "i < 16 \<Longrightarrow> hex_dec (hex_table u ! i) = int i"
proof -
  assume i: "i < 16"
  have "length (hex_table u) = 16" by (simp add: hex_table_def HEX_ENCODE_TABLE_UPPER_def HEX_ENCODE_TABLE_LOWER_def)
  then have "hex_dec (hex_table u ! i) = map hex_dec (hex_table u) ! i" using i by simp
  then show ?thesis using i by (simp add: hex_inverse)
qed

definition hex_text :: "bool \<Rightarrow> byte list \<Rightarrow> byte list" where
  "hex_text u d = concat (map (\<lambda>b. [hex_table u ! unat (drop_bit 4 b), hex_table u ! unat (b AND 0x0f)]) d)"

lemma nibbles:
  fixes b :: byte
  shows "unat (drop_bit 4 b) < 16" "unat (b AND 0x0f) < 16"
    "word_of_int (int (unat (drop_bit 4 b)) * 16 + int (unat (b AND 0x0f))) = b"
proof -
  have m: "unat (b AND 0x0f) = unat b mod 16"
  proof -
    have "b AND 0x0f = take_bit 4 b" by (simp add: take_bit_eq_mask mask_eq_exp_minus_1)
    then show ?thesis by (simp add: unsigned_take_bit_eq take_bit_eq_mod unat_mod)
  qed
  have q: "unat (drop_bit 4 b) = unat b div 16" by (simp only: unat_drop_bit_eq) (simp add: drop_bit_eq_div)
  have "unat b < 256" using unsigned_less [of b, where 'a = nat] by simp
  then show "unat (drop_bit 4 b) < 16" unfolding q by simp
  show "unat (b AND 0x0f) < 16" unfolding m by simp
  have "int (unat (drop_bit 4 b)) * 16 + int (unat (b AND 0x0f)) = int (unat b)"
  proof -
    have "int (unat b div 16 * 16 + unat b mod 16) = int (unat b)" by (simp only: div_mult_mod_eq)
    then show ?thesis unfolding m q by (simp only: of_nat_add of_nat_mult of_nat_numeral)
  qed
  then show "word_of_int (int (unat (drop_bit 4 b)) * 16 + int (unat (b AND 0x0f))) = b" by simp
qed

lemma length_hex_text: "length (hex_text u d) = 2 * length d"
  by (induction d) (simp_all add: hex_text_def)

lemma hex_pairs_text: "hex_pairs (hex_text u d) = d" "hex_pairs_checked (hex_text u d) = (True, d)"
proof (induction d)
  case (Cons b d)
  have t: "hex_text u (b # d) = hex_table u ! unat (drop_bit 4 b) # hex_table u ! unat (b AND 0x0f) # hex_text u d"
    by (simp add: hex_text_def)
  note dec = hex_digit [OF nibbles(1)] hex_digit [OF nibbles(2)] nibbles(3)
  show "hex_pairs (hex_text u (b # d)) = b # d"
    unfolding t hex_pairs.simps dec Cons.IH ..
  show "hex_pairs_checked (hex_text u (b # d)) = (True, b # d)"
    unfolding t hex_pairs_checked.simps dec Cons.IH by simp
qed (simp_all add: hex_text_def)

definition hex_fits :: "byte list \<Rightarrow> bool" where
  "hex_fits d \<longleftrightarrow> d \<noteq> [] \<and> length d < 2 ^ 30"

lemma unat_size: "n < 2 ^ 32 \<Longrightarrow> unat (word_of_nat n :: uint) = n"
  by (simp only: unat_of_nat) simp

lemma hex_encode_ok:
  assumes "hex_fits d" "2 * length d \<le> unat n"
  shows "hex_encode (hex_table u) d n = Some (int (2 * length d), hex_text u d)"
proof -
  have d: "d \<noteq> []" "2 * length d < 2 ^ 31" using assms(1) by (simp_all add: hex_fits_def)
  have "push_bit 1 (word_of_nat (length d) :: uint) = word_of_nat (2 * length d)" by (simp add: push_bit_eq_mult)
  then have U: "unat (push_bit 1 (word_of_nat (length d) :: uint)) = 2 * length d"
    using d(2) unat_size [of "2 * length d"] by (simp only:) simp
  then have S: "sint (push_bit 1 (word_of_nat (length d) :: uint)) = int (2 * length d)"
    using d(2) by (subst sint_unat_small) simp_all
  have N: "(n < push_bit 1 (word_of_nat (length d) :: uint)) = False"
    using U assms(2) by (simp only: word_less_nat_alt) simp
  show ?thesis unfolding hex_encode_def Let_def N hex_text_def [symmetric] length_hex_text S using assms(2) d(1) by simp
qed

lemma hex_decode_numbers:
  assumes "length x = 2 * k" "k < 2 ^ 30"
  shows "unat (drop_bit 1 (word_of_nat (length x) :: uint)) = k"
    and "(word_of_nat (length x) :: uint) - push_bit 1 (drop_bit 1 (word_of_nat (length x))) = 0"
proof -
  have "unat (word_of_nat (length x) :: uint) = 2 * k" using assms unat_size [of "2 * k"] by simp
  then show U: "unat (drop_bit 1 (word_of_nat (length x) :: uint)) = k" by (simp only: unat_drop_bit_eq) (simp add: drop_bit_eq_div)
  have "drop_bit 1 (word_of_nat (length x) :: uint) = word_of_nat k"
    using U unat_size [of k] assms(2) by (simp only: word_unat_eq_iff) simp
  then show "(word_of_nat (length x) :: uint) - push_bit 1 (drop_bit 1 (word_of_nat (length x))) = 0"
    by (simp add: assms(1) push_bit_eq_mult)
qed

lemma hex_decode_ok:
  assumes "hex_fits d" "length d \<le> unat m"
  shows "hex_decode (hex_text u d) m c = Some (int (length d), d)"
proof -
  have d: "d \<noteq> []" "length d < 2 ^ 30" using assms(1) by (simp_all add: hex_fits_def)
  note N = hex_decode_numbers [OF length_hex_text d(2), of u]
  have S: "sint (drop_bit 1 (word_of_nat (length (hex_text u d)) :: uint)) = int (length d)"
    using N(1) d(2) by (subst sint_unat_small) simp_all
  have L: "(m < drop_bit 1 (word_of_nat (length (hex_text u d)) :: uint)) = False"
    using N(1) assms(2) by (simp only: word_less_nat_alt) simp
  have "hex_text u d \<noteq> []" using d(1) length_hex_text [of u d] by auto
  then show ?thesis unfolding hex_decode_def Let_def N(2) L S hex_pairs_text by simp
qed

interpretation hex: text_codec "hex_encode (hex_table u)" "\<lambda>x m. hex_decode x m c" hex_fits "\<lambda>d. 2 * length d"
  by standard (auto simp: hex_encode_ok hex_decode_ok length_hex_text)

text \<open>The checked decoder refuses exactly the texts with a character that is no digit.\<close>

lemma hex_pairs_checked_ok:
  "length x mod 2 = 0 \<Longrightarrow> fst (hex_pairs_checked x) \<longleftrightarrow> list_all (\<lambda>c. 0 \<le> hex_dec c) x"
  by (induction x rule: hex_pairs_checked.induct) (auto split: prod.split)

definition hex_char :: "byte \<Rightarrow> bool" where
  "hex_char c \<longleftrightarrow>
     0x30 \<le> c \<and> c \<le> 0x39 \<or> 0x41 \<le> c \<and> c \<le> 0x46 \<or> 0x61 \<le> c \<and> c \<le> 0x66"

lemma HEX_DECODE_TABLE_blocks:
  "HEX_DECODE_TABLE =
     replicate 48 (- 1) @ [0, 1, 2, 3, 4, 5, 6, 7, 8, 9] @ replicate 7 (- 1) @ [10, 11, 12, 13, 14, 15] @
     replicate 26 (- 1) @ [10, 11, 12, 13, 14, 15] @ replicate 153 (- 1)"
  by code_simp

lemma hex_dec_char: "0 \<le> hex_dec c \<longleftrightarrow> hex_char c"
proof -
  have c: "unat c < 256" using unsigned_less [of c, where 'a = nat] by simp
  have pos: "0 \<le> [0, 1, 2, 3, 4, 5, 6, 7, 8, 9 :: int] ! i" if "i < 10" for i
    using that nth_mem [of i "[0, 1, 2, 3, 4, 5, 6, 7, 8, 9 :: int]"] by auto
  have pos': "0 \<le> [10, 11, 12, 13, 14, 15 :: int] ! i" if "i < 6" for i
    using that nth_mem [of i "[10, 11, 12, 13, 14, 15 :: int]"] by auto
  show ?thesis using c
    unfolding hex_dec_def hex_char_def word_le_nat_alt HEX_DECODE_TABLE_blocks nth_append
    by (auto simp: pos pos')
qed

section \<open>URL code undone\<close>

text \<open>The digit a hexadecimal character stands for, as the decoder reads it.\<close>

definition url_digit :: "byte \<Rightarrow> byte \<Rightarrow> bool" where
  "url_digit c v \<longleftrightarrow>
     (if 0x30 \<le> c \<and> c \<le> 0x39 then c - 0x30 = v
      else 0x61 \<le> c OR 0x20 \<and> c OR 0x20 \<le> 0x66 \<and> (c OR 0x20) - 0x61 + 10 = v)"

lemma url_digits: "list_all (\<lambda>i. url_digit (url_hex ! i) (word_of_nat i)) [0..<16]"
  by (simp add: url_hex_def upt_rec url_digit_def)

lemma url_digit: "unat v < 16 \<Longrightarrow> url_digit (url_hex ! unat v) v"
proof -
  assume "unat v < 16"
  then have "unat v \<in> set [0..<16]" by simp
  then have "url_digit (url_hex ! unat v) (word_of_nat (unat v))" using url_digits unfolding list_all_iff by blast
  then show ?thesis by simp
qed

lemma url_step_quoted: "url_digit c v \<Longrightarrow> url_step sw_quoted w c = (sw_quoted_second, v, [])"
  by (auto simp: url_digit_def url_step_def Let_def split: if_splits)

lemma url_step_second: "url_digit c v \<Longrightarrow> url_step sw_quoted_second w c = (sw_usual, w, [push_bit 4 w + v])"
  by (auto simp: url_digit_def url_step_def Let_def algebra_simps split: if_splits)

lemma nibbles_join: "push_bit 4 (drop_bit 4 c) + (c AND 0x0f) = (c :: byte)"
proof -
  have "push_bit 4 (drop_bit 4 c) + take_bit 4 c = c" by (rule bits_ident)
  then show ?thesis by (simp add: take_bit_eq_mask mask_eq_exp_minus_1)
qed

lemma url_run_escaped:
  "url_run sw_usual v (0x25 # url_hex ! unat (drop_bit 4 c) # url_hex ! unat (c AND 0x0f) # r) =
     (case url_run sw_usual (drop_bit 4 c) r of (s, out) \<Rightarrow> (s, c # out))"
proof -
  have "url_step sw_usual v 0x25 = (sw_quoted, v, [])" by (simp add: url_step_def)
  moreover note url_step_quoted [OF url_digit [OF nibbles(1)], of v c]
    url_step_second [OF url_digit [OF nibbles(2)], of "drop_bit 4 c" c]
  ultimately show ?thesis by (simp only: url_run.simps Let_def nibbles_join prod.case append.simps split: prod.split) simp
qed

lemma url_run_plain:
  "c \<noteq> 0x25 \<Longrightarrow> url_run sw_usual v (c # r) = (case url_run sw_usual v r of (s, out) \<Rightarrow> (s, c # out))"
  by (simp add: url_step_def)

lemma url_run_encode:
  assumes "url_escaped t 0x25"
  shows "url_run sw_usual v (url_encode_bytes t d) = (sw_usual, d)"
proof (induction d arbitrary: v)
  case (Cons c d)
  show ?case
  proof (cases "url_escaped t c")
    case True
    then show ?thesis by (simp only: url_encode_bytes.simps if_True append.simps url_run_escaped Cons.IH prod.case)
  next
    case False
    then have "c \<noteq> 0x25" using assms by auto
    with False show ?thesis
      by (simp add: url_run_plain Cons.IH del: url_run.simps)
  qed
qed simp

lemma length_url_encode_bytes: "length (url_encode_bytes t d) = length d + 2 * length (filter (url_escaped t) d)"
  by (induction d) simp_all

lemma url_percent: "url_escaped t 0x25 \<longleftrightarrow> t \<noteq> ESCAPE_REFRESH"
  by (cases t) (simp_all add: url_escaped_def)

definition url_fits :: "escape \<Rightarrow> byte list \<Rightarrow> bool" where
  "url_fits t d \<longleftrightarrow> t \<noteq> ESCAPE_REFRESH \<and> length d + 2 * length (filter (url_escaped t) d) < 2 ^ 31"

interpretation url: text_codec "\<lambda>d n. url_encode d n t" url_decode "url_fits t"
  "\<lambda>d. length d + 2 * length (filter (url_escaped t) d)"
  by standard (auto simp: url_encode_def url_decode_def url_fits_def length_url_encode_bytes url_run_encode url_percent)

section \<open>What the codecs keep\<close>

lemma b64_need_len_encode:
  assumes "length d < 2 ^ 30" "b64_encode d n = Some (r, x)" "r \<noteq> - 1"
  shows "b64_get_need_len (word_of_nat (length d)) ENCODE = r"
proof -
  have "length d mod 3 = 0 \<or> length d mod 3 = 1 \<or> length d mod 3 = 2" by auto
  then have "(word_of_nat (length d) :: uint) mod 3 = 0 \<or> (word_of_nat (length d) :: uint) mod 3 = 1 \<or>
      (word_of_nat (length d) :: uint) mod 3 = 2"
    using word_mod3 [of "length d"] assms(1) by auto
  then show ?thesis using assms(2,3)
    by (elim disjE) (simp_all add: b64_encode_def b64_get_need_len_def Let_def split: if_splits)
qed

text \<open>C15: Base64: for data of at least one byte and less than 2^30 - 2, encode stores exactly the number of
characters get_need_len announces when the block holds them, and stores nothing and returns -1 when it does not;
decode gives the data back, its padding removed, into any block of two bytes more.\<close>

theorem base64_roundtrip:
  assumes "d \<noteq> []" "length d < 2 ^ 30 - 2" "length d + 2 \<le> unat m"
  shows "\<exists>k x. k = b64_get_need_len (word_of_nat (length d)) ENCODE \<and> k = int (length x) \<and>
    b64_encode d n = (if unat n < length x then Some (- 1, []) else Some (k, x)) \<and>
    b64_decode x m = Some (int (length d), d)"
proof -
  have f: "b64_fits d" "length d < 2 ^ 30" using assms by (simp_all add: b64_fits_def)
  let ?k = "4 * ((length d + 2) div 3)"
  have big: "?k \<le> unat (0xffffffff :: uint)" using f(2) by simp
  obtain x where x: "b64_encode d 0xffffffff = Some (int ?k, x)" "length x = ?k" "b64_decode x m = Some (int (length d), d)"
    using b64_encode_decode [OF f(1) big] assms(3) by blast
  have "b64_get_need_len (word_of_nat (length d)) ENCODE = int ?k"
    by (rule b64_need_len_encode [OF f(2) x(1)]) simp
  moreover have "b64_encode d n = (if unat n < ?k then Some (- 1, []) else Some (int ?k, x))"
    using b64_encode_text [OF assms(1) f(2)] x(1) big by (simp add: not_less [symmetric])
  ultimately show ?thesis using x(2,3) by (intro exI [of _ "int ?k"] exI [of _ x]) simp
qed

lemma base64_roundtrip_witness:
  "\<exists>k x. k = b64_get_need_len 4 ENCODE \<and> k = int (length x) \<and>
    b64_encode [0x53, 0x4C, 0x00, 0xFF] 8 = (if (8 :: nat) < length x then Some (- 1, []) else Some (k, x)) \<and>
    b64_decode x 6 = Some (4, [0x53, 0x4C, 0x00, 0xFF])"
  using base64_roundtrip [of "[0x53, 0x4C, 0x00, 0xFF]" 6 8] by simp

text \<open>
  Hexadecimal: in either letter case, encode stores two characters per byte when the block holds them
(get_need_len), else it returns -1, and decode gives the data back, with and without checking.\<close>

theorem hex_roundtrip:
  assumes "d \<noteq> []" "length d < 2 ^ 30" "length d \<le> unat m"
  shows "\<exists>x. length x = 2 * length d \<and> int (length x) = hex_get_need_len (word_of_nat (length d)) ENCODE \<and>
    hex_encode (hex_table u) d n = (if unat n < length x then Some (- 1, []) else Some (int (length x), x)) \<and>
    hex_decode x m c = Some (int (length d), d)"
proof -
  have f: "hex_fits d" "2 * length d < 2 ^ 31" using assms by (simp_all add: hex_fits_def)
  have "push_bit 1 (word_of_nat (length d) :: uint) = word_of_nat (2 * length d)" by (simp add: push_bit_eq_mult)
  then have U: "unat (push_bit 1 (word_of_nat (length d) :: uint)) = 2 * length d"
    using f(2) unat_size [of "2 * length d"] by (simp only:) simp
  have "sint (push_bit 1 (word_of_nat (length d) :: uint)) = int (2 * length d)"
    using U f(2) by (subst sint_unat_small) simp_all
  then have "hex_get_need_len (word_of_nat (length d)) ENCODE = int (2 * length d)" by (simp add: hex_get_need_len_def)
  moreover have "hex_encode (hex_table u) d n = Some (- 1, [])" if "unat n < 2 * length d"
    using that U assms(1) unfolding hex_encode_def Let_def word_less_nat_alt U by simp
  ultimately show ?thesis
    using hex_encode_ok [OF f(1), of n u] hex_decode_ok [OF f(1) assms(3), of u c]
    by (intro exI [of _ "hex_text u d"]) (simp add: length_hex_text)
qed

lemma hex_roundtrip_witness:
  "\<exists>x. length x = 4 \<and> int (length x) = hex_get_need_len 2 ENCODE \<and>
    hex_encode (hex_table False) [0xAB, 0x07] 4 = (if (4 :: nat) < length x then Some (- 1, []) else Some (int (length x), x)) \<and>
    hex_decode x 2 True = Some (2, [0xAB, 0x07])"
  using hex_roundtrip [of "[0xAB, 0x07]" 2 False 4 True] by simp

text \<open>
  Hexadecimal with checking: a text of an even number of characters whose block is large enough is refused
with -2 exactly when one of its characters is not a digit 0-9, A-F or a-f; otherwise the result is its length halved.\<close>

theorem hex_decode_checks:
  assumes "x \<noteq> []" "length x = 2 * k" "k < 2 ^ 30" "k \<le> unat m"
  shows "\<exists>out. hex_decode x m True = Some (if list_all hex_char x then int k else - 2, out)"
proof -
  note N = hex_decode_numbers [OF assms(2,3)]
  have S: "sint (drop_bit 1 (word_of_nat (length x) :: uint)) = int k"
    using N(1) assms(3) by (subst sint_unat_small) simp_all
  have L: "(m < drop_bit 1 (word_of_nat (length x) :: uint)) = False"
    using N(1) assms(4) by (simp only: word_less_nat_alt) simp
  have "fst (hex_pairs_checked x) \<longleftrightarrow> list_all hex_char x"
    using hex_pairs_checked_ok [of x] assms(2) by (simp add: hex_dec_char)
  then show ?thesis using assms(1) unfolding hex_decode_def Let_def N(2) L S
    by (cases "hex_pairs_checked x") simp
qed

lemma hex_decode_checks_witness:
  "\<exists>out. hex_decode [0x61, 0x47] 1 True = Some (- 2, out)"
  using hex_decode_checks [of "[0x61, 0x47]" 1 1] by (simp add: hex_char_def)

text \<open>C16: URL code: with every table but the refresh table, decode gives back what encode stored, for data whose
text is shorter than 2^31, whatever the bytes; the text has three characters for each byte the counting call
(no output block) counts and one for each other byte, and encode uses no more of the block.\<close>

theorem url_roundtrip:
  assumes "t \<noteq> ESCAPE_REFRESH" "int (length d) + 2 * fst (url_encode_count d t) \<le> int (unat n)"
    "int (length d) + 2 * fst (url_encode_count d t) < 2 ^ 31" "length d \<le> unat m"
  shows "\<exists>x. int (length x) = int (length d) + 2 * fst (url_encode_count d t) \<and>
    url_encode d n t = Some (1, x) \<and> url_decode x m = Some (1, d)"
proof (intro exI conjI)
  let ?x = "url_encode_bytes t d"
  show l: "int (length ?x) = int (length d) + 2 * fst (url_encode_count d t)"
    by (simp add: url_encode_count_def length_url_encode_bytes Let_def)
  have "length ?x \<le> unat n" using assms(2) l by linarith
  then show "url_encode d n t = Some (1, ?x)" by (simp add: url_encode_def Let_def)
  have "url_run sw_usual 0 ?x = (sw_usual, d)" using assms(1) by (simp add: url_run_encode url_percent)
  then show "url_decode ?x m = Some (1, d)" using assms(3,4) l by (simp add: url_decode_def)
qed

lemma url_roundtrip_witness:
  "\<exists>x. int (length x) = 8 \<and> url_encode [0x25, 0x34, 0x20, 0x7e] 8 ESCAPE_URI = Some (1, x) \<and>
     url_decode x 4 = Some (1, [0x25, 0x34, 0x20, 0x7e])"
  using url_roundtrip [of ESCAPE_URI "[0x25, 0x34, 0x20, 0x7e]" 8 4]
  by (simp add: url_encode_count_def url_escaped_def)

text \<open>No two data have the same text.\<close>

lemmas codec_injective = base64.encode_inj hex.encode_inj url.encode_inj

text \<open>The refresh table lets the percent sign through: two different data have the same text.\<close>

lemma url_refresh_ambiguous:
  "url_encode [0x25, 0x32, 0x30] 3 ESCAPE_REFRESH = url_encode [0x20] 3 ESCAPE_REFRESH"
  "url_decode [0x25, 0x32, 0x30] 3 = Some (1, [0x20])"
  by (simp_all add: url_encode_def url_escaped_def url_hex_def url_decode_def url_step_def)

end
