(* ===== verification/SL_StringSearch.thy ===== *)
theory SL_StringSearch
  imports SL_Prelude
begin

text \<open>
  The substring searches of \<^verbatim>\<open>include/SL_Utility_StringSearcher.h\<close>:
  \<^verbatim>\<open>SL_Utility_KMPStringSearcher\<close>, with its table \<^verbatim>\<open>next_\<close>, and
  \<^verbatim>\<open>SL_Utility_StringSearcher::search\<close> (the macro \<^verbatim>\<open>sl_strstr\<close>), which compares the first
  eight, four or two bytes of the pattern at once.

  Positions and sizes are \<open>nat\<close>: none of them exceeds the size of a text, which the interface
  bounds by \<open>2 ^ 32\<close>.  The result is \<open>None\<close> when an access leaves a block (or the fallback loop of
  the table does not end), \<open>Some None\<close> for a null pointer, \<open>Some (Some k)\<close> for a pointer \<open>k\<close> bytes
  into the text.
\<close>

section \<open>Occurrences\<close>

definition occurs :: "'a list \<Rightarrow> 'a list \<Rightarrow> nat \<Rightarrow> bool" where
  "occurs t p k \<longleftrightarrow> k + length p \<le> length t \<and> take (length p) (drop k t) = p"

text \<open>The specification of a search: the first position of the pattern.\<close>

definition first_occurrence :: "'a list \<Rightarrow> 'a list \<Rightarrow> nat option" where
  "first_occurrence t p = find (occurs t p) [0..<Suc (length t)]"

lemma find_upt_eqI:
  assumes "P k" "k < n" "\<And>j. j < k \<Longrightarrow> \<not> P j"
  shows "find P [0..<n] = Some k"
  using assms by (auto simp: find_Some_iff intro!: exI [of _ k])

lemma find_upt_NoneI: "(\<And>j. j < n \<Longrightarrow> \<not> P j) \<Longrightarrow> find P [0..<n] = None"
  by (auto simp: find_None_iff)

section \<open>The search with a table of borders\<close>

partial_function (option) kmp_back :: "nat list \<Rightarrow> byte list \<Rightarrow> byte \<Rightarrow> nat \<Rightarrow> nat option" where
  "kmp_back next_tab search c j =
     (if j > 0 then do {
        s \<leftarrow> arr_get search j;
        if c \<noteq> s then do { j1 \<leftarrow> arr_get next_tab (j - 1); kmp_back next_tab search c j1 } else Some j }
      else Some j)"

text \<open>The round of both loops at one character: fall back, then compare once more.\<close>

definition kmp_round :: "nat list \<Rightarrow> byte list \<Rightarrow> byte \<Rightarrow> nat \<Rightarrow> nat option" where
  "kmp_round next_tab search c j = do {
     j1 \<leftarrow> kmp_back next_tab search c j;
     s \<leftarrow> arr_get search j1;
     Some (if c = s then j1 + 1 else j1) }"

function kmp_table :: "byte list \<Rightarrow> nat \<Rightarrow> nat \<Rightarrow> nat \<Rightarrow> nat list \<Rightarrow> nat list option" where
  "kmp_table search len i j next_tab =
     (if i < len then do {
        c \<leftarrow> arr_get search i;
        j1 \<leftarrow> kmp_round next_tab search c j;
        next_tab1 \<leftarrow> arr_set next_tab i j1;
        kmp_table search len (i + 1) j1 next_tab1 }
      else Some next_tab)"
  by pat_completeness auto
termination by (relation "measure (\<lambda>(_, len, i, _). len - i)") auto

definition kmp_init :: "byte list \<Rightarrow> nat \<Rightarrow> nat list option" where
  "kmp_init search len = do {
     next_tab \<leftarrow> arr_set (replicate len 0) 0 0;
     kmp_table search len 1 0 next_tab }"

function kmp_scan :: "nat list \<Rightarrow> byte list \<Rightarrow> nat \<Rightarrow> byte list \<Rightarrow> nat \<Rightarrow> nat \<Rightarrow> nat \<Rightarrow> int option option" where
  "kmp_scan next_tab str str_len search search_len i j =
     (if i < str_len then do {
        c \<leftarrow> arr_get str i;
        j1 \<leftarrow> kmp_round next_tab search c j;
        if j1 = search_len then Some (Some (int i - int j1 + 1))
        else kmp_scan next_tab str str_len search search_len (i + 1) j1 }
      else Some None)"
  by pat_completeness auto
termination by (relation "measure (\<lambda>(_, _, str_len, _, _, i, _). str_len - i)") auto

definition kmp_search :: "nat list \<Rightarrow> byte list \<Rightarrow> nat \<Rightarrow> byte list \<Rightarrow> nat \<Rightarrow> int option option" where
  "kmp_search next_tab str str_len search search_len = kmp_scan next_tab str str_len search search_len 0 0"

declare kmp_table.simps [simp del] kmp_scan.simps [simp del]

subsection \<open>Borders\<close>

text \<open>\<open>ends t i p n\<close>: the first \<open>n\<close> characters of \<open>p\<close> are the last of the first \<open>i\<close> of \<open>t\<close>.\<close>

definition ends :: "'a list \<Rightarrow> nat \<Rightarrow> 'a list \<Rightarrow> nat \<Rightarrow> bool" where
  "ends t i p n \<longleftrightarrow> n \<le> i \<and> i \<le> length t \<and> n \<le> length p \<and> (\<forall>k<n. p ! k = t ! (i - n + k))"

definition longest_end :: "'a list \<Rightarrow> nat \<Rightarrow> 'a list \<Rightarrow> nat \<Rightarrow> bool" where
  "longest_end t i p n \<longleftrightarrow> ends t i p n \<and> (\<forall>k. ends t i p k \<longrightarrow> k \<le> n)"

lemma ends_0 [simp]: "i \<le> length t \<Longrightarrow> ends t i p 0"
  by (simp add: ends_def)

lemma ends_Suc:
  "ends t (Suc i) p (Suc n) \<longleftrightarrow> ends t i p n \<and> i < length t \<and> n < length p \<and> p ! n = t ! i"
  by (auto simp: ends_def less_Suc_eq)

text \<open>Shorter ends are the borders of the longer one; the text that a pattern is searched in while its
table is built is the pattern without its first character.\<close>

lemma ends_border:
  assumes "ends t i p j" "n < j"
  shows "ends t i p n \<longleftrightarrow> ends (tl p) (j - 1) p n"
proof -
  have j: "j \<le> i" "i \<le> length t" "j \<le> length p" "\<And>k. k < j \<Longrightarrow> p ! k = t ! (i - j + k)"
    using assms(1) by (auto simp: ends_def)
  have "t ! (i - n + k) = tl p ! (j - 1 - n + k)" if "k < n" for k
  proof -
    have "p ! (j - n + k) = t ! (i - j + (j - n + k))" using j(4) assms(2) that by simp
    moreover have "i - j + (j - n + k) = i - n + k" using assms(2) j(1) by simp
    moreover have "tl p ! (j - 1 - n + k) = p ! (j - n + k)"
      using assms(2) that j(3) by (subst nth_tl) (auto simp: Suc_diff_Suc)
    ultimately show ?thesis by simp
  qed
  then show ?thesis using j assms(2) by (auto simp: ends_def)
qed

lemma ends_occurs: "ends t i p (length p) \<longleftrightarrow> length p \<le> i \<and> i \<le> length t \<and> occurs t p (i - length p)"
  by (auto simp: ends_def occurs_def list_eq_iff_nth_eq)

definition table_ok :: "nat list \<Rightarrow> byte list \<Rightarrow> nat \<Rightarrow> bool" where
  "table_ok next_tab p n \<longleftrightarrow> n \<le> length next_tab \<and> (\<forall>k<n. longest_end (tl p) k p (next_tab ! k))"

text \<open>The fallback loop ends, at the longest end that the next character extends.\<close>

lemma kmp_back_longest:
  assumes "table_ok nt p l" "l < length p" "i < length t" "j \<le> l" "ends t i p j"
    "\<And>n. ends t i p n \<Longrightarrow> n < length p \<Longrightarrow> p ! n = t ! i \<Longrightarrow> n \<le> j"
  shows "\<exists>j'. kmp_back nt p (t ! i) j = Some j' \<and> j' \<le> j \<and> ends t i p j' \<and> (j' = 0 \<or> p ! j' = t ! i) \<and>
    (\<forall>n. ends t i p n \<and> n < length p \<and> p ! n = t ! i \<longrightarrow> n \<le> j')"
  using assms(4,5,6)
proof (induction j rule: less_induct)
  case (less j)
  have j: "j < length p" using less.prems(1) assms(2) by simp
  show ?case
  proof (cases "j = 0 \<or> p ! j = t ! i")
    case True
    then have "kmp_back nt p (t ! i) j = Some j"
      using j by (subst kmp_back.simps) (auto simp: arr_get_def)
    then show ?thesis using True less.prems(2,3) by blast
  next
    case False
    define k where "k = nt ! (j - 1)"
    have L: "longest_end (tl p) (j - 1) p k" and nt: "j - 1 < length nt"
      using assms(1) less.prems(1) False by (auto simp: table_ok_def k_def)
    have k: "k < j" using L False by (auto simp: longest_end_def ends_def)
    have b: "kmp_back nt p (t ! i) j = kmp_back nt p (t ! i) k"
      using False j nt by (subst kmp_back.simps) (auto simp: arr_get_def k_def)
    have e: "ends t i p k" using ends_border [OF less.prems(2) k] L by (simp add: longest_end_def)
    have m: "n \<le> k" if "ends t i p n" "n < length p" "p ! n = t ! i" for n
    proof -
      have "n < j" using less.prems(3) [OF that] that(3) False by (cases "n = j") auto
      then show ?thesis using ends_border [OF less.prems(2), of n] that(1) L by (auto simp: longest_end_def)
    qed
    have "k \<le> l" using k less.prems(1) by simp
    then obtain j' where "kmp_back nt p (t ! i) k = Some j'" "j' \<le> k" "ends t i p j'" "j' = 0 \<or> p ! j' = t ! i"
        "\<forall>n. ends t i p n \<and> n < length p \<and> p ! n = t ! i \<longrightarrow> n \<le> j'"
      using less.IH [OF k _ e m] by blast
    then show ?thesis unfolding b using k by (intro exI [of _ j']) simp
  qed
qed

lemma kmp_round_longest:
  assumes "table_ok nt p l" "l < length p" "longest_end t i p j" "j \<le> l" "i < length t"
  shows "\<exists>j'. kmp_round nt p (t ! i) j = Some j' \<and> longest_end t (Suc i) p j'"
proof -
  obtain j' where b: "kmp_back nt p (t ! i) j = Some j'" "j' \<le> j" "ends t i p j'" "j' = 0 \<or> p ! j' = t ! i"
      "\<And>n. ends t i p n \<Longrightarrow> n < length p \<Longrightarrow> p ! n = t ! i \<Longrightarrow> n \<le> j'"
    using kmp_back_longest [OF assms(1,2,5,4)] assms(3) unfolding longest_end_def by blast
  have j': "j' < length p" using b(2) assms(2,4) by simp
  define r where "r = (if t ! i = p ! j' then j' + 1 else j')"
  have "kmp_round nt p (t ! i) j = Some r"
    using b(1) j' by (simp add: kmp_round_def arr_get_def r_def)
  moreover have "ends t (Suc i) p r"
    using b(3,4) assms(5) j' by (auto simp: r_def ends_Suc)
  moreover have "k \<le> r" if "ends t (Suc i) p k" for k
  proof (cases k)
    case (Suc n)
    then have n: "ends t i p n" "n < length p" "p ! n = t ! i" using that by (simp_all add: ends_Suc)
    then have "n \<le> j'" using b(5) by blast
    then show ?thesis using Suc n(3) b(4) by (auto simp: r_def)
  qed simp
  ultimately show ?thesis by (auto simp: longest_end_def)
qed

lemma table_ok_update:
  assumes "table_ok nt p i" "i < length nt" "longest_end (tl p) i p j"
  shows "table_ok (nt[i := j]) p (Suc i)"
  using assms by (auto simp: table_ok_def nth_list_update less_Suc_eq)

lemma kmp_table_ok:
  assumes "0 < i" "i \<le> length p" "length nt = length p" "table_ok nt p i" "longest_end (tl p) (i - 1) p j"
  shows "\<exists>nt'. kmp_table p (length p) i j nt = Some nt' \<and> length nt' = length p \<and> table_ok nt' p (length p)"
  using assms
proof (induction p "length p" i j nt rule: kmp_table.induct)
  case (1 p i j nt)
  show ?case
  proof (cases "i < length p")
    case False
    then have "i = length p" using "1.prems"(2) by simp
    then show ?thesis using "1.prems" by (subst kmp_table.simps) simp
  next
    case True
    have j: "j \<le> i" using "1.prems"(5) by (auto simp: longest_end_def ends_def)
    have c: "tl p ! (i - 1) = p ! i" using True "1.prems"(1) by (subst nth_tl) auto
    have "i - 1 < length (tl p)" using True "1.prems"(1) by simp
    from kmp_round_longest [OF "1.prems"(4) True "1.prems"(5) j this] obtain j' where
      r: "kmp_round nt p (p ! i) j = Some j'" and l: "longest_end (tl p) i p j'"
      using "1.prems"(1) unfolding c by auto
    have u: "table_ok (nt[i := j']) p (i + 1)" using table_ok_update [OF "1.prems"(4) _ l] True "1.prems"(3) by simp
    have "\<exists>nt'. kmp_table p (length p) (i + 1) j' (nt[i := j']) = Some nt' \<and> length nt' = length p \<and>
        table_ok nt' p (length p)"
      by (rule "1.hyps" [OF True _ r]) (use True u l "1.prems"(3) in \<open>simp_all add: arr_get_def arr_set_def\<close>)
    then show ?thesis using True r "1.prems"(3) by (subst kmp_table.simps) (simp add: arr_get_def arr_set_def)
  qed
qed

lemma kmp_init_ok:
  assumes "p \<noteq> []"
  shows "\<exists>nt. kmp_init p (length p) = Some nt \<and> length nt = length p \<and> table_ok nt p (length p)"
proof -
  let ?nt = "replicate (length p) (0 :: nat)"
  have "longest_end (tl p) 0 p 0" by (auto simp: longest_end_def ends_def)
  moreover from this have "table_ok ?nt p 1" using assms by (auto simp: table_ok_def Suc_le_eq)
  ultimately have "\<exists>nt. kmp_table p (length p) 1 0 ?nt = Some nt \<and> length nt = length p \<and> table_ok nt p (length p)"
    using assms by (intro kmp_table_ok) (simp_all add: Suc_le_eq)
  moreover have "arr_set ?nt 0 0 = Some ?nt" using assms by (cases p) (simp_all add: arr_set_def)
  ultimately show ?thesis by (simp add: kmp_init_def)
qed

lemma kmp_scan_first:
  assumes "table_ok nt p (length p)" "p \<noteq> []" "i \<le> length t" "longest_end t i p j" "j < length p"
    "\<And>k. k + length p \<le> i \<Longrightarrow> \<not> occurs t p k"
  shows "kmp_scan nt t (length t) p (length p) i j = Some (map_option int (first_occurrence t p))"
  using assms(3-)
proof (induction "length t - i" arbitrary: i j rule: less_induct)
  case less
  show ?case
  proof (cases "i < length t")
    case False
    then have "i = length t" using less.prems(1) by simp
    then have "\<not> occurs t p k" for k using less.prems(4) [of k] by (auto simp: occurs_def)
    then have "first_occurrence t p = None" unfolding first_occurrence_def by (intro find_upt_NoneI)
    then show ?thesis using False by (subst kmp_scan.simps) simp
  next
    case True
    define l where "l = length p - 1"
    have l: "l < length p" "j \<le> l" "table_ok nt p l"
      using assms(1,2) less.prems(3) by (auto simp: l_def table_ok_def)
    obtain j' where r: "kmp_round nt p (t ! i) j = Some j'" "longest_end t (Suc i) p j'"
      using kmp_round_longest [OF l(3,1) less.prems(2) l(2) True] by blast
    have j': "ends t (Suc i) p j'" "j' \<le> length p" using r(2) by (auto simp: longest_end_def ends_def)
    have step: "kmp_scan nt t (length t) p (length p) i j =
        (if j' = length p then Some (Some (int i - int j' + 1)) else kmp_scan nt t (length t) p (length p) (i + 1) j')"
      using True r(1) by (subst kmp_scan.simps) (simp add: arr_get_def)
    show ?thesis
    proof (cases "j' = length p")
      case True
      then have o: "length p \<le> Suc i" "occurs t p (Suc i - length p)" using j'(1) by (simp_all add: ends_occurs)
      have "\<not> occurs t p k" if "k < Suc i - length p" for k using less.prems(4) [of k] that by simp
      then have "first_occurrence t p = Some (Suc i - length p)"
        unfolding first_occurrence_def using o(2) by (intro find_upt_eqI) (auto simp: occurs_def)
      then show ?thesis unfolding step using True o(1) by simp
    next
      case False
      have no: "\<not> occurs t p k" if "k + length p \<le> i + 1" for k
      proof (cases "k + length p = i + 1")
        case True
        have "\<not> ends t (Suc i) p (length p)"
          using r(2) False j'(2) by (auto simp: longest_end_def dest: spec [of _ "length p"])
        moreover have "Suc i - length p = k" "length p \<le> Suc i" using True by auto
        ultimately show ?thesis using \<open>i < length t\<close> by (simp add: ends_occurs)
      qed (use that less.prems(4) in simp)
      show ?thesis unfolding step using False True j'(2) r(2) no
        by (simp add: less.hyps)
    qed
  qed
qed

section \<open>The search by words\<close>

text \<open>
  The block of the text may be longer than the text: \<open>str\<close> is the block, \<open>str_len\<close> the size that is
  given.  The macros \<^verbatim>\<open>COMPARE_INT64\<close>, \<^verbatim>\<open>COMPARE_INT32\<close>, \<^verbatim>\<open>COMPARE_INT16\<close> and \<^verbatim>\<open>COMPARE_CHAR\<close>
  compare \<open>w\<close> = 8, 4, 2 and 1 bytes.  \<open>scan\<close> is a row of them: it ends with a hit, or moves \<open>i\<close>
  past the row.
\<close>

definition compare_word :: "nat \<Rightarrow> byte list \<Rightarrow> byte list \<Rightarrow> nat \<Rightarrow> bool option" where
  "compare_word w str search i = do { a \<leftarrow> mem_get str i w; b \<leftarrow> mem_get search 0 w; Some (a = b) }"

fun scan :: "nat \<Rightarrow> byte list \<Rightarrow> byte list \<Rightarrow> nat \<Rightarrow> nat \<Rightarrow> (bool \<times> nat) option" where
  "scan w str search 0 i = Some (False, i)"
| "scan w str search (Suc n) i = do {
     hit \<leftarrow> compare_word w str search i;
     if hit then Some (True, i) else scan w str search n (i + 1) }"

text \<open>The loop of sixteen comparisons a time, then the switch over what is left.\<close>

fun scan_trips :: "nat \<Rightarrow> byte list \<Rightarrow> byte list \<Rightarrow> nat \<Rightarrow> nat \<Rightarrow> (bool \<times> nat) option" where
  "scan_trips w str search 0 i = Some (False, i)"
| "scan_trips w str search (Suc trip_count) i = do {
     (hit, i1) \<leftarrow> scan w str search 16 i;
     if hit then Some (True, i1) else scan_trips w str search trip_count i1 }"

definition scan_text :: "nat \<Rightarrow> byte list \<Rightarrow> nat \<Rightarrow> byte list \<Rightarrow> nat \<Rightarrow> (bool \<times> nat) option" where
  "scan_text w str str_len search i = do {
     (hit, i1) \<leftarrow> scan_trips w str search ((str_len - i) div 16) i;
     if hit then Some (True, i1)
     else let rest = str_len - i1 in
       if w \<le> rest \<and> rest \<le> 15 then scan w str search (rest - w + 1) i1 else Some (False, i1) }"

text \<open>The bytes after the first word: the position of the last one when all are equal.\<close>

function match_rest :: "byte list \<Rightarrow> byte list \<Rightarrow> nat \<Rightarrow> nat \<Rightarrow> nat option option" where
  "match_rest str search k j = do {
     a \<leftarrow> arr_get str k;
     b \<leftarrow> arr_get search j;
     if a = b then if j + 1 = length search then Some (Some k) else match_rest str search (k + 1) (j + 1)
     else Some None }"
  by pat_completeness auto
termination
  by (relation "measure (\<lambda>(_, search, _, j). length search - j)") (auto simp: arr_get_def split: if_splits)

declare match_rest.simps [simp del]

lemma scan_mono: "scan w str search n i = Some (hit, i1) \<Longrightarrow> i \<le> i1 \<and> (hit \<longrightarrow> i1 < i + n) \<and> (\<not> hit \<longrightarrow> i1 = i + n)"
  by (induction n arbitrary: i) (fastforce simp: bind_eq_Some_conv split: if_splits)+

lemma scan_trips_mono: "scan_trips w str search n i = Some (hit, i1) \<Longrightarrow> i \<le> i1"
proof (induction n arbitrary: i)
  case (Suc n)
  then obtain h i2 where s: "scan w str search 16 i = Some (h, i2)"
      and r: "(if h then Some (True, i2) else scan_trips w str search n i2) = Some (hit, i1)"
    by (auto simp: bind_eq_Some_conv)
  from scan_mono [OF s] Suc.IH [of i2] r show ?case by (auto split: if_splits)
qed simp

lemma scan_text_mono: "scan_text w str n search i = Some (hit, i1) \<Longrightarrow> i \<le> i1"
  by (auto simp: scan_text_def bind_eq_Some_conv Let_def split: if_splits dest!: scan_trips_mono scan_mono)

text \<open>Patterns longer than a word: after a hit whose remaining bytes differ the scan goes on past the word.\<close>

function search_long :: "nat \<Rightarrow> byte list \<Rightarrow> nat \<Rightarrow> byte list \<Rightarrow> nat \<Rightarrow> nat option option" where
  "search_long w str str_len search i = do {
     (hit, i1) \<leftarrow> scan_text w str str_len search i;
     if \<not> hit then Some None
     else if str_len \<le> i1 + w then Some None
     else do {
       r \<leftarrow> match_rest str search (i1 + w) w;
       case r of
         Some k \<Rightarrow> Some (if k < str_len then Some (k + 1 - length search) else None)
       | None \<Rightarrow> search_long w str str_len search (i1 + w + 1) } }"
  by pat_completeness auto
termination
  by (relation "measure (\<lambda>(_, _, str_len, _, i). str_len - i)") (auto dest!: scan_text_mono)

declare search_long.simps [simp del]

text \<open>Patterns of one word.\<close>

definition search_word :: "nat \<Rightarrow> byte list \<Rightarrow> nat \<Rightarrow> byte list \<Rightarrow> nat option option" where
  "search_word w str str_len search = do {
     (hit, i) \<leftarrow> scan_text w str str_len search 0;
     Some (if hit then Some i else None) }"

definition search_long_int64 :: "byte list \<Rightarrow> nat \<Rightarrow> byte list \<Rightarrow> nat option option" where
  "search_long_int64 str str_len search = search_long 8 str str_len search 0"

definition search_word_int64 :: "byte list \<Rightarrow> nat \<Rightarrow> byte list \<Rightarrow> nat option option" where
  "search_word_int64 = search_word 8"

definition search_long_int32 :: "byte list \<Rightarrow> nat \<Rightarrow> byte list \<Rightarrow> nat option option" where
  "search_long_int32 str str_len search = search_long 4 str str_len search 0"

definition search_word_int32 :: "byte list \<Rightarrow> nat \<Rightarrow> byte list \<Rightarrow> nat option option" where
  "search_word_int32 = search_word 4"

definition search_long_int16 :: "byte list \<Rightarrow> nat \<Rightarrow> byte list \<Rightarrow> nat option option" where
  "search_long_int16 str str_len search = search_long 2 str str_len search 0"

definition search_word_int16 :: "byte list \<Rightarrow> nat \<Rightarrow> byte list \<Rightarrow> nat option option" where
  "search_word_int16 = search_word 2"

definition search_char :: "byte list \<Rightarrow> nat \<Rightarrow> byte list \<Rightarrow> nat option option" where
  "search_char = search_word 1"

definition sl_strstr :: "byte list \<Rightarrow> nat \<Rightarrow> byte list \<Rightarrow> nat option option" where
  "sl_strstr str str_len search =
     (let search_len = length search in
      if str_len = 0 \<or> search_len = 0 \<or> str_len < search_len then Some None
      else if search_len > 8 then search_long_int64 str str_len search
      else if search_len = 8 then search_word_int64 str str_len search
      else if search_len > 4 then search_long_int32 str str_len search
      else if search_len = 4 then search_word_int32 str str_len search
      else if search_len > 2 then search_long_int16 str str_len search
      else if search_len = 2 then search_word_int16 str str_len search
      else search_char str str_len search)"

section \<open>What the searches find\<close>

definition word_hit :: "nat \<Rightarrow> byte list \<Rightarrow> byte list \<Rightarrow> nat \<Rightarrow> bool" where
  "word_hit w str p k \<longleftrightarrow> take w (drop k str) = take w p"

lemma scan_add:
  "scan w str p (m + n) i = do { (hit, j) \<leftarrow> scan w str p m i; if hit then Some (True, j) else scan w str p n j }"
proof (induction m arbitrary: i)
  case (Suc m)
  show ?case by (cases "compare_word w str p i") (simp_all add: Suc)
qed simp

lemma scan_trips_scan: "scan_trips w str p n i = scan w str p (16 * n) i"
proof (induction n arbitrary: i)
  case (Suc n)
  have "16 * Suc n = 16 + 16 * n" by simp
  then show ?case by (simp only: scan_trips.simps Suc scan_add)
qed simp

lemma scan_find:
  assumes "n = 0 \<or> i + n + w \<le> Suc (length str)" "w \<le> length p"
  shows "scan w str p n i =
    Some (case find (word_hit w str p) [i..<i + n] of Some k \<Rightarrow> (True, k) | None \<Rightarrow> (False, i + n))"
  using assms(1)
proof (induction n arbitrary: i)
  case (Suc n)
  have c: "compare_word w str p i = Some (word_hit w str p i)"
    using Suc.prems assms(2) by (simp add: compare_word_def mem_get_def word_hit_def)
  have e: "Suc i + n = i + Suc n" by simp
  have u: "[i..<i + Suc n] = i # [Suc i..<i + Suc n]" by (simp add: upt_rec)
  show ?case
  proof (cases "word_hit w str p i")
    case False
    have "n = 0 \<or> Suc i + n + w \<le> Suc (length str)" using Suc.prems by simp
    from Suc.IH [OF this] show ?thesis using False c unfolding e u
      by (simp add: add_Suc_right [of i 0] del: upt_Suc add_Suc_right)
  qed (simp add: c u del: upt_Suc add_Suc_right)
qed simp

text \<open>The positions that are compared: a last short row is left out when it has no room for a word.\<close>

definition scan_limit :: "nat \<Rightarrow> nat \<Rightarrow> nat" where
  "scan_limit w n = (if n mod 16 < w then n - n mod 16 else n - w + 1)"

lemma find_append: "find P (xs @ ys) = (case find P xs of Some x \<Rightarrow> Some x | None \<Rightarrow> find P ys)"
  by (induction xs) simp_all

lemma scan_text_find:
  assumes "n + w \<le> Suc (length str)" "w \<le> length p" "0 < w"
  shows "scan_text w str n p 0 =
    Some (case find (word_hit w str p) [0..<scan_limit w n] of Some k \<Rightarrow> (True, k) | None \<Rightarrow> (False, scan_limit w n))"
proof -
  define q r where "q = 16 * (n div 16)" and "r = n mod 16"
  have n: "n = q + r" "r < 16" by (simp_all add: q_def r_def)
  have lim: "scan_limit w n = (if r < w then n - r else n - w + 1)" by (simp add: scan_limit_def r_def)
  have t: "scan w str p q 0 = Some (case find (word_hit w str p) [0..<q] of Some k \<Rightarrow> (True, k) | None \<Rightarrow> (False, q))"
    using scan_find [of q 0 w str p] assms n unfolding add_0 by simp
  have T: "scan_text w str n p 0 = do {
      (hit, i1) \<leftarrow> scan w str p q 0;
      if hit then Some (True, i1)
      else if w \<le> n - i1 \<and> n - i1 \<le> 15 then scan w str p (n - i1 - w + 1) i1 else Some (False, i1) }"
    unfolding scan_text_def scan_trips_scan q_def Let_def diff_zero ..
  have nq: "n - q = r" "r \<le> 15" using n by simp_all
  show ?thesis
  proof (cases "find (word_hit w str p) [0..<q]")
    case (Some k)
    have "q \<le> scan_limit w n" using n unfolding lim by auto
    then have "[0..<scan_limit w n] = [0..<q] @ [q..<scan_limit w n]"
      using upt_add_eq_append [of 0 q "scan_limit w n - q"] by simp
    then show ?thesis unfolding T using Some t by (simp add: find_append)
  next
    case None
    show ?thesis
    proof (cases "w \<le> r")
      case False
      then have "scan_limit w n = q" using n unfolding lim by auto
      then show ?thesis unfolding T using None t False nq by simp
    next
      case True
      then have l: "scan_limit w n = q + (r - w + 1)" using n unfolding lim by auto
      have s: "scan w str p (r - w + 1) q =
          Some (case find (word_hit w str p) [q..<q + (r - w + 1)] of Some k \<Rightarrow> (True, k) | None \<Rightarrow> (False, q + (r - w + 1)))"
        by (rule scan_find) (use assms n True in simp_all)
      have u: "[0..<scan_limit w n] = [0..<q] @ [q..<q + (r - w + 1)]" unfolding l by (rule upt_add_eq_append) simp
      have "scan_text w str n p 0 = scan w str p (r - w + 1) q"
        unfolding T using None t True nq by (simp del: scan.simps)
      then show ?thesis unfolding s u find_append None unfolding l by (simp del: upt_Suc)
    qed
  qed
qed

lemma search_word_find:
  assumes "length p = w" "0 < w" "n + w \<le> Suc (length str)"
  shows "search_word w str n p = Some (find (\<lambda>k. take w (drop k str) = p) [0..<scan_limit w n])"
proof -
  have "word_hit w str p = (\<lambda>k. take w (drop k str) = p)" using assms(1) by (auto simp: word_hit_def fun_eq_iff)
  then show ?thesis using scan_text_find [of n w str p] assms
    by (simp add: search_word_def split: option.split)
qed

text \<open>An answer of the search for a long pattern is an occurrence.\<close>

lemma match_rest_sound:
  assumes "match_rest str p k j = Some (Some e)" "j < length p"
  shows "e = k + (length p - j - 1) \<and> e < length str \<and> take (length p - j) (drop k str) = drop j p"
  using assms
proof (induction str p k j rule: match_rest.induct)
  case (1 str p k j)
  obtain a b where ab: "arr_get str k = Some a" "arr_get p j = Some b"
    using "1.prems"(1) by (subst (asm) match_rest.simps) (auto simp: bind_eq_Some_conv)
  then have k: "k < length str" "a = str ! k" "b = p ! j" by (auto simp: arr_get_def split: if_splits)
  have eq: "a = b" using "1.prems"(1) ab by (subst (asm) match_rest.simps) (simp split: if_splits)
  have d: "drop k str = a # drop (Suc k) str" "drop j p = b # drop (Suc j) p"
    using k "1.prems"(2) by (simp_all add: Cons_nth_drop_Suc)
  show ?case
  proof (cases "j + 1 = length p")
    case True
    then have "e = k" using "1.prems"(1) ab eq by (subst (asm) match_rest.simps) simp
    moreover have "length p - j = 1" "drop (Suc j) p = []" using True by simp_all
    ultimately show ?thesis using k(1) eq d by simp
  next
    case False
    then have r: "match_rest str p (k + 1) (j + 1) = Some (Some e)"
      using "1.prems"(1) ab eq by (subst (asm) match_rest.simps) simp
    have "e = k + 1 + (length p - (j + 1) - 1) \<and> e < length str \<and> take (length p - (j + 1)) (drop (k + 1) str) = drop (j + 1) p"
      by (rule "1.IH" [OF ab eq False r]) (use False "1.prems"(2) in simp)
    moreover have "length p - j = Suc (length p - (j + 1))" using "1.prems"(2) by simp
    ultimately show ?thesis using d eq False "1.prems"(2) by simp
  qed
qed

lemma scan_hit: "scan w str p n i = Some (True, k) \<Longrightarrow> word_hit w str p k \<and> k + w \<le> length str"
  by (induction n arbitrary: i)
    (auto simp: bind_eq_Some_conv compare_word_def mem_get_def word_hit_def split: if_splits)

lemma scan_text_hit: "scan_text w str n p i = Some (True, k) \<Longrightarrow> word_hit w str p k \<and> k + w \<le> length str"
  by (auto simp: scan_text_def scan_trips_scan bind_eq_Some_conv Let_def simp del: scan.simps
      split: if_splits dest: scan_hit)

lemma search_long_sound:
  assumes "search_long w str n p i = Some (Some k)" "w < length p" "n \<le> length str"
  shows "occurs (take n str) p k"
  using assms
proof (induction w str n p i rule: search_long.induct)
  case (1 w str n p i)
  obtain i1 where s: "scan_text w str n p i = Some (True, i1)" and i1: "\<not> n \<le> i1 + w"
    using "1.prems"(1) by (subst (asm) search_long.simps) (auto simp: bind_eq_Some_conv split: if_splits)
  obtain r where r: "match_rest str p (i1 + w) w = Some r"
    using "1.prems"(1) s i1 by (subst (asm) search_long.simps) (auto simp: bind_eq_Some_conv)
  show ?case
  proof (cases r)
    case None
    then have "search_long w str n p (i1 + w + 1) = Some (Some k)"
      using "1.prems"(1) s i1 r by (subst (asm) search_long.simps) simp
    then show ?thesis using "1.IH" [OF s _ _ _ r] i1 None "1.prems"(2,3) by simp
  next
    case (Some e)
    then have e: "e < n" "k = e + 1 - length p"
      using "1.prems"(1) s i1 r by (subst (asm) search_long.simps; simp split: if_splits)+
    note m = match_rest_sound [OF r [unfolded Some] "1.prems"(2)]
    have k: "k = i1" "k + length p \<le> n" using m e "1.prems"(2) by auto
    have "take (length p) (drop i1 str) = take w (drop i1 str) @ take (length p - w) (drop (i1 + w) str)"
      using take_add [of w "length p - w" "drop i1 str"] "1.prems"(2) by (simp add: add.commute)
    also have "\<dots> = p" using scan_text_hit [OF s] m by (simp add: word_hit_def)
    finally have "take (length p) (drop i1 str) = p" .
    moreover have "length p \<le> n - i1" using k by simp
    ultimately show ?thesis using k "1.prems"(3) by (simp add: occurs_def drop_take min_absorb1)
  qed
qed

text \<open>C17: The searcher prepared by init with a pattern of at least one byte finds the first occurrence of the
pattern in any text, or reports that there is none; the loops end and no access leaves the pattern, the text or
the table.\<close>

theorem kmp_finds_first:
  assumes "p \<noteq> []"
  shows "\<exists>next_tab. kmp_init p (length p) = Some next_tab \<and>
    kmp_search next_tab t (length t) p (length p) = Some (map_option int (first_occurrence t p))"
proof -
  obtain nt where nt: "kmp_init p (length p) = Some nt" "table_ok nt p (length p)" using kmp_init_ok [OF assms] by blast
  have "longest_end t 0 p 0" by (auto simp: longest_end_def ends_def)
  then have "kmp_search nt t (length t) p (length p) = Some (map_option int (first_occurrence t p))"
    unfolding kmp_search_def using assms by (intro kmp_scan_first [OF nt(2) assms]) auto
  with nt(1) show ?thesis by blast
qed

lemma kmp_finds_first_witness:
  "\<exists>next_tab. kmp_init [1, 2, 1, 3] 4 = Some next_tab \<and>
     kmp_search next_tab [1, 2, 1, 2, 1, 3, 0] 7 [1, 2, 1, 3] 4 = Some (Some 2)"
  using kmp_finds_first [of "[1, 2, 1, 3]" "[1, 2, 1, 2, 1, 3, 0]"]
  by (simp add: first_occurrence_def occurs_def upt_rec eval_nat_numeral)

lemma sl_strstr_word:
  assumes "length p = w" "w = 1 \<or> w = 2 \<or> w = 4 \<or> w = 8" "w \<le> n"
  shows "sl_strstr str n p = search_word w str n p"
  using assms
  by (auto simp: sl_strstr_def search_word_int64_def search_word_int32_def search_word_int16_def search_char_def)

text \<open>
  Patterns of one, two, four or eight bytes: sl_strstr answers the first position below the last one it
compares where the block has the pattern, provided the block goes on for a word less one byte after the text. In
particular it finds the first occurrence in the text whenever there is one.\<close>

theorem strstr_one_word:
  assumes "length p = w" "w = 1 \<or> w = 2 \<or> w = 4 \<or> w = 8" "w \<le> length t" "length t + w \<le> Suc (length str)"
    "take (length t) str = t"
  shows "sl_strstr str (length t) p = Some (find (\<lambda>k. take w (drop k str) = p) [0..<scan_limit w (length t)]) \<and>
    (first_occurrence t p = None \<or> sl_strstr str (length t) p = Some (first_occurrence t p))"
proof -
  let ?n = "length t" and ?P = "\<lambda>k. take w (drop k str) = p"
  have w: "0 < w" using assms(2) by auto
  have s: "sl_strstr str ?n p = Some (find ?P [0..<scan_limit w ?n])"
    unfolding sl_strstr_word [OF assms(1-3)] by (rule search_word_find [OF assms(1) w assms(4)])
  have "sl_strstr str ?n p = Some (first_occurrence t p)" if f: "first_occurrence t p \<noteq> None"
  proof -
    have "drop k t = take (?n - k) (drop k str)" for k by (metis assms(5) drop_take)
    then have P: "occurs t p k \<longleftrightarrow> k + w \<le> ?n \<and> ?P k" for k
      using assms(1) by (auto simp: occurs_def min_absorb1)
    obtain k where k: "first_occurrence t p = Some k" using f by auto
    then have "occurs t p k" "\<And>j. j < k \<Longrightarrow> \<not> occurs t p j"
      unfolding first_occurrence_def by (auto simp: find_Some_iff simp del: upt_Suc)
    then have "?P k" "k + w \<le> ?n" "\<And>j. j < k \<Longrightarrow> \<not> ?P j" using P by auto
    moreover from this have "k < scan_limit w ?n" using w by (auto simp: scan_limit_def)
    ultimately have "find ?P [0..<scan_limit w ?n] = Some k" by (intro find_upt_eqI)
    then show ?thesis using s k by simp
  qed
  with s show ?thesis by blast
qed

lemma strstr_one_word_witness: "sl_strstr [9, 1, 2, 1, 2] 4 [1, 2] = Some (Some 1)"
proof -
  have n: "length [9, 1, 2, 1 :: byte] = 4" and l: "scan_limit 2 4 = 3" by (simp_all add: scan_limit_def)
  have "sl_strstr [9, 1, 2, 1, 2] (length [9, 1, 2, 1 :: byte]) [1, 2] =
      Some (find (\<lambda>k. take 2 (drop k [9, 1, 2, 1, 2 :: byte]) = [1, 2]) [0..<scan_limit 2 (length [9, 1, 2, 1 :: byte])])"
    using strstr_one_word [of "[1, 2]" 2 "[9, 1, 2, 1]" "[9, 1, 2, 1, 2]"] by simp
  then show ?thesis unfolding n l by (simp add: upt_rec)
qed

text \<open>C18: Every other pattern: a position sl_strstr answers is an occurrence of the pattern in the text.\<close>

theorem strstr_sound:
  assumes "sl_strstr str n p = Some (Some k)" "n \<le> length str"
    "length p \<noteq> 2" "length p \<noteq> 4" "length p \<noteq> 8"
  shows "occurs (take n str) p k"
proof (cases "length p = 1")
  case True
  then have "1 \<le> n" using assms(1) by (cases n) (auto simp: sl_strstr_def)
  then have "find (\<lambda>k. take 1 (drop k str) = p) [0..<scan_limit 1 n] = Some k"
    using sl_strstr_word [of p 1 n str] search_word_find [of p 1 n str] assms(1,2) True by simp
  moreover have "scan_limit 1 n = n" using \<open>1 \<le> n\<close> by (auto simp: scan_limit_def)
  ultimately have k: "k < n" "take 1 (drop k str) = p" by (auto simp: find_Some_iff)
  then have "take 1 (drop k (take n str)) = p" by (simp add: drop_take min_absorb1 Suc_le_eq)
  with k(1) show ?thesis using assms(2) True by (simp add: occurs_def)
next
  case False
  have "p \<noteq> []" using assms(1) by (auto simp: sl_strstr_def)
  then have "0 < length p" by simp
  then have "2 < length p" using False assms(3) by linarith
  then have "\<exists>w. w < length p \<and> search_long w str n p 0 = Some (Some k)"
    using assms by (auto simp: sl_strstr_def search_long_int64_def search_long_int32_def search_long_int16_def
        Let_def split: if_splits)
  then show ?thesis using search_long_sound assms(2) by blast
qed

lemma strstr_sound_witness: "occurs (take 5 [7, 1, 2, 3, 0 :: byte]) [1, 2, 3] 1"
proof -
  have "sl_strstr [7, 1, 2, 3, 0 :: byte] 5 [1, 2, 3] = Some (Some 1)" by code_simp
  from strstr_sound [OF this] show ?thesis by simp
qed

text \<open>
  A pattern that overlaps with its own first word can be missed: aab in aaab is reported absent although it
occurs at position 1, because the search goes on behind the word that matched at position 0.\<close>

theorem strstr_misses_overlap:
  assumes "a \<noteq> b"
  shows "sl_strstr [a, a, a, b] 4 [a, a, b] = Some None \<and> occurs [a, a, a, b] [a, a, b] 1"
proof
  let ?s = "[a, a, a, b]" and ?p = "[a, a, b]"
  have "scan_text 2 ?s 4 ?p 0 = Some (True, 0)" "scan_text 2 ?s 4 ?p 3 = Some (False, 3)"
    by (simp_all add: scan_text_def compare_word_def mem_get_def numeral_3_eq_3)
  moreover have "match_rest ?s ?p 2 2 = Some None"
    using assms by (subst match_rest.simps) (simp add: arr_get_def eval_nat_numeral)
  moreover have "search_long 2 ?s 4 ?p 3 = Some None"
    using calculation(2) by (subst search_long.simps) simp
  ultimately have "search_long 2 ?s 4 ?p 0 = Some None"
    by (subst search_long.simps) (simp add: numeral_2_eq_2 numeral_3_eq_3)
  then show "sl_strstr ?s 4 ?p = Some None" by (simp add: sl_strstr_def search_long_int16_def)
  show "occurs ?s ?p 1" by (simp add: occurs_def)
qed

lemma strstr_misses_overlap_witness:
  "sl_strstr [0, 0, 0, 1] 4 [0, 0, 1] = Some None \<and> occurs [0, 0, 0, 1 :: byte] [0, 0, 1] 1"
  by (rule strstr_misses_overlap) simp

text \<open>The row of sixteen comparisons reads past a text of sixteen bytes.\<close>

lemma strstr_overrun: "sl_strstr (replicate 16 0) 16 [1, 0] = None"
  by code_simp

end
