(* ===== verification/SL_CRC.thy ===== *)
theory SL_CRC
  imports SL_Prelude
begin

text \<open>
  What the cyclic checksums rest on: the shift registers of a polynomial over bits, their
  linearity, tables spanned by eight entries, and the contract of a set of tables under which four
  bytes at a time are four single bytes (locale \<open>crc_slicing\<close>).
\<close>

section \<open>Shift registers\<close>

text \<open>One bit, reflected and shifting to the left.\<close>

definition crc_shift :: "'a::len word \<Rightarrow> 'a word \<Rightarrow> 'a word" where
  "crc_shift poly c = (if bit c 0 then drop_bit 1 c XOR poly else drop_bit 1 c)"

fun crc_bits :: "'a::len word \<Rightarrow> nat \<Rightarrow> 'a word \<Rightarrow> 'a word" where
  "crc_bits poly 0 c = c"
| "crc_bits poly (Suc n) c = crc_bits poly n (crc_shift poly c)"

definition crc_shift_left :: "'a::len word \<Rightarrow> 'a word \<Rightarrow> 'a word" where
  "crc_shift_left poly c = (if bit c (LENGTH('a) - 1) then push_bit 1 c XOR poly else push_bit 1 c)"

fun crc_bits_left :: "'a::len word \<Rightarrow> nat \<Rightarrow> 'a word \<Rightarrow> 'a word" where
  "crc_bits_left poly 0 c = c"
| "crc_bits_left poly (Suc n) c = crc_bits_left poly n (crc_shift_left poly c)"

lemma crc_bits_numeral:
  "crc_bits p (numeral k) c = crc_bits p (pred_numeral k) (crc_shift p c)"
  "crc_bits_left p (numeral k) c = crc_bits_left p (pred_numeral k) (crc_shift_left p c)"
  by (simp_all add: numeral_eq_Suc)

lemma crc_bits_add: "crc_bits p (m + n) c = crc_bits p n (crc_bits p m c)"
  by (induction m arbitrary: c) simp_all

lemma crc_bits_low_zero: "take_bit n c = 0 \<Longrightarrow> crc_bits p n c = drop_bit n c"
proof (induction n arbitrary: c)
  case (Suc n)
  have b: "\<not> bit c i" if "i < Suc n" for i
    using arg_cong [OF Suc.prems, of "\<lambda>x. bit x i"] that by (simp add: bit_take_bit_iff)
  then have "crc_shift p c = drop_bit 1 c" by (simp add: crc_shift_def)
  moreover have "take_bit n (drop_bit 1 c) = 0" by (rule bit_word_eqI) (use b in \<open>auto simp: bit_simps\<close>)
  ultimately show ?case using Suc.IH [of "drop_bit 1 c"] by (simp add: drop_bit_drop_bit)
qed simp

lemma crc_bits_left_high_zero:
  fixes c :: "'a::len word"
  assumes "n \<le> LENGTH('a)" "drop_bit (LENGTH('a) - n) c = 0"
  shows "crc_bits_left p n c = push_bit n c"
  using assms
proof (induction n arbitrary: c)
  case (Suc n)
  have b: "\<not> bit c i" if "LENGTH('a) - Suc n \<le> i" for i
    using arg_cong [OF Suc.prems(2), of "\<lambda>x. bit x (i - (LENGTH('a) - Suc n))"] that by (simp add: bit_drop_bit_eq)
  then have s: "crc_shift_left p c = push_bit 1 c" by (simp add: crc_shift_left_def)
  have "\<not> bit (drop_bit (LENGTH('a) - n) (push_bit 1 c)) i" for i
    using b [of "LENGTH('a) - n + i - 1"] Suc.prems(1)
    by (simp only: bit_drop_bit_eq comp_apply bit_push_bit_iff) simp
  then have "drop_bit (LENGTH('a) - n) (push_bit 1 c) = 0" by (intro bit_word_eqI) simp
  then show ?case using Suc.IH [of "push_bit 1 c"] Suc.prems(1) s by simp
qed simp

section \<open>Linear maps of words\<close>

definition linear :: "('a::len word \<Rightarrow> 'b::len word) \<Rightarrow> bool" where
  "linear f \<longleftrightarrow> (\<forall>a b. f (a XOR b) = f a XOR f b)"

lemma linearD: "linear f \<Longrightarrow> f (a XOR b) = f a XOR f b"
  by (simp add: linear_def)

lemma linear_0: "linear f \<Longrightarrow> f 0 = 0"
  using linearD [of f 0 0] by simp

lemma linear_comp: "linear f \<Longrightarrow> linear g \<Longrightarrow> linear (\<lambda>x. f (g x))"
  by (simp add: linear_def)

lemma linear_drop_bit: "linear (drop_bit n)"
  by (simp add: linear_def)

lemma linear_push_bit: "linear (push_bit n)"
  by (simp add: linear_def)

lemma linear_crc_shift: "linear (crc_shift p)"
  unfolding linear_def crc_shift_def by (auto simp: bit_xor_iff ac_simps)

lemma linear_crc_bits: "linear (crc_bits p n)"
proof (induction n)
  case (Suc n)
  then show ?case using linear_comp [OF Suc linear_crc_shift, of p] by simp
qed (simp add: linear_def)

lemma linear_crc_shift_left: "linear (crc_shift_left p)"
  unfolding linear_def crc_shift_left_def by (auto simp: bit_xor_iff ac_simps)

lemma linear_crc_bits_left: "linear (crc_bits_left p n)"
proof (induction n)
  case (Suc n)
  then show ?case using linear_comp [OF Suc linear_crc_shift_left, of p] by simp
qed (simp add: linear_def)

section \<open>Tables spanned by the values of single bits\<close>

fun xor_span :: "'a::len word list \<Rightarrow> 'a word list" where
  "xor_span [] = [0]"
| "xor_span (b # bs) = (let t = xor_span bs in t @ map (\<lambda>x. b XOR x) t)"

lemma power_add_xor:
  assumes "i < 2 ^ n"
  shows "(word_of_nat (2 ^ n + i) :: 'a::len word) = 2 ^ n XOR word_of_nat i"
proof -
  have "\<not> bit i n" using assms by (metis bit_take_bit_iff less_irrefl take_bit_nat_eq_self_iff)
  then have "(2 ^ n :: 'a word) AND word_of_nat i = 0"
    by (intro bit_word_eqI) (auto simp: bit_and_iff bit_exp_iff bit_of_nat_iff)
  then have "(2 ^ n :: 'a word) + word_of_nat i = 2 ^ n XOR word_of_nat i" by (rule disjunctive_add_eq_xor)
  then show ?thesis by simp
qed

lemma xor_span_linear:
  assumes "linear (f :: 'a::len word \<Rightarrow> 'b::len word)"
  shows "xor_span (map (\<lambda>k. f (2 ^ k)) (rev [0..<n])) = map (\<lambda>i. f (word_of_nat i)) [0..<2 ^ n]"
proof (induction n)
  case 0
  then show ?case by (simp add: linear_0 [OF assms])
next
  case (Suc n)
  have u: "[0..<2 ^ Suc n] = [0..<2 ^ n] @ map (\<lambda>i. i + 2 ^ n) [0..<2 ^ n]"
    using upt_add_eq_append [of 0 "2 ^ n" "2 ^ n"] by (simp only: map_add_upt mult_2 power_Suc add_0)
  have "map (\<lambda>x. f (2 ^ n) XOR x) (map (\<lambda>i. f (word_of_nat i)) [0..<2 ^ n]) =
      map (\<lambda>i. f (word_of_nat i)) (map (\<lambda>i. i + 2 ^ n) [0..<2 ^ n])"
    using power_add_xor [where n = n and 'a = 'a] by (simp add: linearD [OF assms] add.commute [of _ "2 ^ n"] del: of_nat_add)
  then show ?case unfolding u by (simp add: Suc Let_def)
qed

lemma span_table:
  assumes "linear f" "t = xor_span [f 128, f 64, f 32, f 16, f 8, f 4, f 2, f 1]" "i < 256"
  shows "t ! i = f (word_of_nat i)"
proof -
  have "map (\<lambda>k. f (2 ^ k)) (rev [0..<8]) = [f 128, f 64, f 32, f 16, f 8, f 4, f 2, f 1]"
    by (simp add: upt_rec)
  then have "t = map (\<lambda>i. f (word_of_nat i)) [0..<2 ^ 8]" using xor_span_linear [OF assms(1), of 8] assms(2) by simp
  then show ?thesis using assms(3) by simp
qed

section \<open>Four bytes at a time\<close>

text \<open>The index of a byte of a register into a table.\<close>

definition low_byte :: "'a::len word \<Rightarrow> nat" where
  "low_byte c = unat (c AND 0xff)"

lemma low_byte_take_bit: "low_byte (c :: 'a::len word) = unat (take_bit 8 c)"
  by (simp add: low_byte_def take_bit_eq_mask mask_eq_exp_minus_1)

lemma low_byte_lt [simp]: "low_byte c < 256"
  using take_bit_nat_less_exp [of 8 "unat c"] by (simp only: low_byte_take_bit unsigned_take_bit_eq) simp

lemma word_of_low_byte [simp]: "word_of_nat (low_byte c) = (take_bit 8 c :: 'a::len word)"
  by (simp add: low_byte_take_bit)

lemma split_bits: "c = take_bit n c XOR push_bit n (drop_bit n (c :: 'a::len word))"
  by (rule bit_word_eqI) (auto simp: bit_simps)

lemmas split_low_byte = split_bits [of _ 8]

lemma split_bit: "c = (if bit c 0 then 1 else 0) XOR push_bit 1 (drop_bit 1 (c :: 'a::len word))"
proof -
  have "take_bit 1 c = (if bit c 0 then 1 else 0)" by (rule bit_word_eqI) (auto simp: bit_take_bit_iff bit_1_iff bit_0)
  then show ?thesis using split_bits [of c 1] by simp
qed

lemma drop_bit_twice:
  "drop_bit 8 (drop_bit 8 c) = drop_bit 16 (c :: uint)" "drop_bit 8 (drop_bit 16 c) = drop_bit 24 (c :: uint)"
  by simp_all

lemma split_bytes:
  "x = take_bit 8 x XOR push_bit 8 (take_bit 8 (drop_bit 8 x) XOR push_bit 8 (take_bit 8 (drop_bit 16 x) XOR
     push_bit 8 (drop_bit 24 (x :: uint))))"
proof -
  have "drop_bit 16 x = take_bit 8 (drop_bit 16 x) XOR push_bit 8 (drop_bit 24 x)"
    using split_low_byte [of "drop_bit 16 x"] unfolding drop_bit_twice .
  moreover have "drop_bit 8 x = take_bit 8 (drop_bit 8 x) XOR push_bit 8 (drop_bit 16 x)"
    using split_low_byte [of "drop_bit 8 x"] unfolding drop_bit_twice .
  ultimately show ?thesis using split_low_byte [of x] by (simp only: refl)
qed

lemma drop_bit_24: "take_bit 8 (drop_bit 24 c) = drop_bit 24 (c :: uint)"
  by (rule bit_word_eqI) (auto simp: bit_simps dest: bit_imp_le_length)

lemma unat_half: "unat w = (if bit w 0 then 1 else 0) + 2 * unat (drop_bit 1 (w :: 'a::len word))"
proof -
  have "unat (drop_bit 1 w) = unat w div 2" by (simp only: unat_drop_bit_eq) (simp add: drop_bit_eq_div)
  moreover have "bit w 0 \<longleftrightarrow> odd (unat w)" using bit_unsigned_iff [of w 0, where 'a = nat] by (simp add: bit_0)
  ultimately show ?thesis by simp
qed

lemma le_word_xor: "le_word (b # bs) = ucast b XOR push_bit 8 (le_word bs :: 'a::len word)"
  by (rule bit_word_eqI) (auto simp: bit_simps dest: bit_byte_lt)

text \<open>One byte with the first table, and one little-endian word with four (the macros \<^verbatim>\<open>DOLIT4\<close> and
  \<^verbatim>\<open>STEP4\<close>).\<close>

definition crc_byte :: "'a::len word list \<Rightarrow> 'a word \<Rightarrow> byte \<Rightarrow> 'a word" where
  "crc_byte t0 c b = t0 ! low_byte (c XOR ucast b) XOR drop_bit 8 c"

definition crc_word :: "uint list \<Rightarrow> uint list \<Rightarrow> uint list \<Rightarrow> uint list \<Rightarrow> uint \<Rightarrow> uint \<Rightarrow> uint" where
  "crc_word t0 t1 t2 t3 c w =
     (let c = c XOR w in
        t3 ! low_byte c XOR t2 ! low_byte (drop_bit 8 c) XOR t1 ! low_byte (drop_bit 16 c) XOR
        t0 ! unat (drop_bit 24 c))"

text \<open>
  The contract of the tables: the register map of a byte is linear and is given by the first table,
  and each other table is the one before it after eight more bits.
\<close>

locale crc_slicing =
  fixes t0 t1 t2 t3 :: "uint list" and f :: "uint \<Rightarrow> uint"
  assumes f_linear: "linear f"
    and f_high: "take_bit 8 c = 0 \<Longrightarrow> f c = drop_bit 8 c"
    and t0: "i < 256 \<Longrightarrow> t0 ! i = f (word_of_nat i)"
    and t1: "i < 256 \<Longrightarrow> t1 ! i = f (f (word_of_nat i))"
    and t2: "i < 256 \<Longrightarrow> t2 ! i = f (f (f (word_of_nat i)))"
    and t3: "i < 256 \<Longrightarrow> t3 ! i = f (f (f (f (word_of_nat i))))"
begin

lemma f_push: "take_bit 24 c = c \<Longrightarrow> f (push_bit 8 c) = c"
proof -
  assume c: "take_bit 24 c = c"
  have "take_bit 8 (push_bit 8 c) = 0" by (rule bit_word_eqI) (auto simp: bit_simps)
  then have "f (push_bit 8 c) = drop_bit 8 (push_bit 8 c)" by (rule f_high)
  also have "\<dots> = take_bit 24 c" by (rule bit_word_eqI) (auto simp: bit_simps)
  finally show ?thesis unfolding c .
qed

lemma byte_step: "crc_byte t0 c b = f (c XOR ucast b)"
proof -
  let ?x = "c XOR ucast b"
  have h: "take_bit 8 (push_bit 8 (drop_bit 8 ?x)) = 0" by (rule bit_word_eqI) (auto simp: bit_simps)
  have "f ?x = f (take_bit 8 ?x) XOR f (push_bit 8 (drop_bit 8 ?x))"
    by (subst split_low_byte) (rule linearD [OF f_linear])
  also have "f (take_bit 8 ?x) = t0 ! low_byte ?x" by (simp add: t0)
  also have "f (push_bit 8 (drop_bit 8 ?x)) = drop_bit 8 c"
    unfolding f_high [OF h] by (rule bit_word_eqI) (auto simp: bit_simps dest: bit_byte_lt bit_imp_le_length)
  finally show ?thesis by (simp add: crc_byte_def)
qed

text \<open>Four bytes one below the other, after four steps.\<close>

lemma f4_bytes:
  assumes "take_bit 8 a1 = a1" "take_bit 8 a2 = a2" "take_bit 8 a3 = a3"
  shows "f (f (f (f (c XOR a0 XOR push_bit 8 (a1 XOR push_bit 8 (a2 XOR push_bit 8 a3)))))) =
    f (f (f (f (c XOR a0) XOR a1) XOR a2) XOR a3)"
proof -
  have t: "take_bit 24 a = a" "take_bit 16 a = a" if "take_bit 8 a = a" for a :: uint
  proof -
    have "take_bit 24 (take_bit 8 a) = take_bit 8 a" "take_bit 16 (take_bit 8 a) = take_bit 8 a"
      by (simp_all only: take_bit_take_bit) simp_all
    then show "take_bit 24 a = a" "take_bit 16 a = a" by (simp_all only: that)
  qed
  have "take_bit 24 a3 = a3" "take_bit 24 (a2 XOR push_bit 8 a3) = a2 XOR push_bit 8 a3"
      "take_bit 24 (a1 XOR push_bit 8 (a2 XOR push_bit 8 a3)) = a1 XOR push_bit 8 (a2 XOR push_bit 8 a3)"
    by (simp_all add: take_bit_push_bit t assms del: push_bit_xor)
  note push = this [THEN f_push]
  show ?thesis unfolding linearD [OF f_linear, of "c XOR a0"] push
    by (simp only: linearD [OF f_linear] push xor.assoc)
qed

lemma word_step: "crc_word t0 t1 t2 t3 c (le_word [b0, b1, b2, b3]) = foldl (crc_byte t0) c [b0, b1, b2, b3]"
proof -
  let ?x = "c XOR le_word [b0, b1, b2, b3]"
  have b: "take_bit 8 (ucast b :: uint) = ucast b" for b :: byte
    by (rule bit_word_eqI) (auto simp: bit_simps dest: bit_byte_lt)
  have w: "le_word [b0, b1, b2, b3] = ucast b0 XOR push_bit 8 (ucast b1 XOR push_bit 8 (ucast b2 XOR push_bit 8 (ucast b3 :: uint)))"
    by (simp only: le_word_xor le_word.simps(1)) simp
  have steps: "foldl (crc_byte t0) c [b0, b1, b2, b3] = f (f (f (f ?x)))"
    using f4_bytes [OF b b b, of c "ucast b0" b1 b2 b3] by (simp only: foldl.simps byte_step w xor.assoc)
  define x0 x1 x2 x3 where "x0 = take_bit 8 ?x" and "x1 = take_bit 8 (drop_bit 8 ?x)"
    and "x2 = take_bit 8 (drop_bit 16 ?x)" and "x3 = drop_bit 24 ?x"
  have tb: "take_bit 8 x1 = x1" "take_bit 8 x2 = x2" "take_bit 8 x3 = x3"
    by (simp_all only: x1_def x2_def x3_def take_bit_take_bit min.idem drop_bit_24)
  have "?x = x0 XOR push_bit 8 (x1 XOR push_bit 8 (x2 XOR push_bit 8 x3))"
    unfolding x0_def x1_def x2_def x3_def by (rule split_bytes)
  then have "f (f (f (f ?x))) = f (f (f (f x0 XOR x1) XOR x2) XOR x3)"
    using f4_bytes [OF tb, of 0 x0] by (simp only: xor.left_neutral)
  also have "\<dots> = f (f (f (f x0))) XOR f (f (f x1)) XOR f (f x2) XOR f x3"
    by (simp only: linearD [OF f_linear] xor.assoc)
  also have "\<dots> = crc_word t0 t1 t2 t3 c (le_word [b0, b1, b2, b3])"
  proof -
    have "drop_bit 24 ?x = take_bit 8 (drop_bit 24 ?x)" using tb(3) by (simp only: x3_def)
    then have "unat (drop_bit 24 ?x) = low_byte (drop_bit 24 ?x)" by (simp only: low_byte_take_bit)
    moreover have "take_bit 8 (drop_bit 24 ?x) = drop_bit 24 ?x" using tb(3) by (simp only: x3_def)
    ultimately show ?thesis unfolding crc_word_def Let_def x0_def x1_def x2_def x3_def
      by (simp only: t0 t1 t2 t3 low_byte_lt word_of_low_byte)
  qed
  finally show ?thesis using steps by simp
qed

end

lemma crc_bits_byte: "crc_bits p 8 x = crc_bits p 8 (take_bit 8 x) XOR drop_bit 8 (x :: 'a::len word)"
proof -
  have z: "take_bit 8 (push_bit 8 (drop_bit 8 x)) = 0" by (rule bit_word_eqI) (auto simp: bit_simps)
  have "crc_bits p 8 x = crc_bits p 8 (take_bit 8 x) XOR crc_bits p 8 (push_bit 8 (drop_bit 8 x))"
    by (subst split_low_byte) (rule linearD [OF linear_crc_bits])
  also have "crc_bits p 8 (push_bit 8 (drop_bit 8 x)) = drop_bit 8 x"
    unfolding crc_bits_low_zero [OF z] by (rule bit_word_eqI) (auto simp: bit_simps dest: bit_imp_le_length)
  finally show ?thesis .
qed

text \<open>The tables of the registers of a polynomial keep the contract.\<close>

lemma crc_slicing_bits:
  assumes "\<And>i. i < 256 \<Longrightarrow> t0 ! i = crc_bits p 8 (word_of_nat i)" "\<And>i. i < 256 \<Longrightarrow> t1 ! i = crc_bits p 16 (word_of_nat i)"
    "\<And>i. i < 256 \<Longrightarrow> t2 ! i = crc_bits p 24 (word_of_nat i)" "\<And>i. i < 256 \<Longrightarrow> t3 ! i = crc_bits p 32 (word_of_nat i)"
  shows "crc_slicing t0 t1 t2 t3 (crc_bits p 8)"
proof
  have twice: "crc_bits p 8 (crc_bits p n c) = crc_bits p (n + 8) c" for n c by (simp only: crc_bits_add)
  show "t1 ! i = crc_bits p 8 (crc_bits p 8 (word_of_nat i))" "t2 ! i = crc_bits p 8 (crc_bits p 8 (crc_bits p 8 (word_of_nat i)))"
    "t3 ! i = crc_bits p 8 (crc_bits p 8 (crc_bits p 8 (crc_bits p 8 (word_of_nat i))))" if "i < 256" for i
    unfolding twice using assms(2-4) [OF that] by simp_all
qed (use assms(1) in \<open>simp_all add: linear_crc_bits crc_bits_low_zero\<close>)

end
