(* ===== verification/SL_ChecksumStream.thy ===== *)
theory SL_ChecksumStream
  imports SL_Prelude
begin

text \<open>
  The interface \<^verbatim>\<open>SL_Crypto_Checksum\<close>, which every checksum class implements in the same way around
  its function \<^verbatim>\<open>checksum\<close>: the state is the member \<^verbatim>\<open>checksum_\<close>.  The contract of the function
  is the locale \<open>checksum_stream\<close>: the checksum of a whole is the checksum of its parts one after the
  other.  \<open>addr\<close> is the address of the data, \<open>n\<close> the size of the checksum in bytes.
\<close>

text \<open>\<^verbatim>\<open>while (len >= n) { f; len -= n; }\<close> on the bytes that are left.\<close>

function blocks :: "nat \<Rightarrow> ('a \<Rightarrow> byte list \<Rightarrow> 'a) \<Rightarrow> 'a \<Rightarrow> byte list \<Rightarrow> 'a \<times> byte list" where
  "blocks n f c data =
     (if 0 < n \<and> n \<le> length data then blocks n f (f c (take n data)) (drop n data) else (c, data))"
  by pat_completeness auto
termination by (relation "measure (\<lambda>(_, _, _, data). length data)") auto

declare blocks.simps [simp del]

text \<open>Loops over blocks are loops over bytes.\<close>

lemma blocks_foldl:
  assumes "\<And>c d. length d = n \<Longrightarrow> f c d = foldl g c d"
  shows "blocks n f c data = (c', rest) \<Longrightarrow> foldl g c' rest = foldl g c data"
  using assms
proof (induction n f c data rule: blocks.induct)
  case (1 n f c data)
  show ?case
  proof (cases "0 < n \<and> n \<le> length data")
    case True
    then have "blocks n f (f c (take n data)) (drop n data) = (c', rest)" using "1.prems"(1) by (subst (asm) blocks.simps) simp
    then have "foldl g c' rest = foldl g (f c (take n data)) (drop n data)"
      using "1.IH" True "1.prems"(2) by blast
    also have "f c (take n data) = foldl g c (take n data)" using True "1.prems"(2) by simp
    finally show ?thesis by (simp flip: foldl_append)
  next
    case False
    then show ?thesis using "1.prems"(1) by (subst (asm) blocks.simps) auto
  qed
qed

definition checksum_init :: "'a::len word" where
  "checksum_init = 0"

definition checksum_update ::
  "(nat \<Rightarrow> byte list \<Rightarrow> 'a::len word \<Rightarrow> 'a word option) \<Rightarrow> nat \<Rightarrow> byte list \<Rightarrow> 'a word \<Rightarrow> 'a word option" where
  "checksum_update checksum addr data st = checksum addr data st"

text \<open>The result is the size that is returned, the bytes that are stored, and the state left.\<close>

definition checksum_final :: "nat \<Rightarrow> nat \<Rightarrow> 'a::len word \<Rightarrow> (nat \<times> byte list \<times> 'a word) option" where
  "checksum_final n len st = (if len < n then None else Some (n, le_bytes n st, 0))"

definition checksum_final_data ::
  "nat \<Rightarrow> (nat \<Rightarrow> byte list \<Rightarrow> 'a::len word \<Rightarrow> 'a word option) \<Rightarrow> nat \<Rightarrow> byte list \<Rightarrow> nat \<Rightarrow> 'a word \<Rightarrow>
     (nat \<times> byte list \<times> 'a word) option" where
  "checksum_final_data n checksum addr data out_len st =
     (if out_len < n then None
      else do { st \<leftarrow> checksum addr data st; Some (n, le_bytes n st, 0) })"

text \<open>A run of updates with data at their addresses.\<close>

fun checksum_updates ::
  "(nat \<Rightarrow> byte list \<Rightarrow> 'a::len word \<Rightarrow> 'a word option) \<Rightarrow> (nat \<times> byte list) list \<Rightarrow> 'a word \<Rightarrow> 'a word option" where
  "checksum_updates checksum [] st = Some st"
| "checksum_updates checksum ((addr, data) # r) st = do {
     st \<leftarrow> checksum_update checksum addr data st;
     checksum_updates checksum r st }"

text \<open>Updates with the pieces and a final are one final with all the data, and leave the initial state.\<close>

definition streams_as_whole ::
  "nat \<Rightarrow> (nat \<Rightarrow> byte list \<Rightarrow> 'a::len word \<Rightarrow> 'a word option) \<Rightarrow> (nat \<times> byte list) list \<Rightarrow> nat \<Rightarrow> nat \<Rightarrow> bool" where
  "streams_as_whole n checksum ps addr len \<longleftrightarrow>
     (\<exists>out. do { st \<leftarrow> checksum_updates checksum ps checksum_init; checksum_final n len st } = Some (n, out, checksum_init) \<and>
       checksum_final_data n checksum addr (concat (map snd ps)) len checksum_init = Some (n, out, checksum_init))"

locale checksum_stream =
  fixes checksum :: "nat \<Rightarrow> byte list \<Rightarrow> 'a::len word \<Rightarrow> 'a word option"
    and ok :: "byte list \<Rightarrow> bool"
    and inv :: "'a word \<Rightarrow> bool"
  assumes checksum_some: "ok d \<Longrightarrow> inv s \<Longrightarrow> \<exists>s'. checksum a d s = Some s' \<and> inv s'"
    and checksum_addr: "checksum a d s = checksum b d s"
    and checksum_append: "ok d \<Longrightarrow> ok e \<Longrightarrow> inv s \<Longrightarrow> checksum a d s = Some s' \<Longrightarrow> checksum a (d @ e) s = checksum a e s'"
    and ok_append: "ok d \<Longrightarrow> ok e \<Longrightarrow> ok (d @ e)"
begin

lemma ok_concat: "ok d \<Longrightarrow> list_all (\<lambda>p. ok (snd p)) r \<Longrightarrow> ok (d @ concat (map snd r))"
  by (induction r arbitrary: d) (simp_all add: ok_append flip: append_assoc)

lemma updates_whole:
  assumes "ok d" "list_all (\<lambda>p. ok (snd p)) r" "inv s"
  shows "checksum_updates checksum ((b, d) # r) s = checksum a (d @ concat (map snd r)) s"
  using assms
proof (induction r arbitrary: b d s)
  case Nil
  then show ?case using checksum_some [OF Nil.prems(1,3), of b] checksum_addr [of b d s a]
    by (auto simp: checksum_update_def)
next
  case (Cons p r)
  obtain b' e where p: "p = (b', e)" by fastforce
  have e: "ok e" "list_all (\<lambda>p. ok (snd p)) r" using Cons.prems(2) by (simp_all add: p)
  obtain s' where s': "checksum a d s = Some s'" "inv s'" using checksum_some [OF Cons.prems(1,3)] by blast
  then have "checksum b d s = Some s'" using checksum_addr [of b d s a] by simp
  then have "checksum_updates checksum ((b, d) # p # r) s = checksum_updates checksum ((b', e) # r) s'"
    by (simp add: p checksum_update_def)
  also have "\<dots> = checksum a (e @ concat (map snd r)) s'" by (rule Cons.IH [OF e s'(2)])
  also have "\<dots> = checksum a (d @ e @ concat (map snd r)) s"
    by (rule checksum_append [OF Cons.prems(1) ok_concat [OF e] Cons.prems(3) s'(1), symmetric])
  finally show ?case by (simp add: p)
qed

lemma stream_whole:
  assumes "ps \<noteq> []" "list_all (\<lambda>p. ok (snd p)) ps" "inv checksum_init" "n \<le> len"
  shows "streams_as_whole n checksum ps a len"
proof -
  obtain b d r where ps: "ps = (b, d) # r" using assms(1) by (cases ps) auto
  then have "ok d" "list_all (\<lambda>p. ok (snd p)) r" using assms(2) by simp_all
  note w = updates_whole [OF this assms(3)] and c = checksum_some [OF ok_concat [OF this] assms(3)]
  obtain st where "checksum a (d @ concat (map snd r)) checksum_init = Some st" using c by blast
  then show ?thesis using assms(4) w [of b a] unfolding ps
    by (simp add: streams_as_whole_def checksum_final_def checksum_final_data_def checksum_init_def)
qed

end

end
