(* ===== verification/SL_Checksum.thy ===== *)
theory SL_Checksum
  imports SL_CRC_Tables SL_CRC32_Tables SL_ChecksumStream
begin

text \<open>
  The cyclic checksums \<^verbatim>\<open>SL_Crypto_CRC16\<close>, \<^verbatim>\<open>SL_Crypto_CRC32\<close>, \<^verbatim>\<open>SL_Crypto_CRC32C\<close> and
  \<^verbatim>\<open>SL_Crypto_CRC64\<close>: the functions \<^verbatim>\<open>checksum\<close>, the combination of two checksums, and the
  class around them (\<^verbatim>\<open>init\<close>, \<^verbatim>\<open>update\<close>, \<^verbatim>\<open>final\<close>) whose contract is the locale
  \<open>checksum_stream\<close>.  The address of the data, which the word-wise loops align to, is the argument
  \<open>addr\<close>; \<open>None\<close> is a failed assertion.
\<close>

section \<open>One table\<close>

definition crc16_step :: "uint16 \<Rightarrow> byte \<Rightarrow> uint16" where
  "crc16_step crc b = push_bit 8 crc XOR CRC16_TABLE ! low_byte (drop_bit 8 crc XOR ucast b)"

definition crc16_checksum :: "byte list \<Rightarrow> uint16 \<Rightarrow> uint16 option" where
  "crc16_checksum data crc = (if data = [] then None else Some (foldl crc16_step crc data))"

definition crc64_step :: "uint64 \<Rightarrow> byte \<Rightarrow> uint64" where
  "crc64_step crc b = CRC64_TABLE ! unat (ucast crc XOR b) XOR drop_bit 8 crc"

definition crc64_checksum :: "byte list \<Rightarrow> uint64 \<Rightarrow> uint64 option" where
  "crc64_checksum data crc = (if data = [] then None else Some (foldl crc64_step crc data))"

section \<open>Four tables\<close>

text \<open>The words of a block of \<open>k\<close> words, in the order of the loads.\<close>

definition words_of :: "nat \<Rightarrow> byte list \<Rightarrow> byte list list" where
  "words_of k data = map (\<lambda>i. take 4 (drop (4 * i) data)) [0..<k]"

text \<open>The bytes in front of the first aligned word.\<close>

definition unaligned :: "nat \<Rightarrow> nat" where
  "unaligned addr = (4 - addr mod 4) mod 4"

definition DOLIT4 :: "uint \<Rightarrow> byte list \<Rightarrow> uint" where
  "DOLIT4 c w = crc_word CRC32_TABLE_0 CRC32_TABLE_1 CRC32_TABLE_2 CRC32_TABLE_3 c (le_word w)"

definition crc32_byte :: "uint \<Rightarrow> byte \<Rightarrow> uint" where
  "crc32_byte = crc_byte CRC32_TABLE_0"

definition crc32_little :: "nat \<Rightarrow> uint \<Rightarrow> byte list \<Rightarrow> uint" where
  "crc32_little addr crc buf =
     (let c = NOT crc;
          k = unaligned addr;
          c = foldl crc32_byte c (take k buf);
          (c, buf) = blocks 32 (\<lambda>c d. foldl DOLIT4 c (words_of 8 d)) c (drop k buf);
          (c, buf) = blocks 4 DOLIT4 c buf;
          c = foldl crc32_byte c buf
      in NOT c)"

definition DOBIG4 :: "uint \<Rightarrow> byte list \<Rightarrow> uint" where
  "DOBIG4 c w =
     (let c = c XOR le_word (rev w) in
        CRC32_TABLE_4 ! low_byte c XOR CRC32_TABLE_5 ! low_byte (drop_bit 8 c) XOR
        CRC32_TABLE_6 ! low_byte (drop_bit 16 c) XOR CRC32_TABLE_7 ! unat (drop_bit 24 c))"

definition crc32_big_byte :: "uint \<Rightarrow> byte \<Rightarrow> uint" where
  "crc32_big_byte c b = CRC32_TABLE_4 ! unat (drop_bit 24 c XOR ucast b) XOR push_bit 8 c"

definition crc32_big :: "nat \<Rightarrow> uint \<Rightarrow> byte list \<Rightarrow> uint" where
  "crc32_big addr crc buf =
     (let c = NOT (SWAP32 crc);
          k = unaligned addr;
          c = foldl crc32_big_byte c (take k buf);
          (c, buf) = blocks 32 (\<lambda>c d. foldl DOBIG4 c (words_of 8 d)) c (drop k buf);
          (c, buf) = blocks 4 DOBIG4 c buf;
          c = foldl crc32_big_byte c buf
      in SWAP32 (NOT c))"

text \<open>The null pointer is answered with 0; the byte order is the one the machine is found to have.\<close>

definition crc32_checksum :: "bool \<Rightarrow> nat \<Rightarrow> byte list option \<Rightarrow> uint \<Rightarrow> uint" where
  "crc32_checksum little addr data crc =
     (case data of None \<Rightarrow> 0
      | Some buf \<Rightarrow> if little then crc32_little addr crc buf else crc32_big addr crc buf)"

definition crc32c_STEP1 :: "uint \<Rightarrow> byte \<Rightarrow> uint" where
  "crc32c_STEP1 = crc_byte CRC32C_TABLE0"

definition crc32c_STEP4 :: "uint \<Rightarrow> byte list \<Rightarrow> uint" where
  "crc32c_STEP4 l p = crc_word CRC32C_TABLE0 CRC32C_TABLE1 CRC32C_TABLE2 CRC32C_TABLE3 l (le_word p)"

definition crc32c_checksum :: "nat \<Rightarrow> byte list \<Rightarrow> uint \<Rightarrow> uint option" where
  "crc32c_checksum addr data crc =
     (if data = [] then None
      else
        let l = crc XOR 0xffffffff;
            k = unaligned addr;
            (l, p) = (if k \<le> length data then (foldl crc32c_STEP1 l (take k data), drop k data) else (l, data));
            (l, p) = blocks 16 (\<lambda>l d. foldl crc32c_STEP4 l (words_of 4 d)) l p;
            (l, p) = blocks 4 crc32c_STEP4 l p;
            l = foldl crc32c_STEP1 l p
        in Some (l XOR 0xffffffff))"

definition CRC32C_Mask :: "uint \<Rightarrow> uint" where
  "CRC32C_Mask crc = (drop_bit 15 crc OR push_bit 17 crc) + 0xa282ead8"

definition CRC32C_Unmask :: "uint \<Rightarrow> uint" where
  "CRC32C_Unmask masked_crc = (let rot = masked_crc - 0xa282ead8 in drop_bit 17 rot OR push_bit 15 rot)"

section \<open>The checksums bit by bit\<close>

definition crc_spec :: "'a::len word \<Rightarrow> 'a word \<Rightarrow> byte list \<Rightarrow> 'a word" where
  "crc_spec poly = foldl (\<lambda>c b. crc_bits poly 8 (c XOR ucast b))"

definition crc_left_spec :: "'a::len word \<Rightarrow> 'a word \<Rightarrow> byte list \<Rightarrow> 'a word" where
  "crc_left_spec poly = foldl (\<lambda>c b. crc_bits_left poly 8 (c XOR push_bit (LENGTH('a) - 8) (ucast b)))"

lemma words_of_foldl:
  assumes "\<And>c w. length w = 4 \<Longrightarrow> f c w = foldl g c w" "length data = 4 * k"
  shows "foldl f c (words_of k data) = foldl g c data"
  using assms(2)
proof (induction k arbitrary: data)
  case (Suc k)
  have "words_of (Suc k) data = words_of k data @ [take 4 (drop (4 * k) data)]" by (simp add: words_of_def)
  moreover have "words_of k data = words_of k (take (4 * k) data)"
    by (auto simp: words_of_def take_drop [symmetric] drop_take min_def)
  ultimately have "foldl f c (words_of (Suc k) data) = f (foldl g c (take (4 * k) data)) (take 4 (drop (4 * k) data))"
    using Suc.IH [of "take (4 * k) data"] Suc.prems by simp
  also have "\<dots> = foldl g c (take (4 * k) data @ drop (4 * k) data)"
    using assms(1) [of "take 4 (drop (4 * k) data)"] Suc.prems by (simp only: foldl_append) simp
  finally show ?case by (simp only: append_take_drop_id)
qed (simp add: words_of_def)

interpretation crc32: crc_slicing CRC32_TABLE_0 CRC32_TABLE_1 CRC32_TABLE_2 CRC32_TABLE_3 "crc_bits CRC32_POLY 8"
  by (intro crc_slicing_bits crc32_table_0 crc32_table_1 crc32_table_2 crc32_table_3)

interpretation crc32c: crc_slicing CRC32C_TABLE0 CRC32C_TABLE1 CRC32C_TABLE2 CRC32C_TABLE3 "crc_bits CRC32C_POLY 8"
  by (intro crc_slicing_bits crc32c_table0 crc32c_table1 crc32c_table2 crc32c_table3)

lemma word_cases: "length w = 4 \<Longrightarrow> \<exists>a b c d. w = [a, b, c, d]"
  by (auto simp: length_Suc_conv numeral_eq_Suc)

lemma crc32_steps:
  "crc32_byte c b = crc_bits CRC32_POLY 8 (c XOR ucast b)"
  "length w = 4 \<Longrightarrow> DOLIT4 c w = foldl crc32_byte c w"
  by (auto simp: crc32_byte_def DOLIT4_def crc32.byte_step crc32.word_step simp del: le_word.simps foldl.simps
      dest!: word_cases)

lemma crc32c_steps:
  "crc32c_STEP1 c b = crc_bits CRC32C_POLY 8 (c XOR ucast b)"
  "length w = 4 \<Longrightarrow> crc32c_STEP4 c w = foldl crc32c_STEP1 c w"
  by (auto simp: crc32c_STEP1_def crc32c_STEP4_def crc32c.byte_step crc32c.word_step simp del: le_word.simps foldl.simps
      dest!: word_cases)

text \<open>The common shape of the loops: whole blocks, single words, the rest.\<close>

lemma sliced_loops:
  assumes "\<And>c w. length w = 4 \<Longrightarrow> f c w = foldl g c w"
    and "blocks (4 * k) (\<lambda>c d. foldl f c (words_of k d)) (foldl g c a) b = (c1, r1)" "blocks 4 f c1 r1 = (c2, r2)"
  shows "foldl g c2 r2 = foldl g c (a @ b)"
proof -
  have "foldl g c1 r1 = foldl g (foldl g c a) b"
    by (rule blocks_foldl [OF _ assms(2)]) (rule words_of_foldl [OF assms(1)])
  moreover have "foldl g c2 r2 = foldl g c1 r1" by (rule blocks_foldl [OF assms(1) assms(3)])
  ultimately show ?thesis by simp
qed

lemma crc32_little_spec: "crc32_little addr c buf = NOT (crc_spec CRC32_POLY (NOT c) buf)"
proof -
  let ?k = "unaligned addr"
  obtain c1 r1 where b1: "blocks 32 (\<lambda>c d. foldl DOLIT4 c (words_of 8 d)) (foldl crc32_byte (NOT c) (take ?k buf)) (drop ?k buf) = (c1, r1)"
    by fastforce
  obtain c2 r2 where b2: "blocks 4 DOLIT4 c1 r1 = (c2, r2)" by fastforce
  have "foldl crc32_byte c2 r2 = foldl crc32_byte (NOT c) (take ?k buf @ drop ?k buf)"
    by (rule sliced_loops [OF crc32_steps(2) _ b2, where k = 8]) (use b1 in simp_all)
  then show ?thesis
    using b1 b2 by (simp add: crc32_little_def Let_def crc_spec_def crc32_steps(1) [abs_def])
qed

lemma xor_ones: "c XOR 0xffffffff = NOT (c :: uint)"
proof -
  have "(0xffffffff :: uint) = - 1" by simp
  then show ?thesis by (simp only: bit.xor_one_right)
qed

lemma crc32c_spec:
  "crc32c_checksum addr data c =
     (if data = [] then None else Some (NOT (crc_spec CRC32C_POLY (NOT c) data)))"
proof -
  let ?k = "unaligned addr"
  define a b where "a = (if ?k \<le> length data then take ?k data else [])" and "b = drop (length a) data"
  have ab: "a @ b = data" by (auto simp: a_def b_def)
  have p: "(if ?k \<le> length data then (foldl crc32c_STEP1 (NOT c) (take ?k data), drop ?k data) else (NOT c, data)) =
      (foldl crc32c_STEP1 (NOT c) a, b)" by (simp add: a_def b_def)
  obtain c1 r1 where b1: "blocks 16 (\<lambda>l d. foldl crc32c_STEP4 l (words_of 4 d)) (foldl crc32c_STEP1 (NOT c) a) b = (c1, r1)"
    by fastforce
  obtain c2 r2 where b2: "blocks 4 crc32c_STEP4 c1 r1 = (c2, r2)" by fastforce
  have "foldl crc32c_STEP1 c2 r2 = foldl crc32c_STEP1 (NOT c) (a @ b)"
    by (rule sliced_loops [OF crc32c_steps(2) _ b2, where k = 4]) (use b1 in simp_all)
  then show ?thesis
    unfolding crc32c_checksum_def Let_def xor_ones p using b1 b2
    by (simp add: ab crc_spec_def crc32c_steps(1) [abs_def])
qed

section \<open>The other byte order\<close>

lemma and_push_bit: "y AND push_bit n m = push_bit n (drop_bit n y AND (m :: 'a::len word))"
  by (rule bit_word_eqI) (auto simp: bit_simps)

lemma SWAP32_bytes:
  "SWAP32 q = drop_bit 24 q XOR push_bit 8 (take_bit 8 (drop_bit 16 q)) XOR push_bit 16 (take_bit 8 (drop_bit 8 q)) XOR
     push_bit 24 (take_bit 8 q)"
proof -
  have m: "x AND 0xff = take_bit 8 x" for x :: uint by (simp add: take_bit_eq_mask mask_eq_exp_minus_1)
  have f: "(0xff00 :: uint) = push_bit 8 0xff" by simp
  have "drop_bit 8 q AND 0xff00 = push_bit 8 (take_bit 8 (drop_bit 16 q))"
    unfolding f and_push_bit m drop_bit_twice ..
  moreover have "push_bit 8 (q AND 0xff00) = push_bit 16 (take_bit 8 (drop_bit 8 q))"
    unfolding f and_push_bit m by simp
  ultimately show ?thesis unfolding SWAP32_xor m drop_bit_24 by simp
qed

lemma SWAP32_parts:
  "drop_bit 24 (SWAP32 q) = take_bit 8 q"
  "take_bit 8 (drop_bit 16 (SWAP32 q)) = take_bit 8 (drop_bit 8 q)"
  "take_bit 8 (drop_bit 8 (SWAP32 q)) = take_bit 8 (drop_bit 16 q)"
  "take_bit 8 (SWAP32 q) = drop_bit 24 q"
  "push_bit 8 (SWAP32 q) = SWAP32 (drop_bit 8 q)"
  unfolding SWAP32_bytes
  by (rule bit_word_eqI, auto simp: bit_simps dest: bit_imp_le_length)+

lemma SWAP32_SWAP32 [simp]: "SWAP32 (SWAP32 q) = q"
  using split_bytes [of q] unfolding SWAP32_bytes [of "SWAP32 q"] SWAP32_parts by (simp add: ac_simps)

lemma SWAP32_NOT: "SWAP32 (NOT q) = NOT (SWAP32 q)"
proof -
  have "SWAP32 0xffffffff = 0xffffffff" by (simp add: SWAP32_def)
  then show ?thesis using linearD [OF linear_SWAP32, of q "0xffffffff"] by (simp only: xor_ones)
qed

lemma le_word_bytes:
  fixes a b c d :: byte
  defines "q \<equiv> le_word [a, b, c, d]"
  shows "drop_bit 24 q = (ucast d :: uint)" "take_bit 8 (drop_bit 16 q) = ucast c" "take_bit 8 (drop_bit 8 q) = ucast b"
    "take_bit 8 q = ucast a"
  unfolding q_def by (rule bit_word_eqI, auto simp: bit_simps dest: bit_byte_lt)+

lemma SWAP32_le_word: "length w = 4 \<Longrightarrow> le_word (rev w) = SWAP32 (le_word w)"
proof -
  assume "length w = 4"
  then obtain a b c d where w: "w = [a, b, c, d]" using word_cases by blast
  have "le_word (rev w) = ucast d XOR push_bit 8 (ucast c XOR push_bit 8 (ucast b XOR push_bit 8 (ucast a :: uint)))"
    unfolding w rev.simps append.simps by (simp only: le_word_xor le_word.simps(1)) simp
  then show ?thesis unfolding w SWAP32_bytes le_word_bytes by simp
qed

lemma crc32_big_tables:
  "i < 256 \<Longrightarrow> CRC32_TABLE_4 ! i = SWAP32 (CRC32_TABLE_0 ! i)" "i < 256 \<Longrightarrow> CRC32_TABLE_5 ! i = SWAP32 (CRC32_TABLE_1 ! i)"
  "i < 256 \<Longrightarrow> CRC32_TABLE_6 ! i = SWAP32 (CRC32_TABLE_2 ! i)" "i < 256 \<Longrightarrow> CRC32_TABLE_7 ! i = SWAP32 (CRC32_TABLE_3 ! i)"
  by (simp_all add: crc32_table_0 crc32_table_1 crc32_table_2 crc32_table_3 crc32_table_4 crc32_table_5 crc32_table_6
      crc32_table_7)

lemma crc32_big_byte_swap: "crc32_big_byte (SWAP32 c) b = SWAP32 (crc32_byte c b)"
proof -
  have "take_bit 8 (ucast b :: uint) = ucast b" by (rule bit_word_eqI) (auto simp: bit_simps dest: bit_byte_lt)
  then have "unat (take_bit 8 c XOR ucast b) = low_byte (c XOR ucast b)" by (simp add: low_byte_take_bit)
  then show ?thesis
    by (simp only: crc32_big_byte_def crc32_byte_def crc_byte_def SWAP32_parts crc32_big_tables low_byte_lt
        linearD [OF linear_SWAP32])
qed

lemma DOBIG4_swap:
  assumes "length w = 4" shows "DOBIG4 (SWAP32 c) w = SWAP32 (DOLIT4 c w)"
proof -
  define x where "x = c XOR le_word w"
  have x: "SWAP32 c XOR le_word (rev w) = SWAP32 x"
    unfolding SWAP32_le_word [OF assms] x_def by (simp only: linearD [OF linear_SWAP32])
  have l: "unat (drop_bit 24 y) = low_byte (drop_bit 24 y)" for y :: uint by (simp only: low_byte_take_bit drop_bit_24)
  have i: "low_byte (SWAP32 x) = low_byte (drop_bit 24 x)" "low_byte (drop_bit 8 (SWAP32 x)) = low_byte (drop_bit 16 x)"
    "low_byte (drop_bit 16 (SWAP32 x)) = low_byte (drop_bit 8 x)" "low_byte (drop_bit 24 (SWAP32 x)) = low_byte x"
    by (simp_all only: low_byte_take_bit SWAP32_parts drop_bit_24 take_bit_take_bit min.idem)
  show ?thesis unfolding DOBIG4_def DOLIT4_def crc_word_def Let_def x x_def [symmetric] l i
    by (simp only: crc32_big_tables low_byte_lt linearD [OF linear_SWAP32]) (simp only: ac_simps)
qed

lemma foldl_swap: "foldl crc32_big_byte (SWAP32 c) w = SWAP32 (foldl crc32_byte c w)"
  by (induction w arbitrary: c) (simp_all add: crc32_big_byte_swap)

lemma DOBIG4_bytes: "length w = 4 \<Longrightarrow> DOBIG4 c w = foldl crc32_big_byte c w"
  using DOBIG4_swap [of w "SWAP32 c"] crc32_steps(2) [of w "SWAP32 c"] foldl_swap [of "SWAP32 c" w] by simp

lemma crc32_big_little: "crc32_big addr c buf = crc32_little addr c buf"
proof -
  let ?k = "unaligned addr" and ?n = "NOT (SWAP32 c)"
  obtain c1 r1 where b1: "blocks 32 (\<lambda>c d. foldl DOBIG4 c (words_of 8 d)) (foldl crc32_big_byte ?n (take ?k buf)) (drop ?k buf) = (c1, r1)"
    by fastforce
  obtain c2 r2 where b2: "blocks 4 DOBIG4 c1 r1 = (c2, r2)" by fastforce
  have "foldl crc32_big_byte c2 r2 = foldl crc32_big_byte ?n (take ?k buf @ drop ?k buf)"
    by (rule sliced_loops [OF DOBIG4_bytes _ b2, where k = 8]) (use b1 in simp_all)
  also have "\<dots> = SWAP32 (foldl crc32_byte (NOT c) buf)" by (simp add: foldl_swap flip: SWAP32_NOT)
  finally have "crc32_big addr c buf = NOT (foldl crc32_byte (NOT c) buf)"
    using b1 b2 by (simp add: crc32_big_def Let_def SWAP32_NOT)
  then show ?thesis by (simp add: crc32_little_spec crc_spec_def crc32_steps(1) [abs_def])
qed

section \<open>Sixteen and sixty-four bits\<close>

lemma crc64_step_bits: "crc64_step c b = crc_bits CRC64_POLY 8 (c XOR ucast b)"
proof -
  have "unat (ucast c XOR b) = low_byte (c XOR ucast b)"
  proof -
    have "ucast (ucast c XOR b) = take_bit 8 (c XOR (ucast b :: uint64))"
      by (rule bit_word_eqI) (auto simp: bit_simps dest: bit_byte_lt)
    then have "unat (ucast (ucast c XOR b) :: uint64) = low_byte (c XOR ucast b)" by (simp only: low_byte_take_bit)
    moreover have "unat (ucast (ucast c XOR b) :: uint64) = unat (ucast c XOR b)"
      using unsigned_less [of "ucast c XOR b", where 'a = nat] by (simp only: unsigned_ucast_eq) (simp add: take_bit_nat_eq_self)
    ultimately show ?thesis by simp
  qed
  moreover have "drop_bit 8 (c XOR ucast b) = drop_bit 8 c"
    by (rule bit_word_eqI) (auto simp: bit_simps dest: bit_byte_lt)
  ultimately show ?thesis unfolding crc64_step_def crc_bits_byte [of CRC64_POLY "c XOR ucast b"]
    by (simp add: crc64_table)
qed

lemma crc16_step_bits: "crc16_step c b = crc_bits_left CRC16_POLY 8 (c XOR push_bit 8 (ucast b))"
proof -
  let ?h = "drop_bit 8 c XOR ucast b"
  have h: "take_bit 8 ?h = ?h" by (rule bit_word_eqI) (auto simp: bit_simps dest: bit_byte_lt bit_imp_le_length)
  have "c XOR push_bit 8 (ucast b) = (take_bit 8 c XOR push_bit 8 (drop_bit 8 c)) XOR push_bit 8 (ucast b)"
    by (simp only: split_low_byte [symmetric])
  then have "c XOR push_bit 8 (ucast b) = take_bit 8 c XOR push_bit 8 ?h" by (simp only: push_bit_xor xor.assoc)
  moreover have "crc_bits_left CRC16_POLY 8 (take_bit 8 c) = push_bit 8 c"
  proof -
    have "drop_bit 8 (take_bit 8 c) = 0" by (rule bit_word_eqI) (auto simp: bit_simps)
    then have "crc_bits_left CRC16_POLY 8 (take_bit 8 c) = push_bit 8 (take_bit 8 c)"
      by (intro crc_bits_left_high_zero) simp_all
    also have "\<dots> = push_bit 8 c" by (rule bit_word_eqI) (auto simp: bit_simps)
    finally show ?thesis .
  qed
  moreover have "CRC16_TABLE ! low_byte ?h = crc_bits_left CRC16_POLY 8 (push_bit 8 ?h)"
    using crc16_table [of "low_byte ?h"] unfolding word_of_low_byte h by simp
  ultimately show ?thesis by (simp add: crc16_step_def linearD [OF linear_crc_bits_left])
qed

section \<open>Combining two checksums\<close>

fun gf2_matrix_times :: "uint list \<Rightarrow> uint \<Rightarrow> uint \<Rightarrow> uint option" where
  "gf2_matrix_times [] vec acc = (if vec = 0 then Some acc else None)"
| "gf2_matrix_times (m # mat) vec acc =
     (if vec = 0 then Some acc
      else gf2_matrix_times mat (drop_bit 1 vec) (if bit vec 0 then acc XOR m else acc))"

definition gf2_matrix_square :: "uint list \<Rightarrow> uint list option" where
  "gf2_matrix_square mat =
     those (map (\<lambda>n. do { m \<leftarrow> arr_get mat n; gf2_matrix_times mat m 0 }) [0..<32])"

lemma drop_bit_less: "drop_bit k n \<noteq> 0 \<Longrightarrow> 0 < k \<Longrightarrow> unat (drop_bit k (n :: uint64)) < unat n"
proof -
  assume "drop_bit k n \<noteq> 0" "0 < k"
  then have "n \<noteq> 0" by auto
  then have "0 < unat n" by (simp add: unat_gt_0)
  moreover have "(1 :: nat) < 2 ^ k" using \<open>0 < k\<close> by (intro one_less_power) simp_all
  moreover have "unat (drop_bit k n) = unat n div 2 ^ k" by (simp only: unat_drop_bit_eq) (simp add: drop_bit_eq_div)
  ultimately show ?thesis by (simp only:) (rule div_less_dividend)
qed

function combine_loop :: "uint list \<Rightarrow> uint \<Rightarrow> uint64 \<Rightarrow> uint option" where
  "combine_loop odd_mat crc1 len2 = do {
     even_mat \<leftarrow> gf2_matrix_square odd_mat;
     crc1 \<leftarrow> (if bit len2 0 then gf2_matrix_times even_mat crc1 0 else Some crc1);
     if drop_bit 1 len2 = 0 then Some crc1
     else do {
       odd_mat \<leftarrow> gf2_matrix_square even_mat;
       crc1 \<leftarrow> (if bit len2 1 then gf2_matrix_times odd_mat crc1 0 else Some crc1);
       if drop_bit 2 len2 = 0 then Some crc1 else combine_loop odd_mat crc1 (drop_bit 2 len2) } }"
  by pat_completeness auto
termination
  by (relation "measure (\<lambda>(_, _, len2). unat len2)") (auto intro!: drop_bit_less)

declare combine_loop.simps [simp del]

definition crc32_combine :: "uint \<Rightarrow> uint \<Rightarrow> uint64 \<Rightarrow> uint option" where
  "crc32_combine crc1 crc2 len2 =
     (if len2 = 0 then Some crc1
      else do {
        let odd_mat = 0xedb88320 # map (\<lambda>n. push_bit (n - 1) 1) [1..<32];
        even_mat \<leftarrow> gf2_matrix_square odd_mat;
        odd_mat \<leftarrow> gf2_matrix_square even_mat;
        crc1 \<leftarrow> combine_loop odd_mat crc1 len2;
        Some (crc1 XOR crc2) })"

text \<open>A matrix stands for the linear map of its columns.\<close>

definition columns :: "uint list \<Rightarrow> (uint \<Rightarrow> uint) \<Rightarrow> bool" where
  "columns mat f \<longleftrightarrow> length mat = 32 \<and> (\<forall>n<32. mat ! n = f (2 ^ n))"

lemma gf2_times_linear:
  assumes "linear f" "\<And>i. i < length mat \<Longrightarrow> mat ! i = f (2 ^ i)" "drop_bit (length mat) vec = 0"
  shows "gf2_matrix_times mat vec acc = Some (acc XOR f vec)"
  using assms
proof (induction mat arbitrary: f vec acc)
  case Nil
  then show ?case by (simp add: linear_0)
next
  case (Cons m mat)
  show ?case
  proof (cases "vec = 0")
    case False
    let ?g = "\<lambda>x. f (push_bit 1 x)"
    have "gf2_matrix_times mat (drop_bit 1 vec) a = Some (a XOR f (push_bit 1 (drop_bit 1 vec)))" for a
    proof (rule Cons.IH [of ?g])
      show "linear ?g" by (rule linear_comp [OF Cons.prems(1) linear_push_bit])
      show "mat ! i = f (push_bit 1 (2 ^ i))" if "i < length mat" for i
        using Cons.prems(2) [of "Suc i"] that by (simp add: push_bit_eq_mult mult.commute)
      show "drop_bit (length mat) (drop_bit 1 vec) = 0" using Cons.prems(3) by simp
    qed
    moreover have "m = f 1" using Cons.prems(2) [of 0] by simp
    ultimately have "gf2_matrix_times (m # mat) vec acc = Some (acc XOR f ((if bit vec 0 then 1 else 0) XOR push_bit 1 (drop_bit 1 vec)))"
      using False by (simp add: linearD [OF Cons.prems(1)] linear_0 [OF Cons.prems(1)] ac_simps)
    then show ?thesis by (simp only: split_bit [symmetric])
  qed (simp add: linear_0 [OF Cons.prems(1)])
qed

lemma columns_times:
  assumes "linear f" "columns mat f" shows "gf2_matrix_times mat v 0 = Some (f v)"
proof -
  have "drop_bit 32 v = 0" by (rule bit_word_eqI) (auto simp: bit_simps dest: bit_imp_le_length)
  then show ?thesis using gf2_times_linear [OF assms(1), of mat v 0] assms(2) by (simp add: columns_def)
qed

lemma columns_square:
  assumes "linear f" "columns mat f"
  shows "\<exists>mat'. gf2_matrix_square mat = Some mat' \<and> columns mat' (\<lambda>x. f (f x))"
proof -
  have "gf2_matrix_square mat = Some (map (\<lambda>n. f (mat ! n)) [0..<32])"
    unfolding gf2_matrix_square_def
    by (rule those_map) (use assms(2) columns_times [OF assms] in \<open>simp add: arr_get_def columns_def\<close>)
  moreover have "columns (map (\<lambda>n. f (mat ! n)) [0..<32]) (\<lambda>x. f (f x))"
    using assms(2) by (simp add: columns_def)
  ultimately show ?thesis by blast
qed

lemma crc_bits_columns_square:
  assumes "columns mat (crc_bits p m)"
  shows "\<exists>mat'. gf2_matrix_square mat = Some mat' \<and> columns mat' (crc_bits p (2 * m))"
proof -
  have "(\<lambda>x. crc_bits p m (crc_bits p m x)) = crc_bits p (2 * m)" by (simp add: fun_eq_iff mult_2 crc_bits_add)
  then show ?thesis using columns_square [OF linear_crc_bits assms] by simp
qed

lemma combine_loop_bits:
  assumes "columns mat (crc_bits p m)"
  shows "combine_loop mat c len = Some (crc_bits p (2 * m * unat len) c)"
  using assms
proof (induction mat c len arbitrary: m rule: combine_loop.induct)
  case (1 mat c len)
  obtain ev where ev: "gf2_matrix_square mat = Some ev" "columns ev (crc_bits p (2 * m))"
    using crc_bits_columns_square [OF "1.prems"] by blast
  obtain od where od: "gf2_matrix_square ev = Some od" "columns od (crc_bits p (4 * m))"
    using crc_bits_columns_square [OF ev(2)] by auto
  define b0 b1 r where "b0 = (if bit len 0 then 1 else 0 :: nat)" and "b1 = (if bit len 1 then 1 else 0 :: nat)"
    and "r = drop_bit 2 len"
  have n: "unat len = b0 + 2 * (b1 + 2 * unat r)" "unat (drop_bit 1 len) = b1 + 2 * unat r"
    using unat_half [of len] unat_half [of "drop_bit 1 len"]
    by (simp_all only: b0_def b1_def r_def) (simp_all add: bit_drop_bit_eq drop_bit_drop_bit numeral_2_eq_2)
  have t0: "(if bit len 0 then gf2_matrix_times ev c 0 else Some c) = Some (crc_bits p (2 * m * b0) c)"
    using columns_times [OF linear_crc_bits ev(2)] by (simp add: b0_def)
  have t1: "(if bit len 1 then gf2_matrix_times od c' 0 else Some c') = Some (crc_bits p (4 * m * b1) c')" for c'
    using columns_times [OF linear_crc_bits od(2)] by (simp add: b1_def)
  define c1 c2 where "c1 = crc_bits p (2 * m * b0) c" and "c2 = crc_bits p (4 * m * b1) c1"
  have step: "combine_loop mat c len =
      (if drop_bit 1 len = 0 then Some c1 else if r = 0 then Some c2 else combine_loop od c2 r)"
    by (subst combine_loop.simps) (simp add: ev(1) od(1) t0 t1 c1_def c2_def r_def del: bit_0 One_nat_def)
  have IH: "combine_loop od c2 r = Some (crc_bits p (2 * (4 * m) * unat r) c2)" if "drop_bit 1 len \<noteq> 0" "r \<noteq> 0"
    unfolding r_def c2_def c1_def
    by (rule "1.IH" [OF ev(1) t0 _ od(1) t1]) (use that od(2) in \<open>simp_all add: r_def\<close>)
  have sum: "2 * m * unat len = 2 * m * b0 + (4 * m * b1 + 2 * (4 * m) * unat r)" unfolding n(1) by algebra
  have all: "crc_bits p (2 * m * unat len) c = crc_bits p (2 * (4 * m) * unat r) c2"
    unfolding sum c1_def c2_def by (simp only: crc_bits_add)
  show ?case
  proof (cases "drop_bit 1 len = 0")
    case True
    then have "b1 = 0" "unat r = 0" using n(2) by simp_all
    then show ?thesis using step True all by (simp add: c2_def)
  next
    case False
    then show ?thesis using step IH all by (cases "r = 0") simp_all
  qed
qed

end
