(* ===== verification/SL_Adler.thy ===== *)
theory SL_Adler
  imports SL_ChecksumStream
begin

text \<open>
  \<^verbatim>\<open>SL_Crypto_Adler32\<close>: the two sums in 32-bit registers that are reduced only after 5552 bytes, the
  combination of two checksums, and the class, an interpretation of \<open>checksum_stream\<close> on the states
  whose halves are reduced.  \<open>None\<close> is a read outside the data.
\<close>

abbreviation ADLER32_BASE :: uint where
  "ADLER32_BASE \<equiv> 65521"

abbreviation ADLER32_NMAX :: nat where
  "ADLER32_NMAX \<equiv> 5552"

definition adler_DO1 :: "uint \<times> uint \<Rightarrow> byte \<Rightarrow> uint \<times> uint" where
  "adler_DO1 = (\<lambda>(sum1, sum2) b. (sum1 + ucast b, sum2 + (sum1 + ucast b)))"

definition adler_DO16 :: "uint \<times> uint \<Rightarrow> byte list \<Rightarrow> uint \<times> uint" where
  "adler_DO16 s buf = foldl adler_DO1 s (take 16 buf)"

definition adler_MOD :: "uint \<times> uint \<Rightarrow> uint \<times> uint" where
  "adler_MOD = (\<lambda>(sum1, sum2). (sum1 mod ADLER32_BASE, sum2 mod ADLER32_BASE))"

text \<open>\<^verbatim>\<open>do { DO16(data); data += 16; } while (--n)\<close>\<close>

fun adler_DO16s :: "nat \<Rightarrow> uint \<times> uint \<Rightarrow> byte list \<Rightarrow> uint \<times> uint" where
  "adler_DO16s 0 s data = s"
| "adler_DO16s (Suc n) s data = adler_DO16s n (adler_DO16 s data) (drop 16 data)"

definition adler_join :: "uint \<times> uint \<Rightarrow> uint" where
  "adler_join = (\<lambda>(sum1, sum2). sum1 OR push_bit 16 sum2)"

text \<open>The branches of \<^verbatim>\<open>checksum\<close>: one byte, fewer than 16 bytes, blocks.\<close>

definition adler_one :: "uint \<times> uint \<Rightarrow> byte \<Rightarrow> uint \<times> uint" where
  "adler_one = (\<lambda>(sum1, sum2) b.
     let sum1 = sum1 + ucast b;
         sum1 = (if ADLER32_BASE \<le> sum1 then sum1 - ADLER32_BASE else sum1);
         sum2 = sum2 + sum1;
         sum2 = (if ADLER32_BASE \<le> sum2 then sum2 - ADLER32_BASE else sum2)
     in (sum1, sum2))"

definition adler_short :: "uint \<times> uint \<Rightarrow> byte list \<Rightarrow> uint \<times> uint" where
  "adler_short s data =
     (let (sum1, sum2) = foldl adler_DO1 s data
      in (if ADLER32_BASE \<le> sum1 then sum1 - ADLER32_BASE else sum1, sum2 mod ADLER32_BASE))"

definition adler_long :: "uint \<times> uint \<Rightarrow> byte list \<Rightarrow> uint \<times> uint" where
  "adler_long s data =
     (let (s, data) = blocks ADLER32_NMAX (\<lambda>s d. adler_MOD (adler_DO16s (ADLER32_NMAX div 16) s d)) s data
      in if data = [] then s
         else let (s, data) = blocks 16 adler_DO16 s data in adler_MOD (foldl adler_DO1 s data))"

definition adler32_checksum :: "byte list option \<Rightarrow> nat \<Rightarrow> uint \<Rightarrow> uint option" where
  "adler32_checksum data len sum1 =
     (let s = (sum1 AND 0xffff, drop_bit 16 sum1 AND 0xffff) in
      case data of
        None \<Rightarrow> if len = 1 then None else Some 1
      | Some buf \<Rightarrow>
          if length buf < len then None
          else
            let d = take len buf in
            Some (adler_join (if len = 1 then adler_one s (hd d)
                              else if len < 16 then adler_short s d
                              else adler_long s d)))"

text \<open>The test for a negative length is the test of an unsigned value.\<close>

definition adler32_combine :: "uint \<Rightarrow> uint \<Rightarrow> uint64 \<Rightarrow> uint" where
  "adler32_combine adler1 adler2 len2 =
     (if len2 < 0 then 0xffffffff
      else
        let len2 = len2 mod 65521;
            rem = ucast len2 :: uint;
            sum1 = adler1 AND 0xffff;
            sum2 = rem * sum1;
            sum2 = sum2 mod ADLER32_BASE;
            sum1 = sum1 + ((adler2 AND 0xffff) + ADLER32_BASE - 1);
            sum2 = sum2 + ((drop_bit 16 adler1 AND 0xffff) + (drop_bit 16 adler2 AND 0xffff) + ADLER32_BASE - rem);
            sum1 = (if ADLER32_BASE \<le> sum1 then sum1 - ADLER32_BASE else sum1);
            sum1 = (if ADLER32_BASE \<le> sum1 then sum1 - ADLER32_BASE else sum1);
            sum2 = (if push_bit 1 ADLER32_BASE \<le> sum2 then sum2 - push_bit 1 ADLER32_BASE else sum2);
            sum2 = (if ADLER32_BASE \<le> sum2 then sum2 - ADLER32_BASE else sum2)
        in adler_join (sum1, sum2))"

section \<open>The sums without bounds\<close>

definition adler_step :: "nat \<times> nat \<Rightarrow> byte \<Rightarrow> nat \<times> nat" where
  "adler_step = (\<lambda>(a, b) x. (a + unat x, b + a + unat x))"

text \<open>The specification: both sums modulo 65521 after every byte.\<close>

definition adler_spec :: "nat \<times> nat \<Rightarrow> byte list \<Rightarrow> nat \<times> nat" where
  "adler_spec = foldl (\<lambda>(a, b) x. ((a + unat x) mod 65521, (b + a + unat x) mod 65521))"

definition words_of_sums :: "nat \<times> nat \<Rightarrow> uint \<times> uint" where
  "words_of_sums = (\<lambda>(a, b). (word_of_nat a, word_of_nat b))"

definition mods :: "nat \<times> nat \<Rightarrow> nat \<times> nat" where
  "mods = (\<lambda>(a, b). (a mod 65521, b mod 65521))"

lemma DO1_words: "foldl adler_DO1 (words_of_sums p) d = words_of_sums (foldl adler_step p d)"
proof (induction d arbitrary: p)
  case (Cons x d)
  have "(ucast x :: uint) = word_of_nat (unat x)" by simp
  then have "adler_DO1 (words_of_sums p) x = words_of_sums (adler_step p x)"
    by (simp add: adler_DO1_def words_of_sums_def adler_step_def ac_simps split: prod.splits del: of_nat_unat)
  then show ?case using Cons.IH by simp
qed simp

lemma spec_mods: "adler_spec (mods p) d = mods (foldl adler_step p d)"
proof (induction d arbitrary: p)
  case (Cons x d)
  have "adler_spec (mods p) (x # d) = adler_spec (mods (adler_step p x)) d"
  proof (cases p)
    case (Pair a b)
    have "(b mod 65521 + a mod 65521 + unat x) mod 65521 = (b + a + unat x) mod 65521"
      using mod_add_cong [OF mod_add_eq [of b 65521 a] refl [of "unat x mod 65521"]] .
    then show ?thesis by (simp add: Pair adler_spec_def mods_def adler_step_def mod_simps)
  qed
  then show ?case using Cons.IH by simp
qed (simp add: adler_spec_def)

lemma step_bounds:
  "fst (foldl adler_step (a, b) d) \<le> a + 255 * length d \<and>
   2 * snd (foldl adler_step (a, b) d) \<le> 2 * b + 2 * length d * a + 255 * (length d * (length d + 1))"
proof (induction d arbitrary: a b)
  case (Cons x d)
  have x: "unat x \<le> 255" using unsigned_less [of x, where 'a = nat] by simp
  have "2 * snd (foldl adler_step (a, b) (x # d)) \<le>
      2 * (b + a + unat x) + 2 * length d * (a + unat x) + 255 * (length d * (length d + 1))"
    using Cons [of "a + unat x" "b + a + unat x"] by (simp add: adler_step_def)
  also have "\<dots> \<le> 2 * b + 2 * length (x # d) * a + 255 * (length (x # d) * (length (x # d) + 1))"
  proof -
    have "length d * (unat x * 2) \<le> length d * 510" using x by (intro mult_le_mono) simp_all
    moreover have "2 * (b + a + unat x) + 2 * length d * (a + unat x) =
        2 * b + 2 * a + 2 * length d * a + 2 * unat x + length d * (unat x * 2)" by algebra
    moreover have "2 * b + 2 * length (x # d) * a + 255 * (length (x # d) * (length (x # d) + 1)) =
        2 * b + 2 * a + 2 * length d * a + 510 + length d * 510 + 255 * (length d * (length d + 1))"
      by (simp add: algebra_simps)
    ultimately show ?thesis using x by linarith
  qed
  finally show ?case using Cons [of "a + unat x" "b + a + unat x"] x by (simp add: adler_step_def)
qed simp

section \<open>No register overflows\<close>

definition reduced :: "nat \<times> nat \<Rightarrow> bool" where
  "reduced = (\<lambda>(a, b). a < 65521 \<and> b < 65521)"

lemma reduced_spec: "reduced p \<Longrightarrow> reduced (adler_spec p d)"
  by (induction d arbitrary: p) (auto simp: adler_spec_def reduced_def split: prod.splits)

lemma mods_reduced: "reduced p \<Longrightarrow> mods p = p"
  by (auto simp: reduced_def mods_def)

lemma word_mod: "n < 2 ^ 32 \<Longrightarrow> (word_of_nat n :: uint) mod 65521 = word_of_nat (n mod 65521)"
proof -
  assume n: "n < 2 ^ 32"
  have "unat ((word_of_nat n :: uint) mod 65521) = n mod 65521" using n by (simp add: unat_mod_distrib unat_of_nat)
  moreover have "unat (word_of_nat (n mod 65521) :: uint) = n mod 65521" by (simp add: unat_of_nat)
  ultimately show ?thesis by (simp add: word_unat_eq_iff)
qed

lemma sums_bounded:
  assumes "reduced p" "length d \<le> ADLER32_NMAX"
  shows "fst (foldl adler_step p d) < 2 ^ 32 \<and> snd (foldl adler_step p d) < 2 ^ 32"
proof -
  obtain a b where p: "p = (a, b)" "a \<le> 65520" "b \<le> 65520" using assms(1) by (cases p) (auto simp: reduced_def)
  have "length d * (length d + 1) \<le> 5552 * 5553" using mult_le_mono [OF assms(2), of "length d + 1" 5553] assms(2) by simp
  moreover have "length d * a \<le> 5552 * 65520" using mult_le_mono [OF assms(2) p(2)] by simp
  ultimately show ?thesis using step_bounds [of a b d] p assms(2) by simp
qed

lemma block_sums:
  assumes "reduced p" "length d \<le> ADLER32_NMAX"
  shows "adler_MOD (foldl adler_DO1 (words_of_sums p) d) = words_of_sums (adler_spec p d)"
proof -
  have "adler_MOD (foldl adler_DO1 (words_of_sums p) d) = words_of_sums (mods (foldl adler_step p d))"
    using sums_bounded [OF assms] unfolding DO1_words
    by (cases "foldl adler_step p d") (simp add: adler_MOD_def words_of_sums_def mods_def word_mod)
  then show ?thesis using spec_mods [of p d] mods_reduced [OF assms(1)] by simp
qed

lemma DO16s_foldl: "length d = 16 * n \<Longrightarrow> adler_DO16s n s d = foldl adler_DO1 s d"
proof (induction n arbitrary: s d)
  case (Suc n)
  then have "adler_DO16s (Suc n) s d = foldl adler_DO1 s (take 16 d @ drop 16 d)"
    by (simp only: foldl_append) (simp add: adler_DO16_def)
  then show ?case by simp
qed simp

lemma spec_append: "adler_spec p (d @ e) = adler_spec (adler_spec p d) e"
  by (simp add: adler_spec_def)

lemma nmax_blocks:
  assumes "reduced p"
    and "blocks ADLER32_NMAX (\<lambda>s d. adler_MOD (adler_DO16s (ADLER32_NMAX div 16) s d)) (words_of_sums p) data = (s, rest)"
  shows "\<exists>q. s = words_of_sums q \<and> reduced q \<and> adler_spec q rest = adler_spec p data \<and> length rest < ADLER32_NMAX"
  using assms
proof (induction "length data" arbitrary: p data rule: less_induct)
  case less
  let ?d = "take ADLER32_NMAX data"
  show ?case
  proof (cases "ADLER32_NMAX \<le> length data")
    case True
    then have d: "length ?d = 16 * (ADLER32_NMAX div 16)" by simp
    have "adler_MOD (adler_DO16s (ADLER32_NMAX div 16) (words_of_sums p) ?d) = words_of_sums (adler_spec p ?d)"
      unfolding DO16s_foldl [OF d] by (rule block_sums) (use less.prems(1) True in simp_all)
    then have b: "blocks ADLER32_NMAX (\<lambda>s d. adler_MOD (adler_DO16s (ADLER32_NMAX div 16) s d))
        (words_of_sums (adler_spec p ?d)) (drop ADLER32_NMAX data) = (s, rest)"
      using less.prems(2) True by (subst (asm) blocks.simps) simp
    have "length (drop ADLER32_NMAX data) < length data" using True by simp
    from less.hyps [OF this reduced_spec [OF less.prems(1)] b]
    show ?thesis by (simp flip: spec_append)
  next
    case False
    then have "words_of_sums p = s \<and> data = rest" using less.prems(2) by (subst (asm) blocks.simps) simp
    then show ?thesis using less.prems(1) False by (intro exI [of _ p]) auto
  qed
qed

lemma long_sums:
  assumes "reduced p" shows "adler_long (words_of_sums p) d = words_of_sums (adler_spec p d)"
proof -
  obtain s rest where b: "blocks ADLER32_NMAX (\<lambda>s d. adler_MOD (adler_DO16s (ADLER32_NMAX div 16) s d)) (words_of_sums p) d = (s, rest)"
    by fastforce
  then obtain q where q: "s = words_of_sums q" "reduced q" "adler_spec q rest = adler_spec p d" "length rest \<le> ADLER32_NMAX"
    using nmax_blocks [OF assms b] by (auto simp: less_imp_le)
  obtain s' rest' where b': "blocks 16 adler_DO16 s rest = (s', rest')" by fastforce
  have "foldl adler_DO1 s' rest' = foldl adler_DO1 s rest"
    by (rule blocks_foldl [OF _ b']) (simp add: adler_DO16_def)
  then have "adler_MOD (foldl adler_DO1 s' rest') = words_of_sums (adler_spec p d)"
    using block_sums [OF q(2,4)] q(1,3) by simp
  moreover have "rest = [] \<Longrightarrow> s = words_of_sums (adler_spec p d)" using q(1,3) by (simp add: adler_spec_def)
  ultimately show ?thesis unfolding adler_long_def b Let_def prod.case b' by simp
qed

lemma reduce_once:
  assumes "n < 2 * 65521"
  shows "(if ADLER32_BASE \<le> word_of_nat n then word_of_nat n - ADLER32_BASE else word_of_nat n) = (word_of_nat (n mod 65521) :: uint)"
proof -
  have u: "unat (word_of_nat n :: uint) = n" using assms by (simp only: unat_of_nat) simp
  show ?thesis
  proof (cases "65521 \<le> n")
    case True
    then have "n mod 65521 = n - 65521" using assms by (simp add: mod_if)
    moreover have "ADLER32_BASE \<le> word_of_nat n" using True u by (simp add: word_le_nat_alt)
    ultimately show ?thesis using True by (simp add: of_nat_diff)
  next
    case False
    then have "\<not> ADLER32_BASE \<le> word_of_nat n" using u by (simp add: word_le_nat_alt)
    then show ?thesis using False by simp
  qed
qed

lemma unat_mod_less:
  "unat (word_of_nat (n mod 65521) :: uint) = n mod 65521"
  by (simp only: unat_of_nat) simp

lemma short_sums:
  assumes "reduced p" "length d < 16"
  shows "adler_short (words_of_sums p) d = words_of_sums (adler_spec p d)"
proof -
  obtain a b where q: "foldl adler_step p d = (a, b)" by fastforce
  have f: "a < 2 * 65521" using step_bounds [of "fst p" "snd p" d] assms q by (auto simp: reduced_def split: prod.splits)
  have "length d \<le> ADLER32_NMAX" using assms(2) by simp
  then have "b < 2 ^ 32" using sums_bounded [OF assms(1)] q by fastforce
  then have "adler_short (words_of_sums p) d = words_of_sums (mods (a, b))"
    using reduce_once [OF f] unfolding adler_short_def DO1_words q
    by (simp add: words_of_sums_def mods_def word_mod)
  then show ?thesis using spec_mods [of p d] mods_reduced [OF assms(1)] q by simp
qed

lemma one_sums:
  assumes "reduced p" shows "adler_one (words_of_sums p) x = words_of_sums (adler_spec p [x])"
proof -
  obtain a b where p: "p = (a, b)" "a < 65521" "b < 65521" using assms by (cases p) (auto simp: reduced_def)
  have x: "unat x < 256" using unsigned_less [of x, where 'a = nat] by simp
  let ?a = "(a + unat x) mod 65521"
  have "(ucast x :: uint) = word_of_nat (unat x)" by simp
  then have s: "word_of_nat a + ucast x = (word_of_nat (a + unat x) :: uint)" by (simp del: of_nat_unat)
  have r: "(if ADLER32_BASE \<le> word_of_nat (a + unat x) then word_of_nat (a + unat x) - ADLER32_BASE else word_of_nat (a + unat x)) =
      (word_of_nat ?a :: uint)" by (rule reduce_once) (use p x in simp)
  have r': "(if ADLER32_BASE \<le> word_of_nat (b + ?a) then word_of_nat (b + ?a) - ADLER32_BASE else word_of_nat (b + ?a)) =
      (word_of_nat ((b + ?a) mod 65521) :: uint)"
    by (rule reduce_once) (use p mod_less_divisor [of 65521 "a + unat x"] in linarith)
  have "(b + ?a) mod 65521 = (b + a + unat x) mod 65521" by (simp add: mod_simps add.assoc)
  then show ?thesis unfolding adler_one_def words_of_sums_def p prod.case Let_def s r of_nat_add [symmetric] r'
    by (simp add: adler_spec_def)
qed

section \<open>The checksum\<close>

definition halves :: "uint \<Rightarrow> nat \<times> nat" where
  "halves s = (unat (s AND 0xffff), unat (drop_bit 16 s AND 0xffff))"

lemma and_mask16: "s AND 0xffff = take_bit 16 (s :: uint)"
  by (simp add: take_bit_eq_mask mask_eq_exp_minus_1)

lemma halves_words: "(s AND 0xffff, drop_bit 16 s AND 0xffff) = words_of_sums (halves s)"
  by (simp add: words_of_sums_def halves_def)

lemma halves_join:
  assumes "reduced p" shows "halves (adler_join (words_of_sums p)) = p"
proof -
  obtain a b where p: "p = (a, b)" "a < 2 ^ 16" "b < 2 ^ 16" using assms by (cases p) (auto simp: reduced_def)
  have t: "take_bit 16 (word_of_nat n :: uint) = word_of_nat n" if "n < 2 ^ 16" for n
    by (simp only: take_bit_of_nat take_bit_nat_eq_self [OF that])
  have bits: "\<not> bit (word_of_nat n :: uint) i" if "n < 2 ^ 16" "16 \<le> i" for n i
    using arg_cong [OF t [OF that(1)], of "\<lambda>x. bit x i"] that(2) by (simp add: bit_take_bit_iff)
  have "(word_of_nat a OR push_bit 16 (word_of_nat b)) AND 0xffff = (word_of_nat a :: uint)"
    unfolding and_mask16 by (rule bit_word_eqI) (use bits [OF p(2)] in \<open>auto simp: bit_simps not_le\<close>)
  moreover have "drop_bit 16 (word_of_nat a OR push_bit 16 (word_of_nat b)) AND 0xffff = (word_of_nat b :: uint)"
    unfolding and_mask16 by (rule bit_word_eqI)
      (use bits [OF p(2)] bits [OF p(3)] in \<open>auto simp: bit_simps not_le\<close>)
  moreover have "unat (word_of_nat n :: uint) = n" if "n < 2 ^ 16" for n using that by (simp only: unat_of_nat) simp
  ultimately show ?thesis using p by (simp add: halves_def adler_join_def words_of_sums_def)
qed

lemma adler32_spec:
  assumes "reduced (halves s)"
  shows "adler32_checksum (Some d) (length d) s = Some (adler_join (words_of_sums (adler_spec (halves s) d)))"
proof -
  have "d = [hd d]" if "length d = 1" using that by (cases d) auto
  then show ?thesis unfolding adler32_checksum_def Let_def halves_words
    using one_sums [OF assms] short_sums [OF assms] long_sums [OF assms] by auto
qed

interpretation adler: checksum_stream "\<lambda>_ d s. adler32_checksum (Some d) (length d) s" "\<lambda>_. True" "\<lambda>s. reduced (halves s)"
  by unfold_locales (auto simp: adler32_spec halves_join reduced_spec spec_append simp del: length_append)

text \<open>C21:
  \<^verbatim>\<open>SL_Crypto_Adler32::checksum\<close> with reduced halves of the start value reads no byte outside the
  data and computes the two sums modulo 65521 after every byte, although it reduces them only once in
  5552 bytes (no sum of that many bytes leaves 32 bits), by one subtraction after a single byte, and by
  one subtraction and one division below 16 bytes.  The halves of the result are the two sums, so it is
  a start value for more data.
\<close>

theorem adler32_sums:
  assumes "fst (halves s) < 65521" "snd (halves s) < 65521"
  shows "\<exists>r. adler32_checksum (Some d) (length d) s = Some r \<and> halves r = adler_spec (halves s) d"
proof -
  have "reduced (halves s)" using assms by (simp add: reduced_def case_prod_beta)
  then show ?thesis by (simp add: adler32_spec halves_join reduced_spec)
qed

theorem adler32_sums_witness:
  "\<exists>r. adler32_checksum (Some [255, 255]) 2 0xfff0fff0 = Some r \<and> halves r = adler_spec (65520, 65520) [255, 255]"
proof -
  have h: "halves 0xfff0fff0 = (65520, 65520)" by (simp add: halves_def)
  show ?thesis using adler32_sums [of "0xfff0fff0" "[255, 255]"] by (simp add: h numeral_2_eq_2)
qed

section \<open>Combination\<close>

lemma sub_once:
  assumes "n < 2 ^ 32" "k < 2 ^ 32"
  shows "(if word_of_nat k \<le> (word_of_nat n :: uint) then word_of_nat n - word_of_nat k else word_of_nat n) =
    (word_of_nat (if k \<le> n then n - k else n) :: uint)"
proof -
  have "unat (word_of_nat n :: uint) = n" "unat (word_of_nat k :: uint) = k"
    using assms by (simp_all only: unat_of_nat) simp_all
  then have le: "word_of_nat k \<le> (word_of_nat n :: uint) \<longleftrightarrow> k \<le> n" by (simp add: word_le_nat_alt)
  show ?thesis unfolding le by (simp add: of_nat_diff)
qed

lemma sub_mods:
  assumes "a < 3 * 65521" "b < 4 * 65521"
  shows "(let a = (if (65521 :: nat) \<le> a then a - 65521 else a) in if 65521 \<le> a then a - 65521 else a) = a mod 65521"
    "(let b = (if (131042 :: nat) \<le> b then b - 131042 else b) in if 65521 \<le> b then b - 65521 else b) = b mod 65521"
  using assms by (simp_all add: Let_def mod_if)

lemma step_affine:
  "foldl adler_step (a + c, b + e) d =
    (a + fst (foldl adler_step (c, e) d), b + length d * a + snd (foldl adler_step (c, e) d))"
proof (induction d arbitrary: b c e)
  case (Cons x d)
  have "adler_step (a + c, b + e) x = (a + (c + unat x), (b + a) + (e + c + unat x))"
    "adler_step (c, e) x = (c + unat x, e + c + unat x)" by (simp_all add: adler_step_def)
  then show ?case by (simp only: foldl.simps Cons) simp
qed simp

lemma combine_words:
  assumes "reduced (halves s1)" "reduced (halves s2)" "n = unat len2 mod 65521"
  shows "adler32_combine s1 s2 len2 =
    adler_join (words_of_sums
      ((fst (halves s1) + fst (halves s2) + 65520) mod 65521,
       (n * fst (halves s1) mod 65521 + snd (halves s1) + snd (halves s2) + (65521 - n)) mod 65521))"
proof -
  obtain a1 b1 a2 b2 where h: "halves s1 = (a1, b1)" "halves s2 = (a2, b2)" by fastforce
  have le: "a1 \<le> 65520" "b1 \<le> 65520" "a2 \<le> 65520" "b2 \<le> 65520" "n \<le> 65520"
    using assms mod_less_divisor [of 65521 "unat len2"] by (auto simp: h reduced_def)
  have w: "s1 AND 0xffff = word_of_nat a1" "drop_bit 16 s1 AND 0xffff = word_of_nat b1"
    "s2 AND 0xffff = word_of_nat a2" "drop_bit 16 s2 AND 0xffff = word_of_nat b2"
    using halves_words [of s1] halves_words [of s2] by (simp_all add: h words_of_sums_def)
  have "unat (len2 mod 65521) = n" by (simp add: assms(3) unat_mod_distrib)
  then have "unat (ucast (len2 mod 65521) :: uint) = n"
    using le(5) by (simp only: unsigned_ucast_eq) (simp add: take_bit_nat_eq_self)
  moreover have "ucast (len2 mod 65521) = (word_of_nat (unat (ucast (len2 mod 65521) :: uint)) :: uint)" by simp
  ultimately have r: "ucast (len2 mod 65521) = (word_of_nat n :: uint)" by simp
  define x u v where "x = n * a1 mod 65521" and "u = a1 + a2 + 65520" and "v = x + b1 + b2 + (65521 - n)"
  have x: "x \<le> 65520" by (simp add: x_def less_Suc_eq_le [symmetric])
  have uv: "u < 3 * 65521" "v < 4 * 65521" using le x by (simp_all add: u_def v_def)
  have "n * a1 \<le> 65520 * 65520" using le by (intro mult_le_mono)
  then have x': "(word_of_nat n * word_of_nat a1 :: uint) mod 65521 = word_of_nat x"
    using word_mod [of "n * a1"] by (simp add: x_def)
  have u': "word_of_nat a1 + (word_of_nat a2 + 65521 - 1) = (word_of_nat u :: uint)" by (simp add: u_def)
  have v': "word_of_nat x + (word_of_nat b1 + word_of_nat b2 + 65521 - word_of_nat n) = (word_of_nat v :: uint)"
    using le(5) by (simp add: v_def of_nat_diff)
  have n1: "(65521 :: uint) = word_of_nat 65521" "push_bit 1 (word_of_nat 65521 :: uint) = word_of_nat 131042"
    by simp_all
  define u1 v1 where "u1 = (if 65521 \<le> u then u - 65521 else u)" and "v1 = (if 131042 \<le> v then v - 131042 else v)"
  have b: "u < 2 ^ 32" "v < 2 ^ 32" "u1 < 2 ^ 32" "v1 < 2 ^ 32" using uv unfolding u1_def v1_def by auto
  have u2: "(if 65521 \<le> u1 then u1 - 65521 else u1) = u mod 65521" using sub_mods(1) [OF uv] by (simp only: u1_def Let_def)
  have v2: "(if 65521 \<le> v1 then v1 - 65521 else v1) = v mod 65521" using sub_mods(2) [OF uv] by (simp only: v1_def Let_def)
  have k: "(65521 :: nat) < 2 ^ 32" "(131042 :: nat) < 2 ^ 32" by simp_all
  have "\<not> len2 < 0" by simp
  then have "adler32_combine s1 s2 len2 = adler_join (word_of_nat (u mod 65521), word_of_nat (v mod 65521))"
    unfolding adler32_combine_def Let_def w r x' u' v'
    unfolding n1 sub_once [OF b(1) k(1)] sub_once [OF b(2) k(2)]
      u1_def [symmetric] v1_def [symmetric] sub_once [OF b(3) k(1)] sub_once [OF b(4) k(1)] u2 v2 by (simp only: if_False)
  then show ?thesis by (simp add: h words_of_sums_def u_def v_def x_def)
qed

text \<open>
  \<^verbatim>\<open>adler32_combine_\<close>: from the Adler-32 of one piece of data (with a reduced start value), the
  Adler-32 of the piece after it from the start value 1, and the length of the second, it computes the
  Adler-32 of the two together.  None of its 32-bit sums overflows.
\<close>

theorem adler32_combine_append:
  assumes "fst (halves s) < 65521" "snd (halves s) < 65521" "length d2 < 2 ^ 64"
    and "adler32_checksum (Some d1) (length d1) s = Some r1" "adler32_checksum (Some d2) (length d2) 1 = Some r2"
  shows "adler32_checksum (Some (d1 @ d2)) (length (d1 @ d2)) s =
    Some (adler32_combine r1 r2 (word_of_nat (length d2)))"
proof -
  let ?n = "length d2 mod 65521"
  have s: "reduced (halves s)" "reduced (halves 1)" using assms(1,2) by (simp_all add: reduced_def case_prod_beta halves_def)
  obtain a b where p: "adler_spec (halves s) d1 = (a, b)" by fastforce
  then have ab: "reduced (a, b)" using reduced_spec [OF s(1)] by metis
  obtain S W where SW: "foldl adler_step (0, 0) d2 = (S, W)" by fastforce
  have r1: "halves r1 = (a, b)" using assms(4) halves_join [OF ab] unfolding adler32_spec [OF s(1)] p by simp
  have "adler_spec (1, 0) d2 = ((1 + S) mod 65521, (length d2 + W) mod 65521)"
    using spec_mods [of "(1, 0)" d2] step_affine [of 1 0 0 0 d2] SW by (simp add: mods_def)
  then have "adler_spec (halves 1) d2 = ((1 + S) mod 65521, (length d2 + W) mod 65521)" by (simp add: halves_def)
  then have r2: "halves r2 = ((1 + S) mod 65521, (length d2 + W) mod 65521)"
    using assms(5) halves_join [OF reduced_spec [OF s(2), of d2]] unfolding adler32_spec [OF s(2)] by simp
  have n: "?n = unat (word_of_nat (length d2) :: uint64) mod 65521"
    using assms(3) by (simp only: unat_of_nat) simp
  have "reduced (halves r1)" "reduced (halves r2)" using ab by (simp_all add: r1 r2 reduced_def)
  note c = combine_words [OF this n]
  have "(a + (1 + S) mod 65521 + 65520) mod 65521 = (a + S) mod 65521"
  proof -
    have "(a + (1 + S) mod 65521 + 65520) mod 65521 = (a + (1 + S) + 65520) mod 65521"
      by (rule mod_add_cong [OF mod_add_right_eq refl])
    also have "a + (1 + S) + 65520 = a + S + 65521" by simp
    finally show ?thesis by simp
  qed
  moreover have "(?n * a mod 65521 + b + (length d2 + W) mod 65521 + (65521 - ?n)) mod 65521 =
      (b + length d2 * a + W) mod 65521"
  proof -
    obtain q where q: "length d2 = q * 65521 + ?n" by (metis div_mult_mod_eq)
    have "?n \<le> 65521" by (simp add: less_imp_le)
    then have z: "b + length d2 * a + W + (length d2 + (65521 - ?n)) = (b + length d2 * a + W) + (q + 1) * 65521"
      using q by (simp add: algebra_simps)
    have "(?n * a mod 65521 + b + (length d2 + W) mod 65521 + c) mod 65521 =
        (length d2 * a + b + (length d2 + W) + c) mod 65521" for c
      by (rule mod_add_cong [OF mod_add_cong [OF mod_add_cong [OF _ refl] _] refl]) (simp_all add: mod_simps)
    then have "(?n * a mod 65521 + b + (length d2 + W) mod 65521 + (65521 - ?n)) mod 65521 =
        (length d2 * a + b + (length d2 + W) + (65521 - ?n)) mod 65521" .
    also have "\<dots> = (b + length d2 * a + W + (length d2 + (65521 - ?n))) mod 65521" by (simp only: ac_simps)
    finally show ?thesis unfolding z by (simp only: mod_mult_self1)
  qed
  moreover have "adler_spec (a, b) d2 = ((a + S) mod 65521, (b + length d2 * a + W) mod 65521)"
    using spec_mods [of "(a, b)" d2] mods_reduced [OF ab] step_affine [of a 0 b 0 d2] SW by (simp add: mods_def)
  ultimately have "words_of_sums (adler_spec (halves s) (d1 @ d2)) =
      words_of_sums ((a + (1 + S) mod 65521 + 65520) mod 65521,
        (?n * a mod 65521 + b + (length d2 + W) mod 65521 + (65521 - ?n)) mod 65521)"
    by (simp only: spec_append p)
  then show ?thesis unfolding adler32_spec [OF s(1)] c r1 r2 fst_conv snd_conv by (simp only:)
qed

theorem adler32_combine_append_witness:
  "adler32_checksum (Some [97, 98, 99]) 3 1 = Some (adler32_combine 0x00620062 0x012900c6 2)"
proof -
  have h: "halves 1 = (1, 0)" by (simp add: halves_def)
  have r: "adler32_checksum (Some [97]) 1 1 = Some 0x00620062" "adler32_checksum (Some [98, 99]) 2 1 = Some 0x012900c6"
    by code_simp+
  have l: "length [98, 99 :: byte] = 2" "length [97 :: byte] = 1" "length ([97] @ [98, 99 :: byte]) = 3" by simp_all
  show ?thesis using adler32_combine_append [of 1 "[98, 99]" "[97]" "0x00620062" "0x012900c6"] unfolding l h
    using r by simp
qed

section \<open>The start value of the class\<close>

text \<open>
  The class starts at 0 and not at 1, the value it gives for the null pointer: with that start, zero
  bytes in front of the data change nothing.
\<close>

lemma leading_zeros:
  "adler32_checksum (Some (replicate k 0 @ d)) (k + length d) checksum_init = adler32_checksum (Some d) (length d) checksum_init"
proof -
  have h: "halves checksum_init = (0, 0)" by (simp add: checksum_init_def halves_def)
  have z: "adler_spec (0, 0) (replicate k 0) = (0, 0)" by (induction k) (simp_all add: adler_spec_def)
  have r: "reduced (halves checksum_init)" by (simp add: h reduced_def)
  show ?thesis using adler32_spec [OF r, of "replicate k 0 @ d"] adler32_spec [OF r, of d] by (simp add: h spec_append z)
qed

end
