(* ===== verification/SL_Checksums.thy ===== *)
theory SL_Checksums
  imports SL_Checksum SL_Adler
begin

text \<open>
  What the cyclic checksums promise: each is the shift register of its polynomial on the bits of the
  data, whatever the alignment and the byte order; \<^verbatim>\<open>crc32_combine_\<close> gives the checksum of a
  whole from those of its parts; and each class is a stream, the interpretations of \<open>checksum_stream\<close>.
\<close>

section \<open>Bit by bit\<close>

text \<open>C19:
  \<^verbatim>\<open>SL_Crypto_CRC32::checksum\<close>, which works on aligned words with eight tables, is the reflected
  shift register of the polynomial 0xedb88320 on the complement of the start value, one bit at a time,
  complemented: on machines of either byte order and for every address of the data.  The null pointer
  gives 0.
\<close>

theorem crc32_bitwise:
  "crc32_checksum little addr (Some data) crc = NOT (crc_spec CRC32_POLY (NOT crc) data) \<and>
   crc32_checksum little addr None crc = 0"
  by (simp add: crc32_checksum_def crc32_little_spec crc32_big_little)

lemma crc64_spec: "foldl crc64_step c data = crc_spec CRC64_POLY c data"
  by (simp add: crc_spec_def crc64_step_bits [abs_def])

lemma crc16_spec: "foldl crc16_step c data = crc_left_spec CRC16_POLY c data"
  by (simp add: crc_left_spec_def crc16_step_bits [abs_def])

text \<open>
  The checksums of CRC-32C (four tables, aligned words), CRC-64 (one table) and CRC-16 (one table, the
  register shifting to the left) are the shift registers of their polynomials, one bit at a time; on no
  data each of them fails its assertion.
\<close>

theorem crcs_bitwise:
  "crc32c_checksum addr data c32 = (if data = [] then None else Some (NOT (crc_spec CRC32C_POLY (NOT c32) data))) \<and>
   crc64_checksum data c64 = (if data = [] then None else Some (crc_spec CRC64_POLY c64 data)) \<and>
   crc16_checksum data c16 = (if data = [] then None else Some (crc_left_spec CRC16_POLY c16 data))"
  by (simp_all add: crc32c_spec crc64_checksum_def crc64_spec crc16_checksum_def crc16_spec)

section \<open>Combination\<close>

lemma crc_spec_append: "crc_spec p c (d @ e) = crc_spec p (crc_spec p c d) e"
  by (simp add: crc_spec_def)

lemma crc_spec_xor: "crc_spec p (a XOR b) d = crc_bits p (8 * length d) a XOR crc_spec p b d"
proof (induction d arbitrary: a b)
  case (Cons x d)
  have "crc_spec p (a XOR b) (x # d) = crc_spec p (crc_bits p 8 a XOR crc_bits p 8 (b XOR ucast x)) d"
    by (simp add: crc_spec_def xor.assoc linearD [OF linear_crc_bits])
  also have "\<dots> = crc_bits p (8 * length d) (crc_bits p 8 a) XOR crc_spec p b (x # d)"
    unfolding Cons.IH by (simp add: crc_spec_def)
  finally show ?case using crc_bits_add [of p 8 "8 * length d" a] by simp
qed (simp add: crc_spec_def)

text \<open>The first matrix is that of one bit.\<close>

lemma columns_one_bit:
  "columns (0xedb88320 # map (\<lambda>n. push_bit (n - 1) 1) [1..<32]) (crc_bits CRC32_POLY 1)"
proof -
  have "(0xedb88320 # map (\<lambda>n. push_bit (n - 1) 1) [1..<32]) ! n = crc_bits CRC32_POLY 1 (2 ^ n)" if n: "n < 32" for n
  proof (cases n)
    case 0
    then show ?thesis by (simp add: CRC32_POLY_def crc_shift_def)
  next
    case (Suc m)
    then have "drop_bit 1 (2 ^ n :: uint) = push_bit m 1"
      using n by (intro bit_word_eqI) (auto simp: bit_simps)
    moreover have "\<not> bit (2 ^ n :: uint) 0" using Suc by (simp only: bit_exp_iff) simp
    ultimately show ?thesis using Suc n by (simp add: crc_shift_def)
  qed
  then show ?thesis by (simp add: columns_def)
qed

lemma crc32_combine_bits:
  "crc32_combine c1 c2 len = Some (if len = 0 then c1 else crc_bits CRC32_POLY (8 * unat len) c1 XOR c2)"
proof -
  let ?m = "0xedb88320 # map (\<lambda>n. push_bit (n - 1) 1) [1..<32]"
  obtain ev where ev: "gf2_matrix_square ?m = Some ev" "columns ev (crc_bits CRC32_POLY 2)"
    using crc_bits_columns_square [OF columns_one_bit] by auto
  obtain od where od: "gf2_matrix_square ev = Some od" "columns od (crc_bits CRC32_POLY 4)"
    using crc_bits_columns_square [OF ev(2)] by auto
  show ?thesis
    unfolding crc32_combine_def Let_def ev(1) by (simp add: od(1) combine_loop_bits [OF od(2)])
qed

text \<open>C20:
  \<^verbatim>\<open>crc32_combine_\<close> returns (its loop over the bits of the length ends and it never reads past its
  matrices), and from the checksum of one piece of data, that of the piece after it and the length of
  the second it computes the checksum of the two pieces together.
\<close>

theorem crc32_combine_append:
  assumes "length d2 < 2 ^ 64"
  shows "crc32_combine (crc32_checksum little a (Some d1) s) (crc32_checksum little b (Some d2) 0)
      (word_of_nat (length d2)) = Some (crc32_checksum little c (Some (d1 @ d2)) s)"
proof -
  let ?c1 = "crc32_checksum little a (Some d1) s"
  note spec = crc32_checksum_def option.case crc32_little_spec crc32_big_little if_cancel
  have n: "unat (word_of_nat (length d2) :: uint64) = length d2"
    using assms by (simp only: unat_of_nat) simp
  have z: "(word_of_nat (length d2) :: uint64) = 0 \<longleftrightarrow> d2 = []"
    using unat_eq_zero [of "word_of_nat (length d2) :: uint64"] unfolding n by (simp only: length_0_conv)
  have "crc_spec CRC32_POLY (NOT s) d1 = ?c1 XOR NOT 0"
    by (simp only: spec bit.xor_compl_right bit.xor_compl_left bit.double_compl xor.right_neutral)
  then have "crc_spec CRC32_POLY (NOT s) (d1 @ d2) =
      crc_bits CRC32_POLY (8 * length d2) ?c1 XOR crc_spec CRC32_POLY (NOT 0) d2"
    by (simp only: crc_spec_append crc_spec_xor)
  then have "NOT (crc_spec CRC32_POLY (NOT s) (d1 @ d2)) =
      crc_bits CRC32_POLY (8 * length d2) ?c1 XOR NOT (crc_spec CRC32_POLY (NOT 0) d2)"
    by (simp only: bit.xor_compl_right)
  then show ?thesis unfolding crc32_combine_bits n z by (simp add: spec crc_spec_append) (simp add: crc_spec_def)
qed

theorem crc32_combine_append_witness:
  "crc32_combine (crc32_checksum True 1 (Some [1, 2, 3]) 0) (crc32_checksum True 6 (Some [4, 5]) 0) 2 =
   Some (crc32_checksum True 3 (Some [1, 2, 3, 4, 5]) 0)"
  using crc32_combine_append [of "[4, 5]" True 1 "[1, 2, 3]" 0 6 3] by simp

section \<open>Masks\<close>

lemma rotate_back:
  assumes "m + n = 32"
  shows "drop_bit m (drop_bit n c OR push_bit m c) OR push_bit n (drop_bit n c OR push_bit m c) = (c :: uint)"
proof (rule bit_word_eqI)
  fix i assume "i < LENGTH(32)"
  then show "bit (drop_bit m (drop_bit n c OR push_bit m c) OR push_bit n (drop_bit n c OR push_bit m c)) i = bit c i"
    using assms by (cases "i < n") (auto simp: bit_simps dest: bit_imp_le_length)
qed

text \<open>
  The mask of a CRC-32C that is stored beside data (\<^verbatim>\<open>CRC32C_Mask\<close>) is undone by
  \<^verbatim>\<open>CRC32C_Unmask\<close> and undoes it: a rotation by 15 bits and a constant, modulo \<open>2^32\<close>.
\<close>

theorem crc32c_mask_roundtrip: "CRC32C_Unmask (CRC32C_Mask crc) = crc \<and> CRC32C_Mask (CRC32C_Unmask crc) = crc"
proof -
  have "drop_bit 17 (drop_bit 15 c OR push_bit 17 c) OR push_bit 15 (drop_bit 15 c OR push_bit 17 c) = c"
    "drop_bit 15 (drop_bit 17 c OR push_bit 15 c) OR push_bit 17 (drop_bit 17 c OR push_bit 15 c) = c" for c :: uint
    by (rule rotate_back, simp)+
  then show ?thesis by (simp only: CRC32C_Mask_def CRC32C_Unmask_def Let_def add_diff_cancel_right' diff_add_cancel simp_thms)
qed

section \<open>Streams\<close>

interpretation crc16s: checksum_stream "\<lambda>_. crc16_checksum" "\<lambda>d. d \<noteq> []" "\<lambda>_. True"
  by unfold_locales (auto simp: crc16_checksum_def)

interpretation crc64s: checksum_stream "\<lambda>_. crc64_checksum" "\<lambda>d. d \<noteq> []" "\<lambda>_. True"
  by unfold_locales (auto simp: crc64_checksum_def)

interpretation crc32cs: checksum_stream crc32c_checksum "\<lambda>d. d \<noteq> []" "\<lambda>_. True"
  by unfold_locales (auto simp: crc32c_spec crc_spec_append)

interpretation crc32s: checksum_stream "\<lambda>a d s. Some (crc32_checksum little a (Some d) s)" "\<lambda>_. True" "\<lambda>_. True"
  by unfold_locales (auto simp: crc32_checksum_def crc32_little_spec crc32_big_little crc_spec_append)

text \<open>C22:
  The checksum classes as streams.  For CRC-16, CRC-32C, CRC-64, CRC-32 and Adler-32 alike: \<^verbatim>\<open>update\<close> with
  pieces of data one after the other, at whatever addresses, and \<^verbatim>\<open>final\<close> into a large enough
  buffer store the same bytes, return the same size and leave the same state as one \<^verbatim>\<open>final\<close> with all the
  data at any address; that state is the initial one, so the next stream starts afresh.
\<close>

theorem checksum_streams:
  assumes "ps \<noteq> []" "\<forall>p \<in> set ps. snd p \<noteq> []" "8 \<le> len"
  shows "streams_as_whole 2 (\<lambda>_. crc16_checksum) ps a len \<and>
    streams_as_whole 4 crc32c_checksum ps a len \<and>
    streams_as_whole 8 (\<lambda>_. crc64_checksum) ps a len \<and>
    streams_as_whole 4 (\<lambda>a d s. Some (crc32_checksum little a (Some d) s)) ps a len \<and>
    streams_as_whole 4 (\<lambda>_ d s. adler32_checksum (Some d) (length d) s) ps a len"
proof -
  have ok: "list_all (\<lambda>p. snd p \<noteq> []) ps" "list_all (\<lambda>p. True) ps" using assms(2) by (simp_all add: list_all_iff)
  have len: "2 \<le> len" "4 \<le> len" using assms(3) by simp_all
  have r: "reduced (halves checksum_init)" by (simp add: reduced_def halves_def checksum_init_def)
  show ?thesis
    by (intro conjI crc16s.stream_whole [OF assms(1) ok(1) TrueI len(1)] crc32cs.stream_whole [OF assms(1) ok(1) TrueI len(2)]
        crc64s.stream_whole [OF assms(1) ok(1) TrueI assms(3)] crc32s.stream_whole [OF assms(1) ok(2) TrueI len(2)]
        adler.stream_whole [OF assms(1) ok(2) r len(2)])
qed

theorem checksum_streams_witness:
  "streams_as_whole 4 crc32c_checksum [(3, [49, 50]), (5, [51])] 0 8 \<and>
   streams_as_whole 2 (\<lambda>_. crc16_checksum) [(3, [49, 50]), (5, [51])] 0 8"
  using checksum_streams [of "[(3, [49, 50]), (5, [51])]" 8 0] by simp

end
