(* ===== verification/SL_Memory_Cases.thy ===== *)
theory SL_Memory_Cases
  imports SL_Prelude
begin

text \<open>
  The 256 cases of each of the two switches of \<^verbatim>\<open>SL_Utility_Memory.cpp\<close>, as lists of the macros
  \<^verbatim>\<open>MOD0\<close> (eight bytes, and on) to \<^verbatim>\<open>MOD7\<close> (the last one to seven bytes).
\<close>

datatype mod_op = MOD0 | MOD1 | MOD2 | MOD3 | MOD4 | MOD5 | MOD6 | MOD7

section \<open>\<^verbatim>\<open>memcpy\<close>\<close>

definition memcpy_cases_1 :: "(nat \<times> mod_op list) list" where
  "memcpy_cases_1 =
    [(1, [MOD1]),
     (2, [MOD2]),
     (3, [MOD3]),
     (4, [MOD4]),
     (5, [MOD5]),
     (6, [MOD6]),
     (7, [MOD7]),
     (8, [MOD0]),
     (9, [MOD0, MOD1]),
     (10, [MOD0, MOD2]),
     (11, [MOD0, MOD3]),
     (12, [MOD0, MOD4]),
     (13, [MOD0, MOD5]),
     (14, [MOD0, MOD6]),
     (15, [MOD0, MOD7]),
     (16, [MOD0, MOD0]),
     (17, [MOD0, MOD0, MOD1]),
     (18, [MOD0, MOD0, MOD2]),
     (19, [MOD0, MOD0, MOD3]),
     (20, [MOD0, MOD0, MOD4]),
     (21, [MOD0, MOD0, MOD5]),
     (22, [MOD0, MOD0, MOD6]),
     (23, [MOD0, MOD0, MOD7]),
     (24, [MOD0, MOD0, MOD0]),
     (25, [MOD0, MOD0, MOD0, MOD1]),
     (26, [MOD0, MOD0, MOD0, MOD2]),
     (27, [MOD0, MOD0, MOD0, MOD3]),
     (28, [MOD0, MOD0, MOD0, MOD4]),
     (29, [MOD0, MOD0, MOD0, MOD5]),
     (30, [MOD0, MOD0, MOD0, MOD6])]"

definition memcpy_cases_2 :: "(nat \<times> mod_op list) list" where
  "memcpy_cases_2 =
    [(31, [MOD0, MOD0, MOD0, MOD7]),
     (32, [MOD0, MOD0, MOD0, MOD0]),
     (33, [MOD0, MOD0, MOD0, MOD0, MOD1]),
     (34, [MOD0, MOD0, MOD0, MOD0, MOD2]),
     (35, [MOD0, MOD0, MOD0, MOD0, MOD3]),
     (36, [MOD0, MOD0, MOD0, MOD0, MOD4]),
     (37, [MOD0, MOD0, MOD0, MOD0, MOD5]),
     (38, [MOD0, MOD0, MOD0, MOD0, MOD6]),
     (39, [MOD0, MOD0, MOD0, MOD0, MOD7]),
     (40, [MOD0, MOD0, MOD0, MOD0, MOD0]),
     (41, [MOD0, MOD0, MOD0, MOD0, MOD0, MOD1]),
     (42, [MOD0, MOD0, MOD0, MOD0, MOD0, MOD2]),
     (43, [MOD0, MOD0, MOD0, MOD0, MOD0, MOD3]),
     (44, [MOD0, MOD0, MOD0, MOD0, MOD0, MOD4]),
     (45, [MOD0, MOD0, MOD0, MOD0, MOD0, MOD5]),
     (46, [MOD0, MOD0, MOD0, MOD0, MOD0, MOD6]),
     (47, [MOD0, MOD0, MOD0, MOD0, MOD0, MOD7]),
     (48, [MOD0, MOD0, MOD0, MOD0, MOD0, MOD0]),
     (49, [MOD0, MOD0, MOD0, MOD0, MOD0, MOD0, MOD1]),
     (50, [MOD0, MOD0, MOD0, MOD0, MOD0, MOD0, MOD2]),
     (51, [MOD0, MOD0, MOD0, MOD0, MOD0, MOD0, MOD3]),
     (52, [MOD0, MOD0, MOD0, MOD0, MOD0, MOD0, MOD4]),
     (53, [MOD0, MOD0, MOD0, MOD0, MOD0, MOD0, MOD5]),
     (54, [MOD0, MOD0, MOD0, MOD0, MOD0, MOD0, MOD6]),
     (55, [MOD0, MOD0, MOD0, MOD0, MOD0, MOD0, MOD7]),
     (56, [MOD0, MOD0, MOD0, MOD0, MOD0, MOD0, MOD0]),
     (57, [MOD0, MOD0, MOD0, MOD0, MOD0, MOD0, MOD0, MOD1]),
     (58, [MOD0, MOD0, MOD0, MOD0, MOD0, MOD0, MOD0, MOD2]),
     (59, [MOD0, MOD0, MOD0, MOD0, MOD0, MOD0, MOD0, MOD3]),
     (60, [MOD0, MOD0, MOD0, MOD0, MOD0, MOD0, MOD0, MOD4])]"

definition memcpy_cases_3 :: "(nat \<times> mod_op list) list" where
  "memcpy_cases_3 =
    [(61, [MOD0, MOD0, MOD0, MOD0, MOD0, MOD0, MOD0, MOD5]),
     (62, [MOD0, MOD0, MOD0, MOD0, MOD0, MOD0, MOD0, MOD6]),
     (63, [MOD0, MOD0, MOD0, MOD0, MOD0, MOD0, MOD0, MOD7]),
     (64, [MOD0, MOD0, MOD0, MOD0, MOD0, MOD0, MOD0, MOD0]),
     (65, [MOD0, MOD0, MOD0, MOD0, MOD0, MOD0, MOD0, MOD0, MOD1]),
     (66, [MOD0, MOD0, MOD0, MOD0, MOD0, MOD0, MOD0, MOD0, MOD2]),
     (67, [MOD0, MOD0, MOD0, MOD0, MOD0, MOD0, MOD0, MOD0, MOD3]),
     (68, [MOD0, MOD0, MOD0, MOD0, MOD0, MOD0, MOD0, MOD0, MOD4]),
     (69, [MOD0, MOD0, MOD0, MOD0, MOD0, MOD0, MOD0, MOD0, MOD5]),
     (70, [MOD0, MOD0, MOD0, MOD0, MOD0, MOD0, MOD0, MOD0, MOD6]),
     (71, [MOD0, MOD0, MOD0, MOD0, MOD0, MOD0, MOD0, MOD0, MOD7]),
     (72, [MOD0, MOD0, MOD0, MOD0, MOD0, MOD0, MOD0, MOD0, MOD0]),
     (73, [MOD0, MOD0, MOD0, MOD0, MOD0, MOD0, MOD0, MOD0, MOD0, MOD1]),
     (74, [MOD0, MOD0, MOD0, MOD0, MOD0, MOD0, MOD0, MOD0, MOD0, MOD2]),
     (75, [MOD0, MOD0, MOD0, MOD0, MOD0, MOD0, MOD0, MOD0, MOD0, MOD3]),
     (76, [MOD0, MOD0, MOD0, MOD0, MOD0, MOD0, MOD0, MOD0, MOD0, MOD4]),
     (77, [MOD0, MOD0, MOD0, MOD0, MOD0, MOD0, MOD0, MOD0, MOD0, MOD5]),
     (78, [MOD0, MOD0, MOD0, MOD0, MOD0, MOD0, MOD0, MOD0, MOD0, MOD6]),
     (79, [MOD0, MOD0, MOD0, MOD0, MOD0, MOD0, MOD0, MOD0, MOD0, MOD7]),
     (80, [MOD0, MOD0, MOD0, MOD0, MOD0, MOD0, MOD0, MOD0, MOD0, MOD0]),
     (81, [MOD0, MOD0, MOD0, MOD0, MOD0, MOD0, MOD0, MOD0, MOD0, MOD0, MOD1]),
     (82, [MOD0, MOD0, MOD0, MOD0, MOD0, MOD0, MOD0, MOD0, MOD0, MOD0, MOD2]),
     (83, [MOD0, MOD0, MOD0, MOD0, MOD0, MOD0, MOD0, MOD0, MOD0, MOD0, MOD3]),
     (84, [MOD0, MOD0, MOD0, MOD0, MOD0, MOD0, MOD0, MOD0, MOD0, MOD0, MOD4]),
     (85, [MOD0, MOD0, MOD0, MOD0, MOD0, MOD0, MOD0, MOD0, MOD0, MOD0, MOD5]),
     (86, [MOD0, MOD0, MOD0, MOD0, MOD0, MOD0, MOD0, MOD0, MOD0, MOD0, MOD6]),
     (87, [MOD0, MOD0, MOD0, MOD0, MOD0, MOD0, MOD0, MOD0, MOD0, MOD0, MOD7]),
     (88, [MOD0, MOD0, MOD0, MOD0, MOD0, MOD0, MOD0, MOD0, MOD0, MOD0, MOD0]),
     (89, [MOD0, MOD0, MOD0, MOD0, MOD0, MOD0, MOD0, MOD0, MOD0, MOD0, MOD0, MOD1])]"

definition memcpy_cases_4 :: "(nat \<times> mod_op list) list" where
  "memcpy_cases_4 =
    [(90, [MOD0, MOD0, MOD0, MOD0, MOD0, MOD0, MOD0, MOD0, MOD0, MOD0, MOD0, MOD2]),
     (91, [MOD0, MOD0, MOD0, MOD0, MOD0, MOD0, MOD0, MOD0, MOD0, MOD0, MOD0, MOD3]),
     (92, [MOD0, MOD0, MOD0, MOD0, MOD0, MOD0, MOD0, MOD0, MOD0, MOD0, MOD0, MOD4]),
     (93, [MOD0, MOD0, MOD0, MOD0, MOD0, MOD0, MOD0, MOD0, MOD0, MOD0, MOD0, MOD5]),
     (94, [MOD0, MOD0, MOD0, MOD0, MOD0, MOD0, MOD0, MOD0, MOD0, MOD0, MOD0, MOD6]),
     (95, [MOD0, MOD0, MOD0, MOD0, MOD0, MOD0, MOD0, MOD0, MOD0, MOD0, MOD0, MOD7]),
     (96, [MOD0, MOD0, MOD0, MOD0, MOD0, MOD0, MOD0, MOD0, MOD0, MOD0, MOD0, MOD0]),
     (97, [MOD0, MOD0, MOD0, MOD0, MOD0, MOD0, MOD0, MOD0, MOD0, MOD0, MOD0, MOD0, MOD1]),
     (98, [MOD0, MOD0, MOD0, MOD0, MOD0, MOD0, MOD0, MOD0, MOD0, MOD0, MOD0, MOD0, MOD2]),
     (99, [MOD0, MOD0, MOD0, MOD0, MOD0, MOD0, MOD0, MOD0, MOD0, MOD0, MOD0, MOD0, MOD3]),
     (100, [MOD0, MOD0, MOD0, MOD0, MOD0, MOD0, MOD0, MOD0, MOD0, MOD0, MOD0, MOD0, MOD4]),
     (101, [MOD0, MOD0, MOD0, MOD0, MOD0, MOD0, MOD0, MOD0, MOD0, MOD0, MOD0, MOD0, MOD5]),
     (102, [MOD0, MOD0, MOD0, MOD0, MOD0, MOD0, MOD0, MOD0, MOD0, MOD0, MOD0, MOD0, MOD6]),
     (103, [MOD0, MOD0, MOD0, MOD0, MOD0, MOD0, MOD0, MOD0, MOD0, MOD0, MOD0, MOD0, MOD7]),
     (104, [MOD0, MOD0, MOD0, MOD0, MOD0, MOD0, MOD0, MOD0, MOD0, MOD0, MOD0, MOD0, MOD0]),
     (105, [MOD0, MOD0, MOD0, MOD0, MOD0, MOD0, MOD0, MOD0, MOD0, MOD0, MOD0, MOD0, MOD0, MOD1]),
     (106, [MOD0, MOD0, MOD0, MOD0, MOD0, MOD0, MOD0, MOD0, MOD0, MOD0, MOD0, MOD0, MOD0, MOD2]),
     (107, [MOD0, MOD0, MOD0, MOD0, MOD0, MOD0, MOD0, MOD0, MOD0, MOD0, MOD0, MOD0, MOD0, MOD3]),
     (108, [MOD0, MOD0, MOD0, MOD0, MOD0, MOD0, MOD0, MOD0, MOD0, MOD0, MOD0, MOD0, MOD0, MOD4]),
     (109, [MOD0, MOD0, MOD0, MOD0, MOD0, MOD0, MOD0, MOD0, MOD0, MOD0, MOD0, MOD0, MOD0, MOD5]),
     (110, [MOD0, MOD0, MOD0, MOD0, MOD0, MOD0, MOD0, MOD0, MOD0, MOD0, MOD0, MOD0, MOD0, MOD6]),
     (111, [MOD0, MOD0, MOD0, MOD0, MOD0, MOD0, MOD0, MOD0, MOD0, MOD0, MOD0, MOD0, MOD0, MOD7]),
     (112, [MOD0, MOD0, MOD0, MOD0, MOD0, MOD0, MOD0, MOD0, MOD0, MOD0, MOD0, MOD0, MOD0, MOD0]),
     (113, [MOD0, MOD0, MOD0, MOD0, MOD0, MOD0, MOD0, MOD0, MOD0, MOD0, MOD0, MOD0, MOD0, MOD0, MOD1]),
     (114, [MOD0, MOD0, MOD0, MOD0, MOD0, MOD0, MOD0, MOD0, MOD0, MOD0, MOD0, MOD0, MOD0, MOD0, MOD2]),
     (115, [MOD0, MOD0, MOD0, MOD0, MOD0, MOD0, MOD0, MOD0, MOD0, MOD0, MOD0, MOD0, MOD0, MOD0, MOD3]),
     (116, [MOD0, MOD0, MOD0, MOD0, MOD0, MOD0, MOD0, MOD0, MOD0, MOD0, MOD0, MOD0, MOD0, MOD0, MOD4]),
     (117, [MOD0, MOD0, MOD0, MOD0, MOD0, MOD0, MOD0, MOD0, MOD0, MOD0, MOD0, MOD0, MOD0, MOD0, MOD5]),
     (118, [MOD0, MOD0, MOD0, MOD0, MOD0, MOD0, MOD0, MOD0, MOD0, MOD0, MOD0, MOD0, MOD0, MOD0, MOD6]),
     (119, [MOD0, MOD0, MOD0, MOD0, MOD0, MOD0, MOD0, MOD0, MOD0, MOD0, MOD0, MOD0, MOD0, MOD0, MOD7])]"

definition memcpy_cases_5 :: "(nat \<times> mod_op list) list" where
  "memcpy_cases_5 =
    [(120, [MOD0, MOD0, MOD0, MOD0, MOD0, MOD0, MOD0, MOD0, MOD0, MOD0, MOD0, MOD0, MOD0, MOD0, MOD0]),
     (121, [MOD0, MOD0, MOD0, MOD0, MOD0, MOD0, MOD0, MOD0, MOD0, MOD0, MOD0, MOD0, MOD0, MOD0, MOD0, MOD1]),
     (122, [MOD0, MOD0, MOD0, MOD0, MOD0, MOD0, MOD0, MOD0, MOD0, MOD0, MOD0, MOD0, MOD0, MOD0, MOD0, MOD2]),
     (123, [MOD0, MOD0, MOD0, MOD0, MOD0, MOD0, MOD0, MOD0, MOD0, MOD0, MOD0, MOD0, MOD0, MOD0, MOD0, MOD3]),
     (124, [MOD0, MOD0, MOD0, MOD0, MOD0, MOD0, MOD0, MOD0, MOD0, MOD0, MOD0, MOD0, MOD0, MOD0, MOD0, MOD4]),
     (125, [MOD0, MOD0, MOD0, MOD0, MOD0, MOD0, MOD0, MOD0, MOD0, MOD0, MOD0, MOD0, MOD0, MOD0, MOD0, MOD5]),
     (126, [MOD0, MOD0, MOD0, MOD0, MOD0, MOD0, MOD0, MOD0, MOD0, MOD0, MOD0, MOD0, MOD0, MOD0, MOD0, MOD6]),
     (127, [MOD0, MOD0, MOD0, MOD0, MOD0, MOD0, MOD0, MOD0, MOD0, MOD0, MOD0, MOD0, MOD0, MOD0, MOD0, MOD7]),
     (128, [MOD0, MOD0, MOD0, MOD0, MOD0, MOD0, MOD0, MOD0, MOD0, MOD0, MOD0, MOD0, MOD0, MOD0, MOD0, MOD0]),
     (129, [MOD0, MOD0, MOD0, MOD0, MOD0, MOD0, MOD0, MOD0, MOD0, MOD0, MOD0, MOD0, MOD0, MOD0, MOD0, MOD0,
        MOD1]),
     (130, [MOD0, MOD0, MOD0, MOD0, MOD0, MOD0, MOD0, MOD0, MOD0, MOD0, MOD0, MOD0, MOD0, MOD0, MOD0, MOD0,
        MOD2]),
     (131, [MOD0, MOD0, MOD0, MOD0, MOD0, MOD0, MOD0, MOD0, MOD0, MOD0, MOD0, MOD0, MOD0, MOD0, MOD0, MOD0,
        MOD3]),
     (132, [MOD0, MOD0, MOD0, MOD0, MOD0, MOD0, MOD0, MOD0, MOD0, MOD0, MOD0, MOD0, MOD0, MOD0, MOD0, MOD0,
        MOD4]),
     (133, [MOD0, MOD0, MOD0, MOD0, MOD0, MOD0, MOD0, MOD0, MOD0, MOD0, MOD0, MOD0, MOD0, MOD0, MOD0, MOD0,
        MOD5]),
     (134, [MOD0, MOD0, MOD0, MOD0, MOD0, MOD0, MOD0, MOD0, MOD0, MOD0, MOD0, MOD0, MOD0, MOD0, MOD0, MOD0,
        MOD6]),
     (135, [MOD0, MOD0, MOD0, MOD0, MOD0, MOD0, MOD0, MOD0, MOD0, MOD0, MOD0, MOD0, MOD0, MOD0, MOD0, MOD0,
        MOD7]),
     (136, [MOD0, MOD0, MOD0, MOD0, MOD0, MOD0, MOD0, MOD0, MOD0, MOD0, MOD0, MOD0, MOD0, MOD0, MOD0, MOD0,
        MOD0]),
     (137, [MOD0, MOD0, MOD0, MOD0, MOD0, MOD0, MOD0, MOD0, MOD0, MOD0, MOD0, MOD0, MOD0, MOD0, MOD0, MOD0,
        MOD0, MOD1]),
     (138, [MOD0, MOD0, MOD0, MOD0, MOD0, MOD0, MOD0, MOD0, MOD0, MOD0, MOD0, MOD0, MOD0, MOD0, MOD0, MOD0,
        MOD0, MOD2]),
     (139, [MOD0, MOD0, MOD0, MOD0, MOD0, MOD0, MOD0, MOD0, MOD0, MOD0, MOD0, MOD0, MOD0, MOD0, MOD0, MOD0,
        MOD0, MOD3]),
     (140, [MOD0, MOD0, MOD0, MOD0, MOD0, MOD0, MOD0, MOD0, MOD0, MOD0, MOD0, MOD0, MOD0, MOD0, MOD0, MOD0,
        MOD0, MOD4]),
     (141, [MOD0, MOD0, MOD0, MOD0, MOD0, MOD0, MOD0, MOD0, MOD0, MOD0, MOD0, MOD0, MOD0, MOD0, MOD0, MOD0,
        MOD0, MOD5]),
     (142, [MOD0, MOD0, MOD0, MOD0, MOD0, MOD0, MOD0, MOD0, MOD0, MOD0, MOD0, MOD0, MOD0, MOD0, MOD0, MOD0,
        MOD0, MOD6]),
     (143, [MOD0, MOD0, MOD0, MOD0, MOD0, MOD0, MOD0, MOD0, MOD0, MOD0, MOD0, MOD0, MOD0, MOD0, MOD0, MOD0,
        MOD0, MOD7]),
     (144, [MOD0, MOD0, MOD0, MOD0, MOD0, MOD0, MOD0, MOD0, MOD0, MOD0, MOD0, MOD0, MOD0, MOD0, MOD0, MOD0,
        MOD0, MOD0]),
     (145, [MOD0, MOD0, MOD0, MOD0, MOD0, MOD0, MOD0, MOD0, MOD0, MOD0, MOD0, MOD0, MOD0, MOD0, MOD0, MOD0,
        MOD0, MOD0, MOD1]),
     (146, [MOD0, MOD0, MOD0, MOD0, MOD0, MOD0, MOD0, MOD0, MOD0, MOD0, MOD0, MOD0, MOD0, MOD0, MOD0, MOD0,
        MOD0, MOD0, MOD2]),
     (147, [MOD0, MOD0, MOD0, MOD0, MOD0, MOD0, MOD0, MOD0, MOD0, MOD0, MOD0, MOD0, MOD0, MOD0, MOD0, MOD0,
        MOD0, MOD0, MOD3]),
     (148, [MOD0, MOD0, MOD0, MOD0, MOD0, MOD0, MOD0, MOD0, MOD0, MOD0, MOD0, MOD0, MOD0, MOD0, MOD0, MOD0,
        MOD0, MOD0, MOD4])]"

definition memcpy_cases_6 :: "(nat \<times> mod_op list) list" where
  "memcpy_cases_6 =
    [(149, [MOD0, MOD0, MOD0, MOD0, MOD0, MOD0, MOD0, MOD0, MOD0, MOD0, MOD0, MOD0, MOD0, MOD0, MOD0, MOD0,
        MOD0, MOD0, MOD5]),
     (150, [MOD0, MOD0, MOD0, MOD0, MOD0, MOD0, MOD0, MOD0, MOD0, MOD0, MOD0, MOD0, MOD0, MOD0, MOD0, MOD0,
        MOD0, MOD0, MOD6]),
     (151, [MOD0, MOD0, MOD0, MOD0, MOD0, MOD0, MOD0, MOD0, MOD0, MOD0, MOD0, MOD0, MOD0, MOD0, MOD0, MOD0,
        MOD0, MOD0, MOD7]),
     (152, [MOD0, MOD0, MOD0, MOD0, MOD0, MOD0, MOD0, MOD0, MOD0, MOD0, MOD0, MOD0, MOD0, MOD0, MOD0, MOD0,
        MOD0, MOD0, MOD0]),
     (153, [MOD0, MOD0, MOD0, MOD0, MOD0, MOD0, MOD0, MOD0, MOD0, MOD0, MOD0, MOD0, MOD0, MOD0, MOD0, MOD0,
        MOD0, MOD0, MOD0, MOD1]),
     (154, [MOD0, MOD0, MOD0, MOD0, MOD0, MOD0, MOD0, MOD0, MOD0, MOD0, MOD0, MOD0, MOD0, MOD0, MOD0, MOD0,
        MOD0, MOD0, MOD0, MOD2]),
     (155, [MOD0, MOD0, MOD0, MOD0, MOD0, MOD0, MOD0, MOD0, MOD0, MOD0, MOD0, MOD0, MOD0, MOD0, MOD0, MOD0,
        MOD0, MOD0, MOD0, MOD3]),
     (156, [MOD0, MOD0, MOD0, MOD0, MOD0, MOD0, MOD0, MOD0, MOD0, MOD0, MOD0, MOD0, MOD0, MOD0, MOD0, MOD0,
        MOD0, MOD0, MOD0, MOD4]),
     (157, [MOD0, MOD0, MOD0, MOD0, MOD0, MOD0, MOD0, MOD0, MOD0, MOD0, MOD0, MOD0, MOD0, MOD0, MOD0, MOD0,
        MOD0, MOD0, MOD0, MOD5]),
     (158, [MOD0, MOD0, MOD0, MOD0, MOD0, MOD0, MOD0, MOD0, MOD0, MOD0, MOD0, MOD0, MOD0, MOD0, MOD0, MOD0,
        MOD0, MOD0, MOD0, MOD6]),
     (159, [MOD0, MOD0, MOD0, MOD0, MOD0, MOD0, MOD0, MOD0, MOD0, MOD0, MOD0, MOD0, MOD0, MOD0, MOD0, MOD0,
        MOD0, MOD0, MOD0, MOD7]),
     (160, [MOD0, MOD0, MOD0, MOD0, MOD0, MOD0, MOD0, MOD0, MOD0, MOD0, MOD0, MOD0, MOD0, MOD0, MOD0, MOD0,
        MOD0, MOD0, MOD0, MOD0]),
     (161, [MOD0, MOD0, MOD0, MOD0, MOD0, MOD0, MOD0, MOD0, MOD0, MOD0, MOD0, MOD0, MOD0, MOD0, MOD0, MOD0,
        MOD0, MOD0, MOD0, MOD0, MOD1]),
     (162, [MOD0, MOD0, MOD0, MOD0, MOD0, MOD0, MOD0, MOD0, MOD0, MOD0, MOD0, MOD0, MOD0, MOD0, MOD0, MOD0,
        MOD0, MOD0, MOD0, MOD0, MOD2]),
     (163, [MOD0, MOD0, MOD0, MOD0, MOD0, MOD0, MOD0, MOD0, MOD0, MOD0, MOD0, MOD0, MOD0, MOD0, MOD0, MOD0,
        MOD0, MOD0, MOD0, MOD0, MOD3]),
     (164, [MOD0, MOD0, MOD0, MOD0, MOD0, MOD0, MOD0, MOD0, MOD0, MOD0, MOD0, MOD0, MOD0, MOD0, MOD0, MOD0,
        MOD0, MOD0, MOD0, MOD0, MOD4]),
     (165, [MOD0, MOD0, MOD0, MOD0, MOD0, MOD0, MOD0, MOD0, MOD0, MOD0, MOD0, MOD0, MOD0, MOD0, MOD0, MOD0,
        MOD0, MOD0, MOD0, MOD0, MOD5]),
     (166, [MOD0, MOD0, MOD0, MOD0, MOD0, MOD0, MOD0, MOD0, MOD0, MOD0, MOD0, MOD0, MOD0, MOD0, MOD0, MOD0,
        MOD0, MOD0, MOD0, MOD0, MOD6]),
     (167, [MOD0, MOD0, MOD0, MOD0, MOD0, MOD0, MOD0, MOD0, MOD0, MOD0, MOD0, MOD0, MOD0, MOD0, MOD0, MOD0,
        MOD0, MOD0, MOD0, MOD0, MOD7]),
     (168, [MOD0, MOD0, MOD0, MOD0, MOD0, MOD0, MOD0, MOD0, MOD0, MOD0, MOD0, MOD0, MOD0, MOD0, MOD0, MOD0,
        MOD0, MOD0, MOD0, MOD0, MOD0]),
     (169, [MOD0, MOD0, MOD0, MOD0, MOD0, MOD0, MOD0, MOD0, MOD0, MOD0, MOD0, MOD0, MOD0, MOD0, MOD0, MOD0,
        MOD0, MOD0, MOD0, MOD0, MOD0, MOD1]),
     (170, [MOD0, MOD0, MOD0, MOD0, MOD0, MOD0, MOD0, MOD0, MOD0, MOD0, MOD0, MOD0, MOD0, MOD0, MOD0, MOD0,
        MOD0, MOD0, MOD0, MOD0, MOD0, MOD2]),
     (171, [MOD0, MOD0, MOD0, MOD0, MOD0, MOD0, MOD0, MOD0, MOD0, MOD0, MOD0, MOD0, MOD0, MOD0, MOD0, MOD0,
        MOD0, MOD0, MOD0, MOD0, MOD0, MOD3]),
     (172, [MOD0, MOD0, MOD0, MOD0, MOD0, MOD0, MOD0, MOD0, MOD0, MOD0, MOD0, MOD0, MOD0, MOD0, MOD0, MOD0,
        MOD0, MOD0, MOD0, MOD0, MOD0, MOD4]),
     (173, [MOD0, MOD0, MOD0, MOD0, MOD0, MOD0, MOD0, MOD0, MOD0, MOD0, MOD0, MOD0, MOD0, MOD0, MOD0, MOD0,
        MOD0, MOD0, MOD0, MOD0, MOD0, MOD5])]"

definition memcpy_cases_7 :: "(nat \<times> mod_op list) list" where
  "memcpy_cases_7 =
    [(174, [MOD0, MOD0, MOD0, MOD0, MOD0, MOD0, MOD0, MOD0, MOD0, MOD0, MOD0, MOD0, MOD0, MOD0, MOD0, MOD0,
        MOD0, MOD0, MOD0, MOD0, MOD0, MOD6]),
     (175, [MOD0, MOD0, MOD0, MOD0, MOD0, MOD0, MOD0, MOD0, MOD0, MOD0, MOD0, MOD0, MOD0, MOD0, MOD0, MOD0,
        MOD0, MOD0, MOD0, MOD0, MOD0, MOD7]),
     (176, [MOD0, MOD0, MOD0, MOD0, MOD0, MOD0, MOD0, MOD0, MOD0, MOD0, MOD0, MOD0, MOD0, MOD0, MOD0, MOD0,
        MOD0, MOD0, MOD0, MOD0, MOD0, MOD0]),
     (177, [MOD0, MOD0, MOD0, MOD0, MOD0, MOD0, MOD0, MOD0, MOD0, MOD0, MOD0, MOD0, MOD0, MOD0, MOD0, MOD0,
        MOD0, MOD0, MOD0, MOD0, MOD0, MOD0, MOD1]),
     (178, [MOD0, MOD0, MOD0, MOD0, MOD0, MOD0, MOD0, MOD0, MOD0, MOD0, MOD0, MOD0, MOD0, MOD0, MOD0, MOD0,
        MOD0, MOD0, MOD0, MOD0, MOD0, MOD0, MOD2]),
     (179, [MOD0, MOD0, MOD0, MOD0, MOD0, MOD0, MOD0, MOD0, MOD0, MOD0, MOD0, MOD0, MOD0, MOD0, MOD0, MOD0,
        MOD0, MOD0, MOD0, MOD0, MOD0, MOD0, MOD3]),
     (180, [MOD0, MOD0, MOD0, MOD0, MOD0, MOD0, MOD0, MOD0, MOD0, MOD0, MOD0, MOD0, MOD0, MOD0, MOD0, MOD0,
        MOD0, MOD0, MOD0, MOD0, MOD0, MOD0, MOD4]),
     (181, [MOD0, MOD0, MOD0, MOD0, MOD0, MOD0, MOD0, MOD0, MOD0, MOD0, MOD0, MOD0, MOD0, MOD0, MOD0, MOD0,
        MOD0, MOD0, MOD0, MOD0, MOD0, MOD0, MOD5]),
     (182, [MOD0, MOD0, MOD0, MOD0, MOD0, MOD0, MOD0, MOD0, MOD0, MOD0, MOD0, MOD0, MOD0, MOD0, MOD0, MOD0,
        MOD0, MOD0, MOD0, MOD0, MOD0, MOD0, MOD6]),
     (183, [MOD0, MOD0, MOD0, MOD0, MOD0, MOD0, MOD0, MOD0, MOD0, MOD0, MOD0, MOD0, MOD0, MOD0, MOD0, MOD0,
        MOD0, MOD0, MOD0, MOD0, MOD0, MOD0, MOD7]),
     (184, [MOD0, MOD0, MOD0, MOD0, MOD0, MOD0, MOD0, MOD0, MOD0, MOD0, MOD0, MOD0, MOD0, MOD0, MOD0, MOD0,
        MOD0, MOD0, MOD0, MOD0, MOD0, MOD0, MOD0]),
     (185, [MOD0, MOD0, MOD0, MOD0, MOD0, MOD0, MOD0, MOD0, MOD0, MOD0, MOD0, MOD0, MOD0, MOD0, MOD0, MOD0,
        MOD0, MOD0, MOD0, MOD0, MOD0, MOD0, MOD0, MOD1]),
     (186, [MOD0, MOD0, MOD0, MOD0, MOD0, MOD0, MOD0, MOD0, MOD0, MOD0, MOD0, MOD0, MOD0, MOD0, MOD0, MOD0,
        MOD0, MOD0, MOD0, MOD0, MOD0, MOD0, MOD0, MOD2]),
     (187, [MOD0, MOD0, MOD0, MOD0, MOD0, MOD0, MOD0, MOD0, MOD0, MOD0, MOD0, MOD0, MOD0, MOD0, MOD0, MOD0,
        MOD0, MOD0, MOD0, MOD0, MOD0, MOD0, MOD0, MOD3]),
     (188, [MOD0, MOD0, MOD0, MOD0, MOD0, MOD0, MOD0, MOD0, MOD0, MOD0, MOD0, MOD0, MOD0, MOD0, MOD0, MOD0,
        MOD0, MOD0, MOD0, MOD0, MOD0, MOD0, MOD0, MOD4]),
     (189, [MOD0, MOD0, MOD0, MOD0, MOD0, MOD0, MOD0, MOD0, MOD0, MOD0, MOD0, MOD0, MOD0, MOD0, MOD0, MOD0,
        MOD0, MOD0, MOD0, MOD0, MOD0, MOD0, MOD0, MOD5]),
     (190, [MOD0, MOD0, MOD0, MOD0, MOD0, MOD0, MOD0, MOD0, MOD0, MOD0, MOD0, MOD0, MOD0, MOD0, MOD0, MOD0,
        MOD0, MOD0, MOD0, MOD0, MOD0, MOD0, MOD0, MOD6]),
     (191, [MOD0, MOD0, MOD0, MOD0, MOD0, MOD0, MOD0, MOD0, MOD0, MOD0, MOD0, MOD0, MOD0, MOD0, MOD0, MOD0,
        MOD0, MOD0, MOD0, MOD0, MOD0, MOD0, MOD0, MOD7]),
     (192, [MOD0, MOD0, MOD0, MOD0, MOD0, MOD0, MOD0, MOD0, MOD0, MOD0, MOD0, MOD0, MOD0, MOD0, MOD0, MOD0,
        MOD0, MOD0, MOD0, MOD0, MOD0, MOD0, MOD0, MOD0]),
     (193, [MOD0, MOD0, MOD0, MOD0, MOD0, MOD0, MOD0, MOD0, MOD0, MOD0, MOD0, MOD0, MOD0, MOD0, MOD0, MOD0,
        MOD0, MOD0, MOD0, MOD0, MOD0, MOD0, MOD0, MOD0, MOD1]),
     (194, [MOD0, MOD0, MOD0, MOD0, MOD0, MOD0, MOD0, MOD0, MOD0, MOD0, MOD0, MOD0, MOD0, MOD0, MOD0, MOD0,
        MOD0, MOD0, MOD0, MOD0, MOD0, MOD0, MOD0, MOD0, MOD2]),
     (195, [MOD0, MOD0, MOD0, MOD0, MOD0, MOD0, MOD0, MOD0, MOD0, MOD0, MOD0, MOD0, MOD0, MOD0, MOD0, MOD0,
        MOD0, MOD0, MOD0, MOD0, MOD0, MOD0, MOD0, MOD0, MOD3]),
     (196, [MOD0, MOD0, MOD0, MOD0, MOD0, MOD0, MOD0, MOD0, MOD0, MOD0, MOD0, MOD0, MOD0, MOD0, MOD0, MOD0,
        MOD0, MOD0, MOD0, MOD0, MOD0, MOD0, MOD0, MOD0, MOD4]),
     (197, [MOD0, MOD0, MOD0, MOD0, MOD0, MOD0, MOD0, MOD0, MOD0, MOD0, MOD0, MOD0, MOD0, MOD0, MOD0, MOD0,
        MOD0, MOD0, MOD0, MOD0, MOD0, MOD0, MOD0, MOD0, MOD5]),
     (198, [MOD0, MOD0, MOD0, MOD0, MOD0, MOD0, MOD0, MOD0, MOD0, MOD0, MOD0, MOD0, MOD0, MOD0, MOD0, MOD0,
        MOD0, MOD0, MOD0, MOD0, MOD0, MOD0, MOD0, MOD0, MOD6])]"

definition memcpy_cases_8 :: "(nat \<times> mod_op list) list" where
  "memcpy_cases_8 =
    [(199, [MOD0, MOD0, MOD0, MOD0, MOD0, MOD0, MOD0, MOD0, MOD0, MOD0, MOD0, MOD0, MOD0, MOD0, MOD0, MOD0,
        MOD0, MOD0, MOD0, MOD0, MOD0, MOD0, MOD0, MOD0, MOD7]),
     (200, [MOD0, MOD0, MOD0, MOD0, MOD0, MOD0, MOD0, MOD0, MOD0, MOD0, MOD0, MOD0, MOD0, MOD0, MOD0, MOD0,
        MOD0, MOD0, MOD0, MOD0, MOD0, MOD0, MOD0, MOD0, MOD0]),
     (201, [MOD0, MOD0, MOD0, MOD0, MOD0, MOD0, MOD0, MOD0, MOD0, MOD0, MOD0, MOD0, MOD0, MOD0, MOD0, MOD0,
        MOD0, MOD0, MOD0, MOD0, MOD0, MOD0, MOD0, MOD0, MOD0, MOD1]),
     (202, [MOD0, MOD0, MOD0, MOD0, MOD0, MOD0, MOD0, MOD0, MOD0, MOD0, MOD0, MOD0, MOD0, MOD0, MOD0, MOD0,
        MOD0, MOD0, MOD0, MOD0, MOD0, MOD0, MOD0, MOD0, MOD0, MOD2]),
     (203, [MOD0, MOD0, MOD0, MOD0, MOD0, MOD0, MOD0, MOD0, MOD0, MOD0, MOD0, MOD0, MOD0, MOD0, MOD0, MOD0,
        MOD0, MOD0, MOD0, MOD0, MOD0, MOD0, MOD0, MOD0, MOD0, MOD3]),
     (204, [MOD0, MOD0, MOD0, MOD0, MOD0, MOD0, MOD0, MOD0, MOD0, MOD0, MOD0, MOD0, MOD0, MOD0, MOD0, MOD0,
        MOD0, MOD0, MOD0, MOD0, MOD0, MOD0, MOD0, MOD0, MOD0, MOD4]),
     (205, [MOD0, MOD0, MOD0, MOD0, MOD0, MOD0, MOD0, MOD0, MOD0, MOD0, MOD0, MOD0, MOD0, MOD0, MOD0, MOD0,
        MOD0, MOD0, MOD0, MOD0, MOD0, MOD0, MOD0, MOD0, MOD0, MOD5]),
     (206, [MOD0, MOD0, MOD0, MOD0, MOD0, MOD0, MOD0, MOD0, MOD0, MOD0, MOD0, MOD0, MOD0, MOD0, MOD0, MOD0,
        MOD0, MOD0, MOD0, MOD0, MOD0, MOD0, MOD0, MOD0, MOD0, MOD6]),
     (207, [MOD0, MOD0, MOD0, MOD0, MOD0, MOD0, MOD0, MOD0, MOD0, MOD0, MOD0, MOD0, MOD0, MOD0, MOD0, MOD0,
        MOD0, MOD0, MOD0, MOD0, MOD0, MOD0, MOD0, MOD0, MOD0, MOD7]),
     (208, [MOD0, MOD0, MOD0, MOD0, MOD0, MOD0, MOD0, MOD0, MOD0, MOD0, MOD0, MOD0, MOD0, MOD0, MOD0, MOD0,
        MOD0, MOD0, MOD0, MOD0, MOD0, MOD0, MOD0, MOD0, MOD0, MOD0]),
     (209, [MOD0, MOD0, MOD0, MOD0, MOD0, MOD0, MOD0, MOD0, MOD0, MOD0, MOD0, MOD0, MOD0, MOD0, MOD0, MOD0,
        MOD0, MOD0, MOD0, MOD0, MOD0, MOD0, MOD0, MOD0, MOD0, MOD0, MOD1]),
     (210, [MOD0, MOD0, MOD0, MOD0, MOD0, MOD0, MOD0, MOD0, MOD0, MOD0, MOD0, MOD0, MOD0, MOD0, MOD0, MOD0,
        MOD0, MOD0, MOD0, MOD0, MOD0, MOD0, MOD0, MOD0, MOD0, MOD0, MOD2]),
     (211, [MOD0, MOD0, MOD0, MOD0, MOD0, MOD0, MOD0, MOD0, MOD0, MOD0, MOD0, MOD0, MOD0, MOD0, MOD0, MOD0,
        MOD0, MOD0, MOD0, MOD0, MOD0, MOD0, MOD0, MOD0, MOD0, MOD0, MOD3]),
     (212, [MOD0, MOD0, MOD0, MOD0, MOD0, MOD0, MOD0, MOD0, MOD0, MOD0, MOD0, MOD0, MOD0, MOD0, MOD0, MOD0,
        MOD0, MOD0, MOD0, MOD0, MOD0, MOD0, MOD0, MOD0, MOD0, MOD0, MOD4]),
     (213, [MOD0, MOD0, MOD0, MOD0, MOD0, MOD0, MOD0, MOD0, MOD0, MOD0, MOD0, MOD0, MOD0, MOD0, MOD0, MOD0,
        MOD0, MOD0, MOD0, MOD0, MOD0, MOD0, MOD0, MOD0, MOD0, MOD0, MOD5]),
     (214, [MOD0, MOD0, MOD0, MOD0, MOD0, MOD0, MOD0, MOD0, MOD0, MOD0, MOD0, MOD0, MOD0, MOD0, MOD0, MOD0,
        MOD0, MOD0, MOD0, MOD0, MOD0, MOD0, MOD0, MOD0, MOD0, MOD0, MOD6]),
     (215, [MOD0, MOD0, MOD0, MOD0, MOD0, MOD0, MOD0, MOD0, MOD0, MOD0, MOD0, MOD0, MOD0, MOD0, MOD0, MOD0,
        MOD0, MOD0, MOD0, MOD0, MOD0, MOD0, MOD0, MOD0, MOD0, MOD0, MOD7]),
     (216, [MOD0, MOD0, MOD0, MOD0, MOD0, MOD0, MOD0, MOD0, MOD0, MOD0, MOD0, MOD0, MOD0, MOD0, MOD0, MOD0,
        MOD0, MOD0, MOD0, MOD0, MOD0, MOD0, MOD0, MOD0, MOD0, MOD0, MOD0]),
     (217, [MOD0, MOD0, MOD0, MOD0, MOD0, MOD0, MOD0, MOD0, MOD0, MOD0, MOD0, MOD0, MOD0, MOD0, MOD0, MOD0,
        MOD0, MOD0, MOD0, MOD0, MOD0, MOD0, MOD0, MOD0, MOD0, MOD0, MOD0, MOD1]),
     (218, [MOD0, MOD0, MOD0, MOD0, MOD0, MOD0, MOD0, MOD0, MOD0, MOD0, MOD0, MOD0, MOD0, MOD0, MOD0, MOD0,
        MOD0, MOD0, MOD0, MOD0, MOD0, MOD0, MOD0, MOD0, MOD0, MOD0, MOD0, MOD2]),
     (219, [MOD0, MOD0, MOD0, MOD0, MOD0, MOD0, MOD0, MOD0, MOD0, MOD0, MOD0, MOD0, MOD0, MOD0, MOD0, MOD0,
        MOD0, MOD0, MOD0, MOD0, MOD0, MOD0, MOD0, MOD0, MOD0, MOD0, MOD0, MOD3]),
     (220, [MOD0, MOD0, MOD0, MOD0, MOD0, MOD0, MOD0, MOD0, MOD0, MOD0, MOD0, MOD0, MOD0, MOD0, MOD0, MOD0,
        MOD0, MOD0, MOD0, MOD0, MOD0, MOD0, MOD0, MOD0, MOD0, MOD0, MOD0, MOD4]),
     (221, [MOD0, MOD0, MOD0, MOD0, MOD0, MOD0, MOD0, MOD0, MOD0, MOD0, MOD0, MOD0, MOD0, MOD0, MOD0, MOD0,
        MOD0, MOD0, MOD0, MOD0, MOD0, MOD0, MOD0, MOD0, MOD0, MOD0, MOD0, MOD5]),
     (222, [MOD0, MOD0, MOD0, MOD0, MOD0, MOD0, MOD0, MOD0, MOD0, MOD0, MOD0, MOD0, MOD0, MOD0, MOD0, MOD0,
        MOD0, MOD0, MOD0, MOD0, MOD0, MOD0, MOD0, MOD0, MOD0, MOD0, MOD0, MOD6]),
     (223, [MOD0, MOD0, MOD0, MOD0, MOD0, MOD0, MOD0, MOD0, MOD0, MOD0, MOD0, MOD0, MOD0, MOD0, MOD0, MOD0,
        MOD0, MOD0, MOD0, MOD0, MOD0, MOD0, MOD0, MOD0, MOD0, MOD0, MOD0, MOD7])]"

definition memcpy_cases_9 :: "(nat \<times> mod_op list) list" where
  "memcpy_cases_9 =
    [(224, [MOD0, MOD0, MOD0, MOD0, MOD0, MOD0, MOD0, MOD0, MOD0, MOD0, MOD0, MOD0, MOD0, MOD0, MOD0, MOD0,
        MOD0, MOD0, MOD0, MOD0, MOD0, MOD0, MOD0, MOD0, MOD0, MOD0, MOD0, MOD0]),
     (225, [MOD0, MOD0, MOD0, MOD0, MOD0, MOD0, MOD0, MOD0, MOD0, MOD0, MOD0, MOD0, MOD0, MOD0, MOD0, MOD0,
        MOD0, MOD0, MOD0, MOD0, MOD0, MOD0, MOD0, MOD0, MOD0, MOD0, MOD0, MOD0, MOD1]),
     (226, [MOD0, MOD0, MOD0, MOD0, MOD0, MOD0, MOD0, MOD0, MOD0, MOD0, MOD0, MOD0, MOD0, MOD0, MOD0, MOD0,
        MOD0, MOD0, MOD0, MOD0, MOD0, MOD0, MOD0, MOD0, MOD0, MOD0, MOD0, MOD0, MOD2]),
     (227, [MOD0, MOD0, MOD0, MOD0, MOD0, MOD0, MOD0, MOD0, MOD0, MOD0, MOD0, MOD0, MOD0, MOD0, MOD0, MOD0,
        MOD0, MOD0, MOD0, MOD0, MOD0, MOD0, MOD0, MOD0, MOD0, MOD0, MOD0, MOD0, MOD3]),
     (228, [MOD0, MOD0, MOD0, MOD0, MOD0, MOD0, MOD0, MOD0, MOD0, MOD0, MOD0, MOD0, MOD0, MOD0, MOD0, MOD0,
        MOD0, MOD0, MOD0, MOD0, MOD0, MOD0, MOD0, MOD0, MOD0, MOD0, MOD0, MOD0, MOD4]),
     (229, [MOD0, MOD0, MOD0, MOD0, MOD0, MOD0, MOD0, MOD0, MOD0, MOD0, MOD0, MOD0, MOD0, MOD0, MOD0, MOD0,
        MOD0, MOD0, MOD0, MOD0, MOD0, MOD0, MOD0, MOD0, MOD0, MOD0, MOD0, MOD0, MOD5]),
     (230, [MOD0, MOD0, MOD0, MOD0, MOD0, MOD0, MOD0, MOD0, MOD0, MOD0, MOD0, MOD0, MOD0, MOD0, MOD0, MOD0,
        MOD0, MOD0, MOD0, MOD0, MOD0, MOD0, MOD0, MOD0, MOD0, MOD0, MOD0, MOD0, MOD6]),
     (231, [MOD0, MOD0, MOD0, MOD0, MOD0, MOD0, MOD0, MOD0, MOD0, MOD0, MOD0, MOD0, MOD0, MOD0, MOD0, MOD0,
        MOD0, MOD0, MOD0, MOD0, MOD0, MOD0, MOD0, MOD0, MOD0, MOD0, MOD0, MOD0, MOD7]),
     (232, [MOD0, MOD0, MOD0, MOD0, MOD0, MOD0, MOD0, MOD0, MOD0, MOD0, MOD0, MOD0, MOD0, MOD0, MOD0, MOD0,
        MOD0, MOD0, MOD0, MOD0, MOD0, MOD0, MOD0, MOD0, MOD0, MOD0, MOD0, MOD0, MOD0]),
     (233, [MOD0, MOD0, MOD0, MOD0, MOD0, MOD0, MOD0, MOD0, MOD0, MOD0, MOD0, MOD0, MOD0, MOD0, MOD0, MOD0,
        MOD0, MOD0, MOD0, MOD0, MOD0, MOD0, MOD0, MOD0, MOD0, MOD0, MOD0, MOD0, MOD0, MOD1]),
     (234, [MOD0, MOD0, MOD0, MOD0, MOD0, MOD0, MOD0, MOD0, MOD0, MOD0, MOD0, MOD0, MOD0, MOD0, MOD0, MOD0,
        MOD0, MOD0, MOD0, MOD0, MOD0, MOD0, MOD0, MOD0, MOD0, MOD0, MOD0, MOD0, MOD0, MOD2]),
     (235, [MOD0, MOD0, MOD0, MOD0, MOD0, MOD0, MOD0, MOD0, MOD0, MOD0, MOD0, MOD0, MOD0, MOD0, MOD0, MOD0,
        MOD0, MOD0, MOD0, MOD0, MOD0, MOD0, MOD0, MOD0, MOD0, MOD0, MOD0, MOD0, MOD0, MOD3]),
     (236, [MOD0, MOD0, MOD0, MOD0, MOD0, MOD0, MOD0, MOD0, MOD0, MOD0, MOD0, MOD0, MOD0, MOD0, MOD0, MOD0,
        MOD0, MOD0, MOD0, MOD0, MOD0, MOD0, MOD0, MOD0, MOD0, MOD0, MOD0, MOD0, MOD0, MOD4]),
     (237, [MOD0, MOD0, MOD0, MOD0, MOD0, MOD0, MOD0, MOD0, MOD0, MOD0, MOD0, MOD0, MOD0, MOD0, MOD0, MOD0,
        MOD0, MOD0, MOD0, MOD0, MOD0, MOD0, MOD0, MOD0, MOD0, MOD0, MOD0, MOD0, MOD0, MOD5]),
     (238, [MOD0, MOD0, MOD0, MOD0, MOD0, MOD0, MOD0, MOD0, MOD0, MOD0, MOD0, MOD0, MOD0, MOD0, MOD0, MOD0,
        MOD0, MOD0, MOD0, MOD0, MOD0, MOD0, MOD0, MOD0, MOD0, MOD0, MOD0, MOD0, MOD0, MOD6]),
     (239, [MOD0, MOD0, MOD0, MOD0, MOD0, MOD0, MOD0, MOD0, MOD0, MOD0, MOD0, MOD0, MOD0, MOD0, MOD0, MOD0,
        MOD0, MOD0, MOD0, MOD0, MOD0, MOD0, MOD0, MOD0, MOD0, MOD0, MOD0, MOD0, MOD0, MOD7]),
     (240, [MOD0, MOD0, MOD0, MOD0, MOD0, MOD0, MOD0, MOD0, MOD0, MOD0, MOD0, MOD0, MOD0, MOD0, MOD0, MOD0,
        MOD0, MOD0, MOD0, MOD0, MOD0, MOD0, MOD0, MOD0, MOD0, MOD0, MOD0, MOD0, MOD0, MOD0]),
     (241, [MOD0, MOD0, MOD0, MOD0, MOD0, MOD0, MOD0, MOD0, MOD0, MOD0, MOD0, MOD0, MOD0, MOD0, MOD0, MOD0,
        MOD0, MOD0, MOD0, MOD0, MOD0, MOD0, MOD0, MOD0, MOD0, MOD0, MOD0, MOD0, MOD0, MOD0, MOD1]),
     (242, [MOD0, MOD0, MOD0, MOD0, MOD0, MOD0, MOD0, MOD0, MOD0, MOD0, MOD0, MOD0, MOD0, MOD0, MOD0, MOD0,
        MOD0, MOD0, MOD0, MOD0, MOD0, MOD0, MOD0, MOD0, MOD0, MOD0, MOD0, MOD0, MOD0, MOD0, MOD2]),
     (243, [MOD0, MOD0, MOD0, MOD0, MOD0, MOD0, MOD0, MOD0, MOD0, MOD0, MOD0, MOD0, MOD0, MOD0, MOD0, MOD0,
        MOD0, MOD0, MOD0, MOD0, MOD0, MOD0, MOD0, MOD0, MOD0, MOD0, MOD0, MOD0, MOD0, MOD0, MOD3]),
     (244, [MOD0, MOD0, MOD0, MOD0, MOD0, MOD0, MOD0, MOD0, MOD0, MOD0, MOD0, MOD0, MOD0, MOD0, MOD0, MOD0,
        MOD0, MOD0, MOD0, MOD0, MOD0, MOD0, MOD0, MOD0, MOD0, MOD0, MOD0, MOD0, MOD0, MOD0, MOD4]),
     (245, [MOD0, MOD0, MOD0, MOD0, MOD0, MOD0, MOD0, MOD0, MOD0, MOD0, MOD0, MOD0, MOD0, MOD0, MOD0, MOD0,
        MOD0, MOD0, MOD0, MOD0, MOD0, MOD0, MOD0, MOD0, MOD0, MOD0, MOD0, MOD0, MOD0, MOD0, MOD5]),
     (246, [MOD0, MOD0, MOD0, MOD0, MOD0, MOD0, MOD0, MOD0, MOD0, MOD0, MOD0, MOD0, MOD0, MOD0, MOD0, MOD0,
        MOD0, MOD0, MOD0, MOD0, MOD0, MOD0, MOD0, MOD0, MOD0, MOD0, MOD0, MOD0, MOD0, MOD0, MOD6]),
     (247, [MOD0, MOD0, MOD0, MOD0, MOD0, MOD0, MOD0, MOD0, MOD0, MOD0, MOD0, MOD0, MOD0, MOD0, MOD0, MOD0,
        MOD0, MOD0, MOD0, MOD0, MOD0, MOD0, MOD0, MOD0, MOD0, MOD0, MOD0, MOD0, MOD0, MOD0, MOD7]),
     (248, [MOD0, MOD0, MOD0, MOD0, MOD0, MOD0, MOD0, MOD0, MOD0, MOD0, MOD0, MOD0, MOD0, MOD0, MOD0, MOD0,
        MOD0, MOD0, MOD0, MOD0, MOD0, MOD0, MOD0, MOD0, MOD0, MOD0, MOD0, MOD0, MOD0, MOD0, MOD0])]"

definition memcpy_cases_10 :: "(nat \<times> mod_op list) list" where
  "memcpy_cases_10 =
    [(249, [MOD0, MOD0, MOD0, MOD0, MOD0, MOD0, MOD0, MOD0, MOD0, MOD0, MOD0, MOD0, MOD0, MOD0, MOD0, MOD0,
        MOD0, MOD0, MOD0, MOD0, MOD0, MOD0, MOD0, MOD0, MOD0, MOD0, MOD0, MOD0, MOD0, MOD0, MOD0, MOD1]),
     (250, [MOD0, MOD0, MOD0, MOD0, MOD0, MOD0, MOD0, MOD0, MOD0, MOD0, MOD0, MOD0, MOD0, MOD0, MOD0, MOD0,
        MOD0, MOD0, MOD0, MOD0, MOD0, MOD0, MOD0, MOD0, MOD0, MOD0, MOD0, MOD0, MOD0, MOD0, MOD0, MOD2]),
     (251, [MOD0, MOD0, MOD0, MOD0, MOD0, MOD0, MOD0, MOD0, MOD0, MOD0, MOD0, MOD0, MOD0, MOD0, MOD0, MOD0,
        MOD0, MOD0, MOD0, MOD0, MOD0, MOD0, MOD0, MOD0, MOD0, MOD0, MOD0, MOD0, MOD0, MOD0, MOD0, MOD3]),
     (252, [MOD0, MOD0, MOD0, MOD0, MOD0, MOD0, MOD0, MOD0, MOD0, MOD0, MOD0, MOD0, MOD0, MOD0, MOD0, MOD0,
        MOD0, MOD0, MOD0, MOD0, MOD0, MOD0, MOD0, MOD0, MOD0, MOD0, MOD0, MOD0, MOD0, MOD0, MOD0, MOD4]),
     (253, [MOD0, MOD0, MOD0, MOD0, MOD0, MOD0, MOD0, MOD0, MOD0, MOD0, MOD0, MOD0, MOD0, MOD0, MOD0, MOD0,
        MOD0, MOD0, MOD0, MOD0, MOD0, MOD0, MOD0, MOD0, MOD0, MOD0, MOD0, MOD0, MOD0, MOD0, MOD0, MOD5]),
     (254, [MOD0, MOD0, MOD0, MOD0, MOD0, MOD0, MOD0, MOD0, MOD0, MOD0, MOD0, MOD0, MOD0, MOD0, MOD0, MOD0,
        MOD0, MOD0, MOD0, MOD0, MOD0, MOD0, MOD0, MOD0, MOD0, MOD0, MOD0, MOD0, MOD0, MOD0, MOD0, MOD6]),
     (255, [MOD0, MOD0, MOD0, MOD0, MOD0, MOD0, MOD0, MOD0, MOD0, MOD0, MOD0, MOD0, MOD0, MOD0, MOD0, MOD0,
        MOD0, MOD0, MOD0, MOD0, MOD0, MOD0, MOD0, MOD0, MOD0, MOD0, MOD0, MOD0, MOD0, MOD0, MOD0, MOD7]),
     (256, [MOD0, MOD0, MOD0, MOD0, MOD0, MOD0, MOD0, MOD0, MOD0, MOD0, MOD0, MOD0, MOD0, MOD0, MOD0, MOD0,
        MOD0, MOD0, MOD0, MOD0, MOD0, MOD0, MOD0, MOD0, MOD0, MOD0, MOD0, MOD0, MOD0, MOD0, MOD0, MOD0])]"

definition memcpy_cases :: "(nat \<times> mod_op list) list" where
  "memcpy_cases =
     memcpy_cases_1 @
     memcpy_cases_2 @
     memcpy_cases_3 @
     memcpy_cases_4 @
     memcpy_cases_5 @
     memcpy_cases_6 @
     memcpy_cases_7 @
     memcpy_cases_8 @
     memcpy_cases_9 @
     memcpy_cases_10"

section \<open>\<^verbatim>\<open>memclear\<close>\<close>

definition memclear_cases_1 :: "(nat \<times> mod_op list) list" where
  "memclear_cases_1 =
    [(1, [MOD1]),
     (2, [MOD2]),
     (3, [MOD3]),
     (4, [MOD4]),
     (5, [MOD5]),
     (6, [MOD6]),
     (7, [MOD7]),
     (8, [MOD0]),
     (9, [MOD0, MOD1]),
     (10, [MOD0, MOD2]),
     (11, [MOD0, MOD3]),
     (12, [MOD0, MOD4]),
     (13, [MOD0, MOD5]),
     (14, [MOD0, MOD6]),
     (15, [MOD0, MOD7]),
     (16, [MOD0, MOD0]),
     (17, [MOD0, MOD0, MOD1]),
     (18, [MOD0, MOD0, MOD2]),
     (19, [MOD0, MOD0, MOD3]),
     (20, [MOD0, MOD0, MOD4]),
     (21, [MOD0, MOD0, MOD5]),
     (22, [MOD0, MOD0, MOD6]),
     (23, [MOD0, MOD0, MOD7]),
     (24, [MOD0, MOD0, MOD0]),
     (25, [MOD0, MOD0, MOD0, MOD1]),
     (26, [MOD0, MOD0, MOD0, MOD2]),
     (27, [MOD0, MOD0, MOD0, MOD3]),
     (28, [MOD0, MOD0, MOD0, MOD4]),
     (29, [MOD0, MOD0, MOD0, MOD5]),
     (30, [MOD0, MOD0, MOD0, MOD6])]"

definition memclear_cases_2 :: "(nat \<times> mod_op list) list" where
  "memclear_cases_2 =
    [(31, [MOD0, MOD0, MOD0, MOD7]),
     (32, [MOD0, MOD0, MOD0, MOD0]),
     (33, [MOD0, MOD0, MOD0, MOD0, MOD1]),
     (34, [MOD0, MOD0, MOD0, MOD0, MOD2]),
     (35, [MOD0, MOD0, MOD0, MOD0, MOD3]),
     (36, [MOD0, MOD0, MOD0, MOD0, MOD4]),
     (37, [MOD0, MOD0, MOD0, MOD0, MOD5]),
     (38, [MOD0, MOD0, MOD0, MOD0, MOD6]),
     (39, [MOD0, MOD0, MOD0, MOD0, MOD7]),
     (40, [MOD0, MOD0, MOD0, MOD0, MOD0]),
     (41, [MOD0, MOD0, MOD0, MOD0, MOD0, MOD1]),
     (42, [MOD0, MOD0, MOD0, MOD0, MOD0, MOD2]),
     (43, [MOD0, MOD0, MOD0, MOD0, MOD0, MOD3]),
     (44, [MOD0, MOD0, MOD0, MOD0, MOD0, MOD4]),
     (45, [MOD0, MOD0, MOD0, MOD0, MOD0, MOD5]),
     (46, [MOD0, MOD0, MOD0, MOD0, MOD0, MOD6]),
     (47, [MOD0, MOD0, MOD0, MOD0, MOD0, MOD7]),
     (48, [MOD0, MOD0, MOD0, MOD0, MOD0, MOD0]),
     (49, [MOD0, MOD0, MOD0, MOD0, MOD0, MOD0, MOD1]),
     (50, [MOD0, MOD0, MOD0, MOD0, MOD0, MOD0, MOD2]),
     (51, [MOD0, MOD0, MOD0, MOD0, MOD0, MOD0, MOD3]),
     (52, [MOD0, MOD0, MOD0, MOD0, MOD0, MOD0, MOD4]),
     (53, [MOD0, MOD0, MOD0, MOD0, MOD0, MOD0, MOD5]),
     (54, [MOD0, MOD0, MOD0, MOD0, MOD0, MOD0, MOD6]),
     (55, [MOD0, MOD0, MOD0, MOD0, MOD0, MOD0, MOD7]),
     (56, [MOD0, MOD0, MOD0, MOD0, MOD0, MOD0, MOD0]),
     (57, [MOD0, MOD0, MOD0, MOD0, MOD0, MOD0, MOD0, MOD1]),
     (58, [MOD0, MOD0, MOD0, MOD0, MOD0, MOD0, MOD0, MOD2]),
     (59, [MOD0, MOD0, MOD0, MOD0, MOD0, MOD0, MOD0, MOD3]),
     (60, [MOD0, MOD0, MOD0, MOD0, MOD0, MOD0, MOD0, MOD4])]"

definition memclear_cases_3 :: "(nat \<times> mod_op list) list" where
  "memclear_cases_3 =
    [(61, [MOD0, MOD0, MOD0, MOD0, MOD0, MOD0, MOD0, MOD5]),
     (62, [MOD0, MOD0, MOD0, MOD0, MOD0, MOD0, MOD0, MOD6]),
     (63, [MOD0, MOD0, MOD0, MOD0, MOD0, MOD0, MOD0, MOD7]),
     (64, [MOD0, MOD0, MOD0, MOD0, MOD0, MOD0, MOD0, MOD0]),
     (65, [MOD0, MOD0, MOD0, MOD0, MOD0, MOD0, MOD0, MOD0, MOD1]),
     (66, [MOD0, MOD0, MOD0, MOD0, MOD0, MOD0, MOD0, MOD0, MOD2]),
     (67, [MOD0, MOD0, MOD0, MOD0, MOD0, MOD0, MOD0, MOD0, MOD3]),
     (68, [MOD0, MOD0, MOD0, MOD0, MOD0, MOD0, MOD0, MOD0, MOD4]),
     (69, [MOD0, MOD0, MOD0, MOD0, MOD0, MOD0, MOD0, MOD0, MOD5]),
     (70, [MOD0, MOD0, MOD0, MOD0, MOD0, MOD0, MOD0, MOD0, MOD6]),
     (71, [MOD0, MOD0, MOD0, MOD0, MOD0, MOD0, MOD0, MOD0, MOD7]),
     (72, [MOD0, MOD0, MOD0, MOD0, MOD0, MOD0, MOD0, MOD0, MOD0]),
     (73, [MOD0, MOD0, MOD0, MOD0, MOD0, MOD0, MOD0, MOD0, MOD0, MOD1]),
     (74, [MOD0, MOD0, MOD0, MOD0, MOD0, MOD0, MOD0, MOD0, MOD0, MOD2]),
     (75, [MOD0, MOD0, MOD0, MOD0, MOD0, MOD0, MOD0, MOD0, MOD0, MOD3]),
     (76, [MOD0, MOD0, MOD0, MOD0, MOD0, MOD0, MOD0, MOD0, MOD0, MOD4]),
     (77, [MOD0, MOD0, MOD0, MOD0, MOD0, MOD0, MOD0, MOD0, MOD0, MOD5]),
     (78, [MOD0, MOD0, MOD0, MOD0, MOD0, MOD0, MOD0, MOD0, MOD0, MOD6]),
     (79, [MOD0, MOD0, MOD0, MOD0, MOD0, MOD0, MOD0, MOD0, MOD0, MOD7]),
     (80, [MOD0, MOD0, MOD0, MOD0, MOD0, MOD0, MOD0, MOD0, MOD0, MOD0]),
     (81, [MOD0, MOD0, MOD0, MOD0, MOD0, MOD0, MOD0, MOD0, MOD0, MOD0, MOD1]),
     (82, [MOD0, MOD0, MOD0, MOD0, MOD0, MOD0, MOD0, MOD0, MOD0, MOD0, MOD2]),
     (83, [MOD0, MOD0, MOD0, MOD0, MOD0, MOD0, MOD0, MOD0, MOD0, MOD0, MOD3]),
     (84, [MOD0, MOD0, MOD0, MOD0, MOD0, MOD0, MOD0, MOD0, MOD0, MOD0, MOD4]),
     (85, [MOD0, MOD0, MOD0, MOD0, MOD0, MOD0, MOD0, MOD0, MOD0, MOD0, MOD5]),
     (86, [MOD0, MOD0, MOD0, MOD0, MOD0, MOD0, MOD0, MOD0, MOD0, MOD0, MOD6]),
     (87, [MOD0, MOD0, MOD0, MOD0, MOD0, MOD0, MOD0, MOD0, MOD0, MOD0, MOD7]),
     (88, [MOD0, MOD0, MOD0, MOD0, MOD0, MOD0, MOD0, MOD0, MOD0, MOD0, MOD0]),
     (89, [MOD0, MOD0, MOD0, MOD0, MOD0, MOD0, MOD0, MOD0, MOD0, MOD0, MOD0, MOD1])]"

definition memclear_cases_4 :: "(nat \<times> mod_op list) list" where
  "memclear_cases_4 =
    [(90, [MOD0, MOD0, MOD0, MOD0, MOD0, MOD0, MOD0, MOD0, MOD0, MOD0, MOD0, MOD2]),
     (91, [MOD0, MOD0, MOD0, MOD0, MOD0, MOD0, MOD0, MOD0, MOD0, MOD0, MOD0, MOD3]),
     (92, [MOD0, MOD0, MOD0, MOD0, MOD0, MOD0, MOD0, MOD0, MOD0, MOD0, MOD0, MOD4]),
     (93, [MOD0, MOD0, MOD0, MOD0, MOD0, MOD0, MOD0, MOD0, MOD0, MOD0, MOD0, MOD5]),
     (94, [MOD0, MOD0, MOD0, MOD0, MOD0, MOD0, MOD0, MOD0, MOD0, MOD0, MOD0, MOD6]),
     (95, [MOD0, MOD0, MOD0, MOD0, MOD0, MOD0, MOD0, MOD0, MOD0, MOD0, MOD0, MOD7]),
     (96, [MOD0, MOD0, MOD0, MOD0, MOD0, MOD0, MOD0, MOD0, MOD0, MOD0, MOD0, MOD0]),
     (97, [MOD0, MOD0, MOD0, MOD0, MOD0, MOD0, MOD0, MOD0, MOD0, MOD0, MOD0, MOD0, MOD1]),
     (98, [MOD0, MOD0, MOD0, MOD0, MOD0, MOD0, MOD0, MOD0, MOD0, MOD0, MOD0, MOD0, MOD2]),
     (99, [MOD0, MOD0, MOD0, MOD0, MOD0, MOD0, MOD0, MOD0, MOD0, MOD0, MOD0, MOD0, MOD3]),
     (100, [MOD0, MOD0, MOD0, MOD0, MOD0, MOD0, MOD0, MOD0, MOD0, MOD0, MOD0, MOD0, MOD4]),
     (101, [MOD0, MOD0, MOD0, MOD0, MOD0, MOD0, MOD0, MOD0, MOD0, MOD0, MOD0, MOD0, MOD5]),
     (102, [MOD0, MOD0, MOD0, MOD0, MOD0, MOD0, MOD0, MOD0, MOD0, MOD0, MOD0, MOD0, MOD6]),
     (103, [MOD0, MOD0, MOD0, MOD0, MOD0, MOD0, MOD0, MOD0, MOD0, MOD0, MOD0, MOD0, MOD7]),
     (104, [MOD0, MOD0, MOD0, MOD0, MOD0, MOD0, MOD0, MOD0, MOD0, MOD0, MOD0, MOD0, MOD0]),
     (105, [MOD0, MOD0, MOD0, MOD0, MOD0, MOD0, MOD0, MOD0, MOD0, MOD0, MOD0, MOD0, MOD0, MOD1]),
     (106, [MOD0, MOD0, MOD0, MOD0, MOD0, MOD0, MOD0, MOD0, MOD0, MOD0, MOD0, MOD0, MOD0, MOD2]),
     (107, [MOD0, MOD0, MOD0, MOD0, MOD0, MOD0, MOD0, MOD0, MOD0, MOD0, MOD0, MOD0, MOD0, MOD3]),
     (108, [MOD0, MOD0, MOD0, MOD0, MOD0, MOD0, MOD0, MOD0, MOD0, MOD0, MOD0, MOD0, MOD0, MOD4]),
     (109, [MOD0, MOD0, MOD0, MOD0, MOD0, MOD0, MOD0, MOD0, MOD0, MOD0, MOD0, MOD0, MOD0, MOD5]),
     (110, [MOD0, MOD0, MOD0, MOD0, MOD0, MOD0, MOD0, MOD0, MOD0, MOD0, MOD0, MOD0, MOD0, MOD6]),
     (111, [MOD0, MOD0, MOD0, MOD0, MOD0, MOD0, MOD0, MOD0, MOD0, MOD0, MOD0, MOD0, MOD0, MOD7]),
     (112, [MOD0, MOD0, MOD0, MOD0, MOD0, MOD0, MOD0, MOD0, MOD0, MOD0, MOD0, MOD0, MOD0, MOD0]),
     (113, [MOD0, MOD0, MOD0, MOD0, MOD0, MOD0, MOD0, MOD0, MOD0, MOD0, MOD0, MOD0, MOD0, MOD0, MOD1]),
     (114, [MOD0, MOD0, MOD0, MOD0, MOD0, MOD0, MOD0, MOD0, MOD0, MOD0, MOD0, MOD0, MOD0, MOD0, MOD2]),
     (115, [MOD0, MOD0, MOD0, MOD0, MOD0, MOD0, MOD0, MOD0, MOD0, MOD0, MOD0, MOD0, MOD0, MOD0, MOD3]),
     (116, [MOD0, MOD0, MOD0, MOD0, MOD0, MOD0, MOD0, MOD0, MOD0, MOD0, MOD0, MOD0, MOD0, MOD0, MOD4]),
     (117, [MOD0, MOD0, MOD0, MOD0, MOD0, MOD0, MOD0, MOD0, MOD0, MOD0, MOD0, MOD0, MOD0, MOD0, MOD5]),
     (118, [MOD0, MOD0, MOD0, MOD0, MOD0, MOD0, MOD0, MOD0, MOD0, MOD0, MOD0, MOD0, MOD0, MOD0, MOD6]),
     (119, [MOD0, MOD0, MOD0, MOD0, MOD0, MOD0, MOD0, MOD0, MOD0, MOD0, MOD0, MOD0, MOD0, MOD0, MOD7])]"

definition memclear_cases_5 :: "(nat \<times> mod_op list) list" where
  "memclear_cases_5 =
    [(120, [MOD0, MOD0, MOD0, MOD0, MOD0, MOD0, MOD0, MOD0, MOD0, MOD0, MOD0, MOD0, MOD0, MOD0, MOD0]),
     (121, [MOD0, MOD0, MOD0, MOD0, MOD0, MOD0, MOD0, MOD0, MOD0, MOD0, MOD0, MOD0, MOD0, MOD0, MOD0, MOD1]),
     (122, [MOD0, MOD0, MOD0, MOD0, MOD0, MOD0, MOD0, MOD0, MOD0, MOD0, MOD0, MOD0, MOD0, MOD0, MOD0, MOD2]),
     (123, [MOD0, MOD0, MOD0, MOD0, MOD0, MOD0, MOD0, MOD0, MOD0, MOD0, MOD0, MOD0, MOD0, MOD0, MOD0, MOD3]),
     (124, [MOD0, MOD0, MOD0, MOD0, MOD0, MOD0, MOD0, MOD0, MOD0, MOD0, MOD0, MOD0, MOD0, MOD0, MOD0, MOD4]),
     (125, [MOD0, MOD0, MOD0, MOD0, MOD0, MOD0, MOD0, MOD0, MOD0, MOD0, MOD0, MOD0, MOD0, MOD0, MOD0, MOD5]),
     (126, [MOD0, MOD0, MOD0, MOD0, MOD0, MOD0, MOD0, MOD0, MOD0, MOD0, MOD0, MOD0, MOD0, MOD0, MOD0, MOD6]),
     (127, [MOD0, MOD0, MOD0, MOD0, MOD0, MOD0, MOD0, MOD0, MOD0, MOD0, MOD0, MOD0, MOD0, MOD0, MOD0, MOD7]),
     (128, [MOD0, MOD0, MOD0, MOD0, MOD0, MOD0, MOD0, MOD0, MOD0, MOD0, MOD0, MOD0, MOD0, MOD0, MOD0, MOD0]),
     (129, [MOD0, MOD0, MOD0, MOD0, MOD0, MOD0, MOD0, MOD0, MOD0, MOD0, MOD0, MOD0, MOD0, MOD0, MOD0, MOD0,
        MOD1]),
     (130, [MOD0, MOD0, MOD0, MOD0, MOD0, MOD0, MOD0, MOD0, MOD0, MOD0, MOD0, MOD0, MOD0, MOD0, MOD0, MOD0,
        MOD2]),
     (131, [MOD0, MOD0, MOD0, MOD0, MOD0, MOD0, MOD0, MOD0, MOD0, MOD0, MOD0, MOD0, MOD0, MOD0, MOD0, MOD0,
        MOD3]),
     (132, [MOD0, MOD0, MOD0, MOD0, MOD0, MOD0, MOD0, MOD0, MOD0, MOD0, MOD0, MOD0, MOD0, MOD0, MOD0, MOD0,
        MOD4]),
     (133, [MOD0, MOD0, MOD0, MOD0, MOD0, MOD0, MOD0, MOD0, MOD0, MOD0, MOD0, MOD0, MOD0, MOD0, MOD0, MOD0,
        MOD5]),
     (134, [MOD0, MOD0, MOD0, MOD0, MOD0, MOD0, MOD0, MOD0, MOD0, MOD0, MOD0, MOD0, MOD0, MOD0, MOD0, MOD0,
        MOD6]),
     (135, [MOD0, MOD0, MOD0, MOD0, MOD0, MOD0, MOD0, MOD0, MOD0, MOD0, MOD0, MOD0, MOD0, MOD0, MOD0, MOD0,
        MOD7]),
     (136, [MOD0, MOD0, MOD0, MOD0, MOD0, MOD0, MOD0, MOD0, MOD0, MOD0, MOD0, MOD0, MOD0, MOD0, MOD0, MOD0,
        MOD0]),
     (137, [MOD0, MOD0, MOD0, MOD0, MOD0, MOD0, MOD0, MOD0, MOD0, MOD0, MOD0, MOD0, MOD0, MOD0, MOD0, MOD0,
        MOD0, MOD1]),
     (138, [MOD0, MOD0, MOD0, MOD0, MOD0, MOD0, MOD0, MOD0, MOD0, MOD0, MOD0, MOD0, MOD0, MOD0, MOD0, MOD0,
        MOD0, MOD2]),
     (139, [MOD0, MOD0, MOD0, MOD0, MOD0, MOD0, MOD0, MOD0, MOD0, MOD0, MOD0, MOD0, MOD0, MOD0, MOD0, MOD0,
        MOD0, MOD3]),
     (140, [MOD0, MOD0, MOD0, MOD0, MOD0, MOD0, MOD0, MOD0, MOD0, MOD0, MOD0, MOD0, MOD0, MOD0, MOD0, MOD0,
        MOD0, MOD4]),
     (141, [MOD0, MOD0, MOD0, MOD0, MOD0, MOD0, MOD0, MOD0, MOD0, MOD0, MOD0, MOD0, MOD0, MOD0, MOD0, MOD0,
        MOD0, MOD5]),
     (142, [MOD0, MOD0, MOD0, MOD0, MOD0, MOD0, MOD0, MOD0, MOD0, MOD0, MOD0, MOD0, MOD0, MOD0, MOD0, MOD0,
        MOD0, MOD6]),
     (143, [MOD0, MOD0, MOD0, MOD0, MOD0, MOD0, MOD0, MOD0, MOD0, MOD0, MOD0, MOD0, MOD0, MOD0, MOD0, MOD0,
        MOD0, MOD7]),
     (144, [MOD0, MOD0, MOD0, MOD0, MOD0, MOD0, MOD0, MOD0, MOD0, MOD0, MOD0, MOD0, MOD0, MOD0, MOD0, MOD0,
        MOD0, MOD0]),
     (145, [MOD0, MOD0, MOD0, MOD0, MOD0, MOD0, MOD0, MOD0, MOD0, MOD0, MOD0, MOD0, MOD0, MOD0, MOD0, MOD0,
        MOD0, MOD0, MOD1]),
     (146, [MOD0, MOD0, MOD0, MOD0, MOD0, MOD0, MOD0, MOD0, MOD0, MOD0, MOD0, MOD0, MOD0, MOD0, MOD0, MOD0,
        MOD0, MOD0, MOD2]),
     (147, [MOD0, MOD0, MOD0, MOD0, MOD0, MOD0, MOD0, MOD0, MOD0, MOD0, MOD0, MOD0, MOD0, MOD0, MOD0, MOD0,
        MOD0, MOD0, MOD3]),
     (148, [MOD0, MOD0, MOD0, MOD0, MOD0, MOD0, MOD0, MOD0, MOD0, MOD0, MOD0, MOD0, MOD0, MOD0, MOD0, MOD0,
        MOD0, MOD0, MOD4])]"

definition memclear_cases_6 :: "(nat \<times> mod_op list) list" where
  "memclear_cases_6 =
    [(149, [MOD0, MOD0, MOD0, MOD0, MOD0, MOD0, MOD0, MOD0, MOD0, MOD0, MOD0, MOD0, MOD0, MOD0, MOD0, MOD0,
        MOD0, MOD0, MOD5]),
     (150, [MOD0, MOD0, MOD0, MOD0, MOD0, MOD0, MOD0, MOD0, MOD0, MOD0, MOD0, MOD0, MOD0, MOD0, MOD0, MOD0,
        MOD0, MOD0, MOD6]),
     (151, [MOD0, MOD0, MOD0, MOD0, MOD0, MOD0, MOD0, MOD0, MOD0, MOD0, MOD0, MOD0, MOD0, MOD0, MOD0, MOD0,
        MOD0, MOD0, MOD7]),
     (152, [MOD0, MOD0, MOD0, MOD0, MOD0, MOD0, MOD0, MOD0, MOD0, MOD0, MOD0, MOD0, MOD0, MOD0, MOD0, MOD0,
        MOD0, MOD0, MOD0]),
     (153, [MOD0, MOD0, MOD0, MOD0, MOD0, MOD0, MOD0, MOD0, MOD0, MOD0, MOD0, MOD0, MOD0, MOD0, MOD0, MOD0,
        MOD0, MOD0, MOD0, MOD1]),
     (154, [MOD0, MOD0, MOD0, MOD0, MOD0, MOD0, MOD0, MOD0, MOD0, MOD0, MOD0, MOD0, MOD0, MOD0, MOD0, MOD0,
        MOD0, MOD0, MOD0, MOD2]),
     (155, [MOD0, MOD0, MOD0, MOD0, MOD0, MOD0, MOD0, MOD0, MOD0, MOD0, MOD0, MOD0, MOD0, MOD0, MOD0, MOD0,
        MOD0, MOD0, MOD0, MOD3]),
     (156, [MOD0, MOD0, MOD0, MOD0, MOD0, MOD0, MOD0, MOD0, MOD0, MOD0, MOD0, MOD0, MOD0, MOD0, MOD0, MOD0,
        MOD0, MOD0, MOD0, MOD4]),
     (157, [MOD0, MOD0, MOD0, MOD0, MOD0, MOD0, MOD0, MOD0, MOD0, MOD0, MOD0, MOD0, MOD0, MOD0, MOD0, MOD0,
        MOD0, MOD0, MOD0, MOD5]),
     (158, [MOD0, MOD0, MOD0, MOD0, MOD0, MOD0, MOD0, MOD0, MOD0, MOD0, MOD0, MOD0, MOD0, MOD0, MOD0, MOD0,
        MOD0, MOD0, MOD0, MOD6]),
     (159, [MOD0, MOD0, MOD0, MOD0, MOD0, MOD0, MOD0, MOD0, MOD0, MOD0, MOD0, MOD0, MOD0, MOD0, MOD0, MOD0,
        MOD0, MOD0, MOD0, MOD7]),
     (160, [MOD0, MOD0, MOD0, MOD0, MOD0, MOD0, MOD0, MOD0, MOD0, MOD0, MOD0, MOD0, MOD0, MOD0, MOD0, MOD0,
        MOD0, MOD0, MOD0, MOD0]),
     (161, [MOD0, MOD0, MOD0, MOD0, MOD0, MOD0, MOD0, MOD0, MOD0, MOD0, MOD0, MOD0, MOD0, MOD0, MOD0, MOD0,
        MOD0, MOD0, MOD0, MOD0, MOD1]),
     (162, [MOD0, MOD0, MOD0, MOD0, MOD0, MOD0, MOD0, MOD0, MOD0, MOD0, MOD0, MOD0, MOD0, MOD0, MOD0, MOD0,
        MOD0, MOD0, MOD0, MOD0, MOD2]),
     (163, [MOD0, MOD0, MOD0, MOD0, MOD0, MOD0, MOD0, MOD0, MOD0, MOD0, MOD0, MOD0, MOD0, MOD0, MOD0, MOD0,
        MOD0, MOD0, MOD0, MOD0, MOD3]),
     (164, [MOD0, MOD0, MOD0, MOD0, MOD0, MOD0, MOD0, MOD0, MOD0, MOD0, MOD0, MOD0, MOD0, MOD0, MOD0, MOD0,
        MOD0, MOD0, MOD0, MOD0, MOD4]),
     (165, [MOD0, MOD0, MOD0, MOD0, MOD0, MOD0, MOD0, MOD0, MOD0, MOD0, MOD0, MOD0, MOD0, MOD0, MOD0, MOD0,
        MOD0, MOD0, MOD0, MOD0, MOD5]),
     (166, [MOD0, MOD0, MOD0, MOD0, MOD0, MOD0, MOD0, MOD0, MOD0, MOD0, MOD0, MOD0, MOD0, MOD0, MOD0, MOD0,
        MOD0, MOD0, MOD0, MOD0, MOD6]),
     (167, [MOD0, MOD0, MOD0, MOD0, MOD0, MOD0, MOD0, MOD0, MOD0, MOD0, MOD0, MOD0, MOD0, MOD0, MOD0, MOD0,
        MOD0, MOD0, MOD0, MOD0, MOD7]),
     (168, [MOD0, MOD0, MOD0, MOD0, MOD0, MOD0, MOD0, MOD0, MOD0, MOD0, MOD0, MOD0, MOD0, MOD0, MOD0, MOD0,
        MOD0, MOD0, MOD0, MOD0, MOD0]),
     (169, [MOD0, MOD0, MOD0, MOD0, MOD0, MOD0, MOD0, MOD0, MOD0, MOD0, MOD0, MOD0, MOD0, MOD0, MOD0, MOD0,
        MOD0, MOD0, MOD0, MOD0, MOD0, MOD1]),
     (170, [MOD0, MOD0, MOD0, MOD0, MOD0, MOD0, MOD0, MOD0, MOD0, MOD0, MOD0, MOD0, MOD0, MOD0, MOD0, MOD0,
        MOD0, MOD0, MOD0, MOD0, MOD0, MOD2]),
     (171, [MOD0, MOD0, MOD0, MOD0, MOD0, MOD0, MOD0, MOD0, MOD0, MOD0, MOD0, MOD0, MOD0, MOD0, MOD0, MOD0,
        MOD0, MOD0, MOD0, MOD0, MOD0, MOD3]),
     (172, [MOD0, MOD0, MOD0, MOD0, MOD0, MOD0, MOD0, MOD0, MOD0, MOD0, MOD0, MOD0, MOD0, MOD0, MOD0, MOD0,
        MOD0, MOD0, MOD0, MOD0, MOD0, MOD4]),
     (173, [MOD0, MOD0, MOD0, MOD0, MOD0, MOD0, MOD0, MOD0, MOD0, MOD0, MOD0, MOD0, MOD0, MOD0, MOD0, MOD0,
        MOD0, MOD0, MOD0, MOD0, MOD0, MOD5])]"

definition memclear_cases_7 :: "(nat \<times> mod_op list) list" where
  "memclear_cases_7 =
    [(174, [MOD0, MOD0, MOD0, MOD0, MOD0, MOD0, MOD0, MOD0, MOD0, MOD0, MOD0, MOD0, MOD0, MOD0, MOD0, MOD0,
        MOD0, MOD0, MOD0, MOD0, MOD0, MOD6]),
     (175, [MOD0, MOD0, MOD0, MOD0, MOD0, MOD0, MOD0, MOD0, MOD0, MOD0, MOD0, MOD0, MOD0, MOD0, MOD0, MOD0,
        MOD0, MOD0, MOD0, MOD0, MOD0, MOD7]),
     (176, [MOD0, MOD0, MOD0, MOD0, MOD0, MOD0, MOD0, MOD0, MOD0, MOD0, MOD0, MOD0, MOD0, MOD0, MOD0, MOD0,
        MOD0, MOD0, MOD0, MOD0, MOD0, MOD0]),
     (177, [MOD0, MOD0, MOD0, MOD0, MOD0, MOD0, MOD0, MOD0, MOD0, MOD0, MOD0, MOD0, MOD0, MOD0, MOD0, MOD0,
        MOD0, MOD0, MOD0, MOD0, MOD0, MOD0, MOD1]),
     (178, [MOD0, MOD0, MOD0, MOD0, MOD0, MOD0, MOD0, MOD0, MOD0, MOD0, MOD0, MOD0, MOD0, MOD0, MOD0, MOD0,
        MOD0, MOD0, MOD0, MOD0, MOD0, MOD0, MOD2]),
     (179, [MOD0, MOD0, MOD0, MOD0, MOD0, MOD0, MOD0, MOD0, MOD0, MOD0, MOD0, MOD0, MOD0, MOD0, MOD0, MOD0,
        MOD0, MOD0, MOD0, MOD0, MOD0, MOD0, MOD3]),
     (180, [MOD0, MOD0, MOD0, MOD0, MOD0, MOD0, MOD0, MOD0, MOD0, MOD0, MOD0, MOD0, MOD0, MOD0, MOD0, MOD0,
        MOD0, MOD0, MOD0, MOD0, MOD0, MOD0, MOD4]),
     (181, [MOD0, MOD0, MOD0, MOD0, MOD0, MOD0, MOD0, MOD0, MOD0, MOD0, MOD0, MOD0, MOD0, MOD0, MOD0, MOD0,
        MOD0, MOD0, MOD0, MOD0, MOD0, MOD0, MOD5]),
     (182, [MOD0, MOD0, MOD0, MOD0, MOD0, MOD0, MOD0, MOD0, MOD0, MOD0, MOD0, MOD0, MOD0, MOD0, MOD0, MOD0,
        MOD0, MOD0, MOD0, MOD0, MOD0, MOD0, MOD6]),
     (183, [MOD0, MOD0, MOD0, MOD0, MOD0, MOD0, MOD0, MOD0, MOD0, MOD0, MOD0, MOD0, MOD0, MOD0, MOD0, MOD0,
        MOD0, MOD0, MOD0, MOD0, MOD0, MOD0, MOD7]),
     (184, [MOD0, MOD0, MOD0, MOD0, MOD0, MOD0, MOD0, MOD0, MOD0, MOD0, MOD0, MOD0, MOD0, MOD0, MOD0, MOD0,
        MOD0, MOD0, MOD0, MOD0, MOD0, MOD0, MOD0]),
     (185, [MOD0, MOD0, MOD0, MOD0, MOD0, MOD0, MOD0, MOD0, MOD0, MOD0, MOD0, MOD0, MOD0, MOD0, MOD0, MOD0,
        MOD0, MOD0, MOD0, MOD0, MOD0, MOD0, MOD0, MOD1]),
     (186, [MOD0, MOD0, MOD0, MOD0, MOD0, MOD0, MOD0, MOD0, MOD0, MOD0, MOD0, MOD0, MOD0, MOD0, MOD0, MOD0,
        MOD0, MOD0, MOD0, MOD0, MOD0, MOD0, MOD0, MOD2]),
     (187, [MOD0, MOD0, MOD0, MOD0, MOD0, MOD0, MOD0, MOD0, MOD0, MOD0, MOD0, MOD0, MOD0, MOD0, MOD0, MOD0,
        MOD0, MOD0, MOD0, MOD0, MOD0, MOD0, MOD0, MOD3]),
     (188, [MOD0, MOD0, MOD0, MOD0, MOD0, MOD0, MOD0, MOD0, MOD0, MOD0, MOD0, MOD0, MOD0, MOD0, MOD0, MOD0,
        MOD0, MOD0, MOD0, MOD0, MOD0, MOD0, MOD0, MOD4]),
     (189, [MOD0, MOD0, MOD0, MOD0, MOD0, MOD0, MOD0, MOD0, MOD0, MOD0, MOD0, MOD0, MOD0, MOD0, MOD0, MOD0,
        MOD0, MOD0, MOD0, MOD0, MOD0, MOD0, MOD0, MOD5]),
     (190, [MOD0, MOD0, MOD0, MOD0, MOD0, MOD0, MOD0, MOD0, MOD0, MOD0, MOD0, MOD0, MOD0, MOD0, MOD0, MOD0,
        MOD0, MOD0, MOD0, MOD0, MOD0, MOD0, MOD0, MOD6]),
     (191, [MOD0, MOD0, MOD0, MOD0, MOD0, MOD0, MOD0, MOD0, MOD0, MOD0, MOD0, MOD0, MOD0, MOD0, MOD0, MOD0,
        MOD0, MOD0, MOD0, MOD0, MOD0, MOD0, MOD0, MOD7]),
     (192, [MOD0, MOD0, MOD0, MOD0, MOD0, MOD0, MOD0, MOD0, MOD0, MOD0, MOD0, MOD0, MOD0, MOD0, MOD0, MOD0,
        MOD0, MOD0, MOD0, MOD0, MOD0, MOD0, MOD0, MOD0]),
     (193, [MOD0, MOD0, MOD0, MOD0, MOD0, MOD0, MOD0, MOD0, MOD0, MOD0, MOD0, MOD0, MOD0, MOD0, MOD0, MOD0,
        MOD0, MOD0, MOD0, MOD0, MOD0, MOD0, MOD0, MOD0, MOD1]),
     (194, [MOD0, MOD0, MOD0, MOD0, MOD0, MOD0, MOD0, MOD0, MOD0, MOD0, MOD0, MOD0, MOD0, MOD0, MOD0, MOD0,
        MOD0, MOD0, MOD0, MOD0, MOD0, MOD0, MOD0, MOD0, MOD2]),
     (195, [MOD0, MOD0, MOD0, MOD0, MOD0, MOD0, MOD0, MOD0, MOD0, MOD0, MOD0, MOD0, MOD0, MOD0, MOD0, MOD0,
        MOD0, MOD0, MOD0, MOD0, MOD0, MOD0, MOD0, MOD0, MOD3]),
     (196, [MOD0, MOD0, MOD0, MOD0, MOD0, MOD0, MOD0, MOD0, MOD0, MOD0, MOD0, MOD0, MOD0, MOD0, MOD0, MOD0,
        MOD0, MOD0, MOD0, MOD0, MOD0, MOD0, MOD0, MOD0, MOD4]),
     (197, [MOD0, MOD0, MOD0, MOD0, MOD0, MOD0, MOD0, MOD0, MOD0, MOD0, MOD0, MOD0, MOD0, MOD0, MOD0, MOD0,
        MOD0, MOD0, MOD0, MOD0, MOD0, MOD0, MOD0, MOD0, MOD5]),
     (198, [MOD0, MOD0, MOD0, MOD0, MOD0, MOD0, MOD0, MOD0, MOD0, MOD0, MOD0, MOD0, MOD0, MOD0, MOD0, MOD0,
        MOD0, MOD0, MOD0, MOD0, MOD0, MOD0, MOD0, MOD0, MOD6])]"

definition memclear_cases_8 :: "(nat \<times> mod_op list) list" where
  "memclear_cases_8 =
    [(199, [MOD0, MOD0, MOD0, MOD0, MOD0, MOD0, MOD0, MOD0, MOD0, MOD0, MOD0, MOD0, MOD0, MOD0, MOD0, MOD0,
        MOD0, MOD0, MOD0, MOD0, MOD0, MOD0, MOD0, MOD0, MOD7]),
     (200, [MOD0, MOD0, MOD0, MOD0, MOD0, MOD0, MOD0, MOD0, MOD0, MOD0, MOD0, MOD0, MOD0, MOD0, MOD0, MOD0,
        MOD0, MOD0, MOD0, MOD0, MOD0, MOD0, MOD0, MOD0, MOD0]),
     (201, [MOD0, MOD0, MOD0, MOD0, MOD0, MOD0, MOD0, MOD0, MOD0, MOD0, MOD0, MOD0, MOD0, MOD0, MOD0, MOD0,
        MOD0, MOD0, MOD0, MOD0, MOD0, MOD0, MOD0, MOD0, MOD0, MOD1]),
     (202, [MOD0, MOD0, MOD0, MOD0, MOD0, MOD0, MOD0, MOD0, MOD0, MOD0, MOD0, MOD0, MOD0, MOD0, MOD0, MOD0,
        MOD0, MOD0, MOD0, MOD0, MOD0, MOD0, MOD0, MOD0, MOD0, MOD2]),
     (203, [MOD0, MOD0, MOD0, MOD0, MOD0, MOD0, MOD0, MOD0, MOD0, MOD0, MOD0, MOD0, MOD0, MOD0, MOD0, MOD0,
        MOD0, MOD0, MOD0, MOD0, MOD0, MOD0, MOD0, MOD0, MOD0, MOD3]),
     (204, [MOD0, MOD0, MOD0, MOD0, MOD0, MOD0, MOD0, MOD0, MOD0, MOD0, MOD0, MOD0, MOD0, MOD0, MOD0, MOD0,
        MOD0, MOD0, MOD0, MOD0, MOD0, MOD0, MOD0, MOD0, MOD0, MOD4]),
     (205, [MOD0, MOD0, MOD0, MOD0, MOD0, MOD0, MOD0, MOD0, MOD0, MOD0, MOD0, MOD0, MOD0, MOD0, MOD0, MOD0,
        MOD0, MOD0, MOD0, MOD0, MOD0, MOD0, MOD0, MOD0, MOD0, MOD5]),
     (206, [MOD0, MOD0, MOD0, MOD0, MOD0, MOD0, MOD0, MOD0, MOD0, MOD0, MOD0, MOD0, MOD0, MOD0, MOD0, MOD0,
        MOD0, MOD0, MOD0, MOD0, MOD0, MOD0, MOD0, MOD0, MOD0, MOD6]),
     (207, [MOD0, MOD0, MOD0, MOD0, MOD0, MOD0, MOD0, MOD0, MOD0, MOD0, MOD0, MOD0, MOD0, MOD0, MOD0, MOD0,
        MOD0, MOD0, MOD0, MOD0, MOD0, MOD0, MOD0, MOD0, MOD0, MOD7]),
     (208, [MOD0, MOD0, MOD0, MOD0, MOD0, MOD0, MOD0, MOD0, MOD0, MOD0, MOD0, MOD0, MOD0, MOD0, MOD0, MOD0,
        MOD0, MOD0, MOD0, MOD0, MOD0, MOD0, MOD0, MOD0, MOD0, MOD0]),
     (209, [MOD0, MOD0, MOD0, MOD0, MOD0, MOD0, MOD0, MOD0, MOD0, MOD0, MOD0, MOD0, MOD0, MOD0, MOD0, MOD0,
        MOD0, MOD0, MOD0, MOD0, MOD0, MOD0, MOD0, MOD0, MOD0, MOD0, MOD1]),
     (210, [MOD0, MOD0, MOD0, MOD0, MOD0, MOD0, MOD0, MOD0, MOD0, MOD0, MOD0, MOD0, MOD0, MOD0, MOD0, MOD0,
        MOD0, MOD0, MOD0, MOD0, MOD0, MOD0, MOD0, MOD0, MOD0, MOD0, MOD2]),
     (211, [MOD0, MOD0, MOD0, MOD0, MOD0, MOD0, MOD0, MOD0, MOD0, MOD0, MOD0, MOD0, MOD0, MOD0, MOD0, MOD0,
        MOD0, MOD0, MOD0, MOD0, MOD0, MOD0, MOD0, MOD0, MOD0, MOD0, MOD3]),
     (212, [MOD0, MOD0, MOD0, MOD0, MOD0, MOD0, MOD0, MOD0, MOD0, MOD0, MOD0, MOD0, MOD0, MOD0, MOD0, MOD0,
        MOD0, MOD0, MOD0, MOD0, MOD0, MOD0, MOD0, MOD0, MOD0, MOD0, MOD4]),
     (213, [MOD0, MOD0, MOD0, MOD0, MOD0, MOD0, MOD0, MOD0, MOD0, MOD0, MOD0, MOD0, MOD0, MOD0, MOD0, MOD0,
        MOD0, MOD0, MOD0, MOD0, MOD0, MOD0, MOD0, MOD0, MOD0, MOD0, MOD5]),
     (214, [MOD0, MOD0, MOD0, MOD0, MOD0, MOD0, MOD0, MOD0, MOD0, MOD0, MOD0, MOD0, MOD0, MOD0, MOD0, MOD0,
        MOD0, MOD0, MOD0, MOD0, MOD0, MOD0, MOD0, MOD0, MOD0, MOD0, MOD6]),
     (215, [MOD0, MOD0, MOD0, MOD0, MOD0, MOD0, MOD0, MOD0, MOD0, MOD0, MOD0, MOD0, MOD0, MOD0, MOD0, MOD0,
        MOD0, MOD0, MOD0, MOD0, MOD0, MOD0, MOD0, MOD0, MOD0, MOD0, MOD7]),
     (216, [MOD0, MOD0, MOD0, MOD0, MOD0, MOD0, MOD0, MOD0, MOD0, MOD0, MOD0, MOD0, MOD0, MOD0, MOD0, MOD0,
        MOD0, MOD0, MOD0, MOD0, MOD0, MOD0, MOD0, MOD0, MOD0, MOD0, MOD0]),
     (217, [MOD0, MOD0, MOD0, MOD0, MOD0, MOD0, MOD0, MOD0, MOD0, MOD0, MOD0, MOD0, MOD0, MOD0, MOD0, MOD0,
        MOD0, MOD0, MOD0, MOD0, MOD0, MOD0, MOD0, MOD0, MOD0, MOD0, MOD0, MOD1]),
     (218, [MOD0, MOD0, MOD0, MOD0, MOD0, MOD0, MOD0, MOD0, MOD0, MOD0, MOD0, MOD0, MOD0, MOD0, MOD0, MOD0,
        MOD0, MOD0, MOD0, MOD0, MOD0, MOD0, MOD0, MOD0, MOD0, MOD0, MOD0, MOD2]),
     (219, [MOD0, MOD0, MOD0, MOD0, MOD0, MOD0, MOD0, MOD0, MOD0, MOD0, MOD0, MOD0, MOD0, MOD0, MOD0, MOD0,
        MOD0, MOD0, MOD0, MOD0, MOD0, MOD0, MOD0, MOD0, MOD0, MOD0, MOD0, MOD3]),
     (220, [MOD0, MOD0, MOD0, MOD0, MOD0, MOD0, MOD0, MOD0, MOD0, MOD0, MOD0, MOD0, MOD0, MOD0, MOD0, MOD0,
        MOD0, MOD0, MOD0, MOD0, MOD0, MOD0, MOD0, MOD0, MOD0, MOD0, MOD0, MOD4]),
     (221, [MOD0, MOD0, MOD0, MOD0, MOD0, MOD0, MOD0, MOD0, MOD0, MOD0, MOD0, MOD0, MOD0, MOD0, MOD0, MOD0,
        MOD0, MOD0, MOD0, MOD0, MOD0, MOD0, MOD0, MOD0, MOD0, MOD0, MOD0, MOD5]),
     (222, [MOD0, MOD0, MOD0, MOD0, MOD0, MOD0, MOD0, MOD0, MOD0, MOD0, MOD0, MOD0, MOD0, MOD0, MOD0, MOD0,
        MOD0, MOD0, MOD0, MOD0, MOD0, MOD0, MOD0, MOD0, MOD0, MOD0, MOD0, MOD6]),
     (223, [MOD0, MOD0, MOD0, MOD0, MOD0, MOD0, MOD0, MOD0, MOD0, MOD0, MOD0, MOD0, MOD0, MOD0, MOD0, MOD0,
        MOD0, MOD0, MOD0, MOD0, MOD0, MOD0, MOD0, MOD0, MOD0, MOD0, MOD0, MOD7])]"

definition memclear_cases_9 :: "(nat \<times> mod_op list) list" where
  "memclear_cases_9 =
    [(224, [MOD0, MOD0, MOD0, MOD0, MOD0, MOD0, MOD0, MOD0, MOD0, MOD0, MOD0, MOD0, MOD0, MOD0, MOD0, MOD0,
        MOD0, MOD0, MOD0, MOD0, MOD0, MOD0, MOD0, MOD0, MOD0, MOD0, MOD0, MOD0]),
     (225, [MOD0, MOD0, MOD0, MOD0, MOD0, MOD0, MOD0, MOD0, MOD0, MOD0, MOD0, MOD0, MOD0, MOD0, MOD0, MOD0,
        MOD0, MOD0, MOD0, MOD0, MOD0, MOD0, MOD0, MOD0, MOD0, MOD0, MOD0, MOD0, MOD1]),
     (226, [MOD0, MOD0, MOD0, MOD0, MOD0, MOD0, MOD0, MOD0, MOD0, MOD0, MOD0, MOD0, MOD0, MOD0, MOD0, MOD0,
        MOD0, MOD0, MOD0, MOD0, MOD0, MOD0, MOD0, MOD0, MOD0, MOD0, MOD0, MOD0, MOD2]),
     (227, [MOD0, MOD0, MOD0, MOD0, MOD0, MOD0, MOD0, MOD0, MOD0, MOD0, MOD0, MOD0, MOD0, MOD0, MOD0, MOD0,
        MOD0, MOD0, MOD0, MOD0, MOD0, MOD0, MOD0, MOD0, MOD0, MOD0, MOD0, MOD0, MOD3]),
     (228, [MOD0, MOD0, MOD0, MOD0, MOD0, MOD0, MOD0, MOD0, MOD0, MOD0, MOD0, MOD0, MOD0, MOD0, MOD0, MOD0,
        MOD0, MOD0, MOD0, MOD0, MOD0, MOD0, MOD0, MOD0, MOD0, MOD0, MOD0, MOD0, MOD4]),
     (229, [MOD0, MOD0, MOD0, MOD0, MOD0, MOD0, MOD0, MOD0, MOD0, MOD0, MOD0, MOD0, MOD0, MOD0, MOD0, MOD0,
        MOD0, MOD0, MOD0, MOD0, MOD0, MOD0, MOD0, MOD0, MOD0, MOD0, MOD0, MOD0, MOD5]),
     (230, [MOD0, MOD0, MOD0, MOD0, MOD0, MOD0, MOD0, MOD0, MOD0, MOD0, MOD0, MOD0, MOD0, MOD0, MOD0, MOD0,
        MOD0, MOD0, MOD0, MOD0, MOD0, MOD0, MOD0, MOD0, MOD0, MOD0, MOD0, MOD0, MOD6]),
     (231, [MOD0, MOD0, MOD0, MOD0, MOD0, MOD0, MOD0, MOD0, MOD0, MOD0, MOD0, MOD0, MOD0, MOD0, MOD0, MOD0,
        MOD0, MOD0, MOD0, MOD0, MOD0, MOD0, MOD0, MOD0, MOD0, MOD0, MOD0, MOD0, MOD7]),
     (232, [MOD0, MOD0, MOD0, MOD0, MOD0, MOD0, MOD0, MOD0, MOD0, MOD0, MOD0, MOD0, MOD0, MOD0, MOD0, MOD0,
        MOD0, MOD0, MOD0, MOD0, MOD0, MOD0, MOD0, MOD0, MOD0, MOD0, MOD0, MOD0, MOD0]),
     (233, [MOD0, MOD0, MOD0, MOD0, MOD0, MOD0, MOD0, MOD0, MOD0, MOD0, MOD0, MOD0, MOD0, MOD0, MOD0, MOD0,
        MOD0, MOD0, MOD0, MOD0, MOD0, MOD0, MOD0, MOD0, MOD0, MOD0, MOD0, MOD0, MOD0, MOD1]),
     (234, [MOD0, MOD0, MOD0, MOD0, MOD0, MOD0, MOD0, MOD0, MOD0, MOD0, MOD0, MOD0, MOD0, MOD0, MOD0, MOD0,
        MOD0, MOD0, MOD0, MOD0, MOD0, MOD0, MOD0, MOD0, MOD0, MOD0, MOD0, MOD0, MOD0, MOD2]),
     (235, [MOD0, MOD0, MOD0, MOD0, MOD0, MOD0, MOD0, MOD0, MOD0, MOD0, MOD0, MOD0, MOD0, MOD0, MOD0, MOD0,
        MOD0, MOD0, MOD0, MOD0, MOD0, MOD0, MOD0, MOD0, MOD0, MOD0, MOD0, MOD0, MOD0, MOD3]),
     (236, [MOD0, MOD0, MOD0, MOD0, MOD0, MOD0, MOD0, MOD0, MOD0, MOD0, MOD0, MOD0, MOD0, MOD0, MOD0, MOD0,
        MOD0, MOD0, MOD0, MOD0, MOD0, MOD0, MOD0, MOD0, MOD0, MOD0, MOD0, MOD0, MOD0, MOD4]),
     (237, [MOD0, MOD0, MOD0, MOD0, MOD0, MOD0, MOD0, MOD0, MOD0, MOD0, MOD0, MOD0, MOD0, MOD0, MOD0, MOD0,
        MOD0, MOD0, MOD0, MOD0, MOD0, MOD0, MOD0, MOD0, MOD0, MOD0, MOD0, MOD0, MOD0, MOD5]),
     (238, [MOD0, MOD0, MOD0, MOD0, MOD0, MOD0, MOD0, MOD0, MOD0, MOD0, MOD0, MOD0, MOD0, MOD0, MOD0, MOD0,
        MOD0, MOD0, MOD0, MOD0, MOD0, MOD0, MOD0, MOD0, MOD0, MOD0, MOD0, MOD0, MOD0, MOD6]),
     (239, [MOD0, MOD0, MOD0, MOD0, MOD0, MOD0, MOD0, MOD0, MOD0, MOD0, MOD0, MOD0, MOD0, MOD0, MOD0, MOD0,
        MOD0, MOD0, MOD0, MOD0, MOD0, MOD0, MOD0, MOD0, MOD0, MOD0, MOD0, MOD0, MOD0, MOD7]),
     (240, [MOD0, MOD0, MOD0, MOD0, MOD0, MOD0, MOD0, MOD0, MOD0, MOD0, MOD0, MOD0, MOD0, MOD0, MOD0, MOD0,
        MOD0, MOD0, MOD0, MOD0, MOD0, MOD0, MOD0, MOD0, MOD0, MOD0, MOD0, MOD0, MOD0, MOD0]),
     (241, [MOD0, MOD0, MOD0, MOD0, MOD0, MOD0, MOD0, MOD0, MOD0, MOD0, MOD0, MOD0, MOD0, MOD0, MOD0, MOD0,
        MOD0, MOD0, MOD0, MOD0, MOD0, MOD0, MOD0, MOD0, MOD0, MOD0, MOD0, MOD0, MOD0, MOD0, MOD1]),
     (242, [MOD0, MOD0, MOD0, MOD0, MOD0, MOD0, MOD0, MOD0, MOD0, MOD0, MOD0, MOD0, MOD0, MOD0, MOD0, MOD0,
        MOD0, MOD0, MOD0, MOD0, MOD0, MOD0, MOD0, MOD0, MOD0, MOD0, MOD0, MOD0, MOD0, MOD0, MOD2]),
     (243, [MOD0, MOD0, MOD0, MOD0, MOD0, MOD0, MOD0, MOD0, MOD0, MOD0, MOD0, MOD0, MOD0, MOD0, MOD0, MOD0,
        MOD0, MOD0, MOD0, MOD0, MOD0, MOD0, MOD0, MOD0, MOD0, MOD0, MOD0, MOD0, MOD0, MOD0, MOD3]),
     (244, [MOD0, MOD0, MOD0, MOD0, MOD0, MOD0, MOD0, MOD0, MOD0, MOD0, MOD0, MOD0, MOD0, MOD0, MOD0, MOD0,
        MOD0, MOD0, MOD0, MOD0, MOD0, MOD0, MOD0, MOD0, MOD0, MOD0, MOD0, MOD0, MOD0, MOD0, MOD4]),
     (245, [MOD0, MOD0, MOD0, MOD0, MOD0, MOD0, MOD0, MOD0, MOD0, MOD0, MOD0, MOD0, MOD0, MOD0, MOD0, MOD0,
        MOD0, MOD0, MOD0, MOD0, MOD0, MOD0, MOD0, MOD0, MOD0, MOD0, MOD0, MOD0, MOD0, MOD0, MOD5]),
     (246, [MOD0, MOD0, MOD0, MOD0, MOD0, MOD0, MOD0, MOD0, MOD0, MOD0, MOD0, MOD0, MOD0, MOD0, MOD0, MOD0,
        MOD0, MOD0, MOD0, MOD0, MOD0, MOD0, MOD0, MOD0, MOD0, MOD0, MOD0, MOD0, MOD0, MOD0, MOD6]),
     (247, [MOD0, MOD0, MOD0, MOD0, MOD0, MOD0, MOD0, MOD0, MOD0, MOD0, MOD0, MOD0, MOD0, MOD0, MOD0, MOD0,
        MOD0, MOD0, MOD0, MOD0, MOD0, MOD0, MOD0, MOD0, MOD0, MOD0, MOD0, MOD0, MOD0, MOD0, MOD7]),
     (248, [MOD0, MOD0, MOD0, MOD0, MOD0, MOD0, MOD0, MOD0, MOD0, MOD0, MOD0, MOD0, MOD0, MOD0, MOD0, MOD0,
        MOD0, MOD0, MOD0, MOD0, MOD0, MOD0, MOD0, MOD0, MOD0, MOD0, MOD0, MOD0, MOD0, MOD0, MOD0])]"

definition memclear_cases_10 :: "(nat \<times> mod_op list) list" where
  "memclear_cases_10 =
    [(249, [MOD0, MOD0, MOD0, MOD0, MOD0, MOD0, MOD0, MOD0, MOD0, MOD0, MOD0, MOD0, MOD0, MOD0, MOD0, MOD0,
        MOD0, MOD0, MOD0, MOD0, MOD0, MOD0, MOD0, MOD0, MOD0, MOD0, MOD0, MOD0, MOD0, MOD0, MOD0, MOD1]),
     (250, [MOD0, MOD0, MOD0, MOD0, MOD0, MOD0, MOD0, MOD0, MOD0, MOD0, MOD0, MOD0, MOD0, MOD0, MOD0, MOD0,
        MOD0, MOD0, MOD0, MOD0, MOD0, MOD0, MOD0, MOD0, MOD0, MOD0, MOD0, MOD0, MOD0, MOD0, MOD0, MOD2]),
     (251, [MOD0, MOD0, MOD0, MOD0, MOD0, MOD0, MOD0, MOD0, MOD0, MOD0, MOD0, MOD0, MOD0, MOD0, MOD0, MOD0,
        MOD0, MOD0, MOD0, MOD0, MOD0, MOD0, MOD0, MOD0, MOD0, MOD0, MOD0, MOD0, MOD0, MOD0, MOD0, MOD3]),
     (252, [MOD0, MOD0, MOD0, MOD0, MOD0, MOD0, MOD0, MOD0, MOD0, MOD0, MOD0, MOD0, MOD0, MOD0, MOD0, MOD0,
        MOD0, MOD0, MOD0, MOD0, MOD0, MOD0, MOD0, MOD0, MOD0, MOD0, MOD0, MOD0, MOD0, MOD0, MOD0, MOD4]),
     (253, [MOD0, MOD0, MOD0, MOD0, MOD0, MOD0, MOD0, MOD0, MOD0, MOD0, MOD0, MOD0, MOD0, MOD0, MOD0, MOD0,
        MOD0, MOD0, MOD0, MOD0, MOD0, MOD0, MOD0, MOD0, MOD0, MOD0, MOD0, MOD0, MOD0, MOD0, MOD0, MOD5]),
     (254, [MOD0, MOD0, MOD0, MOD0, MOD0, MOD0, MOD0, MOD0, MOD0, MOD0, MOD0, MOD0, MOD0, MOD0, MOD0, MOD0,
        MOD0, MOD0, MOD0, MOD0, MOD0, MOD0, MOD0, MOD0, MOD0, MOD0, MOD0, MOD0, MOD0, MOD0, MOD0, MOD6]),
     (255, [MOD0, MOD0, MOD0, MOD0, MOD0, MOD0, MOD0, MOD0, MOD0, MOD0, MOD0, MOD0, MOD0, MOD0, MOD0, MOD0,
        MOD0, MOD0, MOD0, MOD0, MOD0, MOD0, MOD0, MOD0, MOD0, MOD0, MOD0, MOD0, MOD0, MOD0, MOD0, MOD7]),
     (256, [MOD0, MOD0, MOD0, MOD0, MOD0, MOD0, MOD0, MOD0, MOD0, MOD0, MOD0, MOD0, MOD0, MOD0, MOD0, MOD0,
        MOD0, MOD0, MOD0, MOD0, MOD0, MOD0, MOD0, MOD0, MOD0, MOD0, MOD0, MOD0, MOD0, MOD0, MOD0, MOD0])]"

definition memclear_cases :: "(nat \<times> mod_op list) list" where
  "memclear_cases =
     memclear_cases_1 @
     memclear_cases_2 @
     memclear_cases_3 @
     memclear_cases_4 @
     memclear_cases_5 @
     memclear_cases_6 @
     memclear_cases_7 @
     memclear_cases_8 @
     memclear_cases_9 @
     memclear_cases_10"

section \<open>The rule of the cases\<close>

fun mod_tail :: "nat \<Rightarrow> mod_op list" where
  "mod_tail r = (if r = 0 then [] else if r = 1 then [MOD1] else if r = 2 then [MOD2] else if r = 3 then [MOD3]
     else if r = 4 then [MOD4] else if r = 5 then [MOD5] else if r = 6 then [MOD6] else [MOD7])"

definition mods :: "nat \<Rightarrow> mod_op list" where
  "mods n = replicate (n div 8) MOD0 @ mod_tail (n mod 8)"

lemma memcpy_cases_1_mods: "list_all (\<lambda>(n, ms). ms = mods n) memcpy_cases_1"
  by code_simp

lemma memcpy_cases_2_mods: "list_all (\<lambda>(n, ms). ms = mods n) memcpy_cases_2"
  by code_simp

lemma memcpy_cases_3_mods: "list_all (\<lambda>(n, ms). ms = mods n) memcpy_cases_3"
  by code_simp

lemma memcpy_cases_4_mods: "list_all (\<lambda>(n, ms). ms = mods n) memcpy_cases_4"
  by code_simp

lemma memcpy_cases_5_mods: "list_all (\<lambda>(n, ms). ms = mods n) memcpy_cases_5"
  by code_simp

lemma memcpy_cases_6_mods: "list_all (\<lambda>(n, ms). ms = mods n) memcpy_cases_6"
  by code_simp

lemma memcpy_cases_7_mods: "list_all (\<lambda>(n, ms). ms = mods n) memcpy_cases_7"
  by code_simp

lemma memcpy_cases_8_mods: "list_all (\<lambda>(n, ms). ms = mods n) memcpy_cases_8"
  by code_simp

lemma memcpy_cases_9_mods: "list_all (\<lambda>(n, ms). ms = mods n) memcpy_cases_9"
  by code_simp

lemma memcpy_cases_10_mods: "list_all (\<lambda>(n, ms). ms = mods n) memcpy_cases_10"
  by code_simp

lemma memclear_cases_1_mods: "list_all (\<lambda>(n, ms). ms = mods n) memclear_cases_1"
  by code_simp

lemma memclear_cases_2_mods: "list_all (\<lambda>(n, ms). ms = mods n) memclear_cases_2"
  by code_simp

lemma memclear_cases_3_mods: "list_all (\<lambda>(n, ms). ms = mods n) memclear_cases_3"
  by code_simp

lemma memclear_cases_4_mods: "list_all (\<lambda>(n, ms). ms = mods n) memclear_cases_4"
  by code_simp

lemma memclear_cases_5_mods: "list_all (\<lambda>(n, ms). ms = mods n) memclear_cases_5"
  by code_simp

lemma memclear_cases_6_mods: "list_all (\<lambda>(n, ms). ms = mods n) memclear_cases_6"
  by code_simp

lemma memclear_cases_7_mods: "list_all (\<lambda>(n, ms). ms = mods n) memclear_cases_7"
  by code_simp

lemma memclear_cases_8_mods: "list_all (\<lambda>(n, ms). ms = mods n) memclear_cases_8"
  by code_simp

lemma memclear_cases_9_mods: "list_all (\<lambda>(n, ms). ms = mods n) memclear_cases_9"
  by code_simp

lemma memclear_cases_10_mods: "list_all (\<lambda>(n, ms). ms = mods n) memclear_cases_10"
  by code_simp

lemma cases_numbers: "map fst memcpy_cases = [1..<257]" "map fst memclear_cases = [1..<257]"
  by code_simp+

lemma cases_mods: "list_all (\<lambda>(n, ms). ms = mods n) memcpy_cases" "list_all (\<lambda>(n, ms). ms = mods n) memclear_cases"
  by (simp_all only: memcpy_cases_def memclear_cases_def list_all_append simp_thms
    memcpy_cases_1_mods memcpy_cases_2_mods memcpy_cases_3_mods memcpy_cases_4_mods memcpy_cases_5_mods memcpy_cases_6_mods memcpy_cases_7_mods memcpy_cases_8_mods memcpy_cases_9_mods memcpy_cases_10_mods
    memclear_cases_1_mods memclear_cases_2_mods memclear_cases_3_mods memclear_cases_4_mods memclear_cases_5_mods memclear_cases_6_mods memclear_cases_7_mods memclear_cases_8_mods memclear_cases_9_mods memclear_cases_10_mods)

lemma map_of_rule:
  assumes "list_all (\<lambda>(n, ms). ms = f n) xs"
  shows "map_of xs n = (if n \<in> set (map fst xs) then Some (f n) else None)"
  using assms by (induction xs) auto

lemma switch_mods:
  "map_of memcpy_cases n = (if 0 < n \<and> n \<le> 256 then Some (mods n) else None)"
  "map_of memclear_cases n = (if 0 < n \<and> n \<le> 256 then Some (mods n) else None)"
  unfolding map_of_rule [OF cases_mods(1)] map_of_rule [OF cases_mods(2)] cases_numbers by auto

end
