(* ===== verification/SL_Memory.thy ===== *)
theory SL_Memory
  imports SL_Memory_Cases
begin

text \<open>
  The unrolled memory functions of \<^verbatim>\<open>SL_Utility_Memory.cpp\<close> on a memory of bytes.  The memory is a
  map of addresses: what is not in its domain must not be touched, and a load or store there is \<open>None\<close>.
  A pointer is an address; loads and stores of the integer types move that many bytes.
\<close>

type_synonym memory = "nat \<rightharpoonup> byte"

section \<open>Loads and stores\<close>

definition mem_load :: "memory \<Rightarrow> nat \<Rightarrow> nat \<Rightarrow> byte list option" where
  "mem_load m a k = those (map (\<lambda>i. m (a + i)) [0..<k])"

fun mem_store :: "memory \<Rightarrow> nat \<Rightarrow> byte list \<Rightarrow> memory option" where
  "mem_store m a [] = Some m"
| "mem_store m a (b # bs) = (case m a of None \<Rightarrow> None | Some _ \<Rightarrow> mem_store (m(a \<mapsto> b)) (a + 1) bs)"

text \<open>\<^verbatim>\<open>*dest = *src\<close> for a type of \<open>k\<close> bytes, and \<^verbatim>\<open>*dest = 0\<close>.\<close>

definition assign :: "nat \<Rightarrow> memory \<Rightarrow> nat \<Rightarrow> nat \<Rightarrow> memory option" where
  "assign k m dest src = do { bs \<leftarrow> mem_load m src k; mem_store m dest bs }"

definition assign_zero :: "nat \<Rightarrow> memory \<Rightarrow> nat \<Rightarrow> memory option" where
  "assign_zero k m dest = mem_store m dest (replicate k 0)"

section \<open>The macros\<close>

text \<open>The state is the memory and the pointers \<^verbatim>\<open>dest_64\<close> and \<^verbatim>\<open>src_64\<close>.\<close>

fun copy_MOD :: "mod_op \<Rightarrow> memory \<times> nat \<times> nat \<Rightarrow> (memory \<times> nat \<times> nat) option" where
  "copy_MOD MOD0 (m, d, s) = do { m \<leftarrow> assign 8 m d s; Some (m, d + 8, s + 8) }"
| "copy_MOD MOD1 (m, d, s) = do { m \<leftarrow> assign 1 m d s; Some (m, d, s) }"
| "copy_MOD MOD2 (m, d, s) = do { m \<leftarrow> assign 2 m d s; Some (m, d, s) }"
| "copy_MOD MOD3 (m, d, s) = do { m \<leftarrow> assign 2 m d s; m \<leftarrow> assign 1 m (d + 2) (s + 2); Some (m, d, s) }"
| "copy_MOD MOD4 (m, d, s) = do { m \<leftarrow> assign 4 m d s; Some (m, d, s) }"
| "copy_MOD MOD5 (m, d, s) = do { m \<leftarrow> assign 4 m d s; m \<leftarrow> assign 1 m (d + 4) (s + 4); Some (m, d, s) }"
| "copy_MOD MOD6 (m, d, s) = do { m \<leftarrow> assign 4 m d s; m \<leftarrow> assign 2 m (d + 4) (s + 4); Some (m, d, s) }"
| "copy_MOD MOD7 (m, d, s) = do {
     m \<leftarrow> assign 4 m d s; m \<leftarrow> assign 2 m (d + 4) (s + 4); m \<leftarrow> assign 1 m (d + 6) (s + 6); Some (m, d, s) }"

fun clear_MOD :: "mod_op \<Rightarrow> memory \<times> nat \<Rightarrow> (memory \<times> nat) option" where
  "clear_MOD MOD0 (m, d) = do { m \<leftarrow> assign_zero 8 m d; Some (m, d + 8) }"
| "clear_MOD MOD1 (m, d) = do { m \<leftarrow> assign_zero 1 m d; Some (m, d) }"
| "clear_MOD MOD2 (m, d) = do { m \<leftarrow> assign_zero 2 m d; Some (m, d) }"
| "clear_MOD MOD3 (m, d) = do { m \<leftarrow> assign_zero 2 m d; m \<leftarrow> assign_zero 1 m (d + 2); Some (m, d) }"
| "clear_MOD MOD4 (m, d) = do { m \<leftarrow> assign_zero 4 m d; Some (m, d) }"
| "clear_MOD MOD5 (m, d) = do { m \<leftarrow> assign_zero 4 m d; m \<leftarrow> assign_zero 1 m (d + 4); Some (m, d) }"
| "clear_MOD MOD6 (m, d) = do { m \<leftarrow> assign_zero 4 m d; m \<leftarrow> assign_zero 2 m (d + 4); Some (m, d) }"
| "clear_MOD MOD7 (m, d) = do {
     m \<leftarrow> assign_zero 4 m d; m \<leftarrow> assign_zero 2 m (d + 4); m \<leftarrow> assign_zero 1 m (d + 6); Some (m, d) }"

text \<open>Statements one after the other.\<close>

fun run_ops :: "('o \<Rightarrow> 's \<Rightarrow> 's option) \<Rightarrow> 'o list \<Rightarrow> 's \<Rightarrow> 's option" where
  "run_ops step [] st = Some st"
| "run_ops step (x # xs) st = do { st \<leftarrow> step x st; run_ops step xs st }"

section \<open>The functions\<close>

text \<open>\<^verbatim>\<open>for (; n > 256; n -= 256)\<close> with 32 times \<^verbatim>\<open>MOD0\<close>; the size that is left is returned.\<close>

fun rows_loop :: "(mod_op \<Rightarrow> 's \<Rightarrow> 's option) \<Rightarrow> nat \<Rightarrow> 's \<Rightarrow> (nat \<times> 's) option" where
  "rows_loop step n st =
     (if 256 < n then do { st \<leftarrow> run_ops step (replicate 32 MOD0) st; rows_loop step (n - 256) st } else Some (n, st))"

declare rows_loop.simps [simp del]

text \<open>\<^verbatim>\<open>switch (n)\<close>, which does nothing without a case for \<open>n\<close>.\<close>

definition switch_ops :: "(nat \<times> mod_op list) list \<Rightarrow> (mod_op \<Rightarrow> 's \<Rightarrow> 's option) \<Rightarrow> nat \<Rightarrow> 's \<Rightarrow> 's option" where
  "switch_ops cases step n st = (case map_of cases n of None \<Rightarrow> Some st | Some ops \<Rightarrow> run_ops step ops st)"

text \<open>
  The library functions the Windows branch hands large sizes to: \<^verbatim>\<open>std::memcpy\<close>, which is undefined on
  blocks that overlap, and \<^verbatim>\<open>std::memset\<close> with 0.
\<close>

definition std_memcpy :: "memory \<Rightarrow> nat \<Rightarrow> nat \<Rightarrow> nat \<Rightarrow> memory option" where
  "std_memcpy m dest src n =
     (if dest + n \<le> src \<or> src + n \<le> dest then assign n m dest src else None)"

definition std_memset_zero :: "memory \<Rightarrow> nat \<Rightarrow> nat \<Rightarrow> memory option" where
  "std_memset_zero m dest n = assign_zero n m dest"

definition SL_memcpy :: "bool \<Rightarrow> memory \<Rightarrow> nat \<Rightarrow> nat \<Rightarrow> nat \<Rightarrow> (memory \<times> nat) option" where
  "SL_memcpy windows m dest src n =
     (if windows \<and> 256 < n then do { m \<leftarrow> std_memcpy m dest src n; Some (m, dest) }
      else do {
        (n, st) \<leftarrow> (if windows then Some (n, m, dest, src) else rows_loop copy_MOD n (m, dest, src));
        (m, _, _) \<leftarrow> switch_ops memcpy_cases copy_MOD n st;
        Some (m, dest) })"

definition SL_memclear :: "bool \<Rightarrow> memory \<Rightarrow> nat \<Rightarrow> nat \<Rightarrow> memory option" where
  "SL_memclear windows m dest n =
     (if windows \<and> 256 < n then std_memset_zero m dest n
      else do {
        (n, st) \<leftarrow> (if windows then Some (n, m, dest) else rows_loop clear_MOD n (m, dest));
        (m, _) \<leftarrow> switch_ops memclear_cases clear_MOD n st;
        Some m })"

section \<open>What an assignment does\<close>

text \<open>The bytes from \<open>a\<close> on are accessible.\<close>

definition accessible :: "memory \<Rightarrow> nat \<Rightarrow> nat \<Rightarrow> bool" where
  "accessible m a k \<longleftrightarrow> (\<forall>i<k. m (a + i) \<noteq> None)"

definition copied :: "memory \<Rightarrow> nat \<Rightarrow> nat \<Rightarrow> nat \<Rightarrow> memory" where
  "copied m d s k = (\<lambda>a. if d \<le> a \<and> a < d + k then m (s + (a - d)) else m a)"

definition cleared :: "memory \<Rightarrow> nat \<Rightarrow> nat \<Rightarrow> memory" where
  "cleared m d k = (\<lambda>a. if d \<le> a \<and> a < d + k then Some 0 else m a)"

lemma accessible_mono: "accessible m a n \<Longrightarrow> j + k \<le> n \<Longrightarrow> accessible m (a + j) k"
  by (simp add: accessible_def add.assoc)

lemma mem_load_some: "accessible m a k \<Longrightarrow> mem_load m a k = Some (map (\<lambda>i. the (m (a + i))) [0..<k])"
  unfolding mem_load_def by (rule those_map) (auto simp: accessible_def)

lemma mem_store_some:
  "accessible m a (length bs) \<Longrightarrow>
     mem_store m a bs = Some (\<lambda>x. if a \<le> x \<and> x < a + length bs then Some (bs ! (x - a)) else m x)"
proof (induction bs arbitrary: m a)
  case (Cons b bs)
  have a: "m a \<noteq> None" using Cons.prems by (auto simp: accessible_def)
  have "m (a + 1 + i) \<noteq> None" if "i < length bs" for i
    using Cons.prems [unfolded accessible_def, rule_format, of "Suc i"] that by simp
  then have "accessible (m(a \<mapsto> b)) (a + 1) (length bs)" by (simp add: accessible_def)
  note IH = Cons.IH [OF this]
  have "(\<lambda>x. if a + 1 \<le> x \<and> x < a + 1 + length bs then Some (bs ! (x - (a + 1))) else (m(a \<mapsto> b)) x) =
      (\<lambda>x. if a \<le> x \<and> x < a + length (b # bs) then Some ((b # bs) ! (x - a)) else m x)"
    by (rule ext) (auto simp: nth_Cons')
  then show ?case using a unfolding mem_store.simps IH by (auto split: option.splits)
qed (auto simp: fun_eq_iff)

lemma assign_copied:
  assumes "accessible m d k" "accessible m s k" shows "assign k m d s = Some (copied m d s k)"
proof -
  have "accessible m d (length (map (\<lambda>i. the (m (s + i))) [0..<k]))" using assms(1) by simp
  note st = mem_store_some [OF this]
  have "m (s + i) = Some (the (m (s + i)))" if "i < k" for i using assms(2) that by (auto simp: accessible_def)
  then have "(\<lambda>x. if d \<le> x \<and> x < d + length (map (\<lambda>i. the (m (s + i))) [0..<k])
      then Some (map (\<lambda>i. the (m (s + i))) [0..<k] ! (x - d)) else m x) = copied m d s k"
    by (auto simp: fun_eq_iff copied_def)
  then show ?thesis unfolding assign_def mem_load_some [OF assms(2)] using st by simp
qed

lemma assign_zero_cleared: "accessible m d k \<Longrightarrow> assign_zero k m d = Some (cleared m d k)"
  using mem_store_some [of m d "replicate k 0"] by (auto simp: assign_zero_def cleared_def fun_eq_iff)

text \<open>One copy after the other, upwards, is one copy: the source is not overwritten before it is read.\<close>

definition upward :: "nat \<Rightarrow> nat \<Rightarrow> nat \<Rightarrow> bool" where
  "upward d s n \<longleftrightarrow> d \<le> s \<or> s + n \<le> d"

lemma copied_copied:
  assumes "upward d s (j + k)" shows "copied (copied m d s j) (d + j) (s + j) k = copied m d s (j + k)"
proof (rule ext)
  fix a
  show "copied (copied m d s j) (d + j) (s + j) k a = copied m d s (j + k) a"
  proof (cases "d + j \<le> a \<and> a < d + j + k")
    case True
    define x where "x = s + (a - d)"
    have x: "s + j + (a - (d + j)) = x" using True by (simp add: x_def)
    have "\<not> (d \<le> x \<and> x < d + j)" using assms True unfolding upward_def x_def by linarith
    then have "copied m d s j x = m x" unfolding copied_def by (rule if_not_P)
    then have "copied (copied m d s j) (d + j) (s + j) k a = m x" using True x by (simp add: copied_def [of "copied m d s j"])
    moreover have "copied m d s (j + k) a = m x" using True by (simp add: copied_def x_def)
    ultimately show ?thesis by simp
  qed (auto simp: copied_def)
qed

lemma cleared_cleared: "cleared (cleared m d j) (d + j) k = cleared m d (j + k)"
  by (auto simp: fun_eq_iff cleared_def)

lemma accessible_copied:
  assumes "accessible m a n" "accessible m s k" shows "accessible (copied m d s k) a n"
proof -
  have "copied m d s k x \<noteq> None" if "m x \<noteq> None" for x
    using that assms(2) [unfolded accessible_def, rule_format, of "x - d"] by (auto simp: copied_def)
  then show ?thesis using assms(1) by (simp add: accessible_def)
qed

lemma accessible_cleared: "accessible m a n \<Longrightarrow> accessible (cleared m d k) a n"
  by (simp add: accessible_def cleared_def)

section \<open>The contract of the macros\<close>

text \<open>
  \<open>at p j\<close> is the state in which the first \<open>j\<close> bytes of the job \<open>p\<close> are done and the pointers have moved
  on, \<open>result p j\<close> its memory, and \<open>ready p n\<close> says that the job may be done on \<open>n\<close> bytes.
\<close>

locale unrolled_memory =
  fixes step :: "mod_op \<Rightarrow> 's \<Rightarrow> 's option"
    and at :: "'p \<Rightarrow> nat \<Rightarrow> 's"
    and mem :: "'s \<Rightarrow> memory"
    and result :: "'p \<Rightarrow> nat \<Rightarrow> memory"
    and ready :: "'p \<Rightarrow> nat \<Rightarrow> bool"
  assumes at_mem: "mem (at p j) = result p j"
    and row: "ready p n \<Longrightarrow> j + 8 \<le> n \<Longrightarrow> step MOD0 (at p j) = Some (at p (j + 8))"
    and tail: "ready p n \<Longrightarrow> j + r \<le> n \<Longrightarrow> r < 8 \<Longrightarrow>
      \<exists>st. run_ops step (mod_tail r) (at p j) = Some st \<and> mem st = result p (j + r)"
begin

lemma run_append: "run_ops step (xs @ ys) st = do { st \<leftarrow> run_ops step xs st; run_ops step ys st }"
  by (induction xs arbitrary: st) (auto split: bind_splits)

lemma rows: "ready p n \<Longrightarrow> j + 8 * c \<le> n \<Longrightarrow> run_ops step (replicate c MOD0) (at p j) = Some (at p (j + 8 * c))"
proof (induction c arbitrary: j)
  case (Suc c)
  then have "step MOD0 (at p j) = Some (at p (j + 8))" by (intro row [of p n]) simp_all
  then show ?case using Suc.IH [of "j + 8"] Suc.prems by (simp add: algebra_simps)
qed simp

lemma mods_run:
  assumes "ready p n" "j + k \<le> n"
  shows "\<exists>st. run_ops step (mods k) (at p j) = Some st \<and> mem st = result p (j + k)"
proof -
  have k: "8 * (k div 8) + k mod 8 = k" by simp
  have "run_ops step (replicate (k div 8) MOD0) (at p j) = Some (at p (j + 8 * (k div 8)))"
    by (rule rows [OF assms(1)]) (use assms(2) k in linarith)
  moreover have "\<exists>st. run_ops step (mod_tail (k mod 8)) (at p (j + 8 * (k div 8))) = Some st \<and>
      mem st = result p (j + 8 * (k div 8) + k mod 8)"
    by (rule tail [OF assms(1)]) (use assms(2) k in linarith, simp)
  ultimately show ?thesis by (simp add: mods_def run_append add.assoc k)
qed

lemma loop_run:
  "ready p n \<Longrightarrow> j + k \<le> n \<Longrightarrow>
     \<exists>k' j'. rows_loop step k (at p j) = Some (k', at p j') \<and> k' \<le> 256 \<and> j' + k' = j + k"
proof (induction k arbitrary: j rule: less_induct)
  case (less k)
  show ?case
  proof (cases "256 < k")
    case True
    have "run_ops step (replicate 32 MOD0) (at p j) = Some (at p (j + 256))"
      using rows [OF less.prems(1), of j 32] less.prems(2) True by simp
    moreover obtain k' j' where "rows_loop step (k - 256) (at p (j + 256)) = Some (k', at p j')" "k' \<le> 256" "j' + k' = j + k"
      using less.IH [of "k - 256" "j + 256"] less.prems True by auto
    ultimately show ?thesis using True by (subst rows_loop.simps) auto
  next
    case False
    then show ?thesis by (subst rows_loop.simps) auto
  qed
qed

lemma switch_run:
  assumes "ready p n" "j + k \<le> n" "k \<le> 256" "\<And>n. map_of cases n = (if 0 < n \<and> n \<le> 256 then Some (mods n) else None)"
  shows "\<exists>st. switch_ops cases step k (at p j) = Some st \<and> mem st = result p (j + k)"
  using mods_run [OF assms(1,2)] assms(3) at_mem [of p j] by (cases "k = 0") (auto simp: switch_ops_def assms(4))

end

definition copy_ready :: "memory \<times> nat \<times> nat \<Rightarrow> nat \<Rightarrow> bool" where
  "copy_ready = (\<lambda>(m, d, s) n. accessible m d n \<and> accessible m s n \<and> upward d s n)"

lemma assign_more:
  assumes "accessible m d n" "accessible m s n" "upward d s n" "j + k \<le> n"
  shows "assign k (copied m d s j) (d + j) (s + j) = Some (copied m d s (j + k))"
proof -
  have j: "accessible m s j" using assms(2,4) by (simp add: accessible_def)
  have "accessible (copied m d s j) (d + j) k" "accessible (copied m d s j) (s + j) k"
    by (rule accessible_mono [OF accessible_copied [OF _ j] assms(4)], rule assms)+
  from assign_copied [OF this] show ?thesis using copied_copied [of d s j k m] assms(3,4) by (auto simp: upward_def)
qed

lemma mod_tail_cases: "r < 8 \<Longrightarrow> r = 0 \<or> r = 1 \<or> r = 2 \<or> r = 3 \<or> r = 4 \<or> r = 5 \<or> r = 6 \<or> r = (7 :: nat)"
  by auto

lemma copy_tail:
  assumes "copy_ready (m, d, s) n" "j + r \<le> n" "r < 8"
  shows "\<exists>st. run_ops copy_MOD (mod_tail r) (copied m d s j, d + j, s + j) = Some st \<and> fst st = copied m d s (j + r)"
proof -
  have more: "assign k (copied m d s i) (d + i) (s + i) = Some (copied m d s (i + k))" if "i + k \<le> n" for i k
    using assms(1) that by (intro assign_more) (auto simp: copy_ready_def)
  have a2_1: "assign 1 (copied m d s (j + 2)) (d + j + 2) (s + j + 2) = Some (copied m d s (j + 3))" if "j + 3 \<le> n"
    using more [of "j + 2" 1] that by (simp add: add.assoc del: One_nat_def add_2_eq_Suc add_2_eq_Suc')
  have a4_1: "assign 1 (copied m d s (j + 4)) (d + j + 4) (s + j + 4) = Some (copied m d s (j + 5))" if "j + 5 \<le> n"
    using more [of "j + 4" 1] that by (simp add: add.assoc del: One_nat_def add_2_eq_Suc add_2_eq_Suc')
  have a4_2: "assign 2 (copied m d s (j + 4)) (d + j + 4) (s + j + 4) = Some (copied m d s (j + 6))" if "j + 6 \<le> n"
    using more [of "j + 4" 2] that by (simp add: add.assoc del: One_nat_def add_2_eq_Suc add_2_eq_Suc')
  have a6_1: "assign 1 (copied m d s (j + 6)) (d + j + 6) (s + j + 6) = Some (copied m d s (j + 7))" if "j + 7 \<le> n"
    using more [of "j + 6" 1] that by (simp add: add.assoc del: One_nat_def add_2_eq_Suc add_2_eq_Suc')
  show ?thesis
    using mod_tail_cases [OF assms(3)] assms(2) more [of j 1] more [of j 2] more [of j 4]
    by (elim disjE) (simp_all add: a2_1 a4_1 a4_2 a6_1 del: One_nat_def add_2_eq_Suc add_2_eq_Suc')
qed

interpretation copying: unrolled_memory copy_MOD "\<lambda>(m, d, s) j. (copied m d s j, d + j, s + j)" fst
  "\<lambda>(m, d, s) j. copied m d s j" copy_ready
proof (unfold_locales, goal_cases)
  case (3 p n j r)
  then show ?case using copy_tail by (cases p) simp
qed (auto simp: copy_ready_def assign_more add.assoc)

definition clear_ready :: "memory \<times> nat \<Rightarrow> nat \<Rightarrow> bool" where
  "clear_ready = (\<lambda>(m, d) n. accessible m d n)"

lemma zero_more:
  assumes "accessible m d n" "j + k \<le> n" shows "assign_zero k (cleared m d j) (d + j) = Some (cleared m d (j + k))"
  using assign_zero_cleared [OF accessible_mono [OF accessible_cleared [OF assms(1)] assms(2)]]
  by (simp add: cleared_cleared)

lemma clear_tail:
  assumes "clear_ready (m, d) n" "j + r \<le> n" "r < 8"
  shows "\<exists>st. run_ops clear_MOD (mod_tail r) (cleared m d j, d + j) = Some st \<and> fst st = cleared m d (j + r)"
proof -
  have more: "assign_zero k (cleared m d i) (d + i) = Some (cleared m d (i + k))" if "i + k \<le> n" for i k
    using assms(1) that by (intro zero_more) (auto simp: clear_ready_def)
  have a2_1: "assign_zero 1 (cleared m d (j + 2)) (d + j + 2) = Some (cleared m d (j + 3))" if "j + 3 \<le> n"
    using more [of "j + 2" 1] that by (simp add: add.assoc del: One_nat_def add_2_eq_Suc add_2_eq_Suc')
  have a4_1: "assign_zero 1 (cleared m d (j + 4)) (d + j + 4) = Some (cleared m d (j + 5))" if "j + 5 \<le> n"
    using more [of "j + 4" 1] that by (simp add: add.assoc del: One_nat_def add_2_eq_Suc add_2_eq_Suc')
  have a4_2: "assign_zero 2 (cleared m d (j + 4)) (d + j + 4) = Some (cleared m d (j + 6))" if "j + 6 \<le> n"
    using more [of "j + 4" 2] that by (simp add: add.assoc del: One_nat_def add_2_eq_Suc add_2_eq_Suc')
  have a6_1: "assign_zero 1 (cleared m d (j + 6)) (d + j + 6) = Some (cleared m d (j + 7))" if "j + 7 \<le> n"
    using more [of "j + 6" 1] that by (simp add: add.assoc del: One_nat_def add_2_eq_Suc add_2_eq_Suc')
  show ?thesis
    using mod_tail_cases [OF assms(3)] assms(2) more [of j 1] more [of j 2] more [of j 4]
    by (elim disjE) (simp_all add: a2_1 a4_1 a4_2 a6_1 del: One_nat_def add_2_eq_Suc add_2_eq_Suc')
qed

interpretation clearing: unrolled_memory clear_MOD "\<lambda>(m, d) j. (cleared m d j, d + j)" fst
  "\<lambda>(m, d) j. cleared m d j" clear_ready
proof (unfold_locales, goal_cases)
  case (3 p n j r)
  then show ?case using clear_tail by (cases p) simp
qed (auto simp: clear_ready_def zero_more add.assoc)

section \<open>The functions copy and clear\<close>

text \<open>C23:
  \<^verbatim>\<open>SL_Utility_Memory::memcpy\<close>: for every size, through the loop and each of the 256 unrolled cases,
  the bytes at the destination become those that were at the source and no other byte changes; only the
  two blocks are accessed, and the destination is returned.  On blocks that overlap this still holds when
  the destination lies below the source, except on Windows for sizes above 256, which go to the library.
\<close>

theorem memcpy_copies:
  assumes "\<forall>i<n. m (dest + i) \<noteq> None \<and> m (src + i) \<noteq> None"
    and "src + n \<le> dest \<or> dest + n \<le> src \<or> dest \<le> src \<and> (windows \<longrightarrow> n \<le> 256)"
  shows "SL_memcpy windows m dest src n =
    Some (\<lambda>a. if dest \<le> a \<and> a < dest + n then m (src + (a - dest)) else m a, dest)"
proof -
  have acc: "accessible m dest n" "accessible m src n" using assms(1) by (simp_all add: accessible_def)
  have "copy_ready (m, dest, src) n" using acc assms(2) by (auto simp: copy_ready_def upward_def)
  note run = copying.loop_run [OF this, of 0 n] copying.switch_run [OF this, of _ _ memcpy_cases]
  have z: "copied m dest src 0 = m" by (auto simp: copied_def fun_eq_iff)
  have std: "assign n m dest src = Some (copied m dest src n)" by (rule assign_copied [OF acc])
  have r: "(\<lambda>a. if dest \<le> a \<and> a < dest + n then m (src + (a - dest)) else m a) = copied m dest src n"
    by (simp add: copied_def)
  show ?thesis
  proof (cases "windows \<and> 256 < n")
    case True
    then show ?thesis using assms(2) std by (auto simp: SL_memcpy_def std_memcpy_def r)
  next
    case False
    obtain k j where kj: "(if windows then Some (n, m, dest, src) else rows_loop copy_MOD n (m, dest, src)) =
        Some (k, copied m dest src j, dest + j, src + j)" "k \<le> 256" "j + k = n"
    proof (cases windows)
      case True
      then show thesis using that [of n 0] False z by simp
    next
      case False
      then show thesis using that run(1) z by auto
    qed
    obtain st where "switch_ops memcpy_cases copy_MOD k (copied m dest src j, dest + j, src + j) = Some st"
      "fst st = copied m dest src n"
      using run(2) [of j k] kj switch_mods(1) by auto
    then show ?thesis unfolding SL_memcpy_def r if_not_P [OF False] kj(1) by (simp add: split_beta)
  qed
qed

theorem memcpy_copies_witness:
  "SL_memcpy False ((\<lambda>_. None)(5 \<mapsto> 1, 6 \<mapsto> 2, 7 \<mapsto> 3, 8 \<mapsto> 4)) 5 6 3 =
    Some (\<lambda>a. if 5 \<le> a \<and> a < 5 + 3 then ((\<lambda>_. None)(5 \<mapsto> 1, 6 \<mapsto> 2, 7 \<mapsto> 3, 8 \<mapsto> 4)) (6 + (a - 5))
          else ((\<lambda>_. None)(5 \<mapsto> 1, 6 \<mapsto> 2, 7 \<mapsto> 3, 8 \<mapsto> 4)) a, 5)"
  by (rule memcpy_copies) (auto simp: numeral_3_eq_3 less_Suc_eq)

text \<open>
  \<^verbatim>\<open>SL_Utility_Memory::memclear\<close> sets the bytes of the block to 0, accesses and changes no other byte, for
  every size and on both platforms.
\<close>

theorem memclear_clears:
  assumes "\<forall>i<n. m (dest + i) \<noteq> None"
  shows "SL_memclear windows m dest n = Some (\<lambda>a. if dest \<le> a \<and> a < dest + n then Some 0 else m a)"
proof -
  have acc: "accessible m dest n" using assms by (simp add: accessible_def)
  then have "clear_ready (m, dest) n" by (simp add: clear_ready_def)
  note run = clearing.loop_run [OF this, of 0 n] clearing.switch_run [OF this, of _ _ memclear_cases]
  have z: "cleared m dest 0 = m" by (auto simp: cleared_def fun_eq_iff)
  have r: "(\<lambda>a. if dest \<le> a \<and> a < dest + n then Some 0 else m a) = cleared m dest n" by (simp add: cleared_def)
  show ?thesis
  proof (cases "windows \<and> 256 < n")
    case True
    then show ?thesis by (simp add: SL_memclear_def std_memset_zero_def assign_zero_cleared [OF acc] r)
  next
    case False
    obtain k j where kj: "(if windows then Some (n, m, dest) else rows_loop clear_MOD n (m, dest)) =
        Some (k, cleared m dest j, dest + j)" "k \<le> 256" "j + k = n"
    proof (cases windows)
      case True
      then show thesis using that [of n 0] False z by simp
    next
      case False
      then show thesis using that run(1) z by auto
    qed
    obtain st where "switch_ops memclear_cases clear_MOD k (cleared m dest j, dest + j) = Some st"
      "fst st = cleared m dest n"
      using run(2) [of j k] kj switch_mods(2) by auto
    then show ?thesis unfolding SL_memclear_def r if_not_P [OF False] kj(1) by (simp add: split_beta)
  qed
qed

theorem memclear_clears_witness:
  "SL_memclear False ((\<lambda>_. None)(5 \<mapsto> 1, 6 \<mapsto> 2, 7 \<mapsto> 3)) 5 2 =
    Some (\<lambda>a. if 5 \<le> a \<and> a < 5 + 2 then Some 0 else ((\<lambda>_. None)(5 \<mapsto> 1, 6 \<mapsto> 2, 7 \<mapsto> 3)) a)"
  by (rule memclear_clears) (auto simp: numeral_2_eq_2 less_Suc_eq)

end
