(* ===== verification/SL_TimerList.thy ===== *)
theory SL_TimerList
  imports SL_Prelude
begin

text \<open>
  \<^verbatim>\<open>SL_Seda_Timer\<close> and \<^verbatim>\<open>SL_Seda_TimerList\<close>: doubly linked lists of the timers of one pool.  A list
  operation works on the pool, a store of timers by their number, and the list, whose head node is a
  timer of its own of which only the two links count.  A pointer is a timer of the pool or that head;
  the links at both ends of a list point to the end itself.
\<close>

datatype tptr = Node nat | Head

record timer =
  t_prev :: tptr
  t_next :: tptr
  t_param :: "64 word"
  t_end :: uint64
  t_interval :: uint
  t_active :: bool

type_synonym pool = "nat \<Rightarrow> timer"

record tlist =
  tl_prev :: tptr
  tl_next :: tptr
  tl_size :: uint

definition timer_init :: "nat \<Rightarrow> timer" where
  "timer_init i = \<lparr>t_prev = Node i, t_next = Node i, t_param = 0, t_end = 0, t_interval = 0, t_active = False\<rparr>"

definition tl_init :: tlist where
  "tl_init = \<lparr>tl_prev = Head, tl_next = Head, tl_size = 0\<rparr>"

section \<open>Links\<close>

fun get_next :: "tptr \<Rightarrow> pool \<times> tlist \<Rightarrow> tptr" where
  "get_next (Node i) (h, l) = t_next (h i)"
| "get_next Head (h, l) = tl_next l"

fun get_prev :: "tptr \<Rightarrow> pool \<times> tlist \<Rightarrow> tptr" where
  "get_prev (Node i) (h, l) = t_prev (h i)"
| "get_prev Head (h, l) = tl_prev l"

fun put_next :: "tptr \<Rightarrow> tptr \<Rightarrow> pool \<times> tlist \<Rightarrow> pool \<times> tlist" where
  "put_next (Node i) p (h, l) = (h(i := (h i)\<lparr>t_next := p\<rparr>), l)"
| "put_next Head p (h, l) = (h, l\<lparr>tl_next := p\<rparr>)"

fun put_prev :: "tptr \<Rightarrow> tptr \<Rightarrow> pool \<times> tlist \<Rightarrow> pool \<times> tlist" where
  "put_prev (Node i) p (h, l) = (h(i := (h i)\<lparr>t_prev := p\<rparr>), l)"
| "put_prev Head p (h, l) = (h, l\<lparr>tl_prev := p\<rparr>)"

definition alone :: "pool \<times> tlist \<Rightarrow> bool" where
  "alone s \<longleftrightarrow> get_next Head s = Head"

definition resize :: "(uint \<Rightarrow> uint) \<Rightarrow> pool \<times> tlist \<Rightarrow> pool \<times> tlist" where
  "resize f = (\<lambda>(h, l). (h, l\<lparr>tl_size := f (tl_size l)\<rparr>))"

section \<open>Operations\<close>

definition tl_push_front :: "nat \<Rightarrow> pool \<times> tlist \<Rightarrow> pool \<times> tlist" where
  "tl_push_front t s =
     (let s = put_prev (Node t) (Node t) s;
          s = (if alone s then put_prev Head (Node t) (put_next (Node t) (Node t) s)
               else put_prev (get_next Head s) (Node t) (put_next (Node t) (get_next Head s) s));
          s = put_next Head (Node t) s
      in resize (\<lambda>n. n + 1) s)"

definition tl_push_back :: "nat \<Rightarrow> pool \<times> tlist \<Rightarrow> pool \<times> tlist" where
  "tl_push_back t s =
     (let s = put_next (Node t) (Node t) s;
          s = (if alone s then put_next Head (Node t) (put_prev (Node t) (Node t) s)
               else put_next (get_prev Head s) (Node t) (put_prev (Node t) (get_prev Head s) s));
          s = put_prev Head (Node t) s
      in resize (\<lambda>n. n + 1) s)"

text \<open>\<^verbatim>\<open>if (--size_ == 0) head_.init();\<close>\<close>

definition drop_size :: "pool \<times> tlist \<Rightarrow> pool \<times> tlist" where
  "drop_size s =
     (let s = resize (\<lambda>n. n - 1) s
      in if tl_size (snd s) = 0 then put_next Head Head (put_prev Head Head s) else s)"

definition tl_pop_front :: "pool \<times> tlist \<Rightarrow> pool \<times> tlist" where
  "tl_pop_front s =
     (if alone s then s
      else
        let s = put_next Head (get_next (get_next Head s) s) s;
            s = put_prev (get_next Head s) (get_next Head s) s
        in drop_size s)"

definition tl_pop_back :: "pool \<times> tlist \<Rightarrow> pool \<times> tlist" where
  "tl_pop_back s =
     (if alone s then s
      else
        let s = put_prev Head (get_prev (get_prev Head s) s) s;
            s = put_next (get_prev Head s) (get_prev Head s) s
        in drop_size s)"

definition tl_insert_before :: "tptr \<Rightarrow> nat \<Rightarrow> pool \<times> tlist \<Rightarrow> pool \<times> tlist" where
  "tl_insert_before pos t s =
     (let s = put_next (Node t) pos s;
          s = put_prev (Node t) (get_prev pos s) s;
          s = (if pos \<noteq> get_prev pos s then put_next (get_prev pos s) (Node t) s else s);
          s = put_prev pos (Node t) s;
          s = (if pos = get_next Head s then put_prev (Node t) (Node t) (put_next Head (Node t) s) else s)
      in resize (\<lambda>n. n + 1) s)"

definition tl_insert_after :: "tptr \<Rightarrow> nat \<Rightarrow> pool \<times> tlist \<Rightarrow> pool \<times> tlist" where
  "tl_insert_after pos t s =
     (let s = put_next (Node t) (get_next pos s) s;
          s = put_prev (Node t) pos s;
          s = (if pos \<noteq> get_next pos s then put_prev (get_next pos s) (Node t) s else s);
          s = put_next pos (Node t) s;
          s = (if pos = get_prev Head s then put_next (Node t) (Node t) (put_prev Head (Node t) s) else s)
      in resize (\<lambda>n. n + 1) s)"

definition tl_remove :: "nat \<Rightarrow> pool \<times> tlist \<Rightarrow> pool \<times> tlist" where
  "tl_remove t s =
     (if tl_size (snd s) = 0 then s
      else
        let s = put_next (get_prev (Node t) s) (get_next (Node t) s) s;
            s = put_prev (get_next (Node t) s) (get_prev (Node t) s) s;
            s = (if Node t = get_next Head s
                 then let s = put_next Head (get_next (Node t) s) s in put_prev (get_next Head s) (get_next Head s) s
                 else s);
            s = (if Node t = get_prev Head s
                 then let s = put_prev Head (get_prev (Node t) s) s in put_next (get_prev Head s) (get_prev Head s) s
                 else s);
            (h, l) = drop_size s
        in (h(t := timer_init t), l))"

definition tl_front :: "tlist \<Rightarrow> tptr" where
  "tl_front l = tl_next l"

definition tl_back :: "tlist \<Rightarrow> tptr" where
  "tl_back l = tl_prev l"

definition tl_empty :: "tlist \<Rightarrow> bool" where
  "tl_empty l \<longleftrightarrow> tl_size l = 0"

section \<open>The sequence that a list holds\<close>

fun links :: "pool \<Rightarrow> nat list \<Rightarrow> bool" where
  "links h (x # y # r) \<longleftrightarrow> t_next (h x) = Node y \<and> t_prev (h y) = Node x \<and> links h (y # r)"
| "links h _ \<longleftrightarrow> True"

fun dll :: "pool \<times> tlist \<Rightarrow> nat list \<Rightarrow> bool" where
  "dll (h, l) xs \<longleftrightarrow>
     distinct xs \<and> length xs < 2 ^ 32 \<and> tl_size l = word_of_nat (length xs) \<and> links h xs \<and>
     (if xs = [] then tl_next l = Head \<and> tl_prev l = Head
      else tl_next l = Node (hd xs) \<and> tl_prev l = Node (last xs) \<and>
        t_prev (h (hd xs)) = Node (hd xs) \<and> t_next (h (last xs)) = Node (last xs))"

text \<open>Everything of a timer but its links.\<close>

definition payload :: "timer \<Rightarrow> 64 word \<times> uint64 \<times> uint \<times> bool" where
  "payload t = (t_param t, t_end t, t_interval t, t_active t)"

lemma links_append:
  "links h (xs @ ys) \<longleftrightarrow> links h xs \<and> links h ys \<and>
     (xs \<noteq> [] \<and> ys \<noteq> [] \<longrightarrow> t_next (h (last xs)) = Node (hd ys) \<and> t_prev (h (hd ys)) = Node (last xs))"
proof (induction xs rule: induct_list012)
  case (2 x)
  then show ?case by (cases ys) auto
qed auto

lemma links_Cons: "links h (x # xs) \<longleftrightarrow> links h xs \<and> (xs \<noteq> [] \<longrightarrow> t_next (h x) = Node (hd xs) \<and> t_prev (h (hd xs)) = Node x)"
  using links_append [of h "[x]" xs] by auto

lemma links_upd [simp]: "i \<notin> set xs \<Longrightarrow> links (h(i := t)) xs = links h xs"
  by (induction h xs rule: links.induct) auto

lemma links_upd_head: "links (h(x := t)) (x # xs) \<longleftrightarrow> links h xs \<and> (xs \<noteq> [] \<longrightarrow> t_next t = Node (hd xs) \<and> t_prev (h (hd xs)) = Node x)"
  if "x \<notin> set xs"
  using that by (cases xs) (auto simp: links_Cons)

lemma dll_cong:
  assumes "\<And>i. i \<in> set xs \<Longrightarrow> h' i = h i" shows "dll (h', l) xs = dll (h, l) xs"
proof -
  have "links h' ys = links h ys" if "set ys \<subseteq> set xs" for ys
    using that assms by (induction h ys rule: links.induct) (auto simp: subset_iff)
  then show ?thesis using assms by (auto simp: hd_in_set last_in_set)
qed

text \<open>An operation on a list changes links of its own timers only.\<close>

definition only_links :: "nat set \<Rightarrow> pool \<Rightarrow> pool \<Rightarrow> bool" where
  "only_links S h h' \<longleftrightarrow> (\<forall>i. payload (h' i) = payload (h i) \<and> (i \<notin> S \<longrightarrow> h' i = h i))"

lemma dll_empty [simp]: "dll (h, l) [] \<longleftrightarrow> l = tl_init"
  by (cases l) (auto simp: tl_init_def)

lemma size_le: "length xs < 2 ^ 32 \<Longrightarrow> (word_of_nat (length xs) :: uint) = 0 \<longleftrightarrow> xs = []"
  by (simp add: word_of_nat_eq_0_iff) (metis dvd_imp_le le_zero_eq length_0_conv linorder_not_less not_gr0 dvd_0_right)

lemma alone_dll: "dll (h, l) xs \<Longrightarrow> alone (h, l) \<longleftrightarrow> xs = []"
  by (simp add: alone_def split: if_splits)

lemma empty_dll: "dll (h, l) xs \<Longrightarrow> tl_empty l \<longleftrightarrow> xs = []"
  by (simp add: tl_empty_def size_le)

lemma ends_notin:
  assumes "r \<noteq> []" "x \<notin> set r" shows "hd r \<noteq> x" "last r \<noteq> x" "x \<noteq> hd r" "x \<noteq> last r"
  using assms by auto

lemmas tl_simps = alone_def resize_def only_links_def payload_def links_Cons links_append ends_notin

lemma push_front_dll:
  assumes "dll (h, l) xs" "x \<notin> set xs" "length xs + 1 < 2 ^ 32"
  shows "\<exists>h' l'. tl_push_front x (h, l) = (h', l') \<and> dll (h', l') (x # xs) \<and> only_links (set (x # xs)) h h'"
proof -
  consider "xs = []" | y where "xs = [y]" | y r where "xs = y # r" "r \<noteq> []" by (cases xs; cases "tl xs") auto
  then show ?thesis
    by cases (use assms in \<open>simp_all add: tl_push_front_def tl_init_def tl_simps\<close>)
qed

lemma push_back_dll:
  assumes "dll (h, l) xs" "x \<notin> set xs" "length xs + 1 < 2 ^ 32"
  shows "\<exists>h' l'. tl_push_back x (h, l) = (h', l') \<and> dll (h', l') (xs @ [x]) \<and> only_links (set (xs @ [x])) h h'"
proof -
  consider "xs = []" | y where "xs = [y]" | y r where "xs = r @ [y]" "r \<noteq> []" by (cases xs rule: rev_cases; cases "butlast xs") auto
  then show ?thesis
    by cases (use assms in \<open>simp_all add: tl_push_back_def tl_init_def tl_simps\<close>)
qed

lemma size_pos: "dll (h, l) (xs @ x # ys) \<Longrightarrow> tl_size l = 1 + word_of_nat (length xs + length ys)"
  by simp

lemma size_drop:
  "length xs < 2 ^ 32 \<Longrightarrow> (1 + word_of_nat (length xs) :: uint) - 1 = word_of_nat (length xs)"
  by simp

lemma pop_front_dll:
  assumes "dll (h, l) (x # xs)"
  shows "\<exists>h' l'. tl_pop_front (h, l) = (h', l') \<and> dll (h', l') xs \<and> only_links (set (x # xs)) h h'"
proof -
  consider "xs = []" | y where "xs = [y]" | y r where "xs = y # r" "r \<noteq> []" by (cases xs; cases "tl xs") auto
  then show ?thesis
  proof cases
    case (3 y r)
    have "(word_of_nat (length xs) :: uint) \<noteq> 0" using assms 3 by (subst size_le) auto
    then show ?thesis using assms 3 by (simp add: tl_pop_front_def drop_size_def tl_init_def tl_simps)
  qed (use assms in \<open>simp_all add: tl_pop_front_def drop_size_def tl_init_def tl_simps\<close>)
qed

lemma pop_back_dll:
  assumes "dll (h, l) (xs @ [x])"
  shows "\<exists>h' l'. tl_pop_back (h, l) = (h', l') \<and> dll (h', l') xs \<and> only_links (set (xs @ [x])) h h'"
proof -
  consider "xs = []" | y where "xs = [y]" | y r where "xs = r @ [y]" "r \<noteq> []" by (cases xs rule: rev_cases; cases "butlast xs") auto
  then show ?thesis
  proof cases
    case (3 y r)
    have "(word_of_nat (length xs) :: uint) \<noteq> 0" using assms 3 by (subst size_le) auto
    then show ?thesis using assms 3 by (simp add: tl_pop_back_def drop_size_def tl_init_def tl_simps)
  qed (use assms in \<open>simp_all add: tl_pop_back_def drop_size_def tl_init_def tl_simps\<close>)
qed

text \<open>The positions of an inner node: with and without a node in front of it and behind it.\<close>

lemma around:
  obtains "as = []" "bs = []" | b r where "as = []" "bs = b # r" | a r where "as = r @ [a]" "bs = []"
    | a r b t where "as = r @ [a]" "bs = b # t"
  by (cases as rule: rev_cases; cases bs) auto

lemma insert_after_dll:
  assumes "dll (h, l) (as @ p # bs)" "x \<notin> set (as @ p # bs)" "length (as @ p # bs) + 1 < 2 ^ 32"
  shows "\<exists>h' l'. tl_insert_after (Node p) x (h, l) = (h', l') \<and> dll (h', l') (as @ p # x # bs) \<and>
    only_links (set (as @ p # x # bs)) h h'"
proof (cases rule: around [of as bs])
  case (2 b r)
  then show ?thesis using assms by (cases "r = []") (simp_all add: tl_insert_after_def tl_simps)
next
  case (3 a r)
  then show ?thesis using assms by (cases "r = []") (simp_all add: tl_insert_after_def tl_simps)
next
  case (4 a r b t)
  then show ?thesis using assms by (cases "r = []"; cases "t = []") (simp_all add: tl_insert_after_def tl_simps)
qed (use assms in \<open>simp_all add: tl_insert_after_def tl_simps\<close>)

lemma insert_before_dll:
  assumes "dll (h, l) (as @ p # bs)" "x \<notin> set (as @ p # bs)" "length (as @ p # bs) + 1 < 2 ^ 32"
  shows "\<exists>h' l'. tl_insert_before (Node p) x (h, l) = (h', l') \<and> dll (h', l') (as @ x # p # bs) \<and>
    only_links (set (as @ x # p # bs)) h h'"
proof (cases rule: around [of as bs])
  case (2 b r)
  then show ?thesis using assms by (cases "r = []") (simp_all add: tl_insert_before_def tl_simps)
next
  case (3 a r)
  then show ?thesis using assms by (cases "r = []") (simp_all add: tl_insert_before_def tl_simps)
next
  case (4 a r b t)
  then show ?thesis using assms by (cases "r = []"; cases "t = []") (simp_all add: tl_insert_before_def tl_simps)
qed (use assms in \<open>simp_all add: tl_insert_before_def tl_simps\<close>)

lemma remove_dll:
  assumes "dll (h, l) (as @ x # bs)"
  shows "\<exists>h' l'. tl_remove x (h, l) = (h', l') \<and> dll (h', l') (as @ bs) \<and> h' x = timer_init x \<and>
    only_links (set (as @ bs)) (h(x := timer_init x)) h'"
proof -
  have z: "tl_size l \<noteq> 0" using size_le [of "as @ x # bs"] assms by simp
  have z': "length (as @ bs) < 2 ^ 32" using assms by simp
  note r = tl_remove_def drop_size_def tl_simps tl_init_def
  show ?thesis
  proof (cases rule: around [of as bs])
    case 1
    then show ?thesis using assms z by (simp add: r)
  next
    case (2 b t)
    then have "(word_of_nat (length (b # t)) :: uint) \<noteq> 0" using z' by (subst size_le) simp_all
    then show ?thesis using assms z 2 by (cases "t = []") (simp_all add: r)
  next
    case (3 a t)
    then have "(word_of_nat (length (t @ [a])) :: uint) \<noteq> 0" using z' by (subst size_le) simp_all
    then show ?thesis using assms z 3 by (cases "t = []") (simp_all add: r)
  next
    case (4 a q b t)
    then have "(word_of_nat (length (q @ a # b # t)) :: uint) \<noteq> 0" using z' by (subst size_le) simp_all
    then show ?thesis using assms z 4 by (cases "q = []"; cases "t = []") (simp_all add: r)
  qed
qed

section \<open>Two lists over one pool\<close>

text \<open>
  What the users of the lists rely on: a representation that depends on the timers of the list only, and
  operations that change links only.  The queues keep a free and an active list over one pool.
\<close>

locale timer_sequence =
  fixes rep :: "pool \<times> tlist \<Rightarrow> nat list \<Rightarrow> bool"
    and push_front push_back remove :: "nat \<Rightarrow> pool \<times> tlist \<Rightarrow> pool \<times> tlist"
    and insert_after :: "tptr \<Rightarrow> nat \<Rightarrow> pool \<times> tlist \<Rightarrow> pool \<times> tlist"
    and pop_front :: "pool \<times> tlist \<Rightarrow> pool \<times> tlist"
  assumes rep_cong: "(\<And>i. i \<in> set xs \<Longrightarrow> h' i = h i) \<Longrightarrow> rep (h', l) xs = rep (h, l) xs"
    and rep_distinct: "rep (h, l) xs \<Longrightarrow> distinct xs"
    and push_front: "rep (h, l) xs \<Longrightarrow> x \<notin> set xs \<Longrightarrow> length xs + 1 < 2 ^ 32 \<Longrightarrow>
      \<exists>h' l'. push_front x (h, l) = (h', l') \<and> rep (h', l') (x # xs) \<and> only_links (set (x # xs)) h h'"
    and push_back: "rep (h, l) xs \<Longrightarrow> x \<notin> set xs \<Longrightarrow> length xs + 1 < 2 ^ 32 \<Longrightarrow>
      \<exists>h' l'. push_back x (h, l) = (h', l') \<and> rep (h', l') (xs @ [x]) \<and> only_links (set (xs @ [x])) h h'"
    and insert_after: "rep (h, l) (as @ p # bs) \<Longrightarrow> x \<notin> set (as @ p # bs) \<Longrightarrow> length (as @ p # bs) + 1 < 2 ^ 32 \<Longrightarrow>
      \<exists>h' l'. insert_after (Node p) x (h, l) = (h', l') \<and> rep (h', l') (as @ p # x # bs) \<and>
        only_links (set (as @ p # x # bs)) h h'"
    and pop_front: "rep (h, l) (x # xs) \<Longrightarrow>
      \<exists>h' l'. pop_front (h, l) = (h', l') \<and> rep (h', l') xs \<and> only_links (set (x # xs)) h h'"
    and remove: "rep (h, l) (as @ x # bs) \<Longrightarrow>
      \<exists>h' l'. remove x (h, l) = (h', l') \<and> rep (h', l') (as @ bs) \<and> h' x = timer_init x \<and>
        only_links (set (as @ bs)) (h(x := timer_init x)) h'"
begin

lemma other_list: "rep (h, m) ys \<Longrightarrow> only_links S h h' \<Longrightarrow> S \<inter> set ys = {} \<Longrightarrow> rep (h', m) ys"
  by (subst rep_cong [of ys h' h]) (auto simp: only_links_def)

text \<open>Taking the first of one list and putting it in front of the other.\<close>

lemma move_front:
  assumes "rep (h, f) (x # xs)" "rep (h, a) ys" "set (x # xs) \<inter> set ys = {}" "length (x # xs) + length ys < 2 ^ 32"
  obtains h1 f1 h2 a2 where "pop_front (h, f) = (h1, f1)" "push_front x (h1, a) = (h2, a2)" "rep (h2, f1) xs" "rep (h2, a2) (x # ys)"
    "only_links (set (x # xs) \<union> set ys) h h2"
proof -
  obtain h1 f1 where p: "pop_front (h, f) = (h1, f1)" "rep (h1, f1) xs" "only_links (set (x # xs)) h h1"
    using pop_front [OF assms(1)] by blast
  have a: "rep (h1, a) ys" by (rule other_list [OF assms(2) p(3) assms(3)])
  obtain h2 a2 where q: "push_front x (h1, a) = (h2, a2)" "rep (h2, a2) (x # ys)" "only_links (set (x # ys)) h1 h2"
    using push_front [OF a, of x] assms(3,4) by auto
  have "rep (h2, f1) xs" by (rule other_list [OF p(2) q(3)]) (use assms(3) rep_distinct [OF assms(1)] in auto)
  moreover have "only_links (set (x # xs) \<union> set ys) h h2" using p(3) q(3) by (auto simp: only_links_def)
  ultimately show thesis using that p(1) q(1,2) by blast
qed

end

interpretation timers: timer_sequence dll tl_push_front tl_push_back tl_remove tl_insert_after tl_pop_front
proof (unfold_locales, goal_cases)
  case 1
  then show ?case by (rule dll_cong)
next
  case (2 h l xs)
  then show ?case by simp
qed (intro push_front_dll push_back_dll insert_after_dll pop_front_dll remove_dll; assumption)+

lemma dll_front: "dll (h, l) (x # xs) \<Longrightarrow> tl_next l = Node x"
  by simp

lemma dll_back: "dll (h, l) (xs @ [x]) \<Longrightarrow> tl_prev l = Node x"
  by simp

lemma dll_prev: "dll (h, l) (as @ [p] @ x # bs) \<Longrightarrow> t_prev (h x) = Node p"
  by (cases as) (auto simp: links_append links_Cons)

lemma dll_size: "dll (h, l) xs \<Longrightarrow> unat (tl_size l) = length xs"
  by (simp only: dll.simps unat_of_nat) simp

lemma dll_distinct: "dll s xs \<Longrightarrow> distinct xs"
  by (cases s) simp

declare dll.simps [simp del]

end
