(* ===== verification/SL_Timer.thy ===== *)
theory SL_Timer
  imports SL_TimerList
begin

text \<open>
  \<^verbatim>\<open>SL_Seda_TimerQueue\<close> and \<^verbatim>\<open>SL_Seda_LRUTimerQueue\<close>: a pool of timers on a free and an active list.
  The clock of the process is an argument of the operations that read it.  What runs on the expiry of a
  timer, the stage handler or the virtual \<^verbatim>\<open>timeout\<close>, is an argument of \<open>tq_expire\<close>: it may work on the
  queue.  \<open>None\<close> is a use of the head of a list as a timer, or an expiry that does not return.
\<close>

record seda_queue =
  tq_pool :: pool
  tq_free :: tlist
  tq_active :: tlist
  tq_last :: uint64
  tq_handler :: bool
  tq_interval :: uint
  tq_slot :: int

definition on_free :: "(pool \<times> tlist \<Rightarrow> pool \<times> tlist) \<Rightarrow> seda_queue \<Rightarrow> seda_queue" where
  "on_free f q = (let (h, l) = f (tq_pool q, tq_free q) in q\<lparr>tq_pool := h, tq_free := l\<rparr>)"

definition on_active :: "(pool \<times> tlist \<Rightarrow> pool \<times> tlist) \<Rightarrow> seda_queue \<Rightarrow> seda_queue" where
  "on_active f q = (let (h, l) = f (tq_pool q, tq_active q) in q\<lparr>tq_pool := h, tq_active := l\<rparr>)"

definition put_timer :: "nat \<Rightarrow> timer \<Rightarrow> seda_queue \<Rightarrow> seda_queue" where
  "put_timer i t q = q\<lparr>tq_pool := (tq_pool q)(i := t)\<rparr>"

section \<open>Start\<close>

definition tq_clear :: "seda_queue \<Rightarrow> seda_queue" where
  "tq_clear q = q\<lparr>tq_pool := timer_init, tq_free := tl_init, tq_active := tl_init, tq_last := 0, tq_handler := False\<rparr>"

definition tq_init :: "uint \<Rightarrow> bool \<Rightarrow> seda_queue \<Rightarrow> seda_queue" where
  "tq_init queue_max_size handler q =
     (fold (\<lambda>i. on_free (tl_push_back i)) [0..<unat queue_max_size] (tq_clear q))\<lparr>tq_handler := handler\<rparr>"

definition lru_init :: "uint \<Rightarrow> uint \<Rightarrow> bool \<Rightarrow> int \<Rightarrow> seda_queue \<Rightarrow> seda_queue" where
  "lru_init queue_max_size interval handler slot q =
     (fold (\<lambda>i. on_free (tl_push_back i)) [0..<unat queue_max_size] (tq_clear q))
       \<lparr>tq_interval := interval, tq_handler := handler, tq_slot := slot\<rparr>"

section \<open>Timers\<close>

fun get_end :: "tptr \<Rightarrow> pool \<Rightarrow> uint64" where
  "get_end (Node i) h = t_end (h i)"
| "get_end Head h = 0"

text \<open>The loop from the back to the first timer that ends earlier.\<close>

fun insert_pos :: "nat \<Rightarrow> uint64 \<Rightarrow> tptr \<Rightarrow> pool \<times> tlist \<Rightarrow> tptr option" where
  "insert_pos 0 e pos s = None"
| "insert_pos (Suc n) e pos s = (if get_end pos (fst s) < e then Some pos else insert_pos n e (get_prev pos s) s)"

definition insert_active :: "nat \<Rightarrow> seda_queue \<Rightarrow> seda_queue" where
  "insert_active t q =
     (if tl_empty (tq_active q) then on_active (tl_push_back t) q
      else
        case insert_pos (unat (tl_size (tq_active q))) (t_end (tq_pool q t)) (tl_back (tq_active q)) (tq_pool q, tq_active q) of
          Some pos \<Rightarrow> on_active (tl_insert_after pos t) q
        | None \<Rightarrow> on_active (tl_push_front t) q)"

text \<open>The part of \<^verbatim>\<open>set_timer\<close> in front of the insertion.\<close>

definition take_timer :: "uint \<Rightarrow> 64 word \<Rightarrow> uint64 \<Rightarrow> nat \<Rightarrow> seda_queue \<Rightarrow> seda_queue" where
  "take_timer interval param clock t q =
     put_timer t ((timer_init t)\<lparr>t_param := param, t_interval := interval, t_end := clock + ucast interval, t_active := True\<rparr>)
       (on_free tl_pop_front q)"

definition tq_set_timer :: "uint \<Rightarrow> 64 word \<Rightarrow> uint64 \<Rightarrow> seda_queue \<Rightarrow> (nat option \<times> seda_queue) option" where
  "tq_set_timer interval param clock q =
     (if tl_empty (tq_free q) then Some (None, q)
      else case tl_front (tq_free q) of
        Head \<Rightarrow> None
      | Node t \<Rightarrow> Some (Some t, insert_active t (take_timer interval param clock t q)))"

definition lru_set_timer :: "64 word \<Rightarrow> uint64 \<Rightarrow> seda_queue \<Rightarrow> (nat option \<times> seda_queue) option" where
  "lru_set_timer param clock q =
     (if tl_empty (tq_free q) then Some (None, q)
      else case tl_front (tq_free q) of
        Head \<Rightarrow> None
      | Node t \<Rightarrow> Some (Some t, on_active (tl_push_back t) (take_timer (tq_interval q) param clock t q)))"

definition tq_cancel_timer :: "nat option \<Rightarrow> seda_queue \<Rightarrow> int \<times> seda_queue" where
  "tq_cancel_timer timer q =
     (case timer of
        None \<Rightarrow> (0, q)
      | Some t \<Rightarrow> if \<not> t_active (tq_pool q t) then (- 1, q)
                  else (0, on_free (tl_push_front t) (on_active (tl_remove t) q)))"

definition renew_timer :: "uint64 \<Rightarrow> nat \<Rightarrow> seda_queue \<Rightarrow> seda_queue" where
  "renew_timer clock t q =
     (let q = on_active (tl_remove t) q;
          tm = tq_pool q t
      in put_timer t (tm\<lparr>t_end := clock + ucast (t_interval tm), t_active := True\<rparr>) q)"

definition tq_update_timer :: "nat option \<Rightarrow> uint64 \<Rightarrow> seda_queue \<Rightarrow> int \<times> seda_queue" where
  "tq_update_timer timer clock q =
     (case timer of
        None \<Rightarrow> (0, q)
      | Some t \<Rightarrow> if \<not> t_active (tq_pool q t) then (- 1, q) else (0, insert_active t (renew_timer clock t q)))"

definition lru_update_timer :: "nat option \<Rightarrow> uint64 \<Rightarrow> seda_queue \<Rightarrow> int \<times> seda_queue" where
  "lru_update_timer timer clock q =
     (case timer of
        None \<Rightarrow> (0, q)
      | Some t \<Rightarrow> if \<not> t_active (tq_pool q t) then (- 1, q) else (0, on_active (tl_push_back t) (renew_timer clock t q)))"

section \<open>Expiry\<close>

text \<open>The stage handler gets the slot and the timer, else the timer's own function is called.\<close>

datatype expiry = Handle_event int nat | Timeout nat

partial_function (option) expire_loop ::
  "bool \<Rightarrow> int \<Rightarrow> uint64 \<Rightarrow> (expiry \<Rightarrow> seda_queue \<times> 'u \<Rightarrow> seda_queue \<times> 'u) \<Rightarrow> seda_queue \<times> 'u \<Rightarrow> (seda_queue \<times> 'u) option" where
  "expire_loop handler slot clock f s =
     (if tl_empty (tq_active (fst s)) then Some s
      else case tl_front (tq_active (fst s)) of
        Head \<Rightarrow> None
      | Node t \<Rightarrow>
          if t_end (tq_pool (fst s) t) \<le> clock
          then expire_loop handler slot clock f
            (f (if handler then Handle_event slot t else Timeout t)
              (on_free (tl_push_front t) (on_active tl_pop_front (fst s)), snd s))
          else Some s)"

definition tq_expire ::
  "int \<Rightarrow> uint64 \<Rightarrow> (expiry \<Rightarrow> seda_queue \<times> 'u \<Rightarrow> seda_queue \<times> 'u) \<Rightarrow> seda_queue \<times> 'u \<Rightarrow> (seda_queue \<times> 'u) option" where
  "tq_expire slot clock f s =
     (if tq_last (fst s) < clock
      then expire_loop (tq_handler (fst s)) slot clock f ((fst s)\<lparr>tq_last := clock\<rparr>, snd s)
      else Some s)"

section \<open>The queue as two sequences\<close>

definition holds :: "seda_queue \<Rightarrow> nat list \<Rightarrow> nat list \<Rightarrow> bool" where
  "holds q xs ys \<longleftrightarrow> dll (tq_pool q, tq_free q) xs \<and> dll (tq_pool q, tq_active q) ys \<and> set xs \<inter> set ys = {} \<and>
     length xs + length ys < 2 ^ 32"

abbreviation ends :: "seda_queue \<Rightarrow> nat \<Rightarrow> uint64" where
  "ends q t \<equiv> t_end (tq_pool q t)"

definition same_timers :: "nat set \<Rightarrow> seda_queue \<Rightarrow> seda_queue \<Rightarrow> bool" where
  "same_timers S q q' \<longleftrightarrow> (\<forall>i \<in> S. payload (tq_pool q' i) = payload (tq_pool q i))"

lemma holds_empty:
  "holds q xs ys \<Longrightarrow> tl_empty (tq_free q) = (xs = [])" "holds q xs ys \<Longrightarrow> tl_empty (tq_active q) = (ys = [])"
  unfolding holds_def using empty_dll by blast+

lemma holds_front:
  "holds q (x # xs) ys \<Longrightarrow> tl_front (tq_free q) = Node x" "holds q xs (y # ys) \<Longrightarrow> tl_front (tq_active q) = Node y"
  unfolding holds_def tl_front_def using dll_front by blast+

lemma same_timers_trans: "same_timers S q q' \<Longrightarrow> same_timers S q' q'' \<Longrightarrow> same_timers S q q''"
  by (simp add: same_timers_def)

lemma only_links_same: "only_links T (tq_pool q) (tq_pool q') \<Longrightarrow> same_timers S q q'"
  by (simp add: only_links_def same_timers_def)

lemma same_timersD:
  assumes "same_timers S q q'" "i \<in> S"
  shows "ends q' i = ends q i" "t_active (tq_pool q' i) = t_active (tq_pool q i)" "t_param (tq_pool q' i) = t_param (tq_pool q i)"
    "t_interval (tq_pool q' i) = t_interval (tq_pool q i)"
  using assms by (auto simp: same_timers_def payload_def)

text \<open>An operation on one of the lists.\<close>

lemma on_active_holds:
  assumes "holds q xs ys"
    and "\<exists>h' l'. op (tq_pool q, tq_active q) = (h', l') \<and> dll (h', l') zs \<and> only_links S (tq_pool q) h'"
    and "S \<inter> set xs = {}" "set zs \<inter> set xs = {}" "length xs + length zs < 2 ^ 32"
  shows "holds (on_active op q) xs zs \<and> same_timers UNIV q (on_active op q)"
proof -
  obtain h' l' where o: "op (tq_pool q, tq_active q) = (h', l')" "dll (h', l') zs" "only_links S (tq_pool q) h'"
    using assms(2) by blast
  have "dll (h', tq_free q) xs" by (rule timers.other_list [OF _ o(3) assms(3)]) (use assms(1) in \<open>simp add: holds_def\<close>)
  then show ?thesis using o assms(4,5) by (auto simp: holds_def on_active_def same_timers_def only_links_def)
qed

lemma on_free_holds:
  assumes "holds q xs ys"
    and "\<exists>h' l'. op (tq_pool q, tq_free q) = (h', l') \<and> dll (h', l') zs \<and> only_links S (tq_pool q) h'"
    and "S \<inter> set ys = {}" "set zs \<inter> set ys = {}" "length zs + length ys < 2 ^ 32"
  shows "holds (on_free op q) zs ys \<and> same_timers UNIV q (on_free op q)"
proof -
  obtain h' l' where o: "op (tq_pool q, tq_free q) = (h', l')" "dll (h', l') zs" "only_links S (tq_pool q) h'"
    using assms(2) by blast
  have "dll (h', tq_active q) ys" by (rule timers.other_list [OF _ o(3) assms(3)]) (use assms(1) in \<open>simp add: holds_def\<close>)
  then show ?thesis using o assms(4,5) by (auto simp: holds_def on_free_def same_timers_def only_links_def)
qed

lemma holds_put_timer:
  assumes "holds q xs ys" "t \<notin> set xs" "t \<notin> set ys" shows "holds (put_timer t tm q) xs ys"
proof -
  have "dll ((tq_pool q)(t := tm), l) zs = dll (tq_pool q, l) zs" if "t \<notin> set zs" for l zs
    using that by (intro timers.rep_cong) auto
  then show ?thesis using assms by (simp add: holds_def put_timer_def)
qed

lemma take_timer_holds:
  assumes "holds q (t # xs) ys"
  shows "holds (take_timer interval param clock t q) xs ys" "t \<notin> set xs" "t \<notin> set ys"
    "tq_pool (take_timer interval param clock t q) t =
      (timer_init t)\<lparr>t_param := param, t_interval := interval, t_end := clock + ucast interval, t_active := True\<rparr>"
    "same_timers (- {t}) q (take_timer interval param clock t q)" "tq_last (take_timer interval param clock t q) = tq_last q"
proof -
  have d: "dll (tq_pool q, tq_free q) (t # xs)" "set (t # xs) \<inter> set ys = {}" "length (t # xs) + length ys < 2 ^ 32"
    using assms by (auto simp: holds_def)
  have h: "holds (on_free tl_pop_front q) xs ys \<and> same_timers UNIV q (on_free tl_pop_front q)"
    by (rule on_free_holds [where S = "set (t # xs)", OF assms]) (use timers.pop_front [OF d(1)] d in auto)
  show n: "t \<notin> set xs" "t \<notin> set ys" using d dll_distinct [OF d(1)] by auto
  show "holds (take_timer interval param clock t q) xs ys"
    unfolding take_timer_def by (rule holds_put_timer) (use h n in auto)
  show "same_timers (- {t}) q (take_timer interval param clock t q)"
    using h by (simp add: same_timers_def take_timer_def put_timer_def)
qed (simp_all add: take_timer_def put_timer_def on_free_def split: prod.splits)

lemma insert_pos_spec:
  assumes "dll (h, l) (as @ bs)" "as \<noteq> [] \<Longrightarrow> pos = Node (last as)"
  shows "insert_pos (length as) e pos (h, l) = None \<and> (\<forall>x \<in> set as. \<not> t_end (h x) < e) \<or>
    (\<exists>a1 p a2. as = a1 @ p # a2 \<and> insert_pos (length as) e pos (h, l) = Some (Node p) \<and> t_end (h p) < e \<and>
      (\<forall>x \<in> set a2. \<not> t_end (h x) < e))"
  using assms
proof (induction as arbitrary: bs pos rule: rev_induct)
  case (snoc a as)
  have pos: "pos = Node a" using snoc.prems(2) by simp
  show ?case
  proof (cases "t_end (h a) < e")
    case True
    then show ?thesis using pos by (intro disjI2 exI [of _ as] exI [of _ a] exI [of _ "[]"]) simp
  next
    case False
    have "t_prev (h a) = Node (last as)" if "as \<noteq> []"
      using snoc.prems(1) that by (cases as rule: rev_cases) (auto intro: dll_prev)
    then have "insert_pos (length as) e (t_prev (h a)) (h, l) = None \<and> (\<forall>x \<in> set as. \<not> t_end (h x) < e) \<or>
        (\<exists>a1 p a2. as = a1 @ p # a2 \<and> insert_pos (length as) e (t_prev (h a)) (h, l) = Some (Node p) \<and> t_end (h p) < e \<and>
          (\<forall>x \<in> set a2. \<not> t_end (h x) < e))"
      by (intro snoc.IH [of "a # bs"]) (use snoc.prems(1) in simp_all)
    moreover have "insert_pos (length (as @ [a])) e pos (h, l) = insert_pos (length as) e (t_prev (h a)) (h, l)"
      using False pos by simp
    ultimately show ?thesis
    proof (elim disjE exE conjE, goal_cases)
      case (2 a1 p a2)
      then show ?case using False by (intro disjI2 exI [of _ a1] exI [of _ p] exI [of _ "a2 @ [a]"]) auto
    qed (use False in auto)
  qed
qed simp

lemma insert_active_holds:
  assumes "holds q xs ys" "t \<notin> set xs" "t \<notin> set ys" "length xs + length ys + 1 < 2 ^ 32" "sorted (map (ends q) ys)"
  shows "\<exists>as bs. ys = as @ bs \<and> holds (insert_active t q) xs (as @ t # bs) \<and> same_timers UNIV q (insert_active t q) \<and>
    (\<forall>x \<in> set as. ends q x < ends q t) \<and> (\<forall>x \<in> set bs. ends q t \<le> ends q x)"
proof -
  have d: "dll (tq_pool q, tq_active q) ys" "set xs \<inter> set ys = {}" using assms(1) by (auto simp: holds_def)
  have op: "holds (on_active op q) xs (as @ t # bs) \<and> same_timers UNIV q (on_active op q)"
    if "\<exists>h' l'. op (tq_pool q, tq_active q) = (h', l') \<and> dll (h', l') (as @ t # bs) \<and> only_links (set (as @ t # bs)) (tq_pool q) h'"
      "ys = as @ bs" for op as bs
    by (rule on_active_holds [where S = "set (as @ t # bs)", OF assms(1)]) (use that assms(2-4) d(2) in auto)
  show ?thesis
  proof (cases "ys = []")
    case True
    have "holds (on_active (tl_push_back t) q) xs ([] @ t # []) \<and> same_timers UNIV q (on_active (tl_push_back t) q)"
      by (rule op) (use timers.push_back [OF d(1), of t] assms(4) True in simp_all)
    then show ?thesis using True holds_empty(2) [OF assms(1)] by (simp add: insert_active_def)
  next
    case False
    then have e: "\<not> tl_empty (tq_active q)" using holds_empty(2) [OF assms(1)] by simp
    have pos: "tl_back (tq_active q) = Node (last ys)"
      using dll_back [of "tq_pool q" "tq_active q" "butlast ys" "last ys"] d(1) False by (simp add: tl_back_def)
    let ?pos = "insert_pos (length ys) (ends q t) (Node (last ys)) (tq_pool q, tq_active q)"
    have u: "insert_active t q = (case ?pos of Some pos \<Rightarrow> on_active (tl_insert_after pos t) q | None \<Rightarrow> on_active (tl_push_front t) q)"
      by (simp only: insert_active_def e pos dll_size [OF d(1)] if_False)
    from insert_pos_spec [of "tq_pool q" "tq_active q" ys "[]" "Node (last ys)" "ends q t"] d(1)
    consider "?pos = None" "\<forall>x \<in> set ys. \<not> ends q x < ends q t"
      | a1 p a2 where "ys = a1 @ p # a2" "?pos = Some (Node p)" "ends q p < ends q t" "\<forall>x \<in> set a2. \<not> ends q x < ends q t"
      by auto
    then show ?thesis
    proof cases
      case 1
      have "holds (on_active (tl_push_front t) q) xs ([] @ t # ys) \<and> same_timers UNIV q (on_active (tl_push_front t) q)"
        by (rule op) (use timers.push_front [OF d(1) assms(3)] assms(4) in simp_all)
      then show ?thesis using 1 by (intro exI [of _ "[]"] exI [of _ ys]) (auto simp: u)
    next
      case (2 a1 p a2)
      have "holds (on_active (tl_insert_after (Node p) t) q) xs ((a1 @ [p]) @ t # a2) \<and>
          same_timers UNIV q (on_active (tl_insert_after (Node p) t) q)"
        by (rule op) (use timers.insert_after [of "tq_pool q" "tq_active q" a1 p a2 t] d(1) assms(3,4) 2(1) in simp_all)
      moreover have "\<forall>x \<in> set (a1 @ [p]). ends q x < ends q t"
        using assms(5) 2(1,3) by (auto simp: sorted_append)
      ultimately show ?thesis using 2 by (intro exI [of _ "a1 @ [p]"] exI [of _ a2]) (auto simp: u)
    qed
  qed
qed

lemma remove_active_holds:
  assumes "holds q xs (as @ t # bs)"
  shows "holds (on_active (tl_remove t) q) xs (as @ bs)" "tq_pool (on_active (tl_remove t) q) t = timer_init t"
    "same_timers (- {t}) q (on_active (tl_remove t) q)" "t \<notin> set xs" "t \<notin> set (as @ bs)"
proof -
  have d: "dll (tq_pool q, tq_active q) (as @ t # bs)" "dll (tq_pool q, tq_free q) xs" "set xs \<inter> set (as @ t # bs) = {}"
    "length xs + length (as @ t # bs) < 2 ^ 32" using assms by (auto simp: holds_def)
  show n: "t \<notin> set xs" "t \<notin> set (as @ bs)" using d(3) dll_distinct [OF d(1)] by auto
  obtain h' l' where r: "tl_remove t (tq_pool q, tq_active q) = (h', l')" "dll (h', l') (as @ bs)" "h' t = timer_init t"
    "only_links (set (as @ bs)) ((tq_pool q)(t := timer_init t)) h'" using timers.remove [OF d(1)] by blast
  have "dll ((tq_pool q)(t := timer_init t), tq_free q) xs" using d(2) n(1) by (subst timers.rep_cong [of xs _ "tq_pool q"]) auto
  then have "dll (h', tq_free q) xs" by (rule timers.other_list [OF _ r(4)]) (use d(3) in auto)
  then show "holds (on_active (tl_remove t) q) xs (as @ bs)" using r(1,2) d(3,4) by (auto simp: holds_def on_active_def)
  show "tq_pool (on_active (tl_remove t) q) t = timer_init t" using r(1,3) by (simp add: on_active_def)
  show "same_timers (- {t}) q (on_active (tl_remove t) q)"
    using r(1,4) by (auto simp: on_active_def same_timers_def only_links_def split: if_splits)
qed

lemma cancel_holds:
  assumes "holds q xs (as @ t # bs)" "t_active (tq_pool q t)"
  shows "\<exists>q'. tq_cancel_timer (Some t) q = (0, q') \<and> holds q' (t # xs) (as @ bs) \<and> same_timers (- {t}) q q'"
proof -
  let ?r = "on_active (tl_remove t) q"
  note r = remove_active_holds [OF assms(1)]
  have l: "length xs + length (as @ bs) + 1 < 2 ^ 32" using assms(1) by (simp add: holds_def)
  have "dll (tq_pool ?r, tq_free ?r) xs" using r(1) by (simp add: holds_def)
  then have "holds (on_free (tl_push_front t) ?r) (t # xs) (as @ bs) \<and> same_timers UNIV ?r (on_free (tl_push_front t) ?r)"
    by (intro on_free_holds [where S = "set (t # xs)", OF r(1)])
      (use timers.push_front [of "tq_pool ?r" "tq_free ?r" xs t] r(1,4,5) l in \<open>auto simp: holds_def\<close>)
  then show ?thesis using assms(2) r(3) by (auto simp: tq_cancel_timer_def same_timers_def)
qed

lemma renew_holds:
  assumes "holds q xs (as @ t # bs)"
  shows "holds (renew_timer clock t q) xs (as @ bs)" "same_timers (- {t}) q (renew_timer clock t q)"
    "tq_pool (renew_timer clock t q) t = (timer_init t)\<lparr>t_end := clock, t_active := True\<rparr>"
proof -
  note r = remove_active_holds [OF assms]
  show "holds (renew_timer clock t q) xs (as @ bs)"
    unfolding renew_timer_def Let_def by (rule holds_put_timer) (use r in simp_all)
  show "same_timers (- {t}) q (renew_timer clock t q)"
    using r(3) by (simp add: renew_timer_def Let_def put_timer_def same_timers_def)
  show "tq_pool (renew_timer clock t q) t = (timer_init t)\<lparr>t_end := clock, t_active := True\<rparr>"
    using r(2) by (simp add: renew_timer_def Let_def put_timer_def timer_init_def)
qed

section \<open>Expiry in order\<close>

text \<open>A callback that leaves the queue alone and writes down what has run.\<close>

definition log_expiry :: "expiry \<Rightarrow> seda_queue \<times> expiry list \<Rightarrow> seda_queue \<times> expiry list" where
  "log_expiry e = (\<lambda>(q, es). (q, es @ [e]))"

lemma expire_step_holds:
  assumes "holds q xs (y # ys)"
  shows "holds (on_free (tl_push_front y) (on_active tl_pop_front q)) (y # xs) ys \<and>
    same_timers UNIV q (on_free (tl_push_front y) (on_active tl_pop_front q))"
proof -
  let ?p = "on_active tl_pop_front q"
  have d: "dll (tq_pool q, tq_active q) (y # ys)" "set xs \<inter> set (y # ys) = {}" "length xs + length (y # ys) < 2 ^ 32"
    using assms by (auto simp: holds_def)
  have n: "y \<notin> set ys" using dll_distinct [OF d(1)] by simp
  have p: "holds ?p xs ys \<and> same_timers UNIV q ?p"
    by (rule on_active_holds [where S = "set (y # ys)", OF assms]) (use timers.pop_front [OF d(1)] d in auto)
  then have "dll (tq_pool ?p, tq_free ?p) xs" by (simp add: holds_def)
  then have "holds (on_free (tl_push_front y) ?p) (y # xs) ys \<and> same_timers UNIV ?p (on_free (tl_push_front y) ?p)"
    using p by (intro on_free_holds [where S = "set (y # xs)"])
      (use timers.push_front [of "tq_pool ?p" "tq_free ?p" xs y] d(2,3) n in auto)
  then show ?thesis using p by (auto simp: same_timers_def)
qed

lemma expire_loop_holds:
  assumes "holds q xs ys"
  shows "\<exists>q'. expire_loop handler slot clock log_expiry (q, es) =
      Some (q', es @ map (if handler then Handle_event slot else Timeout) (takeWhile (\<lambda>t. ends q t \<le> clock) ys)) \<and>
    holds q' (rev (takeWhile (\<lambda>t. ends q t \<le> clock) ys) @ xs) (dropWhile (\<lambda>t. ends q t \<le> clock) ys) \<and>
    same_timers UNIV q q'"
  using assms
proof (induction ys arbitrary: q xs es)
  case Nil
  then show ?case using holds_empty(2) [OF Nil] by (subst expire_loop.simps) (simp add: same_timers_def)
next
  case (Cons y ys)
  have e: "\<not> tl_empty (tq_active q)" "tl_front (tq_active q) = Node y"
    using holds_empty(2) [OF Cons.prems] holds_front(2) [OF Cons.prems] by simp_all
  show ?case
  proof (cases "ends q y \<le> clock")
    case True
    let ?p = "on_free (tl_push_front y) (on_active tl_pop_front q)" and ?ev = "if handler then Handle_event slot else Timeout"
    have p: "holds ?p (y # xs) ys" "same_timers UNIV q ?p" using expire_step_holds [OF Cons.prems] by auto
    have w: "(\<lambda>t. ends ?p t \<le> clock) = (\<lambda>t. ends q t \<le> clock)" using same_timersD(1) [OF p(2)] by simp
    have ev: "(if handler then Handle_event slot y else Timeout y) = ?ev y" by simp
    obtain q' where q': "expire_loop handler slot clock log_expiry (?p, es @ [?ev y]) =
        Some (q', (es @ [?ev y]) @ map ?ev (takeWhile (\<lambda>t. ends q t \<le> clock) ys))"
      "holds q' (rev (takeWhile (\<lambda>t. ends q t \<le> clock) ys) @ y # xs) (dropWhile (\<lambda>t. ends q t \<le> clock) ys)"
      "same_timers UNIV ?p q'"
      using Cons.IH [OF p(1), of "es @ [?ev y]"] unfolding w by blast
    have "expire_loop handler slot clock log_expiry (q, es) = expire_loop handler slot clock log_expiry (?p, es @ [?ev y])"
      using e True by (subst expire_loop.simps) (simp add: log_expiry_def)
    then show ?thesis using q' True same_timers_trans [OF p(2) q'(3)] by simp
  next
    case False
    then show ?thesis using e Cons.prems by (subst expire_loop.simps) (simp add: same_timers_def)
  qed
qed

lemma sorted_takeWhile:
  assumes "sorted (map f ys)"
  shows "takeWhile (\<lambda>t. f t \<le> c) ys = filter (\<lambda>t. f t \<le> c) ys" "dropWhile (\<lambda>t. f t \<le> c) ys = filter (\<lambda>t. \<not> f t \<le> c) ys"
proof -
  have "takeWhile (\<lambda>t. f t \<le> c) ys = filter (\<lambda>t. f t \<le> c) ys \<and> dropWhile (\<lambda>t. f t \<le> c) ys = filter (\<lambda>t. \<not> f t \<le> c) ys"
    using assms
  proof (induction ys)
    case (Cons y ys)
    show ?case
    proof (cases "f y \<le> c")
      case False
      then have "\<forall>x \<in> set (y # ys). \<not> f x \<le> c" using Cons.prems by (auto dest: order_trans)
      then show ?thesis by (simp add: filter_False filter_True)
    qed (use Cons in simp)
  qed simp
  then show "takeWhile (\<lambda>t. f t \<le> c) ys = filter (\<lambda>t. f t \<le> c) ys" "dropWhile (\<lambda>t. f t \<le> c) ys = filter (\<lambda>t. \<not> f t \<le> c) ys"
    by simp_all
qed

section \<open>Reachable queues\<close>

text \<open>The invariant: every timer of the pool is on one list, the active ones are marked and in the order of their ends.\<close>

definition tq_inv :: "nat \<Rightarrow> seda_queue \<Rightarrow> nat list \<Rightarrow> nat list \<Rightarrow> bool" where
  "tq_inv n q xs ys \<longleftrightarrow> holds q xs ys \<and> set xs \<union> set ys = {..<n} \<and> sorted (map (ends q) ys) \<and>
     (\<forall>y \<in> set ys. t_active (tq_pool q y)) \<and> length xs + length ys = n"

text \<open>
  The calls of a client that keeps to the rules: it cancels and updates timers that are running, and its
  callbacks leave the queue alone.
\<close>

definition running :: "nat \<Rightarrow> seda_queue \<Rightarrow> bool" where
  "running t q \<longleftrightarrow> (\<exists>xs ys. holds q xs ys \<and> t \<in> set ys)"

inductive tq_step :: "seda_queue \<Rightarrow> seda_queue \<Rightarrow> bool" where
  set_timer: "tq_set_timer interval param clock q = Some (r, q') \<Longrightarrow> tq_step q q'"
| cancel_timer: "running t q \<Longrightarrow> tq_cancel_timer (Some t) q = (r, q') \<Longrightarrow> tq_step q q'"
| update_timer: "running t q \<Longrightarrow> tq_update_timer (Some t) clock q = (r, q') \<Longrightarrow> tq_step q q'"
| expire: "tq_expire slot clock log_expiry (q, []) = Some (q', es) \<Longrightarrow> tq_step q q'"

lemma dll_unique: "dll (h, l) xs \<Longrightarrow> dll (h, l) ys \<Longrightarrow> xs = ys"
proof (induction "length xs" arbitrary: h l xs ys)
  case 0
  then show ?case by (metis empty_dll length_0_conv)
next
  case (Suc n)
  obtain x r where x: "xs = x # r" using Suc.hyps(2) by (cases xs) auto
  obtain y t where y: "ys = y # t" using Suc.prems empty_dll [OF Suc.prems(1)] empty_dll [OF Suc.prems(2)] x by (cases ys) auto
  have "x = y" using Suc.prems by (auto simp: x y dest!: dll_front)
  moreover have "r = t"
  proof -
    obtain h' l' where "tl_pop_front (h, l) = (h', l')" "dll (h', l') r" using timers.pop_front Suc.prems(1) x by blast
    moreover have "dll (h', l') t" using timers.pop_front [of h l y t] Suc.prems(2) y calculation(1) by auto
    ultimately show ?thesis using Suc.hyps x by simp
  qed
  ultimately show ?case by (simp add: x y)
qed

lemma holds_unique: "holds q xs ys \<Longrightarrow> holds q xs' ys' \<Longrightarrow> xs' = xs \<and> ys' = ys"
  by (auto simp: holds_def dest: dll_unique)

lemma sorted_insert_ends:
  assumes "sorted (map f (as @ bs))" "\<forall>x \<in> set as. f x \<le> f t" "\<forall>x \<in> set bs. f t \<le> f x"
  shows "sorted (map f (as @ t # bs))"
  using assms by (auto simp: sorted_append)

lemma insert_active_inv:
  assumes "holds q xs ys" "t \<notin> set xs" "t \<notin> set ys" "set xs \<union> set ys \<union> {t} = {..<n}" "length xs + length ys + 1 = n" "n < 2 ^ 32"
    "sorted (map (ends q) ys)" "\<forall>y \<in> set ys. t_active (tq_pool q y)" "t_active (tq_pool q t)"
  shows "\<exists>as bs. ys = as @ bs \<and> tq_inv n (insert_active t q) xs (as @ t # bs)"
proof -
  obtain as bs where i: "ys = as @ bs" "holds (insert_active t q) xs (as @ t # bs)" "same_timers UNIV q (insert_active t q)"
    "\<forall>x \<in> set as. ends q x < ends q t" "\<forall>x \<in> set bs. ends q t \<le> ends q x"
    using insert_active_holds [OF assms(1-3) _ assms(7)] assms(5,6) by auto
  have "ends (insert_active t q) = ends q" "\<And>y. t_active (tq_pool (insert_active t q) y) = t_active (tq_pool q y)"
    using same_timersD [OF i(3)] by auto
  moreover have "sorted (map (ends q) (as @ t # bs))"
    by (rule sorted_insert_ends) (use assms(7) i in \<open>auto intro: less_imp_le\<close>)
  ultimately have "tq_inv n (insert_active t q) xs (as @ t # bs)"
    using i(1,2) assms(4,5,8,9) by (auto simp: tq_inv_def)
  then show ?thesis using i(1) by blast
qed

lemma sorted_cong: "(\<And>x. x \<in> set ys \<Longrightarrow> f x = g x) \<Longrightarrow> sorted (map f ys) = sorted (map g ys)"
  by (metis map_eq_conv)

lemma set_timer_inv:
  assumes "tq_inv n q (t # xs) ys" "n < 2 ^ 32"
  shows "\<exists>q' as bs. tq_set_timer interval param clock q = Some (Some t, q') \<and> ys = as @ bs \<and> tq_inv n q' xs (as @ t # bs)"
proof -
  let ?p = "take_timer interval param clock t q"
  have h: "holds q (t # xs) ys" using assms(1) by (simp add: tq_inv_def)
  note p = take_timer_holds(1,4,5) [OF h, of interval param clock] and t = take_timer_holds(2,3) [OF h]
  have "ends ?p y = ends q y" "t_active (tq_pool ?p y) = t_active (tq_pool q y)" if "y \<in> set ys" for y
    using same_timersD [OF p(3), of y] t(2) that by auto
  then have s: "sorted (map (ends ?p) ys)" "\<forall>y \<in> set ys. t_active (tq_pool ?p y)"
    using assms(1) sorted_cong [of ys "ends ?p" "ends q"] by (auto simp: tq_inv_def)
  obtain as bs where i: "ys = as @ bs" "tq_inv n (insert_active t ?p) xs (as @ t # bs)"
    using insert_active_inv [OF p(1) t _ _ assms(2) s] assms(1) p(2) by (auto simp: tq_inv_def)
  have "tq_set_timer interval param clock q = Some (Some t, insert_active t ?p)"
    using holds_empty(1) [OF h] holds_front(1) [OF h] by (simp add: tq_set_timer_def)
  then show ?thesis using i by blast
qed

lemma cancel_inv:
  assumes "tq_inv n q xs (as @ t # bs)"
  shows "\<exists>q'. tq_cancel_timer (Some t) q = (0, q') \<and> tq_inv n q' (t # xs) (as @ bs)"
proof -
  have h: "holds q xs (as @ t # bs)" "t_active (tq_pool q t)" using assms by (auto simp: tq_inv_def)
  obtain q' where q': "tq_cancel_timer (Some t) q = (0, q')" "holds q' (t # xs) (as @ bs)" "same_timers (- {t}) q q'"
    using cancel_holds [OF h] by blast
  have "ends q' y = ends q y" "t_active (tq_pool q' y) = t_active (tq_pool q y)" if "y \<in> set (as @ bs)" for y
    using same_timersD [OF q'(3), of y] remove_active_holds(5) [OF h(1)] that by auto
  then have "sorted (map (ends q') (as @ bs))" "\<forall>y \<in> set (as @ bs). t_active (tq_pool q' y)"
    using assms sorted_cong [of "as @ bs" "ends q'" "ends q"] by (auto simp: tq_inv_def sorted_append)
  then show ?thesis using q'(1,2) assms by (auto simp: tq_inv_def)
qed

lemma update_inv:
  assumes "tq_inv n q xs (as @ t # bs)" "n < 2 ^ 32"
  shows "\<exists>q' as' bs'. tq_update_timer (Some t) clock q = (0, q') \<and> as @ bs = as' @ bs' \<and> tq_inv n q' xs (as' @ t # bs') \<and>
    payload (tq_pool q' t) = (0, clock, 0, True)"
proof -
  let ?r = "renew_timer clock t q"
  have h: "holds q xs (as @ t # bs)" "t_active (tq_pool q t)" using assms(1) by (auto simp: tq_inv_def)
  note r = renew_holds [OF h(1), of clock] and t = remove_active_holds(4,5) [OF h(1)]
  have "ends ?r y = ends q y" "t_active (tq_pool ?r y) = t_active (tq_pool q y)" if "y \<in> set (as @ bs)" for y
    using same_timersD [OF r(2), of y] t(2) that by auto
  then have s: "sorted (map (ends ?r) (as @ bs))" "\<forall>y \<in> set (as @ bs). t_active (tq_pool ?r y)"
    using assms(1) sorted_cong [of "as @ bs" "ends ?r" "ends q"] by (auto simp: tq_inv_def sorted_append)
  obtain as' bs' where i: "as @ bs = as' @ bs'" "tq_inv n (insert_active t ?r) xs (as' @ t # bs')"
    using insert_active_inv [OF r(1) t _ _ assms(2) s] assms(1) r(3) by (auto simp: tq_inv_def)
  have "same_timers UNIV ?r (insert_active t ?r)"
    using insert_active_holds [OF r(1) t _ s(1)] assms by (auto simp: tq_inv_def)
  then have "payload (tq_pool (insert_active t ?r) t) = (0, clock, 0, True)"
    using r(3) by (simp add: same_timers_def payload_def timer_init_def)
  moreover have "tq_update_timer (Some t) clock q = (0, insert_active t ?r)" using h(2) by (simp add: tq_update_timer_def)
  ultimately show ?thesis using i by blast
qed

lemma expire_inv:
  assumes "tq_inv n q xs ys" "tq_last q < clock"
  shows "\<exists>q'. tq_expire slot clock log_expiry (q, es) =
      Some (q', es @ map (if tq_handler q then Handle_event slot else Timeout) (filter (\<lambda>t. ends q t \<le> clock) ys)) \<and>
    tq_inv n q' (rev (filter (\<lambda>t. ends q t \<le> clock) ys) @ xs) (filter (\<lambda>t. \<not> ends q t \<le> clock) ys) \<and>
    same_timers UNIV q q'"
proof -
  let ?q = "q\<lparr>tq_last := clock\<rparr>"
  have h: "holds ?q xs ys" "sorted (map (ends q) ys)" using assms(1) by (auto simp: tq_inv_def holds_def)
  obtain q' where q': "expire_loop (tq_handler q) slot clock log_expiry (?q, es) =
      Some (q', es @ map (if tq_handler q then Handle_event slot else Timeout) (filter (\<lambda>t. ends q t \<le> clock) ys))"
    "holds q' (rev (filter (\<lambda>t. ends q t \<le> clock) ys) @ xs) (filter (\<lambda>t. \<not> ends q t \<le> clock) ys)" "same_timers UNIV ?q q'"
    using expire_loop_holds [OF h(1), of "tq_handler q" slot clock es] by (auto simp: sorted_takeWhile [OF h(2)])
  have same: "same_timers UNIV q q'" using q'(3) by (simp add: same_timers_def)
  have "sorted (map (ends q') (filter (\<lambda>t. \<not> ends q t \<le> clock) ys))"
    using sorted_filter [OF h(2), of "\<lambda>t. \<not> ends q t \<le> clock"] same_timersD(1) [OF same] by (simp add: fun_eq_iff)
  moreover have "set (filter (\<lambda>t. ends q t \<le> clock) ys) \<union> set (filter (\<lambda>t. \<not> ends q t \<le> clock) ys) = set ys"
    "length (filter (\<lambda>t. ends q t \<le> clock) ys) + length (filter (\<lambda>t. \<not> ends q t \<le> clock) ys) = length ys"
    by (auto simp: sum_length_filter_compl)
  ultimately have "tq_inv n q' (rev (filter (\<lambda>t. ends q t \<le> clock) ys) @ xs) (filter (\<lambda>t. \<not> ends q t \<le> clock) ys)"
    using q'(2) assms(1) same_timersD(2) [OF same] by (auto simp: tq_inv_def)
  then show ?thesis using q'(1) assms(2) same by (auto simp: tq_expire_def)
qed

lemma init_holds:
  "n < 2 ^ 32 \<Longrightarrow> holds (fold (\<lambda>i. on_free (tl_push_back i)) [0..<n] (tq_clear q)) [0..<n] []"
proof (induction n)
  case 0
  then show ?case by (simp add: holds_def tq_clear_def)
next
  case (Suc n)
  let ?q = "fold (\<lambda>i. on_free (tl_push_back i)) [0..<n] (tq_clear q)"
  have h: "holds ?q [0..<n] []" using Suc by simp
  then have "dll (tq_pool ?q, tq_free ?q) [0..<n]" by (simp add: holds_def)
  then have "holds (on_free (tl_push_back n) ?q) ([0..<n] @ [n]) [] \<and> same_timers UNIV ?q (on_free (tl_push_back n) ?q)"
    by (intro on_free_holds [where S = "set ([0..<n] @ [n])", OF h])
      (use timers.push_back [of "tq_pool ?q" "tq_free ?q" "[0..<n]" n] Suc.prems in simp_all)
  then show ?case by simp
qed

lemma init_inv: "tq_inv (unat n) (tq_init n handler q) [0..<unat n] []"
  using init_holds [of "unat n" q] unat_lt32 [of n]
  by (auto simp: tq_init_def tq_inv_def holds_def)

lemma step_inv:
  assumes "tq_step q q'" "tq_inv n q xs ys" "n < 2 ^ 32" shows "\<exists>xs ys. tq_inv n q' xs ys"
proof -
  have h: "holds q xs ys" using assms(2) by (simp add: tq_inv_def)
  have run: "\<exists>as bs. ys = as @ t # bs" if "running t q" for t
    using that holds_unique [OF h] by (auto simp: running_def in_set_conv_decomp)
  show ?thesis using assms(1)
  proof cases
    case (set_timer interval param clock r)
    show ?thesis
    proof (cases xs)
      case Nil
      then show ?thesis using set_timer holds_empty(1) [OF h] assms(2) by (auto simp: tq_set_timer_def)
    next
      case (Cons t r')
      then show ?thesis using set_timer set_timer_inv [of n q t r' ys interval param clock] assms(2,3) by auto
    qed
  next
    case (cancel_timer t r)
    then obtain as bs where "ys = as @ t # bs" using run by blast
    then show ?thesis using cancel_timer cancel_inv [of n q xs as t bs] assms(2) by auto
  next
    case (update_timer t clock r)
    then obtain as bs where "ys = as @ t # bs" using run by blast
    then show ?thesis using update_timer update_inv [of n q xs as t bs clock] assms(2,3) by auto
  next
    case (expire slot clock es)
    then show ?thesis
      using expire_inv [OF assms(2), of clock slot "[]"] assms(2) by (cases "tq_last q < clock") (auto simp: tq_expire_def)
  qed
qed

lemma reachable_inv:
  assumes "tq_step\<^sup>*\<^sup>* (tq_init n handler q0) q" shows "\<exists>xs ys. tq_inv (unat n) q xs ys"
  using assms
proof (induction rule: rtranclp_induct)
  case base
  then show ?case using init_inv by blast
next
  case (step q q')
  have "unat n < 2 ^ 32" using unat_lt32 [of n] by simp
  then show ?case using step step_inv by blast
qed

text \<open>C24:
  The timer queue in every state that a client reaches that cancels and updates only running timers and
  whose callbacks leave the queue alone: every timer of the pool is on exactly one of the two linked lists,
  the links, ends and sizes of both are those of a sequence, and the active list holds marked timers in
  the order of their ends.
\<close>

theorem timer_queue_invariant:
  assumes "tq_step\<^sup>*\<^sup>* (tq_init n handler q0) q"
  shows "\<exists>xs ys. dll (tq_pool q, tq_free q) xs \<and> dll (tq_pool q, tq_active q) ys \<and> set xs \<inter> set ys = {} \<and>
    set xs \<union> set ys = {..<unat n} \<and> length xs + length ys = unat n \<and> sorted (map (ends q) ys) \<and> (\<forall>y \<in> set ys. t_active (tq_pool q y))"
  using reachable_inv [OF assms] by (auto simp: tq_inv_def holds_def)

definition empty_queue :: seda_queue where
  "empty_queue = \<lparr>tq_pool = timer_init, tq_free = tl_init, tq_active = tl_init, tq_last = 0, tq_handler = False,
     tq_interval = 0, tq_slot = - 1\<rparr>"

theorem timer_queue_invariant_witness:
  "\<exists>q. tq_step\<^sup>*\<^sup>* (tq_init 2 False empty_queue) q \<and>
    (\<exists>xs ys. dll (tq_pool q, tq_free q) xs \<and> dll (tq_pool q, tq_active q) ys \<and> set xs \<inter> set ys = {} \<and>
      set xs \<union> set ys = {..<2} \<and> length xs + length ys = 2)"
proof -
  let ?q = "tq_init 2 False empty_queue"
  have "tq_inv 2 ?q [0, 1] []" using init_inv [of 2 False empty_queue] by (simp add: upt_rec)
  then obtain q' where "tq_set_timer 10 7 100 ?q = Some (Some 0, q')" using set_timer_inv [of 2 ?q 0 "[1]" "[]" 10 7 100] by auto
  then have "tq_step\<^sup>*\<^sup>* ?q q'" by (intro r_into_rtranclp tq_step.set_timer)
  then show ?thesis using timer_queue_invariant [of 2 False empty_queue q'] by auto
qed

text \<open>C25:
  Setting, expiring and the clock.  In a reachable state \<^verbatim>\<open>set_timer\<close> answers NULL exactly when no timer of
  the pool is free.  An \<^verbatim>\<open>expire\<close> with a later clock than the last returns, calls back exactly the active
  timers whose end is not after the clock, in the order of their ends, each once, and keeps exactly the
  others active; with no later clock it does nothing.
\<close>

theorem expire_fires_due:
  assumes "tq_step\<^sup>*\<^sup>* (tq_init n handler q0) q" "dll (tq_pool q, tq_active q) ys"
  shows "sorted (map (ends q) ys) \<and> distinct ys \<and>
    ((\<exists>q'. tq_set_timer interval param time q = Some (None, q')) \<longleftrightarrow> length ys = unat n) \<and>
    (if tq_last q < clock
     then \<exists>q'. tq_expire slot clock log_expiry (q, []) =
         Some (q', map (if tq_handler q then Handle_event slot else Timeout) (filter (\<lambda>t. ends q t \<le> clock) ys)) \<and>
       dll (tq_pool q', tq_active q') (filter (\<lambda>t. \<not> ends q t \<le> clock) ys)
     else tq_expire slot clock log_expiry (q, []) = Some (q, []))"
proof -
  obtain xs ys' where i: "tq_inv (unat n) q xs ys'" using reachable_inv [OF assms(1)] by blast
  then have h: "holds q xs ys'" by (simp add: tq_inv_def)
  then have [simp]: "ys' = ys" using assms(2) dll_unique by (auto simp: holds_def)
  have "(\<exists>q'. tq_set_timer interval param time q = Some (None, q')) \<longleftrightarrow> xs = []"
  proof (cases xs)
    case (Cons t r)
    then show ?thesis using set_timer_inv [of "unat n" q t r ys interval param time] i unat_lt32 [of n] by auto
  qed (use holds_empty(1) [OF h] in \<open>simp add: tq_set_timer_def\<close>)
  moreover have "xs = [] \<longleftrightarrow> length ys = unat n" using i by (auto simp: tq_inv_def)
  moreover have "\<exists>q'. tq_expire slot clock log_expiry (q, []) =
         Some (q', map (if tq_handler q then Handle_event slot else Timeout) (filter (\<lambda>t. ends q t \<le> clock) ys)) \<and>
       dll (tq_pool q', tq_active q') (filter (\<lambda>t. \<not> ends q t \<le> clock) ys)" if "tq_last q < clock"
    using expire_inv [OF i that, of slot "[]"] by (auto simp: tq_inv_def holds_def)
  ultimately show ?thesis using i dll_distinct [OF assms(2)] by (auto simp: tq_inv_def tq_expire_def)
qed

theorem expire_fires_due_witness:
  "\<exists>q q'. tq_step\<^sup>*\<^sup>* (tq_init 2 False empty_queue) q \<and> dll (tq_pool q, tq_active q) [0] \<and> ends q 0 = 110 \<and>
    tq_expire (- 1) 120 log_expiry (q, []) = Some (q', [Timeout 0]) \<and> dll (tq_pool q', tq_active q') []"
proof -
  let ?q = "tq_init 2 False empty_queue"
  let ?t = "take_timer 10 7 100 0 ?q"
  have i: "tq_inv 2 ?q [0, 1] []" using init_inv [of 2 False empty_queue] by (simp add: upt_rec)
  then obtain q where q: "tq_set_timer 10 7 100 ?q = Some (Some 0, q)" "tq_inv 2 q [1] [0]"
    using set_timer_inv [of 2 ?q 0 "[1]" "[]" 10 7 100] by auto
  have h: "holds ?q [0, 1] []" using i by (simp add: tq_inv_def)
  have t: "holds ?t [1] []" "tq_pool ?t 0 = (timer_init 0)\<lparr>t_param := 7, t_interval := 10, t_end := 110, t_active := True\<rparr>"
    using take_timer_holds(1,4) [OF h, of 10 7 100] by simp_all
  have "q = insert_active 0 ?t" using q(1) holds_empty(1) [OF h] holds_front(1) [OF h] by (simp add: tq_set_timer_def)
  then have q': "q = on_active (tl_push_back 0) ?t" using holds_empty(2) [OF t(1)] by (simp add: insert_active_def)
  have "dll (tq_pool ?t, tq_active ?t) []" using t(1) by (simp add: holds_def)
  then have "only_links {0} (tq_pool ?t) (tq_pool q)" using timers.push_back [of "tq_pool ?t" "tq_active ?t" "[]" 0]
    unfolding q' by (auto simp: on_active_def)
  then have e: "ends q 0 = 110" using t(2) by (auto simp: only_links_def payload_def)
  have l: "tq_last q = 0" "tq_handler q = False"
    unfolding q' by (simp_all add: on_active_def take_timer_def put_timer_def on_free_def tq_init_def tq_clear_def upt_rec empty_queue_def split: prod.splits)
  have s: "tq_step\<^sup>*\<^sup>* ?q q" by (rule r_into_rtranclp, rule tq_step.set_timer [OF q(1)])
  have d: "dll (tq_pool q, tq_active q) [0]" using q(2) by (simp add: tq_inv_def holds_def)
  show ?thesis using expire_fires_due [OF s d, of 0 0 0 120 "- 1"] s d e l by auto
qed

text \<open>With a fixed interval and a clock that does not go back, new timers are in order at the back.\<close>

lemma lru_set_timer_inv:
  assumes "tq_inv n q (t # xs) ys" "n < 2 ^ 32" "\<forall>y \<in> set ys. ends q y \<le> clock + ucast (tq_interval q)"
  shows "\<exists>q'. lru_set_timer param clock q = Some (Some t, q') \<and> tq_inv n q' xs (ys @ [t])"
proof -
  let ?p = "take_timer (tq_interval q) param clock t q" and ?q = "on_active (tl_push_back t) (take_timer (tq_interval q) param clock t q)"
  have h: "holds q (t # xs) ys" using assms(1) by (simp add: tq_inv_def)
  note p = take_timer_holds(1,4,5) [OF h, of "tq_interval q" param clock] and t = take_timer_holds(2,3) [OF h]
  have l: "length xs + length ys + 1 = n" using assms(1) by (simp add: tq_inv_def)
  have d: "dll (tq_pool ?p, tq_active ?p) ys" "set xs \<inter> set ys = {}" using p(1) by (auto simp: holds_def)
  have a: "holds ?q xs (ys @ [t]) \<and> same_timers UNIV ?p ?q"
    by (rule on_active_holds [where S = "set (ys @ [t])", OF p(1)]) (use timers.push_back [OF d(1) t(2)] d(2) t l assms(2) in auto)
  have e: "ends ?q y = ends q y" "t_active (tq_pool ?q y) = t_active (tq_pool q y)" if "y \<in> set ys" for y
    using same_timersD [OF conjunct2 [OF a], of y] same_timersD [OF p(3), of y] t(2) that by auto
  have "ends ?q t = clock + ucast (tq_interval q)" "t_active (tq_pool ?q t)"
    using same_timersD [OF conjunct2 [OF a], of t] p(2) by simp_all
  then have "tq_inv n ?q xs (ys @ [t])"
    using a assms(1,3) e l sorted_cong [of ys "ends ?q" "ends q"] by (auto simp: tq_inv_def sorted_append)
  then show ?thesis using holds_empty(1) [OF h] holds_front(1) [OF h] by (auto simp: lru_set_timer_def)
qed

section \<open>Updates and expired timers\<close>

text \<open>
  \<^verbatim>\<open>update_timer\<close> of a running timer, which is meant to start it again with its own interval, loses the
  interval and the parameter: taking the timer out of the active list resets it first, so it ends at the
  very clock of the update, and the next \<^verbatim>\<open>expire\<close> calls it back with parameter 0.  The same holds for the
  queue with a fixed interval.
\<close>

theorem update_timer_forgets:
  assumes "holds q xs ys" "sorted (map (ends q) ys)" "t \<in> set ys" "t_active (tq_pool q t)"
  shows "(\<exists>q'. tq_update_timer (Some t) clock q = (0, q') \<and>
      t_end (tq_pool q' t) = clock \<and> t_interval (tq_pool q' t) = 0 \<and> t_param (tq_pool q' t) = 0) \<and>
    (\<exists>q'. lru_update_timer (Some t) clock q = (0, q') \<and>
      t_end (tq_pool q' t) = clock \<and> t_interval (tq_pool q' t) = 0 \<and> t_param (tq_pool q' t) = 0)"
proof -
  obtain as bs where ys: "ys = as @ t # bs" using assms(3) by (auto simp: in_set_conv_decomp)
  let ?r = "renew_timer clock t q"
  note h = assms(1) [unfolded ys]
  note r = renew_holds [OF h, of clock] and t = remove_active_holds(4,5) [OF h]
  have l: "length xs + length (as @ bs) + 1 < 2 ^ 32" using h by (simp add: holds_def)
  have "ends ?r y = ends q y" if "y \<in> set (as @ bs)" for y using same_timersD(1) [OF r(2), of y] t(2) that by auto
  then have s: "sorted (map (ends ?r) (as @ bs))"
    using assms(2) sorted_cong [of "as @ bs" "ends ?r" "ends q"] by (simp add: ys sorted_append)
  have a: "same_timers UNIV ?r (insert_active t ?r)" using insert_active_holds [OF r(1) t l s] by blast
  have d: "dll (tq_pool ?r, tq_active ?r) (as @ bs)" using r(1) by (simp add: holds_def)
  have b: "same_timers UNIV ?r (on_active (tl_push_back t) ?r)"
    using timers.push_back [OF d t(2)] l by (auto simp: same_timers_def on_active_def only_links_def)
  show ?thesis
    using same_timersD [OF a, of t] same_timersD [OF b, of t] r(3) assms(4)
    by (simp add: tq_update_timer_def lru_update_timer_def timer_init_def)
qed

theorem update_timer_forgets_witness:
  "\<exists>q q'. tq_step\<^sup>*\<^sup>* (tq_init 2 False empty_queue) q \<and> tq_update_timer (Some 0) 105 q = (0, q') \<and>
    t_end (tq_pool q' 0) = 105 \<and> t_interval (tq_pool q' 0) = 0"
proof -
  have "tq_inv 2 (tq_init 2 False empty_queue) [0, 1] []" using init_inv [of 2 False empty_queue] by (simp add: upt_rec)
  then obtain q where q: "tq_set_timer 10 7 100 (tq_init 2 False empty_queue) = Some (Some 0, q)" "tq_inv 2 q [1] [0]"
    using set_timer_inv [of 2 _ 0 "[1]" "[]" 10 7 100] by fastforce
  have "tq_step\<^sup>*\<^sup>* (tq_init 2 False empty_queue) q" by (rule r_into_rtranclp, rule tq_step.set_timer [OF q(1)])
  then show ?thesis using update_timer_forgets [of q "[1]" "[0]" 0 105] q(2) by (auto simp: tq_inv_def)
qed

lemmas queue_run = tq_init_def tq_clear_def empty_queue_def on_free_def on_active_def tl_push_back_def tl_push_front_def
  tl_pop_front_def tl_remove_def drop_size_def alone_def resize_def tl_init_def tq_set_timer_def take_timer_def put_timer_def
  insert_active_def tl_empty_def tl_front_def timer_init_def tq_expire_def tq_cancel_timer_def log_expiry_def Let_def

text \<open>
  An expired timer stays marked as active although it is back on the free list: cancelling it then is
  accepted, and puts it on the free list a second time.  The list loses its other timers, and the same
  timer is handed out twice.
\<close>

theorem expired_timer_handed_out_twice:
  "(do {
      (a, q) \<leftarrow> tq_set_timer 10 7 100 (tq_init 2 False empty_queue);
      (q, es) \<leftarrow> tq_expire (- 1) 120 log_expiry (q, []);
      (r, q) \<leftarrow> Some (tq_cancel_timer a q);
      (b, q) \<leftarrow> tq_set_timer 10 8 130 q;
      (c, q) \<leftarrow> tq_set_timer 10 9 140 q;
      Some (a, es, r, b, c) }) = Some (Some 0, [Timeout 0], 0, Some 0, Some 0)"
  by (simp add: queue_run upt_rec expire_loop.simps)

end
