(* ===== verification/SL_LRU.thy ===== *)
theory SL_LRU
  imports SL_Prelude "HOL-Library.AList"
begin

text \<open>
  \<^verbatim>\<open>SL_LRUHashtable\<close>: a hash table whose nodes are linked from the most to the least recently used one.
  The node of a key does not move while it is in the table, so a pointer to a node is its key.  The table is
  an association list with one entry for a key; a read of a node that is not in the table, one that was
  erased among them, is undefined, \<open>None\<close>.
\<close>

record ('k, 'v) lru_node =
  ln_prev :: "'k option"
  ln_next :: "'k option"
  ln_data :: 'v

record ('k, 'v) lru =
  lru_max :: nat
  lru_ht :: "('k \<times> ('k, 'v) lru_node) list"
  lru_head :: "'k option"
  lru_tail :: "'k option"

definition lru_new :: "nat \<Rightarrow> ('k, 'v) lru" where
  "lru_new max_size = \<lparr>lru_max = max_size, lru_ht = [], lru_head = None, lru_tail = None\<rparr>"

definition lru_size :: "('k, 'v) lru \<Rightarrow> nat" where
  "lru_size t = length (lru_ht t)"

definition lru_clear :: "('k, 'v) lru \<Rightarrow> ('k, 'v) lru" where
  "lru_clear t = t\<lparr>lru_ht := [], lru_head := None, lru_tail := None\<rparr>"

section \<open>Operations\<close>

definition node_upd :: "'k \<Rightarrow> (('k, 'v) lru_node \<Rightarrow> ('k, 'v) lru_node) \<Rightarrow> ('k, 'v) lru \<Rightarrow> ('k, 'v) lru option" where
  "node_upd k f t = (case map_of (lru_ht t) k of
     None \<Rightarrow> None
   | Some n \<Rightarrow> Some (t\<lparr>lru_ht := AList.update k (f n) (lru_ht t)\<rparr>))"

definition lru_pop_up :: "('k, 'v) lru \<Rightarrow> (('k \<times> 'v) option \<times> ('k, 'v) lru) option" where
  "lru_pop_up t = (case lru_tail t of
     None \<Rightarrow> Some (None, t)
   | Some k \<Rightarrow> do {
       n \<leftarrow> map_of (lru_ht t) k;
       let t = t\<lparr>lru_ht := AList.delete k (lru_ht t)\<rparr>;
       ptr \<leftarrow> map_of (lru_ht t) k;
       let t = t\<lparr>lru_tail := ln_prev ptr\<rparr>;
       t \<leftarrow> (case lru_tail t of
               Some p \<Rightarrow> node_upd p (\<lambda>n. n\<lparr>ln_next := None\<rparr>) t
             | None \<Rightarrow> Some (t\<lparr>lru_head := None\<rparr>));
       Some (Some (k, ln_data n), t) })"

text \<open>The relinking of \<^verbatim>\<open>add_element\<close> and \<^verbatim>\<open>get_element\<close> for a node that is not the first.\<close>

definition lru_to_front :: "'k \<Rightarrow> ('k, 'v) lru \<Rightarrow> ('k, 'v) lru option" where
  "lru_to_front k t = do {
     n \<leftarrow> map_of (lru_ht t) k;
     let ptr_next = ln_next n;
     ptr_prev \<leftarrow> ln_prev n;
     t \<leftarrow> node_upd ptr_prev (\<lambda>n. n\<lparr>ln_next := ptr_next\<rparr>) t;
     t \<leftarrow> node_upd k (\<lambda>n. n\<lparr>ln_next := lru_head t, ln_prev := None\<rparr>) t;
     head \<leftarrow> lru_head t;
     t \<leftarrow> node_upd head (\<lambda>n. n\<lparr>ln_prev := Some k\<rparr>) t;
     let t = t\<lparr>lru_head := Some k\<rparr>;
     t \<leftarrow> (case ptr_next of Some p \<Rightarrow> node_upd p (\<lambda>n. n\<lparr>ln_prev := Some ptr_prev\<rparr>) t | None \<Rightarrow> Some t);
     Some (if lru_tail t = Some k then t\<lparr>lru_tail := Some ptr_prev\<rparr> else t) }"

definition lru_add_element :: "'k \<Rightarrow> 'v \<Rightarrow> ('k, 'v) lru \<Rightarrow> (bool \<times> ('k, 'v) lru) option" where
  "lru_add_element key data t = (case map_of (lru_ht t) key of
     None \<Rightarrow> do {
       t \<leftarrow> (if lru_max t \<le> lru_size t then do { (_, t) \<leftarrow> lru_pop_up t; Some t } else Some t);
       let t = t\<lparr>lru_ht := AList.update key \<lparr>ln_prev = None, ln_next = None, ln_data = data\<rparr> (lru_ht t)\<rparr>;
       t \<leftarrow> node_upd key (\<lambda>n. n\<lparr>ln_next := lru_head t\<rparr>) t;
       t \<leftarrow> (case lru_head t of Some h \<Rightarrow> node_upd h (\<lambda>n. n\<lparr>ln_prev := Some key\<rparr>) t | None \<Rightarrow> Some t);
       let t = t\<lparr>lru_head := Some key\<rparr>;
       Some (True, if lru_tail t = None then t\<lparr>lru_tail := lru_head t\<rparr> else t) }
   | Some _ \<Rightarrow> do {
       t \<leftarrow> node_upd key (\<lambda>n. n\<lparr>ln_data := data\<rparr>) t;
       t \<leftarrow> (if lru_head t \<noteq> Some key then lru_to_front key t else Some t);
       Some (False, t) })"

definition lru_get_element :: "'k \<Rightarrow> ('k, 'v) lru \<Rightarrow> ('v option \<times> ('k, 'v) lru) option" where
  "lru_get_element key t = (case map_of (lru_ht t) key of
     None \<Rightarrow> Some (None, t)
   | Some n \<Rightarrow> do {
       t \<leftarrow> (if lru_head t \<noteq> Some key then lru_to_front key t else Some t);
       Some (Some (ln_data n), t) })"

definition lru_remove_element :: "'k \<Rightarrow> ('k, 'v) lru \<Rightarrow> ('v option \<times> ('k, 'v) lru) option" where
  "lru_remove_element key t = (case map_of (lru_ht t) key of
     None \<Rightarrow> Some (None, t)
   | Some n \<Rightarrow> do {
       t \<leftarrow> (case ln_prev n of None \<Rightarrow> Some (t\<lparr>lru_head := ln_next n\<rparr>) | Some p \<Rightarrow> node_upd p (\<lambda>m. m\<lparr>ln_next := ln_next n\<rparr>) t);
       t \<leftarrow> (case ln_next n of None \<Rightarrow> Some (t\<lparr>lru_tail := ln_prev n\<rparr>) | Some p \<Rightarrow> node_upd p (\<lambda>m. m\<lparr>ln_prev := ln_prev n\<rparr>) t);
       Some (Some (ln_data n), t\<lparr>lru_ht := AList.delete key (lru_ht t)\<rparr>) })"

definition lru_most_recent :: "('k, 'v) lru \<Rightarrow> 'v option option" where
  "lru_most_recent t = (case lru_head t of
     None \<Rightarrow> Some None | Some k \<Rightarrow> do { n \<leftarrow> map_of (lru_ht t) k; Some (Some (ln_data n)) })"

definition lru_least_recent :: "('k, 'v) lru \<Rightarrow> 'v option option" where
  "lru_least_recent t = (case lru_tail t of
     None \<Rightarrow> Some None | Some k \<Rightarrow> do { n \<leftarrow> map_of (lru_ht t) k; Some (Some (ln_data n)) })"

partial_function (option) lru_keys_from :: "('k \<times> ('k, 'v) lru_node) list \<Rightarrow> 'k option \<Rightarrow> 'k list option" where
  "lru_keys_from ht p = (case p of
     None \<Rightarrow> Some []
   | Some k \<Rightarrow> (case map_of ht k of
       None \<Rightarrow> None
     | Some n \<Rightarrow> do { ks \<leftarrow> lru_keys_from ht (ln_next n); Some (k # ks) }))"

definition lru_ordered_keys :: "('k, 'v) lru \<Rightarrow> 'k list option" where
  "lru_ordered_keys t = lru_keys_from (lru_ht t) (lru_head t)"

section \<open>The table as a sequence\<close>

fun first_key :: "('k \<times> 'v) list \<Rightarrow> 'k option \<Rightarrow> 'k option" where
  "first_key [] q = q"
| "first_key ((k, _) # _) q = Some k"

definition last_key :: "'k option \<Rightarrow> ('k \<times> 'v) list \<Rightarrow> 'k option" where
  "last_key p xs = (if xs = [] then p else Some (fst (last xs)))"

text \<open>The nodes of the entries \<open>xs\<close>, from the pointer \<open>p\<close> in front of them to the pointer \<open>q\<close> behind.\<close>

fun chain :: "('k \<rightharpoonup> ('k, 'v) lru_node) \<Rightarrow> 'k option \<Rightarrow> ('k \<times> 'v) list \<Rightarrow> 'k option \<Rightarrow> bool" where
  "chain h p [] q \<longleftrightarrow> True"
| "chain h p ((k, v) # r) q \<longleftrightarrow>
     h k = Some \<lparr>ln_prev = p, ln_next = first_key r q, ln_data = v\<rparr> \<and> chain h (Some k) r q"

definition lru_rep :: "('k, 'v) lru \<Rightarrow> ('k \<times> 'v) list \<Rightarrow> bool" where
  "lru_rep t xs \<longleftrightarrow>
     chain (map_of (lru_ht t)) None xs None \<and> lru_head t = first_key xs None \<and> lru_tail t = last_key None xs \<and>
     distinct (map fst xs) \<and> distinct (map fst (lru_ht t)) \<and> dom (map_of (lru_ht t)) = set (map fst xs)"

lemma last_key_simps [simp]:
  "last_key p [] = p" "last_key p ((k, v) # r) = last_key (Some k) r" "last_key p (xs @ [(k, v)]) = Some k"
  by (auto simp: last_key_def)

lemma first_key_append: "first_key (xs @ ys) q = first_key xs (first_key ys q)"
  by (cases xs) auto

lemma last_key_append: "last_key p (xs @ ys) = last_key (last_key p xs) ys"
  by (auto simp: last_key_def)

lemma chain_append: "chain h p (xs @ ys) q \<longleftrightarrow> chain h p xs (first_key ys q) \<and> chain h (last_key p xs) ys q"
  by (induction h p xs q rule: chain.induct) (auto simp: first_key_append)

lemma chain_upd [simp]: "k \<notin> set (map fst xs) \<Longrightarrow> chain (h(k := n)) p xs q = chain h p xs q"
  by (induction h p xs q rule: chain.induct) auto

lemma chain_cong: "(\<And>k. k \<in> set (map fst xs) \<Longrightarrow> h k = h' k) \<Longrightarrow> chain h p xs q = chain h' p xs q"
  by (induction h p xs q rule: chain.induct) auto

lemma size_rep: "lru_rep t xs \<Longrightarrow> lru_size t = length xs"
  unfolding lru_rep_def lru_size_def dom_map_of_conv_image_fst set_map [symmetric]
  by (metis distinct_card length_map)

lemma chain_node: "chain h p (as @ (k, v) # bs) q \<Longrightarrow> h k = Some \<lparr>ln_prev = last_key p as, ln_next = first_key bs q, ln_data = v\<rparr>"
  by (simp add: chain_append)

lemma rep_node:
  "lru_rep t (as @ (k, v) # bs) \<Longrightarrow>
    map_of (lru_ht t) k = Some \<lparr>ln_prev = last_key None as, ln_next = first_key bs None, ln_data = v\<rparr>"
  unfolding lru_rep_def by (blast dest: chain_node)

lemma rep_unknown: "lru_rep t xs \<Longrightarrow> k \<notin> set (map fst xs) \<Longrightarrow> map_of (lru_ht t) k = None"
  unfolding lru_rep_def by blast

lemma rep_split:
  assumes "k \<in> set (map fst xs)" obtains as v bs where "xs = as @ (k, v) # bs"
  using assms by (auto simp: in_set_conv_decomp)

declare map_of_eq_Some_iff [simp del]

lemmas lru_simps = update_conv' delete_conv' distinct_update distinct_delete node_upd_def

lemma delete_single: "dom (map_of al) = {k} \<Longrightarrow> AList.delete k al = []"
proof -
  assume "dom (map_of al) = {k}"
  then have "dom (map_of (AList.delete k al)) = {}" unfolding delete_conv' dom_fun_upd by simp
  then show ?thesis by simp
qed

text \<open>An eviction erases the node and then reads the link to the one before it from it.\<close>

lemma pop_up_rep:
  assumes "lru_rep t xs"
  shows "lru_pop_up t = (if xs = [] then Some (None, t) else None)"
proof (cases xs rule: rev_cases)
  case Nil
  then show ?thesis using assms by (simp add: lru_pop_up_def lru_rep_def)
next
  case (snoc ys z)
  then have "lru_tail t = Some (fst z)" using assms by (cases z) (simp add: lru_rep_def)
  then show ?thesis using snoc by (simp add: lru_pop_up_def delete_conv' split: option.split)
qed

lemma first_key_any: "xs \<noteq> [] \<Longrightarrow> first_key xs q = first_key xs None"
  by (cases xs) auto

lemma last_key_neq: "k \<notin> set (map fst xs) \<Longrightarrow> p \<noteq> Some k \<Longrightarrow> last_key p xs \<noteq> Some k"
  by (cases xs rule: rev_cases) (auto simp: last_key_def)

lemma to_front_rep:
  assumes "lru_rep t (as @ (k, v) # bs)" "as \<noteq> []"
  shows "\<exists>t'. lru_to_front k t = Some t' \<and> lru_rep t' ((k, v) # as @ bs) \<and> lru_max t' = lru_max t"
proof -
  note n = rep_node [OF assms(1)]
  obtain ys j w where as: "as = ys @ [(j, w)]" using assms(2) by (cases as rule: rev_cases) auto
  have j: "map_of (lru_ht t) j = Some \<lparr>ln_prev = last_key None ys, ln_next = Some k, ln_data = w\<rparr>"
    using rep_node [of t ys j w "(k, v) # bs"] assms(1) by (simp add: as)
  have d: "distinct (map fst (as @ (k, v) # bs))" "lru_head t = first_key as None" "lru_tail t = last_key None (as @ (k, v) # bs)"
    using assms first_key_any [OF assms(2)] by (auto simp: lru_rep_def first_key_append)
  have r: "chain (map_of (lru_ht t)) None (as @ (k, v) # bs) None" "distinct (map fst (lru_ht t))"
    "dom (map_of (lru_ht t)) = set (map fst (as @ (k, v) # bs))" using assms(1) by (simp_all only: lru_rep_def)
  note u = lru_to_front_def as lru_simps Let_def and w = lru_rep_def as lru_simps chain_append first_key_append
  have c: "map_of (lru_ht t) c = Some \<lparr>ln_prev = Some k, ln_next = first_key cs None, ln_data = y\<rparr>" if "bs = (c, y) # cs" for c y cs
    using rep_node [of t "as @ [(k, v)]" c y cs] assms(1) that by simp
  have i: "map_of (lru_ht t) i = Some \<lparr>ln_prev = None, ln_next = first_key (zs @ [(j, w)]) None, ln_data = x\<rparr>"
    if "ys = (i, x) # zs" for i x zs
    using rep_node [of t "[]" i x "zs @ (j, w) # (k, v) # bs"] assms(1) that by (simp add: as first_key_append)
  have lk: "last_key (Some c) cs \<noteq> Some k" if "bs = (c, y) # cs" for c y cs
    by (rule last_key_neq) (use d(1) that in \<open>auto simp: as\<close>)
  have kj: "k \<noteq> j" "j \<noteq> k" using d(1) by (auto simp: as)
  consider "ys = []" "bs = []" | c y cs where "ys = []" "bs = (c, y) # cs" | i x zs where "ys = (i, x) # zs" "bs = []"
    | i x zs c y cs where "ys = (i, x) # zs" "bs = (c, y) # cs"
    by (cases ys; cases bs) auto
  then show ?thesis
  proof cases
    case 1
    then show ?thesis using n j d kj by (simp add: u) (use r in \<open>(simp add: w; blast)\<close>)
  next
    case (2 c y cs)
    then have "c \<noteq> k" "k \<noteq> c" "c \<noteq> j" "j \<noteq> c" "last_key (Some c) cs \<noteq> Some k" using d(1) lk by (auto simp: as)
    then show ?thesis using n j d kj 2 c [OF 2(2)] by (simp add: u) (use r 2 in \<open>(simp add: w; blast)\<close>)
  next
    case (3 i x zs)
    then have "i \<noteq> k" "k \<noteq> i" "i \<noteq> j" "j \<noteq> i" using d(1) by (auto simp: as)
    then show ?thesis using n j d kj 3 i [OF 3(1)] by (simp add: u last_key_append) (use r 3 in \<open>(simp add: w; blast)\<close>)
  next
    case (4 i x zs c y cs)
    then have "c \<noteq> k" "k \<noteq> c" "c \<noteq> j" "j \<noteq> c" "i \<noteq> k" "k \<noteq> i" "i \<noteq> j" "j \<noteq> i" "c \<noteq> i" "i \<noteq> c"
      "last_key (Some c) cs \<noteq> Some k" using d(1) lk by (auto simp: as)
    then show ?thesis using n j d kj 4 c [OF 4(2)] i [OF 4(1)] by (simp add: u) (use r 4 in \<open>(simp add: w last_key_append; blast)\<close>)
  qed
qed

lemma push_rep:
  assumes "lru_rep t xs" "k \<notin> set (map fst xs)"
  shows "\<exists>t'. (do {
      let t = t\<lparr>lru_ht := AList.update k \<lparr>ln_prev = None, ln_next = None, ln_data = v\<rparr> (lru_ht t)\<rparr>;
      t \<leftarrow> node_upd k (\<lambda>n. n\<lparr>ln_next := lru_head t\<rparr>) t;
      t \<leftarrow> (case lru_head t of Some h \<Rightarrow> node_upd h (\<lambda>n. n\<lparr>ln_prev := Some k\<rparr>) t | None \<Rightarrow> Some t);
      let t = t\<lparr>lru_head := Some k\<rparr>;
      Some (True, if lru_tail t = None then t\<lparr>lru_tail := lru_head t\<rparr> else t) }) = Some (True, t') \<and>
    lru_rep t' ((k, v) # xs) \<and> lru_max t' = lru_max t"
proof (cases xs)
  case Nil
  then show ?thesis using assms by (simp add: lru_rep_def lru_simps Let_def)
next
  case (Cons p r)
  obtain j w where p: "p = (j, w)" by fastforce
  have n: "map_of (lru_ht t) j = Some \<lparr>ln_prev = None, ln_next = first_key r None, ln_data = w\<rparr>"
    using rep_node [of t "[]" j w r] assms(1) by (simp add: Cons p)
  have t: "lru_head t = Some j" "lru_tail t = last_key (Some j) r" "last_key (Some j) r \<noteq> None" "j \<noteq> k" "k \<noteq> j"
    using assms by (auto simp: lru_rep_def Cons p last_key_def)
  show ?thesis using n t
    by (simp add: lru_simps Let_def) (use assms in \<open>(simp add: lru_rep_def Cons p lru_simps; blast)\<close>)
qed

text \<open>The specification: a list from the most to the least recently used entry.\<close>

definition without :: "'k \<Rightarrow> ('k \<times> 'v) list \<Rightarrow> ('k \<times> 'v) list" where
  "without k = filter (\<lambda>p. fst p \<noteq> k)"

lemma without_split: "distinct (map fst (as @ (k, v) # bs)) \<Longrightarrow> without k (as @ (k, v) # bs) = as @ bs"
  by (auto simp: without_def filter_id_conv intro!: arg_cong2 [of _ _ _ _ append])

lemma lookup_split: "distinct (map fst (as @ (k, v) # bs)) \<Longrightarrow> map_of (as @ (k, v) # bs) k = Some v"
proof -
  assume "distinct (map fst (as @ (k, v) # bs))"
  then have "map_of as k = None" by (simp add: map_of_eq_None_iff)
  then show ?thesis by (simp add: map_add_def)
qed

lemma rep_distinct: "lru_rep t xs \<Longrightarrow> distinct (map fst xs)"
  by (simp add: lru_rep_def)

lemma data_rep:
  assumes "lru_rep t (as @ (k, v) # bs)"
  shows "\<exists>t'. node_upd k (\<lambda>n. n\<lparr>ln_data := w\<rparr>) t = Some t' \<and> lru_rep t' (as @ (k, w) # bs) \<and> lru_max t' = lru_max t \<and>
    lru_head t' = lru_head t"
proof -
  have "first_key (as @ (k, v) # bs) None = first_key (as @ (k, w) # bs) None" by (simp add: first_key_append)
  moreover have "last_key None (as @ (k, v) # bs) = last_key None (as @ (k, w) # bs)" by (simp add: last_key_append)
  ultimately show ?thesis using assms rep_node [OF assms]
    by (simp add: node_upd_def lru_simps) (simp add: lru_rep_def lru_simps chain_append)
qed

lemma head_rep: "lru_rep t (as @ (k, v) # bs) \<Longrightarrow> lru_head t = Some k \<longleftrightarrow> as = []"
  by (cases as) (auto simp: lru_rep_def)

lemma front_rep:
  assumes "lru_rep t (as @ (k, v) # bs)"
  shows "\<exists>t'. (if lru_head t \<noteq> Some k then lru_to_front k t else Some t) = Some t' \<and> lru_rep t' ((k, v) # as @ bs) \<and>
    lru_max t' = lru_max t"
  using head_rep [OF assms] to_front_rep [OF assms] assms by (cases "as = []") auto

lemma get_rep:
  assumes "lru_rep t xs"
  shows "\<exists>t'. lru_get_element k t = Some (map_of xs k, t') \<and> lru_max t' = lru_max t \<and>
    lru_rep t' (case map_of xs k of None \<Rightarrow> xs | Some v \<Rightarrow> (k, v) # without k xs)"
proof (cases "k \<in> set (map fst xs)")
  case True
  then obtain as v bs where xs: "xs = as @ (k, v) # bs" by (rule rep_split)
  note n = rep_node [OF assms [unfolded xs]] and d = rep_distinct [OF assms [unfolded xs]]
  obtain t' where "(if lru_head t \<noteq> Some k then lru_to_front k t else Some t) = Some t'" "lru_rep t' ((k, v) # as @ bs)" "lru_max t' = lru_max t"
    using front_rep [OF assms [unfolded xs]] by blast
  then show ?thesis using n lookup_split [OF d] without_split [OF d] by (simp add: lru_get_element_def xs)
next
  case False
  then have "map_of xs k = None" by (simp add: map_of_eq_None_iff)
  then show ?thesis using rep_unknown [OF assms False] assms by (simp add: lru_get_element_def)
qed

lemma remove_rep:
  assumes "lru_rep t xs"
  shows "\<exists>t'. lru_remove_element k t = Some (map_of xs k, t') \<and> lru_max t' = lru_max t \<and> lru_rep t' (without k xs)"
proof (cases "k \<in> set (map fst xs)")
  case True
  then obtain as v bs where xs: "xs = as @ (k, v) # bs" by (rule rep_split)
  note n = rep_node [OF assms [unfolded xs]] and d = rep_distinct [OF assms [unfolded xs]]
  have r: "chain (map_of (lru_ht t)) None (as @ (k, v) # bs) None" "distinct (map fst (lru_ht t))"
    "dom (map_of (lru_ht t)) = set (map fst (as @ (k, v) # bs))" "lru_head t = first_key (as @ (k, v) # bs) None"
    "lru_tail t = last_key None (as @ (k, v) # bs)" using assms by (simp_all only: lru_rep_def xs)
  have "\<exists>t'. lru_remove_element k t = Some (Some v, t') \<and> lru_max t' = lru_max t \<and> lru_rep t' (as @ bs)"
  proof -
    have j: "map_of (lru_ht t) j = Some \<lparr>ln_prev = last_key None ys, ln_next = Some k, ln_data = w\<rparr>" if "as = ys @ [(j, w)]" for ys j w
      using rep_node [of t ys j w "(k, v) # bs"] assms that by (simp add: xs)
    have c: "map_of (lru_ht t) c = Some \<lparr>ln_prev = Some k, ln_next = first_key cs None, ln_data = y\<rparr>" if "bs = (c, y) # cs" for c y cs
      using rep_node [of t "as @ [(k, v)]" c y cs] assms that by (simp add: xs)
    note u = lru_remove_element_def lru_simps Let_def
      and w = lru_rep_def lru_simps chain_append first_key_append last_key_append
    consider "as = []" "bs = []" | c y cs where "as = []" "bs = (c, y) # cs" | ys j w where "as = ys @ [(j, w)]" "bs = []"
      | ys j w c y cs where "as = ys @ [(j, w)]" "bs = (c, y) # cs"
      by (cases as rule: rev_cases; cases bs) auto
    then show ?thesis
    proof cases
      case 1
      then have "AList.delete k (lru_ht t) = []" using r(3) by (intro delete_single) simp
      then show ?thesis using n 1 by (simp add: u lru_rep_def)
    next
      case (2 c y cs)
      then have "c \<noteq> k" "k \<noteq> c" using d by auto
      then show ?thesis using n 2 c [OF 2(2)] d r by (simp add: u) (use r d 2 in \<open>(simp add: w; blast)\<close>)
    next
      case (3 ys j w)
      then have "j \<noteq> k" "k \<noteq> j" using d by auto
      then show ?thesis using n 3 j [OF 3(1)] d r by (simp add: u) (use r d 3 in \<open>(simp add: w; blast)\<close>)
    next
      case (4 ys j w c y cs)
      then have "j \<noteq> k" "k \<noteq> j" "c \<noteq> k" "k \<noteq> c" "j \<noteq> c" "c \<noteq> j" using d by auto
      then show ?thesis using n 4 j [OF 4(1)] c [OF 4(2)] d r by (simp add: u) (use r d 4 in \<open>(simp add: w; blast)\<close>)
    qed
  qed
  then show ?thesis using lookup_split [OF d] without_split [OF d] by (simp add: xs)
next
  case False
  then have "map_of xs k = None" "without k xs = xs" by (auto simp: map_of_eq_None_iff without_def filter_id_conv)
  then show ?thesis using rep_unknown [OF assms False] assms by (simp add: lru_remove_element_def)
qed

lemma add_known_rep:
  assumes "lru_rep t xs" "k \<in> set (map fst xs)"
  shows "\<exists>t'. lru_add_element k v t = Some (False, t') \<and> lru_max t' = lru_max t \<and> lru_rep t' ((k, v) # without k xs)"
proof -
  obtain as w bs where xs: "xs = as @ (k, w) # bs" using assms(2) by (rule rep_split)
  note a = assms(1) [unfolded xs]
  obtain t1 where t1: "node_upd k (\<lambda>n. n\<lparr>ln_data := v\<rparr>) t = Some t1" "lru_rep t1 (as @ (k, v) # bs)" "lru_max t1 = lru_max t"
    using data_rep [OF a] by blast
  obtain t2 where "(if lru_head t1 \<noteq> Some k then lru_to_front k t1 else Some t1) = Some t2" "lru_rep t2 ((k, v) # as @ bs)"
    "lru_max t2 = lru_max t1" using front_rep [OF t1(2)] by blast
  then show ?thesis using t1 rep_node [OF a] without_split [OF rep_distinct [OF a]]
    by (simp add: lru_add_element_def xs)
qed

lemma add_new_rep:
  assumes "lru_rep t xs" "k \<notin> set (map fst xs)" "length xs < lru_max t \<or> xs = []"
  shows "\<exists>t'. lru_add_element k v t = Some (True, t') \<and> lru_max t' = lru_max t \<and> lru_rep t' ((k, v) # xs)"
proof -
  have "(if lru_max t \<le> lru_size t then do { (_, t) \<leftarrow> lru_pop_up t; Some t } else Some t) = Some t"
    using assms(3) size_rep [OF assms(1)] pop_up_rep [OF assms(1)] by auto
  with push_rep [OF assms(1,2), of v] show ?thesis
    using rep_unknown [OF assms(1,2)] by (simp add: lru_add_element_def conj_commute)
qed

lemma add_full_rep:
  assumes "lru_rep t xs" "k \<notin> set (map fst xs)" "lru_max t \<le> length xs" "xs \<noteq> []"
  shows "lru_add_element k v t = None"
  using assms(3,4) size_rep [OF assms(1)] pop_up_rep [OF assms(1)] rep_unknown [OF assms(1,2)]
  by (simp add: lru_add_element_def)

lemma keys_from_chain: "chain (map_of ht) p xs None \<Longrightarrow> lru_keys_from ht (first_key xs None) = Some (map fst xs)"
proof (induction xs arbitrary: p)
  case (Cons x xs)
  obtain k v where x: "x = (k, v)" by fastforce
  then show ?case using Cons.IH [of "Some k"] Cons.prems by (subst lru_keys_from.simps) simp
qed (subst lru_keys_from.simps, simp)

section \<open>Calls\<close>

datatype ('k, 'v) lru_call = Add 'k 'v | Get 'k | Remove 'k | Pop_up | Most_recent | Least_recent | Ordered_keys | Clear

datatype ('k, 'v) lru_result = Flag bool | Data "'v option" | Entry "('k \<times> 'v) option" | Keys "'k list" | Done

fun run_call :: "('k, 'v) lru_call \<Rightarrow> ('k, 'v) lru \<Rightarrow> (('k, 'v) lru_result \<times> ('k, 'v) lru) option" where
  "run_call (Add k v) t = do { (b, t) \<leftarrow> lru_add_element k v t; Some (Flag b, t) }"
| "run_call (Get k) t = do { (d, t) \<leftarrow> lru_get_element k t; Some (Data d, t) }"
| "run_call (Remove k) t = do { (d, t) \<leftarrow> lru_remove_element k t; Some (Data d, t) }"
| "run_call Pop_up t = do { (e, t) \<leftarrow> lru_pop_up t; Some (Entry e, t) }"
| "run_call Most_recent t = do { d \<leftarrow> lru_most_recent t; Some (Data d, t) }"
| "run_call Least_recent t = do { d \<leftarrow> lru_least_recent t; Some (Data d, t) }"
| "run_call Ordered_keys t = do { ks \<leftarrow> lru_ordered_keys t; Some (Keys ks, t) }"
| "run_call Clear t = Some (Done, lru_clear t)"

text \<open>
  The contract: the list of entries from the most to the least recently used one.  A call that
  evicts, the insertion of a new key into a full table or a \<^verbatim>\<open>pop_up\<close> of a table with entries, has no
  result.
\<close>

fun spec_call :: "nat \<Rightarrow> ('k, 'v) lru_call \<Rightarrow> ('k \<times> 'v) list \<Rightarrow> (('k, 'v) lru_result \<times> ('k \<times> 'v) list) option" where
  "spec_call m (Add k v) xs =
     (if k \<in> set (map fst xs) then Some (Flag False, (k, v) # without k xs)
      else if m \<le> length xs \<and> xs \<noteq> [] then None else Some (Flag True, (k, v) # xs))"
| "spec_call m (Get k) xs =
     Some (Data (map_of xs k), case map_of xs k of None \<Rightarrow> xs | Some v \<Rightarrow> (k, v) # without k xs)"
| "spec_call m (Remove k) xs = Some (Data (map_of xs k), without k xs)"
| "spec_call m Pop_up xs = (if xs = [] then Some (Entry None, []) else None)"
| "spec_call m Most_recent xs = Some (Data (if xs = [] then None else Some (snd (hd xs))), xs)"
| "spec_call m Least_recent xs = Some (Data (if xs = [] then None else Some (snd (last xs))), xs)"
| "spec_call m Ordered_keys xs = Some (Keys (map fst xs), xs)"
| "spec_call m Clear xs = Some (Done, [])"

fun run_calls :: "('k, 'v) lru_call list \<Rightarrow> ('k, 'v) lru \<Rightarrow> (('k, 'v) lru_result list \<times> ('k, 'v) lru) option" where
  "run_calls [] t = Some ([], t)"
| "run_calls (c # cs) t = do { (r, t) \<leftarrow> run_call c t; (rs, t) \<leftarrow> run_calls cs t; Some (r # rs, t) }"

fun spec_calls ::
  "nat \<Rightarrow> ('k, 'v) lru_call list \<Rightarrow> ('k \<times> 'v) list \<Rightarrow> (('k, 'v) lru_result list \<times> ('k \<times> 'v) list) option"
where
  "spec_calls m [] xs = Some ([], xs)"
| "spec_calls m (c # cs) xs = do { (r, xs) \<leftarrow> spec_call m c xs; (rs, xs) \<leftarrow> spec_calls m cs xs; Some (r # rs, xs) }"

text \<open>A call, or a run, of a table of size \<open>m\<close> does what the contract says, no result included.\<close>

definition lru_matches :: "nat \<Rightarrow> ('r \<times> ('k, 'v) lru) option \<Rightarrow> ('r \<times> ('k \<times> 'v) list) option \<Rightarrow> bool" where
  "lru_matches m run spec \<longleftrightarrow>
     (case spec of None \<Rightarrow> run = None
      | Some (r, xs) \<Rightarrow> (\<exists>t. run = Some (r, t) \<and> lru_max t = m \<and> lru_rep t xs \<and> length xs \<le> max 1 m))"

lemma length_without: "length (without k xs) \<le> length xs"
  by (simp add: without_def)

lemma length_without_less: "k \<in> set (map fst xs) \<Longrightarrow> length (without k xs) < length xs"
  by (auto simp: without_def intro!: length_filter_less)

lemma call_rep:
  assumes "lru_rep t xs" "lru_max t = m" "length xs \<le> max 1 m"
  shows "lru_matches m (run_call c t) (spec_call m c xs)"
proof (cases c)
  case (Add k v)
  consider (known) "k \<in> set (map fst xs)" | (full) "k \<notin> set (map fst xs)" "m \<le> length xs" "xs \<noteq> []"
    | (room) "k \<notin> set (map fst xs)" "length xs < m \<or> xs = []" by fastforce
  then show ?thesis
  proof cases
    case known
    from add_known_rep [OF assms(1) known, of v] length_without_less [OF known] show ?thesis
      using known assms(2,3) Add by (auto simp: lru_matches_def simp del: set_map)
  next
    case full
    then show ?thesis using add_full_rep [OF assms(1), of k v] assms(2) Add by (simp add: lru_matches_def del: set_map)
  next
    case room
    then have l: "\<not> (m \<le> length xs \<and> xs \<noteq> [])" "Suc (length xs) \<le> max 1 m" by auto
    from add_new_rep [OF assms(1) room(1), of v] room(2) show ?thesis
      using l room(1) assms(2) Add by (auto simp: lru_matches_def simp del: set_map)
  qed
next
  case (Get k)
  have "k \<in> set (map fst xs)" if "map_of xs k = Some v" for v using map_of_SomeD [OF that] by force
  note l = length_without_less [OF this]
  then have "length (case map_of xs k of None \<Rightarrow> xs | Some v \<Rightarrow> (k, v) # without k xs) \<le> max 1 m"
    
  proof (cases "map_of xs k")
    case (Some v)
    then have "Suc (length (without k xs)) \<le> max 1 m" using l [OF Some] assms(3) by linarith
    then show ?thesis using Some by simp
  qed (use assms(3) in simp)
  then show ?thesis using get_rep [OF assms(1), of k] assms(2) unfolding Get lru_matches_def by auto
next
  case (Remove k)
  then show ?thesis using remove_rep [OF assms(1), of k] length_without [of k xs] assms(2,3)
    by (auto simp: lru_matches_def)
next
  case Pop_up
  then show ?thesis using pop_up_rep [OF assms(1)] assms by (auto simp: lru_matches_def)
next
  case Most_recent
  have "lru_most_recent t = Some (if xs = [] then None else Some (snd (hd xs)))"
    using assms(1) by (cases xs) (auto simp: lru_rep_def lru_most_recent_def)
  then show ?thesis using assms by (simp add: Most_recent lru_matches_def)
next
  case Least_recent
  have "lru_least_recent t = Some (if xs = [] then None else Some (snd (last xs)))"
  proof (cases xs rule: rev_cases)
    case (snoc ys z)
    then show ?thesis using rep_node [of t ys "fst z" "snd z" "[]"] assms(1)
      by (auto simp: lru_least_recent_def lru_rep_def last_key_def)
  qed (use assms(1) in \<open>simp add: lru_least_recent_def lru_rep_def\<close>)
  then show ?thesis using assms by (simp add: Least_recent lru_matches_def)
next
  case Ordered_keys
  have "lru_ordered_keys t = Some (map fst xs)"
    using assms(1) keys_from_chain [of "lru_ht t" None xs] by (simp add: lru_ordered_keys_def lru_rep_def)
  then show ?thesis using assms by (simp add: Ordered_keys lru_matches_def)
next
  case Clear
  then show ?thesis using assms(2) by (simp add: lru_clear_def lru_rep_def lru_matches_def)
qed

lemma calls_rep:
  assumes "lru_rep t xs" "lru_max t = m" "length xs \<le> max 1 m"
  shows "lru_matches m (run_calls cs t) (spec_calls m cs xs)"
  using assms
proof (induction cs arbitrary: t xs)
  case Nil
  then show ?case by (simp add: lru_matches_def)
next
  case (Cons c cs)
  note call = call_rep [OF Cons.prems, of c]
  show ?case
  proof (cases "spec_call m c xs")
    case None
    then show ?thesis using call by (simp add: lru_matches_def)
  next
    case (Some p)
    obtain r ys where p: "p = (r, ys)" by fastforce
    obtain t1 where t1: "run_call c t = Some (r, t1)" "lru_max t1 = m" "lru_rep t1 ys" "length ys \<le> max 1 m"
      using call Some p by (auto simp: lru_matches_def)
    show ?thesis using Cons.IH [OF t1(3,2,4)] t1(1) Some p
      by (cases "spec_calls m cs ys") (auto simp: lru_matches_def)
  qed
qed

text \<open>C26: Every sequence of calls on a new \<^verbatim>\<open>SL_LRUHashtable\<close> gives exactly the results of the list of
  entries from the most to the least recently used one, in which a hit or an update moves to the front,
  up to the first call that has to evict an entry; the links are then those of the list, no dangling pointer
  was followed, and the table holds no more than its size (or one entry, for the size 0).  A sequence with a
  call that evicts, the insertion of a new key into a full table or a \<^verbatim>\<open>pop_up\<close> of a table with entries, is
  undefined: the eviction erases the node and then reads the link to the node before it from the erased node.
\<close>

theorem lru_is_bounded_list:
  "case spec_calls m cs [] of
     None \<Rightarrow> run_calls cs (lru_new m) = None
   | Some (rs, xs) \<Rightarrow> (\<exists>t. run_calls cs (lru_new m) = Some (rs, t) \<and> lru_rep t xs \<and> lru_size t = length xs \<and>
       length xs \<le> max 1 m)"
proof -
  have "lru_rep (lru_new m) []" "lru_max (lru_new m) = m" by (simp_all add: lru_rep_def lru_new_def)
  from calls_rep [OF this, of cs] show ?thesis
    by (auto simp: lru_matches_def size_rep split: option.splits prod.splits)
qed

text \<open>
  Dropping the least recently used entry: every \<^verbatim>\<open>pop_up\<close> of a table with entries is undefined, and with it
  every insertion of a new key into a full table.
\<close>

theorem lru_eviction_undefined:
  assumes "lru_rep t xs" "xs \<noteq> []" "k \<notin> set (map fst xs)" "lru_max t \<le> length xs"
  shows "lru_pop_up t = None \<and> lru_add_element k v t = None"
  using pop_up_rep [OF assms(1)] add_full_rep [OF assms(1,3,4,2)] assms(2) by simp

theorem lru_eviction_undefined_witness:
  "lru_pop_up \<lparr>lru_max = 1, lru_ht = [(1 :: nat, \<lparr>ln_prev = None, ln_next = None, ln_data = ''a''\<rparr>)],
     lru_head = Some 1, lru_tail = Some 1\<rparr> = None \<and>
   lru_add_element 3 ''c'' \<lparr>lru_max = 1, lru_ht = [(1 :: nat, \<lparr>ln_prev = None, ln_next = None, ln_data = ''a''\<rparr>)],
     lru_head = Some 1, lru_tail = Some 1\<rparr> = None"
  by (rule lru_eviction_undefined [where xs = "[(1, ''a'')]"]) (simp_all add: lru_rep_def)

end
