(* ===== verification/SL_BinaryProtocol.thy ===== *)
theory SL_BinaryProtocol
  imports SL_CompactProtocol
begin

text \<open>
  The Thrift binary protocol \<^verbatim>\<open>SL_Rpc_Thrift_BinaryProtocol\<close>
  (\<^verbatim>\<open>include/SL_Rpc_Thrift_BinaryProtocol.h\<close>): numbers in network order at their width, a
  writer that is its buffer and a reader that is the block left to read.  The calls are those of the
  compact protocol, and the contract is the same locale.  A type is the number the header byte stands for
  as an \<^verbatim>\<open>int\<close>.
\<close>

section \<open>The writer\<close>

type_synonym bw_result = "(uint \<times> byte_buffer) option"

definition BP_VERSION_MASK :: uint where "BP_VERSION_MASK = 0xffff0000"
definition BP_VERSION_1 :: uint where "BP_VERSION_1 = 0x80010000"

definition bw_byte :: "allocator \<Rightarrow> byte \<Rightarrow> byte_buffer \<Rightarrow> bw_result" where
  "bw_byte h b w = do { (_, w) \<leftarrow> bb_write h w [b] 1 100; Some (1, w) }"

definition bw_bool :: "allocator \<Rightarrow> bool \<Rightarrow> byte_buffer \<Rightarrow> bw_result" where
  "bw_bool h v w = do { (_, w) \<leftarrow> bb_write h w [if v then 1 else 0] 1 100; Some (1, w) }"

definition bw_i16 :: "allocator \<Rightarrow> uint16 \<Rightarrow> byte_buffer \<Rightarrow> bw_result" where
  "bw_i16 h n w = do { (_, w) \<leftarrow> bb_write h w (le_bytes 2 (htons n)) 2 100; Some (2, w) }"

definition bw_i32 :: "allocator \<Rightarrow> uint \<Rightarrow> byte_buffer \<Rightarrow> bw_result" where
  "bw_i32 h n w = do { (_, w) \<leftarrow> bb_write h w (le_bytes 4 (htonl n)) 4 100; Some (4, w) }"

definition bw_i64 :: "allocator \<Rightarrow> uint64 \<Rightarrow> byte_buffer \<Rightarrow> bw_result" where
  "bw_i64 h n w = do { (_, w) \<leftarrow> bb_write h w (le_bytes 8 (bswap64 n)) 8 100; Some (8, w) }"

definition bw_double :: "allocator \<Rightarrow> uint64 \<Rightarrow> byte_buffer \<Rightarrow> bw_result" where
  "bw_double h bits w = do { (_, w) \<leftarrow> bb_write h w (le_bytes 8 (bswap64 bits)) 8 100; Some (8, w) }"

definition bw_string :: "allocator \<Rightarrow> byte list \<Rightarrow> byte_buffer \<Rightarrow> bw_result" where
  "bw_string h str w = do {
     let sz = (word_of_nat (length str) :: uint);
     (n, w) \<leftarrow> bw_i32 h sz w;
     w \<leftarrow> (if sz > 0 then do { (_, w) \<leftarrow> bb_write h w str sz 100; Some w } else Some w);
     Some (n + sz, w) }"

definition bw_message_begin :: "allocator \<Rightarrow> byte list \<Rightarrow> uint \<Rightarrow> uint \<Rightarrow> byte_buffer \<Rightarrow> bw_result" where
  "bw_message_begin h name messageType seqid w = do {
     (n1, w) \<leftarrow> bw_i32 h (BP_VERSION_1 OR messageType) w;
     (n2, w) \<leftarrow> bw_string h name w;
     (n3, w) \<leftarrow> bw_i32 h seqid w;
     Some (n1 + n2 + n3, w) }"

definition bw_field_begin :: "allocator \<Rightarrow> nat \<Rightarrow> uint16 \<Rightarrow> byte_buffer \<Rightarrow> bw_result" where
  "bw_field_begin h fieldType fieldId w = do {
     (n1, w) \<leftarrow> bw_byte h (word_of_nat fieldType) w;
     (n2, w) \<leftarrow> bw_i16 h fieldId w;
     Some (n1 + n2, w) }"

definition bw_field_stop :: "allocator \<Rightarrow> byte_buffer \<Rightarrow> bw_result" where
  "bw_field_stop h w = bw_byte h (word_of_nat T_STOP) w"

definition bw_map_begin :: "allocator \<Rightarrow> nat \<Rightarrow> nat \<Rightarrow> uint \<Rightarrow> byte_buffer \<Rightarrow> bw_result" where
  "bw_map_begin h keyType valType sz w = do {
     (n1, w) \<leftarrow> bw_byte h (word_of_nat keyType) w;
     (n2, w) \<leftarrow> bw_byte h (word_of_nat valType) w;
     (n3, w) \<leftarrow> bw_i32 h sz w;
     Some (n1 + n2 + n3, w) }"

text \<open>\<^verbatim>\<open>writeListBegin\<close> and \<^verbatim>\<open>writeSetBegin\<close>.\<close>

definition bw_list_begin :: "allocator \<Rightarrow> nat \<Rightarrow> uint \<Rightarrow> byte_buffer \<Rightarrow> bw_result" where
  "bw_list_begin h elemType sz w = do {
     (n1, w) \<leftarrow> bw_byte h (word_of_nat elemType) w;
     (n2, w) \<leftarrow> bw_i32 h sz w;
     Some (n1 + n2, w) }"

section \<open>The reader\<close>

type_synonym 'a br_result = "thrift_error + ('a \<times> nat \<times> byte list)"

definition br_buffer :: "nat \<Rightarrow> byte list \<Rightarrow> byte list br_result" where
  "br_buffer len r = (if length r \<ge> len then Inr (take len r, len, drop len r) else Inl INVALID_DATA)"

definition br_byte :: "byte list \<Rightarrow> byte br_result" where
  "br_byte r = ebind (br_buffer 1 r) (\<lambda>(d, n, r). Inr (hd d, 1, r))"

definition br_bool :: "byte list \<Rightarrow> bool br_result" where
  "br_bool r = ebind (br_buffer 1 r) (\<lambda>(d, n, r). Inr (hd d \<noteq> 0, 1, r))"

definition br_i16 :: "byte list \<Rightarrow> uint16 br_result" where
  "br_i16 r = ebind (br_buffer 2 r) (\<lambda>(d, n, r). Inr (ntohs (le_word d), 2, r))"

definition br_i32 :: "byte list \<Rightarrow> uint br_result" where
  "br_i32 r = ebind (br_buffer 4 r) (\<lambda>(d, n, r). Inr (ntohl (le_word d), 4, r))"

definition br_i64 :: "byte list \<Rightarrow> uint64 br_result" where
  "br_i64 r = ebind (br_buffer 8 r) (\<lambda>(d, n, r). Inr (bswap64 (le_word d), 8, r))"

definition br_double :: "byte list \<Rightarrow> uint64 br_result" where
  "br_double r = ebind (br_buffer 8 r) (\<lambda>(d, n, r). Inr (bswap64 (le_word d), 8, r))"

definition br_string_body :: "uint \<Rightarrow> byte list \<Rightarrow> byte list br_result" where
  "br_string_body sz r =
     (if sint sz > 0 then ebind (br_buffer (nat (sint sz)) r) (\<lambda>(d, n, r). Inr (d, nat (sint sz), r))
      else if sint sz < 0 then Inl NEGATIVE_SIZE
      else Inr ([], 0, r))"

definition br_string :: "byte list \<Rightarrow> byte list br_result" where
  "br_string r = ebind (br_i32 r) (\<lambda>(sz, n1, r). ebind (br_string_body sz r) (\<lambda>(s, n2, r). Inr (s, n1 + n2, r)))"

text \<open>An old message starts with the length of its name, a new one with a negative version.\<close>

definition br_message_begin :: "byte list \<Rightarrow> (byte list \<times> uint \<times> uint) br_result" where
  "br_message_begin r = ebind (br_i32 r) (\<lambda>(sz, n1, r).
     if sint sz \<ge> 0 then
       ebind (br_string_body sz r) (\<lambda>(name, n2, r).
       ebind (br_byte r) (\<lambda>(type, n3, r).
       ebind (br_i32 r) (\<lambda>(seqid, n4, r). Inr ((name, scast type, seqid), n1 + n2 + n3 + n4, r))))
     else if sz AND BP_VERSION_MASK \<noteq> BP_VERSION_1 then Inl BAD_VERSION
     else
       ebind (br_string r) (\<lambda>(name, n2, r).
       ebind (br_i32 r) (\<lambda>(seqid, n3, r). Inr ((name, sz AND 0x000000ff, seqid), n1 + n2 + n3, r))))"

text \<open>\<^verbatim>\<open>(TType)type\<close> for a byte that was read.\<close>

definition ttype_of :: "byte \<Rightarrow> nat" where
  "ttype_of b = unat (scast b :: uint)"

definition br_field_begin :: "byte list \<Rightarrow> (nat \<times> uint16) br_result" where
  "br_field_begin r = ebind (br_byte r) (\<lambda>(type, n1, r).
     if ttype_of type = T_STOP then Inr ((ttype_of type, 0), n1, r)
     else ebind (br_i16 r) (\<lambda>(fieldId, n2, r). Inr ((ttype_of type, fieldId), n1 + n2, r)))"

definition br_map_begin :: "byte list \<Rightarrow> (nat \<times> nat \<times> uint) br_result" where
  "br_map_begin r = ebind (br_byte r) (\<lambda>(k, n1, r). ebind (br_byte r) (\<lambda>(v, n2, r). ebind (br_i32 r) (\<lambda>(sizei, n3, r).
     if sint sizei \<ge> 0 then Inr ((ttype_of k, ttype_of v, sizei), n1 + n2 + n3, r) else Inl NEGATIVE_SIZE)))"

definition br_list_begin :: "byte list \<Rightarrow> (nat \<times> uint) br_result" where
  "br_list_begin r = ebind (br_byte r) (\<lambda>(e, n1, r). ebind (br_i32 r) (\<lambda>(sizei, n2, r).
     if sint sizei \<ge> 0 then Inr ((ttype_of e, sizei), n1 + n2, r) else Inl NEGATIVE_SIZE))"

section \<open>Calls\<close>

fun bw_call :: "allocator \<Rightarrow> cp_call \<Rightarrow> byte_buffer \<Rightarrow> bw_result" where
  "bw_call h (C_message name ty seqid) w = bw_message_begin h name ty seqid w"
| "bw_call h C_struct_begin w = Some (0, w)"
| "bw_call h C_struct_end w = Some (0, w)"
| "bw_call h (C_field t fid) w = bw_field_begin h t fid w"
| "bw_call h (C_bool_field fid v) w =
     do { (n1, w) \<leftarrow> bw_field_begin h T_BOOL fid w; (n2, w) \<leftarrow> bw_bool h v w; Some (n1 + n2, w) }"
| "bw_call h C_field_stop w = bw_field_stop h w"
| "bw_call h (C_list t n) w = bw_list_begin h t n w"
| "bw_call h (C_map k v n) w = bw_map_begin h k v n w"
| "bw_call h (C_bool v) w = bw_bool h v w"
| "bw_call h (C_byte b) w = bw_byte h b w"
| "bw_call h (C_i16 n) w = bw_i16 h n w"
| "bw_call h (C_i32 n) w = bw_i32 h n w"
| "bw_call h (C_i64 n) w = bw_i64 h n w"
| "bw_call h (C_double n) w = bw_double h n w"
| "bw_call h (C_binary s) w = bw_string h s w"

definition br_field :: "byte list \<Rightarrow> cp_call br_result" where
  "br_field r = ebind (br_field_begin r) (\<lambda>((t, fid), n, r).
     if t = T_STOP then Inr (C_field_stop, n, r)
     else if t = T_BOOL then ebind (br_bool r) (\<lambda>(v, n2, r). Inr (C_bool_field fid v, n + n2, r))
     else Inr (C_field t fid, n, r))"

definition br_wrap :: "('a \<Rightarrow> cp_call) \<Rightarrow> 'a br_result \<Rightarrow> cp_call br_result" where
  "br_wrap f res = ebind res (\<lambda>(a, n, r). Inr (f a, n, r))"

fun br_call :: "cp_call \<Rightarrow> byte list \<Rightarrow> cp_call br_result" where
  "br_call (C_message _ _ _) r = br_wrap (\<lambda>(name, ty, seqid). C_message name ty seqid) (br_message_begin r)"
| "br_call C_struct_begin r = Inr (C_struct_begin, 0, r)"
| "br_call C_struct_end r = Inr (C_struct_end, 0, r)"
| "br_call (C_field _ _) r = br_field r"
| "br_call (C_bool_field _ _) r = br_field r"
| "br_call C_field_stop r = br_field r"
| "br_call (C_list _ _) r = br_wrap (\<lambda>(t, n). C_list t n) (br_list_begin r)"
| "br_call (C_map _ _ _) r = br_wrap (\<lambda>(k, v, n). C_map k v n) (br_map_begin r)"
| "br_call (C_bool _) r = br_wrap C_bool (br_bool r)"
| "br_call (C_byte _) r = br_wrap C_byte (br_byte r)"
| "br_call (C_i16 _) r = br_wrap C_i16 (br_i16 r)"
| "br_call (C_i32 _) r = br_wrap C_i32 (br_i32 r)"
| "br_call (C_i64 _) r = br_wrap C_i64 (br_i64 r)"
| "br_call (C_double _) r = br_wrap C_double (br_double r)"
| "br_call (C_binary _) r = br_wrap C_binary (br_string r)"

section \<open>What a call writes\<close>

fun bp_bytes :: "cp_call \<Rightarrow> byte list" where
  "bp_bytes (C_message name ty seqid) =
     rev (le_bytes 4 (BP_VERSION_1 OR ty)) @ rev (le_bytes 4 (word_of_nat (length name) :: uint)) @ name @ rev (le_bytes 4 seqid)"
| "bp_bytes C_struct_begin = []"
| "bp_bytes C_struct_end = []"
| "bp_bytes (C_field t fid) = word_of_nat t # rev (le_bytes 2 fid)"
| "bp_bytes (C_bool_field fid v) = 2 # rev (le_bytes 2 fid) @ [if v then 1 else 0]"
| "bp_bytes C_field_stop = [0]"
| "bp_bytes (C_list t n) = word_of_nat t # rev (le_bytes 4 n)"
| "bp_bytes (C_map k v n) = word_of_nat k # word_of_nat v # rev (le_bytes 4 n)"
| "bp_bytes (C_bool v) = [if v then 1 else 0]"
| "bp_bytes (C_byte b) = [b]"
| "bp_bytes (C_i16 n) = rev (le_bytes 2 n)"
| "bp_bytes (C_i32 n) = rev (le_bytes 4 n)"
| "bp_bytes (C_i64 n) = rev (le_bytes 8 n)"
| "bp_bytes (C_double n) = rev (le_bytes 8 n)"
| "bp_bytes (C_binary s) = rev (le_bytes 4 (word_of_nat (length s) :: uint)) @ s"

definition bw_ok :: "byte_buffer \<Rightarrow> bool" where
  "bw_ok w \<longleftrightarrow> bb_wf w \<and> bb_owner w"

text \<open>\<open>d\<close> has been appended.\<close>

definition bw_step :: "byte_buffer \<Rightarrow> byte list \<Rightarrow> byte_buffer \<Rightarrow> bool" where
  "bw_step w d w' \<longleftrightarrow> bw_ok w' \<and> bb_bytes w' = bb_bytes w @ d \<and> bb_room w' + length d = bb_room w \<and>
     bb_data_begin w' = bb_data_begin w"

lemma bw_step_trans: "bw_step w d1 w1 \<Longrightarrow> bw_step w1 d2 w2 \<Longrightarrow> bw_step w (d1 @ d2) w2"
  by (simp add: bw_step_def)

lemma bw_write_step:
  assumes "bw_ok w" "length d \<le> bb_room w" "unat n = length d"
  obtains w' where "bb_write h w d n 100 = Some (True, w')" "bw_step w d w'"
proof -
  obtain b where b: "bb_write h w d n 100 = Some (True, b)" "bb_wf b" "bb_owner b" "bb_bytes b = bb_bytes w @ d"
      "bb_buffer_size b = bb_buffer_size w" "bb_data_begin b = bb_data_begin w"
    using bb_write_fits [of w n d h 100] assms unfolding bw_ok_def by auto
  have "bb_room b + length d = bb_room w"
    using arg_cong [OF b(4), of length] bb_wfD [OF b(2)] bb_wfD [of w] assms b(5,6)
    by (simp add: bb_bytes_def bb_room_def bw_ok_def)
  then show thesis using that b by (simp add: bw_step_def bw_ok_def)
qed

text \<open>A writer \<open>f\<close> that appends \<open>d\<close>, whatever the buffer holds, when there is room.\<close>

definition appends :: "(byte_buffer \<Rightarrow> bw_result) \<Rightarrow> byte list \<Rightarrow> bool" where
  "appends f d \<longleftrightarrow> (\<forall>w. bw_ok w \<and> length d \<le> bb_room w \<longrightarrow> (\<exists>w'. f w = Some (word_of_nat (length d), w') \<and> bw_step w d w'))"

lemma appends_write:
  assumes "unat n = length d" "\<And>w. f w = do { (_, w) \<leftarrow> bb_write h w d n 100; Some (n, w) }"
  shows "appends f d"
  unfolding appends_def
proof (intro allI impI, elim conjE)
  fix w assume w: "bw_ok w" "length d \<le> bb_room w"
  obtain w' where "bb_write h w d n 100 = Some (True, w')" "bw_step w d w'"
    using bw_write_step [OF w assms(1)] .
  moreover have "n = word_of_nat (length d)" by (simp flip: assms(1))
  ultimately show "\<exists>w'. f w = Some (word_of_nat (length d), w') \<and> bw_step w d w'" by (simp add: assms(2))
qed

lemma appends_then:
  assumes "appends f d1" "appends g d2" "\<And>w. k w = do { (n1, w) \<leftarrow> f w; (n2, w) \<leftarrow> g w; Some (n1 + n2, w) }"
  shows "appends k (d1 @ d2)"
  unfolding appends_def
proof (intro allI impI, elim conjE)
  fix w assume w: "bw_ok w" "length (d1 @ d2) \<le> bb_room w"
  then obtain w1 where 1: "f w = Some (word_of_nat (length d1), w1)" "bw_step w d1 w1"
    using assms(1) unfolding appends_def by force
  then obtain w2 where "g w1 = Some (word_of_nat (length d2), w2)" "bw_step w1 d2 w2"
    using assms(2) w unfolding appends_def bw_step_def by force
  then show "\<exists>w'. k w = Some (word_of_nat (length (d1 @ d2)), w') \<and> bw_step w (d1 @ d2) w'"
    using 1 bw_step_trans [OF 1(2)] by (simp add: assms(3))
qed

lemma appends_then3:
  assumes "appends f d1" "appends g d2" "appends k d3"
    and "\<And>w. l w = do { (n1, w) \<leftarrow> f w; (n2, w) \<leftarrow> g w; (n3, w) \<leftarrow> k w; Some (n1 + n2 + n3, w) }"
  shows "appends l (d1 @ d2 @ d3)"
proof -
  let ?fg = "\<lambda>w. do { (n1, w) \<leftarrow> f w; (n2, w) \<leftarrow> g w; Some (n1 + n2, w) }"
  have "appends ?fg (d1 @ d2)" by (rule appends_then [OF assms(1,2)]) simp
  have "l w = do { (n1, w) \<leftarrow> ?fg w; (n2, w) \<leftarrow> k w; Some (n1 + n2, w) }" for w
    by (cases "f w") (auto simp: assms(4) split: Option.bind_splits)
  from appends_then [OF \<open>appends ?fg (d1 @ d2)\<close> assms(3) this] show ?thesis by simp
qed

lemma appends_numbers:
  "appends (bw_byte h b) [b]" "appends (bw_bool h v) [if v then 1 else 0]" "appends (bw_i16 h n16) (rev (le_bytes 2 n16))"
  "appends (bw_i32 h n) (rev (le_bytes 4 n))" "appends (bw_i64 h n64) (rev (le_bytes 8 n64))"
  "appends (bw_double h n64) (rev (le_bytes 8 n64))"
  by (rule appends_write; simp add: bw_byte_def bw_bool_def bw_i16_def bw_i32_def bw_i64_def bw_double_def)+

lemma appends_string:
  assumes "length s < 2 ^ 31"
  shows "appends (bw_string h s) (rev (le_bytes 4 (word_of_nat (length s) :: uint)) @ s)"
proof -
  let ?n = "word_of_nat (length s) :: uint"
  let ?g = "\<lambda>w. if ?n > 0 then do { (_, w) \<leftarrow> bb_write h w s ?n 100; Some (?n, w) } else Some (?n, w)"
  have n: "unat ?n = length s" using assms by (simp add: unat_of_nat)
  have "appends ?g s"
  proof (cases "s = []")
    case True
    then show ?thesis by (auto simp: appends_def bw_step_def)
  next
    case False
    then have "0 < ?n" using n by (simp add: word_less_nat_alt)
    then show ?thesis using n by (intro appends_write) simp_all
  qed
  then show ?thesis
    by (rule appends_then [OF appends_numbers(4)]) (auto simp: bw_string_def Let_def split_beta split: Option.bind_splits)
qed

section \<open>Well-formed calls\<close>

fun bp_track :: "cp_call \<Rightarrow> unit \<Rightarrow> unit option" where
  "bp_track (C_message name ty seqid) u = (if length name < 2 ^ 31 \<and> unat ty < 65536 then Some () else None)"
| "bp_track (C_field t fid) u = (if t < 128 \<and> t \<noteq> T_STOP \<and> t \<noteq> T_BOOL then Some () else None)"
| "bp_track (C_list t n) u = (if t < 128 \<and> unat n < 2 ^ 31 then Some () else None)"
| "bp_track (C_map k v n) u = (if k < 128 \<and> v < 128 \<and> unat n < 2 ^ 31 then Some () else None)"
| "bp_track (C_binary s) u = (if length s < 2 ^ 31 then Some () else None)"
| "bp_track _ u = Some ()"

text \<open>The reader keeps the low byte of the message type.\<close>

fun bp_norm :: "cp_call \<Rightarrow> cp_call" where
  "bp_norm (C_message name ty seqid) = C_message name (ty AND 0xFF) seqid"
| "bp_norm c = c"

lemma put_call:
  assumes "bp_track c () = Some u"
  shows "appends (bw_call h c) (bp_bytes c)"
proof (cases c)
  case (C_message name ty seqid)
  then have "length name < 2 ^ 31" using assms by (simp split: if_splits)
  from appends_then3 [OF appends_numbers(4) appends_string [OF this] appends_numbers(4), of "bw_call h c"]
  show ?thesis using C_message by (simp add: bw_message_begin_def)
next
  case (C_field t fid)
  show ?thesis using appends_then [OF appends_numbers(1,3), of "bw_call h c"] by (simp add: C_field bw_field_begin_def)
next
  case (C_bool_field fid v)
  have "appends (bw_field_begin h T_BOOL fid) (2 # rev (le_bytes 2 fid))"
    using appends_then [OF appends_numbers(1,3), of "bw_field_begin h T_BOOL fid"] by (simp add: bw_field_begin_def T_BOOL_def)
  from appends_then [OF this appends_numbers(2), of "bw_call h c"] show ?thesis by (simp add: C_bool_field)
next
  case (C_list t n)
  show ?thesis using appends_then [OF appends_numbers(1,4), of "bw_call h c"] by (simp add: C_list bw_list_begin_def)
next
  case (C_map k v n)
  show ?thesis using appends_then3 [OF appends_numbers(1,1,4), of "bw_call h c"] by (simp add: C_map bw_map_begin_def)
next
  case (C_binary s)
  then show ?thesis using assms appends_string [of s h] by (simp add: appends_def split: if_splits)
qed (use appends_numbers in \<open>auto simp: bw_field_stop_def T_STOP_def appends_def bw_step_def\<close>)

section \<open>Reading what was written\<close>

lemma le_word_rev: "le_word (rev (le_bytes 2 a)) = bswap16 a" "le_word (rev (le_bytes 4 b)) = bswap32 b"
  "le_word (rev (le_bytes 8 c)) = bswap64 c"
  by (simp_all add: bswap16_def bswap32_def bswap64_def)

lemma br_numbers_put [simp]:
  "br_byte (b # r) = Inr (b, 1, r)" "br_bool (b # r) = Inr (b \<noteq> 0, 1, r)"
  "br_i16 (rev (le_bytes 2 n16) @ r) = Inr (n16, 2, r)" "br_i32 (rev (le_bytes 4 n) @ r) = Inr (n, 4, r)"
  "br_i64 (rev (le_bytes 8 n64) @ r) = Inr (n64, 8, r)" "br_double (rev (le_bytes 8 n64) @ r) = Inr (n64, 8, r)"
  by (simp_all add: br_byte_def br_bool_def br_i16_def br_i32_def br_i64_def br_double_def br_buffer_def le_word_rev)

lemma br_string_put [simp]:
  assumes "length s < 2 ^ 31"
  shows "br_string (rev (le_bytes 4 (word_of_nat (length s) :: uint)) @ s @ r) = Inr (s, 4 + length s, r)"
  using sint_len [OF assms] by (cases "s = []") (simp_all add: br_string_def br_string_body_def br_buffer_def)

lemma ttype_of_small: "t < 128 \<Longrightarrow> ttype_of (word_of_nat t) = t"
proof -
  assume t: "t < 128"
  then have "sint (word_of_nat t :: byte) = int t" using sint_word_of_int_small [of "int t", where 'a = 8] by simp
  then have "(scast (word_of_nat t :: byte) :: uint) = word_of_nat t" by (simp add: scast_eq)
  then show ?thesis unfolding ttype_of_def using t by (simp only: unat_of_nat) simp
qed

lemma version_read:
  assumes "unat ty < 65536"
  shows "sint (BP_VERSION_1 OR ty) < 0" "(BP_VERSION_1 OR ty) AND BP_VERSION_MASK = BP_VERSION_1"
    "(BP_VERSION_1 OR ty) AND 0xFF = ty AND 0xFF"
proof -
  have ty: "take_bit 16 ty = ty"
    using assms by (simp add: word_unat_eq_iff unsigned_take_bit_eq take_bit_nat_eq_self)
  show "(BP_VERSION_1 OR ty) AND 0xFF = ty AND 0xFF"
    by (simp add: BP_VERSION_1_def bit.conj_disj_distrib2)
  have "BP_VERSION_MASK = NOT (mask 16)" by (simp add: BP_VERSION_MASK_def mask_eq_exp_minus_1)
  then have "ty AND BP_VERSION_MASK = take_bit 16 ty AND NOT (mask 16)" by (simp add: ty)
  also have "\<dots> = 0" by (rule bit_word_eqI) (auto simp: bit_simps)
  finally have "ty AND BP_VERSION_MASK = 0" .
  then show "(BP_VERSION_1 OR ty) AND BP_VERSION_MASK = BP_VERSION_1"
    by (simp add: BP_VERSION_1_def BP_VERSION_MASK_def bit.conj_disj_distrib2)
  show "sint (BP_VERSION_1 OR ty) < 0"
    using bit_last_iff [of "BP_VERSION_1 OR ty"] by (simp add: BP_VERSION_1_def bit_simps)
qed

lemma get_call:
  assumes "bp_track c () = Some u"
  shows "br_call c (bp_bytes c @ r) = Inr (bp_norm c, length (bp_bytes c), r)"
proof (cases c)
  case (C_message name ty seqid)
  then have "length name < 2 ^ 31" "unat ty < 65536" using assms by (simp_all split: if_splits)
  then show ?thesis using version_read [of ty]
    by (simp add: C_message br_message_begin_def br_wrap_def)
next
  case (C_field t fid)
  then show ?thesis using assms ttype_of_small [of t] by (simp add: br_field_def br_field_begin_def split: if_splits)
next
  case (C_bool_field fid v)
  then show ?thesis using ttype_of_small [of 2]
    by (simp add: br_field_def br_field_begin_def T_BOOL_def T_STOP_def)
next
  case C_field_stop
  then show ?thesis using ttype_of_small [of 0] by (simp add: br_field_def br_field_begin_def T_STOP_def)
next
  case (C_list t n)
  then show ?thesis using assms ttype_of_small [of t] sint_len [of "unat n"]
    by (simp add: br_list_begin_def br_wrap_def split: if_splits)
next
  case (C_map k v n)
  then show ?thesis using assms ttype_of_small [of k] ttype_of_small [of v] sint_len [of "unat n"]
    by (simp add: br_map_begin_def br_wrap_def split: if_splits)
next
  case (C_binary s)
  then show ?thesis using assms by (simp add: br_wrap_def split: if_splits)
qed (simp_all add: br_wrap_def)

text \<open>The state is the start of the live data, which a writer leaves where it was.\<close>

interpretation binary: wire_protocol "bw_call h" br_call bp_track bb_bytes bb_room "\<lambda>bytes _. bytes"
    "\<lambda>c. length (bp_bytes c)" "\<lambda>_ w _. bw_ok w \<and> bb_data_begin w = b0" bp_norm for h b0
proof unfold_locales
  fix s s' w r c
  assume a: "bw_ok w \<and> bb_data_begin w = b0" "bp_track c s = Some s'" "length (bp_bytes c) \<le> bb_room w"
  then have t: "bp_track c () = Some s'" by simp
  from put_call [OF t, of h] a obtain w' where "bw_call h c w = Some (word_of_nat (length (bp_bytes c)), w')"
    "bw_step w (bp_bytes c) w'" unfolding appends_def by blast
  then show "\<exists>d w' r'. bw_call h c w = Some (word_of_nat (length d), w') \<and> bb_bytes w' = bb_bytes w @ d \<and>
      length d \<le> length (bp_bytes c) \<and> bb_room w' + length d = bb_room w \<and> (bw_ok w' \<and> bb_data_begin w' = b0) \<and>
      (\<forall>rest. br_call c (d @ rest) = Inr (bp_norm c, length d, rest))"
    using get_call [OF t] a by (intro exI [of _ "bp_bytes c"] exI [of _ w']) (simp add: bw_step_def)
qed

text \<open>C27: A writer of the binary protocol appends, for any sequence of calls with room in its buffer, exactly the
  bytes it reports; a reader that makes the same calls on these bytes gets the values written (of the message
  type the low byte) and stops at their end, whatever follows.\<close>

theorem binary_roundtrip:
  assumes "bb_wf buf" "bb_owner buf" "wire_track bp_track cs () = Some s"
    and "sum_list (map (\<lambda>c. length (bp_bytes c)) cs) \<le> bb_room buf"
  shows "\<exists>bytes w. wire_put_all (bw_call h) cs buf = Some (word_of_nat (length bytes), w) \<and>
           bb_bytes w = bb_bytes buf @ bytes \<and>
           (\<forall>rest. wire_get_all br_call cs (bytes @ rest) = Inr (map bp_norm cs, length bytes, rest))"
proof -
  have "bw_ok buf \<and> bb_data_begin buf = bb_data_begin buf" using assms(1,2) by (simp add: bw_ok_def)
  from binary.put_get_all [where h = h, OF this assms(3,4)] show ?thesis by blast
qed

theorem binary_roundtrip_witness:
  "\<exists>bytes w. wire_put_all (bw_call \<lparr>heap_ok = \<lambda>_. True, heap_junk = \<lambda>_. 0\<rparr>) demo_compact
        (bb_new_size \<lparr>heap_ok = \<lambda>_. True, heap_junk = \<lambda>_. 0\<rparr> 64) = Some (word_of_nat (length bytes), w) \<and>
     bb_bytes w = bb_bytes (bb_new_size \<lparr>heap_ok = \<lambda>_. True, heap_junk = \<lambda>_. 0\<rparr> 64) @ bytes \<and>
     (\<forall>rest. wire_get_all br_call demo_compact (bytes @ rest) = Inr (map bp_norm demo_compact, length bytes, rest))"
  by (rule binary_roundtrip)
     (simp_all add: demo_compact_def bb_new_size_def sl_malloc_def bb_room_def T_STOP_def T_BOOL_def bb_wf_def)

section \<open>Any input\<close>

text \<open>
  \<open>reads P r res\<close>: the call whose result is \<open>res\<close> threw an exception of the protocol, or found a value with \<open>P\<close>
  and consumed as many bytes of \<open>r\<close> as it reports.
\<close>

definition reads :: "('a \<Rightarrow> bool) \<Rightarrow> byte list \<Rightarrow> 'a br_result \<Rightarrow> bool" where
  "reads P r res \<longleftrightarrow>
     (case res of
        Inl e \<Rightarrow> e \<in> {BAD_VERSION, NEGATIVE_SIZE, INVALID_DATA}
      | Inr (a, n, r') \<Rightarrow> P a \<and> n \<le> length r \<and> r' = drop n r)"

lemma reads_simps [simp]:
  "reads P r (Inl e) \<longleftrightarrow> e \<in> {BAD_VERSION, NEGATIVE_SIZE, INVALID_DATA}"
  "reads P r (Inr (a, n, r')) \<longleftrightarrow> P a \<and> n \<le> length r \<and> r' = drop n r"
  by (simp_all add: reads_def)

lemma reads_bind:
  assumes "reads P (drop n r) m" "n \<le> length r"
    and "\<And>a k. P a \<Longrightarrow> n + k \<le> length r \<Longrightarrow> reads Q r (f (a, k, drop (n + k) r))"
  shows "reads Q r (ebind m f)"
  using assms(1,2) assms(3) by (cases m) (auto simp: reads_def add.commute)

lemmas reads_first = reads_bind [where n = 0, simplified]

lemma reads_mono: "reads P r m \<Longrightarrow> (\<And>a. P a \<Longrightarrow> Q a) \<Longrightarrow> reads Q r m"
  by (auto simp: reads_def split: sum.splits)

lemma reads_numbers:
  "reads (\<lambda>_. True) r (br_byte r)" "reads (\<lambda>_. True) r (br_bool r)" "reads (\<lambda>_. True) r (br_i16 r)"
  "reads (\<lambda>_. True) r (br_i32 r)" "reads (\<lambda>_. True) r (br_i64 r)" "reads (\<lambda>_. True) r (br_double r)"
  by (simp_all add: br_byte_def br_bool_def br_i16_def br_i32_def br_i64_def br_double_def br_buffer_def)

lemma reads_string_body: "reads (\<lambda>s. length s < 2 ^ 31) r (br_string_body sz r)"
proof -
  have "sint sz < 2 ^ 31" using sint_lt [of sz] by simp
  then show ?thesis by (auto simp: br_string_body_def br_buffer_def)
qed

lemma reads_string: "reads (\<lambda>s. length s < 2 ^ 31) r (br_string r)"
  unfolding br_string_def
  by (rule reads_first [OF reads_numbers(4)], unfold prod.case, rule reads_bind [OF reads_string_body]) simp_all

lemma sint_nonneg: "0 \<le> sint n \<longleftrightarrow> unat (n :: uint) < 2 ^ 31"
proof
  assume "0 \<le> sint n"
  then have "uint n = sint n" using sint_lt [of n] by (simp add: uint_sint take_bit_int_eq_self)
  then show "unat n < 2 ^ 31" using sint_lt [of n] by (simp add: unat_eq_nat_uint nat_less_iff)
qed (simp add: sint_unat_small)

text \<open>The values a call of each kind can find.\<close>

fun bp_kind :: "cp_call \<Rightarrow> nat" where
  "bp_kind (C_message _ _ _) = 0"
| "bp_kind C_struct_begin = 1"
| "bp_kind C_struct_end = 2"
| "bp_kind (C_field _ _) = 3"
| "bp_kind (C_bool_field _ _) = 3"
| "bp_kind C_field_stop = 3"
| "bp_kind (C_list _ _) = 4"
| "bp_kind (C_map _ _ _) = 5"
| "bp_kind (C_bool _) = 6"
| "bp_kind (C_byte _) = 7"
| "bp_kind (C_i16 _) = 8"
| "bp_kind (C_i32 _) = 9"
| "bp_kind (C_i64 _) = 10"
| "bp_kind (C_double _) = 11"
| "bp_kind (C_binary _) = 12"

fun bp_valid :: "cp_call \<Rightarrow> bool" where
  "bp_valid (C_message name ty seqid) \<longleftrightarrow> length name < 2 ^ 31"
| "bp_valid (C_field t _) \<longleftrightarrow> t \<noteq> T_STOP \<and> t \<noteq> T_BOOL"
| "bp_valid (C_list t n) \<longleftrightarrow> unat n < 2 ^ 31"
| "bp_valid (C_map k v n) \<longleftrightarrow> unat n < 2 ^ 31"
| "bp_valid (C_binary s) \<longleftrightarrow> length s < 2 ^ 31"
| "bp_valid _ \<longleftrightarrow> True"

definition bp_answer :: "cp_call \<Rightarrow> cp_call \<Rightarrow> bool" where
  "bp_answer c c' \<longleftrightarrow> bp_kind c' = bp_kind c \<and> bp_valid c'"

lemma reads_wrap: "reads P r m \<Longrightarrow> (\<And>a. P a \<Longrightarrow> Q (f a)) \<Longrightarrow> reads Q r (br_wrap f m)"
  unfolding br_wrap_def by (rule reads_first [where P = P]) auto

lemma reads_message: "reads (\<lambda>(name, _, _). length name < 2 ^ 31) r (br_message_begin r)"
proof -
  have old: "reads (\<lambda>(name, _, _). length name < 2 ^ 31) r
      (ebind (br_string_body sz (drop n r)) (\<lambda>(name, n2, r). ebind (br_byte r) (\<lambda>(type, n3, r).
         ebind (br_i32 r) (\<lambda>(seqid, n4, r). Inr ((name, scast type, seqid), n + n2 + n3 + n4, r)))))"
    if "n \<le> length r" for n sz
    by (rule reads_bind [OF reads_string_body that], unfold prod.case, rule reads_bind [OF reads_numbers(1)], assumption,
        unfold prod.case, rule reads_bind [OF reads_numbers(4)], assumption) (simp add: add.assoc)
  have new: "reads (\<lambda>(name, _, _). length name < 2 ^ 31) r
      (ebind (br_string (drop n r)) (\<lambda>(name, n2, r). ebind (br_i32 r) (\<lambda>(seqid, n3, r). Inr ((name, ty, seqid), n + n2 + n3, r))))"
    if "n \<le> length r" for n ty
    by (rule reads_bind [OF reads_string that], unfold prod.case, rule reads_bind [OF reads_numbers(4)], assumption) simp
  show ?thesis unfolding br_message_begin_def
    by (rule reads_first [OF reads_numbers(4)]) (use old new in auto)
qed

lemma reads_field: "reads (bp_answer (C_field 0 0)) r (br_field r)"
proof -
  have b: "reads (\<lambda>_. True) r (br_field_begin r)"
    unfolding br_field_begin_def
    by (rule reads_first [OF reads_numbers(1)], unfold prod.case if_split, intro conjI impI)
       (simp, rule reads_bind [OF reads_numbers(3)], assumption, simp)
  have "reads (bp_answer (C_field 0 0)) r (ebind (br_bool (drop n r)) (\<lambda>(v, n2, r). Inr (C_bool_field fid v, n + n2, r)))"
    if "n \<le> length r" for n fid
    by (rule reads_bind [OF reads_numbers(2) that]) (simp add: bp_answer_def)
  then show ?thesis unfolding br_field_def
    by (intro reads_first [OF b]) (auto simp: bp_answer_def)
qed

lemma reads_list: "reads (\<lambda>(_, n). unat n < 2 ^ 31) r (br_list_begin r)"
  unfolding br_list_begin_def
  by (rule reads_first [OF reads_numbers(1)], unfold prod.case, rule reads_bind [OF reads_numbers(4)], assumption)
     (simp add: sint_nonneg)

lemma reads_map: "reads (\<lambda>(_, _, n). unat n < 2 ^ 31) r (br_map_begin r)"
  unfolding br_map_begin_def
  by (rule reads_first [OF reads_numbers(1)], unfold prod.case, rule reads_bind [OF reads_numbers(1)], assumption,
      unfold prod.case, rule reads_bind [OF reads_numbers(4)], assumption) (simp add: sint_nonneg add.assoc)

lemma reads_call: "reads (bp_answer c) r (br_call c r)"
proof (cases c)
  case (C_field t fid)
  then show ?thesis using reads_field [of r] by (simp add: bp_answer_def [abs_def])
next
  case (C_bool_field fid v)
  then show ?thesis using reads_field [of r] by (simp add: bp_answer_def [abs_def])
next
  case C_field_stop
  then show ?thesis using reads_field [of r] by (simp add: bp_answer_def [abs_def])
qed (auto intro!: reads_wrap reads_message reads_list reads_map reads_string reads_numbers [THEN reads_mono] simp: bp_answer_def)

lemma reads_all: "reads (list_all2 bp_answer cs) r (wire_get_all br_call cs r)"
proof (induction cs arbitrary: r)
  case (Cons c cs)
  show ?case unfolding wire_get_all.simps
    by (rule reads_first [OF reads_call], unfold prod.case, rule reads_bind [OF Cons.IH], assumption) simp
qed simp

text \<open>C28: The reader of the binary protocol on any bytes whatever, a hostile peer's included: every sequence of
  calls either throws one of the three exceptions of the protocol or gives each call a value of the kind it asked
  for, with sizes and lengths that fit an \<^verbatim>\<open>int\<close>, and stays inside the block: it consumes the bytes it
  reports and no others.\<close>

theorem binary_reader_typed:
  "case wire_get_all br_call cs bytes of
     Inl e \<Rightarrow> e = BAD_VERSION \<or> e = NEGATIVE_SIZE \<or> e = INVALID_DATA
   | Inr (cs', n, rest) \<Rightarrow> list_all2 bp_answer cs cs' \<and> n \<le> length bytes \<and> rest = drop n bytes"
  using reads_all [of cs bytes] by (auto simp: reads_def split: sum.splits)

end
