(* ===== verification/SL_RpcHead.thy ===== *)
theory SL_RpcHead
  imports SL_SocketSource
begin

text \<open>
  The four message heads of \<^verbatim>\<open>include/SL_Rpc_Message.h\<close> in memory, and the interface that
  \<^verbatim>\<open>SL_Rpc_MessageParser\<close> and \<^verbatim>\<open>SL_Rpc_Message\<close> use of a head, their template parameter \<^verbatim>\<open>THead\<close>.
  Signed members are kept as their bit patterns.
\<close>

section \<open>What every head has\<close>

record (overloaded) ('l, 'f, 'd) head_fields =
  hd_length :: "'l::len word"
  hd_flag :: "'f::len word"
  hd_source :: "'d::len word"
  hd_destination :: "'d::len word"

text \<open>A member of a structure in memory: \<open>n\<close> bytes at an offset.\<close>

definition mem_field :: "nat \<Rightarrow> nat \<Rightarrow> byte list \<Rightarrow> 'a::len word" where
  "mem_field off n d = le_word (take n (drop off d))"

text \<open>The head's static functions; \<open>hc_load\<close> and \<open>hc_bytes\<close> are its layout.\<close>

record (overloaded) ('l, 'f, 'd, 'z) head_class =
  hc_size :: nat
  hc_load :: "byte list \<Rightarrow> ('l::len, 'f::len, 'd::len, 'z) head_fields_scheme option"
  hc_bytes :: "('l, 'f, 'd, 'z) head_fields_scheme \<Rightarrow> byte list"
  hc_parse :: "int \<Rightarrow> ('l, 'f, 'd, 'z) head_fields_scheme \<Rightarrow> ('l, 'f, 'd, 'z) head_fields_scheme"
  hc_serialize :: "('l, 'f, 'd, 'z) head_fields_scheme \<Rightarrow> ('l, 'f, 'd, 'z) head_fields_scheme"
  hc_serialize_index :: "int \<Rightarrow> ('l, 'f, 'd, 'z) head_fields_scheme \<Rightarrow> ('l, 'f, 'd, 'z) head_fields_scheme"
  hc_split :: "('l, 'f, 'd, 'z) head_fields_scheme \<Rightarrow> int \<times> ('l, 'f, 'd, 'z) head_fields_scheme"
  hc_default_type :: "uint \<Rightarrow> ('l, 'f, 'd, 'z) head_fields_scheme \<Rightarrow> ('l, 'f, 'd, 'z) head_fields_scheme"
  hc_parse_destination :: "'d word \<Rightarrow> 'd word"
  hc_serialize_destination :: "'d word \<Rightarrow> 'd word"

section \<open>\<open>SL_Rpc_MessageHead\<close>\<close>

record msg_head = "(32, 16, 32) head_fields" +
  rh_type :: uint16
  rh_sequence :: uint
  rh_attach_id :: uint

definition rh_load :: "byte list \<Rightarrow> msg_head option" where
  "rh_load m = do {
     d \<leftarrow> mem_get m 0 24;
     Some \<lparr>hd_length = mem_field 0 4 d, hd_flag = mem_field 4 2 d, hd_source = mem_field 8 4 d,
       hd_destination = mem_field 12 4 d, rh_type = mem_field 6 2 d, rh_sequence = mem_field 16 4 d,
       rh_attach_id = mem_field 20 4 d\<rparr> }"

definition rh_bytes :: "msg_head \<Rightarrow> byte list" where
  "rh_bytes h = le_bytes 4 (hd_length h) @ le_bytes 2 (hd_flag h) @ le_bytes 2 (rh_type h) @ le_bytes 4 (hd_source h) @
     le_bytes 4 (hd_destination h) @ le_bytes 4 (rh_sequence h) @ le_bytes 4 (rh_attach_id h)"

definition rh_parse :: "int \<Rightarrow> msg_head \<Rightarrow> msg_head" where
  "rh_parse len h = h\<lparr>hd_length := word_of_int len, hd_flag := ntohs (hd_flag h), rh_type := ntohs (rh_type h),
     hd_source := ntohl (hd_source h), hd_destination := ntohl (hd_destination h),
     rh_sequence := ntohl (rh_sequence h), rh_attach_id := ntohl (rh_attach_id h)\<rparr>"

definition rh_serialize :: "msg_head \<Rightarrow> msg_head" where
  "rh_serialize h = h\<lparr>hd_length := htonl (hd_length h), hd_flag := htons (hd_flag h), rh_type := htons (rh_type h),
     hd_source := htonl (hd_source h), hd_destination := htonl (hd_destination h),
     rh_sequence := htonl (rh_sequence h), rh_attach_id := htonl (rh_attach_id h)\<rparr>"

definition rh_serialize_index :: "int \<Rightarrow> msg_head \<Rightarrow> msg_head" where
  "rh_serialize_index destination_index h =
     h\<lparr>hd_length := htonl (hd_length h), hd_flag := htons (hd_flag h), rh_type := htons (rh_type h),
       hd_source := htonl (hd_source h),
       hd_destination := htonl (push_bit 16 (word_of_int destination_index) OR hd_destination h),
       rh_sequence := htonl (rh_sequence h), rh_attach_id := htonl (rh_attach_id h)\<rparr>"

definition rh_split :: "msg_head \<Rightarrow> int \<times> msg_head" where
  "rh_split h = (sint (drop_bit 16 (hd_destination h)), h\<lparr>hd_destination := hd_destination h AND 0xffff\<rparr>)"

definition rh_default_type :: "uint \<Rightarrow> msg_head \<Rightarrow> msg_head" where
  "rh_default_type t h = (if rh_type h = 0 then h\<lparr>rh_type := ucast t\<rparr> else h)"

definition SL_Rpc_MessageHead :: "(32, 16, 32, \<lparr>rh_type :: uint16, rh_sequence :: uint, rh_attach_id :: uint\<rparr>) head_class" where
  "SL_Rpc_MessageHead = \<lparr>hc_size = 24, hc_load = rh_load, hc_bytes = rh_bytes, hc_parse = rh_parse,
     hc_serialize = rh_serialize, hc_serialize_index = rh_serialize_index, hc_split = rh_split, hc_default_type = rh_default_type,
     hc_parse_destination = ntohl, hc_serialize_destination = htonl\<rparr>"

section \<open>\<open>SL_Rpc_MessageHeadEx\<close>\<close>

record msg_head_ex = "(32, 16, 32) head_fields" +
  rx_type :: uint16
  rx_sequence :: uint
  rx_checksum :: uint
  rx_attach_id1 :: uint
  rx_attach_id2 :: uint
  rx_attach_id3 :: uint
  rx_attach_id4 :: uint

definition rx_load :: "byte list \<Rightarrow> msg_head_ex option" where
  "rx_load m = do {
     d \<leftarrow> mem_get m 0 40;
     Some \<lparr>hd_length = mem_field 0 4 d, hd_flag = mem_field 4 2 d, hd_source = mem_field 8 4 d,
       hd_destination = mem_field 12 4 d, rx_type = mem_field 6 2 d, rx_sequence = mem_field 16 4 d,
       rx_checksum = mem_field 20 4 d, rx_attach_id1 = mem_field 24 4 d, rx_attach_id2 = mem_field 28 4 d,
       rx_attach_id3 = mem_field 32 4 d, rx_attach_id4 = mem_field 36 4 d\<rparr> }"

definition rx_bytes :: "msg_head_ex \<Rightarrow> byte list" where
  "rx_bytes h = le_bytes 4 (hd_length h) @ le_bytes 2 (hd_flag h) @ le_bytes 2 (rx_type h) @ le_bytes 4 (hd_source h) @
     le_bytes 4 (hd_destination h) @ le_bytes 4 (rx_sequence h) @ le_bytes 4 (rx_checksum h) @
     le_bytes 4 (rx_attach_id1 h) @ le_bytes 4 (rx_attach_id2 h) @ le_bytes 4 (rx_attach_id3 h) @ le_bytes 4 (rx_attach_id4 h)"

definition rx_parse :: "int \<Rightarrow> msg_head_ex \<Rightarrow> msg_head_ex" where
  "rx_parse len h = h\<lparr>hd_length := word_of_int len, hd_flag := ntohs (hd_flag h), rx_type := ntohs (rx_type h),
     hd_source := ntohl (hd_source h), hd_destination := ntohl (hd_destination h),
     rx_sequence := ntohl (rx_sequence h), rx_checksum := ntohl (rx_checksum h),
     rx_attach_id1 := ntohl (rx_attach_id1 h), rx_attach_id2 := ntohl (rx_attach_id2 h),
     rx_attach_id3 := ntohl (rx_attach_id3 h), rx_attach_id4 := ntohl (rx_attach_id4 h)\<rparr>"

definition rx_serialize :: "msg_head_ex \<Rightarrow> msg_head_ex" where
  "rx_serialize h = h\<lparr>hd_length := htonl (hd_length h), hd_flag := htons (hd_flag h), rx_type := htons (rx_type h),
     hd_source := htonl (hd_source h), hd_destination := htonl (hd_destination h),
     rx_sequence := htonl (rx_sequence h), rx_checksum := htonl (rx_checksum h),
     rx_attach_id1 := htonl (rx_attach_id1 h), rx_attach_id2 := htonl (rx_attach_id2 h),
     rx_attach_id3 := htonl (rx_attach_id3 h), rx_attach_id4 := htonl (rx_attach_id4 h)\<rparr>"

definition rx_serialize_index :: "int \<Rightarrow> msg_head_ex \<Rightarrow> msg_head_ex" where
  "rx_serialize_index destination_index h =
     h\<lparr>hd_length := htonl (hd_length h), hd_flag := htons (hd_flag h), rx_type := htons (rx_type h),
       hd_source := htonl (hd_source h),
       hd_destination := htonl (push_bit 16 (word_of_int destination_index) OR hd_destination h),
       rx_sequence := htonl (rx_sequence h), rx_checksum := htonl (rx_checksum h),
       rx_attach_id1 := htonl (rx_attach_id1 h), rx_attach_id2 := htonl (rx_attach_id2 h),
       rx_attach_id3 := htonl (rx_attach_id3 h), rx_attach_id4 := htonl (rx_attach_id4 h)\<rparr>"

definition rx_split :: "msg_head_ex \<Rightarrow> int \<times> msg_head_ex" where
  "rx_split h = (sint (drop_bit 16 (hd_destination h)), h\<lparr>hd_destination := hd_destination h AND 0xffff\<rparr>)"

definition rx_default_type :: "uint \<Rightarrow> msg_head_ex \<Rightarrow> msg_head_ex" where
  "rx_default_type t h = (if rx_type h = 0 then h\<lparr>rx_type := ucast t\<rparr> else h)"

definition SL_Rpc_MessageHeadEx ::
  "(32, 16, 32, \<lparr>rx_type :: uint16, rx_sequence :: uint, rx_checksum :: uint, rx_attach_id1 :: uint,
     rx_attach_id2 :: uint, rx_attach_id3 :: uint, rx_attach_id4 :: uint\<rparr>) head_class"
where
  "SL_Rpc_MessageHeadEx = \<lparr>hc_size = 40, hc_load = rx_load, hc_bytes = rx_bytes, hc_parse = rx_parse,
     hc_serialize = rx_serialize, hc_serialize_index = rx_serialize_index, hc_split = rx_split, hc_default_type = rx_default_type,
     hc_parse_destination = ntohl, hc_serialize_destination = htonl\<rparr>"

text \<open>\<^verbatim>\<open>util_htonll\<close> and \<^verbatim>\<open>util_ntohll\<close> of \<^verbatim>\<open>SL_Socket_CommonAPI.h\<close>, on a little-endian host.\<close>

definition util_htonll :: "uint64 \<Rightarrow> uint64" where
  "util_htonll host_int64 = bswap64 host_int64"

definition util_ntohll :: "uint64 \<Rightarrow> uint64" where
  "util_ntohll net_int64 = bswap64 net_int64"

section \<open>\<open>SL_Rpc_MessageHeadEx2\<close>\<close>

record msg_head_ex2 = "(32, 32, 64) head_fields" +
  ry_type :: uint
  ry_checksum :: uint
  ry_sequence :: uint64
  ry_attach_id1 :: uint64
  ry_attach_id2 :: uint64
  ry_attach_id3 :: uint
  ry_attach_id4 :: uint

definition ry_load :: "byte list \<Rightarrow> msg_head_ex2 option" where
  "ry_load m = do {
     d \<leftarrow> mem_get m 0 64;
     Some \<lparr>hd_length = mem_field 0 4 d, hd_flag = mem_field 4 4 d, hd_source = mem_field 16 8 d,
       hd_destination = mem_field 24 8 d, ry_type = mem_field 8 4 d, ry_checksum = mem_field 12 4 d,
       ry_sequence = mem_field 32 8 d, ry_attach_id1 = mem_field 40 8 d, ry_attach_id2 = mem_field 48 8 d,
       ry_attach_id3 = mem_field 56 4 d, ry_attach_id4 = mem_field 60 4 d\<rparr> }"

definition ry_bytes :: "msg_head_ex2 \<Rightarrow> byte list" where
  "ry_bytes h = le_bytes 4 (hd_length h) @ le_bytes 4 (hd_flag h) @ le_bytes 4 (ry_type h) @
     le_bytes 4 (ry_checksum h) @ le_bytes 8 (hd_source h) @ le_bytes 8 (hd_destination h) @
     le_bytes 8 (ry_sequence h) @ le_bytes 8 (ry_attach_id1 h) @ le_bytes 8 (ry_attach_id2 h) @
     le_bytes 4 (ry_attach_id3 h) @ le_bytes 4 (ry_attach_id4 h)"

definition ry_parse :: "int \<Rightarrow> msg_head_ex2 \<Rightarrow> msg_head_ex2" where
  "ry_parse len h = h\<lparr>hd_length := word_of_int len, hd_flag := ntohl (hd_flag h), ry_type := ntohl (ry_type h),
     ry_checksum := ntohl (ry_checksum h), hd_source := util_ntohll (hd_source h),
     hd_destination := util_ntohll (hd_destination h), ry_sequence := util_ntohll (ry_sequence h),
     ry_attach_id1 := util_ntohll (ry_attach_id1 h), ry_attach_id2 := util_ntohll (ry_attach_id2 h),
     ry_attach_id3 := ntohl (ry_attach_id3 h), ry_attach_id4 := ntohl (ry_attach_id4 h)\<rparr>"

definition ry_serialize :: "msg_head_ex2 \<Rightarrow> msg_head_ex2" where
  "ry_serialize h = h\<lparr>hd_length := htonl (hd_length h), hd_flag := htonl (hd_flag h), ry_type := htonl (ry_type h),
     ry_checksum := htonl (ry_checksum h), hd_source := util_htonll (hd_source h),
     hd_destination := util_htonll (hd_destination h), ry_sequence := util_htonll (ry_sequence h),
     ry_attach_id1 := util_htonll (ry_attach_id1 h), ry_attach_id2 := util_htonll (ry_attach_id2 h),
     ry_attach_id3 := htonl (ry_attach_id3 h), ry_attach_id4 := htonl (ry_attach_id4 h)\<rparr>"

definition ry_serialize_index :: "int \<Rightarrow> msg_head_ex2 \<Rightarrow> msg_head_ex2" where
  "ry_serialize_index destination_index h =
     h\<lparr>hd_length := htonl (hd_length h), hd_flag := htonl (hd_flag h), ry_type := htonl (ry_type h),
       ry_checksum := htonl (ry_checksum h), hd_source := util_htonll (hd_source h),
       hd_destination := util_htonll (push_bit 32 (word_of_int destination_index) OR hd_destination h),
       ry_sequence := util_htonll (ry_sequence h), ry_attach_id1 := util_htonll (ry_attach_id1 h),
       ry_attach_id2 := util_htonll (ry_attach_id2 h), ry_attach_id3 := htonl (ry_attach_id3 h),
       ry_attach_id4 := htonl (ry_attach_id4 h)\<rparr>"

definition ry_split :: "msg_head_ex2 \<Rightarrow> int \<times> msg_head_ex2" where
  "ry_split h = (sint (ucast (drop_bit 32 (hd_destination h)) :: uint),
     h\<lparr>hd_destination := hd_destination h AND 0xffffffff\<rparr>)"

definition ry_default_type :: "uint \<Rightarrow> msg_head_ex2 \<Rightarrow> msg_head_ex2" where
  "ry_default_type t h = (if ry_type h = 0 then h\<lparr>ry_type := t\<rparr> else h)"

definition SL_Rpc_MessageHeadEx2 ::
  "(32, 32, 64, \<lparr>ry_type :: uint, ry_checksum :: uint, ry_sequence :: uint64, ry_attach_id1 :: uint64,
     ry_attach_id2 :: uint64, ry_attach_id3 :: uint, ry_attach_id4 :: uint\<rparr>) head_class"
where
  "SL_Rpc_MessageHeadEx2 = \<lparr>hc_size = 64, hc_load = ry_load, hc_bytes = ry_bytes, hc_parse = ry_parse,
     hc_serialize = ry_serialize, hc_serialize_index = ry_serialize_index, hc_split = ry_split, hc_default_type = ry_default_type,
     hc_parse_destination = util_ntohll, hc_serialize_destination = util_htonll\<rparr>"

section \<open>\<open>SL_Rpc_MessageHeadEx3\<close>\<close>

record msg_head_ex3 = "(16, 16, 64) head_fields" +
  rz_type :: uint16
  rz_reserved :: uint16
  rz_sequence :: uint
  rz_attach_id1 :: uint
  rz_attach_id2 :: uint64

definition rz_load :: "byte list \<Rightarrow> msg_head_ex3 option" where
  "rz_load m = do {
     d \<leftarrow> mem_get m 0 40;
     Some \<lparr>hd_length = mem_field 0 2 d, hd_flag = mem_field 2 2 d, hd_source = mem_field 8 8 d,
       hd_destination = mem_field 16 8 d, rz_type = mem_field 4 2 d, rz_reserved = mem_field 6 2 d,
       rz_sequence = mem_field 24 4 d, rz_attach_id1 = mem_field 28 4 d, rz_attach_id2 = mem_field 32 8 d\<rparr> }"

definition rz_bytes :: "msg_head_ex3 \<Rightarrow> byte list" where
  "rz_bytes h = le_bytes 2 (hd_length h) @ le_bytes 2 (hd_flag h) @ le_bytes 2 (rz_type h) @
     le_bytes 2 (rz_reserved h) @ le_bytes 8 (hd_source h) @ le_bytes 8 (hd_destination h) @
     le_bytes 4 (rz_sequence h) @ le_bytes 4 (rz_attach_id1 h) @ le_bytes 8 (rz_attach_id2 h)"

definition rz_parse :: "int \<Rightarrow> msg_head_ex3 \<Rightarrow> msg_head_ex3" where
  "rz_parse len h = h\<lparr>hd_length := word_of_int len, hd_flag := ntohs (hd_flag h), rz_type := ntohs (rz_type h),
     rz_reserved := ntohs (rz_reserved h), hd_source := util_ntohll (hd_source h),
     hd_destination := util_ntohll (hd_destination h), rz_sequence := ntohl (rz_sequence h),
     rz_attach_id1 := ntohl (rz_attach_id1 h), rz_attach_id2 := util_ntohll (rz_attach_id2 h)\<rparr>"

definition rz_serialize :: "msg_head_ex3 \<Rightarrow> msg_head_ex3" where
  "rz_serialize h = h\<lparr>hd_length := htons (hd_length h), hd_flag := htons (hd_flag h), rz_type := htons (rz_type h),
     rz_reserved := htons (rz_reserved h), hd_source := util_htonll (hd_source h),
     hd_destination := util_htonll (hd_destination h), rz_sequence := htonl (rz_sequence h),
     rz_attach_id1 := htonl (rz_attach_id1 h), rz_attach_id2 := util_htonll (rz_attach_id2 h)\<rparr>"

definition rz_serialize_index :: "int \<Rightarrow> msg_head_ex3 \<Rightarrow> msg_head_ex3" where
  "rz_serialize_index destination_index h =
     h\<lparr>hd_length := htons (hd_length h), hd_flag := htons (hd_flag h), rz_type := htons (rz_type h),
       rz_reserved := htons (rz_reserved h), hd_source := util_htonll (hd_source h),
       hd_destination := util_htonll (push_bit 32 (word_of_int destination_index) OR hd_destination h),
       rz_sequence := htonl (rz_sequence h), rz_attach_id1 := htonl (rz_attach_id1 h),
       rz_attach_id2 := util_htonll (rz_attach_id2 h)\<rparr>"

definition rz_split :: "msg_head_ex3 \<Rightarrow> int \<times> msg_head_ex3" where
  "rz_split h = (sint (ucast (drop_bit 32 (hd_destination h)) :: uint),
     h\<lparr>hd_destination := hd_destination h AND 0xffffffff\<rparr>)"

definition rz_default_type :: "uint \<Rightarrow> msg_head_ex3 \<Rightarrow> msg_head_ex3" where
  "rz_default_type t h = (if rz_type h = 0 then h\<lparr>rz_type := ucast t\<rparr> else h)"

definition SL_Rpc_MessageHeadEx3 ::
  "(16, 16, 64, \<lparr>rz_type :: uint16, rz_reserved :: uint16, rz_sequence :: uint, rz_attach_id1 :: uint,
     rz_attach_id2 :: uint64\<rparr>) head_class"
where
  "SL_Rpc_MessageHeadEx3 = \<lparr>hc_size = 40, hc_load = rz_load, hc_bytes = rz_bytes, hc_parse = rz_parse,
     hc_serialize = rz_serialize, hc_serialize_index = rz_serialize_index, hc_split = rz_split, hc_default_type = rz_default_type,
     hc_parse_destination = util_ntohll, hc_serialize_destination = util_htonll\<rparr>"

section \<open>The contract of a head\<close>

text \<open>
  \<open>half\<close> is the number of bits of the destination that hold an offset when the rest holds an index.
\<close>

locale rpc_head =
  fixes C :: "('l::len, 'f::len, 'd::len, 'z) head_class"
    and half :: nat
  assumes widths: "LENGTH('l) \<le> LENGTH('d)" "LENGTH('d) \<le> 64" "LENGTH('l) \<le> 32" "16 \<le> LENGTH('f)"
    and length_bytes: "length (hc_bytes C h) = hc_size C"
    and load_bytes: "hc_load C (hc_bytes C h @ r) = Some h"
    and parse_serialize: "hc_parse C len (hc_serialize C h) = h\<lparr>hd_length := word_of_int len\<rparr>"
    and serialize_index: "hc_serialize_index C i h =
      hc_serialize C (h\<lparr>hd_destination := push_bit half (word_of_int i) OR hd_destination h\<rparr>)"
    and split_index: "unat d < 2 ^ half \<Longrightarrow> k < 2 ^ 15 \<Longrightarrow>
      hc_split C (h\<lparr>hd_destination := push_bit half (word_of_int (int k)) OR d\<rparr>) = (int k, h\<lparr>hd_destination := d\<rparr>)"
    and default_type: "hd_flag (hc_default_type C t h) = hd_flag h"
    and destination: "hc_parse_destination C (hc_serialize_destination C d) = d"

lemma unat_lt_take_bit: "unat d < 2 ^ n \<Longrightarrow> take_bit n d = (d :: 'a::len word)"
  by (simp add: word_unat_eq_iff unsigned_take_bit_eq take_bit_nat_eq_self)

lemma index_low:
  assumes "unat d < 2 ^ n"
  shows "take_bit n (push_bit n e OR d) = (d :: 'a::len word)" "drop_bit n (push_bit n e OR d) = drop_bit n (push_bit n e)"
proof -
  show "take_bit n (push_bit n e OR d) = d" using unat_lt_take_bit [OF assms] by (simp add: take_bit_or take_bit_push_bit)
  have "drop_bit n d = drop_bit n (take_bit n d)" using unat_lt_take_bit [OF assms] by simp
  then show "drop_bit n (push_bit n e OR d) = drop_bit n (push_bit n e)" by (simp add: drop_bit_or drop_bit_take_bit)
qed

lemma index_high:
  assumes "i < 2 ^ 15" "n + 15 < LENGTH('a)"
  shows "drop_bit n (push_bit n (word_of_int (int i)) :: 'a::len word) = word_of_nat i"
proof -
  have i: "take_bit 15 (word_of_nat i :: 'a word) = word_of_nat i"
  proof (rule unat_lt_take_bit)
    have "unat (word_of_nat i :: 'a word) \<le> i" by (simp add: unat_of_nat)
    then show "unat (word_of_nat i :: 'a word) < 2 ^ 15" using assms(1) by linarith
  qed
  have "drop_bit n (push_bit n (take_bit 15 (word_of_nat i :: 'a word))) = take_bit 15 (word_of_nat i)"
    using assms(2) by (intro bit_word_eqI) (auto simp: bit_simps)
  then show ?thesis using i by simp
qed

lemma split_narrow:
  assumes "unat d < 2 ^ 16" "i < 2 ^ 15"
  shows "sint (drop_bit 16 (push_bit 16 (word_of_int (int i)) OR d)) = int i"
    "(push_bit 16 (word_of_int (int i)) OR d) AND 0xffff = (d :: uint)"
  using index_low [OF assms(1), of "word_of_int (int i)"] index_high [OF assms(2), of 16, where 'a = 32] assms(2)
  by (simp_all add: take_bit_eq_mask mask_eq_exp_minus_1 sint_word_of_int_small [of "int i", simplified])

lemma split_wide:
  assumes "unat d < 2 ^ 32" "i < 2 ^ 15"
  shows "sint (ucast (drop_bit 32 (push_bit 32 (word_of_int (int i)) OR d)) :: uint) = int i"
    "(push_bit 32 (word_of_int (int i)) OR d) AND 0xffffffff = (d :: uint64)"
proof -
  have "(ucast (word_of_nat i :: uint64) :: uint) = word_of_nat i"
    using assms(2) by (simp add: word_unat_eq_iff unsigned_ucast_eq unat_of_nat take_bit_nat_eq_self)
  then show "sint (ucast (drop_bit 32 (push_bit 32 (word_of_int (int i)) OR d)) :: uint) = int i"
    using index_low(2) [OF assms(1), of "word_of_int (int i)"] index_high [OF assms(2), of 32, where 'a = 64] assms(2)
    by (simp add: sint_word_of_int_small [of "int i", simplified])
  show "(push_bit 32 (word_of_int (int i)) OR d) AND 0xffffffff = d"
    using index_low(1) [OF assms(1), of "word_of_int (int i)"] by (simp add: take_bit_eq_mask mask_eq_exp_minus_1)
qed

lemma split_set:
  "rh_split (h\<lparr>hd_destination := x\<rparr>) = (sint (drop_bit 16 x), h\<lparr>hd_destination := x AND 0xffff\<rparr>)"
  "rx_split (h'\<lparr>hd_destination := x\<rparr>) = (sint (drop_bit 16 x), h'\<lparr>hd_destination := x AND 0xffff\<rparr>)"
  "ry_split (h''\<lparr>hd_destination := y\<rparr>) = (sint (ucast (drop_bit 32 y) :: uint), h''\<lparr>hd_destination := y AND 0xffffffff\<rparr>)"
  "rz_split (k\<lparr>hd_destination := y\<rparr>) = (sint (ucast (drop_bit 32 y) :: uint), k\<lparr>hd_destination := y AND 0xffffffff\<rparr>)"
  by (simp_all add: rh_split_def rx_split_def ry_split_def rz_split_def)

lemma split_heads:
  assumes "i < 2 ^ 15"
  shows "unat d < 2 ^ 16 \<Longrightarrow> rh_split (h\<lparr>hd_destination := push_bit 16 (word_of_int (int i)) OR d\<rparr>) = (int i, h\<lparr>hd_destination := d\<rparr>)"
    "unat d < 2 ^ 16 \<Longrightarrow> rx_split (h'\<lparr>hd_destination := push_bit 16 (word_of_int (int i)) OR d\<rparr>) = (int i, h'\<lparr>hd_destination := d\<rparr>)"
    "unat e < 2 ^ 32 \<Longrightarrow> ry_split (h''\<lparr>hd_destination := push_bit 32 (word_of_int (int i)) OR e\<rparr>) = (int i, h''\<lparr>hd_destination := e\<rparr>)"
    "unat e < 2 ^ 32 \<Longrightarrow> rz_split (k\<lparr>hd_destination := push_bit 32 (word_of_int (int i)) OR e\<rparr>) = (int i, k\<lparr>hd_destination := e\<rparr>)"
  unfolding split_set by (simp_all only: split_narrow [OF _ assms] split_wide [OF _ assms])

lemmas head_layout = mem_get_def mem_field_def le_word_le_bytes

interpretation head: rpc_head SL_Rpc_MessageHead 16
proof unfold_locales
  show "hc_load SL_Rpc_MessageHead (hc_bytes SL_Rpc_MessageHead h @ r) = Some h" for h r
    by (simp add: SL_Rpc_MessageHead_def rh_load_def rh_bytes_def head_layout)
  show "unat d < 2 ^ 16 \<Longrightarrow> k < 2 ^ 15 \<Longrightarrow> hc_split SL_Rpc_MessageHead
      (h\<lparr>hd_destination := push_bit 16 (word_of_int (int k)) OR d\<rparr>) = (int k, h\<lparr>hd_destination := d\<rparr>)" for d k h
    using split_heads(1) [of k d] by (simp add: SL_Rpc_MessageHead_def)
qed (simp_all add: SL_Rpc_MessageHead_def rh_bytes_def rh_parse_def rh_serialize_def rh_serialize_index_def rh_default_type_def)

interpretation head_ex: rpc_head SL_Rpc_MessageHeadEx 16
proof unfold_locales
  show "hc_load SL_Rpc_MessageHeadEx (hc_bytes SL_Rpc_MessageHeadEx h @ r) = Some h" for h r
    by (simp add: SL_Rpc_MessageHeadEx_def rx_load_def rx_bytes_def head_layout)
  show "unat d < 2 ^ 16 \<Longrightarrow> k < 2 ^ 15 \<Longrightarrow> hc_split SL_Rpc_MessageHeadEx
      (h\<lparr>hd_destination := push_bit 16 (word_of_int (int k)) OR d\<rparr>) = (int k, h\<lparr>hd_destination := d\<rparr>)" for d k h
    using split_heads(2) [of k d] by (simp add: SL_Rpc_MessageHeadEx_def)
qed (simp_all add: SL_Rpc_MessageHeadEx_def rx_bytes_def rx_parse_def rx_serialize_def rx_serialize_index_def rx_default_type_def)

interpretation head_ex2: rpc_head SL_Rpc_MessageHeadEx2 32
proof unfold_locales
  show "hc_load SL_Rpc_MessageHeadEx2 (hc_bytes SL_Rpc_MessageHeadEx2 h @ r) = Some h" for h r
    by (simp add: SL_Rpc_MessageHeadEx2_def ry_load_def ry_bytes_def head_layout)
  show "unat d < 2 ^ 32 \<Longrightarrow> k < 2 ^ 15 \<Longrightarrow> hc_split SL_Rpc_MessageHeadEx2
      (h\<lparr>hd_destination := push_bit 32 (word_of_int (int k)) OR d\<rparr>) = (int k, h\<lparr>hd_destination := d\<rparr>)" for d k h
    using split_heads(3) [of k d] by (simp add: SL_Rpc_MessageHeadEx2_def)
qed (simp_all add: SL_Rpc_MessageHeadEx2_def ry_bytes_def ry_parse_def ry_serialize_def ry_serialize_index_def ry_default_type_def
    util_htonll_def util_ntohll_def)

interpretation head_ex3: rpc_head SL_Rpc_MessageHeadEx3 32
proof unfold_locales
  show "hc_load SL_Rpc_MessageHeadEx3 (hc_bytes SL_Rpc_MessageHeadEx3 h @ r) = Some h" for h r
    by (simp add: SL_Rpc_MessageHeadEx3_def rz_load_def rz_bytes_def head_layout)
  show "unat d < 2 ^ 32 \<Longrightarrow> k < 2 ^ 15 \<Longrightarrow> hc_split SL_Rpc_MessageHeadEx3
      (h\<lparr>hd_destination := push_bit 32 (word_of_int (int k)) OR d\<rparr>) = (int k, h\<lparr>hd_destination := d\<rparr>)" for d k h
    using split_heads(4) [of k d] by (simp add: SL_Rpc_MessageHeadEx3_def)
qed (simp_all add: SL_Rpc_MessageHeadEx3_def rz_bytes_def rz_parse_def rz_serialize_def rz_serialize_index_def rz_default_type_def
    util_htonll_def util_ntohll_def)

end
