(* ===== verification/SL_RpcMessage.thy ===== *)
theory SL_RpcMessage
  imports SL_RpcHead
begin

text \<open>
  \<^verbatim>\<open>SL_Rpc_MessageParser\<close> and \<^verbatim>\<open>SL_Rpc_Message\<close> of \<^verbatim>\<open>include/SL_Rpc_Message.h\<close>: a message to
  several destinations carries their list behind its body, and its head the offset of the list and the index of
  its own destination in it.  The head is at the front of the message's block, where the code reads and writes it
  through a pointer; a destination is the \<^verbatim>\<open>uint64\<close> of \<^verbatim>\<open>SL_Rpc_Message_DestinationType\<close>.
\<close>

section \<open>Collections of destinations\<close>

text \<open>\<^verbatim>\<open>destinations.insert(destinations.end(), x)\<close> for the containers the template is used with, in the order of iteration.\<close>

datatype destinations_kind = Std_set | Std_vector

fun dest_insert :: "destinations_kind \<Rightarrow> uint64 \<Rightarrow> uint64 list \<Rightarrow> uint64 list" where
  "dest_insert Std_set x ds = insort_insert x ds"
| "dest_insert Std_vector x ds = ds @ [x]"

definition FLAG_LOCAL_BROADCAST :: "'f::len word" where "FLAG_LOCAL_BROADCAST = 1"
definition FLAG_NOT_DESTINATIONS :: "'f::len word" where "FLAG_NOT_DESTINATIONS = 16"

section \<open>Heads alone\<close>

definition hc_store :: "('l::len, 'f::len, 'd::len, 'z) head_class \<Rightarrow> ('l, 'f, 'd, 'z) head_fields_scheme \<Rightarrow> byte list \<Rightarrow> byte list option" where
  "hc_store C h m = mem_put m 0 (hc_bytes C h)"

text \<open>The \<^verbatim>\<open>int\<close> a length is converted to.\<close>

definition len_int :: "'l::len word \<Rightarrow> int" where
  "len_int w = sint (ucast w :: uint)"

definition parse_head :: "('l::len, 'f::len, 'd::len, 'z) head_class \<Rightarrow> byte list \<Rightarrow> nat \<Rightarrow> byte list option" where
  "parse_head C data len = do { h \<leftarrow> hc_load C data; hc_store C (hc_parse C (int len) h) data }"

definition serialize_head :: "('l::len, 'f::len, 'd::len, 'z) head_class \<Rightarrow> byte list \<Rightarrow> (int \<times> byte list) option" where
  "serialize_head C data = do {
     h \<leftarrow> hc_load C data;
     let len = len_int (hd_length h);
     data \<leftarrow> hc_store C (hc_serialize C h) data;
     Some (len, data) }"

section \<open>Lists of destinations\<close>

definition dest_enc :: "('l::len, 'f::len, 'd::len, 'z) head_class \<Rightarrow> uint64 \<Rightarrow> byte list" where
  "dest_enc C x = le_bytes 8 (ucast (hc_serialize_destination C (ucast x)) :: uint64)"

definition dest_dec :: "('l::len, 'f::len, 'd::len, 'z) head_class \<Rightarrow> byte list \<Rightarrow> uint64" where
  "dest_dec C d = ucast (hc_parse_destination C (ucast (le_word d :: uint64)))"

fun write_dests :: "('l::len, 'f::len, 'd::len, 'z) head_class \<Rightarrow> uint64 list \<Rightarrow> nat \<Rightarrow> byte list \<Rightarrow> byte list option" where
  "write_dests C [] pos m = Some m"
| "write_dests C (x # xs) pos m = do { m \<leftarrow> mem_put m pos (dest_enc C x); write_dests C xs (pos + 8) m }"

fun write_dests_index ::
  "('l::len, 'f::len, 'd::len, 'z) head_class \<Rightarrow> uint64 list \<Rightarrow> nat \<Rightarrow> nat \<Rightarrow> nat \<Rightarrow> byte list \<Rightarrow> (nat \<times> byte list) option"
where
  "write_dests_index C [] i index pos m = Some (index, m)"
| "write_dests_index C (x # xs) i index pos m = do {
     h \<leftarrow> hc_load C m;
     let index = (if x = ucast (hd_destination h) then i + 1 else index);
     m \<leftarrow> mem_put m pos (dest_enc C x);
     write_dests_index C xs (i + 1) index (pos + 8) m }"

function read_dests ::
  "('l::len, 'f::len, 'd::len, 'z) head_class \<Rightarrow> destinations_kind \<Rightarrow> byte list \<Rightarrow> nat \<Rightarrow> nat \<Rightarrow> uint64 list \<Rightarrow> uint64 list option"
where
  "read_dests C k m data_end pos ds =
     (if pos < data_end then do {
        d \<leftarrow> mem_get m pos 8;
        read_dests C k m data_end (pos + 8) (dest_insert k (dest_dec C d) ds) }
      else Some ds)"
  by pat_completeness auto
termination by (relation "measure (\<lambda>(C, k, m, data_end, pos, ds). data_end - pos)") auto

function read_dests_index ::
  "('l::len, 'f::len, 'd::len, 'z) head_class \<Rightarrow> destinations_kind \<Rightarrow> bool \<Rightarrow> int \<Rightarrow> byte list \<Rightarrow> nat \<Rightarrow> nat \<Rightarrow> nat \<Rightarrow> uint64 list \<Rightarrow>
    (byte list \<times> uint64 list) option"
where
  "read_dests_index C k not_destinations index m data_end pos i ds =
     (if pos < data_end then do {
        d \<leftarrow> mem_get m pos 8;
        let dest_item = dest_dec C d;
        (m, ds) \<leftarrow>
          (if int (i + 1) = index then do {
             h \<leftarrow> hc_load C m;
             m \<leftarrow> hc_store C (h\<lparr>hd_destination := ucast dest_item\<rparr>) m;
             Some (m, if not_destinations then ds else dest_insert k dest_item ds) }
           else Some (m, dest_insert k dest_item ds));
        read_dests_index C k not_destinations index m data_end (pos + 8) (i + 1) ds }
      else Some (m, ds))"
  by pat_completeness auto
termination by (relation "measure (\<lambda>(C, k, n, index, m, data_end, pos, i, ds). data_end - pos)") auto

declare read_dests.simps [simp del] read_dests_index.simps [simp del]

definition parse_head_dests ::
  "('l::len, 'f::len, 'd::len, 'z) head_class \<Rightarrow> destinations_kind \<Rightarrow> byte list \<Rightarrow> nat \<Rightarrow> uint64 list \<Rightarrow> (byte list \<times> uint64 list) option"
where
  "parse_head_dests C k data len destinations = do {
     data \<leftarrow> parse_head C data len;
     h \<leftarrow> hc_load C data;
     if hd_flag h AND FLAG_LOCAL_BROADCAST \<noteq> 0 then do {
       let not_destinations = (hd_flag h AND FLAG_NOT_DESTINATIONS \<noteq> 0);
       let (destination_index, h) = hc_split C h;
       let h = h\<lparr>hd_length := ucast (hd_destination h)\<rparr>;
       let dest_pos = unat (hd_destination h);
       data \<leftarrow> hc_store C h data;
       if destination_index > 0
       then read_dests_index C k not_destinations destination_index data len dest_pos 0 destinations
       else do {
         data \<leftarrow> hc_store C (h\<lparr>hd_destination := 0\<rparr>) data;
         ds \<leftarrow> read_dests C k data len dest_pos destinations;
         Some (data, ds) } }
     else Some (data,
       if hd_destination h > 0 then dest_insert k (ucast (hd_destination h)) destinations
       else if hd_source h > 0 then dest_insert k (ucast (hd_source h)) destinations
       else destinations) }"

text \<open>The end of \<^verbatim>\<open>serialize_head\<close> after a list of \<open>n\<close> destinations has been written.\<close>

definition broadcast_head ::
  "('l::len, 'f::len, 'd::len, 'z) head_class \<Rightarrow> (('l, 'f, 'd, 'z) head_fields_scheme \<Rightarrow> ('l, 'f, 'd, 'z) head_fields_scheme) \<Rightarrow>
    nat \<Rightarrow> byte list \<Rightarrow> (int \<times> byte list) option"
where
  "broadcast_head C ser n m = do {
     h \<leftarrow> hc_load C m;
     let h = h\<lparr>hd_flag := hd_flag h OR FLAG_LOCAL_BROADCAST, hd_destination := ucast (hd_length h),
               hd_length := hd_length h + word_of_nat (8 * n)\<rparr>;
     let len = len_int (hd_length h);
     m \<leftarrow> hc_store C (ser h) m;
     Some (len, m) }"

definition serialize_head_dests ::
  "('l::len, 'f::len, 'd::len, 'z) head_class \<Rightarrow> destinations_kind \<Rightarrow> byte list \<Rightarrow> uint64 list \<Rightarrow> (int \<times> byte list \<times> uint64 list) option"
where
  "serialize_head_dests C k m destinations = do {
     h \<leftarrow> hc_load C m;
     let h = h\<lparr>hd_flag := hd_flag h AND NOT (FLAG_LOCAL_BROADCAST OR FLAG_NOT_DESTINATIONS)\<rparr>;
     m \<leftarrow> hc_store C h m;
     if destinations \<noteq> [] then
       if hd_destination h > 0 then do {
         let temp_size = length destinations;
         let destinations = dest_insert k (ucast (hd_destination h)) destinations;
         let dest_size = length destinations;
         let h = (if temp_size < dest_size then h\<lparr>hd_flag := hd_flag h OR FLAG_NOT_DESTINATIONS\<rparr> else h);
         m \<leftarrow> hc_store C h m;
         if dest_size > 1 then do {
           (destination_index, m) \<leftarrow> write_dests_index C destinations 0 0 (unat (hd_length h)) m;
           (len, m) \<leftarrow> broadcast_head C (hc_serialize_index C (int destination_index)) dest_size m;
           Some (len, m, destinations) }
         else do { (len, m) \<leftarrow> serialize_head C m; Some (len, m, destinations) } }
       else if length destinations > 1 then do {
         m \<leftarrow> write_dests C destinations (unat (hd_length h)) m;
         (len, m) \<leftarrow> broadcast_head C (hc_serialize C) (length destinations) m;
         Some (len, m, destinations) }
       else do {
         m \<leftarrow> hc_store C (h\<lparr>hd_destination := ucast (hd destinations)\<rparr>) m;
         (len, m) \<leftarrow> serialize_head C m;
         Some (len, m, destinations) }
     else do {
       m \<leftarrow> (if hd_destination h \<le> 0 then hc_store C (h\<lparr>hd_destination := hd_source h\<rparr>) m else Some m);
       (len, m) \<leftarrow> serialize_head C m;
       Some (len, m, destinations) } }"

section \<open>Collections\<close>

fun dests_ok :: "destinations_kind \<Rightarrow> uint64 list \<Rightarrow> bool" where
  "dests_ok Std_set ds \<longleftrightarrow> sorted ds \<and> distinct ds"
| "dests_ok Std_vector ds \<longleftrightarrow> True"

lemma insort_last: "\<forall>y\<in>set xs. y < x \<Longrightarrow> insort x xs = xs @ [x :: 'a::linorder]"
  by (induction xs) auto

lemma dest_insert_end: "dests_ok k (ds @ [x]) \<Longrightarrow> dest_insert k x ds = ds @ [x]"
proof (cases k)
  case Std_set
  assume ok: "dests_ok k (ds @ [x])"
  then have "\<forall>y\<in>set ds. y < x" and "x \<notin> set ds" by (auto simp: Std_set sorted_append order_less_le)
  then show ?thesis by (simp add: Std_set insort_insert_insort insort_last)
qed simp

lemma dests_ok_prefix: "dests_ok k (as @ bs) \<Longrightarrow> dests_ok k as"
  by (cases k) (auto simp: sorted_append)

lemma fold_dest_insert: "dests_ok k (acc @ xs) \<Longrightarrow> fold (dest_insert k) xs acc = acc @ xs"
proof (induction xs arbitrary: acc)
  case (Cons x xs)
  have "dest_insert k x acc = acc @ [x]"
    using dests_ok_prefix [of k "acc @ [x]" xs] Cons.prems by (intro dest_insert_end) simp
  then show ?case using Cons.IH [of "acc @ [x]"] Cons.prems by simp
qed simp

lemma insort_split: "\<exists>as bs. xs = as @ bs \<and> insort (x :: 'a::linorder) xs = as @ x # bs"
proof (induction xs)
  case (Cons y ys)
  then obtain as bs where "ys = as @ bs" "insort x ys = as @ x # bs" by blast
  then show ?case
    by (cases "x \<le> y") (force intro: exI [of _ "[]"], force intro: exI [of _ "y # as"])
qed simp

text \<open>Where an inserted destination is last found, and what is left without it.\<close>

lemma dest_insert_split:
  assumes "dests_ok k ds"
  obtains as bs where "dest_insert k d ds = as @ d # bs" "d \<notin> set bs" "dests_ok k (as @ d # bs)"
    "as @ (if length ds < length (dest_insert k d ds) then [] else [d]) @ bs = ds"
proof (cases k)
  case Std_vector
  show ?thesis by (rule that [of ds "[]"]) (simp_all add: Std_vector)
next
  case Std_set
  show ?thesis
  proof (cases "d \<in> set ds")
    case True
    then obtain as bs where "ds = as @ d # bs" "d \<notin> set bs" using split_list_last by force
    then show ?thesis using True assms by (intro that [of as bs]) (simp_all add: Std_set insort_insert_triv)
  next
    case False
    then have i: "dest_insert k d ds = insort d ds" by (simp add: Std_set insort_insert_insort)
    obtain as bs where ab: "ds = as @ bs" "insort d ds = as @ d # bs" using insort_split by blast
    have "sorted (insort d ds)" "distinct (insort d ds)" using assms False by (simp_all add: Std_set sorted_insort distinct_insort)
    then show ?thesis using ab False i by (intro that [of as bs]) (auto simp: Std_set)
  qed
qed

fun last_index :: "'a \<Rightarrow> 'a list \<Rightarrow> nat \<Rightarrow> nat \<Rightarrow> nat" where
  "last_index d [] i index = index"
| "last_index d (x # xs) i index = last_index d xs (i + 1) (if x = d then i + 1 else index)"

lemma last_index_absent: "d \<notin> set bs \<Longrightarrow> last_index d bs i index = index"
  by (induction bs arbitrary: i) auto

lemma last_index_found: "d \<notin> set bs \<Longrightarrow> last_index d (as @ d # bs) i index = i + length as + 1"
  by (induction as arbitrary: i index) (simp_all add: last_index_absent)

section \<open>What a message promises\<close>

text \<open>The destinations a head has room for.\<close>

definition dest_fits :: "('l::len, 'f::len, 'd::len, 'z) head_class \<Rightarrow> uint64 \<Rightarrow> bool" where
  "dest_fits C x \<longleftrightarrow> ucast (ucast x :: 'd word) = x"

text \<open>What a message whose head is \<open>h\<close> and whose destinations are \<open>ds\<close> is for.\<close>

definition targets :: "('l::len, 'f::len, 'd::len, 'z) head_fields_scheme \<Rightarrow> uint64 list \<Rightarrow> uint64 list" where
  "targets h ds =
     (if ds \<noteq> [] then ds else if hd_destination h > 0 then [ucast (hd_destination h)]
      else if hd_source h > 0 then [ucast (hd_source h)] else [])"

definition target :: "('l::len, 'f::len, 'd::len, 'z) head_fields_scheme \<Rightarrow> uint64 list \<Rightarrow> 'd word" where
  "target h ds =
     (if hd_destination h > 0 then hd_destination h
      else if ds = [] then hd_source h else if length ds = 1 then ucast (hd ds) else 0)"

text \<open>The list behind the body, when there is one.\<close>

definition listed :: "destinations_kind \<Rightarrow> ('l::len, 'f::len, 'd::len, 'z) head_fields_scheme \<Rightarrow> uint64 list \<Rightarrow> uint64 list" where
  "listed k h ds =
     (let xs = (if ds \<noteq> [] \<and> hd_destination h > 0 then dest_insert k (ucast (hd_destination h)) ds else ds)
      in if length xs > 1 then xs else [])"

definition no_flags :: "'f::len word \<Rightarrow> 'f word" where
  "no_flags f = f AND NOT (FLAG_LOCAL_BROADCAST OR FLAG_NOT_DESTINATIONS)"

text \<open>A message of the head \<open>h\<close> and a body, and what is left of the block behind it.\<close>

definition rpc_ready :: "('l::len, 'f::len, 'd::len, 'z) head_class \<Rightarrow> nat \<Rightarrow> destinations_kind \<Rightarrow> ('l, 'f, 'd, 'z) head_fields_scheme \<Rightarrow> byte list \<Rightarrow> byte list \<Rightarrow> uint64 list \<Rightarrow> bool" where
  "rpc_ready C half k h body room ds \<longleftrightarrow>
     unat (hd_length h) = hc_size C + length body \<and> unat (hd_length h) < 2 ^ half \<and>
     unat (hd_length h) + 8 * (length ds + 1) < 2 ^ LENGTH('l) \<and> unat (hd_length h) + 8 * (length ds + 1) < 2 ^ 31 \<and>
     8 * (length ds + 1) \<le> length room \<and> length ds + 1 < 2 ^ 15 \<and> dests_ok k ds \<and> 0 \<notin> set ds \<and> list_all (dest_fits C) ds"

definition rpc_arrives :: "('l::len, 'f::len, 'd::len, 'z) head_class \<Rightarrow> destinations_kind \<Rightarrow> ('l, 'f, 'd, 'z) head_fields_scheme \<Rightarrow> byte list \<Rightarrow> byte list \<Rightarrow> uint64 list \<Rightarrow> bool" where
  "rpc_arrives C k h body room ds \<longleftrightarrow>
     (\<exists>len m ds' f tail.
        serialize_head_dests C k (hc_bytes C h @ body @ room) ds = Some (int len, m, ds') \<and> len \<le> length m \<and>
        parse_head_dests C k (take len m) len [] =
          Some (hc_bytes C (h\<lparr>hd_flag := f, hd_destination := target h ds\<rparr>) @ body @ tail, targets h ds) \<and>
        no_flags f = no_flags (hd_flag h) \<and> (f AND FLAG_LOCAL_BROADCAST \<noteq> 0 \<longleftrightarrow> listed k h ds \<noteq> []) \<and>
        tail = concat (map (dest_enc C) (listed k h ds)))"

section \<open>Lists of destinations in memory\<close>

context rpc_head
begin

lemma store_bytes: "hc_store C h' (hc_bytes C h @ r) = Some (hc_bytes C h' @ r)"
  by (simp add: hc_store_def mem_put_def length_bytes)

lemma ucast_wide: "LENGTH('a::len) \<le> LENGTH('b::len) \<Longrightarrow> ucast (ucast (w :: 'a word) :: 'b word) = w"
  by (rule bit_word_eqI) (auto simp: bit_simps dest: bit_imp_le_length)

lemma length_enc [simp]: "length (dest_enc C x) = 8"
  by (simp add: dest_enc_def)

lemma dec_enc: "dest_fits C x \<Longrightarrow> dest_dec C (dest_enc C x) = x"
  using widths(2) by (simp add: dest_dec_def dest_enc_def le_word_le_bytes ucast_wide destination dest_fits_def)

definition dests_bytes :: "uint64 list \<Rightarrow> byte list" where
  "dests_bytes xs = concat (map (dest_enc C) xs)"

lemma dests_bytes_simps [simp]: "dests_bytes [] = []" "dests_bytes (x # xs) = dest_enc C x @ dests_bytes xs"
  "length (dests_bytes xs) = 8 * length xs"
  by (simp_all add: dests_bytes_def) (induction xs; simp)

lemma write_dests_bytes:
  "length old = 8 * length xs \<Longrightarrow> write_dests C xs (length pre) (pre @ old @ r) = Some (pre @ dests_bytes xs @ r)"
proof (induction xs arbitrary: pre old)
  case (Cons x xs)
  have "mem_put (pre @ old @ r) (length pre) (dest_enc C x) = Some ((pre @ dest_enc C x) @ drop 8 old @ r)"
    using Cons.prems by (simp add: mem_put_def)
  moreover have "write_dests C xs (length (pre @ dest_enc C x)) ((pre @ dest_enc C x) @ drop 8 old @ r) =
      Some ((pre @ dest_enc C x) @ dests_bytes xs @ r)" using Cons.prems by (intro Cons.IH) simp
  ultimately show ?case by (simp add: add.commute)
qed simp

lemma write_dests_index_bytes:
  "length old = 8 * length xs \<Longrightarrow>
    write_dests_index C xs i index (length (hc_bytes C h @ body)) (hc_bytes C h @ body @ old @ r) =
      Some (last_index (ucast (hd_destination h)) xs i index, hc_bytes C h @ body @ dests_bytes xs @ r)"
proof (induction xs arbitrary: i index body old)
  case (Cons x xs)
  have "mem_put (hc_bytes C h @ body @ old @ r) (length (hc_bytes C h @ body)) (dest_enc C x) =
      Some (hc_bytes C h @ (body @ dest_enc C x) @ drop 8 old @ r)"
    using Cons.prems by (simp add: mem_put_def)
  moreover have "write_dests_index C xs (i + 1) j (length (hc_bytes C h @ body @ dest_enc C x))
      (hc_bytes C h @ (body @ dest_enc C x) @ drop 8 old @ r) =
      Some (last_index (ucast (hd_destination h)) xs (i + 1) j, hc_bytes C h @ (body @ dest_enc C x) @ dests_bytes xs @ r)" for j
    using Cons.prems by (intro Cons.IH) simp
  ultimately show ?case by (simp add: load_bytes Let_def ac_simps)
qed simp

lemma get_item: "mem_get (pre @ dest_enc C x @ r) (length pre) 8 = Some (dest_enc C x)"
  by (simp add: mem_get_def)

lemma read_dests_bytes:
  "list_all (dest_fits C) xs \<Longrightarrow>
    read_dests C k (pre @ dests_bytes xs) (length pre + 8 * length xs) (length pre) ds = Some (fold (dest_insert k) xs ds)"
proof (induction xs arbitrary: pre ds)
  case Nil
  then show ?case by (simp add: read_dests.simps)
next
  case (Cons x xs)
  have "read_dests C k ((pre @ dest_enc C x) @ dests_bytes xs) (length (pre @ dest_enc C x) + 8 * length xs)
      (length (pre @ dest_enc C x)) (dest_insert k x ds) = Some (fold (dest_insert k) xs (dest_insert k x ds))"
    using Cons.prems by (intro Cons.IH) simp
  then show ?case using Cons.prems get_item [of pre x "dests_bytes xs"]
    by (subst read_dests.simps) (simp add: dec_enc ac_simps)
qed

lemma read_dests_after:
  "list_all (dest_fits C) xs \<Longrightarrow> index \<le> int i \<Longrightarrow>
    read_dests_index C k n index (pre @ dests_bytes xs) (length pre + 8 * length xs) (length pre) i ds =
      Some (pre @ dests_bytes xs, fold (dest_insert k) xs ds)"
proof (induction xs arbitrary: pre i ds)
  case Nil
  then show ?case by (simp add: read_dests_index.simps)
next
  case (Cons x xs)
  have "read_dests_index C k n index ((pre @ dest_enc C x) @ dests_bytes xs) (length (pre @ dest_enc C x) + 8 * length xs)
      (length (pre @ dest_enc C x)) (i + 1) (dest_insert k x ds) =
      Some ((pre @ dest_enc C x) @ dests_bytes xs, fold (dest_insert k) xs (dest_insert k x ds))"
    using Cons.prems by (intro Cons.IH) simp_all
  then show ?case using Cons.prems get_item [of pre x "dests_bytes xs"]
    by (subst read_dests_index.simps) (simp add: dec_enc ac_simps)
qed

lemma read_dests_index_bytes:
  "list_all (dest_fits C) (as @ d # bs) \<Longrightarrow> length pre = length (hc_bytes C h @ body) \<Longrightarrow> pre = hc_bytes C h @ body \<Longrightarrow>
    read_dests_index C k n (int (i + length as + 1)) (pre @ dests_bytes (as @ d # bs))
      (length pre + 8 * length (as @ d # bs)) (length pre) i ds =
    Some (hc_bytes C (h\<lparr>hd_destination := ucast d\<rparr>) @ body @ dests_bytes (as @ d # bs),
      fold (dest_insert k) (as @ (if n then [] else [d]) @ bs) ds)"
proof (induction as arbitrary: pre body i ds)
  case Nil
  let ?h = "h\<lparr>hd_destination := ucast d\<rparr>"
  let ?p = "hc_bytes C ?h @ body @ dest_enc C d"
  let ?ds = "if n then ds else dest_insert k d ds"
  have "read_dests_index C k n (int (i + 1)) (?p @ dests_bytes bs) (length ?p + 8 * length bs) (length ?p) (i + 1) ?ds =
      Some (?p @ dests_bytes bs, fold (dest_insert k) bs ?ds)"
    using Nil.prems by (intro read_dests_after) simp_all
  then show ?case using Nil.prems get_item [of pre d "dests_bytes bs"] store_bytes [of ?h h "body @ dest_enc C d @ dests_bytes bs"]
    by (subst read_dests_index.simps, cases n) (simp_all add: dec_enc load_bytes length_bytes Let_def ac_simps)
next
  case (Cons x as)
  let ?p = "pre @ dest_enc C x"
  have "read_dests_index C k n (int ((i + 1) + length as + 1)) (?p @ dests_bytes (as @ d # bs))
      (length ?p + 8 * length (as @ d # bs)) (length ?p) (i + 1) (dest_insert k x ds) =
    Some (hc_bytes C (h\<lparr>hd_destination := ucast d\<rparr>) @ (body @ dest_enc C x) @ dests_bytes (as @ d # bs),
      fold (dest_insert k) (as @ (if n then [] else [d]) @ bs) (dest_insert k x ds))"
    using Cons.prems by (intro Cons.IH) simp_all
  then show ?case using Cons.prems get_item [of pre x "dests_bytes (as @ d # bs)"]
    by (subst read_dests_index.simps) (simp add: dec_enc Let_def ac_simps)
qed

section \<open>A message and back\<close>

lemma parse_serialized:
  "parse_head C (hc_bytes C (hc_serialize C h) @ r) n = Some (hc_bytes C (h\<lparr>hd_length := word_of_nat n\<rparr>) @ r)"
  by (simp add: parse_head_def load_bytes store_bytes parse_serialize)

lemma serialize_bytes:
  "serialize_head C (hc_bytes C h @ r) = Some (len_int (hd_length h), hc_bytes C (hc_serialize C h) @ r)"
  by (simp add: serialize_head_def load_bytes store_bytes)

lemma flag_bits:
  "w AND FLAG_LOCAL_BROADCAST \<noteq> 0 \<longleftrightarrow> bit (w :: 'f word) 0" "w AND FLAG_NOT_DESTINATIONS \<noteq> 0 \<longleftrightarrow> bit (w :: 'f word) 4"
  by (simp_all add: FLAG_LOCAL_BROADCAST_def FLAG_NOT_DESTINATIONS_def bit_iff_and_push_bit_not_eq_0)

lemma bit_flags: "bit (FLAG_LOCAL_BROADCAST :: 'f word) n \<longleftrightarrow> n = 0" "bit (FLAG_NOT_DESTINATIONS :: 'f word) n \<longleftrightarrow> n = 4"
proof -
  have "(16 :: 'f word) = 2 ^ 4" by simp
  then show "bit (FLAG_NOT_DESTINATIONS :: 'f word) n \<longleftrightarrow> n = 4"
    unfolding FLAG_NOT_DESTINATIONS_def \<open>16 = 2 ^ 4\<close> bit_exp_iff using widths(4) by auto
qed (simp add: FLAG_LOCAL_BROADCAST_def bit_1_iff)

lemma len_int_small: "unat w < 2 ^ 31 \<Longrightarrow> len_int (w :: 'l word) = int (unat w)"
  using widths(3) by (simp add: len_int_def sint_unat_small unsigned_ucast_eq take_bit_nat_eq_self)

lemma bit_no_flags: "bit (no_flags (f :: 'f word)) n \<longleftrightarrow> bit f n \<and> n \<noteq> 0 \<and> n \<noteq> 4"
  using bit_imp_le_length [of f n] by (auto simp: no_flags_def bit_simps bit_flags)

lemma no_flags_set:
  "no_flags (no_flags (f :: 'f word) OR FLAG_LOCAL_BROADCAST) = no_flags f" "no_flags (no_flags f) = no_flags f"
  "no_flags ((no_flags f OR FLAG_NOT_DESTINATIONS) OR FLAG_LOCAL_BROADCAST) = no_flags f"
  "no_flags (no_flags f OR FLAG_NOT_DESTINATIONS) = no_flags f"
  by (rule bit_word_eqI; auto simp: bit_no_flags bit_or_iff bit_flags)+

text \<open>A received block: its head as it was sent, the body and the list.\<close>

definition sent_plain :: "('l, 'f, 'd, 'z) head_fields_scheme \<Rightarrow> byte list \<Rightarrow> byte list" where
  "sent_plain h body = hc_bytes C (hc_serialize C h) @ body"

lemma parse_plain:
  assumes "unat (hd_length h) = hc_size C + length body" "\<not> bit (hd_flag h) 0"
  shows "parse_head_dests C k (sent_plain h body) (unat (hd_length h)) [] =
    Some (hc_bytes C h @ body,
      if hd_destination h > 0 then dest_insert k (ucast (hd_destination h)) []
      else if hd_source h > 0 then dest_insert k (ucast (hd_source h)) [] else [])"
proof -
  have "h\<lparr>hd_length := word_of_nat (unat (hd_length h))\<rparr> = h" by simp
  then show ?thesis
    using assms(2) flag_bits(1) [of "hd_flag h"]
    by (simp add: parse_head_dests_def sent_plain_def parse_serialized load_bytes)
qed

lemma dest_insert_nil [simp]: "dest_insert k x [] = [x]"
  by (cases k) (simp_all add: insort_insert_key_def)

lemma length_after_destination: "h\<lparr>hd_destination := d, hd_length := l\<rparr> = h\<lparr>hd_length := l, hd_destination := d\<rparr>"
  by (cases h) simp

text \<open>A head with the offset \<open>o\<close> of the list and the index \<open>i\<close>, after the list's \<open>n\<close> bytes are counted in.\<close>

definition broadcast :: "('l, 'f, 'd, 'z) head_fields_scheme \<Rightarrow> nat \<Rightarrow> nat \<Rightarrow> ('l, 'f, 'd, 'z) head_fields_scheme" where
  "broadcast h i n = hc_serialize C
     (h\<lparr>hd_flag := hd_flag h OR FLAG_LOCAL_BROADCAST,
        hd_destination := push_bit half (word_of_int (int i)) OR ucast (hd_length h),
        hd_length := hd_length h + word_of_nat (8 * n)\<rparr>)"

lemma broadcast_head_index:
  "broadcast_head C (hc_serialize_index C (int i)) n (hc_bytes C h @ r) =
     Some (len_int (hd_length h + word_of_nat (8 * n)), hc_bytes C (broadcast h i n) @ r)"
  by (simp add: broadcast_head_def load_bytes store_bytes serialize_index broadcast_def Let_def length_after_destination)

lemma broadcast_head_plain:
  "broadcast_head C (hc_serialize C) n (hc_bytes C h @ r) =
     Some (len_int (hd_length h + word_of_nat (8 * n)), hc_bytes C (broadcast h 0 n) @ r)"
  by (simp add: broadcast_head_def load_bytes store_bytes broadcast_def Let_def)

lemma parse_broadcast:
  assumes len: "unat (hd_length h) = hc_size C + length body" "unat (hd_length h) < 2 ^ half" "i < 2 ^ 15"
    and data: "data = hc_bytes C (broadcast h i n) @ body @ r" "length data = N"
  shows "parse_head_dests C k data N [] =
    (let f = hd_flag h OR FLAG_LOCAL_BROADCAST; h' = h\<lparr>hd_flag := f, hd_destination := ucast (hd_length h)\<rparr> in
     if i > 0
     then read_dests_index C k (bit f 4) (int i) (hc_bytes C h' @ body @ r) N (hc_size C + length body) 0 []
     else do { ds \<leftarrow> read_dests C k (hc_bytes C (h'\<lparr>hd_destination := 0\<rparr>) @ body @ r) N (hc_size C + length body) [];
               Some (hc_bytes C (h'\<lparr>hd_destination := 0\<rparr>) @ body @ r, ds) })"
proof -
  let ?d = "ucast (hd_length h) :: 'd word" and ?f = "hd_flag h OR FLAG_LOCAL_BROADCAST"
  let ?h = "h\<lparr>hd_flag := ?f, hd_destination := push_bit half (word_of_int (int i)) OR ?d, hd_length := word_of_nat N\<rparr>"
  have bk: "ucast ?d = hd_length h" by (rule ucast_wide [OF widths(1)])
  have ud: "unat ?d = hc_size C + length body"
    using widths(1) len(1) unsigned_less [of "hd_length h", where 'a = nat] 
    by (simp add: unsigned_ucast_eq take_bit_nat_eq_self less_le_trans)
  have "parse_head C data N = Some (hc_bytes C ?h @ body @ r)"
    using parse_serialized by (simp add: data(1) broadcast_def)
  moreover have "?f AND FLAG_LOCAL_BROADCAST \<noteq> 0" unfolding flag_bits bit_or_iff by (simp add: bit_flags)
  moreover have "hc_split C ?h = (int i, h\<lparr>hd_flag := ?f, hd_destination := ?d, hd_length := word_of_nat N\<rparr>)"
  proof -
    have "unat ?d < 2 ^ half" using ud len by simp
    from split_index [OF this len(3), of "h\<lparr>hd_flag := ?f, hd_length := word_of_nat N\<rparr>"]
    show ?thesis by (simp add: length_after_destination)
  qed
  ultimately show ?thesis
    by (simp add: parse_head_dests_def load_bytes store_bytes Let_def flag_bits(2) bk ud del: of_int_of_nat_eq)
qed

lemma ready_len:
  assumes "rpc_ready C half k h body room ds" "n \<le> length ds + 1"
  shows "len_int (hd_length h + word_of_nat (8 * n)) = int (unat (hd_length h) + 8 * n)"
proof -
  have s: "unat (hd_length h) + 8 * n < 2 ^ LENGTH('l)" "unat (hd_length h) + 8 * n < 2 ^ 31"
    using assms by (simp_all add: rpc_ready_def)
  then have "unat (word_of_nat (8 * n) :: 'l word) = 8 * n"
    by (simp only: unat_of_nat) simp
  then have "unat (hd_length h + word_of_nat (8 * n)) = unat (hd_length h) + 8 * n"
    using s(1) by (subst unat_add_small) simp_all
  then show ?thesis using len_int_small [of "hd_length h + word_of_nat (8 * n)"] s(2) by (simp only:)
qed

lemma arrives_plain:
  assumes ready: "rpc_ready C half k h body room ds"
    and ser: "serialize_head_dests C k (hc_bytes C h @ body @ room) ds =
      Some (len_int (hd_length h), hc_bytes C (hc_serialize C h') @ body @ room, ds')"
    and h': "h' = h\<lparr>hd_flag := f, hd_destination := target h ds\<rparr>" "\<not> bit f 0" "no_flags f = no_flags (hd_flag h)"
    and list: "listed k h ds = []"
    and dests: "(if target h ds > 0 then [ucast (target h ds)] else if hd_source h > 0 then [ucast (hd_source h)] else []) = targets h ds"
  shows "rpc_arrives C k h body room ds"
proof -
  let ?len = "unat (hd_length h)"
  have l: "?len = hc_size C + length body" and i: "len_int (hd_length h) = int ?len"
    using ready ready_len [OF ready, of 0] by (simp_all add: rpc_ready_def)
  have "take ?len (hc_bytes C (hc_serialize C h') @ body @ room) = sent_plain h' body"
    by (simp add: sent_plain_def l length_bytes)
  moreover have "parse_head_dests C k (sent_plain h' body) ?len [] = Some (hc_bytes C h' @ body, targets h ds)"
    using parse_plain [of h' body k] l h'(2) unfolding dests [symmetric] by (simp add: h'(1))
  ultimately show ?thesis
    unfolding rpc_arrives_def flag_bits using ser i h' l list length_bytes [of "hc_serialize C h'"]
    by (intro exI [of _ ?len] exI [of _ "hc_bytes C (hc_serialize C h') @ body @ room"] exI [of _ ds'] exI [of _ f] exI [of _ "[]"]) simp
qed

lemma arrives_broadcast:
  assumes ready: "rpc_ready C half k h body room ds" and xs: "1 < length xs" "length xs \<le> length ds + 1" "list_all (dest_fits C) xs"
    and list: "listed k h ds = xs"
    and ser: "serialize_head_dests C k (hc_bytes C h @ body @ room) ds =
      Some (len_int (hd_length h + word_of_nat (8 * length xs)),
        hc_bytes C (broadcast (h\<lparr>hd_flag := f\<rparr>) i (length xs)) @ body @ dests_bytes xs @ drop (8 * length xs) room, ds')"
    and f: "no_flags (f OR FLAG_LOCAL_BROADCAST) = no_flags (hd_flag h)"
    and index: "i = 0 \<and> hd_destination h = 0 \<and> xs = ds \<or>
      (\<exists>as bs. hd_destination h > 0 \<and> xs = as @ ucast (hd_destination h) # bs \<and> i = length as + 1 \<and>
        as @ (if bit f 4 then [] else [ucast (hd_destination h)]) @ bs = ds)"
  shows "rpc_arrives C k h body room ds"
proof -
  let ?h = "h\<lparr>hd_flag := f\<rparr>"
  define N where "N = unat (hd_length h) + 8 * length xs"
  let ?f = "f OR FLAG_LOCAL_BROADCAST"
  let ?data = "hc_bytes C (broadcast ?h i (length xs)) @ body @ dests_bytes xs"
  let ?m = "?data @ drop (8 * length xs) room"
  have l: "unat (hd_length h) = hc_size C + length body" "unat (hd_length h) < 2 ^ half"
    and ok: "dests_ok k ds" and i15: "i < 2 ^ 15" and ne: "ds \<noteq> []"
    using ready xs index by (auto simp: rpc_ready_def)
  have len: "length ?data = N" "N = hc_size C + length body + 8 * length xs" using l by (simp_all add: length_bytes N_def)
  have fold: "fold (dest_insert k) ds [] = ds" using fold_dest_insert [of k "[]" ds] ok by simp
  let ?h' = "h\<lparr>hd_flag := ?f, hd_destination := ucast (hd_length h)\<rparr>"
  have parse: "parse_head_dests C k ?data N [] =
    (if i > 0
     then read_dests_index C k (bit ?f 4) (int i) (hc_bytes C ?h' @ body @ dests_bytes xs) N (hc_size C + length body) 0 []
     else do { ds \<leftarrow> read_dests C k (hc_bytes C (h\<lparr>hd_flag := ?f, hd_destination := 0\<rparr>) @ body @ dests_bytes xs) N (hc_size C + length body) [];
               Some (hc_bytes C (h\<lparr>hd_flag := ?f, hd_destination := 0\<rparr>) @ body @ dests_bytes xs, ds) })"
    using parse_broadcast [of ?h body i ?data "length xs" "dests_bytes xs" N k] l i15 len(1) by (simp add: Let_def)
  have "parse_head_dests C k ?data N [] =
      Some (hc_bytes C (h\<lparr>hd_flag := ?f, hd_destination := target h ds\<rparr>) @ body @ dests_bytes xs, targets h ds)"
  proof (cases "i = 0")
    case True
    then have z: "hd_destination h = 0" "xs = ds" using index by auto
    then have t: "target h ds = 0" "targets h ds = ds" using xs(1) ne by (auto simp: target_def targets_def)
    have "read_dests C k ((hc_bytes C (?h'\<lparr>hd_destination := 0\<rparr>) @ body) @ dests_bytes xs) N (hc_size C + length body) [] = Some ds"
      unfolding len(2) using read_dests_bytes [OF xs(3), of k "hc_bytes C (?h'\<lparr>hd_destination := 0\<rparr>) @ body" "[]"] fold z(2) len(2)
      by (simp add: length_bytes)
    then show ?thesis unfolding parse using True t by simp
  next
    case False
    then obtain as bs where ab: "hd_destination h > 0" "xs = as @ ucast (hd_destination h) # bs" "i = length as + 1"
      "as @ (if bit f 4 then [] else [ucast (hd_destination h)]) @ bs = ds" using index by auto
    have t: "target h ds = hd_destination h" "targets h ds = ds" using ne ab(1) by (simp_all add: target_def targets_def)
    have "bit ?f 4 = bit f 4" by (simp add: bit_or_iff bit_flags)
    moreover have "ucast (ucast (hd_destination h) :: uint64) = hd_destination h" by (rule ucast_wide) (use widths(2) in simp)
    ultimately have "read_dests_index C k (bit ?f 4) (int i) (hc_bytes C ?h' @ body @ dests_bytes xs) N (hc_size C + length body) 0 [] =
        Some (hc_bytes C (h\<lparr>hd_flag := ?f, hd_destination := target h ds\<rparr>) @ body @ dests_bytes xs, ds)"
      using read_dests_index_bytes [of as "ucast (hd_destination h)" bs "hc_bytes C ?h' @ body" ?h' body k "bit f 4" 0 "[]"]
        fold ab t len(2) xs(3) by (simp add: length_bytes)
    then show ?thesis unfolding parse using False t by simp
  qed
  moreover have "take N ?m = ?data" using len(1) by simp
  moreover have "len_int (hd_length h + word_of_nat (8 * length xs)) = int N" unfolding N_def by (rule ready_len [OF ready xs(2)])
  ultimately show ?thesis
    unfolding rpc_arrives_def flag_bits list using ser f len(1) xs(1)
    by (intro exI [of _ N] exI [of _ ?m] exI [of _ ds'] exI [of _ ?f] exI [of _ "dests_bytes xs"])
      (auto simp: bit_or_iff bit_flags dests_bytes_def)
qed

text \<open>\<open>serialize_head\<close> once the flags are cleared.\<close>

lemma serialize_start:
  "serialize_head_dests C k (hc_bytes C h @ r) ds =
     (let g = h\<lparr>hd_flag := no_flags (hd_flag h)\<rparr> in
      if ds \<noteq> [] then
        if hd_destination g > 0 then
          (let xs = dest_insert k (ucast (hd_destination g)) ds;
               g = (if length ds < length xs then g\<lparr>hd_flag := hd_flag g OR FLAG_NOT_DESTINATIONS\<rparr> else g)
           in if length xs > 1 then do {
                (i, m) \<leftarrow> write_dests_index C xs 0 0 (unat (hd_length g)) (hc_bytes C g @ r);
                (len, m) \<leftarrow> broadcast_head C (hc_serialize_index C (int i)) (length xs) m;
                Some (len, m, xs) }
              else Some (len_int (hd_length g), hc_bytes C (hc_serialize C g) @ r, xs))
        else if length ds > 1 then do {
          m \<leftarrow> write_dests C ds (unat (hd_length g)) (hc_bytes C g @ r);
          (len, m) \<leftarrow> broadcast_head C (hc_serialize C) (length ds) m;
          Some (len, m, ds) }
        else Some (len_int (hd_length g), hc_bytes C (hc_serialize C (g\<lparr>hd_destination := ucast (hd ds)\<rparr>)) @ r, ds)
      else Some (len_int (hd_length g),
        hc_bytes C (hc_serialize C (if hd_destination g \<le> 0 then g\<lparr>hd_destination := hd_source g\<rparr> else g)) @ r, ds))"
  unfolding serialize_head_dests_def load_bytes Option.bind.bind_lunit no_flags_def [symmetric]
  by (simp add: Let_def store_bytes serialize_bytes load_bytes)

lemma rpc_roundtrip:
  assumes ready: "rpc_ready C half k h body room ds"
  shows "rpc_arrives C k h body room ds"
proof -
  let ?f = "no_flags (hd_flag h)"
  let ?h = "h\<lparr>hd_flag := ?f\<rparr>"
  have pos: "unat (hd_length h) = length (hc_bytes C g @ body)" for g using ready by (simp add: rpc_ready_def length_bytes)
  have b0: "\<not> bit ?f 0" "\<not> bit (?f OR FLAG_NOT_DESTINATIONS) 0" "\<not> bit ?f 4" "bit (?f OR FLAG_NOT_DESTINATIONS) 4"
    by (simp_all add: bit_no_flags bit_or_iff bit_flags)
  show ?thesis
  proof (cases "ds = []")
    case True
    show ?thesis
      by (rule arrives_plain [OF ready, where f = ?f and h' = "h\<lparr>hd_flag := ?f, hd_destination := target h ds\<rparr>" and ds' = ds])
        (use True b0 in \<open>auto simp: serialize_start target_def targets_def listed_def no_flags_set word_neq_0_conv Let_def\<close>)
  next
    case False
    note ne = this
    show ?thesis
    proof (cases "hd_destination h > 0")
      case False
      then have z: "hd_destination h = 0" by (simp add: word_gt_0)
      show ?thesis
      proof (cases "length ds > 1")
        case True
        have "8 * length ds \<le> length room" "list_all (dest_fits C) ds" using ready by (simp_all add: rpc_ready_def)
        then have "write_dests C ds (length (hc_bytes C ?h @ body)) (hc_bytes C ?h @ body @ room) =
            Some (hc_bytes C ?h @ body @ dests_bytes ds @ drop (8 * length ds) room)"
          using write_dests_bytes [of "take (8 * length ds) room" ds "hc_bytes C ?h @ body" "drop (8 * length ds) room"] by simp
        then show ?thesis
          by (intro arrives_broadcast [OF ready True, where f = ?f and i = 0 and ds' = ds])
            (use True z ne \<open>list_all (dest_fits C) ds\<close> pos [of ?h] broadcast_head_plain [of "length ds" ?h] in
              \<open>auto simp: serialize_start listed_def no_flags_set Let_def\<close>)
      next
        case False
        then obtain x where x: "ds = [x]" using ne by (cases ds) auto
        then have "x \<noteq> 0" "ucast (ucast x :: 'd word) = x" using ready by (auto simp: rpc_ready_def dest_fits_def)
        then have "(ucast x :: 'd word) > 0" by (metis unsigned_0 word_neq_0_conv)
        then show ?thesis
          by (intro arrives_plain [OF ready, where f = ?f and h' = "h\<lparr>hd_flag := ?f, hd_destination := target h ds\<rparr>" and ds' = ds])
            (use x z b0 \<open>ucast (ucast x :: 'd word) = x\<close> in \<open>auto simp: serialize_start target_def listed_def
               targets_def no_flags_set Let_def\<close>)
      qed
    next
      case True
      note dpos = this
      let ?d = "ucast (hd_destination h) :: uint64"
      have "dests_ok k ds" using ready by (simp add: rpc_ready_def)
      from dest_insert_split [OF this, of ?d] obtain as bs where ab: "dest_insert k ?d ds = as @ ?d # bs" "?d \<notin> set bs"
        "as @ (if length ds < length (dest_insert k ?d ds) then [] else [?d]) @ bs = ds" by metis
      let ?xs = "as @ ?d # bs"
      define f where "f = (if length ds < length ?xs then ?f OR FLAG_NOT_DESTINATIONS else ?f)"
      have f4: "bit f 4 \<longleftrightarrow> length ds < length ?xs" "\<not> bit f 0" using b0 by (simp_all add: f_def)
      have fl: "no_flags f = no_flags (hd_flag h)" "no_flags (f OR FLAG_LOCAL_BROADCAST) = no_flags (hd_flag h)"
        by (simp_all add: f_def no_flags_set)
      have back_d: "ucast ?d = hd_destination h" by (rule ucast_wide) (use widths(2) in simp)
      have len: "length ?xs \<le> length ds + 1" using arg_cong [OF ab(3), of length] by (simp split: if_splits)
      have sub: "set ?xs \<subseteq> insert ?d (set ds)" using ab(3) by (auto split: if_splits)
      have fits: "list_all (dest_fits C) ?xs"
        using ready sub back_d by (auto simp: list_all_iff rpc_ready_def dest_fits_def)
      have start: "serialize_head_dests C k (hc_bytes C h @ body @ room) ds =
          (if length ?xs > 1 then do {
             (i, m) \<leftarrow> write_dests_index C ?xs 0 0 (unat (hd_length h)) (hc_bytes C (h\<lparr>hd_flag := f\<rparr>) @ body @ room);
             (len, m) \<leftarrow> broadcast_head C (hc_serialize_index C (int i)) (length ?xs) m;
             Some (len, m, ?xs) }
           else Some (len_int (hd_length h), hc_bytes C (hc_serialize C (h\<lparr>hd_flag := f\<rparr>)) @ body @ room, ?xs))"
        using ne dpos ab(1) by (simp add: serialize_start f_def Let_def)
      show ?thesis
      proof (cases "length ?xs > 1")
        case True
        note long = this
        have "8 * (length ds + 1) \<le> length room" using ready by (simp add: rpc_ready_def)
        then have "8 * length ?xs \<le> length room" by (rule le_trans [OF mult_le_mono2 [OF len]])
        then have "write_dests_index C ?xs 0 0 (unat (hd_length h)) (hc_bytes C (h\<lparr>hd_flag := f\<rparr>) @ body @ room) =
            Some (length as + 1, hc_bytes C (h\<lparr>hd_flag := f\<rparr>) @ body @ dests_bytes ?xs @ drop (8 * length ?xs) room)"
          using write_dests_index_bytes [of "take (8 * length ?xs) room" ?xs 0 0 "h\<lparr>hd_flag := f\<rparr>" body "drop (8 * length ?xs) room"]
            pos [of "h\<lparr>hd_flag := f\<rparr>"] last_index_found [OF ab(2), of as 0 0] by simp
        then have ser: "serialize_head_dests C k (hc_bytes C h @ body @ room) ds =
            Some (len_int (hd_length h + word_of_nat (8 * length ?xs)),
              hc_bytes C (broadcast (h\<lparr>hd_flag := f\<rparr>) (length as + 1) (length ?xs)) @ body @ dests_bytes ?xs @
                drop (8 * length ?xs) room, ?xs)"
          using start long broadcast_head_index [of "length as + 1" "length ?xs" "h\<lparr>hd_flag := f\<rparr>"] by simp
        have "listed k h ds = ?xs" using ne dpos ab(1) long by (simp add: listed_def)
        then show ?thesis
          by (rule arrives_broadcast [OF ready long len fits _ ser fl(2)]) (rule disjI2, rule exI [of _ as], rule exI [of _ bs],
              use dpos ab(1,3) f4(1) in simp)
      next
        case False
        then have "as = []" "bs = []" by simp_all
        then have ds: "ds = [?d]" using ab(1,3) ne by (auto split: if_splits)
        then show ?thesis
          by (intro arrives_plain [OF ready, where f = f and h' = "h\<lparr>hd_flag := f, hd_destination := target h ds\<rparr>" and ds' = ?xs])
            (use start False dpos f4 fl \<open>as = []\<close> \<open>bs = []\<close> ne ab(1) in \<open>auto simp: serialize_bytes target_def targets_def listed_def\<close>)
      qed
    qed
  qed
qed

end

section \<open>The four heads\<close>

text \<open>C29: A message to several destinations and back, for each of the four heads and for destinations in a set or a
  vector: \<^verbatim>\<open>serialize_head\<close> returns the number of bytes to send, and \<^verbatim>\<open>parse_head\<close> on them gives back the head (but
  for the two flags it uses itself), the body and exactly the destinations the message was sent with; the head's
  own destination is restored, or is the source or the only destination when it had none.  The conditions,
  \<open>rpc_ready\<close>: the length field is that of head and body; 0 is none of the destinations (it means no destination);
  every destination fits the head's destination field, 32 bits for the first two heads; head and body end below
  \<open>2 ^ 16\<close> bytes for these two heads, whose offset of the list has 16 bits (beyond: \<open>narrow_offset_lost\<close>), and below
  \<open>2 ^ 32\<close> for the others; the length of the whole message, which counts one entry more than there are
  destinations, fits the length field and is below \<open>2 ^ 31\<close>, and the block has room for it; there are fewer
  than \<open>2 ^ 15 - 1\<close> destinations, in ascending order without repetition for a set.\<close>

theorem rpc_heads_roundtrip:
  "(rpc_ready SL_Rpc_MessageHead 16 k h1 body room ds \<longrightarrow> rpc_arrives SL_Rpc_MessageHead k h1 body room ds) \<and>
   (rpc_ready SL_Rpc_MessageHeadEx 16 k h2 body room ds \<longrightarrow> rpc_arrives SL_Rpc_MessageHeadEx k h2 body room ds) \<and>
   (rpc_ready SL_Rpc_MessageHeadEx2 32 k h3 body room ds \<longrightarrow> rpc_arrives SL_Rpc_MessageHeadEx2 k h3 body room ds) \<and>
   (rpc_ready SL_Rpc_MessageHeadEx3 32 k h4 body room ds \<longrightarrow> rpc_arrives SL_Rpc_MessageHeadEx3 k h4 body room ds)"
  using head.rpc_roundtrip head_ex.rpc_roundtrip head_ex2.rpc_roundtrip head_ex3.rpc_roundtrip by blast

definition demo_head :: msg_head where
  "demo_head = \<lparr>hd_length = 27, hd_flag = 0, hd_source = 7, hd_destination = 9, rh_type = 3, rh_sequence = 1, rh_attach_id = 0\<rparr>"

definition demo_head_ex3 :: msg_head_ex3 where
  "demo_head_ex3 = \<lparr>hd_length = 43, hd_flag = 0, hd_source = 7, hd_destination = 0, rz_type = 3, rz_reserved = 0, rz_sequence = 1,
     rz_attach_id1 = 0, rz_attach_id2 = 0\<rparr>"

theorem rpc_heads_roundtrip_witness:
  "rpc_arrives SL_Rpc_MessageHead Std_set demo_head [1, 2, 3] (replicate 40 0) [5, 11] \<and>
   rpc_arrives SL_Rpc_MessageHeadEx3 Std_vector demo_head_ex3 [1, 2, 3] (replicate 40 0) [11, 5]"
proof (rule conjI)
  have "rpc_ready SL_Rpc_MessageHead 16 Std_set demo_head [1, 2, 3] (replicate 40 0) [5, 11]"
    by (simp add: rpc_ready_def demo_head_def SL_Rpc_MessageHead_def dest_fits_def)
  then show "rpc_arrives SL_Rpc_MessageHead Std_set demo_head [1, 2, 3] (replicate 40 0) [5, 11]"
    using rpc_heads_roundtrip by blast
  have "rpc_ready SL_Rpc_MessageHeadEx3 32 Std_vector demo_head_ex3 [1, 2, 3] (replicate 40 0) [11, 5]"
    by (simp add: rpc_ready_def demo_head_ex3_def SL_Rpc_MessageHeadEx3_def dest_fits_def)
  then show "rpc_arrives SL_Rpc_MessageHeadEx3 Std_vector demo_head_ex3 [1, 2, 3] (replicate 40 0) [11, 5]"
    using rpc_heads_roundtrip by blast
qed

text \<open>
  The two heads with a 32-bit destination have 16 bits for the offset of the list: behind a body of 64 kilobytes the upper
  bits of the offset are read as the index, and the list is looked for inside the body.\<close>

theorem narrow_offset_lost:
  assumes "2 ^ 16 \<le> unat d" "unat d < 2 ^ 31"
  shows "rh_split (h\<lparr>hd_destination := d\<rparr>) =
    (int (unat d div 2 ^ 16), h\<lparr>hd_destination := word_of_nat (unat d mod 2 ^ 16)\<rparr>) \<and> 0 < unat d div 2 ^ 16"
proof -
  have u: "unat (drop_bit 16 d) = unat d div 2 ^ 16" by (simp add: unsigned_drop_bit_eq drop_bit_eq_div unat_div)
  then have "sint (drop_bit 16 d) = int (unat d div 2 ^ 16)" using assms sint_unat_small [of "drop_bit 16 d"] by simp
  moreover have "d AND 0xffff = take_bit 16 d" by (simp add: take_bit_eq_mask mask_eq_exp_minus_1)
  then have "d AND 0xffff = word_of_nat (unat d mod 2 ^ 16)"
    by (simp add: word_unat_eq_iff unat_of_nat take_bit_eq_mod unsigned_take_bit_eq unat_mod)
  ultimately show ?thesis using assms by (simp add: rh_split_def)
qed

end
