(* ===== verification/SL_RpcClass.thy ===== *)
theory SL_RpcClass
  imports SL_RpcMessage SL_BinaryProtocol
begin

text \<open>
  \<^verbatim>\<open>SL_Rpc_Message\<close> of \<^verbatim>\<open>include/SL_Rpc_Message.h\<close>: a head, a body and destinations, serialised
  into an \<^verbatim>\<open>SL_ByteBuffer\<close> and parsed from a received block.  The body is a structure generated by Thrift, here the
  sequence of the protocol calls its \<^verbatim>\<open>write\<close> and \<^verbatim>\<open>read\<close> make; the encoding chooses the protocol.
\<close>

section \<open>Bodies\<close>

definition ENCODE_THRIFT :: nat where "ENCODE_THRIFT = 0"
definition ENCODE_THRIFT_COMPACT_PROTOCOL :: nat where "ENCODE_THRIFT_COMPACT_PROTOCOL = 3"

definition serialize_to_buffer :: "allocator \<Rightarrow> nat \<Rightarrow> cp_call list \<Rightarrow> byte_buffer \<Rightarrow> (bool \<times> byte_buffer) option" where
  "serialize_to_buffer hp encode_type body buf =
     (if encode_type = ENCODE_THRIFT then do { (_, w) \<leftarrow> wire_put_all (bw_call hp) body buf; Some (True, w) }
      else if encode_type = ENCODE_THRIFT_COMPACT_PROTOCOL then do {
        (_, w) \<leftarrow> wire_put_all (cw_call hp) body (cw_new buf); Some (True, cw_buf w) }
      else Some (False, buf))"

text \<open>A body that cannot be read leaves an exception behind, which the code catches.\<close>

definition parse_to_body :: "nat \<Rightarrow> cp_call list \<Rightarrow> byte list \<Rightarrow> cp_call list option" where
  "parse_to_body encode_type body data =
     (if encode_type = ENCODE_THRIFT then
        (case wire_get_all br_call body data of Inl _ \<Rightarrow> None | Inr (cs, _, _) \<Rightarrow> Some cs)
      else if encode_type = ENCODE_THRIFT_COMPACT_PROTOCOL then
        (case wire_get_all cr_call body (cr_new data) of Inl _ \<Rightarrow> None | Inr (cs, _, _) \<Rightarrow> Some cs)
      else None)"

section \<open>The message\<close>

record 'h rpc_message =
  rm_head :: 'h
  rm_body :: "cp_call list"
  rm_destinations :: "uint64 list"

definition rm_add_destination :: "destinations_kind \<Rightarrow> uint64 \<Rightarrow> 'h rpc_message \<Rightarrow> 'h rpc_message" where
  "rm_add_destination k x msg = msg\<lparr>rm_destinations := dest_insert k x (rm_destinations msg)\<rparr>"

definition rm_clear_destinations :: "'h rpc_message \<Rightarrow> 'h rpc_message" where
  "rm_clear_destinations msg = msg\<lparr>rm_destinations := []\<rparr>"

text \<open>
  \<^verbatim>\<open>parse\<close> takes the head as it is in the block, where \<^verbatim>\<open>parse_head\<close> has already converted it.
  The result is the return value and the message.
\<close>

definition rm_parse ::
  "('l::len, 'f::len, 'd::len, 'z) head_class \<Rightarrow> destinations_kind \<Rightarrow> nat \<Rightarrow> byte list \<Rightarrow> nat \<Rightarrow>
    ('l, 'f, 'd, 'z) head_fields_scheme rpc_message \<Rightarrow> (bool \<times> ('l, 'f, 'd, 'z) head_fields_scheme rpc_message) option"
where
  "rm_parse C k encode_type data len msg = do {
     h \<leftarrow> hc_load C data;
     ds \<leftarrow> (if hd_flag h AND FLAG_LOCAL_BROADCAST \<noteq> 0
           then read_dests C k data len (unat (hd_length h)) (rm_destinations msg)
           else Some (dest_insert k (ucast (hd_destination h)) (rm_destinations msg)));
     let msg = msg\<lparr>rm_head := h, rm_destinations := ds\<rparr>;
     d \<leftarrow> mem_get data (hc_size C) (len - hc_size C);
     Some (case parse_to_body encode_type (rm_body msg) d of
             None \<Rightarrow> (False, msg)
           | Some body \<Rightarrow> (True, msg\<lparr>rm_body := body\<rparr>)) }"

text \<open>\<^verbatim>\<open>buf->write\<close> of every destination; the second version also looks for the head's own.\<close>

fun rm_write_dests :: "('l::len, 'f::len, 'd::len, 'z) head_class \<Rightarrow> allocator \<Rightarrow> uint64 list \<Rightarrow> byte_buffer \<Rightarrow> byte_buffer option" where
  "rm_write_dests C hp [] buf = Some buf"
| "rm_write_dests C hp (x # xs) buf = do { (_, buf) \<leftarrow> bb_write hp buf (dest_enc C x) 8 100; rm_write_dests C hp xs buf }"

fun rm_write_index ::
  "('l::len, 'f::len, 'd::len, 'z) head_class \<Rightarrow> allocator \<Rightarrow> 'd word \<Rightarrow> uint64 list \<Rightarrow> nat \<Rightarrow> nat \<Rightarrow> byte_buffer \<Rightarrow> (nat \<times> byte_buffer) option"
where
  "rm_write_index C hp dest [] i index buf = Some (index, buf)"
| "rm_write_index C hp dest (x # xs) i index buf = do {
     let index = (if x = ucast dest then i + 1 else index);
     (_, buf) \<leftarrow> bb_write hp buf (dest_enc C x) 8 100;
     rm_write_index C hp dest xs (i + 1) index buf }"

text \<open>\<^verbatim>\<open>sl_memcpy(buf->data(), &head_, sizeof(THead))\<close> and the conversion in place.\<close>

definition rm_put_head ::
  "('l::len, 'f::len, 'd::len, 'z) head_class \<Rightarrow> (('l, 'f, 'd, 'z) head_fields_scheme \<Rightarrow> ('l, 'f, 'd, 'z) head_fields_scheme) \<Rightarrow>
    ('l, 'f, 'd, 'z) head_fields_scheme \<Rightarrow> byte_buffer \<Rightarrow> byte_buffer option"
where
  "rm_put_head C ser h buf = do {
     let pos = unat (bb_data_begin buf);
     m \<leftarrow> mem_put (block (bb_buffer buf)) pos (hc_bytes C h);
     g \<leftarrow> hc_load C (drop pos m);
     m \<leftarrow> mem_put m pos (hc_bytes C (ser g));
     Some (buf\<lparr>bb_buffer := map_option (\<lambda>_. m) (bb_buffer buf)\<rparr>) }"

definition rm_finish ::
  "('l::len, 'f::len, 'd::len, 'z) head_class \<Rightarrow> ('l, 'f, 'd, 'z) head_fields_scheme \<Rightarrow> byte_buffer \<Rightarrow>
    (('l, 'f, 'd, 'z) head_fields_scheme \<times> byte_buffer) option"
where
  "rm_finish C h buf = do {
     let h = h\<lparr>hd_length := ucast (bb_data_size buf)\<rparr>;
     buf \<leftarrow> rm_put_head C (hc_serialize C) h buf;
     Some (h, buf) }"

definition rm_finish_broadcast ::
  "('l::len, 'f::len, 'd::len, 'z) head_class \<Rightarrow> (('l, 'f, 'd, 'z) head_fields_scheme \<Rightarrow> ('l, 'f, 'd, 'z) head_fields_scheme) \<Rightarrow>
    nat \<Rightarrow> ('l, 'f, 'd, 'z) head_fields_scheme \<Rightarrow> byte_buffer \<Rightarrow> (('l, 'f, 'd, 'z) head_fields_scheme \<times> byte_buffer) option"
where
  "rm_finish_broadcast C ser n h buf = do {
     let h = h\<lparr>hd_flag := hd_flag h OR FLAG_LOCAL_BROADCAST,
               hd_destination := ucast (ucast (bb_data_size buf) - word_of_nat (8 * n) :: uint64),
               hd_length := ucast (bb_data_size buf)\<rparr>;
     buf \<leftarrow> rm_put_head C ser h buf;
     Some (h, buf) }"

text \<open>What is done with the head \<open>h\<close> and the destinations once the body is in the buffer.\<close>

definition rm_address ::
  "('l::len, 'f::len, 'd::len, 'z) head_class \<Rightarrow> destinations_kind \<Rightarrow> allocator \<Rightarrow> ('l, 'f, 'd, 'z) head_fields_scheme \<Rightarrow>
    ('l, 'f, 'd, 'z) head_fields_scheme rpc_message \<Rightarrow> byte_buffer \<Rightarrow>
    (bool \<times> ('l, 'f, 'd, 'z) head_fields_scheme rpc_message \<times> byte_buffer) option"
where
  "rm_address C k hp h msg buf =
     (let ds = rm_destinations msg in
      if ds \<noteq> [] then
        if hd_destination h > 0 then do {
          let xs = dest_insert k (ucast (hd_destination h)) ds;
          let h = (if length ds < length xs then h\<lparr>hd_flag := hd_flag h OR FLAG_NOT_DESTINATIONS\<rparr> else h);
          (h, buf) \<leftarrow>
            (if length xs > 1 then do {
               (i, buf) \<leftarrow> rm_write_index C hp (hd_destination h) xs 0 0 buf;
               rm_finish_broadcast C (hc_serialize_index C (int i)) (length xs) h buf }
             else rm_finish C h buf);
          Some (True, msg\<lparr>rm_head := h, rm_destinations := xs\<rparr>, buf) }
        else do {
          (h, buf) \<leftarrow>
            (if length ds > 1 then do {
               buf \<leftarrow> rm_write_dests C hp ds buf;
               rm_finish_broadcast C (hc_serialize C) (length ds) h buf }
             else rm_finish C (h\<lparr>hd_destination := ucast (hd ds)\<rparr>) buf);
          Some (True, msg\<lparr>rm_head := h\<rparr>, buf) }
      else do {
        (h, buf) \<leftarrow> rm_finish C (if hd_destination h \<le> 0 then h\<lparr>hd_destination := hd_source h\<rparr> else h) buf;
        Some (True, msg\<lparr>rm_head := h\<rparr>, buf) })"

definition rm_serialize ::
  "('l::len, 'f::len, 'd::len, 'z) head_class \<Rightarrow> destinations_kind \<Rightarrow> allocator \<Rightarrow> uint \<Rightarrow> nat \<Rightarrow>
    ('l, 'f, 'd, 'z) head_fields_scheme rpc_message \<Rightarrow> byte_buffer \<Rightarrow>
    (bool \<times> ('l, 'f, 'd, 'z) head_fields_scheme rpc_message \<times> byte_buffer) option"
where
  "rm_serialize C k hp message_type encode_type msg buf = do {
     let buf = snd (bb_reserve hp buf (word_of_nat (hc_size C)));
     let buf = bb_set_begin buf (bb_data_begin buf + word_of_nat (hc_size C));
     (ok, buf) \<leftarrow> serialize_to_buffer hp encode_type (rm_body msg) buf;
     let buf = bb_set_begin buf (bb_data_begin buf - word_of_nat (hc_size C));
     if ok then do {
       let h = rm_head msg;
       let h = h\<lparr>hd_flag := hd_flag h AND NOT (FLAG_LOCAL_BROADCAST OR FLAG_NOT_DESTINATIONS)\<rparr>;
       let h = hc_default_type C message_type h;
       rm_address C k hp h msg buf }
     else Some (False, msg, buf) }"

section \<open>The buffer\<close>

lemma bb_block_split:
  assumes "bb_wf b"
  obtains p t where "block (bb_buffer b) = p @ bb_bytes b @ t" "length p = unat (bb_data_begin b)"
    "unat (bb_data_end b) = length p + length (bb_bytes b)" "length t = bb_room b"
proof -
  let ?m = "block (bb_buffer b)"
  note w = bb_wfD [OF assms]
  have "?m = take (unat (bb_data_begin b)) ?m @ bb_bytes b @ drop (unat (bb_data_end b)) ?m"
    using w by (simp add: bb_bytes_def window_def drop_take) (metis append_take_drop_id drop_drop le_add_diff_inverse2)
  then show thesis using w
    by (intro that [of "take (unat (bb_data_begin b)) ?m" "drop (unat (bb_data_end b)) ?m"]) (simp_all add: bb_bytes_def bb_room_def)
qed

lemma data_size_bytes: "bb_wf b \<Longrightarrow> bb_data_size b = word_of_nat (length (bb_bytes b))"
  by (simp flip: unat_bb_data_size)

text \<open>Skipping \<open>n\<close> bytes of an empty buffer, and taking them back in front of what was written since.\<close>

lemma skip_front:
  assumes "bw_ok b" "bb_data_begin b = 0" "bb_data_end b = 0" "unat n \<le> bb_room b"
  shows "bw_ok (bb_set_begin b (bb_data_begin b + n))" "bb_bytes (bb_set_begin b (bb_data_begin b + n)) = []"
    "bb_data_begin (bb_set_begin b (bb_data_begin b + n)) = n" "bb_room (bb_set_begin b (bb_data_begin b + n)) + unat n = bb_room b"
  using assms
  by (auto simp: bw_ok_def bb_set_begin_def bb_wf_def bb_bytes_def bb_room_def word_le_nat_alt word_less_nat_alt Let_def)

lemma take_back_front:
  assumes "bw_ok b" "bb_data_begin b = n"
  obtains g where "bw_ok (bb_set_begin b (bb_data_begin b - n))" "length g = unat n"
    "bb_bytes (bb_set_begin b (bb_data_begin b - n)) = g @ bb_bytes b" "bb_room (bb_set_begin b (bb_data_begin b - n)) = bb_room b"
proof -
  have wf: "bb_wf b" using assms by (simp add: bw_ok_def)
  note w = bb_wfD [OF wf]
  have b: "bb_set_begin b (bb_data_begin b - n) = b\<lparr>bb_data_begin := 0\<rparr>" using assms by (simp add: bb_set_begin_def Let_def)
  let ?g = "window 0 (unat n) (block (bb_buffer b))"
  have "bb_bytes (b\<lparr>bb_data_begin := 0\<rparr>) = ?g @ bb_bytes b"
    using window_split [of 0 "unat n" "unat (bb_data_end b)" "block (bb_buffer b)"] w assms(2) by (simp add: bb_bytes_def)
  moreover have "length ?g = unat n" using w assms(2) by simp
  moreover have "bw_ok (b\<lparr>bb_data_begin := 0\<rparr>)" "bb_room (b\<lparr>bb_data_begin := 0\<rparr>) = bb_room b"
    using assms(1) w by (simp_all add: bw_ok_def bb_wf_def bb_room_def)
  ultimately show thesis using that [of ?g] unfolding b by simp
qed

context rpc_head
begin

lemma put_head_bytes:
  assumes "bw_ok b" "bb_bytes b = g @ r" "length g = hc_size C"
  obtains b' where "rm_put_head C ser h b = Some b'" "bb_bytes b' = hc_bytes C (ser h) @ r"
proof -
  obtain p t where pt: "block (bb_buffer b) = p @ (g @ r) @ t" "length p = unat (bb_data_begin b)"
    "unat (bb_data_end b) = length p + length (g @ r)"
    by (rule bb_block_split [of b]) (use assms(1,2) in \<open>simp_all add: bw_ok_def\<close>)
  have put: "mem_put (p @ x @ r @ t) (unat (bb_data_begin b)) (hc_bytes C y) = Some (p @ hc_bytes C y @ r @ t)"
    if "length x = hc_size C" for x y
    using that by (simp add: mem_put_def length_bytes flip: pt(2))
  let ?b' = "b\<lparr>bb_buffer := map_option (\<lambda>_. p @ hc_bytes C (ser h) @ r @ t) (bb_buffer b)\<rparr>"
  have "rm_put_head C ser h b = Some ?b'"
    using put [OF assms(3), of h] put [OF length_bytes, of h "ser h"] pt(2)
    by (simp add: rm_put_head_def pt(1) Let_def load_bytes)
  moreover have "bb_bytes ?b' = hc_bytes C (ser h) @ r"
  proof (cases "bb_buffer b")
    case None
    then have "p = []" "g = []" "r = []" "t = []" using pt(1) by simp_all
    then show ?thesis using None pt(2,3) assms(3) length_bytes [of "ser h"] by (simp add: bb_bytes_def)
  next
    case (Some m)
    then show ?thesis using pt(2,3) assms(3) by (simp add: bb_bytes_def window_def length_bytes flip: pt(2))
  qed
  ultimately show thesis by (rule that)
qed

lemma write_enc:
  assumes "bw_ok b" "8 \<le> bb_room b"
  obtains b' where "bb_write hp b (dest_enc C x) 8 100 = Some (True, b')" "bw_step b (dest_enc C x) b'"
  using bw_write_step [OF assms(1), of "dest_enc C x" 8 hp] assms(2) by auto

lemma rm_write_dests_step:
  "bw_ok b \<Longrightarrow> 8 * length xs \<le> bb_room b \<Longrightarrow> \<exists>b'. rm_write_dests C hp xs b = Some b' \<and> bw_step b (dests_bytes xs) b'"
proof (induction xs arbitrary: b)
  case Nil
  then show ?case by (simp add: bw_step_def)
next
  case (Cons x xs)
  then have "8 \<le> bb_room b" by simp
  from write_enc [OF Cons.prems(1) this, of hp x] obtain b1 where b1: "bb_write hp b (dest_enc C x) 8 100 = Some (True, b1)"
    "bw_step b (dest_enc C x) b1" .
  then have "bw_ok b1" "8 * length xs \<le> bb_room b1" using Cons.prems by (simp_all add: bw_step_def)
  from Cons.IH [OF this] show ?case using b1 by (auto dest: bw_step_trans [OF b1(2)])
qed

lemma rm_write_index_step:
  "bw_ok b \<Longrightarrow> 8 * length xs \<le> bb_room b \<Longrightarrow>
    \<exists>b'. rm_write_index C hp d xs i j b = Some (last_index (ucast d) xs i j, b') \<and> bw_step b (dests_bytes xs) b'"
proof (induction xs arbitrary: b i j)
  case Nil
  then show ?case by (simp add: bw_step_def)
next
  case (Cons x xs)
  then have "8 \<le> bb_room b" by simp
  from write_enc [OF Cons.prems(1) this, of hp x] obtain b1 where b1: "bb_write hp b (dest_enc C x) 8 100 = Some (True, b1)"
    "bw_step b (dest_enc C x) b1" .
  then have "bw_ok b1" "8 * length xs \<le> bb_room b1" using Cons.prems by (simp_all add: bw_step_def)
  from Cons.IH [OF this, of "i + 1" "if x = ucast d then i + 1 else j"]
  show ?case using b1 by (auto simp: Let_def dest: bw_step_trans [OF b1(2)])
qed

end

lemma body_step:
  assumes "bw_ok b" "wire_track bp_track cs () = Some ()" "sum_list (map (\<lambda>c. length (bp_bytes c)) cs) \<le> bb_room b"
  obtains body b' where "serialize_to_buffer hp ENCODE_THRIFT cs b = Some (True, b')" "bw_step b body b'"
    "length body \<le> sum_list (map (\<lambda>c. length (bp_bytes c)) cs)"
    "\<And>rest. parse_to_body ENCODE_THRIFT cs (body @ rest) = Some (map bp_norm cs)"
proof -
  have "bw_ok b \<and> bb_data_begin b = bb_data_begin b" using assms(1) by simp
  from binary.put_get_all [where h = hp, OF this assms(2,3)] show thesis
    by (elim exE conjE, intro that) (auto simp: serialize_to_buffer_def parse_to_body_def bw_step_def)
qed

section \<open>What a message promises\<close>

text \<open>The head \<open>serialize\<close> sends: the flags it uses itself cleared, and the type of the class when there is none.\<close>

definition rm_sent_head ::
  "('l::len, 'f::len, 'd::len, 'z) head_class \<Rightarrow> uint \<Rightarrow> ('l, 'f, 'd, 'z) head_fields_scheme rpc_message \<Rightarrow> ('l, 'f, 'd, 'z) head_fields_scheme"
where
  "rm_sent_head C t msg = hc_default_type C t ((rm_head msg)\<lparr>hd_flag := no_flags (hd_flag (rm_head msg))\<rparr>)"

definition rm_need :: "('l::len, 'f::len, 'd::len, 'z) head_class \<Rightarrow> ('l, 'f, 'd, 'z) head_fields_scheme rpc_message \<Rightarrow> nat" where
  "rm_need C msg = hc_size C + sum_list (map (\<lambda>c. length (bp_bytes c)) (rm_body msg))"

text \<open>An empty buffer with room, a body the protocol can write, and destinations the head can carry.\<close>

definition rm_ready ::
  "('l::len, 'f::len, 'd::len, 'z) head_class \<Rightarrow> nat \<Rightarrow> destinations_kind \<Rightarrow>
    ('l, 'f, 'd, 'z) head_fields_scheme rpc_message \<Rightarrow> byte_buffer \<Rightarrow> bool"
where
  "rm_ready C half k msg buf \<longleftrightarrow>
     (let ds = rm_destinations msg; n = 8 * (length ds + 1) in
      bb_wf buf \<and> bb_owner buf \<and> bb_data_begin buf = 0 \<and> bb_data_end buf = 0 \<and>
      wire_track bp_track (rm_body msg) () = Some () \<and> rm_need C msg + n \<le> bb_room buf \<and> rm_need C msg < 2 ^ half \<and>
      rm_need C msg + n < 2 ^ LENGTH('l) \<and> rm_need C msg + n < 2 ^ 31 \<and> length ds + 1 < 2 ^ 15 \<and>
      dests_ok k ds \<and> 0 \<notin> set ds \<and> list_all (dest_fits C) ds)"

definition rm_arrives ::
  "('l::len, 'f::len, 'd::len, 'z) head_class \<Rightarrow> destinations_kind \<Rightarrow> allocator \<Rightarrow> uint \<Rightarrow>
    ('l, 'f, 'd, 'z) head_fields_scheme rpc_message \<Rightarrow> byte_buffer \<Rightarrow> bool"
where
  "rm_arrives C k hp t msg buf \<longleftrightarrow>
     (let g = rm_sent_head C t msg; ds = rm_destinations msg in
      \<exists>msg' buf' data f n ds'.
        rm_serialize C k hp t ENCODE_THRIFT msg buf = Some (True, msg', buf') \<and>
        parse_head_dests C k (bb_bytes buf') (length (bb_bytes buf')) [] = Some (data, targets g ds) \<and>
        rm_parse C k ENCODE_THRIFT data (length data) (msg\<lparr>rm_destinations := []\<rparr>) =
          Some (True, \<lparr>rm_head = g\<lparr>hd_length := n, hd_flag := f, hd_destination := target g ds\<rparr>,
            rm_body = map bp_norm (rm_body msg), rm_destinations = ds'\<rparr>) \<and>
        no_flags f = hd_flag g \<and> ds' = (if listed k g ds = [] then [ucast (target g ds)] else listed k g ds))"

context rpc_head
begin

lemma ucast_of_nat: "ucast (word_of_nat n :: uint) = (word_of_nat n :: 'l word)"
  using widths(3) by (intro bit_word_eqI) (simp add: bit_simps)

lemma finish_bytes:
  assumes "bw_ok b" "bb_bytes b = g @ body" "length g = hc_size C"
  obtains b' where "rm_finish C h b = Some (h\<lparr>hd_length := word_of_nat (hc_size C + length body)\<rparr>, b')"
    "bb_bytes b' = hc_bytes C (hc_serialize C (h\<lparr>hd_length := word_of_nat (hc_size C + length body)\<rparr>)) @ body"
proof -
  have "bb_data_size b = word_of_nat (hc_size C + length body)" using data_size_bytes [of b] assms by (simp add: bw_ok_def)
  then have "ucast (bb_data_size b) = (word_of_nat (hc_size C + length body) :: 'l word)" by (simp only: ucast_of_nat)
  note len = this
  let ?h = "h\<lparr>hd_length := word_of_nat (hc_size C + length body)\<rparr>"
  obtain b' where "rm_put_head C (hc_serialize C) ?h b = Some b'" "bb_bytes b' = hc_bytes C (hc_serialize C ?h) @ body"
    using put_head_bytes [OF assms] by blast
  then show thesis by (intro that [of b']) (simp_all only: rm_finish_def len Let_def Option.bind.bind_lunit)
qed

lemma finish_broadcast_bytes:
  assumes b: "bw_ok b" "bb_bytes b = g @ body @ r" "length g = hc_size C" "length r = 8 * n"
    and N: "N = hc_size C + length body" "N + 8 * n < 2 ^ 31" "N + 8 * n < 2 ^ LENGTH('l)"
    and ser: "\<And>h. ser h = hc_serialize C (h\<lparr>hd_destination := push_bit half (word_of_int (int i)) OR hd_destination h\<rparr>)"
  obtains h' b' where "rm_finish_broadcast C ser n h b = Some (h', b')"
    "bb_bytes b' = hc_bytes C (broadcast (h\<lparr>hd_length := word_of_nat N\<rparr>) i n) @ body @ r"
proof -
  have "bb_data_size b = word_of_nat (N + 8 * n)" using data_size_bytes [of b] b N(1) by (simp add: bw_ok_def)
  then have len: "ucast (bb_data_size b) = (word_of_nat (N + 8 * n) :: 'l word)" by (simp only: ucast_of_nat)
  have "(ucast (bb_data_size b) :: uint64) = word_of_nat (N + 8 * n)"
    using \<open>bb_data_size b = _\<close> N(2) by (simp add: word_unat_eq_iff unsigned_ucast_eq unat_of_nat take_bit_nat_eq_self del: of_nat_add)
  then have "(ucast (bb_data_size b) - word_of_nat (8 * n) :: uint64) = word_of_nat N" by simp
  moreover have "ucast (word_of_nat N :: uint64) = (ucast (word_of_nat N :: 'l word) :: 'd word)"
  proof -
    have "(2 :: nat) ^ LENGTH('l) \<le> 2 ^ LENGTH('d)" by (rule power_increasing [OF widths(1)]) simp
    then have "N < 2 ^ LENGTH('l)" "N < 2 ^ LENGTH('d)" using N(2,3) by linarith+
    moreover have "N < 2 ^ 64" using N(2) by simp
    ultimately show ?thesis by (simp add: word_unat_eq_iff unsigned_ucast_eq unat_of_nat take_bit_nat_eq_self)
  qed
  ultimately have dest: "ucast (ucast (bb_data_size b) - word_of_nat (8 * n) :: uint64) = (ucast (word_of_nat N :: 'l word) :: 'd word)"
    by simp
  let ?h = "h\<lparr>hd_flag := hd_flag h OR FLAG_LOCAL_BROADCAST, hd_destination := ucast (word_of_nat N :: 'l word),
    hd_length := word_of_nat (N + 8 * n)\<rparr>"
  obtain b' where b': "rm_put_head C ser ?h b = Some b'" "bb_bytes b' = hc_bytes C (ser ?h) @ body @ r"
    using put_head_bytes [OF b(1-3)] by blast
  have "rm_finish_broadcast C ser n h b = Some (?h, b')"
    unfolding rm_finish_broadcast_def len dest using b'(1) by (simp add: Let_def)
  moreover have "ser ?h = broadcast (h\<lparr>hd_length := word_of_nat N\<rparr>) i n"
    by (simp add: ser broadcast_def length_after_destination)
  ultimately show thesis using that b'(2) by simp
qed

text \<open>The buffer holds what \<open>serialize_head\<close> makes of the same head and body.\<close>

lemma address_bytes:
  assumes buf: "bw_ok buf" "bb_bytes buf = g0 @ body" "length g0 = hc_size C" "8 * (length ds + 1) \<le> bb_room buf"
    and N: "N = hc_size C + length body" and h: "h = g\<lparr>hd_length := word_of_nat N\<rparr>" "no_flags (hd_flag g) = hd_flag g"
    and ready: "rpc_ready C half k h body room ds" and ds: "rm_destinations msg = ds"
    and ser: "serialize_head_dests C k (hc_bytes C h @ body @ room) ds = Some (int len, m, ds')"
  shows "\<exists>msg' buf'. rm_address C k hp g msg buf = Some (True, msg', buf') \<and> bb_bytes buf' = take len m"
proof -
  have r: "8 * (length ds + 1) \<le> length room" "unat (hd_length h) = N" "N + 8 * (length ds + 1) < 2 ^ 31"
    "N + 8 * (length ds + 1) < 2 ^ LENGTH('l)" "dests_ok k ds" using ready N by (auto simp: rpc_ready_def)
  have N0: "len_int (hd_length h) = int N" using ready_len [OF ready, of 0] r(2) by simp
  have Nx: "len_int (hd_length h + word_of_nat (8 * length xs)) = int (N + 8 * length xs)" if "length xs \<le> length ds + 1" for xs :: "uint64 list"
    using ready_len [OF ready that] r(2) by simp
  have plain: "\<exists>b'. rm_finish C x buf = Some (x\<lparr>hd_length := word_of_nat N\<rparr>, b') \<and>
      bb_bytes b' = take (nat (len_int (hd_length h))) (hc_bytes C (hc_serialize C (x\<lparr>hd_length := word_of_nat N\<rparr>)) @ body @ room)" for x
    unfolding N0 using finish_bytes [OF buf(1-3), of x] by (auto simp: N length_bytes)
  have list: "\<exists>x' b'. rm_finish_broadcast C f (length xs) x b1 = Some (x', b') \<and>
      bb_bytes b' = take (nat (len_int (hd_length h + word_of_nat (8 * length xs)))) (hc_bytes C (broadcast (x\<lparr>hd_length := word_of_nat N\<rparr>) i (length xs)) @ body @
        dests_bytes xs @ drop (8 * length xs) room)"
    if b1: "bw_step buf (dests_bytes xs) b1" and xs: "length xs \<le> length ds + 1"
      and f: "\<And>h. f h = hc_serialize C (h\<lparr>hd_destination := push_bit half (word_of_int (int i)) OR hd_destination h\<rparr>)"
    for xs b1 f x i
  proof -
    have "bw_ok b1" "bb_bytes b1 = g0 @ body @ dests_bytes xs" using b1 buf(2) by (simp_all add: bw_step_def)
    moreover have "N + 8 * length xs \<le> N + 8 * (length ds + 1)" using xs by simp
    then have "N + 8 * length xs < 2 ^ 31" "N + 8 * length xs < 2 ^ LENGTH('l)" using r(3,4) by (blast intro: le_less_trans)+
    ultimately obtain x' b' where "rm_finish_broadcast C f (length xs) x b1 = Some (x', b')"
      "bb_bytes b' = hc_bytes C (broadcast (x\<lparr>hd_length := word_of_nat N\<rparr>) i (length xs)) @ body @ dests_bytes xs"
      using finish_broadcast_bytes [of b1 g0 body "dests_bytes xs" "length xs" N f i x] buf(3) N f by auto
    then show ?thesis unfolding Nx [OF xs] nat_int by (intro exI [of _ x'] exI [of _ b']) (simp add: length_bytes N)
  qed
  have hh: "h\<lparr>hd_flag := no_flags (hd_flag h)\<rparr> = h" using h by (cases g) simp
  note ser' = ser [unfolded serialize_start hh Let_def]
  have g: "hd_destination h = hd_destination g" "hd_source h = hd_source g" "hd_flag h = hd_flag g" by (simp_all add: h(1))
  show ?thesis
  proof (cases "ds = []")
    case True
    let ?x = "if hd_destination g \<le> 0 then g\<lparr>hd_destination := hd_source g\<rparr> else g"
    have "?x\<lparr>hd_length := word_of_nat N\<rparr> = (if hd_destination h \<le> 0 then h\<lparr>hd_destination := hd_source h\<rparr> else h)"
      by (simp add: h(1) length_after_destination)
    then show ?thesis using plain [of ?x] ser' True by (auto simp: rm_address_def ds)
  next
    case False
    note ne = this
    show ?thesis
    proof (cases "hd_destination g > 0")
      case False
      show ?thesis
      proof (cases "length ds > 1")
        case True
        have "8 * length ds \<le> bb_room buf" using buf(4) by simp
        then obtain b1 where b1: "rm_write_dests C hp ds buf = Some b1" "bw_step buf (dests_bytes ds) b1"
          using rm_write_dests_step [OF buf(1)] by blast
        have "write_dests C ds (unat (hd_length h)) (hc_bytes C h @ body @ room) =
            Some (hc_bytes C h @ body @ dests_bytes ds @ drop (8 * length ds) room)"
          using write_dests_bytes [of "take (8 * length ds) room" ds "hc_bytes C h @ body" "drop (8 * length ds) room"] r(1,2) N
          by (simp add: length_bytes)
        then show ?thesis
          using list [OF b1(2), of "hc_serialize C" 0 g] ser' ne False True b1(1) broadcast_head_plain [of "length ds" h]
          by (auto simp: rm_address_def ds g h(1) [symmetric])
      next
        case one: False
        have "(g\<lparr>hd_destination := ucast (hd ds)\<rparr>)\<lparr>hd_length := word_of_nat N\<rparr> = h\<lparr>hd_destination := ucast (hd ds)\<rparr>"
          by (simp add: h(1) length_after_destination)
        then show ?thesis using plain [of "g\<lparr>hd_destination := ucast (hd ds)\<rparr>"] ser' ne False one
          by (auto simp: rm_address_def ds g)
      qed
    next
      case True
      let ?xs = "dest_insert k (ucast (hd_destination g)) ds"
      let ?g = "if length ds < length ?xs then g\<lparr>hd_flag := hd_flag g OR FLAG_NOT_DESTINATIONS\<rparr> else g"
      have xs: "length ?xs \<le> length ds + 1"
        by (cases k) (simp_all add: insort_insert_key_def)
      have gh: "?g\<lparr>hd_length := word_of_nat N\<rparr> =
          (if length ds < length ?xs then h\<lparr>hd_flag := hd_flag h OR FLAG_NOT_DESTINATIONS\<rparr> else h)"
        by (cases g) (simp add: h(1))
      show ?thesis
      proof (cases "length ?xs > 1")
        case long: True
        have "8 * length ?xs \<le> bb_room buf" using buf(4) by (rule order_trans [OF mult_le_mono2 [OF xs]])
        then obtain b1 where b1: "rm_write_index C hp (hd_destination g) ?xs 0 0 buf =
            Some (last_index (ucast (hd_destination g)) ?xs 0 0, b1)" "bw_step buf (dests_bytes ?xs) b1"
          using rm_write_index_step [OF buf(1)] by blast
        have "8 * length ?xs \<le> length room" using r(1) by (rule order_trans [OF mult_le_mono2 [OF xs]])
        then have w: "write_dests_index C ?xs 0 0 (unat (hd_length h)) (hc_bytes C x @ body @ room) =
            Some (last_index (ucast (hd_destination x)) ?xs 0 0, hc_bytes C x @ body @ dests_bytes ?xs @ drop (8 * length ?xs) room)" for x
          using write_dests_index_bytes [of "take (8 * length ?xs) room" ?xs 0 0 x body "drop (8 * length ?xs) room"] r(2) N
          by (simp add: length_bytes)
        have d: "hd_destination ?g = hd_destination g" "hd_length ?g = hd_length g" by simp_all
        show ?thesis
          using list [OF b1(2) xs, of "hc_serialize_index C (int (last_index (ucast (hd_destination g)) ?xs 0 0))"
              "last_index (ucast (hd_destination g)) ?xs 0 0" ?g, OF serialize_index] ser' ne True long b1(1) w
              broadcast_head_index [of "last_index (ucast (hd_destination g)) ?xs 0 0" "length ?xs"]
          unfolding gh by (auto simp: rm_address_def ds g Let_def)
      next
        case False
        then show ?thesis using plain [of ?g] ser' ne True unfolding gh by (auto simp: rm_address_def ds g Let_def)
      qed
    qed
  qed
qed

lemma parse_sent:
  assumes N: "N = hc_size C + length body" "unat (n :: 'l word) = N" and xs: "list_all (dest_fits C) xs" "dests_ok k xs"
    and h: "hd_length h = n" "hd_flag h AND FLAG_LOCAL_BROADCAST \<noteq> 0 \<longleftrightarrow> xs \<noteq> []"
    and body: "\<And>rest. parse_to_body e (rm_body msg) (body @ rest) = Some cs"
    and data: "data = hc_bytes C h @ body @ dests_bytes xs"
  shows "rm_parse C k e data (length data) (msg\<lparr>rm_destinations := []\<rparr>) =
    Some (True, \<lparr>rm_head = h, rm_body = cs, rm_destinations = (if xs = [] then [ucast (hd_destination h)] else xs)\<rparr>)"
proof -
  have "mem_get data (hc_size C) (length data - hc_size C) = Some (body @ dests_bytes xs)"
    by (simp add: data mem_get_def length_bytes)
  moreover have "read_dests C k data (length data) (unat n) [] = Some xs" if "xs \<noteq> []"
    using read_dests_bytes [OF xs(1), of k "hc_bytes C h @ body" "[]"] fold_dest_insert [of k "[]" xs] xs(2) N
    by (simp add: data length_bytes add.assoc)
  moreover have "hc_load C data = Some h" by (simp add: data load_bytes)
  ultimately show ?thesis
    using h body [of "dests_bytes xs"] by (cases "xs = []") (simp_all add: rm_parse_def Let_def)
qed

lemma listed_ok:
  fixes h :: "('l, 'f, 'd, 'z) head_fields_scheme"
  assumes "dests_ok k ds" "list_all (dest_fits C) ds"
  shows "dests_ok k (listed k h ds)" "list_all (dest_fits C) (listed k h ds)"
proof -
  let ?d = "ucast (hd_destination h) :: uint64"
  from dest_insert_split [OF assms(1), of ?d] obtain as bs where ab: "dest_insert k ?d ds = as @ ?d # bs" "dests_ok k (as @ ?d # bs)"
    "as @ (if length ds < length (dest_insert k ?d ds) then [] else [?d]) @ bs = ds" by metis
  have "ucast ?d = hd_destination h" by (rule ucast_wide) (use widths(2) in simp)
  then have "dest_fits C ?d" by (simp add: dest_fits_def)
  moreover have "set (as @ ?d # bs) \<subseteq> insert ?d (set ds)" using ab(3) by (auto split: if_splits)
  ultimately have "list_all (dest_fits C) (dest_insert k ?d ds)" using assms(2) unfolding ab(1) list_all_iff by blast
  then show "list_all (dest_fits C) (listed k h ds)" using assms(2) by (simp add: listed_def Let_def)
  show "dests_ok k (listed k h ds)" using ab(1,2) assms(1) by (cases k) (simp_all add: listed_def Let_def)
qed

lemma message_roundtrip:
  assumes ready: "rm_ready C half k msg buf"
  shows "rm_arrives C k hp t msg buf"
proof -
  let ?ds = "rm_destinations msg" and ?g = "rm_sent_head C t msg" and ?n = "word_of_nat (hc_size C) :: uint"
  have r: "bw_ok buf" "bb_data_begin buf = 0" "bb_data_end buf = 0" "wire_track bp_track (rm_body msg) () = Some ()"
    "rm_need C msg + 8 * (length ?ds + 1) \<le> bb_room buf" "rm_need C msg < 2 ^ half"
    "rm_need C msg + 8 * (length ?ds + 1) < 2 ^ LENGTH('l)" "rm_need C msg + 8 * (length ?ds + 1) < 2 ^ 31"
    "length ?ds + 1 < 2 ^ 15" "dests_ok k ?ds" "0 \<notin> set ?ds" "list_all (dest_fits C) ?ds"
    using ready by (simp_all add: rm_ready_def bw_ok_def Let_def)
  have size: "hc_size C \<le> bb_room buf" using r(5) by (simp add: rm_need_def)
  then have room: "hc_size C \<le> unat (bb_buffer_size buf)" by (simp add: bb_room_def)
  then have un: "unat ?n = hc_size C" using unat_le_lt32 [OF room] by (simp add: unat_of_nat)
  have reserve: "snd (bb_reserve hp buf ?n) = buf"
    using r(1) room un by (simp add: bb_reserve_def bw_ok_def word_less_nat_alt)
  define b1 where "b1 = bb_set_begin buf (bb_data_begin buf + ?n)"
  have b1: "bw_ok b1" "bb_bytes b1 = []" "bb_data_begin b1 = ?n" "bb_room b1 + hc_size C = bb_room buf"
    using skip_front [OF r(1-3), of ?n] size un by (simp_all add: b1_def)
  have "sum_list (map (\<lambda>c. length (bp_bytes c)) (rm_body msg)) \<le> bb_room b1" using r(5) b1(4) by (simp add: rm_need_def)
  from body_step [OF b1(1) r(4) this, of hp] obtain body b2 where
    b2: "serialize_to_buffer hp ENCODE_THRIFT (rm_body msg) b1 = Some (True, b2)" "bw_step b1 body b2"
    and body: "length body \<le> sum_list (map (\<lambda>c. length (bp_bytes c)) (rm_body msg))"
    "\<And>rest. parse_to_body ENCODE_THRIFT (rm_body msg) (body @ rest) = Some (map bp_norm (rm_body msg))" by metis
  have "bw_ok b2" "bb_data_begin b2 = ?n" using b1(3) b2(2) by (simp_all add: bw_step_def)
  from take_back_front [OF this] obtain g0 where
    b3: "bw_ok (bb_set_begin b2 (bb_data_begin b2 - ?n))" "length g0 = hc_size C"
    "bb_bytes (bb_set_begin b2 (bb_data_begin b2 - ?n)) = g0 @ body" "bb_room (bb_set_begin b2 (bb_data_begin b2 - ?n)) = bb_room b2"
    using b1(2) b2(2) un unfolding bw_step_def by auto
  define N where "N = hc_size C + length body"
  have NB: "N \<le> rm_need C msg" using body(1) by (simp add: N_def rm_need_def)
  define h where "h = ?g\<lparr>hd_length := word_of_nat N\<rparr>"
  have uN: "unat (word_of_nat N :: 'l word) = N" using NB r(7) by (simp add: unat_of_nat)
  have flag: "no_flags (hd_flag ?g) = hd_flag ?g" by (simp add: rm_sent_head_def default_type no_flags_set)
  let ?room = "replicate (8 * (length ?ds + 1)) (0 :: byte)"
  have rr: "rpc_ready C half k h body ?room ?ds"
    using r NB uN by (simp add: rpc_ready_def h_def N_def)
  obtain len m ds' f tail where arr: "serialize_head_dests C k (hc_bytes C h @ body @ ?room) ?ds = Some (int len, m, ds')"
    "len \<le> length m" "parse_head_dests C k (take len m) len [] =
       Some (hc_bytes C (h\<lparr>hd_flag := f, hd_destination := target h ?ds\<rparr>) @ body @ tail, targets h ?ds)"
    "no_flags f = no_flags (hd_flag h)" "f AND FLAG_LOCAL_BROADCAST \<noteq> 0 \<longleftrightarrow> listed k h ?ds \<noteq> []"
    "tail = dests_bytes (listed k h ?ds)"
    using rpc_roundtrip [OF rr] unfolding rpc_arrives_def dests_bytes_def by blast
  have "8 * (length ?ds + 1) \<le> bb_room b2" using b2(2) b1(4) r(5) body(1) by (simp add: bw_step_def rm_need_def)
  then have rb: "8 * (length ?ds + 1) \<le> bb_room (bb_set_begin b2 (bb_data_begin b2 - ?n))" unfolding b3(4) .
  obtain msg' b4 where b4: "rm_address C k hp ?g msg (bb_set_begin b2 (bb_data_begin b2 - ?n)) = Some (True, msg', b4)"
    "bb_bytes b4 = take len m"
    using address_bytes [OF b3(1,3,2) rb N_def h_def flag rr refl arr(1), of hp] by blast
  have ser: "rm_serialize C k hp t ENCODE_THRIFT msg buf = Some (True, msg', b4)"
    using b2(1) b4(1) reserve by (simp add: rm_serialize_def rm_sent_head_def no_flags_def Let_def flip: b1_def)
  have same: "targets h ?ds = targets ?g ?ds" "target h ?ds = target ?g ?ds" "listed k h ?ds = listed k ?g ?ds" "hd_flag h = hd_flag ?g"
    by (simp_all add: h_def targets_def target_def listed_def)
  let ?h = "h\<lparr>hd_flag := f, hd_destination := target ?g ?ds\<rparr>"
  let ?data = "hc_bytes C ?h @ body @ dests_bytes (listed k ?g ?ds)"
  have parse: "rm_parse C k ENCODE_THRIFT ?data (length ?data) (msg\<lparr>rm_destinations := []\<rparr>) =
      Some (True, \<lparr>rm_head = ?h, rm_body = map bp_norm (rm_body msg),
        rm_destinations = (if listed k ?g ?ds = [] then [ucast (target ?g ?ds)] else listed k ?g ?ds)\<rparr>)"
    using parse_sent [OF N_def uN listed_ok(2,1) _ _ body(2), where k = k and h = ?h and data = ?data] r(10,12) arr(5) same(3) by (simp add: h_def)
  show ?thesis
    unfolding rm_arrives_def Let_def
  proof (intro exI conjI)
    show "parse_head_dests C k (bb_bytes b4) (length (bb_bytes b4)) [] = Some (?data, targets ?g ?ds)"
      using arr(2,3,6) b4(2) same by simp
    show "no_flags f = hd_flag ?g" using arr(4) same(4) flag by simp
    show "rm_parse C k ENCODE_THRIFT ?data (length ?data) (msg\<lparr>rm_destinations := []\<rparr>) =
      Some (True, \<lparr>rm_head = ?g\<lparr>hd_length := word_of_nat N, hd_flag := f, hd_destination := target ?g ?ds\<rparr>,
        rm_body = map bp_norm (rm_body msg),
        rm_destinations = (if listed k ?g ?ds = [] then [ucast (target ?g ?ds)] else listed k ?g ?ds)\<rparr>)"
      using parse by (simp add: h_def)
  qed (use ser in auto)
qed

end

section \<open>The four heads\<close>

text \<open>C30: A message of the class, with each of the four heads, across the network: the body written by the Thrift binary
  protocol behind the room for the head, the destinations behind the body, and the head put in front.  \<^verbatim>\<open>serialize\<close>
  succeeds; \<^verbatim>\<open>parse_head\<close> on the bytes of the buffer gives back the destinations, and \<^verbatim>\<open>parse\<close> on what it leaves
  then the head (its length and the two broadcast flags apart) and the values of the body, though the bytes of
  the list still follow it.  The destinations \<^verbatim>\<open>parse\<close> itself collects are all of the list, the head's own
  destination included even when the flag \<^verbatim>\<open>NOT_DESTINATIONS\<close> says that it is none of them, which \<^verbatim>\<open>parse\<close> ignores, or
  the head's one destination when there is no list.  The conditions, \<open>rm_ready\<close>: an empty buffer
  that owns its block, starts at 0 and has room for everything; a body the protocol can write; and for the
  destinations and lengths those of the heads alone: 0 is no destination, destinations fit the head's field, head
  and body end below \<open>2 ^ 16\<close> bytes for the two heads with a 32-bit destination and below \<open>2 ^ 32\<close> for the
  others, the whole fits the length field and is below \<open>2 ^ 31\<close>, fewer than \<open>2 ^ 15 - 1\<close> destinations, in
  ascending order without repetition for a set.\<close>

theorem rpc_message_roundtrip:
  "(rm_ready SL_Rpc_MessageHead 16 k m1 buf \<longrightarrow> rm_arrives SL_Rpc_MessageHead k hp t m1 buf) \<and>
   (rm_ready SL_Rpc_MessageHeadEx 16 k m2 buf \<longrightarrow> rm_arrives SL_Rpc_MessageHeadEx k hp t m2 buf) \<and>
   (rm_ready SL_Rpc_MessageHeadEx2 32 k m3 buf \<longrightarrow> rm_arrives SL_Rpc_MessageHeadEx2 k hp t m3 buf) \<and>
   (rm_ready SL_Rpc_MessageHeadEx3 32 k m4 buf \<longrightarrow> rm_arrives SL_Rpc_MessageHeadEx3 k hp t m4 buf)"
  using head.message_roundtrip head_ex.message_roundtrip head_ex2.message_roundtrip head_ex3.message_roundtrip by blast

definition demo_message :: "msg_head_ex3 rpc_message" where
  "demo_message = \<lparr>rm_head = demo_head_ex3, rm_body = demo_compact, rm_destinations = [5, 11]\<rparr>"

theorem rpc_message_roundtrip_witness:
  "rm_arrives SL_Rpc_MessageHeadEx3 Std_set \<lparr>heap_ok = \<lambda>_. True, heap_junk = \<lambda>_. 0\<rparr> 4 demo_message
     (bb_new_size \<lparr>heap_ok = \<lambda>_. True, heap_junk = \<lambda>_. 0\<rparr> 256)"
proof -
  have "rm_ready SL_Rpc_MessageHeadEx3 32 Std_set demo_message (bb_new_size \<lparr>heap_ok = \<lambda>_. True, heap_junk = \<lambda>_. 0\<rparr> 256)"
    by (simp add: rm_ready_def rm_need_def demo_message_def demo_compact_def SL_Rpc_MessageHeadEx3_def dest_fits_def bb_wf_def
        bb_new_size_def sl_malloc_def bb_room_def T_STOP_def T_BOOL_def)
  then show ?thesis using rpc_message_roundtrip by blast
qed

end
