(* ===== verification/SL_ObjectPools.thy ===== *)
theory SL_ObjectPools
  imports SL_Prelude
begin

text \<open>
  The three object pools of \<^verbatim>\<open>include/SL_ObjectPool.h\<close>, which are interchangeable as template arguments, and their
  contract as the locale \<open>object_pool\<close>.  An object is its address; the operator \<^verbatim>\<open>new\<close> is the parameter
  \<open>fresh\<close>, which chooses an address that no living object has.  An operation holds the pool's mutex throughout, so it
  is one step.
\<close>

section \<open>Living objects\<close>

text \<open>\<open>n\<close> times \<^verbatim>\<open>new T()\<close>: the objects in the order of their creation.\<close>

fun new_objects :: "(nat list \<Rightarrow> nat) \<Rightarrow> nat \<Rightarrow> nat list \<Rightarrow> nat list" where
  "new_objects fresh 0 live = []"
| "new_objects fresh (Suc n) live = (let x = fresh live in x # new_objects fresh n (x # live))"

definition new_ok :: "(nat list \<Rightarrow> nat) \<Rightarrow> bool" where
  "new_ok fresh \<longleftrightarrow> (\<forall>live. fresh live \<notin> set live)"

fun delete_objects :: "nat list \<Rightarrow> nat list \<Rightarrow> nat list" where
  "delete_objects [] live = live"
| "delete_objects (x # xs) live = delete_objects xs (remove1 x live)"

lemma new_objects_fresh:
  assumes "new_ok fresh"
  shows "distinct (new_objects fresh n live)" "set (new_objects fresh n live) \<inter> set live = {}" "length (new_objects fresh n live) = n"
  using assms by (induction n arbitrary: live) (fastforce simp: new_ok_def Let_def)+

lemma delete_objects_set: "distinct live \<Longrightarrow> distinct (delete_objects xs live) \<and> set (delete_objects xs live) = set live - set xs"
  by (induction xs arbitrary: live) auto

section \<open>\<open>SL_ObjectPool\<close>: no pool at all\<close>

definition op_alloc_object :: "(nat list \<Rightarrow> nat) \<Rightarrow> nat list \<Rightarrow> (nat option \<times> nat list) option" where
  "op_alloc_object fresh live = (let x = fresh live in Some (Some x, x # live))"

definition op_free_object :: "nat \<Rightarrow> nat list \<Rightarrow> nat list" where
  "op_free_object x live = remove1 x live"

section \<open>\<open>SL_ObjectPool_Simple\<close>\<close>

record simple_pool =
  sp_live :: "nat list"
  sp_max_size :: uint
  sp_grow_size :: uint
  sp_free_size :: uint
  sp_free_objects :: "nat list"

definition sp_new :: simple_pool where
  "sp_new = \<lparr>sp_live = [], sp_max_size = 100000, sp_grow_size = 10, sp_free_size = 0, sp_free_objects = []\<rparr>"

definition sp_clear :: "simple_pool \<Rightarrow> simple_pool" where
  "sp_clear p = p\<lparr>sp_live := delete_objects (sp_free_objects p) (sp_live p), sp_free_objects := [], sp_free_size := 0\<rparr>"

definition sp_alloc_i :: "(nat list \<Rightarrow> nat) \<Rightarrow> uint \<Rightarrow> simple_pool \<Rightarrow> simple_pool" where
  "sp_alloc_i fresh n p =
     (let xs = new_objects fresh (unat n) (sp_live p)
      in p\<lparr>sp_live := rev xs @ sp_live p, sp_free_objects := sp_free_objects p @ xs, sp_free_size := sp_free_size p + n\<rparr>)"

definition sp_init :: "(nat list \<Rightarrow> nat) \<Rightarrow> uint \<Rightarrow> uint \<Rightarrow> uint \<Rightarrow> simple_pool \<Rightarrow> simple_pool" where
  "sp_init fresh max_size init_size grow_size p =
     (let p = sp_clear p;
          grow_size = (if grow_size < 1 then 1 else grow_size);
          init_size = (if init_size > max_size then max_size else init_size);
          grow_size = (if grow_size > max_size then max_size else grow_size)
      in sp_alloc_i fresh init_size (p\<lparr>sp_max_size := max_size, sp_grow_size := grow_size\<rparr>))"

text \<open>An empty pool grows, and the object handed out is yet another one.\<close>

definition sp_alloc_object :: "(nat list \<Rightarrow> nat) \<Rightarrow> simple_pool \<Rightarrow> (nat option \<times> simple_pool) option" where
  "sp_alloc_object fresh p =
     (if sp_free_objects p \<noteq> []
      then Some (Some (last (sp_free_objects p)),
        p\<lparr>sp_free_objects := butlast (sp_free_objects p), sp_free_size := sp_free_size p - 1\<rparr>)
      else
        let p = sp_alloc_i fresh (sp_grow_size p) p; x = fresh (sp_live p)
        in Some (Some x, p\<lparr>sp_live := x # sp_live p\<rparr>))"

definition sp_free_object :: "nat \<Rightarrow> simple_pool \<Rightarrow> simple_pool" where
  "sp_free_object x p =
     (if sp_free_size p < sp_max_size p
      then p\<lparr>sp_free_objects := sp_free_objects p @ [x], sp_free_size := sp_free_size p + 1\<rparr>
      else p\<lparr>sp_live := remove1 x (sp_live p)\<rparr>)"

section \<open>\<open>SL_ObjectPool_SimpleEx\<close>: chunks\<close>

record chunk_pool =
  ck_live :: "nat list"
  ck_max_chunk_size :: uint
  ck_per_chunk_size :: uint
  ck_current_chunk_size :: uint
  ck_free_objects :: "nat list"
  ck_object_chunks :: "nat list list"

definition ck_new :: chunk_pool where
  "ck_new = \<lparr>ck_live = [], ck_max_chunk_size = 10000, ck_per_chunk_size = 10, ck_current_chunk_size = 0,
     ck_free_objects = [], ck_object_chunks = []\<rparr>"

definition ck_clear :: "chunk_pool \<Rightarrow> chunk_pool" where
  "ck_clear p =
     (let p = (if ck_current_chunk_size p > 0
               then p\<lparr>ck_live := delete_objects (concat (ck_object_chunks p)) (ck_live p), ck_object_chunks := []\<rparr> else p)
      in p\<lparr>ck_free_objects := [], ck_current_chunk_size := 0\<rparr>)"

definition ck_alloc_i :: "(nat list \<Rightarrow> nat) \<Rightarrow> chunk_pool \<Rightarrow> chunk_pool" where
  "ck_alloc_i fresh p =
     (let chunk = new_objects fresh (unat (ck_per_chunk_size p)) (ck_live p)
      in p\<lparr>ck_live := rev chunk @ ck_live p, ck_free_objects := ck_free_objects p @ chunk,
           ck_object_chunks := ck_object_chunks p @ [chunk], ck_current_chunk_size := ck_current_chunk_size p + 1\<rparr>)"

definition ck_init :: "(nat list \<Rightarrow> nat) \<Rightarrow> uint \<Rightarrow> uint \<Rightarrow> uint \<Rightarrow> chunk_pool \<Rightarrow> chunk_pool" where
  "ck_init fresh max_chunk_size init_chunk_size per_chunk_size p =
     (let p = ck_clear p;
          (init_chunk_size, per_chunk_size) =
            (if init_chunk_size > max_chunk_size then (max_chunk_size, per_chunk_size)
             else if per_chunk_size = 0 then (init_chunk_size, 1) else (init_chunk_size, per_chunk_size))
      in (ck_alloc_i fresh ^^ unat init_chunk_size)
           (p\<lparr>ck_max_chunk_size := max_chunk_size, ck_per_chunk_size := per_chunk_size\<rparr>))"

text \<open>\<^verbatim>\<open>back()\<close> of an empty list is undefined.\<close>

definition ck_alloc_object :: "(nat list \<Rightarrow> nat) \<Rightarrow> chunk_pool \<Rightarrow> (nat option \<times> chunk_pool) option" where
  "ck_alloc_object fresh p =
     (if ck_free_objects p \<noteq> []
      then Some (Some (last (ck_free_objects p)), p\<lparr>ck_free_objects := butlast (ck_free_objects p)\<rparr>)
      else if ck_current_chunk_size p \<ge> ck_max_chunk_size p then Some (None, p)
      else
        let p = ck_alloc_i fresh p
        in if ck_free_objects p = [] then None
           else Some (Some (last (ck_free_objects p)), p\<lparr>ck_free_objects := butlast (ck_free_objects p)\<rparr>))"

definition ck_free_object :: "nat \<Rightarrow> chunk_pool \<Rightarrow> chunk_pool" where
  "ck_free_object x p = p\<lparr>ck_free_objects := ck_free_objects p @ [x]\<rparr>"

section \<open>The contract\<close>

text \<open>\<open>inv H p\<close>: the pool \<open>p\<close> when the objects of \<open>H\<close> are handed out; \<open>full H\<close>: it has no other.\<close>

locale object_pool =
  fixes alloc :: "'p \<Rightarrow> (nat option \<times> 'p) option"
    and free :: "nat \<Rightarrow> 'p \<Rightarrow> 'p"
    and inv :: "nat set \<Rightarrow> 'p \<Rightarrow> bool"
    and full :: "nat set \<Rightarrow> bool"
  assumes alloc: "inv H p \<Longrightarrow> (full H \<and> alloc p = Some (None, p)) \<or>
      (\<exists>x p'. \<not> full H \<and> alloc p = Some (Some x, p') \<and> x \<notin> H \<and> inv (insert x H) p')"
    and free: "inv H p \<Longrightarrow> x \<in> H \<Longrightarrow> inv (H - {x}) (free x p)"

definition op_inv :: "(nat list \<Rightarrow> nat) \<Rightarrow> nat set \<Rightarrow> nat list \<Rightarrow> bool" where
  "op_inv fresh H live \<longleftrightarrow> new_ok fresh \<and> distinct live \<and> H = set live"

text \<open>Every living object is either handed out or free, and the counters count.\<close>

definition sp_inv :: "(nat list \<Rightarrow> nat) \<Rightarrow> nat set \<Rightarrow> simple_pool \<Rightarrow> bool" where
  "sp_inv fresh H p \<longleftrightarrow>
     new_ok fresh \<and> distinct (sp_live p) \<and> distinct (sp_free_objects p) \<and> H \<inter> set (sp_free_objects p) = {} \<and>
     H \<union> set (sp_free_objects p) = set (sp_live p) \<and> unat (sp_free_size p) = length (sp_free_objects p) \<and>
     sp_free_size p \<le> sp_max_size p \<and> sp_grow_size p \<le> sp_max_size p"

definition ck_inv :: "(nat list \<Rightarrow> nat) \<Rightarrow> nat set \<Rightarrow> chunk_pool \<Rightarrow> bool" where
  "ck_inv fresh H p \<longleftrightarrow>
     new_ok fresh \<and> distinct (ck_live p) \<and> distinct (ck_free_objects p) \<and> H \<inter> set (ck_free_objects p) = {} \<and>
     H \<union> set (ck_free_objects p) = set (ck_live p) \<and> ck_per_chunk_size p \<noteq> 0 \<and>
     ck_current_chunk_size p \<le> ck_max_chunk_size p \<and> length (ck_object_chunks p) = unat (ck_current_chunk_size p) \<and>
     length (ck_live p) = unat (ck_current_chunk_size p) * unat (ck_per_chunk_size p)"

text \<open>A pool of chunks of given sizes, and how many objects it can hand out.\<close>

definition ck_sized :: "(nat list \<Rightarrow> nat) \<Rightarrow> uint \<Rightarrow> uint \<Rightarrow> nat set \<Rightarrow> chunk_pool \<Rightarrow> bool" where
  "ck_sized fresh most per H p \<longleftrightarrow> ck_inv fresh H p \<and> ck_max_chunk_size p = most \<and> ck_per_chunk_size p = per"

definition ck_full :: "uint \<Rightarrow> uint \<Rightarrow> nat set \<Rightarrow> bool" where
  "ck_full most per H \<longleftrightarrow> card H = unat most * unat per"

interpretation plain: object_pool "op_alloc_object fresh" op_free_object "op_inv fresh" "\<lambda>_. False" for fresh
  by unfold_locales (auto simp: op_alloc_object_def op_free_object_def op_inv_def new_ok_def Let_def)

lemma last_butlast: "xs \<noteq> [] \<Longrightarrow> distinct xs \<Longrightarrow> last xs \<in> set xs \<and> last xs \<notin> set (butlast xs) \<and> set xs = insert (last xs) (set (butlast xs))"
  by (cases xs rule: rev_cases) auto

lemma unat_next: "a < b \<Longrightarrow> unat (a + 1) = unat a + (1 :: nat)" for a b :: uint
  using unat_le_lt32 [of "unat a + 1" b] by (simp add: word_less_nat_alt unat_add_small)

lemma sp_alloc_i_inv:
  assumes "sp_inv fresh H p" "unat n + unat (sp_free_size p) \<le> unat (sp_max_size p)"
  shows "sp_inv fresh H (sp_alloc_i fresh n p)"
proof -
  let ?xs = "new_objects fresh (unat n) (sp_live p)"
  have i: "new_ok fresh" "distinct (sp_live p)" "distinct (sp_free_objects p)" "H \<inter> set (sp_free_objects p) = {}"
    "H \<union> set (sp_free_objects p) = set (sp_live p)" "unat (sp_free_size p) = length (sp_free_objects p)" "sp_grow_size p \<le> sp_max_size p"
    using assms(1) by (simp_all add: sp_inv_def)
  note f = new_objects_fresh [OF i(1), of "unat n" "sp_live p"]
  have "unat (sp_free_size p) + unat n < 2 ^ 32" using unat_le_lt32 [OF assms(2)] by simp
  then have "unat (sp_free_size p + n) = unat (sp_free_size p) + unat n" by (simp add: unat_add_small)
  then have "unat (sp_free_size p + n) = length (sp_free_objects p @ ?xs)" "sp_free_size p + n \<le> sp_max_size p"
    using i(6) f(3) assms(2) by (simp_all add: word_le_nat_alt)
  moreover have "H \<inter> set (sp_free_objects p @ ?xs) = {}" "H \<union> set (sp_free_objects p @ ?xs) = set (rev ?xs @ sp_live p)"
    "distinct (sp_free_objects p @ ?xs)" "distinct (rev ?xs @ sp_live p)"
    using i(2-5) f(1,2) by auto
  ultimately show ?thesis using i(1,7) by (simp add: sp_inv_def sp_alloc_i_def Let_def)
qed

lemma sp_init_inv: "new_ok fresh \<Longrightarrow> sp_inv fresh {} (sp_init fresh max_size init_size grow_size sp_new)"
  unfolding sp_init_def Let_def
  by (rule sp_alloc_i_inv) (auto simp: sp_inv_def sp_clear_def sp_new_def not_less word_le_nat_alt split: if_splits)

interpretation simple: object_pool "sp_alloc_object fresh" sp_free_object "sp_inv fresh" "\<lambda>_. False" for fresh
proof unfold_locales
  fix H p assume p: "sp_inv fresh H p"
  show "(False \<and> sp_alloc_object fresh p = Some (None, p)) \<or>
      (\<exists>x p'. \<not> False \<and> sp_alloc_object fresh p = Some (Some x, p') \<and> x \<notin> H \<and> sp_inv fresh (insert x H) p')"
  proof (cases "sp_free_objects p = []")
    case False
    let ?x = "last (sp_free_objects p)"
    have l: "?x \<in> set (sp_free_objects p)" "?x \<notin> set (butlast (sp_free_objects p))"
      "set (sp_free_objects p) = insert ?x (set (butlast (sp_free_objects p)))"
      using last_butlast [OF False] p by (simp_all add: sp_inv_def)
    have "0 < unat (sp_free_size p)" using p False by (simp add: sp_inv_def)
    then have "unat (sp_free_size p - 1) = unat (sp_free_size p) - 1" by (simp add: unat_sub_le)
    then have "sp_inv fresh (insert ?x H)
        (p\<lparr>sp_free_objects := butlast (sp_free_objects p), sp_free_size := sp_free_size p - 1\<rparr>)"
      using p l by (auto simp: sp_inv_def word_le_nat_alt distinct_butlast)
    moreover have "?x \<notin> H" using p l(1) by (auto simp: sp_inv_def)
    ultimately show ?thesis using False by (simp add: sp_alloc_object_def)
  next
    case True
    let ?p = "sp_alloc_i fresh (sp_grow_size p) p"
    have "unat (sp_free_size p) = 0" "sp_grow_size p \<le> sp_max_size p" using p True by (simp_all add: sp_inv_def)
    then have "sp_inv fresh H ?p" by (intro sp_alloc_i_inv [OF p]) (simp add: word_le_nat_alt)
    moreover have "fresh (sp_live ?p) \<notin> set (sp_live ?p)" using p by (simp add: sp_inv_def new_ok_def)
    ultimately have "fresh (sp_live ?p) \<notin> H" "sp_inv fresh (insert (fresh (sp_live ?p)) H) (?p\<lparr>sp_live := fresh (sp_live ?p) # sp_live ?p\<rparr>)"
      by (auto simp: sp_inv_def)
    then show ?thesis using True by (simp add: sp_alloc_object_def Let_def)
  qed
next
  fix H p x assume p: "sp_inv fresh H p" and x: "x \<in> H"
  show "sp_inv fresh (H - {x}) (sp_free_object x p)"
  proof (cases "sp_free_size p < sp_max_size p")
    case True
    then have "unat (sp_free_size p + 1) = unat (sp_free_size p) + 1" by (rule unat_next)
    then show ?thesis using p x True by (auto simp: sp_inv_def sp_free_object_def word_le_nat_alt word_less_nat_alt)
  next
    case False
    then show ?thesis using p x by (auto simp: sp_inv_def sp_free_object_def)
  qed
qed

lemma ck_alloc_i_inv:
  assumes "ck_inv fresh H p" "ck_current_chunk_size p < ck_max_chunk_size p"
  shows "ck_inv fresh H (ck_alloc_i fresh p)" "ck_free_objects (ck_alloc_i fresh p) \<noteq> []"
    "ck_current_chunk_size (ck_alloc_i fresh p) = ck_current_chunk_size p + 1" "ck_max_chunk_size (ck_alloc_i fresh p) = ck_max_chunk_size p"
proof -
  let ?xs = "new_objects fresh (unat (ck_per_chunk_size p)) (ck_live p)"
  have i: "new_ok fresh" "distinct (ck_live p)" "distinct (ck_free_objects p)" "H \<inter> set (ck_free_objects p) = {}"
    "H \<union> set (ck_free_objects p) = set (ck_live p)" "ck_per_chunk_size p \<noteq> 0" "length (ck_object_chunks p) = unat (ck_current_chunk_size p)"
    "length (ck_live p) = unat (ck_current_chunk_size p) * unat (ck_per_chunk_size p)"
    using assms(1) by (simp_all add: ck_inv_def)
  note f = new_objects_fresh [OF i(1), of "unat (ck_per_chunk_size p)" "ck_live p"]
  note u = unat_next [OF assms(2)]
  have "H \<inter> set (ck_free_objects p @ ?xs) = {}" "H \<union> set (ck_free_objects p @ ?xs) = set (rev ?xs @ ck_live p)"
    "distinct (ck_free_objects p @ ?xs)" "distinct (rev ?xs @ ck_live p)"
    using i(2-5) f(1,2) by auto
  moreover have "ck_current_chunk_size p + 1 \<le> ck_max_chunk_size p" using u assms(2) by (simp add: word_le_nat_alt word_less_nat_alt)
  ultimately show "ck_inv fresh H (ck_alloc_i fresh p)"
    using i(1,6-8) f(3) u by (simp add: ck_inv_def ck_alloc_i_def Let_def)
  have "?xs \<noteq> []" using f(3) i(6) by (auto simp: unat_eq_0)
  then show "ck_free_objects (ck_alloc_i fresh p) \<noteq> []" by (simp add: ck_alloc_i_def Let_def)
qed (simp_all add: ck_alloc_i_def Let_def)

lemma ck_alloc_i_per: "ck_per_chunk_size (ck_alloc_i fresh p) = ck_per_chunk_size p"
  by (simp add: ck_alloc_i_def Let_def)

lemma ck_take_inv:
  assumes "ck_inv fresh H p" "ck_free_objects p \<noteq> []"
  shows "last (ck_free_objects p) \<notin> H"
    "ck_inv fresh (insert (last (ck_free_objects p)) H) (p\<lparr>ck_free_objects := butlast (ck_free_objects p)\<rparr>)"
proof -
  have l: "last (ck_free_objects p) \<in> set (ck_free_objects p)" "last (ck_free_objects p) \<notin> set (butlast (ck_free_objects p))"
    "set (ck_free_objects p) = insert (last (ck_free_objects p)) (set (butlast (ck_free_objects p)))"
    using last_butlast [OF assms(2)] assms(1) by (simp_all add: ck_inv_def)
  then show "last (ck_free_objects p) \<notin> H" using assms(1) by (auto simp: ck_inv_def)
  show "ck_inv fresh (insert (last (ck_free_objects p)) H) (p\<lparr>ck_free_objects := butlast (ck_free_objects p)\<rparr>)"
    using assms(1) l by (auto simp: ck_inv_def distinct_butlast)
qed

lemma ck_handed_out:
  assumes "ck_inv fresh H p"
  shows "card H + length (ck_free_objects p) = unat (ck_current_chunk_size p) * unat (ck_per_chunk_size p)"
proof -
  have i: "distinct (ck_live p)" "distinct (ck_free_objects p)" "H \<inter> set (ck_free_objects p) = {}"
    "H \<union> set (ck_free_objects p) = set (ck_live p)"
    "length (ck_live p) = unat (ck_current_chunk_size p) * unat (ck_per_chunk_size p)"
    using assms by (simp_all add: ck_inv_def)
  have "finite H" using i(4) by (metis List.finite_set finite_Un)
  then have "card (H \<union> set (ck_free_objects p)) = card H + length (ck_free_objects p)"
    using i(2,3) by (simp add: card_Un_disjoint distinct_card)
  then show ?thesis unfolding i(4) using i(1,5) by (simp add: distinct_card)
qed

lemma ck_full_eq:
  assumes "ck_sized fresh most per H p"
  shows "ck_full most per H \<longleftrightarrow> ck_free_objects p = [] \<and> \<not> ck_current_chunk_size p < ck_max_chunk_size p"
proof -
  have i: "ck_inv fresh H p" "ck_max_chunk_size p = most" "ck_per_chunk_size p = per" "0 < unat per"
    "unat (ck_current_chunk_size p) \<le> unat most"
    using assms by (auto simp: ck_sized_def ck_inv_def word_le_nat_alt unat_gt_0)
  note h = ck_handed_out [OF i(1), unfolded i(3)]
  show ?thesis
  proof (cases "unat (ck_current_chunk_size p) = unat most")
    case True
    then show ?thesis using h i(2) by (auto simp: ck_full_def word_less_nat_alt)
  next
    case False
    then have "unat (ck_current_chunk_size p) < unat most" using i(5) by simp
    then have "unat (ck_current_chunk_size p) * unat per < unat most * unat per" using i(4) by simp
    then have "card H \<noteq> unat most * unat per" using h by linarith
    then show ?thesis using False i(2,5) by (simp add: ck_full_def word_less_nat_alt)
  qed
qed

interpretation chunked: object_pool "ck_alloc_object fresh" ck_free_object "ck_sized fresh most per" "ck_full most per"
  for fresh most per
proof unfold_locales
  fix H p assume s: "ck_sized fresh most per H p"
  then have p: "ck_inv fresh H p" "ck_max_chunk_size p = most" "ck_per_chunk_size p = per" by (simp_all add: ck_sized_def)
  note full = ck_full_eq [OF s]
  show "(ck_full most per H \<and> ck_alloc_object fresh p = Some (None, p)) \<or>
      (\<exists>x p'. \<not> ck_full most per H \<and> ck_alloc_object fresh p = Some (Some x, p') \<and> x \<notin> H \<and> ck_sized fresh most per (insert x H) p')"
  proof (cases "ck_free_objects p = [] \<and> ck_current_chunk_size p < ck_max_chunk_size p")
    case True
    note a = ck_alloc_i_inv [OF p(1) conjunct2 [OF True]]
    have "ck_per_chunk_size (ck_alloc_i fresh p) = per" using p(3) by (simp add: ck_alloc_i_def Let_def)
    then show ?thesis using ck_take_inv [OF a(1,2)] a(2,4) True p full
      by (simp add: ck_alloc_object_def ck_sized_def Let_def not_le)
  next
    case False
    then show ?thesis using ck_take_inv [OF p(1)] p full by (auto simp: ck_alloc_object_def ck_sized_def not_le)
  qed
next
  fix H p x assume "ck_sized fresh most per H p" "x \<in> H"
  then show "ck_sized fresh most per (H - {x}) (ck_free_object x p)" by (auto simp: ck_sized_def ck_inv_def ck_free_object_def)
qed

lemma ck_init_inv:
  assumes "new_ok fresh" "per \<noteq> 0 \<or> first \<le> most"
  shows "ck_sized fresh most (if per = 0 then 1 else per) {} (ck_init fresh most first per ck_new)"
proof -
  let ?per = "if first > most then per else if per = 0 then 1 else per" and ?first = "if first > most then most else first"
  let ?p = "ck_clear ck_new\<lparr>ck_max_chunk_size := most, ck_per_chunk_size := ?per\<rparr>"
  have n: "unat ?first \<le> unat most" by (simp add: word_le_nat_alt [symmetric] not_less)
  have "k \<le> unat most \<Longrightarrow> ck_inv fresh {} ((ck_alloc_i fresh ^^ k) ?p) \<and>
      unat (ck_current_chunk_size ((ck_alloc_i fresh ^^ k) ?p)) = k \<and> ck_max_chunk_size ((ck_alloc_i fresh ^^ k) ?p) = most \<and>
      ck_per_chunk_size ((ck_alloc_i fresh ^^ k) ?p) = ?per" for k
  proof (induction k)
    case 0
    show ?case using assms by (auto simp: ck_inv_def ck_clear_def ck_new_def not_le)
  next
    case (Suc k)
    let ?q = "(ck_alloc_i fresh ^^ k) ?p"
    have q: "ck_inv fresh {} ?q" "unat (ck_current_chunk_size ?q) = k" "ck_max_chunk_size ?q = most"
      "ck_per_chunk_size (ck_alloc_i fresh ?q) = ?per" using Suc by (simp_all add: ck_alloc_i_per)
    then have lt: "ck_current_chunk_size ?q < ck_max_chunk_size ?q" using Suc.prems by (simp add: word_less_nat_alt)
    show ?case using ck_alloc_i_inv [OF q(1) lt] unat_next [OF lt] q(2-4) by simp
  qed
  note this [OF n]
  then have all: "ck_sized fresh most ?per {} ((ck_alloc_i fresh ^^ unat ?first) ?p)" by (simp add: ck_sized_def)
  show ?thesis
  proof (cases "first > most")
    case True
    then have "per \<noteq> 0" using assms(2) by auto
    then show ?thesis using all True by (simp add: ck_init_def Let_def)
  next
    case False
    then show ?thesis using all by (cases "per = 0") (simp_all add: ck_init_def Let_def)
  qed
qed

text \<open>An initial size above the largest one hides the test of the chunk's size: a pool of empty chunks has no object to hand out.\<close>

lemma ck_empty_chunks:
  assumes "most < first"
  shows "ck_alloc_object fresh (ck_init fresh most first 0 ck_new) = Some (None, ck_init fresh most first 0 ck_new)"
proof -
  let ?p = "ck_clear ck_new\<lparr>ck_max_chunk_size := most, ck_per_chunk_size := 0\<rparr>"
  have "ck_free_objects ((ck_alloc_i fresh ^^ k) ?p) = [] \<and> ck_per_chunk_size ((ck_alloc_i fresh ^^ k) ?p) = 0 \<and>
      ck_current_chunk_size ((ck_alloc_i fresh ^^ k) ?p) = of_nat k \<and> ck_max_chunk_size ((ck_alloc_i fresh ^^ k) ?p) = most" for k
    by (induction k) (simp_all add: ck_alloc_i_def ck_clear_def ck_new_def Let_def)
  from this [of "unat most"] show ?thesis using assms by (simp add: ck_alloc_object_def ck_init_def Let_def)
qed

section \<open>An operator \<^verbatim>\<open>new\<close> for examples\<close>

definition next_address :: "nat list \<Rightarrow> nat" where
  "next_address live = Suc (sum_list live)"

lemma next_address_ok: "new_ok next_address"
proof -
  have "x \<in> set l \<Longrightarrow> x \<le> sum_list l" for x :: nat and l by (induction l) auto
  then show ?thesis unfolding new_ok_def next_address_def by (metis Suc_n_not_le_n)
qed

end
