(* ===== verification/SL_Fsm.thy ===== *)
theory SL_Fsm
  imports SL_ObjectPools "HOL-Library.AList"
begin

text \<open>
  The state machines of \<^verbatim>\<open>include/SL_Fsm_Manager.h\<close>: \<^verbatim>\<open>SL_Fsm_Manager\<close> takes machines from an object pool (its
  template argument, the parameters \<open>alloc\<close> and \<open>free\<close>), finds them by a number and gives them back when it sweeps
  the list of the machines that asked for it.  The members of a machine live at its address.
\<close>

record fsm =
  fsm_id :: uint
  fsm_state :: "nat option"
  fsm_collect_flag :: bool

record 'p fsm_manager =
  fm_pool :: 'p
  fm_map :: "(uint \<times> nat) list"
  fm_delete_list :: "nat list"
  fm_next_id :: uint
  fm_mem :: "nat \<Rightarrow> fsm"

definition fm_new :: "(nat \<Rightarrow> fsm) \<Rightarrow> 'p \<Rightarrow> 'p fsm_manager" where
  "fm_new mem pool = \<lparr>fm_pool = pool, fm_map = [], fm_delete_list = [], fm_next_id = 1, fm_mem = mem\<rparr>"

text \<open>\<^verbatim>\<open>init\<close>, with the pool's own \<^verbatim>\<open>init\<close> as a parameter.\<close>

definition fm_init :: "(uint \<Rightarrow> uint \<Rightarrow> uint \<Rightarrow> 'p \<Rightarrow> 'p) \<Rightarrow> uint \<Rightarrow> uint \<Rightarrow> uint \<Rightarrow> 'p fsm_manager \<Rightarrow> 'p fsm_manager" where
  "fm_init pool_init pool_size init_chunk_size per_chunk_size m =
     (let per_chunk_size = (if per_chunk_size < 1 then 1 else per_chunk_size)
      in m\<lparr>fm_next_id := 1, fm_pool := pool_init (pool_size div per_chunk_size + 1) init_chunk_size per_chunk_size (fm_pool m)\<rparr>)"

definition fm_get_used_count :: "'p fsm_manager \<Rightarrow> nat" where
  "fm_get_used_count m = length (fm_map m)"

definition fm_get_fsm :: "uint \<Rightarrow> 'p fsm_manager \<Rightarrow> nat option" where
  "fm_get_fsm k m = map_of (fm_map m) k"

text \<open>A machine that was allocated gets its number and a cleared mark; an insertion leaves an entry that is there.\<close>

definition fm_insert :: "uint \<Rightarrow> nat \<Rightarrow> 'p fsm_manager \<Rightarrow> 'p fsm_manager" where
  "fm_insert k x m =
     (let m = m\<lparr>fm_mem := (fm_mem m)(x := (fm_mem m x)\<lparr>fsm_id := k, fsm_collect_flag := False\<rparr>)\<rparr>
      in case map_of (fm_map m) k of None \<Rightarrow> m\<lparr>fm_map := AList.update k x (fm_map m)\<rparr> | Some _ \<Rightarrow> m)"

definition fm_create_id ::
  "('p \<Rightarrow> (nat option \<times> 'p) option) \<Rightarrow> uint \<Rightarrow> 'p fsm_manager \<Rightarrow> (nat option \<times> 'p fsm_manager) option"
where
  "fm_create_id alloc k m =
     (case fm_get_fsm k m of
        Some x \<Rightarrow> Some (Some x, m)
      | None \<Rightarrow> do {
          (r, pool) \<leftarrow> alloc (fm_pool m);
          let m = m\<lparr>fm_pool := pool\<rparr>;
          Some (case r of None \<Rightarrow> (None, m) | Some x \<Rightarrow> (Some x, fm_insert k x m)) })"

definition fm_create ::
  "('p \<Rightarrow> (nat option \<times> 'p) option) \<Rightarrow> 'p fsm_manager \<Rightarrow> (nat option \<times> 'p fsm_manager) option"
where
  "fm_create alloc m = do {
     (r, pool) \<leftarrow> alloc (fm_pool m);
     let m = m\<lparr>fm_pool := pool\<rparr>;
     Some (case r of None \<Rightarrow> (None, m)
           | Some x \<Rightarrow> (Some x, fm_insert (fm_next_id m) x (m\<lparr>fm_next_id := fm_next_id m + 1\<rparr>))) }"

text \<open>\<^verbatim>\<open>SL_Fsm_Base::collect\<close>, called on the machine \<open>x\<close>, and \<^verbatim>\<open>set_state\<close> without the call of the state's \<^verbatim>\<open>enter\<close>.\<close>

definition fsm_collect :: "nat \<Rightarrow> 'p fsm_manager \<Rightarrow> 'p fsm_manager" where
  "fsm_collect x m =
     (if \<not> fsm_collect_flag (fm_mem m x)
      then m\<lparr>fm_mem := (fm_mem m)(x := (fm_mem m x)\<lparr>fsm_collect_flag := True\<rparr>), fm_delete_list := fm_delete_list m @ [x]\<rparr>
      else m)"

definition fsm_set_state :: "nat \<Rightarrow> nat \<Rightarrow> 'p fsm_manager \<Rightarrow> 'p fsm_manager" where
  "fsm_set_state x s m = m\<lparr>fm_mem := (fm_mem m)(x := (fm_mem m x)\<lparr>fsm_state := Some s\<rparr>)\<rparr>"

fun fm_sweep :: "(nat \<Rightarrow> 'p \<Rightarrow> 'p) \<Rightarrow> nat list \<Rightarrow> 'p fsm_manager \<Rightarrow> 'p fsm_manager" where
  "fm_sweep free [] m = m"
| "fm_sweep free (x # xs) m =
     (let k = fsm_id (fm_mem m x);
          m = (if map_of (fm_map m) k \<noteq> None
               then m\<lparr>fm_map := AList.delete k (fm_map m), fm_pool := free x (fm_pool m)\<rparr> else m)
      in fm_sweep free xs m)"

definition fm_collect :: "(nat \<Rightarrow> 'p \<Rightarrow> 'p) \<Rightarrow> 'p fsm_manager \<Rightarrow> 'p fsm_manager" where
  "fm_collect free m = (fm_sweep free (fm_delete_list m) m)\<lparr>fm_delete_list := []\<rparr>"

definition fm_free_fsm :: "(nat \<Rightarrow> 'p \<Rightarrow> 'p) \<Rightarrow> uint \<Rightarrow> 'p fsm_manager \<Rightarrow> 'p fsm_manager" where
  "fm_free_fsm free k m =
     (case map_of (fm_map m) k of
        None \<Rightarrow> m
      | Some x \<Rightarrow>
          m\<lparr>fm_mem := (fm_mem m)(x := (fm_mem m x)\<lparr>fsm_collect_flag := True\<rparr>), fm_map := AList.delete k (fm_map m),
            fm_pool := free x (fm_pool m)\<rparr>)"

section \<open>Calls\<close>

datatype fsm_call = Create_id uint | Create | Collect uint | Set_state uint nat | Free uint | Sweep

text \<open>The application reaches a machine through its number.\<close>

fun fm_call ::
  "('p \<Rightarrow> (nat option \<times> 'p) option) \<Rightarrow> (nat \<Rightarrow> 'p \<Rightarrow> 'p) \<Rightarrow> fsm_call \<Rightarrow> 'p fsm_manager \<Rightarrow> (nat option \<times> 'p fsm_manager) option"
where
  "fm_call alloc free (Create_id k) m = fm_create_id alloc k m"
| "fm_call alloc free Create m = fm_create alloc m"
| "fm_call alloc free (Collect k) m = (case fm_get_fsm k m of None \<Rightarrow> Some (None, m) | Some x \<Rightarrow> Some (Some x, fsm_collect x m))"
| "fm_call alloc free (Set_state k s) m = (case fm_get_fsm k m of None \<Rightarrow> Some (None, m) | Some x \<Rightarrow> Some (Some x, fsm_set_state x s m))"
| "fm_call alloc free (Free k) m = Some (None, fm_free_fsm free k m)"
| "fm_call alloc free Sweep m = Some (None, fm_collect free m)"

text \<open>
  What a manager stands for: the living machines by their number, each with its object and the mark that it asked to be
  collected.  A number is chosen by the manager only when it is not in use, and a marked machine is left to the sweep.
\<close>

definition fm_abs :: "'p fsm_manager \<Rightarrow> uint \<rightharpoonup> nat \<times> bool" where
  "fm_abs m k = map_option (\<lambda>x. (x, fsm_collect_flag (fm_mem m x))) (fm_get_fsm k m)"

fun fm_allowed :: "fsm_call \<Rightarrow> 'p fsm_manager \<Rightarrow> bool" where
  "fm_allowed Create m \<longleftrightarrow> fm_abs m (fm_next_id m) = None"
| "fm_allowed (Free k) m \<longleftrightarrow> map_option snd (fm_abs m k) \<noteq> Some True"
| "fm_allowed c m \<longleftrightarrow> True"

inductive fm_reach ::
  "('p \<Rightarrow> (nat option \<times> 'p) option) \<Rightarrow> (nat \<Rightarrow> 'p \<Rightarrow> 'p) \<Rightarrow> 'p fsm_manager \<Rightarrow> 'p fsm_manager \<Rightarrow> bool"
  for alloc free m0
where
  fm_start: "fm_reach alloc free m0 m0"
| fm_step: "fm_reach alloc free m0 m \<Longrightarrow> fm_allowed c m \<Longrightarrow> fm_call alloc free c m = Some (r, m') \<Longrightarrow> fm_reach alloc free m0 m'"

text \<open>
  The contract of a call: what it answers (\<open>r\<close>) and makes of the living machines, when the pool is exhausted exactly for the
  sets of objects \<open>full\<close>.  A machine that is made gets an object that no living machine has.
\<close>

definition machine_objects :: "(uint \<rightharpoonup> nat \<times> bool) \<Rightarrow> nat set" where
  "machine_objects a = fst ` ran a"

definition fm_made :: "(nat set \<Rightarrow> bool) \<Rightarrow> uint \<Rightarrow> (uint \<rightharpoonup> nat \<times> bool) \<Rightarrow> nat option \<Rightarrow> (uint \<rightharpoonup> nat \<times> bool) \<Rightarrow> bool" where
  "fm_made full k a r a' \<longleftrightarrow>
     (case r of None \<Rightarrow> full (machine_objects a) \<and> a' = a
      | Some x \<Rightarrow> \<not> full (machine_objects a) \<and> x \<notin> machine_objects a \<and> a' = a(k \<mapsto> (x, False)))"

fun fm_spec ::
  "(nat set \<Rightarrow> bool) \<Rightarrow> uint \<Rightarrow> fsm_call \<Rightarrow> (uint \<rightharpoonup> nat \<times> bool) \<Rightarrow> nat option \<Rightarrow> (uint \<rightharpoonup> nat \<times> bool) \<Rightarrow> bool"
where
  "fm_spec full i (Create_id k) a r a' \<longleftrightarrow>
     (case a k of None \<Rightarrow> fm_made full k a r a' | Some p \<Rightarrow> r = Some (fst p) \<and> a' = a)"
| "fm_spec full i Create a r a' \<longleftrightarrow> fm_made full i a r a'"
| "fm_spec full i (Collect k) a r a' \<longleftrightarrow>
     (case a k of None \<Rightarrow> r = None \<and> a' = a | Some p \<Rightarrow> r = Some (fst p) \<and> a' = a(k \<mapsto> (fst p, True)))"
| "fm_spec full i (Set_state k s) a r a' \<longleftrightarrow> r = map_option fst (a k) \<and> a' = a"
| "fm_spec full i (Free k) a r a' \<longleftrightarrow> r = None \<and> a' = a(k := None)"
| "fm_spec full i Sweep a r a' \<longleftrightarrow> r = None \<and> a' = (\<lambda>k. if map_option snd (a k) = Some True then None else a k)"

section \<open>What every pool gives the manager\<close>

text \<open>
  Every machine is found under its own number and by one number only, the marked ones are those on the delete list,
  and the pool has handed out exactly the machines of the map.
\<close>

definition fm_objects :: "'p fsm_manager \<Rightarrow> nat set" where
  "fm_objects m = snd ` set (fm_map m)"

definition fm_map_ok :: "'p fsm_manager \<Rightarrow> bool" where
  "fm_map_ok m \<longleftrightarrow> distinct (map fst (fm_map m)) \<and> distinct (map snd (fm_map m)) \<and>
     (\<forall>(k, x) \<in> set (fm_map m). fsm_id (fm_mem m x) = k)"

definition fm_inv :: "(nat set \<Rightarrow> 'p \<Rightarrow> bool) \<Rightarrow> 'p fsm_manager \<Rightarrow> bool" where
  "fm_inv handed m \<longleftrightarrow> handed (fm_objects m) (fm_pool m) \<and> fm_map_ok m \<and> distinct (fm_delete_list m) \<and>
     set (fm_delete_list m) = {x \<in> fm_objects m. fsm_collect_flag (fm_mem m x)}"

lemma fm_lookup: "fm_map_ok m \<Longrightarrow> fm_get_fsm k m = Some x \<longleftrightarrow> (k, x) \<in> set (fm_map m)"
  by (simp add: fm_map_ok_def fm_get_fsm_def)

lemma fm_objects_lookup: "fm_map_ok m \<Longrightarrow> x \<in> fm_objects m \<longleftrightarrow> (\<exists>k. fm_get_fsm k m = Some x)"
  by (auto simp: fm_objects_def fm_lookup image_iff Bex_def)

lemma machine_objects_abs: "fm_map_ok m \<Longrightarrow> machine_objects (fm_abs m) = fm_objects m"
  by (force simp: machine_objects_def fm_abs_def ran_def fm_objects_lookup)

lemma fm_number: "fm_map_ok m \<Longrightarrow> fm_get_fsm k m = Some x \<Longrightarrow> fsm_id (fm_mem m x) = k"
  using fm_lookup [of m k x] by (simp add: fm_map_ok_def) fastforce

lemma delete_pairs:
  fixes ps :: "('a \<times> 'b) list"
  assumes "distinct (map fst ps)" "distinct (map snd ps)" "(k, x) \<in> set ps"
  shows "set (AList.delete k ps) = set ps - {(k, x)}" "snd ` set (AList.delete k ps) = snd ` set ps - {x}"
    "distinct (map snd (AList.delete k ps))"
proof -
  show s: "set (AList.delete k ps) = set ps - {(k, x)}"
  proof (rule set_eqI)
    fix q :: "'a \<times> 'b"
    have "q \<in> set ps \<Longrightarrow> fst q = k \<Longrightarrow> q = (k, x)"
      using eq_key_imp_eq_value [OF assms(1) assms(3), of "snd q"] by (cases q) simp
    then show "q \<in> set (AList.delete k ps) \<longleftrightarrow> q \<in> set ps - {(k, x)}" by (cases q) (auto simp: AList.delete_eq)
  qed
  have "inj_on snd (set ps)" using assms(2) by (simp add: distinct_map)
  then have "snd ` (set ps - {(k, x)}) = snd ` set ps - snd ` {(k, x)}"
    by (rule inj_on_image_set_diff) (use assms(3) in auto)
  then show "snd ` set (AList.delete k ps) = snd ` set ps - {x}" unfolding s by simp
  show "distinct (map snd (AList.delete k ps))" using assms(2) unfolding AList.delete_eq by (rule distinct_map_filter)
qed

lemma fm_delete:
  assumes "fm_map_ok m" "fm_get_fsm k m = Some x"
  shows "fm_map_ok (m\<lparr>fm_map := AList.delete k (fm_map m), fm_pool := p\<rparr>)"
    "snd ` set (AList.delete k (fm_map m)) = fm_objects m - {x}"
    "map_of (AList.delete k (fm_map m)) = (map_of (fm_map m))(k := None)"
  using assms delete_pairs [of "fm_map m" k x] distinct_delete [of "fm_map m" k] by (auto simp: fm_lookup fm_map_ok_def fm_objects_def delete_conv')

context object_pool
begin

lemma insert_keeps:
  assumes i: "fm_inv inv m" and k: "fm_get_fsm k m = None" and x: "x \<notin> fm_objects m" "inv (insert x (fm_objects m)) p"
  shows "fm_inv inv (fm_insert k x (m\<lparr>fm_pool := p, fm_next_id := n\<rparr>))"
    "fm_abs (fm_insert k x (m\<lparr>fm_pool := p, fm_next_id := n\<rparr>)) = (fm_abs m)(k \<mapsto> (x, False))"
proof -
  have n: "map_of (fm_map m) k = None" "k \<notin> fst ` set (fm_map m)"
    using k by (simp_all add: fm_get_fsm_def map_of_eq_None_iff)
  have o: "snd ` set (fm_map m) = fm_objects m" by (simp add: fm_objects_def)
  have u: "AList.update k x ps = ps @ [(k, x)]" if "k \<notin> fst ` set ps" for ps :: "(uint \<times> nat) list"
    using that by (induction ps) auto
  show "fm_inv inv (fm_insert k x (m\<lparr>fm_pool := p, fm_next_id := n\<rparr>))"
    using i x n by (force simp: fm_inv_def fm_map_ok_def fm_insert_def fm_objects_def Let_def u)
  show "fm_abs (fm_insert k x (m\<lparr>fm_pool := p, fm_next_id := n\<rparr>)) = (fm_abs m)(k \<mapsto> (x, False))"
  proof
    fix j
    have "fm_get_fsm j m \<noteq> Some x" using i x(1) by (auto simp: fm_inv_def fm_objects_lookup)
    then show "fm_abs (fm_insert k x (m\<lparr>fm_pool := p, fm_next_id := n\<rparr>)) j = ((fm_abs m)(k \<mapsto> (x, False))) j"
      using n by (cases "fm_get_fsm j m") (auto simp: fm_abs_def fm_get_fsm_def fm_insert_def Let_def update_conv')
  qed
qed

lemma sweep_keeps:
  assumes "inv (fm_objects m) (fm_pool m)" "fm_map_ok m" "distinct xs" "set xs \<subseteq> fm_objects m"
  shows "inv (fm_objects m - set xs) (fm_pool (fm_sweep free xs m)) \<and> fm_map_ok (fm_sweep free xs m) \<and>
    fm_objects (fm_sweep free xs m) = fm_objects m - set xs \<and> fm_mem (fm_sweep free xs m) = fm_mem m \<and>
    (\<forall>k. fm_get_fsm k (fm_sweep free xs m) = (case fm_get_fsm k m of Some x \<Rightarrow> if x \<in> set xs then None else Some x | None \<Rightarrow> None))"
  using assms
proof (induction xs arbitrary: m)
  case Nil
  then show ?case by (simp split: option.split)
next
  case (Cons x xs)
  let ?k = "fsm_id (fm_mem m x)"
  let ?m = "m\<lparr>fm_map := AList.delete ?k (fm_map m), fm_pool := free x (fm_pool m)\<rparr>"
  have x: "x \<in> fm_objects m" "x \<notin> set xs" using Cons.prems by simp_all
  then have l: "fm_get_fsm ?k m = Some x" using Cons.prems(2) fm_number [OF Cons.prems(2)] by (auto simp: fm_objects_lookup)
  have s: "fm_sweep free (x # xs) m = fm_sweep free xs ?m" using l by (simp add: fm_get_fsm_def Let_def)
  note d = fm_delete [OF Cons.prems(2) l]
  have o: "fm_objects ?m = fm_objects m - {x}" using d(2) by (simp add: fm_objects_def)
  have g: "fm_get_fsm k ?m = (if k = ?k then None else fm_get_fsm k m)" for k using d(3) by (simp add: fm_get_fsm_def)
  have "inv (fm_objects ?m) (fm_pool ?m)" using free [OF Cons.prems(1) x(1)] o by simp
  moreover have "set xs \<subseteq> fm_objects ?m" using Cons.prems(4) x(2) o by auto
  ultimately have i: "inv (fm_objects ?m - set xs) (fm_pool (fm_sweep free xs ?m)) \<and> fm_map_ok (fm_sweep free xs ?m) \<and>
      fm_objects (fm_sweep free xs ?m) = fm_objects ?m - set xs \<and> fm_mem (fm_sweep free xs ?m) = fm_mem ?m \<and>
      (\<forall>k. fm_get_fsm k (fm_sweep free xs ?m) = (case fm_get_fsm k ?m of Some x \<Rightarrow> if x \<in> set xs then None else Some x | None \<Rightarrow> None))"
    using Cons.IH [OF _ d(1)] Cons.prems(3) by simp
  have e: "fm_objects ?m - set xs = fm_objects m - set (x # xs)" using o by auto
  have "fm_get_fsm k (fm_sweep free (x # xs) m) =
      (case fm_get_fsm k m of Some y \<Rightarrow> if y \<in> set (x # xs) then None else Some y | None \<Rightarrow> None)" for k
    using i fm_number [OF Cons.prems(2), of k x] l unfolding s by (cases "fm_get_fsm k m") (auto simp: g)
  then show ?case using i unfolding s e by simp
qed

lemma collect_keeps:
  assumes "fm_inv inv m"
  shows "fm_inv inv (fm_collect free m)" "fm_abs (fm_collect free m) = (\<lambda>k. if map_option snd (fm_abs m k) = Some True then None else fm_abs m k)"
proof -
  let ?d = "set (fm_delete_list m)" and ?s = "fm_sweep free (fm_delete_list m) m"
  have d: "?d = {x \<in> fm_objects m. fsm_collect_flag (fm_mem m x)}" using assms by (simp add: fm_inv_def)
  have s: "inv (fm_objects m - ?d) (fm_pool ?s) \<and> fm_map_ok ?s \<and> fm_objects ?s = fm_objects m - ?d \<and> fm_mem ?s = fm_mem m \<and>
      (\<forall>k. fm_get_fsm k ?s = (case fm_get_fsm k m of Some x \<Rightarrow> if x \<in> ?d then None else Some x | None \<Rightarrow> None))"
    using sweep_keeps [of m "fm_delete_list m"] assms by (auto simp: fm_inv_def)
  show "fm_inv inv (fm_collect free m)" using s d by (auto simp: fm_inv_def fm_collect_def fm_map_ok_def fm_objects_def)
  show "fm_abs (fm_collect free m) = (\<lambda>k. if map_option snd (fm_abs m k) = Some True then None else fm_abs m k)"
  proof
    fix k
    have g: "fm_get_fsm k (fm_collect free m) = fm_get_fsm k ?s" "fm_mem (fm_collect free m) = fm_mem m"
      using s by (simp_all add: fm_collect_def fm_get_fsm_def)
    show "fm_abs (fm_collect free m) k = (if map_option snd (fm_abs m k) = Some True then None else fm_abs m k)"
    proof (cases "fm_get_fsm k m")
      case (Some x)
      then have "x \<in> ?d \<longleftrightarrow> fsm_collect_flag (fm_mem m x)" using assms d by (auto simp: fm_inv_def fm_objects_lookup)
      then show ?thesis using s Some by (auto simp: fm_abs_def g)
    qed (use s in \<open>simp add: fm_abs_def g\<close>)
  qed
qed

lemma mark_keeps:
  assumes i: "fm_inv inv m" and k: "fm_get_fsm k m = Some x"
  shows "fm_inv inv (fsm_collect x m)" "fm_abs (fsm_collect x m) = (fm_abs m)(k \<mapsto> (x, True))"
proof -
  have ok: "fm_map_ok m" and x: "x \<in> fm_objects m" using i k by (auto simp: fm_inv_def fm_objects_lookup)
  show "fm_inv inv (fsm_collect x m)"
    using i x by (auto simp: fm_inv_def fsm_collect_def fm_map_ok_def fm_objects_def)
  show "fm_abs (fsm_collect x m) = (fm_abs m)(k \<mapsto> (x, True))"
  proof
    fix j
    have "fm_get_fsm j m = Some x \<Longrightarrow> j = k" using fm_number [OF ok] k by metis
    then show "fm_abs (fsm_collect x m) j = ((fm_abs m)(k \<mapsto> (x, True))) j"
      using k by (cases "fm_get_fsm j m") (auto simp: fm_abs_def fsm_collect_def fm_get_fsm_def)
  qed
qed

lemma free_keeps:
  assumes i: "fm_inv inv m" and k: "map_option snd (fm_abs m k) \<noteq> Some True"
  shows "fm_inv inv (fm_free_fsm free k m)" "fm_abs (fm_free_fsm free k m) = (fm_abs m)(k := None)"
proof -
  have ok: "fm_map_ok m" using i by (simp add: fm_inv_def)
  show "fm_inv inv (fm_free_fsm free k m)"
  proof (cases "fm_get_fsm k m")
    case None
    then show ?thesis using i by (simp add: fm_free_fsm_def fm_get_fsm_def)
  next
    case (Some x)
    note d = fm_delete [OF ok Some]
    have x: "x \<in> fm_objects m" "x \<notin> set (fm_delete_list m)" using i k Some ok by (auto simp: fm_inv_def fm_objects_lookup fm_abs_def)
    have "inv (fm_objects m - {x}) (free x (fm_pool m))" using i x(1) by (simp add: fm_inv_def free)
    then show ?thesis using i d(1) [of "fm_pool m"] d(2) x Some
      by (auto simp: fm_inv_def fm_free_fsm_def fm_get_fsm_def fm_objects_def fm_map_ok_def)
  qed
  show "fm_abs (fm_free_fsm free k m) = (fm_abs m)(k := None)"
  proof
    fix j
    have "fm_get_fsm j m = Some x \<Longrightarrow> fm_get_fsm k m = Some x \<Longrightarrow> j = k" for x using fm_number [OF ok] by metis
    then show "fm_abs (fm_free_fsm free k m) j = ((fm_abs m)(k := None)) j"
      by (cases "fm_get_fsm k m"; cases "fm_get_fsm j m") (auto simp: fm_abs_def fm_free_fsm_def fm_get_fsm_def delete_conv')
  qed
qed

lemma create_keeps:
  assumes "fm_inv inv m" "fm_get_fsm k m = None" "alloc (fm_pool m) = Some (Some x, p)" "x \<notin> fm_objects m" "inv (insert x (fm_objects m)) p"
  shows "fm_inv inv (fm_insert k x (m\<lparr>fm_pool := p\<rparr>))" "fm_abs (fm_insert k x (m\<lparr>fm_pool := p\<rparr>)) = (fm_abs m)(k \<mapsto> (x, False))"
  using insert_keeps [OF assms(1,2,4,5), of "fm_next_id m"] by simp_all

lemma call_keeps:
  assumes i: "fm_inv inv m" and a: "fm_allowed c m"
  obtains r m' where "fm_call alloc free c m = Some (r, m')" "fm_inv inv m'" "fm_spec full (fm_next_id m) c (fm_abs m) r (fm_abs m')"
proof -
  have p: "inv (fm_objects m) (fm_pool m)" and o: "machine_objects (fm_abs m) = fm_objects m"
    using i by (simp_all add: fm_inv_def machine_objects_abs)
  have "\<exists>r m'. fm_call alloc free c m = Some (r, m') \<and> fm_inv inv m' \<and> fm_spec full (fm_next_id m) c (fm_abs m) r (fm_abs m')"
  proof (cases c)
    case (Create_id k)
    show ?thesis
    proof (cases "fm_get_fsm k m")
      case None
      then show ?thesis
        using alloc [OF p] create_keeps [OF i None] i o
        by (auto simp: Create_id fm_create_id_def fm_made_def fm_abs_def [of m k])
    qed (use i in \<open>simp add: Create_id fm_create_id_def fm_abs_def [of m k]\<close>)
  next
    case Create
    then have n: "fm_get_fsm (fm_next_id m) m = None" using a by (simp add: fm_abs_def)
    show ?thesis
      using alloc [OF p] insert_keeps [OF i n, of _ _ "fm_next_id m + 1"] i o by (auto simp: Create fm_create_def fm_made_def)
  next
    case (Collect k)
    show ?thesis
    proof (cases "fm_get_fsm k m")
      case (Some x)
      then show ?thesis using mark_keeps [OF i Some] by (simp add: Collect fm_abs_def [of m k])
    qed (use i in \<open>simp add: Collect fm_abs_def\<close>)
  next
    case (Set_state k s)
    have "fm_inv inv (fsm_set_state x s m)" "fm_abs (fsm_set_state x s m) = fm_abs m" for x
    proof -
      show "fm_inv inv (fsm_set_state x s m)" using i by (auto simp: fm_inv_def fsm_set_state_def fm_map_ok_def fm_objects_def)
      have "fm_abs (fsm_set_state x s m) k = fm_abs m k" for k
        by (cases "fm_get_fsm k m") (auto simp: fm_abs_def fm_get_fsm_def fsm_set_state_def)
      then show "fm_abs (fsm_set_state x s m) = fm_abs m" by blast
    qed
    then show ?thesis using i by (cases "fm_get_fsm k m") (simp_all add: Set_state fm_abs_def [of m k])
  next
    case (Free k)
    then have "map_option snd (fm_abs m k) \<noteq> Some True" using a by simp
    then show ?thesis using free_keeps [OF i] by (simp add: Free)
  qed (use collect_keeps [OF i] in simp)
  then show thesis using that by blast
qed

lemma reach_inv:
  assumes "fm_inv inv m0" "fm_reach alloc free m0 m"
  shows "fm_inv inv m"
  using assms(2)
proof (induction rule: fm_reach.induct)
  case (fm_step m c r m')
  from call_keeps [OF this(4,2)] this(3) show ?case by auto
qed (rule assms(1))

lemma start_inv: "inv {} (fm_pool m) \<Longrightarrow> fm_map m = [] \<Longrightarrow> fm_delete_list m = [] \<Longrightarrow> fm_inv inv m"
  by (simp add: fm_inv_def fm_map_ok_def fm_objects_def)

end

section \<open>The three pools\<close>

lemma fm_init_pool: "fm_init f a b c (fm_new mem p) =
    \<lparr>fm_pool = f (a div max 1 c + 1) b (max 1 c) p, fm_map = [], fm_delete_list = [], fm_next_id = 1, fm_mem = mem\<rparr>"
proof -
  have "(if c < 1 then 1 else c) = max 1 c" by (simp add: max_def) unat_arith
  then show ?thesis by (simp add: fm_init_def fm_new_def Let_def)
qed

lemma machines_simple:
  assumes "new_ok fresh" "fm_reach (sp_alloc_object fresh) sp_free_object (fm_init (sp_init fresh) a b c (fm_new mem sp_new)) m" "fm_allowed call m"
  obtains r m' where "fm_call (sp_alloc_object fresh) sp_free_object call m = Some (r, m')" "fm_inv (sp_inv fresh) m'"
    "fm_spec (\<lambda>_. False) (fm_next_id m) call (fm_abs m) r (fm_abs m')"
  using simple.call_keeps [OF simple.reach_inv [OF simple.start_inv assms(2)] assms(3)] sp_init_inv [OF assms(1)]
  by (auto simp: fm_init_pool)

lemma machines_plain:
  assumes "new_ok fresh" "fm_reach (op_alloc_object fresh) op_free_object (fm_new mem []) m" "fm_allowed call m"
  obtains r m' where "fm_call (op_alloc_object fresh) op_free_object call m = Some (r, m')" "fm_inv (op_inv fresh) m'"
    "fm_spec (\<lambda>_. False) (fm_next_id m) call (fm_abs m) r (fm_abs m')"
  using plain.call_keeps [OF plain.reach_inv [OF plain.start_inv assms(2)] assms(3)] assms(1)
  by (auto simp: fm_new_def op_inv_def)

text \<open>C31: A manager over a pool of chunks, initialised with any sizes, is the map from the numbers to the living machines,
  each with its object and its mark.  After any calls of an application that frees no machine it has marked for
  collection and of a counter that meets no number in use (the two cases the code gets wrong are
  \<open>freed_machine_swept_again\<close> and \<open>created_machine_not_found\<close>), the next such call returns the object of the entry it names, or
  an object no living machine has for a new entry, and changes exactly that entry; a sweep removes exactly the marked
  machines; a creation fails, and changes nothing, exactly when all objects of all chunks belong to living machines.
  Every machine is found under its own number, no two numbers share an object, and the objects the pool has
  handed out are exactly those of the map.\<close>

theorem machines_refine_map:
  assumes "new_ok fresh"
    and "fm_reach (ck_alloc_object fresh) ck_free_object (fm_init (ck_init fresh) pool_size chunks per_chunk (fm_new mem ck_new)) m"
    and "fm_allowed call m"
  shows "\<exists>r m'. fm_call (ck_alloc_object fresh) ck_free_object call m = Some (r, m') \<and>
    fm_spec (\<lambda>H. card H = unat (pool_size div max 1 per_chunk + 1) * unat (max 1 per_chunk))
      (fm_next_id m) call (fm_abs m) r (fm_abs m') \<and>
    fm_map_ok m' \<and> ck_inv fresh (fm_objects m') (fm_pool m')"
proof -
  let ?most = "pool_size div max 1 per_chunk + 1" and ?per = "max 1 per_chunk"
  have per: "?per \<noteq> 0" unfolding max_def by (cases "per_chunk = 0") auto
  have "fm_inv (ck_sized fresh ?most ?per) (fm_init (ck_init fresh) pool_size chunks per_chunk (fm_new mem ck_new))"
    using ck_init_inv [OF assms(1), of ?per chunks ?most] per by (intro chunked.start_inv) (simp_all add: fm_init_pool)
  from chunked.call_keeps [OF chunked.reach_inv [OF this assms(2)] assms(3)] obtain r m'
    where "fm_call (ck_alloc_object fresh) ck_free_object call m = Some (r, m')" "fm_inv (ck_sized fresh ?most ?per) m'"
      "fm_spec (ck_full ?most ?per) (fm_next_id m) call (fm_abs m) r (fm_abs m')"
    by metis
  then show ?thesis by (auto simp: fm_inv_def ck_sized_def ck_full_def [abs_def])
qed

definition no_machines :: "chunk_pool fsm_manager" where
  "no_machines = fm_init (ck_init next_address) 20 1 2
     (fm_new (\<lambda>x. \<lparr>fsm_id = 0, fsm_state = None, fsm_collect_flag = False\<rparr>) ck_new)"

theorem machines_refine_map_witness:
  "\<exists>r m'. fm_call (ck_alloc_object next_address) ck_free_object (Create_id 7) no_machines = Some (r, m') \<and>
    fm_spec (\<lambda>H. card H = unat (20 div max 1 2 + 1 :: uint) * unat (max 1 2 :: uint)) (fm_next_id no_machines) (Create_id 7)
      (fm_abs no_machines) r (fm_abs m') \<and>
    fm_map_ok m' \<and> ck_inv next_address (fm_objects m') (fm_pool m')"
  by (rule machines_refine_map [OF next_address_ok fm_reach.fm_start [of _ _ no_machines, unfolded no_machines_def [of]], folded no_machines_def]) simp

section \<open>Outside those calls\<close>

fun fm_calls ::
  "('p \<Rightarrow> (nat option \<times> 'p) option) \<Rightarrow> (nat \<Rightarrow> 'p \<Rightarrow> 'p) \<Rightarrow> fsm_call list \<Rightarrow> 'p fsm_manager \<Rightarrow> 'p fsm_manager option"
where
  "fm_calls alloc free [] m = Some m"
| "fm_calls alloc free (c # cs) m = do { (r, m) \<leftarrow> fm_call alloc free c m; fm_calls alloc free cs m }"

definition living :: "fsm_call list \<Rightarrow> uint list \<Rightarrow> (nat option list) option" where
  "living cs ks = do {
     m \<leftarrow> fm_calls (ck_alloc_object next_address) ck_free_object cs no_machines;
     Some (map (\<lambda>k. fm_get_fsm k m) ks) }"

text \<open>
  A marked machine that is freed stays on the delete list; its object becomes machine 2, which nobody marked and which the
  sweep destroys.
\<close>

lemma freed_machine_swept_again:
  "living [Create_id 1, Collect 1, Free 1, Create_id 2] [2] = Some [Some 2]"
  "living [Create_id 1, Collect 1, Free 1, Create_id 2, Sweep] [2] = Some [None]"
  by code_simp+

text \<open>
  The counter does not look whether its number is in use: the object handed to the caller is not the one found under its number.
\<close>

lemma created_machine_not_found:
  "living [Create_id 1, Create] [1] = Some [Some 2]"
  "map_option (\<lambda>(r, m). (r, fsm_id (fm_mem m 1)))
     (do { m \<leftarrow> fm_calls (ck_alloc_object next_address) ck_free_object [Create_id 1] no_machines;
           fm_call (ck_alloc_object next_address) ck_free_object Create m }) = Some (Some 1, 1)"
  by code_simp+

end
