(* ===== verification/SL_DataConvert.thy ===== *)
theory SL_DataConvert
  imports SL_Prelude
begin

text \<open>
  Integers as decimal text, \<^verbatim>\<open>include/SL_Utility_DataConvert.h\<close> and \<^verbatim>\<open>src/SL_Utility_DataConvert.cpp\<close>: the two
  writers, one per platform, and the four readers with their two macros.  Both halves are compared with one
  definition of the decimal text of a number.
\<close>

section \<open>Writing\<close>

text \<open>The table of all pairs of digits, with the terminating zero of the literal.\<close>

definition digits_table :: "byte list" where
  "digits_table = map of_char
     (''0001020304050607080910111213141516171819'' @
      ''20212223242526272829303132333435363738394041424344454647484950515253545556575859'' @
      ''60616263646566676869707172737475767778798081828384858687888990919293949596979899'') @ [0]"

definition digits10_32 :: "uint \<Rightarrow> int" where
  "digits10_32 value =
     (if value < 10 then 1 else if value < 100 then 2 else if value < 1000 then 3 else if value < 10000 then 4
      else if value < 100000 then 5 else if value < 1000000 then 6 else if value < 10000000 then 7
      else if value < 100000000 then 8 else if value < 1000000000 then 9 else 10)"

definition digits10_64 :: "uint64 \<Rightarrow> int" where
  "digits10_64 value =
     (if value < 10 then 1 else if value < 100 then 2 else if value < 1000 then 3 else if value < 10000 then 4
      else if value < 100000 then 5 else if value < 1000000 then 6 else if value < 10000000 then 7
      else if value < 100000000 then 8 else if value < 1000000000 then 9 else if value < 10000000000 then 10
      else if value < 100000000000 then 11 else if value < 1000000000000 then 12
      else if value < 10000000000000 then 13 else if value < 100000000000000 then 14
      else if value < 1000000000000000 then 15 else if value < 10000000000000000 then 16
      else if value < 100000000000000000 then 17 else if value < 1000000000000000000 then 18
      else if value < 10000000000000000000 then 19 else 20)"

text \<open>\<^verbatim>\<open>str[x] = c\<close>, and the two stores that all writers make for a pair of digits: \<open>i\<close> is the pair's place in the table.\<close>

definition str_set :: "byte list \<Rightarrow> int \<Rightarrow> byte \<Rightarrow> byte list option" where
  "str_set str x c = (if 0 \<le> x then arr_set str (nat x) c else None)"

definition put_pair :: "byte list \<Rightarrow> int \<Rightarrow> 'a::len word \<Rightarrow> byte list option" where
  "put_pair str x i = do {
     d \<leftarrow> arr_get digits_table (unat (i + 1));
     str \<leftarrow> str_set str x d;
     d \<leftarrow> arr_get digits_table (unat i);
     str_set str (x - 1) d }"

subsection \<open>Linux\<close>

text \<open>\<^verbatim>\<open>while (value >= 100)\<close>\<close>

partial_function (option) pairs_loop :: "'a::len word \<Rightarrow> int \<Rightarrow> byte list \<Rightarrow> ('a word \<times> int \<times> byte list) option" where
  "pairs_loop value nxt str =
     (if 100 \<le> value then do {
        str \<leftarrow> put_pair str nxt (push_bit 1 (value - value div 100 * 100));
        pairs_loop (value div 100) (nxt - 2) str }
      else Some (value, nxt, str))"

definition write_linux :: "int \<Rightarrow> 'a::len word \<Rightarrow> byte list \<Rightarrow> (int \<times> byte list) option" where
  "write_linux len value str = do {
     (value, nxt, str) \<leftarrow> pairs_loop value (len - 1) str;
     str \<leftarrow> (if value < 10 then str_set str nxt (ucast (48 + value)) else put_pair str nxt (push_bit 1 value));
     str \<leftarrow> str_set str len 0;
     Some (len, str) }"

definition uitoa_linux :: "uint \<Rightarrow> byte list \<Rightarrow> (int \<times> byte list) option" where
  "uitoa_linux value str = write_linux (digits10_32 value) value str"

definition ulltoa_linux :: "uint64 \<Rightarrow> byte list \<Rightarrow> (int \<times> byte list) option" where
  "ulltoa_linux value str = write_linux (digits10_64 value) value str"

subsection \<open>Windows\<close>

text \<open>The macros \<^verbatim>\<open>LESS10\<close>, \<^verbatim>\<open>LESS100\<close> and \<^verbatim>\<open>MOD100\<close>; a branch is a row of \<^verbatim>\<open>MOD100\<close>, one of the others, the zero and the length.\<close>

definition LESS10 :: "'a::len word \<Rightarrow> byte list \<Rightarrow> byte list option" where
  "LESS10 value str = str_set str 0 (48 + ucast value)"

definition LESS100 :: "'a::len word \<Rightarrow> byte list \<Rightarrow> byte list option" where
  "LESS100 value str = put_pair str 1 (push_bit 1 (ucast value :: uint))"

definition MOD100 :: "int \<Rightarrow> 'a::len word \<Rightarrow> byte list \<Rightarrow> ('a word \<times> byte list) option" where
  "MOD100 x value str = do {
     str \<leftarrow> put_pair str x (push_bit 1 (ucast (value - value div 100 * 100) :: uint));
     Some (value div 100, str) }"

fun branch ::
  "int list \<Rightarrow> ('a::len word \<Rightarrow> byte list \<Rightarrow> byte list option) \<Rightarrow> int \<Rightarrow> int \<Rightarrow> 'a word \<Rightarrow> byte list \<Rightarrow> (int \<times> byte list) option"
where
  "branch (x # xs) fin stop ret value str = do { (value, str) \<leftarrow> MOD100 x value str; branch xs fin stop ret value str }"
| "branch [] fin stop ret value str = do { str \<leftarrow> fin value str; str \<leftarrow> str_set str stop 0; Some (ret, str) }"

definition uitoa_windows :: "uint \<Rightarrow> byte list \<Rightarrow> (int \<times> byte list) option" where
  "uitoa_windows value =
     (if value < 10 then branch [] LESS10 1 1 value
      else if value < 100 then branch [] LESS100 2 2 value
      else if value < 1000 then branch [2] LESS10 3 3 value
      else if value < 10000 then branch [3] LESS100 3 4 value
      else if value < 100000 then branch [4, 2] LESS10 5 5 value
      else if value < 1000000 then branch [5, 3] LESS100 6 6 value
      else if value < 10000000 then branch [6, 4, 2] LESS10 7 7 value
      else if value < 100000000 then branch [7, 5, 3] LESS100 8 8 value
      else if value < 1000000000 then branch [8, 6, 4, 2] LESS10 9 9 value
      else branch [9, 7, 5, 3] LESS100 10 10 value)"

text \<open>The branches from ten digits on, and the whole function.\<close>

definition ulltoa_windows_long :: "uint64 \<Rightarrow> byte list \<Rightarrow> (int \<times> byte list) option" where
  "ulltoa_windows_long value =
     (if value < 10000000000 then branch [9, 7, 5, 3] LESS100 10 10 value
      else if value < 100000000000 then branch [10, 8, 6, 4, 2] LESS10 11 11 value
      else if value < 1000000000000 then branch [11, 9, 7, 5, 3] LESS100 12 12 value
      else if value < 10000000000000 then branch [12, 10, 8, 6, 4, 2] LESS10 13 13 value
      else if value < 100000000000000 then branch [13, 11, 9, 7, 5, 3] LESS100 14 14 value
      else if value < 1000000000000000 then branch [14, 12, 10, 8, 6, 4, 2] LESS10 15 15 value
      else if value < 10000000000000000 then branch [15, 13, 11, 9, 7, 5, 3] LESS100 16 16 value
      else if value < 100000000000000000 then branch [16, 14, 12, 10, 8, 6, 4, 2] LESS10 17 17 value
      else if value < 1000000000000000000 then branch [17, 15, 13, 11, 9, 7, 5, 3] LESS100 18 18 value
      else if value < 10000000000000000000 then branch [18, 16, 14, 12, 10, 8, 6, 4, 2] LESS10 19 19 value
      else branch [19, 17, 15, 13, 11, 9, 7, 5, 3] LESS100 20 20 value)"

definition ulltoa_windows :: "uint64 \<Rightarrow> byte list \<Rightarrow> (int \<times> byte list) option" where
  "ulltoa_windows value =
     (if value < 10 then branch [] LESS10 1 1 value
      else if value < 100 then branch [] LESS100 2 2 value
      else if value < 1000 then branch [2] LESS10 3 3 value
      else if value < 10000 then branch [3] LESS100 4 4 value
      else if value < 100000 then branch [4, 2] LESS10 5 5 value
      else if value < 1000000 then branch [5, 3] LESS100 6 6 value
      else if value < 10000000 then branch [6, 4, 2] LESS10 7 7 value
      else if value < 100000000 then branch [7, 5, 3] LESS100 8 8 value
      else if value < 1000000000 then branch [8, 6, 4, 2] LESS10 9 9 value
      else ulltoa_windows_long value)"

subsection \<open>Signed numbers\<close>

text \<open>Signed arithmetic of \<open>w\<close> bits: no value outside its range.\<close>

definition signed_ok :: "nat \<Rightarrow> int \<Rightarrow> int option" where
  "signed_ok w i = (if - (2 ^ (w - 1)) \<le> i \<and> i < 2 ^ (w - 1) then Some i else None)"

text \<open>The text of a negative number starts behind its sign; the platform's writer of unsigned numbers is an argument.\<close>

definition itoa :: "(uint \<Rightarrow> byte list \<Rightarrow> (int \<times> byte list) option) \<Rightarrow> int \<Rightarrow> byte list \<Rightarrow> (int \<times> byte list) option" where
  "itoa uitoa value str =
     (if value \<ge> 0 then uitoa (word_of_int value) str
      else do {
        str \<leftarrow> str_set str 0 45;
        value \<leftarrow> signed_ok 32 (- value);
        (n, rest) \<leftarrow> uitoa (word_of_int value) (tl str);
        Some (n + 1, hd str # rest) })"

definition lltoa :: "(uint64 \<Rightarrow> byte list \<Rightarrow> (int \<times> byte list) option) \<Rightarrow> int \<Rightarrow> byte list \<Rightarrow> (int \<times> byte list) option" where
  "lltoa ulltoa value str =
     (if value \<ge> 0 then ulltoa (word_of_int value) str
      else do {
        str \<leftarrow> str_set str 0 45;
        value \<leftarrow> signed_ok 64 (- value);
        (n, rest) \<leftarrow> ulltoa (word_of_int value) (tl str);
        Some (n + 1, hd str # rest) })"

section \<open>Reading\<close>

datatype 's conversion = Next_char 's | Exit_proc | Undefined

text \<open>
  The macros.  The state is \<^verbatim>\<open>ret\<close>, \<^verbatim>\<open>first_num_flag\<close> and, for signed numbers, \<^verbatim>\<open>negative_flag\<close>.  A sign sets
  \<^verbatim>\<open>first_num_flag\<close> like a digit.
\<close>

definition SL_CHAR_CONVERT_INTEGER :: "nat \<Rightarrow> byte \<Rightarrow> int \<times> bool \<times> bool \<Rightarrow> (int \<times> bool \<times> bool) conversion" where
  "SL_CHAR_CONVERT_INTEGER w c s =
     (let (ret, first_num_flag, negative_flag) = s
      in if 48 \<le> c \<and> c \<le> 57 then
           (if first_num_flag then
              (case do { r \<leftarrow> signed_ok w (ret * 10); r \<leftarrow> signed_ok w (r + uint c); signed_ok w (r - 48) } of
                 None \<Rightarrow> Undefined | Some r \<Rightarrow> Next_char (r, True, negative_flag))
            else Next_char (uint c - 48, True, negative_flag))
         else if c = 45 then (if first_num_flag then Exit_proc else Next_char (ret, True, True))
         else if c = 32 then (if first_num_flag then Exit_proc else Next_char s)
         else if c = 43 then (if first_num_flag then Exit_proc else Next_char (ret, True, negative_flag))
         else Exit_proc)"

definition SL_CHAR_CONVERT_UNSIGNED_INTEGER :: "byte \<Rightarrow> 'a::len word \<times> bool \<Rightarrow> ('a word \<times> bool) conversion" where
  "SL_CHAR_CONVERT_UNSIGNED_INTEGER c s =
     (let (ret, first_num_flag) = s
      in if 48 \<le> c \<and> c \<le> 57 then
           (if first_num_flag then Next_char (ret * 10 + ucast c - 48, True) else Next_char (ucast c - 48, True))
         else if c = 32 then (if first_num_flag then Exit_proc else Next_char s)
         else if c = 43 then (if first_num_flag then Exit_proc else Next_char (ret, True))
         else Exit_proc)"

text \<open>Both loops, without and with a limit, over the bytes from \<^verbatim>\<open>str\<close> to the end of its block; the answer has the place of \<^verbatim>\<open>endptr\<close>.\<close>

fun convert_loop :: "(byte \<Rightarrow> 's \<Rightarrow> 's conversion) \<Rightarrow> byte list \<Rightarrow> 's \<Rightarrow> ('s \<times> nat) option" where
  "convert_loop f [] s = None"
| "convert_loop f (c # cs) s =
     (case f c s of Undefined \<Rightarrow> None | Exit_proc \<Rightarrow> Some (s, 0)
      | Next_char s \<Rightarrow> map_option (apsnd Suc) (convert_loop f cs s))"

fun convert_limited :: "(byte \<Rightarrow> 's \<Rightarrow> 's conversion) \<Rightarrow> nat \<Rightarrow> byte list \<Rightarrow> 's \<Rightarrow> ('s \<times> nat) option" where
  "convert_limited f 0 cs s = Some (s, 0)"
| "convert_limited f (Suc n) [] s = None"
| "convert_limited f (Suc n) (c # cs) s =
     (case f c s of Undefined \<Rightarrow> None | Exit_proc \<Rightarrow> Some (s, 0)
      | Next_char s \<Rightarrow> map_option (apsnd Suc) (convert_limited f n cs s))"

definition convert_len :: "(byte \<Rightarrow> 's \<Rightarrow> 's conversion) \<Rightarrow> byte list \<Rightarrow> uint \<Rightarrow> 's \<Rightarrow> ('s \<times> nat) option" where
  "convert_len f str len s = (if len < 1 then convert_loop f str s else convert_limited f (unat len) str s)"

definition signed_result :: "nat \<Rightarrow> int \<times> bool \<times> bool \<Rightarrow> int option" where
  "signed_result w s = (let (ret, first_num_flag, negative_flag) = s in if negative_flag then signed_ok w (- ret) else Some ret)"

definition atoi :: "byte list \<Rightarrow> int option" where
  "atoi str = do { (s, n) \<leftarrow> convert_loop (SL_CHAR_CONVERT_INTEGER 32) str (0, False, False); signed_result 32 s }"

definition atoi_len :: "byte list \<Rightarrow> uint \<Rightarrow> (int \<times> nat) option" where
  "atoi_len str len = do {
     (s, n) \<leftarrow> convert_len (SL_CHAR_CONVERT_INTEGER 32) str len (0, False, False); r \<leftarrow> signed_result 32 s; Some (r, n) }"

definition atoui :: "byte list \<Rightarrow> uint option" where
  "atoui str = do { ((ret, first_num_flag), n) \<leftarrow> convert_loop SL_CHAR_CONVERT_UNSIGNED_INTEGER str (0, False); Some ret }"

definition atoui_len :: "byte list \<Rightarrow> uint \<Rightarrow> (uint \<times> nat) option" where
  "atoui_len str len = do {
     ((ret, first_num_flag), n) \<leftarrow> convert_len SL_CHAR_CONVERT_UNSIGNED_INTEGER str len (0, False); Some (ret, n) }"

definition atoll :: "byte list \<Rightarrow> int option" where
  "atoll str = do { (s, n) \<leftarrow> convert_loop (SL_CHAR_CONVERT_INTEGER 64) str (0, False, False); signed_result 64 s }"

definition atoll_len :: "byte list \<Rightarrow> uint \<Rightarrow> (int \<times> nat) option" where
  "atoll_len str len = do {
     (s, n) \<leftarrow> convert_len (SL_CHAR_CONVERT_INTEGER 64) str len (0, False, False); r \<leftarrow> signed_result 64 s; Some (r, n) }"

definition atoull :: "byte list \<Rightarrow> uint64 option" where
  "atoull str = do { ((ret, first_num_flag), n) \<leftarrow> convert_loop SL_CHAR_CONVERT_UNSIGNED_INTEGER str (0, False); Some ret }"

definition atoull_len :: "byte list \<Rightarrow> uint \<Rightarrow> (uint64 \<times> nat) option" where
  "atoull_len str len = do {
     ((ret, first_num_flag), n) \<leftarrow> convert_len SL_CHAR_CONVERT_UNSIGNED_INTEGER str len (0, False); Some (ret, n) }"

section \<open>The decimal text\<close>

fun decimal :: "nat \<Rightarrow> byte list" where
  "decimal n = (if n < 10 then [48 + of_nat n] else decimal (n div 10) @ [48 + of_nat (n mod 10)])"

declare decimal.simps [simp del]

text \<open>The text of a number at the start of a block, with its zero and its length.\<close>

definition as_text :: "nat \<Rightarrow> byte list \<Rightarrow> (int \<times> byte list) option" where
  "as_text n str = Some (int (length (decimal n)), decimal n @ 0 # drop (Suc (length (decimal n))) str)"

lemma decimal_nonempty: "0 < length (decimal n)"
  by (subst decimal.simps) simp

lemma decimal_small: "n < 10 \<Longrightarrow> decimal n = [48 + of_nat n]"
  by (subst decimal.simps) simp

lemma decimal_pair: "10 \<le> n \<Longrightarrow> n < 100 \<Longrightarrow> decimal n = [48 + of_nat (n div 10), 48 + of_nat (n mod 10)]"
  by (subst decimal.simps) (simp add: decimal_small)

lemma decimal_100: "100 \<le> n \<Longrightarrow> decimal n = decimal (n div 100) @ [48 + of_nat (n mod 100 div 10), 48 + of_nat (n mod 10)]"
proof -
  assume n: "100 \<le> n"
  then have "decimal n = decimal (n div 10) @ [48 + of_nat (n mod 10)]" by (subst decimal.simps) simp
  also have "decimal (n div 10) = decimal (n div 10 div 10) @ [48 + of_nat (n div 10 mod 10)]"
  proof -
    have "\<not> n div 10 < 10" using n by simp
    then show ?thesis by (subst decimal.simps) (simp only: if_False)
  qed
  also have "n div 10 mod 10 = n mod 100 div 10" using mod_mult2_eq [of n 10 10] by simp
  finally show ?thesis by (simp add: div_mult2_eq [symmetric])
qed

lemma length_decimal: "n < 10 ^ Suc k \<Longrightarrow> k = 0 \<or> 10 ^ k \<le> n \<Longrightarrow> length (decimal n) = Suc k"
proof (induction k arbitrary: n)
  case 0
  then show ?case by (simp add: decimal_small)
next
  case (Suc k)
  have "10 ^ k \<le> n div 10" "n div 10 < 10 ^ Suc k" using Suc.prems by (simp_all add: less_mult_imp_div_less div_le_mono mult.commute) 
  then have "length (decimal (n div 10)) = Suc k" by (intro Suc.IH) simp_all
  moreover have "10 \<le> n" using Suc.prems(2) by (auto intro: order_trans [rotated])
  ultimately show ?case by (subst decimal.simps) simp
qed

lemma digits_table_alt: "digits_table = concat (map (\<lambda>k. [48 + of_nat (k div 10), 48 + of_nat (k mod 10)]) [0..<100]) @ [0]"
  by code_simp

lemma nth_pairs: "k < length ks \<Longrightarrow> concat (map (\<lambda>k. [f k, g k]) ks) ! (2 * k) = f (ks ! k) \<and> concat (map (\<lambda>k. [f k, g k]) ks) ! Suc (2 * k) = g (ks ! k)"
  by (induction ks arbitrary: k) (auto simp: less_Suc_eq_0_disj)

lemma length_pairs: "length (concat (map (\<lambda>k. [f k, g k]) ks)) = 2 * length ks"
  by (induction ks) simp_all

lemma digits_table_pairs: "k < 100 \<Longrightarrow> digits_table ! (2 * k) = 48 + of_nat (k div 10) \<and> digits_table ! Suc (2 * k) = 48 + of_nat (k mod 10)"
  unfolding digits_table_alt
  using nth_pairs [of k "[0..<100]" "\<lambda>k. 48 + of_nat (k div 10) :: byte" "\<lambda>k. 48 + of_nat (k mod 10)"]
  by (simp add: nth_append length_pairs del: upt_Suc)

lemma length_digits_table: "length digits_table = 201"
  by (simp add: digits_table_def)

text \<open>The words of the conversions have room for twice a pair.\<close>

lemma put_pair_ok:
  fixes w :: "'a::len word"
  assumes "200 \<le> (2 :: nat) ^ LENGTH('a)" "unat w < 100" "Suc x < length str"
  shows "put_pair str (int (Suc x)) (push_bit 1 w) = Some (str[Suc x := 48 + of_nat (unat w mod 10), x := 48 + of_nat (unat w div 10)])"
proof -
  have l: "LENGTH('a) \<noteq> Suc 0" using assms(1) by auto
  then have u: "unat (push_bit 1 w) = 2 * unat w"
    using assms(1,2) by (simp add: push_bit_eq_mult unat_word_ariths)
  then have "unat (push_bit 1 w + 1) = Suc (2 * unat w)" using assms(1,2) by (simp add: unat_word_ariths)
  moreover have "nat (1 + int x) = Suc x" by simp
  ultimately show ?thesis
    using u assms digits_table_pairs [of "unat w"] by (simp add: put_pair_def arr_get_def str_set_def arr_set_def length_digits_table)
qed

lemma unat_numerals:
  fixes w :: "'a::len word"
  assumes "200 \<le> (2 :: nat) ^ LENGTH('a)"
  shows "unat (100 :: 'a word) = 100" "unat (10 :: 'a word) = 10" "unat (48 :: 'a word) = 48"
    "unat (w div 100) = unat w div 100" "unat (w - w div 100 * 100) = unat w mod 100" "100 \<le> w \<longleftrightarrow> 100 \<le> unat w" "w < 10 \<longleftrightarrow> unat w < 10"
proof -
  have n: "unat (numeral k :: 'a word) = numeral k" if "numeral k < (200 :: nat)" for k
    using less_le_trans [OF that assms] by (subst unat_numeral) (simp add: take_bit_eq_mod)
  show h: "unat (100 :: 'a word) = 100" "unat (10 :: 'a word) = 10" "unat (48 :: 'a word) = 48" by (rule n, simp)+
  show "100 \<le> w \<longleftrightarrow> 100 \<le> unat w" "w < 10 \<longleftrightarrow> unat w < 10" by (simp_all only: word_le_nat_alt word_less_nat_alt h)
  show d: "unat (w div 100) = unat w div 100" by (simp only: unat_div_distrib h)
  have le: "unat w div 100 * 100 \<le> unat w" by simp
  then have "unat (w div 100 * 100) = unat w div 100 * 100"
    using le_less_trans [OF le unsigned_less [of w, where 'a = nat]] by (simp only: unat_word_ariths d h mod_less)
  then show "unat (w - w div 100 * 100) = unat w mod 100" by (simp only: minus_div_mult_eq_mod unat_mod_distrib h)
qed


subsection \<open>The writers\<close>

text \<open>The positions of \<^verbatim>\<open>MOD100\<close> in a branch, from the length of the text down.\<close>

fun places :: "nat \<Rightarrow> int list" where
  "places (Suc (Suc (Suc n))) = int (Suc (Suc n)) # places (Suc n)"
| "places n = []"

lemma list_update_two: "Suc n < length str \<Longrightarrow> str[Suc n := b, n := a] = take n str @ a # b # drop (Suc (Suc n)) str"
  by (simp add: upd_conv_take_nth_drop)

lemma step_pair:
  fixes w :: "'a::len word"
  assumes "200 \<le> (2 :: nat) ^ LENGTH('a)" "unat w = v mod 100" "100 \<le> v" "length (decimal v) \<le> length str"
  defines "k \<equiv> length (decimal (v div 100))"
  obtains str' where "put_pair str (int (Suc k)) (push_bit 1 w) = Some str'" "length str' = length str"
    "length (decimal v) = k + 2" "decimal (v div 100) @ drop k str' = decimal v @ drop (k + 2) str"
proof -
  have d: "decimal v = decimal (v div 100) @ [48 + of_nat (v mod 100 div 10), 48 + of_nat (v mod 10)]" by (rule decimal_100 [OF assms(3)])
  then have l: "length (decimal v) = k + 2" by (simp add: k_def)
  have m: "v mod 100 mod 10 = v mod 10" by (simp add: mod_mod_cancel)
  let ?s = "take k str @ (48 + of_nat (v mod 100 div 10)) # (48 + of_nat (v mod 10)) # drop (Suc (Suc k)) str"
  have "unat w < 100" unfolding assms(2) by simp
  then have "put_pair str (int (Suc k)) (push_bit 1 w) = Some ?s"
    using put_pair_ok [OF assms(1), of w k str] l assms(4) by (simp only: list_update_two assms(2) m)
  moreover have "drop k ?s = (48 + of_nat (v mod 100 div 10)) # (48 + of_nat (v mod 10)) # drop (k + 2) str"
    using l assms(4) by simp
  ultimately show thesis using that [of ?s] l assms(4) d by simp
qed

lemma length_decimal_100: "length (decimal n) < 3 \<longleftrightarrow> n < 100"
proof (cases "n < 100")
  case True
  then show ?thesis by (cases "n < 10") (simp_all add: decimal_small decimal_pair)
next
  case False
  then show ?thesis using decimal_nonempty [of "n div 100"] by (simp add: decimal_100)
qed

lemma ucast_digit:
  fixes v :: "'a::len word"
  assumes "200 \<le> (2 :: nat) ^ LENGTH('a)" "unat v < 100"
  shows "ucast (48 + v) = (48 + ucast v :: byte)"
proof -
  note h = unat_numerals(3) [OF assms(1)]
  have "unat (48 :: 'a word) + unat v < 2 ^ LENGTH('a)" unfolding h using assms by linarith
  then have "unat (48 + v) = 48 + unat v" using unat_add_small [of "48 :: 'a word" v] by (simp only: h)
  then have "of_nat (unat (48 + v)) = (48 + of_nat (unat v) :: byte)" by simp
  then show ?thesis by (simp only: of_nat_unat)
qed

lemma last_digits:
  fixes v :: "'a::len word"
  assumes "200 \<le> (2 :: nat) ^ LENGTH('a)" "unat v < 100" "length (decimal (unat v)) \<le> length str"
  shows "unat v < 10 \<Longrightarrow> str_set str 0 (48 + ucast v) = Some (decimal (unat v) @ drop (length (decimal (unat v))) str)"
    "\<not> unat v < 10 \<Longrightarrow> put_pair str 1 (push_bit 1 v) = Some (decimal (unat v) @ drop (length (decimal (unat v))) str)"
proof -
  assume v: "unat v < 10"
  then show "str_set str 0 (48 + ucast v) = Some (decimal (unat v) @ drop (length (decimal (unat v))) str)"
    using assms(3) by (cases str) (simp_all add: decimal_small str_set_def arr_set_def)
next
  assume v: "\<not> unat v < 10"
  then have "put_pair str (int (Suc 0)) (push_bit 1 v) = Some (str[Suc 0 := 48 + of_nat (unat v mod 10), 0 := 48 + of_nat (unat v div 10)])"
    using assms by (intro put_pair_ok) (simp_all add: decimal_pair)
  then show "put_pair str 1 (push_bit 1 v) = Some (decimal (unat v) @ drop (length (decimal (unat v))) str)"
    using v assms(2,3) list_update_two [of 0 str] by (simp add: decimal_pair)
qed

lemma unat_ucast_uint: "unat w < 100 \<Longrightarrow> unat (ucast w :: uint) = unat w"
  by (simp add: unsigned_ucast_eq take_bit_nat_eq_self)

lemma pairs_loop_ok:
  fixes v :: "'a::len word"
  assumes w: "200 \<le> (2 :: nat) ^ LENGTH('a)" and l: "length (decimal (unat v)) \<le> length str"
  shows "\<exists>v' str'. pairs_loop v (int (length (decimal (unat v))) - 1) str = Some (v', int (length (decimal (unat v'))) - 1, str') \<and>
    unat v' < 100 \<and> length (decimal (unat v')) \<le> length str' \<and>
    decimal (unat v') @ drop (length (decimal (unat v'))) str' = decimal (unat v) @ drop (length (decimal (unat v))) str"
  using l
proof (induction "unat v" arbitrary: v str rule: less_induct)
  case less
  note num = unat_numerals [OF w]
  show ?case
  proof (cases "100 \<le> v")
    case False
    then show ?thesis using less.prems by (subst pairs_loop.simps) (simp add: num)
  next
    case True
    let ?n = "length (decimal (unat (v div 100)))"
    have big: "100 \<le> unat v" using True by (simp add: num)
    have q: "unat v div 100 = unat (v div 100)" by (simp only: num)
    obtain str' where s: "put_pair str (int (Suc ?n)) (push_bit 1 (v - v div 100 * 100)) = Some str'" "length str' = length str"
        "length (decimal (unat v)) = ?n + 2" "decimal (unat (v div 100)) @ drop ?n str' = decimal (unat v) @ drop (?n + 2) str"
      using step_pair [OF w num(5) big less.prems] unfolding q by metis
    have "unat (v div 100) < unat v" using big unfolding q [symmetric] by simp
    then obtain v' str'' where i: "pairs_loop (v div 100) (int ?n - 1) str' = Some (v', int (length (decimal (unat v'))) - 1, str'')"
        "unat v' < 100" "length (decimal (unat v')) \<le> length str''"
        "decimal (unat v') @ drop (length (decimal (unat v'))) str'' = decimal (unat (v div 100)) @ drop ?n str'"
      using less.hyps [of "v div 100" str'] s(2,3) less.prems by auto
    have "int (length (decimal (unat v))) - 1 = int (Suc ?n)" "int (Suc ?n) - 2 = int ?n - 1" using s(3) by simp_all
    then have "pairs_loop v (int (length (decimal (unat v))) - 1) str = Some (v', int (length (decimal (unat v'))) - 1, str'')"
      using True s(1) i(1) by (subst pairs_loop.simps) (simp only: if_True bind.bind_lunit Let_def)
    then show ?thesis using i s(3,4) by simp
  qed
qed


lemma set_stop: "length a < length str \<Longrightarrow> str_set (a @ drop (length a) str) (int (length a)) 0 = Some (a @ 0 # drop (Suc (length a)) str)"
  using Cons_nth_drop_Suc [of "length a" str, symmetric] by (simp add: str_set_def arr_set_def list_update_append)

lemma write_linux_ok:
  fixes v :: "'a::len word"
  assumes w: "200 \<le> (2 :: nat) ^ LENGTH('a)" and l: "length (decimal (unat v)) < length str"
  shows "write_linux (int (length (decimal (unat v)))) v str = as_text (unat v) str"
proof -
  let ?n = "\<lambda>v :: 'a word. length (decimal (unat v))"
  from pairs_loop_ok [OF w less_imp_le [OF l]] obtain v' str' where i:
      "pairs_loop v (int (?n v) - 1) str = Some (v', int (?n v') - 1, str')" "unat v' < 100" "?n v' \<le> length str'"
      "decimal (unat v') @ drop (?n v') str' = decimal (unat v) @ drop (?n v) str"
    by blast
  note d = last_digits [OF w i(2,3)]
  have "(if v' < 10 then str_set str' (int (?n v') - 1) (ucast (48 + v')) else put_pair str' (int (?n v') - 1) (push_bit 1 v')) =
      Some (decimal (unat v) @ drop (?n v) str)"
  proof (cases "unat v' < 10")
    case True
    then have "int (?n v') - 1 = 0" by (simp add: decimal_small)
    then show ?thesis using d(1) [OF True] ucast_digit [OF w i(2)] i(4) True by (simp only: unat_numerals(7) [OF w] if_True)
  next
    case False
    then have "int (?n v') - 1 = 1" using i(2) by (simp add: decimal_pair)
    then show ?thesis using d(2) [OF False] i(4) False by (simp only: unat_numerals(7) [OF w] if_False)
  qed
  then show ?thesis
    using i(1) set_stop [OF l] by (simp only: write_linux_def as_text_def bind.bind_lunit prod.case)
qed

lemma places_2: "places 2 = []"
  by (simp add: numeral_2_eq_2)

lemma branch_ok:
  fixes v :: "'a::len word"
  assumes w: "200 \<le> (2 :: nat) ^ LENGTH('a)" and l: "length (decimal (unat v)) \<le> length str" "length (decimal (unat v)) = n"
  shows "branch (places n) (if odd n then LESS10 else LESS100) stop ret v str =
    do { s \<leftarrow> str_set (decimal (unat v) @ drop n str) stop 0; Some (ret, s) }"
  using l
proof (induction "unat v" arbitrary: v str n rule: less_induct)
  case less
  note num = unat_numerals [OF w]
  show ?case
  proof (cases "unat v < 100")
    case True
    show ?thesis
    proof (cases "unat v < 10")
      case v: True
      then have "n = 1" using less.prems(2) by (simp add: decimal_small)
      then show ?thesis using last_digits(1) [OF w True less.prems(1) v] less.prems(2) by (simp add: LESS10_def)
    next
      case v: False
      then have "n = 2" using less.prems(2) True by (simp add: decimal_pair)
      then show ?thesis
        using last_digits(2) [of "ucast v :: uint" str] True v less.prems places_2 by (simp add: LESS100_def unat_ucast_uint)
    qed
  next
    case False
    let ?k = "length (decimal (unat (v div 100)))"
    have big: "100 \<le> unat v" using False by simp
    have q: "unat v div 100 = unat (v div 100)" by (simp only: num)
    have "unat (v - v div 100 * 100) < 100" by (simp only: num(5))
    then have "unat (ucast (v - v div 100 * 100) :: uint) = unat v mod 100" by (simp only: unat_ucast_uint num(5))
    then obtain str' where s: "put_pair str (int (Suc ?k)) (push_bit 1 (ucast (v - v div 100 * 100) :: uint)) = Some str'"
        "length str' = length str" "length (decimal (unat v)) = ?k + 2"
        "decimal (unat (v div 100)) @ drop ?k str' = decimal (unat v) @ drop (?k + 2) str"
      using step_pair [OF _ _ big less.prems(1), of "ucast (v - v div 100 * 100) :: uint"] unfolding q by auto
    obtain j where j: "?k = Suc j" using decimal_nonempty [of "unat (v div 100)"] by (cases ?k) auto
    have n: "n = Suc (Suc (Suc j))" using s(3) j less.prems(2) by simp
    have "unat (v div 100) < unat v" using big unfolding q [symmetric] by simp
    then have i: "branch (places ?k) (if odd ?k then LESS10 else LESS100) stop ret (v div 100) str' =
        do { s \<leftarrow> str_set (decimal (unat (v div 100)) @ drop ?k str') stop 0; Some (ret, s) }"
      using less.hyps [of "v div 100" str' ?k] s(2,3) less.prems(1) by simp
    have m: "MOD100 (int (Suc ?k)) v str = Some (v div 100, str')" using s(1) by (simp add: MOD100_def)
    have "branch (places n) (if odd n then LESS10 else LESS100) stop ret v str =
        branch (places ?k) (if odd ?k then LESS10 else LESS100) stop ret (v div 100) str'"
      using m unfolding n j by simp
    then show ?thesis unfolding i s(4) using n j by simp
  qed
qed


text \<open>The chains of comparisons: the first power of ten above the number.\<close>

fun by_length :: "nat list \<Rightarrow> nat \<Rightarrow> (nat \<Rightarrow> 'b) \<Rightarrow> nat \<Rightarrow> 'b" where
  "by_length [] m f n = f m"
| "by_length (k # ks) m f n = (if n < 10 ^ k then f k else by_length ks m f n)"

lemma by_length_ok:
  assumes "n < 10 ^ m" "ks = [Suc a..<m]" "a = 0 \<or> 10 ^ a \<le> n" "a < m"
  shows "by_length ks m f n = f (length (decimal n))"
  using assms(2-4)
proof (induction ks arbitrary: a)
  case Nil
  then have "[Suc a..<m] = []" by simp
  then have "m = Suc a" using Nil.prems(3) by auto
  then show ?case using length_decimal [of n a] assms(1) Nil.prems(2) by simp
next
  case (Cons k ks)
  then have "[Suc a..<m] = k # ks" by simp
  then have k: "k = Suc a" "ks = [Suc k..<m]" "k < m" by (auto simp: upt_eq_Cons_conv)
  show ?case
  proof (cases "n < 10 ^ k")
    case True
    then show ?thesis using length_decimal [of n a] Cons.prems(2) k(1) by simp
  next
    case False
    then show ?thesis using Cons.IH [OF k(2) _ k(3)] by simp
  qed
qed

lemma by_length_32: "by_length [1, 2, 3, 4, 5, 6, 7, 8, 9] 10 f (unat (v :: uint)) = f (length (decimal (unat v)))"
proof (rule by_length_ok [where a = 0])
  show "unat v < 10 ^ 10" by (rule less_trans [OF unat_lt32]) simp
qed (simp_all add: upt_rec)

lemma by_length_64:
  "by_length [1, 2, 3, 4, 5, 6, 7, 8, 9, 10, 11, 12, 13, 14, 15, 16, 17, 18, 19] 20 f (unat (v :: uint64)) = f (length (decimal (unat v)))"
  by (rule by_length_ok [where a = 0]) (use unsigned_less [of v, where 'a = nat] in \<open>simp_all add: upt_rec\<close>)

lemma digits10_length: "digits10_32 u = int (length (decimal (unat u)))" "digits10_64 v = int (length (decimal (unat v)))"
  unfolding by_length_32 [symmetric] by_length_64 [symmetric]
  by (simp_all add: digits10_32_def digits10_64_def word_less_nat_alt)

lemma places_table:
  shows "places 1 = []" "places 2 = []" "places 3 = [2]" "places 4 = [3]"
    "places 5 = [4, 2]" "places 6 = [5, 3]" "places 7 = [6, 4, 2]" "places 8 = [7, 5, 3]"
    "places 9 = [8, 6, 4, 2]" "places 10 = [9, 7, 5, 3]" "places 11 = [10, 8, 6, 4, 2]" "places 12 = [11, 9, 7, 5, 3]"
    "places 13 = [12, 10, 8, 6, 4, 2]" "places 14 = [13, 11, 9, 7, 5, 3]" "places 15 = [14, 12, 10, 8, 6, 4, 2]" "places 16 = [15, 13, 11, 9, 7, 5, 3]"
    "places 17 = [16, 14, 12, 10, 8, 6, 4, 2]" "places 18 = [17, 15, 13, 11, 9, 7, 5, 3]" "places 19 = [18, 16, 14, 12, 10, 8, 6, 4, 2]" "places 20 = [19, 17, 15, 13, 11, 9, 7, 5, 3]"
  by (simp_all add: eval_nat_numeral)

lemma windows_length:
  "uitoa_windows u = (let n = length (decimal (unat u))
     in branch (places n) (if odd n then LESS10 else LESS100) (if n = 4 then 3 else int n) (int n) u)"
  "ulltoa_windows v = (let n = length (decimal (unat v)) in branch (places n) (if odd n then LESS10 else LESS100) (int n) (int n) v)"
  unfolding Let_def by_length_32 [symmetric, where f = "\<lambda>n. branch (places n) (if odd n then LESS10 else LESS100) (if n = 4 then 3 else int n) (int n) u"]
    by_length_64 [symmetric, where f = "\<lambda>n. branch (places n) (if odd n then LESS10 else LESS100) (int n) (int n) v"]
  by (simp_all add: uitoa_windows_def ulltoa_windows_def ulltoa_windows_long_def word_less_nat_alt places_table)


lemma length_decimal_le: "n < 10 ^ Suc k \<Longrightarrow> length (decimal n) \<le> Suc k"
proof (induction k arbitrary: n)
  case 0
  then show ?case by (simp add: decimal_small)
next
  case (Suc k)
  then have "n div 10 < 10 ^ Suc k" by (simp add: less_mult_imp_div_less mult.commute)
  from Suc.IH [OF this] show ?case by (subst decimal.simps) simp
qed

lemma length_decimal_32: "length (decimal (unat (u :: uint))) \<le> 10"
  by (rule length_decimal_le [of _ 9, simplified]) (rule less_trans [OF unat_lt32], simp)

lemma length_decimal_64: "length (decimal (unat (v :: uint64))) \<le> 20"
  by (rule length_decimal_le [of _ 19, simplified]) (use unsigned_less [of v, where 'a = nat] in simp)

lemma linux_writers:
  "length (decimal (unat u)) < length str \<Longrightarrow> uitoa_linux u str = as_text (unat u) str"
  "length (decimal (unat v)) < length str \<Longrightarrow> ulltoa_linux v str = as_text (unat v) str"
  unfolding uitoa_linux_def ulltoa_linux_def digits10_length by (rule write_linux_ok, simp_all)+

lemma windows_writers:
  "length (decimal (unat u)) < length str \<Longrightarrow> uitoa_windows u str =
    (if length (decimal (unat u)) = 4 then Some (4, take 3 (decimal (unat u)) @ 0 # drop 4 str) else as_text (unat u) str)"
  "length (decimal (unat v)) < length str \<Longrightarrow> ulltoa_windows v str = as_text (unat v) str"
proof -
  assume l: "length (decimal (unat u)) < length str"
  have b: "branch (places n) (if odd n then LESS10 else LESS100) stop ret u str =
      do { s \<leftarrow> str_set (decimal (unat u) @ drop n str) stop 0; Some (ret, s) }" if "n = length (decimal (unat u))" for n stop ret
    by (rule branch_ok) (use l that in simp_all)
  show "uitoa_windows u str =
    (if length (decimal (unat u)) = 4 then Some (4, take 3 (decimal (unat u)) @ 0 # drop 4 str) else as_text (unat u) str)"
  proof (cases "length (decimal (unat u)) = 4")
    case True
    then show ?thesis
      unfolding windows_length Let_def b [OF refl] by (simp add: str_set_def arr_set_def list_update_append upd_conv_take_nth_drop)
  next
    case False
    then show ?thesis unfolding windows_length Let_def b [OF refl] by (simp add: set_stop [OF l] as_text_def)
  qed
next
  assume l: "length (decimal (unat v)) < length str"
  have "branch (places n) (if odd n then LESS10 else LESS100) (int n) (int n) v str =
      do { s \<leftarrow> str_set (decimal (unat v) @ drop n str) (int n) 0; Some (int n, s) }" if "n = length (decimal (unat v))" for n
    by (rule branch_ok) (use l that in simp_all)
  then show "ulltoa_windows v str = as_text (unat v) str"
    unfolding windows_length Let_def by (simp add: set_stop [OF l] as_text_def)
qed

text \<open>C32: Every writer of unsigned numbers stays inside the block its declaration asks for and leaves there the decimal text of the
  number, its terminating zero and nothing else, and answers the length: the loop of Linux over pairs of digits and all
  thirty branches of Windows alike, with one exception: the 32-bit branch of Windows for four digits, which puts the zero
  over the last digit.\<close>

theorem decimal_writers:
  assumes "length str12 = 12" "length str21 = 21"
  shows "uitoa_linux u str12 = as_text (unat u) str12 \<and> ulltoa_linux v str21 = as_text (unat v) str21 \<and>
    ulltoa_windows v str21 = as_text (unat v) str21 \<and>
    uitoa_windows u str12 = (if length (decimal (unat u)) = 4
      then Some (4, take 3 (decimal (unat u)) @ 0 # drop 4 str12) else as_text (unat u) str12)"
  using linux_writers(1) [of u str12] linux_writers(2) [of v str21] windows_writers(1) [of u str12] windows_writers(2) [of v str21]
    length_decimal_32 [of u] length_decimal_64 [of v] assms by simp

theorem decimal_writers_witness:
  "uitoa_linux 1234 (replicate 12 7) = as_text 1234 (replicate 12 7) \<and> ulltoa_linux 99 (replicate 21 7) = as_text 99 (replicate 21 7) \<and>
    ulltoa_windows 99 (replicate 21 7) = as_text 99 (replicate 21 7) \<and>
    uitoa_windows 1234 (replicate 12 7) = (if length (decimal 1234) = 4
      then Some (4, take 3 (decimal 1234) @ 0 # drop 4 (replicate 12 7)) else as_text 1234 (replicate 12 7))"
  using decimal_writers [of "replicate 12 7" "replicate 21 7" 1234 99] by simp

lemma uitoa_windows_drops_digit: "uitoa_windows 1234 (replicate 12 7) = Some (4, map of_char ''123'' @ 0 # replicate 8 7)"
  by code_simp

subsection \<open>The readers\<close>

fun feed :: "(byte \<Rightarrow> 's \<Rightarrow> 's conversion) \<Rightarrow> byte list \<Rightarrow> 's \<Rightarrow> 's option" where
  "feed f [] s = Some s"
| "feed f (c # cs) s = (case f c s of Next_char s \<Rightarrow> feed f cs s | _ \<Rightarrow> None)"

lemma feed_append: "feed f (a @ b) s = do { s \<leftarrow> feed f a s; feed f b s }"
  by (induction a arbitrary: s) (simp_all split: conversion.split)

lemma loop_feed: "feed f a s = Some s' \<Longrightarrow> convert_loop f (a @ b) s = map_option (apsnd ((+) (length a))) (convert_loop f b s')"
proof (induction a arbitrary: s)
  case Nil
  then show ?case by (cases "convert_loop f b s'") (auto simp: apsnd_def map_prod_def split: prod.split)
next
  case (Cons c a)
  then obtain t where "f c s = Next_char t" "feed f a t = Some s'" by (simp split: conversion.splits)
  then show ?case using Cons.IH [of t] by (cases "convert_loop f b s'") (auto simp: apsnd_def map_prod_def)
qed

lemma digit_char:
  assumes "d < 10"
  shows "(48 :: byte) \<le> 48 + of_nat d" "48 + of_nat d \<le> (57 :: byte)" "uint (48 + of_nat d :: byte) = 48 + int d"
proof -
  have u: "unat (48 + of_nat d :: byte) = 48 + d" using assms by (simp add: unat_word_ariths unat_of_nat)
  then show "(48 :: byte) \<le> 48 + of_nat d" "48 + of_nat d \<le> (57 :: byte)" using assms by (simp_all add: word_le_nat_alt)
  show "uint (48 + of_nat d :: byte) = 48 + int d" using u by (metis of_nat_add of_nat_numeral uint_nat)
qed

lemma digit_ucast:
  assumes "d < 10"
  shows "ucast (48 + of_nat d :: byte) = (48 + of_nat d :: 'a::len word)"
proof -
  have "unat (48 + of_nat d :: byte) = 48 + d" using assms by (simp add: unat_word_ariths unat_of_nat)
  then show ?thesis by (metis of_nat_add of_nat_numeral of_nat_unat)
qed

lemma unsigned_digit: "d < 10 \<Longrightarrow> SL_CHAR_CONVERT_UNSIGNED_INTEGER (48 + of_nat d) (r :: 'a::len word, True) = Next_char (r * 10 + of_nat d, True)"
  using digit_char [of d] digit_ucast [of d, where 'a = 'a] by (simp add: SL_CHAR_CONVERT_UNSIGNED_INTEGER_def)

lemma signed_digit:
  "d < 10 \<Longrightarrow> 0 \<le> r \<Longrightarrow> r * 10 + int d + 48 < 2 ^ (w - 1) \<Longrightarrow>
     SL_CHAR_CONVERT_INTEGER w (48 + of_nat d) (r, True, neg) = Next_char (r * 10 + int d, True, neg)"
  using digit_char [of d] by (simp add: SL_CHAR_CONVERT_INTEGER_def signed_ok_def)

lemma feed_unsigned: "feed SL_CHAR_CONVERT_UNSIGNED_INTEGER (decimal n) (x :: 'a::len word, False) = Some (of_nat n, True)"
proof (induction n rule: decimal.induct)
  case (1 n)
  show ?case
  proof (cases "n < 10")
    case True
    then show ?thesis
      using digit_char [OF True] digit_ucast [OF True, where 'a = 'a] by (simp add: decimal_small SL_CHAR_CONVERT_UNSIGNED_INTEGER_def)
  next
    case False
    have "of_nat (n div 10 * 10 + n mod 10) = (of_nat (n div 10) * 10 + of_nat (n mod 10) :: 'a word)" by (simp only: of_nat_add of_nat_mult of_nat_numeral)
    then have "(of_nat (n div 10) * 10 + of_nat (n mod 10) :: 'a word) = of_nat n" by (simp only: div_mult_mod_eq)
    then show ?thesis
      using 1 [OF False] unsigned_digit [of "n mod 10" "of_nat (n div 10) :: 'a word"] False
      by (subst decimal.simps) (simp add: feed_append)
  qed
qed

lemma feed_signed:
  "58 \<le> (2 :: int) ^ (w - 1) \<Longrightarrow> int n + 48 < 2 ^ (w - 1) \<Longrightarrow>
     feed (SL_CHAR_CONVERT_INTEGER w) (decimal n) (0, first, neg) = Some (int n, True, neg)"
proof (induction n rule: decimal.induct)
  case (1 n)
  show ?case
  proof (cases "n < 10")
    case True
    show ?thesis
    proof (cases first)
      case f: True
      show ?thesis using signed_digit [OF True, of 0 w neg] 1(3) f True by (simp add: decimal_small)
    next
      case f: False
      show ?thesis using digit_char [OF True] f True by (simp add: decimal_small SL_CHAR_CONVERT_INTEGER_def)
    qed
  next
    case False
    have n: "int (n div 10) * 10 + int (n mod 10) = int n" by (simp add: zdiv_int zmod_int)
    then have m: "int (n div 10) + 48 < 2 ^ (w - 1)" using 1(3) by linarith
    have "SL_CHAR_CONVERT_INTEGER w (48 + of_nat (n mod 10)) (int (n div 10), True, neg) = Next_char (int n, True, neg)"
      using signed_digit [of "n mod 10" "int (n div 10)" w neg] 1(3) unfolding n by simp
    then show ?thesis using 1(1) [OF False 1(2) m] False by (subst decimal.simps) (simp add: feed_append)
  qed
qed


lemma read_unsigned: "convert_loop SL_CHAR_CONVERT_UNSIGNED_INTEGER (decimal n @ 0 # r) (0 :: 'a::len word, False) =
    Some ((of_nat n, True), length (decimal n))"
  using loop_feed [OF feed_unsigned [of n "0 :: 'a word"], of "0 # r"] by (simp add: SL_CHAR_CONVERT_UNSIGNED_INTEGER_def)

lemma read_signed:
  assumes "58 \<le> (2 :: int) ^ (w - 1)" "int n + 48 < 2 ^ (w - 1)"
  shows "convert_loop (SL_CHAR_CONVERT_INTEGER w) (decimal n @ 0 # r) (0, first, neg) = Some ((int n, True, neg), length (decimal n))"
  using loop_feed [OF feed_signed [OF assms, of first neg], of "0 # r"] by (simp add: SL_CHAR_CONVERT_INTEGER_def)

lemma read_negative:
  assumes "58 \<le> (2 :: int) ^ (w - 1)" "int n + 48 < 2 ^ (w - 1)"
  shows "convert_loop (SL_CHAR_CONVERT_INTEGER w) (45 # decimal n @ 0 # r) (0, False, False) =
    Some ((int n, True, True), Suc (length (decimal n)))"
  using read_signed [OF assms, of r True True] by (simp add: SL_CHAR_CONVERT_INTEGER_def)

text \<open>The text of a signed number.\<close>

definition signed_text :: "int \<Rightarrow> byte list" where
  "signed_text i = (if i \<ge> 0 then decimal (nat i) else 45 # decimal (nat (- i)))"

lemma itoa_text:
  assumes "\<And>u str. length (decimal (unat u)) < length str \<Longrightarrow> uitoa u str = as_text (unat u) str"
    and "\<bar>i\<bar> < 2 ^ 31" "length str = 12"
  shows "itoa uitoa i str = Some (int (length (signed_text i)), signed_text i @ 0 # drop (Suc (length (signed_text i))) str)"
proof -
  obtain c cs where str: "str = c # cs" using assms(3) by (cases str) auto
  have u: "unat (word_of_int \<bar>i\<bar> :: uint) = nat \<bar>i\<bar>" using assms(2) by (simp add: unat_eq_nat_uint uint_word_of_int)
  then have "length (decimal (nat \<bar>i\<bar>)) \<le> 10" using length_decimal_32 [of "word_of_int \<bar>i\<bar>"] by simp
  then show ?thesis using assms u
    by (cases "0 \<le> i") (simp_all add: itoa_def signed_text_def as_text_def str str_set_def arr_set_def signed_ok_def)
qed

lemma lltoa_text:
  assumes "\<And>v str. length (decimal (unat v)) < length str \<Longrightarrow> ulltoa v str = as_text (unat v) str"
    and "\<bar>i\<bar> < 2 ^ 63" "length str = 21"
  shows "lltoa ulltoa i str = Some (int (length (signed_text i)), signed_text i @ 0 # drop (Suc (length (signed_text i))) str)"
proof -
  obtain c cs where str: "str = c # cs" using assms(3) by (cases str) auto
  have u: "unat (word_of_int \<bar>i\<bar> :: uint64) = nat \<bar>i\<bar>" using assms(2) by (simp add: unat_eq_nat_uint uint_word_of_int)
  have "length (decimal (nat \<bar>i\<bar>)) \<le> Suc 18" using assms(2) by (intro length_decimal_le) simp
  then show ?thesis using assms u
    by (cases "0 \<le> i") (simp_all add: lltoa_def signed_text_def as_text_def str str_set_def arr_set_def signed_ok_def)
qed

lemma atoi_text: "\<bar>i\<bar> + 48 < 2 ^ 31 \<Longrightarrow> atoi (signed_text i @ 0 # r) = Some i"
  using read_signed [of 32 "nat i" r False False] read_negative [of 32 "nat (- i)" r]
  by (cases "0 \<le> i") (simp_all add: atoi_def signed_text_def signed_result_def signed_ok_def)

lemma atoll_text: "\<bar>i\<bar> + 48 < 2 ^ 63 \<Longrightarrow> atoll (signed_text i @ 0 # r) = Some i"
  using read_signed [of 64 "nat i" r False False] read_negative [of 64 "nat (- i)" r]
  by (cases "0 \<le> i") (simp_all add: atoll_def signed_text_def signed_result_def signed_ok_def)

text \<open>C33: Reading what was written gives the number back: for every unsigned number of 32 and 64 bits, and for every signed
  number whose magnitude stays 48 (the character 0) below the largest one, which is as far as the readers' own arithmetic reaches.\<close>

theorem decimal_roundtrip:
  assumes "length str12 = 12" "length str21 = 21" "\<bar>i\<bar> + 48 < 2 ^ 31" "\<bar>j\<bar> + 48 < 2 ^ 63"
  shows "do { (n, s) \<leftarrow> uitoa_linux u str12; atoui s } = Some u \<and> do { (n, s) \<leftarrow> ulltoa_linux v str21; atoull s } = Some v \<and>
    do { (n, s) \<leftarrow> itoa uitoa_linux i str12; atoi s } = Some i \<and> do { (n, s) \<leftarrow> lltoa ulltoa_linux j str21; atoll s } = Some j \<and>
    do { (n, s) \<leftarrow> lltoa ulltoa_windows j str21; atoll s } = Some j"
proof -
  have t: "uitoa_linux u str12 = as_text (unat u) str12" "ulltoa_linux v str21 = as_text (unat v) str21"
    using linux_writers(1) [of u str12] linux_writers(2) [of v str21] length_decimal_32 [of u] length_decimal_64 [of v] assms by simp_all
  have s: "\<bar>i\<bar> < 2 ^ 31" "\<bar>j\<bar> < 2 ^ 63" using assms by simp_all
  show ?thesis
    using read_unsigned [of "unat u" _, where 'a = 32] read_unsigned [of "unat v" _, where 'a = 64]
      itoa_text [OF linux_writers(1) s(1) assms(1)] lltoa_text [OF linux_writers(2) s(2) assms(2)]
      lltoa_text [OF windows_writers(2) s(2) assms(2)] atoi_text [OF assms(3)] atoll_text [OF assms(4)]
    by (simp add: t as_text_def atoui_def atoull_def)
qed

theorem decimal_roundtrip_witness:
  "do { (n, s) \<leftarrow> uitoa_linux 4294967295 (replicate 12 7); atoui s } = Some 4294967295 \<and>
    do { (n, s) \<leftarrow> ulltoa_linux 10 (replicate 21 7); atoull s } = Some 10 \<and>
    do { (n, s) \<leftarrow> itoa uitoa_linux (- 2147483599) (replicate 12 7); atoi s } = Some (- 2147483599) \<and>
    do { (n, s) \<leftarrow> lltoa ulltoa_linux (- 5) (replicate 21 7); atoll s } = Some (- 5) \<and>
    do { (n, s) \<leftarrow> lltoa ulltoa_windows (- 5) (replicate 21 7); atoll s } = Some (- 5)"
  using decimal_roundtrip [of "replicate 12 7" "replicate 21 7" "- 2147483599" "- 5" 4294967295 10] by simp

text \<open>
  Above that bound the sum before the subtraction of the character 0 leaves the range of the type, although the number
  itself does not; the smallest number is written by negating it, which leaves the range too.
\<close>

lemma atoi_overflows: "atoi (decimal 2147483647 @ [0]) = None" "atoi (decimal 2147483599 @ [0]) = Some 2147483599"
proof -
  have d: "decimal 2147483647 = decimal 214748364 @ [55]" by (subst decimal.simps) simp
  have "convert_loop f (decimal 214748364 @ [55, 0]) (0, False, False) = map_option (apsnd ((+) (length (decimal 214748364))))
      (convert_loop f [55, 0] (214748364, True, False))" if "f = SL_CHAR_CONVERT_INTEGER 32" for f
    using loop_feed [OF feed_signed [of 32 214748364 False False]] by (simp add: that)
  then show "atoi (decimal 2147483647 @ [0]) = None"
    unfolding d by (simp add: atoi_def SL_CHAR_CONVERT_INTEGER_def signed_ok_def)
qed (use atoi_text [of 2147483599 "[]"] in \<open>simp add: signed_text_def\<close>)

lemma itoa_smallest: "itoa uitoa (- (2 ^ 31)) str = None"
  by (cases str) (simp_all add: itoa_def str_set_def arr_set_def signed_ok_def)

text \<open>A limit at or behind the end of the text changes nothing.\<close>

lemma convert_limit: "convert_loop f str s = Some (t, n) \<Longrightarrow> n < k \<Longrightarrow> convert_limited f k str s = Some (t, n)"
proof (induction f str s arbitrary: n k rule: convert_loop.induct)
  case (2 f c cs s)
  then show ?case by (cases k) (auto split: conversion.splits)
qed simp

end
