(* ===== verification/SL_HashTree.thy ===== *)
theory SL_HashTree
  imports SL_ObjectPools SL_Queues "HOL-Library.AList"
begin

text \<open>
  The hash trees of \<^verbatim>\<open>include/SL_Utility_HashTreeMap.h\<close> and \<^verbatim>\<open>SL_Utility_HashTreeSet.h\<close>: a power of two of buckets from
  an object pool of chunks, each a search tree of the standard library (an association list here, whose order no
  operation shows), and a count of all elements.  The class with the null mutex is one step per operation; in the
  class with a mutex per bucket the count is changed, and a found value read, outside the critical section.
\<close>

record ('k, 'v) hash_tree =
  ht_buckets :: "nat option list"
  ht_mask :: uint64
  ht_elements :: uint
  ht_pool :: chunk_pool
  ht_mem :: "nat \<Rightarrow> ('k \<times> 'v) list"

definition ht_new :: "(nat \<Rightarrow> ('k \<times> 'v) list) \<Rightarrow> ('k, 'v) hash_tree" where
  "ht_new mem = \<lparr>ht_buckets = [], ht_mask = 0, ht_elements = 0, ht_pool = ck_new, ht_mem = mem\<rparr>"

definition ht_clear :: "('k, 'v) hash_tree \<Rightarrow> ('k, 'v) hash_tree" where
  "ht_clear h = h\<lparr>ht_buckets := [], ht_pool := ck_clear (ht_pool h), ht_elements := 0, ht_mask := 0\<rparr>"

text \<open>The constructors of the buckets that a change of the pool brought to life.\<close>

definition ht_set_pool :: "chunk_pool \<Rightarrow> ('k, 'v) hash_tree \<Rightarrow> ('k, 'v) hash_tree" where
  "ht_set_pool p h =
     h\<lparr>ht_pool := p, ht_mem := (\<lambda>x. if x \<in> set (ck_live p) \<and> x \<notin> set (ck_live (ht_pool h)) then [] else ht_mem h x)\<rparr>"

definition ht_bucket_count :: "uint64 \<Rightarrow> uint64" where
  "ht_bucket_count bucket_size =
     (case find (\<lambda>p. bucket_size \<le> ucast p) SL_2_POW_LIST of Some p \<Rightarrow> ucast p | None \<Rightarrow> ucast (SL_2_POW_LIST ! 31))"

fun ht_alloc_buckets :: "(nat list \<Rightarrow> nat) \<Rightarrow> nat \<Rightarrow> ('k, 'v) hash_tree \<Rightarrow> ('k, 'v) hash_tree option" where
  "ht_alloc_buckets fresh 0 h = Some h"
| "ht_alloc_buckets fresh (Suc n) h = do {
     (bucket, p) \<leftarrow> ck_alloc_object fresh (ht_pool h);
     let h = ht_set_pool p h;
     ht_alloc_buckets fresh n (h\<lparr>ht_buckets := ht_buckets h @ [bucket]\<rparr>) }"

definition ht_init :: "(nat list \<Rightarrow> nat) \<Rightarrow> uint64 \<Rightarrow> uint64 \<Rightarrow> ('k, 'v) hash_tree \<Rightarrow> ('k, 'v) hash_tree option" where
  "ht_init fresh bucket_size chunk_size h =
     (let h = ht_clear h;
          bucket_size = ht_bucket_count bucket_size;
          chunk_size = (if chunk_size > bucket_size then bucket_size else if chunk_size = 0 then 1 else chunk_size);
          n = ucast (bucket_size div chunk_size + 1);
          h = h\<lparr>ht_mask := bucket_size - 1\<rparr>;
          h = ht_set_pool (ck_init fresh n n (ucast chunk_size) (ht_pool h)) h
      in ht_alloc_buckets fresh (unat bucket_size) h)"

text \<open>\<^verbatim>\<open>assert(buckets_.size() > 0)\<close> and the access to the bucket.\<close>

definition ht_find_bucket :: "('k \<Rightarrow> uint64) \<Rightarrow> 'k \<Rightarrow> ('k, 'v) hash_tree \<Rightarrow> nat option" where
  "ht_find_bucket hash k h =
     (if 0 < length (ht_buckets h) then do { b \<leftarrow> arr_get (ht_buckets h) (unat (hash k AND ht_mask h)); b } else None)"

definition ht_set_bucket :: "nat \<Rightarrow> ('k \<times> 'v) list \<Rightarrow> ('k, 'v) hash_tree \<Rightarrow> ('k, 'v) hash_tree" where
  "ht_set_bucket b l h = h\<lparr>ht_mem := (ht_mem h)(b := l)\<rparr>"

section \<open>One thread\<close>

definition ht_find :: "('k \<Rightarrow> uint64) \<Rightarrow> 'k \<Rightarrow> ('k, 'v) hash_tree \<Rightarrow> 'v option option" where
  "ht_find hash k h = do { b \<leftarrow> ht_find_bucket hash k h; Some (map_of (ht_mem h b) k) }"

text \<open>An iterator is the bucket and the key of its node; the end is \<open>None\<close>.\<close>

definition ht_find_iter :: "('k \<Rightarrow> uint64) \<Rightarrow> 'k \<Rightarrow> ('k, 'v) hash_tree \<Rightarrow> (nat \<times> 'k) option option" where
  "ht_find_iter hash k h = do {
     b \<leftarrow> ht_find_bucket hash k h;
     Some (case map_of (ht_mem h b) k of None \<Rightarrow> None | Some v \<Rightarrow> Some (b, k)) }"

definition ht_find_both :: "('k \<Rightarrow> uint64) \<Rightarrow> 'k \<Rightarrow> ('k, 'v) hash_tree \<Rightarrow> ('v \<times> nat \<times> 'k) option option" where
  "ht_find_both hash k h = do {
     b \<leftarrow> ht_find_bucket hash k h;
     Some (case map_of (ht_mem h b) k of None \<Rightarrow> None | Some v \<Rightarrow> Some (v, b, k)) }"

definition ht_insert :: "('k \<Rightarrow> uint64) \<Rightarrow> 'k \<Rightarrow> 'v \<Rightarrow> bool \<Rightarrow> ('k, 'v) hash_tree \<Rightarrow> (bool \<times> ('k, 'v) hash_tree) option" where
  "ht_insert hash k v update h = do {
     b \<leftarrow> ht_find_bucket hash k h;
     let before_size = length (ht_mem h b);
     let h = (if update then ht_set_bucket b (AList.update k v (ht_mem h b)) h
              else case map_of (ht_mem h b) k of
                None \<Rightarrow> ht_set_bucket b (AList.update k v (ht_mem h b)) h | Some w \<Rightarrow> h);
     Some (if length (ht_mem h b) > before_size then (True, h\<lparr>ht_elements := ht_elements h + 1\<rparr>) else (False, h)) }"

definition ht_erase :: "('k \<Rightarrow> uint64) \<Rightarrow> 'k \<Rightarrow> ('k, 'v) hash_tree \<Rightarrow> (bool \<times> ('k, 'v) hash_tree) option" where
  "ht_erase hash k h = do {
     b \<leftarrow> ht_find_bucket hash k h;
     let remove_num = length (ht_mem h b) - length (AList.delete k (ht_mem h b));
     let h = ht_set_bucket b (AList.delete k (ht_mem h b)) h;
     Some (if remove_num > 0 then (True, h\<lparr>ht_elements := ht_elements h - 1\<rparr>) else (False, h)) }"

text \<open>An iterator must be one of the bucket that its key leads to.\<close>

definition ht_erase_iter :: "('k \<Rightarrow> uint64) \<Rightarrow> nat \<times> 'k \<Rightarrow> ('k, 'v) hash_tree \<Rightarrow> (bool \<times> ('k, 'v) hash_tree) option" where
  "ht_erase_iter hash position h = do {
     b \<leftarrow> ht_find_bucket hash (snd position) h;
     let before_size = length (ht_mem h b);
     if b = fst position \<and> map_of (ht_mem h b) (snd position) \<noteq> None then do {
       let h = ht_set_bucket b (AList.delete (snd position) (ht_mem h b)) h;
       Some (if length (ht_mem h b) < before_size then (True, h\<lparr>ht_elements := ht_elements h - 1\<rparr>) else (False, h)) }
     else None }"

definition ht_bucket_size :: "('k, 'v) hash_tree \<Rightarrow> nat" where
  "ht_bucket_size h = length (ht_buckets h)"

definition ht_size :: "('k, 'v) hash_tree \<Rightarrow> uint" where
  "ht_size h = ht_elements h"

definition ht_empty :: "('k, 'v) hash_tree \<Rightarrow> bool" where
  "ht_empty h \<longleftrightarrow> 0 = ht_elements h"

definition ht_bucket :: "nat \<Rightarrow> ('k, 'v) hash_tree \<Rightarrow> nat option option" where
  "ht_bucket index h = (if index < ht_bucket_size h then arr_get (ht_buckets h) index else None)"


section \<open>The tree as a map\<close>

text \<open>
  The buckets are distinct objects, their number is a power of two, and the count is the number of keys.  The key's
  bucket decides what the key is mapped to.
\<close>

definition ht_abs :: "('k \<Rightarrow> uint64) \<Rightarrow> ('k, 'v) hash_tree \<Rightarrow> 'k \<rightharpoonup> 'v" where
  "ht_abs hash h k = (case ht_find_bucket hash k h of None \<Rightarrow> None | Some b \<Rightarrow> map_of (ht_mem h b) k)"

definition ht_shape :: "('k, 'v) hash_tree \<Rightarrow> bool" where
  "ht_shape h \<longleftrightarrow> None \<notin> set (ht_buckets h) \<and> distinct (ht_buckets h) \<and>
     (\<exists>n < 32. length (ht_buckets h) = 2 ^ n \<and> ht_mask h = mask n)"

definition ht_inv :: "('k \<Rightarrow> uint64) \<Rightarrow> ('k, 'v) hash_tree \<Rightarrow> bool" where
  "ht_inv hash h \<longleftrightarrow> ht_shape h \<and> finite (dom (ht_abs hash h)) \<and> ht_elements h = of_nat (card (dom (ht_abs hash h)))"

lemma ht_index: "ht_shape h \<Longrightarrow> unat (x AND ht_mask h) < length (ht_buckets h)"
proof -
  assume "ht_shape h"
  then obtain n where n: "n < 32" "length (ht_buckets h) = 2 ^ n" "ht_mask h = mask n" by (auto simp: ht_shape_def)
  have "unat (x AND mask n) = unat x mod 2 ^ n"
    by (simp only: take_bit_eq_mask [symmetric] unsigned_take_bit_eq) (simp add: take_bit_eq_mod)
  then show ?thesis using n by simp
qed

lemma ht_bucket_of:
  assumes "ht_shape h"
  obtains b where "ht_find_bucket hash k h = Some b" "ht_buckets h ! unat (hash k AND ht_mask h) = Some b"
proof -
  have i: "unat (hash k AND ht_mask h) < length (ht_buckets h)" using assms by (rule ht_index)
  from nth_mem [OF this] have "ht_buckets h ! unat (hash k AND ht_mask h) \<noteq> None" using assms by (metis ht_shape_def)
  then obtain b where b: "ht_buckets h ! unat (hash k AND ht_mask h) = Some b" by blast
  have "ht_find_bucket hash k h = Some b" using b i by (auto simp: ht_find_bucket_def arr_get_def)
  then show thesis using b by (rule that)
qed

lemma ht_same_bucket:
  assumes "ht_shape h" "ht_find_bucket hash j h = Some b" "ht_find_bucket hash k h = Some b"
  shows "hash j AND ht_mask h = hash k AND ht_mask h"
proof -
  have "ht_buckets h ! unat (hash j AND ht_mask h) = ht_buckets h ! unat (hash k AND ht_mask h)"
    using assms(2,3) ht_index [OF assms(1)] by (simp add: ht_find_bucket_def arr_get_def split: if_splits)
  then have "unat (hash j AND ht_mask h) = unat (hash k AND ht_mask h)"
    using assms(1) ht_index [OF assms(1)] by (simp add: ht_shape_def nth_eq_iff_index_eq)
  then show ?thesis by (rule word_unat_eq_iff [THEN iffD2])
qed

lemma ht_find_bucket_mem [simp]:
  "ht_find_bucket hash k (ht_set_bucket b l h) = ht_find_bucket hash k h"
  "ht_find_bucket hash k (h\<lparr>ht_elements := n\<rparr>) = ht_find_bucket hash k h"
  by (simp_all add: ht_find_bucket_def ht_set_bucket_def)

lemma ht_mem_set: "ht_mem (ht_set_bucket b l h) = (ht_mem h)(b := l)"
  by (simp add: ht_set_bucket_def)

lemma ht_shape_mem [simp]: "ht_shape (ht_set_bucket b l h) = ht_shape h" "ht_shape (h\<lparr>ht_elements := n\<rparr>) = ht_shape h"
  by (simp_all add: ht_shape_def ht_set_bucket_def)

lemma ht_abs_elements [simp]: "ht_abs hash (h\<lparr>ht_elements := n\<rparr>) = ht_abs hash h"
  by (simp add: ht_abs_def fun_eq_iff split: option.split)

lemma ht_abs_set:
  assumes "ht_find_bucket hash k h = Some b" "\<And>j. j \<noteq> k \<Longrightarrow> map_of l j = map_of (ht_mem h b) j"
  shows "ht_abs hash (ht_set_bucket b l h) = (ht_abs hash h)(k := map_of l k)"
proof
  fix j
  show "ht_abs hash (ht_set_bucket b l h) j = ((ht_abs hash h)(k := map_of l k)) j"
    using assms by (cases "ht_find_bucket hash j h") (auto simp: ht_abs_def ht_mem_set split: option.split)
qed

lemma length_update: "length (AList.update k v l) = (if map_of l k = None then Suc (length l) else length l)"
  by (induction l) auto

lemma length_delete: "length (AList.delete k l) = length l \<longleftrightarrow> map_of l k = None"
proof -
  have "length (filter P xs) = length xs \<longleftrightarrow> filter P xs = xs" for P and xs :: "('a \<times> 'b) list"
    by (metis filter_True length_filter_less less_irrefl)
  then show ?thesis by (auto simp: AList.delete_eq map_of_eq_None_iff filter_id_conv) (metis fst_conv imageI)
qed

lemma length_delete_le: "length (AList.delete k l) \<le> length l"
  by (simp add: AList.delete_eq)


lemma ht_insert_map:
  assumes "ht_inv hash h"
  obtains h' where "ht_insert hash k v update h = Some (ht_abs hash h k = None, h')" "ht_inv hash h'"
    "ht_abs hash h' = (if update \<or> ht_abs hash h k = None then (ht_abs hash h)(k \<mapsto> v) else ht_abs hash h)"
proof -
  have s: "ht_shape h" using assms by (simp add: ht_inv_def)
  obtain b where b: "ht_find_bucket hash k h = Some b" using s by (rule ht_bucket_of)
  have a: "ht_abs hash h k = map_of (ht_mem h b) k" by (simp add: ht_abs_def b)
  let ?h = "ht_set_bucket b (AList.update k v (ht_mem h b)) h"
  have u: "ht_abs hash ?h = (ht_abs hash h)(k \<mapsto> v)" using ht_abs_set [OF b] by (simp add: update_conv')
  show thesis
  proof (cases "ht_abs hash h k")
    case None
    then have i: "ht_insert hash k v update h = Some (True, ?h\<lparr>ht_elements := ht_elements h + 1\<rparr>)"
      using a by (simp add: ht_insert_def b Let_def ht_mem_set length_update) (simp add: ht_set_bucket_def)
    have "k \<notin> dom (ht_abs hash h)" using None by auto
    then have "ht_inv hash (?h\<lparr>ht_elements := ht_elements h + 1\<rparr>)" using assms by (simp add: ht_inv_def u)
    then show thesis using that [of "?h\<lparr>ht_elements := ht_elements h + 1\<rparr>"] i None u by simp
  next
    case (Some w)
    then have d: "insert k (dom (ht_abs hash h)) = dom (ht_abs hash h)" by auto
    have e: "ht_elements ?h = ht_elements h" by (simp add: ht_set_bucket_def)
    have i: "ht_inv hash ?h" using assms by (simp add: ht_inv_def u d e)
    show thesis
      using that [of "if update then ?h else h"] Some a i u assms
      by (cases update) (simp_all add: ht_insert_def b Let_def ht_mem_set length_update)
  qed
qed

lemma ht_delete_inv:
  assumes "ht_inv hash h" "ht_find_bucket hash k h = Some b"
  defines "h' \<equiv> ht_set_bucket b (AList.delete k (ht_mem h b)) h"
  shows "ht_abs hash h' = (ht_abs hash h)(k := None)"
    "ht_abs hash h k \<noteq> None \<Longrightarrow> ht_inv hash (h'\<lparr>ht_elements := ht_elements h - 1\<rparr>)"
    "ht_abs hash h k = None \<Longrightarrow> ht_inv hash h'"
    "length (AList.delete k (ht_mem h b)) < length (ht_mem h b) \<longleftrightarrow> ht_abs hash h k \<noteq> None"
    "ht_elements h' = ht_elements h"
proof -
  show u: "ht_abs hash h' = (ht_abs hash h)(k := None)" unfolding h'_def using ht_abs_set [OF assms(2)] by (simp add: delete_conv')
  show e: "ht_elements h' = ht_elements h" by (simp add: h'_def ht_set_bucket_def)
  have s: "ht_shape h'" using assms(1) by (simp add: h'_def ht_inv_def)
  show "ht_inv hash (h'\<lparr>ht_elements := ht_elements h - 1\<rparr>)" if k: "ht_abs hash h k \<noteq> None"
  proof -
    have f: "finite (dom (ht_abs hash h))" and "k \<in> dom (ht_abs hash h)" using assms(1) k by (auto simp: ht_inv_def)
    then have c: "card (dom (ht_abs hash h)) = Suc (card (dom (ht_abs hash h) - {k}))" by (rule card.remove)
    have "ht_elements h = of_nat (card (dom (ht_abs hash h)))" using assms(1) by (simp add: ht_inv_def)
    then have "ht_elements h - 1 = of_nat (card (dom (ht_abs hash h) - {k}))" unfolding c by simp
    then show ?thesis using s f by (simp add: ht_inv_def u)
  qed
  show "ht_inv hash h'" if "ht_abs hash h k = None"
    using that assms(1) s e by (simp add: ht_inv_def u fun_upd_idem)
  have "ht_abs hash h k = map_of (ht_mem h b) k" by (simp add: ht_abs_def assms(2))
  then show "length (AList.delete k (ht_mem h b)) < length (ht_mem h b) \<longleftrightarrow> ht_abs hash h k \<noteq> None"
    using length_delete [of k "ht_mem h b"] length_delete_le [of k "ht_mem h b"] by (auto simp: order.order_iff_strict)
qed

lemma ht_erase_map:
  assumes "ht_inv hash h"
  obtains h' where "ht_erase hash k h = Some (ht_abs hash h k \<noteq> None, h')" "ht_inv hash h'" "ht_abs hash h' = (ht_abs hash h)(k := None)"
proof -
  obtain b where b: "ht_find_bucket hash k h = Some b" using assms by (auto simp: ht_inv_def elim: ht_bucket_of)
  note d = ht_delete_inv [OF assms b]
  show thesis
  proof (cases "ht_abs hash h k = None")
    case True
    then have "\<not> length (AList.delete k (ht_mem h b)) < length (ht_mem h b)" using d(4) by simp
    then show thesis using that d(1,3) True by (simp add: ht_erase_def b Let_def)
  next
    case False
    then have "length (AList.delete k (ht_mem h b)) < length (ht_mem h b)" using d(4) by simp
    then show thesis using that d(1,2,5) False by (simp add: ht_erase_def b Let_def)
  qed
qed

lemma ht_erase_iter_map:
  assumes "ht_inv hash h" "ht_find_iter hash k h = Some (Some position)"
  obtains h' where "ht_erase_iter hash position h = Some (True, h')" "ht_inv hash h'" "ht_abs hash h' = (ht_abs hash h)(k := None)"
proof -
  obtain b where b: "ht_find_bucket hash k h = Some b" using assms(1) by (auto simp: ht_inv_def elim: ht_bucket_of)
  note d = ht_delete_inv [OF assms(1) b]
  have p: "position = (b, k)" "ht_abs hash h k \<noteq> None"
    using assms(2) by (auto simp: ht_find_iter_def ht_abs_def b split: option.splits)
  then have "length (AList.delete k (ht_mem h b)) < length (ht_mem h b)" using d(4) by simp
  moreover have "map_of (ht_mem h b) k \<noteq> None" using p(2) by (simp add: ht_abs_def b)
  ultimately show thesis using that d(1,2,5) p by (simp add: ht_erase_iter_def b Let_def ht_mem_set)
qed

lemma ht_finds:
  assumes "ht_inv hash h"
  obtains b where "ht_find hash k h = Some (ht_abs hash h k)" "ht_find_iter hash k h = Some (map_option (\<lambda>v. (b, k)) (ht_abs hash h k))"
    "ht_find_both hash k h = Some (map_option (\<lambda>v. (v, b, k)) (ht_abs hash h k))"
proof -
  obtain b where b: "ht_find_bucket hash k h = Some b" using assms by (auto simp: ht_inv_def elim: ht_bucket_of)
  show thesis
    using that [of b] b by (simp add: ht_find_def ht_find_iter_def ht_find_both_def ht_abs_def option.map_comp split: option.split)
qed


section \<open>Initialisation\<close>

lemma unat_pow64: "(2 :: nat) ^ j < 2 ^ 64 \<Longrightarrow> unat ((2 :: uint64) ^ j) = 2 ^ j"
  using unat_of_nat [of "2 ^ j", where 'a = 64] by (simp add: take_bit_nat_eq_self)

lemma ht_bucket_count_pow2:
  obtains j where "j < 32" "unat (ht_bucket_count s) = 2 ^ j" "ht_bucket_count s - 1 = mask j"
proof -
  have "\<exists>p \<in> set SL_2_POW_LIST. ht_bucket_count s = ucast p"
  proof (cases "find (\<lambda>p. s \<le> ucast p) SL_2_POW_LIST")
    case None
    then show ?thesis using pow2_list_top by (auto simp: ht_bucket_count_def intro!: bexI [of _ "SL_2_POW_LIST ! 31"] nth_mem)
  next
    case (Some p)
    then have "p \<in> set SL_2_POW_LIST" by (auto simp: find_Some_iff)
    then show ?thesis using Some by (simp add: ht_bucket_count_def) blast
  qed
  then obtain p where p: "p \<in> set SL_2_POW_LIST" "ht_bucket_count s = ucast p" by blast
  obtain j where j: "j < 32" "unat p = 2 ^ j" using pow2_list_exp [OF p(1)] by blast
  have "unat p < 2 ^ 64" by (rule less_trans [OF unat_lt32]) simp
  then have u: "unat (ht_bucket_count s) = 2 ^ j" unfolding p(2) using j by (simp add: unsigned_ucast_eq take_bit_nat_eq_self)
  have "(2 :: nat) ^ j < 2 ^ 64" using j(1) by (intro power_strict_increasing) simp_all
  then have "unat ((2 :: uint64) ^ j) = 2 ^ j" by (rule unat_pow64)
  then have "ht_bucket_count s = 2 ^ j" by (intro word_unat_eq_iff [THEN iffD2]) (simp only: u)
  then show thesis using that [of j] j(1) u by (simp add: mask_eq_exp_minus_1)
qed

lemma ht_bucket_count_bounds: "0 < unat (ht_bucket_count s)" "unat (ht_bucket_count s) \<le> 2 ^ 31"
proof -
  obtain j where j: "j < 32" "unat (ht_bucket_count s) = 2 ^ j" by (rule ht_bucket_count_pow2)
  then show "0 < unat (ht_bucket_count s)" by simp
  have "(2 :: nat) ^ j \<le> 2 ^ 31" using j(1) by (intro power_increasing) simp_all
  then show "unat (ht_bucket_count s) \<le> 2 ^ 31" using j(2) by simp
qed

text \<open>While the pool has free objects, an allocation takes the last of them.\<close>

lemma ht_alloc_free:
  assumes "ck_free_objects (ht_pool h) = rev ys" "n \<le> length ys"
  shows "ht_alloc_buckets fresh n h =
    Some (h\<lparr>ht_buckets := ht_buckets h @ map Some (take n ys), ht_pool := (ht_pool h)\<lparr>ck_free_objects := rev (drop n ys)\<rparr>\<rparr>)"
  using assms
proof (induction n arbitrary: h ys)
  case 0
  then show ?case by simp
next
  case (Suc n)
  then obtain y zs where y: "ys = y # zs" by (cases ys) auto
  let ?p = "(ht_pool h)\<lparr>ck_free_objects := rev zs\<rparr>"
  have "ck_alloc_object fresh (ht_pool h) = Some (Some y, ?p)" using Suc.prems y by (simp add: ck_alloc_object_def)
  moreover have "ht_set_pool ?p h = h\<lparr>ht_pool := ?p\<rparr>" by (auto simp: ht_set_pool_def fun_eq_iff)
  ultimately show ?case using Suc.IH [of "h\<lparr>ht_pool := ?p, ht_buckets := ht_buckets h @ [Some y]\<rparr>" zs] Suc.prems y by simp
qed

lemma ck_init_all:
  assumes "new_ok fresh" "per \<noteq> 0"
  shows "ck_inv fresh {} (ck_init fresh n n per ck_new)" "length (ck_free_objects (ck_init fresh n n per ck_new)) = unat n * unat per"
proof -
  let ?p = "ck_init fresh n n per ck_new"
  show i: "ck_inv fresh {} ?p" using ck_init_inv [of fresh per n n] assms by (simp add: ck_sized_def)
  have "ck_current_chunk_size ((ck_alloc_i fresh ^^ k) p) = ck_current_chunk_size p + of_nat k \<and>
      ck_per_chunk_size ((ck_alloc_i fresh ^^ k) p) = ck_per_chunk_size p" for k p
    by (induction k) (simp_all add: ck_alloc_i_def Let_def)
  then have "ck_current_chunk_size ?p = n" "ck_per_chunk_size ?p = per"
    using assms(2) by (simp_all add: ck_init_def ck_clear_def ck_new_def Let_def)
  then have "length (ck_live ?p) = unat n * unat per" using i by (simp add: ck_inv_def)
  moreover have "length (ck_free_objects ?p) = length (ck_live ?p)"
    using i distinct_card [of "ck_free_objects ?p"] distinct_card [of "ck_live ?p"] by (simp add: ck_inv_def)
  ultimately show "length (ck_free_objects ?p) = unat n * unat per" by simp
qed

lemma ht_init_inv:
  assumes "new_ok fresh"
  obtains h where "ht_init fresh bucket_size chunk_size (ht_new mem) = Some h" "ht_inv hash h" "ht_abs hash h = Map.empty"
    "ht_bucket_size h = unat (ht_bucket_count bucket_size)"
proof -
  let ?s = "ht_bucket_count bucket_size"
  define c where "c = (if chunk_size > ?s then ?s else if chunk_size = 0 then 1 else chunk_size)"
  define n where "n = (ucast (?s div c + 1) :: uint)"
  note s = ht_bucket_count_bounds [of bucket_size]
  obtain j where j: "j < 32" "unat ?s = 2 ^ j" "?s - 1 = mask j" by (rule ht_bucket_count_pow2)
  have c: "0 < unat c" "unat c \<le> 2 ^ 31"
    using s by (auto simp: c_def word_less_nat_alt unat_gt_0)
  then have per: "unat (ucast c :: uint) = unat c" by (simp add: unsigned_ucast_eq take_bit_nat_eq_self)
  have "unat ?s div unat c \<le> 2 ^ 31" using s(2) div_le_dividend le_trans by blast
  then have "unat (?s div c + 1) = unat ?s div unat c + 1" by (simp add: unat_add_small unat_div_distrib)
  moreover from this have "unat n = unat (?s div c + 1)"
    using \<open>unat ?s div unat c \<le> 2 ^ 31\<close> by (simp add: n_def unsigned_ucast_eq take_bit_nat_eq_self)
  ultimately have n: "unat n = unat ?s div unat c + 1" by simp
  have "unat ?s = unat ?s div unat c * unat c + unat ?s mod unat c" by simp
  also have "\<dots> \<le> unat ?s div unat c * unat c + unat c"
    by (rule add_left_mono, rule less_imp_le, rule mod_less_divisor, rule c(1))
  finally have room: "unat ?s \<le> unat n * unat (ucast c :: uint)" by (simp add: n per)
  have nz: "(ucast c :: uint) \<noteq> 0" using per c(1) by auto
  let ?p = "ck_init fresh n n (ucast c) ck_new"
  note p = ck_init_all [OF assms nz, of n]
  let ?h0 = "ht_new mem :: ('a, 'b) hash_tree"
  let ?h1 = "ht_set_pool ?p (?h0\<lparr>ht_mask := ?s - 1\<rparr>)"
  define ys where "ys = rev (ck_free_objects ?p)"
  have "ht_clear ?h0 = ?h0" by (simp add: ht_clear_def ht_new_def ck_clear_def ck_new_def)
  moreover have "ht_pool ?h0 = ck_new" "ht_pool (ht_new mem\<lparr>ht_mask := ?s - 1\<rparr>) = ck_new" by (simp_all add: ht_new_def)
  ultimately have "ht_init fresh bucket_size chunk_size ?h0 = ht_alloc_buckets fresh (unat ?s) ?h1"
    by (simp add: ht_init_def Let_def c_def [symmetric] n_def [symmetric])
  also have "\<dots> = Some (?h1\<lparr>ht_buckets := map Some (take (unat ?s) ys), ht_pool := ?p\<lparr>ck_free_objects := rev (drop (unat ?s) ys)\<rparr>\<rparr>)" (is "_ = Some ?r")
    using ht_alloc_free [of ?h1 ys "unat ?s" fresh] p(2) room by (simp add: ys_def ht_set_pool_def ht_new_def)
  finally have init: "ht_init fresh bucket_size chunk_size ?h0 = Some ?r" .
  have ys: "distinct ys" "set ys = set (ck_live ?p)" "unat ?s \<le> length ys" using p room by (simp_all add: ys_def ck_inv_def)
  have "distinct (map Some (take (unat ?s) ys))" using ys(1) by (simp add: distinct_map inj_on_def)
  then have shape: "ht_shape ?r"
    using ys(3) j by (auto simp: ht_shape_def ht_set_pool_def min_absorb2)
  have mem: "ht_mem ?r b = []" if "b \<in> set ys" for b using that ys(2) by (simp add: ht_set_pool_def ht_new_def ck_new_def)
  have abs: "ht_abs hash ?r = Map.empty"
  proof
    fix k
    obtain b where b: "ht_find_bucket hash k ?r = Some b" "ht_buckets ?r ! unat (hash k AND ht_mask ?r) = Some b"
      using shape by (rule ht_bucket_of)
    have "Some b \<in> set (ht_buckets ?r)" using nth_mem [OF ht_index [OF shape, of "hash k"]] unfolding b(2) .
    then have "b \<in> set ys" by (auto dest: in_set_takeD)
    note m = mem [OF this]
    show "ht_abs hash ?r k = None" unfolding ht_abs_def b(1) option.case m by simp
  qed
  have "ht_elements ?r = 0" by (simp add: ht_set_pool_def ht_new_def)
  then have "ht_inv hash ?r" unfolding ht_inv_def abs using shape by simp
  moreover have "ht_bucket_size ?r = unat ?s" using ys(3) by (simp add: ht_bucket_size_def)
  ultimately show thesis using that init abs by blast
qed


section \<open>Runs\<close>

datatype ('k, 'v) ht_op = Ht_find 'k | Ht_insert 'k 'v bool | Ht_erase 'k | Ht_erase_found 'k | Ht_size | Ht_empty

datatype 'v ht_result = Found "'v option" | Changed bool | Number uint | Emptiness bool

text \<open>An element is also erased through the iterator that a search for it returned.\<close>

fun ht_step :: "('k \<Rightarrow> uint64) \<Rightarrow> ('k, 'v) ht_op \<Rightarrow> ('k, 'v) hash_tree \<Rightarrow> ('v ht_result \<times> ('k, 'v) hash_tree) option" where
  "ht_step hash (Ht_find k) h = do { v \<leftarrow> ht_find hash k h; Some (Found v, h) }"
| "ht_step hash (Ht_insert k v update) h = do { (r, h) \<leftarrow> ht_insert hash k v update h; Some (Changed r, h) }"
| "ht_step hash (Ht_erase k) h = do { (r, h) \<leftarrow> ht_erase hash k h; Some (Changed r, h) }"
| "ht_step hash (Ht_erase_found k) h = do {
     position \<leftarrow> ht_find_iter hash k h;
     case position of None \<Rightarrow> Some (Changed False, h)
     | Some position \<Rightarrow> do { (r, h) \<leftarrow> ht_erase_iter hash position h; Some (Changed r, h) } }"
| "ht_step hash Ht_size h = Some (Number (ht_size h), h)"
| "ht_step hash Ht_empty h = Some (Emptiness (ht_empty h), h)"

fun ht_run :: "('k \<Rightarrow> uint64) \<Rightarrow> ('k, 'v) ht_op list \<Rightarrow> ('k, 'v) hash_tree \<Rightarrow> ('v ht_result list \<times> ('k, 'v) hash_tree) option" where
  "ht_run hash [] h = Some ([], h)"
| "ht_run hash (op # ops) h = do { (r, h) \<leftarrow> ht_step hash op h; (rs, h) \<leftarrow> ht_run hash ops h; Some (r # rs, h) }"

text \<open>The same calls on a map.\<close>

fun map_step :: "('k, 'v) ht_op \<Rightarrow> ('k \<rightharpoonup> 'v) \<Rightarrow> 'v ht_result \<times> ('k \<rightharpoonup> 'v)" where
  "map_step (Ht_find k) m = (Found (m k), m)"
| "map_step (Ht_insert k v update) m = (Changed (m k = None), if update \<or> m k = None then m(k \<mapsto> v) else m)"
| "map_step (Ht_erase k) m = (Changed (m k \<noteq> None), m(k := None))"
| "map_step (Ht_erase_found k) m = (Changed (m k \<noteq> None), m(k := None))"
| "map_step Ht_size m = (Number (of_nat (card (dom m))), m)"
| "map_step Ht_empty m = (Emptiness (of_nat (card (dom m)) = (0 :: uint)), m)"

fun map_run :: "('k, 'v) ht_op list \<Rightarrow> ('k \<rightharpoonup> 'v) \<Rightarrow> 'v ht_result list \<times> ('k \<rightharpoonup> 'v)" where
  "map_run [] m = ([], m)"
| "map_run (op # ops) m = (let (r, m) = map_step op m; (rs, m) = map_run ops m in (r # rs, m))"

lemma ht_step_map:
  assumes "ht_inv hash h"
  obtains h' where "ht_step hash op h = Some (fst (map_step op (ht_abs hash h)), h')" "ht_inv hash h'"
    "ht_abs hash h' = snd (map_step op (ht_abs hash h))"
proof (cases op)
  case (Ht_find k)
  obtain b where "ht_find hash k h = Some (ht_abs hash h k)" using assms by (rule ht_finds)
  then show thesis using that [of h] assms by (simp add: Ht_find)
next
  case (Ht_insert k v update)
  obtain h' where "ht_insert hash k v update h = Some (ht_abs hash h k = None, h')" "ht_inv hash h'"
      "ht_abs hash h' = (if update \<or> ht_abs hash h k = None then (ht_abs hash h)(k \<mapsto> v) else ht_abs hash h)"
    using assms by (rule ht_insert_map)
  then show thesis using that [of h'] by (simp add: Ht_insert)
next
  case (Ht_erase k)
  obtain h' where "ht_erase hash k h = Some (ht_abs hash h k \<noteq> None, h')" "ht_inv hash h'" "ht_abs hash h' = (ht_abs hash h)(k := None)"
    using assms by (rule ht_erase_map)
  then show thesis using that [of h'] by (simp add: Ht_erase)
next
  case (Ht_erase_found k)
  obtain b where f: "ht_find_iter hash k h = Some (map_option (\<lambda>v. (b, k)) (ht_abs hash h k))" using assms by (rule ht_finds)
  show thesis
  proof (cases "ht_abs hash h k")
    case None
    then show thesis using that [of h] assms f by (simp add: Ht_erase_found fun_upd_idem)
  next
    case (Some v)
    then have "ht_find_iter hash k h = Some (Some (b, k))" using f by simp
    then obtain h' where "ht_erase_iter hash (b, k) h = Some (True, h')" "ht_inv hash h'" "ht_abs hash h' = (ht_abs hash h)(k := None)"
      by (rule ht_erase_iter_map [OF assms])
    then show thesis using that [of h'] Some f by (simp add: Ht_erase_found)
  qed
next
  case Ht_size
  then show thesis using that [of h] assms by (simp add: ht_size_def ht_inv_def)
next
  case Ht_empty
  have "(0 = ht_elements h) = (of_nat (card (dom (ht_abs hash h))) = (0 :: uint))" using assms by (auto simp: ht_inv_def)
  then show thesis using that [of h] assms Ht_empty by (simp add: ht_empty_def)
qed

lemma ht_run_map:
  assumes "ht_inv hash h"
  obtains h' where "ht_run hash ops h = Some (fst (map_run ops (ht_abs hash h)), h')" "ht_abs hash h' = snd (map_run ops (ht_abs hash h))"
  using assms
proof (induction ops arbitrary: h thesis)
  case Nil
  then show ?case by simp
next
  case (Cons op ops)
  obtain h1 where 1: "ht_step hash op h = Some (fst (map_step op (ht_abs hash h)), h1)" "ht_inv hash h1"
      "ht_abs hash h1 = snd (map_step op (ht_abs hash h))"
    using Cons.prems(2) by (rule ht_step_map)
  obtain h2 where 2: "ht_run hash ops h1 = Some (fst (map_run ops (ht_abs hash h1)), h2)" "ht_abs hash h2 = snd (map_run ops (ht_abs hash h1))"
    by (rule Cons.IH [OF _ 1(2)])
  show ?case using Cons.prems(1) [of h2] 1 2 by (simp add: split_beta Let_def)
qed

text \<open>C34: A hash tree of any size and chunk size is a map: initialisation takes all buckets from the pool and returns, and every
  sequence of searches, insertions with and without replacing, removals by key and through an iterator, and questions for the size
  gets the answers a map gives and leaves the keys a map has, for every hash function, without an access to a bucket that
  does not exist.\<close>

theorem hash_tree_is_map:
  assumes "new_ok fresh"
  shows "\<exists>h h'. ht_init fresh bucket_size chunk_size (ht_new mem) = Some h \<and> ht_run hash ops h = Some (fst (map_run ops Map.empty), h') \<and>
    ht_abs hash h' = snd (map_run ops Map.empty)"
proof -
  obtain h :: "('a, 'b) hash_tree" where h: "ht_init fresh bucket_size chunk_size (ht_new mem) = Some h" "ht_inv hash h" "ht_abs hash h = Map.empty"
    using assms by (rule ht_init_inv)
  obtain h' where "ht_run hash ops h = Some (fst (map_run ops (ht_abs hash h)), h')" "ht_abs hash h' = snd (map_run ops (ht_abs hash h))"
    using h(2) by (rule ht_run_map)
  then show ?thesis using h(1,3) by auto
qed

theorem hash_tree_is_map_witness:
  "\<exists>h h'. ht_init next_address 3 10 (ht_new (\<lambda>_. [])) = Some h \<and>
    ht_run id [Ht_insert 9 True False, Ht_find 1, Ht_size] h =
      Some (fst (map_run [Ht_insert (9 :: uint64) True False, Ht_find 1, Ht_size] Map.empty), h') \<and>
    ht_abs id h' = snd (map_run [Ht_insert 9 True False, Ht_find 1, Ht_size] Map.empty)"
  by (rule hash_tree_is_map [OF next_address_ok])


section \<open>Many threads\<close>

text \<open>
  In the class with a mutex per bucket an insertion and a removal leave the critical section before they change the
  count, and a search before it reads the value through its iterator: a thread is idle, about to count, or about to
  read a node.  Each section and each access to the atomic count is one step.
\<close>

datatype 'k ht_pc = Idle | Counting bool | Reading nat 'k

definition ht_lock_find :: "('k \<Rightarrow> uint64) \<Rightarrow> 'k \<Rightarrow> ('k, 'v) hash_tree \<Rightarrow> 'k ht_pc option" where
  "ht_lock_find hash k h = do {
     iter \<leftarrow> ht_find_iter hash k h;
     Some (case iter of None \<Rightarrow> Idle | Some (b, k) \<Rightarrow> Reading b k) }"

definition ht_lock_insert :: "('k \<Rightarrow> uint64) \<Rightarrow> 'k \<Rightarrow> 'v \<Rightarrow> bool \<Rightarrow> ('k, 'v) hash_tree \<Rightarrow> ('k ht_pc \<times> ('k, 'v) hash_tree) option" where
  "ht_lock_insert hash k v update h = do {
     b \<leftarrow> ht_find_bucket hash k h;
     let before_size = length (ht_mem h b);
     let h = (if update then ht_set_bucket b (AList.update k v (ht_mem h b)) h
              else case map_of (ht_mem h b) k of
                None \<Rightarrow> ht_set_bucket b (AList.update k v (ht_mem h b)) h | Some w \<Rightarrow> h);
     Some (if length (ht_mem h b) > before_size then Counting True else Idle, h) }"

definition ht_lock_erase :: "('k \<Rightarrow> uint64) \<Rightarrow> 'k \<Rightarrow> ('k, 'v) hash_tree \<Rightarrow> ('k ht_pc \<times> ('k, 'v) hash_tree) option" where
  "ht_lock_erase hash k h = do {
     b \<leftarrow> ht_find_bucket hash k h;
     let remove_num = length (ht_mem h b) - length (AList.delete k (ht_mem h b));
     let h = ht_set_bucket b (AList.delete k (ht_mem h b)) h;
     Some (if remove_num > 0 then Counting False else Idle, h) }"

definition ht_count :: "bool \<Rightarrow> ('k, 'v) hash_tree \<Rightarrow> ('k, 'v) hash_tree" where
  "ht_count up h = h\<lparr>ht_elements := (if up then ht_elements h + 1 else ht_elements h - 1)\<rparr>"

text \<open>The node of an iterator whose key is gone has been freed.\<close>

definition ht_read_value :: "nat \<Rightarrow> 'k \<Rightarrow> ('k, 'v) hash_tree \<Rightarrow> 'v option" where
  "ht_read_value b k h = map_of (ht_mem h b) k"

datatype ('k, 'v) th_op = Th_find 'k | Th_insert 'k 'v bool | Th_erase 'k

text \<open>A step of thread \<open>i\<close>; an idle thread starts \<open>op\<close>.  The sections that changed the tree are recorded in their order.\<close>

type_synonym ('k, 'v) th_state = "('k, 'v) hash_tree \<times> 'k ht_pc list \<times> ('k, 'v) ht_op list"

fun th_start :: "('k \<Rightarrow> uint64) \<Rightarrow> ('k, 'v) th_op \<Rightarrow> ('k, 'v) hash_tree \<Rightarrow> ('k ht_pc \<times> ('k, 'v) hash_tree \<times> ('k, 'v) ht_op list) option" where
  "th_start hash (Th_find k) h = do { pc \<leftarrow> ht_lock_find hash k h; Some (pc, h, []) }"
| "th_start hash (Th_insert k v update) h = do { (pc, h) \<leftarrow> ht_lock_insert hash k v update h; Some (pc, h, [Ht_insert k v update]) }"
| "th_start hash (Th_erase k) h = do { (pc, h) \<leftarrow> ht_lock_erase hash k h; Some (pc, h, [Ht_erase k]) }"

definition th_step :: "('k \<Rightarrow> uint64) \<Rightarrow> nat \<Rightarrow> ('k, 'v) th_op \<Rightarrow> ('k, 'v) th_state \<Rightarrow> ('k, 'v) th_state option" where
  "th_step hash i op s =
     (let (h, pcs, sections) = s
      in case pcs ! i of
           Idle \<Rightarrow> do { (pc, h, done) \<leftarrow> th_start hash op h; Some (h, pcs[i := pc], sections @ done) }
         | Counting up \<Rightarrow> Some (ht_count up h, pcs[i := Idle], sections)
         | Reading b k \<Rightarrow> do { v \<leftarrow> ht_read_value b k h; Some (h, pcs[i := Idle], sections) })"

fun th_run :: "('k \<Rightarrow> uint64) \<Rightarrow> (nat \<times> ('k, 'v) th_op) list \<Rightarrow> ('k, 'v) th_state \<Rightarrow> ('k, 'v) th_state option" where
  "th_run hash [] s = Some s"
| "th_run hash ((i, op) # xs) s = do { s \<leftarrow> th_step hash i op s; th_run hash xs s }"

text \<open>A program of the threads either never removes or never searches.\<close>

fun th_allowed :: "bool \<Rightarrow> nat \<Rightarrow> nat \<times> ('k, 'v) th_op \<Rightarrow> bool" where
  "th_allowed removes n (i, Th_find k) \<longleftrightarrow> i < n \<and> \<not> removes"
| "th_allowed removes n (i, Th_erase k) \<longleftrightarrow> i < n \<and> removes"
| "th_allowed removes n (i, Th_insert k v update) \<longleftrightarrow> i < n"

definition th_pending :: "bool \<Rightarrow> 'k ht_pc list \<Rightarrow> uint" where
  "th_pending up pcs = of_nat (length (filter (\<lambda>pc. pc = Counting up) pcs))"

definition th_inv :: "('k \<Rightarrow> uint64) \<Rightarrow> bool \<Rightarrow> nat \<Rightarrow> ('k, 'v) th_state \<Rightarrow> bool" where
  "th_inv hash removes n s = (case s of (h, pcs, sections) \<Rightarrow>
     ht_shape h \<and> finite (dom (ht_abs hash h)) \<and> length pcs = n \<and>
     ht_abs hash h = snd (map_run sections Map.empty) \<and>
     ht_elements h + th_pending True pcs = of_nat (card (dom (ht_abs hash h))) + th_pending False pcs \<and>
     (if removes then \<forall>b k. Reading b k \<notin> set pcs else \<forall>b k. Reading b k \<in> set pcs \<longrightarrow> map_of (ht_mem h b) k \<noteq> None))"

lemma map_run_append: "snd (map_run (a @ b) m) = snd (map_run b (snd (map_run a m)))"
  by (induction a arbitrary: m) (simp_all add: split_beta Let_def)

lemma th_pending_update:
  assumes "i < length pcs"
  shows "th_pending up (pcs[i := pc]) + (if pcs ! i = Counting up then 1 else 0) = th_pending up pcs + (if pc = Counting up then 1 else 0)"
proof -
  have p: "pcs[i := pc] = take i pcs @ pc # drop (Suc i) pcs" "pcs = take i pcs @ pcs ! i # drop (Suc i) pcs"
    using assms by (simp_all add: upd_conv_take_nth_drop id_take_nth_drop [symmetric])
  have "th_pending up pcs = th_pending up (take i pcs) + (if pcs ! i = Counting up then 1 else 0) + th_pending up (drop (Suc i) pcs)"
    by (subst p(2)) (simp add: th_pending_def)
  then show ?thesis unfolding p(1) by (simp add: th_pending_def)
qed


lemma lock_insert:
  assumes "ht_shape h" "finite (dom (ht_abs hash h))"
  obtains h' where "ht_lock_insert hash k v update h = Some (if ht_abs hash h k = None then Counting True else Idle, h')"
    "ht_shape h'" "ht_elements h' = ht_elements h" "ht_abs hash h' = snd (map_step (Ht_insert k v update) (ht_abs hash h))"
    "\<forall>b j. map_of (ht_mem h b) j \<noteq> None \<longrightarrow> map_of (ht_mem h' b) j \<noteq> None"
proof -
  obtain b where b: "ht_find_bucket hash k h = Some b" using assms(1) by (rule ht_bucket_of)
  have a: "ht_abs hash h k = map_of (ht_mem h b) k" by (simp add: ht_abs_def b)
  let ?h = "ht_set_bucket b (AList.update k v (ht_mem h b)) h"
  have u: "ht_abs hash ?h = (ht_abs hash h)(k \<mapsto> v)" using ht_abs_set [OF b] by (simp add: update_conv')
  have e: "ht_elements ?h = ht_elements h" by (simp add: ht_set_bucket_def)
  have m: "map_of (ht_mem h c) j \<noteq> None \<Longrightarrow> map_of (ht_mem ?h c) j \<noteq> None" for c j by (auto simp: ht_mem_set update_conv')
  show thesis
  proof (cases "update \<or> ht_abs hash h k = None")
    case True
    show thesis
      by (rule that [of ?h]) (use True a u e m assms in \<open>auto simp: ht_lock_insert_def b Let_def ht_mem_set length_update\<close>)
  next
    case False
    show thesis
      by (rule that [of h]) (use False a assms in \<open>auto simp: ht_lock_insert_def b Let_def\<close>)
  qed
qed

lemma lock_erase:
  assumes "ht_shape h"
  obtains h' where "ht_lock_erase hash k h = Some (if ht_abs hash h k = None then Idle else Counting False, h')"
    "ht_shape h'" "ht_elements h' = ht_elements h" "ht_abs hash h' = (ht_abs hash h)(k := None)"
proof -
  obtain b where b: "ht_find_bucket hash k h = Some b" using assms by (rule ht_bucket_of)
  have a: "ht_abs hash h k = map_of (ht_mem h b) k" by (simp add: ht_abs_def b)
  let ?h = "ht_set_bucket b (AList.delete k (ht_mem h b)) h"
  have u: "ht_abs hash ?h = (ht_abs hash h)(k := None)" using ht_abs_set [OF b] by (simp add: delete_conv')
  have "length (AList.delete k (ht_mem h b)) < length (ht_mem h b) \<longleftrightarrow> ht_abs hash h k \<noteq> None"
    unfolding a using length_delete [of k "ht_mem h b"] length_delete_le [of k "ht_mem h b"] by (auto simp: order.order_iff_strict)
  then have "ht_lock_erase hash k h = Some (if ht_abs hash h k = None then Idle else Counting False, ?h)"
    by (simp add: ht_lock_erase_def b Let_def)
  moreover have "ht_elements ?h = ht_elements h" by (simp add: ht_set_bucket_def)
  ultimately show thesis using that u assms by simp
qed

lemma th_pending_start:
  assumes "i < length pcs" "pcs ! i = Idle"
  shows "th_pending up (pcs[i := pc]) = th_pending up pcs + (if pc = Counting up then 1 else 0)"
  using th_pending_update [OF assms(1), of up pc] assms(2) by simp

lemma reading_update: "Reading b k \<in> set (pcs[i := pc]) \<Longrightarrow> pc = Reading b k \<or> Reading b k \<in> set pcs"
  using set_update_subset_insert [of pcs i pc] by auto

lemma th_start_inv:
  assumes s: "th_inv hash removes n (h, pcs, sections)" and i: "pcs ! i = Idle" and a: "th_allowed removes n (i, op)"
  shows "\<exists>pc h' done. th_start hash op h = Some (pc, h', done) \<and> th_inv hash removes n (h', pcs[i := pc], sections @ done)"
proof -
  have shape: "ht_shape h" and fin: "finite (dom (ht_abs hash h))" and len: "length pcs = n"
    and abs: "ht_abs hash h = snd (map_run sections Map.empty)"
    and num: "ht_elements h + th_pending True pcs = of_nat (card (dom (ht_abs hash h))) + th_pending False pcs"
    and rd: "if removes then \<forall>b k. Reading b k \<notin> set pcs else \<forall>b k. Reading b k \<in> set pcs \<longrightarrow> map_of (ht_mem h b) k \<noteq> None"
    using s unfolding th_inv_def prod.case by blast+
  have il: "i < length pcs" using a len by (cases op) simp_all
  note pend = th_pending_start [OF il i]
  show ?thesis
  proof (cases op)
    case (Th_find k)
    then have r: "\<not> removes" using a by simp
    obtain b where b: "ht_find_bucket hash k h = Some b" using shape by (rule ht_bucket_of)
    show ?thesis
    proof (cases "map_of (ht_mem h b) k")
      case None
      then show ?thesis using s rd r reading_update [of _ _ pcs i Idle] by (auto simp: Th_find ht_lock_find_def ht_find_iter_def b th_inv_def pend)
    next
      case (Some v)
      then have "\<forall>c j. Reading c j \<in> set (pcs[i := Reading b k]) \<longrightarrow> map_of (ht_mem h c) j \<noteq> None"
      proof (intro allI impI)
        fix c j
        assume "Reading c j \<in> set (pcs[i := Reading b k])"
        from reading_update [OF this] show "map_of (ht_mem h c) j \<noteq> None" using rd r Some by auto
      qed
      then have "th_inv hash removes n (h, pcs[i := Reading b k], sections)"
        using shape fin len num r by (simp add: th_inv_def pend abs [symmetric])
      then show ?thesis using Some by (simp add: Th_find ht_lock_find_def ht_find_iter_def b)
    qed
  next
    case (Th_insert k v update)
    obtain h' where h': "ht_lock_insert hash k v update h = Some (if ht_abs hash h k = None then Counting True else Idle, h')"
        "ht_shape h'" "ht_elements h' = ht_elements h" "ht_abs hash h' = snd (map_step (Ht_insert k v update) (ht_abs hash h))"
        "\<forall>b j. map_of (ht_mem h b) j \<noteq> None \<longrightarrow> map_of (ht_mem h' b) j \<noteq> None"
      by (rule lock_insert [OF shape fin, of k v update])
    let ?pc = "if ht_abs hash h k = None then Counting True else Idle :: 'a ht_pc"
    have "finite (dom (ht_abs hash h'))" using fin by (simp add: h'(4))
    moreover have "ht_elements h' + th_pending True (pcs[i := ?pc]) = of_nat (card (dom (ht_abs hash h'))) + th_pending False (pcs[i := ?pc])"
    proof (cases "ht_abs hash h k")
      case None
      then have "k \<notin> dom (ht_abs hash h)" by auto
      then show ?thesis using num fin None by (simp add: h'(3,4) pend algebra_simps)
    next
      case (Some w)
      then have "insert k (dom (ht_abs hash h)) = dom (ht_abs hash h)" by auto
      then show ?thesis using num Some by (simp add: h'(3,4) pend)
    qed
    moreover have "if removes then \<forall>b k. Reading b k \<notin> set (pcs[i := ?pc])
        else \<forall>b k. Reading b k \<in> set (pcs[i := ?pc]) \<longrightarrow> map_of (ht_mem h' b) k \<noteq> None"
      using rd h'(5) reading_update [of _ _ pcs i ?pc] by (auto split: if_splits)
    moreover have "ht_abs hash h' = snd (map_run (sections @ [Ht_insert k v update]) Map.empty)"
      by (simp add: map_run_append h'(4) abs)
    ultimately show ?thesis using h'(1,2) len by (simp add: Th_insert th_inv_def)
  next
    case (Th_erase k)
    then have r: "removes" using a by simp
    obtain h' where h': "ht_lock_erase hash k h = Some (if ht_abs hash h k = None then Idle else Counting False, h')"
        "ht_shape h'" "ht_elements h' = ht_elements h" "ht_abs hash h' = (ht_abs hash h)(k := None)"
      by (rule lock_erase [OF shape, of hash k])
    let ?pc = "if ht_abs hash h k = None then Idle else Counting False :: 'a ht_pc"
    have "finite (dom (ht_abs hash h'))" using fin by (simp add: h'(4))
    moreover have "ht_elements h' + th_pending True (pcs[i := ?pc]) = of_nat (card (dom (ht_abs hash h'))) + th_pending False (pcs[i := ?pc])"
    proof (cases "ht_abs hash h k")
      case None
      then show ?thesis using num by (simp add: h'(3,4) pend fun_upd_idem)
    next
      case (Some w)
      then have "k \<in> dom (ht_abs hash h)" by auto
      then have "card (dom (ht_abs hash h)) = Suc (card (dom (ht_abs hash h) - {k}))" by (rule card.remove [OF fin])
      then show ?thesis using num Some by (simp add: h'(3,4) pend algebra_simps)
    qed
    moreover have "\<forall>b k. Reading b k \<notin> set (pcs[i := ?pc])"
      using rd r reading_update [of _ _ pcs i ?pc] by (auto split: if_splits)
    moreover have "ht_abs hash h' = snd (map_run (sections @ [Ht_erase k]) Map.empty)"
      by (simp add: map_run_append h'(4) abs)
    ultimately show ?thesis using h'(1,2) len r by (simp add: Th_erase th_inv_def)
  qed
qed

lemma th_step_inv:
  assumes s: "th_inv hash removes n s" and a: "th_allowed removes n (i, op)"
  shows "\<exists>s'. th_step hash i op s = Some s' \<and> th_inv hash removes n s'"
proof -
  obtain h pcs sections where e: "s = (h, pcs, sections)" by (cases s)
  have len: "length pcs = n"
    and num: "ht_elements h + th_pending True pcs = of_nat (card (dom (ht_abs hash h))) + th_pending False pcs"
    using s unfolding th_inv_def e prod.case by blast+
  have il: "i < length pcs" using a len by (cases op) simp_all
  note idle = th_pending_update [OF il, of _ Idle]
  have rd: "\<And>b k. Reading b k \<in> set (pcs[i := Idle]) \<Longrightarrow> Reading b k \<in> set pcs" using reading_update [of _ _ pcs i Idle] by auto
  show ?thesis
  proof (cases "pcs ! i")
    case Idle
    then show ?thesis using th_start_inv [OF s [unfolded e] Idle a] by (auto simp: e th_step_def)
  next
    case (Counting up)
    have "ht_abs hash (ht_count up h) = ht_abs hash h" "ht_shape (ht_count up h) = ht_shape h" "ht_mem (ht_count up h) = ht_mem h"
      by (simp_all add: ht_count_def)
    moreover have "ht_elements (ht_count up h) + th_pending True (pcs[i := Idle]) = of_nat (card (dom (ht_abs hash h))) + th_pending False (pcs[i := Idle])"
    proof (cases up)
      case True
      have "th_pending True (pcs[i := Idle]) + 1 = th_pending True pcs" "th_pending False (pcs[i := Idle]) = th_pending False pcs"
        using idle [of True] idle [of False] Counting True by simp_all
      moreover have "ht_elements h + 1 + th_pending True (pcs[i := Idle]) = ht_elements h + (th_pending True (pcs[i := Idle]) + 1)" by simp
      ultimately show ?thesis using num True by (simp only: ht_count_def) simp
    next
      case False
      then show ?thesis using num idle [of True] idle [of False] Counting by (simp add: ht_count_def algebra_simps)
    qed
    ultimately have "th_inv hash removes n (ht_count up h, pcs[i := Idle], sections)"
      using s rd by (auto simp: e th_inv_def split: if_splits)
    then show ?thesis using Counting by (simp add: e th_step_def)
  next
    case (Reading b k)
    then have "Reading b k \<in> set pcs" using il nth_mem by metis
    then obtain v where "map_of (ht_mem h b) k = Some v" using s by (auto simp: e th_inv_def split: if_splits)
    moreover have "th_inv hash removes n (h, pcs[i := Idle], sections)"
      using s rd idle Reading by (auto simp: e th_inv_def split: if_splits)
    ultimately show ?thesis using Reading by (simp add: e th_step_def ht_read_value_def)
  qed
qed

lemma th_run_inv:
  "th_inv hash removes n s \<Longrightarrow> list_all (th_allowed removes n) xs \<Longrightarrow> \<exists>s'. th_run hash xs s = Some s' \<and> th_inv hash removes n s'"
proof (induction xs arbitrary: s)
  case Nil
  then show ?case by simp
next
  case (Cons x xs)
  obtain i op where x: "x = (i, op)" by (cases x)
  have "th_allowed removes n (i, op)" using Cons.prems(2) x by simp
  from th_step_inv [OF Cons.prems(1) this] obtain s1 where "th_step hash i op s = Some s1" "th_inv hash removes n s1" by blast
  then show ?case using Cons.IH [of s1] Cons.prems(2) x by simp
qed


text \<open>C35: For a program whose threads insert and remove but never search, or insert and search but never remove
  (\<open>th_allowed\<close>; with both, \<^verbatim>\<open>find\<close> can read a node another thread has freed, \<open>find_reads_freed_node\<close>), in every interleaving
  of any number of threads the steps of the class with a mutex per bucket are all defined, the keys are those of the
  critical sections in their order, and the count differs from the number of keys exactly by the threads that have left a
  section and not yet counted: when none is left it is the number of keys.  A critical section under a bucket's mutex, a
  change of the atomic count and a search's read behind its section are one step each.\<close>

theorem hash_tree_counts:
  assumes "new_ok fresh" "list_all (th_allowed removes n) xs"
  shows "\<exists>h0 h pcs sections. ht_init fresh bucket_size chunk_size (ht_new mem) = Some h0 \<and>
    th_run hash xs (h0, replicate n Idle, []) = Some (h, pcs, sections) \<and> ht_abs hash h = snd (map_run sections Map.empty) \<and>
    ht_size h + th_pending True pcs = of_nat (card (dom (ht_abs hash h))) + th_pending False pcs"
proof -
  obtain h0 :: "('a, 'b) hash_tree" where h0: "ht_init fresh bucket_size chunk_size (ht_new mem) = Some h0" "ht_inv hash h0" "ht_abs hash h0 = Map.empty"
    using assms(1) by (rule ht_init_inv)
  have "ht_elements h0 = 0" using h0(2) unfolding ht_inv_def h0(3) by simp
  then have "th_inv hash removes n (h0, replicate n Idle, [])"
    using h0(2) unfolding ht_inv_def th_inv_def prod.case h0(3) by (simp add: th_pending_def)
  from th_run_inv [OF this assms(2)] obtain h pcs sections
    where r: "th_run hash xs (h0, replicate n Idle, []) = Some (h, pcs, sections)" and i: "th_inv hash removes n (h, pcs, sections)" by auto
  have "ht_abs hash h = snd (map_run sections Map.empty)"
    "ht_elements h + th_pending True pcs = of_nat (card (dom (ht_abs hash h))) + th_pending False pcs"
    using i unfolding th_inv_def prod.case by blast+
  then show ?thesis unfolding ht_size_def using h0(1) r by blast
qed

theorem hash_tree_counts_witness:
  "\<exists>h0 h pcs sections. ht_init next_address 3 10 (ht_new (\<lambda>_. [])) = Some h0 \<and>
    th_run id [(0, Th_insert (9 :: uint64) True False), (1, Th_erase 9), (0, Th_erase 9), (1, Th_erase 7)] (h0, replicate 2 Idle, []) =
      Some (h, pcs, sections) \<and> ht_abs id h = snd (map_run sections Map.empty) \<and>
    ht_size h + th_pending True pcs = of_nat (card (dom (ht_abs id h))) + th_pending False pcs"
  by (rule hash_tree_counts [where removes = True, OF next_address_ok]) simp

text \<open>
  A search releases the mutex before it reads the value: when another thread removes the key in between, the read is of a
  freed node.
\<close>

lemma find_reads_freed_node:
  "do { h \<leftarrow> ht_init next_address 1 1 (ht_new (\<lambda>_. []));
        th_run id [(0, Th_insert (9 :: uint64) True False), (0, Th_find 9), (1, Th_find 9), (0, Th_erase 9), (1, Th_find 9)]
          (h, replicate 2 Idle, []) } = None"
  "do { h \<leftarrow> ht_init next_address 1 1 (ht_new (\<lambda>_. []));
        (h, pcs, sections) \<leftarrow> th_run id [(0, Th_insert (9 :: uint64) True False), (0, Th_find 9), (1, Th_find 9), (0, Th_erase 9)]
          (h, replicate 2 Idle, []);
        Some pcs } = Some [Counting False, Reading 2 9]"
  by code_simp+

section \<open>Sets\<close>

text \<open>\<^verbatim>\<open>SL_Utility_HashTreeSet\<close> is the same class over sets: an element that is there stays as it is.\<close>

type_synonym 'k hash_set = "('k, unit) hash_tree"

definition hs_find :: "('k \<Rightarrow> uint64) \<Rightarrow> 'k \<Rightarrow> 'k hash_set \<Rightarrow> bool option" where
  "hs_find hash k h = do { b \<leftarrow> ht_find_bucket hash k h; Some (map_of (ht_mem h b) k \<noteq> None) }"

definition hs_insert :: "('k \<Rightarrow> uint64) \<Rightarrow> 'k \<Rightarrow> 'k hash_set \<Rightarrow> (bool \<times> 'k hash_set) option" where
  "hs_insert hash k h = do {
     b \<leftarrow> ht_find_bucket hash k h;
     let before_size = length (ht_mem h b);
     let h = (if map_of (ht_mem h b) k = None then ht_set_bucket b (ht_mem h b @ [(k, ())]) h else h);
     Some (if length (ht_mem h b) > before_size then (True, h\<lparr>ht_elements := ht_elements h + 1\<rparr>) else (False, h)) }"

text \<open>Every other operation is that of the map with the element as its key.\<close>

definition hs_init :: "(nat list \<Rightarrow> nat) \<Rightarrow> uint64 \<Rightarrow> uint64 \<Rightarrow> 'k hash_set \<Rightarrow> 'k hash_set option" where
  "hs_init = ht_init"

definition hs_clear :: "'k hash_set \<Rightarrow> 'k hash_set" where
  "hs_clear = ht_clear"

definition hs_find_iter :: "('k \<Rightarrow> uint64) \<Rightarrow> 'k \<Rightarrow> 'k hash_set \<Rightarrow> (nat \<times> 'k) option option" where
  "hs_find_iter = ht_find_iter"

definition hs_erase :: "('k \<Rightarrow> uint64) \<Rightarrow> 'k \<Rightarrow> 'k hash_set \<Rightarrow> (bool \<times> 'k hash_set) option" where
  "hs_erase = ht_erase"

definition hs_erase_iter :: "('k \<Rightarrow> uint64) \<Rightarrow> nat \<times> 'k \<Rightarrow> 'k hash_set \<Rightarrow> (bool \<times> 'k hash_set) option" where
  "hs_erase_iter = ht_erase_iter"

lemma update_new: "map_of l k = None \<Longrightarrow> AList.update k v l = l @ [(k, v)]"
  by (induction l) auto

lemma hs_is_ht: "hs_find hash k h = map_option (\<lambda>r. r \<noteq> None) (ht_find hash k h)" "hs_insert hash k h = ht_insert hash k () False h"
  by (auto simp: hs_find_def ht_find_def hs_insert_def ht_insert_def update_new Let_def split: option.split bind_split)

lemma hash_set_is_set:
  assumes "ht_inv hash h"
  shows "hs_find hash k h = Some (k \<in> dom (ht_abs hash h))"
    "\<exists>h'. hs_insert hash k h = Some (k \<notin> dom (ht_abs hash h), h') \<and> ht_inv hash h' \<and> dom (ht_abs hash h') = insert k (dom (ht_abs hash h))"
    "\<exists>h'. hs_erase hash k h = Some (k \<in> dom (ht_abs hash h), h') \<and> ht_inv hash h' \<and> dom (ht_abs hash h') = dom (ht_abs hash h) - {k}"
proof -
  obtain b where "ht_find hash k h = Some (ht_abs hash h k)" using assms by (rule ht_finds)
  then show "hs_find hash k h = Some (k \<in> dom (ht_abs hash h))" by (auto simp: hs_is_ht)
  obtain h1 where 1: "ht_insert hash k () False h = Some (ht_abs hash h k = None, h1)" "ht_inv hash h1"
      "ht_abs hash h1 = (if False \<or> ht_abs hash h k = None then (ht_abs hash h)(k \<mapsto> ()) else ht_abs hash h)"
    using assms by (rule ht_insert_map)
  then have "dom (ht_abs hash h1) = insert k (dom (ht_abs hash h))" by auto
  then show "\<exists>h'. hs_insert hash k h = Some (k \<notin> dom (ht_abs hash h), h') \<and> ht_inv hash h' \<and> dom (ht_abs hash h') = insert k (dom (ht_abs hash h))"
    using 1(1,2) by (intro exI [of _ h1]) (auto simp: hs_is_ht)
  obtain h2 where 2: "hs_erase hash k h = Some (ht_abs hash h k \<noteq> None, h2)" "ht_inv hash h2" "ht_abs hash h2 = (ht_abs hash h)(k := None)"
    using assms unfolding hs_erase_def by (rule ht_erase_map)
  then show "\<exists>h'. hs_erase hash k h = Some (k \<in> dom (ht_abs hash h), h') \<and> ht_inv hash h' \<and> dom (ht_abs hash h') = dom (ht_abs hash h) - {k}"
    by (intro exI [of _ h2]) auto
qed

end
