(* ===== verification/SL_SendManager.thy ===== *)
theory SL_SendManager
  imports SL_SendControl
begin

text \<open>
  The manager of the send threads, \<^verbatim>\<open>include/SL_Socket_SendControl_HandlerManager.h\<close> and its \<^verbatim>\<open>.cpp\<close>: how it
  distributes connections over the threads, takes them into a thread's list, passes over the list and gives closed
  connections back.  A connection is named by a number; its send side is the record of \<open>SL_SendControl\<close>.  A pass of a
  send thread is one step, and so is a call from another thread, which holds the thread's mutex while it changes lists.
\<close>

record send_thread =
  st_list_size :: uint
  st_temp_size :: uint
  st_handlers :: "nat list"
  st_active :: "nat list"
  st_standby :: "nat list"
  st_timedwait_flag :: int

record send_manager =
  mg_threads :: "send_thread list"
  mg_next :: int
  mg_thread_number :: int
  mg_send_block_size :: int
  mg_scan_waittime :: uint
  mg_timedwait_signal :: bool
  mg_env :: send_env
  mg_time_us :: uint64
  mg_timestamp :: uint64
  mg_time :: uint64
  mg_conns :: "nat \<Rightarrow> send_control"
  mg_index :: "nat \<Rightarrow> int"
  mg_iovec :: "nat option"

text \<open>
  \<open>mg_iovec\<close> is the manager's own array \<^verbatim>\<open>iovec_\<close>, which \<^verbatim>\<open>event_loop\<close> fills: its length, or \<open>None\<close> for \<^verbatim>\<open>NULL\<close>.  A send thread has an
  array of its own, of as many entries as it passes to \<^verbatim>\<open>write_data\<close>.
\<close>

definition SL_MAX_IOVCNT :: int where "SL_MAX_IOVCNT = 1024"

definition send_thread_new :: send_thread where
  "send_thread_new = \<lparr>st_list_size = 0, st_temp_size = 0, st_handlers = [], st_active = [], st_standby = [], st_timedwait_flag = 0\<rparr>"

section \<open>Opening, closing and adding\<close>

definition mg_close :: "send_manager \<Rightarrow> send_manager" where
  "mg_close m = m\<lparr>mg_threads := [], mg_iovec := None\<rparr>"

text \<open>Milliseconds to microseconds: the product is one of \<^verbatim>\<open>int\<close>.\<close>

definition ms_to_us :: "int \<Rightarrow> uint option" where
  "ms_to_us ms = (if - (2 ^ 31) \<le> ms * 1000 \<and> ms * 1000 < 2 ^ 31 then Some (word_of_int (ms * 1000)) else None)"

text \<open>
  \<^verbatim>\<open>new SL_IOVEC\<close> throws for a negative count, in \<^verbatim>\<open>open\<close> itself or in the threads it starts; the array of a manager without
  threads has the count that was asked for, what is passed to \<^verbatim>\<open>write_data\<close> is at most 1024.
\<close>

definition mg_open ::
  "int \<Rightarrow> int \<Rightarrow> int \<Rightarrow> int \<Rightarrow> int \<Rightarrow> int \<Rightarrow> int \<Rightarrow> bool \<Rightarrow> bool \<Rightarrow> send_manager \<Rightarrow> send_manager option"
where
  "mg_open thread_number send_block_size iovec_count keepalive_time_ms send_delaytime_us scan_waittime_us close_delaytime_ms
      timedwait_signal direct_send_flag m = do {
     let m = mg_close m;
     keepalive \<leftarrow> ms_to_us keepalive_time_ms;
     close_delay \<leftarrow> ms_to_us close_delaytime_ms;
     let m = m\<lparr>mg_thread_number := thread_number, mg_send_block_size := send_block_size,
               mg_scan_waittime := word_of_int scan_waittime_us, mg_timedwait_signal := timedwait_signal,
               mg_env := (mg_env m)\<lparr>se_iovec_count := (if iovec_count > SL_MAX_IOVCNT then SL_MAX_IOVCNT else iovec_count),
                           se_keepalive_time := keepalive, se_send_delaytime := word_of_int send_delaytime_us,
                           se_close_delaytime := close_delay, se_direct_send := direct_send_flag\<rparr>\<rparr>;
     if iovec_count < 0 then None
     else Some (if thread_number > 0 then m\<lparr>mg_iovec := None, mg_threads := replicate (nat thread_number) send_thread_new\<rparr>
           else m\<lparr>mg_iovec := Some (nat iovec_count), mg_threads := [send_thread_new]\<rparr>) }"

definition mg_handler_size :: "send_manager \<Rightarrow> uint64" where
  "mg_handler_size m = fold (\<lambda>t n. n + ucast (st_temp_size t + st_list_size t)) (mg_threads m) 0"

definition mg_assign_thread :: "send_manager \<Rightarrow> int \<times> send_manager" where
  "mg_assign_thread m =
     (let thread_size = int (length (mg_threads m))
      in if thread_size < 2 then (0, m)
         else
           let thread_index = mg_next m; m = m\<lparr>mg_next := mg_next m + 1\<rparr>
           in if thread_index \<ge> thread_size
              then let thread_index = thread_index - thread_size in (thread_index, m\<lparr>mg_next := thread_index + 1\<rparr>)
              else (thread_index, m))"

definition mg_thread :: "send_manager \<Rightarrow> int \<Rightarrow> send_thread option" where
  "mg_thread m i = (if 0 \<le> i then arr_get (mg_threads m) (nat i) else None)"

definition mg_set_thread :: "int \<Rightarrow> send_thread \<Rightarrow> send_manager \<Rightarrow> send_manager" where
  "mg_set_thread i t m = m\<lparr>mg_threads := (mg_threads m)[nat i := t]\<rparr>"

text \<open>A thread that waits is signalled once.\<close>

definition mg_signal :: "int \<Rightarrow> send_manager \<Rightarrow> (bool \<times> send_manager) option" where
  "mg_signal i m = do {
     t \<leftarrow> mg_thread m i;
     Some (if st_timedwait_flag t > 0 then (True, mg_set_thread i (t\<lparr>st_timedwait_flag := 0\<rparr>) m) else (False, m)) }"

definition mg_wakeup_thread :: "int \<Rightarrow> send_manager \<Rightarrow> (int \<times> send_manager) option" where
  "mg_wakeup_thread i m =
     (if mg_timedwait_signal m then do { (signalled, m) \<leftarrow> mg_signal i m; Some (if signalled then 1 else 0, m) }
      else Some (0, m))"

definition mg_add_handler :: "nat \<Rightarrow> send_manager \<Rightarrow> (int \<times> send_manager) option" where
  "mg_add_handler h m = do {
     let m = m\<lparr>mg_conns := (mg_conns m)(h := sc_init_control (mg_env m) (mg_conns m h))\<rparr>;
     let (i, m) = mg_assign_thread m;
     t \<leftarrow> mg_thread m i;
     let m = m\<lparr>mg_index := (mg_index m)(h := i)\<rparr>;
     let m = mg_set_thread i (t\<lparr>st_temp_size := st_temp_size t + 1, st_standby := st_standby t @ [h]\<rparr>) m;
     if mg_timedwait_signal m then do { (signalled, m) \<leftarrow> mg_signal i m; Some (0, m) }
     else Some (0, m) }"

section \<open>A pass\<close>

text \<open>The new connections, which the two lists hand over.\<close>

definition st_take :: "send_thread \<Rightarrow> send_thread" where
  "st_take t =
     (if st_standby t \<noteq> [] then
        let t = t\<lparr>st_list_size := st_list_size t + st_temp_size t, st_temp_size := 0,
                  st_standby := st_active t, st_active := st_standby t\<rparr>
        in t\<lparr>st_handlers := st_handlers t @ st_active t, st_active := []\<rparr>
      else t)"

text \<open>
  Over the list, with the step for one connection as argument: the list that is left, its counter, the connections, and
  how many writes succeeded.  A closed connection is cleared and leaves the list.
\<close>

fun scan_handlers ::
  "(nat \<Rightarrow> send_control \<Rightarrow> (send_control option \<times> byte list \<times> bool) option) \<Rightarrow> send_env \<Rightarrow> nat list \<Rightarrow> uint \<Rightarrow>
     (nat \<Rightarrow> send_control) \<Rightarrow> (nat list \<times> uint \<times> (nat \<Rightarrow> send_control) \<times> int) option"
where
  "scan_handlers scan env [] sz c = Some ([], sz, c, 0)"
| "scan_handlers scan env (h # hs) sz c = do {
     (r, sent, success) \<leftarrow> scan h (c h);
     case r of
       None \<Rightarrow> scan_handlers scan env hs (sz - 1) (c(h := sc_clear_control env (c h)))
     | Some st \<Rightarrow> do {
         (hs, sz, c, n) \<leftarrow> scan_handlers scan env hs sz (c(h := st));
         Some (h # hs, sz, c, if success then n + 1 else n) } }"

definition st_scan ::
  "(nat \<Rightarrow> send_control \<Rightarrow> (send_control option \<times> byte list \<times> bool) option) \<Rightarrow> int \<Rightarrow> send_manager \<Rightarrow> (int \<times> send_manager) option"
where
  "st_scan scan i m = do {
     t \<leftarrow> mg_thread m i;
     let t = st_take t;
     (hs, sz, c, n) \<leftarrow> scan_handlers scan (mg_env m) (st_handlers t) (st_list_size t) (mg_conns m);
     Some (n, mg_set_thread i (t\<lparr>st_handlers := hs, st_list_size := sz\<rparr>) (m\<lparr>mg_conns := c\<rparr>)) }"

text \<open>The clocks: microseconds since the start and of the day.\<close>

definition mg_set_time :: "uint64 \<Rightarrow> uint64 \<Rightarrow> send_manager \<Rightarrow> send_manager" where
  "mg_set_time timestamp_us time_us m =
     m\<lparr>mg_env := (mg_env m)\<lparr>se_now := timestamp_us\<rparr>, mg_time_us := time_us, mg_timestamp := timestamp_us div 1000,
       mg_time := time_us div 1000000\<rparr>"

text \<open>What the platform answers: whether the runner knows a handler, and the result of its socket.\<close>

type_synonym send_io = "nat \<Rightarrow> bool \<times> sock_result"

text \<open>
  The entries \<^verbatim>\<open>write_data\<close> fills must be there: whether it is called at all for a connection, and for how many nodes.
\<close>

definition sc_iov_ok :: "nat option \<Rightarrow> send_env \<Rightarrow> uint64 \<Rightarrow> send_control \<Rightarrow> bool" where
  "sc_iov_ok iovec env now st \<longleftrightarrow>
     ((case sc_current_status st of
         STATUS_OPEN \<Rightarrow> se_send_delaytime env = 0 \<or> now - sc_last_fail st \<ge> ucast (se_send_delaytime env)
       | STATUS_CLOSE_WAIT \<Rightarrow> True
       | STATUS_CLOSE_SEND \<Rightarrow> False
       | STATUS_CLOSE \<Rightarrow> False
       | STATUS_CLOSE_RECV \<Rightarrow> False) \<longrightarrow>
      sc_node_count env (sc_swap st) \<le> (case iovec of None \<Rightarrow> 0 | Some n \<Rightarrow> int n))"

definition mg_event_loop :: "uint64 \<Rightarrow> uint64 \<Rightarrow> send_io \<Rightarrow> send_manager \<Rightarrow> (int \<times> send_manager) option" where
  "mg_event_loop timestamp_us time_us io m =
     (let m = mg_set_time timestamp_us time_us m
      in st_scan (\<lambda>h st. if sc_iov_ok (mg_iovec m) (mg_env m) timestamp_us st
                      then sc_scan (mg_env m) timestamp_us (fst (io h)) st (snd (io h)) else None) 0 m)"

text \<open>The loop of the first thread when none of the three times is 0.\<close>

definition sc_scan_default ::
  "send_env \<Rightarrow> uint64 \<Rightarrow> bool \<Rightarrow> send_control \<Rightarrow> sock_result \<Rightarrow> (send_control option \<times> byte list \<times> bool) option"
where
  "sc_scan_default env now known st res =
     (case sc_current_status st of
        STATUS_OPEN \<Rightarrow> do {
          (r, st, sent) \<leftarrow>
            (if now - sc_last_fail st \<ge> ucast (se_send_delaytime env)
             then do { (r, st, sent, _) \<leftarrow> sc_write_data env st now res; Some (r, st, sent) }
             else Some (WRITE_RETURN_NOT_DATA, st, []));
          let st = (if now - sc_last_update st > ucast (se_keepalive_time env)
                    then (sc_del_handle known (st\<lparr>sc_last_errno := ERROR_KEEPALIVE_TIMEOUT,
                            sc_next_status := STATUS_CLOSE\<rparr>))\<lparr>sc_current_status := STATUS_CLOSE\<rparr>
                    else st);
          Some (Some st, sent, r = WRITE_RETURN_SEND_SUCCESS) }
      | STATUS_CLOSE_WAIT \<Rightarrow> do {
          (r, st, sent, _) \<leftarrow> sc_write_data env st now res;
          let st = (if now - sc_last_update st > ucast (se_close_delaytime env)
                    then (sc_del_handle known (st\<lparr>sc_next_status := STATUS_CLOSE\<rparr>))
                           \<lparr>sc_current_status := STATUS_CLOSE\<rparr>
                    else st);
          Some (Some st, sent, r = WRITE_RETURN_SEND_SUCCESS) }
      | STATUS_CLOSE_SEND \<Rightarrow>
          Some (Some ((sc_del_handle known (st\<lparr>sc_next_status := STATUS_CLOSE\<rparr>))
                        \<lparr>sc_current_status := STATUS_CLOSE\<rparr>), [], False)
      | STATUS_CLOSE \<Rightarrow> Some (None, [], False)
      | STATUS_CLOSE_RECV \<Rightarrow> Some (Some st, [], False))"

text \<open>A thread that wrote nothing waits: it raises its flag until the time is over or it is signalled.\<close>

definition st_wait :: "int \<Rightarrow> int \<times> send_manager \<Rightarrow> send_manager option" where
  "st_wait i r = (let (n, m) = r in
     if n > 0 then Some m else do { t \<leftarrow> mg_thread m i; Some (mg_set_thread i (t\<lparr>st_timedwait_flag := 1\<rparr>) m) })"

definition st_waited :: "int \<Rightarrow> send_manager \<Rightarrow> send_manager option" where
  "st_waited i m = do { t \<leftarrow> mg_thread m i; Some (mg_set_thread i (t\<lparr>st_timedwait_flag := 0\<rparr>) m) }"

definition st_pass_default :: "uint64 \<Rightarrow> uint64 \<Rightarrow> send_io \<Rightarrow> int \<Rightarrow> send_manager \<Rightarrow> send_manager option" where
  "st_pass_default timestamp_us time_us io i m =
     (let m = mg_set_time timestamp_us time_us m
      in do { r \<leftarrow> st_scan (\<lambda>h st. sc_scan_default (mg_env m) timestamp_us (fst (io h)) st (snd (io h))) i m; st_wait i r })"

text \<open>Only the first thread sets the clocks, the others read them.\<close>

definition st_pass_other :: "uint64 \<Rightarrow> uint64 \<Rightarrow> send_io \<Rightarrow> int \<Rightarrow> send_manager \<Rightarrow> send_manager option" where
  "st_pass_other timestamp_us time_us io i m =
     (let m = (if i = 0 then mg_set_time timestamp_us time_us m else m);
          now = (if i = 0 then timestamp_us else se_now (mg_env m))
      in do { r \<leftarrow> st_scan (\<lambda>h st. sc_scan (mg_env m) now (fst (io h)) st (snd (io h))) i m; st_wait i r })"

definition send_proc_pass :: "uint64 \<Rightarrow> uint64 \<Rightarrow> send_io \<Rightarrow> int \<Rightarrow> send_manager \<Rightarrow> send_manager option" where
  "send_proc_pass timestamp_us time_us io i m =
     (if se_send_delaytime (mg_env m) > 0 \<and> se_keepalive_time (mg_env m) > 0 \<and> se_close_delaytime (mg_env m) > 0 \<and> i = 0
      then st_pass_default timestamp_us time_us io i m else st_pass_other timestamp_us time_us io i m)"


section \<open>Passing over the list\<close>

lemma sc_scan_default_eq:
  assumes "se_send_delaytime env > 0" "se_keepalive_time env > 0" "se_close_delaytime env > 0"
  shows "sc_scan_default env now known st res = sc_scan env now known st res"
  using assms unfolding sc_scan_default_def sc_scan_def by (cases "sc_current_status st") (simp_all add: word_gt_0)

definition sc_io_ok :: "send_env \<Rightarrow> send_control \<Rightarrow> sock_result \<Rightarrow> bool" where
  "sc_io_ok env st res \<longleftrightarrow> sent_ok (length (sc_iov (sc_node_count env (sc_swap st)) (sc_queue_active (sc_swap st)))) res"

text \<open>What a pass makes of a connection that stays.\<close>

definition sc_scanned :: "send_control \<Rightarrow> send_control \<Rightarrow> bool" where
  "sc_scanned st st' \<longleftrightarrow> sc_wf st' \<and> (sc_current_status st = STATUS_CLOSE_SEND \<longrightarrow> sc_current_status st' = STATUS_CLOSE)"

lemma sc_del_handle_queues:
  "sc_queue_active (sc_del_handle known st) = sc_queue_active st" "sc_queue_standby (sc_del_handle known st) = sc_queue_standby st"
  by (simp_all add: sc_del_handle_def sc_handle_close_def)

lemma sc_scan_total:
  assumes wf: "sc_wf st" and res: "sc_io_ok env st res"
  shows "\<exists>r sent success. sc_scan env now known st res = Some (r, sent, success) \<and>
    (r = None \<longleftrightarrow> sc_current_status st = STATUS_CLOSE) \<and> (\<forall>st'. r = Some st' \<longrightarrow> sc_scanned st st')"
proof -
  obtain ret st1 sent1 idle where w: "sc_write_data env st now res = Some (ret, st1, sent1, idle)" "sc_wf st1"
    using sc_write_data_ok [OF wf res [unfolded sc_io_ok_def], of now] by (auto simp: write_ok_def)
  then show ?thesis using wf
    by (cases "sc_current_status st") (auto simp: sc_scan_def sc_scanned_def sc_wf_def sc_del_handle_queues)
qed

lemma scan_handlers_spec:
  assumes "distinct hs"
    and "\<And>h. h \<in> set hs \<Longrightarrow> \<exists>r sent success. scan h (c h) = Some (r, sent, success) \<and>
      (r = None \<longleftrightarrow> closed (c h)) \<and> (\<forall>st'. r = Some st' \<longrightarrow> Q (c h) st')"
  shows "\<exists>c' n. scan_handlers scan env hs sz c =
      Some (filter (\<lambda>h. \<not> closed (c h)) hs, sz - of_nat (length (filter (\<lambda>h. closed (c h)) hs)), c', n) \<and>
    (\<forall>h \<in> set hs. if closed (c h) then c' h = sc_clear_control env (c h) else Q (c h) (c' h)) \<and> (\<forall>h. h \<notin> set hs \<longrightarrow> c' h = c h)"
  using assms
proof (induction hs arbitrary: sz c)
  case Nil
  then show ?case by simp
next
  case (Cons h hs)
  have h: "h \<notin> set hs" using Cons.prems(1) by simp
  obtain r sent success where s: "scan h (c h) = Some (r, sent, success)" "r = None \<longleftrightarrow> closed (c h)" "\<And>st'. r = Some st' \<Longrightarrow> Q (c h) st'"
    using Cons.prems(2) [of h] by auto
  define d where "d = (case r of None \<Rightarrow> c(h := sc_clear_control env (c h)) | Some st \<Rightarrow> c(h := st))"
  have d: "d x = c x" if "x \<in> set hs" for x using that h by (auto simp: d_def split: option.split)
  have dn: "d x = c x" if "x \<noteq> h" for x using that by (simp add: d_def split: option.split)
  have f: "filter (\<lambda>h. closed (d h)) hs = filter (\<lambda>h. closed (c h)) hs" "filter (\<lambda>h. \<not> closed (d h)) hs = filter (\<lambda>h. \<not> closed (c h)) hs"
    using d by (simp_all cong: filter_cong)
  have pre: "\<exists>r sent success. scan x (d x) = Some (r, sent, success) \<and> (r = None \<longleftrightarrow> closed (d x)) \<and> (\<forall>st'. r = Some st' \<longrightarrow> Q (d x) st')"
    if "x \<in> set hs" for x unfolding d [OF that] using Cons.prems(2) [of x] that by simp
  define sz' where "sz' = (if closed (c h) then sz - 1 else sz)"
  from Cons.IH [OF _ pre, of sz'] Cons.prems(1) obtain c' n where i: "scan_handlers scan env hs sz' d =
        Some (filter (\<lambda>h. \<not> closed (c h)) hs, sz' - of_nat (length (filter (\<lambda>h. closed (c h)) hs)), c', n)"
      "\<forall>x \<in> set hs. if closed (d x) then c' x = sc_clear_control env (d x) else Q (d x) (c' x)" "\<And>x. x \<notin> set hs \<Longrightarrow> c' x = d x"
    unfolding f by auto
  have i2: "if closed (c x) then c' x = sc_clear_control env (c x) else Q (c x) (c' x)" if "x \<in> set hs" for x
    using bspec [OF i(2) that] unfolding d [OF that] .
  have h': "c' h = d h" using i(3) h by simp
  have out: "c' x = c x" if "x \<notin> set (h # hs)" for x using that i(3) [of x] dn [of x] by simp
  show ?case
  proof (cases "closed (c h)")
    case True
    then have "scan_handlers scan env (h # hs) sz c = Some (filter (\<lambda>h. \<not> closed (c h)) (h # hs),
        sz - of_nat (length (filter (\<lambda>h. closed (c h)) (h # hs))), c', n)"
      using i(1) s(1,2) by (simp add: d_def sz'_def algebra_simps)
    moreover have "c' h = sc_clear_control env (c h)" using h' s(2) True by (simp add: d_def)
    ultimately show ?thesis using i2 out True by (intro exI [of _ c'] exI [of _ n]) simp
  next
    case False
    then obtain st where st: "r = Some st" using s(2) by auto
    let ?n = "if success then n + 1 else n"
    have "scan_handlers scan env (h # hs) sz c = Some (filter (\<lambda>h. \<not> closed (c h)) (h # hs),
        sz - of_nat (length (filter (\<lambda>h. closed (c h)) (h # hs))), c', ?n)"
      using i(1) s(1) st False by (simp add: d_def sz'_def)
    moreover have "Q (c h) (c' h)" using h' s(3) st by (simp add: d_def)
    ultimately show ?thesis using i2 out False by (intro exI [of _ c'] exI [of _ ?n]) simp
  qed
qed


section \<open>The manager's lists\<close>

definition st_all :: "send_thread \<Rightarrow> nat list" where
  "st_all t = st_handlers t @ st_standby t"

definition mg_living :: "send_manager \<Rightarrow> nat set" where
  "mg_living m = set (concat (map st_all (mg_threads m)))"

text \<open>The counters count, the second list is empty between two passes, a connection is where its index says, and the
  manager's own array, where there is one, is long enough.\<close>

definition st_ok :: "send_thread \<Rightarrow> bool" where
  "st_ok t \<longleftrightarrow> st_active t = [] \<and> distinct (st_all t) \<and> st_list_size t = of_nat (length (st_handlers t)) \<and>
     st_temp_size t = of_nat (length (st_standby t))"

definition mg_inv :: "send_manager \<Rightarrow> bool" where
  "mg_inv m \<longleftrightarrow> mg_threads m \<noteq> [] \<and> 0 \<le> mg_next m \<and> mg_next m \<le> int (length (mg_threads m)) \<and>
     (\<forall>i < length (mg_threads m). st_ok (mg_threads m ! i) \<and> (\<forall>h \<in> set (st_all (mg_threads m ! i)). mg_index m h = int i)) \<and>
     (\<forall>h \<in> mg_living m. sc_wf (mg_conns m h)) \<and>
     (\<forall>n. mg_iovec m = Some n \<longrightarrow> se_iovec_count (mg_env m) \<le> int n)"

lemma mg_living_nth: "h \<in> mg_living m \<longleftrightarrow> (\<exists>i < length (mg_threads m). h \<in> set (st_all (mg_threads m ! i)))"
  unfolding mg_living_def by simp (metis in_set_conv_nth)

lemma mg_living_index:
  assumes "mg_inv m" "i < length (mg_threads m)"
  shows "h \<in> set (st_all (mg_threads m ! i)) \<longleftrightarrow> h \<in> mg_living m \<and> mg_index m h = int i"
  using assms by (fastforce simp: mg_inv_def mg_living_nth)

lemma mg_thread_nth: "mg_thread m (int i) = (if i < length (mg_threads m) then Some (mg_threads m ! i) else None)"
  by (simp add: mg_thread_def arr_get_def)

lemma mg_living_set:
  assumes "mg_inv m" "i < length (mg_threads m)"
  shows "mg_living (mg_set_thread (int i) t (m\<lparr>mg_conns := c\<rparr>)) = {h \<in> mg_living m. mg_index m h \<noteq> int i} \<union> set (st_all t)"
proof (rule set_eqI)
  fix h
  have "h \<in> mg_living (mg_set_thread (int i) t (m\<lparr>mg_conns := c\<rparr>)) \<longleftrightarrow>
      (\<exists>j < length (mg_threads m). h \<in> set (st_all (if j = i then t else mg_threads m ! j)))"
    using assms(2) by (auto simp: mg_living_nth mg_set_thread_def nth_list_update)
  also have "\<dots> \<longleftrightarrow> h \<in> set (st_all t) \<or> (\<exists>j < length (mg_threads m). j \<noteq> i \<and> h \<in> set (st_all (mg_threads m ! j)))"
    using assms(2) by auto
  also have "\<dots> \<longleftrightarrow> h \<in> set (st_all t) \<or> (h \<in> mg_living m \<and> mg_index m h \<noteq> int i)"
  proof -
    have "(\<exists>j < length (mg_threads m). j \<noteq> i \<and> h \<in> set (st_all (mg_threads m ! j))) \<longleftrightarrow> h \<in> mg_living m \<and> mg_index m h \<noteq> int i"
      using mg_living_index [OF assms(1)] by (auto simp: mg_living_nth)
    then show ?thesis by simp
  qed
  finally show "h \<in> mg_living (mg_set_thread (int i) t (m\<lparr>mg_conns := c\<rparr>)) \<longleftrightarrow> h \<in> {h \<in> mg_living m. mg_index m h \<noteq> int i} \<union> set (st_all t)"
    by auto
qed

text \<open>Replacing a thread by one with some of its connections, or new ones with its index.\<close>

lemma mg_inv_set:
  assumes "mg_inv m" "i < length (mg_threads m)" "st_ok t" "\<And>h. h \<in> set (st_all t) \<Longrightarrow> mg_index m h = int i"
    and "\<And>h. h \<in> mg_living m \<Longrightarrow> mg_index m h \<noteq> int i \<Longrightarrow> sc_wf (c h)" "\<And>h. h \<in> set (st_all t) \<Longrightarrow> sc_wf (c h)"
  shows "mg_inv (mg_set_thread (int i) t (m\<lparr>mg_conns := c\<rparr>))"
proof -
  let ?m = "mg_set_thread (int i) t (m\<lparr>mg_conns := c\<rparr>)"
  have "\<forall>h \<in> mg_living ?m. sc_wf (mg_conns ?m h)"
    unfolding mg_living_set [OF assms(1,2)] using assms(5,6) by (auto simp: mg_set_thread_def)
  moreover have "st_ok (mg_threads ?m ! j) \<and> (\<forall>h \<in> set (st_all (mg_threads ?m ! j)). mg_index ?m h = int j)"
    if "j < length (mg_threads ?m)" for j
    using assms(1,3,4) that by (cases "j = i") (auto simp: mg_inv_def mg_set_thread_def)
  ultimately show ?thesis using assms(1) unfolding mg_inv_def by (simp add: mg_set_thread_def)
qed

lemma st_take_ok:
  assumes "st_ok t"
  shows "st_ok (st_take t)" "set (st_all (st_take t)) = set (st_all t)" "st_standby (st_take t) = []" "st_active (st_take t) = []"
    "st_timedwait_flag (st_take t) = st_timedwait_flag t"
  using assms by (auto simp: st_take_def st_ok_def st_all_def Let_def)

definition mg_closed :: "send_manager \<Rightarrow> int \<Rightarrow> nat set" where
  "mg_closed m i = {h \<in> mg_living m. mg_index m h = i \<and> sc_current_status (mg_conns m h) = STATUS_CLOSE}"

text \<open>A pass of thread \<open>i\<close>, with a step that behaves like \<open>sc_scan\<close>.\<close>

lemma st_scan_ok:
  assumes m: "mg_inv m" and i: "i < length (mg_threads m)"
    and scan: "\<And>h. h \<in> mg_living m \<Longrightarrow> \<exists>r sent success. scan h (mg_conns m h) = Some (r, sent, success) \<and>
      (r = None \<longleftrightarrow> sc_current_status (mg_conns m h) = STATUS_CLOSE) \<and> (\<forall>st'. r = Some st' \<longrightarrow> sc_scanned (mg_conns m h) st')"
  shows "\<exists>n m'. st_scan scan (int i) m = Some (n, m') \<and> mg_inv m' \<and> mg_living m' = mg_living m - mg_closed m (int i) \<and>
    length (mg_threads m') = length (mg_threads m) \<and> mg_index m' = mg_index m \<and> mg_env m' = mg_env m \<and> mg_iovec m' = mg_iovec m \<and>
    (\<forall>h \<in> mg_living m'. mg_index m h = int i \<longrightarrow> sc_scanned (mg_conns m h) (mg_conns m' h)) \<and>
    (\<forall>h. mg_index m h \<noteq> int i \<longrightarrow> mg_conns m' h = mg_conns m h)"
proof -
  let ?t = "st_take (mg_threads m ! i)" and ?closed = "\<lambda>st. sc_current_status st = STATUS_CLOSE" and ?c = "mg_conns m"
  have "st_ok (mg_threads m ! i)" using m i by (simp add: mg_inv_def)
  note t = st_take_ok [OF this]
  have all: "st_all ?t = st_handlers ?t" using t(3) by (simp add: st_all_def)
  have mem: "h \<in> set (st_handlers ?t) \<longleftrightarrow> h \<in> mg_living m \<and> mg_index m h = int i" for h
    using mg_living_index [OF m i, of h] t(2) unfolding all by simp
  have dist: "distinct (st_handlers ?t)" using t(1) by (simp add: st_ok_def all)
  let ?hs = "filter (\<lambda>h. \<not> ?closed (?c h)) (st_handlers ?t)"
  let ?sz = "st_list_size ?t - of_nat (length (filter (\<lambda>h. ?closed (?c h)) (st_handlers ?t)))"
  have pre: "\<exists>r sent success. scan h (?c h) = Some (r, sent, success) \<and> (r = None \<longleftrightarrow> ?closed (?c h)) \<and>
      (\<forall>st'. r = Some st' \<longrightarrow> sc_scanned (?c h) st')" if "h \<in> set (st_handlers ?t)" for h
    using scan [of h] mem [of h] that by blast
  from scan_handlers_spec [where closed = ?closed and Q = sc_scanned and scan = scan and c = ?c and env = "mg_env m" and sz = "st_list_size ?t", OF dist pre]
  obtain c' n where s: "scan_handlers scan (mg_env m) (st_handlers ?t) (st_list_size ?t) ?c = Some (?hs, ?sz, c', n)"
      "\<forall>h \<in> set (st_handlers ?t). if ?closed (?c h) then c' h = sc_clear_control (mg_env m) (?c h) else sc_scanned (?c h) (c' h)"
      "\<forall>h. h \<notin> set (st_handlers ?t) \<longrightarrow> c' h = ?c h"
    by blast
  let ?t' = "?t\<lparr>st_handlers := ?hs, st_list_size := ?sz\<rparr>"
  let ?m = "mg_set_thread (int i) ?t' (m\<lparr>mg_conns := c'\<rparr>)"
  have run: "st_scan scan (int i) m = Some (n, ?m)" using i s(1) by (simp add: st_scan_def mg_thread_nth Let_def)
  have "length (st_handlers ?t) = length (filter (\<lambda>h. ?closed (?c h)) (st_handlers ?t)) + length ?hs"
    by (simp add: sum_length_filter_compl)
  then have "?sz = of_nat (length ?hs)" using t(1) by (simp add: st_ok_def)
  moreover have all': "st_all ?t' = ?hs" using t(3) by (simp add: st_all_def)
  ultimately have ok: "st_ok ?t'" using t(1,3,4) dist unfolding st_ok_def all' by simp
  have scanned: "sc_scanned (?c h) (c' h)" if "h \<in> set ?hs" for h using bspec [OF s(2), of h] that by simp
  have "mg_inv ?m"
  proof (rule mg_inv_set [OF m i ok])
    show "mg_index m h = int i" if "h \<in> set (st_all ?t')" for h using that mem unfolding all' by simp
    show "sc_wf (c' h)" if "h \<in> mg_living m" "mg_index m h \<noteq> int i" for h using that m s(3) mem by (simp add: mg_inv_def)
    show "sc_wf (c' h)" if "h \<in> set (st_all ?t')" for h using scanned [of h] that unfolding all' by (simp add: sc_scanned_def)
  qed
  moreover have "mg_living ?m = mg_living m - mg_closed m (int i)"
    unfolding mg_living_set [OF m i] all' mg_closed_def using mem by auto
  moreover have "\<forall>h \<in> mg_living ?m. mg_index m h = int i \<longrightarrow> sc_scanned (?c h) (mg_conns ?m h)"
    unfolding mg_living_set [OF m i] all' using scanned by (auto simp: mg_set_thread_def)
  moreover have "\<forall>h. mg_index m h \<noteq> int i \<longrightarrow> mg_conns ?m h = ?c h" using s(3) mem by (simp add: mg_set_thread_def)
  moreover have "length (mg_threads ?m) = length (mg_threads m)" "mg_index ?m = mg_index m" "mg_env ?m = mg_env m" "mg_iovec ?m = mg_iovec m"
    by (simp_all add: mg_set_thread_def)
  ultimately show ?thesis using run by blast
qed


section \<open>Calls\<close>

datatype mg_call =
  Mg_add nat
| Mg_pass nat uint64 uint64 send_io
| Mg_event_loop uint64 uint64 send_io
| Mg_waited nat
| Mg_wakeup nat
| Mg_touch nat send_control

text \<open>\<open>Mg_touch\<close> stands for whatever the connection's own operations make of its send side between two passes.\<close>

fun mg_step :: "mg_call \<Rightarrow> send_manager \<Rightarrow> send_manager option" where
  "mg_step (Mg_add h) m = do { (r, m) \<leftarrow> mg_add_handler h m; Some m }"
| "mg_step (Mg_pass i ts tm io) m = send_proc_pass ts tm io (int i) m"
| "mg_step (Mg_event_loop ts tm io) m = do { (n, m) \<leftarrow> mg_event_loop ts tm io m; Some m }"
| "mg_step (Mg_waited i) m = st_waited (int i) m"
| "mg_step (Mg_wakeup i) m = do { (r, m) \<leftarrow> mg_wakeup_thread (int i) m; Some m }"
| "mg_step (Mg_touch h st) m = Some (m\<lparr>mg_conns := (mg_conns m)(h := st)\<rparr>)"

text \<open>A connection is added once, threads are those that exist, the application runs the loop itself only on a manager
  without threads, and the sockets accept no more than they were given.\<close>

definition mg_io_ok :: "send_manager \<Rightarrow> send_io \<Rightarrow> bool" where
  "mg_io_ok m io \<longleftrightarrow> (\<forall>h \<in> mg_living m. sc_io_ok (mg_env m) (mg_conns m h) (snd (io h)))"

fun mg_allowed :: "mg_call \<Rightarrow> send_manager \<Rightarrow> bool" where
  "mg_allowed (Mg_add h) m \<longleftrightarrow> h \<notin> mg_living m"
| "mg_allowed (Mg_pass i ts tm io) m \<longleftrightarrow> i < length (mg_threads m) \<and> mg_io_ok m io"
| "mg_allowed (Mg_event_loop ts tm io) m \<longleftrightarrow> mg_iovec m \<noteq> None \<and> mg_io_ok m io"
| "mg_allowed (Mg_waited i) m \<longleftrightarrow> i < length (mg_threads m)"
| "mg_allowed (Mg_wakeup i) m \<longleftrightarrow> i < length (mg_threads m)"
| "mg_allowed (Mg_touch h st) m \<longleftrightarrow> sc_wf st"

text \<open>The connections that live after a call.\<close>

fun mg_effect :: "mg_call \<Rightarrow> send_manager \<Rightarrow> nat set" where
  "mg_effect (Mg_add h) m = insert h (mg_living m)"
| "mg_effect (Mg_pass i ts tm io) m = mg_living m - mg_closed m (int i)"
| "mg_effect (Mg_event_loop ts tm io) m = mg_living m - mg_closed m 0"
| "mg_effect c m = mg_living m"

inductive mg_reach :: "send_manager \<Rightarrow> send_manager \<Rightarrow> bool" for m0 where
  mg_start: "mg_reach m0 m0"
| mg_call: "mg_reach m0 m \<Longrightarrow> mg_allowed c m \<Longrightarrow> mg_step c m = Some m' \<Longrightarrow> mg_reach m0 m'"

lemma mg_set_time_keeps:
  "mg_inv (mg_set_time ts tm m) = mg_inv m" "mg_living (mg_set_time ts tm m) = mg_living m" "mg_closed (mg_set_time ts tm m) i = mg_closed m i"
  "mg_threads (mg_set_time ts tm m) = mg_threads m" "mg_conns (mg_set_time ts tm m) = mg_conns m" "mg_index (mg_set_time ts tm m) = mg_index m"
  "mg_iovec (mg_set_time ts tm m) = mg_iovec m"
  by (simp_all add: mg_set_time_def mg_inv_def mg_living_def mg_closed_def)

lemma sc_io_ok_time: "sc_io_ok (env\<lparr>se_now := t\<rparr>) st res = sc_io_ok env st res"
  by (simp add: sc_io_ok_def sc_node_count_def)

text \<open>A thread's flag is no part of the invariant.\<close>

lemma mg_flag_keeps:
  fixes f :: int and i :: nat and m :: send_manager
  assumes "mg_inv m" "i < length (mg_threads m)"
  defines "m' \<equiv> mg_set_thread (int i) ((mg_threads m ! i)\<lparr>st_timedwait_flag := f\<rparr>) m"
  shows "mg_inv m'" "mg_living m' = mg_living m" "length (mg_threads m') = length (mg_threads m)" "mg_conns m' = mg_conns m" "mg_index m' = mg_index m"
    "mg_env m' = mg_env m"
proof -
  let ?t = "(mg_threads m ! i)\<lparr>st_timedwait_flag := f\<rparr>"
  have e: "m' = mg_set_thread (int i) ?t (m\<lparr>mg_conns := mg_conns m\<rparr>)" by (simp add: m'_def mg_set_thread_def)
  have a: "st_all ?t = st_all (mg_threads m ! i)" by (simp add: st_all_def)
  have ok: "st_ok ?t" using assms(1,2) by (simp add: mg_inv_def st_ok_def a)
  have mem: "h \<in> mg_living m \<and> mg_index m h = int i" if "h \<in> set (st_all ?t)" for h
    using that mg_living_index [OF assms(1,2), of h] unfolding a by simp
  have wf: "sc_wf (mg_conns m h)" if "h \<in> mg_living m" for h using that assms(1) unfolding mg_inv_def by blast
  show "mg_inv m'" unfolding e
  proof (rule mg_inv_set [OF assms(1,2) ok])
    show "mg_index m h = int i" if "h \<in> set (st_all ?t)" for h using mem [OF that] by simp
    show "sc_wf (mg_conns m h)" if "h \<in> set (st_all ?t)" for h using mem [OF that] wf by simp
  qed (rule wf)
  show "mg_living m' = mg_living m" unfolding e mg_living_set [OF assms(1,2)] a using mg_living_index [OF assms(1,2)] by auto
qed (simp_all add: assms(3) mg_set_thread_def)

lemma mg_pass_ok:
  assumes m: "mg_inv m" and i: "i < length (mg_threads m)" and io: "mg_io_ok m io"
  shows "\<exists>m'. send_proc_pass ts tm io (int i) m = Some m' \<and> mg_inv m' \<and> mg_living m' = mg_living m - mg_closed m (int i) \<and>
    length (mg_threads m') = length (mg_threads m) \<and> mg_index m' = mg_index m \<and>
    (\<forall>h \<in> mg_living m'. mg_index m h = int i \<longrightarrow> sc_scanned (mg_conns m h) (mg_conns m' h))"
proof -
  define m1 where "m1 = (if i = 0 then mg_set_time ts tm m else m)"
  define now where "now = (if i = 0 then ts else se_now (mg_env m))"
  have e1: "mg_inv m1" "mg_living m1 = mg_living m" "mg_closed m1 j = mg_closed m j" "mg_threads m1 = mg_threads m"
    "mg_conns m1 = mg_conns m" "mg_index m1 = mg_index m" for j
    using m by (simp_all add: m1_def mg_set_time_keeps)
  let ?scan = "\<lambda>h st. sc_scan (mg_env m1) now (fst (io h)) st (snd (io h))"
  have io1: "sc_io_ok (mg_env m1) (mg_conns m h) (snd (io h))" if "h \<in> mg_living m" for h
    using io that by (simp add: mg_io_ok_def m1_def mg_set_time_def sc_io_ok_time)
  have wf1: "sc_wf (mg_conns m h)" if "h \<in> mg_living m" for h using m that by (simp add: mg_inv_def)
  have tot: "\<exists>r sent success. ?scan h (mg_conns m1 h) = Some (r, sent, success) \<and>
      (r = None \<longleftrightarrow> sc_current_status (mg_conns m1 h) = STATUS_CLOSE) \<and> (\<forall>st'. r = Some st' \<longrightarrow> sc_scanned (mg_conns m1 h) st')"
    if "h \<in> mg_living m1" for h
    using sc_scan_total [OF wf1 io1] that unfolding e1 by blast
  have i1: "i < length (mg_threads m1)" using i e1 by simp
  from st_scan_ok [where scan = ?scan, OF e1(1) i1 tot] obtain n m2 where s: "st_scan ?scan (int i) m1 = Some (n, m2)" "mg_inv m2"
      "mg_living m2 = mg_living m - mg_closed m (int i)" "length (mg_threads m2) = length (mg_threads m)" "mg_index m2 = mg_index m"
      "\<forall>h \<in> mg_living m2. mg_index m h = int i \<longrightarrow> sc_scanned (mg_conns m h) (mg_conns m2 h)"
    unfolding e1 by blast
  have "send_proc_pass ts tm io (int i) m = do { r \<leftarrow> st_scan ?scan (int i) m1; st_wait (int i) r }"
  proof (cases "se_send_delaytime (mg_env m) > 0 \<and> se_keepalive_time (mg_env m) > 0 \<and> se_close_delaytime (mg_env m) > 0 \<and> i = 0")
    case True
    then have "m1 = mg_set_time ts tm m" "now = ts" by (simp_all add: m1_def now_def)
    moreover have "sc_scan_default (mg_env (mg_set_time ts tm m)) ts k st res = sc_scan (mg_env (mg_set_time ts tm m)) ts k st res" for k st res
      by (rule sc_scan_default_eq) (use True in \<open>simp_all add: mg_set_time_def\<close>)
    ultimately show ?thesis using True by (simp add: send_proc_pass_def st_pass_default_def Let_def)
  next
    case False
    then show ?thesis by (auto simp: send_proc_pass_def st_pass_other_def Let_def m1_def now_def)
  qed
  also have "\<dots> = st_wait (int i) (n, m2)" by (simp add: s(1))
  finally have p: "send_proc_pass ts tm io (int i) m = st_wait (int i) (n, m2)" .
  show ?thesis
  proof (cases "n > 0")
    case True
    then show ?thesis using p s by (simp add: st_wait_def)
  next
    case False
    have i2: "i < length (mg_threads m2)" using i s(4) by simp
    note f = mg_flag_keeps [OF s(2) i2, of 1]
    have "send_proc_pass ts tm io (int i) m = Some (mg_set_thread (int i) ((mg_threads m2 ! i)\<lparr>st_timedwait_flag := 1\<rparr>) m2)"
      using p False i2 by (simp add: st_wait_def mg_thread_nth)
    then show ?thesis using f s by simp
  qed
qed


lemma mg_signal_ok:
  assumes "mg_inv m" "i < length (mg_threads m)"
  shows "\<exists>b m'. mg_signal (int i) m = Some (b, m') \<and> mg_inv m' \<and> mg_living m' = mg_living m"
proof (cases "st_timedwait_flag (mg_threads m ! i) > 0")
  case True
  then show ?thesis using mg_flag_keeps(1,2) [OF assms, of 0] assms(2) by (auto simp: mg_signal_def mg_thread_nth)
next
  case False
  then show ?thesis using assms by (auto simp: mg_signal_def mg_thread_nth)
qed

lemma mg_assign_ok:
  assumes "mg_inv m"
  obtains i n where "mg_assign_thread m = (int i, m\<lparr>mg_next := n\<rparr>)" "i < length (mg_threads m)" "0 \<le> n" "n \<le> int (length (mg_threads m))"
proof -
  let ?l = "length (mg_threads m)"
  have m: "0 \<le> mg_next m" "mg_next m \<le> int ?l" "0 < ?l" using assms by (simp_all add: mg_inv_def)
  consider "?l < 2" | "\<not> ?l < 2" "mg_next m = int ?l" | "\<not> ?l < 2" "mg_next m < int ?l" using m by linarith
  then show thesis
  proof cases
    case 1
    then show thesis using that [of 0 "mg_next m"] m by (simp add: mg_assign_thread_def)
  next
    case 2
    then show thesis using that [of 0 1] m by (simp add: mg_assign_thread_def Let_def)
  next
    case 3
    then show thesis using that [of "nat (mg_next m)" "mg_next m + 1"] m by (simp add: mg_assign_thread_def Let_def)
  qed
qed

lemma mg_add_ok:
  assumes m: "mg_inv m" and h: "h \<notin> mg_living m"
  shows "\<exists>r m'. mg_add_handler h m = Some (r, m') \<and> mg_inv m' \<and> mg_living m' = insert h (mg_living m)"
proof -
  define c where "c = (mg_conns m)(h := sc_init_control (mg_env m) (mg_conns m h))"
  let ?m1 = "m\<lparr>mg_conns := c\<rparr>"
  have wf: "sc_wf (c x)" if "x = h \<or> x \<in> mg_living m" for x
    using m that by (auto simp: c_def mg_inv_def sc_init_control_def sc_wf_def)
  have l1: "mg_living ?m1 = mg_living m" by (simp add: mg_living_def)
  have "mg_inv ?m1" unfolding mg_inv_def l1 using m wf by (simp add: mg_inv_def)
  then obtain i n where a: "mg_assign_thread ?m1 = (int i, ?m1\<lparr>mg_next := n\<rparr>)" "i < length (mg_threads m)" "0 \<le> n" "n \<le> int (length (mg_threads m))"
    by (rule mg_assign_ok) simp
  let ?m2 = "?m1\<lparr>mg_next := n, mg_index := (mg_index m)(h := int i)\<rparr>"
  have l2: "mg_living ?m2 = mg_living m" by (simp add: mg_living_def)
  have nh: "h \<notin> set (st_all (mg_threads m ! j))" if "j < length (mg_threads m)" for j using h that by (auto simp: mg_living_nth)
  have inv2: "mg_inv ?m2"
    unfolding mg_inv_def l2 using m a(3,4) wf nh by (auto simp: mg_inv_def)
  have i2: "i < length (mg_threads ?m2)" using a(2) by simp
  let ?t = "mg_threads m ! i"
  let ?t' = "?t\<lparr>st_temp_size := st_temp_size ?t + 1, st_standby := st_standby ?t @ [h]\<rparr>"
  let ?m3 = "mg_set_thread (int i) ?t' ?m2"
  have m3: "?m3 = mg_set_thread (int i) ?t' (?m2\<lparr>mg_conns := c\<rparr>)" by (simp add: mg_set_thread_def)
  have all: "set (st_all ?t') = insert h (set (st_all ?t))" by (auto simp: st_all_def)
  have ok: "st_ok ?t'" using m a(2) nh [OF a(2)] by (auto simp: mg_inv_def st_ok_def st_all_def)
  have ix: "mg_index ?m2 x = int i" if "x \<in> set (st_all ?t')" for x
    using that mg_living_index [OF m a(2), of x] unfolding all by auto
  have inv3: "mg_inv ?m3" unfolding m3
    by (rule mg_inv_set [OF inv2 i2 ok ix]) (use wf mg_living_index [OF m a(2)] in \<open>auto simp: l2 all simp del: fun_upd_apply\<close>)
  have "mg_living ?m3 = {x \<in> mg_living m. mg_index ?m2 x \<noteq> int i} \<union> insert h (set (st_all ?t))"
    unfolding m3 mg_living_set [OF inv2 i2] all l2 ..
  also have "\<dots> = insert h (mg_living m)"
    using h mg_living_index [OF m a(2)] by auto
  finally have l3: "mg_living ?m3 = insert h (mg_living m)" .
  have i3: "i < length (mg_threads ?m3)" using a(2) by (simp add: mg_set_thread_def)
  have t: "mg_thread (?m1\<lparr>mg_next := n\<rparr>) (int i) = Some ?t" using a(2) by (simp add: mg_thread_nth)
  have run: "mg_add_handler h m = (if mg_timedwait_signal m then do { (b, m) \<leftarrow> mg_signal (int i) ?m3; Some (0, m) } else Some (0, ?m3))"
    unfolding mg_add_handler_def Let_def c_def [symmetric] a(1) prod.case t bind.bind_lunit by (simp add: mg_set_thread_def)
  show ?thesis
  proof (cases "mg_timedwait_signal m")
    case True
    obtain b m' where "mg_signal (int i) ?m3 = Some (b, m')" "mg_inv m'" "mg_living m' = mg_living ?m3"
      using mg_signal_ok [OF inv3 i3] by blast
    then show ?thesis using True by (simp add: run l3)
  next
    case False
    then show ?thesis using inv3 l3 by (simp add: run)
  qed
qed

lemma sc_iov_ok_fits: "se_iovec_count env \<le> int n \<Longrightarrow> sc_iov_ok (Some n) env now st"
  unfolding sc_iov_ok_def sc_node_count_def by (auto intro: min.coboundedI2)

lemma mg_event_ok:
  assumes m: "mg_inv m" and v: "mg_iovec m \<noteq> None" and io: "mg_io_ok m io"
  shows "\<exists>n m'. mg_event_loop ts tm io m = Some (n, m') \<and> mg_inv m' \<and> mg_living m' = mg_living m - mg_closed m 0"
proof -
  let ?m1 = "mg_set_time ts tm m"
  let ?scan = "\<lambda>h st. if sc_iov_ok (mg_iovec ?m1) (mg_env ?m1) ts st then sc_scan (mg_env ?m1) ts (fst (io h)) st (snd (io h)) else None"
  obtain k where "mg_iovec ?m1 = Some k" using v by (auto simp: mg_set_time_keeps)
  moreover have "se_iovec_count (mg_env ?m1) \<le> int k" using m calculation by (simp add: mg_inv_def mg_set_time_def)
  ultimately have fits: "sc_iov_ok (mg_iovec ?m1) (mg_env ?m1) ts st" for st by (simp add: sc_iov_ok_fits)
  have inv1: "mg_inv ?m1" using m by (simp add: mg_set_time_keeps)
  have wf1: "sc_wf (mg_conns m h)" if "h \<in> mg_living m" for h using m that by (simp add: mg_inv_def)
  have io1: "sc_io_ok (mg_env ?m1) (mg_conns m h) (snd (io h))" if "h \<in> mg_living m" for h
    using io that by (simp add: mg_io_ok_def mg_set_time_def sc_io_ok_time)
  have tot: "\<exists>r sent success. ?scan h (mg_conns ?m1 h) = Some (r, sent, success) \<and>
      (r = None \<longleftrightarrow> sc_current_status (mg_conns ?m1 h) = STATUS_CLOSE) \<and> (\<forall>st'. r = Some st' \<longrightarrow> sc_scanned (mg_conns ?m1 h) st')"
    if "h \<in> mg_living ?m1" for h
    using sc_scan_total [OF wf1 io1] that fits unfolding mg_set_time_keeps(1-6) by simp
  have i1: "0 < length (mg_threads ?m1)" using inv1 by (simp add: mg_inv_def)
  from st_scan_ok [where scan = ?scan, OF inv1 i1 tot] obtain n m'
    where "st_scan ?scan (int 0) ?m1 = Some (n, m')" "mg_inv m'" "mg_living m' = mg_living m - mg_closed m (int 0)"
    unfolding mg_set_time_keeps(1-6) by blast
  then show ?thesis by (simp add: mg_event_loop_def Let_def)
qed

lemma mg_step_ok:
  assumes m: "mg_inv m" and a: "mg_allowed c m"
  shows "\<exists>m'. mg_step c m = Some m' \<and> mg_inv m' \<and> mg_living m' = mg_effect c m"
proof (cases c)
  case (Mg_add h)
  then show ?thesis using mg_add_ok [OF m, of h] a by auto
next
  case (Mg_pass i ts tm io)
  then show ?thesis using mg_pass_ok [OF m, of i io ts tm] a by auto
next
  case (Mg_event_loop ts tm io)
  then show ?thesis using mg_event_ok [OF m, of io ts tm] a by auto
next
  case (Mg_waited i)
  then show ?thesis using mg_flag_keeps [OF m, of i 0] a by (simp add: st_waited_def mg_thread_nth)
next
  case (Mg_wakeup i)
  then show ?thesis using mg_signal_ok [OF m, of i] m a by (auto simp: mg_wakeup_thread_def)
next
  case (Mg_touch h st)
  then show ?thesis using m a by (auto simp: mg_inv_def mg_living_def)
qed

lemma mg_reach_inv: "mg_reach m0 m \<Longrightarrow> mg_inv m0 \<Longrightarrow> mg_inv m"
proof (induction rule: mg_reach.induct)
  case (mg_call m c m')
  then show ?case using mg_step_ok [of m c] by auto
qed

lemma mg_open_inv:
  assumes "mg_open thread_number send_block_size iovec_count keepalive send_delay scan_wait close_delay signal direct m = Some m0" "mg_next m = 0"
  shows "mg_inv m0" "mg_living m0 = {}"
proof -
  have t: "mg_threads m0 \<noteq> []" "set (mg_threads m0) \<subseteq> {send_thread_new}" "mg_next m0 = 0"
    using assms by (auto simp: mg_open_def mg_close_def Let_def bind_eq_Some_conv split: if_splits)
  then show l: "mg_living m0 = {}" by (auto simp: mg_living_def st_all_def send_thread_new_def)
  have "mg_threads m0 ! i = send_thread_new" if "i < length (mg_threads m0)" for i using t(2) nth_mem [OF that] by auto
  moreover have "se_iovec_count (mg_env m0) \<le> int n" if "mg_iovec m0 = Some n" for n
    using assms(1) that by (auto simp: mg_open_def mg_close_def SL_MAX_IOVCNT_def Let_def bind_eq_Some_conv split: if_splits)
  ultimately show "mg_inv m0" unfolding mg_inv_def l using t(1,3) by (simp add: send_thread_new_def st_ok_def st_all_def)
qed


lemma mg_card:
  assumes "mg_inv m"
  shows "card (mg_living m) = (\<Sum>i < length (mg_threads m). length (st_all (mg_threads m ! i)))"
    "i < length (mg_threads m) \<Longrightarrow> length (st_all (mg_threads m ! i)) \<le> card (mg_living m)"
proof -
  let ?s = "\<lambda>i. set (st_all (mg_threads m ! i))"
  have l: "mg_living m = (\<Union>i < length (mg_threads m). ?s i)" by (auto simp: mg_living_nth)
  have d: "card (?s i) = length (st_all (mg_threads m ! i))" if "i < length (mg_threads m)" for i
    using assms that by (simp add: mg_inv_def st_ok_def distinct_card)
  have "card (mg_living m) = (\<Sum>i < length (mg_threads m). card (?s i))"
    unfolding l by (rule card_UN_disjoint) (use mg_living_index [OF assms] in auto)
  then show "card (mg_living m) = (\<Sum>i < length (mg_threads m). length (st_all (mg_threads m ! i)))" using d by simp
  show "length (st_all (mg_threads m ! i)) \<le> card (mg_living m)" if "i < length (mg_threads m)"
    unfolding d [OF that, symmetric] by (rule card_mono) (use that in \<open>auto simp: l\<close>)
qed

lemma fold_sum: "fold (\<lambda>t n. n + f t) ts (a :: 'b::comm_monoid_add) = a + sum_list (map f ts)"
  by (induction ts arbitrary: a) (simp_all add: ac_simps)

lemma mg_handler_size_card:
  assumes m: "mg_inv m" and small: "card (mg_living m) < 2 ^ 32"
  shows "mg_handler_size m = of_nat (card (mg_living m))"
proof -
  have t: "ucast (st_temp_size (mg_threads m ! i) + st_list_size (mg_threads m ! i)) = (of_nat (length (st_all (mg_threads m ! i))) :: uint64)"
    if "i < length (mg_threads m)" for i
  proof -
    let ?t = "mg_threads m ! i"
    have "st_temp_size ?t + st_list_size ?t = of_nat (length (st_all ?t))" using m that by (simp add: mg_inv_def st_ok_def st_all_def)
    moreover have "length (st_all ?t) < 2 ^ 32" using mg_card(2) [OF m that] small by simp
    then have "unat (of_nat (length (st_all ?t)) :: uint) = length (st_all ?t)" by (simp only: unat_of_nat) simp
    ultimately show ?thesis by (metis of_nat_unat)
  qed
  have "mg_handler_size m = (\<Sum>i < length (mg_threads m). ucast (st_temp_size (mg_threads m ! i) + st_list_size (mg_threads m ! i)))"
    by (simp add: mg_handler_size_def fold_sum sum_list_sum_nth atLeast0LessThan)
  also have "\<dots> = (\<Sum>i < length (mg_threads m). of_nat (length (st_all (mg_threads m ! i))))" using t by simp
  finally show ?thesis unfolding mg_card(1) [OF m] by simp
qed

text \<open>C36: A manager that was opened for the first time since its construction (the number of the next thread is still 0; for one
  that is opened again see \<open>reopened_manager_out_of_range\<close>), with times that fit an \<^verbatim>\<open>int\<close> of microseconds and a count of entries
  that is not negative, and used as follows: calls to add connections come one at a time (\<^verbatim>\<open>next_thread_index_\<close> has no lock), a
  connection is added only while it is in no list, thread numbers are those of existing threads, \<^verbatim>\<open>event_loop\<close> is called only on a
  manager without send threads (with them it fills the array behind a null pointer: \<open>event_loop_with_threads_undefined\<close>), the
  connections' own operations run between passes and keep their send sides well-formed, and no socket reports more than it was
  given.  Then every call (adding, a pass of a thread in either of its two loops, the application's own loop, the end of a
  wait, waking a thread), taken as one step, is defined and leaves every connection in exactly one list, that of the thread it was
  assigned to, with all counters right; a pass gives back exactly the connections of its thread that were closed; and
  \<^verbatim>\<open>handler_size\<close> is the number of connections while that is less than \<open>2 ^ 32\<close>.\<close>

theorem manager_keeps_connections:
  assumes "mg_open thread_number send_block_size iovec_count keepalive send_delay scan_wait close_delay signal direct m = Some m0" "mg_next m = 0"
    and "mg_reach m0 m1" "mg_allowed c m1" "card (mg_living m1) + 1 < 2 ^ 32"
  shows "\<exists>m2. mg_step c m1 = Some m2 \<and> mg_inv m2 \<and> mg_living m2 = mg_effect c m1 \<and> mg_handler_size m2 = of_nat (card (mg_living m2))"
proof -
  obtain m2 where m2: "mg_step c m1 = Some m2" "mg_inv m2" "mg_living m2 = mg_effect c m1"
    using mg_step_ok [OF mg_reach_inv [OF assms(3) mg_open_inv(1) [OF assms(1,2)]] assms(4)] by blast
  have f: "finite (mg_living m1)" by (simp add: mg_living_def)
  then have "card (mg_effect c m1) \<le> Suc (card (mg_living m1))"
    by (cases c) (auto simp: card_insert_if intro: le_SucI card_mono)
  then have "card (mg_living m2) < 2 ^ 32" using assms(5) m2(3) by simp
  then show ?thesis using mg_handler_size_card [OF m2(2)] m2 by blast
qed

definition demo_manager :: send_manager where
  "demo_manager = \<lparr>mg_threads = [], mg_next = 0, mg_thread_number = 1, mg_send_block_size = 65536, mg_scan_waittime = 0,
     mg_timedwait_signal = True, mg_env = demo_env, mg_time_us = 0, mg_timestamp = 0, mg_time = 0,
     mg_conns = (\<lambda>h. demo_conn), mg_index = (\<lambda>h. - 1), mg_iovec = None\<rparr>"

definition demo_opened :: send_manager where
  "demo_opened = (case mg_open 2 65536 1024 120000 1000 1000 5000 True True demo_manager of Some m \<Rightarrow> m | None \<Rightarrow> demo_manager)"

lemma demo_opened: "mg_open 2 65536 1024 120000 1000 1000 5000 True True demo_manager = Some demo_opened"
  by (simp add: demo_opened_def mg_open_def ms_to_us_def Let_def)

lemma demo_opened_living: "mg_living demo_opened = {}"
  by (rule mg_open_inv(2) [OF demo_opened]) (simp add: demo_manager_def)

theorem manager_keeps_connections_witness:
  "\<exists>m2. mg_step (Mg_add 5) demo_opened = Some m2 \<and> mg_inv m2 \<and> mg_living m2 = mg_effect (Mg_add 5) demo_opened \<and>
    mg_handler_size m2 = of_nat (card (mg_living m2))"
  by (rule manager_keeps_connections [OF demo_opened _ mg_start]) (simp_all add: demo_opened_living demo_manager_def)

text \<open>C37: A connection whose socket failed (or that the peer's runner marked so) is given back by the second following pass of its
  thread at the latest, and both passes are defined.\<close>

theorem failed_connection_freed:
  assumes "mg_open thread_number send_block_size iovec_count keepalive send_delay scan_wait close_delay signal direct m = Some m0" "mg_next m = 0"
    and "mg_reach m0 m1" "h \<in> mg_living m1" "sc_current_status (mg_conns m1 h) = STATUS_CLOSE_SEND" "mg_io_ok m1 io"
  shows "\<exists>m2. send_proc_pass ts tm io (mg_index m1 h) m1 = Some m2 \<and>
    (mg_io_ok m2 io' \<longrightarrow> (\<exists>m3. send_proc_pass ts' tm' io' (mg_index m1 h) m2 = Some m3 \<and> h \<notin> mg_living m3))"
proof -
  have inv: "mg_inv m1" using mg_reach_inv [OF assms(3) mg_open_inv(1) [OF assms(1,2)]] .
  obtain i where "i < length (mg_threads m1)" "h \<in> set (st_all (mg_threads m1 ! i))" using assms(4) by (auto simp: mg_living_nth)
  then have i: "i < length (mg_threads m1)" "mg_index m1 h = int i" using mg_living_index [OF inv] by simp_all
  obtain m2 where m2: "send_proc_pass ts tm io (int i) m1 = Some m2" "mg_inv m2" "mg_living m2 = mg_living m1 - mg_closed m1 (int i)"
      "length (mg_threads m2) = length (mg_threads m1)" "mg_index m2 = mg_index m1"
      "\<forall>h \<in> mg_living m2. mg_index m1 h = int i \<longrightarrow> sc_scanned (mg_conns m1 h) (mg_conns m2 h)"
    using mg_pass_ok [OF inv i(1) assms(6)] by blast
  have h2: "h \<in> mg_living m2" using assms(4,5) by (simp add: m2(3) mg_closed_def)
  then have "sc_current_status (mg_conns m2 h) = STATUS_CLOSE" using m2(6) i(2) assms(5) by (auto simp: sc_scanned_def)
  then have c: "h \<in> mg_closed m2 (int i)" using h2 i(2) by (simp add: mg_closed_def m2(5))
  have "\<exists>m3. send_proc_pass ts' tm' io' (int i) m2 = Some m3 \<and> h \<notin> mg_living m3" if "mg_io_ok m2 io'"
  proof -
    have "i < length (mg_threads m2)" using i(1) m2(4) by simp
    from mg_pass_ok [OF m2(2) this that] show ?thesis using c by blast
  qed
  then show ?thesis using m2(1) i(2) by auto
qed

definition demo_failed :: send_manager where
  "demo_failed = (case do { m \<leftarrow> mg_step (Mg_add 5) demo_opened;
     mg_step (Mg_touch 5 ((mg_conns m 5)\<lparr>sc_current_status := STATUS_CLOSE_SEND\<rparr>)) m } of Some m \<Rightarrow> m | None \<Rightarrow> demo_opened)"

lemma demo_failed: "mg_reach demo_opened demo_failed" "5 \<in> mg_living demo_failed"
  "sc_current_status (mg_conns demo_failed 5) = STATUS_CLOSE_SEND"
proof -
  have inv: "mg_inv demo_opened" by (rule mg_open_inv(1) [OF demo_opened]) (simp add: demo_manager_def)
  have a: "mg_allowed (Mg_add 5) demo_opened" by (simp add: demo_opened_living)
  obtain m where m: "mg_step (Mg_add 5) demo_opened = Some m" "mg_inv m" "mg_living m = {5}"
    using mg_step_ok [OF inv a] by (auto simp: demo_opened_living)
  let ?st = "(mg_conns m 5)\<lparr>sc_current_status := STATUS_CLOSE_SEND\<rparr>"
  have e: "demo_failed = m\<lparr>mg_conns := (mg_conns m)(5 := ?st)\<rparr>" using m(1) by (simp add: demo_failed_def)
  have "sc_wf ?st" using m(2,3) by (simp add: mg_inv_def sc_wf_def)
  then show "mg_reach demo_opened demo_failed"
    unfolding e by (intro mg_call [OF mg_call [OF mg_start a m(1)], of "Mg_touch 5 ?st"]) simp_all
  show "5 \<in> mg_living demo_failed" using m(3) by (simp add: e mg_living_def)
  show "sc_current_status (mg_conns demo_failed 5) = STATUS_CLOSE_SEND" by (simp add: e)
qed

theorem failed_connection_freed_witness:
  "\<exists>m2 m3. send_proc_pass 7 7 (\<lambda>h. (True, 0, 0)) (mg_index demo_failed 5) demo_failed = Some m2 \<and>
    send_proc_pass 9 9 (\<lambda>h. (True, 0, 0)) (mg_index demo_failed 5) m2 = Some m3 \<and> 5 \<notin> mg_living m3"
proof -
  have io: "mg_io_ok m (\<lambda>h. (True, 0, 0))" for m by (simp add: mg_io_ok_def sc_io_ok_def sent_ok_def)
  have "mg_next demo_manager = 0" by (simp add: demo_manager_def)
  from failed_connection_freed [OF demo_opened this demo_failed io, of 7 7 "\<lambda>h. (True, 0, 0)" 9 9] show ?thesis using io by blast
qed

section \<open>The loop of the application on a manager with threads\<close>

text \<open>
  A manager with send threads has no array of its own, and \<^verbatim>\<open>event_loop\<close> passes it all the same: the first connection with
  something to send is written through the null pointer.
\<close>

lemma event_loop_with_threads_undefined:
  assumes "mg_open n send_block_size iovec_count keepalive send_delay scan_wait close_delay signal direct m = Some m0" "0 < n"
  shows "mg_iovec m0 = None"
    "mg_iovec m1 = None \<Longrightarrow> mg_thread m1 0 = Some t \<Longrightarrow> st_handlers (st_take t) = h # hs \<Longrightarrow>
      sc_current_status (mg_conns m1 h) = STATUS_CLOSE_WAIT \<Longrightarrow> sc_queue_active (sc_swap (mg_conns m1 h)) \<noteq> [] \<Longrightarrow>
      0 < se_iovec_count (mg_env m1) \<Longrightarrow> mg_event_loop ts tm io m1 = None"
proof -
  show "mg_iovec m0 = None"
    using assms by (auto simp: mg_open_def mg_close_def Let_def bind_eq_Some_conv split: if_splits)
  assume a: "mg_iovec m1 = None" "mg_thread m1 0 = Some t" "st_handlers (st_take t) = h # hs"
    "sc_current_status (mg_conns m1 h) = STATUS_CLOSE_WAIT" "sc_queue_active (sc_swap (mg_conns m1 h)) \<noteq> []"
    "0 < se_iovec_count (mg_env m1)"
  have "mg_thread (mg_set_time ts tm m1) 0 = Some t" using a(2) by (simp add: mg_thread_def mg_set_time_keeps)
  moreover have "\<not> sc_iov_ok None (mg_env (mg_set_time ts tm m1)) ts (mg_conns m1 h)"
    using a(4-6) by (simp add: sc_iov_ok_def sc_node_count_def mg_set_time_def min_le_iff_disj not_le)
  ultimately show "mg_event_loop ts tm io m1 = None"
    using a(1,3) by (simp add: mg_event_loop_def st_scan_def Let_def mg_set_time_keeps)
qed

section \<open>Opening again\<close>

text \<open>
  Closing does not reset the number of the next thread.  A manager opened again with half as many threads or fewer
  indexes behind its threads; and keep-alive times from 36 minutes on do not fit an \<^verbatim>\<open>int\<close> of microseconds.
\<close>

lemma reopened_manager_out_of_range:
  assumes "mg_open n send_block_size iovec_count keepalive send_delay scan_wait close_delay signal direct m = Some m0"
    and "2 \<le> n" "2 * n \<le> mg_next m"
  shows "mg_add_handler h m0 = None"
proof -
  have t: "length (mg_threads m0) = nat n" "mg_next m0 = mg_next m"
    using assms by (auto simp: mg_open_def mg_close_def Let_def bind_eq_Some_conv split: if_splits)
  then have "mg_assign_thread m0 = (mg_next m - n, m0\<lparr>mg_next := mg_next m - n + 1\<rparr>)"
    using assms(2,3) by (simp add: mg_assign_thread_def Let_def)
  moreover have "mg_assign_thread (m0\<lparr>mg_conns := c\<rparr>) = (fst (mg_assign_thread m0), (snd (mg_assign_thread m0))\<lparr>mg_conns := c\<rparr>)" for c
    by (simp add: mg_assign_thread_def Let_def)
  ultimately show ?thesis
    using t(1) assms(2,3) by (simp add: mg_add_handler_def Let_def mg_thread_def arr_get_def)
qed

lemma long_keepalive_overflows: "ms_to_us 2147484 = None" "ms_to_us 2147483 = Some 2147483000"
  by (simp_all add: ms_to_us_def)

end
