(* ===== verification/SL_SedaQueue.thy ===== *)
theory SL_SedaQueue
  imports SL_Ring
begin

text \<open>
  The events of \<^verbatim>\<open>include/SL_Seda_Event.h\<close> and the queue of \<^verbatim>\<open>include/SL_Seda_EventQueue.h\<close>, a ring of
  slots into which events are copied byte by byte.  An event is the memory at its address: a header of
  16 bytes (type, length, time stamp) and the data behind it.  What a stage relies on is the locale
  \<open>event_fifo\<close>, of which the queue is an interpretation.
\<close>

type_synonym event = "byte list"

section \<open>Events\<close>

definition ev_get_type :: "event \<Rightarrow> int" where
  "ev_get_type e = sint (le_word (take 4 e) :: uint)"

definition ev_get_len :: "event \<Rightarrow> int" where
  "ev_get_len e = sint (le_word (take 4 (drop 4 e)) :: uint)"

definition ev_get_timestamp :: "event \<Rightarrow> int" where
  "ev_get_timestamp e = sint (le_word (take 8 (drop 8 e)) :: uint64)"

definition ev_set_timestamp :: "int \<Rightarrow> event \<Rightarrow> event" where
  "ev_set_timestamp t e = take 8 e @ le_bytes 8 (word_of_int t :: uint64) @ drop 16 e"

text \<open>The constructor; the data behind the header is that of the subclass.\<close>

definition seda_event :: "int \<Rightarrow> int \<Rightarrow> byte list \<Rightarrow> event" where
  "seda_event type len data =
     le_bytes 4 (to_uint type) @ le_bytes 4 (to_uint len) @ le_bytes 8 (0 :: uint64) @ data"

definition signal_event :: "int \<Rightarrow> event" where
  "signal_event type = seda_event type 16 []"

definition QUIT_EVENT :: int where "QUIT_EVENT = 0"
definition THREAD_IDLE :: int where "THREAD_IDLE = 1"

text \<open>
  The framework's own events with the number of their type and the \<^verbatim>\<open>sizeof\<close> that their constructors
  store, for pointers and \<^verbatim>\<open>int64\<close> of 8 bytes.
\<close>

datatype event_kind =
    Quit | Thread_idle | Timer_expire | Tcp_socket_open | Tcp_socket_close | Tcp_read_data | Tcp_read_message
  | Tcp_write_data | Rpc_message | Rpc_message2

fun event_type :: "event_kind \<Rightarrow> int" where
  "event_type Quit = 0"
| "event_type Thread_idle = 1"
| "event_type Timer_expire = 2"
| "event_type Tcp_socket_open = 4"
| "event_type Tcp_socket_close = 5"
| "event_type Tcp_read_data = 6"
| "event_type Tcp_read_message = 7"
| "event_type Tcp_write_data = 8"
| "event_type Rpc_message = 13"
| "event_type Rpc_message2 = 14"

text \<open>The sizes of the members behind the header, then the padding to the alignment of 8.\<close>

fun event_members :: "event_kind \<Rightarrow> nat list" where
  "event_members Quit = []"
| "event_members Thread_idle = []"
| "event_members Timer_expire = [8, 4]"
| "event_members Tcp_socket_open = [8]"
| "event_members Tcp_socket_close = [8, 8, 8, 8, 8]"
| "event_members Tcp_read_data = [8, 8, 8, 8, 8, 8]"
| "event_members Tcp_read_message = [8, 8, 8, 8, 8, 8]"
| "event_members Tcp_write_data = [8, 8, 8, 8, 8]"
| "event_members Rpc_message = [8, 8, 8, 8, 4]"
| "event_members Rpc_message2 = [8, 8, 8, 8, 8]"

definition event_sizeof :: "event_kind \<Rightarrow> nat" where
  "event_sizeof k = (16 + sum_list (event_members k) + 7) div 8 * 8"

fun event_len :: "event_kind \<Rightarrow> int" where
  "event_len Tcp_read_message = int (event_sizeof Tcp_read_data)"
| "event_len k = int (event_sizeof k)"

section \<open>The queue\<close>

text \<open>Pointers into the pool are offsets from its begin; \<^verbatim>\<open>pool_end_\<close> is the end of the block.\<close>

record event_queue =
  eq_pool :: "byte list option"
  eq_write :: nat
  eq_read :: nat
  eq_capacity :: uint
  eq_size :: uint
  eq_event_len :: uint

definition eq_new :: event_queue where
  "eq_new = \<lparr>eq_pool = None, eq_write = 0, eq_read = 0, eq_capacity = 0, eq_size = 0, eq_event_len = 0\<rparr>"

definition eq_clear :: "event_queue \<Rightarrow> event_queue" where
  "eq_clear q = eq_new"

definition eq_init :: "allocator \<Rightarrow> uint \<Rightarrow> uint \<Rightarrow> event_queue \<Rightarrow> int \<times> event_queue" where
  "eq_init h capacity len q =
     (let q = eq_clear q;
          pool_size = capacity * len
      in case sl_malloc h (unat pool_size) of
           None \<Rightarrow> (- 1, q)
         | Some m \<Rightarrow> (1, q\<lparr>eq_pool := Some m, eq_write := 0, eq_read := 0, eq_capacity := capacity, eq_size := 0,
             eq_event_len := len\<rparr>))"

text \<open>The step of a pointer to the next slot, or back to the begin.\<close>

definition eq_next :: "event_queue \<Rightarrow> nat \<Rightarrow> nat" where
  "eq_next q p = (if p + unat (eq_event_len q) < length (block (eq_pool q)) then p + unat (eq_event_len q) else 0)"

definition eq_push :: "event \<Rightarrow> event_queue \<Rightarrow> (int \<times> event_queue) option" where
  "eq_push e q =
     (if eq_size q < eq_capacity q
      then if ev_get_len e < 0 then None
      else do {
        m \<leftarrow> mem_copy (block (eq_pool q)) (eq_write q) e (nat (ev_get_len e));
        Some (sint (eq_size q + 1),
          q\<lparr>eq_pool := Some m, eq_write := eq_next q (eq_write q), eq_size := eq_size q + 1\<rparr>) }
      else Some (- 1, q))"

text \<open>
  The accesses to memory of \<^verbatim>\<open>push\<close> one by one, for a caller without a lock: the test, the copy, the step of
  \<^verbatim>\<open>write_index_\<close>, and the reading and the writing of \<^verbatim>\<open>queue_size_\<close>; \<open>Pushed\<close> has the result.
\<close>

datatype push_place = Push_test | Push_copy | Push_advance | Push_load | Push_store uint | Pushed int

fun eq_push_step :: "event \<Rightarrow> push_place \<Rightarrow> event_queue \<Rightarrow> (push_place \<times> event_queue) option" where
  "eq_push_step e Push_test q = Some (if eq_size q < eq_capacity q then Push_copy else Pushed (- 1), q)"
| "eq_push_step e Push_copy q =
     (if ev_get_len e < 0 then None
      else do {
        m \<leftarrow> mem_copy (block (eq_pool q)) (eq_write q) e (nat (ev_get_len e));
        Some (Push_advance, q\<lparr>eq_pool := Some m\<rparr>) })"
| "eq_push_step e Push_advance q = Some (Push_load, q\<lparr>eq_write := eq_next q (eq_write q)\<rparr>)"
| "eq_push_step e Push_load q = Some (Push_store (eq_size q), q)"
| "eq_push_step e (Push_store n) q = Some (Pushed (sint (n + 1)), q\<lparr>eq_size := n + 1\<rparr>)"
| "eq_push_step e (Pushed ret) q = Some (Pushed ret, q)"

text \<open>\<open>n\<close> accesses with nothing between; five are a push.\<close>

fun eq_push_steps :: "nat \<Rightarrow> event \<Rightarrow> push_place \<times> event_queue \<Rightarrow> (push_place \<times> event_queue) option" where
  "eq_push_steps 0 e s = Some s"
| "eq_push_steps (Suc n) e s = do { s \<leftarrow> eq_push_step e (fst s) (snd s); eq_push_steps n e s }"

definition eq_pop :: "event_queue \<Rightarrow> nat option \<times> event_queue" where
  "eq_pop q =
     (if 0 < eq_size q
      then (Some (eq_read q), q\<lparr>eq_size := eq_size q - 1, eq_read := eq_next q (eq_read q)\<rparr>)
      else (None, q))"

text \<open>What a reader of the \<^verbatim>\<open>len_\<close> bytes behind an address finds there.\<close>

definition event_of :: "byte list \<Rightarrow> event" where
  "event_of m = take (nat (ev_get_len m)) m"

definition event_at :: "event_queue \<Rightarrow> nat \<Rightarrow> event" where
  "event_at q p = event_of (drop p (block (eq_pool q)))"

definition eq_pop_event :: "event_queue \<Rightarrow> event option \<times> event_queue" where
  "eq_pop_event q = (case eq_pop q of (None, q) \<Rightarrow> (None, q) | (Some p, q) \<Rightarrow> (Some (event_at q p), q))"

definition eq_free_size :: "event_queue \<Rightarrow> uint" where
  "eq_free_size q = eq_capacity q - eq_size q"

definition eq_empty :: "event_queue \<Rightarrow> bool" where
  "eq_empty q \<longleftrightarrow> eq_size q = 0"

text \<open>The loop of \<^verbatim>\<open>pop(push_queue)\<close>: pop here, push there, \<open>n\<close> times.\<close>

fun move_events :: "('e \<Rightarrow> 'q \<Rightarrow> (int \<times> 'q) option) \<Rightarrow> ('q \<Rightarrow> 'e option \<times> 'q) \<Rightarrow> nat \<Rightarrow> 'q \<Rightarrow> 'q \<Rightarrow> ('q \<times> 'q) option" where
  "move_events push pop 0 q p = Some (q, p)"
| "move_events push pop (Suc n) q p =
     (case pop q of
        (None, q) \<Rightarrow> None
      | (Some e, q) \<Rightarrow> (case push e p of None \<Rightarrow> None | Some (r, p) \<Rightarrow> move_events push pop n q p))"

definition eq_pop_into :: "event_queue \<Rightarrow> event_queue \<Rightarrow> (int \<times> event_queue \<times> event_queue) option" where
  "eq_pop_into q p =
     (let push_free_size = eq_free_size p in
      if eq_size q < 1 \<or> push_free_size < 1 then Some (- 1, q, p)
      else
        let pop_size = min (eq_size q) push_free_size
        in do { (q, p) \<leftarrow> move_events eq_push eq_pop_event (unat pop_size) q p; Some (sint pop_size, q, p) })"

section \<open>The contract\<close>

text \<open>
  A queue of at most \<open>cap\<close> events of a kind it can hold: a push appends or is refused, a pop takes the
  oldest.
\<close>

locale event_fifo =
  fixes push :: "'e \<Rightarrow> 'q \<Rightarrow> (int \<times> 'q) option"
    and pop :: "'q \<Rightarrow> 'e option \<times> 'q"
    and inv :: "'c \<Rightarrow> 'q \<Rightarrow> bool"
    and elems :: "'q \<Rightarrow> 'e list"
    and cap :: "'c \<Rightarrow> nat"
    and fits :: "'c \<Rightarrow> 'e \<Rightarrow> bool"
  assumes push_room: "inv c q \<Longrightarrow> fits c e \<Longrightarrow> length (elems q) < cap c \<Longrightarrow>
      \<exists>q'. push e q = Some (int (length (elems q')), q') \<and> inv c q' \<and> elems q' = elems q @ [e]"
    and push_full: "inv c q \<Longrightarrow> length (elems q) = cap c \<Longrightarrow> push e q = Some (- 1, q)"
    and pop_none: "inv c q \<Longrightarrow> elems q = [] \<Longrightarrow> pop q = (None, q)"
    and pop_some: "inv c q \<Longrightarrow> elems q = e # es \<Longrightarrow> \<exists>q'. pop q = (Some e, q') \<and> inv c q' \<and> elems q' = es"
    and bound: "inv c q \<Longrightarrow> length (elems q) \<le> cap c"
    and held: "inv c q \<Longrightarrow> e \<in> set (elems q) \<Longrightarrow> fits c e"
begin

text \<open>Moving \<open>n\<close> events keeps them in order, whatever the sizes of the two queues.\<close>

lemma move_elems:
  "inv c q \<Longrightarrow> inv d p \<Longrightarrow> n \<le> length (elems q) \<Longrightarrow> length (elems p) + n \<le> cap d \<Longrightarrow>
    \<forall>e \<in> set (elems q). fits d e \<Longrightarrow>
   \<exists>q' p'. move_events push pop n q p = Some (q', p') \<and> inv c q' \<and> inv d p' \<and>
     elems q' = drop n (elems q) \<and> elems p' = elems p @ take n (elems q)"
proof (induction n arbitrary: q p)
  case (Suc n)
  obtain e es where e: "elems q = e # es" using Suc.prems(3) by (cases "elems q") auto
  obtain q1 where q1: "pop q = (Some e, q1)" "inv c q1" "elems q1 = es" using pop_some [OF Suc.prems(1) e] by blast
  have "fits d e" "length (elems p) < cap d" using Suc.prems(4,5) e by auto
  then obtain p1 where p1: "push e p = Some (int (length (elems p1)), p1)" "inv d p1" "elems p1 = elems p @ [e]"
    using push_room [OF Suc.prems(2)] by blast
  have "\<exists>q' p'. move_events push pop n q1 p1 = Some (q', p') \<and> inv c q' \<and> inv d p' \<and>
      elems q' = drop n (elems q1) \<and> elems p' = elems p1 @ take n (elems q1)"
    by (rule Suc.IH [OF q1(2) p1(2)]) (use Suc.prems(3-5) e q1(3) p1(3) in auto)
  then show ?case using q1 p1(1,3) e by simp
qed auto

end

section \<open>The queue as a sequence\<close>

definition slots :: "nat \<Rightarrow> 'a list \<Rightarrow> 'a list list" where
  "slots el m = map (\<lambda>k. take el (drop (k * el) m)) [0..<length m div el]"

definition eq_elems :: "event_queue \<Rightarrow> event list" where
  "eq_elems q =
     map event_of (ring (slots (unat (eq_event_len q)) (block (eq_pool q)))
       (eq_read q div unat (eq_event_len q)) (unat (eq_size q)))"

fun event_fits :: "nat \<times> nat \<Rightarrow> event \<Rightarrow> bool" where
  "event_fits (cap, el) e \<longleftrightarrow> 16 \<le> length e \<and> length e \<le> el \<and> ev_get_len e = int (length e)"

fun eq_inv :: "nat \<times> nat \<Rightarrow> event_queue \<Rightarrow> bool" where
  "eq_inv (cap, el) q \<longleftrightarrow>
     unat (eq_capacity q) = cap \<and> unat (eq_event_len q) = el \<and> 0 < cap \<and> 16 \<le> el \<and> cap * el < 2 ^ 32 \<and>
     length (block (eq_pool q)) = cap * el \<and> unat (eq_size q) \<le> cap \<and> eq_read q div el < cap \<and>
     eq_read q = (eq_read q div el) * el \<and>
     eq_write q = ((eq_read q div el + unat (eq_size q)) mod cap) * el \<and>
     (\<forall>e \<in> set (eq_elems q). event_fits (cap, el) e)"

lemma length_slots: "0 < el \<Longrightarrow> length m = cap * el \<Longrightarrow> length (slots el m) = cap"
  by (simp add: slots_def)

lemma nth_slots: "0 < el \<Longrightarrow> length m = cap * el \<Longrightarrow> k < cap \<Longrightarrow> slots el m ! k = take el (drop (k * el) m)"
  by (simp add: slots_def)

lemma slot_fits: "k < cap \<Longrightarrow> k * el + el \<le> cap * (el :: nat)"
  by (metis Suc_leI add.commute mult_Suc mult_le_mono1)

lemma slots_put:
  assumes "0 < el" "length m = cap * el" "k < cap" "length d \<le> el"
  shows "slots el (take (k * el) m @ d @ drop (k * el + length d) m) =
    (slots el m)[k := d @ drop (length d) (slots el m ! k)]"
proof (rule nth_equalityI)
  let ?m = "take (k * el) m @ d @ drop (k * el + length d) m"
  have k: "k * el + el \<le> length m" using slot_fits assms(2,3) by simp
  then have m: "length ?m = cap * el" using assms(2,4) by simp
  show "length (slots el ?m) = length ((slots el m)[k := d @ drop (length d) (slots el m ! k)])"
    using m assms by (simp add: length_slots)
  fix j assume "j < length (slots el ?m)"
  then have j: "j < cap" using m assms(1) by (simp add: length_slots)
  note n = nth_slots [OF assms(1) m j] nth_slots [OF assms(1,2) j] nth_slots [OF assms(1,2,3)] length_slots [OF assms(1,2)]
  consider "j < k" | "j = k" | "k < j" by linarith
  then show "slots el ?m ! j = (slots el m)[k := d @ drop (length d) (slots el m ! k)] ! j"
  proof cases
    case 1
    then have "j * el + el \<le> k * el" by (rule slot_fits)
    then have "take el (drop (j * el) ?m) = take el (drop (j * el) m)" using k by (simp add: drop_take)
    then show ?thesis using n 1 by simp
  next
    case 2
    have "drop (k * el) ?m = d @ drop (k * el + length d) m" using k by simp
    then show ?thesis using n 2 j assms(4) by (simp add: drop_take add.commute)
  next
    case 3
    then have l: "k * el + el \<le> j * el" by (rule slot_fits)
    then have "drop (j * el) ?m = drop (j * el) m" using 3 k assms(4) by (simp add: add.commute)
    then show ?thesis using n 3 by simp
  qed
qed

lemma ev_get_len_take: "8 \<le> n \<Longrightarrow> ev_get_len (take n e) = ev_get_len e"
  by (simp add: ev_get_len_def drop_take min_def)

lemma ev_get_len_append: "8 \<le> length e \<Longrightarrow> ev_get_len (e @ r) = ev_get_len e"
  using ev_get_len_take [of "length e" "e @ r"] by simp

lemma event_of_append: "event_fits c e \<Longrightarrow> event_of (e @ r) = e"
  by (cases c) (simp add: event_of_def ev_get_len_append)

lemma event_of_slot:
  assumes "event_fits (cap, el) (event_of (take el m))"
  shows "event_of m = event_of (take el m)"
proof -
  have e: "16 \<le> length (event_of (take el m))" "ev_get_len (event_of (take el m)) = int (length (event_of (take el m)))"
    using assms by auto
  then have "8 \<le> nat (ev_get_len (take el m))" "8 \<le> el" by (auto simp: event_of_def)
  then have n: "ev_get_len (event_of (take el m)) = ev_get_len m" "ev_get_len (take el m) = ev_get_len m"
    by (simp_all add: event_of_def ev_get_len_take)
  have "nat (ev_get_len m) = length (event_of (take el m))" using e(2) n(1) by simp
  then have "nat (ev_get_len m) \<le> el" by (simp add: event_of_def n(2))
  then show ?thesis by (simp add: event_of_def n(2) min_def)
qed

lemma eq_next_slot:
  assumes "eq_inv (cap, el) q" "k < cap"
  shows "eq_next q (k * el) = ((k + 1) mod cap) * el"
proof (cases "k + 1 < cap")
  case True
  then have "(k + 1) * el < cap * el" using assms(1) by (intro mult_strict_right_mono) auto
  then show ?thesis using assms True by (simp add: eq_next_def)
next
  case False
  then have "k + 1 = cap" using assms(2) by simp
  then show ?thesis using assms by (auto simp: eq_next_def)
qed

lemma eq_elems_length [simp]: "length (eq_elems q) = unat (eq_size q)"
  by (simp add: eq_elems_def)

lemma eq_invD:
  assumes "eq_inv (cap, el) q"
  obtains m where "eq_pool q = Some m" "length m = cap * el" "0 < cap" "16 \<le> el" "unat (eq_capacity q) = cap"
    "unat (eq_event_len q) = el" "length (slots el m) = cap"
    "eq_elems q = map event_of (ring (slots el m) (eq_read q div el) (unat (eq_size q)))"
proof -
  have i: "length (block (eq_pool q)) = cap * el" "0 < cap" "16 \<le> el" "unat (eq_capacity q) = cap" "unat (eq_event_len q) = el"
    using assms by auto
  then obtain m where m: "eq_pool q = Some m" by (cases "eq_pool q") auto
  have "length (slots el m) = cap" using i m by (intro length_slots) auto
  then show ?thesis using that i m by (simp add: eq_elems_def)
qed

lemma eq_push_ok:
  assumes inv: "eq_inv (cap, el) q" and e: "event_fits (cap, el) e" and room: "unat (eq_size q) < cap"
  shows "\<exists>q'. eq_push e q = Some (int (length (eq_elems q')), q') \<and> eq_inv (cap, el) q' \<and> eq_elems q' = eq_elems q @ [e]"
proof -
  obtain m where m: "eq_pool q = Some m" "length m = cap * el" "0 < cap" "16 \<le> el" "unat (eq_capacity q) = cap"
      "unat (eq_event_len q) = el" "length (slots el m) = cap"
      "eq_elems q = map event_of (ring (slots el m) (eq_read q div el) (unat (eq_size q)))"
    using inv by (rule eq_invD)
  let ?r = "eq_read q div el" and ?n = "unat (eq_size q)"
  let ?k = "(?r + ?n) mod cap"
  have k: "?k < cap" using m(3) by simp
  have w: "eq_write q = ?k * el" "?r < cap" "eq_read q = ?r * el" using inv by auto
  have len: "nat (ev_get_len e) = length e" "\<not> ev_get_len e < 0" "length e \<le> el" using e by auto
  have fit: "?k * el + length e \<le> length m" using slot_fits [OF k, of el] len(3) m(2) by linarith
  let ?m = "take (?k * el) m @ e @ drop (?k * el + length e) m"
  let ?v = "e @ drop (length e) (slots el m ! ?k)"
  let ?q = "q\<lparr>eq_pool := Some ?m, eq_write := eq_next q (?k * el), eq_size := eq_size q + 1\<rparr>"
  have lt: "eq_size q < eq_capacity q" using room m(5) by (simp add: word_less_nat_alt)
  then have step: "eq_push e q = Some (sint (eq_size q + 1), ?q)"
    using len fit w(1) by (simp add: eq_push_def m(1) mem_copy_ok)
  have n: "unat (eq_size q + 1) = Suc ?n" using room m(5) unat_lt32 [of "eq_capacity q"] by (subst unat_add_small) auto
  have sl: "slots el ?m = (slots el m)[?k := ?v]" using m(2,4) k len(3) by (intro slots_put) auto
  have "ring (slots el ?m) ?r (Suc ?n) = ring (slots el m) ?r ?n @ [?v]"
    unfolding sl using ring_push [of ?n "slots el m" ?r ?v] room m(7) by simp
  then have el: "eq_elems ?q = eq_elems q @ [e]"
    using m(6,8) n event_of_append [OF e] by (simp add: eq_elems_def)
  have "eq_next q (?k * el) = ((?r + Suc ?n) mod cap) * el" using eq_next_slot [OF inv k] by (simp add: mod_simps)
  moreover have "length ?m = cap * el" using fit m(2) by simp
  moreover have "\<forall>x \<in> set (eq_elems ?q). event_fits (cap, el) x" unfolding el using inv e by simp
  ultimately have "eq_inv (cap, el) ?q"
    unfolding eq_inv.simps using inv m(3-6) w(2,3) n room by simp
  have "cap * 16 \<le> cap * el" using m(4) by simp
  moreover have "cap * el < 2 ^ 32" using inv by simp
  ultimately have "cap * 16 < 2 ^ 32" by (rule le_less_trans)
  then have "unat (eq_size q + 1) < 2 ^ 31" using room n by simp
  then have "sint (eq_size q + 1) = int (length (eq_elems ?q))" using n by (simp add: sint_unat_small)
  then show ?thesis using step el \<open>eq_inv (cap, el) ?q\<close> by metis
qed

lemma eq_push_full: "eq_inv (cap, el) q \<Longrightarrow> unat (eq_size q) = cap \<Longrightarrow> eq_push e q = Some (- 1, q)"
  by (simp add: eq_push_def word_less_nat_alt)

lemma eq_pop_ok:
  assumes inv: "eq_inv (cap, el) q" and some: "eq_elems q = e # es"
  shows "\<exists>q'. eq_pop_event q = (Some e, q') \<and> eq_inv (cap, el) q' \<and> eq_elems q' = es"
proof -
  obtain m where m: "eq_pool q = Some m" "length m = cap * el" "0 < cap" "16 \<le> el" "unat (eq_capacity q) = cap"
      "unat (eq_event_len q) = el" "length (slots el m) = cap"
      "eq_elems q = map event_of (ring (slots el m) (eq_read q div el) (unat (eq_size q)))"
    using inv by (rule eq_invD)
  let ?r = "eq_read q div el" and ?n = "unat (eq_size q)"
  have r: "?r < cap" "eq_read q = ?r * el" using inv by auto
  have pos: "0 < ?n" using arg_cong [OF some, of length] by simp
  then have gt: "0 < eq_size q" by (simp add: word_less_nat_alt)
  have n: "unat (eq_size q - 1) = ?n - 1" using pos by (subst unat_sub_le) auto
  have "ring (slots el m) ?r ?n = slots el m ! ?r # ring (slots el m) (Suc ?r) (?n - 1)"
    using ring_Cons [of "slots el m" ?r "?n - 1"] pos r(1) m(7) by simp
  then have e: "e = event_of (slots el m ! ?r)" "es = map event_of (ring (slots el m) (Suc ?r) (?n - 1))"
    using some m(8) by auto
  have s: "slots el m ! ?r = take el (drop (eq_read q) m)"
    using nth_slots [of el m cap ?r] m(2,4) r by simp
  have fits: "event_fits (cap, el) e" "\<forall>x \<in> set es. event_fits (cap, el) x" using inv some by auto
  let ?q = "q\<lparr>eq_size := eq_size q - 1, eq_read := eq_next q (eq_read q)\<rparr>"
  have nx: "eq_next q (eq_read q) = (Suc ?r mod cap) * el" using eq_next_slot [OF inv r(1)] r(2) by simp
  have "event_at ?q (eq_read q) = e"
    using event_of_slot [of cap el "drop (eq_read q) m"] fits(1) e(1) s by (simp add: event_at_def m(1))
  then have step: "eq_pop_event q = (Some e, ?q)" using gt by (simp add: eq_pop_event_def eq_pop_def)
  have dv: "eq_next q (eq_read q) div el = Suc ?r mod cap" using nx m(4) by simp
  have el: "eq_elems ?q = es"
    using e(2) n dv ring_mod_len [OF m(7)] by (simp add: eq_elems_def m(1,6))
  have "eq_write q = ((?r + ?n) mod cap) * el" using inv by auto
  moreover have "(Suc ?r mod cap + (?n - 1)) mod cap = (Suc ?r + (?n - 1)) mod cap" by (rule mod_add_left_eq)
  ultimately have "eq_write q = ((Suc ?r mod cap + (?n - 1)) mod cap) * el" using pos by simp
  moreover have "unat (eq_size q) \<le> cap" using inv by simp
  ultimately have "eq_inv (cap, el) ?q"
    unfolding eq_inv.simps el using inv m(1-6) fits(2) n dv nx by simp
  then show ?thesis using step el by blast
qed

interpretation events: event_fifo eq_push eq_pop_event eq_inv eq_elems fst event_fits
proof unfold_locales
  fix c :: "nat \<times> nat" and q e
  obtain cap el where c: "c = (cap, el)" by (cases c) auto
  show "\<exists>q'. eq_push e q = Some (int (length (eq_elems q')), q') \<and> eq_inv c q' \<and> eq_elems q' = eq_elems q @ [e]"
    if "eq_inv c q" "event_fits c e" "length (eq_elems q) < fst c"
    using eq_push_ok [of cap el q e] that by (simp add: c)
  show "eq_push e q = Some (- 1, q)" if "eq_inv c q" "length (eq_elems q) = fst c"
    using eq_push_full [of cap el q e] that by (simp add: c)
  show "eq_pop_event q = (None, q)" if "eq_inv c q" "eq_elems q = []"
    using arg_cong [OF that(2), of length] by (simp add: eq_pop_event_def eq_pop_def unat_eq_0)
  show "\<exists>q'. eq_pop_event q = (Some e, q') \<and> eq_inv c q' \<and> eq_elems q' = es" if "eq_inv c q" "eq_elems q = e # es" for es
    using eq_pop_ok [of cap el q e es] that by (simp add: c)
  show "length (eq_elems q) \<le> fst c" if "eq_inv c q" using that by (simp add: c)
  show "event_fits c e" if "eq_inv c q" "e \<in> set (eq_elems q)" using that by (simp add: c)
qed

lemma eq_init_ok:
  assumes "0 < capacity" "16 \<le> unat len" "unat capacity * unat len < 2 ^ 32" "heap_ok h (unat capacity * unat len)"
  shows "\<exists>q'. eq_init h capacity len q = (1, q') \<and> eq_inv (unat capacity, unat len) q' \<and> eq_elems q' = []"
proof -
  have n: "unat (capacity * len) = unat capacity * unat len" using assms(3) by (simp add: unat_word_ariths)
  obtain m where m: "sl_malloc h (unat (capacity * len)) = Some m" "length m = unat capacity * unat len"
    using assms(4) n by (metis (no_types) sl_malloc_cases)
  let ?q = "(eq_clear q)\<lparr>eq_pool := Some m, eq_write := 0, eq_read := 0, eq_capacity := capacity, eq_size := 0, eq_event_len := len\<rparr>"
  have e: "eq_elems ?q = []" by (simp add: eq_elems_def)
  have "0 < unat capacity" using assms(1) by (simp add: word_less_nat_alt)
  then have "eq_inv (unat capacity, unat len) ?q" unfolding eq_inv.simps e using assms(2,3) m(2) by simp
  then show ?thesis using e m(1) by (simp add: eq_init_def Let_def)
qed

lemma eq_pop_into_ok:
  assumes "eq_inv (cap, el) q" "eq_inv (cap', el') p" "el \<le> el'"
  shows "\<exists>r q' p'. eq_pop_into q p = Some (r, q', p') \<and> eq_inv (cap, el) q' \<and> eq_inv (cap', el') p' \<and>
    eq_elems q @ [] = take (min (unat (eq_size q)) (cap' - unat (eq_size p))) (eq_elems q) @ eq_elems q' \<and>
    eq_elems p' = eq_elems p @ take (min (unat (eq_size q)) (cap' - unat (eq_size p))) (eq_elems q)"
proof -
  have s: "unat (eq_size p) \<le> cap'" "unat (eq_capacity p) = cap'" using assms(2) by auto
  then have f: "unat (eq_free_size p) = cap' - unat (eq_size p)" by (simp add: eq_free_size_def unat_sub_le)
  let ?n = "min (unat (eq_size q)) (cap' - unat (eq_size p))"
  have mn: "unat (min (eq_size q) (eq_free_size p)) = ?n" using f by (simp add: min_def word_le_nat_alt)
  show ?thesis
  proof (cases "?n = 0")
    case True
    then have "eq_size q < 1 \<or> eq_free_size p < 1" using f by (auto simp: word_less_nat_alt min_def split: if_splits)
    then show ?thesis using True assms(1,2) by (simp add: eq_pop_into_def Let_def)
  next
    case False
    then have c: "\<not> (eq_size q < 1 \<or> eq_free_size p < 1)" using f by (auto simp: word_less_nat_alt)
    have "\<forall>e \<in> set (eq_elems q). event_fits (cap', el') e" using assms(1,3) by auto
    moreover have "?n \<le> length (eq_elems q)" "length (eq_elems p) + ?n \<le> fst (cap', el')" using s(1) by simp_all
    ultimately obtain q' p' where r: "move_events eq_push eq_pop_event ?n q p = Some (q', p')" "eq_inv (cap, el) q'" "eq_inv (cap', el') p'"
        "eq_elems q' = drop ?n (eq_elems q)" "eq_elems p' = eq_elems p @ take ?n (eq_elems q)"
      using events.move_elems [OF assms(1,2), of ?n] by blast
    then show ?thesis using c mn by (simp add: eq_pop_into_def Let_def del: eq_inv.simps)
  qed
qed

section \<open>A push without a lock\<close>

lemma eq_next_upd [simp]:
  "eq_next (q\<lparr>eq_size := n\<rparr>) = eq_next q" "eq_next (q\<lparr>eq_write := w\<rparr>) = eq_next q"
  "length m = length (block (eq_pool q)) \<Longrightarrow> eq_next (q\<lparr>eq_pool := Some m\<rparr>) = eq_next q"
  by (simp_all add: eq_next_def fun_eq_iff)

lemma undisturbed_push:
  "map_option (\<lambda>(p, q'). (case p of Pushed ret \<Rightarrow> Some ret | _ \<Rightarrow> None, q')) (eq_push_steps 5 e (Push_test, q)) =
     map_option (\<lambda>(ret, q'). (Some ret, q')) (eq_push e q)"
proof (cases "mem_copy (block (eq_pool q)) (eq_write q) e (nat (ev_get_len e))")
  case (Some m)
  then show ?thesis using length_mem_copy [OF Some] by (simp add: eq_push_def numeral_eq_Suc)
qed (simp add: eq_push_def numeral_eq_Suc)

text \<open>
  A queue \<open>q\<close> in the middle of a push of \<open>e\<close>, which was \<open>q0\<close> when the push began: until \<^verbatim>\<open>queue_size_\<close> is written
  it holds the same events.
\<close>

fun pushing :: "event \<Rightarrow> push_place \<Rightarrow> event_queue \<Rightarrow> event_queue \<Rightarrow> bool" where
  "pushing e Push_test q0 q \<longleftrightarrow> q = q0"
| "pushing e Push_copy q0 q \<longleftrightarrow> eq_size q0 < eq_capacity q0 \<and> q = q0"
| "pushing e Push_advance q0 q \<longleftrightarrow> eq_size q0 < eq_capacity q0 \<and> eq_push_steps 1 e (Push_copy, q0) = Some (Push_advance, q)"
| "pushing e Push_load q0 q \<longleftrightarrow> eq_size q0 < eq_capacity q0 \<and> eq_push_steps 2 e (Push_copy, q0) = Some (Push_load, q)"
| "pushing e (Push_store n) q0 q \<longleftrightarrow> eq_size q0 < eq_capacity q0 \<and> eq_push_steps 3 e (Push_copy, q0) = Some (Push_store n, q)"
| "pushing e (Pushed ret) q0 q \<longleftrightarrow> q = q0"

definition stores :: "push_place \<Rightarrow> bool" where
  "stores p \<longleftrightarrow> (case p of Push_store n \<Rightarrow> True | _ \<Rightarrow> False)"

definition done_push :: "push_place \<Rightarrow> bool" where
  "done_push p \<longleftrightarrow> (case p of Pushed ret \<Rightarrow> True | _ \<Rightarrow> False)"

lemma copied:
  assumes inv: "eq_inv (cap, el) q" and e: "event_fits (cap, el) e" and room: "eq_size q < eq_capacity q"
  obtains m where "mem_copy (block (eq_pool q)) (eq_write q) e (nat (ev_get_len e)) = Some m" "\<not> ev_get_len e < 0"
    "length m = length (block (eq_pool q))" "eq_elems (q\<lparr>eq_pool := Some m\<rparr>) = eq_elems q"
    "eq_push e q = Some (sint (eq_size q + 1), q\<lparr>eq_pool := Some m, eq_write := eq_next q (eq_write q), eq_size := eq_size q + 1\<rparr>)"
    "eq_inv (cap, el) (q\<lparr>eq_pool := Some m, eq_write := eq_next q (eq_write q), eq_size := eq_size q + 1\<rparr>)"
    "eq_elems (q\<lparr>eq_pool := Some m, eq_write := eq_next q (eq_write q), eq_size := eq_size q + 1\<rparr>) = eq_elems q @ [e]"
proof -
  have n: "unat (eq_size q) < cap" using inv room by (auto simp: word_less_nat_alt)
  obtain q' where q': "eq_push e q = Some (int (length (eq_elems q')), q')" "eq_inv (cap, el) q'" "eq_elems q' = eq_elems q @ [e]"
    using eq_push_ok [OF inv e n] by blast
  have l: "\<not> ev_get_len e < 0" using e by auto
  then obtain m where m: "mem_copy (block (eq_pool q)) (eq_write q) e (nat (ev_get_len e)) = Some m"
      "int (length (eq_elems q')) = sint (eq_size q + 1)"
      "q' = q\<lparr>eq_pool := Some m, eq_write := eq_next q (eq_write q), eq_size := eq_size q + 1\<rparr>"
    using q'(1) room by (auto simp: eq_push_def bind_eq_Some_conv)
  have k: "unat (eq_size q + 1) = Suc (unat (eq_size q))" using arg_cong [OF q'(3), of length] m(3) by simp
  have "eq_elems (q\<lparr>eq_pool := Some m\<rparr>) = take (unat (eq_size q)) (eq_elems q')"
    unfolding m(3) by (simp add: eq_elems_def k ring_def take_map)
  then have "eq_elems (q\<lparr>eq_pool := Some m\<rparr>) = eq_elems q" unfolding q'(3) by simp
  then show ?thesis using that [of m] m q' l length_mem_copy [OF m(1)] by (simp del: eq_inv.simps eq_elems_length)
qed

lemma pushing_elems:
  assumes "eq_inv c q0" "event_fits c e" "pushing e p q0 q"
  shows "eq_elems q = eq_elems q0"
proof -
  obtain cap el where c: "c = (cap, el)" by (cases c)
  note i = assms(1,2) [unfolded c]
  have w: "eq_elems (x\<lparr>eq_write := y\<rparr>) = eq_elems x" for x y by (simp add: eq_elems_def)
  show ?thesis
  proof (cases "eq_size q0 < eq_capacity q0")
    case True
    obtain m where m: "mem_copy (block (eq_pool q0)) (eq_write q0) e (nat (ev_get_len e)) = Some m" "\<not> ev_get_len e < 0"
        "eq_elems (q0\<lparr>eq_pool := Some m\<rparr>) = eq_elems q0"
      using copied [OF i True] by blast
    then show ?thesis using assms(3) w by (cases p) (auto simp: numeral_eq_Suc)
  qed (use assms(3) in \<open>cases p; simp\<close>)
qed

text \<open>The next access; the writing of \<^verbatim>\<open>queue_size_\<close> appends the event.\<close>

lemma pushing_step:
  assumes "eq_inv c q0" "event_fits c e" "pushing e p q0 q"
  shows "\<exists>p' q'. eq_push_step e p q = Some (p', q') \<and>
    (if stores p then (\<exists>ret. p' = Pushed ret) \<and> eq_inv c q' \<and> eq_elems q' = eq_elems q0 @ [e] \<and> length (eq_elems q0) < fst c
     else pushing e p' q0 q')"
proof -
  obtain cap el where c: "c = (cap, el)" by (cases c)
  note i = assms(1,2) [unfolded c]
  show ?thesis
  proof (cases "eq_size q0 < eq_capacity q0")
    case True
    have r: "length (eq_elems q0) < cap" using True assms(1) by (auto simp: c word_less_nat_alt)
    obtain m where m: "mem_copy (block (eq_pool q0)) (eq_write q0) e (nat (ev_get_len e)) = Some m" "\<not> ev_get_len e < 0"
        "length m = length (block (eq_pool q0))"
        "eq_inv (cap, el) (q0\<lparr>eq_pool := Some m, eq_write := eq_next q0 (eq_write q0), eq_size := eq_size q0 + 1\<rparr>)"
        "eq_elems (q0\<lparr>eq_pool := Some m, eq_write := eq_next q0 (eq_write q0), eq_size := eq_size q0 + 1\<rparr>) = eq_elems q0 @ [e]"
      using copied [OF i True] by blast
    show ?thesis
    proof (cases p)
      case (Push_store n)
      then have "n = eq_size q0" "q = q0\<lparr>eq_pool := Some m, eq_write := eq_next q0 (eq_write q0)\<rparr>"
        using assms(3) m(1-3) by (auto simp: numeral_eq_Suc)
      then show ?thesis using Push_store m(4,5) r by (simp add: stores_def c del: eq_inv.simps eq_elems_length)
    qed (use assms(3) m(1-3) True in \<open>auto simp: stores_def numeral_eq_Suc\<close>)
  qed (use assms(3) in \<open>cases p; auto simp: stores_def\<close>)
qed

section \<open>What a caller has to keep to\<close>

text \<open>Every event of the framework has a slot of the default 64 bytes.\<close>

lemma framework_events_fit:
  assumes "length data = nat (event_len k) - 16" "64 \<le> el"
  shows "event_fits (cap, el) (seda_event (event_type k) (event_len k) data) \<and>
    ev_get_type (seda_event (event_type k) (event_len k) data) = event_type k"
  using assms
  by (cases k) (simp_all add: event_sizeof_def seda_event_def ev_get_len_def ev_get_type_def le_word_le_bytes to_uint_def)

lemma quit_event_fits: "16 \<le> el \<Longrightarrow> event_fits (cap, el) (signal_event QUIT_EVENT)"
  "ev_get_type (signal_event QUIT_EVENT) = QUIT_EVENT"
  by (simp_all add: signal_event_def seda_event_def ev_get_len_def ev_get_type_def le_word_le_bytes to_uint_def QUIT_EVENT_def)

text \<open>
  \<^verbatim>\<open>push\<close> copies \<^verbatim>\<open>len_\<close> bytes whatever the slots hold: an event longer than a slot overwrites the
  event behind it, here one of type 5 that is then read as one of type 9, and in the last slot it leaves
  the pool.
\<close>

definition small_queue :: event_queue where
  "small_queue = \<lparr>eq_pool = Some (replicate 32 0), eq_write = 0, eq_read = 16, eq_capacity = 2, eq_size = 0, eq_event_len = 16\<rparr>"

lemma long_event_overwrites:
  "(do {
      (r, q) \<leftarrow> eq_push (seda_event 5 16 []) (small_queue\<lparr>eq_write := 16\<rparr>);
      (r, q) \<leftarrow> eq_push (seda_event 7 20 [9, 0, 0, 0]) q;
      Some (r, map_option ev_get_type (fst (eq_pop_event q))) }) = Some (2, Some 9)"
  "eq_push (seda_event 7 20 [9, 0, 0, 0]) (small_queue\<lparr>eq_write := 16\<rparr>) = None"
  by code_simp+

text \<open>The size of the pool is computed in 32 bits: 65,536 slots of 65,536 bytes are a pool of none.\<close>

lemma wrapped_pool_overruns:
  assumes "heap_ok h 0" "event_fits (65536, 65536) e"
  shows "\<exists>q'. eq_init h 65536 65536 q = (1, q') \<and> eq_push e q' = None"
proof -
  have "sl_malloc h 0 = Some []" using assms(1) by (simp add: sl_malloc_def)
  then show ?thesis using assms(2) by (auto simp: eq_init_def eq_clear_def eq_new_def eq_push_def mem_copy_def mem_get_def mem_put_def)
qed

end
