(* ===== verification/SL_SedaThread.thy ===== *)
theory SL_SedaThread
  imports SL_SedaQueue SL_Timer
begin

text \<open>
  \<^verbatim>\<open>SL_Seda_StageThread\<close>: a thread with two event queues.  Other threads push events onto the standby
  queue; the thread takes them from the active one, and swaps the two when that is empty.  The handler of
  the stage is a template parameter, here a function \<open>app\<close> of what is called and of the thread it may
  work on; the calls are also written down in order.  A thread's loop is cut into steps where other threads can
  get between: the round that pops an event, the check of the standby queue, and the end of the wait.
  \<^verbatim>\<open>push_event\<close> and the exchange of the queues hold \<^verbatim>\<open>event_queue_mutex_\<close> and are one step each; \<^verbatim>\<open>stop\<close> pushes its
  quit event without that lock, and is cut into its single accesses, between which anything may happen.
\<close>

section \<open>The thread object\<close>

definition SOCKETLITE_SEDA_DEFAULT_IDLE_INTERVAL :: uint where "SOCKETLITE_SEDA_DEFAULT_IDLE_INTERVAL = 1000"
definition SOCKETLITE_SEDA_TIMER_EVENT_FACTOR :: int where "SOCKETLITE_SEDA_TIMER_EVENT_FACTOR = 10000"

text \<open>
  What the threads of both kinds of stages have, and the thread with two queues.  The two queue pointers
  are which of the two queues is the active one.
\<close>

record stage_base =
  sd_idle_flag :: bool
  sd_idle_interval :: uint
  sd_timer_flag :: bool
  sd_timer_min :: uint
  sd_timers :: seda_queue
  sd_lru :: "seda_queue list"

record stage_thread = stage_base +
  sd_queue1 :: event_queue
  sd_queue2 :: event_queue
  sd_swapped :: bool
  sd_wait_us :: uint
  sd_wait_flag :: int
  sd_wait_signal :: bool

definition timers_new :: seda_queue where
  "timers_new = \<lparr>tq_pool = timer_init, tq_free = tl_init, tq_active = tl_init, tq_last = 0, tq_handler = False,
     tq_interval = 0, tq_slot = - 1\<rparr>"

definition sd_new :: "allocator \<Rightarrow> uint \<Rightarrow> uint \<Rightarrow> uint \<Rightarrow> bool \<Rightarrow> stage_thread" where
  "sd_new h queue_max_size slot_len wait_us wait_signal =
     \<lparr>sd_idle_flag = False, sd_idle_interval = SOCKETLITE_SEDA_DEFAULT_IDLE_INTERVAL,
      sd_timer_flag = False, sd_timer_min = SOCKETLITE_SEDA_DEFAULT_IDLE_INTERVAL, sd_timers = timers_new, sd_lru = [],
      sd_queue1 = snd (eq_init h queue_max_size slot_len eq_new),
      sd_queue2 = snd (eq_init h queue_max_size slot_len eq_new),
      sd_swapped = False, sd_wait_us = wait_us, sd_wait_flag = 0, sd_wait_signal = wait_signal\<rparr>"

definition sd_active :: "stage_thread \<Rightarrow> event_queue" where
  "sd_active t = (if sd_swapped t then sd_queue2 t else sd_queue1 t)"

definition sd_standby :: "stage_thread \<Rightarrow> event_queue" where
  "sd_standby t = (if sd_swapped t then sd_queue1 t else sd_queue2 t)"

definition put_active :: "event_queue \<Rightarrow> stage_thread \<Rightarrow> stage_thread" where
  "put_active q t = (if sd_swapped t then t\<lparr>sd_queue2 := q\<rparr> else t\<lparr>sd_queue1 := q\<rparr>)"

definition put_standby :: "event_queue \<Rightarrow> stage_thread \<Rightarrow> stage_thread" where
  "put_standby q t = (if sd_swapped t then t\<lparr>sd_queue1 := q\<rparr> else t\<lparr>sd_queue2 := q\<rparr>)"

text \<open>The results say whether the condition has been signalled.\<close>

definition sd_push_event :: "event \<Rightarrow> stage_thread \<Rightarrow> (int \<times> bool \<times> stage_thread) option" where
  "sd_push_event e t = do {
     (ret, q) \<leftarrow> eq_push e (sd_standby t);
     let t = put_standby q t;
     Some (if ret = 1 \<and> sd_wait_signal t \<and> 0 < sd_wait_flag t
           then (ret, True, t\<lparr>sd_wait_flag := 0\<rparr>) else (ret, False, t)) }"

text \<open>The queue that was the standby queue when \<open>b\<close> said which one is active.\<close>

definition sd_standby_of :: "bool \<Rightarrow> stage_thread \<Rightarrow> event_queue" where
  "sd_standby_of b t = (if b then sd_queue1 t else sd_queue2 t)"

definition put_standby_of :: "bool \<Rightarrow> event_queue \<Rightarrow> stage_thread \<Rightarrow> stage_thread" where
  "put_standby_of b q t = (if b then t\<lparr>sd_queue1 := q\<rparr> else t\<lparr>sd_queue2 := q\<rparr>)"

definition sd_swap_event_queue :: "stage_thread \<Rightarrow> bool \<times> stage_thread" where
  "sd_swap_event_queue t =
     (if \<not> eq_empty (sd_standby t) then (True, t\<lparr>sd_swapped := \<not> sd_swapped t\<rparr>) else (False, t))"

section \<open>Timers\<close>

definition least_interval :: "uint \<Rightarrow> 'a stage_base_scheme \<Rightarrow> 'a stage_base_scheme" where
  "least_interval interval_ms t =
     (if interval_ms < sd_timer_min t \<or> sd_timer_min t = 0 then t\<lparr>sd_timer_min := interval_ms\<rparr> else t)"

definition sd_set_timer :: "uint \<Rightarrow> 64 word \<Rightarrow> uint64 \<Rightarrow> 'a stage_base_scheme \<Rightarrow> (nat option \<times> 'a stage_base_scheme) option" where
  "sd_set_timer interval_ms param clock t =
     (let t = least_interval interval_ms t
      in do { (r, q) \<leftarrow> tq_set_timer interval_ms param clock (sd_timers t); Some (r, t\<lparr>sd_timers := q\<rparr>) })"

definition sd_cancel_timer :: "nat option \<Rightarrow> 'a stage_base_scheme \<Rightarrow> int \<times> 'a stage_base_scheme" where
  "sd_cancel_timer timer t = (let (r, q) = tq_cancel_timer timer (sd_timers t) in (r, t\<lparr>sd_timers := q\<rparr>))"

definition sd_update_timer :: "nat option \<Rightarrow> uint64 \<Rightarrow> 'a stage_base_scheme \<Rightarrow> int \<times> 'a stage_base_scheme" where
  "sd_update_timer timer clock t = (let (r, q) = tq_update_timer timer clock (sd_timers t) in (r, t\<lparr>sd_timers := q\<rparr>))"

definition sd_enable_timer_event :: "uint \<Rightarrow> 'a stage_base_scheme \<Rightarrow> int \<times> 'a stage_base_scheme" where
  "sd_enable_timer_event capacity t = (0, t\<lparr>sd_timers := tq_init capacity True (sd_timers t)\<rparr>)"

definition lru_slot :: "int \<Rightarrow> 'a stage_base_scheme \<Rightarrow> bool" where
  "lru_slot slot t \<longleftrightarrow> \<not> (slot < 0 \<or> int (length (sd_lru t)) \<le> slot)"

definition put_lru :: "nat \<Rightarrow> seda_queue \<Rightarrow> 'a stage_base_scheme \<Rightarrow> 'a stage_base_scheme" where
  "put_lru i q t = t\<lparr>sd_lru := (sd_lru t)[i := q]\<rparr>"

definition sd_set_lru_timer :: "int \<Rightarrow> 64 word \<Rightarrow> uint64 \<Rightarrow> 'a stage_base_scheme \<Rightarrow> (nat option \<times> 'a stage_base_scheme) option" where
  "sd_set_lru_timer slot param clock t =
     (if \<not> lru_slot slot t then Some (None, t)
      else do {
        (r, q) \<leftarrow> lru_set_timer param clock (sd_lru t ! nat slot);
        Some (r, put_lru (nat slot) q t) })"

definition sd_cancel_lru_timer :: "int \<Rightarrow> nat option \<Rightarrow> 'a stage_base_scheme \<Rightarrow> int \<times> 'a stage_base_scheme" where
  "sd_cancel_lru_timer slot timer t =
     (if \<not> lru_slot slot t then (- 1, t)
      else let (r, q) = tq_cancel_timer timer (sd_lru t ! nat slot) in (r, put_lru (nat slot) q t))"

definition sd_update_lru_timer :: "int \<Rightarrow> nat option \<Rightarrow> uint64 \<Rightarrow> 'a stage_base_scheme \<Rightarrow> int \<times> 'a stage_base_scheme" where
  "sd_update_lru_timer slot timer clock t =
     (if \<not> lru_slot slot t then (- 1, t)
      else let (r, q) = lru_update_timer timer clock (sd_lru t ! nat slot) in (r, put_lru (nat slot) q t))"

text \<open>One slot is its interval and its capacity.\<close>

definition sd_enable_lru_timers :: "(uint \<times> uint) list \<Rightarrow> 'a stage_base_scheme \<Rightarrow> int \<times> 'a stage_base_scheme" where
  "sd_enable_lru_timers infos t =
     (if infos \<noteq> [] \<and> sd_lru t = []
      then
        let t = t\<lparr>sd_lru := map (\<lambda>(i, interval_ms, capacity). lru_init capacity interval_ms True (int i) timers_new)
                   (enumerate 0 infos)\<rparr>;
            t = fold (\<lambda>(interval_ms, capacity). least_interval interval_ms) infos t
        in (0, t\<lparr>sd_timer_flag := True\<rparr>)
      else (- 1, t))"

definition sd_enable_idle_event :: "bool \<Rightarrow> 'a stage_base_scheme \<Rightarrow> int \<times> 'a stage_base_scheme" where
  "sd_enable_idle_event enabled t = (0, t\<lparr>sd_idle_flag := enabled\<rparr>)"

definition sd_set_idle_interval :: "uint \<Rightarrow> 'a stage_base_scheme \<Rightarrow> int \<times> 'a stage_base_scheme" where
  "sd_set_idle_interval interval_ms t = (0, t\<lparr>sd_idle_interval := interval_ms\<rparr>)"

definition sd_set_timedwait_interval :: "uint \<Rightarrow> stage_thread \<Rightarrow> int \<times> stage_thread" where
  "sd_set_timedwait_interval us t = (0, t\<lparr>sd_wait_us := us\<rparr>)"

section \<open>The thread's loop\<close>

datatype seda_call = Call_open | Call_event event | Call_idle | Call_expire int nat | Call_close

type_synonym 't stage_app = "seda_call \<Rightarrow> 't \<Rightarrow> 't"

text \<open>
  \<open>sr_stop\<close> is where another thread is in its call of \<^verbatim>\<open>stop\<close>: the queue whose pointer it has read, and how far its
  push is.
\<close>

text \<open>\<open>At_pop\<close>: about to pop; \<open>At_swap\<close>: about to look at the standby queue; \<open>At_wait\<close>: waiting.\<close>

datatype place = At_pop | At_swap | At_wait | Ended

record ('t, 'p) stage_run =
  sr_thread :: 't
  sr_at :: 'p
  sr_idle_last :: uint64
  sr_count :: int
  sr_idle_interval :: uint
  sr_idle :: bool
  sr_timer :: bool
  sr_wait_us :: uint
  sr_log :: "seda_call list"
  sr_stop :: "(bool \<times> push_place) option"

type_synonym 'a base_app = "'a stage_base_scheme stage_app"
type_synonym ('a, 'p) base_run = "('a stage_base_scheme, 'p) stage_run"
type_synonym thread_app = "stage_thread stage_app"
type_synonym thread_run = "(stage_thread, place) stage_run"

definition sr_call :: "'t stage_app \<Rightarrow> seda_call \<Rightarrow> ('t, 'p) stage_run \<Rightarrow> ('t, 'p) stage_run" where
  "sr_call app c r = r\<lparr>sr_thread := app c (sr_thread r), sr_log := sr_log r @ [c]\<rparr>"

text \<open>What an expired timer of manager \<open>i\<close> does: the handler works on the thread and so on that manager too.\<close>

definition lru_callback :: "'a base_app \<Rightarrow> nat \<Rightarrow> expiry \<Rightarrow> seda_queue \<times> ('a, 'p) base_run \<Rightarrow> seda_queue \<times> ('a, 'p) base_run" where
  "lru_callback app i ex = (\<lambda>(q, r).
     let r = r\<lparr>sr_thread := put_lru i q (sr_thread r)\<rparr>;
         r = (case ex of Handle_event slot t \<Rightarrow> sr_call app (Call_expire slot t) r | Timeout t \<Rightarrow> r)
     in (sd_lru (sr_thread r) ! i, r))"

fun expire_managers :: "'a base_app \<Rightarrow> uint64 \<Rightarrow> nat list \<Rightarrow> ('a, 'p) base_run \<Rightarrow> ('a, 'p) base_run option" where
  "expire_managers app clock [] r = Some r"
| "expire_managers app clock (i # is) r =
     (case tq_expire (tq_slot (sd_lru (sr_thread r) ! i)) clock (lru_callback app i) (sd_lru (sr_thread r) ! i, r) of
        None \<Rightarrow> None
      | Some (q, r) \<Rightarrow> expire_managers app clock is (r\<lparr>sr_thread := put_lru i q (sr_thread r)\<rparr>))"

definition sr_check_timers :: "'a base_app \<Rightarrow> uint64 \<Rightarrow> ('a, 'p) base_run \<Rightarrow> ('a, 'p) base_run option" where
  "sr_check_timers app clock r = expire_managers app clock [0..<length (sd_lru (sr_thread r))] r"

text \<open>The begin of \<^verbatim>\<open>thread_proc\<close>: what the four loops use is read once, after \<^verbatim>\<open>handle_open\<close>.\<close>

definition thread_proc_start :: "thread_app \<Rightarrow> uint64 \<Rightarrow> stage_thread \<Rightarrow> thread_run" where
  "thread_proc_start app clock t =
     (let t = app Call_open t;
          wait = sd_timer_min t * 1000
      in \<lparr>sr_thread = t, sr_at = At_pop, sr_idle_last = clock, sr_count = 0, sr_idle_interval = sd_idle_interval t,
          sr_idle = sd_idle_flag t, sr_timer = sd_timer_flag t,
          sr_wait_us = (if sd_wait_us t < wait then sd_wait_us t else wait), sr_log = [Call_open],
          sr_stop = None\<rparr>)"

definition sr_quit :: "thread_app \<Rightarrow> thread_run \<Rightarrow> thread_run" where
  "sr_quit app r = (sr_call app Call_close r)\<lparr>sr_at := Ended\<rparr>"

definition sr_pop :: "thread_run \<Rightarrow> event option \<times> thread_run" where
  "sr_pop r = (let (e, q) = eq_pop_event (sd_active (sr_thread r)) in (e, r\<lparr>sr_thread := put_active q (sr_thread r)\<rparr>))"

definition sr_idle_check :: "'a base_app \<Rightarrow> uint64 \<Rightarrow> ('a, 'p) base_run \<Rightarrow> ('a, 'p) base_run" where
  "sr_idle_check app clock r =
     (if ucast (sr_idle_interval r) \<le> clock - sr_idle_last r
      then (sr_call app Call_idle r)\<lparr>sr_idle_last := clock\<rparr> else r)"

definition sr_count_event :: "'a base_app \<Rightarrow> uint64 \<Rightarrow> ('a, 'p) base_run \<Rightarrow> ('a, 'p) base_run option" where
  "sr_count_event app clock r =
     (let r = r\<lparr>sr_count := sr_count r + 1\<rparr>
      in if sr_count r = SOCKETLITE_SEDA_TIMER_EVENT_FACTOR then sr_check_timers app clock (r\<lparr>sr_count := 0\<rparr>)
         else Some r)"

text \<open>
  The four loops, each up to the swap of the queues.  A popped event is handled in the same step: its slot is one of the
  active queue, onto which only a \<^verbatim>\<open>stop\<close> that has read the pointer before an exchange would push.
\<close>

definition loop_plain :: "thread_app \<Rightarrow> uint64 \<Rightarrow> thread_run \<Rightarrow> thread_run option" where
  "loop_plain app clock r =
     (case sr_pop r of
        (Some e, r) \<Rightarrow>
          if ev_get_type e \<noteq> QUIT_EVENT then Some (sr_call app (Call_event e) r) else Some (sr_quit app r)
      | (None, r) \<Rightarrow> Some (r\<lparr>sr_at := At_swap\<rparr>))"

definition loop_idle :: "thread_app \<Rightarrow> uint64 \<Rightarrow> thread_run \<Rightarrow> thread_run option" where
  "loop_idle app clock r =
     (case sr_pop r of
        (Some e, r) \<Rightarrow>
          if ev_get_type e \<noteq> QUIT_EVENT then Some (sr_call app (Call_event e) r) else Some (sr_quit app r)
      | (None, r) \<Rightarrow> Some ((sr_idle_check app clock r)\<lparr>sr_at := At_swap\<rparr>))"

definition loop_timer :: "thread_app \<Rightarrow> uint64 \<Rightarrow> thread_run \<Rightarrow> thread_run option" where
  "loop_timer app clock r =
     (case sr_pop r of
        (Some e, r) \<Rightarrow>
          if ev_get_type e \<noteq> QUIT_EVENT then sr_count_event app clock (sr_call app (Call_event e) r)
          else Some (sr_quit app r)
      | (None, r) \<Rightarrow> do {
          r \<leftarrow> sr_check_timers app clock r;
          Some (r\<lparr>sr_count := 0, sr_at := At_swap\<rparr>) })"

definition loop_both :: "thread_app \<Rightarrow> uint64 \<Rightarrow> thread_run \<Rightarrow> thread_run option" where
  "loop_both app clock r =
     (case sr_pop r of
        (Some e, r) \<Rightarrow>
          if ev_get_type e \<noteq> QUIT_EVENT then sr_count_event app clock (sr_call app (Call_event e) r)
          else Some (sr_quit app r)
      | (None, r) \<Rightarrow> do {
          r \<leftarrow> sr_check_timers app clock r;
          Some ((sr_idle_check app clock (r\<lparr>sr_count := 0\<rparr>))\<lparr>sr_at := At_swap\<rparr>) })"

text \<open>Behind the empty queue every loop swaps, or waits and swaps then.\<close>

definition sr_swap :: "thread_run \<Rightarrow> thread_run" where
  "sr_swap r =
     (case sd_swap_event_queue (sr_thread r) of
        (True, t) \<Rightarrow> r\<lparr>sr_thread := t, sr_at := At_pop\<rparr>
      | (False, t) \<Rightarrow> r\<lparr>sr_thread := t\<lparr>sd_wait_flag := 1\<rparr>, sr_at := At_wait\<rparr>)"

definition sr_woken :: "thread_run \<Rightarrow> thread_run" where
  "sr_woken r = r\<lparr>sr_thread := snd (sd_swap_event_queue ((sr_thread r)\<lparr>sd_wait_flag := 0\<rparr>)), sr_at := At_pop\<rparr>"

definition thread_step :: "thread_app \<Rightarrow> uint64 \<Rightarrow> thread_run \<Rightarrow> thread_run option" where
  "thread_step app clock r =
     (case sr_at r of
        At_pop \<Rightarrow>
          (if \<not> sr_timer r then if \<not> sr_idle r then loop_plain app clock r else loop_idle app clock r
           else if \<not> sr_idle r then loop_timer app clock r else loop_both app clock r)
      | At_swap \<Rightarrow> Some (sr_swap r)
      | At_wait \<Rightarrow> Some (sr_woken r)
      | Ended \<Rightarrow> Some r)"

section \<open>Stopping\<close>

text \<open>
  The next access of a thread that is in \<^verbatim>\<open>stop\<close>: it reads the pointer to the standby queue, pushes there without the
  lock, and signals.  The result lists the quit event when the push has counted it.
\<close>

definition sd_stop :: "thread_run \<Rightarrow> (event list \<times> thread_run) option" where
  "sd_stop r =
     (case sr_stop r of
        None \<Rightarrow> Some ([], r\<lparr>sr_stop := Some (sd_swapped (sr_thread r), Push_test)\<rparr>)
      | Some (b, p) \<Rightarrow>
          if done_push p then Some ([], r\<lparr>sr_stop := None\<rparr>)
          else do {
            (p', q) \<leftarrow> eq_push_step (signal_event QUIT_EVENT) p (sd_standby_of b (sr_thread r));
            Some (if stores p then [signal_event QUIT_EVENT] else [],
              r\<lparr>sr_thread := put_standby_of b q (sr_thread r), sr_stop := Some (b, p')\<rparr>) })"

text \<open>
  Any interleaving of the thread with pushes of others, of the accesses of \<^verbatim>\<open>stop\<close>, and of the handler, whose pushes are
  those that follow the step it is called in.  The result lists the accepted events.
\<close>

datatype stage_action = Push event | Stop | Step uint64

fun stage_act :: "thread_app \<Rightarrow> stage_action \<Rightarrow> thread_run \<Rightarrow> (event list \<times> thread_run) option" where
  "stage_act app (Push e) r = do {
     (ret, signalled, t) \<leftarrow> sd_push_event e (sr_thread r);
     Some (if ret < 0 then [] else [e], r\<lparr>sr_thread := t\<rparr>) }"
| "stage_act app Stop r = sd_stop r"
| "stage_act app (Step clock) r = do { r \<leftarrow> thread_step app clock r; Some ([], r) }"

fun stage_exec :: "thread_app \<Rightarrow> stage_action list \<Rightarrow> thread_run \<Rightarrow> (event list \<times> thread_run) option" where
  "stage_exec app [] r = Some ([], r)"
| "stage_exec app (a # as) r = do {
     (es, r) \<leftarrow> stage_act app a r;
     (es', r) \<leftarrow> stage_exec app as r;
     Some (es @ es', r) }"

text \<open>
  While a \<^verbatim>\<open>stop\<close> is between the pointer it has read and the size it writes, \<^verbatim>\<open>push_event\<close> and an exchange of the queues
  would get in its way (\<open>overlapping_stop_loses_event\<close>).  Everything else may happen: the thread may handle its events, and
  find its standby queue empty.
\<close>

definition stopping :: "('t, 'p) stage_run \<Rightarrow> bool" where
  "stopping r \<longleftrightarrow> (case sr_stop r of None \<Rightarrow> False | Some (b, p) \<Rightarrow> \<not> done_push p)"

fun act_alone :: "stage_action \<Rightarrow> thread_run \<Rightarrow> bool" where
  "act_alone (Push e) r \<longleftrightarrow> \<not> stopping r"
| "act_alone Stop r \<longleftrightarrow> True"
| "act_alone (Step clock) r \<longleftrightarrow> \<not> stopping r \<or> sr_at r \<notin> {At_swap, At_wait} \<or> eq_empty (sd_standby (sr_thread r))"

fun stop_alone :: "thread_app \<Rightarrow> stage_action list \<Rightarrow> thread_run \<Rightarrow> bool" where
  "stop_alone app [] r \<longleftrightarrow> True"
| "stop_alone app (a # as) r \<longleftrightarrow> act_alone a r \<and>
     (case stage_act app a r of None \<Rightarrow> True | Some (es, r) \<Rightarrow> stop_alone app as r)"

section \<open>The thread as two sequences of events\<close>

definition call_events :: "seda_call \<Rightarrow> event list" where
  "call_events c = (case c of Call_event e \<Rightarrow> [e] | _ \<Rightarrow> [])"

text \<open>The events of the queues that the handler has got, the events that wait, and where the thread is.\<close>

definition handled :: "('t, 'p) stage_run \<Rightarrow> event list" where
  "handled r = concat (map call_events (sr_log r))"

definition waiting :: "thread_run \<Rightarrow> event list" where
  "waiting r = eq_elems (sd_active (sr_thread r)) @ eq_elems (sd_standby (sr_thread r))"

fun ev_step :: "event list \<times> event list \<times> place \<times> event list \<Rightarrow> event list \<times> event list \<times> place \<times> event list" where
  "ev_step (e # es, S, At_pop, H) = (if ev_get_type e \<noteq> QUIT_EVENT then (es, S, At_pop, H @ [e]) else (es, S, Ended, H))"
| "ev_step ([], S, At_pop, H) = ([], S, At_swap, H)"
| "ev_step (A, S, At_swap, H) = (if S \<noteq> [] then (S, A, At_pop, H) else (A, S, At_wait, H))"
| "ev_step (A, S, At_wait, H) = (if S \<noteq> [] then (S, A, At_pop, H) else (A, S, At_pop, H))"
| "ev_step (A, S, Ended, H) = (A, S, Ended, H)"

type_synonym ev_state = "event list \<times> event list \<times> place \<times> event list"

definition ev_push :: "nat \<Rightarrow> event \<Rightarrow> ev_state \<Rightarrow> event list \<times> ev_state" where
  "ev_push cap e = (\<lambda>(A, S, p, H). if length S < cap then ([e], A, S @ [e], p, H) else ([], A, S, p, H))"

text \<open>
  With the number of the access that \<^verbatim>\<open>stop\<close> makes next: 0 to read the pointer, 1 for the test, 2 to copy, 3 to step the
  index, 4 to read the size, 5 to write it, 6 to signal.
\<close>

definition stop_no :: "(bool \<times> push_place) option \<Rightarrow> nat" where
  "stop_no st = (case st of None \<Rightarrow> 0 | Some (b, p) \<Rightarrow>
     (case p of Push_test \<Rightarrow> 1 | Push_copy \<Rightarrow> 2 | Push_advance \<Rightarrow> 3 | Push_load \<Rightarrow> 4 | Push_store n \<Rightarrow> 5 | Pushed ret \<Rightarrow> 6))"

fun ev_stop :: "nat \<Rightarrow> ev_state \<times> nat \<Rightarrow> event list \<times> ev_state \<times> nat" where
  "ev_stop cap ((A, S, p, H), k) =
     (if k = 1 \<and> \<not> length S < cap then ([], (A, S, p, H), 6)
      else if k = 5 then ([signal_event QUIT_EVENT], (A, S @ [signal_event QUIT_EVENT], p, H), 6)
      else if k = 6 then ([], (A, S, p, H), 0)
      else ([], (A, S, p, H), k + 1))"

fun ev_act :: "nat \<Rightarrow> stage_action \<Rightarrow> ev_state \<times> nat \<Rightarrow> event list \<times> ev_state \<times> nat" where
  "ev_act cap (Push e) (s, k) = (let (es, s) = ev_push cap e s in (es, s, k))"
| "ev_act cap Stop (s, k) = ev_stop cap (s, k)"
| "ev_act cap (Step clock) (s, k) = ([], ev_step s, k)"

fun ev_exec :: "nat \<Rightarrow> stage_action list \<Rightarrow> ev_state \<times> nat \<Rightarrow> event list \<times> ev_state \<times> nat" where
  "ev_exec cap [] s = ([], s)"
| "ev_exec cap (a # as) s = (let (es, s) = ev_act cap a s; (es', s) = ev_exec cap as s in (es @ es', s))"

fun ev_alone :: "nat \<Rightarrow> stage_action list \<Rightarrow> ev_state \<times> nat \<Rightarrow> bool" where
  "ev_alone cap [] s \<longleftrightarrow> True"
| "ev_alone cap (a # as) ((A, S, p, H), k) \<longleftrightarrow>
     (k = 0 \<or> k = 6 \<or> (case a of Push e \<Rightarrow> False | Stop \<Rightarrow> True | Step clock \<Rightarrow> p \<notin> {At_swap, At_wait} \<or> S = [])) \<and>
     ev_alone cap as (snd (ev_act cap a ((A, S, p, H), k)))"

text \<open>
  A handler that leaves the two queues of the thread to the thread.  Its calls of \<^verbatim>\<open>push_event\<close> are pushes of
  the interleaving.
\<close>

definition app_keeps :: "thread_app \<Rightarrow> bool" where
  "app_keeps app \<longleftrightarrow> (\<forall>c t. sd_queue1 (app c t) = sd_queue1 t \<and> sd_queue2 (app c t) = sd_queue2 t \<and>
     sd_swapped (app c t) = sd_swapped t)"

definition sr_view :: "thread_run \<Rightarrow> (event_queue \<times> event_queue \<times> bool) \<times> place \<times> event list \<times> bool \<times> bool \<times> (bool \<times> push_place) option" where
  "sr_view r = ((sd_active (sr_thread r), sd_standby (sr_thread r), sd_swapped (sr_thread r)), sr_at r, handled r, sr_idle r,
     sr_timer r, sr_stop r)"

definition sr_abs :: "thread_run \<Rightarrow> ev_state \<times> nat" where
  "sr_abs r = ((eq_elems (sd_active (sr_thread r)), eq_elems (sd_standby (sr_thread r)), sr_at r, handled r), stop_no (sr_stop r))"

text \<open>The queue that \<^verbatim>\<open>stop\<close> pushes on is in order but for the accesses that are still to come.\<close>

definition stop_ok :: "nat \<times> nat \<Rightarrow> (bool \<times> push_place) option \<Rightarrow> event_queue \<Rightarrow> bool" where
  "stop_ok c st q \<longleftrightarrow> (case st of None \<Rightarrow> eq_inv c q
     | Some (b, p) \<Rightarrow> \<exists>q0. eq_inv c q0 \<and> pushing (signal_event QUIT_EVENT) p q0 q)"

definition sr_inv :: "nat \<times> nat \<Rightarrow> thread_run \<Rightarrow> bool" where
  "sr_inv c r \<longleftrightarrow> eq_inv c (sd_active (sr_thread r)) \<and> stop_ok c (sr_stop r) (sd_standby (sr_thread r)) \<and>
     (stopping r \<longrightarrow> fst (the (sr_stop r)) = sd_swapped (sr_thread r)) \<and>
     (sr_at r \<in> {At_swap, At_wait} \<longrightarrow> eq_elems (sd_active (sr_thread r)) = [])"

lemma stop_ok_inv: "stop_ok c st q \<Longrightarrow> (\<And>b p. st = Some (b, p) \<Longrightarrow> done_push p) \<Longrightarrow> eq_inv c q"
  by (cases st) (auto simp: stop_ok_def done_push_def split: push_place.splits)

lemma stop_ok_idle: "eq_inv c q \<Longrightarrow> \<not> stopping r \<Longrightarrow> stop_ok c (sr_stop r) q"
  by (auto simp: stop_ok_def stopping_def done_push_def split: option.splits push_place.splits)

lemma not_stopping_inv: "stop_ok c (sr_stop r) q \<Longrightarrow> \<not> stopping r \<Longrightarrow> eq_inv c q"
  by (rule stop_ok_inv) (auto simp: stopping_def)

lemma eq_empty_elems: "eq_empty q \<longleftrightarrow> eq_elems q = []"
  unfolding length_0_conv [symmetric] eq_elems_length by (simp add: eq_empty_def unat_eq_0)

lemma queue_select [simp]:
  "sd_active (put_active q t) = q" "sd_standby (put_active q t) = sd_standby t"
  "sd_active (put_standby q t) = sd_active t" "sd_standby (put_standby q t) = q"
  "sd_active (t\<lparr>sd_wait_flag := w\<rparr>) = sd_active t" "sd_standby (t\<lparr>sd_wait_flag := w\<rparr>) = sd_standby t"
  "sd_active (put_lru i m t) = sd_active t" "sd_standby (put_lru i m t) = sd_standby t"
  "sd_active (t\<lparr>sd_swapped := \<not> sd_swapped t\<rparr>) = sd_standby t" "sd_standby (t\<lparr>sd_swapped := \<not> sd_swapped t\<rparr>) = sd_active t"
  "sd_swapped (put_active q t) = sd_swapped t" "sd_swapped (put_standby q t) = sd_swapped t" "sd_swapped (put_lru i m t) = sd_swapped t"
  "sd_active (put_standby_of (sd_swapped t) q t) = sd_active t" "sd_standby (put_standby_of (sd_swapped t) q t) = q"
  "sd_swapped (put_standby_of b q t) = sd_swapped t" "sd_standby_of (sd_swapped t) t = sd_standby t"
  by (simp_all add: sd_active_def sd_standby_def put_active_def put_standby_def put_lru_def sd_standby_of_def put_standby_of_def)

lemma app_select [simp]:
  "app_keeps app \<Longrightarrow> sd_active (app c t) = sd_active t" "app_keeps app \<Longrightarrow> sd_standby (app c t) = sd_standby t"
  "app_keeps app \<Longrightarrow> sd_swapped (app c t) = sd_swapped t"
  by (simp_all add: app_keeps_def sd_active_def sd_standby_def)

lemma sr_view_call:
  "app_keeps app \<Longrightarrow> sr_view (sr_call app c r) =
     ((sd_active (sr_thread r), sd_standby (sr_thread r), sd_swapped (sr_thread r)), sr_at r, handled r @ call_events c, sr_idle r,
       sr_timer r, sr_stop r)"
  by (simp add: sr_view_def sr_call_def handled_def)

lemma sr_view_upd [simp]:
  "sr_view (r\<lparr>sr_count := n\<rparr>) = sr_view r" "sr_view (r\<lparr>sr_idle_last := u\<rparr>) = sr_view r"
  "sr_view (r\<lparr>sr_thread := put_lru i q (sr_thread r)\<rparr>) = sr_view r"
  by (simp_all add: sr_view_def handled_def)

text \<open>Whatever \<^verbatim>\<open>expire\<close> calls back keeps what its callback keeps.\<close>

lemma expire_loop_keeps:
  assumes "expire_loop handler slot clock f s = Some s'" "\<And>ex q u. P u \<Longrightarrow> P (snd (f ex (q, u)))" "P (snd s)"
  shows "P (snd s')"
proof -
  have "(\<forall>ex q u. P u \<longrightarrow> P (snd (f ex (q, u)))) \<longrightarrow> P (snd s) \<longrightarrow> P (snd s')"
  proof (rule expire_loop.raw_induct [where P = "\<lambda>handler slot clock f s s'.
        (\<forall>ex q u. P u \<longrightarrow> P (snd (f ex (q, u)))) \<longrightarrow> P (snd s) \<longrightarrow> P (snd s')", OF _ assms(1)])
    fix loop :: "bool \<Rightarrow> int \<Rightarrow> uint64 \<Rightarrow> (expiry \<Rightarrow> seda_queue \<times> 'a \<Rightarrow> seda_queue \<times> 'a) \<Rightarrow> seda_queue \<times> 'a \<Rightarrow> (seda_queue \<times> 'a) option"
      and handler slot clock f s y
    assume IH: "\<And>handler slot clock f s y. loop handler slot clock f s = Some y \<Longrightarrow>
        (\<forall>ex q u. P u \<longrightarrow> P (snd (f ex (q, u)))) \<longrightarrow> P (snd s) \<longrightarrow> P (snd y)"
      and body: "(if tl_empty (tq_active (fst s)) then Some s
        else case tl_front (tq_active (fst s)) of
          Node t \<Rightarrow>
            if t_end (tq_pool (fst s) t) \<le> clock
            then loop handler slot clock f (f (if handler then Handle_event slot t else Timeout t)
                (on_free (tl_push_front t) (on_active tl_pop_front (fst s)), snd s))
            else Some s
        | Head \<Rightarrow> None) = Some y"
    show "(\<forall>ex q u. P u \<longrightarrow> P (snd (f ex (q, u)))) \<longrightarrow> P (snd s) \<longrightarrow> P (snd y)"
    proof (intro impI)
      assume f: "\<forall>ex q u. P u \<longrightarrow> P (snd (f ex (q, u)))" and s: "P (snd s)"
      show "P (snd y)"
      proof (cases "tl_empty (tq_active (fst s))")
        case True
        have "y = s" using body unfolding if_P [OF True] by (simp only: option.inject)
        then show ?thesis using s by (simp only:)
      next
        case False
        note body = body [unfolded if_not_P [OF False]]
        show ?thesis
        proof (cases "tl_front (tq_active (fst s))")
          case (Node t)
          note body = body [unfolded Node tptr.case]
          show ?thesis
          proof (cases "t_end (tq_pool (fst s) t) \<le> clock")
            case True
            have "P (snd (f (if handler then Handle_event slot t else Timeout t)
                (on_free (tl_push_front t) (on_active tl_pop_front (fst s)), snd s)))"
              using f s by blast
            then show ?thesis using IH [OF body [unfolded if_P [OF True]]] f by blast
          next
            case False
            have "y = s" using body unfolding if_not_P [OF False] by (simp only: option.inject)
            then show ?thesis using s by (simp only:)
          qed
        next
          case Head
          show ?thesis using body unfolding Head tptr.case by (simp only: option.distinct)
        qed
      qed
    qed
  qed
  then show ?thesis using assms(2,3) by blast
qed

lemma tq_expire_keeps:
  assumes "tq_expire slot clock f s = Some s'" "\<And>ex q u. P u \<Longrightarrow> P (snd (f ex (q, u)))" "P (snd s)"
  shows "P (snd s')"
  using assms expire_loop_keeps [of "tq_handler (fst s)" slot clock f "((fst s)\<lparr>tq_last := clock\<rparr>, snd s)" s' P]
  by (auto simp: tq_expire_def split: if_splits)

lemma expire_managers_keeps:
  assumes call: "\<And>slot t u. P u \<Longrightarrow> P (sr_call app (Call_expire slot t) u)"
    and put: "\<And>i q u. P u \<Longrightarrow> P (u\<lparr>sr_thread := put_lru i q (sr_thread u)\<rparr>)"
  shows "expire_managers app clock is r = Some r' \<Longrightarrow> P r \<Longrightarrow> P r'"
proof (induction "is" arbitrary: r)
  case (Cons i "is")
  obtain q1 r1 where x: "tq_expire (tq_slot (sd_lru (sr_thread r) ! i)) clock (lru_callback app i) (sd_lru (sr_thread r) ! i, r) = Some (q1, r1)"
      "expire_managers app clock is (r1\<lparr>sr_thread := put_lru i q1 (sr_thread r1)\<rparr>) = Some r'"
    using Cons.prems(1) by (auto split: option.splits)
  have "P (snd (lru_callback app i ex (q, u)))" if "P u" for ex q u
    using call [OF put [OF that, of i q]] put [OF that, of i q] by (cases ex) (simp_all add: lru_callback_def Let_def)
  then have "P (snd (q1, r1))" by (rule tq_expire_keeps [OF x(1)]) (use Cons.prems(2) in auto)
  then have "P (r1\<lparr>sr_thread := put_lru i q1 (sr_thread r1)\<rparr>)" using put by simp
  then show ?case by (rule Cons.IH [OF x(2)])
qed simp

lemma expire_managers_view:
  assumes "app_keeps app" "expire_managers app clock is r = Some r'"
  shows "sr_view r' = sr_view r"
proof (rule expire_managers_keeps [OF _ _ assms(2), where P = "\<lambda>u. sr_view u = sr_view r"])
  fix slot t u assume "sr_view u = sr_view r"
  moreover have "sr_view (sr_call app (Call_expire slot t) u) = sr_view u"
    using sr_view_call [OF assms(1)] by (simp add: call_events_def) (simp add: sr_view_def)
  ultimately show "sr_view (sr_call app (Call_expire slot t) u) = sr_view r" by simp
qed simp_all

section \<open>The four loops do the same with the queues\<close>

lemma check_timers_view: "app_keeps app \<Longrightarrow> sr_check_timers app clock r = Some r' \<Longrightarrow> sr_view r' = sr_view r"
  unfolding sr_check_timers_def by (rule expire_managers_view)

lemma idle_check_view: "app_keeps app \<Longrightarrow> sr_view (sr_idle_check app clock r) = sr_view r"
  by (simp add: sr_idle_check_def sr_view_call call_events_def) (simp add: sr_view_def)

lemma count_event_view: "app_keeps app \<Longrightarrow> sr_count_event app clock r = Some r' \<Longrightarrow> sr_view r' = sr_view r"
  by (auto simp: sr_count_event_def Let_def split: if_splits dest: check_timers_view)

lemma sr_view_at: "sr_view r = sr_view r' \<Longrightarrow> sr_view (r\<lparr>sr_at := p\<rparr>) = sr_view (r'\<lparr>sr_at := p\<rparr>)"
  by (simp add: sr_view_def handled_def)

lemmas loop_defs = loop_plain_def loop_idle_def loop_timer_def loop_both_def

lemma thread_step_view:
  assumes app: "app_keeps app" and at: "sr_at r = At_pop" and r': "thread_step app clock r = Some r'"
    and pop: "sr_pop r = (e, r1)"
  shows "sr_view r' = sr_view
    (case e of
       Some e \<Rightarrow> if ev_get_type e \<noteq> QUIT_EVENT then sr_call app (Call_event e) r1 else sr_quit app r1
     | None \<Rightarrow> r1\<lparr>sr_at := At_swap\<rparr>)"
proof (cases e)
  case None
  consider "r' = r1\<lparr>sr_at := At_swap\<rparr>" | "r' = (sr_idle_check app clock r1)\<lparr>sr_at := At_swap\<rparr>"
    | r2 where "sr_check_timers app clock r1 = Some r2" "r' = r2\<lparr>sr_count := 0, sr_at := At_swap\<rparr>"
    | r2 where "sr_check_timers app clock r1 = Some r2" "r' = (sr_idle_check app clock (r2\<lparr>sr_count := 0\<rparr>))\<lparr>sr_at := At_swap\<rparr>"
    using r' at pop None by (auto simp: thread_step_def loop_defs bind_eq_Some_conv split: if_splits)
  then have "sr_view r' = sr_view (r1\<lparr>sr_at := At_swap\<rparr>)"
  proof cases
    case 2
    show ?thesis unfolding 2 by (rule sr_view_at [OF idle_check_view [OF app]])
  next
    case (3 r2)
    have "sr_view (r2\<lparr>sr_count := 0\<rparr>) = sr_view r1" using check_timers_view [OF app 3(1)] by simp
    then have "sr_view (r2\<lparr>sr_count := 0\<rparr>\<lparr>sr_at := At_swap\<rparr>) = sr_view (r1\<lparr>sr_at := At_swap\<rparr>)" by (rule sr_view_at)
    then show ?thesis using 3(2) by simp
  next
    case (4 r2)
    have "sr_view (sr_idle_check app clock (r2\<lparr>sr_count := 0\<rparr>)) = sr_view r1"
      using check_timers_view [OF app 4(1)] idle_check_view [OF app, of clock "r2\<lparr>sr_count := 0\<rparr>"] by simp
    then have "sr_view ((sr_idle_check app clock (r2\<lparr>sr_count := 0\<rparr>))\<lparr>sr_at := At_swap\<rparr>) = sr_view (r1\<lparr>sr_at := At_swap\<rparr>)"
      by (rule sr_view_at)
    then show ?thesis using 4(2) by simp
  qed (simp only:)
  then show ?thesis using None by simp
next
  case (Some x)
  show ?thesis
  proof (cases "ev_get_type x = QUIT_EVENT")
    case True
    then show ?thesis using r' at pop Some by (auto simp: thread_step_def loop_defs split: if_splits)
  next
    case False
    then consider "r' = sr_call app (Call_event x) r1" | "sr_count_event app clock (sr_call app (Call_event x) r1) = Some r'"
      using r' at pop Some by (auto simp: thread_step_def loop_defs split: if_splits)
    then have "sr_view r' = sr_view (sr_call app (Call_event x) r1)"
      by cases (auto dest: count_event_view [OF app])
    then show ?thesis using Some False by simp
  qed
qed

section \<open>The thread refines the two sequences\<close>

lemma view_abs:
  assumes "sr_view r' = sr_view r"
  shows "sr_abs r' = sr_abs r" "sr_inv c r' = sr_inv c r"
  using assms by (auto simp: sr_view_def sr_abs_def sr_inv_def stopping_def)

lemma sr_pop_ok:
  assumes "eq_inv c (sd_active (sr_thread r))" "eq_elems (sd_active (sr_thread r)) = A"
  shows "\<exists>r1. sr_pop r = (case A of [] \<Rightarrow> None | e # es \<Rightarrow> Some e, r1) \<and>
    eq_inv c (sd_active (sr_thread r1)) \<and> eq_elems (sd_active (sr_thread r1)) = tl A \<and>
    sd_standby (sr_thread r1) = sd_standby (sr_thread r) \<and> sr_at r1 = sr_at r \<and> handled r1 = handled r \<and>
    sr_stop r1 = sr_stop r \<and> sd_swapped (sr_thread r1) = sd_swapped (sr_thread r)"
proof (cases A)
  case Nil
  then show ?thesis using events.pop_none [OF assms(1)] assms by (simp add: sr_pop_def handled_def)
next
  case (Cons e es)
  then show ?thesis using events.pop_some [OF assms(1), of e es] assms(2) by (auto simp: sr_pop_def handled_def)
qed

lemma swap_cases:
  "sd_swap_event_queue t =
    (if eq_elems (sd_standby t) \<noteq> [] then (True, t\<lparr>sd_swapped := \<not> sd_swapped t\<rparr>) else (False, t))"
  by (simp add: sd_swap_event_queue_def eq_empty_elems)

text \<open>An exchange of the queues happens when no push of \<^verbatim>\<open>stop\<close> is under way.\<close>

lemma swap_alone:
  assumes "sr_inv c r" "act_alone (Step clock) r" "sr_at r \<in> {At_swap, At_wait}" "eq_elems (sd_standby (sr_thread r)) \<noteq> []"
  shows "\<not> stopping r" "eq_inv c (sd_standby (sr_thread r))" "stop_ok c (sr_stop r) (sd_active (sr_thread r))"
proof -
  show n: "\<not> stopping r" using assms(2-4) by (auto simp: eq_empty_elems)
  show "eq_inv c (sd_standby (sr_thread r))" by (rule not_stopping_inv [OF _ n]) (use assms(1) in \<open>simp add: sr_inv_def\<close>)
  show "stop_ok c (sr_stop r) (sd_active (sr_thread r))" by (rule stop_ok_idle [OF _ n]) (use assms(1) in \<open>simp add: sr_inv_def\<close>)
qed

lemma thread_step_refines:
  assumes app: "app_keeps app" and inv: "sr_inv c r" and alone: "act_alone (Step clock) r" and r': "thread_step app clock r = Some r'"
  shows "sr_inv c r' \<and> sr_abs r' = (ev_step (fst (sr_abs r)), snd (sr_abs r))"
proof (cases "sr_at r")
  case At_pop
  let ?A = "eq_elems (sd_active (sr_thread r))"
  have i: "eq_inv c (sd_active (sr_thread r))" "stop_ok c (sr_stop r) (sd_standby (sr_thread r))"
    "stopping r \<longrightarrow> fst (the (sr_stop r)) = sd_swapped (sr_thread r)" using inv by (simp_all add: sr_inv_def)
  obtain r1 where r1: "sr_pop r = (case ?A of [] \<Rightarrow> None | e # es \<Rightarrow> Some e, r1)" "eq_inv c (sd_active (sr_thread r1))"
      "eq_elems (sd_active (sr_thread r1)) = tl ?A" "sd_standby (sr_thread r1) = sd_standby (sr_thread r)"
      "sr_at r1 = sr_at r" "handled r1 = handled r" "sr_stop r1 = sr_stop r" "sd_swapped (sr_thread r1) = sd_swapped (sr_thread r)"
    using sr_pop_ok [OF i(1) refl] by blast
  note v = thread_step_view [OF app At_pop r' r1(1)]
  show ?thesis
  proof (cases ?A)
    case Nil
    then have "sr_view r' = sr_view (r1\<lparr>sr_at := At_swap\<rparr>)" using v by simp
    from view_abs [OF this] show ?thesis
      using r1 i Nil At_pop by (simp add: sr_abs_def sr_inv_def stopping_def) (simp add: handled_def)
  next
    case (Cons e es)
    show ?thesis
    proof (cases "ev_get_type e = QUIT_EVENT")
      case True
      then have "sr_view r' = sr_view (sr_quit app r1)" using v Cons by simp
      from view_abs [OF this] show ?thesis
        using r1 i Cons At_pop True app
        by (simp add: sr_abs_def sr_inv_def sr_quit_def sr_call_def stopping_def) (simp add: handled_def call_events_def)
    next
      case False
      then have "sr_view r' = sr_view (sr_call app (Call_event e) r1)" using v Cons by simp
      from view_abs [OF this] show ?thesis
        using r1 i Cons At_pop False app
        by (simp add: sr_abs_def sr_inv_def sr_call_def stopping_def) (simp add: handled_def call_events_def)
    qed
  qed
next
  case At_swap
  have i: "eq_elems (sd_active (sr_thread r)) = []" "eq_inv c (sd_active (sr_thread r))" "stop_ok c (sr_stop r) (sd_standby (sr_thread r))"
    "stopping r \<longrightarrow> fst (the (sr_stop r)) = sd_swapped (sr_thread r)"
    using inv At_swap by (simp_all add: sr_inv_def)
  note a = swap_alone [OF inv alone]
  have "r' = sr_swap r" using r' At_swap by (simp add: thread_step_def)
  then show ?thesis using At_swap i a swap_cases [of "sr_thread r"]
    by (cases "eq_elems (sd_standby (sr_thread r)) = []"; cases "sd_swapped (sr_thread r)")
      (simp_all add: sr_swap_def sr_abs_def sr_inv_def stopping_def handled_def sd_active_def sd_standby_def)
next
  case At_wait
  have i: "eq_elems (sd_active (sr_thread r)) = []" "eq_inv c (sd_active (sr_thread r))" "stop_ok c (sr_stop r) (sd_standby (sr_thread r))"
    "stopping r \<longrightarrow> fst (the (sr_stop r)) = sd_swapped (sr_thread r)"
    using inv At_wait by (simp_all add: sr_inv_def)
  note a = swap_alone [OF inv alone]
  have w: "sd_swap_event_queue ((sr_thread r)\<lparr>sd_wait_flag := 0\<rparr>) =
      (if eq_elems (sd_standby (sr_thread r)) \<noteq> []
       then (True, (sr_thread r)\<lparr>sd_wait_flag := 0, sd_swapped := \<not> sd_swapped (sr_thread r)\<rparr>)
       else (False, (sr_thread r)\<lparr>sd_wait_flag := 0\<rparr>))"
    using swap_cases [of "(sr_thread r)\<lparr>sd_wait_flag := 0\<rparr>"] by simp
  have "r' = sr_woken r" using r' At_wait by (simp add: thread_step_def)
  then show ?thesis using At_wait i a unfolding sr_woken_def w
    by (cases "eq_elems (sd_standby (sr_thread r)) = []"; cases "sd_swapped (sr_thread r)")
      (simp_all add: sr_abs_def sr_inv_def stopping_def handled_def sd_active_def sd_standby_def)
next
  case Ended
  then show ?thesis using inv r' by (simp add: thread_step_def sr_abs_def)
qed

text \<open>The actions that may happen: every pushed event has a slot.\<close>

definition act_fits :: "nat \<times> nat \<Rightarrow> stage_action \<Rightarrow> bool" where
  "act_fits c a = (case a of Push e \<Rightarrow> event_fits c e | _ \<Rightarrow> True)"

lemma push_standby:
  assumes "eq_inv c (sd_standby t)" "event_fits c e"
  shows "\<exists>ret q. eq_push e (sd_standby t) = Some (ret, q) \<and> eq_inv c q \<and>
    (if length (eq_elems (sd_standby t)) < fst c
     then ret = int (length (eq_elems q)) \<and> eq_elems q = eq_elems (sd_standby t) @ [e]
     else ret = - 1 \<and> q = sd_standby t)"
proof (cases "length (eq_elems (sd_standby t)) < fst c")
  case True
  then show ?thesis using events.push_room [OF assms] by fastforce
next
  case False
  then have "length (eq_elems (sd_standby t)) = fst c" using events.bound [OF assms(1)] by simp
  then show ?thesis using events.push_full [OF assms(1)] assms(1) by simp
qed

lemma inv_slot: "eq_inv c q \<Longrightarrow> 16 \<le> snd c"
  by (cases c) simp

lemma stage_push_ok:
  assumes inv: "sr_inv c r" and a: "act_alone (Push e) r" "event_fits c e"
  shows "\<exists>es r'. stage_act app (Push e) r = Some (es, r') \<and> sr_inv c r' \<and> (es, sr_abs r') = ev_act (fst c) (Push e) (sr_abs r) \<and>
    sd_lru (sr_thread r') = sd_lru (sr_thread r)"
proof -
  let ?t = "sr_thread r"
  have n: "\<not> stopping r" using a(1) by simp
  have i: "eq_inv c (sd_standby ?t)" using not_stopping_inv [OF _ n] inv by (simp add: sr_inv_def)
  then obtain ret q where q: "eq_push e (sd_standby ?t) = Some (ret, q)" "eq_inv c q"
      "if length (eq_elems (sd_standby ?t)) < fst c
       then ret = int (length (eq_elems q)) \<and> eq_elems q = eq_elems (sd_standby ?t) @ [e]
       else ret = - 1 \<and> q = sd_standby ?t"
    using push_standby [OF i a(2)] by blast
  have l: "sd_lru (put_standby q ?t) = sd_lru ?t" by (simp add: put_standby_def)
  have ok: "stop_ok c (sr_stop r) q" by (rule stop_ok_idle [OF q(2) n])
  have inv': "sr_inv c (r\<lparr>sr_thread := put_standby q ?t\<rparr>)" "sr_inv c (r\<lparr>sr_thread := (put_standby q ?t)\<lparr>sd_wait_flag := 0\<rparr>\<rparr>)"
    using inv ok n by (simp_all add: sr_inv_def stopping_def)
  show ?thesis
  proof (cases "length (eq_elems (sd_standby ?t)) < fst c")
    case True
    then have e: "ret = int (length (eq_elems q))" "eq_elems q = eq_elems (sd_standby ?t) @ [e]"
      using q(3) unfolding if_P [OF True] by blast+
    have "\<not> ret < 0" unfolding e(1) by (simp del: eq_elems_length)
    then show ?thesis using q(1) e(2) True inv' l
      by (auto simp: sd_push_event_def Let_def sr_abs_def ev_push_def handled_def)
  next
    case False
    then show ?thesis using q inv' l
      by (auto simp: sd_push_event_def Let_def sr_abs_def ev_push_def handled_def)
  qed
qed

lemma stop_signal_no:
  "stop_no None = 0" "done_push p \<Longrightarrow> stop_no (Some (b, p)) = 6" "stores p \<Longrightarrow> stop_no (Some (b, p)) = 5"
  by (auto simp: stop_no_def done_push_def stores_def split: push_place.splits)

lemma pushing_no:
  assumes "eq_inv c q0" "pushing e p q0 q" "eq_push_step e p q = Some (p', q')" "\<not> stores p" "\<not> done_push p"
  shows "stop_no (Some (b, p')) = (if stop_no (Some (b, p)) = 1 \<and> \<not> length (eq_elems q0) < fst c then 6 else stop_no (Some (b, p)) + 1)"
    "stop_no (Some (b, p)) < 5"
proof -
  have r: "eq_size q0 < eq_capacity q0 \<longleftrightarrow> length (eq_elems q0) < fst c" using assms(1) by (cases c) (simp add: word_less_nat_alt)
  show "stop_no (Some (b, p')) = (if stop_no (Some (b, p)) = 1 \<and> \<not> length (eq_elems q0) < fst c then 6 else stop_no (Some (b, p)) + 1)"
    "stop_no (Some (b, p)) < 5"
    using assms(2-5) unfolding r [symmetric]
    by (cases p; auto simp: stop_no_def stores_def done_push_def bind_eq_Some_conv split: if_splits)+
qed

lemma stage_stop_ok:
  assumes inv: "sr_inv c r"
  shows "\<exists>es r'. stage_act app Stop r = Some (es, r') \<and> sr_inv c r' \<and> (es, sr_abs r') = ev_act (fst c) Stop (sr_abs r) \<and>
    sd_lru (sr_thread r') = sd_lru (sr_thread r)"
proof (cases "sr_stop r")
  case None
  then show ?thesis using inv
    by (auto simp: sd_stop_def sr_inv_def sr_abs_def stop_no_def stop_ok_def stopping_def done_push_def handled_def)
next
  case (Some x)
  then obtain b p where st: "sr_stop r = Some (b, p)" by (cases x) auto
  let ?t = "sr_thread r"
  obtain q0 where q0: "eq_inv c q0" "pushing (signal_event QUIT_EVENT) p q0 (sd_standby ?t)"
    using inv st by (auto simp: sr_inv_def stop_ok_def)
  have fit: "event_fits c (signal_event QUIT_EVENT)" using quit_event_fits(1) inv_slot [OF q0(1)] by (cases c) (simp del: event_fits.simps)
  have el: "eq_elems (sd_standby ?t) = eq_elems q0" by (rule pushing_elems [OF q0(1) fit q0(2)])
  show ?thesis
  proof (cases "done_push p")
    case True
    have i: "eq_inv c (sd_standby ?t)" using stop_ok_inv [of c "sr_stop r"] inv st True by (auto simp: sr_inv_def)
    show ?thesis using inv i st True stop_signal_no(1) stop_signal_no(2) [OF True, of b]
      by (simp add: sd_stop_def sr_inv_def sr_abs_def stop_ok_def stopping_def handled_def)
  next
    case False
    then have b: "b = sd_swapped ?t" using inv st by (simp add: sr_inv_def stopping_def)
    obtain p' q' where x: "eq_push_step (signal_event QUIT_EVENT) p (sd_standby ?t) = Some (p', q')"
        "if stores p then (\<exists>ret. p' = Pushed ret) \<and> eq_inv c q' \<and> eq_elems q' = eq_elems q0 @ [signal_event QUIT_EVENT] \<and>
           length (eq_elems q0) < fst c
         else pushing (signal_event QUIT_EVENT) p' q0 q'"
      using pushing_step [OF q0(1) fit q0(2)] by blast
    have l: "sd_lru (put_standby_of b q' ?t) = sd_lru ?t" by (simp add: put_standby_of_def)
    show ?thesis
    proof (cases "stores p")
      case True
      then have y: "\<exists>ret. p' = Pushed ret" "eq_inv c q'" "eq_elems q' = eq_elems q0 @ [signal_event QUIT_EVENT]" using x(2) by simp_all
      have "pushing (signal_event QUIT_EVENT) p' q' q'" using y(1) by auto
      then have "sr_inv c (r\<lparr>sr_thread := put_standby_of b q' ?t, sr_stop := Some (b, p')\<rparr>)"
        using inv y(2) b by (auto simp: sr_inv_def stop_ok_def)
      moreover have "done_push p'" using y(1) by (auto simp: done_push_def)
      ultimately show ?thesis using st False x(1) y(3) b l True el stop_signal_no(2) [of p' b] stop_signal_no(3) [OF True, of b]
        by (simp add: sd_stop_def sr_abs_def handled_def)
    next
      case ns: False
      then have y: "pushing (signal_event QUIT_EVENT) p' q0 q'" using x(2) by simp
      have el': "eq_elems q' = eq_elems q0" by (rule pushing_elems [OF q0(1) fit y])
      have "sr_inv c (r\<lparr>sr_thread := put_standby_of b q' ?t, sr_stop := Some (b, p')\<rparr>)"
        using inv y q0(1) b by (auto simp: sr_inv_def stop_ok_def)
      then show ?thesis using st False ns x(1) b l el el' pushing_no [OF q0(1,2) x(1) ns False, of b]
        by (simp add: sd_stop_def sr_abs_def handled_def)
    qed
  qed
qed

lemma stage_act_refines:
  assumes "app_keeps app" "sr_inv c r" "act_fits c a" "act_alone a r" "stage_act app a r = Some (es, r')"
  shows "sr_inv c r' \<and> (es, sr_abs r') = ev_act (fst c) a (sr_abs r)"
proof (cases a)
  case (Push e)
  then show ?thesis using stage_push_ok [OF assms(2), of e app] assms(3-5) by (auto simp: act_fits_def simp del: act_alone.simps)
next
  case Stop
  then show ?thesis using stage_stop_ok [OF assms(2), of app] assms(5) by auto
next
  case (Step clock)
  then have "es = []" "thread_step app clock r = Some r'" using assms(5) by (auto simp: bind_eq_Some_conv)
  then show ?thesis using thread_step_refines [OF assms(1,2), of clock r'] assms(4) Step by (cases "sr_abs r") auto
qed

lemma stage_exec_refines:
  assumes "app_keeps app" "sr_inv c r" "\<forall>a \<in> set acts. act_fits c a" "stop_alone app acts r" "stage_exec app acts r = Some (es, r')"
  shows "sr_inv c r' \<and> (es, sr_abs r') = ev_exec (fst c) acts (sr_abs r)"
  using assms(2-5)
proof (induction acts arbitrary: r es)
  case (Cons a acts)
  obtain es1 r1 es2 where x: "stage_act app a r = Some (es1, r1)" "stage_exec app acts r1 = Some (es2, r')" "es = es1 @ es2"
    using Cons.prems(4) by (auto simp: bind_eq_Some_conv)
  have al: "act_alone a r" "stop_alone app acts r1" using Cons.prems(3) x(1) by simp_all
  have "sr_inv c r1 \<and> (es1, sr_abs r1) = ev_act (fst c) a (sr_abs r)"
    using stage_act_refines [OF assms(1) Cons.prems(1) _ al(1) x(1)] Cons.prems(2) by simp
  moreover from this have "sr_inv c r' \<and> (es2, sr_abs r') = ev_exec (fst c) acts (sr_abs r1)"
    using Cons.IH [of r1 es2] Cons.prems(2) al(2) x(2) by simp
  ultimately show ?case using x(3) by (auto simp: Let_def split: prod.splits)
qed simp

text \<open>Whether a \<^verbatim>\<open>stop\<close> is disturbed can be seen in the two sequences.\<close>

lemma act_alone_abs:
  "sr_abs r = ((A, S, p, H), k) \<Longrightarrow> act_alone a r \<longleftrightarrow>
     (k = 0 \<or> k = 6 \<or> (case a of Push e \<Rightarrow> False | Stop \<Rightarrow> True | Step clock \<Rightarrow> p \<notin> {At_swap, At_wait} \<or> S = []))"
  by (cases a; cases "sr_stop r")
    (auto simp: sr_abs_def stopping_def stop_no_def done_push_def eq_empty_elems split: push_place.splits)

lemma stop_alone_abs:
  assumes "app_keeps app"
  shows "sr_inv c r \<Longrightarrow> \<forall>a \<in> set acts. act_fits c a \<Longrightarrow> ev_alone (fst c) acts (sr_abs r) \<Longrightarrow> stop_alone app acts r"
proof (induction acts arbitrary: r)
  case (Cons a acts)
  obtain A S p H k where s: "sr_abs r = ((A, S, p, H), k)" by (cases "sr_abs r") auto
  have al: "act_alone a r" using Cons.prems(3) unfolding s act_alone_abs [OF s] by simp
  show ?case
  proof (cases "stage_act app a r")
    case None
    then show ?thesis using al by simp
  next
    case (Some x)
    then obtain es r1 where x: "stage_act app a r = Some (es, r1)" by (cases x) auto
    have "sr_inv c r1 \<and> (es, sr_abs r1) = ev_act (fst c) a (sr_abs r)"
      using stage_act_refines [OF assms Cons.prems(1) _ al x] Cons.prems(2) by simp
    then have "stop_alone app acts r1" using Cons.IH [of r1] Cons.prems(2,3) unfolding s by (metis ev_alone.simps(2) list.set_intros(2) snd_conv)
    then show ?thesis using al x by simp
  qed
qed simp

section \<open>Events in order\<close>

fun ev_ok :: "event list \<Rightarrow> event list \<times> event list \<times> place \<times> event list \<Rightarrow> bool" where
  "ev_ok acc (A, S, p, H) \<longleftrightarrow> (\<forall>e \<in> set H. ev_get_type e \<noteq> QUIT_EVENT) \<and>
     (if p = Ended then \<exists>e. ev_get_type e = QUIT_EVENT \<and> acc = H @ e # A @ S else acc = H @ A @ S)"

definition ev_place :: "ev_state \<Rightarrow> bool" where
  "ev_place s \<longleftrightarrow> (case s of (A, S, p, H) \<Rightarrow> p \<in> {At_swap, At_wait} \<longrightarrow> A = [])"

lemma ev_act_ok:
  assumes "ev_ok acc s" "ev_place s"
  shows "ev_ok (acc @ fst (ev_act cap a (s, k))) (fst (snd (ev_act cap a (s, k)))) \<and> ev_place (fst (snd (ev_act cap a (s, k))))"
proof (cases s)
  case (fields A S p H)
  show ?thesis
  proof (cases a)
    case (Step clock)
    then show ?thesis using assms fields by (cases p; cases A) (auto simp: ev_place_def)
  qed (use assms fields in \<open>auto simp: ev_push_def ev_place_def split: if_splits\<close>)
qed

lemma ev_exec_ok:
  "ev_ok acc (fst s) \<Longrightarrow> ev_place (fst s) \<Longrightarrow> ev_exec cap acts s = (es, s') \<Longrightarrow> ev_ok (acc @ es) (fst s') \<and> ev_place (fst s')"
proof (induction acts arbitrary: acc s es)
  case (Cons a acts)
  obtain es1 s1 es2 where x: "ev_act cap a s = (es1, s1)" "ev_exec cap acts s1 = (es2, s')" "es = es1 @ es2"
    using Cons.prems(3) by (auto simp: Let_def split: prod.splits)
  have "ev_ok (acc @ es1) (fst s1) \<and> ev_place (fst s1)"
    using ev_act_ok [OF Cons.prems(1,2), of cap a "snd s"] x(1) by simp
  then have "ev_ok ((acc @ es1) @ es2) (fst s') \<and> ev_place (fst s')" using Cons.IH x(2) by blast
  then show ?case using x(3) by simp
qed simp

section \<open>The steps return\<close>

text \<open>A handler that keeps to the rules of the timers: it leaves them alone while one of them expires.\<close>

definition kept :: "seda_queue \<Rightarrow> bool" where
  "kept q \<longleftrightarrow> (\<exists>xs ys. holds q xs ys)"

definition lru_kept :: "'a stage_base_scheme \<Rightarrow> bool" where
  "lru_kept t \<longleftrightarrow> (\<forall>q \<in> set (sd_lru t). kept q)"

definition app_timers :: "'a base_app \<Rightarrow> bool" where
  "app_timers app \<longleftrightarrow> (\<forall>c t. lru_kept t \<longrightarrow> lru_kept (app c t)) \<and>
     (\<forall>slot i t. sd_lru (app (Call_expire slot i) t) = sd_lru t)"

lemma expire_loop_returns:
  assumes "holds q xs ys" "P u" "\<And>ex q u. P u \<Longrightarrow> fst (f ex (q, u)) = q \<and> P (snd (f ex (q, u)))"
  shows "\<exists>q' u'. expire_loop handler slot clock f (q, u) = Some (q', u') \<and> kept q' \<and> P u'"
  using assms(1,2)
proof (induction ys arbitrary: q xs u)
  case Nil
  then show ?case using holds_empty(2) [OF Nil(1)] by (subst expire_loop.simps) (auto simp: kept_def)
next
  case (Cons y ys)
  have e: "\<not> tl_empty (tq_active q)" "tl_front (tq_active q) = Node y"
    using holds_empty(2) [OF Cons.prems(1)] holds_front(2) [OF Cons.prems(1)] by simp_all
  show ?case
  proof (cases "ends q y \<le> clock")
    case True
    let ?p = "on_free (tl_push_front y) (on_active tl_pop_front q)" and ?ev = "if handler then Handle_event slot y else Timeout y"
    obtain u1 where u1: "f ?ev (?p, u) = (?p, u1)" "P u1"
      using assms(3) [OF Cons.prems(2), of ?ev ?p] by (cases "f ?ev (?p, u)") auto
    have "holds ?p (y # xs) ys" using expire_step_holds [OF Cons.prems(1)] by blast
    from Cons.IH [OF this u1(2)] show ?thesis using e True u1(1) by (subst expire_loop.simps) simp
  next
    case False
    then show ?thesis using e Cons.prems by (subst expire_loop.simps) (auto simp: kept_def)
  qed
qed

lemma tq_expire_returns:
  assumes "kept q" "P u" "\<And>ex q u. P u \<Longrightarrow> fst (f ex (q, u)) = q \<and> P (snd (f ex (q, u)))"
  shows "\<exists>q' u'. tq_expire slot clock f (q, u) = Some (q', u') \<and> kept q' \<and> P u'"
proof -
  obtain xs ys where "holds (q\<lparr>tq_last := clock\<rparr>) xs ys" using assms(1) by (auto simp: kept_def holds_def)
  from expire_loop_returns [of _ xs ys P u f, OF this assms(2,3)]
  show ?thesis using assms(1,2) by (simp add: tq_expire_def)
qed

lemma expire_managers_returns:
  fixes app :: "'a base_app" and r :: "('a, 'p) base_run"
  assumes "app_timers app"
  shows "lru_kept (sr_thread r) \<Longrightarrow> \<forall>i \<in> set is. i < length (sd_lru (sr_thread r)) \<Longrightarrow>
    \<exists>r'. expire_managers app clock is r = Some r' \<and> lru_kept (sr_thread r')"
proof (induction "is" arbitrary: r)
  case (Cons i "is")
  let ?n = "length (sd_lru (sr_thread r))"
  define P where "P u \<longleftrightarrow> length (sd_lru (sr_thread u)) = ?n \<and> (\<forall>j < ?n. j \<noteq> i \<longrightarrow> kept (sd_lru (sr_thread u) ! j))" for u :: "('a, 'p) base_run"
  have i: "i < ?n" "kept (sd_lru (sr_thread r) ! i)" using Cons.prems by (auto simp: lru_kept_def)
  have "P r" using Cons.prems(1) by (simp add: P_def lru_kept_def)
  moreover have "fst (lru_callback app i ex (q, u)) = q \<and> P (snd (lru_callback app i ex (q, u)))" if "P u" for ex q u
    using that i(1) assms by (cases ex) (simp_all add: lru_callback_def Let_def P_def put_lru_def sr_call_def app_timers_def)
  ultimately obtain q' u' where x: "tq_expire (tq_slot (sd_lru (sr_thread r) ! i)) clock (lru_callback app i) (sd_lru (sr_thread r) ! i, r) =
      Some (q', u')" "kept q'" "P u'"
    using tq_expire_returns [OF i(2), of P r] by blast
  let ?r = "u'\<lparr>sr_thread := put_lru i q' (sr_thread u')\<rparr>"
  have l: "length (sd_lru (sr_thread ?r)) = ?n" using x(3) by (simp add: P_def put_lru_def)
  have "kept (sd_lru (sr_thread ?r) ! j)" if "j < ?n" for j
    using x(2,3) that i(1) by (cases "j = i") (simp_all add: P_def put_lru_def)
  then have "lru_kept (sr_thread ?r)" using l unfolding lru_kept_def by (auto simp: in_set_conv_nth)
  then show ?case using Cons.IH [of ?r] Cons.prems(2) l x(1) by simp
qed simp

lemma check_timers_returns:
  "app_timers app \<Longrightarrow> lru_kept (sr_thread r) \<Longrightarrow> \<exists>r'. sr_check_timers app clock r = Some r' \<and> lru_kept (sr_thread r')"
  unfolding sr_check_timers_def by (rule expire_managers_returns) auto

lemma lru_kept_call [simp]: "app_timers app \<Longrightarrow> lru_kept (sr_thread r) \<Longrightarrow> lru_kept (sr_thread (sr_call app c r))"
  by (simp add: sr_call_def app_timers_def)

lemma lru_kept_queues [simp]:
  "lru_kept (put_active q t) = lru_kept t" "lru_kept (put_standby q t) = lru_kept t" "lru_kept (t\<lparr>sd_wait_flag := w\<rparr>) = lru_kept t"
  "lru_kept (t\<lparr>sd_swapped := b\<rparr>) = lru_kept t"
  by (simp_all add: lru_kept_def put_active_def put_standby_def)

lemma lru_kept_swap [simp]: "lru_kept (snd (sd_swap_event_queue t)) = lru_kept t"
  by (simp add: sd_swap_event_queue_def)

lemma thread_step_returns:
  assumes app: "app_timers app" and k: "lru_kept (sr_thread r)"
  shows "\<exists>r'. thread_step app clock r = Some r' \<and> lru_kept (sr_thread r')"
proof (cases "sr_at r")
  case At_pop
  obtain e r1 where p: "sr_pop r = (e, r1)" by (cases "sr_pop r")
  then have k1: "lru_kept (sr_thread r1)" using k by (auto simp: sr_pop_def split: prod.splits)
  have i: "lru_kept (sr_thread (sr_idle_check app clock u))" if "lru_kept (sr_thread u)" for u
    using that app by (simp add: sr_idle_check_def)
  have ev: "\<exists>r'. sr_count_event app clock (sr_call app (Call_event x) r1) = Some r' \<and> lru_kept (sr_thread r')" for x
    using check_timers_returns [OF app, of "(sr_call app (Call_event x) r1)\<lparr>sr_count := 0\<rparr>" clock] app k1
    by (simp add: sr_count_event_def Let_def)
  obtain r2 where r2: "sr_check_timers app clock r1 = Some r2" "lru_kept (sr_thread r2)"
    using check_timers_returns [OF app k1] by blast
  show ?thesis using At_pop p k1 app ev r2 i [of "r2\<lparr>sr_count := 0\<rparr>"] i [OF k1]
    by (cases e) (auto simp: thread_step_def loop_defs sr_quit_def)
next
  case At_swap
  have "lru_kept (sr_thread (sr_swap r))" using k lru_kept_swap [of "sr_thread r"]
    by (auto simp: sr_swap_def split: prod.splits bool.splits simp del: lru_kept_swap)
  then show ?thesis using At_swap by (simp add: thread_step_def)
qed (use k in \<open>simp_all add: thread_step_def sr_woken_def\<close>)

lemma stage_exec_returns:
  assumes "app_keeps app" "app_timers app" "sr_inv c r" "lru_kept (sr_thread r)" "\<forall>a \<in> set acts. act_fits c a" "stop_alone app acts r"
  shows "\<exists>es r'. stage_exec app acts r = Some (es, r') \<and> lru_kept (sr_thread r')"
  using assms(3-6)
proof (induction acts arbitrary: r)
  case (Cons a acts)
  have a: "act_fits c a" "act_alone a r" using Cons.prems(3,4) by simp_all
  have "\<exists>es r1. stage_act app a r = Some (es, r1) \<and> lru_kept (sr_thread r1)"
  proof (cases a)
    case (Push e)
    then show ?thesis using stage_push_ok [OF Cons.prems(1), of e app] a Cons.prems(2) by (auto simp: lru_kept_def act_fits_def simp del: act_alone.simps)
  next
    case Stop
    then show ?thesis using stage_stop_ok [OF Cons.prems(1), of app] Cons.prems(2) by (auto simp: lru_kept_def)
  next
    case (Step clock)
    obtain r1 where "thread_step app clock r = Some r1" "lru_kept (sr_thread r1)"
      using thread_step_returns [OF assms(2) Cons.prems(2)] by blast
    then show ?thesis using Step by simp
  qed
  then obtain es r1 where r1: "stage_act app a r = Some (es, r1)" "lru_kept (sr_thread r1)" by blast
  then have "sr_inv c r1" "stop_alone app acts r1" using stage_act_refines [OF assms(1) Cons.prems(1) a] Cons.prems(4) by simp_all
  then show ?case using Cons.IH [of r1] Cons.prems(3) r1 by auto
qed simp

section \<open>Steps alone\<close>

definition ev_left :: "event list \<times> event list \<times> place \<times> event list \<Rightarrow> nat" where
  "ev_left s = (case s of (A, S, p, H) \<Rightarrow>
     if p = Ended \<or> A @ S = [] then 0
     else length (A @ S) + (if p \<noteq> At_pop then 1 else if S = [] then 0 else 2))"

lemma ev_step_left: "ev_place s \<Longrightarrow> ev_left (ev_step s) \<le> ev_left s - 1 \<and> ev_place (ev_step s)"
  by (induction s rule: ev_step.induct) (auto simp: ev_left_def ev_place_def)

lemma ev_exec_steps:
  "ev_place s \<Longrightarrow> \<exists>s'. ev_exec cap (map Step clocks) (s, k) = ([], s', k) \<and> ev_left s' \<le> ev_left s - length clocks"
proof (induction clocks arbitrary: s)
  case (Cons clock clocks)
  from Cons.IH [of "ev_step s"] ev_step_left [OF Cons.prems] show ?case by fastforce
qed simp

text \<open>Without a push of \<^verbatim>\<open>stop\<close> under way no step is disturbed.\<close>

lemma steps_alone: "k = 0 \<or> k = 6 \<Longrightarrow> ev_alone cap (map Step clocks) (s, k)"
proof (induction clocks arbitrary: s)
  case (Cons clock clocks)
  then show ?case by (cases s) auto
qed simp

lemma stopping_no: "\<not> stopping r \<longleftrightarrow> stop_no (sr_stop r) = 0 \<or> stop_no (sr_stop r) = 6"
  by (cases "sr_stop r") (auto simp: stopping_def stop_no_def done_push_def split: push_place.splits)

lemma ev_left_bound: "ev_left (A, S, p, H) \<le> length (A @ S) + 2"
  by (simp add: ev_left_def)

lemma ev_done:
  assumes "ev_ok acc (A, S, p, H)" "ev_left (A, S, p, H) = 0"
  shows "H = takeWhile (\<lambda>e. ev_get_type e \<noteq> QUIT_EVENT) acc \<and> (p = Ended \<longleftrightarrow> (\<exists>e \<in> set acc. ev_get_type e = QUIT_EVENT)) \<and>
    (p = Ended \<or> A @ S = [])"
proof (cases "p = Ended")
  case True
  then obtain e where "ev_get_type e = QUIT_EVENT" "acc = H @ e # A @ S" "\<forall>e \<in> set H. ev_get_type e \<noteq> QUIT_EVENT"
    using assms(1) by auto
  then show ?thesis using True by (simp add: takeWhile_append2)
next
  case False
  then have "A @ S = []" using assms(2) by (simp add: ev_left_def split: if_splits)
  then have a: "acc = H" "\<forall>e \<in> set H. ev_get_type e \<noteq> QUIT_EVENT" using assms(1) False by auto
  then have "takeWhile (\<lambda>e. ev_get_type e \<noteq> QUIT_EVENT) acc = acc" by (simp add: takeWhile_eq_all_conv)
  then have "H = takeWhile (\<lambda>e. ev_get_type e \<noteq> QUIT_EVENT) acc" using a(1) by (simp only:)
  moreover have "(p = Ended) = (\<exists>e \<in> set acc. ev_get_type e = QUIT_EVENT)" using False a by simp
  ultimately show ?thesis using \<open>A @ S = []\<close> by (intro conjI disjI2)
qed

section \<open>A thread from its construction\<close>

definition sizes_ok :: "allocator \<Rightarrow> uint \<Rightarrow> uint \<Rightarrow> bool" where
  "sizes_ok h n len \<longleftrightarrow> 0 < n \<and> 16 \<le> unat len \<and> unat n * unat len < 2 ^ 32 \<and> heap_ok h (unat n * unat len)"

lemma start_ok:
  assumes "app_keeps app" "sizes_ok h n len"
  shows "sr_inv (unat n, unat len) (thread_proc_start app clock (sd_new h n len us signal))"
    "sr_abs (thread_proc_start app clock (sd_new h n len us signal)) = (([], [], At_pop, []), 0)"
proof -
  obtain q where q: "eq_init h n len eq_new = (1, q)" "eq_inv (unat n, unat len) q" "eq_elems q = []"
    using eq_init_ok [of n len h eq_new] assms(2) by (auto simp: sizes_ok_def simp del: eq_inv.simps)
  then have t: "sd_active (sd_new h n len us signal) = q" "sd_standby (sd_new h n len us signal) = q"
    by (simp_all add: sd_new_def sd_active_def sd_standby_def)
  show "sr_inv (unat n, unat len) (thread_proc_start app clock (sd_new h n len us signal))"
    "sr_abs (thread_proc_start app clock (sd_new h n len us signal)) = (([], [], At_pop, []), 0)"
    using q t assms(1)
    by (simp_all add: thread_proc_start_def Let_def sr_inv_def sr_abs_def handled_def call_events_def stop_ok_def stopping_def
        stop_no_def del: eq_inv.simps)
qed

lemma start_kept: "app_timers app \<Longrightarrow> lru_kept (sr_thread (thread_proc_start app clock (sd_new h n len us signal)))"
proof -
  assume "app_timers app"
  moreover have "lru_kept (sd_new h n len us signal)" by (simp add: lru_kept_def sd_new_def)
  ultimately show ?thesis by (simp add: thread_proc_start_def Let_def app_timers_def)
qed

lemma start_exec:
  assumes "app_keeps app" "app_timers app" "sizes_ok h n len" "\<forall>a \<in> set acts. act_fits (unat n, unat len) a"
    and "stop_alone app acts (thread_proc_start app clock (sd_new h n len us signal))"
  shows "\<exists>acc r. stage_exec app acts (thread_proc_start app clock (sd_new h n len us signal)) = Some (acc, r) \<and>
    sr_inv (unat n, unat len) r \<and> lru_kept (sr_thread r) \<and> (acc, sr_abs r) = ev_exec (unat n) acts (([], [], At_pop, []), 0) \<and>
    ev_ok acc (fst (sr_abs r)) \<and> ev_place (fst (sr_abs r))"
proof -
  note s = start_ok [OF assms(1,3), of clock us signal]
  obtain acc r where r: "stage_exec app acts (thread_proc_start app clock (sd_new h n len us signal)) = Some (acc, r)"
      "lru_kept (sr_thread r)"
    using stage_exec_returns [OF assms(1,2) s(1) start_kept [OF assms(2)] assms(4,5)] by blast
  have e: "sr_inv (unat n, unat len) r \<and> (acc, sr_abs r) = ev_exec (unat n) acts (([], [], At_pop, []), 0)"
    using stage_exec_refines [OF assms(1) s(1) assms(4,5) r(1)] s(2) by simp
  then have "ev_ok ([] @ acc) (fst (sr_abs r)) \<and> ev_place (fst (sr_abs r))"
    by (intro ev_exec_ok [where s = "(([], [], At_pop, []), 0)" and acts = acts and cap = "unat n"]) (auto simp: ev_place_def)
  then show ?thesis using r e by auto
qed

lemma standby_bound: "sr_inv c r \<Longrightarrow> length (eq_elems (sd_standby (sr_thread r))) \<le> fst c"
proof (cases "sr_stop r")
  case (Some x)
  assume "sr_inv c r"
  then obtain b p q0 where q0: "eq_inv c q0" "pushing (signal_event QUIT_EVENT) p q0 (sd_standby (sr_thread r))"
    using Some by (cases x) (auto simp: sr_inv_def stop_ok_def)
  have "event_fits c (signal_event QUIT_EVENT)" using quit_event_fits(1) inv_slot [OF q0(1)] by (cases c) (simp del: event_fits.simps)
  from pushing_elems [OF q0(1) this q0(2)] show ?thesis using events.bound [OF q0(1)] by simp
qed (use events.bound in \<open>simp add: sr_inv_def stop_ok_def del: eq_elems_length\<close>)

text \<open>C38:
  Events in order.  For a thread whose two queues could be allocated (slots of at least 16 bytes, a pool of less than
  \<open>2 ^ 32\<close> bytes), a handler that leaves the thread's queues to it and its timers alone while one of them expires,
  pushed events that state their length and fit a slot, and any interleaving of \<^verbatim>\<open>push_event\<close>, of the single accesses of
  one \<^verbatim>\<open>stop\<close> after the other and of the steps of the thread, in which no \<^verbatim>\<open>push_event\<close> and no exchange of the queues comes
  between the reading of the pointer and the writing of the size of a \<^verbatim>\<open>stop\<close> (which has no lock; the program does not
  exclude it, and \<open>overlapping_stop_loses_event\<close> is what happens then): every step returns, without an access outside
  the pools.  Which events are accepted and handled is what the two sequences \<open>ev_exec\<close> say: it does not depend on
  which of the four loops runs, on the clock, or on what timers and the handler do.  The accepted events are those
  that the handler has got, in that order, followed by those that still wait; with the end of the thread
  there is exactly one between, the first of type \<^verbatim>\<open>QUIT_EVENT\<close>, which the handler never gets.
\<close>

theorem stage_events_in_order:
  assumes "app_keeps app" "app_timers app" "sizes_ok h n len" "\<forall>a \<in> set acts. act_fits (unat n, unat len) a"
    and "stop_alone app acts (thread_proc_start app clock (sd_new h n len us signal))"
  shows "\<exists>acc r. stage_exec app acts (thread_proc_start app clock (sd_new h n len us signal)) = Some (acc, r) \<and>
    (acc, sr_abs r) = ev_exec (unat n) acts (([], [], At_pop, []), 0) \<and>
    (\<forall>e \<in> set (handled r). ev_get_type e \<noteq> QUIT_EVENT) \<and>
    (if sr_at r = Ended then \<exists>e. ev_get_type e = QUIT_EVENT \<and> acc = handled r @ e # waiting r
     else acc = handled r @ waiting r) \<and>
    length (waiting r) \<le> 2 * unat n"
proof -
  obtain acc r where r: "stage_exec app acts (thread_proc_start app clock (sd_new h n len us signal)) = Some (acc, r)"
      "sr_inv (unat n, unat len) r" "(acc, sr_abs r) = ev_exec (unat n) acts (([], [], At_pop, []), 0)" "ev_ok acc (fst (sr_abs r))"
    using start_exec [OF assms] by blast
  have "length (waiting r) \<le> 2 * unat n"
    using r(2) events.bound [of "(unat n, unat len)" "sd_active (sr_thread r)"] standby_bound [OF r(2)]
    by (simp add: sr_inv_def waiting_def del: eq_inv.simps)
  moreover have "\<forall>e \<in> set (handled r). ev_get_type e \<noteq> QUIT_EVENT" using r(4) by (simp add: sr_abs_def)
  moreover have "if sr_at r = Ended then \<exists>e. ev_get_type e = QUIT_EVENT \<and> acc = handled r @ e # waiting r
     else acc = handled r @ waiting r"
    using r(4) by (simp add: sr_abs_def waiting_def)
  ultimately show ?thesis using r(1,3) by blast
qed

definition demo_app :: thread_app where
  "demo_app c t =
     (case c of
        Call_open \<Rightarrow> snd (sd_enable_idle_event True (snd (sd_enable_lru_timers [(100, 2)] t)))
      | _ \<Rightarrow> t)"

definition all_heap :: allocator where
  "all_heap = \<lparr>heap_ok = \<lambda>_. True, heap_junk = \<lambda>_. 0\<rparr>"

lemma kept_lru_init: "kept (lru_init n i handler slot q)"
proof -
  have "holds (tq_init n handler q) [0..<unat n] []" using init_inv [of n handler q] by (simp add: tq_inv_def)
  then have "holds (lru_init n i handler slot q) [0..<unat n] []" by (simp add: holds_def tq_init_def lru_init_def)
  then show ?thesis unfolding kept_def by blast
qed

lemma demo_app_ok: "app_keeps demo_app" "app_timers demo_app"
  by (auto simp: app_keeps_def app_timers_def demo_app_def sd_enable_idle_event_def sd_enable_lru_timers_def lru_kept_def
      least_interval_def kept_lru_init Let_def split: seda_call.splits)

lemma demo_sizes: "sizes_ok all_heap 4 64"
  by (simp add: sizes_ok_def all_heap_def)

lemma demo_events: "ev_get_type (signal_event 7) = 7" "ev_get_type (signal_event 8) = 8" "ev_get_type (signal_event 9) = 9"
  "event_fits (4, 64) (signal_event 7)" "event_fits (4, 64) (signal_event 8)" "event_fits (4, 64) (signal_event 9)"
  by (simp_all add: signal_event_def seda_event_def ev_get_len_def ev_get_type_def le_word_le_bytes to_uint_def)

lemma start_alone:
  assumes "app_keeps app" "sizes_ok h n len" "\<forall>a \<in> set acts. act_fits (unat n, unat len) a"
    and "ev_alone (unat n) acts (([], [], At_pop, []), 0)"
  shows "stop_alone app acts (thread_proc_start app clock (sd_new h n len us signal))"
  by (rule stop_alone_abs [OF assms(1) start_ok(1) [OF assms(1,2)] assms(3)]) (use assms(4) in \<open>simp add: start_ok(2) [OF assms(1,2)]\<close>)

text \<open>Here the thread handles an event between the accesses of the \<^verbatim>\<open>stop\<close>.\<close>

theorem stage_events_in_order_witness:
  "\<exists>r. stage_exec demo_app ([Push (signal_event 7), Step 5, Step 6, Push (signal_event 8), Stop, Stop, Stop, Step 7, Stop, Stop, Stop, Stop,
      Push (signal_event 9)] @ map Step [8, 9, 10, 11, 12]) (thread_proc_start demo_app 0 (sd_new all_heap 4 64 1000 True)) =
    Some ([signal_event 7, signal_event 8, signal_event QUIT_EVENT, signal_event 9], r) \<and>
    sr_at r = Ended \<and> handled r = [signal_event 7, signal_event 8]"
proof -
  let ?acts = "[Push (signal_event 7), Step 5, Step 6, Push (signal_event 8), Stop, Stop, Stop, Step 7, Stop, Stop, Stop, Stop,
      Push (signal_event 9)] @ map Step [8, 9, 10, 11, 12]"
  have f: "\<forall>a \<in> set ?acts. act_fits (unat (4 :: uint), unat (64 :: uint)) a"
    using demo_events(4-6) by (simp add: act_fits_def)
  have al: "stop_alone demo_app ?acts (thread_proc_start demo_app 0 (sd_new all_heap 4 64 1000 True))"
    by (rule start_alone [OF demo_app_ok(1) demo_sizes f]) (use demo_events(1-3) quit_event_fits(2) in \<open>simp add: ev_push_def QUIT_EVENT_def\<close>)
  show ?thesis
    using stage_events_in_order [OF demo_app_ok demo_sizes f al] demo_events(1-3) quit_event_fits(2)
    by (auto simp: ev_push_def sr_abs_def QUIT_EVENT_def)
qed

text \<open>C39:
  Every accepted event is handled.  Under the conditions of the events in order (queues that could be allocated, a handler
  that leaves the queues to the thread and its timers alone while one expires, events that fit a slot, and no
  \<^verbatim>\<open>push_event\<close> or exchange of the queues between the accesses of a \<^verbatim>\<open>stop\<close>): after any such interleaving that ends with no
  push of a \<^verbatim>\<open>stop\<close> under way, two more steps than there are events
  waiting are enough, if nothing is pushed meanwhile and whatever the clock shows: the handler has then got all the accepted events up to
  the first \<^verbatim>\<open>QUIT_EVENT\<close>; the thread has ended exactly if there is one, and otherwise nothing waits.
\<close>

theorem stage_events_handled:
  assumes "app_keeps app" "app_timers app" "sizes_ok h n len" "\<forall>a \<in> set acts. act_fits (unat n, unat len) a"
    and "stop_alone app acts (thread_proc_start app clock (sd_new h n len us signal))"
    and "stage_exec app acts (thread_proc_start app clock (sd_new h n len us signal)) = Some (acc, r)"
    and "\<not> stopping r" "length (waiting r) + 2 \<le> length clocks"
  shows "\<exists>r'. stage_exec app (map Step clocks) r = Some ([], r') \<and>
    handled r' = takeWhile (\<lambda>e. ev_get_type e \<noteq> QUIT_EVENT) acc \<and>
    (sr_at r' = Ended \<longleftrightarrow> (\<exists>e \<in> set acc. ev_get_type e = QUIT_EVENT)) \<and> (sr_at r' = Ended \<or> waiting r' = [])"
proof -
  let ?c = "(unat n, unat len)"
  have r: "sr_inv ?c r" "lru_kept (sr_thread r)" "ev_ok acc (fst (sr_abs r))" "ev_place (fst (sr_abs r))"
    using start_exec [OF assms(1-5)] assms(6) by auto
  obtain s k where s: "sr_abs r = (s, k)" "k = 0 \<or> k = 6" using assms(7) by (auto simp: sr_abs_def stopping_no)
  have f: "\<forall>a \<in> set (map Step clocks). act_fits ?c a" by (simp add: act_fits_def)
  have al: "stop_alone app (map Step clocks) r"
    by (rule stop_alone_abs [OF assms(1) r(1) f]) (use steps_alone s in simp)
  obtain es r' where r': "stage_exec app (map Step clocks) r = Some (es, r')"
    using stage_exec_returns [OF assms(1,2) r(1,2) f al] by blast
  have e: "(es, sr_abs r') = ev_exec (unat n) (map Step clocks) (sr_abs r)"
    using stage_exec_refines [OF assms(1) r(1) f al r'] by simp
  then have ok: "ev_ok (acc @ es) (fst (sr_abs r'))" using ev_exec_ok [OF r(3,4), of "unat n" "map Step clocks"] by auto
  have w: "ev_left s \<le> length clocks"
    using le_trans [OF ev_left_bound, of "eq_elems (sd_active (sr_thread r))" "eq_elems (sd_standby (sr_thread r))" "length clocks" "sr_at r" "handled r"]
      assms(8) s(1) by (simp add: sr_abs_def waiting_def)
  obtain s' where s': "ev_exec (unat n) (map Step clocks) (s, k) = ([], s', k)" "ev_left s' \<le> ev_left s - length clocks"
    using ev_exec_steps [of s "unat n" clocks k] r(4) s(1) by auto
  then have "es = []" "ev_left (fst (sr_abs r')) = 0" using e w s(1) by auto
  then show ?thesis using ev_done [of acc] ok r' by (auto simp: sr_abs_def waiting_def)
qed

theorem stage_events_handled_witness:
  "\<exists>r r'. stage_exec demo_app [Push (signal_event 7), Push (signal_event 8)]
      (thread_proc_start demo_app 0 (sd_new all_heap 4 64 1000 True)) = Some ([signal_event 7, signal_event 8], r) \<and>
    handled r = [] \<and> stage_exec demo_app (map Step [1, 2, 3, 4]) r = Some ([], r') \<and>
    handled r' = [signal_event 7, signal_event 8] \<and> waiting r' = []"
proof -
  let ?acts = "[Push (signal_event 7), Push (signal_event 8)]"
  have f: "\<forall>a \<in> set ?acts. act_fits (unat (4 :: uint), unat (64 :: uint)) a"
    using demo_events(4,5) by (simp add: act_fits_def)
  have al: "stop_alone demo_app ?acts (thread_proc_start demo_app 0 (sd_new all_heap 4 64 1000 True))"
    by (rule start_alone [OF demo_app_ok(1) demo_sizes f]) (simp add: ev_push_def)
  obtain acc r where r: "stage_exec demo_app ?acts (thread_proc_start demo_app 0 (sd_new all_heap 4 64 1000 True)) = Some (acc, r)"
      "(acc, sr_abs r) = ev_exec (unat (4 :: uint)) ?acts (([], [], At_pop, []), 0)"
    using start_exec [OF demo_app_ok demo_sizes f al] by blast
  then have a: "acc = [signal_event 7, signal_event 8]" "handled r = []" "waiting r = acc" "\<not> stopping r"
    by (auto simp: ev_push_def sr_abs_def waiting_def stopping_no)
  show ?thesis
    using stage_events_handled [OF demo_app_ok demo_sizes f al r(1) a(4), of "[1, 2, 3, 4]"] r(1) a demo_events(1,2)
    by (auto simp: QUIT_EVENT_def)
qed

section \<open>A lost quit event\<close>

text \<open>
  \<^verbatim>\<open>stop\<close> ignores the answer of \<^verbatim>\<open>push\<close>: with a full standby queue it leaves the thread as it is, and the
  thread, of which \<^verbatim>\<open>join\<close> then waits for the end, goes on for ever.
\<close>

lemma stop_lost_when_full:
  assumes "sr_stop r = None" "eq_inv c (sd_standby (sr_thread r))" "length (eq_elems (sd_standby (sr_thread r))) = fst c"
  shows "stage_exec app [Stop, Stop, Stop] r = Some ([], r)"
proof -
  have "\<not> eq_size (sd_standby (sr_thread r)) < eq_capacity (sd_standby (sr_thread r))"
    using assms(2,3) by (cases c) (simp add: word_less_nat_alt)
  moreover have "put_standby_of (sd_swapped t) (sd_standby t) t = t" for t
    by (simp add: put_standby_of_def sd_standby_def)
  ultimately show ?thesis using assms(1) by (simp add: sd_stop_def done_push_def stores_def)
qed

text \<open>
  \<^verbatim>\<open>stop\<close> has no lock: the first run has a whole \<^verbatim>\<open>push_event\<close> between its reading and its writing of the size, and the second
  one an exchange of the queues after it has read the pointer.  Both events are accepted; in the first run one event is
  left in the queue, the quit event, behind which the index has moved on twice; in the second the quit event
  is in the queue the thread is popping from.
\<close>

lemma overlapping_stop_loses_event:
  "map_option (\<lambda>(acc, r). (map ev_get_type acc, map ev_get_type (eq_elems (sd_standby (sr_thread r))), eq_write (sd_standby (sr_thread r))))
     (stage_exec (\<lambda>c t. t) [Stop, Stop, Stop, Stop, Stop, Push (signal_event 7), Stop]
       (thread_proc_start (\<lambda>c t. t) 0 (sd_new all_heap 4 16 1000 True))) = Some ([7, 0], [0], 32)"
  "map_option (\<lambda>(acc, r). (map ev_get_type acc, sr_at r, map ev_get_type (eq_elems (sd_active (sr_thread r)))))
     (stage_exec (\<lambda>c t. t) [Push (signal_event 7), Stop, Step 1, Step 2, Stop, Stop, Stop, Stop, Stop]
       (thread_proc_start (\<lambda>c t. t) 0 (sd_new all_heap 4 16 1000 True))) = Some ([7, 0], At_pop, [7, 0])"
  by code_simp+

end
