(* ===== verification/SL_SedaStage.thy ===== *)
theory SL_SedaStage
  imports SL_SedaThread "HOL-Library.Multiset"
begin

text \<open>
  The stages.  \<^verbatim>\<open>SL_Seda_Stage\<close> gives every event to one of its threads, in turn or by number.
  \<^verbatim>\<open>SL_Seda_Stage2\<close> keeps the events in queues that its threads share: a thread of
  \<^verbatim>\<open>SL_Seda_StageThread2\<close> fills its own small queue from them when that is empty.  The two shared queues
  have a lock each, so other threads get between a thread's look at one and at the other.  A thread's own queue has
  none: \<^verbatim>\<open>stop\<close>, which pushes there from another thread, is cut into its single accesses, and what a thread does with an
  event into taking its address, which gives the slot back, and reading the event there.
\<close>

section \<open>A stage with a queue per thread\<close>

text \<open>The choice of the thread and the new \<^verbatim>\<open>next_thread_index_\<close>.\<close>

definition sg_index :: "int \<Rightarrow> int \<Rightarrow> int \<Rightarrow> int \<times> int" where
  "sg_index thread_size thread_index next_index =
     (if thread_size < 2 then (0, next_index)
      else if thread_index < 0 \<or> thread_size \<le> thread_index
      then let thread_index = next_index; next_index = next_index + 1
           in if thread_size \<le> thread_index
              then (thread_index - thread_size, thread_index - thread_size + 1)
              else (thread_index, next_index)
      else (thread_index, next_index))"

record stage =
  sg_threads :: "thread_run list"
  sg_next :: int
  sg_type :: int
  sg_wait_us :: uint

definition sg_new :: stage where
  "sg_new = \<lparr>sg_threads = [], sg_next = 0, sg_type = 0, sg_wait_us = 1000\<rparr>"

definition sg_open :: "thread_app \<Rightarrow> uint64 \<Rightarrow> allocator \<Rightarrow> uint \<Rightarrow> uint \<Rightarrow> uint \<Rightarrow> uint \<Rightarrow> bool \<Rightarrow> int \<Rightarrow> stage \<Rightarrow> int \<times> stage" where
  "sg_open app clock h thread_number queue_max_size slot_len wait_us wait_signal type s =
     (let thread_number = (if thread_number < 1 then 1 else thread_number)
      in (0, s\<lparr>sg_type := type, sg_wait_us := wait_us,
           sg_threads := sg_threads s @ replicate (unat thread_number)
             (thread_proc_start app clock (sd_new h queue_max_size slot_len wait_us wait_signal))\<rparr>))"

definition sg_push_event :: "event \<Rightarrow> int \<Rightarrow> stage \<Rightarrow> (int \<times> stage) option" where
  "sg_push_event e thread_index s =
     (let (i, next_index) = sg_index (int (length (sg_threads s))) thread_index (sg_next s);
          s = s\<lparr>sg_next := next_index\<rparr>
      in do {
        r \<leftarrow> arr_get (sg_threads s) (nat i);
        (ret, signalled, t) \<leftarrow> sd_push_event e (sr_thread r);
        Some (if ret < 0 then - 1 else i, s\<lparr>sg_threads := (sg_threads s)[nat i := r\<lparr>sr_thread := t\<rparr>]\<rparr>) })"

text \<open>
  \<^verbatim>\<open>close\<close>: every thread is told to stop and joined, one after the other.  What happens to each until then is given, the
  accesses of its \<^verbatim>\<open>stop\<close> among it; \<open>None\<close> is a \<^verbatim>\<open>stop\<close> that has not returned, or a \<^verbatim>\<open>join\<close> of a thread that has not
  ended with that.
\<close>

fun sg_join :: "thread_app \<Rightarrow> stage_action list list \<Rightarrow> thread_run list \<Rightarrow> thread_run list option" where
  "sg_join app (acts # actss) (r # rs) = do {
     (es, r) \<leftarrow> stage_exec app acts r;
     rs \<leftarrow> sg_join app actss rs;
     if Stop \<in> set acts \<and> sr_stop r = None \<and> sr_at r = Ended then Some (r # rs) else None }"
| "sg_join app actss [] = Some []"
| "sg_join app [] (r # rs) = None"

definition sg_close :: "thread_app \<Rightarrow> stage_action list list \<Rightarrow> stage \<Rightarrow> (thread_run list \<times> stage) option" where
  "sg_close app actss s = do { rs \<leftarrow> sg_join app actss (sg_threads s); Some (rs, s\<lparr>sg_threads := []\<rparr>) }"

text \<open>The thread is one of the stage's, and pushes without a number go around.\<close>

lemma sg_index_range:
  assumes "0 < n" "0 \<le> next_index" "next_index \<le> n"
  shows "0 \<le> fst (sg_index n i next_index) \<and> fst (sg_index n i next_index) < n \<and>
    0 \<le> snd (sg_index n i next_index) \<and> snd (sg_index n i next_index) \<le> n"
  using assms by (auto simp: sg_index_def Let_def)

fun sg_spread :: "nat \<Rightarrow> int \<Rightarrow> int \<Rightarrow> int list" where
  "sg_spread 0 n next_index = []"
| "sg_spread (Suc k) n next_index = (let (i, next_index) = sg_index n (- 1) next_index in i # sg_spread k n next_index)"

lemma sg_spread_round:
  assumes "2 \<le> n" "0 \<le> x" "x \<le> n"
  shows "sg_spread k n x = map (\<lambda>j. (x + int j) mod n) [0..<k]"
  using assms(2,3)
proof (induction k arbitrary: x)
  case (Suc k)
  have m: "map (\<lambda>j. (x + int j) mod n) [0..<Suc k] = x mod n # map (\<lambda>j. (x + 1 + int j) mod n) [0..<k]"
    unfolding map_upt_Suc by (simp add: ac_simps)
  show ?case
  proof (cases "x = n")
    case True
    have "sg_spread k n 1 = map (\<lambda>j. (1 + int j) mod n) [0..<k]" using Suc.IH [of 1] assms(1) by simp
    moreover have "(1 + int j) mod n = (n + 1 + int j) mod n" for j by (metis add.assoc mod_add_self1)
    ultimately show ?thesis unfolding m using True assms(1) by (simp add: sg_index_def Let_def)
  next
    case False
    then have "sg_spread k n (x + 1) = map (\<lambda>j. (x + 1 + int j) mod n) [0..<k]" using Suc.IH [of "x + 1"] Suc.prems by simp
    then show ?thesis unfolding m using False assms(1) Suc.prems by (simp add: sg_index_def Let_def)
  qed
qed simp

section \<open>Threads that share their queues\<close>

record stage_thread2 = stage_base +
  td_queue :: event_queue

text \<open>
  A thread pops in its loop, which gives it the address of an event in its queue, and then looks at the event there; with an
  empty queue it takes from the high queue, then from the low one, and looks then whether it is idle.
\<close>

datatype place2 = In_loop | In_hand nat | At_high | At_low | At_rest | Gone

type_synonym thread2_app = "stage_thread2 stage_app"
type_synonym thread2_run = "(stage_thread2, place2) stage_run"

definition sd2_new :: "allocator \<Rightarrow> uint \<Rightarrow> uint \<Rightarrow> stage_thread2" where
  "sd2_new h queue_max_size slot_len =
     \<lparr>sd_idle_flag = False, sd_idle_interval = SOCKETLITE_SEDA_DEFAULT_IDLE_INTERVAL,
      sd_timer_flag = False, sd_timer_min = SOCKETLITE_SEDA_DEFAULT_IDLE_INTERVAL, sd_timers = timers_new, sd_lru = [],
      td_queue = snd (eq_init h queue_max_size slot_len eq_new)\<rparr>"

definition sd2_push_event :: "event \<Rightarrow> stage_thread2 \<Rightarrow> int \<times> stage_thread2" where
  "sd2_push_event e t = (0, t)"

definition thread2_proc_start :: "thread2_app \<Rightarrow> uint64 \<Rightarrow> stage_thread2 \<Rightarrow> thread2_run" where
  "thread2_proc_start app clock t =
     (let t = app Call_open t
      in \<lparr>sr_thread = t, sr_at = In_loop, sr_idle_last = clock, sr_count = 0, sr_idle_interval = sd_idle_interval t,
          sr_idle = sd_idle_flag t, sr_timer = sd_timer_flag t, sr_wait_us = 0, sr_log = [Call_open],
          sr_stop = None\<rparr>)"

definition put_queue :: "event_queue \<Rightarrow> thread2_run \<Rightarrow> thread2_run" where
  "put_queue q r = r\<lparr>sr_thread := (sr_thread r)\<lparr>td_queue := q\<rparr>\<rparr>"

text \<open>The next access of another thread in \<^verbatim>\<open>stop\<close>, which pushes onto the thread's own queue without a lock.\<close>

definition sd2_stop :: "thread2_run \<Rightarrow> (event list \<times> thread2_run) option" where
  "sd2_stop r =
     (case sr_stop r of
        None \<Rightarrow> Some ([], r\<lparr>sr_stop := Some (False, Push_test)\<rparr>)
      | Some (b, p) \<Rightarrow>
          if done_push p then Some ([], r\<lparr>sr_stop := None\<rparr>)
          else do {
            (p', q) \<leftarrow> eq_push_step (signal_event QUIT_EVENT) p (td_queue (sr_thread r));
            Some (if stores p then [signal_event QUIT_EVENT] else [], (put_queue q r)\<lparr>sr_stop := Some (b, p')\<rparr>) })"

definition sr2_pop :: "thread2_run \<Rightarrow> nat option \<times> thread2_run" where
  "sr2_pop r = (let (p, q) = eq_pop (td_queue (sr_thread r)) in (p, put_queue q r))"

definition sr2_quit :: "thread2_app \<Rightarrow> thread2_run \<Rightarrow> thread2_run" where
  "sr2_quit app r = (sr_call app Call_close r)\<lparr>sr_at := Gone\<rparr>"

text \<open>
  The four loops up to the call of \<^verbatim>\<open>pop_event\<close> of the stage, and what follows it.  A popped event is read at its address when
  the thread looks at its type and handles it.
\<close>

definition loop2_plain :: "thread2_app \<Rightarrow> uint64 \<Rightarrow> thread2_run \<Rightarrow> thread2_run option" where
  "loop2_plain app clock r =
     (case sr2_pop r of
        (Some p, r) \<Rightarrow> Some (r\<lparr>sr_at := In_hand p\<rparr>)
      | (None, r) \<Rightarrow> Some (r\<lparr>sr_at := At_high\<rparr>))"

definition hand2_plain :: "thread2_app \<Rightarrow> uint64 \<Rightarrow> nat \<Rightarrow> thread2_run \<Rightarrow> thread2_run option" where
  "hand2_plain app clock p r =
     (let e = event_at (td_queue (sr_thread r)) p
      in if ev_get_type e \<noteq> QUIT_EVENT then Some ((sr_call app (Call_event e) r)\<lparr>sr_at := In_loop\<rparr>)
         else Some (sr2_quit app r))"

definition rest2_idle :: "thread2_app \<Rightarrow> uint64 \<Rightarrow> thread2_run \<Rightarrow> thread2_run option" where
  "rest2_idle app clock r =
     (if eq_empty (td_queue (sr_thread r)) then Some (sr_idle_check app clock r) else Some r)"

definition loop2_timer :: "thread2_app \<Rightarrow> uint64 \<Rightarrow> thread2_run \<Rightarrow> thread2_run option" where
  "loop2_timer app clock r =
     (case sr2_pop r of
        (Some p, r) \<Rightarrow> Some (r\<lparr>sr_at := In_hand p\<rparr>)
      | (None, r) \<Rightarrow> do {
          r \<leftarrow> sr_check_timers app clock r;
          Some (r\<lparr>sr_count := 0, sr_at := At_high\<rparr>) })"

definition hand2_timer :: "thread2_app \<Rightarrow> uint64 \<Rightarrow> nat \<Rightarrow> thread2_run \<Rightarrow> thread2_run option" where
  "hand2_timer app clock p r =
     (let e = event_at (td_queue (sr_thread r)) p
      in if ev_get_type e \<noteq> QUIT_EVENT
         then do { r \<leftarrow> sr_count_event app clock (sr_call app (Call_event e) r); Some (r\<lparr>sr_at := In_loop\<rparr>) }
         else Some (sr2_quit app r))"

definition loop2_both :: "thread2_app \<Rightarrow> uint64 \<Rightarrow> thread2_run \<Rightarrow> thread2_run option" where
  "loop2_both app clock r =
     (case sr2_pop r of
        (Some p, r) \<Rightarrow> Some (r\<lparr>sr_at := In_hand p\<rparr>)
      | (None, r) \<Rightarrow> Some (r\<lparr>sr_at := At_high\<rparr>))"

definition rest2_both :: "thread2_app \<Rightarrow> uint64 \<Rightarrow> thread2_run \<Rightarrow> thread2_run option" where
  "rest2_both app clock r =
     (if eq_empty (td_queue (sr_thread r))
      then do {
        r \<leftarrow> sr_check_timers app clock r;
        Some (sr_idle_check app clock (r\<lparr>sr_count := 0\<rparr>)) }
      else Some r)"

definition thread2_loop :: "thread2_app \<Rightarrow> uint64 \<Rightarrow> thread2_run \<Rightarrow> thread2_run option" where
  "thread2_loop app clock r =
     (if \<not> sr_timer r then loop2_plain app clock r
      else if \<not> sr_idle r then loop2_timer app clock r else loop2_both app clock r)"

definition thread2_hand :: "thread2_app \<Rightarrow> uint64 \<Rightarrow> nat \<Rightarrow> thread2_run \<Rightarrow> thread2_run option" where
  "thread2_hand app clock p r = (if \<not> sr_timer r then hand2_plain app clock p r else hand2_timer app clock p r)"

definition thread2_rest :: "thread2_app \<Rightarrow> uint64 \<Rightarrow> thread2_run \<Rightarrow> thread2_run option" where
  "thread2_rest app clock r =
     (if \<not> sr_idle r then Some r else if \<not> sr_timer r then rest2_idle app clock r else rest2_both app clock r)"

section \<open>The stage with shared queues\<close>

definition HIGH_PRIORITY :: int where "HIGH_PRIORITY = 2"

record stage2 =
  s2_high :: event_queue
  s2_low :: event_queue
  s2_is_priority :: bool
  s2_signal :: bool
  s2_wait_us :: uint
  s2_type :: int
  s2_batch :: uint
  s2_threads :: "thread2_run list"

definition s2_new :: stage2 where
  "s2_new = \<lparr>s2_high = eq_new, s2_low = eq_new, s2_is_priority = False, s2_signal = True, s2_wait_us = 1000, s2_type = 0,
     s2_batch = 2, s2_threads = []\<rparr>"

definition s2_open :: "thread2_app \<Rightarrow> uint64 \<Rightarrow> allocator \<Rightarrow> uint \<Rightarrow> uint \<Rightarrow> uint \<Rightarrow> uint \<Rightarrow> bool \<Rightarrow> int \<Rightarrow> uint \<Rightarrow> bool \<Rightarrow>
    stage2 \<Rightarrow> int \<times> stage2" where
  "s2_open app clock h thread_number queue_max_size slot_len wait_us wait_signal type batch_size is_priority s =
     (let thread_number = (if thread_number < 1 then 1 else thread_number);
          batch_size = (if batch_size < 1 then 1 else batch_size);
          s = s\<lparr>s2_wait_us := wait_us, s2_signal := wait_signal, s2_type := type, s2_batch := batch_size,
                s2_is_priority := is_priority, s2_low := snd (eq_init h queue_max_size slot_len (s2_low s))\<rparr>;
          s = (if is_priority then s\<lparr>s2_high := snd (eq_init h queue_max_size slot_len (s2_high s))\<rparr> else s)
      in (0, s\<lparr>s2_threads := s2_threads s @ replicate (unat thread_number)
               (thread2_proc_start app clock (sd2_new h batch_size slot_len))\<rparr>))"

definition s2_push_event :: "event \<Rightarrow> int \<Rightarrow> stage2 \<Rightarrow> (int \<times> bool \<times> stage2) option" where
  "s2_push_event e priority s = do {
     (ret, s) \<leftarrow>
       (if s2_is_priority s \<and> priority = HIGH_PRIORITY
        then do { (ret, q) \<leftarrow> eq_push e (s2_high s); Some (ret, s\<lparr>s2_high := q\<rparr>) }
        else do { (ret, q) \<leftarrow> eq_push e (s2_low s); Some (ret, s\<lparr>s2_low := q\<rparr>) });
     Some (ret, s2_signal s \<and> ret = 1, s) }"

text \<open>\<^verbatim>\<open>pop_event\<close>: the section of each lock; the wait of a thread with nothing to do has no effect on the state.\<close>

definition s2_pop_high :: "event_queue \<Rightarrow> stage2 \<Rightarrow> (event_queue \<times> stage2) option" where
  "s2_pop_high p s =
     (if s2_is_priority s
      then do { (ret, q, p) \<leftarrow> eq_pop_into (s2_high s) p; Some (p, s\<lparr>s2_high := q\<rparr>) }
      else Some (p, s))"

definition s2_pop_low :: "event_queue \<Rightarrow> stage2 \<Rightarrow> (event_queue \<times> stage2) option" where
  "s2_pop_low p s = do { (ret, q, p) \<leftarrow> eq_pop_into (s2_low s) p; Some (p, s\<lparr>s2_low := q\<rparr>) }"

definition s2_get_event_count :: "stage2 \<Rightarrow> int" where
  "s2_get_event_count s = sint (eq_size (s2_high s) + eq_size (s2_low s))"

definition thread2_step :: "thread2_app \<Rightarrow> uint64 \<Rightarrow> thread2_run \<Rightarrow> stage2 \<Rightarrow> (thread2_run \<times> stage2) option" where
  "thread2_step app clock r s =
     (case sr_at r of
        In_loop \<Rightarrow> do { r \<leftarrow> thread2_loop app clock r; Some (r, s) }
      | In_hand p \<Rightarrow> do { r \<leftarrow> thread2_hand app clock p r; Some (r, s) }
      | At_high \<Rightarrow> do {
          (p, s) \<leftarrow> s2_pop_high (td_queue (sr_thread r)) s;
          Some ((put_queue p r)\<lparr>sr_at := At_low\<rparr>, s) }
      | At_low \<Rightarrow> do {
          (p, s) \<leftarrow> s2_pop_low (td_queue (sr_thread r)) s;
          Some ((put_queue p r)\<lparr>sr_at := At_rest\<rparr>, s) }
      | At_rest \<Rightarrow> do { r \<leftarrow> thread2_rest app clock r; Some (r\<lparr>sr_at := In_loop\<rparr>, s) }
      | Gone \<Rightarrow> Some (r, s))"

text \<open>
  What may happen, in any order: a push by anyone, an access of the \<^verbatim>\<open>stop\<close> of a thread by the one that closes the stage, a
  step of a thread.  The result lists the accepted events.
\<close>

datatype stage2_action = Push2 event int | Stop2 nat | Step2 nat uint64

definition set_thread :: "nat \<Rightarrow> thread2_run \<Rightarrow> stage2 \<Rightarrow> stage2" where
  "set_thread i r s = s\<lparr>s2_threads := (s2_threads s)[i := r]\<rparr>"

fun s2_act :: "thread2_app \<Rightarrow> stage2_action \<Rightarrow> stage2 \<Rightarrow> (event list \<times> stage2) option" where
  "s2_act app (Push2 e priority) s = do {
     (ret, signalled, s) \<leftarrow> s2_push_event e priority s;
     Some (if ret < 0 then [] else [e], s) }"
| "s2_act app (Stop2 i) s = do {
     r \<leftarrow> arr_get (s2_threads s) i;
     (es, r) \<leftarrow> sd2_stop r;
     Some (es, set_thread i r s) }"
| "s2_act app (Step2 i clock) s = do {
     r \<leftarrow> arr_get (s2_threads s) i;
     (r, s) \<leftarrow> thread2_step app clock r s;
     Some ([], set_thread i r s) }"

fun s2_exec :: "thread2_app \<Rightarrow> stage2_action list \<Rightarrow> stage2 \<Rightarrow> (event list \<times> stage2) option" where
  "s2_exec app [] s = Some ([], s)"
| "s2_exec app (a # as) s = do {
     (es, s) \<leftarrow> s2_act app a s;
     (es', s) \<leftarrow> s2_exec app as s;
     Some (es @ es', s) }"

text \<open>
  While the push of a \<^verbatim>\<open>stop\<close> is under way, its thread would get in its way by popping from its queue or filling it; and a copy
  into the slot of the event that the thread has in hand replaces that event.
\<close>

fun act2_alone :: "stage2_action \<Rightarrow> stage2 \<Rightarrow> bool" where
  "act2_alone (Push2 e priority) s \<longleftrightarrow> True"
| "act2_alone (Stop2 i) s \<longleftrightarrow>
     (case arr_get (s2_threads s) i of
        None \<Rightarrow> True
      | Some r \<Rightarrow> (case sr_stop r of
          None \<Rightarrow> True
        | Some (b, p) \<Rightarrow> p = Push_copy \<longrightarrow> sr_at r \<noteq> In_hand (eq_write (td_queue (sr_thread r)))))"
| "act2_alone (Step2 i clock) s \<longleftrightarrow>
     (case arr_get (s2_threads s) i of
        None \<Rightarrow> True
      | Some r \<Rightarrow> \<not> stopping r \<or>
          (sr_at r \<noteq> At_high \<and> sr_at r \<noteq> At_low \<and> (sr_at r = In_loop \<longrightarrow> eq_empty (td_queue (sr_thread r)))))"

fun s2_alone :: "thread2_app \<Rightarrow> stage2_action list \<Rightarrow> stage2 \<Rightarrow> bool" where
  "s2_alone app [] s \<longleftrightarrow> True"
| "s2_alone app (a # as) s \<longleftrightarrow> act2_alone a s \<and>
     (case s2_act app a s of None \<Rightarrow> True | Some (es, s) \<Rightarrow> s2_alone app as s)"

text \<open>
  \<^verbatim>\<open>close\<close> stops and joins the threads one after the other; what happens meanwhile is given, the accesses of the \<^verbatim>\<open>stop\<close> among
  it.  \<open>None\<close> is again a \<^verbatim>\<open>stop\<close> or a \<^verbatim>\<open>join\<close> that has not returned.
\<close>

fun s2_join :: "thread2_app \<Rightarrow> nat \<Rightarrow> stage2_action list list \<Rightarrow> stage2 \<Rightarrow> (event list \<times> stage2) option" where
  "s2_join app i [] s = Some ([], s)"
| "s2_join app i (acts # rest) s = do {
     (es, s) \<leftarrow> s2_exec app acts s;
     r \<leftarrow> arr_get (s2_threads s) i;
     if Stop2 i \<in> set acts \<and> sr_stop r = None \<and> sr_at r = Gone
     then do { (es', s) \<leftarrow> s2_join app (Suc i) rest s; Some (es @ es', s) }
     else None }"

definition s2_close :: "thread2_app \<Rightarrow> stage2_action list list \<Rightarrow> stage2 \<Rightarrow> (event list \<times> stage2) option" where
  "s2_close app actss s =
     (if length actss = length (s2_threads s)
      then do { (es, s) \<leftarrow> s2_join app 0 actss s; Some (es, s\<lparr>s2_threads := []\<rparr>) }
      else None)"

section \<open>What a step of a thread does with the events\<close>

definition app2_keeps :: "thread2_app \<Rightarrow> bool" where
  "app2_keeps app \<longleftrightarrow> (\<forall>c t. td_queue (app c t) = td_queue t)"

definition view2 :: "thread2_run \<Rightarrow> event_queue \<times> place2 \<times> event list \<times> bool \<times> bool \<times> (bool \<times> push_place) option" where
  "view2 r = (td_queue (sr_thread r), sr_at r, handled r, sr_idle r, sr_timer r, sr_stop r)"

lemma view2_call:
  "app2_keeps app \<Longrightarrow> view2 (sr_call app c r) = (td_queue (sr_thread r), sr_at r, handled r @ call_events c, sr_idle r, sr_timer r,
    sr_stop r)"
  by (simp add: view2_def sr_call_def handled_def app2_keeps_def)

lemma view2_upd [simp]:
  "view2 (r\<lparr>sr_count := n\<rparr>) = view2 r" "view2 (r\<lparr>sr_idle_last := u\<rparr>) = view2 r"
  "view2 (r\<lparr>sr_thread := put_lru i q (sr_thread r)\<rparr>) = view2 r"
  by (simp_all add: view2_def handled_def put_lru_def)

lemma view2_at: "view2 r = view2 r' \<Longrightarrow> view2 (r\<lparr>sr_at := p\<rparr>) = view2 (r'\<lparr>sr_at := p\<rparr>)"
  by (simp add: view2_def handled_def)

lemma check_timers_view2:
  assumes "app2_keeps app" "sr_check_timers app clock r = Some r'"
  shows "view2 r' = view2 r"
proof (rule expire_managers_keeps [OF _ _ assms(2) [unfolded sr_check_timers_def], where P = "\<lambda>u. view2 u = view2 r"])
  fix slot t u assume "view2 u = view2 r"
  moreover have "view2 (sr_call app (Call_expire slot t) u) = view2 u"
    using view2_call [OF assms(1)] by (simp add: call_events_def) (simp add: view2_def)
  ultimately show "view2 (sr_call app (Call_expire slot t) u) = view2 r" by simp
qed simp_all

lemma idle_check_view2: "app2_keeps app \<Longrightarrow> view2 (sr_idle_check app clock r) = view2 r"
  by (simp add: sr_idle_check_def view2_call call_events_def) (simp add: view2_def)

lemma count_event_view2: "app2_keeps app \<Longrightarrow> sr_count_event app clock r = Some r' \<Longrightarrow> view2 r' = view2 r"
  by (auto simp: sr_count_event_def Let_def split: if_splits dest: check_timers_view2)

lemma thread2_rest_view: "app2_keeps app \<Longrightarrow> thread2_rest app clock r = Some r' \<Longrightarrow> view2 r' = view2 r"
  by (auto simp: thread2_rest_def rest2_idle_def rest2_both_def idle_check_view2 bind_eq_Some_conv split: if_splits
      dest: check_timers_view2)

lemma thread2_loop_view:
  assumes app: "app2_keeps app" and r': "thread2_loop app clock r = Some r'" and pop: "sr2_pop r = (p, r1)"
  shows "view2 r' = view2 (r1\<lparr>sr_at := (case p of Some p \<Rightarrow> In_hand p | None \<Rightarrow> At_high)\<rparr>)"
proof (cases p)
  case None
  consider "r' = r1\<lparr>sr_at := At_high\<rparr>"
    | r2 where "sr_check_timers app clock r1 = Some r2" "r' = r2\<lparr>sr_count := 0, sr_at := At_high\<rparr>"
    using r' pop None
    by (auto simp: thread2_loop_def loop2_plain_def loop2_timer_def loop2_both_def bind_eq_Some_conv split: if_splits)
  then have "view2 r' = view2 (r1\<lparr>sr_at := At_high\<rparr>)"
  proof cases
    case (2 r2)
    have "view2 (r2\<lparr>sr_count := 0\<rparr>) = view2 r1" using check_timers_view2 [OF app 2(1)] by simp
    then have "view2 (r2\<lparr>sr_count := 0\<rparr>\<lparr>sr_at := At_high\<rparr>) = view2 (r1\<lparr>sr_at := At_high\<rparr>)" by (rule view2_at)
    then show ?thesis using 2(2) by simp
  qed (simp only:)
  then show ?thesis using None by simp
next
  case (Some x)
  then show ?thesis using r' pop
    by (auto simp: thread2_loop_def loop2_plain_def loop2_timer_def loop2_both_def split: if_splits)
qed

lemma thread2_hand_view:
  assumes app: "app2_keeps app" and r': "thread2_hand app clock p r = Some r'"
  defines "e \<equiv> event_at (td_queue (sr_thread r)) p"
  shows "view2 r' = view2 (if ev_get_type e \<noteq> QUIT_EVENT then (sr_call app (Call_event e) r)\<lparr>sr_at := In_loop\<rparr> else sr2_quit app r)"
proof (cases "ev_get_type e = QUIT_EVENT")
  case True
  then show ?thesis using r' by (auto simp: thread2_hand_def hand2_plain_def hand2_timer_def e_def split: if_splits)
next
  case False
  then consider "r' = (sr_call app (Call_event e) r)\<lparr>sr_at := In_loop\<rparr>"
    | r2 where "sr_count_event app clock (sr_call app (Call_event e) r) = Some r2" "r' = r2\<lparr>sr_at := In_loop\<rparr>"
    using r' by (auto simp: thread2_hand_def hand2_plain_def hand2_timer_def e_def Let_def bind_eq_Some_conv split: if_splits)
  then have "view2 r' = view2 ((sr_call app (Call_event e) r)\<lparr>sr_at := In_loop\<rparr>)"
  proof cases
    case (2 r2)
    show ?thesis unfolding 2(2) by (rule view2_at [OF count_event_view2 [OF app 2(1)]])
  qed (simp only:)
  then show ?thesis using False by simp
qed

text \<open>Steps return if the handler keeps to the rules of the timers.\<close>

lemma lru_kept_put_queue [simp]: "lru_kept (sr_thread (put_queue q r)) = lru_kept (sr_thread r)"
  by (simp add: lru_kept_def put_queue_def)

lemma thread2_returns:
  assumes app: "app_timers app" and k: "lru_kept (sr_thread r)"
  shows "\<exists>r'. thread2_loop app clock r = Some r' \<and> lru_kept (sr_thread r')"
    "\<exists>r'. thread2_hand app clock a r = Some r' \<and> lru_kept (sr_thread r')"
    "\<exists>r'. thread2_rest app clock r = Some r' \<and> lru_kept (sr_thread r')"
proof -
  obtain p r1 where p: "sr2_pop r = (p, r1)" by (cases "sr2_pop r")
  then have k1: "lru_kept (sr_thread r1)" using k by (auto simp: sr2_pop_def split: prod.splits)
  have i: "lru_kept (sr_thread (sr_idle_check app clock u))" if "lru_kept (sr_thread u)" for u :: thread2_run
    using that app by (simp add: sr_idle_check_def)
  have ev: "\<exists>r'. sr_count_event app clock (sr_call app (Call_event x) r) = Some r' \<and> lru_kept (sr_thread r')" for x
    using check_timers_returns [OF app, of "(sr_call app (Call_event x) r)\<lparr>sr_count := 0\<rparr>" clock] app k
    by (simp add: sr_count_event_def Let_def)
  obtain r2 where r2: "sr_check_timers app clock r1 = Some r2" "lru_kept (sr_thread r2)"
    using check_timers_returns [OF app k1] by blast
  obtain r3 where r3: "sr_check_timers app clock r = Some r3" "lru_kept (sr_thread r3)"
    using check_timers_returns [OF app k] by blast
  show "\<exists>r'. thread2_loop app clock r = Some r' \<and> lru_kept (sr_thread r')"
    using p k1 app r2
    by (cases p) (auto simp: thread2_loop_def loop2_plain_def loop2_timer_def loop2_both_def)
  show "\<exists>r'. thread2_hand app clock a r = Some r' \<and> lru_kept (sr_thread r')"
    using k app ev [of "event_at (td_queue (sr_thread r)) a"]
    by (auto simp: thread2_hand_def hand2_plain_def hand2_timer_def sr2_quit_def Let_def)
  show "\<exists>r'. thread2_rest app clock r = Some r' \<and> lru_kept (sr_thread r')"
    using k r3 i [OF k] i [of "r3\<lparr>sr_count := 0\<rparr>"]
    by (auto simp: thread2_rest_def rest2_idle_def rest2_both_def)
qed

section \<open>The event in hand\<close>

text \<open>Its address is that of a slot, and what is there stays while nothing is copied to that slot.\<close>

definition in_slot :: "nat \<times> nat \<Rightarrow> event_queue \<Rightarrow> nat \<Rightarrow> bool" where
  "in_slot c q a \<longleftrightarrow> (\<exists>k < fst c. a = k * snd c) \<and> event_fits c (event_at q a)"

lemma event_of_fits:
  assumes "event_fits (cap, el) (event_of m)"
  shows "event_of (take el m) = event_of m"
proof -
  have e: "16 \<le> length (event_of m)" "length (event_of m) \<le> el" "ev_get_len (event_of m) = int (length (event_of m))"
    using assms by auto
  have "8 \<le> nat (ev_get_len m)" using e(1) by (simp add: event_of_def)
  then have "ev_get_len (event_of m) = ev_get_len m" by (simp add: event_of_def ev_get_len_take)
  then have "nat (ev_get_len m) \<le> el" using e(2,3) by simp
  moreover have "ev_get_len (take el m) = ev_get_len m" using e(1,2) by (intro ev_get_len_take) simp
  ultimately show ?thesis by (simp add: event_of_def min_def)
qed

lemma slot_kept:
  assumes inv: "eq_inv (cap, el) q" and e: "event_fits (cap, el) e" and room: "eq_size q < eq_capacity q"
    and m: "mem_copy (block (eq_pool q)) (eq_write q) e (nat (ev_get_len e)) = Some m"
    and a: "in_slot (cap, el) q a" "a \<noteq> eq_write q"
  shows "event_at (q\<lparr>eq_pool := Some m\<rparr>) a = event_at q a"
proof -
  obtain k where k: "k < cap" "a = k * el" using a(1) by (auto simp: in_slot_def)
  let ?w = "(eq_read q div el + unat (eq_size q)) mod cap" and ?b = "block (eq_pool q)"
  have i: "0 < cap" "16 \<le> el" "length ?b = cap * el" "eq_write q = ?w * el" using inv by auto
  have w: "?w < cap" "k \<noteq> ?w" using i(1,4) a(2) k by auto
  have l: "nat (ev_get_len e) = length e" "length e \<le> el" using e by auto
  have "m = take (?w * el) ?b @ e @ drop (?w * el + length e) ?b"
    using m unfolding i(4) l(1) by (auto simp: mem_copy_def mem_get_def mem_put_def bind_eq_Some_conv split: if_splits)
  then have "slots el m = (slots el ?b)[?w := e @ drop (length e) (slots el ?b ! ?w)]"
    using slots_put [of el ?b cap ?w e] i(2,3) w(1) l(2) by simp
  then have "slots el m ! k = slots el ?b ! k" using w(2) by simp
  moreover have "length m = cap * el" using length_mem_copy [OF m] i(3) by simp
  ultimately have s: "take el (drop a m) = take el (drop a ?b)"
    using nth_slots [of el m cap k] nth_slots [of el ?b cap k] i(2,3) k by simp
  have f: "event_fits (cap, el) (event_of (drop a ?b))" using a(1) by (simp add: in_slot_def event_at_def del: event_fits.simps)
  then have "event_of (take el (drop a m)) = event_of (drop a ?b)" unfolding s by (rule event_of_fits)
  then show ?thesis using event_of_slot [of cap el "drop a m"] f by (simp add: event_at_def del: event_fits.simps)
qed

text \<open>So an access of a \<^verbatim>\<open>stop\<close> leaves it.\<close>

lemma push_step_slot:
  assumes "eq_inv c q0" "event_fits c e" "pushing e p q0 q" "eq_push_step e p q = Some (p', q')"
    and "in_slot c q a" "p = Push_copy \<longrightarrow> a \<noteq> eq_write q"
  shows "event_at q' a = event_at q a" "in_slot c q' a"
proof -
  obtain cap el where c: "c = (cap, el)" by (cases c)
  show 1: "event_at q' a = event_at q a"
  proof (cases p)
    case Push_copy
    then have q: "q = q0" "eq_size q0 < eq_capacity q0" using assms(3) by auto
    obtain m where m: "mem_copy (block (eq_pool q)) (eq_write q) e (nat (ev_get_len e)) = Some m" "q' = q\<lparr>eq_pool := Some m\<rparr>"
      using assms(4) Push_copy by (auto simp: bind_eq_Some_conv split: if_splits)
    show ?thesis unfolding m(2)
      by (rule slot_kept [OF _ _ _ m(1)]) (use assms(1,2,5,6) q Push_copy c in auto)
  qed (use assms(4) in \<open>auto simp: event_at_def\<close>)
  show "in_slot c q' a" using assms(5) 1 by (simp add: in_slot_def)
qed

text \<open>And a popped event is there, in its slot.\<close>

lemma pop_in_slot:
  assumes inv: "eq_inv c q" and el: "eq_elems q = e # es"
  shows "\<exists>a q'. eq_pop q = (Some a, q') \<and> eq_inv c q' \<and> eq_elems q' = es \<and> event_at q' a = e \<and> in_slot c q' a"
proof -
  obtain cap len where c: "c = (cap, len)" by (cases c)
  obtain q' where q': "eq_pop_event q = (Some e, q')" "eq_inv c q'" "eq_elems q' = es" using events.pop_some [OF inv el] by blast
  then obtain a where a: "eq_pop q = (Some a, q')" "event_at q' a = e" by (auto simp: eq_pop_event_def split: prod.splits option.splits)
  have "event_fits c e" using events.held [OF inv, of e] el by simp
  moreover have "a = eq_read q" using a(1) by (simp add: eq_pop_def split: if_splits)
  moreover have "eq_read q = (eq_read q div len) * len" "eq_read q div len < cap" using inv by (auto simp: c)
  ultimately have "in_slot c q' a" using a(2) unfolding in_slot_def by (metis c fst_conv snd_conv)
  then show ?thesis using a q'(2,3) by blast
qed

section \<open>No event is lost or handled twice\<close>

definition in_hand :: "thread2_run \<Rightarrow> event list" where
  "in_hand r = (case sr_at r of In_hand a \<Rightarrow> [event_at (td_queue (sr_thread r)) a] | _ \<Rightarrow> [])"

definition part :: "thread2_run \<Rightarrow> event multiset" where
  "part r = mset (handled r) + mset (in_hand r) + mset (eq_elems (td_queue (sr_thread r)))"

definition shared :: "stage2 \<Rightarrow> event multiset" where
  "shared s = mset (eq_elems (s2_high s)) + mset (eq_elems (s2_low s))"

definition ended :: "thread2_run \<Rightarrow> nat" where
  "ended r = (if sr_at r = Gone then 1 else 0)"

definition shared_inv :: "nat \<times> nat \<Rightarrow> stage2 \<Rightarrow> bool" where
  "shared_inv c s \<longleftrightarrow> eq_inv c (s2_low s) \<and> (if s2_is_priority s then eq_inv c (s2_high s) else eq_elems (s2_high s) = [])"

definition thread2_inv :: "nat \<times> nat \<Rightarrow> thread2_run \<Rightarrow> bool" where
  "thread2_inv c r \<longleftrightarrow> stop_ok c (sr_stop r) (td_queue (sr_thread r)) \<and> lru_kept (sr_thread r) \<and>
     (\<forall>e \<in> set (handled r). ev_get_type e \<noteq> QUIT_EVENT) \<and> (\<forall>a. sr_at r = In_hand a \<longrightarrow> in_slot c (td_queue (sr_thread r)) a)"

text \<open>The accepted events: the quit event of each thread that has ended, and those of the parts.\<close>

definition balanced :: "event list \<Rightarrow> stage2 \<Rightarrow> bool" where
  "balanced acc s \<longleftrightarrow> (\<exists>Q. (\<forall>e \<in># Q. ev_get_type e = QUIT_EVENT) \<and> size Q = sum_list (map ended (s2_threads s)) \<and>
     mset acc = Q + sum_list (map part (s2_threads s)) + shared s)"

lemma sum_list_set:
  "i < length xs \<Longrightarrow> sum_list (map f (xs[i := x])) + f (xs ! i) = sum_list (map f xs) + (f x :: 'b::comm_monoid_add)"
proof (induction xs arbitrary: i)
  case (Cons y xs)
  then show ?case by (cases i) (simp_all add: ac_simps)
qed simp

lemma pop_into_balance:
  assumes "eq_inv (n, len) q" "eq_inv (b, len) p"
  shows "\<exists>ret q' p'. eq_pop_into q p = Some (ret, q', p') \<and> eq_inv (n, len) q' \<and> eq_inv (b, len) p' \<and>
    mset (eq_elems p') + mset (eq_elems q') = mset (eq_elems p) + mset (eq_elems q)"
proof -
  obtain ret q' p' k where x: "eq_pop_into q p = Some (ret, q', p')" "eq_inv (n, len) q'" "eq_inv (b, len) p'"
      "eq_elems q @ [] = take k (eq_elems q) @ eq_elems q'" "eq_elems p' = eq_elems p @ take k (eq_elems q)"
    using eq_pop_into_ok [OF assms order_refl] by blast
  have "mset (eq_elems q) = mset (take k (eq_elems q)) + mset (eq_elems q')"
    using arg_cong [OF x(4), of mset] by (simp only: append_Nil2 mset_append)
  then show ?thesis using x(1-3,5) by (auto simp: ac_simps simp del: eq_inv.simps)
qed

lemma in_hand_stop [simp]: "in_hand (r\<lparr>sr_stop := st\<rparr>) = in_hand r"
  by (cases "sr_at r") (simp_all add: in_hand_def)

lemma thread2_loop_ok:
  assumes app: "app2_keeps app" "app_timers app" and r: "thread2_inv c r" and at: "sr_at r = In_loop"
    and alone: "\<not> stopping r \<or> eq_empty (td_queue (sr_thread r))"
  shows "\<exists>r'. thread2_loop app clock r = Some r' \<and> thread2_inv c r' \<and> ended r' = 0 \<and> part r' = part r"
proof -
  let ?q = "td_queue (sr_thread r)"
  have k: "lru_kept (sr_thread r)" using r by (simp add: thread2_inv_def)
  obtain r' where r': "thread2_loop app clock r = Some r'" "lru_kept (sr_thread r')"
    using thread2_returns(1) [OF app(2) k] by blast
  show ?thesis
  proof (cases "eq_elems ?q")
    case Nil
    have "eq_size ?q = 0" using Nil by (simp add: eq_empty_elems [symmetric] eq_empty_def)
    moreover have "put_queue ?q r = r" by (simp add: put_queue_def)
    ultimately have "sr2_pop r = (None, r)" by (simp add: sr2_pop_def eq_pop_def)
    from thread2_loop_view [OF app(1) r'(1) this] have "view2 r' = view2 (r\<lparr>sr_at := At_high\<rparr>)" by simp
    then have "thread2_inv c r'" "part r' = part r" "ended r' = 0"
      using r r'(2) at by (auto simp: view2_def thread2_inv_def part_def ended_def in_hand_def handled_def)
    then show ?thesis using r'(1) by blast
  next
    case (Cons e es)
    then have n: "\<not> stopping r" using alone by (simp add: eq_empty_elems)
    have q: "eq_inv c ?q" using r not_stopping_inv [OF _ n] by (simp add: thread2_inv_def)
    obtain a q' where q': "eq_pop ?q = (Some a, q')" "eq_inv c q'" "eq_elems q' = es" "event_at q' a = e" "in_slot c q' a"
      using pop_in_slot [OF q Cons] by blast
    then have p: "sr2_pop r = (Some a, put_queue q' r)" by (simp add: sr2_pop_def)
    have "view2 r' = (q', In_hand a, handled r, sr_idle r, sr_timer r, sr_stop r)"
      using thread2_loop_view [OF app(1) r'(1) p] by (simp add: view2_def put_queue_def handled_def)
    then have "thread2_inv c r'" "part r' = part r" "ended r' = 0"
      using r r'(2) at q' Cons stop_ok_idle [OF q'(2) n]
      by (auto simp: view2_def thread2_inv_def part_def ended_def in_hand_def)
    then show ?thesis using r'(1) by blast
  qed
qed

text \<open>What is done with the event in hand.\<close>

lemma thread2_hand_ok:
  assumes app: "app2_keeps app" "app_timers app" and r: "thread2_inv c r" and at: "sr_at r = In_hand a"
  shows "\<exists>r' Q. thread2_hand app clock a r = Some r' \<and> thread2_inv c r' \<and> (\<forall>e \<in># Q. ev_get_type e = QUIT_EVENT) \<and>
    size Q = ended r' \<and> part r' + Q = part r"
proof -
  let ?q = "td_queue (sr_thread r)"
  let ?e = "event_at ?q a"
  have k: "lru_kept (sr_thread r)" using r by (simp add: thread2_inv_def)
  obtain r' where r': "thread2_hand app clock a r = Some r'" "lru_kept (sr_thread r')"
    using thread2_returns(2) [OF app(2) k] by blast
  note v = thread2_hand_view [OF app(1) r'(1)]
  show ?thesis
  proof (cases "ev_get_type ?e = QUIT_EVENT")
    case True
    then have "view2 r' = (?q, Gone, handled r, sr_idle r, sr_timer r, sr_stop r)"
      using v app(1) by (simp add: view2_def sr2_quit_def sr_call_def handled_def call_events_def app2_keeps_def)
    then have "thread2_inv c r'" "part r' + {#?e#} = part r" "ended r' = 1"
      using r r'(2) at by (auto simp: view2_def thread2_inv_def part_def ended_def in_hand_def)
    then show ?thesis using r'(1) True by (intro exI [of _ r'] exI [of _ "{#?e#}"]) simp
  next
    case False
    then have "view2 r' = (?q, In_loop, handled r @ [?e], sr_idle r, sr_timer r, sr_stop r)"
      using v app(1) by (simp add: view2_def sr_call_def handled_def call_events_def app2_keeps_def)
    then have "thread2_inv c r'" "part r' + {#} = part r" "ended r' = 0"
      using r r'(2) at False by (auto simp: view2_def thread2_inv_def part_def ended_def in_hand_def)
    then show ?thesis using r'(1) by (intro exI [of _ r'] exI [of _ "{#}"]) simp
  qed
qed

lemma put_queue_parts:
  assumes "p \<in> {At_low, At_rest}" "sr_at r \<in> {At_high, At_low}" "thread2_inv c r" "eq_inv c q" "\<not> stopping r"
  shows "thread2_inv c ((put_queue q r)\<lparr>sr_at := p\<rparr>) \<and>
    ended ((put_queue q r)\<lparr>sr_at := p\<rparr>) = ended r \<and> part ((put_queue q r)\<lparr>sr_at := p\<rparr>) = mset (handled r) + mset (eq_elems q) \<and>
    part r = mset (handled r) + mset (eq_elems (td_queue (sr_thread r)))"
  using assms lru_kept_put_queue [of q r] stop_ok_idle [OF assms(4,5)]
  by (auto simp: thread2_inv_def ended_def part_def put_queue_def handled_def in_hand_def)

lemma thread2_step_ok:
  assumes app: "app2_keeps app" "app_timers app" and r: "thread2_inv (b, len) r" and s: "shared_inv (n, len) s"
    and alone: "\<not> stopping r \<or> (sr_at r \<noteq> At_high \<and> sr_at r \<noteq> At_low \<and> (sr_at r = In_loop \<longrightarrow> eq_empty (td_queue (sr_thread r))))"
  shows "\<exists>r' s' Q. thread2_step app clock r s = Some (r', s') \<and> thread2_inv (b, len) r' \<and> shared_inv (n, len) s' \<and>
    s2_threads s' = s2_threads s \<and> (\<forall>e \<in># Q. ev_get_type e = QUIT_EVENT) \<and> size Q + ended r = ended r' \<and>
    part r' + shared s' + Q = part r + shared s"
proof (cases "sr_at r")
  case In_loop
  have al: "\<not> stopping r \<or> eq_empty (td_queue (sr_thread r))" using alone In_loop by simp
  from thread2_loop_ok [OF app r In_loop al, of clock] obtain r' where "thread2_loop app clock r = Some r'" "thread2_inv (b, len) r'"
      "ended r' = 0" "part r' = part r"
    by blast
  then show ?thesis using In_loop s
    by (intro exI [of _ r'] exI [of _ s] exI [of _ "{#}"]) (auto simp: thread2_step_def ended_def)
next
  case (In_hand a)
  from thread2_hand_ok [OF app r In_hand, of clock] obtain r' Q where "thread2_hand app clock a r = Some r'" "thread2_inv (b, len) r'"
      "\<forall>e \<in># Q. ev_get_type e = QUIT_EVENT" "size Q = ended r'" "part r' + Q = part r"
    by blast
  then show ?thesis using In_hand s
    by (intro exI [of _ r'] exI [of _ s] exI [of _ Q]) (auto simp: thread2_step_def ended_def ac_simps)
next
  case At_high
  then have ns: "\<not> stopping r" using alone by simp
  have q: "eq_inv (b, len) (td_queue (sr_thread r))" using r not_stopping_inv [of "(b, len)" r, OF _ ns] unfolding thread2_inv_def by blast
  show ?thesis
  proof (cases "s2_is_priority s")
    case True
    then have "eq_inv (n, len) (s2_high s)" using s by (simp add: shared_inv_def)
    from pop_into_balance [OF this q] obtain ret q' p' where x: "eq_pop_into (s2_high s) (td_queue (sr_thread r)) = Some (ret, q', p')"
        "eq_inv (n, len) q'" "eq_inv (b, len) p'"
        "mset (eq_elems p') + mset (eq_elems q') = mset (eq_elems (td_queue (sr_thread r))) + mset (eq_elems (s2_high s))"
      by blast
    have "thread2_step app clock r s = Some ((put_queue p' r)\<lparr>sr_at := At_low\<rparr>, s\<lparr>s2_high := q'\<rparr>)"
      using At_high True x(1) by (simp add: thread2_step_def s2_pop_high_def)
    moreover have "shared_inv (n, len) (s\<lparr>s2_high := q'\<rparr>)" using s True x(2) by (simp add: shared_inv_def del: eq_inv.simps)
    moreover have "mset (handled r) + mset (eq_elems p') + shared (s\<lparr>s2_high := q'\<rparr>) + {#} = part r + shared s"
      using x(4) At_high by (simp add: shared_def part_def in_hand_def ac_simps)
    ultimately show ?thesis using put_queue_parts [of At_low r _ p', OF _ _ r x(3) ns] At_high
      by (intro exI [of _ "(put_queue p' r)\<lparr>sr_at := At_low\<rparr>"] exI [of _ "s\<lparr>s2_high := q'\<rparr>"] exI [of _ "{#}"]) simp
  next
    case False
    then have "thread2_step app clock r s = Some ((put_queue (td_queue (sr_thread r)) r)\<lparr>sr_at := At_low\<rparr>, s)"
      using At_high by (simp add: thread2_step_def s2_pop_high_def)
    then show ?thesis using put_queue_parts [of At_low r _ "td_queue (sr_thread r)", OF _ _ r q ns] At_high s
      by (intro exI [of _ "(put_queue (td_queue (sr_thread r)) r)\<lparr>sr_at := At_low\<rparr>"] exI [of _ s] exI [of _ "{#}"])
        simp
  qed
next
  case At_low
  then have ns: "\<not> stopping r" using alone by simp
  have q: "eq_inv (b, len) (td_queue (sr_thread r))" using r not_stopping_inv [of "(b, len)" r, OF _ ns] unfolding thread2_inv_def by blast
  have "eq_inv (n, len) (s2_low s)" using s by (simp add: shared_inv_def)
  from pop_into_balance [OF this q] obtain ret q' p' where x: "eq_pop_into (s2_low s) (td_queue (sr_thread r)) = Some (ret, q', p')"
      "eq_inv (n, len) q'" "eq_inv (b, len) p'"
      "mset (eq_elems p') + mset (eq_elems q') = mset (eq_elems (td_queue (sr_thread r))) + mset (eq_elems (s2_low s))"
    by blast
  have "thread2_step app clock r s = Some ((put_queue p' r)\<lparr>sr_at := At_rest\<rparr>, s\<lparr>s2_low := q'\<rparr>)"
    using At_low x(1) by (simp add: thread2_step_def s2_pop_low_def)
  moreover have "shared_inv (n, len) (s\<lparr>s2_low := q'\<rparr>)" using s x(2) by (simp add: shared_inv_def del: eq_inv.simps)
  moreover have "mset (handled r) + mset (eq_elems p') + shared (s\<lparr>s2_low := q'\<rparr>) + {#} = part r + shared s"
    using x(4) At_low by (simp add: shared_def part_def in_hand_def ac_simps)
  ultimately show ?thesis using put_queue_parts [of At_rest r _ p', OF _ _ r x(3) ns] At_low
    by (intro exI [of _ "(put_queue p' r)\<lparr>sr_at := At_rest\<rparr>"] exI [of _ "s\<lparr>s2_low := q'\<rparr>"] exI [of _ "{#}"]) simp
next
  case At_rest
  have k: "lru_kept (sr_thread r)" using r by (simp add: thread2_inv_def)
  obtain r' where r': "thread2_rest app clock r = Some r'" "lru_kept (sr_thread r')"
    using thread2_returns(3) [OF app(2) k] by blast
  have v: "view2 r' = view2 r" by (rule thread2_rest_view [OF app(1) r'(1)])
  have "thread2_inv (b, len) (r'\<lparr>sr_at := In_loop\<rparr>)" using v r r'(2)
    by (simp add: view2_def thread2_inv_def) (simp add: handled_def)
  moreover have "part (r'\<lparr>sr_at := In_loop\<rparr>) = part r" "ended (r'\<lparr>sr_at := In_loop\<rparr>) = ended r"
    using v At_rest by (simp_all add: view2_def part_def ended_def in_hand_def handled_def)
  ultimately show ?thesis using At_rest r'(1) s
    by (intro exI [of _ "r'\<lparr>sr_at := In_loop\<rparr>"] exI [of _ s] exI [of _ "{#}"]) (simp add: thread2_step_def)
next
  case Gone
  then show ?thesis using r s by (intro exI [of _ r] exI [of _ s] exI [of _ "{#}"]) (simp add: thread2_step_def)
qed

definition s2_inv :: "nat \<times> nat \<Rightarrow> nat \<times> nat \<Rightarrow> stage2 \<Rightarrow> bool" where
  "s2_inv c b s \<longleftrightarrow> shared_inv c s \<and> (\<forall>r \<in> set (s2_threads s). thread2_inv b r)"

text \<open>A pushed event has a slot, and a thread that is stopped or runs is there.\<close>

definition act2_fits :: "nat \<times> nat \<Rightarrow> nat \<Rightarrow> stage2_action \<Rightarrow> bool" where
  "act2_fits c k a = (case a of Push2 e priority \<Rightarrow> event_fits c e | Stop2 i \<Rightarrow> i < k | Step2 i clock \<Rightarrow> i < k)"

lemma push_cases:
  assumes "eq_inv c q" "event_fits c e"
  obtains (taken) ret q' where "eq_push e q = Some (ret, q')" "eq_inv c q'" "\<not> ret < 0" "eq_elems q' = eq_elems q @ [e]" "eq_size q' \<noteq> eq_size q"
  | (refused) "eq_push e q = Some (- 1, q)"
proof (cases "length (eq_elems q) < fst c")
  case True
  obtain q' where q': "eq_push e q = Some (int (length (eq_elems q')), q')" "eq_inv c q'" "eq_elems q' = eq_elems q @ [e]"
    using events.push_room [OF assms True] by blast
  have "\<not> int (length (eq_elems q')) < 0" by linarith
  moreover have "eq_size q' \<noteq> eq_size q" using arg_cong [OF q'(3), of length] by auto
  ultimately show ?thesis using taken q' by blast
next
  case False
  then have "length (eq_elems q) = fst c" using events.bound [OF assms(1)] by simp
  then show ?thesis using refused events.push_full [OF assms(1)] by blast
qed

lemma s2_push_ok:
  assumes s: "shared_inv c s" and e: "event_fits c e"
  shows "\<exists>ret sig s'. s2_push_event e priority s = Some (ret, sig, s') \<and> shared_inv c s' \<and> s2_threads s' = s2_threads s \<and>
    shared s' = shared s + mset (if ret < 0 then [] else [e])"
proof (cases "s2_is_priority s \<and> priority = HIGH_PRIORITY")
  case True
  then have "eq_inv c (s2_high s)" using s by (simp add: shared_inv_def)
  then show ?thesis using e
  proof (cases rule: push_cases)
    case (taken ret q')
    then show ?thesis using True s by (simp add: s2_push_event_def shared_inv_def shared_def)
  next
    case refused
    then have "s2_push_event e priority s = Some (- 1, False, s)" using True by (auto simp: s2_push_event_def)
    then show ?thesis using s by (intro exI [of _ "- 1"] exI [of _ False] exI [of _ s]) simp
  qed
next
  case False
  have "eq_inv c (s2_low s)" using s by (simp add: shared_inv_def)
  then show ?thesis using e
  proof (cases rule: push_cases)
    case (taken ret q')
    then show ?thesis using False s by (simp add: s2_push_event_def shared_inv_def shared_def)
  next
    case refused
    then have "s2_push_event e priority s = Some (- 1, False, s)" using False by (auto simp: s2_push_event_def)
    then show ?thesis using s by (intro exI [of _ "- 1"] exI [of _ False] exI [of _ s]) simp
  qed
qed

lemma set_thread_inv:
  assumes "\<forall>r \<in> set (s2_threads s). thread2_inv b r" "shared_inv c s" "thread2_inv b r"
  shows "s2_inv c b (set_thread i r s) \<and> length (s2_threads (set_thread i r s)) = length (s2_threads s) \<and>
    shared (set_thread i r s) = shared s"
  using assms by (auto simp: s2_inv_def set_thread_def shared_inv_def shared_def split: if_splits dest!: set_update_subset_insert [THEN subsetD])

lemma balanced_set_thread:
  assumes i: "i < length (s2_threads s)" and b: "balanced acc s" and t: "s2_threads s' = s2_threads s"
    and Q: "\<forall>e \<in># Q. ev_get_type e = QUIT_EVENT" "size Q + ended (s2_threads s ! i) = ended r'"
    and p: "part r' + shared s' + Q = part (s2_threads s ! i) + shared s + mset es"
  shows "balanced (acc @ es) (set_thread i r' s')"
proof -
  let ?ts = "s2_threads s" and ?r = "s2_threads s ! i"
  obtain P where P: "\<forall>e \<in># P. ev_get_type e = QUIT_EVENT" "size P = sum_list (map ended ?ts)"
      "mset acc = P + sum_list (map part ?ts) + shared s"
    using b by (auto simp: balanced_def)
  have d: "sum_list (map ended (?ts[i := r'])) + ended ?r = sum_list (map ended ?ts) + ended r'"
    "sum_list (map part (?ts[i := r'])) + part ?r = sum_list (map part ?ts) + part r'"
    using sum_list_set [OF i] by blast+
  have "size (P + Q) = sum_list (map ended (?ts[i := r']))" using P(2) Q(2) d(1) by simp
  moreover have "mset (acc @ es) = (P + Q) + sum_list (map part (?ts[i := r'])) + shared s'"
  proof -
    have "(mset (acc @ es)) + part ?r = P + sum_list (map part ?ts) + (part ?r + shared s + mset es)"
      using P(3) by (simp add: ac_simps)
    also have "\<dots> = P + (sum_list (map part ?ts) + part r') + shared s' + Q" unfolding p [symmetric] by (simp add: ac_simps)
    also have "\<dots> = (P + Q) + sum_list (map part (?ts[i := r'])) + shared s' + part ?r" unfolding d(2) [symmetric] by (simp add: ac_simps)
    finally show ?thesis by (simp only: add_right_cancel)
  qed
  moreover have "shared (set_thread i r' s') = shared s'" by (simp add: set_thread_def shared_def)
  ultimately show ?thesis using P(1) Q(1) t unfolding balanced_def
    by (intro exI [of _ "P + Q"]) (auto simp: set_thread_def)
qed

text \<open>An access of a \<^verbatim>\<open>stop\<close>.\<close>

lemma thread2_stop_ok:
  assumes r: "thread2_inv (b, len) r"
    and alone: "\<And>c. sr_stop r = Some (c, Push_copy) \<Longrightarrow> sr_at r \<noteq> In_hand (eq_write (td_queue (sr_thread r)))"
  shows "\<exists>es r'. sd2_stop r = Some (es, r') \<and> thread2_inv (b, len) r' \<and> ended r' = ended r \<and> part r' = part r + mset es"
proof (cases "sr_stop r")
  case None
  then have "sd2_stop r = Some ([], r\<lparr>sr_stop := Some (False, Push_test)\<rparr>)" by (simp add: sd2_stop_def)
  then show ?thesis using r None by (simp add: thread2_inv_def stop_ok_def part_def ended_def handled_def del: eq_inv.simps)
next
  case (Some x)
  then obtain c p where st: "sr_stop r = Some (c, p)" by (cases x) auto
  let ?q = "td_queue (sr_thread r)" and ?quit = "signal_event QUIT_EVENT"
  obtain q0 where q0: "eq_inv (b, len) q0" "pushing ?quit p q0 ?q" using r st by (auto simp: thread2_inv_def stop_ok_def)
  have fit: "event_fits (b, len) ?quit" using quit_event_fits(1) inv_slot [OF q0(1)] by simp
  have el: "eq_elems ?q = eq_elems q0" by (rule pushing_elems [OF q0(1) fit q0(2)])
  show ?thesis
  proof (cases "done_push p")
    case True
    then have "eq_inv (b, len) ?q" using stop_ok_inv [of "(b, len)" "sr_stop r"] r st by (auto simp: thread2_inv_def)
    then show ?thesis using r st True by (simp add: sd2_stop_def thread2_inv_def stop_ok_def part_def ended_def handled_def del: eq_inv.simps)
  next
    case False
    obtain p' q' where x: "eq_push_step ?quit p ?q = Some (p', q')"
        "if stores p then (\<exists>ret. p' = Pushed ret) \<and> eq_inv (b, len) q' \<and> eq_elems q' = eq_elems q0 @ [?quit] \<and> length (eq_elems q0) < fst (b, len)
         else pushing ?quit p' q0 q'"
      using pushing_step [OF q0(1) fit q0(2)] by blast
    let ?r = "(put_queue q' r)\<lparr>sr_stop := Some (c, p')\<rparr>"
    have run: "sd2_stop r = Some (if stores p then [?quit] else [], ?r)" using st False x(1) by (simp add: sd2_stop_def)
    have q': "stop_ok (b, len) (Some (c, p')) q'" "mset (eq_elems q') = mset (eq_elems ?q) + mset (if stores p then [?quit] else [])"
      using x(2) q0(1) el pushing_elems [OF q0(1) fit, of p' q'] by (cases "stores p"; auto simp: stop_ok_def simp del: eq_inv.simps)+
    have hand: "event_at q' a = event_at ?q a \<and> in_slot (b, len) q' a" if "sr_at r = In_hand a" for a
      using push_step_slot [OF q0(1) fit q0(2) x(1), of a] that alone [of c] st r by (auto simp: thread2_inv_def)
    have "thread2_inv (b, len) ?r" using r q'(1) hand lru_kept_put_queue [of q' r] by (simp add: thread2_inv_def put_queue_def handled_def)
    moreover have "in_hand ?r = in_hand r" using hand by (cases "sr_at r") (auto simp: in_hand_def put_queue_def)
    then have "part ?r = part r + mset (if stores p then [?quit] else [])"
      using q'(2) by (simp add: part_def put_queue_def handled_def ac_simps)
    moreover have "ended ?r = ended r" by (simp add: ended_def put_queue_def)
    ultimately show ?thesis using run by blast
  qed
qed

lemma s2_act_ok:
  assumes app: "app2_keeps app" "app_timers app" and s: "s2_inv (n, len) (b, len) s"
    and a: "act2_fits (n, len) (length (s2_threads s)) a" and alone: "act2_alone a s"
  shows "\<exists>es s'. s2_act app a s = Some (es, s') \<and> s2_inv (n, len) (b, len) s' \<and> length (s2_threads s') = length (s2_threads s) \<and>
    (\<forall>acc. balanced acc s \<longrightarrow> balanced (acc @ es) s')"
proof (cases a)
  case (Push2 e priority)
  have "event_fits (n, len) e" "shared_inv (n, len) s" using a Push2 s by (simp_all add: act2_fits_def s2_inv_def)
  then obtain ret sig s' where x: "s2_push_event e priority s = Some (ret, sig, s')" "shared_inv (n, len) s'"
      "s2_threads s' = s2_threads s" "shared s' = shared s + mset (if ret < 0 then [] else [e])"
    using s2_push_ok [of "(n, len)" s e priority] by blast
  have "balanced (acc @ (if ret < 0 then [] else [e])) s'" if "balanced acc s" for acc
    using that x(3,4) by (auto simp: balanced_def)
  then show ?thesis using x s Push2 by (simp add: s2_inv_def)
next
  case (Stop2 i)
  let ?r = "s2_threads s ! i"
  have i: "i < length (s2_threads s)" and r: "thread2_inv (b, len) ?r" and si: "shared_inv (n, len) s"
    and ts: "\<forall>r \<in> set (s2_threads s). thread2_inv (b, len) r"
    using a Stop2 s by (auto simp: act2_fits_def s2_inv_def)
  have w: "sr_at ?r \<noteq> In_hand (eq_write (td_queue (sr_thread ?r)))" if "sr_stop ?r = Some (c, Push_copy)" for c
    using alone Stop2 i that by (simp add: arr_get_def)
  obtain es r' where x: "sd2_stop ?r = Some (es, r')" "thread2_inv (b, len) r'"
      "ended r' = ended ?r" "part r' = part ?r + mset es"
    using thread2_stop_ok [OF r] w by blast
  have "balanced (acc @ es) (set_thread i r' s)" if "balanced acc s" for acc
    by (rule balanced_set_thread [OF i that refl, of "{#}"]) (use x(3,4) in \<open>simp_all add: ac_simps\<close>)
  then show ?thesis using Stop2 i x(1) set_thread_inv [OF ts si x(2), of i] by (simp add: arr_get_def)
next
  case (Step2 i clock)
  let ?r = "s2_threads s ! i"
  have i: "i < length (s2_threads s)" and r: "thread2_inv (b, len) ?r" and si: "shared_inv (n, len) s"
    and ts: "\<forall>r \<in> set (s2_threads s). thread2_inv (b, len) r"
    using a Step2 s by (auto simp: act2_fits_def s2_inv_def)
  have al: "\<not> stopping ?r \<or> (sr_at ?r \<noteq> At_high \<and> sr_at ?r \<noteq> At_low \<and> (sr_at ?r = In_loop \<longrightarrow> eq_empty (td_queue (sr_thread ?r))))"
    using alone Step2 i by (simp add: arr_get_def)
  obtain r' s' Q where x: "thread2_step app clock ?r s = Some (r', s')" "thread2_inv (b, len) r'" "shared_inv (n, len) s'"
      "s2_threads s' = s2_threads s" "\<forall>e \<in># Q. ev_get_type e = QUIT_EVENT" "size Q + ended ?r = ended r'"
      "part r' + shared s' + Q = part ?r + shared s"
    using thread2_step_ok [OF app r si al] by blast
  have "balanced (acc @ []) (set_thread i r' s')" if "balanced acc s" for acc
    by (rule balanced_set_thread [OF i that x(4,5,6)]) (use x(7) in simp)
  moreover have "\<forall>r \<in> set (s2_threads s'). thread2_inv (b, len) r" using ts x(4) by simp
  ultimately show ?thesis using Step2 i x(1,4) set_thread_inv [OF _ x(3,2), of i] by (simp add: arr_get_def del: eq_inv.simps)
qed

lemma s2_exec_ok:
  assumes app: "app2_keeps app" "app_timers app"
  shows "s2_inv (n, len) (b, len) s \<Longrightarrow> \<forall>a \<in> set acts. act2_fits (n, len) (length (s2_threads s)) a \<Longrightarrow> s2_alone app acts s \<Longrightarrow>
    balanced acc s \<Longrightarrow> \<exists>es s'. s2_exec app acts s = Some (es, s') \<and> s2_inv (n, len) (b, len) s' \<and> balanced (acc @ es) s'"
proof (induction acts arbitrary: s acc)
  case (Cons a acts)
  have "act2_fits (n, len) (length (s2_threads s)) a" "act2_alone a s" using Cons.prems(2,3) by simp_all
  from s2_act_ok [OF app Cons.prems(1) this] obtain es s1 where x: "s2_act app a s = Some (es, s1)" "s2_inv (n, len) (b, len) s1"
      "length (s2_threads s1) = length (s2_threads s)" "balanced (acc @ es) s1"
    using Cons.prems(4) by blast
  have "s2_alone app acts s1" using Cons.prems(3) x(1) by simp
  then obtain es' s2 where y: "s2_exec app acts s1 = Some (es', s2)" "s2_inv (n, len) (b, len) s2" "balanced ((acc @ es) @ es') s2"
    using Cons.IH [OF x(2) _ _ x(4)] Cons.prems(2) x(3) by auto
  then show ?case using x(1) by simp
qed auto

section \<open>A stage from its opening\<close>

lemma open_ok:
  fixes clock :: uint64 and k us :: uint and signal priority :: bool and type :: int
  assumes app: "app2_keeps app" "app_timers app" and sizes: "sizes_ok h n len" "sizes_ok h (if b < 1 then 1 else b) len"
  defines "s \<equiv> snd (s2_open app clock h k n len us signal type b priority s2_new)"
  shows "s2_inv (unat n, unat len) (unat (if b < 1 then 1 else b), unat len) s" "balanced [] s"
    "length (s2_threads s) = unat (if k < 1 then 1 else k)"
proof -
  let ?b = "if b < 1 then 1 else b" and ?k = "if k < 1 then 1 else k"
  let ?r = "thread2_proc_start app clock (sd2_new h ?b len)"
  obtain q where q: "eq_init h n len eq_new = (1, q)" "eq_inv (unat n, unat len) q" "eq_elems q = []"
    using eq_init_ok [of n len h eq_new] sizes(1) by (auto simp: sizes_ok_def simp del: eq_inv.simps)
  have "0 < ?b \<and> 16 \<le> unat len \<and> unat ?b * unat len < 2 ^ 32 \<and> heap_ok h (unat ?b * unat len)"
    using sizes(2) unfolding sizes_ok_def .
  then obtain p where p: "eq_init h ?b len eq_new = (1, p)" "eq_inv (unat ?b, unat len) p" "eq_elems p = []"
    using eq_init_ok [of ?b len h eq_new] by blast
  have s: "s2_low s = q" "s2_high s = (if priority then q else eq_new)" "s2_is_priority s = priority" "s2_threads s = replicate (unat ?k) ?r"
    using q(1) by (simp_all add: s_def s2_open_def s2_new_def Let_def)
  have e: "eq_elems eq_new = []" by (simp add: eq_elems_def eq_new_def)
  have "lru_kept (sd2_new h ?b len)" by (simp add: lru_kept_def sd2_new_def)
  then have "lru_kept (sr_thread ?r)" using app(2) by (simp add: thread2_proc_start_def Let_def app_timers_def)
  moreover have "td_queue (sr_thread ?r) = p" using p(1) app(1) by (simp add: thread2_proc_start_def Let_def app2_keeps_def sd2_new_def)
  moreover have "handled ?r = []" by (simp add: thread2_proc_start_def Let_def handled_def call_events_def)
  ultimately have r: "thread2_inv (unat ?b, unat len) ?r" "part ?r = {#}" "ended ?r = 0"
    using p by (simp_all add: thread2_inv_def part_def ended_def in_hand_def stop_ok_def thread2_proc_start_def Let_def del: eq_inv.simps)
  have "shared_inv (unat n, unat len) s" using q e s(1-3) by (auto simp: shared_inv_def simp del: eq_inv.simps)
  then show "s2_inv (unat n, unat len) (unat ?b, unat len) s" using r(1) s(4) by (simp add: s2_inv_def)
  have "sum_list (map part (replicate m ?r)) = {#} \<and> sum_list (map ended (replicate m ?r)) = 0" for m
    using r(2,3) by (induction m) simp_all
  moreover have "shared s = {#}" using q(3) e s(1,2) by (simp add: shared_def)
  ultimately show "balanced [] s" unfolding balanced_def s(4) by (intro exI [of _ "{#}"]) simp
  show "length (s2_threads s) = unat ?k" using s(4) by simp
qed

lemma sum_ended: "sum_list (map ended rs) = length (filter (\<lambda>r. sr_at r = Gone) rs)"
  by (induction rs) (auto simp: ended_def)

lemma sum_part: "sum_list (map part rs) =
    mset (concat (map handled rs)) + mset (concat (map in_hand rs)) + mset (concat (map (\<lambda>r. eq_elems (td_queue (sr_thread r))) rs))"
  by (induction rs) (simp_all add: part_def ac_simps)

text \<open>C40:
  No event is lost, invented or handled twice by threads that share their queues.  For a stage whose queues could be
  allocated (slots of at least 16 bytes, pools of less than \<open>2 ^ 32\<close> bytes), a handler that leaves the threads' queues to
  them and its timers alone while one expires, pushed events that state their length and fit a slot, and any interleaving of
  pushes of either priority, of the steps of the threads and of the single accesses of one \<^verbatim>\<open>stop\<close> after the other of a
  thread, in which (the program has no lock that would exclude it: \<open>stop2_overwrites_event_in_use\<close>,
  \<open>overlapping_stop2_counts_twice\<close>) a thread neither pops from its own queue nor fills it while the push of its \<^verbatim>\<open>stop\<close> is
  under way, and that push does not copy into the slot of the event the thread has in hand: every call returns, and the
  accepted events are, counted with their multiplicity, exactly: those that some thread's handler has got, those that a
  thread has in hand, those in the threads' own queues, those in the shared queues, and one quit event for each thread that
  has ended.  No handler gets a quit event.
\<close>

theorem shared_events_exactly_once:
  assumes "app2_keeps app" "app_timers app" "sizes_ok h n len" "sizes_ok h (if b < 1 then 1 else b) len"
    and "\<forall>a \<in> set acts. act2_fits (unat n, unat len) (unat (if k < 1 then 1 else k)) a"
    and "s2_alone app acts (snd (s2_open app clock h k n len us signal type b priority s2_new))"
  shows "\<exists>acc s Q. s2_exec app acts (snd (s2_open app clock h k n len us signal type b priority s2_new)) = Some (acc, s) \<and>
    (\<forall>e \<in># Q. ev_get_type e = QUIT_EVENT) \<and> size Q = length (filter (\<lambda>r. sr_at r = Gone) (s2_threads s)) \<and>
    mset acc = mset (concat (map handled (s2_threads s))) + mset (concat (map in_hand (s2_threads s))) +
      mset (concat (map (\<lambda>r. eq_elems (td_queue (sr_thread r))) (s2_threads s))) +
      mset (eq_elems (s2_high s) @ eq_elems (s2_low s)) + Q \<and>
    (\<forall>e \<in> set (concat (map handled (s2_threads s))). ev_get_type e \<noteq> QUIT_EVENT)"
proof -
  let ?s = "snd (s2_open app clock h k n len us signal type b priority s2_new)"
  note o = open_ok [OF assms(1-4), of clock k us signal type priority]
  have "\<forall>a \<in> set acts. act2_fits (unat n, unat len) (length (s2_threads ?s)) a" using assms(5) unfolding o(3) .
  then obtain acc s where s: "s2_exec app acts ?s = Some (acc, s)" "s2_inv (unat n, unat len) (unat (if b < 1 then 1 else b), unat len) s"
      "balanced ([] @ acc) s"
    using s2_exec_ok [OF assms(1,2) o(1) _ assms(6) o(2)] by blast
  obtain Q where "\<forall>e \<in># Q. ev_get_type e = QUIT_EVENT" "size Q = sum_list (map ended (s2_threads s))"
      "mset acc = Q + sum_list (map part (s2_threads s)) + shared s"
    using s(3) by (auto simp: balanced_def)
  then show ?thesis using s(1,2) sum_ended [of "s2_threads s"] sum_part [of "s2_threads s"]
    by (intro exI [of _ acc] exI [of _ s] exI [of _ Q]) (auto simp: shared_def s2_inv_def thread2_inv_def ac_simps)
qed

definition demo_app2 :: thread2_app where
  "demo_app2 c t = (case c of Call_open \<Rightarrow> snd (sd_enable_idle_event True t) | _ \<Rightarrow> t)"

lemma demo_app2_ok: "app2_keeps demo_app2" "app_timers demo_app2"
  by (auto simp: app2_keeps_def app_timers_def demo_app2_def sd_enable_idle_event_def lru_kept_def split: seda_call.splits)

text \<open>Thread 1 handles an event of either priority; thread 0 is stopped and ends.\<close>

theorem shared_events_exactly_once_witness:
  "\<exists>acc s Q. s2_exec demo_app2 ([Push2 (signal_event 7) 2, Step2 1 3, Step2 1 3, Push2 (signal_event 8) 1, Step2 1 4, Step2 1 4, Step2 1 4] @
        replicate 7 (Stop2 0) @ [Step2 1 5, Step2 0 5, Step2 0 5])
      (snd (s2_open demo_app2 0 all_heap 2 2 16 1000 True 0 0 True s2_new)) = Some (acc, s) \<and>
    size Q = length (filter (\<lambda>r. sr_at r = Gone) (s2_threads s)) \<and>
    mset acc = mset (concat (map handled (s2_threads s))) + mset (concat (map in_hand (s2_threads s))) +
      mset (concat (map (\<lambda>r. eq_elems (td_queue (sr_thread r))) (s2_threads s))) +
      mset (eq_elems (s2_high s) @ eq_elems (s2_low s)) + Q"
proof -
  let ?acts = "[Push2 (signal_event 7) 2, Step2 1 3, Step2 1 3, Push2 (signal_event 8) 1, Step2 1 4, Step2 1 4, Step2 1 4] @
        replicate 7 (Stop2 0) @ [Step2 1 5, Step2 0 5, Step2 0 5]"
  have n: "sizes_ok all_heap 2 16" and b: "sizes_ok all_heap (if (0 :: uint) < 1 then 1 else 0) 16" by (simp_all add: sizes_ok_def all_heap_def)
  have "event_fits (unat (2 :: uint), unat (16 :: uint)) (signal_event 7)" "event_fits (unat (2 :: uint), unat (16 :: uint)) (signal_event 8)"
    by (simp_all add: signal_event_def seda_event_def ev_get_len_def le_word_le_bytes to_uint_def)
  then have f: "\<forall>a \<in> set ?acts. act2_fits (unat (2 :: uint), unat (16 :: uint)) (unat (if (2 :: uint) < 1 then 1 else 2 :: uint)) a"
    by (simp add: act2_fits_def)
  have al: "s2_alone demo_app2 ?acts (snd (s2_open demo_app2 0 all_heap 2 2 16 1000 True 0 0 True s2_new))"
    by code_simp
  show ?thesis using shared_events_exactly_once [OF demo_app2_ok n b f al] by blast
qed

section \<open>Closing\<close>

text \<open>A thread whose standby queue has room ends, and so the \<^verbatim>\<open>join\<close> of \<^verbatim>\<open>close\<close> returns.\<close>

lemma ev_whole_stop:
  "length S < cap \<Longrightarrow> ev_exec cap (replicate 7 Stop @ acts) ((A, S, p, H), 0) =
     (let (es, s) = ev_exec cap acts ((A, S @ [signal_event QUIT_EVENT], p, H), 0) in (signal_event QUIT_EVENT # es, s))"
  by (simp add: numeral_eq_Suc Let_def split: prod.split)

lemma ev_whole_stop_alone:
  "length S < cap \<Longrightarrow> ev_alone cap (replicate 7 Stop @ map Step clocks) ((A, S, p, H), 0)"
  by (simp add: numeral_eq_Suc steps_alone)

lemma join_ends:
  assumes app: "app_keeps app" "app_timers app" and r: "sr_inv c r" "lru_kept (sr_thread r)" "sr_stop r = None"
    and e: "ev_ok acc (fst (sr_abs r))" "ev_place (fst (sr_abs r))"
    and room: "length (eq_elems (sd_standby (sr_thread r))) < fst c" and n: "length (waiting r) + 3 \<le> length clocks"
  shows "\<exists>r'. sg_join app [replicate 7 Stop @ map Step clocks] [r] = Some [r']"
proof -
  let ?acts = "replicate 7 Stop @ map Step clocks" and ?A = "eq_elems (sd_active (sr_thread r))" and ?S = "eq_elems (sd_standby (sr_thread r))"
  have abs: "sr_abs r = ((?A, ?S, sr_at r, handled r), 0)" using r(3) by (simp add: sr_abs_def stop_no_def)
  have f: "\<forall>a \<in> set ?acts. act_fits c a" by (auto simp: act_fits_def)
  have al: "stop_alone app ?acts r"
    by (rule stop_alone_abs [OF app(1) r(1) f]) (use ev_whole_stop_alone [OF room] abs in simp)
  obtain es r' where x: "stage_exec app ?acts r = Some (es, r')"
    using stage_exec_returns [OF app r(1,2) f al] by blast
  have ex: "(es, sr_abs r') = ev_exec (fst c) ?acts ((?A, ?S, sr_at r, handled r), 0)"
    using stage_exec_refines [OF app(1) r(1) f al x] abs by simp
  let ?s = "(?A, ?S @ [signal_event QUIT_EVENT], sr_at r, handled r)"
  have pl: "ev_place ?s" using e(2) by (simp add: abs ev_place_def)
  obtain s' where s': "ev_exec (fst c) (map Step clocks) (?s, 0) = ([], s', 0)" "ev_left s' \<le> ev_left ?s - length clocks"
    using ev_exec_steps [OF pl] by blast
  have z: "es = [signal_event QUIT_EVENT]" "sr_abs r' = (s', 0)" using ex unfolding ev_whole_stop [OF room] s'(1) by simp_all
  have "ev_left ?s \<le> length clocks" by (rule le_trans [OF ev_left_bound]) (use n in \<open>simp add: waiting_def\<close>)
  then have l: "ev_left s' = 0" using s'(2) by simp
  have ok: "ev_ok (acc @ es) s'" using ev_exec_ok [OF e [unfolded abs], of "fst c" ?acts es "(s', 0)"] ex abs z(2) by simp
  obtain A S p H where s4: "s' = (A, S, p, H)" by (cases s')
  have "(p = Ended) = (\<exists>e \<in> set (acc @ es). ev_get_type e = QUIT_EVENT)"
    by (rule conjunct1 [OF conjunct2 [OF ev_done [OF ok [unfolded s4] l [unfolded s4]]]])
  then have "p = Ended" using z(1) quit_event_fits(2) by simp
  then have at: "sr_at r' = Ended" "stop_no (sr_stop r') = 0" using z(2) s4 by (simp_all add: sr_abs_def)
  moreover have "sr_stop r' = None" using at(2) by (cases "sr_stop r'") (auto simp: stop_no_def split: push_place.splits)
  ultimately show ?thesis using x by simp
qed

section \<open>What stopping a thread of the second kind can do\<close>

text \<open>
  With a full queue of its own a thread of the second kind does not get the quit event either.  And the
  queue of a thread that has in hand the event it has just popped has room for it only in the slot of that
  very event, if it was full before: \<^verbatim>\<open>stop\<close> by the closing thread turns that event into a quit event, and the thread ends without
  having handled it.  A pop between the reading and the writing of the size is undone: the popped event counts
  as waiting again.
\<close>

lemma stop2_lost_when_full:
  assumes "sr_stop r = None" "eq_inv c (td_queue (sr_thread r))" "length (eq_elems (td_queue (sr_thread r))) = fst c"
    and "i < length (s2_threads s)" "s2_threads s ! i = r"
  shows "s2_exec app [Stop2 i, Stop2 i, Stop2 i] s = Some ([], s)"
proof -
  have "\<not> eq_size (td_queue (sr_thread r)) < eq_capacity (td_queue (sr_thread r))"
    using assms(2,3) by (cases c) (simp add: word_less_nat_alt)
  moreover have "r\<lparr>sr_stop := None\<rparr> = r" using assms(1) by (cases r) simp
  then have "(s2_threads s)[i := r\<lparr>sr_stop := None\<rparr>] = s2_threads s" using assms(4,5) list_update_id by metis
  ultimately show ?thesis using assms(1,4,5)
    by (simp add: sd2_stop_def done_push_def stores_def arr_get_def set_thread_def put_queue_def)
qed

lemma stop2_overwrites_event_in_use:
  "map_option (\<lambda>(acc, s). (map ev_get_type acc, map (\<lambda>r. (sr_at r, handled r, map ev_get_type (eq_elems (td_queue (sr_thread r))))) (s2_threads s)))
     (s2_exec (\<lambda>c t. t) ([Push2 (signal_event 7) 0, Push2 (signal_event 8) 0] @ replicate 5 (Step2 0 1) @ replicate 7 (Stop2 0) @ [Step2 0 1])
       (snd (s2_open (\<lambda>c t. t) 0 all_heap 1 4 16 1000 True 0 2 False s2_new))) =
   Some ([7, 8, 0], [(Gone, [], [8, 0])])"
  by code_simp

lemma overlapping_stop2_counts_twice:
  "map_option (\<lambda>(acc, s). (map ev_get_type acc, map (\<lambda>r. (map ev_get_type (handled r), unat (eq_size (td_queue (sr_thread r))))) (s2_threads s)))
     (s2_exec (\<lambda>c t. t) ([Push2 (signal_event 7) 0] @ replicate 4 (Step2 0 1) @ replicate 5 (Stop2 0) @ replicate 2 (Step2 0 1) @ [Stop2 0])
       (snd (s2_open (\<lambda>c t. t) 0 all_heap 1 4 16 1000 True 0 4 False s2_new))) =
   Some ([7, 0], [([7], 2)])"
  by code_simp

end
