(* ===== verification/Spec2Isabelle.thy ===== *)
theory Spec2Isabelle
  imports SL_MessageHandler SL_SendControl SL_CompactProtocol SL_Queues SL_Disruptor SL_Codecs SL_StringSearch SL_Checksums SL_Memory SL_Timer SL_LRU SL_BinaryProtocol SL_RpcMessage SL_RpcClass SL_ObjectPools SL_Fsm SL_DataConvert SL_HashTree SL_SendManager SL_SedaStage
begin

text \<open>
  The verification library of SocketLite, a C++ framework of sockets, event queues, codecs and
  containers (\<^verbatim>\<open>include/\<close> and \<^verbatim>\<open>src/\<close> of the repository).

  The parts and how they interact.  An event loop (not modelled) calls
  \<^verbatim>\<open>SL_Socket_Message_Handler::handle_read\<close>, which receives into a byte buffer, cuts
  the stream into messages by a length field the socket source describes, and hands each message up.
  On the way out a connection is a \<^verbatim>\<open>SL_Socket_SendControl_Handler\<close>: messages are sealed,
  sent at once or queued, and flushed by a send thread.  Between threads, events travel through the
  ring queues and the disruptor queues; stages keep their deadlines in timer queues and their objects in
  tables and pools.  The codecs, checksums, the search and memory routines and the Thrift protocols are the
  leaves these parts call.

  Theories, each with the files under \<^verbatim>\<open>include/\<close> and \<^verbatim>\<open>src/\<close> it models:

  \<^item> \<open>SL_Prelude\<close>: the integer types of \<^verbatim>\<open>SL_DataType.h\<close> as words, raw blocks as lists
    of bytes with checked reads and writes, the collections \<open>block_simps\<close> and the like.
  \<^item> \<open>SL_ByteBuffer\<close> (\<^verbatim>\<open>SL_ByteBuffer.h\<close>, \<^verbatim>\<open>SL_Malloc.h\<close>): the record \<open>byte_buffer\<close>, one
    definition for a member function; every run is a queue of bytes over a bounded block.
  \<^item> \<open>SL_SocketSource\<close> (\<^verbatim>\<open>SL_Socket_Source.h\<close>): the codecs of the length field; locale
    \<open>msglen_codec\<close>, interpreted on the five codecs and on the choice between them.
  \<^item> \<open>SL_MessageHandler\<close> (\<^verbatim>\<open>SL_Socket_Message_Handler.h\<close>, \<^verbatim>\<open>.cpp\<close>): framing; the
    specification is the function that cuts the whole stream, the code is shown to deliver its messages for
    every way the network splits the stream, and on every error branch.
  \<^item> \<open>SL_SendControl\<close> (\<^verbatim>\<open>SL_Socket_SendControl_Handler.h\<close>, \<^verbatim>\<open>SL_Socket_SendControl_HandlerManager.cpp\<close>):
    the send side; the bytes on the wire, followed by what is queued, are what was accepted.
  \<^item> \<open>SL_CryptoAES\<close> (\<^verbatim>\<open>SL_Crypto_AES.cpp\<close>): the class around AES, which pads to whole blocks and runs over them; the
    function of one block is a parameter.
  \<^item> \<open>SL_Varint\<close>, \<open>SL_Wire\<close>, \<open>SL_CompactProtocol\<close> (\<^verbatim>\<open>SL_Rpc_Thrift_CompactProtocol.h\<close>, \<^verbatim>\<open>.cpp\<close>):
    the unrolled variable-length integers, the contract of a wire protocol (locale \<open>wire_protocol\<close>) and
    the compact protocol as its interpretation \<open>compact\<close>.
  \<^item> \<open>SL_Ring\<close>, \<open>SL_Queues\<close> (\<^verbatim>\<open>SL_CircularQueue.h\<close>, \<^verbatim>\<open>SL_Utility_CircularQueue.h\<close>, \<^verbatim>\<open>SL_CircularBuffer.h\<close>):
    rings of slots; locale \<open>bounded_queue\<close> with the interpretations \<open>circular\<close> and \<open>masked\<close>.  The masked queue counts with
    \<^verbatim>\<open>int64\<close>: a count that leaves its range is \<open>None\<close>.
  \<^item> \<open>SL_Disruptor\<close> (\<^verbatim>\<open>SL_Disruptor_LockFreeQueue.h\<close>, \<^verbatim>\<open>SL_Disruptor_SingleWriteQueue.h\<close>,
    \<^verbatim>\<open>SL_Disruptor_Handler.h\<close>): an inductive step relation of producers and consumers, one access
    to an atomic a step, and its invariant by rule induction.
  \<^item> \<open>SL_Codecs\<close> (\<^verbatim>\<open>SL_Crypto_Base64.cpp\<close>, \<^verbatim>\<open>SL_Crypto_Hex.cpp\<close>, \<^verbatim>\<open>SL_Crypto_UrlCode.cpp\<close>): locale
    \<open>text_codec\<close> with three interpretations.
  \<^item> \<open>SL_StringSearch\<close> (\<^verbatim>\<open>SL_Utility_StringSearcher.h\<close>): the table search and the search by words.
  \<^item> \<open>SL_CRC\<close>, \<open>SL_CRC32_Tables\<close>, \<open>SL_CRC_Tables\<close>, \<open>SL_ChecksumStream\<close>, \<open>SL_Checksum\<close>, \<open>SL_Adler\<close>,
    \<open>SL_Checksums\<close> (\<^verbatim>\<open>SL_Crypto_CRC16.cpp\<close>, \<^verbatim>\<open>SL_Crypto_CRC32.cpp\<close>, \<^verbatim>\<open>SL_Crypto_CRC32C.cpp\<close>, \<^verbatim>\<open>SL_Crypto_CRC64.cpp\<close>,
    \<^verbatim>\<open>SL_Crypto_Adler32.cpp\<close>): the tables entry by entry, locale \<open>crc_slicing\<close> (four bytes at a time are four single
    bytes) and locale \<open>checksum_stream\<close> (updates with pieces are one pass), interpreted on all five classes.
  \<^item> \<open>SL_Memory_Cases\<close>, \<open>SL_Memory\<close> (\<^verbatim>\<open>SL_Utility_Memory.cpp\<close>): the two switches case by case; locale
    \<open>unrolled_memory\<close>, interpreted for copying and for clearing.
  \<^item> \<open>SL_TimerList\<close>, \<open>SL_Timer\<close> (\<^verbatim>\<open>SL_Seda_Timer.h\<close>, \<^verbatim>\<open>SL_Seda_TimerQueue.h\<close>, \<^verbatim>\<open>.cpp\<close>): linked lists over a pool of
    timers, refined to sequences (locale \<open>timer_sequence\<close>), and the two timer queues.
  \<^item> \<open>SL_LRU\<close> (\<^verbatim>\<open>SL_LRUHashtable.h\<close>): the table of least recently used entries, refined to a bounded list up to the first eviction,
    which reads an erased node.
  \<^item> \<open>SL_BinaryProtocol\<close> (\<^verbatim>\<open>SL_Rpc_Thrift_BinaryProtocol.h\<close>): the same contract, interpreted as \<open>binary\<close>, and what its
    reader does on any input.
  \<^item> \<open>SL_RpcHead\<close>, \<open>SL_RpcMessage\<close> (\<^verbatim>\<open>SL_Rpc_Message.h\<close>): the four message heads in memory as interpretations of the
    locale \<open>rpc_head\<close>, and the parser that carries a list of destinations behind the body.
  \<^item> \<open>SL_RpcClass\<close> (\<^verbatim>\<open>SL_Rpc_Message.h\<close>): the message class, which puts head, Thrift body and
    destinations together in a byte buffer.
  \<^item> \<open>SL_DataConvert\<close> (\<^verbatim>\<open>SL_Utility_DataConvert.h\<close>, \<^verbatim>\<open>SL_Utility_DataConvert.cpp\<close>): the decimal writers of
    Linux and Windows and the four readers, all compared with one definition of the decimal text.
  \<^item> \<open>SL_HashTree\<close> (\<^verbatim>\<open>SL_Utility_HashTreeMap.h\<close>, \<^verbatim>\<open>SL_Utility_HashTreeSet.h\<close>): the hash trees over buckets
    from a pool of chunks, as a map when one thread uses them and as steps of many threads.
  \<^item> \<open>SL_SendManager\<close> (\<^verbatim>\<open>SL_Socket_SendControl_HandlerManager.h\<close> and \<^verbatim>\<open>.cpp\<close>): the manager of the send
    threads: assigning connections to threads, the pass of each loop over a thread's list, waking, and giving closed
    connections back; the array that \<^verbatim>\<open>event_loop\<close> fills is there only on a manager without threads.
  \<^item> \<open>SL_SedaQueue\<close> (\<^verbatim>\<open>SL_Seda_Event.h\<close>, \<^verbatim>\<open>SL_Seda_EventQueue.h\<close>): events as bytes and the ring of slots
    they are copied into, an interpretation of the locale \<open>event_fifo\<close>.
  \<^item> \<open>SL_SedaThread\<close> (\<^verbatim>\<open>SL_Seda_StageThread.h\<close>): the thread with two queues, its four loops as steps
    between which others push, and their refinement to two sequences of events.  The handler of the stage is a parameter.
  \<^item> \<open>SL_SedaStage\<close> (\<^verbatim>\<open>SL_Seda_Stage.h\<close>, \<^verbatim>\<open>SL_Seda_Stage2.h\<close>, \<^verbatim>\<open>SL_Seda_StageThread2.h\<close>): the stage
    that spreads events over its threads, and the one whose threads share two queues: no event is lost or handled twice.
    Popping an event and reading it at its address are two steps, the push of \<^verbatim>\<open>stop\<close> its single accesses.
  Correspondence.  A class is a record of its members, a member function a definition of its name
  (prefixed where names clash) that returns the new record beside its result.  Integers keep their width
  as words wherever they can wrap; a size the code keeps in \<^verbatim>\<open>size_t\<close> of a block in memory is a natural number
  where the block bounds it.  Undefined behaviour (an access outside a block, a dangling pointer, a failing assertion) is
  \<open>None\<close>, so a theorem that a call answers \<open>Some\<close> says that it stays inside its blocks.
  What the platform does is an argument: the results of \<^verbatim>\<open>recv\<close> and \<^verbatim>\<open>send\<close>, the allocator, the cipher, the
  callbacks of the application.

  Loops.  Loops that count are structural recursion or have a measure.  Loops that may run forever are
  \<^theory_text>\<open>partial_function (option)\<close>: the push without a limit (\<open>uq_forever\<close>), the failure links of the table search
  (\<open>kmp_back\<close>), the loop that fires timers (\<open>expire_loop\<close>), the walk along the table (\<open>lru_keys_from\<close>) and the loop over pairs of digits (\<open>pairs_loop\<close>); the
  properties about them state that they return.  No fuel is used.  The block of 5552 bytes after which Adler-32 reduces its
  registers is the source's constant; that the registers cannot wrap within it is part of the proof.

  Not modelled.  Everything that is a call of the platform: sockets, event loops, threads and locks, files, clocks,
  random numbers.  Operations under a mutex are single steps, which is what the mutex makes them; atomics are
  sequentially consistent.  What the code does to shared data without a lock is cut into its accesses where another thread can
  get in its way: the pushes of \<^verbatim>\<open>stop\<close> (\<open>SL_SedaThread\<close>, \<open>SL_SedaStage\<close>), the queues of the disruptor, the searches of the hash
  tree; the theorems name the overlaps that they exclude, and lemmas show what these do.  Third-party code copied into the
  repository (Thrift, MD5, SHA, the rounds of AES) is left aside, as are
  \<^verbatim>\<open>SL_Utility_Memory_old.cpp\<close> and \<^verbatim>\<open>SL_Utility_Memory_new.cpp\<close>, which the build does not use and which repeat the modelled
  file.  The wide accesses of the memory routines are taken as what the hardware does with unaligned addresses, as the code
  expects.  Floating point values appear only as bit patterns.
  The swap queue (\<^verbatim>\<open>SL_Utility_TwoPointerSwapQueue.h\<close>), the queues of \<^verbatim>\<open>SL_Utility_LockFreeQueue .h\<close> and
  \<^verbatim>\<open>SL_Utility_TwoLockQueue.h\<close> and the timers in standard lists (\<^verbatim>\<open>SL_Timer_List_Clock.h\<close> and its siblings) are
  not modelled: no modelled component calls them.
\<close>

end
